(* ===== verification/SifarPrelude.thy ===== *)
theory SifarPrelude
  imports Main "HOL-Library.Word" "HOL-Library.Signed_Division"
begin

unbundle bit_operations_syntax

text \<open>
  Shared vocabulary of the SifarOS development: the fixed width integer types of
  \<^verbatim>\<open>include/kernel/types.h\<close>, its alignment macros, the page constants of
  \<^verbatim>\<open>include/kernel/mm.h\<close>, and the generic facts about words, alignment and lists that the
  component theories use.  The collection \<open>u_simps\<close> holds the rewrite rules
  that move a word expression to the natural numbers.
\<close>

section \<open>Integer types\<close>

type_synonym u8 = "8 word"
type_synonym u16 = "16 word"
type_synonym u32 = "32 word"
type_synonym u64 = "64 word"
type_synonym phys_addr = "32 word"
type_synonym virt_addr = "32 word"

named_theorems u_simps

definition PAGE_SIZE :: u32 where "PAGE_SIZE = 4096"

definition USER_MIN :: u32 where "USER_MIN = 0x40000000"

definition USER_MAX :: u32 where "USER_MAX = 0xD0000000"

definition ALIGN_UP :: "u32 \<Rightarrow> u32 \<Rightarrow> u32" where
  "ALIGN_UP x a = (x + (a - 1)) AND NOT (a - 1)"

definition ALIGN_DOWN :: "u32 \<Rightarrow> u32 \<Rightarrow> u32" where
  "ALIGN_DOWN x a = x AND NOT (a - 1)"

section \<open>Words as natural numbers\<close>

lemma unat_lt2p: "unat w < 2 ^ LENGTH('a)"
  for w :: "'a::len word"
  by (rule unsigned_less)

lemma unat_plus_simple: "unat a + unat b < 2 ^ LENGTH('a) \<Longrightarrow> unat (a + b) = unat a + unat b"
  for a b :: "'a::len word"
  by (simp add: unat_word_ariths)

lemma unat_plus_one [u_simps]: "unat a + 1 < 2 ^ LENGTH('a) \<Longrightarrow> unat (a + 1) = unat a + 1"
  for a :: "'a::len word"
  by (simp add: unat_plus_simple unat_1 unat_word_ariths)

lemma unat_minus_simple: "b \<le> a \<Longrightarrow> unat (a - b) = unat a - unat b"
  for a b :: "'a::len word"
  by (simp add: unat_sub)

lemma unat_power2 [u_simps]: "n < LENGTH('a) \<Longrightarrow> unat (2 ^ n :: 'a::len word) = 2 ^ n"
proof -
  assume "n < LENGTH('a)"
  then have "(2::nat) ^ n < 2 ^ LENGTH('a)" by simp
  moreover have "(2 ^ n :: 'a word) = of_nat (2 ^ n)" by simp
  ultimately show ?thesis
    by (simp only: unsigned_of_nat take_bit_eq_mod mod_less of_nat_id)
qed

lemma unat_drop_bit [u_simps]: "unat (drop_bit n w) = unat w div 2 ^ n"
  for w :: "'a::len word"
  by (simp add: unat_drop_bit_eq flip: drop_bit_eq_div)

lemma unat_take_bit [u_simps]: "unat (take_bit n w) = unat w mod 2 ^ n"
  for w :: "'a::len word"
  by (simp add: unsigned_take_bit_eq flip: take_bit_eq_mod)

lemma unat_and_mask [u_simps]: "unat (w AND mask n) = unat w mod 2 ^ n"
  for w :: "'a::len word"
  by (simp add: unat_take_bit flip: take_bit_eq_mask)

lemma unat_and_not_mask [u_simps]: "unat (w AND NOT (mask n)) = unat w div 2 ^ n * 2 ^ n"
  for w :: "'a::len word"
proof -
  have "w = (w AND mask n) + (w AND NOT (mask n))"
    by (subst disjunctive_add [of "w AND mask n" "w AND NOT (mask n)"])
      (auto simp: bit_simps intro: bit_word_eqI)
  moreover have "w AND NOT (mask n) \<le> w"
    by (simp add: word_and_le2)
  ultimately have "w AND NOT (mask n) = w - (w AND mask n)" and "w AND mask n \<le> w"
    by (simp_all add: algebra_simps word_and_le2)
  then have "unat (w AND NOT (mask n)) = unat w - unat w mod 2 ^ n"
    by (simp add: unat_sub unat_and_mask)
  then show ?thesis
    by (simp add: minus_mod_eq_div_mult)
qed

lemma unat_ucast_small: "unat w < 2 ^ LENGTH('b) \<Longrightarrow> unat (ucast w :: 'b::len word) = unat w"
  for w :: "'a::len word"
  by (simp add: unsigned_ucast_eq take_bit_eq_mod)

lemma unat_ucast_u32_u64 [u_simps]: "unat (ucast w :: u64) = unat w"
  for w :: u32
  using unat_lt2p [of w] by (intro unat_ucast_small) simp

lemma unat_plus_le: "unat (a + b) \<le> unat a + unat b"
  for a b :: "'a::len word"
  by (simp add: unat_word_ariths)

lemma plus_overflow: "a + b < a \<Longrightarrow> 2 ^ LENGTH('a) \<le> unat a + unat b"
  for a b :: "'a::len word"
  by (rule ccontr) (simp add: word_less_nat_alt unat_plus_simple)

lemma sint_of_uint32: "sint w = (if uint w < 2 ^ 31 then uint w else uint w - 2 ^ 32)"
  for w :: u32
proof -
  have "uint w = sint w mod 2 ^ 32"
    by (simp add: uint_sint take_bit_eq_mod)
  also have "\<dots> = (if sint w < 0 then sint w + 2 ^ 32 else sint w)"
    using sint_greater_eq [of w] sint_less [of w] mod_pos_pos_trivial [of "sint w + 2 ^ 32" "2 ^ 32"] by simp
  finally show ?thesis
    using sint_greater_eq [of w] sint_less [of w] by simp
qed


lemma byte_u32: "uint (ucast b :: u32) = uint b" for b :: u8
  using uint_lt2p [of b] by (simp add: unsigned_ucast_eq take_bit_int_eq_self)

section \<open>Pages\<close>

lemma page_offset: "x AND (PAGE_SIZE - 1) = take_bit 12 x"
proof -
  have "PAGE_SIZE - 1 = mask 12" by (simp add: PAGE_SIZE_def mask_eq_exp_minus_1)
  then show ?thesis by (simp only: take_bit_eq_mask)
qed

lemma page_aligned_iff: "x AND (PAGE_SIZE - 1) = 0 \<longleftrightarrow> 4096 dvd unat x"
  by (simp add: page_offset word_unat_eq_iff unat_take_bit dvd_eq_mod_eq_0)

lemma align_down_page [u_simps]: "unat (ALIGN_DOWN x PAGE_SIZE) = unat x div 4096 * 4096"
proof -
  have "PAGE_SIZE - 1 = mask 12" by (simp add: PAGE_SIZE_def mask_eq_exp_minus_1)
  then show ?thesis by (simp only: ALIGN_DOWN_def unat_and_not_mask) simp
qed

lemma align_up_pow2:
  assumes "n \<le> 31" and "unat x + 2 ^ n \<le> 2 ^ 32"
  shows "unat (ALIGN_UP x (2 ^ n)) = (unat x + (2 ^ n - 1)) div 2 ^ n * 2 ^ n"
proof -
  have m: "(2 ^ n :: u32) - 1 = mask n" by (simp add: mask_eq_exp_minus_1)
  have "unat (mask n :: u32) = 2 ^ n - 1"
    using assms(1) by (simp add: unat_minus_simple unat_power2 word_le_nat_alt flip: m)
  then have "unat (x + mask n) = unat x + (2 ^ n - 1)"
    using assms(2) by (subst unat_plus_simple) auto
  then show ?thesis
    by (simp add: ALIGN_UP_def m unat_and_not_mask)
qed

lemma align_up_page:
  assumes "unat x + 4096 \<le> 2 ^ 32"
  shows "unat (ALIGN_UP x PAGE_SIZE) = (unat x + 4095) div 4096 * 4096"
  using align_up_pow2 [of 12 x] assms by (simp add: PAGE_SIZE_def)

end
