(* ===== verification/Div64.thy ===== *)
theory Div64
  imports SifarPrelude
begin

text \<open>
  \<^verbatim>\<open>kernel/lib/div64.c\<close>: the 64-bit division helpers that replace libgcc.  The
  shift-and-subtract loop is proved equal to division on the unsigned values, and the signed
  wrappers to truncating division.
\<close>

section \<open>Definitions\<close>

text \<open>The loop runs \<open>bit\<close> from 63 down to 0; the first argument is \<open>bit + 1\<close>.\<close>

fun udivmod_loop :: "nat \<Rightarrow> u64 \<Rightarrow> u64 \<Rightarrow> u64 \<Rightarrow> u64 \<Rightarrow> u64 \<times> u64" where
  "udivmod_loop 0 num den quot rem = (quot, rem)"
| "udivmod_loop (Suc b) num den quot rem =
     (let rem' = push_bit 1 rem OR (drop_bit b num AND 1)
      in if den \<le> rem'
         then udivmod_loop b num den (quot OR push_bit b 1) (rem' - den)
         else udivmod_loop b num den quot rem')"

definition udivmoddi4 :: "u64 \<Rightarrow> u64 \<Rightarrow> u64 \<times> u64" where
  "udivmoddi4 num den = (if den = 0 then (NOT 0, 0) else udivmod_loop 64 num den 0 0)"

definition udivdi3 :: "u64 \<Rightarrow> u64 \<Rightarrow> u64" where
  "udivdi3 num den = fst (udivmoddi4 num den)"

definition umoddi3 :: "u64 \<Rightarrow> u64 \<Rightarrow> u64" where
  "umoddi3 num den = snd (udivmoddi4 num den)"

text \<open>The signed helpers work on two's complement values: negation wraps.\<close>

definition divdi3 :: "u64 \<Rightarrow> u64 \<Rightarrow> u64" where
  "divdi3 num den =
     (let negative = (sint num < 0) \<noteq> (sint den < 0);
          num' = (if sint num < 0 then - num else num);
          den' = (if sint den < 0 then - den else den);
          q = fst (udivmoddi4 num' den')
      in if negative then - q else q)"

definition moddi3 :: "u64 \<Rightarrow> u64 \<Rightarrow> u64" where
  "moddi3 num den =
     (let negative = (sint num < 0);
          num' = (if sint num < 0 then - num else num);
          den' = (if sint den < 0 then - den else den);
          r = snd (udivmoddi4 num' den')
      in if negative then - r else r)"

section \<open>The loop\<close>

text \<open>
  The invariant: with \<open>k\<close> bits to go, the quotient so far times the divisor plus the
  remainder is the dividend without its low \<open>k\<close> bits, and the quotient has no bit below \<open>k\<close>.
\<close>

definition loop_inv :: "nat \<Rightarrow> u64 \<Rightarrow> u64 \<Rightarrow> u64 \<Rightarrow> u64 \<Rightarrow> bool" where
  "loop_inv k num den q r \<longleftrightarrow>
     unat num div 2 ^ k = unat q div 2 ^ k * unat den + unat r \<and>
     unat r < unat den \<and> 2 ^ k dvd unat q"

lemma shift_in_bit:
  fixes r num :: u64
  assumes "unat r < 2 ^ 63"
  shows "unat (push_bit 1 r OR (drop_bit b num AND 1)) = 2 * unat r + unat num div 2 ^ b mod 2"
proof -
  have bit1: "drop_bit b num AND 1 = take_bit 1 (drop_bit b num)"
    by (simp add: take_bit_eq_mask)
  have "push_bit 1 r OR take_bit 1 (drop_bit b num) = push_bit 1 r + take_bit 1 (drop_bit b num)"
    by (rule disjunctive_add [symmetric]) (simp only: bit_push_bit_iff bit_take_bit_iff, auto)
  moreover have "unat (push_bit 1 r) = 2 * unat r"
    using assms by (simp add: push_bit_eq_mult unat_word_ariths)
  moreover have "unat (take_bit 1 (drop_bit b num)) = unat num div 2 ^ b mod 2"
    by (simp only: unat_take_bit unat_drop_bit power_one_right)
  moreover have "unat num div 2 ^ b mod 2 < 2"
    by simp
  ultimately show ?thesis
    using assms unfolding bit1
    by (simp add: unat_word_ariths)
qed

lemma bit_iff_unat: "bit w b \<longleftrightarrow> odd (unat w div 2 ^ b)"
  for w :: "'a::len word"
  by (simp add: bit_unsigned_iff flip: bit_iff_odd)

lemma set_quotient_bit:
  fixes q :: u64
  assumes "2 ^ Suc b dvd unat q" and "b < 64"
  shows "unat (q OR push_bit b 1) = unat q + 2 ^ b"
proof -
  from assms(1) obtain c where c: "unat q = 2 ^ Suc b * c" by (rule dvdE)
  then have "\<not> bit q b" by (simp add: bit_iff_unat)
  then have "q OR push_bit b 1 = q + push_bit b 1"
    by (intro disjunctive_add [symmetric]) (auto simp: bit_simps)
  moreover have "unat q + 2 ^ b < 2 ^ 64"
  proof -
    have split: "(2::nat) ^ 64 = 2 ^ Suc b * 2 ^ (63 - b)"
      using assms(2) by (simp flip: power_add power_Suc)
    have "2 ^ Suc b * c < 2 ^ Suc b * 2 ^ (63 - b)"
      using unat_lt2p [of q] unfolding c [symmetric] split [symmetric] by simp
    then have "2 ^ Suc b * (c + 1) \<le> (2::nat) ^ Suc b * 2 ^ (63 - b)"
      by (intro mult_le_mono2) simp
    then have "unat q + 2 ^ Suc b \<le> 2 ^ 64"
      unfolding c split by (simp add: algebra_simps)
    moreover have "(2::nat) ^ b < 2 ^ Suc b" by simp
    ultimately show ?thesis by linarith
  qed
  ultimately show ?thesis
    using assms(2) by (simp add: unat_plus_simple unat_power2)
qed

lemma loop_inv_step:
  fixes num den q r :: u64
  assumes inv: "loop_inv (Suc b) num den q r" and b: "b < 64"
  defines "r' \<equiv> push_bit 1 r OR (drop_bit b num AND 1)"
  shows "if den \<le> r' then loop_inv b num den (q OR push_bit b 1) (r' - den)
         else loop_inv b num den q r'"
proof -
  have "unat r \<le> unat num div 2 ^ Suc b"
    using inv by (simp add: loop_inv_def)
  also have "unat num div 2 ^ Suc b \<le> unat num div 2"
    by (rule div_le_mono2) simp_all
  also have "unat num div 2 < 2 ^ 63"
    using unat_lt2p [of num] by simp
  finally have r': "unat r' = 2 * unat r + unat num div 2 ^ b mod 2"
    unfolding r'_def by (rule shift_in_bit)
  obtain c where c: "unat q = 2 ^ Suc b * c"
    using inv by (auto simp: loop_inv_def)
  have num: "unat num div 2 ^ b = 2 * c * unat den + unat r'"
  proof -
    have "unat num div 2 ^ b = 2 * (unat num div 2 ^ b div 2) + unat num div 2 ^ b mod 2"
      by simp
    also have "unat num div 2 ^ b div 2 = unat num div 2 ^ Suc b"
      by (simp add: mult.commute flip: div_mult2_eq)
    also have "\<dots> = c * unat den + unat r"
      using inv by (simp add: loop_inv_def c)
    finally show ?thesis by (simp add: r' algebra_simps)
  qed
  have dv: "2 ^ b dvd unat q" by (simp add: c)
  show ?thesis
  proof (cases "den \<le> r'")
    case True
    then have "unat (r' - den) = unat r' - unat den" and "unat den \<le> unat r'"
      by (simp_all add: unat_sub word_le_nat_alt)
    moreover have "unat (q OR push_bit b 1) = 2 ^ b * (2 * c + 1)"
      using set_quotient_bit [of b q] b by (simp add: c algebra_simps)
    moreover have "unat r' < 2 * unat den"
      using inv by (simp add: loop_inv_def r') linarith
    ultimately show ?thesis
      using True num by (simp add: loop_inv_def algebra_simps)
  next
    case False
    then show ?thesis
      using num dv by (simp add: loop_inv_def c word_le_nat_alt mult.commute)
  qed
qed

lemma udivmod_loop_correct:
  assumes "loop_inv k num den q r" and "k \<le> 64" and "udivmod_loop k num den q r = (q', r')"
  shows "unat num = unat q' * unat den + unat r' \<and> unat r' < unat den"
  using assms
proof (induction k arbitrary: q r)
  case 0
  then show ?case by (simp add: loop_inv_def)
next
  case (Suc b)
  from Suc.prems loop_inv_step [of b num den q r] Suc.IH show ?case
    by (auto simp: Let_def split: if_splits)
qed

lemma udivmoddi4_spec:
  assumes "den \<noteq> 0"
  shows "unat (fst (udivmoddi4 num den)) = unat num div unat den"
    and "unat (snd (udivmoddi4 num den)) = unat num mod unat den"
proof -
  obtain q r where qr: "udivmod_loop 64 num den 0 0 = (q, r)" by fastforce
  have "loop_inv 64 num den 0 0"
    using assms unat_lt2p [of num] by (simp add: loop_inv_def unat_gt_0)
  from udivmod_loop_correct [OF this _ qr]
  have eq: "unat num = unat q * unat den + unat r" and lt: "unat r < unat den"
    by simp_all
  from eq lt have "unat num div unat den = unat q" "unat num mod unat den = unat r"
    by (simp_all add: mult.commute)
  with assms show "unat (fst (udivmoddi4 num den)) = unat num div unat den"
    and "unat (snd (udivmoddi4 num den)) = unat num mod unat den"
    by (simp_all add: udivmoddi4_def qr)
qed

section \<open>The signed wrappers\<close>

lemma uint_of_sint: "uint w = sint w mod 2 ^ LENGTH('a)"
  for w :: "'a::len word"
  by (simp add: uint_sint take_bit_eq_mod)

lemma abs_sint: "\<bar>sint a\<bar> = uint (if sint a < 0 then - a else a)"
  for a :: u64
proof (cases "sint a < 0")
  case True
  have "- (2 ^ 63) \<le> sint a"
    using sint_greater_eq [of a] by simp
  with True have "(- sint a) mod 2 ^ 64 = - sint a"
    by (intro mod_pos_pos_trivial) simp_all
  moreover have "uint (- a) = (- sint a) mod 2 ^ 64"
    by (simp only: uint_word_ariths(4) uint_of_sint [of a] mod_minus_eq) simp
  ultimately show ?thesis
    using True by simp
next
  case False
  have "sint a < 2 ^ 63"
    using sint_less [of a] by simp
  with False show ?thesis
    by (simp add: uint_of_sint)
qed

lemma uint_abs_le: "uint (if sint a < 0 then - a else a) \<le> 2 ^ 63"
  for a :: u64
  using abs_sint [of a] sint_greater_eq [of a] sint_less [of a] by simp

lemma sint_small: "uint w < 2 ^ 63 \<Longrightarrow> sint w = uint w"
  and sint_neg_small: "uint w \<le> 2 ^ 63 \<Longrightarrow> sint (- w) = - uint w"
  for w :: u64
  using int_word_sint [of "uint w", where 'a = 64] int_word_sint [of "- uint w", where 'a = 64]
    uint_ge_0 [of w]
  by (simp_all add: mod_pos_pos_trivial flip: wi_hom_syms)

lemma signed_result:
  fixes m :: u64
  assumes "uint m \<le> 2 ^ 63" and "\<not> neg \<longrightarrow> uint m < 2 ^ 63"
  shows "sint (if neg then - m else m) = (if neg then - uint m else uint m)"
  using assms by (simp add: sint_small sint_neg_small)

lemma udivmoddi4_uint:
  assumes "den \<noteq> 0"
  shows "uint (fst (udivmoddi4 num den)) = uint num div uint den"
    and "uint (snd (udivmoddi4 num den)) = uint num mod uint den"
  using udivmoddi4_spec [OF assms, of num] by (simp_all only: uint_nat zdiv_int zmod_int)

lemma uint_pos: "d \<noteq> 0 \<Longrightarrow> 0 < uint d"
  for d :: u64
  by (simp add: word_neq_0_conv word_less_def)

section \<open>Properties\<close>


text \<open>
  Signed division truncates towards zero, as C requires: for a non-zero divisor the value of
  \<open>__divdi3\<close> is the truncated quotient of the signed values, except for the one pair
  whose quotient is not representable (the most negative value divided by \<open>-1\<close>).
\<close>

lemma divdi3_value:
  assumes "den \<noteq> 0" and "\<not> (sint num = - (2 ^ 63) \<and> sint den = - 1)"
  shows "sint (divdi3 num den) = sint num sdiv sint den"
proof -
  define n d where "n = (if sint num < 0 then - num else num)"
    and "d = (if sint den < 0 then - den else den)"
  have nd: "\<bar>sint num\<bar> = uint n" "\<bar>sint den\<bar> = uint d"
    by (simp_all add: n_def d_def abs_sint)
  have "d \<noteq> 0"
    using assms(1) by (auto simp: d_def)
  define q where "q = fst (udivmoddi4 n d)"
  have q: "uint q = uint n div uint d"
    using udivmoddi4_uint(1) [OF \<open>d \<noteq> 0\<close>, of n] by (simp add: q_def)
  have n63: "uint n \<le> 2 ^ 63" and d0: "0 < uint d"
    using uint_abs_le [of num] uint_pos [OF \<open>d \<noteq> 0\<close>] by (simp_all add: n_def)
  then have le: "uint q \<le> uint n"
    using zdiv_mono2 [of "uint n" 1 "uint d"] by (simp add: q)
  have strict: "uint q < 2 ^ 63" if "(sint num < 0) = (sint den < 0)"
  proof (rule ccontr)
    assume "\<not> uint q < 2 ^ 63"
    with le n63 have n: "uint n = 2 ^ 63" and "uint n div uint d = 2 ^ 63" by (simp_all add: q)
    with d0 have "uint d = 1"
      using int_div_less_self [of "uint n" "uint d"] by force
    with n nd that sint_less [of num] have "sint num = - (2 ^ 63)" "sint den = - 1"
      by (auto split: if_splits)
    with assms(2) show False by simp
  qed
  have "divdi3 num den = (if (sint num < 0) \<noteq> (sint den < 0) then - q else q)"
    by (simp add: divdi3_def Let_def q_def n_def d_def)
  also have "sint \<dots> = (if (sint num < 0) \<noteq> (sint den < 0) then - uint q else uint q)"
    using strict le n63 by (intro signed_result) simp_all
  also have "\<dots> = sint num sdiv sint den"
    using nd d0 by (auto simp: signed_divide_int_def q sgn_if)
  finally show ?thesis .
qed

text \<open>
  The signed remainder has the sign of the dividend: for every non-zero divisor
  \<open>__moddi3\<close> is the remainder of truncated division, with no exception.
\<close>

lemma moddi3_value:
  assumes "den \<noteq> 0"
  shows "sint (moddi3 num den) = sint num smod sint den"
proof -
  define n d where "n = (if sint num < 0 then - num else num)"
    and "d = (if sint den < 0 then - den else den)"
  have nd: "\<bar>sint num\<bar> = uint n" "\<bar>sint den\<bar> = uint d"
    by (simp_all add: n_def d_def abs_sint)
  have "d \<noteq> 0"
    using assms(1) by (auto simp: d_def)
  define r where "r = snd (udivmoddi4 n d)"
  have r: "uint r = uint n mod uint d"
    using udivmoddi4_uint(2) [OF \<open>d \<noteq> 0\<close>, of n] by (simp add: r_def)
  have "0 < uint d" and "uint d \<le> 2 ^ 63"
    using uint_abs_le [of den] uint_pos [OF \<open>d \<noteq> 0\<close>] by (simp_all add: d_def)
  moreover from this(1) have "uint r < uint d"
    unfolding r by (rule pos_mod_bound)
  ultimately have bound: "uint r < 2 ^ 63" by linarith
  have "moddi3 num den = (if sint num < 0 then - r else r)"
    by (simp add: moddi3_def Let_def r_def n_def d_def)
  also have "sint \<dots> = (if sint num < 0 then - uint r else uint r)"
    using bound by (intro signed_result) simp_all
  also have "\<dots> = sint num smod sint den"
    using nd by (auto simp: signed_modulo_int_def r sgn_if)
  finally show ?thesis .
qed

text \<open>
  the compiler's signed 64-bit division helpers are C division: for a non-zero divisor the quotient truncates towards zero, except
  for the one pair whose quotient is not representable (the most negative value divided by \<open>-1\<close>), and the
  remainder is the one of truncated division, with the sign of the dividend.
\<close>

lemma signed_division_correct:
  assumes "den \<noteq> 0" and "\<not> (sint num = - (2 ^ 63) \<and> sint den = - 1)"
  shows "sint (divdi3 num den) = sint num sdiv sint den \<and> sint (moddi3 num den) = sint num smod sint den"
  using divdi3_value [OF assms] moddi3_value [OF assms(1)] by blast

end
