(* ===== verification/RingBuffers.thy ===== *)
theory RingBuffers
  imports SifarPrelude
begin

text \<open>
  The kernel keeps bounded queues as an array with a head and a tail index: the keyboard buffer, the
  input event queue and the event queue of every window.  The locale \<open>bounded_fifo\<close> is the
  interface a reader of such a queue relies on, \<open>ring_buffer\<close> is what the array code does,
  and the \<^theory_text>\<open>sublocale\<close> proof is the refinement.  \<open>overwriting_log\<close> is
  the variant that overwrites its oldest entry, used by the security event log and the console log.
\<close>

section \<open>Bounded first-in first-out queues\<close>

locale bounded_fifo =
  fixes items :: "'s \<Rightarrow> 'a list"
    and cap :: nat
    and inv :: "'s \<Rightarrow> bool"
    and push :: "'a \<Rightarrow> 's \<Rightarrow> 's"
    and pop :: "'s \<Rightarrow> 'a option \<times> 's"
  assumes inv_push: "inv s \<Longrightarrow> inv (push x s)"
    and items_push: "inv s \<Longrightarrow>
      items (push x s) = (if length (items s) < cap then items s @ [x] else items s)"
    and pop_empty: "inv s \<Longrightarrow> items s = [] \<Longrightarrow> pop s = (None, s)"
    and pop_items: "inv s \<Longrightarrow> items s = x # xs \<Longrightarrow>
      \<exists>s'. pop s = (Some x, s') \<and> items s' = xs \<and> inv s'"
    and items_bound: "inv s \<Longrightarrow> length (items s) \<le> cap"
begin

text \<open>Pushing a batch keeps the oldest entries and drops what does not fit.\<close>

lemma push_batch:
  assumes "inv s"
  shows "inv (fold push xs s) \<and> items (fold push xs s) = items s @ take (cap - length (items s)) xs"
  using assms
proof (induction xs arbitrary: s)
  case (Cons x xs)
  show ?case
  proof (cases "length (items s) < cap")
    case True
    then have "cap - length (items s) = Suc (cap - length (items (push x s)))"
      using Cons.prems by (simp add: items_push)
    then show ?thesis
      using Cons.IH [OF inv_push [OF Cons.prems]] Cons.prems True by (simp add: items_push)
  next
    case False
    then show ?thesis
      using Cons.IH [OF inv_push [OF Cons.prems]] Cons.prems by (simp add: items_push)
  qed
qed simp

text \<open>Reading \<open>k\<close> entries, as a polling loop does.\<close>

primrec drain :: "nat \<Rightarrow> 's \<Rightarrow> 'a list \<times> 's" where
  "drain 0 s = ([], s)"
| "drain (Suc k) s =
     (case pop s of (None, s') \<Rightarrow> ([], s')
      | (Some x, s') \<Rightarrow> (case drain k s' of (xs, s'') \<Rightarrow> (x # xs, s'')))"

lemma drain_items:
  assumes "inv s"
  shows "\<exists>s'. drain k s = (take k (items s), s') \<and> items s' = drop k (items s) \<and> inv s'"
  using assms
proof (induction k arbitrary: s)
  case (Suc k)
  show ?case
  proof (cases "items s")
    case Nil
    with Suc.prems show ?thesis by (simp add: pop_empty)
  next
    case (Cons x xs)
    with Suc.prems obtain s' where s': "pop s = (Some x, s')" "items s' = xs" "inv s'"
      using pop_items by blast
    from Suc.IH [OF s'(3)] s' Cons show ?thesis by auto
  qed
qed simp

end

section \<open>Ring buffers\<close>

text \<open>The entries of the array, oldest first, between the tail and the head index.\<close>

definition ring_count :: "nat \<Rightarrow> u32 \<Rightarrow> u32 \<Rightarrow> nat" where
  "ring_count n h t = (unat h + n - unat t) mod n"

definition ring_list :: "nat \<Rightarrow> 'a list \<Rightarrow> u32 \<Rightarrow> u32 \<Rightarrow> 'a list" where
  "ring_list n xs h t = map (\<lambda>i. xs ! ((unat t + i) mod n)) [0..<ring_count n h t]"

definition ring_ok :: "nat \<Rightarrow> 'a list \<Rightarrow> u32 \<Rightarrow> u32 \<Rightarrow> bool" where
  "ring_ok n xs h t \<longleftrightarrow> 1 < n \<and> n < 2 ^ 31 \<and> length xs = n \<and> unat h < n \<and> unat t < n"

lemma ring_next:
  assumes "n < 2 ^ 31" and "unat h < n"
  shows "unat ((h + 1) mod of_nat n :: u32) = (unat h + 1) mod n"
proof -
  have "unat (h + 1) = unat h + 1" using assms by (intro unat_plus_one) simp
  moreover have "unat (of_nat n :: u32) = n"
    using assms by (simp add: unsigned_of_nat take_bit_eq_mod)
  ultimately show ?thesis by (simp add: unat_mod)
qed

lemma ring_slot: "t < n \<Longrightarrow> i < n \<Longrightarrow> (t + i) mod n = (if t + i < n then t + i else t + i - n)"
  for t i n :: nat
  by (simp add: le_mod_geq)

lemma ring_count_alt:
  "unat h < n \<Longrightarrow> unat t < n \<Longrightarrow>
     ring_count n h t = (if unat t \<le> unat h then unat h - unat t else unat h + n - unat t)"
  by (auto simp: ring_count_def le_mod_geq)

lemma ring_empty: "ring_ok n xs h t \<Longrightarrow> ring_list n xs h t = [] \<longleftrightarrow> h = t"
  by (auto simp: ring_list_def ring_ok_def ring_count_alt word_unat_eq_iff split: if_splits)

lemma ring_full:
  assumes "ring_ok n xs h t"
  shows "(h + 1) mod of_nat n = t \<longleftrightarrow> ring_count n h t = n - 1"
  using assms
  by (auto simp: ring_ok_def word_unat_eq_iff ring_next ring_count_alt mod_Suc split: if_splits)

lemma ring_push:
  assumes "ring_ok n xs h t" and "(h + 1) mod of_nat n \<noteq> t"
  shows "ring_ok n (xs[unat h := x]) ((h + 1) mod of_nat n) t \<and>
    ring_list n (xs[unat h := x]) ((h + 1) mod of_nat n) t = ring_list n xs h t @ [x]"
proof -
  have b: "unat h < n" "unat t < n" "n < 2 ^ 31" "length xs = n" "1 < n"
    using assms(1) by (auto simp: ring_ok_def)
  have nx: "unat ((h + 1) mod of_nat n) = (unat h + 1) mod n"
    using b by (simp add: ring_next)
  have ne: "(unat h + 1) mod n \<noteq> unat t"
    using assms(2) nx by (auto simp: word_unat_eq_iff)
  have cnt: "ring_count n ((h + 1) mod of_nat n) t = Suc (ring_count n h t)"
    using b nx ne by (auto simp: ring_count_alt mod_Suc split: if_splits)
  have small: "ring_count n h t < n"
    using b by (simp add: ring_count_def)
  have last_slot: "(unat t + ring_count n h t) mod n = unat h"
    using b small ring_count_alt [of h n t] by (simp add: ring_slot split: if_splits)
  have other: "(unat t + i) mod n \<noteq> unat h" if "i < ring_count n h t" for i
    using that b small ring_count_alt [of h n t] by (auto simp: ring_slot split: if_splits)
  show ?thesis
    using b nx cnt last_slot other by (simp add: ring_list_def ring_ok_def) (metis atLeastLessThan_iff nth_list_update_neq)
qed

lemma ring_pop:
  assumes "ring_ok n xs h t" and "h \<noteq> t"
  shows "ring_ok n xs h ((t + 1) mod of_nat n) \<and>
    ring_list n xs h t = xs ! unat t # ring_list n xs h ((t + 1) mod of_nat n)"
proof -
  have b: "unat h < n" "unat t < n" "n < 2 ^ 31" "length xs = n" "1 < n"
    using assms(1) by (auto simp: ring_ok_def)
  have nx: "unat ((t + 1) mod of_nat n) = (unat t + 1) mod n"
    using b by (simp add: ring_next)
  have cnt: "ring_count n h t = Suc (ring_count n h ((t + 1) mod of_nat n))"
    using b nx assms(2) by (auto simp: ring_count_alt mod_Suc word_unat_eq_iff split: if_splits)
  have "(unat t + Suc i) mod n = ((unat t + 1) mod n + i) mod n" for i
    by (simp add: mod_add_left_eq)
  then show ?thesis
    using b nx cnt by (simp add: ring_list_def ring_ok_def upt_conv_Cons map_Suc_upt [symmetric] o_def
        del: upt_Suc)
qed

locale ring_buffer =
  fixes slots :: "'s \<Rightarrow> 'a list"
    and hd_ix :: "'s \<Rightarrow> u32"
    and tl_ix :: "'s \<Rightarrow> u32"
    and n :: nat
    and push :: "'a \<Rightarrow> 's \<Rightarrow> 's"
    and pop :: "'s \<Rightarrow> 'a option \<times> 's"
  assumes push_full: "(hd_ix s + 1) mod of_nat n = tl_ix s \<Longrightarrow>
      slots (push x s) = slots s \<and> hd_ix (push x s) = hd_ix s \<and> tl_ix (push x s) = tl_ix s"
    and push_room: "(hd_ix s + 1) mod of_nat n \<noteq> tl_ix s \<Longrightarrow>
      slots (push x s) = (slots s)[unat (hd_ix s) := x] \<and>
      hd_ix (push x s) = (hd_ix s + 1) mod of_nat n \<and> tl_ix (push x s) = tl_ix s"
    and pop_none: "hd_ix s = tl_ix s \<Longrightarrow> pop s = (None, s)"
    and pop_some: "hd_ix s \<noteq> tl_ix s \<Longrightarrow>
      \<exists>s'. pop s = (Some (slots s ! unat (tl_ix s)), s') \<and> slots s' = slots s \<and> hd_ix s' = hd_ix s \<and>
        tl_ix s' = (tl_ix s + 1) mod of_nat n"
begin

definition ok :: "'s \<Rightarrow> bool" where
  "ok s \<longleftrightarrow> ring_ok n (slots s) (hd_ix s) (tl_ix s)"

definition entries :: "'s \<Rightarrow> 'a list" where
  "entries s = ring_list n (slots s) (hd_ix s) (tl_ix s)"

end

sublocale ring_buffer \<subseteq> bounded_fifo entries "n - 1" ok push pop
proof
  show "ok (push x s)" if "ok s" for s x
    using that push_full [of s x] push_room [of s x] ring_push [of n "slots s" "hd_ix s" "tl_ix s" x]
    by (cases "(hd_ix s + 1) mod of_nat n = tl_ix s") (auto simp: ok_def)
  show "entries (push x s) = (if length (entries s) < n - 1 then entries s @ [x] else entries s)"
    if "ok s" for s x
  proof (cases "(hd_ix s + 1) mod of_nat n = tl_ix s")
    case True
    then show ?thesis
      using that push_full [OF True] ring_full [of n "slots s" "hd_ix s" "tl_ix s"]
      by (simp add: ok_def entries_def ring_list_def)
  next
    case False
    have "ring_count n (hd_ix s) (tl_ix s) < n"
      using that by (simp add: ok_def ring_ok_def ring_count_def)
    moreover have "ring_count n (hd_ix s) (tl_ix s) \<noteq> n - 1"
      using False that ring_full [of n "slots s" "hd_ix s" "tl_ix s"] by (simp add: ok_def)
    ultimately have "length (entries s) < n - 1"
      by (simp add: entries_def ring_list_def)
    with push_room [OF False] False that ring_push [of n "slots s" "hd_ix s" "tl_ix s" x]
    show ?thesis by (simp add: entries_def ok_def)
  qed
  show "pop s = (None, s)" if "ok s" "entries s = []" for s
    using that ring_empty [of n "slots s" "hd_ix s" "tl_ix s"] by (simp add: ok_def entries_def pop_none)
  show "\<exists>s'. pop s = (Some x, s') \<and> entries s' = xs \<and> ok s'" if "ok s" "entries s = x # xs" for s x xs
  proof -
    have ne: "hd_ix s \<noteq> tl_ix s"
      using that ring_empty [of n "slots s" "hd_ix s" "tl_ix s"] by (auto simp: ok_def entries_def)
    show ?thesis
      using pop_some [OF ne] ring_pop [OF _ ne, of n "slots s"] that
      by (auto simp: ok_def entries_def)
  qed
  show "length (entries s) \<le> n - 1" if "ok s" for s
    using that mod_less_divisor [of n "unat (hd_ix s) + n - unat (tl_ix s)"]
    by (auto simp: ok_def entries_def ring_list_def ring_ok_def ring_count_def simp del: mod_less_divisor)
qed

section \<open>Logs that overwrite their oldest entry\<close>

definition lastn :: "nat \<Rightarrow> 'a list \<Rightarrow> 'a list" where
  "lastn n xs = drop (length xs - n) xs"

lemma length_lastn [simp]: "length (lastn n xs) = min (length xs) n"
  by (simp add: lastn_def)

lemma lastn_short [simp]: "length xs \<le> n \<Longrightarrow> lastn n xs = xs"
  by (simp add: lastn_def)

lemma lastn_lastn: "lastn n (lastn n xs @ ys) = lastn n (xs @ ys)"
  by (cases "length xs \<le> n") (auto simp: lastn_def drop_append add.commute)

text \<open>
  \<open>N\<close> slots with the next write position \<open>p\<close> and \<open>c\<close> valid entries, oldest
  first.
\<close>

definition log_list :: "nat \<Rightarrow> 'a list \<Rightarrow> nat \<Rightarrow> nat \<Rightarrow> 'a list" where
  "log_list N xs p c = map (\<lambda>i. xs ! ((p + N - c + i) mod N)) [0..<c]"

lemma length_log_list [simp]: "length (log_list N xs p c) = c"
  by (simp add: log_list_def)

lemma log_slot:
  "p < N \<Longrightarrow> c \<le> N \<Longrightarrow> i < c \<Longrightarrow>
     (p + N - c + i) mod N = (if c \<le> p + i then p + i - c else p + N + i - c)"
  for p N c i :: nat
  by (auto simp: le_mod_geq)

lemma nth_log_list:
  "p < N \<Longrightarrow> c \<le> N \<Longrightarrow> i < c \<Longrightarrow>
     log_list N xs p c ! i = xs ! (if c \<le> p + i then p + i - c else p + N + i - c)"
  by (simp only: log_list_def nth_map length_upt minus_nat.diff_0 nth_upt add_0 log_slot)

lemma log_push:
  assumes "p < N" and "c \<le> N" and "length xs = N"
  shows "log_list N (xs[p := x]) ((p + 1) mod N) (min (c + 1) N) = lastn N (log_list N xs p c @ [x])"
proof (rule nth_equalityI)
  show "length (log_list N (xs[p := x]) ((p + 1) mod N) (min (c + 1) N)) =
      length (lastn N (log_list N xs p c @ [x]))"
    by simp
next
  fix i
  assume "i < length (log_list N (xs[p := x]) ((p + 1) mod N) (min (c + 1) N))"
  then have i: "i < min (c + 1) N" by simp
  have pos: "(p + 1) mod N = (if p + 1 = N then 0 else p + 1)" "(p + 1) mod N < N"
    using assms(1) by (auto simp: mod_Suc)
  have "lastn N (log_list N xs p c @ [x]) ! i = (log_list N xs p c @ [x]) ! (c + 1 - min (c + 1) N + i)"
    using i by (auto simp: lastn_def nth_append min_def)
  also have "\<dots> = xs[p := x] ! (if min (c + 1) N \<le> (p + 1) mod N + i then (p + 1) mod N + i - min (c + 1) N
      else (p + 1) mod N + N + i - min (c + 1) N)"
    using i assms pos(1)
    by (cases "c = N") (auto simp: nth_append nth_log_list nth_list_update split: if_splits
        intro!: arg_cong [of _ _ "nth xs"])
  also have "\<dots> = log_list N (xs[p := x]) ((p + 1) mod N) (min (c + 1) N) ! i"
    using i pos(2) by (subst nth_log_list) auto
  finally show "log_list N (xs[p := x]) ((p + 1) mod N) (min (c + 1) N) ! i =
      lastn N (log_list N xs p c @ [x]) ! i" by simp
qed

text \<open>
  The interface of such a log.  \<open>entry s x\<close> is what the log stores for the input
  \<open>x\<close>; \<open>budget\<close> bounds the number of writes a wrapping position counter allows.
\<close>

locale overwriting_log =
  fixes view :: "'s \<Rightarrow> 'e list"
    and cap :: nat
    and inv :: "'s \<Rightarrow> bool"
    and budget :: "'s \<Rightarrow> nat"
    and put :: "'x \<Rightarrow> 's \<Rightarrow> 's"
    and entry :: "'s \<Rightarrow> 'x \<Rightarrow> 'e"
  assumes inv_put: "inv s \<Longrightarrow> 0 < budget s \<Longrightarrow> inv (put x s)"
    and budget_put: "inv s \<Longrightarrow> budget s \<le> Suc (budget (put x s))"
    and view_put: "inv s \<Longrightarrow> 0 < budget s \<Longrightarrow> view (put x s) = lastn cap (view s @ [entry s x])"
    and view_cap: "inv s \<Longrightarrow> length (view s) \<le> cap"
begin

primrec trace :: "'s \<Rightarrow> 'x list \<Rightarrow> 'e list" where
  "trace s [] = []"
| "trace s (x # xs) = entry s x # trace (put x s) xs"

lemma view_batch:
  assumes "inv s" and "length xs \<le> budget s"
  shows "inv (fold put xs s) \<and> view (fold put xs s) = lastn cap (view s @ trace s xs)"
  using assms
proof (induction xs arbitrary: s)
  case Nil
  then show ?case by (simp add: view_cap)
next
  case (Cons x xs)
  have room: "0 < budget s" and "length xs \<le> budget (put x s)"
    using Cons.prems budget_put [of s x] by simp_all
  with Cons.IH [OF inv_put] Cons.prems show ?case
    by (simp add: view_put lastn_lastn)
qed

end

end
