(* ===== verification/Sentinel.thy ===== *)
theory Sentinel
  imports RingBuffers
begin

text \<open>
  \<^verbatim>\<open>kernel/security/sentinel.c\<close>: the security event log, 128 slots that overwrite the
  oldest event.  The static variables of the file are the record \<open>sentinel\<close>.  The time
  \<^verbatim>\<open>timer_ms()\<close> at the call is an argument of the recording operation, and a null
  \<^verbatim>\<open>out\<close> pointer of the reader is the argument \<open>out = False\<close>.
\<close>

section \<open>State and operations\<close>

record security_event =
  sequence :: u64
  timestamp_ms :: u64
  ev_type :: u32
  ev_pid :: u32
  ev_code :: u32
  ev_response :: u32

definition SECURITY_EVENT_LOG_CAPACITY :: u32 where "SECURITY_EVENT_LOG_CAPACITY = 128"

definition zero_event :: security_event where
  "zero_event = \<lparr>sequence = 0, timestamp_ms = 0, ev_type = 0, ev_pid = 0, ev_code = 0, ev_response = 0\<rparr>"

record sentinel =
  events :: "security_event list"
  event_head :: u32
  event_count :: u32
  next_sequence :: u64
  initialized :: bool

definition security_init :: "sentinel \<Rightarrow> sentinel" where
  "security_init s =
     s\<lparr>events := replicate (unat SECURITY_EVENT_LOG_CAPACITY) zero_event, event_head := 0, event_count := 0,
       next_sequence := 1, initialized := True\<rparr>"

type_synonym report = "u64 \<times> u32 \<times> u32 \<times> u32 \<times> u32"

definition event_of :: "u64 \<Rightarrow> report \<Rightarrow> security_event" where
  "event_of sq r = (case r of (now, ty, pid, code, response) \<Rightarrow>
     \<lparr>sequence = sq, timestamp_ms = now, ev_type = ty, ev_pid = pid, ev_code = code, ev_response = response\<rparr>)"

definition security_event_record :: "report \<Rightarrow> sentinel \<Rightarrow> sentinel" where
  "security_event_record r s0 =
     (let s = (if \<not> initialized s0 then security_init s0 else s0);
          s1 = s\<lparr>events := (events s)[unat (event_head s) := event_of (next_sequence s) r],
                 next_sequence := next_sequence s + 1,
                 event_head := (event_head s + 1) mod SECURITY_EVENT_LOG_CAPACITY\<rparr>
      in if event_count s1 < SECURITY_EVENT_LOG_CAPACITY
         then s1\<lparr>event_count := event_count s1 + 1\<rparr> else s1)"

definition security_event_count :: "sentinel \<Rightarrow> u32" where
  "security_event_count s = (if initialized s then event_count s else 0)"

definition security_event_get :: "bool \<Rightarrow> u32 \<Rightarrow> sentinel \<Rightarrow> security_event option" where
  "security_event_get out index s =
     (if \<not> out then None
      else if \<not> initialized s \<or> event_count s \<le> index then None
      else let oldest = (event_head s + SECURITY_EVENT_LOG_CAPACITY - event_count s)
                          mod SECURITY_EVENT_LOG_CAPACITY;
               slot = (oldest + index) mod SECURITY_EVENT_LOG_CAPACITY
           in Some (events s ! unat slot))"

section \<open>The log as a list\<close>

definition log_ok :: "sentinel \<Rightarrow> bool" where
  "log_ok s \<longleftrightarrow> (initialized s \<longrightarrow>
     length (events s) = 128 \<and> unat (event_head s) < 128 \<and> unat (event_count s) \<le> 128)"

definition log_view :: "sentinel \<Rightarrow> security_event list" where
  "log_view s = (if initialized s
     then log_list 128 (events s) (unat (event_head s)) (unat (event_count s)) else [])"

definition next_seq :: "sentinel \<Rightarrow> u64" where
  "next_seq s = (if initialized s then next_sequence s else 1)"

lemma capacity: "unat SECURITY_EVENT_LOG_CAPACITY = 128"
  by (simp add: SECURITY_EVENT_LOG_CAPACITY_def)

lemma head_next: "unat h < 128 \<Longrightarrow>
  unat ((h + 1) mod SECURITY_EVENT_LOG_CAPACITY) = (unat h + 1) mod 128"
  using ring_next [of 128 h] by (simp add: SECURITY_EVENT_LOG_CAPACITY_def)

lemma record_view:
  assumes "log_ok s"
  shows "log_ok (security_event_record r s) \<and>
    log_view (security_event_record r s) = lastn 128 (log_view s @ [event_of (next_seq s) r]) \<and>
    next_seq (security_event_record r s) = next_seq s + 1"
proof -
  define t where "t = (if \<not> initialized s then security_init s else s)"
  have t: "initialized t" "length (events t) = 128" "unat (event_head t) < 128"
    "unat (event_count t) \<le> 128" "next_sequence t = next_seq s"
    "log_list 128 (events t) (unat (event_head t)) (unat (event_count t)) = log_view s"
    using assms by (auto simp: t_def log_ok_def security_init_def capacity next_seq_def log_view_def log_list_def)
  define u where "u = security_event_record r s"
  have ev: "events u = (events t)[unat (event_head t) := event_of (next_seq s) r]"
    and hd: "event_head u = (event_head t + 1) mod SECURITY_EVENT_LOG_CAPACITY"
    and sq: "next_sequence u = next_seq s + 1" and ini: "initialized u"
    using t(1,5) by (simp_all add: u_def security_event_record_def Let_def flip: t_def)
  have cn: "unat (event_count u) = min (unat (event_count t) + 1) 128"
    using t(4) unat_plus_one [of "event_count t"]
    by (auto simp: u_def security_event_record_def Let_def word_less_nat_alt capacity simp flip: t_def)
  have "log_ok u"
    using t hd cn by (simp add: log_ok_def ev head_next)
  moreover have "log_view u = lastn 128 (log_view s @ [event_of (next_seq s) r])"
    using log_push [OF t(3) t(4) t(2)] t ini hd cn ev by (simp add: log_view_def head_next)
  moreover have "next_seq u = next_seq s + 1"
    using ini sq by (simp add: next_seq_def)
  ultimately show ?thesis by (simp add: u_def)
qed

interpretation slog: overwriting_log log_view 128 log_ok "\<lambda>_. Suc n" security_event_record
  "\<lambda>s r. event_of (next_seq s) r" for n
  using record_view by unfold_locales (auto simp: log_view_def log_ok_def)

lemma trace_nth: "log_ok s \<Longrightarrow> i < length rs \<Longrightarrow>
  slog.trace s rs ! i = event_of (next_seq s + of_nat i) (rs ! i)"
proof (induction rs arbitrary: s i)
  case (Cons r rs)
  then show ?case
    using record_view [of s r] by (cases i) (simp_all add: add.assoc)
qed simp

lemma trace_length [simp]: "length (slog.trace s rs) = length rs"
  by (induction rs arbitrary: s) simp_all

lemma get_view:
  assumes "log_ok s"
  shows "security_event_get True i s =
    (if unat i < length (log_view s) then Some (log_view s ! unat i) else None)"
proof (cases "initialized s \<and> i < event_count s")
  case False
  then show ?thesis
    by (auto simp: security_event_get_def log_view_def word_less_nat_alt word_le_nat_alt)
next
  case True
  then have b: "unat (event_head s) < 128" "unat (event_count s) \<le> 128" "unat i < unat (event_count s)"
    using assms by (auto simp: log_ok_def word_less_nat_alt)
  let ?w = "event_head s + SECURITY_EVENT_LOG_CAPACITY"
  have w: "unat ?w = unat (event_head s) + 128"
    using b by (simp add: unat_plus_simple capacity)
  have o: "unat (?w - event_count s) = unat (event_head s) + 128 - unat (event_count s)"
    using b w by (simp add: unat_minus_simple word_le_nat_alt)
  define m where "m = (?w - event_count s) mod SECURITY_EVENT_LOG_CAPACITY"
  have m: "unat m = (unat (event_head s) + 128 - unat (event_count s)) mod 128"
    by (simp add: m_def unat_mod o capacity)
  have "unat (m + i) = unat m + unat i"
    using b m by (intro unat_plus_simple) simp
  then have "unat ((m + i) mod SECURITY_EVENT_LOG_CAPACITY) =
      (unat (event_head s) + 128 - unat (event_count s) + unat i) mod 128"
    by (simp add: unat_mod capacity m mod_add_left_eq)
  with True b show ?thesis
    by (simp add: security_event_get_def Let_def log_view_def log_list_def word_le_nat_alt flip: m_def)
qed

text \<open>
  C24: after any sequence of reports since boot the log holds exactly the last 128 of them, oldest
  first, with consecutive sequence numbers starting at 1; \<^verbatim>\<open>security_event_get\<close> returns
  the event at an index below the count and fails for every other index.
\<close>

theorem security_log_refines:
  fixes rs :: "report list"
  assumes "\<not> initialized s"
  defines "s' \<equiv> fold security_event_record rs s" and "n \<equiv> min (length rs) 128"
  shows "unat (security_event_count s') = n \<and>
    (\<forall>i. security_event_get True i s' =
      (if unat i < n
       then Some (event_of (1 + of_nat (length rs - n + unat i)) (rs ! (length rs - n + unat i)))
       else None))"
proof -
  have ok: "log_ok s" and empty: "log_view s = []" and one: "next_seq s = 1"
    using assms(1) by (simp_all add: log_ok_def log_view_def next_seq_def)
  have s': "log_ok s'" "log_view s' = lastn 128 (slog.trace s rs)"
    using slog.view_batch [OF ok, of rs "length rs"] empty by (simp_all add: s'_def)
  then have len: "length (log_view s') = n" by (simp add: n_def)
  have "log_view s' ! k = event_of (1 + of_nat (length rs - n + k)) (rs ! (length rs - n + k))"
    if "k < n" for k
  proof -
    have "length rs - 128 = length rs - n" by (simp add: n_def)
    then have "log_view s' ! k = slog.trace s rs ! (length rs - n + k)"
      using that by (simp add: s' lastn_def)
    moreover have "length rs - n + k < length rs" using that by (auto simp: n_def min_def split: if_splits)
    ultimately show ?thesis using ok one trace_nth by simp
  qed
  moreover have "unat (security_event_count s') = n"
    using len by (auto simp: security_event_count_def log_view_def split: if_splits)
  ultimately show ?thesis
    using len by (simp add: get_view [OF s'(1)])
qed

definition boot_sentinel :: sentinel where
  "boot_sentinel = \<lparr>events = [], event_head = 0, event_count = 0, next_sequence = 0, initialized = False\<rparr>"

theorem security_log_refines_witness:
  "\<not> initialized boot_sentinel \<and>
   security_event_get True 1 (fold security_event_record [(5, 1, 7, 2, 0), (9, 3, 8, 4, 1)] boot_sentinel)
     = Some (event_of 2 (9, 3, 8, 4, 1))"
  using security_log_refines [of boot_sentinel "[(5, 1, 7, 2, 0), (9, 3, 8, 4, 1)]"]
  by (simp add: boot_sentinel_def del: fold_simps)

end
