(* ===== verification/Input.thy ===== *)
theory Input
  imports RingBuffers
begin

text \<open>
  The PS/2 input path: \<^verbatim>\<open>kernel/dev/mouse.c\<close> (packet assembly, cursor, the input event queue)
  and \<^verbatim>\<open>kernel/dev/keyboard.c\<close> (scancode decoding, the key buffer).  Both interrupt handlers
  drain the same controller port and hand every byte to the driver it belongs to, so the two files
  share the state \<open>ps2\<close>.  The port is a script of \<open>(status, data)\<close> pairs the
  controller answers with.  C \<^verbatim>\<open>int\<close> positions are integers; the invariant keeps them inside
  the screen, far from the limits of the type.
\<close>

section \<open>Mouse and event queue\<close>

datatype input_kind = INPUT_NONE | INPUT_MOUSE_MOVE | INPUT_MOUSE_DOWN | INPUT_MOUSE_UP | INPUT_MOUSE_WHEEL | INPUT_KEY

record input_event =
  ie_kind :: input_kind
  ie_x :: int
  ie_y :: int
  ie_dx :: int
  ie_dy :: int
  ie_buttons :: u32
  ie_button :: int
  ie_wheel :: int
  ie_key :: u32

definition no_event :: input_event where
  "no_event = \<lparr>ie_kind = INPUT_NONE, ie_x = 0, ie_y = 0, ie_dx = 0, ie_dy = 0, ie_buttons = 0,
     ie_button = 0, ie_wheel = 0, ie_key = 0\<rparr>"

definition EVENT_QUEUE :: u32 where "EVENT_QUEUE = 128"

record mouse =
  queue :: "input_event list"
  q_head :: u32
  q_tail :: u32
  packet :: "u8 list"
  packet_index :: nat
  packet_size :: nat
  m_present :: bool
  cursor_x :: int
  cursor_y :: int
  bound_w :: int
  bound_h :: int
  button_state :: u32
  total_dx :: u32
  total_dy :: u32
  last_packet :: "u8 list"
  dropped :: u32
  irq_count :: u32
  packet_count :: u32
  stray_bytes :: u32
  resyncs :: u32

definition MOUSE_LEFT :: u32 where "MOUSE_LEFT = 1"
definition MOUSE_RIGHT :: u32 where "MOUSE_RIGHT = 2"
definition MOUSE_MIDDLE :: u32 where "MOUSE_MIDDLE = 4"

definition mouse_push :: "input_event \<Rightarrow> mouse \<Rightarrow> mouse" where
  "mouse_push event m =
     (let nxt = (q_head m + 1) mod EVENT_QUEUE
      in if nxt = q_tail m then m
         else m\<lparr>queue := (queue m)[unat (q_head m) := event], q_head := nxt\<rparr>)"

definition input_push_key :: "u32 \<Rightarrow> mouse \<Rightarrow> mouse" where
  "input_push_key key m =
     mouse_push (no_event\<lparr>ie_kind := INPUT_KEY, ie_key := key, ie_x := cursor_x m, ie_y := cursor_y m,
                          ie_buttons := button_state m\<rparr>) m"

definition input_poll :: "mouse \<Rightarrow> input_event option \<times> mouse" where
  "input_poll m =
     (if q_tail m \<noteq> q_head m
      then (Some (queue m ! unat (q_tail m)), m\<lparr>q_tail := (q_tail m + 1) mod EVENT_QUEUE\<rparr>)
      else (None, m))"

definition input_pending :: "mouse \<Rightarrow> bool" where
  "input_pending m \<longleftrightarrow> q_head m \<noteq> q_tail m"

text \<open>A movement byte with its sign bit in the flags byte.\<close>

definition delta :: "bool \<Rightarrow> u8 \<Rightarrow> int" where
  "delta neg b = (let d = ucast b :: u32 in sint (if neg then d OR 0xFFFFFF00 else d))"

definition wheel_of :: "u8 \<Rightarrow> int" where
  "wheel_of b = (let z = b AND 0x0F; z' = (if z AND 0x08 \<noteq> 0 then z OR 0xF0 else z) in - sint z')"

definition clamp :: "int \<Rightarrow> int \<Rightarrow> int" where
  "clamp bound v =
     (let v1 = (if v < 0 then 0 else v) in if bound - 1 < v1 then bound - 1 else v1)"

text \<open>One round of the loop over the three buttons.\<close>

definition button_step :: "u32 \<Rightarrow> u32 \<Rightarrow> input_event \<times> mouse \<Rightarrow> input_event \<times> mouse" where
  "button_step buttons b st = (case st of (event, m) \<Rightarrow>
     if buttons AND b \<noteq> 0 \<and> button_state m AND b = 0 then
       let event' = event\<lparr>ie_kind := INPUT_MOUSE_DOWN, ie_button := sint b\<rparr> in (event', mouse_push event' m)
     else if buttons AND b = 0 \<and> button_state m AND b \<noteq> 0 then
       let event' = event\<lparr>ie_kind := INPUT_MOUSE_UP, ie_button := sint b\<rparr> in (event', mouse_push event' m)
     else (event, m))"

definition packet_buttons :: "u8 \<Rightarrow> u32" where
  "packet_buttons flags =
     (if flags AND 0x01 \<noteq> 0 then MOUSE_LEFT else 0) OR (if flags AND 0x02 \<noteq> 0 then MOUSE_RIGHT else 0) OR
     (if flags AND 0x04 \<noteq> 0 then MOUSE_MIDDLE else 0)"

definition move_cursor :: "int \<Rightarrow> int \<Rightarrow> mouse \<Rightarrow> mouse" where
  "move_cursor dx dy m =
     m\<lparr>total_dx := total_dx m + of_int dx, total_dy := total_dy m + of_int dy,
       cursor_x := clamp (bound_w m) (cursor_x m + dx), cursor_y := clamp (bound_h m) (cursor_y m - dy)\<rparr>"

text \<open>The events of a packet: movement, then the changed buttons, then the wheel.\<close>

definition push_packet_events :: "int \<Rightarrow> int \<Rightarrow> int \<Rightarrow> u32 \<Rightarrow> mouse \<Rightarrow> mouse" where
  "push_packet_events dx dy wheel buttons m =
     (let event = no_event\<lparr>ie_x := cursor_x m, ie_y := cursor_y m, ie_dx := dx, ie_dy := - dy, ie_buttons := buttons\<rparr>;
          st = (if dx \<noteq> 0 \<or> dy \<noteq> 0
                then let e = event\<lparr>ie_kind := INPUT_MOUSE_MOVE\<rparr> in (e, mouse_push e m)
                else (event, m))
      in case fold (button_step buttons) [1, 2, 4] st of (event2, m2) \<Rightarrow>
           if wheel \<noteq> 0
           then mouse_push (event2\<lparr>ie_button := 0, ie_kind := INPUT_MOUSE_WHEEL, ie_wheel := wheel\<rparr>) m2
           else m2)"

definition handle_packet :: "mouse \<Rightarrow> mouse" where
  "handle_packet m0 =
     (let m1 = m0\<lparr>last_packet := packet m0\<rparr>;
          flags = packet m1 ! 0
      in if flags AND 0x08 = 0 then m1\<lparr>dropped := dropped m1 + 1\<rparr>
         else if flags AND 0xC0 \<noteq> 0 then m1\<lparr>dropped := dropped m1 + 1\<rparr>
         else
           let dx = delta (flags AND 0x10 \<noteq> 0) (packet m1 ! 1);
               dy = delta (flags AND 0x20 \<noteq> 0) (packet m1 ! 2);
               wheel = (if packet_size m1 = 4 then wheel_of (packet m1 ! 3) else 0);
               buttons = packet_buttons flags
           in (push_packet_events dx dy wheel buttons (move_cursor dx dy m1))\<lparr>button_state := buttons\<rparr>)"

definition mouse_feed_byte :: "u8 \<Rightarrow> mouse \<Rightarrow> mouse" where
  "mouse_feed_byte byte m =
     (if packet_index m = 0 \<and> byte AND 0x08 = 0 then m\<lparr>resyncs := resyncs m + 1\<rparr>
      else
        let m1 = m\<lparr>packet := (packet m)[packet_index m := byte], packet_index := packet_index m + 1\<rparr>
        in if packet_size m1 \<le> packet_index m1
           then handle_packet (m1\<lparr>packet_index := 0, packet_count := packet_count m1 + 1\<rparr>)
           else m1)"

definition mouse_set_bounds :: "int \<Rightarrow> int \<Rightarrow> mouse \<Rightarrow> mouse" where
  "mouse_set_bounds width height m =
     m\<lparr>bound_w := width, bound_h := height, cursor_x := width sdiv 2, cursor_y := height sdiv 2\<rparr>"

definition mouse_position :: "mouse \<Rightarrow> int \<times> int \<times> u32" where
  "mouse_position m = (cursor_x m, cursor_y m, button_state m)"

definition mouse_debug :: "mouse \<Rightarrow> u32 \<times> u32 \<times> int \<times> int \<times> u32" where
  "mouse_debug m = (irq_count m, packet_count m, cursor_x m, cursor_y m, button_state m)"

definition mouse_debug_raw :: "mouse \<Rightarrow> u32 \<times> u32 \<times> u32 \<times> u8 list" where
  "mouse_debug_raw m = (total_dx m, total_dy m, dropped m, last_packet m)"

section \<open>Keyboard\<close>

definition BUFFER_SIZE :: u32 where "BUFFER_SIZE = 128"

record kbd =
  buffer :: "u16 list"
  k_head :: u32
  k_tail :: u32
  shift_down :: bool
  ctrl_down :: bool
  caps_lock :: bool
  extended :: bool

record ps2 =
  kb :: kbd
  ms :: mouse

definition ascii :: "string \<Rightarrow> u8 list" where
  "ascii s = map (\<lambda>c. of_char c) s"

definition map_lower :: "u8 list" where
  "map_lower =
     [0, 27] @ ascii ''1234567890-='' @ [8, 9] @ ascii ''qwertyuiop[]'' @ [10, 0] @
     ascii ''asdfghjkl;'' @ [39] @ ascii ''`'' @ [0, 92] @ ascii ''zxcvbnm,./'' @ [0, 42, 0, 32] @
     replicate 70 0"

definition map_upper :: "u8 list" where
  "map_upper =
     [0, 27] @ ascii ''!@#$%^&*()_+'' @ [8, 9] @ ascii ''QWERTYUIOP{}'' @ [10, 0] @
     ascii ''ASDFGHJKL:'' @ [34] @ ascii ''~'' @ [0] @ ascii ''|ZXCVBNM<>?'' @ [0, 42, 0, 32] @
     replicate 70 0"

definition kbd_push :: "u16 \<Rightarrow> ps2 \<Rightarrow> ps2" where
  "kbd_push key s0 =
     (let nxt = (k_head (kb s0) + 1) mod BUFFER_SIZE;
          s = s0\<lparr>ms := input_push_key (ucast key) (ms s0)\<rparr>
      in if nxt = k_tail (kb s) then s
         else s\<lparr>kb := (kb s)\<lparr>buffer := (buffer (kb s))[unat (k_head (kb s)) := key], k_head := nxt\<rparr>\<rparr>)"

definition is_letter :: "u8 \<Rightarrow> bool" where
  "is_letter c \<longleftrightarrow> (97 \<le> c \<and> c \<le> 122) \<or> (65 \<le> c \<and> c \<le> 90)"

definition extended_key :: "u8 \<Rightarrow> u16 option" where
  "extended_key code =
     (if code = 0x48 then Some 0x100 else if code = 0x50 then Some 0x101
      else if code = 0x4B then Some 0x102 else if code = 0x4D then Some 0x103
      else if code = 0x47 then Some 0x104 else if code = 0x4F then Some 0x105
      else if code = 0x53 then Some 0x106 else if code = 0x49 then Some 0x107
      else if code = 0x51 then Some 0x108 else None)"

text \<open>The translation of a plain key press, 0 for a key without a character.\<close>

definition key_char :: "kbd \<Rightarrow> u8 \<Rightarrow> u8" where
  "key_char k code =
     (let c = (if shift_down k then map_upper else map_lower) ! unat code
      in if c = 0 then 0
         else let c1 = (if caps_lock k \<and> is_letter c then if shift_down k then c + 32 else c - 32 else c)
              in if ctrl_down k \<and> is_letter c1 then (c1 OR 0x20) - 97 + 1 else c1)"

definition keyboard_feed_byte :: "u8 \<Rightarrow> ps2 \<Rightarrow> ps2" where
  "keyboard_feed_byte code0 s =
     (if code0 = 0xE0 then s\<lparr>kb := (kb s)\<lparr>extended := True\<rparr>\<rparr>
      else if code0 = 0xFA \<or> code0 = 0xFE \<or> code0 = 0xAA then s
      else
        let released = code0 AND 0x80 \<noteq> 0; code = code0 AND 0x7F
        in if extended (kb s) then
             let s1 = s\<lparr>kb := (kb s)\<lparr>extended := False\<rparr>\<rparr>
             in if released then s1
                else case extended_key code of
                       Some key \<Rightarrow> kbd_push key s1
                     | None \<Rightarrow> if code = 0x1D then s1\<lparr>kb := (kb s1)\<lparr>ctrl_down := True\<rparr>\<rparr> else s1
           else if code = 0x2A \<or> code = 0x36 then s\<lparr>kb := (kb s)\<lparr>shift_down := \<not> released\<rparr>\<rparr>
           else if code = 0x1D then s\<lparr>kb := (kb s)\<lparr>ctrl_down := \<not> released\<rparr>\<rparr>
           else if code = 0x3A then
             (if \<not> released then s\<lparr>kb := (kb s)\<lparr>caps_lock := \<not> caps_lock (kb s)\<rparr>\<rparr> else s)
           else if released \<or> 128 \<le> code then s
           else let c = key_char (kb s) code in if c = 0 then s else kbd_push (ucast c) s)"

definition keyboard_trygetc :: "ps2 \<Rightarrow> int \<times> ps2" where
  "keyboard_trygetc s =
     (if k_tail (kb s) \<noteq> k_head (kb s)
      then (uint (buffer (kb s) ! unat (k_tail (kb s))),
            s\<lparr>kb := (kb s)\<lparr>k_tail := (k_tail (kb s) + 1) mod BUFFER_SIZE\<rparr>\<rparr>)
      else (-1, s))"

section \<open>Interrupt handlers\<close>

type_synonym port = "(u8 \<times> u8) list"

fun keyboard_irq :: "port \<Rightarrow> ps2 \<Rightarrow> ps2" where
  "keyboard_irq [] s = s"
| "keyboard_irq ((status, data) # port) s =
     (if status AND 0x01 = 0 then s
      else if status AND 0x20 \<noteq> 0 then keyboard_irq port (s\<lparr>ms := mouse_feed_byte data (ms s)\<rparr>)
      else keyboard_irq port (keyboard_feed_byte data s))"

fun mouse_drain :: "port \<Rightarrow> ps2 \<Rightarrow> ps2" where
  "mouse_drain [] s = s"
| "mouse_drain ((status, data) # port) s =
     (if status AND 0x01 = 0 then s
      else if status AND 0x20 \<noteq> 0 then mouse_drain port (s\<lparr>ms := mouse_feed_byte data (ms s)\<rparr>)
      else let s1 = keyboard_feed_byte data s
           in mouse_drain port (s1\<lparr>ms := (ms s1)\<lparr>stray_bytes := stray_bytes (ms s1) + 1\<rparr>\<rparr>))"

definition mouse_irq :: "port \<Rightarrow> ps2 \<Rightarrow> ps2" where
  "mouse_irq port s = mouse_drain port (s\<lparr>ms := (ms s)\<lparr>irq_count := irq_count (ms s) + 1\<rparr>\<rparr>)"

section \<open>The queues are bounded first-in first-out queues\<close>

definition keyboard_pop :: "ps2 \<Rightarrow> u16 option \<times> ps2" where
  "keyboard_pop s = (case keyboard_trygetc s of (k, s') \<Rightarrow> (if k < 0 then None else Some (word_of_int k), s'))"

interpretation kq: ring_buffer "\<lambda>s. buffer (kb s)" "\<lambda>s. k_head (kb s)" "\<lambda>s. k_tail (kb s)" 128 kbd_push keyboard_pop
  by unfold_locales
    (auto simp: kbd_push_def keyboard_pop_def keyboard_trygetc_def BUFFER_SIZE_def Let_def input_push_key_def)

interpretation iq: ring_buffer queue q_head q_tail 128 mouse_push input_poll
  by unfold_locales (auto simp: mouse_push_def input_poll_def EVENT_QUEUE_def Let_def)

lemma map_lengths: "length map_lower = 128" "length map_upper = 128"
  by (simp_all add: map_lower_def map_upper_def ascii_def)

section \<open>Value ranges\<close>

lemma delta_value: "delta neg b = (if neg then uint b - 256 else uint b)"
proof -
  have m: "(0xFFFFFF00 :: u32) = NOT (mask 8)"
    by (simp add: mask_eq_exp_minus_1)
  have "(ucast b :: u32) OR 0xFFFFFF00 = ucast b + 0xFFFFFF00"
    unfolding m by (rule disjunctive_add [symmetric]) (auto simp: bit_simps dest: bit_imp_le_length)
  moreover have "uint b < 256" "0 \<le> uint b"
    using uint_lt2p [of b] by simp_all
  ultimately show ?thesis
    by (simp add: delta_def Let_def sint_of_uint32 uint_plus_if' byte_u32)
      (use uint_ge_0 [of b] in linarith)
qed

lemma letter_cases:
  assumes "is_letter c" and "\<forall>n \<in> set ([65..<91] @ [97..<123]). P (of_nat n)"
  shows "P c"
proof -
  have "unat c \<in> set ([65..<91] @ [97..<123])"
    unfolding set_append set_upt using assms(1) by (auto simp: is_letter_def word_le_nat_alt)
  with assms(2) have "P (of_nat (unat c))" by blast
  then show ?thesis by simp
qed

lemma ctrl_letter: "is_letter c \<Longrightarrow> 1 \<le> (c OR 0x20) - 97 + 1 \<and> (c OR 0x20) - 97 + 1 < 128"
  by (erule letter_cases) simp

lemma table_chars:
  "\<forall>c \<in> set map_lower. c < 128 \<and> (is_letter c \<longrightarrow> 97 \<le> c)"
  "\<forall>c \<in> set map_upper. c < 128 \<and> (is_letter c \<longrightarrow> c \<le> 90)"
  by (simp_all add: map_lower_def map_upper_def ascii_def is_letter_def)

lemma wheel_range: "- 7 \<le> wheel_of b \<and> wheel_of b \<le> 8"
proof -
  have "b AND 0x0F = of_nat (unat b mod 16)"
    using take_bit_eq_mask [of 4 b] by (simp add: word_unat_eq_iff u_simps mask_eq_exp_minus_1)
  moreover have "unat b mod 16 \<in> set (0 # 1 # [2..<16])" unfolding set_upt list.set by auto
  moreover have "\<forall>n \<in> set (0 # 1 # [2..<16]). - 7 \<le> (let z = of_nat n :: u8; z' = (if z AND 0x08 \<noteq> 0 then z OR 0xF0 else z) in - sint z')
     \<and> (let z = of_nat n :: u8; z' = (if z AND 0x08 \<noteq> 0 then z OR 0xF0 else z) in - sint z') \<le> 8"
    by (simp add: Let_def)
  ultimately show ?thesis unfolding wheel_of_def Let_def by metis
qed

lemma key_char_range:
  assumes "code < 128" and "key_char k code \<noteq> 0"
  shows "key_char k code < 128"
proof -
  define c where "c = (if shift_down k then map_upper else map_lower) ! unat code"
  have "unat code < 128" using assms(1) by (simp add: word_less_nat_alt)
  then have c: "c < 128" "is_letter c \<Longrightarrow> shift_down k \<Longrightarrow> c \<le> 90" "is_letter c \<Longrightarrow> \<not> shift_down k \<Longrightarrow> 97 \<le> c"
    using table_chars map_lengths by (auto simp: c_def)
  have up: "c + 32 < 128" if "is_letter c" "shift_down k"
    using that c by (simp add: word_less_nat_alt word_le_nat_alt unat_plus_simple)
  have down: "c - 32 < 128" if "is_letter c" "\<not> shift_down k"
    using c(1) c(3) [OF that] by (simp add: word_less_nat_alt word_le_nat_alt unat_minus_simple)
  show ?thesis
    using assms(2) c(1) up down ctrl_letter
    by (auto simp: key_char_def Let_def c_def [symmetric] split: if_splits)
qed

section \<open>Invariants\<close>

definition key_ok :: "u32 \<Rightarrow> bool" where
  "key_ok k \<longleftrightarrow> 0 < k \<and> k < 128 \<or> 0x100 \<le> k \<and> k \<le> 0x108"

definition event_ok :: "mouse \<Rightarrow> input_event \<Rightarrow> bool" where
  "event_ok m e \<longleftrightarrow> 0 \<le> ie_x e \<and> ie_x e < bound_w m \<and> 0 \<le> ie_y e \<and> ie_y e < bound_h m \<and>
     - 256 \<le> ie_dx e \<and> ie_dx e \<le> 256 \<and> - 256 \<le> ie_dy e \<and> ie_dy e \<le> 256 \<and> ie_buttons e < 8 \<and>
     ie_wheel e \<in> {- 7..8} \<and> (ie_kind e = INPUT_KEY \<longrightarrow> key_ok (ie_key e))"

definition mouse_ok :: "mouse \<Rightarrow> bool" where
  "mouse_ok m \<longleftrightarrow> length (packet m) = 4 \<and> packet_size m \<in> {3, 4} \<and> packet_index m < packet_size m \<and>
     0 \<le> cursor_x m \<and> cursor_x m < bound_w m \<and> 0 \<le> cursor_y m \<and> cursor_y m < bound_h m \<and>
     button_state m < 8 \<and> iq.ok m \<and> (\<forall>e \<in> set (iq.entries m). event_ok m e)"

definition ps2_ok :: "ps2 \<Rightarrow> bool" where
  "ps2_ok s \<longleftrightarrow> mouse_ok (ms s) \<and> kq.ok s \<and> (\<forall>k \<in> set (kq.entries s). key_ok (ucast k))"

lemma mouse_push_ok: "mouse_ok m \<Longrightarrow> event_ok m e \<Longrightarrow> mouse_ok (mouse_push e m)"
proof -
  assume a: "mouse_ok m" "event_ok m e"
  have same: "packet (mouse_push e m) = packet m" "packet_size (mouse_push e m) = packet_size m"
    "packet_index (mouse_push e m) = packet_index m" "cursor_x (mouse_push e m) = cursor_x m"
    "cursor_y (mouse_push e m) = cursor_y m" "bound_w (mouse_push e m) = bound_w m"
    "bound_h (mouse_push e m) = bound_h m" "button_state (mouse_push e m) = button_state m"
    by (simp_all add: mouse_push_def Let_def)
  have ev: "event_ok (mouse_push e m) = event_ok m"
    by (simp add: fun_eq_iff event_ok_def same)
  show ?thesis
    using a iq.inv_push [of m e] iq.items_push [of m e] by (auto simp: mouse_ok_def same ev)
qed

lemma delta_range: "- 256 \<le> delta neg b \<and> delta neg b \<le> 255"
proof -
  have "uint b < 256" "0 \<le> uint b" using uint_lt2p [of b] by simp_all
  then show ?thesis by (cases neg) (simp_all only: delta_value if_True if_False, linarith+)
qed

lemma iq_frame:
  assumes "queue m' = queue m" "q_head m' = q_head m" "q_tail m' = q_tail m"
  shows "iq.ok m' = iq.ok m" "iq.entries m' = iq.entries m"
  using assms by (simp_all add: iq.ok_def iq.entries_def)

lemma mouse_push_bounds [simp]:
  "bound_w (mouse_push e m) = bound_w m" "bound_h (mouse_push e m) = bound_h m"
  by (simp_all add: mouse_push_def Let_def)

lemma event_ok_cong: "bound_w m' = bound_w m \<Longrightarrow> bound_h m' = bound_h m \<Longrightarrow> event_ok m' = event_ok m"
  by (simp add: fun_eq_iff event_ok_def)

lemma clamp_range: "0 < b \<Longrightarrow> 0 \<le> clamp b v \<and> clamp b v < b"
  by (simp add: clamp_def Let_def)

definition pending_ok :: "input_event \<times> mouse \<Rightarrow> bool" where
  "pending_ok st \<longleftrightarrow> mouse_ok (snd st) \<and> event_ok (snd st) (fst st) \<and> ie_kind (fst st) \<noteq> INPUT_KEY"

lemma pending_push:
  "pending_ok (e, m) \<Longrightarrow> e' = e\<lparr>ie_kind := k, ie_button := b\<rparr> \<Longrightarrow> k \<noteq> INPUT_KEY \<Longrightarrow> pending_ok (e', mouse_push e' m)"
  by (auto simp: pending_ok_def event_ok_cong [OF mouse_push_bounds] intro!: mouse_push_ok)
    (auto simp: event_ok_def)

lemma button_step_ok: "pending_ok st \<Longrightarrow> pending_ok (button_step buttons b st)"
  by (cases st) (auto simp: button_step_def Let_def intro: pending_push)

lemma fold_button_ok: "pending_ok st \<Longrightarrow> pending_ok (fold (button_step buttons) bs st)"
  by (induction bs arbitrary: st) (simp_all add: button_step_ok)

lemma mouse_ok_cong:
  assumes "mouse_ok m" "queue m' = queue m" "q_head m' = q_head m" "q_tail m' = q_tail m"
    "bound_w m' = bound_w m" "bound_h m' = bound_h m"
    "length (packet m') = 4" "packet_size m' = packet_size m" "packet_index m' < packet_size m"
    "0 \<le> cursor_x m'" "cursor_x m' < bound_w m" "0 \<le> cursor_y m'" "cursor_y m' < bound_h m"
    "button_state m' < 8"
  shows "mouse_ok m'"
  using assms by (simp add: mouse_ok_def iq_frame [of m' m] event_ok_cong [of m' m])

lemma buttons_small: "packet_buttons flags < 8"
  by (simp add: packet_buttons_def MOUSE_LEFT_def MOUSE_RIGHT_def MOUSE_MIDDLE_def)

lemma move_cursor_ok: "mouse_ok m \<Longrightarrow> mouse_ok (move_cursor dx dy m)"
  using clamp_range [of "bound_w m"] clamp_range [of "bound_h m"]
  by (rule_tac m = m in mouse_ok_cong) (simp_all add: move_cursor_def mouse_ok_def)

lemma packet_events_ok:
  assumes "mouse_ok m" and "buttons < 8" and "wheel \<in> {- 7..8}"
    and "- 256 \<le> dx" "dx \<le> 255" "- 256 \<le> dy" "dy \<le> 255"
  shows "mouse_ok (push_packet_events dx dy wheel buttons m)"
proof -
  define event where "event = no_event\<lparr>ie_x := cursor_x m, ie_y := cursor_y m, ie_dx := dx, ie_dy := - dy,
    ie_buttons := buttons\<rparr>"
  define st where "st = (if dx \<noteq> 0 \<or> dy \<noteq> 0
    then (event\<lparr>ie_kind := INPUT_MOUSE_MOVE\<rparr>, mouse_push (event\<lparr>ie_kind := INPUT_MOUSE_MOVE\<rparr>) m)
    else (event, m))"
  have "pending_ok (event, m)"
    using assms by (simp add: pending_ok_def event_ok_def event_def no_event_def mouse_ok_def)
  then have "pending_ok st"
    using pending_push [where k = INPUT_MOUSE_MOVE and b = "ie_button event", of event m] by (simp add: st_def)
  then have "pending_ok (fold (button_step buttons) [1, 2, 4] st)" by (rule fold_button_ok)
  moreover obtain e m' where em: "fold (button_step buttons) [1, 2, 4] st = (e, m')" by fastforce
  ultimately have "pending_ok (e, m')" by simp
  then have "mouse_ok m'" "mouse_ok (mouse_push (e\<lparr>ie_button := 0, ie_kind := INPUT_MOUSE_WHEEL, ie_wheel := wheel\<rparr>) m')"
    using assms(3) by (auto simp: pending_ok_def event_ok_def intro!: mouse_push_ok)
  then show ?thesis
    unfolding push_packet_events_def Let_def event_def [symmetric] st_def [symmetric] em by simp
qed

lemma handle_packet_ok:
  assumes "mouse_ok m"
  shows "mouse_ok (handle_packet m)"
proof -
  have last: "mouse_ok (m\<lparr>last_packet := l\<rparr>)" "mouse_ok (m\<lparr>last_packet := l, dropped := d\<rparr>)" for l d
    using assms by (auto intro!: mouse_ok_cong [OF assms]) (simp_all add: mouse_ok_def)
  have "mouse_ok ((push_packet_events (delta a x) (delta b y) (if c then wheel_of z else 0) (packet_buttons f)
      (move_cursor (delta a x) (delta b y) (m\<lparr>last_packet := l\<rparr>)))\<lparr>button_state := packet_buttons f\<rparr>)"
    (is "mouse_ok (?m\<lparr>button_state := _\<rparr>)") for a b c x y z f l
  proof -
    have "mouse_ok ?m"
      using delta_range wheel_range by (intro packet_events_ok move_cursor_ok last buttons_small) auto
    then show ?thesis
      by (rule mouse_ok_cong) (use \<open>mouse_ok ?m\<close> in \<open>simp_all add: mouse_ok_def buttons_small\<close>)
  qed
  with last show ?thesis
    by (simp add: handle_packet_def Let_def)
qed

lemma mouse_feed_ok:
  assumes "mouse_ok m"
  shows "mouse_ok (mouse_feed_byte byte m)"
proof -
  let ?m1 = "m\<lparr>packet := (packet m)[packet_index m := byte], packet_index := packet_index m + 1\<rparr>"
  have resync: "mouse_ok (m\<lparr>resyncs := r\<rparr>)" for r
    using assms by (intro mouse_ok_cong [OF assms]) (simp_all add: mouse_ok_def)
  have "mouse_ok (?m1\<lparr>packet_index := 0, packet_count := c\<rparr>)" for c
    using assms by (intro mouse_ok_cong [OF assms]) (auto simp: mouse_ok_def)
  moreover have "mouse_ok ?m1" if "packet_index m + 1 < packet_size m"
    using assms that by (intro mouse_ok_cong [OF assms]) (simp_all add: mouse_ok_def)
  ultimately show ?thesis
    using resync by (simp add: mouse_feed_byte_def Let_def handle_packet_ok not_le)
qed

lemma push_key_ok: "mouse_ok m \<Longrightarrow> key_ok key \<Longrightarrow> mouse_ok (input_push_key key m)"
  by (auto simp: input_push_key_def intro!: mouse_push_ok) (auto simp: event_ok_def mouse_ok_def no_event_def)

lemma kbd_push_ok: "ps2_ok s \<Longrightarrow> key_ok (ucast key) \<Longrightarrow> ps2_ok (kbd_push key s)"
  using kq.inv_push [of s key] kq.items_push [of s key] push_key_ok [of "ms s" "ucast key"]
  by (auto simp: ps2_ok_def) (auto simp: kbd_push_def Let_def)

lemma kbd_flags_ok:
  assumes "ps2_ok s" "ms s' = ms s" "buffer (kb s') = buffer (kb s)" "k_head (kb s') = k_head (kb s)"
    "k_tail (kb s') = k_tail (kb s)"
  shows "ps2_ok s'"
  using assms by (simp add: ps2_ok_def kq.ok_def kq.entries_def)

lemma ucast_key: "unat (ucast (ucast c :: u16) :: u32) = unat c" for c :: u8
  using unat_lt2p [of c] by (simp add: unat_ucast_small)

lemma keyboard_feed_ok:
  assumes "ps2_ok s"
  shows "ps2_ok (keyboard_feed_byte code s)"
proof -
  have char: "ps2_ok (kbd_push (ucast (key_char (kb s) c)) s)" if "c < 128" "key_char (kb s) c \<noteq> 0" for c
    using key_char_range [OF that] that assms
    by (intro kbd_push_ok) (auto simp: key_ok_def word_less_nat_alt ucast_key unat_gt_0)
  have ext: "ps2_ok (kbd_push key t)" if "extended_key c = Some key" "ps2_ok t" for c key t
    using that by (intro kbd_push_ok) (auto simp: extended_key_def key_ok_def split: if_splits)
  have t: "ps2_ok (s\<lparr>kb := (kb s)\<lparr>extended := x\<rparr>\<rparr>)" "ps2_ok (s\<lparr>kb := (kb s)\<lparr>extended := x, ctrl_down := y\<rparr>\<rparr>)"
    "ps2_ok (s\<lparr>kb := (kb s)\<lparr>shift_down := x\<rparr>\<rparr>)" "ps2_ok (s\<lparr>kb := (kb s)\<lparr>ctrl_down := x\<rparr>\<rparr>)"
    "ps2_ok (s\<lparr>kb := (kb s)\<lparr>caps_lock := x\<rparr>\<rparr>)" for x y
    by (rule kbd_flags_ok [OF assms]; simp)+
  show ?thesis
    using assms t ext [of _ _ "s\<lparr>kb := (kb s)\<lparr>extended := False\<rparr>\<rparr>"] char
    by (simp add: keyboard_feed_byte_def Let_def not_le split: option.split)
qed

lemma ms_update_ok: "ps2_ok s \<Longrightarrow> mouse_ok m \<Longrightarrow> ps2_ok (s\<lparr>ms := m\<rparr>)"
  by (simp add: ps2_ok_def kq.ok_def kq.entries_def)

lemma mouse_counters_ok:
  "mouse_ok m \<Longrightarrow> mouse_ok (m\<lparr>irq_count := a\<rparr>)" "mouse_ok m \<Longrightarrow> mouse_ok (m\<lparr>stray_bytes := a\<rparr>)"
  subgoal by (rule mouse_ok_cong [of m]) (simp_all add: mouse_ok_def)
  subgoal by (rule mouse_ok_cong [of m]) (simp_all add: mouse_ok_def)
  done

lemma keyboard_irq_ok: "ps2_ok s \<Longrightarrow> ps2_ok (keyboard_irq port s)"
  by (induction port s rule: keyboard_irq.induct)
    (simp_all add: ms_update_ok mouse_feed_ok keyboard_feed_ok ps2_ok_def [THEN iffD1])

lemma mouse_drain_ok: "ps2_ok s \<Longrightarrow> ps2_ok (mouse_drain port s)"
proof (induction port s rule: mouse_drain.induct)
  case (2 status data port s)
  moreover from "2.prems" have "mouse_ok (ms s)" "mouse_ok (ms (keyboard_feed_byte data s))"
    using keyboard_feed_ok [of s data] by (simp_all add: ps2_ok_def)
  ultimately show ?case
    using keyboard_feed_ok [of s data]
    by (simp add: ms_update_ok mouse_feed_ok mouse_counters_ok Let_def)
qed simp

definition boot_mouse :: mouse where
  "boot_mouse = \<lparr>queue = replicate 128 no_event, q_head = 0, q_tail = 0, packet = replicate 4 0,
     packet_index = 0, packet_size = 3, m_present = True, cursor_x = 512, cursor_y = 384, bound_w = 1024,
     bound_h = 768, button_state = 0, total_dx = 0, total_dy = 0, last_packet = replicate 4 0, dropped = 0,
     irq_count = 0, packet_count = 0, stray_bytes = 0, resyncs = 0\<rparr>"

definition boot_ps2 :: ps2 where
  "boot_ps2 = \<lparr>kb = \<lparr>buffer = replicate 128 0, k_head = 0, k_tail = 0, shift_down = False, ctrl_down = False,
     caps_lock = False, extended = False\<rparr>, ms = boot_mouse\<rparr>"

lemma boot_ok: "ps2_ok boot_ps2" "mouse_ok boot_mouse"
  by (simp_all add: ps2_ok_def mouse_ok_def boot_ps2_def boot_mouse_def iq.ok_def iq.entries_def kq.ok_def
      kq.entries_def ring_ok_def ring_list_def ring_count_def)



text \<open>
  the key buffer is a bounded queue: keys are read in the order they were typed, keys beyond
  the 127 that fit are dropped without disturbing the others, and an empty buffer reads as -1.
\<close>

lemma keyboard_fifo:
  assumes "kq.ok s"
  shows "kq.entries (fold kbd_push keys s) =
      kq.entries s @ take (127 - length (kq.entries s)) keys \<and>
    (kq.entries s = [] \<longrightarrow> keyboard_trygetc s = (-1, s)) \<and>
    (\<forall>k ks. kq.entries s = k # ks \<longrightarrow>
       (\<exists>s'. keyboard_trygetc s = (uint k, s') \<and> kq.entries s' = ks \<and> kq.ok s'))"
proof (intro conjI allI impI)
  show "kq.entries (fold kbd_push keys s) = kq.entries s @ take (127 - length (kq.entries s)) keys"
    using kq.push_batch [OF assms, of keys] by simp
next
  assume "kq.entries s = []"
  then have "k_tail (kb s) = k_head (kb s)"
    using assms by (simp add: kq.entries_def kq.ok_def ring_empty)
  then show "keyboard_trygetc s = (-1, s)" by (simp add: keyboard_trygetc_def)
next
  fix k ks
  assume "kq.entries s = k # ks"
  from kq.pop_items [OF assms this]
  obtain s' where s': "keyboard_pop s = (Some k, s')" "kq.entries s' = ks" "kq.ok s'" by blast
  then have "keyboard_trygetc s = (uint k, s')"
    by (auto simp: keyboard_pop_def keyboard_trygetc_def split: if_splits)
  with s' show "\<exists>s'. keyboard_trygetc s = (uint k, s') \<and> kq.entries s' = ks \<and> kq.ok s'" by blast
qed

lemma letter_table:
  assumes "n < 128" and "is_letter (map_lower ! n)"
  shows "n \<noteq> 0x2A \<and> n \<noteq> 0x36 \<and> n \<noteq> 0x1D \<and> n \<noteq> 0x3A \<and> 97 \<le> map_lower ! n \<and>
    map_upper ! n = map_lower ! n - 32"
proof -
  have "list_all (\<lambda>n. is_letter (map_lower ! n) \<longrightarrow>
      n \<noteq> 0x2A \<and> n \<noteq> 0x36 \<and> n \<noteq> 0x1D \<and> n \<noteq> 0x3A \<and> 97 \<le> map_lower ! n \<and>
      map_upper ! n = map_lower ! n - 32) [0..<128]"
    by (simp add: upt_rec map_lower_def map_upper_def ascii_def is_letter_def)
  with assms show ?thesis unfolding list_all_iff by auto
qed

lemma letter_words:
  assumes "is_letter l"
  shows "97 \<le> l \<longrightarrow> l \<noteq> 0 \<and> l - 32 \<noteq> 0 \<and> l - 96 \<noteq> 0 \<and> is_letter (l - 32) \<and> l - 32 + 32 = l \<and>
    (l OR 0x20) - 97 + 1 = l - 96 \<and> (l - 32 OR 0x20) - 97 + 1 = l - 96"
  using assms by (rule letter_cases) (simp add: is_letter_def)

lemma scan_code_bits:
  fixes code :: u8
  assumes "code < 128"
  shows "code AND 0x80 = 0" and "code AND 0x7F = code"
proof -
  have m: "code AND 0x7F = take_bit 7 code" by (simp add: take_bit_eq_mask mask_eq_exp_minus_1)
  show c: "code AND 0x7F = code"
    unfolding m using assms by (simp add: word_unat_eq_iff u_simps word_less_nat_alt)
  have "code AND 0x80 = (code AND 0x7F) AND 0x80" by (simp only: c)
  also have "\<dots> = 0" by (simp add: and.assoc)
  finally show "code AND 0x80 = 0" .
qed

text \<open>
  For every letter key, pressing it types the upper case letter exactly when one of Shift and
  Caps Lock is active but not both, and the control character of the letter while Ctrl is held.
\<close>

lemma letter_typed:
  assumes "code < 128" and "is_letter (map_lower ! unat code)" and "\<not> extended (kb s)"
  shows "keyboard_feed_byte code s =
    (let c = map_lower ! unat code
     in kbd_push (ucast (if ctrl_down (kb s) then c - 96
                         else if shift_down (kb s) \<noteq> caps_lock (kb s) then c - 32 else c)) s)"
proof -
  define l where "l = map_lower ! unat code"
  have n: "unat code < 128" using assms(1) by (simp add: word_less_nat_alt)
  note t = letter_table [OF n assms(2)]
  have l: "is_letter l" "97 \<le> l" "map_upper ! unat code = l - 32"
    using assms(2) t by (simp_all add: l_def)
  have ne: "code \<noteq> 0x2A" "code \<noteq> 0x36" "code \<noteq> 0x1D" "code \<noteq> 0x3A"
    using t by (auto simp: word_unat_eq_iff)
  have hi: "code \<noteq> 0xE0" "code \<noteq> 0xFA" "code \<noteq> 0xFE" "code \<noteq> 0xAA"
    using assms(1) by auto
  have c: "key_char (kb s) code = (if ctrl_down (kb s) then l - 96
      else if shift_down (kb s) \<noteq> caps_lock (kb s) then l - 32 else l) \<and> key_char (kb s) code \<noteq> 0"
    using l(1,3) letter_words [OF l(1)] l(2) by (simp add: key_char_def Let_def flip: l_def)
  have "keyboard_feed_byte code s = kbd_push (ucast (key_char (kb s) code)) s"
    using assms(1,3) ne hi conjunct2 [OF c] by (simp add: keyboard_feed_byte_def scan_code_bits Let_def not_le)
  then show ?thesis
    unfolding conjunct1 [OF c] Let_def l_def .
qed

text \<open>
  two modifier releases are lost.  The release code of the left Shift key, 0xAA, is taken for a
  controller acknowledgement, so the shift state stays set after left Shift goes up; and the release
  of the right Ctrl key (0xE0 0x9D) leaves the control state set, because an extended release returns
  before the switch.  The release of the right Shift and of the left Ctrl key do clear them.
\<close>

lemma stuck_modifiers:
  assumes "\<not> extended (kb s)"
  shows "shift_down (kb (fold keyboard_feed_byte [0x2A, 0xAA] s)) \<and>
    ctrl_down (kb (fold keyboard_feed_byte [0xE0, 0x1D, 0xE0, 0x9D] s)) \<and>
    \<not> shift_down (kb (fold keyboard_feed_byte [0x36, 0xB6] s)) \<and>
    \<not> ctrl_down (kb (fold keyboard_feed_byte [0x1D, 0x9D] s))"
  using assms by (simp add: keyboard_feed_byte_def extended_key_def)

text \<open>
  a complete valid three byte packet moves the cursor by the signed movement it carries, with y
  growing downwards and both coordinates clamped to the screen, records the pressed buttons and
  leaves the driver at a packet boundary.
\<close>

lemma mouse_packet_moves:
  fixes flags x y :: u8
  assumes "mouse_ok m" and "packet_index m = 0" and "packet_size m = 3"
    and "flags AND 0x08 \<noteq> 0" and "flags AND 0xC0 = 0"
  defines "m' \<equiv> fold mouse_feed_byte [flags, x, y] m"
  shows "cursor_x m' = clamp (bound_w m) (cursor_x m + (if flags AND 0x10 \<noteq> 0 then uint x - 256 else uint x)) \<and>
    cursor_y m' = clamp (bound_h m) (cursor_y m - (if flags AND 0x20 \<noteq> 0 then uint y - 256 else uint y)) \<and>
    button_state m' = packet_buttons flags \<and> packet_index m' = 0"
proof -
  have len: "length (packet m) = 4" using assms(1) by (simp add: mouse_ok_def)
  have push: "cursor_x (mouse_push e k) = cursor_x k" "cursor_y (mouse_push e k) = cursor_y k"
    "packet_index (mouse_push e k) = packet_index k" for e k
    by (simp_all add: mouse_push_def Let_def)
  have step: "cursor_x (snd (button_step b i st)) = cursor_x (snd st)"
    "cursor_y (snd (button_step b i st)) = cursor_y (snd st)"
    "packet_index (snd (button_step b i st)) = packet_index (snd st)" for b i st
    by (simp_all add: button_step_def Let_def push split: prod.split)
  have ev: "cursor_x (push_packet_events a b c d k) = cursor_x k"
    "cursor_y (push_packet_events a b c d k) = cursor_y k"
    "packet_index (push_packet_events a b c d k) = packet_index k" for a b c d k
    by (simp_all add: push_packet_events_def Let_def case_prod_beta push step)
  show ?thesis
    using assms(2-5) len
    by (simp add: m'_def mouse_feed_byte_def Let_def handle_packet_def ev move_cursor_def delta_value
        nth_list_update)
qed

end
