(* ===== verification/PhysMem.thy ===== *)
theory PhysMem
  imports SifarPrelude
begin

text \<open>
  Physical memory as the kernel sees it through its identity map: a function from addresses to bytes,
  with the little-endian 32-bit accesses the page table code makes and the block operations
  \<^verbatim>\<open>memset\<close> and \<^verbatim>\<open>memcpy\<close> of \<^verbatim>\<open>kernel/lib/string.c\<close> on it.  The lemmas are about aligned
  words: a word written is read back, and a write leaves every other aligned word alone.
\<close>

type_synonym memory = "u32 \<Rightarrow> u8"

definition rd32 :: "memory \<Rightarrow> u32 \<Rightarrow> u32" where
  "rd32 m a = ucast (m a) OR push_bit 8 (ucast (m (a + 1))) OR push_bit 16 (ucast (m (a + 2))) OR
     push_bit 24 (ucast (m (a + 3)))"

definition wr32 :: "u32 \<Rightarrow> u32 \<Rightarrow> memory \<Rightarrow> memory" where
  "wr32 a v m = m(a := ucast v, a + 1 := ucast (drop_bit 8 v), a + 2 := ucast (drop_bit 16 v),
     a + 3 := ucast (drop_bit 24 v))"

text \<open>\<^verbatim>\<open>memset(frame, 0, PAGE_SIZE)\<close> on a page aligned frame.\<close>

definition zero_page :: "u32 \<Rightarrow> memory \<Rightarrow> memory" where
  "zero_page f m = (\<lambda>a. if drop_bit 12 a = drop_bit 12 f then 0 else m a)"

text \<open>Copying a list of bytes to consecutive addresses, and reading one back.\<close>

fun write_bytes :: "u32 \<Rightarrow> u8 list \<Rightarrow> memory \<Rightarrow> memory" where
  "write_bytes a [] m = m"
| "write_bytes a (b # bs) m = write_bytes (a + 1) bs (m(a := b))"

definition read_bytes :: "memory \<Rightarrow> u32 \<Rightarrow> nat \<Rightarrow> u8 list" where
  "read_bytes m a n = map (\<lambda>i. m (a + of_nat i)) [0..<n]"

section \<open>Words\<close>

lemma rd32_wr32_same [simp]: "rd32 (wr32 a v m) a = v"
proof -
  have "a \<noteq> a + 1" "a \<noteq> a + 2" "a \<noteq> a + 3" "a + 1 \<noteq> a + 2" "a + 1 \<noteq> a + 3" "a + 2 \<noteq> a + 3"
    by simp_all
  then show ?thesis
    unfolding rd32_def wr32_def
    apply (intro bit_word_eqI)
    apply (auto simp: bit_simps)
    subgoal for n by (cases "24 \<le> n") auto
    done
qed

definition aligned4 :: "u32 \<Rightarrow> bool" where
  "aligned4 a \<longleftrightarrow> 4 dvd unat a"

lemma aligned4_plus:
  assumes "aligned4 a" and "k < 4"
  shows "unat (a + of_nat k) = unat a + k"
proof -
  have "unat a + k < 2 ^ 32"
    using assms unat_lt2p [of a] by (auto simp: aligned4_def dvd_def)
  then have "unat a + unat (of_nat k :: u32) < 2 ^ LENGTH(32)"
    using assms(2) by (simp add: unsigned_of_nat take_bit_eq_mod)
  from unat_plus_simple [OF this] show ?thesis
    using assms(2) by (simp add: unsigned_of_nat take_bit_eq_mod)
qed

lemma aligned4_bytes:
  assumes "aligned4 a"
  shows "unat (a + 1) = unat a + 1" "unat (a + 2) = unat a + 2" "unat (a + 3) = unat a + 3"
  using aligned4_plus [OF assms, of 1] aligned4_plus [OF assms, of 2] aligned4_plus [OF assms, of 3]
  by simp_all

lemma rd32_cong:
  assumes "\<And>k. k < 4 \<Longrightarrow> m (a + of_nat k) = m' (a + of_nat k)"
  shows "rd32 m a = rd32 m' a"
  using assms [of 0] assms [of 1] assms [of 2] assms [of 3] by (simp add: rd32_def)

lemma rd32_wr32_other:
  assumes "aligned4 a" and "aligned4 b" and "a \<noteq> b"
  shows "rd32 (wr32 a v m) b = rd32 m b"
proof (rule rd32_cong)
  fix k :: nat
  assume k: "k < 4"
  have "unat a div 4 \<noteq> unat b div 4"
    using assms by (auto simp: aligned4_def word_unat_eq_iff dvd_def)
  then have "unat (b + of_nat k) \<noteq> unat a + j" if "j < 4" for j
    using that k assms(1,2) aligned4_plus [OF assms(2) k] by (auto simp: aligned4_def dvd_def)
  from this [of 0] this [of 1] this [of 2] this [of 3]
  have "b + of_nat k \<noteq> a" "b + of_nat k \<noteq> a + 1" "b + of_nat k \<noteq> a + 2" "b + of_nat k \<noteq> a + 3"
    using aligned4_bytes [OF assms(1)] by auto
  then show "wr32 a v m (b + of_nat k) = m (b + of_nat k)"
    by (simp add: wr32_def)
qed

lemma aligned4_page:
  assumes "aligned4 a" and "k < 4"
  shows "drop_bit 12 (a + of_nat k) = drop_bit 12 a"
  using assms aligned4_plus [OF assms]
  by (auto simp: word_unat_eq_iff u_simps aligned4_def dvd_def)

lemma rd32_zero_page:
  assumes "aligned4 a"
  shows "rd32 (zero_page f m) a = (if drop_bit 12 a = drop_bit 12 f then 0 else rd32 m a)"
proof (cases "drop_bit 12 a = drop_bit 12 f")
  case True
  have "zero_page f m (a + of_nat k) = 0" if "k < 4" for k
    using that True aligned4_page [OF assms that] by (simp add: zero_page_def)
  from this [of 0] this [of 1] this [of 2] this [of 3] show ?thesis
    using True by (simp add: rd32_def)
next
  case False
  then show ?thesis
    using aligned4_page [OF assms] by (auto intro!: rd32_cong simp: zero_page_def)
qed

section \<open>Entries of a page\<close>

text \<open>The address of entry \<open>i\<close> of an array of 32-bit words at \<open>t\<close>.\<close>

definition entry_addr :: "u32 \<Rightarrow> u32 \<Rightarrow> u32" where
  "entry_addr t i = t + 4 * i"

lemma entry_unat:
  assumes "4096 dvd unat t" and "i < 1024"
  shows "unat (entry_addr t i) = unat t + 4 * unat i"
proof -
  have i: "unat i < 1024" using assms(2) by (simp add: word_less_nat_alt)
  have "unat t + 4096 \<le> 2 ^ 32"
    using assms(1) unat_lt2p [of t] by (auto simp: dvd_def)
  moreover have "unat (4 * i) = 4 * unat i" using i by (simp add: unat_word_ariths)
  ultimately show ?thesis
    using i unat_plus_simple [of t "4 * i"] by (simp add: entry_addr_def)
qed

lemma entry_page:
  assumes "4096 dvd unat t" and "i < 1024"
  shows "aligned4 (entry_addr t i)" and "drop_bit 12 (entry_addr t i) = drop_bit 12 t"
proof -
  have i: "unat i < 1024" using assms(2) by (simp add: word_less_nat_alt)
  show "aligned4 (entry_addr t i)"
    using dvd_trans [of 4 4096 "unat t"] assms entry_unat [OF assms] by (simp add: aligned4_def)
  show "drop_bit 12 (entry_addr t i) = drop_bit 12 t"
    using assms(1) i entry_unat [OF assms] by (auto simp: word_unat_eq_iff u_simps dvd_def)
qed

lemma page_eq: "4096 dvd unat s \<Longrightarrow> 4096 dvd unat t \<Longrightarrow> drop_bit 12 s = drop_bit 12 t \<longleftrightarrow> s = t"
  for s t :: u32
  by (auto simp: word_unat_eq_iff u_simps dvd_def)

lemma entry_addr_eq:
  assumes "4096 dvd unat s" "4096 dvd unat t" "i < 1024" "j < 1024"
  shows "entry_addr s i = entry_addr t j \<longleftrightarrow> s = t \<and> i = j"
proof
  assume eq: "entry_addr s i = entry_addr t j"
  then have "s = t"
    using entry_page(2) [of s i] entry_page(2) [of t j] assms by (metis page_eq)
  moreover have "unat s + 4 * unat i = unat t + 4 * unat j"
    using eq assms entry_unat by metis
  ultimately show "s = t \<and> i = j"
    by (simp add: word_unat_eq_iff)
qed simp

text \<open>The two accesses of page table code, on entries of page aligned tables.\<close>

lemma rd32_entry_wr32:
  assumes "4096 dvd unat s" "4096 dvd unat t" "i < 1024" "j < 1024"
  shows "rd32 (wr32 (entry_addr s i) v m) (entry_addr t j) =
    (if s = t \<and> i = j then v else rd32 m (entry_addr t j))"
  using assms entry_addr_eq [OF assms] by (auto simp: rd32_wr32_other entry_page)

lemma rd32_entry_zero:
  assumes "4096 dvd unat f" "4096 dvd unat t" "i < 1024"
  shows "rd32 (zero_page f m) (entry_addr t i) = (if f = t then 0 else rd32 m (entry_addr t i))"
  using assms by (auto simp: rd32_zero_page entry_page page_eq)

section \<open>Blocks\<close>

lemma write_bytes_outside:
  assumes "unat a + length bs \<le> 2 ^ 32" and "unat x < unat a \<or> unat a + length bs \<le> unat x"
  shows "write_bytes a bs m x = m x"
  using assms
proof (induction bs arbitrary: a m)
  case (Cons b bs)
  define m' where "m' = m(a := b)"
  have "unat (a + 1) = unat a + 1" if "bs \<noteq> []"
    using that Cons.prems(1) by (intro unat_plus_one) (cases bs, auto)
  moreover have "m' x = m x" using Cons.prems(2) by (auto simp: m'_def)
  ultimately show ?case
    using Cons.IH [of "a + 1" m'] Cons.prems by (cases "bs = []") (auto simp flip: m'_def)
qed simp

lemma read_write_bytes:
  assumes "unat a + length bs \<le> 2 ^ 32"
  shows "read_bytes (write_bytes a bs m) a (length bs) = bs"
  using assms
proof (induction bs arbitrary: a m)
  case (Cons b bs)
  define m' where "m' = m(a := b)"
  show ?case
  proof (cases "bs = []")
    case False
    then have n: "unat (a + 1) = unat a + 1"
      using Cons.prems by (intro unat_plus_one) (cases bs, auto)
    have "write_bytes (a + 1) bs m' a = b"
      using Cons.prems n by (subst write_bytes_outside) (auto simp: m'_def)
    moreover have "read_bytes (write_bytes (a + 1) bs m') (a + 1) (length bs) = bs"
      using Cons.IH [of "a + 1" m'] Cons.prems n by simp
    moreover have "read_bytes k a (Suc l) = k a # read_bytes k (a + 1) l" for k l
      by (simp add: read_bytes_def upt_conv_Cons map_Suc_upt [symmetric] o_def add.assoc del: upt_Suc)
    ultimately show ?thesis by (simp flip: m'_def)
  qed (simp add: read_bytes_def)
qed (simp add: read_bytes_def)

end
