(* ===== verification/KString.thy ===== *)
theory KString
  imports PhysMem
begin

text \<open>
  \<^verbatim>\<open>kernel/lib/string.c\<close>.  The block routines work on memory: \<^verbatim>\<open>rep stosl\<close>, \<^verbatim>\<open>rep stosb\<close>,
  \<^verbatim>\<open>rep movsl\<close> and \<^verbatim>\<open>rep movsb\<close> are loops that advance the registers with wrap-around.  The
  string routines work on C strings given as the list of their characters before the terminating
  NUL; reading the character at the end of the list gives the NUL.
\<close>

section \<open>Blocks of memory\<close>

fun stosl :: "nat \<Rightarrow> u32 \<Rightarrow> u32 \<Rightarrow> memory \<Rightarrow> u32 \<times> memory" where
  "stosl 0 dst v m = (dst, m)"
| "stosl (Suc k) dst v m = stosl k (dst + 4) v (wr32 dst v m)"

fun stosb :: "nat \<Rightarrow> u32 \<Rightarrow> u8 \<Rightarrow> memory \<Rightarrow> u32 \<times> memory" where
  "stosb 0 dst v m = (dst, m)"
| "stosb (Suc k) dst v m = stosb k (dst + 1) v (m(dst := v))"

definition memset :: "u32 \<Rightarrow> u32 \<Rightarrow> u32 \<Rightarrow> memory \<Rightarrow> memory" where
  "memset dst c n m =
     (let val = ucast c :: u8; pattern = ucast val * 0x01010101 :: u32
      in case stosl (unat (n div 4)) dst pattern m of (dst1, m1) \<Rightarrow>
           snd (stosb (unat (n mod 4)) dst1 (ucast pattern) m1))"

fun movsl :: "nat \<Rightarrow> u32 \<Rightarrow> u32 \<Rightarrow> memory \<Rightarrow> u32 \<times> u32 \<times> memory" where
  "movsl 0 dst src m = (dst, src, m)"
| "movsl (Suc k) dst src m = movsl k (dst + 4) (src + 4) (wr32 dst (rd32 m src) m)"

fun movsb :: "nat \<Rightarrow> u32 \<Rightarrow> u32 \<Rightarrow> memory \<Rightarrow> u32 \<times> u32 \<times> memory" where
  "movsb 0 dst src m = (dst, src, m)"
| "movsb (Suc k) dst src m = movsb k (dst + 1) (src + 1) (m(dst := m src))"

definition memcpy :: "u32 \<Rightarrow> u32 \<Rightarrow> u32 \<Rightarrow> memory \<Rightarrow> memory" where
  "memcpy dst src n m =
     (case movsl (unat (n div 4)) dst src m of (dst1, src1, m1) \<Rightarrow>
        snd (snd (movsb (unat (n mod 4)) dst1 src1 m1)))"

fun move_up :: "nat \<Rightarrow> u32 \<Rightarrow> u32 \<Rightarrow> memory \<Rightarrow> memory" where
  "move_up 0 d s m = m"
| "move_up (Suc k) d s m = move_up k (d + 1) (s + 1) (m(d := m s))"

fun move_down :: "nat \<Rightarrow> u32 \<Rightarrow> u32 \<Rightarrow> memory \<Rightarrow> memory" where
  "move_down 0 d s m = m"
| "move_down (Suc k) d s m = move_down k (d - 1) (s - 1) (m(d - 1 := m (s - 1)))"

definition memmove :: "u32 \<Rightarrow> u32 \<Rightarrow> u32 \<Rightarrow> memory \<Rightarrow> memory" where
  "memmove d s n m =
     (if d = s \<or> n = 0 then m
      else if d < s then move_up (unat n) d s m
      else move_down (unat n) (d + n) (s + n) m)"

fun memcmp :: "nat \<Rightarrow> u32 \<Rightarrow> u32 \<Rightarrow> memory \<Rightarrow> int" where
  "memcmp 0 x y m = 0"
| "memcmp (Suc n) x y m = (if m x \<noteq> m y then uint (m x) - uint (m y) else memcmp n (x + 1) (y + 1) m)"

section \<open>Strings\<close>

type_synonym cstr = "u8 list"

text \<open>\<^verbatim>\<open>*s\<close>\<close>

definition hd0 :: "cstr \<Rightarrow> u8" where
  "hd0 s = (case s of [] \<Rightarrow> 0 | c # _ \<Rightarrow> c)"

fun strlen :: "cstr \<Rightarrow> nat" where
  "strlen [] = 0"
| "strlen (c # s) = (if c \<noteq> 0 then Suc (strlen s) else 0)"

fun strnlen :: "cstr \<Rightarrow> nat \<Rightarrow> nat" where
  "strnlen s 0 = 0"
| "strnlen s (Suc n) = (if hd0 s \<noteq> 0 then Suc (strnlen (tl s) n) else 0)"

fun strcmp :: "cstr \<Rightarrow> cstr \<Rightarrow> int" where
  "strcmp [] b = 0 - uint (hd0 b)"
| "strcmp (c # a) b = (if c \<noteq> 0 \<and> c = hd0 b then strcmp a (tl b) else uint c - uint (hd0 b))"

fun strncmp :: "cstr \<Rightarrow> cstr \<Rightarrow> nat \<Rightarrow> int" where
  "strncmp a b 0 = 0"
| "strncmp a b (Suc n) =
     (if hd0 a \<noteq> 0 \<and> hd0 a = hd0 b then strncmp (tl a) (tl b) n else uint (hd0 a) - uint (hd0 b))"

definition lower :: "u8 \<Rightarrow> u8" where
  "lower c = (if 65 \<le> c \<and> c \<le> 90 then c + 32 else c)"

fun strcasecmp :: "cstr \<Rightarrow> cstr \<Rightarrow> int" where
  "strcasecmp [] b = uint (lower 0) - uint (lower (hd0 b))"
| "strcasecmp (c # a) b =
     (if c \<noteq> 0 \<and> lower c = lower (hd0 b) then strcasecmp a (tl b) else uint (lower c) - uint (lower (hd0 b)))"

text \<open>Destination buffers are lists; the part of the buffer behind the written bytes is kept.\<close>

definition put_bytes :: "u8 list \<Rightarrow> u8 list \<Rightarrow> u8 list" where
  "put_bytes bs dst = bs @ drop (length bs) dst"

definition strcpy :: "u8 list \<Rightarrow> cstr \<Rightarrow> u8 list" where
  "strcpy dst src = put_bytes (take (strlen src) src @ [0]) dst"

definition strncpy :: "u8 list \<Rightarrow> cstr \<Rightarrow> nat \<Rightarrow> u8 list" where
  "strncpy dst src n = put_bytes (take (strnlen src n) src @ replicate (n - strnlen src n) 0) dst"

definition strlcpy :: "u8 list \<Rightarrow> cstr \<Rightarrow> nat \<Rightarrow> nat \<times> u8 list" where
  "strlcpy dst src sz =
     (let len = strlen src
      in (len,
          if sz = 0 then dst
          else let copy = (if sz \<le> len then sz - 1 else len) in put_bytes (take copy src @ [0]) dst))"

definition strcat :: "u8 list \<Rightarrow> cstr \<Rightarrow> u8 list" where
  "strcat dst src = take (strlen dst) dst @ strcpy (drop (strlen dst) dst) src"

text \<open>A pointer into the string is the rest of it; \<^verbatim>\<open>NULL\<close> is \<open>None\<close>.\<close>

fun strchr :: "cstr \<Rightarrow> u8 \<Rightarrow> cstr option" where
  "strchr [] c = (if c = 0 then Some [] else None)"
| "strchr (x # s) c =
     (if x = 0 then if c = 0 then Some (x # s) else None
      else if x = c then Some (x # s) else strchr s c)"

fun strrchr_loop :: "cstr \<Rightarrow> u8 \<Rightarrow> cstr option \<Rightarrow> cstr option" where
  "strrchr_loop [] c hit = hit"
| "strrchr_loop (x # s) c hit =
     (if x = 0 then hit else strrchr_loop s c (if x = c then Some (x # s) else hit))"

definition strrchr :: "cstr \<Rightarrow> u8 \<Rightarrow> cstr option" where
  "strrchr s c = strrchr_loop s c None"

text \<open>\<^verbatim>\<open>atoi\<close>: the accumulator is an \<^verbatim>\<open>int\<close>, here its 32 bits.\<close>

fun atoi_digits :: "cstr \<Rightarrow> u32 \<Rightarrow> u32" where
  "atoi_digits [] val = val"
| "atoi_digits (c # s) val =
     (if 48 \<le> c \<and> c \<le> 57 then atoi_digits s (val * 10 + (ucast c - 48)) else val)"

fun skip_blanks :: "cstr \<Rightarrow> cstr" where
  "skip_blanks [] = []"
| "skip_blanks (c # s) = (if c = 32 \<or> c = 9 then skip_blanks s else c # s)"

definition atoi :: "cstr \<Rightarrow> u32" where
  "atoi s =
     (let s1 = skip_blanks s
      in if hd0 s1 = 45 then - atoi_digits (tl s1) 0
         else if hd0 s1 = 43 then atoi_digits (tl s1) 0
         else atoi_digits s1 0)"

section \<open>Block moves and fills\<close>

lemma unat_pred: "w \<noteq> 0 \<Longrightarrow> unat (w - 1) = unat w - 1" for w :: u32
  by (simp add: unat_minus_one)

lemma move_up_spec:
  assumes "unat (s - d) + k \<le> 2 ^ 32"
  shows "move_up k d s m x = (if unat (x - d) < k then m (s + (x - d)) else m x)"
  using assms
proof (induction k arbitrary: d s m)
  case (Suc k)
  let ?w = "x - d"
  define m' where "m' = m(d := m s)"
  have eq: "s + 1 - (d + 1) = s - d" "x - (d + 1) = ?w - 1" "s + 1 + (?w - 1) = s + ?w" by simp_all
  have IH: "move_up (Suc k) d s m x = (if unat (?w - 1) < k then m' (s + ?w) else m' x)"
    using Suc.IH [of "s + 1" "d + 1" m', unfolded eq] Suc.prems by (simp flip: m'_def)
  show ?case
  proof (cases "?w = 0")
    case True
    then have "x = d" by simp
    moreover have "\<not> unat (- 1 :: u32) < k" using Suc.prems by (simp add: unsigned_minus_1_eq_mask mask_eq_exp_minus_1)
    ultimately show ?thesis using IH by (simp add: m'_def)
  next
    case False
    have "s + ?w \<noteq> d" if "unat ?w < Suc k"
    proof
      assume "s + ?w = d"
      then have "(s - d) + ?w = 0" by (simp add: algebra_simps)
      moreover have "unat ((s - d) + ?w) = unat (s - d) + unat ?w"
        using that Suc.prems by (intro unat_plus_simple) simp
      ultimately have "unat ?w = 0" by simp
      with False show False by (simp add: unat_eq_0)
    qed
    moreover have "x \<noteq> d" using False by auto
    moreover have "0 < unat ?w" using False by (simp add: unat_gt_0)
    ultimately show ?thesis using IH unat_pred [OF False] by (auto simp: m'_def)
  qed
qed simp

lemma move_down_spec:
  assumes "unat (d - s) + k \<le> 2 ^ 32"
  shows "move_down k (d + of_nat k) (s + of_nat k) m x = (if unat (x - d) < k then m (s + (x - d)) else m x)"
  using assms
proof (induction k arbitrary: m)
  case (Suc k)
  let ?w = "x - d"
  define m' where "m' = m(d + of_nat k := m (s + of_nat k))"
  have k: "unat (of_nat k :: u32) = k"
    using Suc.prems by (simp add: unsigned_of_nat take_bit_eq_mod)
  have eq: "d + of_nat (Suc k) - 1 = d + of_nat k" "s + of_nat (Suc k) - 1 = s + of_nat k" by simp_all
  have IH: "move_down (Suc k) (d + of_nat (Suc k)) (s + of_nat (Suc k)) m x =
      (if unat ?w < k then m' (s + ?w) else m' x)"
    unfolding move_down.simps eq m'_def [symmetric] using Suc.IH [of m'] Suc.prems by simp
  have ne: "s + ?w \<noteq> d + of_nat k" if "unat ?w < k"
  proof
    assume "s + ?w = d + of_nat k"
    then have "?w = (d - s) + of_nat k" by (simp add: algebra_simps)
    moreover have "unat ((d - s) + of_nat k) = unat (d - s) + k"
      using Suc.prems k by (subst unat_plus_simple) simp_all
    ultimately have "unat ?w = unat (d - s) + k" by metis
    with that show False by simp
  qed
  have at: "x = d + of_nat k \<longleftrightarrow> unat ?w = k"
    using k by (metis add_diff_cancel_left' diff_add_cancel add.commute unat_eq_nat_uint word_uint_eq_iff nat_int_comparison(1) word_unat_eq_iff)
  show ?case
    unfolding IH using ne at by (auto simp: less_Suc_eq m'_def)
qed simp

text \<open>
  \<^verbatim>\<open>memmove\<close> copies correctly for every overlap of the two ranges, in either direction: each
  destination byte gets the byte its source held before the call, and no other byte changes.
\<close>

lemma memmove_correct:
  assumes "unat d + unat n \<le> 2 ^ 32" and "unat s + unat n \<le> 2 ^ 32"
  shows "memmove d s n m x =
    (if unat d \<le> unat x \<and> unat x < unat d + unat n then m (s + (x - d)) else m x)"
proof -
  have range: "unat (x - d) < unat n \<longleftrightarrow> unat d \<le> unat x \<and> unat x < unat d + unat n"
  proof (cases "d \<le> x")
    case True
    then show ?thesis by (auto simp: unat_minus_simple word_le_nat_alt)
  next
    case False
    then have "unat (x - d) = 2 ^ 32 + unat x - unat d"
      by (simp add: unat_sub_if' word_le_nat_alt)
    then show ?thesis using False assms(1) by (auto simp: word_le_nat_alt)
  qed
  consider "d = s" | "n = 0" | "d < s" "n \<noteq> 0" | "s < d" "n \<noteq> 0" by fastforce
  then show ?thesis
  proof cases
    case 3
    then have "unat (s - d) + unat n \<le> 2 ^ 32"
      using assms(2) by (simp add: unat_minus_simple word_less_nat_alt word_le_nat_alt)
    from move_up_spec [OF this] 3 show ?thesis by (simp add: memmove_def range)
  next
    case 4
    then have "unat (d - s) + unat n \<le> 2 ^ 32"
      using assms(1) by (simp add: unat_minus_simple word_less_nat_alt word_le_nat_alt)
    from move_down_spec [OF this, of m x] 4 show ?thesis by (auto simp: memmove_def range)
  qed (auto simp: memmove_def range [symmetric])
qed

lemma wr32_at: "wr32 d v m x =
  (if x - d = 0 then ucast v else if x - d = 1 then ucast (drop_bit 8 v)
   else if x - d = 2 then ucast (drop_bit 16 v) else if x - d = 3 then ucast (drop_bit 24 v) else m x)"
proof -
  have "x = d + k \<longleftrightarrow> x - d = k" for k by (auto simp: algebra_simps)
  from this [of 0] this [of 1] this [of 2] this [of 3] show ?thesis by (simp add: wr32_def)
qed
lemma pattern_bytes:
  fixes c :: u8
  defines "p \<equiv> ucast c * 0x01010101 :: u32"
  shows "ucast p = c" "ucast (drop_bit 8 p) = c" "ucast (drop_bit 16 p) = c" "ucast (drop_bit 24 p) = c"
proof -
  have c: "unat c < 256" using unat_lt2p [of c] by simp
  have "unat (ucast c :: u32) = unat c" using c by (simp add: unat_ucast_small)
  then have p: "unat p = unat c * 0x01010101"
    using c by (simp add: p_def unat_word_ariths)
  have low: "unat (ucast w :: u8) = unat w mod 256" for w :: u32
    by (simp add: unsigned_ucast_eq take_bit_eq_mod)
  have step: "(unat c + 256 * y) div 256 = y" "(unat c + 256 * y) mod 256 = unat c" for y
    using c by simp_all
  have d: "unat c * 0x01010101 = unat c + 256 * (unat c + 256 * (unat c + 256 * unat c))" by simp
  have q: "y div 2 ^ 8 = y div 256" "y div 2 ^ 16 = y div 256 div 256" "y div 2 ^ 24 = y div 256 div 256 div 256"
    for y :: nat by (simp_all add: div_mult2_eq [symmetric])
  show "ucast p = c" "ucast (drop_bit 8 p) = c" "ucast (drop_bit 16 p) = c" "ucast (drop_bit 24 p) = c"
    unfolding word_unat_eq_iff low unat_drop_bit p d q step using c by simp_all
qed

lemma stosl_spec:
  assumes "4 * k \<le> 2 ^ 32"
  shows "fst (stosl k dst (ucast c * 0x01010101) m) = dst + of_nat (4 * k) \<and>
    snd (stosl k dst (ucast c * 0x01010101) m) x = (if unat (x - dst) < 4 * k then (c :: u8) else m x)"
  using assms
proof (induction k arbitrary: dst m)
  case (Suc k)
  let ?p = "ucast c * 0x01010101 :: u32" and ?w = "x - dst"
  have near: "wr32 dst ?p m x = (if unat ?w < 4 then c else m x)"
  proof -
    have "unat ?w < 4 \<longleftrightarrow> ?w = 0 \<or> ?w = 1 \<or> ?w = 2 \<or> ?w = 3"
      by (auto simp: word_unat_eq_iff)
    then show ?thesis by (auto simp: wr32_at pattern_bytes)
  qed
  have "unat (x - (dst + 4)) < 4 * k \<longleftrightarrow> 4 \<le> unat ?w \<and> unat ?w < 4 * Suc k"
  proof (cases "4 \<le> unat ?w")
    case True
    have "unat (?w - 4) = unat ?w - 4" using True by (simp add: unat_minus_simple word_le_nat_alt)
    then show ?thesis using True by (auto simp: algebra_simps)
  next
    case False
    then have "unat (?w - 4) = 2 ^ 32 + unat ?w - 4" by (simp add: unat_sub_if' )
    then show ?thesis using False Suc.prems by (simp add: algebra_simps)
  qed
  moreover have "dst + 4 + of_nat (4 * k) = dst + of_nat (4 * Suc k)" by simp
  ultimately show ?case
    using Suc.IH [of "dst + 4" "wr32 dst ?p m"] Suc.prems near by auto
qed simp

lemma stosb_spec:
  assumes "k < 2 ^ 32"
  shows "snd (stosb k dst v m) x = (if unat (x - dst) < k then v else m x)"
  using assms
proof (induction k arbitrary: dst m)
  case (Suc k)
  let ?w = "x - dst"
  define m' where "m' = m(dst := v)"
  have w: "x - (dst + 1) = ?w - 1" by simp
  have IH: "snd (stosb (Suc k) dst v m) x = (if unat (?w - 1) < k then v else m' x)"
    using Suc.IH [of "dst + 1" m', unfolded w] Suc.prems by (simp flip: m'_def)
  show ?case
  proof (cases "?w = 0")
    case True
    moreover have "\<not> unat (- 1 :: u32) < k" using Suc.prems by (simp add: unsigned_minus_1_eq_mask mask_eq_exp_minus_1)
    ultimately show ?thesis using IH by (simp add: m'_def)
  next
    case False
    then have "0 < unat ?w" by (simp add: unat_gt_0)
    then have "unat (?w - 1) < k \<longleftrightarrow> unat ?w < Suc k" using unat_pred [OF False] by linarith
    moreover have "x \<noteq> dst" using False by auto
    ultimately show ?thesis using IH by (simp add: m'_def)
  qed
qed simp

lemma memset_spec: "memset dst c n m x = (if unat (x - dst) < unat n then ucast c else m x)"
proof -
  define q r where "q = unat n div 4" and "r = unat n mod 4"
  let ?p = "ucast (ucast c :: u8) * 0x01010101 :: u32"
  have n: "unat n = 4 * q + r" "r < 4" by (simp_all add: q_def r_def)
  have b: "4 * q + r < 2 ^ 32" using unat_lt2p [of n] n by simp
  define s where "s = stosl q dst ?p m"
  have s: "fst s = dst + of_nat (4 * q)" "\<And>y. snd s y = (if unat (y - dst) < 4 * q then ucast c else m y)"
    using stosl_spec [of q dst "ucast c" m] b by (simp_all add: s_def)
  have "memset dst c n m = snd (stosb r (fst s) (ucast ?p) (snd s))"
    by (simp add: memset_def Let_def s_def q_def r_def unat_div unat_mod case_prod_beta)
  then have m': "memset dst c n m x = (if unat (x - fst s) < r then ucast c else snd s x)"
    using n(2) by (simp add: stosb_spec pattern_bytes(1))
  let ?w = "x - dst"
  have df: "x - fst s = ?w - of_nat (4 * q)" by (simp add: s(1))
  have qq: "unat (of_nat (4 * q) :: u32) = 4 * q"
    using b by (subst unsigned_of_nat) (simp add: take_bit_eq_mod)
  have far: "unat (x - fst s) = (if 4 * q \<le> unat ?w then unat ?w - 4 * q else unat ?w + 2 ^ 32 - 4 * q)"
    unfolding df unat_sub_if' qq by simp
  show ?thesis
    unfolding m' s(2) n(1) using far b by auto
qed

lemma zero_page_memset:
  assumes "4096 dvd unat f"
  shows "memset f 0 PAGE_SIZE m = zero_page f m"
proof
  fix x :: u32
  obtain k where k: "unat f = 4096 * k" using assms by (auto simp: dvd_def)
  have "k < 1048576" using k unat_lt2p [of f] by simp
  have "unat x div 4096 = k \<longleftrightarrow> 4096 * k \<le> unat x \<and> unat x < 4096 * k + 4096"
    using div_nat_eqI [of k 4096 "unat x"] by auto
  then have page: "drop_bit 12 x = drop_bit 12 f \<longleftrightarrow> unat f \<le> unat x \<and> unat x < unat f + 4096"
    by (simp add: word_unat_eq_iff u_simps k)
  have "unat (x - f) < 4096 \<longleftrightarrow> drop_bit 12 x = drop_bit 12 f"
  proof (cases "f \<le> x")
    case True
    then show ?thesis unfolding page by (auto simp: unat_minus_simple word_le_nat_alt)
  next
    case False
    then have "unat (x - f) = 2 ^ 32 + unat x - unat f" "unat x < unat f" by (simp_all add: unat_sub_if' word_le_nat_alt)
    then show ?thesis unfolding page using \<open>k < 1048576\<close> by (simp add: k)
  qed
  then show "memset f 0 PAGE_SIZE m x = zero_page f m x"
    by (simp add: memset_spec zero_page_def PAGE_SIZE_def)
qed

section \<open>Copying by words\<close>

lemma rd32_bytes:
  "ucast (rd32 m s) = m s" "ucast (drop_bit 8 (rd32 m s)) = m (s + 1)"
  "ucast (drop_bit 16 (rd32 m s)) = m (s + 2)" "ucast (drop_bit 24 (rd32 m s)) = m (s + 3)"
  unfolding rd32_def by (rule bit_word_eqI, auto simp: bit_simps dest: bit_imp_le_length)+

lemma move_up_add: "move_up (a + b) d s m = move_up b (d + of_nat a) (s + of_nat a) (move_up a d s m)"
  by (induction a arbitrary: d s m) (simp_all add: algebra_simps)

lemma word_copy:
  assumes "unat (s - d) + 4 \<le> 2 ^ 32"
  shows "wr32 d (rd32 m s) m = move_up 4 d s m"
proof
  fix x
  have "unat (x - d) < 4 \<longleftrightarrow> x - d = 0 \<or> x - d = 1 \<or> x - d = 2 \<or> x - d = 3" by (auto simp: word_unat_eq_iff)
  then show "wr32 d (rd32 m s) m x = move_up 4 d s m x"
    unfolding move_up_spec [OF assms] by (auto simp: wr32_at rd32_bytes)
qed

lemma movsl_spec:
  "unat (s - d) + 4 * k \<le> 2 ^ 32 \<Longrightarrow>
     movsl k d s m = (d + of_nat (4 * k), s + of_nat (4 * k), move_up (4 * k) d s m)"
proof (induction k arbitrary: d s m)
  case (Suc k)
  have "s + 4 - (d + 4) = s - d" by simp
  then have "movsl (Suc k) d s m =
      (d + 4 + of_nat (4 * k), s + 4 + of_nat (4 * k), move_up (4 * k) (d + 4) (s + 4) (move_up 4 d s m))"
    using Suc.IH [of "s + 4" "d + 4"] Suc.prems by (simp add: word_copy del: of_nat_mult)
  moreover have "4 * Suc k = 4 + 4 * k" by simp
  ultimately show ?case by (simp only: move_up_add) (simp add: algebra_simps)
qed simp

lemma movsb_spec: "movsb k d s m = (d + of_nat k, s + of_nat k, move_up k d s m)"
  by (induction k arbitrary: d s m) (simp_all add: algebra_simps)

text \<open>\<^verbatim>\<open>memcpy\<close> is the plain byte copy unless the destination starts inside the source.\<close>

lemma memcpy_spec:
  assumes "unat (s - d) + unat n \<le> 2 ^ 32"
  shows "memcpy d s n m x = (if unat (x - d) < unat n then m (s + (x - d)) else m x)"
proof -
  define q r where "q = unat n div 4" and "r = unat n mod 4"
  have n: "unat n = 4 * q + r" by (simp add: q_def r_def)
  have nd: "unat (n div 4) = q" "unat (n mod 4) = r" by (simp_all add: unat_div unat_mod q_def r_def)
  have b: "unat (s - d) + 4 * q \<le> 2 ^ 32" using assms n by simp
  have "memcpy d s n m = move_up r (d + of_nat (4 * q)) (s + of_nat (4 * q)) (move_up (4 * q) d s m)"
    unfolding memcpy_def nd movsl_spec [OF b] by (simp add: movsb_spec del: of_nat_mult)
  then have "memcpy d s n m = move_up (unat n) d s m" by (simp only: n move_up_add)
  then show ?thesis using move_up_spec [OF assms] by simp
qed

end
