(* ===== verification/Kprintf.thy ===== *)
theory Kprintf
  imports KString
begin

text \<open>
  \<^verbatim>\<open>kernel/lib/kprintf.c\<close>: formatted output into a bounded buffer or to the console.  A sink is
  the record \<open>sink\<close>: the buffer (\<open>None\<close> for the console), its size, the number of
  characters the format wanted to emit, and the characters that went to the console.  The variable
  arguments are a list: \<open>Num\<close> for the integer and pointer conversions, \<open>Str\<close> for strings
  (\<open>None\<close> is the null pointer).  Reading past the arguments or with the wrong type is
  undefined in C; the model yields 0 or the null string.
\<close>

section \<open>Sinks\<close>

record sink =
  sk_buf :: "u8 list option"
  sk_size :: u32
  sk_written :: u32
  sk_console :: "u8 list"

definition sink_putc :: "u8 \<Rightarrow> sink \<Rightarrow> sink" where
  "sink_putc c s =
     (let s1 = (case sk_buf s of
          Some buf \<Rightarrow> if sk_written s + 1 < sk_size s then s\<lparr>sk_buf := Some (buf[unat (sk_written s) := c])\<rparr> else s
        | None \<Rightarrow> s\<lparr>sk_console := sk_console s @ [c]\<rparr>)
      in s1\<lparr>sk_written := sk_written s1 + 1\<rparr>)"

definition sink_pad :: "u8 \<Rightarrow> int \<Rightarrow> sink \<Rightarrow> sink" where
  "sink_pad pad count s = (sink_putc pad ^^ nat count) s"

definition emit_string :: "cstr \<Rightarrow> int \<Rightarrow> bool \<Rightarrow> u8 \<Rightarrow> sink \<Rightarrow> sink" where
  "emit_string str width left pad s =
     (let len = int (strlen str);
          s1 = (if \<not> left then sink_pad pad (width - len) s else s);
          s2 = fold sink_putc (take (strlen str) str) s1
      in if left then sink_pad 32 (width - len) s2 else s2)"

text \<open>The digit loop of \<^verbatim>\<open>emit_number\<close>: digits from the least significant one.\<close>

definition digit :: "bool \<Rightarrow> u32 \<Rightarrow> u8" where
  "digit upper d = (if d < 10 then 48 + ucast d else (if upper then 55 else 87) + ucast d)"

function digits_rev :: "bool \<Rightarrow> u32 \<Rightarrow> u32 \<Rightarrow> u8 list" where
  "digits_rev upper base val =
     (if base \<le> 1 then []
      else if val div base = 0 then [digit upper (val mod base)]
      else digit upper (val mod base) # digits_rev upper base (val div base))"
  by pat_completeness auto
termination
proof (relation "measure (\<lambda>(u, b, v). unat v)", goal_cases)
  case (2 upper base val)
  then have b: "1 < unat base" and v: "0 < unat val"
    by (auto simp: word_le_nat_alt unat_gt_0)
  then have "unat val div unat base < unat val" by (intro div_less_dividend) auto
  then show ?case by (simp add: unat_div)
qed simp

declare digits_rev.simps [simp del]

definition emit_number :: "u32 \<Rightarrow> u32 \<Rightarrow> bool \<Rightarrow> bool \<Rightarrow> int \<Rightarrow> bool \<Rightarrow> u8 \<Rightarrow> sink \<Rightarrow> sink" where
  "emit_number val base is_signed upper width left pad s =
     (let negative = is_signed \<and> sint val < 0;
          v = (if negative then - val else val);
          ds = digits_rev upper base v;
          tmp = (if negative then ds @ [45] else ds);
          written = int (length tmp);
          sign_first = (\<not> left \<and> pad = 48 \<and> negative);
          s1 = (if sign_first then sink_putc 45 s else s);
          i = (if sign_first then written - 1 else written);
          width1 = (if sign_first then width - 1 else width);
          s2 = (if \<not> left then sink_pad pad (width1 - i) s1 else s1);
          s3 = fold sink_putc (rev (take (nat i) tmp)) s2
      in if left then sink_pad 32 (width1 - written) s3 else s3)"

section \<open>The format interpreter\<close>

datatype arg = Num u32 | Str "cstr option"

fun next_num :: "arg list \<Rightarrow> u32 \<times> arg list" where
  "next_num (Num w # as) = (w, as)"
| "next_num (Str _ # as) = (0, as)"
| "next_num [] = (0, [])"

fun next_str :: "arg list \<Rightarrow> cstr option \<times> arg list" where
  "next_str (Str s # as) = (s, as)"
| "next_str (Num _ # as) = (None, as)"
| "next_str [] = (None, [])"

fun fmt_flags :: "cstr \<Rightarrow> bool \<Rightarrow> u8 \<Rightarrow> bool \<times> u8 \<times> cstr" where
  "fmt_flags (c # f) left pad =
     (if c = 45 then fmt_flags f True pad else if c = 48 then fmt_flags f left 48 else (left, pad, c # f))"
| "fmt_flags [] left pad = (left, pad, [])"

fun fmt_width :: "cstr \<Rightarrow> int \<Rightarrow> int \<times> cstr" where
  "fmt_width (c # f) width =
     (if 48 \<le> c \<and> c \<le> 57 then fmt_width f (width * 10 + (uint c - 48)) else (width, c # f))"
| "fmt_width [] width = (width, [])"

fun fmt_length :: "cstr \<Rightarrow> cstr" where
  "fmt_length (c # f) = (if c = 108 \<or> c = 122 \<or> c = 104 then fmt_length f else c # f)"
| "fmt_length [] = []"

lemma fmt_flags_shrinks: "fmt_flags f left pad = (l, p, g) \<Longrightarrow> length g \<le> length f"
  by (induction f left pad rule: fmt_flags.induct) (auto split: if_splits)

lemma fmt_width_shrinks: "fmt_width f w = (v, g) \<Longrightarrow> length g \<le> length f"
  by (induction f w rule: fmt_width.induct) (auto split: if_splits)

lemma fmt_length_shrinks: "fmt_length f = k # g \<Longrightarrow> length g < length f"
  by (induction f rule: fmt_length.induct) (auto split: if_splits)

text \<open>One conversion: the character, the arguments and the sink.\<close>

definition convert :: "u8 \<Rightarrow> bool \<Rightarrow> u8 \<Rightarrow> int \<Rightarrow> arg list \<Rightarrow> sink \<Rightarrow> arg list \<times> sink" where
  "convert c left pad width ap s =
     (if c = 99 then case next_num ap of (w, ap1) \<Rightarrow> (ap1, sink_putc (ucast w) s)
      else if c = 115 then case next_str ap of (str, ap1) \<Rightarrow>
        (ap1, emit_string (case str of Some x \<Rightarrow> x | None \<Rightarrow> [40, 110, 117, 108, 108, 41]) width left 32 s)
      else if c = 100 \<or> c = 105 then case next_num ap of (w, ap1) \<Rightarrow> (ap1, emit_number w 10 True False width left pad s)
      else if c = 117 then case next_num ap of (w, ap1) \<Rightarrow> (ap1, emit_number w 10 False False width left pad s)
      else if c = 120 then case next_num ap of (w, ap1) \<Rightarrow> (ap1, emit_number w 16 False False width left pad s)
      else if c = 88 then case next_num ap of (w, ap1) \<Rightarrow> (ap1, emit_number w 16 False True width left pad s)
      else if c = 111 then case next_num ap of (w, ap1) \<Rightarrow> (ap1, emit_number w 8 False False width left pad s)
      else if c = 112 then case next_num ap of (w, ap1) \<Rightarrow>
        (ap1, emit_number w 16 False False 8 False 48 (sink_putc 120 (sink_putc 48 s)))
      else if c = 37 then (ap, sink_putc 37 s)
      else (ap, sink_putc c (sink_putc 37 s)))"

function format :: "cstr \<Rightarrow> arg list \<Rightarrow> sink \<Rightarrow> sink" where
  "format [] ap s = s"
| "format (c # f) ap s =
     (if c = 0 then s
      else if c \<noteq> 37 then format f ap (sink_putc c s)
      else
        case fmt_flags f False 32 of (left, pad, f1) \<Rightarrow>
        case fmt_width f1 0 of (width, f2) \<Rightarrow>
        case fmt_length f2 of
          [] \<Rightarrow> s
        | k # f3 \<Rightarrow>
            if k = 0 then s
            else case convert k left pad width ap s of (ap1, s1) \<Rightarrow> format f3 ap1 s1)"
  by pat_completeness auto
termination
  by (relation "measure (\<lambda>(f, a, s). length f)")
    (auto dest!: fmt_flags_shrinks [OF sym] fmt_width_shrinks [OF sym] fmt_length_shrinks)

text \<open>The return value is \<^verbatim>\<open>written\<close>; the result state is the sink.\<close>

definition kprintf :: "cstr \<Rightarrow> arg list \<Rightarrow> u32 \<times> u8 list" where
  "kprintf fmt ap =
     (let s = format fmt ap \<lparr>sk_buf = None, sk_size = 0, sk_written = 0, sk_console = []\<rparr>
      in (sk_written s, sk_console s))"

definition kvsnprintf :: "u8 list \<Rightarrow> u32 \<Rightarrow> cstr \<Rightarrow> arg list \<Rightarrow> u32 \<times> u8 list" where
  "kvsnprintf buf sz fmt ap =
     (let s = format fmt ap \<lparr>sk_buf = Some buf, sk_size = sz, sk_written = 0, sk_console = []\<rparr>;
          out = the (sk_buf s)
      in (sk_written s, if sz \<noteq> 0 then out[unat (min (sk_written s) (sz - 1)) := 0] else out))"

section \<open>Bounded output is a prefix of the unbounded output\<close>

text \<open>A console sink and a buffer sink that have received the same characters.\<close>

definition same_text :: "u32 \<Rightarrow> sink \<Rightarrow> sink \<Rightarrow> bool" where
  "same_text sz c b \<longleftrightarrow> sk_buf c = None \<and>
     (\<exists>buf. sk_buf b = Some buf \<and> sk_size b = sz \<and> length buf = unat sz \<and>
        sk_written c = of_nat (length (sk_console c)) \<and> sk_written b = sk_written c \<and>
        (length (sk_console c) < 2 ^ 32 \<longrightarrow>
           take (min (length (sk_console c)) (unat sz - 1)) buf =
           take (min (length (sk_console c)) (unat sz - 1)) (sk_console c)))"

lemma putc_same:
  assumes "same_text sz c b"
  shows "same_text sz (sink_putc ch c) (sink_putc ch b)"
proof -
  let ?L = "sk_console c"
  obtain buf where b: "sk_buf c = None" "sk_buf b = Some buf" "sk_size b = sz" "length buf = unat sz"
    "sk_written c = of_nat (length ?L)" "sk_written b = of_nat (length ?L)"
    and pre: "length ?L < 2 ^ 32 \<Longrightarrow> take (min (length ?L) (unat sz - 1)) buf = take (min (length ?L) (unat sz - 1)) ?L"
    using assms by (auto simp: same_text_def)
  define buf' where "buf' = (if of_nat (length ?L) + 1 < sz then buf[unat (of_nat (length ?L) :: u32) := ch] else buf)"
  have "take (min (length ?L + 1) (unat sz - 1)) buf' = take (min (length ?L + 1) (unat sz - 1)) (?L @ [ch])"
    if "length ?L + 1 < 2 ^ 32"
  proof -
    have l: "unat (of_nat (length ?L) :: u32) = length ?L"
      using that by (simp add: unsigned_of_nat take_bit_eq_mod)
    then have l1: "unat (of_nat (length ?L) + 1 :: u32) = length ?L + 1"
      using that by (subst unat_plus_simple) simp_all
    have pre': "take (min (length ?L) (unat sz - 1)) buf = take (min (length ?L) (unat sz - 1)) ?L"
      using pre that by simp
    show ?thesis
    proof (cases "length ?L + 1 < unat sz")
      case True
      then have "buf' = buf[length ?L := ch]" using l l1 by (simp add: buf'_def word_less_nat_alt)
      moreover have "min (length ?L + 1) (unat sz - 1) = length ?L + 1" "min (length ?L) (unat sz - 1) = length ?L"
        using True by simp_all
      ultimately show ?thesis
        using pre' True b(4) by (simp add: take_Suc_conv_app_nth)
    next
      case False
      then have "buf' = buf" using l1 by (simp add: buf'_def word_less_nat_alt)
      moreover have "min (length ?L + 1) (unat sz - 1) = unat sz - 1" "min (length ?L) (unat sz - 1) = unat sz - 1"
        using False by simp_all
      ultimately show ?thesis using pre' False by simp
    qed
  qed
  moreover have "sk_buf (sink_putc ch b) = Some buf'"
    using b by (simp add: sink_putc_def Let_def buf'_def)
  moreover have "length buf' = unat sz" using b(4) by (simp add: buf'_def)
  ultimately show ?thesis
    using b by (simp add: same_text_def sink_putc_def Let_def add.commute)
qed

lemma pad_same: "same_text sz c b \<Longrightarrow> same_text sz (sink_pad p k c) (sink_pad p k b)"
proof -
  assume "same_text sz c b"
  then have "same_text sz ((sink_putc p ^^ n) c) ((sink_putc p ^^ n) b)" for n
    by (induction n) (simp_all add: putc_same)
  then show ?thesis by (simp add: sink_pad_def)
qed

lemma fold_same: "same_text sz c b \<Longrightarrow> same_text sz (fold sink_putc xs c) (fold sink_putc xs b)"
  by (induction xs arbitrary: c b) (simp_all add: putc_same)

lemmas text_intros = putc_same pad_same fold_same

lemma emit_same:
  assumes "same_text sz c b"
  shows "same_text sz (emit_string str w l p c) (emit_string str w l p b)"
    and "same_text sz (emit_number v base sg up w l p c) (emit_number v base sg up w l p b)"
  unfolding emit_string_def emit_number_def Let_def by (auto intro!: text_intros assms)

lemma convert_same:
  assumes "same_text sz c b"
  shows "fst (convert k l p w ap c) = fst (convert k l p w ap b) \<and>
    same_text sz (snd (convert k l p w ap c)) (snd (convert k l p w ap b))"
  unfolding convert_def by (auto intro!: text_intros emit_same assms split: prod.split option.split)

lemma format_same: "same_text sz c b \<Longrightarrow> same_text sz (format fmt ap c) (format fmt ap b)"
proof (induction fmt ap c arbitrary: b rule: format.induct)
  case (2 k f ap c)
  obtain left pad f1 where f1: "fmt_flags f False 32 = (left, pad, f1)" by (metis prod_cases3)
  obtain width f2 where f2: "fmt_width f1 0 = (width, f2)" by fastforce
  show ?case
  proof (cases "k = 0 \<or> k \<noteq> 37 \<or> fmt_length f2 = [] \<or> hd (fmt_length f2) = 0")
    case True
    then show ?thesis
      using 2 putc_same [OF "2.prems"] f1 f2 by (cases "fmt_length f2") auto
  next
    case False
    then obtain k' f3 where f3: "fmt_length f2 = k' # f3" "k' \<noteq> 0" by (cases "fmt_length f2") auto
    have cv: "fst (convert k' left pad width ap c) = fst (convert k' left pad width ap b)"
      "same_text sz (snd (convert k' left pad width ap c)) (snd (convert k' left pad width ap b))"
      using convert_same [OF "2.prems", of k' left pad width ap] by simp_all
    obtain ap1 c1 where c1: "convert k' left pad width ap c = (ap1, c1)" by fastforce
    obtain b1 where b1: "convert k' left pad width ap b = (ap1, b1)" using cv(1) c1 by (metis fst_conv prod.collapse)
    have "same_text sz c1 b1" using cv(2) c1 b1 by simp
    from "2.IH"(2) [OF _ _ f1 [symmetric] refl f2 [symmetric] f3(1) f3(2) c1 [symmetric] this] False
    show ?thesis using f1 f2 f3 c1 b1 False by simp
  qed
qed simp



section \<open>Printing and parsing decimals\<close>

abbreviation is_digit :: "u8 \<Rightarrow> bool" where
  "is_digit c \<equiv> 48 \<le> c \<and> c \<le> 57"

lemma digit_range: "d < 10 \<Longrightarrow> is_digit (digit u d) \<and> ucast (digit u d) = (48 + d :: u32)"
proof -
  assume d: "d < 10"
  then have u: "unat d < 10" by (simp add: word_less_nat_alt)
  have c: "unat (ucast d :: u8) = unat d"
    using u by (simp add: unsigned_ucast_eq take_bit_nat_eq_self_iff)
  have n: "unat (48 + ucast d :: u8) = 48 + unat d"
    using u c by (simp add: unat_word_ariths)
  have "unat (ucast (48 + ucast d :: u8) :: u32) = unat (48 + d)"
    using u n by (simp add: unsigned_ucast_eq take_bit_eq_mod unat_word_ariths)
  then have "ucast (48 + ucast d :: u8) = (48 + d :: u32)" by (rule word_unat_eq_iff [THEN iffD2])
  with d n u show ?thesis by (simp add: digit_def word_le_nat_alt)
qed

lemma atoi_digits_snoc:
  "list_all is_digit ds \<Longrightarrow> is_digit c \<Longrightarrow> atoi_digits (ds @ [c]) a = atoi_digits ds a * 10 + (ucast c - 48)"
  by (induction ds arbitrary: a) auto

lemma digits_rev_decimal:
  "list_all is_digit (digits_rev u 10 v) \<and> digits_rev u 10 v \<noteq> [] \<and> atoi_digits (rev (digits_rev u 10 v)) 0 = v"
proof (induction u "10 :: u32" v rule: digits_rev.induct)
  case (1 u v)
  have m: "v mod 10 < 10" by (simp add: word_less_nat_alt unat_mod)
  have d: "is_digit (digit u (v mod 10))" "ucast (digit u (v mod 10)) = 48 + v mod 10"
    using digit_range [OF m] by simp_all
  have v: "v div 10 * 10 + v mod 10 = v" by (rule div_mult_mod_eq)
  have b: "\<not> (10 :: u32) \<le> 1" by (simp add: word_le_nat_alt)
  show ?case
  proof (cases "v div 10 = 0")
    case True
    then have "v mod 10 = v" using v by simp
    then show ?thesis using True d b by (simp add: digits_rev.simps [of u 10 v])
  next
    case False
    note IH = 1 [OF b False]
    have r: "digits_rev u 10 v = digit u (v mod 10) # digits_rev u 10 (v div 10)"
      using False b by (simp add: digits_rev.simps [of u 10 v])
    have "list_all is_digit (rev (digits_rev u 10 (v div 10)))" using IH by simp
    then have "atoi_digits (rev (digits_rev u 10 v)) 0 = v div 10 * 10 + v mod 10"
      using d IH by (simp only: r rev.simps atoi_digits_snoc) simp
    then show ?thesis using IH d v by (simp add: r)
  qed
qed

lemma putc_console:
  "sk_buf s = None \<Longrightarrow> sink_putc c s = s\<lparr>sk_written := sk_written s + 1, sk_console := sk_console s @ [c]\<rparr>"
  by (simp add: sink_putc_def)

lemma putcs_console:
  "sk_buf s = None \<Longrightarrow> sk_console (fold sink_putc cs s) = sk_console s @ cs"
  by (induction cs arbitrary: s) (simp_all add: putc_console)

lemma decimal_text:
  "snd (kprintf [37, 100] [Num w]) =
     (if sint w < 0 then 45 # rev (digits_rev False 10 (- w)) else rev (digits_rev False 10 w))"
proof -
  have "digits_rev False 10 v \<noteq> []" for v using digits_rev_decimal by blast
  then show ?thesis
    by (simp add: kprintf_def Let_def convert_def emit_number_def sink_pad_def putcs_console)
qed

lemma atoi_first_digit:
  assumes "list_all is_digit ds" "ds \<noteq> []"
  shows "skip_blanks ds = ds \<and> hd0 ds \<noteq> 45 \<and> hd0 ds \<noteq> 43"
proof -
  obtain c t where "ds = c # t" using assms(2) by (cases ds) auto
  with assms(1) show ?thesis by (auto simp: hd0_def)
qed

text \<open>
  printing and parsing decimals is a round trip at full width: \<^verbatim>\<open>atoi\<close> applied to what
  \<^verbatim>\<open>kprintf("%d")\<close> prints for any 32 bit value, \<^verbatim>\<open>INT_MIN\<close> included, gives back that value.
\<close>

lemma decimal_roundtrip: "atoi (snd (kprintf [37, 100] [Num w])) = w"
proof -
  have d: "list_all is_digit (rev (digits_rev False 10 v)) \<and> rev (digits_rev False 10 v) \<noteq> [] \<and>
      atoi_digits (rev (digits_rev False 10 v)) 0 = v" for v
    using digits_rev_decimal [of False v] by simp
  show ?thesis
  proof (cases "sint w < 0")
    case True
    then show ?thesis using d [of "- w"] by (simp add: decimal_text atoi_def hd0_def)
  next
    case False
    then show ?thesis
      using d [of w] atoi_first_digit [of "rev (digits_rev False 10 w)"] by (simp add: decimal_text atoi_def)
  qed
qed

end
