(* ===== verification/Bitmaps.thy ===== *)
theory Bitmaps
  imports SifarPrelude
begin

text \<open>
  The interface of an allocation bitmap, as the physical frame allocator (32-bit words) and the
  disk block allocator (bytes) use it: a test, a set and a clear operation on an index, with the
  laws that each operation changes the bit it names and no other.  The counting lemmas that both
  allocators rely on are proved once here.
\<close>

locale bit_vector =
  fixes tst :: "'i \<Rightarrow> 'b \<Rightarrow> bool"
    and st :: "'i \<Rightarrow> 'b \<Rightarrow> 'b"
    and cl :: "'i \<Rightarrow> 'b \<Rightarrow> 'b"
    and ok :: "'i \<Rightarrow> 'b \<Rightarrow> bool"
  assumes tst_st: "ok i b \<Longrightarrow> tst j (st i b) \<longleftrightarrow> j = i \<or> tst j b"
    and tst_cl: "ok i b \<Longrightarrow> tst j (cl i b) \<longleftrightarrow> j \<noteq> i \<and> tst j b"
    and ok_st: "ok j (st i b) \<longleftrightarrow> ok j b"
    and ok_cl: "ok j (cl i b) \<longleftrightarrow> ok j b"
begin

lemma count_st:
  assumes "finite A" and "ok i b" and "i \<in> A" and "\<not> tst i b"
  shows "card {j \<in> A. tst j (st i b)} = Suc (card {j \<in> A. tst j b})"
proof -
  have "{j \<in> A. tst j (st i b)} = insert i {j \<in> A. tst j b}"
    using assms by (auto simp: tst_st)
  with assms show ?thesis by simp
qed

lemma count_cl:
  assumes "finite A" and "ok i b" and "i \<in> A" and "tst i b"
  shows "card {j \<in> A. tst j (cl i b)} = card {j \<in> A. tst j b} - 1"
    and "0 < card {j \<in> A. tst j b}"
proof -
  have "{j \<in> A. tst j (cl i b)} = {j \<in> A. tst j b} - {i}"
    using assms by (auto simp: tst_cl)
  with assms show "card {j \<in> A. tst j (cl i b)} = card {j \<in> A. tst j b} - 1"
    by simp
  show "0 < card {j \<in> A. tst j b}"
    using assms by (auto simp: card_gt_0_iff)
qed

lemma tst_fold_st:
  assumes "\<forall>i \<in> set is. ok i b"
  shows "tst j (fold st is b) \<longleftrightarrow> j \<in> set is \<or> tst j b"
  using assms by (induction "is" arbitrary: b) (auto simp: ok_st tst_st)

lemma tst_fold_cl:
  assumes "\<forall>i \<in> set is. ok i b"
  shows "tst j (fold cl is b) \<longleftrightarrow> j \<notin> set is \<and> tst j b"
  using assms by (induction "is" arbitrary: b) (auto simp: ok_cl tst_cl)

lemma ok_fold_st: "ok j (fold st is b) \<longleftrightarrow> ok j b"
  by (induction "is" arbitrary: b) (auto simp: ok_st)

end

text \<open>
  A counted bit vector also keeps the number of set bits of a fixed index set, in a word; its
  operations are the guarded ones of the allocators: set and count up, clear and count down.
\<close>

locale counted_bits = bit_vector tst st cl ok
  for tst :: "'i \<Rightarrow> 'b \<Rightarrow> bool" and st cl ok +
  fixes bits :: "'s \<Rightarrow> 'b"
    and cnt :: "'s \<Rightarrow> u32"
    and dom :: "'s \<Rightarrow> 'i set"
    and take :: "'i \<Rightarrow> 's \<Rightarrow> 's"
    and give :: "'i \<Rightarrow> 's \<Rightarrow> 's"
  assumes take_free: "\<not> tst i (bits s) \<Longrightarrow>
      bits (take i s) = st i (bits s) \<and> cnt (take i s) = cnt s + 1"
    and take_used: "tst i (bits s) \<Longrightarrow> take i s = s"
    and give_used: "tst i (bits s) \<Longrightarrow>
      bits (give i s) = cl i (bits s) \<and> cnt (give i s) = cnt s - 1"
    and give_free: "\<not> tst i (bits s) \<Longrightarrow> give i s = s"
    and dom_take: "dom (take i s) = dom s"
    and dom_give: "dom (give i s) = dom s"
begin

definition counted :: "'s \<Rightarrow> bool" where
  "counted s \<longleftrightarrow> finite (dom s) \<and> card (dom s) < 2 ^ 32 \<and> (\<forall>i \<in> dom s. ok i (bits s)) \<and>
     unat (cnt s) = card {i \<in> dom s. tst i (bits s)}"

lemma counted_take:
  assumes "counted s" and "i \<in> dom s"
  shows "counted (take i s)"
proof (cases "tst i (bits s)")
  case False
  have "card {j \<in> dom s. tst j (bits s)} < card (dom s)"
    using assms False by (intro psubset_card_mono) (auto simp: counted_def)
  then have "unat (cnt s + 1) = unat (cnt s) + 1"
    using assms by (intro unat_plus_one) (simp add: counted_def)
  then show ?thesis
    using assms False count_st [of "dom s" i "bits s"]
    by (simp add: counted_def take_free dom_take ok_st)
qed (use assms in \<open>simp add: take_used\<close>)

lemma counted_give:
  assumes "counted s" and "i \<in> dom s"
  shows "counted (give i s)"
proof (cases "tst i (bits s)")
  case True
  have c: "card {j \<in> dom s. tst j (cl i (bits s))} = card {j \<in> dom s. tst j (bits s)} - 1"
    "0 < card {j \<in> dom s. tst j (bits s)}"
    using assms True count_cl [of "dom s" i "bits s"] by (auto simp: counted_def)
  then have "1 \<le> cnt s"
    using assms by (simp add: counted_def word_le_nat_alt)
  then have "unat (cnt s - 1) = unat (cnt s) - 1"
    by (simp add: unat_sub)
  then show ?thesis
    using assms True c by (simp add: counted_def give_used dom_give ok_cl)
qed (use assms in \<open>simp add: give_free\<close>)

lemma counted_fold_take:
  assumes "counted s" and "set is \<subseteq> dom s"
  shows "counted (fold take is s)"
  using assms by (induction "is" arbitrary: s) (auto simp: counted_take dom_take)

lemma counted_fold_give:
  assumes "counted s" and "set is \<subseteq> dom s"
  shows "counted (fold give is s)"
  using assms by (induction "is" arbitrary: s) (auto simp: counted_give dom_give)

lemma tst_take:
  assumes "counted s" and "i \<in> dom s"
  shows "tst j (bits (take i s)) \<longleftrightarrow> j = i \<or> tst j (bits s)"
  using assms by (cases "tst i (bits s)") (auto simp: take_used take_free tst_st counted_def)

lemma tst_give:
  assumes "counted s" and "i \<in> dom s"
  shows "tst j (bits (give i s)) \<longleftrightarrow> j \<noteq> i \<and> tst j (bits s)"
  using assms by (cases "tst i (bits s)") (auto simp: give_used give_free tst_cl counted_def)

lemma tst_fold_take:
  assumes "counted s" and "set is \<subseteq> dom s"
  shows "tst j (bits (fold take is s)) \<longleftrightarrow> j \<in> set is \<or> tst j (bits s)"
  using assms by (induction "is" arbitrary: s) (auto simp: counted_take dom_take tst_take)

lemma tst_fold_give:
  assumes "counted s" and "set is \<subseteq> dom s"
  shows "tst j (bits (fold give is s)) \<longleftrightarrow> j \<notin> set is \<and> tst j (bits s)"
  using assms by (induction "is" arbitrary: s) (auto simp: counted_give dom_give tst_give)

end

end
