(* ===== verification/Pmm.thy ===== *)
theory Pmm
  imports Bitmaps
begin

text \<open>
  \<^verbatim>\<open>kernel/mm/pmm.c\<close>: the physical frame allocator, one bit per 4 KiB frame.  The
  file's static variables are the record \<open>pmm\<close>; a bit is set when the frame is in use.
  Each function runs with interrupts disabled (\<^verbatim>\<open>irq_save\<close>/\<^verbatim>\<open>irq_restore\<close>), so each
  is one atomic step of the model.  A \<^verbatim>\<open>panic\<close> of the initialisation is \<open>None\<close>.
  Loop counters that run below \<open>total_frames\<close> are natural numbers; the bitmap words, the
  addresses and the counters kept in memory have the width of the source.
\<close>

section \<open>State and bit operations\<close>

record pmm =
  bitmap :: "u32 list"
  bitmap_words :: u32
  total_frames :: u32
  used_frames :: u32
  total_bytes :: u64
  bitmap_addr :: u32

record e820_entry =
  e_base :: u64
  e_length :: u64
  e_type :: u32
  e_acpi_flags :: u32

definition E820_USABLE :: u32 where "E820_USABLE = 1"

definition e820_type_name :: "u32 \<Rightarrow> string" where
  "e820_type_name ty =
     (if ty = 1 then ''usable'' else if ty = 2 then ''reserved'' else if ty = 3 then ''ACPI reclaim''
      else if ty = 4 then ''ACPI NVS'' else if ty = 5 then ''bad'' else ''unknown'')"

definition MAX_MANAGED_PHYS :: u64 where "MAX_MANAGED_PHYS = ucast USER_MIN"

definition bit_set :: "u32 \<Rightarrow> u32 list \<Rightarrow> u32 list" where
  "bit_set frame bm =
     (let w = unat (drop_bit 5 frame) in bm[w := bm ! w OR push_bit (unat (frame AND 31)) 1])"

definition bit_clear :: "u32 \<Rightarrow> u32 list \<Rightarrow> u32 list" where
  "bit_clear frame bm =
     (let w = unat (drop_bit 5 frame) in bm[w := bm ! w AND NOT (push_bit (unat (frame AND 31)) 1)])"

definition bit_test :: "u32 \<Rightarrow> u32 list \<Rightarrow> bool" where
  "bit_test frame bm \<longleftrightarrow> drop_bit (unat (frame AND 31)) (bm ! unat (drop_bit 5 frame)) AND 1 \<noteq> 0"

text \<open>The bodies of the marking loops: set or clear one frame and keep the count.\<close>

definition take_frame :: "u32 \<Rightarrow> pmm \<Rightarrow> pmm" where
  "take_frame f p =
     (if \<not> bit_test f (bitmap p)
      then p\<lparr>bitmap := bit_set f (bitmap p), used_frames := used_frames p + 1\<rparr> else p)"

definition give_frame :: "u32 \<Rightarrow> pmm \<Rightarrow> pmm" where
  "give_frame f p =
     (if bit_test f (bitmap p)
      then p\<lparr>bitmap := bit_clear f (bitmap p), used_frames := used_frames p - 1\<rparr> else p)"

text \<open>\<^verbatim>\<open>for (f = first; f < last && f < total_frames; f++)\<close>\<close>

definition frame_range :: "u32 \<Rightarrow> u32 \<Rightarrow> u32 \<Rightarrow> u32 list" where
  "frame_range lo hi tot = map of_nat [unat lo..<min (unat hi) (unat tot)]"

definition mark_used :: "u32 \<Rightarrow> u64 \<Rightarrow> pmm \<Rightarrow> pmm" where
  "mark_used base len p =
     (let end0 = ucast base + len;
          end1 = (if MAX_MANAGED_PHYS < end0 then MAX_MANAGED_PHYS else end0)
      in if end1 \<le> ucast base then p
         else fold take_frame
                (frame_range (drop_bit 12 base) (ucast (drop_bit 12 (end1 + ucast PAGE_SIZE - 1)))
                   (total_frames p)) p)"

definition mark_free :: "u64 \<Rightarrow> u64 \<Rightarrow> pmm \<Rightarrow> pmm" where
  "mark_free base len p =
     (if MAX_MANAGED_PHYS \<le> base \<or> len = 0 then p
      else let end0 = base + len;
               end1 = (if end0 < base \<or> MAX_MANAGED_PHYS < end0 then MAX_MANAGED_PHYS else end0)
           in fold give_frame
                (frame_range (ucast (drop_bit 12 (base + ucast PAGE_SIZE - 1))) (ucast (drop_bit 12 end1))
                   (total_frames p)) p)"

section \<open>Initialisation\<close>

text \<open>Pass 1 of \<^verbatim>\<open>pmm_init\<close>: the loop body, on \<open>(total_bytes, highest)\<close>.\<close>

definition pass1 :: "e820_entry \<Rightarrow> u64 \<times> u64 \<Rightarrow> u64 \<times> u64" where
  "pass1 m acc =
     (case acc of (tot, highest) \<Rightarrow>
        if e_type m \<noteq> E820_USABLE \<or> e_length m = 0 then acc
        else if MAX_MANAGED_PHYS \<le> e_base m then acc
        else let base = e_base m;
                 end0 = base + e_length m;
                 end1 = (if end0 < base \<or> MAX_MANAGED_PHYS < end0 then MAX_MANAGED_PHYS else end0)
             in if end1 \<le> base then acc
                else (tot + (end1 - base), if highest < end1 then end1 else highest))"

definition pass2 :: "e820_entry \<Rightarrow> pmm \<Rightarrow> pmm" where
  "pass2 m p = (if e_type m = E820_USABLE then mark_free (e_base m) (e_length m) p else p)"

definition pmm_init :: "u32 \<Rightarrow> e820_entry list \<Rightarrow> pmm option" where
  "pmm_init kernel_end mmap =
     (case fold pass1 mmap (0, 0) of (tot, highest) \<Rightarrow>
        let frames = ucast (drop_bit 12 highest) :: u32;
            words = (frames + 31) div 32;
            addr = ALIGN_UP kernel_end 16
        in if frames = 0 \<or> words = 0 then None
           else
             let p0 = \<lparr>bitmap = replicate (unat words) 0xFFFFFFFF, bitmap_words = words,
                       total_frames = frames, used_frames = frames, total_bytes = tot,
                       bitmap_addr = addr\<rparr>;
                 p1 = fold pass2 mmap p0;
                 reserved_end = addr + words * 4
             in if MAX_MANAGED_PHYS \<le> ucast reserved_end then None
                else Some (mark_used 0 (ucast (ALIGN_UP reserved_end PAGE_SIZE)) p1))"

section \<open>Allocation and release\<close>

text \<open>The inner loop of \<^verbatim>\<open>pmm_alloc_frame\<close> over the bits of word \<open>w\<close>.\<close>

fun scan_bits :: "pmm \<Rightarrow> u32 \<Rightarrow> nat list \<Rightarrow> u32 option" where
  "scan_bits p w [] = None"
| "scan_bits p w (b # bs) =
     (let frame = w * 32 + of_nat b
      in if total_frames p \<le> frame then None
         else if \<not> bit_test frame (bitmap p) then Some frame
         else scan_bits p w bs)"

fun scan_words :: "pmm \<Rightarrow> nat list \<Rightarrow> u32 option" where
  "scan_words p [] = None"
| "scan_words p (w # ws) =
     (if bitmap p ! w = 0xFFFFFFFF then scan_words p ws
      else case scan_bits p (of_nat w) [0..<32] of
             Some frame \<Rightarrow> Some frame
           | None \<Rightarrow> scan_words p ws)"

definition pmm_alloc_frame :: "pmm \<Rightarrow> phys_addr \<times> pmm" where
  "pmm_alloc_frame p =
     (case scan_words p [0..<unat (bitmap_words p)] of
        Some frame \<Rightarrow>
          (push_bit 12 frame, p\<lparr>bitmap := bit_set frame (bitmap p), used_frames := used_frames p + 1\<rparr>)
      | None \<Rightarrow> (0, p))"

text \<open>
  The search loop of \<^verbatim>\<open>pmm_alloc_frames\<close>: \<open>run\<close> counts the free frames
  seen in a row and \<open>start\<close> is the first of them.
\<close>

fun scan_run :: "u32 list \<Rightarrow> u32 \<Rightarrow> nat list \<Rightarrow> u32 \<Rightarrow> u32 \<Rightarrow> u32 option" where
  "scan_run bm count [] run start = None"
| "scan_run bm count (frame # fs) run start =
     (if bit_test (of_nat frame) bm then scan_run bm count fs 0 start
      else let start' = (if run = 0 then of_nat frame else start)
           in if run + 1 = count then Some start'
              else scan_run bm count fs (run + 1) start')"

definition pmm_alloc_frames :: "u32 \<Rightarrow> pmm \<Rightarrow> phys_addr \<times> pmm" where
  "pmm_alloc_frames count p =
     (if count = 0 then (0, p)
      else if count = 1 then pmm_alloc_frame p
      else if total_frames p < count then (0, p)
      else case scan_run (bitmap p) count [0..<unat (total_frames p)] 0 0 of
             Some start \<Rightarrow>
               (push_bit 12 start,
                fold (\<lambda>i q. q\<lparr>bitmap := bit_set (start + of_nat i) (bitmap q),
                               used_frames := used_frames q + 1\<rparr>)
                  [0..<unat count] p)
           | None \<Rightarrow> (0, p))"

definition pmm_free_frame :: "phys_addr \<Rightarrow> pmm \<Rightarrow> pmm" where
  "pmm_free_frame addr p =
     (if addr AND (PAGE_SIZE - 1) \<noteq> 0 then p
      else let frame = drop_bit 12 addr
           in if total_frames p \<le> frame then p else give_frame frame p)"

definition pmm_free_contiguous :: "phys_addr \<Rightarrow> u32 \<Rightarrow> pmm \<Rightarrow> pmm" where
  "pmm_free_contiguous base count p =
     (if base AND (PAGE_SIZE - 1) \<noteq> 0 then p
      else fold (\<lambda>i q. pmm_free_frame (base + of_nat i * PAGE_SIZE) q) [0..<unat count] p)"

definition pmm_total_frames :: "pmm \<Rightarrow> u32" where
  "pmm_total_frames p = total_frames p"

definition pmm_used_frames :: "pmm \<Rightarrow> u32" where
  "pmm_used_frames p = used_frames p"

definition pmm_total_bytes :: "pmm \<Rightarrow> u64" where
  "pmm_total_bytes p = total_bytes p"

definition pmm_free_frames :: "pmm \<Rightarrow> u32" where
  "pmm_free_frames p = total_frames p - used_frames p"

section \<open>The bitmap\<close>

lemma word_31: "(31::u32) = mask 5"
  by (simp add: mask_eq_exp_minus_1)

lemma frame_index [u_simps]:
  "unat (drop_bit 5 f) = unat f div 32" "unat (f AND 31) = unat f mod 32"
  for f :: u32
  by (simp_all add: word_31 u_simps)

lemma bit_test_iff: "bit_test f bm \<longleftrightarrow> bit (bm ! (unat f div 32)) (unat f mod 32)"
  by (simp add: bit_test_def frame_index bit_iff_odd_drop_bit and_one_eq odd_iff_mod_2_eq_one)

definition frame_ok :: "u32 \<Rightarrow> u32 list \<Rightarrow> bool" where
  "frame_ok f bm \<longleftrightarrow> unat f div 32 < length bm"

lemma frame_cell_eq: "f = g \<longleftrightarrow> unat f div 32 = unat g div 32 \<and> unat f mod 32 = unat g mod 32"
  for f g :: u32
  by (metis div_mult_mod_eq word_unat_eq_iff)

interpretation frames: bit_vector bit_test bit_set bit_clear frame_ok
proof
  show "bit_test j (bit_set i b) \<longleftrightarrow> j = i \<or> bit_test j b" if "frame_ok i b" for i j b
    using that
    by (cases "unat j div 32 = unat i div 32")
      (auto simp: bit_test_iff bit_set_def Let_def frame_index frame_ok_def bit_simps
        frame_cell_eq [of j i])
  show "bit_test j (bit_clear i b) \<longleftrightarrow> j \<noteq> i \<and> bit_test j b" if "frame_ok i b" for i j b
    using that
    by (cases "unat j div 32 = unat i div 32")
      (auto simp: bit_test_iff bit_clear_def Let_def frame_index frame_ok_def bit_simps
        frame_cell_eq [of j i])
qed (simp_all add: frame_ok_def bit_set_def bit_clear_def Let_def)

definition frames_of :: "pmm \<Rightarrow> u32 set" where
  "frames_of p = {f. f < total_frames p}"

interpretation pm: counted_bits bit_test bit_set bit_clear frame_ok
    bitmap used_frames frames_of take_frame give_frame
  by unfold_locales (auto simp: take_frame_def give_frame_def frames_of_def)

section \<open>Well-formedness\<close>

definition pmm_wf :: "pmm \<Rightarrow> bool" where
  "pmm_wf p \<longleftrightarrow>
     length (bitmap p) = unat (bitmap_words p) \<and>
     unat (total_frames p) \<le> 32 * unat (bitmap_words p) \<and>
     unat (total_frames p) \<le> 2 ^ 18 \<and> unat (bitmap_words p) \<le> 2 ^ 13 \<and>
     unat (used_frames p) = length (filter (\<lambda>n. bit_test (of_nat n) (bitmap p)) [0..<unat (total_frames p)])"

lemma frames_of_finite [simp]: "finite (frames_of p)"
  by simp

lemma of_nat_frame: "n < unat t \<Longrightarrow> unat (of_nat n :: u32) = n"
  for t :: u32
  using unat_lt2p [of t] by (simp add: unsigned_of_nat take_bit_eq_mod)

lemma card_test: "card {f::u32. f < t \<and> P f} = length (filter (\<lambda>n. P (of_nat n)) [0..<unat t])"
proof -
  have "{f::u32. f < t \<and> P f} = of_nat ` {n. n < unat t \<and> P (of_nat n)}"
  proof (intro equalityI subsetI)
    fix f
    assume "f \<in> {f. f < t \<and> P f}"
    then have "f = of_nat (unat f)" and "unat f \<in> {n. n < unat t \<and> P (of_nat n)}"
      by (simp_all add: word_less_nat_alt)
    then show "f \<in> of_nat ` {n. n < unat t \<and> P (of_nat n)}" by (rule image_eqI)
  qed (auto simp: word_less_nat_alt of_nat_frame)
  moreover have "inj_on (of_nat :: nat \<Rightarrow> u32) {n. n < unat t \<and> P (of_nat n)}"
    by (auto intro!: inj_onI simp: word_unat_eq_iff of_nat_frame [of _ t])
  moreover have "length (filter (\<lambda>n. P (of_nat n)) [0..<unat t]) = card {n. n < unat t \<and> P (of_nat n)}"
    by (subst length_filter_conv_card) (auto intro: arg_cong [of _ _ card])
  ultimately show ?thesis
    by (simp add: card_image)
qed

lemma card_below: "card {f::u32. f < n} = unat n"
  using card_test [of n "\<lambda>_. True"] by simp

lemma wf_frame_ok: "pmm_wf p \<Longrightarrow> f \<in> frames_of p \<Longrightarrow> frame_ok f (bitmap p)"
  by (auto simp: pmm_wf_def frames_of_def frame_ok_def word_less_nat_alt less_mult_imp_div_less mult.commute)

lemma wf_counted: "pmm_wf p \<Longrightarrow> pm.counted p"
  using wf_frame_ok [of p]
  by (simp add: pm.counted_def frames_of_def card_below card_test) (simp add: pmm_wf_def)

lemma wf_shape:
  assumes "pmm_wf p" and "pm.counted q"
    and "total_frames q = total_frames p" "bitmap_words q = bitmap_words p"
    and "length (bitmap q) = length (bitmap p)"
  shows "pmm_wf q"
  using assms by (simp add: pmm_wf_def pm.counted_def frames_of_def card_test)

lemma length_bit_ops [simp]:
  "length (bit_set f bm) = length bm" "length (bit_clear f bm) = length bm"
  by (simp_all add: bit_set_def bit_clear_def Let_def)

lemma frame_ops_shape [simp]:
  "total_frames (take_frame f p) = total_frames p" "total_frames (give_frame f p) = total_frames p"
  "bitmap_words (take_frame f p) = bitmap_words p" "bitmap_words (give_frame f p) = bitmap_words p"
  "length (bitmap (take_frame f p)) = length (bitmap p)"
  "length (bitmap (give_frame f p)) = length (bitmap p)"
  "frames_of (take_frame f p) = frames_of p" "frames_of (give_frame f p) = frames_of p"
  by (simp_all add: take_frame_def give_frame_def frames_of_def)

lemma fold_ops_shape [simp]:
  "total_frames (fold take_frame fs p) = total_frames p"
  "total_frames (fold give_frame fs p) = total_frames p"
  "bitmap_words (fold take_frame fs p) = bitmap_words p"
  "bitmap_words (fold give_frame fs p) = bitmap_words p"
  "length (bitmap (fold take_frame fs p)) = length (bitmap p)"
  "length (bitmap (fold give_frame fs p)) = length (bitmap p)"
  by (induction fs arbitrary: p) simp_all

lemma wf_fold_take: "pmm_wf p \<Longrightarrow> set fs \<subseteq> frames_of p \<Longrightarrow> pmm_wf (fold take_frame fs p)"
  by (rule wf_shape) (auto intro: pm.counted_fold_take wf_counted)

lemma wf_fold_give: "pmm_wf p \<Longrightarrow> set fs \<subseteq> frames_of p \<Longrightarrow> pmm_wf (fold give_frame fs p)"
  by (rule wf_shape) (auto intro: pm.counted_fold_give wf_counted)

lemma frame_range_sub: "set (frame_range lo hi (total_frames p)) \<subseteq> frames_of p"
  by (auto simp: frame_range_def frames_of_def word_less_nat_alt of_nat_frame)

lemma frame_range_mem:
  "f \<in> set (frame_range lo hi t) \<longleftrightarrow> unat lo \<le> unat f \<and> unat f < unat hi \<and> unat f < unat t"
proof
  assume "unat lo \<le> unat f \<and> unat f < unat hi \<and> unat f < unat t"
  then have "unat f \<in> {unat lo..<min (unat hi) (unat t)}" by simp
  then show "f \<in> set (frame_range lo hi t)"
    unfolding frame_range_def set_map set_upt by (rule image_eqI [rotated]) simp
qed (auto simp: frame_range_def of_nat_frame)

lemma wf_mark_used: "pmm_wf p \<Longrightarrow> pmm_wf (mark_used base len p)"
  by (auto simp: mark_used_def Let_def intro!: wf_fold_take [OF _ frame_range_sub])

lemma wf_mark_free: "pmm_wf p \<Longrightarrow> pmm_wf (mark_free base len p)"
  by (auto simp: mark_free_def Let_def intro!: wf_fold_give [OF _ frame_range_sub])

section \<open>The search for a free frame\<close>

definition frame_free :: "pmm \<Rightarrow> nat \<Rightarrow> bool" where
  "frame_free p n \<longleftrightarrow> n < unat (total_frames p) \<and> \<not> bit_test (of_nat n) (bitmap p)"

lemma find_append: "List.find P (xs @ ys) = (case List.find P xs of None \<Rightarrow> List.find P ys | r \<Rightarrow> r)"
  by (induction xs) auto

lemma scan_bits_find:
  assumes "b \<le> 32" and "w < 2 ^ 13" and "pmm_wf p"
  shows "scan_bits p (of_nat w) [b..<32] =
    map_option of_nat (List.find (frame_free p) [32 * w + b..<32 * w + 32])"
  using assms(1)
proof (induction "32 - b" arbitrary: b)
  case 0
  then show ?case by simp
next
  case (Suc k)
  then have b: "b < 32" by simp
  have frame: "(of_nat w * 32 + of_nat b :: u32) = of_nat (32 * w + b)"
    by simp
  have unat_frame: "unat (of_nat (32 * w + b) :: u32) = 32 * w + b"
    using assms(2) b by (simp only: unsigned_of_nat take_bit_eq_mod) simp
  have step: "[b..<32] = b # [Suc b..<32]"
    "[32 * w + b..<32 * w + 32] = (32 * w + b) # [32 * w + Suc b..<32 * w + 32]"
    using b by (simp_all add: upt_conv_Cons)
  have IH: "scan_bits p (of_nat w) [Suc b..<32] =
    map_option of_nat (List.find (frame_free p) [32 * w + Suc b..<32 * w + 32])"
    using Suc.hyps(2) b by (intro Suc.hyps(1)) simp_all
  show ?case
  proof (cases "total_frames p \<le> of_nat (32 * w + b)")
    case True
    then have "unat (total_frames p) \<le> 32 * w + b"
      by (simp only: word_le_nat_alt unat_frame)
    then have "List.find (frame_free p) [32 * w + b..<32 * w + 32] = None"
      by (auto simp: find_None_iff frame_free_def)
    with True show ?thesis
      unfolding step(1) scan_bits.simps frame Let_def by simp
  next
    case False
    then have "32 * w + b < unat (total_frames p)"
      by (simp only: word_le_nat_alt unat_frame not_le)
    with False IH show ?thesis
      unfolding step scan_bits.simps frame Let_def by (simp add: frame_free_def del: of_nat_add of_nat_mult)
  qed
qed

lemma bit_all_ones: "bit (0xFFFFFFFF :: u32) m \<longleftrightarrow> m < 32"
proof -
  have "(0xFFFFFFFF :: u32) = - 1" by simp
  then show ?thesis by (simp only: bit_minus_1_iff possible_bit_word) simp
qed

lemma full_word:
  assumes "bitmap p ! w = 0xFFFFFFFF" and "n div 32 = w" and "n < 2 ^ 18"
  shows "\<not> frame_free p n"
proof -
  have "unat (of_nat n :: u32) = n"
    using assms(3) by (simp add: unsigned_of_nat take_bit_eq_mod)
  moreover have "bit (bitmap p ! w) (n mod 32)"
    unfolding assms(1) bit_all_ones by simp
  ultimately show ?thesis
    using assms(2) by (simp add: frame_free_def bit_test_iff)
qed

lemma scan_words_find:
  assumes "k \<le> W" and "W \<le> 2 ^ 13" and "pmm_wf p"
  shows "scan_words p [k..<W] = map_option of_nat (List.find (frame_free p) [32 * k..<32 * W])"
  using assms(1)
proof (induction "W - k" arbitrary: k)
  case 0
  then show ?case by simp
next
  case (Suc m)
  then have k: "k < W" by simp
  have step: "[k..<W] = k # [Suc k..<W]"
    using k by (simp add: upt_conv_Cons)
  have split: "[32 * k..<32 * W] = [32 * k..<32 * k + 32] @ [32 * Suc k..<32 * W]"
    using k upt_add_eq_append [of "32 * k" "32 * k + 32" "32 * W - (32 * k + 32)"]
    by (simp add: algebra_simps)
  have IH: "scan_words p [Suc k..<W] =
    map_option of_nat (List.find (frame_free p) [32 * Suc k..<32 * W])"
    using Suc.hyps(2) k by (intro Suc.hyps(1)) simp_all
  have bits: "scan_bits p (of_nat k) [0..<32] =
    map_option of_nat (List.find (frame_free p) [32 * k..<32 * k + 32])"
    using scan_bits_find [of 0 k p] k assms(2,3) by simp
  show ?case
  proof (cases "bitmap p ! k = 0xFFFFFFFF")
    case True
    have "List.find (frame_free p) [32 * k..<32 * k + 32] = None"
      unfolding find_None_iff
    proof
      assume "\<exists>n. n \<in> set [32 * k..<32 * k + 32] \<and> frame_free p n"
      then obtain n where n: "32 * k \<le> n" "n < 32 * k + 32" "frame_free p n" by auto
      then have "n div 32 = k" "n < 2 ^ 18" using k assms(2) by auto
      with full_word [OF True] n(3) show False by blast
    qed
    with True IH show ?thesis
      unfolding step split find_append by simp
  next
    case False
    with IH bits show ?thesis
      unfolding step split find_append by (simp split: option.split)
  qed
qed

lemma scan_words_spec:
  assumes "pmm_wf p"
  shows "scan_words p [0..<unat (bitmap_words p)] =
    map_option of_nat (List.find (frame_free p) [0..<32 * unat (bitmap_words p)])"
  using scan_words_find [of 0 "unat (bitmap_words p)" p] assms by (simp add: pmm_wf_def)

section \<open>Effects on the set of free frames\<close>

lemma frame_in: "n < unat (total_frames p) \<Longrightarrow> (of_nat n :: u32) \<in> frames_of p"
  by (simp add: frames_of_def word_less_nat_alt of_nat_frame)

lemma of_nat_frame_eq: "m < unat t \<Longrightarrow> n < unat t \<Longrightarrow> (of_nat m :: u32) = of_nat n \<longleftrightarrow> m = n"
  for t :: u32
  by (auto simp: word_unat_eq_iff of_nat_frame)

lemma free_fold_take:
  assumes "pmm_wf p" and "set fs \<subseteq> frames_of p"
  shows "frame_free (fold take_frame fs p) m \<longleftrightarrow> frame_free p m \<and> of_nat m \<notin> set fs"
  using pm.tst_fold_take [OF wf_counted [OF assms(1)] assms(2)] by (auto simp: frame_free_def)

lemma free_fold_give:
  assumes "pmm_wf p" and "set fs \<subseteq> frames_of p"
  shows "frame_free (fold give_frame fs p) m \<longleftrightarrow>
    frame_free p m \<or> m < unat (total_frames p) \<and> of_nat m \<in> set fs"
  using pm.tst_fold_give [OF wf_counted [OF assms(1)] assms(2)] by (auto simp: frame_free_def)

lemma free_take_frame:
  assumes "pmm_wf p" and "n < unat (total_frames p)"
  shows "frame_free (take_frame (of_nat n) p) m \<longleftrightarrow> frame_free p m \<and> m \<noteq> n"
  using free_fold_take [OF assms(1), of "[of_nat n]" m] frame_in [OF assms(2)] assms(2)
  by (auto simp: frame_free_def of_nat_frame_eq [of m "total_frames p" n])

lemma free_give_frame:
  assumes "pmm_wf p" and "n < unat (total_frames p)"
  shows "frame_free (give_frame (of_nat n) p) m \<longleftrightarrow> frame_free p m \<or> m = n"
  using free_fold_give [OF assms(1), of "[of_nat n]" m] frame_in [OF assms(2)] assms(2)
  by (auto simp: frame_free_def of_nat_frame_eq [of m "total_frames p" n])

lemma wf_take_frame: "pmm_wf p \<Longrightarrow> n < unat (total_frames p) \<Longrightarrow> pmm_wf (take_frame (of_nat n) p)"
  using wf_fold_take [of p "[of_nat n]"] frame_in [of n p] by simp

lemma wf_give_frame: "pmm_wf p \<Longrightarrow> n < unat (total_frames p) \<Longrightarrow> pmm_wf (give_frame (of_nat n) p)"
  using wf_fold_give [of p "[of_nat n]"] frame_in [of n p] by simp

lemma frame_addr: "n < 2 ^ 18 \<Longrightarrow> unat (push_bit 12 (of_nat n :: u32)) = 4096 * n"
  by (simp add: push_bit_eq_mult unat_word_ariths unsigned_of_nat take_bit_eq_mod)

lemma free_bound: "pmm_wf p \<Longrightarrow> frame_free p n \<Longrightarrow> n < unat (total_frames p) \<and> n < 2 ^ 18"
  by (auto simp: frame_free_def pmm_wf_def)

lemma alloc_frame_cases:
  assumes "pmm_wf p"
  obtains (none) "\<nexists>n. frame_free p n" "pmm_alloc_frame p = (0, p)"
  | (some) n where "frame_free p n" "\<forall>m<n. \<not> frame_free p m"
      "pmm_alloc_frame p = (push_bit 12 (of_nat n), take_frame (of_nat n) p)"
proof (cases "List.find (frame_free p) [0..<32 * unat (bitmap_words p)]")
  case None
  then have "\<nexists>n. frame_free p n"
    using assms by (auto simp: find_None_iff frame_free_def pmm_wf_def)
  with None none show ?thesis
    using scan_words_spec [OF assms] by (simp add: pmm_alloc_frame_def)
next
  case (Some n)
  then have "frame_free p n" "\<forall>m<n. \<not> frame_free p m"
    by (auto simp: find_Some_iff)
  with Some some show ?thesis
    using scan_words_spec [OF assms]
    by (simp add: pmm_alloc_frame_def take_frame_def frame_free_def)
qed

section \<open>The search for a run of frames\<close>

definition run_free :: "pmm \<Rightarrow> nat \<Rightarrow> nat \<Rightarrow> bool" where
  "run_free p s c \<longleftrightarrow> (\<forall>i<c. frame_free p (s + i))"

lemma scan_run_spec:
  fixes run :: u32
  assumes "pmm_wf p" and "k \<le> unat (total_frames p)" and "unat run < unat count" and "unat run \<le> k"
    and "\<forall>i. k - unat run \<le> i \<and> i < k \<longrightarrow> frame_free p i"
    and "unat run < k \<longrightarrow> \<not> frame_free p (k - unat run - 1)"
    and "run \<noteq> 0 \<longrightarrow> start = of_nat (k - unat run)"
    and "\<forall>s. s + unat count \<le> k \<longrightarrow> \<not> run_free p s (unat count)"
  shows "case scan_run (bitmap p) count [k..<unat (total_frames p)] run start of
      Some st \<Rightarrow> \<exists>s. st = of_nat s \<and> run_free p s (unat count) \<and> (\<forall>t < s. \<not> run_free p t (unat count))
    | None \<Rightarrow> \<nexists>s. run_free p s (unat count)"
  using assms(2-)
proof (induction "unat (total_frames p) - k" arbitrary: k run start)
  case 0
  have "\<not> run_free p s (unat count)" for s
  proof
    assume r: "run_free p s (unat count)"
    moreover have "unat count - 1 < unat count" using 0 by simp
    ultimately have "frame_free p (s + (unat count - 1))"
      unfolding run_free_def by blast
    then have "s + (unat count - 1) < k"
      using 0 by (simp only: frame_free_def) simp
    then have "s + unat count \<le> k" by arith
    with 0 r show False by blast
  qed
  with 0 show ?case by simp
next
  case (Suc d)
  let ?T = "unat (total_frames p)" and ?c = "unat count"
  have k: "k < ?T" using Suc.hyps(2) by simp
  then have step: "[k..<?T] = k # [Suc k..<?T]" by (simp add: upt_conv_Cons)
  show ?case
  proof (cases "frame_free p k")
    case False
    have "\<not> run_free p s ?c" if "s + ?c \<le> Suc k" for s
    proof (cases "s + ?c \<le> k")
      case True
      with Suc.prems show ?thesis by blast
    next
      case False
      then have "k = s + (?c - 1)" "?c - 1 < ?c" using that Suc.prems by auto
      with \<open>\<not> frame_free p k\<close> show ?thesis by (auto simp: run_free_def)
    qed
    then have "case scan_run (bitmap p) count [Suc k..<?T] 0 start of
        Some st \<Rightarrow> \<exists>s. st = of_nat s \<and> run_free p s ?c \<and> (\<forall>t < s. \<not> run_free p t ?c)
      | None \<Rightarrow> \<nexists>s. run_free p s ?c"
      using Suc.hyps(2) Suc.prems(2) False k by (intro Suc.hyps(1)) auto
    then show ?thesis
      using False k by (simp add: step frame_free_def)
  next
    case True
    define start' where "start' = (if run = 0 then of_nat k else start)"
    have start': "start' = of_nat (k - unat run)"
      using Suc.prems(6) by (simp add: start'_def)
    have run1: "unat (run + 1) = unat run + 1"
      using Suc.prems(2) unat_lt2p [of count] by (intro unat_plus_one) simp
    have unfold: "scan_run (bitmap p) count [k..<?T] run start =
      (if run + 1 = count then Some start' else scan_run (bitmap p) count [Suc k..<?T] (run + 1) start')"
      using True by (simp add: step frame_free_def start'_def Let_def)
    have prev: "\<forall>i. k - unat run \<le> i \<and> i < Suc k \<longrightarrow> frame_free p i"
      using Suc.prems(4) True by (auto simp: less_Suc_eq)
    show ?thesis
    proof (cases "run + 1 = count")
      case hit: True
      then have c: "?c = unat run + 1" using run1 by simp
      have "run_free p (k - unat run) ?c"
        unfolding run_free_def c
      proof (intro allI impI)
        fix i
        assume "i < unat run + 1"
        then have "k - unat run \<le> k - unat run + i" "k - unat run + i < Suc k"
          using Suc.prems(3) by arith+
        with prev show "frame_free p (k - unat run + i)" by blast
      qed
      moreover have "\<not> run_free p s' ?c" if "s' < k - unat run" for s'
        using that Suc.prems(7) c by auto
      ultimately show ?thesis
        using hit start' by (auto simp: unfold)
    next
      case False
      then have lt: "unat (run + 1) < ?c"
        using run1 Suc.prems(2) by (metis Suc_eq_plus1 Suc_lessI word_unat_eq_iff)
      have none: "\<not> run_free p s ?c" if s: "s + ?c \<le> Suc k" for s
      proof
        assume r: "run_free p s ?c"
        with Suc.prems(7) s have sk: "s + ?c = Suc k" by (metis le_Suc_eq)
        with lt run1 have "unat run < k" "s \<le> k - unat run - 1" "k - unat run - 1 < s + ?c"
          by simp_all
        with r have "frame_free p (k - unat run - 1)"
          by (metis le_add_diff_inverse nat_add_left_cancel_less run_free_def)
        with Suc.prems(5) \<open>unat run < k\<close> show False by blast
      qed
      have "case scan_run (bitmap p) count [Suc k..<?T] (run + 1) start' of
          Some st \<Rightarrow> \<exists>s. st = of_nat s \<and> run_free p s ?c \<and> (\<forall>t < s. \<not> run_free p t ?c)
        | None \<Rightarrow> \<nexists>s. run_free p s ?c"
        using Suc.hyps(2) k lt prev none Suc.prems(3,5) start'
        by (intro Suc.hyps(1)) (simp_all add: run1)
      with False show ?thesis by (simp add: unfold)
    qed
  qed
qed

lemma take_frame_free: "\<not> bit_test f (bitmap p) \<Longrightarrow>
    take_frame f p = p\<lparr>bitmap := bit_set f (bitmap p), used_frames := used_frames p + 1\<rparr>"
  by (simp add: take_frame_def)

lemma set_run_fold:
  assumes "pmm_wf p" and "run_free p s c"
  shows "fold (\<lambda>i q. q\<lparr>bitmap := bit_set (of_nat s + of_nat i) (bitmap q),
                        used_frames := used_frames q + 1\<rparr>) [0..<c] p =
         fold take_frame (map of_nat [s..<s + c]) p"
  using assms(2)
proof (induction c)
  case 0
  then show ?case by simp
next
  case (Suc c)
  then have free: "run_free p s c" "frame_free p (s + c)"
    by (simp_all add: run_free_def)
  have sub: "set (map of_nat [s..<s + c]) \<subseteq> frames_of p"
    using free(2) by (auto intro: frame_in simp: frame_free_def)
  have "(of_nat (s + c) :: u32) \<notin> set (map of_nat [s..<s + c])"
    using free(2) by (auto simp: frame_free_def of_nat_frame_eq [of "s + c" "total_frames p"]
        simp del: of_nat_add)
  then have "frame_free (fold take_frame (map of_nat [s..<s + c]) p) (s + c)"
    using free(2) free_fold_take [OF assms(1) sub, of "s + c"] by blast
  then have "\<not> bit_test (of_nat s + of_nat c) (bitmap (fold take_frame (map of_nat [s..<s + c]) p))"
    by (simp add: frame_free_def)
  with Suc.IH [OF free(1)] show ?case
    by (simp add: take_frame_free)
qed

lemma alloc_frames_cases:
  assumes "pmm_wf p" and "count \<noteq> 0"
  obtains (none) "\<nexists>s. run_free p s (unat count)" "pmm_alloc_frames count p = (0, p)"
  | (some) s where "run_free p s (unat count)" "\<forall>t < s. \<not> run_free p t (unat count)"
      "pmm_alloc_frames count p =
         (push_bit 12 (of_nat s), fold take_frame (map of_nat [s..<s + unat count]) p)"
proof (cases "count = 1")
  case True
  then have one: "run_free p s (unat count) \<longleftrightarrow> frame_free p s" for s
    by (simp add: run_free_def)
  show ?thesis
    using assms(1)
  proof (cases rule: alloc_frame_cases)
    case none
    then show ?thesis using True one by (intro that(1)) (simp_all add: pmm_alloc_frames_def)
  next
    case (some n)
    then show ?thesis using True one by (intro that(2) [of n]) (simp_all add: pmm_alloc_frames_def)
  qed
next
  case False
  show ?thesis
  proof (cases "total_frames p < count")
    case True
    have "\<not> run_free p s (unat count)" for s
    proof
      assume "run_free p s (unat count)"
      then have "frame_free p (s + unat (total_frames p))"
        using True by (simp add: run_free_def word_less_nat_alt)
      then show False by (simp add: frame_free_def)
    qed
    then show ?thesis using True assms(2) False by (intro that(1)) (simp_all add: pmm_alloc_frames_def)
  next
    case fits: False
    have "0 < unat count" using assms(2) by (simp add: unat_gt_0)
    then have spec: "case scan_run (bitmap p) count [0..<unat (total_frames p)] 0 0 of
        Some st \<Rightarrow> \<exists>s. st = of_nat s \<and> run_free p s (unat count) \<and> (\<forall>t < s. \<not> run_free p t (unat count))
      | None \<Rightarrow> \<nexists>s. run_free p s (unat count)"
      by (intro scan_run_spec assms(1)) simp_all
    show ?thesis
    proof (cases "scan_run (bitmap p) count [0..<unat (total_frames p)] 0 0")
      case None
      with spec fits assms(2) False show ?thesis
        by (intro that(1)) (simp_all add: pmm_alloc_frames_def)
    next
      case (Some st)
      with spec obtain s where s: "st = of_nat s" "run_free p s (unat count)"
        "\<forall>t < s. \<not> run_free p t (unat count)" by auto
      with Some fits assms(2) False show ?thesis
        by (intro that(2) [of s])
          (simp_all add: pmm_alloc_frames_def set_run_fold [OF assms(1) s(2)])
    qed
  qed
qed

lemma run_frames:
  assumes "pmm_wf p" and "run_free p s c"
  shows "set (map of_nat [s..<s + c]) \<subseteq> frames_of p"
    and "m < unat (total_frames p) \<Longrightarrow> of_nat m \<in> set (map of_nat [s..<s + c] :: u32 list) \<longleftrightarrow> s \<le> m \<and> m < s + c"
proof -
  have in_run: "i < unat (total_frames p)" if "s \<le> i" "i < s + c" for i
    using assms(2) that by (auto simp: run_free_def frame_free_def dest!: spec [of _ "i - s"])
  then show "set (map of_nat [s..<s + c]) \<subseteq> frames_of p"
    by (auto intro: frame_in)
  show "of_nat m \<in> set (map of_nat [s..<s + c] :: u32 list) \<longleftrightarrow> s \<le> m \<and> m < s + c"
    if "m < unat (total_frames p)"
    using that in_run by (auto simp: of_nat_frame_eq [of m "total_frames p"])
qed

section \<open>Properties\<close>

text \<open>
  C1: \<^verbatim>\<open>pmm_alloc_frame\<close> keeps the allocator well-formed and is exact: when a frame is
  free it returns the address of the lowest free frame, marks that frame and no other and counts
  it; when none is free it returns 0 and changes nothing.
\<close>

theorem pmm_alloc_frame_correct:
  assumes "pmm_wf p" and "pmm_alloc_frame p = (a, p')"
  shows "pmm_wf p' \<and>
    (if \<exists>n. frame_free p n
     then \<exists>n. frame_free p n \<and> (\<forall>m<n. \<not> frame_free p m) \<and> unat a = 4096 * n \<and>
            (\<forall>m. frame_free p' m \<longleftrightarrow> frame_free p m \<and> m \<noteq> n) \<and>
            used_frames p' = used_frames p + 1
     else a = 0 \<and> p' = p)"
  using assms(1)
proof (cases rule: alloc_frame_cases)
  case none
  with assms show ?thesis by simp
next
  case (some n)
  with free_bound [OF assms(1) some(1)] assms show ?thesis
    by (auto intro!: exI [of _ n] simp: wf_take_frame free_take_frame frame_addr)
      (simp_all add: take_frame_def frame_free_def)
qed

definition sample_pmm :: pmm where
  "sample_pmm = \<lparr>bitmap = [0x2F], bitmap_words = 1, total_frames = 8, used_frames = 5,
                  total_bytes = 32768, bitmap_addr = 0\<rparr>"

lemma sample_wf: "pmm_wf sample_pmm"
  by (simp add: pmm_wf_def sample_pmm_def upt_rec bit_test_iff)

lemma sample_alloc: "fst (pmm_alloc_frame sample_pmm) = 0x4000"
  by (simp add: sample_pmm_def pmm_alloc_frame_def upt_rec bit_test_iff word_le_nat_alt)

theorem pmm_alloc_frame_correct_witness:
  "pmm_wf sample_pmm \<and> fst (pmm_alloc_frame sample_pmm) = 0x4000 \<and>
   pmm_wf (snd (pmm_alloc_frame sample_pmm))"
  using sample_wf sample_alloc pmm_alloc_frame_correct [OF sample_wf surjective_pairing] by blast

text \<open>
  C2: \<^verbatim>\<open>pmm_alloc_frames\<close> finds a run whenever one exists: for a non-zero count it
  returns the address of the first run of that many free frames, marks exactly the frames of that
  run and keeps the allocator well-formed; when there is no such run it returns 0 and changes
  nothing.
\<close>

theorem pmm_alloc_frames_correct:
  assumes "pmm_wf p" and "count \<noteq> 0" and "pmm_alloc_frames count p = (a, p')"
  shows "pmm_wf p' \<and>
    (if \<exists>s. run_free p s (unat count)
     then \<exists>s. run_free p s (unat count) \<and> (\<forall>t < s. \<not> run_free p t (unat count)) \<and>
            unat a = 4096 * s \<and>
            (\<forall>m. frame_free p' m \<longleftrightarrow> frame_free p m \<and> \<not> (s \<le> m \<and> m < s + unat count))
     else a = 0 \<and> p' = p)"
  using assms(1,2)
proof (cases rule: alloc_frames_cases)
  case none
  with assms show ?thesis by simp
next
  case (some s)
  have "frame_free p s"
    using some(1) assms(2) by (metis add_0_right run_free_def unat_gt_0)
  note s = free_bound [OF assms(1) this]
  have "frame_free p' m \<longleftrightarrow> frame_free p m \<and> \<not> (s \<le> m \<and> m < s + unat count)" for m
    using assms(3) some(3) free_fold_take [OF assms(1) run_frames(1) [OF assms(1) some(1)], of m]
      run_frames(2) [OF assms(1) some(1), of m]
    by (auto simp: frame_free_def)
  moreover have "pmm_wf p'"
    using assms(3) some(3) wf_fold_take [OF assms(1) run_frames(1) [OF assms(1) some(1)]] by simp
  ultimately show ?thesis
    using some assms(3) s by (auto intro!: exI [of _ s] simp: frame_addr)
qed

theorem pmm_alloc_frames_correct_witness:
  "pmm_wf sample_pmm \<and> (2::u32) \<noteq> 0 \<and> run_free sample_pmm 6 2 \<and>
   pmm_wf (snd (pmm_alloc_frames 2 sample_pmm)) \<and> fst (pmm_alloc_frames 2 sample_pmm) = 0x6000"
proof -
  have "run_free sample_pmm 6 2"
    by (auto simp: run_free_def less_2_cases_iff frame_free_def sample_pmm_def bit_test_iff)
  moreover have "fst (pmm_alloc_frames 2 sample_pmm) = 0x6000"
    by (simp add: pmm_alloc_frames_def sample_pmm_def upt_rec bit_test_iff word_less_nat_alt)
  ultimately show ?thesis
    using sample_wf pmm_alloc_frames_correct [OF sample_wf _ surjective_pairing, of 2] by simp
qed

lemma bit_clear_set: "frame_ok f bm \<Longrightarrow> \<not> bit_test f bm \<Longrightarrow> bit_clear f (bit_set f bm) = bm"
  by (auto intro!: nth_equalityI bit_word_eqI split: if_splits
      simp: bit_clear_def bit_set_def Let_def frame_index frame_ok_def bit_test_iff nth_list_update bit_simps)

text \<open>
  releasing a frame that was just handed out restores the allocator exactly, count included.
\<close>

lemma pmm_alloc_free_roundtrip:
  assumes "pmm_wf p" and "pmm_alloc_frame p = (a, p')" and "a \<noteq> 0"
  shows "pmm_free_frame a p' = p"
  using assms(1)
proof (cases rule: alloc_frame_cases)
  case none
  with assms show ?thesis by simp
next
  case (some n)
  note n = free_bound [OF assms(1) some(1)]
  have a: "a = push_bit 12 (of_nat n)" and p': "p' = take_frame (of_nat n) p"
    using some(3) assms(2) by auto
  have aligned: "a AND (PAGE_SIZE - 1) = 0"
    using n by (simp add: page_aligned_iff a frame_addr)
  have frame: "drop_bit 12 a = of_nat n"
    using n frame_addr [of n] by (simp add: a word_unat_eq_iff u_simps unsigned_of_nat take_bit_eq_mod)
  have test: "bit_test (of_nat n) (bit_set (of_nat n) (bitmap p))"
    using frames.tst_st [OF wf_frame_ok [OF assms(1) frame_in]] n by simp
  from some(1) have clear: "bit_clear (of_nat n) (bit_set (of_nat n) (bitmap p)) = bitmap p"
    using wf_frame_ok [OF assms(1) frame_in] by (intro bit_clear_set) (auto simp: frame_free_def)
  show ?thesis
    using n some(1) aligned test clear
    by (simp add: pmm_free_frame_def frame p' Let_def take_frame_def give_frame_def frame_free_def
        word_le_nat_alt of_nat_frame [of n "total_frames p"])
qed

text \<open>
  \<^verbatim>\<open>pmm_free_frame\<close> keeps the allocator well-formed for every address: it frees
  exactly the frame of a page aligned address inside the managed range, a second release of the
  same frame and any other address change nothing.
\<close>

lemma pmm_free_frame_correct:
  assumes "pmm_wf p"
  shows "pmm_wf (pmm_free_frame addr p) \<and>
    (\<forall>m. frame_free (pmm_free_frame addr p) m \<longleftrightarrow>
       frame_free p m \<or> (unat addr = 4096 * m \<and> m < unat (total_frames p))) \<and>
    (\<not> 4096 dvd unat addr \<or> unat (total_frames p) \<le> unat addr div 4096 \<or>
       frame_free p (unat addr div 4096) \<longrightarrow> pmm_free_frame addr p = p)"
proof (cases "4096 dvd unat addr \<and> unat addr div 4096 < unat (total_frames p)")
  case False
  then have "pmm_free_frame addr p = p"
    by (auto simp: pmm_free_frame_def page_aligned_iff Let_def word_le_nat_alt u_simps)
  with assms False show ?thesis by auto
next
  case True
  define n where "n = unat addr div 4096"
  have n: "n < unat (total_frames p)" "unat addr = 4096 * n"
    using True by (simp_all add: n_def)
  have frame: "drop_bit 12 addr = of_nat n"
    using n by (simp add: word_unat_eq_iff u_simps of_nat_frame [of n "total_frames p"])
  have eq: "pmm_free_frame addr p = give_frame (of_nat n) p"
    using True n by (simp add: pmm_free_frame_def page_aligned_iff Let_def word_le_nat_alt frame
        of_nat_frame [of n "total_frames p"])
  have idle: "frame_free p n \<Longrightarrow> give_frame (of_nat n) p = p"
    by (simp add: give_frame_def frame_free_def)
  show ?thesis
    unfolding eq
    using assms n True idle by (auto simp: wf_give_frame free_give_frame)
qed

section \<open>Initialisation is safe\<close>

lemma max_managed: "unat MAX_MANAGED_PHYS = 2 ^ 30"
  by (simp add: MAX_MANAGED_PHYS_def USER_MIN_def)

lemma pass1_highest: "unat (snd (fold pass1 es acc)) \<le> 2 ^ 30" if "unat (snd acc) \<le> 2 ^ 30"
  using that
proof (induction es arbitrary: acc)
  case (Cons e es)
  have "unat (snd (pass1 e acc)) \<le> 2 ^ 30"
    using Cons.prems max_managed
    by (auto simp: pass1_def Let_def word_less_nat_alt split: prod.split)
  from Cons.IH [OF this] show ?case by simp
qed simp

definition usable_frame :: "e820_entry list \<Rightarrow> nat \<Rightarrow> bool" where
  "usable_frame es n \<longleftrightarrow>
     (\<exists>e \<in> set es. e_type e = E820_USABLE \<and> unat (e_base e) \<le> 4096 * n \<and>
        4096 * n + 4096 \<le> unat (e_base e) + unat (e_length e)) \<and> 4096 * n + 4096 \<le> 2 ^ 30"

lemma free_mark_free:
  assumes "pmm_wf p" and "frame_free (mark_free base len p) n"
  shows "frame_free p n \<or>
    unat base \<le> 4096 * n \<and> 4096 * n + 4096 \<le> unat base + unat len \<and> 4096 * n + 4096 \<le> 2 ^ 30"
proof (cases "MAX_MANAGED_PHYS \<le> base \<or> len = 0")
  case True
  with assms show ?thesis by (simp add: mark_free_def)
next
  case False
  define e where "e = (if base + len < base \<or> MAX_MANAGED_PHYS < base + len then MAX_MANAGED_PHYS
    else base + len)"
  define lo hi :: u32 where "lo = ucast (drop_bit 12 (base + ucast PAGE_SIZE - 1))"
    and "hi = ucast (drop_bit 12 e)"
  have base: "unat base < 2 ^ 30"
    using False by (simp add: word_le_nat_alt max_managed)
  have e: "unat e \<le> 2 ^ 30" "unat e \<le> unat base + unat len"
    using plus_overflow [of base len] unat_plus_le [of base len] max_managed
    by (auto simp: e_def word_less_nat_alt)
  have "unat (base + ucast PAGE_SIZE - 1) = unat base + 4095"
    using base by (simp add: PAGE_SIZE_def unat_plus_simple)
  then have lo: "unat lo = (unat base + 4095) div 4096"
    using base by (simp add: lo_def unat_ucast_small u_simps)
  have hi: "unat hi = unat e div 4096"
    using e by (simp add: hi_def unat_ucast_small u_simps)
  have "mark_free base len p = fold give_frame (frame_range lo hi (total_frames p)) p"
    using False by (simp add: mark_free_def Let_def e_def lo_def hi_def)
  with assms have "frame_free p n \<or> n < unat (total_frames p) \<and> of_nat n \<in> set (frame_range lo hi (total_frames p))"
    by (simp add: free_fold_give [OF assms(1) frame_range_sub])
  then show ?thesis
  proof
    assume "n < unat (total_frames p) \<and> of_nat n \<in> set (frame_range lo hi (total_frames p))"
    then have "unat lo \<le> n" "n < unat hi"
      by (auto simp: frame_range_mem of_nat_frame)
    then have "unat base \<le> 4096 * n" "4096 * n + 4096 \<le> unat e"
      by (auto simp: lo hi)
    with e show ?thesis by linarith
  qed simp
qed

lemma mark_ops_shape [simp]:
  "total_frames (mark_free base len p) = total_frames p"
  "bitmap_words (mark_free base len p) = bitmap_words p"
  "length (bitmap (mark_free base len p)) = length (bitmap p)"
  "length (bitmap (mark_used b len p)) = length (bitmap p)"
  by (simp_all add: mark_free_def mark_used_def Let_def)

lemma fold_frame_addr [simp]:
  "bitmap_addr (fold take_frame fs p) = bitmap_addr p"
  "bitmap_addr (fold give_frame fs p) = bitmap_addr p"
  by (induction fs arbitrary: p) (simp_all add: take_frame_def give_frame_def)

lemma mark_addr [simp]:
  "bitmap_addr (mark_used b len p) = bitmap_addr p"
  "bitmap_addr (mark_free base len p) = bitmap_addr p"
  by (simp_all add: mark_free_def mark_used_def Let_def)

lemma pass2_shape [simp]:
  "bitmap_addr (pass2 e p) = bitmap_addr p" "length (bitmap (pass2 e p)) = length (bitmap p)"
  by (simp_all add: pass2_def)

lemma fold_pass2:
  assumes "pmm_wf p"
  shows "pmm_wf (fold pass2 es p) \<and> bitmap_addr (fold pass2 es p) = bitmap_addr p \<and>
    length (bitmap (fold pass2 es p)) = length (bitmap p) \<and>
    (\<forall>n. frame_free (fold pass2 es p) n \<longrightarrow> frame_free p n \<or> usable_frame es n)"
  using assms
proof (induction es arbitrary: p)
  case (Cons e es)
  have "pmm_wf (pass2 e p)"
    using Cons.prems by (simp add: pass2_def wf_mark_free)
  note IH = Cons.IH [OF this]
  have "frame_free p n \<or> usable_frame (e # es) n" if "frame_free (pass2 e p) n" for n
    using that free_mark_free [OF Cons.prems, of "e_base e" "e_length e" n]
    by (auto simp: pass2_def usable_frame_def split: if_splits)
  moreover have "usable_frame es n \<Longrightarrow> usable_frame (e # es) n" for n
    by (auto simp: usable_frame_def)
  ultimately show ?case
    using IH by auto
qed simp

lemma free_mark_used:
  assumes "pmm_wf p" and "unat len \<le> 2 ^ 30" and "frame_free (mark_used 0 len p) n"
  shows "frame_free p n \<and> unat len \<le> 4096 * n"
proof (cases "len = 0")
  case True
  with assms show ?thesis by (simp add: mark_used_def max_managed word_less_nat_alt)
next
  case False
  define hi :: u32 where "hi = ucast (drop_bit 12 (len + ucast PAGE_SIZE - 1))"
  have "mark_used 0 len p = fold take_frame (frame_range 0 hi (total_frames p)) p"
    using False assms(2) max_managed
    by (simp add: mark_used_def Let_def hi_def word_less_nat_alt)
  with assms have free: "frame_free p n" "of_nat n \<notin> set (frame_range 0 hi (total_frames p))"
    using free_fold_take [OF assms(1) frame_range_sub] by auto
  have "unat (len + ucast PAGE_SIZE - 1) = unat len + 4095"
    using assms(2) by (simp add: PAGE_SIZE_def unat_plus_simple)
  then have hi: "unat hi = (unat len + 4095) div 4096"
    using assms(2) by (simp add: hi_def unat_ucast_small u_simps)
  have "unat hi \<le> n"
    using free by (auto simp: frame_range_mem frame_free_def of_nat_frame)
  then have "unat len \<le> 4096 * n" by (simp add: hi)
  with free show ?thesis by simp
qed

lemma all_reserved_wf:
  fixes t :: u64 and a :: u32
  assumes "unat frames \<le> 2 ^ 18" and "words = (frames + 31) div 32"
  defines "p \<equiv> \<lparr>bitmap = replicate (unat words) 0xFFFFFFFF, bitmap_words = words,
    total_frames = frames, used_frames = frames, total_bytes = t, bitmap_addr = a\<rparr>"
  shows "pmm_wf p \<and> (\<forall>n. \<not> frame_free p n) \<and> unat words = (unat frames + 31) div 32"
proof -
  have words: "unat words = (unat frames + 31) div 32"
    using assms(1,2) by (simp add: unat_div unat_plus_simple)
  have test: "bit_test (of_nat n) (bitmap p)" if "n < unat frames" for n
  proof -
    have "bitmap p ! (n div 32) = 0xFFFFFFFF"
      using that words by (simp add: p_def)
    then show ?thesis
      unfolding bit_test_iff of_nat_frame [OF that] by (simp only: bit_all_ones)
  qed
  then have "filter (\<lambda>n. bit_test (of_nat n) (bitmap p)) [0..<unat frames] = [0..<unat frames]"
    by simp
  then have "pmm_wf p"
    using words assms(1) by (simp add: pmm_wf_def p_def) linarith
  then show ?thesis
    using test words by (auto simp: frame_free_def p_def)
qed

text \<open>
  C3: whatever memory map the firmware reports, after \<^verbatim>\<open>pmm_init\<close> the allocator is
  well-formed and every frame it can hand out lies completely inside an entry the map calls usable,
  below 1 GiB, and above the kernel image and the bitmap.
\<close>

theorem pmm_init_safe:
  assumes "pmm_init kernel_end es = Some p" and "unat kernel_end \<le> 2 ^ 30"
  shows "pmm_wf p \<and>
    (\<forall>n. frame_free p n \<longrightarrow> usable_frame es n \<and> unat kernel_end \<le> 4096 * n \<and>
       unat (bitmap_addr p) + 4 * length (bitmap p) \<le> 4096 * n)"
proof -
  obtain tot highest where ph: "fold pass1 es (0, 0) = (tot, highest)" by fastforce
  define frames :: u32 where "frames = ucast (drop_bit 12 highest)"
  define words where "words = (frames + 31) div 32"
  define addr where "addr = ALIGN_UP kernel_end 16"
  define p0 where "p0 = \<lparr>bitmap = replicate (unat words) 0xFFFFFFFF, bitmap_words = words,
    total_frames = frames, used_frames = frames, total_bytes = tot, bitmap_addr = addr\<rparr>"
  define r where "r = addr + words * 4"
  have p: "p = mark_used 0 (ucast (ALIGN_UP r PAGE_SIZE)) (fold pass2 es p0)"
    and rmax: "\<not> MAX_MANAGED_PHYS \<le> ucast r"
    using assms(1) ph by (auto simp: pmm_init_def Let_def frames_def words_def addr_def p0_def r_def
        split: if_splits)
  have "unat highest \<le> 2 ^ 30"
    using pass1_highest [of "(0, 0)" es] ph by simp
  then have "unat frames \<le> 2 ^ 18"
    by (simp add: frames_def unat_ucast_small u_simps)
  then have p0: "pmm_wf p0" "\<And>n. \<not> frame_free p0 n" and words: "unat words \<le> 2 ^ 13"
    using all_reserved_wf [of frames words tot addr] by (auto simp: words_def p0_def)
  note p1 = fold_pass2 [OF p0(1), of es]
  have addr: "unat kernel_end \<le> unat addr" "unat addr \<le> 2 ^ 30 + 15"
    using align_up_pow2 [of 4 kernel_end] assms(2) by (auto simp: addr_def)
  have r: "unat r = unat addr + 4 * unat words"
    using addr words by (simp add: r_def unat_word_ariths)
  have "unat r < 2 ^ 30"
    using rmax max_managed by (simp add: word_le_nat_alt unat_ucast_u32_u64)
  then have up: "unat r \<le> unat (ALIGN_UP r PAGE_SIZE)" "unat (ALIGN_UP r PAGE_SIZE) \<le> 2 ^ 30"
    by (simp_all add: align_up_page)
  have free: "usable_frame es n \<and> unat (ALIGN_UP r PAGE_SIZE) \<le> 4096 * n" if "frame_free p n" for n
    using that free_mark_used [of "fold pass2 es p0" "ucast (ALIGN_UP r PAGE_SIZE)" n] p1 p0(2) up
    by (auto simp: p unat_ucast_u32_u64)
  have "bitmap_addr p = addr" "length (bitmap p) = unat words"
    using p1 by (simp_all add: p p0_def)
  moreover have "pmm_wf p"
    using p1 by (simp add: p wf_mark_used)
  ultimately show ?thesis
    using free up addr r by fastforce
qed

definition sample_e820 :: "e820_entry list" where
  "sample_e820 =
     [\<lparr>e_base = 0, e_length = 0x9000, e_type = 1, e_acpi_flags = 0\<rparr>,
      \<lparr>e_base = 0x9000, e_length = 0x1000, e_type = 2, e_acpi_flags = 0\<rparr>]"

theorem pmm_init_safe_witness:
  "\<exists>p. pmm_init 0x5000 sample_e820 = Some p \<and> unat (0x5000 :: u32) \<le> 2 ^ 30 \<and> pmm_wf p \<and>
     frame_free p 7 \<and> usable_frame sample_e820 7"
proof -
  have "\<exists>p. pmm_init 0x5000 sample_e820 = Some p \<and> frame_free p 7"
    by (simp add: pmm_init_def sample_e820_def pass1_def pass2_def Let_def E820_USABLE_def
        MAX_MANAGED_PHYS_def USER_MIN_def ALIGN_UP_def PAGE_SIZE_def mark_free_def mark_used_def
        frame_range_def give_frame_def take_frame_def bit_clear_def bit_set_def bit_test_iff upt_rec
        word_less_nat_alt word_le_nat_alt frame_free_def)
  then obtain p where p: "pmm_init 0x5000 sample_e820 = Some p" "frame_free p 7" by blast
  with pmm_init_safe [OF p(1)] show ?thesis by auto
qed

section \<open>The allocator as its clients see it\<close>

text \<open>
  The virtual memory code relies on the allocator through frame addresses: \<open>avail\<close> is the
  set of frames that can still be handed out, \<open>managed\<close> the set of all frames.  Address 0
  means failure, so an allocator is ready for use only while frame 0 is reserved.
\<close>

locale frame_allocator =
  fixes ready :: "'p \<Rightarrow> bool"
    and avl :: "'p \<Rightarrow> u32 set"
    and all_frames :: "'p \<Rightarrow> u32 set"
    and alloc :: "'p \<Rightarrow> u32 \<times> 'p"
    and release :: "u32 \<Rightarrow> 'p \<Rightarrow> 'p"
  assumes alloc_some: "ready p \<Longrightarrow> alloc p = (a, p') \<Longrightarrow> a \<noteq> 0 \<Longrightarrow>
      ready p' \<and> a \<in> avl p \<and> avl p' = avl p - {a} \<and> all_frames p' = all_frames p"
    and alloc_none: "ready p \<Longrightarrow> alloc p = (0, p') \<Longrightarrow> p' = p \<and> avl p = {}"
    and release_frame: "ready p \<Longrightarrow> a \<noteq> 0 \<Longrightarrow>
      ready (release a p) \<and> avl (release a p) = avl p \<union> ({a} \<inter> all_frames p) \<and>
      all_frames (release a p) = all_frames p"
    and avl_sub: "avl p \<subseteq> all_frames p"
    and frames_aligned: "a \<in> all_frames p \<Longrightarrow> 4096 dvd unat a"
    and avl_nonzero: "ready p \<Longrightarrow> 0 \<notin> avl p"
begin

text \<open>Frames handed out one after the other are distinct and come from the free set.\<close>

primrec take_many :: "nat \<Rightarrow> 'p \<Rightarrow> u32 list \<times> 'p" where
  "take_many 0 p = ([], p)"
| "take_many (Suc n) p =
     (case alloc p of (a, p') \<Rightarrow>
        if a = 0 then ([], p') else case take_many n p' of (as, p'') \<Rightarrow> (a # as, p''))"

lemma take_many_fresh:
  assumes "ready p" and "take_many n p = (as, p')"
  shows "ready p' \<and> distinct as \<and> set as \<subseteq> avl p \<and> avl p' = avl p - set as"
  using assms
proof (induction n arbitrary: p as p')
  case (Suc n)
  obtain a q where aq: "alloc p = (a, q)" by fastforce
  show ?case
  proof (cases "a = 0")
    case True
    with Suc.prems aq alloc_none [of p q] show ?thesis by auto
  next
    case False
    obtain bs q' where b: "take_many n q = (bs, q')" by fastforce
    have s: "ready q" "a \<in> avl p" "avl q = avl p - {a}"
      using alloc_some [OF Suc.prems(1) aq False] by blast+
    from Suc.IH [OF s(1) b] Suc.prems(2) aq b False s show ?thesis by auto
  qed
qed simp

end

definition avail :: "pmm \<Rightarrow> u32 set" where
  "avail p = {a. 4096 dvd unat a \<and> frame_free p (unat a div 4096)}"

definition managed :: "pmm \<Rightarrow> u32 set" where
  "managed p = {a. 4096 dvd unat a \<and> unat a div 4096 < unat (total_frames p)}"

definition pmm_ready :: "pmm \<Rightarrow> bool" where
  "pmm_ready p \<longleftrightarrow> pmm_wf p \<and> \<not> frame_free p 0"

lemma frame_of_addr: "4096 dvd unat a \<Longrightarrow> unat a div 4096 = n \<longleftrightarrow> unat a = 4096 * n"
  by (auto simp: dvd_def)

lemma release_effect:
  assumes "pmm_wf p"
  shows "pmm_wf (pmm_free_frame a p) \<and> total_frames (pmm_free_frame a p) = total_frames p \<and>
    (\<forall>m. frame_free (pmm_free_frame a p) m \<longleftrightarrow>
       frame_free p m \<or> (unat a = 4096 * m \<and> m < unat (total_frames p)))"
proof (cases "4096 dvd unat a \<and> unat a div 4096 < unat (total_frames p)")
  case False
  then have "pmm_free_frame a p = p"
    by (auto simp: pmm_free_frame_def page_aligned_iff Let_def word_le_nat_alt u_simps)
  with assms False show ?thesis by auto
next
  case True
  define n where "n = unat a div 4096"
  have n: "n < unat (total_frames p)" "unat a = 4096 * n"
    using True by (simp_all add: n_def)
  have "drop_bit 12 a = of_nat n"
    using n by (simp add: word_unat_eq_iff u_simps of_nat_frame [of n "total_frames p"])
  then have "pmm_free_frame a p = give_frame (of_nat n) p"
    using True n by (simp add: pmm_free_frame_def page_aligned_iff Let_def word_le_nat_alt
        of_nat_frame [of n "total_frames p"])
  with assms n True show ?thesis
    by (auto simp: wf_give_frame free_give_frame)
qed

interpretation fa: frame_allocator pmm_ready avail managed pmm_alloc_frame pmm_free_frame
proof
  show "pmm_ready p' \<and> a \<in> avail p \<and> avail p' = avail p - {a} \<and> managed p' = managed p"
    if r: "pmm_ready p" and eq: "pmm_alloc_frame p = (a, p')" and nz: "a \<noteq> 0" for p a p'
  proof -
    from r have wf: "pmm_wf p" by (simp add: pmm_ready_def)
    then show ?thesis
    proof (cases rule: alloc_frame_cases)
      case none
      with eq nz show ?thesis by simp
    next
      case (some n)
      note b = free_bound [OF wf some(1)]
      have a: "unat a = 4096 * n" and p': "p' = take_frame (of_nat n) p"
        using some(3) eq b by (auto simp: frame_addr)
      have here: "x = a \<longleftrightarrow> 4096 dvd unat x \<and> unat x div 4096 = n" for x
        using a by (auto simp: word_unat_eq_iff)
      have "avail p' = avail p - {a}"
        unfolding avail_def p' using here by (auto simp: free_take_frame [OF wf conjunct1 [OF b]])
      moreover have "a \<in> avail p"
        using a some(1) by (simp add: avail_def)
      moreover have "pmm_ready p'"
        using r b by (simp add: pmm_ready_def p' wf_take_frame free_take_frame)
      ultimately show ?thesis by (simp add: managed_def p')
    qed
  qed
  show "p' = p \<and> avail p = {}" if r: "pmm_ready p" and eq: "pmm_alloc_frame p = (0, p')" for p p'
  proof -
    from r have wf: "pmm_wf p" by (simp add: pmm_ready_def)
    then show ?thesis
    proof (cases rule: alloc_frame_cases)
      case none
      with eq show ?thesis by (auto simp: avail_def)
    next
      case (some n)
      note b = free_bound [OF wf some(1)]
      have "unat (push_bit 12 (of_nat n :: u32)) = 0" using some(3) eq by simp
      then have "n = 0" using b by (simp add: frame_addr del: unat_0_iff unat_eq_zero)
      with some(1) r show ?thesis by (simp add: pmm_ready_def)
    qed
  qed
  show "pmm_ready (pmm_free_frame a p) \<and> avail (pmm_free_frame a p) = avail p \<union> ({a} \<inter> managed p) \<and>
      managed (pmm_free_frame a p) = managed p"
    if r: "pmm_ready p" and nz: "a \<noteq> 0" for p a
  proof -
    have e: "pmm_wf (pmm_free_frame a p)" "total_frames (pmm_free_frame a p) = total_frames p"
      "\<And>m. frame_free (pmm_free_frame a p) m \<longleftrightarrow>
         frame_free p m \<or> (unat a = 4096 * m \<and> m < unat (total_frames p))"
      using r release_effect [of p a] by (auto simp: pmm_ready_def)
    have here: "4096 dvd unat x \<and> unat a = 4096 * (unat x div 4096) \<longleftrightarrow> 4096 dvd unat x \<and> x = a" for x
      by (auto simp: word_unat_eq_iff)
    have "avail (pmm_free_frame a p) = avail p \<union> ({a} \<inter> managed p)"
      unfolding avail_def managed_def e(3) using here by auto
    moreover have "\<not> frame_free (pmm_free_frame a p) 0"
      using r nz by (auto simp: e(3) pmm_ready_def unat_eq_0)
    ultimately show ?thesis
      using e by (simp add: pmm_ready_def managed_def)
  qed
qed (auto simp: avail_def managed_def frame_free_def pmm_ready_def)

end
