(* ===== verification/Paging.thy ===== *)
theory Paging
  imports Pmm PhysMem
begin

text \<open>
  \<^verbatim>\<open>kernel/mm/paging.c\<close>: page directories and page tables in physical memory, address spaces, and the
  checks at the system call boundary.  Tables are words of \<open>memory\<close>; the frame allocator is the
  model of \<^verbatim>\<open>pmm.c\<close>.  A pointer to a \<^verbatim>\<open>struct addr_space\<close> is a \<open>space_ref\<close>: the kernel
  space or the space embedded in a slot of the process table; a null \<open>pd\<close> is the address 0.
  Pointers passed by the callers are never null, so the \<^verbatim>\<open>!space\<close> tests have no counterpart.
  The TLB is not part of the model (\<^verbatim>\<open>invlpg\<close> has no effect on it).  A \<^verbatim>\<open>panic\<close> of the
  initialisation is \<open>None\<close>.
\<close>

section \<open>State\<close>

record addr_space =
  pd :: u32
  pd_phys :: u32

datatype space_ref = Kernel_space | Proc_space nat

record vm =
  phys :: pmm
  mem :: memory
  spaces :: "space_ref \<Rightarrow> addr_space"
  current_space :: "space_ref option"
  mapped_pages :: u32
  cr3 :: u32
  paging_on :: bool

definition PTE_PRESENT :: u32 where "PTE_PRESENT = 1"
definition PTE_WRITE :: u32 where "PTE_WRITE = 2"
definition PTE_USER :: u32 where "PTE_USER = 4"

definition KERNEL_HEAP_BASE :: u32 where "KERNEL_HEAP_BASE = 0xD0000000"
definition KERNEL_HEAP_MAX :: u32 where "KERNEL_HEAP_MAX = 0xD4000000"
definition KERNEL_FB_BASE :: u32 where "KERNEL_FB_BASE = 0xE0000000"

definition PDE_SPAN :: u32 where "PDE_SPAN = 0x400000"
definition KERNEL_PDE_LOW_END :: u32 where "KERNEL_PDE_LOW_END = USER_MIN div PDE_SPAN"
definition USER_PDE_START :: u32 where "USER_PDE_START = USER_MIN div PDE_SPAN"
definition USER_PDE_END :: u32 where "USER_PDE_END = USER_MAX div PDE_SPAN"

definition is_kernel_pde :: "u32 \<Rightarrow> bool" where
  "is_kernel_pde index \<longleftrightarrow> index < KERNEL_PDE_LOW_END \<or> USER_PDE_END \<le> index"

definition user_page :: "virt_addr \<Rightarrow> bool" where
  "user_page virt \<longleftrightarrow> USER_MIN \<le> virt \<and> virt < USER_MAX"

section \<open>Mapping single pages\<close>

text \<open>The address part of a directory or table entry, and its flags.\<close>

definition tbl :: "u32 \<Rightarrow> u32" where
  "tbl e = e AND NOT 0xFFF"

definition present :: "u32 \<Rightarrow> bool" where
  "present e \<longleftrightarrow> e AND PTE_PRESENT \<noteq> 0"

definition dir_index :: "virt_addr \<Rightarrow> u32" where
  "dir_index virt = drop_bit 22 virt"

definition table_index :: "virt_addr \<Rightarrow> u32" where
  "table_index virt = drop_bit 12 virt AND 0x3FF"

definition table_for :: "space_ref \<Rightarrow> virt_addr \<Rightarrow> bool \<Rightarrow> u32 \<Rightarrow> vm \<Rightarrow> u32 \<times> vm" where
  "table_for sp virt create extra_flags v =
     (let d = pd (spaces v sp)
      in if d = 0 then (0, v)
         else
           let ea = entry_addr d (dir_index virt);
               e = rd32 (mem v) ea
           in if \<not> present e then
                if \<not> create then (0, v)
                else case pmm_alloc_frame (phys v) of (frame, p) \<Rightarrow>
                       if frame = 0 then (0, v\<lparr>phys := p\<rparr>)
                       else (frame,
                         v\<lparr>phys := p,
                           mem := wr32 ea (frame OR PTE_PRESENT OR PTE_WRITE OR extra_flags)
                                    (zero_page frame (mem v))\<rparr>)
              else (tbl e,
                    if extra_flags AND PTE_USER \<noteq> 0 then v\<lparr>mem := wr32 ea (e OR PTE_USER) (mem v)\<rparr> else v))"

definition vmm_map_in :: "space_ref \<Rightarrow> virt_addr \<Rightarrow> phys_addr \<Rightarrow> u32 \<Rightarrow> vm \<Rightarrow> int \<times> vm" where
  "vmm_map_in sp virt pa flags v =
     (if pd (spaces v sp) = 0 then (-1, v)
      else if virt AND (PAGE_SIZE - 1) \<noteq> 0 \<or> pa AND (PAGE_SIZE - 1) \<noteq> 0 then (-1, v)
      else if flags AND PTE_USER \<noteq> 0 \<and> \<not> user_page virt then (-1, v)
      else case table_for sp virt True (flags AND PTE_USER) v of (table, v1) \<Rightarrow>
             if table = 0 then (-1, v1)
             else
               let ea = entry_addr table (table_index virt);
                   v2 = (if \<not> present (rd32 (mem v1) ea) then v1\<lparr>mapped_pages := mapped_pages v1 + 1\<rparr> else v1)
               in (0, v2\<lparr>mem := wr32 ea (pa OR (flags AND 0xFFF) OR PTE_PRESENT) (mem v2)\<rparr>))"

definition vmm_unmap_in :: "space_ref \<Rightarrow> virt_addr \<Rightarrow> vm \<Rightarrow> vm" where
  "vmm_unmap_in sp virt0 v =
     (if pd (spaces v sp) = 0 then v
      else
        let virt = ALIGN_DOWN virt0 PAGE_SIZE;
            table = fst (table_for sp virt False 0 v);
            ea = entry_addr table (table_index virt)
        in if table = 0 \<or> \<not> present (rd32 (mem v) ea) then v
           else
             let v1 = v\<lparr>mem := wr32 ea 0 (mem v)\<rparr>
             in if mapped_pages v1 \<noteq> 0 then v1\<lparr>mapped_pages := mapped_pages v1 - 1\<rparr> else v1)"

definition vmm_translate_in :: "space_ref \<Rightarrow> virt_addr \<Rightarrow> vm \<Rightarrow> phys_addr" where
  "vmm_translate_in sp virt v =
     (if pd (spaces v sp) = 0 then 0
      else
        let table = fst (table_for sp virt False 0 v);
            e = rd32 (mem v) (entry_addr table (table_index virt))
        in if table = 0 \<or> \<not> present e then 0 else (e AND NOT 0xFFF) OR (virt AND 0xFFF))"

section \<open>Checking user ranges\<close>

text \<open>The loop of \<^verbatim>\<open>vmm_access_ok_in\<close> over the pages below \<open>en\<close>.\<close>

function access_pages :: "memory \<Rightarrow> u32 \<Rightarrow> bool \<Rightarrow> u64 \<Rightarrow> u32 \<Rightarrow> bool" where
  "access_pages m d wr en page =
     (if \<not> ucast page < en then True
      else
        let pde = rd32 m (entry_addr d (dir_index page))
        in if pde AND (PTE_PRESENT OR PTE_USER) \<noteq> PTE_PRESENT OR PTE_USER then False
           else
             let pte = rd32 m (entry_addr (tbl pde) (table_index page))
             in if pte AND (PTE_PRESENT OR PTE_USER) \<noteq> PTE_PRESENT OR PTE_USER then False
                else if wr \<and> pte AND PTE_WRITE = 0 then False
                else if 0xFFFFFFFF - PAGE_SIZE < page then False
                else access_pages m d wr en (page + PAGE_SIZE))"
  by pat_completeness auto
termination
proof (relation "measure (\<lambda>(m, d, wr, en, page). 2 ^ 32 - unat page)", goal_cases)
  case (2 m d wr en page)
  then have "unat page + 4096 < 2 ^ 32"
    by (simp add: PAGE_SIZE_def word_less_nat_alt)
  then have "unat (page + PAGE_SIZE) = unat page + 4096"
    by (simp add: PAGE_SIZE_def unat_plus_simple)
  then show ?case using unat_lt2p [of "page + PAGE_SIZE"] by simp
qed simp

declare access_pages.simps [simp del]

definition vmm_access_ok_in :: "space_ref \<Rightarrow> virt_addr \<Rightarrow> u32 \<Rightarrow> bool \<Rightarrow> vm \<Rightarrow> bool" where
  "vmm_access_ok_in sp start sz wr v =
     (let d = pd (spaces v sp)
      in if d = 0 then False
         else if sz = 0 then True
         else if start < USER_MIN \<or> USER_MAX \<le> start then False
         else
           let en = ucast start + ucast sz :: u64
           in if ucast USER_MAX < en \<or> en \<le> ucast start then False
              else access_pages (mem v) d wr en (ALIGN_DOWN start PAGE_SIZE))"

section \<open>Ranges\<close>

text \<open>\<^verbatim>\<open>for (page = first; page < last; page += PAGE_SIZE)\<close> for page aligned bounds.\<close>

definition page_list :: "u32 \<Rightarrow> u32 \<Rightarrow> u32 list" where
  "page_list lo hi = map (\<lambda>k. lo + of_nat k * PAGE_SIZE) [0..<unat (hi - lo) div 4096]"

definition free_page :: "space_ref \<Rightarrow> u32 \<Rightarrow> vm \<Rightarrow> vm" where
  "free_page sp page v =
     (let pa = vmm_translate_in sp page v
      in if pa \<noteq> 0 then
           let v1 = vmm_unmap_in sp page v in v1\<lparr>phys := pmm_free_frame (pa AND NOT 0xFFF) (phys v1)\<rparr>
         else v)"

definition vmm_free_range :: "space_ref \<Rightarrow> virt_addr \<Rightarrow> u32 \<Rightarrow> vm \<Rightarrow> vm" where
  "vmm_free_range sp start sz v =
     (if pd (spaces v sp) = 0 \<or> sz = 0 then v
      else
        let end64 = ucast start + ucast sz :: u64
        in if 0xFFFFFFFF < end64 \<or> end64 \<le> ucast start then v
           else
             let lo = ALIGN_DOWN start PAGE_SIZE; hi = ALIGN_UP (ucast end64) PAGE_SIZE
             in if hi < lo then v else fold (free_page sp) (page_list lo hi) v)"

text \<open>
  The allocation loop.  \<open>rb\<close> is \<open>Some rollback_first\<close> once
  \<^verbatim>\<open>allocated_any\<close> is set.
\<close>

definition roll_back :: "space_ref \<Rightarrow> u32 option \<Rightarrow> u32 \<Rightarrow> vm \<Rightarrow> vm" where
  "roll_back sp rb page v = (case rb of Some lo \<Rightarrow> vmm_free_range sp lo (page - lo) v | None \<Rightarrow> v)"

fun alloc_pages :: "space_ref \<Rightarrow> u32 \<Rightarrow> u32 list \<Rightarrow> u32 option \<Rightarrow> vm \<Rightarrow> int \<times> vm" where
  "alloc_pages sp flags [] rb v = (0, v)"
| "alloc_pages sp flags (page # pages) rb v =
     (if vmm_translate_in sp page v \<noteq> 0 then
        if rb \<noteq> None then (-1, roll_back sp rb page v) else alloc_pages sp flags pages rb v
      else case pmm_alloc_frame (phys v) of (frame, p) \<Rightarrow>
        if frame = 0 then (-1, roll_back sp rb page (v\<lparr>phys := p\<rparr>))
        else case vmm_map_in sp page frame flags (v\<lparr>phys := p, mem := zero_page frame (mem v)\<rparr>) of (r, v1) \<Rightarrow>
          if r < 0 then (-1, roll_back sp rb page (v1\<lparr>phys := pmm_free_frame frame (phys v1)\<rparr>))
          else alloc_pages sp flags pages (if rb = None then Some page else rb) v1)"

definition vmm_alloc_range :: "space_ref \<Rightarrow> virt_addr \<Rightarrow> u32 \<Rightarrow> u32 \<Rightarrow> vm \<Rightarrow> int \<times> vm" where
  "vmm_alloc_range sp start sz flags v =
     (if pd (spaces v sp) = 0 then (-1, v)
      else if sz = 0 then (0, v)
      else
        let end64 = ucast start + ucast sz :: u64
        in if 0xFFFFFFFF < end64 \<or> end64 \<le> ucast start then (-1, v)
           else if flags AND PTE_USER \<noteq> 0 \<and> (start < USER_MIN \<or> ucast USER_MAX < end64) then (-1, v)
           else
             let lo = ALIGN_DOWN start PAGE_SIZE; hi = ALIGN_UP (ucast end64) PAGE_SIZE
             in if hi < lo then (-1, v) else alloc_pages sp flags (page_list lo hi) None v)"

section \<open>Address spaces\<close>

definition set_space :: "space_ref \<Rightarrow> u32 \<Rightarrow> vm \<Rightarrow> vm" where
  "set_space sp frame v = v\<lparr>spaces := (spaces v)(sp := \<lparr>pd = frame, pd_phys = frame\<rparr>)\<rparr>"

definition share_entry :: "space_ref \<Rightarrow> u32 \<Rightarrow> vm \<Rightarrow> vm" where
  "share_entry sp i v =
     (if is_kernel_pde i
      then v\<lparr>mem := wr32 (entry_addr (pd (spaces v sp)) i)
                         (rd32 (mem v) (entry_addr (pd (spaces v Kernel_space)) i)) (mem v)\<rparr>
      else v)"

definition vmm_space_create :: "space_ref \<Rightarrow> vm \<Rightarrow> int \<times> vm" where
  "vmm_space_create sp v =
     (case pmm_alloc_frame (phys v) of (frame, p) \<Rightarrow>
        if frame = 0 then (-1, v\<lparr>phys := p\<rparr>)
        else (0, fold (share_entry sp) (map of_nat [0..<1024])
                   (set_space sp frame (v\<lparr>phys := p, mem := zero_page frame (mem v)\<rparr>))))"

definition release_pte :: "u32 \<Rightarrow> u32 \<Rightarrow> vm \<Rightarrow> vm" where
  "release_pte table j v =
     (let e = rd32 (mem v) (entry_addr table j)
      in if present e then
           let v1 = v\<lparr>phys := pmm_free_frame (tbl e) (phys v)\<rparr>
           in if mapped_pages v1 \<noteq> 0 then v1\<lparr>mapped_pages := mapped_pages v1 - 1\<rparr> else v1
         else v)"

definition release_pde :: "space_ref \<Rightarrow> u32 \<Rightarrow> vm \<Rightarrow> vm" where
  "release_pde sp i v =
     (let ea = entry_addr (pd (spaces v sp)) i; e = rd32 (mem v) ea
      in if present e then
           let v1 = fold (release_pte (tbl e)) (map of_nat [0..<1024]) v
           in v1\<lparr>phys := pmm_free_frame (tbl e) (phys v1), mem := wr32 ea 0 (mem v1)\<rparr>
         else v)"

definition vmm_space_destroy :: "space_ref \<Rightarrow> vm \<Rightarrow> vm" where
  "vmm_space_destroy sp v =
     (if pd (spaces v sp) = 0 \<or> sp = Kernel_space then v
      else
        let v1 = fold (release_pde sp) (map of_nat [unat USER_PDE_START..<unat USER_PDE_END]) v;
            v2 = v1\<lparr>phys := pmm_free_frame (pd_phys (spaces v1 sp)) (phys v1)\<rparr>
        in set_space sp 0 v2)"

definition vmm_space_switch :: "space_ref \<Rightarrow> vm \<Rightarrow> vm" where
  "vmm_space_switch sp v =
     (if pd (spaces v sp) = 0 \<or> current_space v = Some sp then v
      else v\<lparr>current_space := Some sp, cr3 := pd_phys (spaces v sp)\<rparr>)"

section \<open>Kernel space\<close>

definition vmm_map :: "virt_addr \<Rightarrow> phys_addr \<Rightarrow> u32 \<Rightarrow> vm \<Rightarrow> int \<times> vm" where
  "vmm_map virt pa flags v = vmm_map_in Kernel_space virt pa (flags AND NOT PTE_USER) v"

definition vmm_unmap :: "virt_addr \<Rightarrow> vm \<Rightarrow> vm" where
  "vmm_unmap virt v = vmm_unmap_in Kernel_space virt v"

definition vmm_translate :: "virt_addr \<Rightarrow> vm \<Rightarrow> phys_addr" where
  "vmm_translate virt v =
     vmm_translate_in (case current_space v of Some sp \<Rightarrow> sp | None \<Rightarrow> Kernel_space) virt v"

definition vmm_is_mapped :: "virt_addr \<Rightarrow> vm \<Rightarrow> bool" where
  "vmm_is_mapped virt v \<longleftrightarrow> vmm_translate virt v \<noteq> 0"

definition vmm_mapped_pages :: "vm \<Rightarrow> u32" where
  "vmm_mapped_pages v = mapped_pages v"

text \<open>Loops that panic when an allocation fails.\<close>

fun reserve_loop :: "u32 list \<Rightarrow> vm \<Rightarrow> vm option" where
  "reserve_loop [] v = Some v"
| "reserve_loop (addr # addrs) v =
     (case table_for Kernel_space addr True 0 v of (table, v1) \<Rightarrow>
        if table = 0 then None else reserve_loop addrs v1)"

definition reserve_tables :: "virt_addr \<Rightarrow> virt_addr \<Rightarrow> vm \<Rightarrow> vm option" where
  "reserve_tables start en v =
     reserve_loop (map (\<lambda>k. start + of_nat k * PDE_SPAN) [0..<(unat (en - start) + 0x3FFFFF) div 0x400000]) v"

fun identity_loop :: "u32 list \<Rightarrow> vm \<Rightarrow> vm option" where
  "identity_loop [] v = Some v"
| "identity_loop (addr # addrs) v =
     (case vmm_map_in Kernel_space addr addr (PTE_PRESENT OR PTE_WRITE) v of (r, v1) \<Rightarrow>
        if r < 0 then None else identity_loop addrs v1)"

definition paging_init :: "vm \<Rightarrow> vm option" where
  "paging_init v =
     (case pmm_alloc_frame (phys v) of (frame, p) \<Rightarrow>
        if frame = 0 then None
        else
          let v1 = (set_space Kernel_space frame (v\<lparr>phys := p, mem := zero_page frame (mem v)\<rparr>))
                     \<lparr>current_space := Some Kernel_space\<rparr>;
              ram = ucast (pmm_total_frames p) * ucast PAGE_SIZE :: u64;
              ram_end = (if ucast USER_MIN < ram then ucast USER_MIN else ram)
          in case identity_loop (map (\<lambda>k. of_nat k * PAGE_SIZE) [0..<(unat ram_end + 4095) div 4096]) v1 of
               None \<Rightarrow> None
             | Some v2 \<Rightarrow>
                 (case reserve_tables KERNEL_HEAP_BASE KERNEL_HEAP_MAX v2 of
                    None \<Rightarrow> None
                  | Some v3 \<Rightarrow>
                      (case reserve_tables KERNEL_FB_BASE (KERNEL_FB_BASE + 0x4000000) v3 of
                         None \<Rightarrow> None
                       | Some v4 \<Rightarrow> Some (v4\<lparr>cr3 := pd_phys (spaces v4 Kernel_space), paging_on := True\<rparr>))))"

section \<open>The page table walk\<close>

definition pde :: "vm \<Rightarrow> space_ref \<Rightarrow> u32 \<Rightarrow> u32" where
  "pde v sp i = rd32 (mem v) (entry_addr (pd (spaces v sp)) i)"

definition live :: "vm \<Rightarrow> space_ref \<Rightarrow> bool" where
  "live v sp \<longleftrightarrow> pd (spaces v sp) \<noteq> 0"

text \<open>What the processor finds for a virtual address: the page table entry, when both levels are present.\<close>

definition walk :: "vm \<Rightarrow> space_ref \<Rightarrow> virt_addr \<Rightarrow> u32 option" where
  "walk v sp virt =
     (if live v sp \<and> present (pde v sp (dir_index virt)) then
        let e = rd32 (mem v) (entry_addr (tbl (pde v sp (dir_index virt))) (table_index virt))
        in if present e then Some e else None
      else None)"

definition in_use :: "vm \<Rightarrow> u32 \<Rightarrow> bool" where
  "in_use v a \<longleftrightarrow> a \<noteq> 0 \<and> a \<in> managed (phys v) \<and> a \<notin> avail (phys v)"

text \<open>
  The invariant: every directory and every table of a live address space is an allocated frame, no
  directory is shared or used as a table, and two directory entries name the same table only when
  they are the same entry, or the same kernel entry of two spaces.
\<close>

definition vm_ok :: "vm \<Rightarrow> bool" where
  "vm_ok v \<longleftrightarrow> pmm_ready (phys v) \<and>
     (\<forall>sp. live v sp \<longrightarrow> in_use v (pd (spaces v sp))) \<and>
     (\<forall>sp sp'. live v sp \<longrightarrow> pd (spaces v sp) = pd (spaces v sp') \<longrightarrow> sp = sp') \<and>
     (\<forall>sp i. live v sp \<longrightarrow> i < 1024 \<longrightarrow> present (pde v sp i) \<longrightarrow>
        in_use v (tbl (pde v sp i)) \<and> (\<forall>sp'. tbl (pde v sp i) \<noteq> pd (spaces v sp'))) \<and>
     (\<forall>sp sp' i j. live v sp \<longrightarrow> live v sp' \<longrightarrow> i < 1024 \<longrightarrow> j < 1024 \<longrightarrow>
        present (pde v sp i) \<longrightarrow> present (pde v sp' j) \<longrightarrow> tbl (pde v sp i) = tbl (pde v sp' j) \<longrightarrow>
        i = j \<and> (sp = sp' \<or> is_kernel_pde i))"

lemma vm_okD:
  assumes "vm_ok v"
  shows "pmm_ready (phys v)"
    and "live v sp \<Longrightarrow> in_use v (pd (spaces v sp))"
    and "live v sp \<Longrightarrow> pd (spaces v sp) = pd (spaces v sp') \<Longrightarrow> sp = sp'"
    and "live v sp \<Longrightarrow> i < 1024 \<Longrightarrow> present (pde v sp i) \<Longrightarrow> in_use v (tbl (pde v sp i))"
    and "live v sp \<Longrightarrow> i < 1024 \<Longrightarrow> present (pde v sp i) \<Longrightarrow> tbl (pde v sp i) \<noteq> pd (spaces v sp')"
    and "live v sp \<Longrightarrow> live v sp' \<Longrightarrow> i < 1024 \<Longrightarrow> j < 1024 \<Longrightarrow> present (pde v sp i) \<Longrightarrow>
      present (pde v sp' j) \<Longrightarrow> tbl (pde v sp i) = tbl (pde v sp' j) \<Longrightarrow> i = j \<and> (sp = sp' \<or> is_kernel_pde i)"
  using assms unfolding vm_ok_def by blast+

definition table_frames :: "vm \<Rightarrow> u32 set" where
  "table_frames v = {a. \<exists>sp. live v sp \<and> (a = pd (spaces v sp) \<or>
     (\<exists>i<1024. present (pde v sp i) \<and> a = tbl (pde v sp i)))}"

lemma table_frames_in_use: "vm_ok v \<Longrightarrow> a \<in> table_frames v \<Longrightarrow> in_use v a"
  using vm_okD(2,4) [of v] by (auto simp: table_frames_def)

lemma table_framesI:
  "live v sp \<Longrightarrow> pd (spaces v sp) \<in> table_frames v"
  "live v sp \<Longrightarrow> i < 1024 \<Longrightarrow> present (pde v sp i) \<Longrightarrow> tbl (pde v sp i) \<in> table_frames v"
  unfolding table_frames_def by blast+

lemma table_frames_cong:
  assumes "\<And>sp. live v' sp = live v sp" "spaces v' = spaces v"
    and "\<And>sp i. live v sp \<Longrightarrow> i < 1024 \<Longrightarrow>
      present (pde v' sp i) = present (pde v sp i) \<and> tbl (pde v' sp i) = tbl (pde v sp i)"
  shows "table_frames v' = table_frames v"
  unfolding table_frames_def assms(1,2) using assms(3)
  by (intro Collect_cong ex_cong1 conj_cong refl disj_cong) auto

lemma in_use_aligned: "in_use v a \<Longrightarrow> 4096 dvd unat a"
  by (simp add: in_use_def managed_def)

lemma dir_index_less [simp]: "dir_index virt < 1024"
  using unat_lt2p [of virt] by (simp add: dir_index_def word_less_nat_alt u_simps less_mult_imp_div_less)

lemma table_index_mod: "unat (table_index virt) = unat virt div 4096 mod 1024"
proof -
  have "(0x3FF :: u32) = mask 10" by (simp add: mask_eq_exp_minus_1)
  then show ?thesis by (simp only: table_index_def unat_and_mask unat_drop_bit) simp
qed

lemma table_index_less [simp]: "table_index virt < 1024"
  by (simp add: word_less_nat_alt table_index_mod)

lemma dir_index_div: "unat (dir_index virt) = unat virt div 4194304"
  by (simp add: dir_index_def u_simps)

lemma page_cell:
  "dir_index a = dir_index b \<and> table_index a = table_index b \<longleftrightarrow> unat a div 4096 = unat b div 4096"
proof -
  have d: "unat x div 4194304 = unat x div 4096 div 1024" for x :: u32
    by (simp add: div_mult2_eq [symmetric])
  show ?thesis
    by (simp add: word_unat_eq_iff dir_index_div table_index_mod d) (metis div_mult_mod_eq)
qed

lemma tbl_mask: "tbl e = e AND NOT (mask 12)"
  by (simp add: tbl_def mask_eq_exp_minus_1)

lemma tbl_aligned [simp]: "4096 dvd unat (tbl e)"
  by (simp add: tbl_mask unat_and_not_mask)

lemma tbl_or_flags:
  assumes "4096 dvd unat f" and "unat fl < 4096"
  shows "tbl (f OR fl) = f"
proof (rule bit_word_eqI)
  fix n
  assume n: "n < LENGTH(32)"
  have "\<not> bit fl n" if "12 \<le> n"
  proof -
    have "fl = take_bit 12 fl" using assms(2) by (simp add: word_unat_eq_iff unat_take_bit)
    then show ?thesis using that by (metis bit_take_bit_iff not_less)
  qed
  moreover have "\<not> bit f n" if "n < 12"
  proof -
    have "take_bit 12 f = 0" using assms(1) by (auto simp: word_unat_eq_iff unat_take_bit dvd_eq_mod_eq_0)
    then show ?thesis using that by (metis bit_0_eq bit_take_bit_iff bot_apply bot_bool_def)
  qed
  ultimately show "bit (tbl (f OR fl)) n = bit f n"
    using n by (auto simp: tbl_mask bit_simps)
qed

lemma present_bit: "present e \<longleftrightarrow> bit e 0"
  by (simp add: present_def PTE_PRESENT_def and_one_eq bit_0 odd_iff_mod_2_eq_one)

lemma present_or [simp]: "present (a OR b) \<longleftrightarrow> present a \<or> present b" "present PTE_PRESENT" "\<not> present 0"
  by (simp_all add: present_bit bit_or_iff PTE_PRESENT_def)

lemma tbl_or_user: "tbl (e OR PTE_USER) = tbl e"
  by (simp add: tbl_def PTE_USER_def bit.conj_disj_distrib2)

text \<open>Lookups and the invariant depend only on the allocated frames.\<close>

lemma vm_frame:
  assumes "vm_ok v" and "spaces v' = spaces v" and "pmm_ready (phys v')"
    and use: "\<And>a. in_use v a \<Longrightarrow> in_use v' a"
    and same: "\<And>a i. in_use v a \<Longrightarrow> i < 1024 \<Longrightarrow> rd32 (mem v') (entry_addr a i) = rd32 (mem v) (entry_addr a i)"
  shows "vm_ok v'" and "live v sp \<Longrightarrow> i < 1024 \<Longrightarrow> pde v' sp i = pde v sp i" and "walk v' = walk v"
proof -
  note ok = vm_okD [OF assms(1)]
  have live: "live v' = live v" using assms(2) by (simp add: live_def fun_eq_iff)
  show pde: "pde v' sp i = pde v sp i" if "live v sp" "i < 1024" for sp i
    using same [OF ok(2) [OF that(1)] that(2)] assms(2) by (simp add: pde_def)
  show "vm_ok v'"
    unfolding vm_ok_def live using ok pde use assms(2,3) by (auto simp: pde)
  show "walk v' = walk v"
  proof (intro ext)
    fix sp virt
    show "walk v' sp virt = walk v sp virt"
    proof (cases "live v sp \<and> present (pde v sp (dir_index virt))")
      case True
      then show ?thesis
        using same [OF ok(4) [of sp "dir_index virt"], of "table_index virt"]
        by (simp add: walk_def live pde)
    next
      case False
      then show ?thesis by (auto simp: walk_def live pde)
    qed
  qed
qed

text \<open>Installing an empty page table.\<close>

lemma install_table:
  assumes ok: "vm_ok v" and "live v sp" and "i < 1024" and "\<not> present (pde v sp i)"
    and "in_use v f" and "\<And>sp'. f \<noteq> pd (spaces v sp')"
    and fresh: "\<And>sp' j. live v sp' \<Longrightarrow> j < 1024 \<Longrightarrow> present (pde v sp' j) \<Longrightarrow> tbl (pde v sp' j) \<noteq> f"
    and empty: "\<And>j. j < 1024 \<Longrightarrow> rd32 (mem v) (entry_addr f j) = 0"
    and "present fl" "unat fl < 4096"
  defines "v' \<equiv> v\<lparr>mem := wr32 (entry_addr (pd (spaces v sp)) i) (f OR fl) (mem v)\<rparr>"
  shows "vm_ok v'" and "walk v' = walk v" and "pde v' sp i = f OR fl"
    and "table_frames v' \<subseteq> insert f (table_frames v)"
proof -
  note o = vm_okD [OF ok]
  let ?d = "pd (spaces v sp)"
  have al: "4096 dvd unat ?d" "4096 dvd unat f"
    using o(2) [OF assms(2)] assms(5) by (simp_all add: in_use_aligned)
  have same: "live v' = live v" "spaces v' = spaces v" "in_use v' = in_use v" "phys v' = phys v"
    by (simp_all add: v'_def live_def fun_eq_iff in_use_def)
  have pde: "pde v' sp' j = (if sp' = sp \<and> j = i then f OR fl else pde v sp' j)" if "live v sp'" "j < 1024" for sp' j
    using that o(2,3) al(1) assms(2,3) in_use_aligned [OF o(2) [OF that(1)]]
    by (auto simp: pde_def v'_def rd32_entry_wr32)
  show "pde v' sp i = f OR fl" using pde assms(2,3) by simp
  have t: "tbl (f OR fl) = f" using al(2) assms(10) by (rule tbl_or_flags)
  show "table_frames v' \<subseteq> insert f (table_frames v)"
    unfolding table_frames_def same using pde t by (auto split: if_splits) blast+
  show "vm_ok v'"
    unfolding vm_ok_def same
  proof (intro conjI allI impI)
    fix sp1 sp2 j k
    assume a: "live v sp1" "live v sp2" "j < 1024" "k < 1024" "present (pde v' sp1 j)" "present (pde v' sp2 k)"
      "tbl (pde v' sp1 j) = tbl (pde v' sp2 k)"
    then show "j = k" "sp1 = sp2 \<or> is_kernel_pde j"
      using o(6) [of sp1 sp2 j k] fresh [of sp1 j] fresh [of sp2 k]
      by (auto simp: pde t split: if_splits)
  next
    fix sp1 j
    assume a: "live v sp1" "j < 1024" "present (pde v' sp1 j)"
    then show "in_use v (tbl (pde v' sp1 j))"
      using o(4) [of sp1 j] assms(5) by (auto simp: pde t split: if_splits)
    fix sp2
    show "tbl (pde v' sp1 j) \<noteq> pd (spaces v sp2)"
      using a o(5) [of sp1 j sp2] assms(6) by (auto simp: pde t split: if_splits)
  qed (use o in auto)
  show "walk v' = walk v"
  proof (intro ext)
    fix sp1 virt
    have rd: "rd32 (mem v') (entry_addr t j) = rd32 (mem v) (entry_addr t j)"
      if "t \<noteq> ?d" "4096 dvd unat t" "j < 1024" for t j
      using that al(1) assms(3) by (auto simp: v'_def rd32_entry_wr32)
    show "walk v' sp1 virt = walk v sp1 virt"
    proof (cases "live v sp1")
      case False
      then show ?thesis by (simp add: walk_def same)
    next
      case True
      show ?thesis
      proof (cases "sp1 = sp \<and> dir_index virt = i")
        case True
        then show ?thesis
          using assms(2-4,6) al empty by (simp add: walk_def same pde t rd)
      next
        case False
        then show ?thesis
          using True o(5) [of sp1 "dir_index virt" sp] by (auto simp: walk_def same pde rd)
      qed
    qed
  qed
qed

lemma set_user_bit:
  assumes ok: "vm_ok v" and "live v sp" and "i < 1024" and "present (pde v sp i)"
  defines "v' \<equiv> v\<lparr>mem := wr32 (entry_addr (pd (spaces v sp)) i) (pde v sp i OR PTE_USER) (mem v)\<rparr>"
  shows "vm_ok v'" and "walk v' = walk v" and "pde v' sp i = pde v sp i OR PTE_USER"
    and "table_frames v' = table_frames v"
proof -
  note o = vm_okD [OF ok]
  let ?d = "pd (spaces v sp)"
  have al: "4096 dvd unat ?d"
    using o(2) [OF assms(2)] by (simp add: in_use_aligned)
  have same: "live v' = live v" "spaces v' = spaces v" "in_use v' = in_use v" "phys v' = phys v"
    by (simp_all add: v'_def live_def fun_eq_iff in_use_def)
  have pde: "pde v' sp' j = (if sp' = sp \<and> j = i then pde v sp i OR PTE_USER else pde v sp' j)"
    if "live v sp'" "j < 1024" for sp' j
    using that o(2,3) al(1) assms(2,3) in_use_aligned [OF o(2) [OF that(1)]]
    by (auto simp: pde_def v'_def rd32_entry_wr32)
  show "pde v' sp i = pde v sp i OR PTE_USER" using pde assms(2,3) by simp
  have like: "tbl (pde v' sp' j) = tbl (pde v sp' j)" "present (pde v' sp' j) = present (pde v sp' j)"
    if "live v sp'" "j < 1024" for sp' j
    using that assms(4) by (auto simp: pde tbl_or_user)
  show "table_frames v' = table_frames v"
    using like by (intro table_frames_cong) (auto simp: same)
  show "vm_ok v'"
    unfolding vm_ok_def same using o by (auto simp: like)
  have rd: "rd32 (mem v') (entry_addr t j) = rd32 (mem v) (entry_addr t j)"
    if "t \<noteq> ?d" "4096 dvd unat t" "j < 1024" for t j
    using that al(1) assms(3) by (auto simp: v'_def rd32_entry_wr32)
  show "walk v' = walk v"
    using o(5) by (auto simp: fun_eq_iff walk_def same like rd)
qed

text \<open>Writing a table entry changes the walk of exactly the addresses that use it.\<close>

lemma write_entry:
  fixes e :: u32
  assumes ok: "vm_ok v" and "live v sp" and "present (pde v sp (dir_index virt))"
  defines "t \<equiv> tbl (pde v sp (dir_index virt))"
  defines "v' \<equiv> v\<lparr>mem := wr32 (entry_addr t (table_index virt)) e (mem v)\<rparr>"
  shows "vm_ok v'" and "live v sp1 \<Longrightarrow> i < 1024 \<Longrightarrow> pde v' sp1 i = pde v sp1 i"
    and "walk v' sp1 virt1 =
      (if unat virt1 div 4096 = unat virt div 4096 \<and> live v sp1 \<and> present (pde v sp1 (dir_index virt)) \<and>
          tbl (pde v sp1 (dir_index virt)) = t
       then if present e then Some e else None else walk v sp1 virt1)"
    and "table_frames v' = table_frames v"
proof -
  note o = vm_okD [OF ok]
  have t: "in_use v t" "4096 dvd unat t"
    using o(4) [OF assms(2) dir_index_less assms(3)] by (simp_all add: t_def)
  have same: "live v' = live v" "spaces v' = spaces v" "in_use v' = in_use v" "phys v' = phys v"
    by (simp_all add: v'_def live_def fun_eq_iff in_use_def)
  show pde: "pde v' sp' j = pde v sp' j" if "live v sp'" "j < 1024" for sp' j
    using that o(5) [OF assms(2) dir_index_less assms(3), of sp'] in_use_aligned [OF o(2) [OF that(1)]]
    by (auto simp: pde_def v'_def rd32_entry_wr32 t_def)
  show "table_frames v' = table_frames v"
    using pde by (intro table_frames_cong) (auto simp: same)
  show "vm_ok v'"
    unfolding vm_ok_def same using o by (auto simp: pde)
  show "walk v' sp1 virt1 =
      (if unat virt1 div 4096 = unat virt div 4096 \<and> live v sp1 \<and> present (pde v sp1 (dir_index virt)) \<and>
          tbl (pde v sp1 (dir_index virt)) = t
       then if present e then Some e else None else walk v sp1 virt1)"
  proof (cases "live v sp1 \<and> present (pde v sp1 (dir_index virt1))")
    case False
    then show ?thesis
      using page_cell [of virt1 virt] by (auto simp: walk_def same pde)
  next
    case True
    have rd: "rd32 (mem v') (entry_addr (tbl (pde v sp1 (dir_index virt1))) (table_index virt1)) =
        (if t = tbl (pde v sp1 (dir_index virt1)) \<and> table_index virt = table_index virt1 then e
         else rd32 (mem v) (entry_addr (tbl (pde v sp1 (dir_index virt1))) (table_index virt1)))"
      by (simp add: v'_def rd32_entry_wr32 t(2))
    have "t = tbl (pde v sp1 (dir_index virt1)) \<Longrightarrow> dir_index virt = dir_index virt1"
      using o(6) [OF assms(2) _ dir_index_less dir_index_less assms(3), of sp1 virt1] True by (simp add: t_def)
    then show ?thesis
      using True page_cell [of virt1 virt] by (auto simp: walk_def same pde rd)
  qed
qed

text \<open>The walk of a user page after its entry is written: only that page of that space changes.\<close>

lemma user_dir_index: "user_page virt \<Longrightarrow> \<not> is_kernel_pde (dir_index virt)"
  by (auto simp: user_page_def is_kernel_pde_def USER_MIN_def USER_MAX_def USER_PDE_END_def
      KERNEL_PDE_LOW_END_def PDE_SPAN_def word_less_nat_alt word_le_nat_alt dir_index_div unat_div)

lemma write_user_entry:
  assumes "vm_ok v" and "live v sp" and "present (pde v sp (dir_index virt))" and "user_page virt"
  shows "walk (v\<lparr>mem := wr32 (entry_addr (tbl (pde v sp (dir_index virt))) (table_index virt)) e (mem v)\<rparr>) sp1 virt1 =
    (if sp1 = sp \<and> unat virt1 div 4096 = unat virt div 4096 then if present e then Some e else None
     else walk v sp1 virt1)"
  using assms vm_okD(6) [OF assms(1,2) _ dir_index_less dir_index_less assms(3), of sp1 virt]
    user_dir_index [OF assms(4)]
  by (auto simp: write_entry(3) [OF assms(1-3)])

lemma fresh_frame:
  assumes ok: "vm_ok v" and al: "pmm_alloc_frame (phys v) = (f, p)" and "f \<noteq> 0"
  defines "v' \<equiv> v\<lparr>phys := p, mem := zero_page f (mem v)\<rparr>"
  shows "vm_ok v'" and "walk v' = walk v" and "live v sp \<Longrightarrow> i < 1024 \<Longrightarrow> pde v' sp i = pde v sp i"
    and "in_use v' a \<longleftrightarrow> in_use v a \<or> a = f" and "\<not> in_use v f"
    and "f \<noteq> pd (spaces v sp)"
    and "live v sp \<Longrightarrow> i < 1024 \<Longrightarrow> present (pde v sp i) \<Longrightarrow> tbl (pde v sp i) \<noteq> f"
    and "j < 1024 \<Longrightarrow> rd32 (mem v') (entry_addr f j) = 0"
    and "table_frames v' = table_frames v" and "4096 dvd unat f"
proof -
  note o = vm_okD [OF ok]
  have a: "pmm_ready p" "f \<in> avail (phys v)" "avail p = avail (phys v) - {f}" "managed p = managed (phys v)"
    using fa.alloc_some [OF o(1) al assms(3)] by blast+
  have fm: "f \<in> managed (phys v)" "4096 dvd unat f"
    using a(2) fa.avl_sub fa.frames_aligned by blast+
  show use: "in_use v' a \<longleftrightarrow> in_use v a \<or> a = f" for a
    using a fm assms(3) by (auto simp: in_use_def v'_def)
  show nf: "\<not> in_use v f" using a(2) by (simp add: in_use_def)
  have rd: "rd32 (mem v') (entry_addr a i) = rd32 (mem v) (entry_addr a i)" if "in_use v a" "i < 1024" for a i
    using that nf in_use_aligned [OF that(1)] fm(2) by (auto simp: v'_def rd32_entry_zero)
  have sp: "spaces v' = spaces v" and r: "pmm_ready (phys v')" using a(1) by (simp_all add: v'_def)
  have use': "\<And>a. in_use v a \<Longrightarrow> in_use v' a" using use by simp
  show "vm_ok v'" "walk v' = walk v" "live v sp \<Longrightarrow> i < 1024 \<Longrightarrow> pde v' sp i = pde v sp i"
    using vm_frame [OF ok sp r use' rd] by blast+
  have "pde v' sp i = pde v sp i" if "live v sp" "i < 1024" for sp i
    using that vm_frame(2) [OF ok sp r use' rd] by blast
  then show "table_frames v' = table_frames v"
    by (intro table_frames_cong) (auto simp: v'_def live_def)
  show "4096 dvd unat f" by (rule fm(2))
  show "f \<noteq> pd (spaces v sp)"
    using o(2) [of sp] nf assms(3) by (auto simp: live_def)
  show "live v sp \<Longrightarrow> i < 1024 \<Longrightarrow> present (pde v sp i) \<Longrightarrow> tbl (pde v sp i) \<noteq> f"
    using o(4) [of sp i] nf by auto
  show "j < 1024 \<Longrightarrow> rd32 (mem v') (entry_addr f j) = 0"
    using fm(2) by (simp add: v'_def rd32_entry_zero)
qed

lemma no_frame: "vm_ok v \<Longrightarrow> pmm_alloc_frame (phys v) = (0, p) \<Longrightarrow> p = phys v"
  using fa.alloc_none vm_okD(1) by blast

lemma flags_small: "unat (PTE_PRESENT OR PTE_WRITE OR (fl AND PTE_USER)) < 4096"
proof -
  have "unat (fl AND PTE_USER) \<le> 4"
    using word_and_le1 [of fl PTE_USER] by (simp add: PTE_USER_def word_le_nat_alt)
  then have "unat (fl AND PTE_USER) \<in> {0, 1, 2, 3, 4}" by auto
  moreover have "fl AND PTE_USER = of_nat (unat (fl AND PTE_USER))" by simp
  ultimately obtain k where "fl AND PTE_USER = of_nat k" "k \<in> {0, 1, 2, 3, 4}" by blast
  then show ?thesis by (auto simp: PTE_PRESENT_def PTE_WRITE_def)
qed

lemma entry_write_bytes:
  assumes "4096 dvd unat t" and "i < 1024" and "drop_bit 12 x \<noteq> drop_bit 12 t"
  shows "wr32 (entry_addr t i) e m x = m x"
proof -
  have "x \<noteq> entry_addr t i + of_nat k" if "k < 4" for k
    using assms aligned4_page [OF entry_page(1) [OF assms(1,2)] that] entry_page(2) [OF assms(1,2)] by auto
  from this [of 0] this [of 1] this [of 2] this [of 3] show ?thesis
    by (simp add: wr32_def)
qed

text \<open>The bytes of an allocated frame that is not a directory or a table.\<close>

definition keeps_data :: "vm \<Rightarrow> vm \<Rightarrow> bool" where
  "keeps_data v v' \<longleftrightarrow> (\<forall>g x. in_use v g \<longrightarrow> g \<notin> table_frames v \<longrightarrow> drop_bit 12 x = drop_bit 12 g \<longrightarrow>
     mem v' x = mem v x)"

text \<open>The change is confined to the pages of directories and tables.\<close>

definition writes_tables :: "vm \<Rightarrow> vm \<Rightarrow> bool" where
  "writes_tables v v' \<longleftrightarrow> (\<forall>x. (\<forall>t \<in> table_frames v. drop_bit 12 x \<noteq> drop_bit 12 t) \<longrightarrow> mem v' x = mem v x)"

lemma writes_keeps:
  assumes "vm_ok v" and "writes_tables v v'"
  shows "keeps_data v v'"
  unfolding keeps_data_def
proof (intro allI impI)
  fix g x
  assume g: "in_use v g" "g \<notin> table_frames v" "drop_bit 12 x = drop_bit 12 g"
  have "drop_bit 12 x \<noteq> drop_bit 12 t" if "t \<in> table_frames v" for t
    using that g page_eq [OF in_use_aligned in_use_aligned] table_frames_in_use [OF assms(1) that] by metis
  with assms(2) show "mem v' x = mem v x" by (simp add: writes_tables_def)
qed

lemma writes_entry:
  assumes "vm_ok v" and "t \<in> table_frames v" and "i < 1024"
  shows "writes_tables v (v\<lparr>mem := wr32 (entry_addr t i) e (mem v)\<rparr>)"
  using entry_write_bytes [OF in_use_aligned [OF table_frames_in_use [OF assms(1,2)]] assms(3)] assms(2)
  by (auto simp: writes_tables_def)

text \<open>The outcomes of \<^verbatim>\<open>table_for\<close> when it may create the table.\<close>

lemma table_for_create:
  assumes ok: "vm_ok v" and lv: "live v sp" and tf: "table_for sp virt True (fl AND PTE_USER) v = (t, v')"
  shows "vm_ok v'" and "walk v' = walk v" and "spaces v' = spaces v" and "mapped_pages v' = mapped_pages v"
    and "t \<noteq> 0 \<Longrightarrow> present (pde v' sp (dir_index virt)) \<and> tbl (pde v' sp (dir_index virt)) = t"
    and "t = 0 \<Longrightarrow> v' = v \<and> avail (phys v) = {}"
    and "in_use v a \<Longrightarrow> in_use v' a"
    and "in_use v a \<Longrightarrow> a \<in> table_frames v' \<Longrightarrow> a \<in> table_frames v" and "keeps_data v v'"
proof -
  let ?d = "pd (spaces v sp)" and ?i = "dir_index virt"
  let ?e = "pde v sp ?i"
  have d: "?d \<noteq> 0" using lv by (simp add: live_def)
  note o = vm_okD [OF ok]
  have "vm_ok v' \<and> walk v' = walk v \<and> spaces v' = spaces v \<and> mapped_pages v' = mapped_pages v \<and>
    (t \<noteq> 0 \<longrightarrow> present (pde v' sp ?i) \<and> tbl (pde v' sp ?i) = t) \<and>
    (t = 0 \<longrightarrow> v' = v \<and> avail (phys v) = {}) \<and> (\<forall>a. in_use v a \<longrightarrow> in_use v' a) \<and>
    (\<forall>a. in_use v a \<longrightarrow> a \<in> table_frames v' \<longrightarrow> a \<in> table_frames v) \<and> keeps_data v v'"
  proof (cases "present ?e")
    case True
    then have eq: "t = tbl ?e" "v' = (if fl AND PTE_USER AND PTE_USER \<noteq> 0
        then v\<lparr>mem := wr32 (entry_addr ?d ?i) (?e OR PTE_USER) (mem v)\<rparr> else v)"
      using tf d by (auto simp: table_for_def Let_def pde_def and.assoc)
    have "in_use v (tbl ?e)" using o(4) [OF lv dir_index_less True] .
    moreover have "keeps_data v v'"
    proof -
      have "?d \<in> table_frames v" using lv by (auto simp: table_frames_def)
      from writes_keeps [OF ok writes_entry [OF ok this dir_index_less]] show ?thesis
        unfolding eq by (simp add: keeps_data_def)
    qed
    ultimately show ?thesis
      using ok lv True set_user_bit [OF ok lv dir_index_less True]
      by (auto simp: eq tbl_or_user in_use_def)
  next
    case False
    obtain f p where al: "pmm_alloc_frame (phys v) = (f, p)" by fastforce
    show ?thesis
    proof (cases "f = 0")
      case True
      have "p = phys v" "avail (phys v) = {}" using fa.alloc_none [OF o(1)] al True by auto
      then show ?thesis
        using tf d False al True ok by (simp add: table_for_def Let_def pde_def keeps_data_def)
    next
      case nz: False
      define v1 where "v1 = v\<lparr>phys := p, mem := zero_page f (mem v)\<rparr>"
      define flags where "flags = PTE_PRESENT OR PTE_WRITE OR (fl AND PTE_USER)"
      note fr = fresh_frame [OF ok al nz, folded v1_def]
      have t: "t = f" and v': "v' = v1\<lparr>mem := wr32 (entry_addr (pd (spaces v1 sp)) ?i) (f OR flags) (mem v1)\<rparr>"
        using tf d False al nz by (auto simp: table_for_def Let_def pde_def v1_def flags_def or.assoc)
      have l1: "live v1 = live v" "spaces v1 = spaces v" by (simp_all add: v1_def live_def fun_eq_iff)
      have pf: "present flags" by (simp add: flags_def)
      have inst: "vm_ok v'" "walk v' = walk v1" "pde v' sp ?i = f OR flags"
        "table_frames v' \<subseteq> insert f (table_frames v1)"
        using install_table [of v1 sp ?i f flags] fr pf flags_small [of fl] lv False
        by (simp_all add: l1 v' flags_def)
      have al: "4096 dvd unat f" using fr(4) [of f] in_use_aligned [of v1 f] by simp
      have "in_use v' = in_use v1" by (simp add: v' in_use_def fun_eq_iff)
      moreover have "keeps_data v v'"
      proof -
        have "mem v' x = mem v x" if g: "in_use v g" "g \<notin> table_frames v" "drop_bit 12 x = drop_bit 12 g" for g x
        proof -
          have "drop_bit 12 x \<noteq> drop_bit 12 f" "drop_bit 12 x \<noteq> drop_bit 12 ?d"
            using g fr(5) al lv o(2) [OF lv] page_eq in_use_aligned by (auto simp: table_frames_def)
          then show ?thesis
            using entry_write_bytes [OF in_use_aligned [OF o(2) [OF lv]] dir_index_less]
            by (simp add: v' l1) (simp add: v1_def zero_page_def)
        qed
        then show ?thesis by (auto simp: keeps_data_def)
      qed
      ultimately show ?thesis
        using inst fr(2,4,5,9) nz pf tbl_or_flags [OF al, of flags] flags_small [of fl]
        by (auto simp: t v' l1 v1_def flags_def)
    qed
  qed
  then show "vm_ok v'" "walk v' = walk v" "spaces v' = spaces v" "mapped_pages v' = mapped_pages v"
    "t \<noteq> 0 \<Longrightarrow> present (pde v' sp ?i) \<and> tbl (pde v' sp ?i) = t"
    "t = 0 \<Longrightarrow> v' = v \<and> avail (phys v) = {}" "in_use v a \<Longrightarrow> in_use v' a"
    "in_use v a \<Longrightarrow> a \<in> table_frames v' \<Longrightarrow> a \<in> table_frames v" "keeps_data v v'" by blast+
qed

lemma vm_counter [simp]:
  "live (x\<lparr>mapped_pages := k\<rparr>) = live x" "pde (x\<lparr>mapped_pages := k\<rparr>) = pde x"
  "in_use (x\<lparr>mapped_pages := k\<rparr>) = in_use x" "walk (x\<lparr>mapped_pages := k\<rparr>) = walk x"
  "vm_ok (x\<lparr>mapped_pages := k\<rparr>) = vm_ok x" "table_frames (x\<lparr>mapped_pages := k\<rparr>) = table_frames x"
proof -
  show a: "live (x\<lparr>mapped_pages := k\<rparr>) = live x" "pde (x\<lparr>mapped_pages := k\<rparr>) = pde x"
    "in_use (x\<lparr>mapped_pages := k\<rparr>) = in_use x"
    by (simp_all add: live_def pde_def in_use_def fun_eq_iff)
  show "walk (x\<lparr>mapped_pages := k\<rparr>) = walk x" "vm_ok (x\<lparr>mapped_pages := k\<rparr>) = vm_ok x"
    "table_frames (x\<lparr>mapped_pages := k\<rparr>) = table_frames x"
    by (simp_all add: walk_def vm_ok_def table_frames_def a fun_eq_iff)
qed

lemma keeps_trans:
  assumes "keeps_data v v1" and "keeps_data v1 v2" and "\<And>a. in_use v a \<Longrightarrow> in_use v1 a"
    and "\<And>a. in_use v a \<Longrightarrow> a \<in> table_frames v1 \<Longrightarrow> a \<in> table_frames v"
  shows "keeps_data v v2"
  using assms unfolding keeps_data_def by metis

lemma table_for_find:
  "fst (table_for sp virt False 0 v) =
     (if live v sp \<and> present (pde v sp (dir_index virt)) then tbl (pde v sp (dir_index virt)) else 0)"
  by (simp add: table_for_def live_def pde_def Let_def)

lemma translate_walk:
  assumes "vm_ok v"
  shows "vmm_translate_in sp virt v = (case walk v sp virt of Some e \<Rightarrow> tbl e OR (virt AND 0xFFF) | None \<Rightarrow> 0)"
  using vm_okD(4) [OF assms, of sp "dir_index virt"]
  by (auto simp: vmm_translate_in_def table_for_find walk_def live_def Let_def tbl_def in_use_def)

lemma map_in_cases:
  assumes ok: "vm_ok v" and up: "user_page virt" and m: "vmm_map_in sp virt pa flags v = (r, v')"
  defines "e \<equiv> pa OR (flags AND 0xFFF) OR PTE_PRESENT"
  shows "vm_ok v' \<and> spaces v' = spaces v \<and> (\<forall>a. in_use v a \<longrightarrow> in_use v' a) \<and>
    (\<forall>a. in_use v a \<longrightarrow> a \<in> table_frames v' \<longrightarrow> a \<in> table_frames v) \<and> keeps_data v v' \<and>
    (r = 0 \<and> live v sp \<and> (\<forall>sp1 virt1. walk v' sp1 virt1 =
        (if sp1 = sp \<and> unat virt1 div 4096 = unat virt div 4096 then Some e else walk v sp1 virt1)) \<or>
     r = -1 \<and> v' = v \<and>
       (\<not> live v sp \<or> \<not> 4096 dvd unat virt \<or> \<not> 4096 dvd unat pa \<or> avail (phys v) = {}))"
proof (cases "live v sp \<and> 4096 dvd unat virt \<and> 4096 dvd unat pa")
  case False
  then have "vmm_map_in sp virt pa flags v = (-1, v)"
    by (auto simp: vmm_map_in_def live_def page_aligned_iff)
  with m ok False show ?thesis by (auto simp: keeps_data_def)
next
  case True
  obtain t v1 where tf: "table_for sp virt True (flags AND PTE_USER) v = (t, v1)" by fastforce
  note c = table_for_create [OF ok conjunct1 [OF True] tf]
  have d: "pd (spaces v sp) \<noteq> 0" "virt AND (PAGE_SIZE - 1) = 0" "pa AND (PAGE_SIZE - 1) = 0"
    using True by (simp_all add: live_def page_aligned_iff)
  show ?thesis
  proof (cases "t = 0")
    case True
    then show ?thesis
      using m ok d up tf c(6) by (simp add: vmm_map_in_def keeps_data_def)
  next
    case False
    define v2 where "v2 = (if \<not> present (rd32 (mem v1) (entry_addr t (table_index virt)))
      then v1\<lparr>mapped_pages := mapped_pages v1 + 1\<rparr> else v1)"
    have r: "r = 0" and v': "v' = v2\<lparr>mem := wr32 (entry_addr t (table_index virt)) e (mem v2)\<rparr>"
      using m d up tf False by (auto simp: vmm_map_in_def Let_def v2_def e_def)
    have v2: "vm_ok v2" "walk v2 = walk v1" "spaces v2 = spaces v" "in_use v2 = in_use v1" "pde v2 = pde v1"
      "table_frames v2 = table_frames v1" "mem v2 = mem v1"
      using c(1,3) by (simp_all add: v2_def)
    have l: "live v2 sp" using True v2(3) by (simp add: live_def)
    have p: "present (pde v2 sp (dir_index virt))" "tbl (pde v2 sp (dir_index virt)) = t"
      using c(5) [OF False] v2(5) by simp_all
    have "vm_ok v'" using write_entry(1) [OF v2(1) l p(1), of e] by (simp add: v' p(2))
    moreover have "walk v' sp1 virt1 =
        (if sp1 = sp \<and> unat virt1 div 4096 = unat virt div 4096 then Some e else walk v sp1 virt1)" for sp1 virt1
      using write_user_entry [OF v2(1) l p(1) up, of e sp1 virt1] c(2) v2(2)
      by (simp add: v' p(2) e_def)
    moreover have "in_use v a \<Longrightarrow> in_use v' a" for a
    proof -
      have "in_use v' = in_use v2" by (simp add: v' in_use_def fun_eq_iff)
      then show "in_use v a \<Longrightarrow> in_use v' a" using c(7) [of a] v2(4) by simp
    qed
    moreover have tf': "table_frames v' = table_frames v1"
      using write_entry(4) [OF v2(1) l p(1), of e] by (simp add: v' p(2) v2(6))
    moreover have "keeps_data v v'"
    proof -
      have "t \<in> table_frames v2" using table_framesI(2) [OF l dir_index_less p(1)] p(2) by simp
      then have "keeps_data v2 v'"
        unfolding v' by (intro writes_keeps [OF v2(1)] writes_entry [OF v2(1)]) simp_all
      then have "keeps_data v1 v'"
        unfolding keeps_data_def v2(4,6,7) .
      from keeps_trans [OF c(9) this c(7) c(8)] show ?thesis .
    qed
    ultimately show ?thesis
      using r True v2(3) c(8) by (auto simp: v')
  qed
qed

lemma unmap_walk:
  fixes sp :: space_ref
  assumes ok: "vm_ok v" and up: "user_page virt"
  defines "v' \<equiv> vmm_unmap_in sp virt v"
  shows "vm_ok v'" and "spaces v' = spaces v" and "phys v' = phys v"
    and "walk v' sp1 virt1 =
      (if sp1 = sp \<and> unat virt1 div 4096 = unat virt div 4096 then None else walk v sp1 virt1)"
    and "table_frames v' = table_frames v" and "writes_tables v v'"
proof -
  define a where "a = ALIGN_DOWN virt PAGE_SIZE"
  have da: "unat a div 4096 = unat virt div 4096" by (simp add: a_def align_down_page)
  have "USER_MIN \<le> a"
    using up by (simp add: word_le_nat_alt user_page_def USER_MIN_def a_def align_down_page
        less_eq_div_iff_mult_less_eq)
  moreover have "a \<le> virt" by (simp add: word_le_nat_alt a_def align_down_page)
  ultimately have ua: "user_page a" using up by (auto simp: user_page_def)
  let ?t = "tbl (pde v sp (dir_index a))"
  let ?w = "v\<lparr>mem := wr32 (entry_addr ?t (table_index a)) 0 (mem v)\<rparr>"
  have "vm_ok v' \<and> spaces v' = spaces v \<and> phys v' = phys v \<and> (\<forall>sp1 virt1. walk v' sp1 virt1 =
      (if sp1 = sp \<and> unat virt1 div 4096 = unat virt div 4096 then None else walk v sp1 virt1)) \<and>
      table_frames v' = table_frames v \<and> writes_tables v v'"
  proof (cases "walk v sp a")
    case None
    then have v': "v' = v"
      using vm_okD(4) [OF ok, of sp "dir_index a"]
      by (auto simp: v'_def vmm_unmap_in_def Let_def table_for_find walk_def live_def simp flip: a_def split: if_splits)
    have "walk v sp virt1 = None" if "unat virt1 div 4096 = unat virt div 4096" for virt1
    proof -
      have "walk v sp virt1 = walk v sp a"
        using page_cell [of virt1 a] that da by (simp add: walk_def)
      with None show ?thesis by simp
    qed
    with v' ok show ?thesis by (auto simp: writes_tables_def)
  next
    case (Some e)
    then have l: "live v sp" "present (pde v sp (dir_index a))"
      and pe: "present (rd32 (mem v) (entry_addr ?t (table_index a)))"
      by (auto simp: walk_def Let_def split: if_splits)
    have tnz: "?t \<noteq> 0" using vm_okD(4) [OF ok l(1) dir_index_less l(2)] by (simp add: in_use_def)
    have "?w = ?w\<lparr>mapped_pages := mapped_pages v\<rparr>" by (cases v) simp
    then have "\<exists>k. v' = ?w\<lparr>mapped_pages := k\<rparr>"
      using l pe tnz
      by (cases "mapped_pages v = 0")
        (auto simp: v'_def vmm_unmap_in_def Let_def table_for_find live_def simp flip: a_def intro: exI [of _ 0])
    then obtain k where v': "v' = ?w\<lparr>mapped_pages := k\<rparr>" by blast
    have "?t \<in> table_frames v" by (rule table_framesI(2) [OF l(1) dir_index_less l(2)])
    then have "writes_tables v ?w" by (intro writes_entry [OF ok]) simp_all
    then have "writes_tables v v'" by (simp add: v' writes_tables_def)
    then show ?thesis
      using write_entry(1,4) [OF ok l, of 0] write_user_entry [OF ok l ua, of 0] da by (simp add: v')
  qed
  then show "vm_ok v'" "spaces v' = spaces v" "phys v' = phys v" "walk v' sp1 virt1 =
      (if sp1 = sp \<and> unat virt1 div 4096 = unat virt div 4096 then None else walk v sp1 virt1)"
    "table_frames v' = table_frames v" "writes_tables v v'" by blast+
qed

section \<open>User accesses\<close>

text \<open>
  What the processor allows a user program: both levels present and marked user, and the page
  writable for a store.
\<close>

definition may_access :: "vm \<Rightarrow> space_ref \<Rightarrow> bool \<Rightarrow> virt_addr \<Rightarrow> bool" where
  "may_access v sp wr a \<longleftrightarrow> pde v sp (dir_index a) AND PTE_USER \<noteq> 0 \<and>
     (case walk v sp a of Some e \<Rightarrow> e AND PTE_USER \<noteq> 0 \<and> (wr \<longrightarrow> e AND PTE_WRITE \<noteq> 0) | None \<Rightarrow> False)"

lemma user_bits: "x AND (PTE_PRESENT OR PTE_USER) = PTE_PRESENT OR PTE_USER \<longleftrightarrow> present x \<and> x AND PTE_USER \<noteq> 0"
proof -
  have b4: "bit (4 :: u32) n \<longleftrightarrow> n = 2" for n
    using bit_push_bit_iff [of 2 "1 :: u32" n] by (auto simp: push_bit_of_1 bit_1_iff)
  have b5: "bit (PTE_PRESENT OR PTE_USER) n \<longleftrightarrow> n = 0 \<or> n = 2" for n
    by (auto simp only: PTE_PRESENT_def PTE_USER_def bit_or_iff b4 bit_1_iff)
  have u: "x AND PTE_USER \<noteq> 0 \<longleftrightarrow> bit x 2"
    using and_exp_eq_0_iff_not_bit [of x 2] by (simp add: PTE_USER_def)
  show ?thesis
    unfolding u present_bit by (auto simp: bit_and_iff b5 dest: arg_cong [of _ _ "\<lambda>w. bit w 0"]
        arg_cong [of _ _ "\<lambda>w. bit w 2"] intro!: bit_word_eqI)
qed

lemma may_access_page: "unat a div 4096 = unat b div 4096 \<Longrightarrow> may_access v sp wr a = may_access v sp wr b"
  using page_cell [of a b] by (simp add: may_access_def walk_def)

lemma access_pages_iff:
  assumes "live v sp" and "4096 dvd unat page" and "unat en \<le> 0xD0000000"
  shows "access_pages (mem v) (pd (spaces v sp)) wr en page \<longleftrightarrow>
    (\<forall>a. unat page \<le> unat a \<and> unat a < unat en \<longrightarrow> may_access v sp wr a)"
  using assms
proof (induction "mem v" "pd (spaces v sp)" wr en page rule: access_pages.induct)
  case (1 wr en page)
  have lt: "ucast page < en \<longleftrightarrow> unat page < unat en"
    by (simp add: word_less_nat_alt u_simps)
  show ?case
  proof (cases "unat page < unat en")
    case False
    then show ?thesis by (subst access_pages.simps) (auto simp: lt)
  next
    case True
    let ?p = "pde v sp (dir_index page)"
    let ?e = "rd32 (mem v) (entry_addr (tbl ?p) (table_index page))"
    have here: "may_access v sp wr page \<longleftrightarrow> present ?p \<and> ?p AND PTE_USER \<noteq> 0 \<and> present ?e \<and>
        ?e AND PTE_USER \<noteq> 0 \<and> (wr \<longrightarrow> ?e AND PTE_WRITE \<noteq> 0)"
      using "1.prems"(1) by (auto simp: may_access_def walk_def Let_def)
    have small: "unat page < 0xD0000000" using True "1.prems"(3) by simp
    then have nx: "unat (page + PAGE_SIZE) = unat page + 4096" and nw: "\<not> 0xFFFFFFFF - PAGE_SIZE < page"
      by (simp_all add: PAGE_SIZE_def unat_plus_simple word_less_nat_alt)
    have body: "access_pages (mem v) (pd (spaces v sp)) wr en page \<longleftrightarrow>
        may_access v sp wr page \<and> access_pages (mem v) (pd (spaces v sp)) wr en (page + PAGE_SIZE)"
      using True nw
      by (subst access_pages.simps) (auto simp: lt here user_bits Let_def simp flip: pde_def)
    have al: "4096 dvd unat (page + PAGE_SIZE)" using "1.prems"(2) nx by simp
    have first: "may_access v sp wr a = may_access v sp wr page" if "unat page \<le> unat a" "unat a < unat page + 4096" for a
    proof (rule may_access_page)
      show "unat a div 4096 = unat page div 4096"
        using that "1.prems"(2) by (auto simp: dvd_def)
    qed
    have IH: "access_pages (mem v) (pd (spaces v sp)) wr en (page + PAGE_SIZE) \<longleftrightarrow>
        (\<forall>a. unat page + 4096 \<le> unat a \<and> unat a < unat en \<longrightarrow> may_access v sp wr a)"
      if "may_access v sp wr page"
      using "1.hyps" [of ?p ?e] that here True nw lt "1.prems"(1,3) al nx
      by (simp add: user_bits pde_def)
    show ?thesis
    proof (cases "may_access v sp wr page")
      case False
      then show ?thesis using body True by auto
    next
      case m: True
      have "(\<forall>a. unat page \<le> unat a \<and> unat a < unat en \<longrightarrow> may_access v sp wr a) \<longleftrightarrow>
          (\<forall>a. unat page + 4096 \<le> unat a \<and> unat a < unat en \<longrightarrow> may_access v sp wr a)"
        using first m by (meson add_leD1 not_le)
      then show ?thesis using body m IH by simp
    qed
  qed
qed

lemma access_ok_iff:
  "vmm_access_ok_in sp start sz wr v \<longleftrightarrow> live v sp \<and>
     (sz = 0 \<or> unat USER_MIN \<le> unat start \<and> unat start + unat sz \<le> unat USER_MAX \<and>
        (\<forall>a. unat start \<le> unat a \<and> unat a < unat start + unat sz \<longrightarrow> may_access v sp wr a))"
proof (cases "live v sp \<and> sz \<noteq> 0")
  case False
  then show ?thesis by (auto simp: vmm_access_ok_in_def live_def)
next
  case True
  have sum: "unat (ucast start + ucast sz :: u64) = unat start + unat sz"
    using unat_lt2p [of start] unat_lt2p [of sz] by (subst unat_plus_simple) (simp_all add: u_simps)
  have nz: "0 < unat sz" using True by (simp add: unat_gt_0)
  let ?p = "ALIGN_DOWN start PAGE_SIZE"
  have whole: "may_access v sp wr b"
    if h: "\<forall>a. unat start \<le> unat a \<and> unat a < unat start + unat sz \<longrightarrow> may_access v sp wr a"
      and b: "unat ?p \<le> unat b" "unat b < unat start + unat sz" for b
  proof (cases "unat start \<le> unat b")
    case True
    with h b show ?thesis by blast
  next
    case False
    then have "unat b div 4096 = unat start div 4096" using b(1) by (auto simp: align_down_page)
    moreover have "may_access v sp wr start" using h nz by auto
    ultimately show ?thesis using may_access_page by blast
  qed
  have "access_pages (mem v) (pd (spaces v sp)) wr (ucast start + ucast sz) ?p \<longleftrightarrow>
      (\<forall>a. unat start \<le> unat a \<and> unat a < unat start + unat sz \<longrightarrow> may_access v sp wr a)"
    if "unat start + unat sz \<le> 0xD0000000"
    using access_pages_iff [of v sp ?p "ucast start + ucast sz" wr] True that whole
    by (auto simp: sum align_down_page)
  then show ?thesis
    using True nz sum
    by (auto simp: vmm_access_ok_in_def live_def Let_def word_less_nat_alt word_le_nat_alt u_simps
        USER_MIN_def USER_MAX_def)
qed

section \<open>Isolation of user memory\<close>

text \<open>
  Every frame a user page maps is allocated, is not a directory or a table, and is mapped by no other
  user page of any address space.
\<close>

definition vm_iso :: "vm \<Rightarrow> bool" where
  "vm_iso v \<longleftrightarrow> vm_ok v \<and>
     (\<forall>sp a e. user_page a \<longrightarrow> walk v sp a = Some e \<longrightarrow> in_use v (tbl e) \<and> tbl e \<notin> table_frames v) \<and>
     (\<forall>sp a e sp' a' e'. user_page a \<longrightarrow> user_page a' \<longrightarrow> walk v sp a = Some e \<longrightarrow> walk v sp' a' = Some e' \<longrightarrow>
        tbl e = tbl e' \<longrightarrow> sp = sp' \<and> unat a div 4096 = unat a' div 4096)"

lemma vm_isoD:
  assumes "vm_iso v"
  shows "vm_ok v"
    and "user_page a \<Longrightarrow> walk v sp a = Some e \<Longrightarrow> in_use v (tbl e) \<and> tbl e \<notin> table_frames v"
    and "user_page a \<Longrightarrow> user_page a' \<Longrightarrow> walk v sp a = Some e \<Longrightarrow> walk v sp' a' = Some e' \<Longrightarrow>
      tbl e = tbl e' \<Longrightarrow> sp = sp' \<and> unat a div 4096 = unat a' div 4096"
  using assms unfolding vm_iso_def by blast+

lemma translate_page:
  assumes "vm_iso v" and "user_page a" and "4096 dvd unat a"
  shows "vmm_translate_in sp a v = (case walk v sp a of Some e \<Rightarrow> tbl e | None \<Rightarrow> 0)"
    and "vmm_translate_in sp a v = 0 \<longleftrightarrow> walk v sp a = None"
proof -
  have "a AND 0xFFF = a AND (PAGE_SIZE - 1)" by (simp add: PAGE_SIZE_def)
  then have "a AND 0xFFF = 0" using assms(3) by (simp add: page_aligned_iff)
  then show *: "vmm_translate_in sp a v = (case walk v sp a of Some e \<Rightarrow> tbl e | None \<Rightarrow> 0)"
    using translate_walk [OF vm_isoD(1) [OF assms(1)], of sp a] by (simp split: option.split)
  show "vmm_translate_in sp a v = 0 \<longleftrightarrow> walk v sp a = None"
    using vm_isoD(2) [OF assms(1,2), of sp] by (auto simp: * in_use_def split: option.split)
qed

lemma release_in_use:
  assumes "pmm_ready (phys v)" and "f \<noteq> 0"
  shows "in_use (v\<lparr>phys := pmm_free_frame f (phys v)\<rparr>) a \<longleftrightarrow> in_use v a \<and> a \<noteq> f"
    and "pmm_ready (pmm_free_frame f (phys v))"
  using fa.release_frame [OF assms] by (auto simp: in_use_def)

lemma release_frame_ok:
  assumes ok: "vm_ok v" and "f \<notin> table_frames v" and "f \<noteq> 0"
  defines "v' \<equiv> v\<lparr>phys := pmm_free_frame f (phys v)\<rparr>"
  shows "vm_ok v'" and "walk v' = walk v" and "table_frames v' = table_frames v" and "pde v' = pde v"
proof -
  note o = vm_okD [OF ok]
  have same: "live v' = live v" "spaces v' = spaces v" "pde v' = pde v" "mem v' = mem v"
    by (simp_all add: v'_def live_def pde_def fun_eq_iff)
  show "pde v' = pde v" by (rule same)
  have use: "in_use v' a \<longleftrightarrow> in_use v a \<and> a \<noteq> f" for a
    using release_in_use(1) [OF o(1) assms(3), of a] by (simp add: v'_def)
  have r: "pmm_ready (phys v')"
    using release_in_use(2) [OF o(1) assms(3)] by (simp add: v'_def)
  have tf: "in_use v' a" if "a \<in> table_frames v" for a
    using that assms(2) table_frames_in_use [OF ok that] by (auto simp: use)
  show "vm_ok v'"
    unfolding vm_ok_def same using o r tf table_framesI [of v] by blast
  show "walk v' = walk v" by (simp add: walk_def fun_eq_iff same)
  show "table_frames v' = table_frames v" by (rule table_frames_cong) (simp_all add: same)
qed

lemma walk_page: "unat a div 4096 = unat b div 4096 \<Longrightarrow> walk v sp a = walk v sp b"
  using page_cell [of a b] by (simp add: walk_def)

lemma tbl_tbl [simp]: "tbl (tbl e) = tbl e"
  by (simp add: tbl_def and.assoc)

lemma writes_trans:
  "writes_tables v v1 \<Longrightarrow> writes_tables v1 v2 \<Longrightarrow> table_frames v1 = table_frames v \<Longrightarrow> writes_tables v v2"
  by (simp add: writes_tables_def)

lemma free_page_spec:
  fixes sp :: space_ref
  assumes iso: "vm_iso v" and up: "user_page a" and al: "4096 dvd unat a"
  defines "v' \<equiv> free_page sp a v"
  shows "vm_iso v'" and "spaces v' = spaces v" and "table_frames v' = table_frames v"
    and "walk v' sp1 b = (if sp1 = sp \<and> unat b div 4096 = unat a div 4096 then None else walk v sp1 b)"
    and "writes_tables v v'"
    and "in_use v' g \<longleftrightarrow> in_use v g \<and> (\<forall>e. walk v sp a = Some e \<longrightarrow> g \<noteq> tbl e)"
proof -
  note d = vm_isoD [OF iso]
  have "vm_iso v' \<and> spaces v' = spaces v \<and> table_frames v' = table_frames v \<and>
    (\<forall>sp1 b. walk v' sp1 b = (if sp1 = sp \<and> unat b div 4096 = unat a div 4096 then None else walk v sp1 b)) \<and>
    writes_tables v v' \<and>
    (\<forall>g. in_use v' g \<longleftrightarrow> in_use v g \<and> (\<forall>e. walk v sp a = Some e \<longrightarrow> g \<noteq> tbl e))"
  proof (cases "walk v sp a")
    case None
    then have "v' = v"
      using translate_page(2) [OF iso up al, of sp] by (simp add: v'_def free_page_def)
    moreover have "walk v sp b = None" if "unat b div 4096 = unat a div 4096" for b
      using walk_page [OF that] None by simp
    ultimately show ?thesis using None iso by (simp add: writes_tables_def)
  next
    case (Some e)
    define v1 where "v1 = vmm_unmap_in sp a v"
    note u = unmap_walk [OF d(1) up, of sp, folded v1_def]
    have e: "in_use v (tbl e)" "tbl e \<notin> table_frames v" using d(2) [OF up Some] by simp_all
    then have nz: "tbl e \<noteq> 0" by (simp add: in_use_def)
    have v': "v' = v1\<lparr>phys := pmm_free_frame (tbl e) (phys v1)\<rparr>"
      using translate_page(1) [OF iso up al, of sp] Some nz
      unfolding v'_def free_page_def Let_def v1_def tbl_def [symmetric] by simp
    note r = release_frame_ok [OF u(1) _ nz, folded v', unfolded u(5)]
    have use: "in_use v' g \<longleftrightarrow> in_use v g \<and> g \<noteq> tbl e" for g
      using release_in_use(1) [OF vm_okD(1) [OF u(1)] nz, of g] u(3) by (simp add: v' in_use_def)
    have w: "walk v' sp1 b = (if sp1 = sp \<and> unat b div 4096 = unat a div 4096 then None else walk v sp1 b)" for sp1 b
      using r(2) [OF e(2)] u(4) by simp
    have tf: "table_frames v' = table_frames v" using r(3) [OF e(2)] .
    have "vm_iso v'"
      unfolding vm_iso_def
    proof (intro conjI allI impI)
      show "vm_ok v'" using r(1) [OF e(2)] .
    next
      fix sp1 b e1
      assume b: "user_page b" "walk v' sp1 b = Some e1"
      then have b': "walk v sp1 b = Some e1" "\<not> (sp1 = sp \<and> unat b div 4096 = unat a div 4096)"
        by (auto simp: w split: if_splits)
      then have "tbl e1 \<noteq> tbl e" using d(3) [OF b(1) up b'(1) Some] by auto
      then show "in_use v' (tbl e1)" "tbl e1 \<notin> table_frames v'"
        using d(2) [OF b(1) b'(1)] by (simp_all add: use tf)
    next
      fix sp1 b e1 sp2 c e2
      assume b: "user_page b" "user_page c" "walk v' sp1 b = Some e1" "walk v' sp2 c = Some e2" "tbl e1 = tbl e2"
      then have "walk v sp1 b = Some e1" "walk v sp2 c = Some e2" by (auto simp: w split: if_splits)
      then show "sp1 = sp2" "unat b div 4096 = unat c div 4096" using d(3) [OF b(1,2)] b(5) by blast+
    qed
    moreover have "writes_tables v v'" using u(6) by (simp add: v' writes_tables_def)
    ultimately show ?thesis using w tf use u(2) Some by (auto simp: v')
  qed
  then show "vm_iso v'" "spaces v' = spaces v" "table_frames v' = table_frames v"
    "walk v' sp1 b = (if sp1 = sp \<and> unat b div 4096 = unat a div 4096 then None else walk v sp1 b)"
    "writes_tables v v'" "in_use v' g \<longleftrightarrow> in_use v g \<and> (\<forall>e. walk v sp a = Some e \<longrightarrow> g \<noteq> tbl e)" by blast+
qed

text \<open>Pages by number.\<close>

definition pg :: "nat \<Rightarrow> u32" where
  "pg n = of_nat (4096 * n)"

lemma pg_unat: "n < 2 ^ 20 \<Longrightarrow> unat (pg n) = 4096 * n"
  unfolding pg_def by (subst unsigned_of_nat) (simp add: take_bit_eq_mod)

lemma pg_page [simp]: "n < 0xD0000 \<Longrightarrow> unat (pg n) div 4096 = n"
  using pg_unat [of n] by simp

lemma user_pg: "2 ^ 18 \<le> n \<Longrightarrow> n < 0xD0000 \<Longrightarrow> user_page (pg n) \<and> 4096 dvd unat (pg n)"
  by (simp add: user_page_def USER_MIN_def USER_MAX_def word_le_nat_alt word_less_nat_alt pg_unat)

lemma page_list_pg:
  assumes "4096 dvd unat lo" "4096 dvd unat hi" "lo \<le> hi"
  shows "page_list lo hi = map pg [unat lo div 4096..<unat hi div 4096]"
proof -
  obtain l h where lh: "unat lo = 4096 * l" "unat hi = 4096 * h"
    using assms(1,2) by (auto simp: dvd_def)
  have le: "l \<le> h" using assms(3) lh by (simp add: word_le_nat_alt)
  have lo: "lo = of_nat (4096 * l)" unfolding lh(1) [symmetric] by simp
  have "unat (hi - lo) div 4096 = h - l" using assms(3) lh
    by (simp add: unat_minus_simple flip: diff_mult_distrib2)
  then have "page_list lo hi = map (\<lambda>k. pg (k + l)) [0..<h - l]"
    unfolding page_list_def by (simp add: pg_def PAGE_SIZE_def) (simp add: lo algebra_simps)
  also have "\<dots> = map pg (map (\<lambda>k. k + l) [0..<h - l])" by simp
  also have "map (\<lambda>k. k + l) [0..<h - l] = [l..<h]" using le by (simp only: map_add_upt) simp
  finally show ?thesis by (simp add: lh)
qed

lemma free_pages_spec:
  assumes "vm_iso v" and "\<forall>n \<in> set ns. 2 ^ 18 \<le> n \<and> n < 0xD0000"
  shows "vm_iso (fold (free_page sp) (map pg ns) v) \<and> spaces (fold (free_page sp) (map pg ns) v) = spaces v \<and>
    table_frames (fold (free_page sp) (map pg ns) v) = table_frames v \<and>
    writes_tables v (fold (free_page sp) (map pg ns) v) \<and>
    (\<forall>g. in_use (fold (free_page sp) (map pg ns) v) g \<longleftrightarrow>
      in_use v g \<and> (\<forall>n \<in> set ns. \<forall>e. walk v sp (pg n) = Some e \<longrightarrow> g \<noteq> tbl e)) \<and>
    (\<forall>sp1 b. walk (fold (free_page sp) (map pg ns) v) sp1 b =
      (if sp1 = sp \<and> unat b div 4096 \<in> set ns then None else walk v sp1 b))"
  using assms
proof (induction ns arbitrary: v)
  case Nil
  then show ?case by (simp add: writes_tables_def)
next
  case (Cons n ns)
  have n: "user_page (pg n)" "4096 dvd unat (pg n)" "unat (pg n) div 4096 = n"
    using user_pg [of n] Cons.prems(2) by (auto simp: pg_unat)
  note f = free_page_spec [OF Cons.prems(1) n(1,2), of sp, unfolded n(3)]
  have "unat (pg m) div 4096 = m" if "m \<in> set ns" for m
    using that Cons.prems(2) by simp
  with Cons.IH [OF f(1)] Cons.prems(2) f show ?case
    by (auto intro: writes_trans split: if_splits)
qed

lemma range_end:
  fixes start sz :: u32
  assumes "unat start + unat sz \<le> 0xD0000000" and "sz \<noteq> 0"
  shows "\<not> (0xFFFFFFFF < ucast start + (ucast sz :: u64) \<or> ucast start + ucast sz \<le> (ucast start :: u64))"
    and "unat (ALIGN_UP (ucast (ucast start + ucast sz :: u64)) PAGE_SIZE) = (unat start + unat sz + 4095) div 4096 * 4096"
    and "ALIGN_DOWN start PAGE_SIZE \<le> ALIGN_UP (ucast (ucast start + ucast sz :: u64)) PAGE_SIZE"
proof -
  have sum: "unat (ucast start + ucast sz :: u64) = unat start + unat sz"
    using assms(1) by (subst unat_plus_simple) (simp_all add: u_simps)
  show "\<not> (0xFFFFFFFF < ucast start + (ucast sz :: u64) \<or> ucast start + ucast sz \<le> (ucast start :: u64))"
    using assms sum by (simp add: word_less_nat_alt word_le_nat_alt u_simps unat_gt_0)
  have "unat (ucast (ucast start + ucast sz :: u64) :: u32) = unat start + unat sz"
    using assms(1) sum by (subst unat_ucast_small) simp_all
  then show up: "unat (ALIGN_UP (ucast (ucast start + ucast sz :: u64)) PAGE_SIZE) = (unat start + unat sz + 4095) div 4096 * 4096"
    using assms(1) by (simp add: align_up_page)
  show "ALIGN_DOWN start PAGE_SIZE \<le> ALIGN_UP (ucast (ucast start + ucast sz :: u64)) PAGE_SIZE"
    by (simp add: word_le_nat_alt up align_down_page)
qed

lemma range_pages:
  fixes start sz :: u32
  assumes "unat start + unat sz \<le> 0xD0000000" and "sz \<noteq> 0"
  shows "page_list (ALIGN_DOWN start PAGE_SIZE) (ALIGN_UP (ucast (ucast start + ucast sz :: u64)) PAGE_SIZE) =
    map pg [unat start div 4096..<(unat start + unat sz + 4095) div 4096]"
  using range_end [OF assms] by (subst page_list_pg) (simp_all add: align_down_page)

lemma free_range_pages:
  assumes "live v sp" and "unat start + unat sz \<le> 0xD0000000" and "sz \<noteq> 0"
  shows "vmm_free_range sp start sz v =
    fold (free_page sp) (map pg [unat start div 4096..<(unat start + unat sz + 4095) div 4096]) v"
  using assms range_end [OF assms(2,3)]
  by (simp add: vmm_free_range_def live_def Let_def range_pages flip: not_less)

text \<open>A page the loop has just mapped: the requested flags, and a frame full of zeros.\<close>

definition fresh_entry :: "vm \<Rightarrow> u32 \<Rightarrow> u32 \<Rightarrow> bool" where
  "fresh_entry v flags e \<longleftrightarrow> e AND 0xFFF = (flags AND 0xFFF) OR PTE_PRESENT \<and>
     (\<forall>x. drop_bit 12 x = drop_bit 12 (tbl e) \<longrightarrow> mem v x = 0)"

text \<open>State \<open>v\<close> extends \<open>v0\<close> by fresh pages \<open>lo..<n\<close> of space \<open>sp\<close>.\<close>

definition extends_by :: "vm \<Rightarrow> vm \<Rightarrow> space_ref \<Rightarrow> u32 \<Rightarrow> nat \<Rightarrow> nat \<Rightarrow> bool" where
  "extends_by v0 v sp flags lo n \<longleftrightarrow> vm_iso v \<and> spaces v = spaces v0 \<and> keeps_data v0 v \<and>
     (\<forall>a. in_use v0 a \<longrightarrow> in_use v a \<and> (a \<in> table_frames v \<longrightarrow> a \<in> table_frames v0)) \<and>
     (\<forall>sp1 b. if sp1 = sp \<and> unat b div 4096 \<in> {lo..<n}
        then walk v0 sp1 b = None \<and> (\<exists>e. walk v sp1 b = Some e \<and> fresh_entry v flags e)
        else walk v sp1 b = walk v0 sp1 b)"

lemma extends_refl: "vm_iso v \<Longrightarrow> extends_by v v sp flags n n"
  by (simp add: extends_by_def keeps_data_def)

lemma extendsD:
  assumes "extends_by v0 v sp flags lo n"
  shows "vm_iso v" "spaces v = spaces v0" "keeps_data v0 v" "in_use v0 a \<Longrightarrow> in_use v a"
    "in_use v0 a \<Longrightarrow> a \<in> table_frames v \<Longrightarrow> a \<in> table_frames v0"
    "sp1 = sp \<and> unat b div 4096 \<in> {lo..<n} \<Longrightarrow>
      walk v0 sp1 b = None \<and> (\<exists>e. walk v sp1 b = Some e \<and> fresh_entry v flags e)"
    "\<not> (sp1 = sp \<and> unat b div 4096 \<in> {lo..<n}) \<Longrightarrow> walk v sp1 b = walk v0 sp1 b"
  using assms unfolding extends_by_def by (auto split: if_splits)

lemma roll_back_spec:
  assumes grown: "extends_by v0 v sp flags lo n" and lv: "live v0 sp" and "lo < n" "2 ^ 18 \<le> lo" "n \<le> 0xD0000"
  defines "v' \<equiv> roll_back sp (Some (pg lo)) (pg n) v"
  shows "vm_iso v'" "walk v' = walk v0" "spaces v' = spaces v0" "keeps_data v0 v'"
proof -
  note x = extendsD [OF grown]
  have u: "unat (pg lo) = 4096 * lo" "unat (pg n) = 4096 * n"
    using assms(3-5) by (simp_all add: pg_unat)
  then have sz: "unat (pg n - pg lo) = 4096 * n - 4096 * lo"
    using assms(3) by (simp add: unat_minus_simple word_le_nat_alt)
  have nz: "pg n - pg lo \<noteq> 0" using sz assms(3) by (auto simp: unat_eq_0)
  have "live v sp" using lv x(2) by (simp add: live_def)
  then have v': "v' = fold (free_page sp) (map pg [lo..<n]) v"
    using free_range_pages [of v sp "pg lo" "pg n - pg lo"] nz assms(3,5)
    by (simp add: v'_def roll_back_def u sz)
  note f = free_pages_spec [OF x(1), of "[lo..<n]" sp, folded v']
  have f': "vm_iso v'" "spaces v' = spaces v" "writes_tables v v'"
    "\<And>sp1 b. walk v' sp1 b = (if sp1 = sp \<and> unat b div 4096 \<in> set [lo..<n] then None else walk v sp1 b)"
    using f assms(4,5) by auto
  show "vm_iso v'" "spaces v' = spaces v0" using f' x(2) by simp_all
  show "walk v' = walk v0"
  proof (intro ext)
    fix sp1 b
    show "walk v' sp1 b = walk v0 sp1 b"
      using f'(4) [of sp1 b] x(6,7) [of sp1 b] by (cases "sp1 = sp \<and> unat b div 4096 \<in> {lo..<n}") auto
  qed
  show "keeps_data v0 v'"
    using keeps_trans [OF x(3) writes_keeps [OF vm_isoD(1) [OF x(1)] f'(3)] x(4,5)] .
qed

text \<open>Taking a frame and clearing it changes nothing that is mapped.\<close>

lemma fresh_iso:
  assumes iso: "vm_iso v" and al: "pmm_alloc_frame (phys v) = (f, p)" and "f \<noteq> 0"
  defines "v1 \<equiv> v\<lparr>phys := p, mem := zero_page f (mem v)\<rparr>"
  shows "vm_iso v1" and "keeps_data v v1"
proof -
  note d = vm_isoD [OF iso]
  note f = fresh_frame [OF d(1) al assms(3), folded v1_def]
  show "vm_iso v1"
    unfolding vm_iso_def f(2,9) using f(1,4) d by blast
  show "keeps_data v v1"
    unfolding keeps_data_def
  proof (intro allI impI)
    fix g x
    assume g: "in_use v g" "drop_bit 12 x = drop_bit 12 g"
    then have "drop_bit 12 x \<noteq> drop_bit 12 f"
      using f(5,10) in_use_aligned [OF g(1)] page_eq by metis
    then show "mem v1 x = mem v x" by (simp add: v1_def zero_page_def)
  qed
qed

lemma extends_trans:
  assumes grown: "extends_by v0 v sp flags lo n"
    and iso: "vm_iso v1" and "spaces v1 = spaces v" and keep: "keeps_data v v1"
    and use: "\<And>a. in_use v a \<Longrightarrow> in_use v1 a"
    and tf: "\<And>a. in_use v a \<Longrightarrow> a \<in> table_frames v1 \<Longrightarrow> a \<in> table_frames v"
    and lo: "lo \<le> n" and m: "n \<le> m" and user: "2 ^ 18 \<le> lo" "m \<le> 0xD0000"
    and new: "\<And>sp1 b. sp1 = sp \<and> unat b div 4096 \<in> {n..<m} \<Longrightarrow>
      walk v sp1 b = None \<and> (\<exists>e. walk v1 sp1 b = Some e \<and> fresh_entry v1 flags e)"
    and old: "\<And>sp1 b. \<not> (sp1 = sp \<and> unat b div 4096 \<in> {n..<m}) \<Longrightarrow> walk v1 sp1 b = walk v sp1 b"
  shows "extends_by v0 v1 sp flags lo m"
proof -
  note x = extendsD [OF grown]
  have fresh: "fresh_entry v1 flags e" if "walk v sp b = Some e" "fresh_entry v flags e" "unat b div 4096 \<in> {lo..<n}" for b e
  proof -
    have "user_page b"
      using that(3) user m
      by (auto simp: user_page_def word_le_nat_alt word_less_nat_alt USER_MIN_def USER_MAX_def)
    from vm_isoD(2) [OF x(1) this that(1)] keep that(2) show ?thesis
      by (auto simp: fresh_entry_def keeps_data_def)
  qed
  have "if sp1 = sp \<and> unat b div 4096 \<in> {lo..<m}
      then walk v0 sp1 b = None \<and> (\<exists>e. walk v1 sp1 b = Some e \<and> fresh_entry v1 flags e)
      else walk v1 sp1 b = walk v0 sp1 b" for sp1 b
  proof (cases "sp1 = sp \<and> unat b div 4096 \<in> {lo..<n}")
    case True
    with x(6) [OF True] fresh [of b] old [of sp1 b] m show ?thesis by auto
  next
    case False
    with x(7) [OF False] new [of sp1 b] old [of sp1 b] m lo show ?thesis by auto
  qed
  moreover have "keeps_data v0 v1" by (rule keeps_trans [OF x(3) keep x(4,5)])
  ultimately show ?thesis
    unfolding extends_by_def using iso assms(3) x(2,4,5) use tf by simp
qed

lemma entry_flags:
  assumes "4096 dvd unat f"
  shows "tbl (f OR (flags AND 0xFFF) OR PTE_PRESENT) = f"
    and "(f OR (flags AND 0xFFF) OR PTE_PRESENT) AND 0xFFF = (flags AND 0xFFF) OR PTE_PRESENT"
proof -
  have m: "(0xFFF :: u32) = mask 12" by (simp add: mask_eq_exp_minus_1)
  have k: "flags AND 0xFFF OR PTE_PRESENT = take_bit 12 (flags OR PTE_PRESENT)"
    unfolding m take_bit_eq_mask [symmetric] by (simp add: take_bit_or PTE_PRESENT_def)
  have "unat (flags AND 0xFFF OR PTE_PRESENT) < 4096"
    unfolding k unat_take_bit by simp
  from tbl_or_flags [OF assms this] show "tbl (f OR (flags AND 0xFFF) OR PTE_PRESENT) = f"
    by (simp add: or.assoc)
  have z: "take_bit 12 f = 0"
    using assms by (simp add: word_unat_eq_iff unat_take_bit dvd_eq_mod_eq_0)
  have "(f OR (flags AND 0xFFF) OR PTE_PRESENT) AND 0xFFF = take_bit 12 (f OR take_bit 12 (flags OR PTE_PRESENT))"
    unfolding or.assoc k unfolding m take_bit_eq_mask ..
  also have "\<dots> = take_bit 12 (flags OR PTE_PRESENT)"
    by (simp add: take_bit_or z)
  finally show "(f OR (flags AND 0xFFF) OR PTE_PRESENT) AND 0xFFF = (flags AND 0xFFF) OR PTE_PRESENT"
    by (simp only: k)
qed

text \<open>One round of the allocation loop that maps a page.\<close>

lemma alloc_step:
  assumes iso: "vm_iso v" and n: "2 ^ 18 \<le> n" "n < 0xD0000" and none: "walk v sp (pg n) = None"
    and al: "pmm_alloc_frame (phys v) = (f, p)" and "f \<noteq> 0"
    and mp: "vmm_map_in sp (pg n) f flags (v\<lparr>phys := p, mem := zero_page f (mem v)\<rparr>) = (r, v1)"
  shows "if r < 0
    then extends_by v (v1\<lparr>phys := pmm_free_frame f (phys v1)\<rparr>) sp flags n n
    else extends_by v v1 sp flags n (Suc n)"
proof -
  define w where "w = v\<lparr>phys := p, mem := zero_page f (mem v)\<rparr>"
  note f = fresh_frame [OF vm_isoD(1) [OF iso] al assms(6), folded w_def]
  note w = fresh_iso [OF iso al assms(6), folded w_def]
  have f_al: "4096 dvd unat f" by (rule f(10))
  have pgn: "user_page (pg n)" "unat (pg n) div 4096 = n" "4096 dvd unat (pg n)"
    using user_pg [OF n] n by (simp_all add: pg_unat)
  define e where "e = f OR (flags AND 0xFFF) OR PTE_PRESENT"
  note mc = map_in_cases [OF vm_isoD(1) [OF w(1)] pgn(1), of sp f flags r v1, folded w_def e_def]
  have fw: "in_use w f" "f \<notin> table_frames w" using f(4,5,9) table_frames_in_use [OF vm_isoD(1) [OF iso]] by auto
  show ?thesis
  proof (cases "r < 0")
    case True
    then have v1: "v1 = w" using mc mp by (auto simp: w_def)
    let ?u = "w\<lparr>phys := pmm_free_frame f (phys w)\<rparr>"
    note r = release_frame_ok [OF f(1) fw(2) assms(6)]
    have use: "in_use ?u a \<longleftrightarrow> in_use v a" for a
      using release_in_use(1) [OF vm_okD(1) [OF f(1)] assms(6), of a] f(4,5) by auto
    have "vm_iso ?u"
      unfolding vm_iso_def r(2,3) use f(2,9) using r(1) vm_isoD [OF iso] by blast
    moreover have "keeps_data v ?u" using w(2) by (simp add: keeps_data_def)
    ultimately show ?thesis
      using True use r(2,3) f(2,9) by (simp add: v1 extends_by_def w_def)
  next
    case False
    then have c: "vm_ok v1" "spaces v1 = spaces w" "\<And>a. in_use w a \<Longrightarrow> in_use v1 a"
      "\<And>a. in_use w a \<Longrightarrow> a \<in> table_frames v1 \<Longrightarrow> a \<in> table_frames w" "keeps_data w v1"
      "\<And>sp1 b. walk v1 sp1 b = (if sp1 = sp \<and> unat b div 4096 = n then Some e else walk w sp1 b)"
      using mc mp pgn(2) by (auto simp: w_def)
    have e: "tbl e = f" "e AND 0xFFF = (flags AND 0xFFF) OR PTE_PRESENT"
      using entry_flags [OF f_al, of flags] by (simp_all add: e_def)
    have data: "in_use v1 (tbl e1) \<and> tbl e1 \<notin> table_frames v1"
      if "user_page b" "walk w sp1 b = Some e1" for sp1 b e1
      using vm_isoD(2) [OF w(1) that] c(3,4) by blast
    have other: "tbl e1 \<noteq> f" if "user_page b" "walk w sp1 b = Some e1" for sp1 b e1
      using vm_isoD(2) [OF iso that(1), of sp1 e1] that(2) f(2,5) by auto
    have "vm_iso v1"
      unfolding vm_iso_def
    proof (intro conjI allI impI)
      show "vm_ok v1" by (rule c(1))
    next
      fix sp1 b e1
      assume "user_page b" "walk v1 sp1 b = Some e1"
      then show "in_use v1 (tbl e1)" "tbl e1 \<notin> table_frames v1"
        using data [of b sp1 e1] c(3,4) fw e(1) by (auto simp: c(6) split: if_splits)
    next
      fix sp1 b e1 sp2 b2 e2
      assume "user_page b" "user_page b2" "walk v1 sp1 b = Some e1" "walk v1 sp2 b2 = Some e2" "tbl e1 = tbl e2"
      then show "sp1 = sp2" "unat b div 4096 = unat b2 div 4096"
        using vm_isoD(3) [OF w(1), of b b2 sp1 e1 sp2 e2] other [of b sp1 e1] other [of b2 sp2 e2] e(1)
        by (auto simp: c(6) split: if_splits)
    qed
    moreover have zero: "fresh_entry v1 flags e"
      using e c(5) fw by (auto simp: fresh_entry_def keeps_data_def w_def zero_page_def)
    moreover have "keeps_data v v1"
      by (rule keeps_trans [OF w(2) c(5)]) (simp_all add: f(4,9))
    moreover have "walk v sp b = None" if "unat b div 4096 = n" for b
      using none walk_page [of b "pg n"] that pgn(2) by simp
    ultimately show ?thesis
      using False c f(2,4,9) by (auto simp: extends_by_def w_def)
  qed
qed

lemma extends_snoc:
  assumes "extends_by v0 v sp flags lo n" and "extends_by v v1 sp flags n m"
    and "lo \<le> n" "n \<le> m" "2 ^ 18 \<le> lo" "m \<le> 0xD0000"
  shows "extends_by v0 v1 sp flags lo m"
proof -
  note x = extendsD [OF assms(2)]
  show ?thesis
    by (rule extends_trans [OF assms(1) x(1-3) x(4,5) assms(3-6) x(6,7)])
qed

definition restored :: "vm \<Rightarrow> vm \<Rightarrow> bool" where
  "restored v0 v' \<longleftrightarrow> vm_iso v' \<and> walk v' = walk v0 \<and> spaces v' = spaces v0 \<and> keeps_data v0 v'"

lemma roll_back_restored:
  assumes "extends_by v0 v sp flags lo n" and "live v0 sp" and "lo < n" "2 ^ 18 \<le> lo" "n \<le> 0xD0000"
  shows "restored v0 (roll_back sp (Some (pg lo)) (pg n) v)"
  using roll_back_spec [OF assms] by (simp add: restored_def)

text \<open>The loop after its first allocation.\<close>

lemma alloc_pages_some:
  assumes "extends_by v0 v sp flags lo n" and "live v0 sp" and "lo < n" "2 ^ 18 \<le> lo" "n \<le> h" "h \<le> 0xD0000"
    and "alloc_pages sp flags (map pg [n..<h]) (Some (pg lo)) v = (r, v')"
  shows "r = 0 \<and> extends_by v0 v' sp flags lo h \<or> r = -1 \<and> restored v0 v'"
  using assms
proof (induction "h - n" arbitrary: n v)
  case 0
  then show ?case by simp
next
  case (Suc k)
  then have n: "n < h" "n < 0xD0000" "2 ^ 18 \<le> n" "lo \<le> n" by auto
  have list: "map pg [n..<h] = pg n # map pg [Suc n..<h]" using n(1) by (simp add: upt_conv_Cons)
  note iso = extendsD(1) [OF Suc.prems(1)]
  have pgn: "user_page (pg n)" "4096 dvd unat (pg n)" using user_pg [OF n(3,2)] by simp_all
  note tr = translate_page(2) [OF iso pgn, of sp]
  note undo = roll_back_restored [OF _ Suc.prems(2-4)]
  obtain f p where al: "pmm_alloc_frame (phys v) = (f, p)" by fastforce
  show ?case
  proof (cases "walk v sp (pg n) \<noteq> None \<or> f = 0")
    case True
    moreover have "f = 0 \<Longrightarrow> p = phys v" using no_frame [OF vm_isoD(1) [OF iso]] al by simp
    ultimately have "r = -1" "v' = roll_back sp (Some (pg lo)) (pg n) v"
      using Suc.prems(7) tr al by (auto simp: list split: if_splits)
    then show ?thesis using undo [OF Suc.prems(1)] n by simp
  next
    case False
    obtain r1 v1 where mp: "vmm_map_in sp (pg n) f flags (v\<lparr>phys := p, mem := zero_page f (mem v)\<rparr>) = (r1, v1)"
      by fastforce
    note st = alloc_step [OF iso n(3,2) _ al _ mp]
    show ?thesis
    proof (cases "r1 < 0")
      case True
      let ?u = "v1\<lparr>phys := pmm_free_frame f (phys v1)\<rparr>"
      have "extends_by v0 ?u sp flags lo n"
        using extends_snoc [OF Suc.prems(1), of ?u n] st True False n Suc.prems(4) by simp
      moreover have "r = -1" "v' = roll_back sp (Some (pg lo)) (pg n) ?u"
        using Suc.prems(7) tr al mp True False by (auto simp: list)
      ultimately show ?thesis using undo n by simp
    next
      case r1: False
      have "extends_by v0 v1 sp flags lo (Suc n)"
        using extends_snoc [OF Suc.prems(1), of v1 "Suc n"] st r1 False n Suc.prems(4) by simp
      moreover have "alloc_pages sp flags (map pg [Suc n..<h]) (Some (pg lo)) v1 = (r, v')"
        using Suc.prems(7) tr al mp r1 False by (simp add: list)
      ultimately show ?thesis
        using Suc.hyps(1) [of "Suc n" v1] Suc.hyps(2) Suc.prems(2-6) n by simp
    qed
  qed
qed

lemma alloc_pages_none:
  assumes "vm_iso v" and "live v sp" and "2 ^ 18 \<le> n" "n \<le> h" "h \<le> 0xD0000"
    and "alloc_pages sp flags (map pg [n..<h]) None v = (r, v')"
  shows "r = 0 \<and> (\<exists>lo. n \<le> lo \<and> lo \<le> h \<and> extends_by v v' sp flags lo h \<and> (\<forall>k \<in> {n..<lo}. walk v sp (pg k) \<noteq> None)) \<or>
    r = -1 \<and> restored v v'"
  using assms
proof (induction "h - n" arbitrary: n)
  case 0
  then show ?case using extends_refl [of v sp flags h] by auto
next
  case (Suc k)
  then have n: "n < h" "n < 0xD0000" "2 ^ 18 \<le> n" by auto
  have list: "map pg [n..<h] = pg n # map pg [Suc n..<h]" using n(1) by (simp add: upt_conv_Cons)
  note iso = Suc.prems(1)
  have pgn: "user_page (pg n)" "4096 dvd unat (pg n)" using user_pg [OF n(3,2)] by simp_all
  note tr = translate_page(2) [OF iso pgn, of sp]
  have stay: "restored v v" using iso by (simp add: restored_def keeps_data_def)
  obtain f p where al: "pmm_alloc_frame (phys v) = (f, p)" by fastforce
  show ?case
  proof (cases "walk v sp (pg n)")
    case (Some e)
    then have "alloc_pages sp flags (map pg [Suc n..<h]) None v = (r, v')"
      using Suc.prems(6) tr by (simp add: list)
    moreover have "k = h - Suc n" using Suc.hyps(2) by simp
    ultimately consider "r = 0" "\<exists>lo. Suc n \<le> lo \<and> lo \<le> h \<and> extends_by v v' sp flags lo h \<and>
        (\<forall>k \<in> {Suc n..<lo}. walk v sp (pg k) \<noteq> None)" | "r = -1" "restored v v'"
      using Suc.hyps(1) [of "Suc n"] Suc.prems(1-5) n by auto
    then show ?thesis
    proof cases
      case 1
      then obtain lo where lo: "Suc n \<le> lo" "lo \<le> h" "extends_by v v' sp flags lo h"
        "\<forall>k \<in> {Suc n..<lo}. walk v sp (pg k) \<noteq> None" by blast
      then have "\<forall>k \<in> {n..<lo}. walk v sp (pg k) \<noteq> None"
        using Some by (metis atLeastLessThan_iff le_neq_implies_less Suc_leI option.distinct(1))
      with lo 1(1) show ?thesis by (meson Suc_leD)
    qed simp
  next
    case None
    show ?thesis
    proof (cases "f = 0")
      case True
      then have "r = -1" "v' = v"
        using Suc.prems(6) None tr al no_frame [OF vm_isoD(1) [OF iso]] by (auto simp: list roll_back_def)
      with stay show ?thesis by simp
    next
      case False
      obtain r1 v1 where mp: "vmm_map_in sp (pg n) f flags (v\<lparr>phys := p, mem := zero_page f (mem v)\<rparr>) = (r1, v1)"
        by fastforce
      note st = alloc_step [OF iso n(3,2) None al False mp]
      show ?thesis
      proof (cases "r1 < 0")
        case True
        let ?u = "v1\<lparr>phys := pmm_free_frame f (phys v1)\<rparr>"
        have "extends_by v ?u sp flags n n" using st True by simp
        then have "restored v ?u"
          using extendsD [of v ?u sp flags n n] by (auto simp: restored_def fun_eq_iff)
        moreover have "r = -1" "v' = ?u"
          using Suc.prems(6) tr al mp True False None by (auto simp: list roll_back_def)
        ultimately show ?thesis by simp
      next
        case r1: False
        have "extends_by v v1 sp flags n (Suc n)" using st r1 by simp
        moreover have "alloc_pages sp flags (map pg [Suc n..<h]) (Some (pg n)) v1 = (r, v')"
          using Suc.prems(6) tr al mp r1 False None by (simp add: list)
        ultimately have "r = 0 \<and> extends_by v v' sp flags n h \<or> r = -1 \<and> restored v v'"
          using alloc_pages_some [of v v1 sp flags n "Suc n" h r v'] Suc.prems(2) n Suc.prems(5) by simp
        then show ?thesis using n(1) by (auto intro: exI [of _ n])
      qed
    qed
  qed
qed

text \<open>
  C4: \<^verbatim>\<open>vmm_map_in\<close> on a page of the user half.  On success the page translates to the given frame
  with the given flags and every other page of every address space translates as before; on failure
  nothing changes, and it fails only for a missing space, unaligned addresses or when no frame is left
  for a page table.  The structure of directories and tables stays intact.
\<close>

theorem vmm_map_in_correct:
  assumes "vm_ok v" and "user_page virt" and "vmm_map_in sp virt pa flags v = (r, v')"
  shows "vm_ok v' \<and>
    (r = 0 \<and> (\<forall>sp1 virt1. walk v' sp1 virt1 =
        (if sp1 = sp \<and> unat virt1 div 4096 = unat virt div 4096
         then Some (pa OR (flags AND 0xFFF) OR PTE_PRESENT) else walk v sp1 virt1)) \<or>
     r = -1 \<and> v' = v \<and>
       (\<not> live v sp \<or> \<not> 4096 dvd unat virt \<or> \<not> 4096 dvd unat pa \<or> avail (phys v) = {}))"
  using map_in_cases [OF assms] by blast

definition sample_vm :: vm where
  "sample_vm = \<lparr>phys = sample_pmm, mem = \<lambda>_. 0,
     spaces = (\<lambda>sp. if sp = Kernel_space then \<lparr>pd = 0x1000, pd_phys = 0x1000\<rparr>
       else if sp = Proc_space 1 then \<lparr>pd = 0x2000, pd_phys = 0x2000\<rparr> else \<lparr>pd = 0, pd_phys = 0\<rparr>),
     current_space = Some Kernel_space, mapped_pages = 0, cr3 = 0x1000, paging_on = True\<rparr>"

lemma sample_vm_iso: "vm_iso sample_vm"
proof -
  have rd: "rd32 (\<lambda>_. 0) a = 0" for a by (simp add: rd32_def)
  have pde: "pde sample_vm sp i = 0" for sp i by (simp add: pde_def sample_vm_def rd)
  then have walk: "walk sample_vm sp a = None" for sp a by (simp add: walk_def)
  have sp: "spaces sample_vm = (\<lambda>sp. if sp = Kernel_space then \<lparr>pd = 0x1000, pd_phys = 0x1000\<rparr>
      else if sp = Proc_space 1 then \<lparr>pd = 0x2000, pd_phys = 0x2000\<rparr> else \<lparr>pd = 0, pd_phys = 0\<rparr>)"
    by (simp add: sample_vm_def)
  have "pmm_ready (phys sample_vm)" using sample_wf unfolding sample_vm_def by (simp add: pmm_ready_def frame_free_def sample_pmm_def bit_test_iff)
  moreover have "in_use sample_vm 0x1000" "in_use sample_vm 0x2000"
    by (simp_all add: in_use_def managed_def avail_def frame_free_def sample_vm_def sample_pmm_def bit_test_iff)
  ultimately have "vm_ok sample_vm"
    unfolding vm_ok_def pde using sp by (auto simp: live_def split: if_splits)
  then show ?thesis by (simp add: vm_iso_def walk)
qed

theorem vmm_map_in_correct_witness:
  "vm_ok sample_vm \<and> user_page 0x40000000 \<and>
   vm_ok (snd (vmm_map_in (Proc_space 1) 0x40000000 0x3000 6 sample_vm))"
  using vmm_map_in_correct [OF _ _ surjective_pairing, of sample_vm "0x40000000" "Proc_space 1" "0x3000" 6]
    vm_isoD(1) [OF sample_vm_iso]
  by (simp add: user_page_def USER_MIN_def USER_MAX_def)

text \<open>
  \<^verbatim>\<open>vmm_unmap_in\<close> removes exactly one user page of one space and frees no frame, and
  \<^verbatim>\<open>vmm_translate_in\<close> returns 0 for that page afterwards.
\<close>

lemma vmm_unmap_in_correct:
  assumes "vm_ok v" and "user_page virt"
  shows "vm_ok (vmm_unmap_in sp virt v) \<and> phys (vmm_unmap_in sp virt v) = phys v \<and>
    vmm_translate_in sp virt (vmm_unmap_in sp virt v) = 0 \<and>
    (\<forall>sp1 a. \<not> (sp1 = sp \<and> unat a div 4096 = unat virt div 4096) \<longrightarrow>
       vmm_translate_in sp1 a (vmm_unmap_in sp virt v) = vmm_translate_in sp1 a v)"
  using unmap_walk [OF assms, of sp] assms(1) by (auto simp: translate_walk)


lemma sum64: "unat (ucast a + ucast b :: u64) = unat a + unat b" for a b :: u32
  using unat_lt2p [of a] unat_lt2p [of b] by (subst unat_plus_simple) (simp_all add: u_simps)

lemma alloc_range_spec:
  assumes "vm_iso v" and "flags AND PTE_USER \<noteq> 0" and "vmm_alloc_range sp start sz flags v = (r, v')"
  shows "vm_iso v' \<and> spaces v' = spaces v \<and> keeps_data v v' \<and>
    (r = 0 \<and>
       (\<forall>a. unat start \<le> unat a \<longrightarrow> unat a < unat start + unat sz \<longrightarrow> walk v' sp a \<noteq> None) \<and>
       (\<forall>sp1 a e. walk v sp1 a = Some e \<longrightarrow> walk v' sp1 a = Some e) \<and>
       (\<forall>sp1 a e. walk v sp1 a = None \<longrightarrow> walk v' sp1 a = Some e \<longrightarrow>
          sp1 = sp \<and> unat start div 4096 \<le> unat a div 4096 \<and> unat a div 4096 < (unat start + unat sz + 4095) div 4096 \<and>
          fresh_entry v' flags e) \<or>
     r = -1 \<and> walk v' = walk v)"
proof (cases "live v sp \<and> sz \<noteq> 0 \<and> unat USER_MIN \<le> unat start \<and> unat start + unat sz \<le> unat USER_MAX")
  case False
  note sum = sum64 [of start sz]
  have "vmm_alloc_range sp start sz flags v = (if live v sp \<and> sz = 0 then 0 else -1, v)"
    using False assms(2) sum
    by (auto simp: vmm_alloc_range_def live_def Let_def word_less_nat_alt word_le_nat_alt u_simps)
  then have "v' = v \<and> (r = 0 \<and> sz = 0 \<or> r = -1)" using assms(3) by (auto split: if_splits)
  then show ?thesis using assms(1) by (auto simp: keeps_data_def)
next
  case True
  define n h where "n = unat start div 4096" and "h = (unat start + unat sz + 4095) div 4096"
  have b: "unat start + unat sz \<le> 0xD0000000" "0x40000000 \<le> unat start"
    using True by (simp_all add: USER_MAX_def USER_MIN_def)
  have nh: "2 ^ 18 \<le> n" "n \<le> h" "h \<le> 0xD0000"
    using b by (auto simp: n_def h_def less_eq_div_iff_mult_less_eq intro: div_le_mono)
  have al: "alloc_pages sp flags (map pg [n..<h]) None v = (r, v')"
    using assms(2,3) True b range_end [of start sz] range_pages [of start sz] sum64 [of start sz]
    by (auto simp: vmm_alloc_range_def live_def Let_def word_less_nat_alt word_le_nat_alt n_def h_def
        USER_MIN_def USER_MAX_def split: if_splits)
  from alloc_pages_none [OF assms(1) conjunct1 [OF True] nh al]
  consider lo where "r = 0" "n \<le> lo" "lo \<le> h" "extends_by v v' sp flags lo h"
      "\<forall>k \<in> {n..<lo}. walk v sp (pg k) \<noteq> None" | "r = -1" "restored v v'"
    by blast
  then show ?thesis
  proof cases
    case 1
    note x = extendsD [OF 1(4)]
    have "walk v' sp a \<noteq> None" if a: "unat start \<le> unat a" "unat a < unat start + unat sz" for a
    proof -
      have p: "n \<le> unat a div 4096" "unat a div 4096 < h"
        using a by (auto simp: n_def h_def div_le_mono)
      show ?thesis
      proof (cases "lo \<le> unat a div 4096")
        case True
        then show ?thesis using x(6) [of sp a] p by auto
      next
        case False
        then have "walk v sp (pg (unat a div 4096)) \<noteq> None" using 1(5) p(1) by auto
        moreover have "walk v sp (pg (unat a div 4096)) = walk v sp a"
          using p(2) nh(3) by (intro walk_page) simp
        ultimately show ?thesis using x(7) [of sp a] False by simp
      qed
    qed
    moreover have "walk v' sp1 a = Some e" if "walk v sp1 a = Some e" for sp1 a e
      using x(6,7) [of sp1 a] that by (cases "sp1 = sp \<and> unat a div 4096 \<in> {lo..<h}") auto
    moreover have "sp1 = sp \<and> n \<le> unat a div 4096 \<and> unat a div 4096 < h \<and> fresh_entry v' flags e"
      if "walk v sp1 a = None" "walk v' sp1 a = Some e" for sp1 a e
      using x(6,7) [of sp1 a] that 1(2) by (cases "sp1 = sp \<and> unat a div 4096 \<in> {lo..<h}") auto
    ultimately show ?thesis
      using 1(1) x(1,2,3) by (auto simp: n_def h_def)
  next
    case 2
    then show ?thesis by (simp add: restored_def)
  qed
qed

text \<open>
  C21: \<^verbatim>\<open>vmm_alloc_range\<close> for user pages either maps the whole range or changes no mapping.  On
  success every address of the range is mapped, all earlier mappings are kept, and each new mapping is
  a page of the range backed by a zeroed frame with the requested flags that no other user page of any
  process maps.  In both cases the contents of the frames in use are kept.
\<close>

theorem vmm_alloc_range_correct:
  assumes "vm_iso v" and "flags AND PTE_USER \<noteq> 0" and "vmm_alloc_range sp start sz flags v = (r, v')"
  shows "vm_iso v' \<and> keeps_data v v' \<and>
    (r = 0 \<and>
       (\<forall>a. unat start \<le> unat a \<longrightarrow> unat a < unat start + unat sz \<longrightarrow> walk v' sp a \<noteq> None) \<and>
       (\<forall>sp1 a e. walk v sp1 a = Some e \<longrightarrow> walk v' sp1 a = Some e) \<and>
       (\<forall>sp1 a e. walk v sp1 a = None \<longrightarrow> walk v' sp1 a = Some e \<longrightarrow>
          sp1 = sp \<and> unat start div 4096 \<le> unat a div 4096 \<and> unat a div 4096 < (unat start + unat sz + 4095) div 4096 \<and>
          fresh_entry v' flags e) \<or>
     r = -1 \<and> walk v' = walk v)"
  using alloc_range_spec [OF assms] by blast

theorem vmm_alloc_range_correct_witness:
  "vm_iso sample_vm \<and> (7::u32) AND PTE_USER \<noteq> 0 \<and>
   vm_iso (snd (vmm_alloc_range (Proc_space 1) 0x40000000 0x2000 7 sample_vm))"
  using vmm_alloc_range_correct [OF sample_vm_iso _ surjective_pairing, of 7 "Proc_space 1" "0x40000000" "0x2000"]
    sample_vm_iso by (simp add: PTE_USER_def)

lemma free_range_spec:
  assumes "vm_iso v" and "live v sp" and "sz \<noteq> 0"
    and "unat USER_MIN \<le> unat start" and "unat start + unat sz \<le> unat USER_MAX"
  defines "v' \<equiv> vmm_free_range sp start sz v"
    and "inside \<equiv> \<lambda>a. unat start div 4096 \<le> unat a div 4096 \<and> unat a div 4096 < (unat start + unat sz + 4095) div 4096"
  shows "vm_iso v' \<and> spaces v' = spaces v \<and> table_frames v' = table_frames v \<and> writes_tables v v' \<and>
    (\<forall>sp1 a. walk v' sp1 a = (if sp1 = sp \<and> inside a then None else walk v sp1 a)) \<and>
    (\<forall>g. in_use v' g \<longleftrightarrow> in_use v g \<and> \<not> (\<exists>a e. inside a \<and> walk v sp a = Some e \<and> g = tbl e))"
proof -
  define n h where "n = unat start div 4096" and "h = (unat start + unat sz + 4095) div 4096"
  have b: "unat start + unat sz \<le> 0xD0000000" "0x40000000 \<le> unat start"
    using assms(4,5) by (simp_all add: USER_MAX_def USER_MIN_def)
  have nh: "\<forall>k \<in> set [n..<h]. 2 ^ 18 \<le> k \<and> k < 0xD0000"
    using b by (auto simp: n_def h_def less_eq_div_iff_mult_less_eq)
  have v': "v' = fold (free_page sp) (map pg [n..<h]) v"
    unfolding v'_def n_def h_def by (rule free_range_pages [OF assms(2) b(1) assms(3)])
  note f = free_pages_spec [OF assms(1) nh, of sp, folded v']
  have ins: "inside a \<longleftrightarrow> unat a div 4096 \<in> set [n..<h]" for a by (auto simp: inside_def n_def h_def)
  have pgn: "unat (pg k) div 4096 = k" if "k \<in> set [n..<h]" for k
    using that nh by (intro pg_page) blast
  have ex: "(\<exists>k \<in> set [n..<h]. \<exists>e. walk v sp (pg k) = Some e \<and> g = tbl e) \<longleftrightarrow>
      (\<exists>a e. inside a \<and> walk v sp a = Some e \<and> g = tbl e)" (is "?l \<longleftrightarrow> ?r") for g
  proof
    assume ?l
    then show ?r using ins pgn by metis
  next
    assume ?r
    then obtain a e where a: "inside a" "walk v sp a = Some e" "g = tbl e" by blast
    moreover have "walk v sp a = walk v sp (pg (unat a div 4096))"
      using pgn a(1) ins by (intro walk_page) simp
    ultimately show ?l using ins by metis
  qed
  have "in_use v' g \<longleftrightarrow> in_use v g \<and> \<not> (\<exists>a e. inside a \<and> walk v sp a = Some e \<and> g = tbl e)" for g
    unfolding ex [symmetric] using f by blast
  moreover have "walk v' sp1 a = (if sp1 = sp \<and> inside a then None else walk v sp1 a)" for sp1 a
    using f ins by simp
  ultimately show ?thesis using f by blast
qed

text \<open>
  \<^verbatim>\<open>vmm_free_range\<close> on a user range unmaps exactly the pages the range touches in that space
  and returns exactly the frames behind them to the allocator.
\<close>

lemma vmm_free_range_correct:
  assumes "vm_iso v" and "live v sp" and "sz \<noteq> 0"
    and "unat USER_MIN \<le> unat start" and "unat start + unat sz \<le> unat USER_MAX"
  defines "v' \<equiv> vmm_free_range sp start sz v"
    and "inside \<equiv> \<lambda>a. unat start div 4096 \<le> unat a div 4096 \<and> unat a div 4096 < (unat start + unat sz + 4095) div 4096"
  shows "vm_iso v' \<and>
    (\<forall>sp1 a. walk v' sp1 a = (if sp1 = sp \<and> inside a then None else walk v sp1 a)) \<and>
    (\<forall>g. in_use v' g \<longleftrightarrow> in_use v g \<and> \<not> (\<exists>a e. inside a \<and> walk v sp a = Some e \<and> g = tbl e))"
  using free_range_spec [OF assms(1-5)] unfolding v'_def inside_def by blast

section \<open>Creating an address space\<close>

lemma kernel_dir_index: "is_kernel_pde (dir_index a) \<longleftrightarrow> \<not> user_page a"
  by (auto simp: user_page_def is_kernel_pde_def USER_MIN_def USER_MAX_def USER_PDE_END_def
      KERNEL_PDE_LOW_END_def PDE_SPAN_def word_less_nat_alt word_le_nat_alt dir_index_div unat_div)

lemma all_indices: "i \<in> set (map of_nat [0..<1024]) \<longleftrightarrow> i < 1024" for i :: u32
proof
  assume "i < 1024"
  then have "unat i \<in> {0..<1024}" by (simp add: word_less_nat_alt)
  then show "i \<in> set (map of_nat [0..<1024])"
    unfolding set_map set_upt by (rule image_eqI [rotated]) simp
qed (auto simp: word_less_nat_alt unsigned_of_nat take_bit_eq_mod)

lemma share_fold:
  fixes sp :: space_ref
  assumes "\<forall>i \<in> set is. i < 1024" and "4096 dvd unat (pd (spaces v sp))"
    and "4096 dvd unat (pd (spaces v Kernel_space))" and "pd (spaces v sp) \<noteq> pd (spaces v Kernel_space)"
  defines "v' \<equiv> fold (share_entry sp) is v"
  shows "spaces v' = spaces v \<and> phys v' = phys v \<and>
    (\<forall>a j. 4096 dvd unat a \<longrightarrow> j < 1024 \<longrightarrow> rd32 (mem v') (entry_addr a j) =
      (if a = pd (spaces v sp) \<and> j \<in> set is \<and> is_kernel_pde j
       then rd32 (mem v) (entry_addr (pd (spaces v Kernel_space)) j) else rd32 (mem v) (entry_addr a j))) \<and>
    (\<forall>x. drop_bit 12 x \<noteq> drop_bit 12 (pd (spaces v sp)) \<longrightarrow> mem v' x = mem v x)"
  using assms(1-4) unfolding v'_def
proof (induction "is" arbitrary: v)
  case (Cons i "is")
  define v1 where "v1 = share_entry sp i v"
  have s: "spaces v1 = spaces v" "phys v1 = phys v" by (simp_all add: v1_def share_entry_def)
  have m: "rd32 (mem v1) (entry_addr a j) = (if a = pd (spaces v sp) \<and> j = i \<and> is_kernel_pde i
      then rd32 (mem v) (entry_addr (pd (spaces v Kernel_space)) i) else rd32 (mem v) (entry_addr a j))"
    if "4096 dvd unat a" "j < 1024" for a j
    using that Cons.prems by (auto simp: v1_def share_entry_def rd32_entry_wr32)
  have x: "mem v1 x = mem v x" if "drop_bit 12 x \<noteq> drop_bit 12 (pd (spaces v sp))" for x
    using that Cons.prems entry_write_bytes by (simp add: v1_def share_entry_def)
  note IH = Cons.IH [of v1, unfolded s]
  show ?case
    using IH Cons.prems m s x by (auto simp: v1_def [symmetric])
qed simp

lemma space_create_spec:
  fixes f :: u32
  assumes iso: "vm_iso v" and dead: "\<not> live v sp" and lk: "live v Kernel_space"
    and al: "pmm_alloc_frame (phys v) = (f, p)" and nz: "f \<noteq> 0" and cr: "vmm_space_create sp v = (r, v')"
  shows "r = 0" and "vm_iso v'" and "live v' s \<longleftrightarrow> live v s \<or> s = sp"
    and "s \<noteq> sp \<Longrightarrow> walk v' s = walk v s"
    and "walk v' sp a = (if user_page a then None else walk v Kernel_space a)"
proof -
  note d = vm_isoD [OF iso]
  define v1 where "v1 = v\<lparr>phys := p, mem := zero_page f (mem v)\<rparr>"
  define v2 where "v2 = set_space sp f v1"
  note fr = fresh_frame [OF d(1) al nz, folded v1_def]
  note o = vm_okD [OF d(1)]
  have ne: "sp \<noteq> Kernel_space" using dead lk by auto
  have sp2: "spaces v2 = (spaces v)(sp := \<lparr>pd = f, pd_phys = f\<rparr>)" "mem v2 = mem v1" "phys v2 = p"
    by (simp_all add: v2_def set_space_def v1_def)
  show "r = 0" using cr al nz by (simp add: vmm_space_create_def)
  have v': "v' = fold (share_entry sp) (map of_nat [0..<1024]) v2"
    using cr al nz by (simp add: vmm_space_create_def v2_def v1_def)
  let ?k = "pd (spaces v Kernel_space)"
  have kal: "4096 dvd unat ?k" using in_use_aligned [OF o(2) [OF lk]] .
  have fk: "f \<noteq> ?k" using fr(6) [of Kernel_space] .
  have ixs: "\<forall>i \<in> set (map of_nat [0..<1024]). i < (1024 :: u32)" using all_indices by blast
  have sh: "spaces v' = spaces v2" "phys v' = p"
    "\<And>a j. 4096 dvd unat a \<Longrightarrow> j < 1024 \<Longrightarrow> rd32 (mem v') (entry_addr a j) =
      (if a = f \<and> is_kernel_pde j then rd32 (mem v1) (entry_addr ?k j) else rd32 (mem v1) (entry_addr a j))"
    using share_fold [of "map of_nat [0..<1024]" v2 sp] kal fk fr(10) ne ixs all_indices
    by (simp_all add: v' sp2)
  have lv: "live v' s \<longleftrightarrow> live v s \<or> s = sp" for s
    using nz by (auto simp: live_def sh sp2)
  then show "live v' s \<longleftrightarrow> live v s \<or> s = sp" .
  have pd': "pd (spaces v' s) = (if s = sp then f else pd (spaces v s))" for s by (simp add: sh sp2)
  have old: "rd32 (mem v') (entry_addr a j) = rd32 (mem v) (entry_addr a j)" if "in_use v a" "j < 1024" for a j
    using that sh(3) [of a j] in_use_aligned fr(5,10) by (auto simp: v1_def rd32_entry_zero)
  have pde: "pde v' s i = (if s = sp then if is_kernel_pde i then pde v Kernel_space i else 0 else pde v s i)"
    if "live v' s" "i < 1024" for s i
  proof (cases "s = sp")
    case True
    then show ?thesis
      using sh(3) [OF fr(10) that(2)] that(2) fr(3) [OF lk that(2)] fr(8) [OF that(2)]
      by (simp add: pde_def pd' v1_def)
  next
    case False
    then show ?thesis
      using that lv old [OF o(2), of s i] by (simp add: pde_def pd')
  qed
  have use: "in_use v' a \<longleftrightarrow> in_use v a \<or> a = f" for a
    using fr(4) [of a] by (simp add: in_use_def sh v1_def)
  have tblf: "tbl (pde v s i) \<noteq> f" "pd (spaces v s) \<noteq> f" if "live v s" "i < 1024" "present (pde v s i)" for s i
    using fr(6,7) that by metis+
  have "vm_ok v'"
    unfolding vm_ok_def
  proof (intro conjI allI impI)
    show "pmm_ready (phys v')" using fr(1) vm_okD(1) by (fastforce simp: sh v1_def)
  next
    fix s assume "live v' s"
    then show "in_use v' (pd (spaces v' s))" using lv o(2) by (auto simp: pd' use)
  next
    fix s s' assume "live v' s" "pd (spaces v' s) = pd (spaces v' s')"
    then show "s = s'" using lv o(3) [of s s'] fr(6) by (auto simp: pd' split: if_splits)
  next
    fix s i assume a: "live v' s" "i < 1024" "present (pde v' s i)"
    then show "in_use v' (tbl (pde v' s i))"
      using pde [OF a(1,2)] o(4) lk lv by (auto simp: use split: if_splits)
    fix s' show "tbl (pde v' s i) \<noteq> pd (spaces v' s')"
      using a pde [OF a(1,2)] o(5) lk lv fr(7) by (auto simp: pd' split: if_splits)
  next
    fix s s' i j
    assume a: "live v' s" "live v' s'" "i < 1024" "j < 1024" "present (pde v' s i)" "present (pde v' s' j)"
      "tbl (pde v' s i) = tbl (pde v' s' j)"
    have s: "\<exists>t. live v t \<and> (t = s \<or> is_kernel_pde i) \<and> pde v' s i = pde v t i"
      using a pde [OF a(1,3)] lk lv by (auto split: if_splits)
    have s': "\<exists>t. live v t \<and> (t = s' \<or> is_kernel_pde j) \<and> pde v' s' j = pde v t j"
      using a pde [OF a(2,4)] lk lv by (auto split: if_splits)
    from s s' show "i = j" "s = s' \<or> is_kernel_pde i" using o(6) a by metis+
  qed
  have tab: "rd32 (mem v') (entry_addr (tbl (pde v s i)) j) = rd32 (mem v) (entry_addr (tbl (pde v s i)) j)"
    if "live v s" "i < 1024" "present (pde v s i)" "j < 1024" for s i j
    using old [OF o(4) [OF that(1-3)] that(4)] .
  show walk_old: "walk v' s = walk v s" if "s \<noteq> sp" for s
  proof
    fix a
    show "walk v' s a = walk v s a"
      using that pde [of s "dir_index a"] tab [of s "dir_index a" "table_index a"] lv by (auto simp: walk_def)
  qed
  show walk_new: "walk v' sp a = (if user_page a then None else walk v Kernel_space a)" for a
    using pde [of sp "dir_index a"] tab [of Kernel_space "dir_index a" "table_index a"] lv lk
    by (auto simp: walk_def kernel_dir_index)
  have tf: "table_frames v' \<subseteq> insert f (table_frames v)"
  proof
    fix x assume "x \<in> table_frames v'"
    then obtain s where s: "live v' s" "x = pd (spaces v' s) \<or> (\<exists>i<1024. present (pde v' s i) \<and> x = tbl (pde v' s i))"
      unfolding table_frames_def by blast
    then show "x \<in> insert f (table_frames v)"
      using lv lk table_framesI [of v] pde [OF s(1)] by (auto simp: pd' split: if_splits)
  qed
  show "vm_iso v'"
    unfolding vm_iso_def
  proof (intro conjI allI impI)
    show "vm_ok v'" by fact
  next
    fix s a e assume "user_page a" "walk v' s a = Some e"
    then have "walk v s a = Some e" "user_page a" using walk_old walk_new by (cases "s = sp"; simp)+
    then show "in_use v' (tbl e)" "tbl e \<notin> table_frames v'" using d(2) [of a s e] use tf fr(5) by auto
  next
    fix s a e s' a' e'
    assume a: "user_page a" "user_page a'" "walk v' s a = Some e" "walk v' s' a' = Some e'" "tbl e = tbl e'"
    then have "walk v s a = Some e" "walk v s' a' = Some e'"
      using walk_old walk_new by (cases "s = sp"; cases "s' = sp"; simp)+
    then show "s = s'" "unat a div 4096 = unat a' div 4096" using d(3) a by blast+
  qed
qed

section \<open>Destroying an address space\<close>

lemma release_ptes:
  assumes "pmm_ready (phys v)"
    and "\<forall>j \<in> set js. present (rd32 (mem v) (entry_addr t j)) \<longrightarrow> tbl (rd32 (mem v) (entry_addr t j)) \<noteq> 0"
  shows "mem (fold (release_pte t) js v) = mem v \<and> spaces (fold (release_pte t) js v) = spaces v \<and>
    pmm_ready (phys (fold (release_pte t) js v)) \<and>
    (\<forall>g. in_use (fold (release_pte t) js v) g \<longleftrightarrow> in_use v g \<and>
      (\<forall>j \<in> set js. present (rd32 (mem v) (entry_addr t j)) \<longrightarrow> g \<noteq> tbl (rd32 (mem v) (entry_addr t j))))"
  using assms
proof (induction js arbitrary: v)
  case (Cons j js)
  let ?e = "rd32 (mem v) (entry_addr t j)"
  define v1 where "v1 = release_pte t j v"
  have s: "mem v1 = mem v" "spaces v1 = spaces v" by (simp_all add: v1_def release_pte_def Let_def)
  have u: "(in_use v1 g \<longleftrightarrow> in_use v g \<and> (present ?e \<longrightarrow> g \<noteq> tbl ?e)) \<and> pmm_ready (phys v1)" for g
  proof (cases "present ?e")
    case True
    then have nz: "tbl ?e \<noteq> 0" using Cons.prems(2) by simp
    have "phys v1 = pmm_free_frame (tbl ?e) (phys v)" using True by (simp add: v1_def release_pte_def Let_def)
    then show ?thesis
      using release_in_use(1) [OF Cons.prems(1) nz, of g] release_in_use(2) [OF Cons.prems(1) nz] True
      by (simp add: in_use_def)
  qed (use Cons.prems(1) in \<open>simp add: v1_def release_pte_def Let_def\<close>)
  with Cons.IH [of v1] Cons.prems(2) show ?case
    by (auto simp: s v1_def [symmetric])
qed simp

lemma address_of_cell:
  assumes "i < 1024" and "j < 1024"
  obtains a where "dir_index a = i" "table_index a = j"
proof -
  let ?n = "unat i * 4194304 + unat j * 4096"
  have ij: "unat i < 1024" "unat j < 1024" using assms by (simp_all add: word_less_nat_alt)
  then have "unat (of_nat ?n :: u32) = ?n"
    by (subst unsigned_of_nat) (simp add: take_bit_eq_mod)
  then have "unat (dir_index (of_nat ?n)) = unat i" "unat (table_index (of_nat ?n)) = unat j"
    using ij by (simp_all only: dir_index_div table_index_mod) simp_all
  then show ?thesis using that [of "of_nat ?n"] by (simp add: word_unat_eq_iff)
qed

lemma release_pde_spec:
  fixes sp :: space_ref and i :: u32
  assumes iso: "vm_iso v" and lv: "live v sp" and i: "i < 1024" and ui: "\<not> is_kernel_pde i"
  defines "v' \<equiv> release_pde sp i v"
  shows "vm_iso v' \<and> spaces v' = spaces v \<and>
    (\<forall>s a. walk v' s a = (if s = sp \<and> dir_index a = i then None else walk v s a)) \<and>
    (\<forall>s j. live v s \<longrightarrow> j < 1024 \<longrightarrow> \<not> (s = sp \<and> j = i) \<longrightarrow> pde v' s j = pde v s j) \<and> \<not> present (pde v' sp i) \<and>
    (\<forall>g. in_use v' g \<longleftrightarrow> in_use v g \<and> \<not> (\<exists>a e. dir_index a = i \<and> walk v sp a = Some e \<and> g = tbl e) \<and>
       \<not> (present (pde v sp i) \<and> g = tbl (pde v sp i)))"
proof (cases "present (pde v sp i)")
  case False
  then have "v' = v" by (simp add: v'_def release_pde_def Let_def pde_def)
  moreover have "walk v sp a = None" if "dir_index a = i" for a using False that by (simp add: walk_def)
  ultimately show ?thesis using iso False by auto
next
  case True
  note d = vm_isoD [OF iso]
  note o = vm_okD [OF d(1)]
  define t where "t = tbl (pde v sp i)"
  define v1 where "v1 = fold (release_pte t) (map of_nat [0..<1024]) v"
  have t: "in_use v t" "t \<noteq> 0" "4096 dvd unat t" using o(4) [OF lv i True] by (simp_all add: t_def in_use_def)
  have cell: "\<exists>a. dir_index a = i \<and> walk v sp a = Some e"
    if j: "j < 1024" and e: "e = rd32 (mem v) (entry_addr t j)" "present e" for j e
  proof -
    obtain a where "dir_index a = i" "table_index a = j" using address_of_cell [OF i j] .
    then show ?thesis using e lv True by (auto simp: walk_def t_def)
  qed
  have ue: "user_page a" if "dir_index a = i" for a using kernel_dir_index [of a] that ui by simp
  have data: "in_use v (tbl e) \<and> tbl e \<notin> table_frames v" if "dir_index a = i" "walk v sp a = Some e" for a e
    using d(2) [OF ue [OF that(1)] that(2)] .
  have nz: "tbl (rd32 (mem v) (entry_addr t j)) \<noteq> 0" if "j < 1024" "present (rd32 (mem v) (entry_addr t j))" for j
    using cell [OF that(1) refl that(2)] data by (auto simp: in_use_def)
  note r = release_ptes [OF o(1), of "map of_nat [0..<1024]" t, folded v1_def]
  have r1: "mem v1 = mem v" "spaces v1 = spaces v" "pmm_ready (phys v1)"
    "\<And>g. in_use v1 g \<longleftrightarrow> in_use v g \<and> (\<forall>j < 1024. present (rd32 (mem v) (entry_addr t j)) \<longrightarrow>
      g \<noteq> tbl (rd32 (mem v) (entry_addr t j)))"
    using r nz unfolding Ball_def all_indices by blast+
  have walked: "(\<exists>j<1024. present (rd32 (mem v) (entry_addr t j)) \<and> g = tbl (rd32 (mem v) (entry_addr t j))) \<longleftrightarrow>
      (\<exists>a e. dir_index a = i \<and> walk v sp a = Some e \<and> g = tbl e)" for g
  proof
    assume "\<exists>a e. dir_index a = i \<and> walk v sp a = Some e \<and> g = tbl e"
    then obtain a e where "dir_index a = i" "walk v sp a = Some e" "g = tbl e" by blast
    then show "\<exists>j<1024. present (rd32 (mem v) (entry_addr t j)) \<and> g = tbl (rd32 (mem v) (entry_addr t j))"
      by (intro exI [of _ "table_index a"]) (auto simp: walk_def t_def Let_def split: if_splits)
  qed (use cell in blast)
  have v': "v' = v1\<lparr>phys := pmm_free_frame t (phys v1), mem := wr32 (entry_addr (pd (spaces v sp)) i) 0 (mem v)\<rparr>"
    using True r1(1) by (simp add: v'_def release_pde_def Let_def pde_def t_def v1_def)
  have use: "in_use v' g \<longleftrightarrow> in_use v g \<and> \<not> (\<exists>a e. dir_index a = i \<and> walk v sp a = Some e \<and> g = tbl e) \<and> g \<noteq> t" for g
  proof -
    have "in_use v' g \<longleftrightarrow> in_use v1 g \<and> g \<noteq> t"
      using release_in_use(1) [OF r1(3) t(2), of g] by (simp add: v' in_use_def)
    then show ?thesis unfolding walked [symmetric] r1(4) by blast
  qed
  have sp': "spaces v' = spaces v" "live v' = live v" by (simp_all add: v' r1 live_def fun_eq_iff)
  have dal: "4096 dvd unat (pd (spaces v sp))" using in_use_aligned [OF o(2) [OF lv]] .
  have pde: "pde v' s j = (if s = sp \<and> j = i then 0 else pde v s j)" if "live v s" "j < 1024" for s j
    using that o(3) [OF lv, of s] in_use_aligned [OF o(2) [OF that(1)]] dal i
    by (auto simp: pde_def sp') (auto simp: v' rd32_entry_wr32)
  have stay: "in_use v' g" if "g \<in> table_frames v" "g \<noteq> t" for g
    using that use table_frames_in_use [OF d(1)] data by blast
  have tabs: "tbl (pde v s j) \<noteq> t" if "live v s" "j < 1024" "present (pde v s j)" "\<not> (s = sp \<and> j = i)" for s j
    using o(6) [OF that(1) lv that(2) i that(3) True] that(4) ui by (auto simp: t_def)
  have ok: "vm_ok v'"
    unfolding vm_ok_def sp'
  proof (intro conjI allI impI)
    show "pmm_ready (phys v')" using release_in_use(2) [OF r1(3) t(2)] by (simp add: v')
  next
    fix s assume "live v s"
    then show "in_use v' (pd (spaces v s))"
      using stay table_framesI(1) o(5) [OF lv i True] by (metis t_def)
  next
    fix s s' assume "live v s" "pd (spaces v s) = pd (spaces v s')" then show "s = s'" using o(3) by blast
  next
    fix s j assume a: "live v s" "j < 1024" "present (pde v' s j)"
    then have b: "pde v' s j = pde v s j" "\<not> (s = sp \<and> j = i)" "present (pde v s j)"
      using pde by (auto split: if_splits)
    show "in_use v' (tbl (pde v' s j))"
      using stay table_framesI(2) [OF a(1,2) b(3)] tabs [OF a(1,2) b(3,2)] by (simp add: b(1))
    fix s' show "tbl (pde v' s j) \<noteq> pd (spaces v s')" using o(5) [OF a(1,2) b(3)] by (simp add: b(1))
  next
    fix s s' j k
    assume a: "live v s" "live v s'" "j < 1024" "k < 1024" "present (pde v' s j)" "present (pde v' s' k)"
      "tbl (pde v' s j) = tbl (pde v' s' k)"
    then have "present (pde v s j)" "present (pde v s' k)" "tbl (pde v s j) = tbl (pde v s' k)"
      using pde [OF a(1,3)] pde [OF a(2,4)] by (auto split: if_splits)
    with o(6) a show "j = k" "s = s' \<or> is_kernel_pde j" by blast+
  qed
  have walk: "walk v' s a = (if s = sp \<and> dir_index a = i then None else walk v s a)" for s a
  proof (cases "live v s \<and> present (pde v s (dir_index a))")
    case False
    then show ?thesis using pde [of s "dir_index a"] by (auto simp: walk_def sp')
  next
    case live: True
    have "rd32 (mem v') (entry_addr (tbl (pde v s (dir_index a))) (table_index a)) =
        rd32 (mem v) (entry_addr (tbl (pde v s (dir_index a))) (table_index a))"
      using o(5) [of s "dir_index a" sp] live dal i by (auto simp: v' rd32_entry_wr32)
    then show ?thesis using live pde [of s "dir_index a"] by (auto simp: walk_def sp')
  qed
  have tf: "table_frames v' \<subseteq> table_frames v"
  proof
    fix x assume "x \<in> table_frames v'"
    then obtain s where s: "live v s" "x = pd (spaces v s) \<or> (\<exists>j<1024. present (pde v' s j) \<and> x = tbl (pde v' s j))"
      unfolding table_frames_def sp' by blast
    then show "x \<in> table_frames v"
      using table_framesI [OF s(1)] pde [OF s(1)] by (auto split: if_splits)
  qed
  have "vm_iso v'"
    unfolding vm_iso_def
  proof (intro conjI allI impI)
    show "vm_ok v'" by (rule ok)
  next
    fix s a e assume a: "user_page a" "walk v' s a = Some e"
    then have w: "walk v s a = Some e" "\<not> (s = sp \<and> dir_index a = i)" by (auto simp: walk split: if_splits)
    have "\<not> (\<exists>b e1. dir_index b = i \<and> walk v sp b = Some e1 \<and> tbl e = tbl e1)"
      using d(3) [OF a(1) ue w(1)] w(2) page_cell by metis
    then show "in_use v' (tbl e)" "tbl e \<notin> table_frames v'"
      using d(2) [OF a(1) w(1)] use tf table_framesI(2) [OF lv i True] by (auto simp: t_def)
  next
    fix s a e s' a' e'
    assume a: "user_page a" "user_page a'" "walk v' s a = Some e" "walk v' s' a' = Some e'" "tbl e = tbl e'"
    then have "walk v s a = Some e" "walk v s' a' = Some e'" by (auto simp: walk split: if_splits)
    then show "s = s'" "unat a div 4096 = unat a' div 4096" using d(3) a by blast+
  qed
  then show ?thesis
    using sp' walk pde use lv i True by (simp add: t_def)
qed

lemma release_pdes:
  assumes "vm_iso v" and "live v sp" and "\<forall>i \<in> set is. i < 1024 \<and> \<not> is_kernel_pde i"
  shows "vm_iso (fold (release_pde sp) is v) \<and> spaces (fold (release_pde sp) is v) = spaces v \<and>
    (\<forall>s a. walk (fold (release_pde sp) is v) s a = (if s = sp \<and> dir_index a \<in> set is then None else walk v s a)) \<and>
    (\<forall>s j. live v s \<longrightarrow> j < 1024 \<longrightarrow> \<not> (s = sp \<and> j \<in> set is) \<longrightarrow> pde (fold (release_pde sp) is v) s j = pde v s j) \<and>
    (\<forall>i \<in> set is. \<not> present (pde (fold (release_pde sp) is v) sp i)) \<and>
    (\<forall>g. in_use (fold (release_pde sp) is v) g \<longleftrightarrow> in_use v g \<and>
       \<not> (\<exists>a e. dir_index a \<in> set is \<and> walk v sp a = Some e \<and> g = tbl e) \<and>
       \<not> (\<exists>i \<in> set is. present (pde v sp i) \<and> g = tbl (pde v sp i)))"
  using assms
proof (induction "is" arbitrary: v)
  case (Cons i "is")
  define v1 where "v1 = release_pde sp i v"
  have i: "i < 1024" "\<not> is_kernel_pde i" using Cons.prems(3) by auto
  have s: "vm_iso v1" "spaces v1 = spaces v"
    "\<And>s a. walk v1 s a = (if s = sp \<and> dir_index a = i then None else walk v s a)"
    "\<And>s j. live v s \<Longrightarrow> j < 1024 \<Longrightarrow> \<not> (s = sp \<and> j = i) \<Longrightarrow> pde v1 s j = pde v s j" "\<not> present (pde v1 sp i)"
    "\<And>g. in_use v1 g \<longleftrightarrow> in_use v g \<and> \<not> (\<exists>a e. dir_index a = i \<and> walk v sp a = Some e \<and> g = tbl e) \<and>
       \<not> (present (pde v sp i) \<and> g = tbl (pde v sp i))"
    using release_pde_spec [OF Cons.prems(1,2) i] by (simp_all add: v1_def)
  have l: "live v1 s = live v s" for s by (simp add: live_def s(2))
  have lv: "live v sp" by (rule Cons.prems(2))
  define w where "w = fold (release_pde sp) is v1"
  have IH: "vm_iso w" "spaces w = spaces v"
    "\<And>s a. walk w s a = (if s = sp \<and> dir_index a \<in> set is then None else walk v1 s a)"
    "\<And>s j. live v s \<Longrightarrow> j < 1024 \<Longrightarrow> \<not> (s = sp \<and> j \<in> set is) \<Longrightarrow> pde w s j = pde v1 s j"
    "\<And>i. i \<in> set is \<Longrightarrow> \<not> present (pde w sp i)"
    "\<And>g. in_use w g \<longleftrightarrow> in_use v1 g \<and>
       \<not> (\<exists>a e. dir_index a \<in> set is \<and> walk v1 sp a = Some e \<and> g = tbl e) \<and>
       \<not> (\<exists>i \<in> set is. present (pde v1 sp i) \<and> g = tbl (pde v1 sp i))"
    using Cons.IH [OF s(1)] Cons.prems(2,3) l s(2) by (simp_all add: w_def)
  have p: "present (pde v1 sp j) \<and> g = tbl (pde v1 sp j) \<longleftrightarrow> j \<noteq> i \<and> present (pde v sp j) \<and> g = tbl (pde v sp j)"
    if "j \<in> set is" for j g
    using that s(4) [OF lv, of j] s(5) Cons.prems(3) by (cases "j = i") auto
  have A: "(\<exists>a e. dir_index a \<in> set is \<and> walk v1 sp a = Some e \<and> g = tbl e) \<longleftrightarrow>
      (\<exists>a e. dir_index a \<in> set is \<and> dir_index a \<noteq> i \<and> walk v sp a = Some e \<and> g = tbl e)" for g
    by (auto simp: s(3))
  have B: "(\<exists>j \<in> set is. present (pde v1 sp j) \<and> g = tbl (pde v1 sp j)) \<longleftrightarrow>
      (\<exists>j \<in> set is. j \<noteq> i \<and> present (pde v sp j) \<and> g = tbl (pde v sp j))" for g
    using p by blast
  have D: "(\<exists>a e. dir_index a \<in> set (i # is) \<and> P a e) \<longleftrightarrow>
      (\<exists>a e. dir_index a = i \<and> P a e) \<or> (\<exists>a e. dir_index a \<in> set is \<and> dir_index a \<noteq> i \<and> P a e)"
    "(\<exists>j \<in> set (i # is). Q j) \<longleftrightarrow> Q i \<or> (\<exists>j \<in> set is. j \<noteq> i \<and> Q j)" for P :: "u32 \<Rightarrow> u32 \<Rightarrow> bool" and Q
    by (simp, blast) (simp, metis)
  have "\<not> present (pde w sp j)" if "j \<in> set (i # is)" for j
    using that IH(4) [OF lv i(1)] IH(5) s(5) by (cases "j \<in> set is") auto
  moreover have "in_use w g \<longleftrightarrow> in_use v g \<and>
       \<not> (\<exists>a e. dir_index a \<in> set (i # is) \<and> walk v sp a = Some e \<and> g = tbl e) \<and>
       \<not> (\<exists>i \<in> set (i # is). present (pde v sp i) \<and> g = tbl (pde v sp i))" for g
    unfolding IH(6) s(6) A B D by (simp only: de_Morgan_disj conj_ac)
  ultimately show ?case
    using IH(1-4) s(3,4) by (auto simp: w_def v1_def)
qed simp

lemma user_indices: "i \<in> set (map of_nat [unat USER_PDE_START..<unat USER_PDE_END]) \<longleftrightarrow> i < 1024 \<and> \<not> is_kernel_pde i"
  for i :: u32
proof -
  have b: "unat USER_PDE_START = 256" "unat USER_PDE_END = 832"
    by (simp_all add: USER_PDE_START_def USER_PDE_END_def USER_MIN_def USER_MAX_def PDE_SPAN_def unat_div)
  have "i < 1024 \<and> \<not> is_kernel_pde i \<longleftrightarrow> unat i \<in> {256..<832}"
    by (auto simp: is_kernel_pde_def KERNEL_PDE_LOW_END_def USER_PDE_END_def USER_MIN_def USER_MAX_def PDE_SPAN_def
        word_less_nat_alt word_le_nat_alt unat_div)
  also have "\<dots> \<longleftrightarrow> i \<in> set (map of_nat [256..<832])"
  proof
    assume "unat i \<in> {256..<832}"
    then show "i \<in> set (map of_nat [256..<832])"
      unfolding set_map set_upt by (rule image_eqI [rotated]) simp
  next
    assume "i \<in> set (map of_nat [256..<832])"
    then obtain n where "i = of_nat n" "n \<in> {256..<832}" unfolding set_map set_upt by blast
    then show "unat i \<in> {256..<832}" by (auto simp: unsigned_of_nat take_bit_eq_mod)
  qed
  finally show ?thesis by (simp only: b)
qed

text \<open>
  C22: a new address space created by \<^verbatim>\<open>vmm_space_create\<close> sees exactly the kernel's mappings outside
  the user half and nothing inside it; all other spaces are unchanged.  Without a free frame the call
  fails and changes nothing.
\<close>

theorem vmm_space_create_correct:
  assumes "vm_iso v" and "\<not> live v sp" and "live v Kernel_space" and "vmm_space_create sp v = (r, v')"
  shows "vm_iso v' \<and>
    (r = 0 \<and> live v' sp \<and>
       (\<forall>a. walk v' sp a = (if user_page a then None else walk v Kernel_space a)) \<and>
       (\<forall>s. s \<noteq> sp \<longrightarrow> walk v' s = walk v s) \<or>
     r = -1 \<and> v' = v \<and> avail (phys v) = {})"
proof -
  obtain f p where al: "pmm_alloc_frame (phys v) = (f, p)" by fastforce
  show ?thesis
  proof (cases "f = 0")
    case True
    have "p = phys v" "avail (phys v) = {}"
      using fa.alloc_none [OF vm_okD(1) [OF vm_isoD(1) [OF assms(1)]]] al True by auto
    with assms(1,4) al True show ?thesis by (auto simp: vmm_space_create_def)
  next
    case False
    from space_create_spec [OF assms(1-3) al False assms(4)] show ?thesis by blast
  qed
qed

theorem vmm_space_create_correct_witness:
  "vm_iso sample_vm \<and> \<not> live sample_vm (Proc_space 2) \<and> live sample_vm Kernel_space \<and>
   vm_iso (snd (vmm_space_create (Proc_space 2) sample_vm))"
proof -
  have "\<not> live sample_vm (Proc_space 2)" "live sample_vm Kernel_space" by (simp_all add: live_def sample_vm_def)
  with vmm_space_create_correct [OF sample_vm_iso this surjective_pairing] sample_vm_iso show ?thesis by blast
qed

lemma space_destroy_spec:
  assumes "vm_iso v" and "live v sp" and "sp \<noteq> Kernel_space" and "pd_phys (spaces v sp) = pd (spaces v sp)"
  defines "v' \<equiv> vmm_space_destroy sp v"
  shows "vm_iso v' \<and> \<not> live v' sp \<and> (\<forall>s. s \<noteq> sp \<longrightarrow> walk v' s = walk v s) \<and>
    (\<forall>g. in_use v' g \<longleftrightarrow> in_use v g \<and> g \<noteq> pd (spaces v sp) \<and>
       \<not> (\<exists>a e. user_page a \<and> walk v sp a = Some e \<and> g = tbl e) \<and>
       \<not> (\<exists>i. i < 1024 \<and> \<not> is_kernel_pde i \<and> present (pde v sp i) \<and> g = tbl (pde v sp i)))"
proof -
  let ?is = "map of_nat [unat USER_PDE_START..<unat USER_PDE_END]" and ?d = "pd (spaces v sp)"
  define w where "w = fold (release_pde sp) ?is v"
  note rp = release_pdes [OF assms(1,2), of ?is, folded w_def]
  have w: "vm_iso w" "spaces w = spaces v"
    "\<And>s a. walk w s a = (if s = sp \<and> user_page a then None else walk v s a)"
    "\<And>s j. live v s \<Longrightarrow> j < 1024 \<Longrightarrow> \<not> (s = sp \<and> \<not> is_kernel_pde j) \<Longrightarrow> pde w s j = pde v s j"
    "\<And>g. in_use w g \<longleftrightarrow> in_use v g \<and> \<not> (\<exists>a e. user_page a \<and> walk v sp a = Some e \<and> g = tbl e) \<and>
       \<not> (\<exists>i. i < 1024 \<and> \<not> is_kernel_pde i \<and> present (pde v sp i) \<and> g = tbl (pde v sp i))"
    using rp unfolding user_indices Ball_def Bex_def by (simp_all add: kernel_dir_index)
  note d = vm_isoD [OF w(1)]
  note o = vm_okD [OF d(1)]
  have lw: "live w s = live v s" for s by (simp add: live_def w(2))
  have d0: "?d \<noteq> 0" using assms(2) by (simp add: live_def)
  have v': "v' = w\<lparr>phys := pmm_free_frame ?d (phys w), spaces := (spaces v)(sp := \<lparr>pd = 0, pd_phys = 0\<rparr>)\<rparr>"
    using d0 assms(3,4) by (simp add: v'_def vmm_space_destroy_def Let_def set_space_def w(2) flip: w_def)
  have use: "in_use v' g \<longleftrightarrow> in_use w g \<and> g \<noteq> ?d" for g
    using release_in_use(1) [OF o(1) d0, of g] by (simp add: v' in_use_def)
  have lv: "live v' s \<longleftrightarrow> live w s \<and> s \<noteq> sp" for s by (auto simp: v' live_def w(2))
  have same: "pde v' s = pde w s" "pd (spaces v' s) = pd (spaces w s)" if "s \<noteq> sp" for s
    using that by (simp_all add: v' pde_def fun_eq_iff w(2))
  have pd0: "pd (spaces v' sp) = 0" by (simp add: v')
  have walk: "walk v' s = (if s = sp then (\<lambda>_. None) else walk w s)" for s
    using same [of s] lv [of s] by (auto simp: walk_def fun_eq_iff) (auto simp: v')
  have notd: "pd (spaces w s) \<noteq> ?d" if "live w s" "s \<noteq> sp" for s using o(3) [OF that(1), of sp] that(2) by (auto simp: w(2))
  have ok: "vm_ok v'"
    unfolding vm_ok_def
  proof (intro conjI allI impI)
    show "pmm_ready (phys v')" using release_in_use(2) [OF o(1) d0] by (simp add: v')
  next
    fix s assume "live v' s"
    then show "in_use v' (pd (spaces v' s))" using o(2) [of s] lv use same(2) notd by auto
  next
    fix s s' assume a: "live v' s" "pd (spaces v' s) = pd (spaces v' s')"
    then have "s' \<noteq> sp" using pd0 by (auto simp: live_def)
    then show "s = s'" using a o(3) [of s s'] lv same(2) by auto
  next
    fix s i assume a: "live v' s" "i < 1024" "present (pde v' s i)"
    then have b: "live w s" "s \<noteq> sp" "present (pde w s i)" using lv same(1) by auto
    then show "in_use v' (tbl (pde v' s i))"
      using o(4) [OF b(1) a(2) b(3)] o(5) [OF b(1) a(2) b(3), of sp] by (simp add: use same(1) w(2))
    fix s' show "tbl (pde v' s i) \<noteq> pd (spaces v' s')"
      using o(4,5) [OF b(1) a(2) b(3)] same b(2) pd0 by (cases "s' = sp") (auto simp: in_use_def)
  next
    fix s s' i j
    assume a: "live v' s" "live v' s'" "i < 1024" "j < 1024" "present (pde v' s i)" "present (pde v' s' j)"
      "tbl (pde v' s i) = tbl (pde v' s' j)"
    then have "live w s" "live w s'" "present (pde w s i)" "present (pde w s' j)" "tbl (pde w s i) = tbl (pde w s' j)"
      using lv same(1) by auto
    with o(6) a(3,4) show "i = j" "s = s' \<or> is_kernel_pde i" by blast+
  qed
  have tf: "table_frames v' \<subseteq> table_frames w"
  proof
    fix x assume "x \<in> table_frames v'"
    then obtain s where s: "live w s" "s \<noteq> sp" "x = pd (spaces v' s) \<or> (\<exists>j<1024. present (pde v' s j) \<and> x = tbl (pde v' s j))"
      unfolding table_frames_def lv by blast
    then show "x \<in> table_frames w" using table_framesI [OF s(1)] same [OF s(2)] by auto
  qed
  have "vm_iso v'"
    unfolding vm_iso_def
  proof (intro conjI allI impI)
    show "vm_ok v'" by (rule ok)
  next
    fix s a e assume "user_page a" "walk v' s a = Some e"
    then have "user_page a" "walk w s a = Some e" by (auto simp: walk split: if_splits)
    from d(2) [OF this] show "in_use v' (tbl e)" "tbl e \<notin> table_frames v'"
      using tf table_framesI(1) [of w sp] lw assms(2) w(2) by (auto simp: use)
  next
    fix s a e s' a' e'
    assume a: "user_page a" "user_page a'" "walk v' s a = Some e" "walk v' s' a' = Some e'" "tbl e = tbl e'"
    then have "walk w s a = Some e" "walk w s' a' = Some e'" by (auto simp: walk split: if_splits)
    then show "s = s'" "unat a div 4096 = unat a' div 4096" using d(3) a by blast+
  qed
  moreover have "walk v' s = walk v s" if "s \<noteq> sp" for s
    using that w(3) [of s] by (auto simp: walk fun_eq_iff)
  moreover have "in_use v' g \<longleftrightarrow> in_use v g \<and> g \<noteq> ?d \<and>
       \<not> (\<exists>a e. user_page a \<and> walk v sp a = Some e \<and> g = tbl e) \<and>
       \<not> (\<exists>i. i < 1024 \<and> \<not> is_kernel_pde i \<and> present (pde v sp i) \<and> g = tbl (pde v sp i))" for g
    unfolding use w(5) by blast
  ultimately show ?thesis using lv by blast
qed

text \<open>
  C23: \<^verbatim>\<open>vmm_space_destroy\<close> gives back exactly the frames the process owned (its user pages, its
  page tables and its directory), removes its mappings, and changes no mapping of another space.
\<close>

theorem vmm_space_destroy_correct:
  assumes "vm_iso v" and "live v sp" and "sp \<noteq> Kernel_space" and "pd_phys (spaces v sp) = pd (spaces v sp)"
  defines "v' \<equiv> vmm_space_destroy sp v"
  shows "vm_iso v' \<and> \<not> live v' sp \<and> (\<forall>s. s \<noteq> sp \<longrightarrow> walk v' s = walk v s) \<and>
    (\<forall>g. in_use v' g \<longleftrightarrow> in_use v g \<and> g \<noteq> pd (spaces v sp) \<and>
       \<not> (\<exists>a e. user_page a \<and> walk v sp a = Some e \<and> g = tbl e) \<and>
       \<not> (\<exists>i. i < 1024 \<and> \<not> is_kernel_pde i \<and> present (pde v sp i) \<and> g = tbl (pde v sp i)))"
  unfolding v'_def by (rule space_destroy_spec [OF assms(1-4)])

theorem vmm_space_destroy_correct_witness:
  "vm_iso sample_vm \<and> live sample_vm (Proc_space 1) \<and> in_use sample_vm 0x2000 \<and>
   \<not> in_use (vmm_space_destroy (Proc_space 1) sample_vm) 0x2000"
proof -
  have "live sample_vm (Proc_space 1)" by (simp add: live_def sample_vm_def)
  moreover have "in_use sample_vm 0x2000"
    by (simp add: in_use_def managed_def avail_def frame_free_def sample_vm_def sample_pmm_def bit_test_iff)
  moreover have "pd (spaces sample_vm (Proc_space 1)) = 0x2000" "pd_phys (spaces sample_vm (Proc_space 1)) = 0x2000"
    by (simp_all add: sample_vm_def)
  ultimately show ?thesis
    using vmm_space_destroy_correct [OF sample_vm_iso, of "Proc_space 1"] sample_vm_iso by simp
qed

end
