(* ===== verification/Kheap.thy ===== *)
theory Kheap
  imports Paging KString
begin

text \<open>
  The kernel heap, \<^verbatim>\<open>kernel/mm/kheap.c\<close>: a first-fit allocator over a doubly linked list of blocks
  whose headers lie in the heap memory itself.  The headers are read and written byte by byte in
  \<open>kmem\<close>, the heap's virtual memory; growing the heap takes frames from the frame allocator
  and maps them in the kernel half (\<open>kvm\<close>).  A function that walks the list returns an option:
  \<open>None\<close> is a call that does not return, either because the list is circular or because the
  kernel panics.

  The invariant \<open>heap_ok\<close> relates the memory to the list of blocks, and the theorems say what the
  four operations do to the set of live allocations and to their contents.
\<close>

unbundle bit_operations_syntax

section \<open>State\<close>

record block =
  magic :: u32
  bsize :: u32
  bnext :: u32
  bprev :: u32
  bfree :: u32

record kheap =
  kvm :: vm
  kmem :: memory
  first_block :: u32
  heap_end :: u32
  heap_bytes :: u32

definition HEAP_BASE :: u32 where "HEAP_BASE = KERNEL_HEAP_BASE"
definition HEAP_MAX_SIZE :: u32 where "HEAP_MAX_SIZE = KERNEL_HEAP_MAX - KERNEL_HEAP_BASE"
definition BLOCK_MAGIC :: u32 where "BLOCK_MAGIC = 0x48454150"
definition MIN_SPLIT :: u32 where "MIN_SPLIT = 32"
definition HEADER_SIZE :: u32 where "HEADER_SIZE = 20"

text \<open>The header at an address, and the assignments to its fields.\<close>

definition blk :: "memory \<Rightarrow> u32 \<Rightarrow> block" where
  "blk m b = \<lparr>magic = rd32 m b, bsize = rd32 m (b + 4), bnext = rd32 m (b + 8), bprev = rd32 m (b + 12),
     bfree = rd32 m (b + 16)\<rparr>"

definition set_magic :: "u32 \<Rightarrow> u32 \<Rightarrow> memory \<Rightarrow> memory" where "set_magic b v = wr32 b v"
definition set_size :: "u32 \<Rightarrow> u32 \<Rightarrow> memory \<Rightarrow> memory" where "set_size b v = wr32 (b + 4) v"
definition set_next :: "u32 \<Rightarrow> u32 \<Rightarrow> memory \<Rightarrow> memory" where "set_next b v = wr32 (b + 8) v"
definition set_prev :: "u32 \<Rightarrow> u32 \<Rightarrow> memory \<Rightarrow> memory" where "set_prev b v = wr32 (b + 12) v"
definition set_free :: "u32 \<Rightarrow> u32 \<Rightarrow> memory \<Rightarrow> memory" where "set_free b v = wr32 (b + 16) v"

section \<open>Growing\<close>

fun grow_pages :: "nat \<Rightarrow> kheap \<Rightarrow> int \<times> kheap" where
  "grow_pages 0 h = (0, h)"
| "grow_pages (Suc k) h =
     (case pmm_alloc_frame (phys (kvm h)) of (frame, p) \<Rightarrow>
        if frame = 0 then (- 1, h\<lparr>kvm := (kvm h)\<lparr>phys := p\<rparr>\<rparr>)
        else case vmm_map (heap_end h) frame (PTE_PRESENT OR PTE_WRITE) ((kvm h)\<lparr>phys := p\<rparr>) of (r, v) \<Rightarrow>
          if r < 0 then (- 1, h\<lparr>kvm := v\<lparr>phys := pmm_free_frame frame (phys v)\<rparr>\<rparr>)
          else grow_pages k (h\<lparr>kvm := v, heap_end := heap_end h + PAGE_SIZE,
                               heap_bytes := heap_bytes h + PAGE_SIZE\<rparr>))"

definition grow :: "u32 \<Rightarrow> kheap \<Rightarrow> int \<times> kheap" where
  "grow bytes h =
     (let pages = ALIGN_UP bytes PAGE_SIZE div PAGE_SIZE
      in if HEAP_BASE + HEAP_MAX_SIZE < heap_end h + pages * PAGE_SIZE then (- 1, h)
         else grow_pages (unat pages) h)"

definition kheap_init :: "kheap \<Rightarrow> kheap option" where
  "kheap_init h =
     (case grow (64 * 1024) (h\<lparr>heap_end := HEAP_BASE, heap_bytes := 0\<rparr>) of (r, h1) \<Rightarrow>
        if r < 0 then None
        else Some (h1\<lparr>first_block := HEAP_BASE,
               kmem := set_free HEAP_BASE 1 (set_prev HEAP_BASE 0 (set_next HEAP_BASE 0
                 (set_size HEAP_BASE (heap_bytes h1 - HEADER_SIZE) (set_magic HEAP_BASE BLOCK_MAGIC (kmem h1)))))\<rparr>))"

partial_function (option) last_block :: "memory \<Rightarrow> u32 \<Rightarrow> u32 option" where
  "last_block m b = (if bnext (blk m b) = 0 then Some b else last_block m (bnext (blk m b)))"

definition extend_heap :: "u32 \<Rightarrow> kheap \<Rightarrow> (int \<times> kheap) option" where
  "extend_heap needed h =
     (let chunk = ALIGN_UP (needed + HEADER_SIZE) (64 * 1024); old_end = heap_end h
      in case last_block (kmem h) (first_block h) of
           None \<Rightarrow> None
         | Some lastb \<Rightarrow>
             case grow chunk h of (r, h1) \<Rightarrow>
               if r < 0 then Some (- 1, h1)
               else let m = kmem h1; added = heap_end h1 - old_end in
                 if bfree (blk m lastb) \<noteq> 0
                 then Some (0, h1\<lparr>kmem := set_size lastb (bsize (blk m lastb) + added) m\<rparr>)
                 else Some (0, h1\<lparr>kmem := set_next lastb old_end (set_prev old_end lastb (set_next old_end 0
                   (set_free old_end 1 (set_size old_end (added - HEADER_SIZE)
                     (set_magic old_end BLOCK_MAGIC m)))))\<rparr>))"

section \<open>Allocating\<close>

definition split :: "u32 \<Rightarrow> u32 \<Rightarrow> memory \<Rightarrow> memory" where
  "split b sz m =
     (if bsize (blk m b) < sz + HEADER_SIZE + MIN_SPLIT then m
      else let rest = b + HEADER_SIZE + sz;
               m1 = set_magic rest BLOCK_MAGIC m;
               m2 = set_size rest (bsize (blk m1 b) - sz - HEADER_SIZE) m1;
               m3 = set_free rest 1 m2;
               m4 = set_next rest (bnext (blk m3 b)) m3;
               m5 = set_prev rest b m4;
               m6 = (if bnext (blk m5 b) \<noteq> 0 then set_prev (bnext (blk m5 b)) rest m5 else m5)
           in set_size b sz (set_next b rest m6))"

text \<open>The inner loop of \<^verbatim>\<open>kmalloc\<close>: the first free block that is large enough, or 0.\<close>

partial_function (option) find_fit :: "memory \<Rightarrow> u32 \<Rightarrow> u32 \<Rightarrow> u32 option" where
  "find_fit m sz b =
     (if b = 0 then Some 0
      else if bfree (blk m b) \<noteq> 0 \<and> sz \<le> bsize (blk m b) then Some b
      else find_fit m sz (bnext (blk m b)))"

fun kmalloc_attempt :: "nat \<Rightarrow> u32 \<Rightarrow> kheap \<Rightarrow> (u32 \<times> kheap) option" where
  "kmalloc_attempt 0 sz h = Some (0, h)"
| "kmalloc_attempt (Suc k) sz h =
     (case find_fit (kmem h) sz (first_block h) of
        None \<Rightarrow> None
      | Some b \<Rightarrow>
          if b \<noteq> 0 then Some (b + HEADER_SIZE, h\<lparr>kmem := set_free b 0 (split b sz (kmem h))\<rparr>)
          else case extend_heap sz h of
            None \<Rightarrow> None
          | Some (r, h1) \<Rightarrow> if r < 0 then Some (0, h1) else kmalloc_attempt k sz h1)"

definition kmalloc :: "u32 \<Rightarrow> kheap \<Rightarrow> (u32 \<times> kheap) option" where
  "kmalloc sz h = (if sz = 0 then Some (0, h) else kmalloc_attempt 2 (ALIGN_UP sz 8) h)"

definition kcalloc :: "u32 \<Rightarrow> u32 \<Rightarrow> kheap \<Rightarrow> (u32 \<times> kheap) option" where
  "kcalloc count sz h =
     (let total = count * sz
      in case kmalloc total h of
           None \<Rightarrow> None
         | Some (p, h1) \<Rightarrow> Some (p, if p \<noteq> 0 then h1\<lparr>kmem := memset p 0 total (kmem h1)\<rparr> else h1))"

section \<open>Freeing\<close>

text \<open>
  Merging a block with the one after it, the statements both branches of \<^verbatim>\<open>coalesce\<close> execute
  for the pairs \<open>(b, b->next)\<close> and \<open>(b->prev, b)\<close>.
\<close>

definition absorb :: "u32 \<Rightarrow> u32 \<Rightarrow> memory \<Rightarrow> memory" where
  "absorb b n m =
     (let m1 = set_size b (bsize (blk m b) + (HEADER_SIZE + bsize (blk m n))) m;
          m2 = set_next b (bnext (blk m1 n)) m1
      in if bnext (blk m2 n) \<noteq> 0 then set_prev (bnext (blk m2 n)) b m2 else m2)"

definition coalesce :: "u32 \<Rightarrow> memory \<Rightarrow> memory" where
  "coalesce b m =
     (let n = bnext (blk m b);
          m1 = (if n \<noteq> 0 \<and> bfree (blk m n) \<noteq> 0 then absorb b n m else m);
          p = bprev (blk m1 b)
      in if p \<noteq> 0 \<and> bfree (blk m1 p) \<noteq> 0 then absorb p b m1 else m1)"

definition kfree :: "u32 \<Rightarrow> kheap \<Rightarrow> kheap option" where
  "kfree ptr h =
     (if ptr = 0 then Some h
      else let b = ptr - HEADER_SIZE
           in if magic (blk (kmem h) b) \<noteq> BLOCK_MAGIC then None
              else if bfree (blk (kmem h) b) \<noteq> 0 then None
              else Some (h\<lparr>kmem := coalesce b (set_free b 1 (kmem h))\<rparr>))"

definition krealloc :: "u32 \<Rightarrow> u32 \<Rightarrow> kheap \<Rightarrow> (u32 \<times> kheap) option" where
  "krealloc ptr sz h =
     (if ptr = 0 then kmalloc sz h
      else if sz = 0 then map_option (Pair 0) (kfree ptr h)
      else let b = ptr - HEADER_SIZE
           in if magic (blk (kmem h) b) \<noteq> BLOCK_MAGIC then None
              else if sz \<le> bsize (blk (kmem h) b) then Some (ptr, h)
              else case kmalloc sz h of
                None \<Rightarrow> None
              | Some (fresh, h1) \<Rightarrow>
                  if fresh = 0 then Some (0, h1)
                  else map_option (Pair fresh)
                    (kfree ptr (h1\<lparr>kmem := memcpy fresh ptr (bsize (blk (kmem h1) b)) (kmem h1)\<rparr>)))"

section \<open>Inspection\<close>

partial_function (option) stats_walk ::
    "memory \<Rightarrow> u32 \<Rightarrow> u32 \<Rightarrow> u32 \<Rightarrow> u32 \<Rightarrow> (u32 \<times> u32 \<times> u32) option" where
  "stats_walk m b u f n =
     (if b = 0 then Some (u, f, n)
      else if bfree (blk m b) \<noteq> 0 then stats_walk m (bnext (blk m b)) u (f + bsize (blk m b)) (n + 1)
      else stats_walk m (bnext (blk m b)) (u + bsize (blk m b)) f (n + 1))"

definition kheap_stats :: "kheap \<Rightarrow> (u32 \<times> u32 \<times> u32 \<times> u32) option" where
  "kheap_stats h =
     map_option (\<lambda>(u, f, n). (u, f, heap_bytes h, n)) (stats_walk (kmem h) (first_block h) 0 0 0)"

partial_function (option) check_walk :: "memory \<Rightarrow> u32 \<Rightarrow> u32 \<Rightarrow> int option" where
  "check_walk m hend b =
     (if b = 0 then Some 0
      else if magic (blk m b) \<noteq> BLOCK_MAGIC then Some (- 1)
      else if bnext (blk m b) \<noteq> 0 \<and> bprev (blk m (bnext (blk m b))) \<noteq> b then Some (- 2)
      else if hend \<le> b then Some (- 3)
      else check_walk m hend (bnext (blk m b)))"

definition kheap_check :: "kheap \<Rightarrow> int option" where
  "kheap_check h = check_walk (kmem h) (heap_end h) (first_block h)"

section \<open>Headers in memory\<close>

text \<open>A block header is five aligned words.\<close>

definition hdr_at :: "u32 \<Rightarrow> bool" where
  "hdr_at a \<longleftrightarrow> 4 dvd unat a \<and> unat a + 20 \<le> 2 ^ 32"

definition apart :: "u32 \<Rightarrow> u32 \<Rightarrow> bool" where
  "apart a b \<longleftrightarrow> unat a + 20 \<le> unat b \<or> unat b + 20 \<le> unat a"

lemma hdr_word: "hdr_at a \<Longrightarrow> j < 5 \<Longrightarrow> unat (a + of_nat (4 * j)) = unat a + 4 * j"
proof -
  assume a: "hdr_at a" "j < 5"
  have "unat (of_nat (4 * j) :: u32) = 4 * j"
    using a(2) by (simp only: unsigned_of_nat take_bit_eq_mod of_nat_id) simp
  then show ?thesis using a unat_plus_simple [of a "of_nat (4 * j)"] by (simp add: hdr_at_def)
qed

lemma hdr_word_aligned: "hdr_at a \<Longrightarrow> j < 5 \<Longrightarrow> aligned4 (a + of_nat (4 * j))"
  using hdr_word [of a j] by (simp add: aligned4_def hdr_at_def)

lemma rd32_hdr_wr32:
  assumes "hdr_at a" "hdr_at b" "a = b \<or> apart a b" "i < 5" "j < 5"
  shows "rd32 (wr32 (b + of_nat (4 * j)) v m) (a + of_nat (4 * i)) =
    (if a = b \<and> i = j then v else rd32 m (a + of_nat (4 * i)))"
proof -
  have "a + of_nat (4 * i) = b + of_nat (4 * j) \<longleftrightarrow> a = b \<and> i = j"
    using assms hdr_word [of a i] hdr_word [of b j] by (auto simp: word_unat_eq_iff apart_def)
  then show ?thesis
    using rd32_wr32_other [of "b + of_nat (4 * j)" "a + of_nat (4 * i)" v m] assms
      hdr_word_aligned [of a i] hdr_word_aligned [of b j] by auto
qed

lemma blk_set:
  assumes "hdr_at a" "hdr_at b" "a = b \<or> apart a b"
  shows "blk (set_magic b v m) a = (if a = b then (blk m a)\<lparr>magic := v\<rparr> else blk m a)"
    and "blk (set_size b v m) a = (if a = b then (blk m a)\<lparr>bsize := v\<rparr> else blk m a)"
    and "blk (set_next b v m) a = (if a = b then (blk m a)\<lparr>bnext := v\<rparr> else blk m a)"
    and "blk (set_prev b v m) a = (if a = b then (blk m a)\<lparr>bprev := v\<rparr> else blk m a)"
    and "blk (set_free b v m) a = (if a = b then (blk m a)\<lparr>bfree := v\<rparr> else blk m a)"
proof -
  note w = rd32_hdr_wr32 [OF assms]
  have "rd32 (wr32 (b + of_nat (4 * j)) v m) a = (if a = b \<and> 0 = j then v else rd32 m a)"
    "rd32 (wr32 (b + of_nat (4 * j)) v m) (a + 4) = (if a = b \<and> 1 = j then v else rd32 m (a + 4))"
    "rd32 (wr32 (b + of_nat (4 * j)) v m) (a + 8) = (if a = b \<and> 2 = j then v else rd32 m (a + 8))"
    "rd32 (wr32 (b + of_nat (4 * j)) v m) (a + 12) = (if a = b \<and> 3 = j then v else rd32 m (a + 12))"
    "rd32 (wr32 (b + of_nat (4 * j)) v m) (a + 16) = (if a = b \<and> 4 = j then v else rd32 m (a + 16))"
    if "j < 5" for j
    using w [of 0 j] w [of 1 j] w [of 2 j] w [of 3 j] w [of 4 j] that by simp_all
  from this [of 0] this [of 1] this [of 2] this [of 3] this [of 4]
  show "blk (set_magic b v m) a = (if a = b then (blk m a)\<lparr>magic := v\<rparr> else blk m a)"
    and "blk (set_size b v m) a = (if a = b then (blk m a)\<lparr>bsize := v\<rparr> else blk m a)"
    and "blk (set_next b v m) a = (if a = b then (blk m a)\<lparr>bnext := v\<rparr> else blk m a)"
    and "blk (set_prev b v m) a = (if a = b then (blk m a)\<lparr>bprev := v\<rparr> else blk m a)"
    and "blk (set_free b v m) a = (if a = b then (blk m a)\<lparr>bfree := v\<rparr> else blk m a)"
    by (simp_all add: blk_def set_magic_def set_size_def set_next_def set_prev_def set_free_def)
qed

text \<open>A write to a header leaves every byte outside it alone.\<close>

definition off_hdr :: "u32 \<Rightarrow> u32 \<Rightarrow> bool" where
  "off_hdr b x \<longleftrightarrow> unat x < unat b \<or> unat b + 20 \<le> unat x"

lemma wr32_off_hdr:
  assumes "hdr_at b" "off_hdr b x" "j < 5"
  shows "wr32 (b + of_nat (4 * j)) v m x = m x"
proof -
  have w: "unat (b + of_nat (4 * j)) = unat b + 4 * j" "aligned4 (b + of_nat (4 * j))"
    using hdr_word [OF assms(1,3)] hdr_word_aligned [OF assms(1,3)] .
  have "x \<noteq> b + of_nat (4 * j)" "x \<noteq> b + of_nat (4 * j) + 1" "x \<noteq> b + of_nat (4 * j) + 2" "x \<noteq> b + of_nat (4 * j) + 3"
    using assms(2,3) w(1) aligned4_bytes [OF w(2)] by (auto simp: off_hdr_def word_unat_eq_iff)
  then show ?thesis by (simp add: wr32_def)
qed

lemma set_off_hdr:
  assumes "hdr_at b" "off_hdr b x"
  shows "set_magic b v m x = m x" "set_size b v m x = m x" "set_next b v m x = m x" "set_prev b v m x = m x"
    "set_free b v m x = m x"
  using wr32_off_hdr [OF assms, of 0] wr32_off_hdr [OF assms, of 1] wr32_off_hdr [OF assms, of 2]
    wr32_off_hdr [OF assms, of 3] wr32_off_hdr [OF assms, of 4]
  by (simp_all add: set_magic_def set_size_def set_next_def set_prev_def set_free_def)

section \<open>The block list\<close>

record cell =
  at :: u32
  len :: u32
  is_free :: bool

text \<open>
  The blocks \<open>bs\<close> are linked from \<open>b\<close>, whose back pointer is \<open>p\<close>; the last one is \<open>l\<close> and its forward
  pointer is \<open>e\<close>.
\<close>

definition hdr_of :: "memory \<Rightarrow> u32 \<Rightarrow> cell \<Rightarrow> bool" where
  "hdr_of m p c \<longleftrightarrow> magic (blk m (at c)) = BLOCK_MAGIC \<and> bsize (blk m (at c)) = len c \<and>
     bprev (blk m (at c)) = p \<and> (bfree (blk m (at c)) \<noteq> 0) = is_free c"

fun linked :: "memory \<Rightarrow> u32 \<Rightarrow> u32 \<Rightarrow> cell list \<Rightarrow> u32 \<Rightarrow> u32 \<Rightarrow> bool" where
  "linked m p b [] l e \<longleftrightarrow> l = p \<and> b = e"
| "linked m p b (c # cs) l e \<longleftrightarrow> b = at c \<and> hdr_of m p c \<and> linked m (at c) (bnext (blk m (at c))) cs l e"

text \<open>They lie in order between two addresses, without overlap.\<close>

fun placed :: "nat \<Rightarrow> cell list \<Rightarrow> nat \<Rightarrow> bool" where
  "placed lo [] hi \<longleftrightarrow> lo \<le> hi"
| "placed lo (c # cs) hi \<longleftrightarrow>
     lo \<le> unat (at c) \<and> 4 dvd unat (at c) \<and> 4 dvd unat (len c) \<and> placed (unat (at c) + 20 + unat (len c)) cs hi"

definition heap_ok :: "kheap \<Rightarrow> cell list \<Rightarrow> bool" where
  "heap_ok h cs \<longleftrightarrow> cs \<noteq> [] \<and> (\<exists>l. linked (kmem h) 0 (first_block h) cs l 0) \<and>
     placed (unat HEAP_BASE) cs (unat (heap_end h)) \<and>
     heap_end h \<le> KERNEL_HEAP_MAX \<and> 4096 dvd unat (heap_end h)"

lemma linked_append:
  "linked m p b (xs @ ys) l e \<longleftrightarrow> (\<exists>k c. linked m p b xs k c \<and> linked m k c ys l e)"
  by (induction xs arbitrary: p b) auto

lemma linked_cong:
  "(\<And>c. c \<in> set cs \<Longrightarrow> blk m' (at c) = blk m (at c)) \<Longrightarrow> linked m' p b cs l e = linked m p b cs l e"
  by (induction cs arbitrary: p b) (auto simp: hdr_of_def)

lemma placed_append: "placed lo (xs @ ys) hi \<longleftrightarrow> (\<exists>mid. placed lo xs mid \<and> placed mid ys hi)"
proof (induction xs arbitrary: lo)
  case Nil
  then show ?case by (cases ys) (auto intro: le_trans)
qed auto

lemma placed_mono: "placed lo cs hi \<Longrightarrow> lo' \<le> lo \<Longrightarrow> hi \<le> hi' \<Longrightarrow> placed lo' cs hi'"
  by (induction cs arbitrary: lo lo') auto

lemma placed_le: "placed lo cs hi \<Longrightarrow> lo \<le> hi"
  by (induction cs arbitrary: lo) fastforce+

lemma placed_in:
  "placed lo cs hi \<Longrightarrow> c \<in> set cs \<Longrightarrow> lo \<le> unat (at c) \<and> 4 dvd unat (at c) \<and> 4 dvd unat (len c) \<and>
     unat (at c) + 20 + unat (len c) \<le> hi"
proof (induction cs arbitrary: lo)
  case (Cons d cs)
  then show ?case using placed_le [of "unat (at d) + 20 + unat (len d)" cs hi] by fastforce
qed simp

lemma apart_sym: "apart a b \<longleftrightarrow> apart b a"
  by (auto simp: apart_def)

lemma apart_neq: "apart a b \<Longrightarrow> a \<noteq> b"
  by (auto simp: apart_def)

lemma placed_hdr: "placed lo cs hi \<Longrightarrow> hi \<le> 2 ^ 32 \<Longrightarrow> c \<in> set cs \<Longrightarrow> hdr_at (at c)"
  using placed_in [of lo cs hi c] by (auto simp: hdr_at_def)

lemma placed_before: "placed lo xs mid \<Longrightarrow> placed mid (c # ys) hi \<Longrightarrow> d \<in> set xs \<Longrightarrow> apart (at d) (at c)"
  using placed_in [of lo xs mid d] by (auto simp: apart_def)

lemma placed_apart:
  assumes "placed lo (xs @ c # ys) hi" and "d \<in> set xs \<or> d \<in> set ys"
  shows "apart (at d) (at c)"
proof -
  obtain mid where mid: "placed lo xs mid" "placed mid (c # ys) hi"
    using assms(1) by (auto simp: placed_append simp del: placed.simps)
  show ?thesis
    using assms(2) placed_before [OF mid] mid(2) placed_in [of _ ys hi d] by (fastforce simp: apart_def)
qed

lemma placed_apart2:
  assumes "placed lo (xs @ c # n # ys) hi"
  shows "\<And>d. d \<in> set xs \<or> d \<in> set ys \<Longrightarrow> apart (at d) (at c) \<and> apart (at d) (at n)" and "apart (at n) (at c)"
  using placed_apart [OF assms] placed_apart [of lo "xs @ [c]" n ys hi] assms by auto

lemma placed_pair: "placed lo (xs @ ys) hi \<Longrightarrow> d \<in> set xs \<Longrightarrow> e \<in> set ys \<Longrightarrow> apart (at d) (at e)"
  by (auto simp: placed_append apart_def dest!: placed_in)

text \<open>Setting the free flag of one block.\<close>

lemma linked_set_free:
  assumes "linked m p f (xs @ c # ys) l e" and "placed lo (xs @ c # ys) hi" and "hi \<le> 2 ^ 32"
  shows "linked (set_free (at c) v m) p f (xs @ c\<lparr>is_free := v \<noteq> 0\<rparr> # ys) l e"
proof -
  have hd: "hdr_at (at d)" if "d \<in> set (xs @ c # ys)" for d
    using placed_hdr [OF assms(2,3) that] .
  have other: "blk (set_free (at c) v m) (at d) = blk m (at d)" if "d \<in> set xs \<or> d \<in> set ys" for d
    using placed_apart [OF assms(2) that] hd [of d] hd [of c] that by (auto simp: blk_set dest: apart_neq)
  have this': "blk (set_free (at c) v m) (at c) = (blk m (at c))\<lparr>bfree := v\<rparr>"
    using hd [of c] by (simp add: blk_set)
  have "linked (set_free (at c) v m) p' b zs l' e' = linked m p' b zs l' e'" if "set zs \<subseteq> set xs \<union> set ys" for p' b zs l' e'
    using that other by (intro linked_cong) auto
  then show ?thesis
    using assms(1) this' by (auto simp: linked_append hdr_of_def)
qed


lemma linked_mid:
  assumes "linked m p f (xs @ c # ys) l e"
  obtains k where "linked m p f xs k (at c)" "hdr_of m k c" "linked m (at c) (bnext (blk m (at c))) ys l e"
  using assms by (auto simp: linked_append)

lemma linked_replace:
  assumes "linked m p f xs k (at c)" "\<And>d. d \<in> set xs \<Longrightarrow> blk m' (at d) = blk m (at d)"
    and "hdr_of m' k c'" "at c' = at c" "linked m' (at c) (bnext (blk m' (at c))) ys l e"
  shows "linked m' p f (xs @ c' # ys) l e"
  using linked_cong [of xs m' m p f k "at c"] assms by (auto simp: linked_append)

text \<open>The statement \<^verbatim>\<open>if (b) b->prev = q;\<close> on the rest of the list.\<close>

definition new_prev :: "u32 \<Rightarrow> u32 \<Rightarrow> memory \<Rightarrow> memory" where
  "new_prev b q m = (if b \<noteq> 0 then set_prev b q m else m)"

lemma linked_new_prev:
  assumes "linked m p b ys l 0" and "placed lo ys hi" and "hi \<le> 2 ^ 32" and "0 < lo"
  shows "\<exists>l'. linked (new_prev b q m) q b ys l' 0"
    and "hdr_at a \<Longrightarrow> (\<And>d. d \<in> set ys \<Longrightarrow> apart a (at d)) \<Longrightarrow> blk (new_prev b q m) a = blk m a"
    and "(\<And>d. d \<in> set ys \<Longrightarrow> off_hdr (at d) x) \<Longrightarrow> new_prev b q m x = m x"
proof -
  have "(\<exists>l'. linked (new_prev b q m) q b ys l' 0) \<and>
    (hdr_at a \<longrightarrow> (\<forall>d \<in> set ys. apart a (at d)) \<longrightarrow> blk (new_prev b q m) a = blk m a) \<and>
    ((\<forall>d \<in> set ys. off_hdr (at d) x) \<longrightarrow> new_prev b q m x = m x)"
  proof (cases ys)
    case Nil
    then show ?thesis using assms(1) by (simp add: new_prev_def)
  next
    case (Cons y zs)
    have y: "b = at y" "hdr_of m p y" "linked m (at y) (bnext (blk m (at y))) zs l 0"
      using assms(1) Cons by simp_all
    have "at y \<noteq> 0" using placed_in [OF assms(2), of y] assms(4) Cons by auto
    then have m': "new_prev b q m = set_prev (at y) q m" using y(1) by (simp add: new_prev_def)
    have hd: "hdr_at (at d)" if "d \<in> set ys" for d using placed_hdr [OF assms(2,3) that] .
    have "blk (set_prev (at y) q m) (at d) = blk m (at d)" if "d \<in> set zs" for d
      using placed_apart [of lo "[]" y zs hi d] assms(2) Cons that hd [of d] hd [of y]
      by (auto simp: blk_set dest: apart_neq)
    then have "linked (set_prev (at y) q m) (at y) (bnext (blk m (at y))) zs l 0"
      using y(3) linked_cong [of zs "set_prev (at y) q m" m] by simp
    moreover have hy: "blk (set_prev (at y) q m) (at y) = (blk m (at y))\<lparr>bprev := q\<rparr>"
      using hd [of y] Cons by (simp add: blk_set)
    moreover have "hdr_of (set_prev (at y) q m) q y" using y(2) hy by (simp add: hdr_of_def)
    ultimately have "linked (new_prev b q m) q b ys l 0" using y(1) m' Cons by simp
    moreover have "blk (new_prev b q m) a = blk m a" if "hdr_at a" "apart a (at y)"
      using that hd [of y] m' Cons by (auto simp: blk_set dest: apart_neq)
    moreover have "new_prev b q m x = m x" if "off_hdr (at y) x"
      using that hd [of y] m' Cons by (simp add: set_off_hdr)
    ultimately show ?thesis using Cons by auto
  qed
  then show "\<exists>l'. linked (new_prev b q m) q b ys l' 0"
    and "hdr_at a \<Longrightarrow> (\<And>d. d \<in> set ys \<Longrightarrow> apart a (at d)) \<Longrightarrow> blk (new_prev b q m) a = blk m a"
    and "(\<And>d. d \<in> set ys \<Longrightarrow> off_hdr (at d) x) \<Longrightarrow> new_prev b q m x = m x"
    by blast+
qed

text \<open>Merging two neighbours.\<close>

lemma linked_absorb:
  assumes "linked m p f (xs @ c # n # ys) l 0" and "placed lo (xs @ c # n # ys) hi" and "hi \<le> 2 ^ 32"
    and "0 < lo"
  shows "\<exists>l'. linked (absorb (at c) (at n) m) p f (xs @ c\<lparr>len := len c + (20 + len n)\<rparr> # ys) l' 0"
    and "(\<And>d. d \<in> set (xs @ c # n # ys) \<Longrightarrow> off_hdr (at d) x) \<Longrightarrow> absorb (at c) (at n) m x = m x"
    and "blk (absorb (at c) (at n) m) (at n) = blk m (at n)"
proof -
  have hd: "hdr_at (at d)" if "d \<in> set (xs @ c # n # ys)" for d
    using placed_hdr [OF assms(2,3) that] .
  note ap = placed_apart2 [OF assms(2)]
  obtain k where lc: "linked m p f xs k (at c)" "hdr_of m k c" "hdr_of m (at c) n"
    "linked m (at n) (bnext (blk m (at n))) ys l 0"
    using linked_mid [OF assms(1)] by (metis linked.simps(2))
  define m1 where "m1 = set_size (at c) (len c + (20 + len n)) m"
  define m2 where "m2 = set_next (at c) (bnext (blk m (at n))) m1"
  have o1: "blk m1 (at d) = blk m (at d)" "blk m2 (at d) = blk m (at d)" if "d \<in> set xs \<or> d \<in> set ys \<or> d = n" for d
    using ap(1) [of d] ap(2) hd [of d] hd [of c] that by (auto simp: m1_def m2_def blk_set dest: apart_neq)
  have c2: "blk m2 (at c) = (blk m (at c))\<lparr>bsize := len c + (20 + len n), bnext := bnext (blk m (at n))\<rparr>"
    using hd [of c] by (simp add: m2_def m1_def blk_set)
  have m3: "absorb (at c) (at n) m = new_prev (bnext (blk m (at n))) (at c) m2"
    using lc(2,3) o1 [of n]
    by (simp add: absorb_def HEADER_SIZE_def hdr_of_def Let_def new_prev_def m2_def flip: m1_def)
  obtain mid where mid: "placed mid ys hi" "0 < mid"
    using assms(2,4) by (auto simp: placed_append)
  have "linked m2 (at n) (bnext (blk m (at n))) ys l 0"
    using lc(4) o1 linked_cong [of ys m2 m] by simp
  note np = linked_new_prev [OF this mid(1) assms(3) mid(2), where q = "at c"]
  have sep: "apart (at d) (at e)" if "d \<in> set xs \<or> d = c \<or> d = n" "e \<in> set ys" for d e
    using placed_pair [of lo "xs @ [c, n]" ys hi d e] assms(2) that by auto
  have o3: "blk (absorb (at c) (at n) m) (at d) = blk m2 (at d)" if "d \<in> set xs \<or> d = c \<or> d = n" for d
    unfolding m3 using sep [OF that] hd [of d] that by (intro np(2)) auto
  show "blk (absorb (at c) (at n) m) (at n) = blk m (at n)" using o3 [of n] o1 [of n] by simp
  obtain l' where "linked (absorb (at c) (at n) m) (at c) (bnext (blk m (at n))) ys l' 0"
    using np(1) m3 by auto
  then show "\<exists>l'. linked (absorb (at c) (at n) m) p f (xs @ c\<lparr>len := len c + (20 + len n)\<rparr> # ys) l' 0"
    using linked_replace [OF lc(1), of "absorb (at c) (at n) m" "c\<lparr>len := len c + (20 + len n)\<rparr>" ys l' 0]
      o3 o1 c2 lc(2) by (auto simp: hdr_of_def)
  show "absorb (at c) (at n) m x = m x" if "\<And>d. d \<in> set (xs @ c # n # ys) \<Longrightarrow> off_hdr (at d) x"
    using np(3) [of x] that hd [of c] by (simp add: m3 m2_def m1_def set_off_hdr)
qed

text \<open>Splitting a block.\<close>

definition rest_of :: "cell \<Rightarrow> u32 \<Rightarrow> cell" where
  "rest_of c sz = \<lparr>at = at c + 20 + sz, len = len c - sz - 20, is_free = True\<rparr>"

lemma rest_unat:
  assumes "unat (at c) + 20 + unat (len c) \<le> 2 ^ 32" and "unat sz + 52 \<le> unat (len c)"
  shows "unat (at c + 20 + sz) = unat (at c) + 20 + unat sz" and "unat (len c - sz - 20) = unat (len c) - unat sz - 20"
proof -
  have "unat (at c + 20) = unat (at c) + 20" using assms by (subst unat_plus_simple) auto
  then show "unat (at c + 20 + sz) = unat (at c) + 20 + unat sz"
    using assms by (subst unat_plus_simple) auto
  have "unat (len c - sz) = unat (len c) - unat sz" using assms by (simp add: unat_sub word_le_nat_alt)
  then show "unat (len c - sz - 20) = unat (len c) - unat sz - 20"
    using assms by (simp add: unat_sub word_le_nat_alt)
qed

lemma placed_split:
  assumes "placed lo (xs @ c # ys) hi" and "hi \<le> 2 ^ 32" and "unat sz + 52 \<le> unat (len c)" and "4 dvd unat sz"
  shows "placed lo (xs @ c\<lparr>len := sz\<rparr> # rest_of c sz # ys) hi"
proof -
  have c: "unat (at c) + 20 + unat (len c) \<le> 2 ^ 32" "4 dvd unat (at c)" "4 dvd unat (len c)"
    using placed_in [OF assms(1), of c] assms(2) by auto
  note r = rest_unat [OF c(1) assms(3)]
  have "4 dvd unat (at c) + 20 + unat sz" "4 dvd unat (len c) - unat sz - 20"
    using c(2,3) assms(4) by (auto intro!: dvd_add dvd_diff_nat)
  moreover obtain mid where "placed lo xs mid" "mid \<le> unat (at c)" "placed (unat (at c) + 20 + unat (len c)) ys hi"
    using assms(1) by (auto simp: placed_append)
  moreover have "placed (20 + (unat (at c) + unat (len c))) ys hi" using calculation(5) by (simp add: ac_simps)
  moreover have "unat (at c) + 20 + unat sz + 20 + (unat (len c) - unat sz - 20) = unat (at c) + 20 + unat (len c)"
    using assms(3) by simp
  ultimately show ?thesis
    using assms(4) c r by (auto simp: placed_append rest_of_def simp del: diff_diff_left)
qed

lemma linked_split:
  assumes "linked m p f (xs @ c # ys) l 0" and "placed lo (xs @ c # ys) hi" and "hi \<le> 2 ^ 32" and "0 < lo"
    and "unat sz + 52 \<le> unat (len c)" and "4 dvd unat sz"
  shows "\<exists>l'. linked (split (at c) sz m) p f (xs @ c\<lparr>len := sz\<rparr> # rest_of c sz # ys) l' 0"
    and "(\<And>d. d \<in> set (xs @ c # ys) \<Longrightarrow> off_hdr (at d) x) \<Longrightarrow> off_hdr (at c + 20 + sz) x \<Longrightarrow>
      split (at c) sz m x = m x"
proof -
  define r where "r = at c + 20 + sz"
  note pl = placed_split [OF assms(2,3,5,6)]
  have hd: "hdr_at (at d)" if "d \<in> set (xs @ c # ys)" for d using placed_hdr [OF assms(2,3) that] .
  have hr: "hdr_at r" using placed_hdr [OF pl assms(3), of "rest_of c sz"] by (simp add: rest_of_def r_def)
  have ap: "apart (at d) r" if "d \<in> set xs \<or> d \<in> set ys \<or> d = c" for d
    using placed_apart [of lo "xs @ [c\<lparr>len := sz\<rparr>]" "rest_of c sz" ys hi] pl that
      placed_pair [of lo "xs @ [c\<lparr>len := sz\<rparr>]" "rest_of c sz # ys" hi "c\<lparr>len := sz\<rparr>" "rest_of c sz"]
    by (auto simp: rest_of_def r_def)
  have ac: "apart (at d) (at c)" if "d \<in> set xs \<or> d \<in> set ys" for d using placed_apart [OF assms(2) that] .
  obtain k where lc: "linked m p f xs k (at c)" "hdr_of m k c" "linked m (at c) (bnext (blk m (at c))) ys l 0"
    using linked_mid [OF assms(1)] .
  define b where "b = bnext (blk m (at c))"
  define m5 where "m5 = set_prev r (at c) (set_next r b (set_free r 1 (set_size r (len c - sz - 20) (set_magic r BLOCK_MAGIC m))))"
  have o5: "blk m5 (at d) = blk m (at d)" if "d \<in> set xs \<or> d \<in> set ys \<or> d = c" for d
    using ap [OF that] hd [of d] hr that by (auto simp: m5_def blk_set dest: apart_neq)
  have r5: "blk m5 r = \<lparr>magic = BLOCK_MAGIC, bsize = len c - sz - 20, bnext = b, bprev = at c, bfree = 1\<rparr>"
    using hr by (simp add: m5_def blk_set)
  have mm: "split (at c) sz m = set_size (at c) sz (set_next (at c) r (new_prev b r m5))"
  proof -
    have "unat (sz + 52) = unat sz + 52"
      using assms(5) unat_lt2p [of "len c"] by (subst unat_plus_simple) auto
    then have "\<not> bsize (blk m (at c)) < sz + HEADER_SIZE + MIN_SPLIT"
      using lc(2) assms(5) by (simp add: hdr_of_def word_less_nat_alt HEADER_SIZE_def MIN_SPLIT_def add.assoc)
    moreover have "blk (f r v m') (at c) = blk m' (at c)" if "f \<in> {set_magic, set_size, set_free, set_next, set_prev}" for f v m'
      using that ap [of c] hd [of c] hr by (auto simp: blk_set dest: apart_neq)
    ultimately show ?thesis
      using lc(2) by (simp add: split_def Let_def HEADER_SIZE_def hdr_of_def new_prev_def b_def m5_def flip: r_def)
  qed
  obtain mid where mid: "placed mid ys hi" "0 < mid" using assms(2,4) by (auto simp: placed_append)
  have "linked m5 (at c) b ys l 0" using lc(3) o5 linked_cong [of ys m5 m] by (simp add: b_def)
  note np = linked_new_prev [OF this mid(1) assms(3) mid(2), where q = r]
  define m6 where "m6 = new_prev b r m5"
  have sep: "apart (at d) (at e)" if "d \<in> set xs \<or> d = c" "e \<in> set ys" for d e
    using placed_pair [of lo "xs @ [c]" ys hi d e] assms(2) that by auto
  have o6: "blk m6 (at d) = blk m (at d)" if "d \<in> set xs \<or> d = c" for d
    unfolding m6_def using np(2) [of "at d"] sep [OF that] hd [of d] o5 [of d] that by auto
  have r6: "blk m6 r = blk m5 r"
    unfolding m6_def using ap [THEN apart_sym [THEN iffD1]] hr by (intro np(2)) auto
  have M: "split (at c) sz m = set_size (at c) sz (set_next (at c) r m6)" using mm by (simp add: m6_def)
  have ow: "blk (split (at c) sz m) (at d) = blk m6 (at d)" if "d \<in> set xs \<or> d \<in> set ys" for d
    using ac [OF that] hd [of d] hd [of c] that by (auto simp: M blk_set dest: apart_neq)
  have rw: "blk (split (at c) sz m) r = blk m5 r"
    using ap [of c, THEN apart_sym [THEN iffD1]] hr hd [of c] r6 by (auto simp: M blk_set dest: apart_neq)
  have cw: "blk (split (at c) sz m) (at c) = (blk m (at c))\<lparr>bnext := r, bsize := sz\<rparr>"
    using hd [of c] o6 [of c] by (simp add: M blk_set)
  obtain l' where "linked m6 r b ys l' 0" using np(1) by (auto simp: m6_def)
  then have "linked (split (at c) sz m) r b ys l' 0" using ow linked_cong [of ys "split (at c) sz m" m6 r b l' 0] by simp
  then have "linked (split (at c) sz m) (at c) r (rest_of c sz # ys) l' 0"
    using rw r5 by (simp add: rest_of_def hdr_of_def flip: r_def)
  moreover have "hdr_of (split (at c) sz m) k (c\<lparr>len := sz\<rparr>)" using cw lc(2) by (simp add: hdr_of_def)
  moreover have "blk (split (at c) sz m) (at d) = blk m (at d)" if "d \<in> set xs" for d
    using that ow [of d] o6 [of d] by simp
  ultimately show "\<exists>l'. linked (split (at c) sz m) p f (xs @ c\<lparr>len := sz\<rparr> # rest_of c sz # ys) l' 0"
    using cw by (intro exI [of _ l'] linked_replace [OF lc(1)]) simp_all
  show "split (at c) sz m x = m x" if "\<And>d. d \<in> set (xs @ c # ys) \<Longrightarrow> off_hdr (at d) x" "off_hdr (at c + 20 + sz) x"
    using np(3) [of x] that hd [of c] hr by (simp add: M m6_def m5_def set_off_hdr flip: r_def)
qed

section \<open>Live allocations\<close>

definition live_blocks :: "cell list \<Rightarrow> (u32 \<times> u32) set" where
  "live_blocks cs = {(at c + HEADER_SIZE, len c) | c. c \<in> set cs \<and> \<not> is_free c}"

lemma live_blocks_append [simp]:
  "live_blocks [] = {}" "live_blocks (c # cs) = (if is_free c then {} else {(at c + HEADER_SIZE, len c)}) \<union> live_blocks cs"
  "live_blocks (xs @ ys) = live_blocks xs \<union> live_blocks ys"
  by (auto simp: live_blocks_def)

lemma placed_absorb:
  assumes "placed lo (xs @ c # n # ys) hi" and "hi \<le> 2 ^ 32"
  shows "placed lo (xs @ c\<lparr>len := len c + (20 + len n)\<rparr> # ys) hi"
proof -
  have n: "unat (at n) + 20 + unat (len n) \<le> 2 ^ 32" "4 dvd unat (len n)" "4 dvd unat (len c)"
    using placed_in [OF assms(1), of n] placed_in [OF assms(1), of c] assms(2) by auto
  obtain mid where mid: "placed lo xs mid" "mid \<le> unat (at c)" "unat (at c) + 20 + unat (len c) \<le> unat (at n)"
      "4 dvd unat (at c)" "placed (unat (at n) + 20 + unat (len n)) ys hi"
    using assms(1) by (auto simp: placed_append)
  have "unat (20 + len n) = 20 + unat (len n)" using n mid by (subst unat_plus_simple) auto
  then have l: "unat (len c + (20 + len n)) = unat (len c) + (20 + unat (len n))"
    using n mid by (subst unat_plus_simple) auto
  moreover have "placed (unat (at c) + 20 + unat (len c + (20 + len n))) ys hi"
    using placed_mono [OF mid(5)] mid(3) l by simp
  moreover have "4 dvd unat (len c) + (20 + unat (len n))" using n by (auto intro!: dvd_add)
  ultimately show ?thesis using mid by (auto simp: placed_append)
qed

text \<open>
  The bytes of a live allocation: inside its block and so outside every header.
\<close>

definition payload :: "u32 \<times> u32 \<Rightarrow> u32 \<Rightarrow> bool" where
  "payload a x \<longleftrightarrow> unat (fst a) \<le> unat x \<and> unat x < unat (fst a) + unat (snd a)"

lemma placed_payload:
  assumes "placed lo cs hi" and "hi < 2 ^ 32" and "a \<in> live_blocks cs" and "payload a x" and "d \<in> set cs"
  shows "off_hdr (at d) x"
proof -
  obtain c where c: "c \<in> set cs" "a = (at c + HEADER_SIZE, len c)" using assms(3) by (auto simp: live_blocks_def)
  have "unat (at c + HEADER_SIZE) = unat (at c) + 20"
    using placed_in [OF assms(1) c(1)] assms(2) by (subst unat_plus_simple) (auto simp: HEADER_SIZE_def)
  then have x: "unat (at c) + 20 \<le> unat x" "unat x < unat (at c) + 20 + unat (len c)"
    using assms(4) c(2) by (auto simp: payload_def)
  obtain xs ys where cs: "cs = xs @ c # ys" using c(1) by (meson split_list)
  obtain mid where mid: "placed lo xs mid" "mid \<le> unat (at c)" "placed (unat (at c) + 20 + unat (len c)) ys hi"
    using assms(1) by (auto simp: cs placed_append)
  consider "d \<in> set xs" | "d = c" | "d \<in> set ys" using assms(5) cs by auto
  then show ?thesis
    using x mid(2) placed_in [OF mid(1), of d] placed_in [OF mid(3), of d] by cases (auto simp: off_hdr_def)
qed

text \<open>
  A step of the allocator that keeps a list of blocks well formed, the live allocations and their
  contents.
\<close>

definition keeps_live :: "memory \<Rightarrow> cell list \<Rightarrow> memory \<Rightarrow> cell list \<Rightarrow> bool" where
  "keeps_live m cs m' cs' \<longleftrightarrow> live_blocks cs' = live_blocks cs \<and> (\<forall>a x. a \<in> live_blocks cs \<longrightarrow> payload a x \<longrightarrow> m' x = m x)"

lemma keeps_live_trans: "keeps_live m cs m' cs' \<Longrightarrow> keeps_live m' cs' m'' cs'' \<Longrightarrow> keeps_live m cs m'' cs''"
  by (auto simp: keeps_live_def)

lemma keeps_live_refl: "keeps_live m cs m cs"
  by (simp add: keeps_live_def)

lemma absorb_step:
  assumes "linked m p f (xs @ c # n # ys) l 0" and "placed lo (xs @ c # n # ys) hi" and "hi < 2 ^ 32"
    and "0 < lo" and "is_free c" and "is_free n"
  defines "m' \<equiv> absorb (at c) (at n) m" and "cs' \<equiv> xs @ c\<lparr>len := len c + (20 + len n)\<rparr> # ys"
  shows "(\<exists>l'. linked m' p f cs' l' 0) \<and> placed lo cs' hi \<and> keeps_live m (xs @ c # n # ys) m' cs' \<and>
    blk m' (at n) = blk m (at n)"
proof -
  have "m' x = m x" if "a \<in> live_blocks (xs @ c # n # ys)" "payload a x" for a x
    unfolding m'_def using linked_absorb(2) [OF assms(1,2) less_imp_le [OF assms(3)] assms(4)] placed_payload [OF assms(2,3) that] by blast
  then show ?thesis
    using linked_absorb(1,3) [OF assms(1,2) less_imp_le [OF assms(3)] assms(4)] placed_absorb [OF assms(2) less_imp_le [OF assms(3)]] assms(5,6)
    by (auto simp: keeps_live_def cs'_def m'_def)
qed

lemma linked_last:
  "linked m p f cs l e \<Longrightarrow> l = (if cs = [] then p else at (last cs))"
  by (induction cs arbitrary: p f) (auto split: if_splits)

lemma linked_next:
  "linked m p f (xs @ c # ys) l 0 \<Longrightarrow> bnext (blk m (at c)) = (case ys of [] \<Rightarrow> 0 | n # _ \<Rightarrow> at n)"
  by (auto simp: linked_append split: list.split)

lemma linked_prev:
  "linked m p f (xs @ c # ys) l e \<Longrightarrow> bprev (blk m (at c)) = (if xs = [] then p else at (last xs))"
  using linked_last by (fastforce simp: linked_append hdr_of_def)

lemma linked_free:
  "linked m p f cs l e \<Longrightarrow> c \<in> set cs \<Longrightarrow> (bfree (blk m (at c)) \<noteq> 0) = is_free c \<and>
     bsize (blk m (at c)) = len c \<and> magic (blk m (at c)) = BLOCK_MAGIC"
  by (induction cs arbitrary: p f) (auto simp: hdr_of_def)

lemma coalesce_spec:
  assumes "linked m 0 f (xs @ c # ys) l 0" and "placed lo (xs @ c # ys) hi" and "hi < 2 ^ 32"
    and "0 < lo" and "is_free c"
  shows "\<exists>cs' l'. cs' \<noteq> [] \<and> linked (coalesce (at c) m) 0 f cs' l' 0 \<and> placed lo cs' hi \<and>
    keeps_live m (xs @ c # ys) (coalesce (at c) m) cs' \<and>
    bfree (blk (coalesce (at c) m) (at c)) \<noteq> 0 \<and> magic (blk (coalesce (at c) m) (at c)) = BLOCK_MAGIC"
proof -
  define m1 where "m1 = (let n = bnext (blk m (at c)) in if n \<noteq> 0 \<and> bfree (blk m n) \<noteq> 0 then absorb (at c) n m else m)"
  have nz: "at d \<noteq> 0" if "d \<in> set (xs @ c # ys)" for d
    using placed_in [OF assms(2) that] assms(4) by auto
  obtain c1 ys1 l1 where 1: "linked m1 0 f (xs @ c1 # ys1) l1 0" "placed lo (xs @ c1 # ys1) hi"
      "keeps_live m (xs @ c # ys) m1 (xs @ c1 # ys1)" "at c1 = at c" "is_free c1"
  proof (cases "\<exists>n zs. ys = n # zs \<and> is_free n")
    case True
    then obtain n zs where ys: "ys = n # zs" "is_free n" by blast
    have n: "bnext (blk m (at c)) = at n" "bfree (blk m (at n)) \<noteq> 0"
      using linked_next [OF assms(1)] linked_free [OF assms(1), of n] ys by auto
    then have "m1 = absorb (at c) (at n) m" using nz [of n] ys by (simp add: m1_def)
    then show ?thesis
      using absorb_step [of m 0 f xs c n zs l lo hi] assms ys
        that [of "c\<lparr>len := len c + (20 + len n)\<rparr>" zs] by auto
  next
    case False
    have "m1 = m"
    proof (cases ys)
      case Nil
      then show ?thesis using linked_next [OF assms(1)] by (simp add: m1_def)
    next
      case (Cons n zs)
      then show ?thesis
        using linked_next [OF assms(1)] linked_free [OF assms(1), of n] False by (simp add: m1_def)
    qed
    then show ?thesis using that [of c ys l] assms keeps_live_refl by auto
  qed
  have co: "coalesce (at c) m =
      (let p = bprev (blk m1 (at c1)) in if p \<noteq> 0 \<and> bfree (blk m1 p) \<noteq> 0 then absorb p (at c1) m1 else m1)"
    by (simp add: coalesce_def Let_def m1_def 1(4))
  have hc: "bfree (blk m1 (at c1)) \<noteq> 0" "magic (blk m1 (at c1)) = BLOCK_MAGIC"
    using linked_free [OF 1(1), of c1] 1(5) by auto
  show ?thesis
  proof (cases "\<exists>zs q. xs = zs @ [q] \<and> is_free q")
    case True
    then obtain zs q where xs: "xs = zs @ [q]" "is_free q" by blast
    have q: "bprev (blk m1 (at c1)) = at q" "bfree (blk m1 (at q)) \<noteq> 0"
      using linked_prev [OF 1(1)] linked_free [OF 1(1), of q] xs by auto
    then have "coalesce (at c) m = absorb (at q) (at c1) m1" using nz [of q] xs by (simp add: co)
    moreover have "(\<exists>l'. linked (absorb (at q) (at c1) m1) 0 f (zs @ q\<lparr>len := len q + (20 + len c1)\<rparr> # ys1) l' 0) \<and>
        placed lo (zs @ q\<lparr>len := len q + (20 + len c1)\<rparr> # ys1) hi \<and>
        keeps_live m1 (xs @ c1 # ys1) (absorb (at q) (at c1) m1) (zs @ q\<lparr>len := len q + (20 + len c1)\<rparr> # ys1) \<and>
        blk (absorb (at q) (at c1) m1) (at c1) = blk m1 (at c1)"
      using absorb_step [of m1 0 f zs q c1 ys1 l1 lo hi] 1(1,2,5) assms(3,4) xs by simp
    ultimately show ?thesis using keeps_live_trans [OF 1(3)] hc 1(4) by (metis append_is_Nil_conv list.distinct(1))
  next
    case False
    have "coalesce (at c) m = m1"
    proof (cases xs rule: rev_cases)
      case Nil
      then show ?thesis using linked_prev [OF 1(1)] by (simp add: co)
    next
      case (snoc zs q)
      then show ?thesis
        using linked_prev [OF 1(1)] linked_free [OF 1(1), of q] False by (simp add: co)
    qed
    then show ?thesis using 1 hc by (metis append_is_Nil_conv list.distinct(1))
  qed
qed

section \<open>Walks\<close>

lemma find_fit_spec:
  assumes "linked m p b cs l 0" and "placed lo cs hi" and "0 < lo"
  shows "find_fit m sz b = Some (case find (\<lambda>c. is_free c \<and> sz \<le> len c) cs of Some c \<Rightarrow> at c | None \<Rightarrow> 0)"
  using assms
proof (induction cs arbitrary: p b lo)
  case (Cons c cs)
  have c: "at c \<noteq> 0" "b = at c" using Cons.prems by auto
  have "find_fit m sz (bnext (blk m b)) =
      Some (case find (\<lambda>c. is_free c \<and> sz \<le> len c) cs of Some c \<Rightarrow> at c | None \<Rightarrow> 0)"
    using Cons.prems by (intro Cons.IH [of "at c" _ "unat (at c) + 20 + unat (len c)"]) auto
  then show ?case
    using c Cons.prems(1) find_fit.simps [of m sz b] by (auto simp: hdr_of_def)
qed (simp add: find_fit.simps)

lemma last_block_spec:
  assumes "linked m p b (xs @ [c]) l 0" and "placed lo (xs @ [c]) hi" and "0 < lo"
  shows "last_block m b = Some (at c)"
  using assms
proof (induction xs arbitrary: p b lo)
  case Nil
  then show ?case by (simp add: last_block.simps)
next
  case (Cons d xs)
  have "bnext (blk m b) \<noteq> 0"
    using Cons.prems linked_next [of m p b "[]" d "xs @ [c]" l] by (cases xs) auto
  moreover have "last_block m (bnext (blk m b)) = Some (at c)"
    using Cons.prems by (intro Cons.IH [of "at d" _ "unat (at d) + 20 + unat (len d)"]) auto
  ultimately show ?case by (simp add: last_block.simps [of m b])
qed

section \<open>Growing\<close>

lemma grow_pages_spec:
  assumes "grow_pages k h = (r, h')" and "unat (heap_end h) + 4096 * k < 2 ^ 32"
  shows "first_block h' = first_block h \<and> kmem h' = kmem h \<and>
    (\<exists>j \<le> k. unat (heap_end h') = unat (heap_end h) + 4096 * j \<and> (r = 0 \<and> j = k \<or> r = - 1))"
  using assms
proof (induction k arbitrary: h)
  case (Suc k)
  obtain frame p where a: "pmm_alloc_frame (phys (kvm h)) = (frame, p)" by fastforce
  obtain r1 v where b: "vmm_map (heap_end h) frame (PTE_PRESENT OR PTE_WRITE) ((kvm h)\<lparr>phys := p\<rparr>) = (r1, v)" by fastforce
  show ?case
  proof (cases "frame = 0 \<or> r1 < 0")
    case True
    then show ?thesis using Suc.prems(1) a b by (cases "frame = 0") auto
  next
    case False
    define h1 where "h1 = h\<lparr>kvm := v, heap_end := heap_end h + PAGE_SIZE, heap_bytes := heap_bytes h + PAGE_SIZE\<rparr>"
    have "unat (heap_end h + PAGE_SIZE) = unat (heap_end h) + 4096"
      using Suc.prems(2) by (subst unat_plus_simple) (auto simp: PAGE_SIZE_def)
    then have e: "unat (heap_end h1) = unat (heap_end h) + 4096" by (simp add: h1_def)
    have "grow_pages k h1 = (r, h')" using Suc.prems(1) False a b by (simp add: h1_def)
    from Suc.IH [OF this] e Suc.prems(2)
    obtain j where j: "first_block h' = first_block h" "kmem h' = kmem h" "j \<le> k"
      "unat (heap_end h') = unat (heap_end h) + 4096 * Suc j" "r = 0 \<and> j = k \<or> r = - 1"
      by (auto simp: h1_def)
    then show ?thesis by (intro conjI exI [of _ "Suc j"]) auto
  qed
qed simp

lemma heap_limit: "unat (HEAP_BASE + HEAP_MAX_SIZE) = 0xD4000000" "unat KERNEL_HEAP_MAX = 0xD4000000"
    "unat HEAP_BASE = 0xD0000000"
  by (simp_all add: HEAP_BASE_def HEAP_MAX_SIZE_def KERNEL_HEAP_MAX_def KERNEL_HEAP_BASE_def)

lemma grow_spec:
  assumes "grow bytes h = (r, h')" and "heap_end h \<le> KERNEL_HEAP_MAX" and "4096 dvd unat (heap_end h)"
    and "unat bytes \<le> 0x2B010000"
  shows "first_block h' = first_block h \<and> kmem h' = kmem h \<and> heap_end h' \<le> KERNEL_HEAP_MAX \<and>
    4096 dvd unat (heap_end h') \<and> unat (heap_end h) \<le> unat (heap_end h') \<and>
    (r = 0 \<and> unat (heap_end h') = unat (heap_end h) + (unat bytes + 4095) div 4096 * 4096 \<or> r = - 1)"
proof -
  define q where "q = (unat bytes + 4095) div 4096"
  have q: "4096 * q \<le> unat bytes + 4095" by (simp add: q_def)
  have al: "unat (ALIGN_UP bytes PAGE_SIZE) = 4096 * q"
    using align_up_page [of bytes] assms(4) by (simp add: q_def)
  define pages where "pages = ALIGN_UP bytes PAGE_SIZE div PAGE_SIZE"
  have p: "unat pages = q" using al by (simp add: pages_def unat_div PAGE_SIZE_def)
  have "unat (pages * PAGE_SIZE) = 4096 * q"
    using p q assms(4) by (simp add: unat_word_ariths PAGE_SIZE_def mult.commute)
  then have e: "unat (heap_end h + pages * PAGE_SIZE) = unat (heap_end h) + 4096 * q"
    using assms(2,4) q by (subst unat_plus_simple) (auto simp: word_le_nat_alt heap_limit)
  show ?thesis
  proof (cases "HEAP_BASE + HEAP_MAX_SIZE < heap_end h + pages * PAGE_SIZE")
    case True
    then show ?thesis using assms by (simp add: grow_def Let_def flip: pages_def)
  next
    case False
    then have le: "unat (heap_end h) + 4096 * q \<le> 0xD4000000"
      by (simp only: word_less_nat_alt e heap_limit not_less)
    have "grow_pages q h = (r, h')" using False assms(1) p by (simp add: grow_def Let_def flip: pages_def)
    from grow_pages_spec [OF this] le
    obtain j where j: "first_block h' = first_block h" "kmem h' = kmem h" "j \<le> q"
      "unat (heap_end h') = unat (heap_end h) + 4096 * j" "r = 0 \<and> j = q \<or> r = - 1"
      by auto
    moreover have "4096 * j \<le> 4096 * q" using j(3) by simp
    ultimately show ?thesis
      using le assms(3) by (auto simp: word_le_nat_alt heap_limit q_def)
  qed
qed

lemma heap_okD:
  assumes "heap_ok h cs"
  obtains l where "linked (kmem h) 0 (first_block h) cs l 0" "placed 0xD0000000 cs (unat (heap_end h))"
    "unat (heap_end h) \<le> 0xD4000000" "unat (heap_end h) < 2 ^ 32" "unat (heap_end h) \<le> 2 ^ 32"
  using assms by (auto simp: heap_ok_def word_le_nat_alt heap_limit)

lemma linked_set_size:
  assumes "linked m p f (xs @ c # ys) l e" and "placed lo (xs @ c # ys) hi" and "hi \<le> 2 ^ 32"
  shows "linked (set_size (at c) v m) p f (xs @ c\<lparr>len := v\<rparr> # ys) l e"
proof -
  have hd: "hdr_at (at d)" if "d \<in> set (xs @ c # ys)" for d
    using placed_hdr [OF assms(2,3) that] .
  have other: "blk (set_size (at c) v m) (at d) = blk m (at d)" if "d \<in> set xs \<or> d \<in> set ys" for d
    using placed_apart [OF assms(2) that] hd [of d] hd [of c] that by (auto simp: blk_set dest: apart_neq)
  have this': "blk (set_size (at c) v m) (at c) = (blk m (at c))\<lparr>bsize := v\<rparr>"
    using hd [of c] by (simp add: blk_set)
  have "linked (set_size (at c) v m) p' b zs l' e' = linked m p' b zs l' e'" if "set zs \<subseteq> set xs \<union> set ys" for p' b zs l' e'
    using that other by (intro linked_cong) auto
  then show ?thesis
    using assms(1) this' by (auto simp: linked_append hdr_of_def)
qed

text \<open>Appending a new block after the last one.\<close>

definition fresh_block :: "u32 \<Rightarrow> u32 \<Rightarrow> u32 \<Rightarrow> memory \<Rightarrow> memory" where
  "fresh_block b a sz m = set_next b a (set_prev a b (set_next a 0 (set_free a 1 (set_size a sz (set_magic a BLOCK_MAGIC m)))))"

lemma linked_fresh:
  assumes "linked m p f (xs @ [c]) l 0" and "placed lo (xs @ [c]) hi" and "hi \<le> unat a" and "hdr_at a"
  shows "linked (fresh_block (at c) a sz m) p f (xs @ [c, \<lparr>at = a, len = sz, is_free = True\<rparr>]) a 0"
    and "off_hdr (at c) x \<Longrightarrow> off_hdr a x \<Longrightarrow> fresh_block (at c) a sz m x = m x"
proof -
  have hi: "hi \<le> 2 ^ 32" using assms(3) unat_lt2p [of a] by simp
  have hd: "hdr_at (at d)" if "d \<in> set (xs @ [c])" for d using placed_hdr [OF assms(2) hi that] .
  have ap: "apart (at d) a" "apart a (at d)" if "d \<in> set (xs @ [c])" for d
    using placed_in [OF assms(2) that] assms(3) by (auto simp: apart_def)
  have other: "blk (fresh_block (at c) a sz m) (at d) = blk m (at d)" if "d \<in> set xs" for d
    using placed_apart [OF assms(2), of d] ap [of d] hd [of d] hd [of c] assms(4) that
    by (auto simp: fresh_block_def blk_set dest: apart_neq)
  have c': "blk (fresh_block (at c) a sz m) (at c) = (blk m (at c))\<lparr>bnext := a\<rparr>"
    using ap [of c] hd [of c] assms(4) by (auto simp: fresh_block_def blk_set dest: apart_neq)
  have a': "blk (fresh_block (at c) a sz m) a = \<lparr>magic = BLOCK_MAGIC, bsize = sz, bnext = 0, bprev = at c, bfree = 1\<rparr>"
    using ap [of c] hd [of c] assms(4) by (auto simp: fresh_block_def blk_set dest: apart_neq)
  have "linked (fresh_block (at c) a sz m) p f xs k e = linked m p f xs k e" for k e
    using other by (intro linked_cong) auto
  then show "linked (fresh_block (at c) a sz m) p f (xs @ [c, \<lparr>at = a, len = sz, is_free = True\<rparr>]) a 0"
    using assms(1) c' a' by (auto simp: linked_append hdr_of_def)
  show "off_hdr (at c) x \<Longrightarrow> off_hdr a x \<Longrightarrow> fresh_block (at c) a sz m x = m x"
    using hd [of c] assms(4) by (simp add: fresh_block_def set_off_hdr)
qed

lemma chunk_unat:
  assumes "unat sz \<le> 0x2B000000"
  shows "unat sz + 20 \<le> unat (ALIGN_UP (sz + HEADER_SIZE) (64 * 1024))"
    "unat (ALIGN_UP (sz + HEADER_SIZE) (64 * 1024)) \<le> 0x2B010000"
    "4096 dvd unat (ALIGN_UP (sz + HEADER_SIZE) (64 * 1024))"
proof -
  have s: "unat (sz + HEADER_SIZE) = unat sz + 20"
    using assms by (subst unat_plus_simple) (auto simp: HEADER_SIZE_def)
  have "unat (ALIGN_UP (sz + HEADER_SIZE) (2 ^ 16)) = (unat (sz + HEADER_SIZE) + (2 ^ 16 - 1)) div 2 ^ 16 * 2 ^ 16"
    using assms s by (intro align_up_pow2) simp_all
  then have u: "unat (ALIGN_UP (sz + HEADER_SIZE) (64 * 1024)) = (unat sz + 65555) div 65536 * 65536"
    using s by simp
  show "unat sz + 20 \<le> unat (ALIGN_UP (sz + HEADER_SIZE) (64 * 1024))" unfolding u by linarith
  have "(unat sz + 65555) div 65536 \<le> (0x2B000000 + 65555) div 65536" using assms by (intro div_le_mono) simp
  then show "unat (ALIGN_UP (sz + HEADER_SIZE) (64 * 1024)) \<le> 0x2B010000" unfolding u by simp
  have "(65536 :: nat) = 4096 * 16" by simp
  then show "4096 dvd unat (ALIGN_UP (sz + HEADER_SIZE) (64 * 1024))" unfolding u by (metis dvd_mult dvd_triv_left)
qed

lemma extend_last:
  assumes "linked m 0 f (xs @ [c]) l 0" and "placed lo (xs @ [c]) e" and "e + unat w < 2 ^ 32" and "4 dvd unat w"
    and "is_free c"
  defines "cs' \<equiv> xs @ [c\<lparr>len := len c + w\<rparr>]" and "m' \<equiv> set_size (at c) (len c + w) m"
  shows "linked m' 0 f cs' l 0 \<and> placed lo cs' (e + unat w) \<and> keeps_live m (xs @ [c]) m' cs' \<and>
    unat w \<le> unat (len c + w)"
proof -
  have e: "e < 2 ^ 32" using assms(3) by simp
  have c: "unat (at c) + 20 + unat (len c) \<le> e" "4 dvd unat (len c)" using placed_in [OF assms(2), of c] by auto
  have s: "unat (len c + w) = unat (len c) + unat w" using c(1) assms(3) by (subst unat_plus_simple) auto
  have "linked m' 0 f cs' l 0"
    using linked_set_size [OF assms(1,2)] e by (simp add: m'_def cs'_def)
  moreover obtain mid where "placed lo xs mid" "mid \<le> unat (at c)" "4 dvd unat (at c)"
    using assms(2) by (auto simp: placed_append)
  then have "placed lo cs' (e + unat w)" using c s assms(4) by (auto simp: cs'_def placed_append)
  moreover have "m' x = m x" if "a \<in> live_blocks (xs @ [c])" "payload a x" for a x
    using placed_payload [OF assms(2) e that, of c] placed_hdr [OF assms(2), of c] e by (simp add: m'_def set_off_hdr)
  then have "keeps_live m (xs @ [c]) m' cs'" using assms(5) by (auto simp: keeps_live_def cs'_def)
  ultimately show ?thesis using s by simp
qed

lemma extend_fresh:
  assumes "linked m 0 f (xs @ [c]) l 0" and "placed lo (xs @ [c]) (unat a)" and "unat a + 20 + unat sz < 2 ^ 32"
    and "4 dvd unat sz" and "4 dvd unat a"
  defines "cs' \<equiv> xs @ [c, \<lparr>at = a, len = sz, is_free = True\<rparr>]" and "m' \<equiv> fresh_block (at c) a sz m"
  shows "linked m' 0 f cs' a 0 \<and> placed lo cs' (unat a + 20 + unat sz) \<and> keeps_live m (xs @ [c]) m' cs'"
proof -
  have hd: "hdr_at a" using assms(3,5) by (simp add: hdr_at_def)
  note fr = linked_fresh [OF assms(1,2) order_refl hd]
  have a: "unat a < 2 ^ 32" using assms(3) by simp
  have "off_hdr a x" if "b \<in> live_blocks (xs @ [c])" "payload b x" for b x
  proof -
    obtain d where d: "d \<in> set (xs @ [c])" "b = (at d + HEADER_SIZE, len d)" using \<open>b \<in> _\<close> by (auto simp: live_blocks_def)
    have "unat (at d + HEADER_SIZE) \<le> unat (at d) + 20" using unat_plus_le [of "at d" HEADER_SIZE] by (simp add: HEADER_SIZE_def)
    then show ?thesis
      using placed_in [OF assms(2) d(1)] that(2) d(2) by (auto simp: payload_def off_hdr_def)
  qed
  then have "keeps_live m (xs @ [c]) m' cs'"
    using fr(2) placed_payload [OF assms(2) a, of _ _ c] by (auto simp: keeps_live_def cs'_def m'_def)
  moreover have "placed lo cs' (unat a + 20 + unat sz)"
    using assms(2,4,5) by (auto simp: cs'_def placed_append)
  ultimately show ?thesis using fr(1) [of sz] by (simp add: cs'_def m'_def)
qed

text \<open>
  Extending: the heap stays well formed, nothing live changes, and on success the last block is free
  and large enough.
\<close>

lemma extend_heap_spec:
  assumes "heap_ok h cs" and "unat sz \<le> 0x2B000000"
  shows "\<exists>r h' cs'. extend_heap sz h = Some (r, h') \<and> heap_ok h' cs' \<and> keeps_live (kmem h) cs (kmem h') cs' \<and>
    (r = - 1 \<or> r = 0 \<and> is_free (last cs') \<and> unat sz \<le> unat (len (last cs')))"
proof -
  obtain l where l: "linked (kmem h) 0 (first_block h) cs l 0" "placed 0xD0000000 cs (unat (heap_end h))"
    "unat (heap_end h) < 2 ^ 32" "unat (heap_end h) \<le> 2 ^ 32"
    using heap_okD [OF assms(1)] by metis
  obtain xs c where cs: "cs = xs @ [c]" using assms(1) unfolding heap_ok_def by (metis rev_exhaust)
  have lb: "last_block (kmem h) (first_block h) = Some (at c)"
    using last_block_spec [of _ _ _ xs c] l cs by simp
  define chunk where "chunk = ALIGN_UP (sz + HEADER_SIZE) (64 * 1024)"
  note ch = chunk_unat [OF assms(2), folded chunk_def]
  obtain r h1 where g: "grow chunk h = (r, h1)" by fastforce
  have eq: "extend_heap sz h = (if r < 0 then Some (- 1, h1)
      else if bfree (blk (kmem h) (at c)) \<noteq> 0
        then Some (0, h1\<lparr>kmem := set_size (at c) (len c + (heap_end h1 - heap_end h)) (kmem h)\<rparr>)
      else Some (0, h1\<lparr>kmem := fresh_block (at c) (heap_end h) (heap_end h1 - heap_end h - HEADER_SIZE) (kmem h)\<rparr>))"
    if "kmem h1 = kmem h"
    using lb g that linked_free [OF l(1), of c] cs
    by (simp add: extend_heap_def Let_def chunk_def fresh_block_def)
  have ok: "heap_end h \<le> KERNEL_HEAP_MAX" "4096 dvd unat (heap_end h)" using assms(1) by (auto simp: heap_ok_def)
  note gs = grow_spec [OF g ok ch(2)]
  have e1: "heap_end h1 \<le> KERNEL_HEAP_MAX" "4096 dvd unat (heap_end h1)" "first_block h1 = first_block h"
     "kmem h1 = kmem h" "unat (heap_end h) \<le> unat (heap_end h1)"
    using gs by simp_all
  have pl1: "placed 0xD0000000 cs (unat (heap_end h1))" using placed_mono [OF l(2)] e1(5) by simp
  show ?thesis
  proof (cases "r < 0")
    case True
    then show ?thesis
      using eq e1 l pl1 assms(1) by (auto simp: heap_ok_def heap_limit keeps_live_refl)
  next
    case False
    then have gr: "unat (heap_end h1) = unat (heap_end h) + unat chunk"
      using gs ch(3) by (auto simp: div_mult_swap dvd_def)
    have ad: "unat (heap_end h1 - heap_end h) = unat chunk" using gr by (simp add: unat_sub word_le_nat_alt)
    show ?thesis
    proof (cases "is_free c")
      case True
      let ?w = "heap_end h1 - heap_end h"
      have e: "extend_heap sz h = Some (0, h1\<lparr>kmem := set_size (at c) (len c + ?w) (kmem h)\<rparr>)"
        using True eq [OF e1(4)] \<open>\<not> r < 0\<close> linked_free [OF l(1), of c] cs by simp
      have "unat (heap_end h) + unat ?w < 2 ^ 32" "4 dvd unat ?w"
        using gr ad unat_lt2p [of "heap_end h1"] ch(3) dvd_trans [of 4 4096 "unat chunk"] by simp_all
      with extend_last [OF l(1,2) [unfolded cs] this True] show ?thesis
        using ad gr e1 ch(1) True unfolding cs
        by (intro exI [of _ 0] exI [of _ "h1\<lparr>kmem := _\<rparr>"] exI [of _ "xs @ [c\<lparr>len := len c + ?w\<rparr>]"])
          (auto simp: e heap_ok_def heap_limit)
    next
      case False
      let ?w = "heap_end h1 - heap_end h - HEADER_SIZE"
      have e: "extend_heap sz h = Some (0, h1\<lparr>kmem := fresh_block (at c) (heap_end h) ?w (kmem h)\<rparr>)"
        using False eq [OF e1(4)] \<open>\<not> r < 0\<close> linked_free [OF l(1), of c] cs by simp
      have w: "unat ?w = unat chunk - 20"
        using ad ch(1) by (subst unat_sub) (auto simp: word_le_nat_alt HEADER_SIZE_def)
      have "unat (heap_end h) + 20 + unat ?w < 2 ^ 32" "4 dvd unat ?w" "4 dvd unat (heap_end h)"
        using gr w unat_lt2p [of "heap_end h1"] ch(1,3) ok(2) dvd_trans [of 4 4096 "unat chunk"]
          dvd_trans [of 4 4096 "unat (heap_end h)"] by (auto intro!: dvd_diff_nat)
      with extend_fresh [OF l(1,2) [unfolded cs] this] show ?thesis
        using w gr e1 ch(1) unfolding cs
        by (intro exI [of _ 0] exI [of _ "h1\<lparr>kmem := _\<rparr>"]
            exI [of _ "xs @ [c, \<lparr>at = heap_end h, len = ?w, is_free = True\<rparr>]"])
          (auto simp: e heap_ok_def heap_limit)
    qed
  qed
qed

section \<open>Allocation\<close>

definition disjoint_from :: "u32 \<times> u32 \<Rightarrow> (u32 \<times> u32) set \<Rightarrow> bool" where
  "disjoint_from a L \<longleftrightarrow> (\<forall>b \<in> L. \<forall>x. payload a x \<longrightarrow> \<not> payload b x)"

lemma user_unat:
  assumes "placed lo cs hi" and "hi < 2 ^ 32" and "c \<in> set cs"
  shows "unat (at c + HEADER_SIZE) = unat (at c) + 20"
  using placed_in [OF assms(1,3)] assms(2) by (subst unat_plus_simple) (auto simp: HEADER_SIZE_def)

lemma live_disjoint:
  assumes "placed lo (xs @ c # ys) hi" and "hi < 2 ^ 32"
  shows "disjoint_from (at c + HEADER_SIZE, len c) (live_blocks xs \<union> live_blocks ys)"
proof -
  have "\<not> payload b x" if b: "b \<in> live_blocks xs \<union> live_blocks ys" and x: "payload (at c + HEADER_SIZE, len c) x" for b x
  proof -
    obtain d where d: "d \<in> set xs \<or> d \<in> set ys" "b = (at d + HEADER_SIZE, len d)"
      using b by (auto simp: live_blocks_def)
    have u: "unat (at c + HEADER_SIZE) = unat (at c) + 20" "unat (at d + HEADER_SIZE) = unat (at d) + 20"
      using user_unat [OF assms, of c] user_unat [OF assms, of d] d(1) by auto
    obtain mid where mid: "placed lo xs mid" "mid \<le> unat (at c)" "placed (unat (at c) + 20 + unat (len c)) ys hi"
      using assms(1) by (auto simp: placed_append)
    show ?thesis
      using d x u mid(2) placed_in [OF mid(1), of d] placed_in [OF mid(3), of d] by (auto simp: payload_def)
  qed
  then show ?thesis by (auto simp: disjoint_from_def)
qed

lemma set_free_step:
  assumes "linked m p f (xs @ c # ys) l e" and "placed lo (xs @ c # ys) hi" and "hi < 2 ^ 32"
  shows "linked (set_free (at c) v m) p f (xs @ c\<lparr>is_free := v \<noteq> 0\<rparr> # ys) l e"
    and "placed lo (xs @ c\<lparr>is_free := v \<noteq> 0\<rparr> # ys) hi"
    and "a \<in> live_blocks (xs @ c # ys) \<Longrightarrow> payload a x \<Longrightarrow> set_free (at c) v m x = m x"
proof -
  show "linked (set_free (at c) v m) p f (xs @ c\<lparr>is_free := v \<noteq> 0\<rparr> # ys) l e"
    using linked_set_free [OF assms(1,2)] assms(3) by simp
  show "placed lo (xs @ c\<lparr>is_free := v \<noteq> 0\<rparr> # ys) hi"
    using assms(2) by (auto simp: placed_append)
  show "set_free (at c) v m x = m x" if "a \<in> live_blocks (xs @ c # ys)" "payload a x"
    using placed_payload [OF assms(2,3) that, of c] placed_hdr [OF assms(2), of c] assms(3) by (simp add: set_off_hdr)
qed

lemma split_step:
  assumes "linked m 0 f (xs @ c # ys) l 0" and "placed lo (xs @ c # ys) hi" and "hi < 2 ^ 32" and "0 < lo"
    and "is_free c" and "unat sz \<le> unat (len c)" and "4 dvd unat sz" and "unat (len c) + 52 < 2 ^ 32"
  obtains c' zs l' where "linked (split (at c) sz m) 0 f (xs @ c' # zs) l' 0" "placed lo (xs @ c' # zs) hi"
    "at c' = at c" "is_free c'" "unat sz \<le> unat (len c')" "keeps_live m (xs @ c # ys) (split (at c) sz m) (xs @ c' # zs)"
    "live_blocks zs = live_blocks ys"
proof (cases "unat sz + 52 \<le> unat (len c)")
  case True
  have hi: "hi \<le> 2 ^ 32" using assms(3) by simp
  obtain l' where l': "linked (split (at c) sz m) 0 f (xs @ c\<lparr>len := sz\<rparr> # rest_of c sz # ys) l' 0"
    using linked_split(1) [OF assms(1,2) hi assms(4) True assms(7)] by blast
  have pl: "placed lo (xs @ c\<lparr>len := sz\<rparr> # rest_of c sz # ys) hi"
    using placed_split [OF assms(2) hi True assms(7)] .
  have lv: "live_blocks (xs @ c\<lparr>len := sz\<rparr> # rest_of c sz # ys) = live_blocks (xs @ c # ys)"
    using assms(5) by (simp add: rest_of_def)
  have "split (at c) sz m x = m x" if "a \<in> live_blocks (xs @ c # ys)" "payload a x" for a x
    using linked_split(2) [OF assms(1,2) hi assms(4) True assms(7)] placed_payload [OF assms(2,3) that]
      placed_payload [OF pl assms(3) that(1) [folded lv] that(2), of "rest_of c sz"] by (simp add: rest_of_def)
  then have "keeps_live m (xs @ c # ys) (split (at c) sz m) (xs @ c\<lparr>len := sz\<rparr> # rest_of c sz # ys)"
    using lv by (simp add: keeps_live_def)
  then show ?thesis
    using that [of "c\<lparr>len := sz\<rparr>" "rest_of c sz # ys"] l' pl assms(5) by (simp add: rest_of_def)
next
  case False
  have "unat (sz + 52) = unat sz + 52" using assms(6,8) by (subst unat_plus_simple) auto
  then have "split (at c) sz m = m"
    using False linked_free [OF assms(1), of c]
    by (simp add: split_def HEADER_SIZE_def MIN_SPLIT_def word_less_nat_alt add.assoc)
  then show ?thesis using that [of c ys l] assms keeps_live_refl by simp
qed

lemma take_block:
  assumes "heap_ok h (xs @ c # ys)" and "is_free c" and "unat sz \<le> unat (len c)" and "4 dvd unat sz"
  defines "h' \<equiv> h\<lparr>kmem := set_free (at c) 0 (split (at c) sz (kmem h))\<rparr>"
  shows "\<exists>cs' s. heap_ok h' cs' \<and> live_blocks cs' = insert (at c + HEADER_SIZE, s) (live_blocks (xs @ c # ys)) \<and> unat sz \<le> unat s \<and>
    disjoint_from (at c + HEADER_SIZE, s) (live_blocks (xs @ c # ys)) \<and>
    at c + HEADER_SIZE \<notin> fst ` live_blocks (xs @ c # ys) \<and>
    (\<forall>a x. a \<in> live_blocks (xs @ c # ys) \<longrightarrow> payload a x \<longrightarrow> kmem h' x = kmem h x)"
proof -
  obtain l where l: "linked (kmem h) 0 (first_block h) (xs @ c # ys) l 0"
      "placed 0xD0000000 (xs @ c # ys) (unat (heap_end h))" "unat (heap_end h) \<le> 0xD4000000" "unat (heap_end h) < 2 ^ 32"
    using heap_okD [OF assms(1)] by metis
  have "unat (len c) + 52 < 2 ^ 32" using placed_in [OF l(2), of c] l(3) by simp
  from split_step [OF l(1,2,4) _ assms(2,3,4) this]
  obtain c' zs l' where c': "linked (split (at c) sz (kmem h)) 0 (first_block h) (xs @ c' # zs) l' 0"
    "placed 0xD0000000 (xs @ c' # zs) (unat (heap_end h))" "at c' = at c" "is_free c'" "unat sz \<le> unat (len c')"
    "keeps_live (kmem h) (xs @ c # ys) (split (at c) sz (kmem h)) (xs @ c' # zs)" "live_blocks zs = live_blocks ys"
    by auto
  note f = set_free_step [OF c'(1,2) l(4), where v = 0]
  have "at c + HEADER_SIZE \<notin> fst ` live_blocks (xs @ c # ys)"
    using placed_apart [OF l(2), THEN apart_neq] assms(2)
    by (force simp: live_blocks_def simp del: live_blocks_append)
  moreover have "disjoint_from (at c + HEADER_SIZE, len c') (live_blocks (xs @ c # ys))"
    using live_disjoint [OF c'(2) l(4)] c'(3,7) assms(2) by simp
  moreover have "kmem h' x = kmem h x" if "a \<in> live_blocks (xs @ c # ys)" "payload a x" for a x
  proof -
    have "a \<in> live_blocks (xs @ c' # zs)" "split (at c) sz (kmem h) x = kmem h x"
      using c'(6) that unfolding keeps_live_def by blast+
    then show ?thesis using f(3) [of a x] c'(3) that(2) by (simp add: h'_def)
  qed
  ultimately show ?thesis
    using f(1,2) c' assms(1,2) by (intro exI [of _ "xs @ c'\<lparr>is_free := False\<rparr> # zs"] exI [of _ "len c'"])
      (auto simp: heap_ok_def h'_def heap_limit)
qed

lemma find_split:
  assumes "find P cs = Some c"
  obtains xs ys where "cs = xs @ c # ys" "P c"
proof -
  have "c \<in> set cs" "P c" using assms by (auto simp: find_Some_iff)
  then show ?thesis using that by (metis split_list)
qed

lemma align8: "unat sz \<le> 0x2AFFFFF8 \<Longrightarrow> unat sz \<le> unat (ALIGN_UP sz 8) \<and> unat (ALIGN_UP sz 8) \<le> 0x2B000000 \<and>
  4 dvd unat (ALIGN_UP sz 8)"
proof -
  assume a: "unat sz \<le> 0x2AFFFFF8"
  have u: "unat (ALIGN_UP sz 8) = (unat sz + 7) div 8 * 8" using align_up_pow2 [of 3 sz] a by simp
  have "unat sz \<le> (unat sz + 7) div 8 * 8" by linarith
  moreover have "(unat sz + 7) div 8 * 8 \<le> unat sz + 7" by simp
  moreover have "4 dvd (unat sz + 7) div 8 * 8" by (simp add: dvd_mult)
  ultimately show ?thesis using a unfolding u by (intro conjI) linarith+
qed

definition contents_kept :: "(u32 \<times> u32) set \<Rightarrow> kheap \<Rightarrow> kheap \<Rightarrow> bool" where
  "contents_kept L h h' \<longleftrightarrow> (\<forall>a x. a \<in> L \<longrightarrow> payload a x \<longrightarrow> kmem h' x = kmem h x)"

definition allocates :: "u32 \<Rightarrow> cell list \<Rightarrow> u32 \<Rightarrow> cell list \<Rightarrow> bool" where
  "allocates sz cs p cs' \<longleftrightarrow> p \<noteq> 0 \<and> p \<notin> fst ` live_blocks cs \<and>
     (\<exists>s. unat sz \<le> unat s \<and> live_blocks cs' = insert (p, s) (live_blocks cs) \<and> disjoint_from (p, s) (live_blocks cs))"

lemma allocates_mono: "unat sz \<le> unat a \<Longrightarrow> allocates a cs p cs' \<Longrightarrow> allocates sz cs p cs'"
  by (auto simp: allocates_def intro: le_trans)

lemma attempt_found:
  assumes "heap_ok h cs" and "find (\<lambda>c. is_free c \<and> sz \<le> len c) cs = Some c" and "4 dvd unat sz"
  shows "\<exists>h' cs'. kmalloc_attempt (Suc k) sz h = Some (at c + HEADER_SIZE, h') \<and> heap_ok h' cs' \<and>
    contents_kept (live_blocks cs) h h' \<and> allocates sz cs (at c + HEADER_SIZE) cs' \<and> kvm h' = kvm h"
proof -
  obtain l where l: "linked (kmem h) 0 (first_block h) cs l 0" "placed 0xD0000000 cs (unat (heap_end h))"
      "unat (heap_end h) < 2 ^ 32"
    using heap_okD [OF assms(1)] by metis
  obtain xs ys where cs: "cs = xs @ c # ys" "is_free c" "sz \<le> len c" using find_split [OF assms(2)] by metis
  have c: "at c \<noteq> 0" "unat (at c + HEADER_SIZE) = unat (at c) + 20"
    using placed_in [OF l(2), of c] user_unat [OF l(2,3), of c] cs by auto
  then have nz: "at c + HEADER_SIZE \<noteq> 0" by (metis add_is_0 unat_0 zero_neq_numeral)
  have "find_fit (kmem h) sz (first_block h) = Some (at c)"
    using find_fit_spec [OF l(1,2)] assms(2) by simp
  then have "kmalloc_attempt (Suc k) sz h =
      Some (at c + HEADER_SIZE, h\<lparr>kmem := set_free (at c) 0 (split (at c) sz (kmem h))\<rparr>)"
    using c(1) by simp
  moreover obtain cs' s where "heap_ok (h\<lparr>kmem := set_free (at c) 0 (split (at c) sz (kmem h))\<rparr>) cs'"
      "live_blocks cs' = insert (at c + HEADER_SIZE, s) (live_blocks cs)" "unat sz \<le> unat s"
      "disjoint_from (at c + HEADER_SIZE, s) (live_blocks cs)" "at c + HEADER_SIZE \<notin> fst ` live_blocks cs"
      "contents_kept (live_blocks cs) h (h\<lparr>kmem := set_free (at c) 0 (split (at c) sz (kmem h))\<rparr>)"
    using take_block [of h xs c ys sz] assms(1,3) cs by (auto simp: word_le_nat_alt contents_kept_def simp del: live_blocks_append)
  ultimately show ?thesis using nz unfolding allocates_def by (intro exI conjI) (assumption | simp)+
qed

lemma attempt_extend:
  assumes "heap_ok h cs" and "find (\<lambda>c. is_free c \<and> sz \<le> len c) cs = None" and "unat sz \<le> 0x2B000000"
  shows "\<exists>(r :: int) h' cs'. kmalloc_attempt (Suc k) sz h = (if r < 0 then Some (0, h') else kmalloc_attempt k sz h') \<and>
    heap_ok h' cs' \<and> live_blocks cs' = live_blocks cs \<and> contents_kept (live_blocks cs) h h' \<and>
    (r < 0 \<or> (\<exists>c. find (\<lambda>c. is_free c \<and> sz \<le> len c) cs' = Some c))"
proof -
  obtain l where l: "linked (kmem h) 0 (first_block h) cs l 0" "placed 0xD0000000 cs (unat (heap_end h))"
    using heap_okD [OF assms(1)] by metis
  have "find_fit (kmem h) sz (first_block h) = Some 0"
    using find_fit_spec [OF l(1,2)] assms(2) by simp
  moreover obtain r h' cs' where e: "extend_heap sz h = Some (r, h')" "heap_ok h' cs'" "keeps_live (kmem h) cs (kmem h') cs'"
      "r = - 1 \<or> r = 0 \<and> is_free (last cs') \<and> unat sz \<le> unat (len (last cs'))"
    using extend_heap_spec [OF assms(1,3)] by blast
  moreover have "\<exists>c. find (\<lambda>c. is_free c \<and> sz \<le> len c) cs' = Some c" if "\<not> r < 0"
  proof -
    have "last cs' \<in> set cs'" using e(2) by (simp add: heap_ok_def)
    then have "find (\<lambda>c. is_free c \<and> sz \<le> len c) cs' \<noteq> None"
      using that e(4) by (auto simp: find_None_iff word_le_nat_alt)
    then show ?thesis by blast
  qed
  ultimately show ?thesis
    by (intro exI [of _ r] exI [of _ h'] exI [of _ cs']) (auto simp: keeps_live_def contents_kept_def)
qed

lemma kmalloc_spec:
  assumes "heap_ok h cs" and "sz \<noteq> 0" and "unat sz \<le> 0x2AFFFFF8"
  shows "\<exists>p h' cs'. kmalloc sz h = Some (p, h') \<and> heap_ok h' cs' \<and> contents_kept (live_blocks cs) h h' \<and>
    (allocates sz cs p cs' \<or>
     p = 0 \<and> live_blocks cs' = live_blocks cs \<and> (\<forall>c \<in> set cs. is_free c \<longrightarrow> len c < ALIGN_UP sz 8))"
proof -
  define a where "a = ALIGN_UP sz 8"
  have a: "unat sz \<le> unat a" "unat a \<le> 0x2B000000" "4 dvd unat a" using align8 [OF assms(3)] by (auto simp: a_def)
  have k: "kmalloc sz h = kmalloc_attempt (Suc (Suc 0)) a h" using assms(2) by (simp add: kmalloc_def a_def numeral_2_eq_2)
  show ?thesis
  proof (cases "find (\<lambda>c. is_free c \<and> a \<le> len c) cs")
    case (Some c)
    obtain h1 cs1 where "kmalloc sz h = Some (at c + HEADER_SIZE, h1)" "heap_ok h1 cs1"
        "contents_kept (live_blocks cs) h h1" "allocates a cs (at c + HEADER_SIZE) cs1"
      using attempt_found [OF assms(1) Some a(3), of "Suc 0"] k by metis
    then show ?thesis
      using a(1) by (intro exI [of _ "at c + HEADER_SIZE"] exI [of _ h1] exI [of _ cs1]) (auto intro: allocates_mono)
  next
    case None
    obtain r :: int and h1 cs1 where e: "kmalloc sz h = (if r < 0 then Some (0, h1) else kmalloc_attempt (Suc 0) a h1)"
      "heap_ok h1 cs1" "live_blocks cs1 = live_blocks cs" "contents_kept (live_blocks cs) h h1"
      "r < 0 \<or> (\<exists>c. find (\<lambda>c. is_free c \<and> a \<le> len c) cs1 = Some c)"
      using attempt_extend [OF assms(1) None a(2), of "Suc 0"] k by metis
    show ?thesis
    proof (cases "r < 0")
      case True
      have "\<forall>c \<in> set cs. is_free c \<longrightarrow> len c < a" using None by (auto simp: find_None_iff not_le)
      then show ?thesis using e(1-4) True by (auto simp: a_def)
    next
      case False
      then obtain c where c: "find (\<lambda>c. is_free c \<and> a \<le> len c) cs1 = Some c" using e(5) by blast
      obtain h2 cs2 where "kmalloc_attempt (Suc 0) a h1 = Some (at c + HEADER_SIZE, h2)" "heap_ok h2 cs2"
          "contents_kept (live_blocks cs1) h1 h2" "allocates a cs1 (at c + HEADER_SIZE) cs2"
        using attempt_found [OF e(2) c a(3), of 0] by blast
      with e False a(1) show ?thesis
        by (intro exI [of _ "at c + HEADER_SIZE"] exI [of _ h2] exI [of _ cs2])
          (auto simp: contents_kept_def allocates_def intro: le_trans)
    qed
  qed
qed


section \<open>Initialisation\<close>

definition first_cell :: "u32 \<Rightarrow> cell" where
  "first_cell n = \<lparr>at = HEAP_BASE, len = n, is_free = True\<rparr>"

lemma hdr_base: "hdr_at HEAP_BASE"
  by (simp add: hdr_at_def heap_limit)

lemma first_block_linked:
  "linked (set_free HEAP_BASE 1 (set_prev HEAP_BASE 0 (set_next HEAP_BASE 0 (set_size HEAP_BASE n (set_magic HEAP_BASE BLOCK_MAGIC m)))))
     0 HEAP_BASE [first_cell n] HEAP_BASE 0"
  by (simp add: first_cell_def hdr_of_def blk_set hdr_base)

lemma grow_pages_bytes: "grow_pages k h = (r, h') \<Longrightarrow> heap_bytes h' - heap_end h' = heap_bytes h - heap_end h"
  by (induction k h rule: grow_pages.induct) (auto split: prod.splits if_splits)

lemma grow_bytes: "grow b h = (r, h') \<Longrightarrow> heap_bytes h' - heap_end h' = heap_bytes h - heap_end h"
  by (auto simp: grow_def Let_def grow_pages_bytes split: if_splits)

lemma kheap_init_ok:
  assumes "kheap_init h = Some h'"
  shows "heap_ok h' [first_cell 65516]"
proof -
  define h0 where "h0 = h\<lparr>heap_end := HEAP_BASE, heap_bytes := 0\<rparr>"
  obtain r h1 where g: "grow (64 * 1024) h0 = (r, h1)" by fastforce
  have r: "\<not> r < 0" and h': "h' = h1\<lparr>first_block := HEAP_BASE,
      kmem := set_free HEAP_BASE 1 (set_prev HEAP_BASE 0 (set_next HEAP_BASE 0
        (set_size HEAP_BASE (heap_bytes h1 - HEADER_SIZE) (set_magic HEAP_BASE BLOCK_MAGIC (kmem h1)))))\<rparr>"
    using assms g by (auto simp: kheap_init_def h0_def split: if_splits)
  have e0: "unat (heap_end h0) = 0xD0000000" by (simp add: h0_def heap_limit)
  have "heap_end h0 \<le> KERNEL_HEAP_MAX" "4096 dvd unat (heap_end h0)" "unat (64 * 1024 :: u32) \<le> 0x2B010000"
    using e0 by (simp_all add: word_le_nat_alt heap_limit)
  from grow_spec [OF g this] r e0 have "unat (heap_end h1) = 0xD0010000" by auto
  then have e1: "heap_end h1 = 0xD0010000" by (simp add: word_unat_eq_iff)
  have "heap_bytes h1 - heap_end h1 = - HEAP_BASE" using grow_bytes [OF g] by (simp add: h0_def)
  then have "heap_bytes h1 = 65536"
    unfolding e1 HEAP_BASE_def KERNEL_HEAP_BASE_def by (simp add: algebra_simps)
  then show ?thesis
    using first_block_linked [of 65516 "kmem h1"] e1 by (auto simp: heap_ok_def h' first_cell_def HEADER_SIZE_def heap_limit word_le_nat_alt)
qed

definition sample_heap :: kheap where
  "sample_heap = \<lparr>kvm = sample_vm,
     kmem = set_free HEAP_BASE 1 (set_prev HEAP_BASE 0 (set_next HEAP_BASE 0
       (set_size HEAP_BASE 65516 (set_magic HEAP_BASE BLOCK_MAGIC (\<lambda>_. 0))))),
     first_block = HEAP_BASE, heap_end = HEAP_BASE + 65536, heap_bytes = 65536\<rparr>"

lemma sample_heap_ok: "heap_ok sample_heap [first_cell 65516]"
  using first_block_linked [of 65516 "\<lambda>_. 0"]
  by (auto simp: heap_ok_def sample_heap_def first_cell_def HEAP_BASE_def KERNEL_HEAP_BASE_def KERNEL_HEAP_MAX_def)


section \<open>Release\<close>

lemma kfree_spec:
  assumes "heap_ok h cs" and "(p, s) \<in> live_blocks cs"
  shows "\<exists>h' cs'. kfree p h = Some h' \<and> heap_ok h' cs' \<and> live_blocks cs' = live_blocks cs - {(p, s)} \<and>
    contents_kept (live_blocks cs - {(p, s)}) h h' \<and> kfree p h' = None"
proof -
  obtain l where l: "linked (kmem h) 0 (first_block h) cs l 0" "placed 0xD0000000 cs (unat (heap_end h))"
      "unat (heap_end h) < 2 ^ 32"
    using heap_okD [OF assms(1)] by metis
  obtain c where c: "c \<in> set cs" "\<not> is_free c" "p = at c + HEADER_SIZE" "s = len c"
    using assms(2) by (auto simp: live_blocks_def)
  obtain xs ys where cs: "cs = xs @ c # ys" using c(1) by (meson split_list)
  have b: "p - HEADER_SIZE = at c" using c(3) by simp
  have b': "p \<noteq> 0" using c(3) user_unat [OF l(2,3) c(1)] by (auto simp: word_unat_eq_iff)
  note f = set_free_step [OF l(1,2) [unfolded cs] l(3), where v = 1]
  define m1 where "m1 = set_free (at c) 1 (kmem h)"
  obtain cs' l' where co: "cs' \<noteq> []" "linked (coalesce (at c) m1) 0 (first_block h) cs' l' 0"
      "placed 0xD0000000 cs' (unat (heap_end h))"
      "keeps_live m1 (xs @ c\<lparr>is_free := True\<rparr> # ys) (coalesce (at c) m1) cs'"
      "bfree (blk (coalesce (at c) m1) (at c)) \<noteq> 0" "magic (blk (coalesce (at c) m1) (at c)) = BLOCK_MAGIC"
    using coalesce_spec [OF f(1,2) l(3)] by (auto simp: m1_def)
  have "(at c + HEADER_SIZE, len c) \<notin> live_blocks xs \<union> live_blocks ys"
    using user_unat [OF l(2,3)] placed_apart [OF l(2) [unfolded cs]] cs
    by (auto simp: live_blocks_def) (metis add_right_cancel apart_neq)+
  then have lv: "live_blocks (xs @ c\<lparr>is_free := True\<rparr> # ys) = live_blocks cs - {(p, s)}"
    using c cs by auto
  have fr: "kfree p h = Some (h\<lparr>kmem := coalesce (at c) m1\<rparr>)"
    using b b' c linked_free [OF l(1) c(1)] by (simp add: kfree_def m1_def Let_def)
  have "contents_kept (live_blocks cs - {(p, s)}) h (h\<lparr>kmem := coalesce (at c) m1\<rparr>)"
    using co(4) f(3) [folded cs] unfolding keeps_live_def lv contents_kept_def by (simp add: m1_def) blast
  moreover have "kfree p (h\<lparr>kmem := coalesce (at c) m1\<rparr>) = None"
    using b b' co(5,6) by (simp add: kfree_def Let_def)
  moreover have "heap_ok (h\<lparr>kmem := coalesce (at c) m1\<rparr>) cs'"
    using co(1-3) assms(1) by (auto simp: heap_ok_def heap_limit)
  ultimately show ?thesis using fr co(4) lv unfolding keeps_live_def by blast
qed


definition used_heap :: kheap where
  "used_heap = sample_heap\<lparr>kmem := set_free HEAP_BASE 0 (kmem sample_heap)\<rparr>"

definition used_cell :: cell where
  "used_cell = (first_cell 65516)\<lparr>is_free := False\<rparr>"

lemma used_heap_ok: "heap_ok used_heap [used_cell]"
proof -
  obtain l where l: "linked (kmem sample_heap) 0 (first_block sample_heap) [first_cell 65516] l 0"
      "placed 0xD0000000 [first_cell 65516] (unat (heap_end sample_heap))" "unat (heap_end sample_heap) < 2 ^ 32"
    using heap_okD [OF sample_heap_ok] by metis
  have "at (first_cell 65516) = HEAP_BASE" by (simp add: first_cell_def)
  then show ?thesis
    using set_free_step(1,2) [of _ _ _ "[]" "first_cell 65516" "[]", OF _ _ l(3), where v = 0] l sample_heap_ok
    unfolding heap_ok_def used_heap_def used_cell_def
    by (fastforce simp del: linked.simps placed.simps simp: heap_limit)
qed

lemma used_live: "(HEAP_BASE + HEADER_SIZE, 65516) \<in> live_blocks [used_cell]"
  by (simp add: used_cell_def first_cell_def)


section \<open>Writing to an allocation\<close>

lemma payload_write:
  assumes "heap_ok h cs" and "a \<in> live_blocks cs" and "\<And>x. m x \<noteq> kmem h x \<Longrightarrow> payload a x"
  shows "heap_ok (h\<lparr>kmem := m\<rparr>) cs"
proof -
  obtain l where l: "linked (kmem h) 0 (first_block h) cs l 0" "placed 0xD0000000 cs (unat (heap_end h))"
      "unat (heap_end h) < 2 ^ 32"
    using heap_okD [OF assms(1)] by metis
  have "blk m (at d) = blk (kmem h) (at d)" if d: "d \<in> set cs" for d
  proof -
    have hd: "hdr_at (at d)" using placed_hdr [OF l(2) _ d] l(3) by simp
    have same: "m x = kmem h x" if "\<not> off_hdr (at d) x" for x
      using assms(3) placed_payload [OF l(2,3) assms(2) _ d] that by blast
    have "rd32 m (at d + of_nat (4 * j)) = rd32 (kmem h) (at d + of_nat (4 * j))" if j: "j < 5" for j
    proof (rule rd32_cong)
      fix k :: nat
      assume k: "k < 4"
      have "unat (at d + of_nat (4 * j) + of_nat k) = unat (at d) + 4 * j + k"
        using aligned4_plus [OF hdr_word_aligned [OF hd j] k] hdr_word [OF hd j] by simp
      then show "m (at d + of_nat (4 * j) + of_nat k) = kmem h (at d + of_nat (4 * j) + of_nat k)"
        using j k by (intro same) (auto simp: off_hdr_def)
    qed
    from this [of 0] this [of 1] this [of 2] this [of 3] this [of 4] show ?thesis by (simp add: blk_def)
  qed
  then have "linked m 0 (first_block h) cs l 0" using l(1) linked_cong [of cs m "kmem h"] by simp
  then show ?thesis using assms(1) by (auto simp: heap_ok_def)
qed

lemma offset_payload:
  assumes "unat p + unat s \<le> 2 ^ 32"
  shows "unat (x - p) < unat s \<longleftrightarrow> payload (p, s) x"
proof (cases "p \<le> x")
  case True
  then show ?thesis by (auto simp: payload_def unat_sub word_le_nat_alt)
next
  case False
  then have "unat (x - p) = 2 ^ 32 + unat x - unat p" by (simp add: unat_sub_if' word_le_nat_alt)
  then show ?thesis using False assms by (auto simp: payload_def word_le_nat_alt)
qed

lemma live_bounds: "heap_ok h cs \<Longrightarrow> (p, s) \<in> live_blocks cs \<Longrightarrow> 0xD0000000 \<le> unat p \<and> unat p + unat s \<le> 0xD4000000"
proof -
  assume a: "heap_ok h cs" "(p, s) \<in> live_blocks cs"
  obtain l where l: "placed 0xD0000000 cs (unat (heap_end h))" "unat (heap_end h) < 2 ^ 32" "unat (heap_end h) \<le> 0xD4000000"
    using heap_okD [OF a(1)] by metis
  obtain c where c: "c \<in> set cs" "p = at c + HEADER_SIZE" "s = len c" using a(2) by (auto simp: live_blocks_def)
  show ?thesis using placed_in [OF l(1) c(1)] user_unat [OF l(1,2) c(1)] l(3) c by auto
qed

lemma live_header:
  assumes "heap_ok h cs" and "(p, s) \<in> live_blocks cs"
  shows "bsize (blk (kmem h) (p - HEADER_SIZE)) = s \<and> magic (blk (kmem h) (p - HEADER_SIZE)) = BLOCK_MAGIC \<and> p \<noteq> 0"
proof -
  obtain c where c: "c \<in> set cs" "p = at c + HEADER_SIZE" "s = len c" using assms(2) by (auto simp: live_blocks_def)
  obtain l where l: "linked (kmem h) 0 (first_block h) cs l 0" using heap_okD [OF assms(1)] by metis
  show ?thesis using linked_free [OF l c(1)] c live_bounds [OF assms] by auto
qed

lemma copy_payload:
  assumes "heap_ok h cs" and "(p, s) \<in> live_blocks cs" and "(q, t) \<in> live_blocks cs" and "unat s \<le> unat t"
    and "disjoint_from (q, t) {(p, s)}"
  shows "memcpy q p s m x = (if payload (q, s) x then m (p + (x - q)) else m x)"
proof -
  have b: "unat p + unat s < 2 ^ 32" "unat q + unat t < 2 ^ 32"
    using live_bounds [OF assms(1,2)] live_bounds [OF assms(1,3)] by auto
  have "unat (p - q) + unat s \<le> 2 ^ 32"
  proof (cases "q \<le> p")
    case True
    then show ?thesis using b by (simp add: unat_sub word_le_nat_alt)
  next
    case False
    then have "unat (p - q) = 2 ^ 32 + unat p - unat q" by (simp add: unat_sub_if' word_le_nat_alt)
    moreover have "unat p + unat s \<le> unat q" if "0 < unat s"
      using that assms(4,5) False by (auto simp: disjoint_from_def payload_def word_le_nat_alt dest!: spec [of _ q])
    moreover have "unat p < unat q" "unat q < 2 ^ 32" using False b by (simp_all add: word_le_nat_alt)
    ultimately show ?thesis by (cases "unat s = 0") auto
  qed
  from memcpy_spec [OF this] offset_payload [of q s x] b assms(4) show ?thesis by auto
qed

lemma krealloc_spec:
  assumes "heap_ok h cs" and "(p, s) \<in> live_blocks cs" and "sz \<noteq> 0" and "unat sz \<le> 0x2AFFFFF8"
  shows "\<exists>q h' cs'. krealloc p sz h = Some (q, h') \<and> heap_ok h' cs' \<and>
    contents_kept (live_blocks cs - {(p, s)}) h h' \<and>
    (q = p \<and> sz \<le> s \<and> h' = h \<or>
     q = 0 \<and> s < sz \<and> live_blocks cs' = live_blocks cs \<and> contents_kept (live_blocks cs) h h' \<or>
     q \<noteq> 0 \<and> s < sz \<and> q \<notin> fst ` live_blocks cs \<and> (\<exists>t \<ge> sz. live_blocks cs' = insert (q, t) (live_blocks cs - {(p, s)})) \<and>
       (\<forall>i. i < s \<longrightarrow> kmem h' (q + i) = kmem h (p + i)))"
proof (cases "sz \<le> s")
  case True
  then have "krealloc p sz h = Some (p, h)"
    using live_header [OF assms(1,2)] assms(3) by (simp add: krealloc_def Let_def)
  then show ?thesis using True assms(1) by (auto simp: contents_kept_def)
next
  case False
  obtain q h1 cs1 where m: "kmalloc sz h = Some (q, h1)" "heap_ok h1 cs1" "contents_kept (live_blocks cs) h h1"
      "allocates sz cs q cs1 \<or> q = 0 \<and> live_blocks cs1 = live_blocks cs"
    using kmalloc_spec [OF assms(1,3,4)] by blast
  have live1: "(p, s) \<in> live_blocks cs1" using assms(2) m(4) by (auto simp: allocates_def)
  define h2 where "h2 = h1\<lparr>kmem := memcpy q p s (kmem h1)\<rparr>"
  have r: "krealloc p sz h = (if q = 0 then Some (0, h1) else map_option (Pair q) (kfree p h2))"
    using live_header [OF assms(1,2)] live_header [OF m(2) live1] assms(3) False m(1)
    by (simp add: krealloc_def Let_def h2_def)
  show ?thesis
  proof (cases "q = 0")
    case True
    then show ?thesis using r m False by (auto simp: allocates_def contents_kept_def not_le)
  next
    case nq: False
    then obtain t where t: "unat sz \<le> unat t" "live_blocks cs1 = insert (q, t) (live_blocks cs)"
        "disjoint_from (q, t) (live_blocks cs)" "q \<notin> fst ` live_blocks cs"
      using m(4) by (auto simp: allocates_def)
    have st: "unat s < unat t" using False t(1) by (simp add: word_le_nat_alt)
    have cp: "kmem h2 x = (if payload (q, s) x then kmem h1 (p + (x - q)) else kmem h1 x)" for x
      using copy_payload [OF m(2) live1 _ less_imp_le [OF st]] t(2,3) assms(2) by (auto simp: h2_def disjoint_from_def)
    have "payload (q, t) x" if "payload (q, s) x" for x using that st by (simp add: payload_def)
    then have ok2: "heap_ok h2 cs1"
      unfolding h2_def using t(2) cp by (intro payload_write [OF m(2), of "(q, t)"]) (auto simp: h2_def split: if_splits)
    obtain h' cs' where f: "kfree p h2 = Some h'" "heap_ok h' cs'" "live_blocks cs' = live_blocks cs1 - {(p, s)}"
        "contents_kept (live_blocks cs1 - {(p, s)}) h2 h'"
      using kfree_spec [OF ok2 live1] by blast
    have qs: "(q, t) \<noteq> (p, s)" using st by auto
    have other: "kmem h' x = kmem h x" if "a \<in> live_blocks cs - {(p, s)}" "payload a x" for a x
    proof -
      have "\<not> payload (q, s) x" using t(3) that \<open>payload (q, s) x \<Longrightarrow> payload (q, t) x\<close> by (auto simp: disjoint_from_def)
      then have "kmem h2 x = kmem h1 x" using cp [of x] by simp
      moreover have "kmem h' x = kmem h2 x" using f(4) that t(2) unfolding contents_kept_def by blast
      moreover have "kmem h1 x = kmem h x" using m(3) that unfolding contents_kept_def by blast
      ultimately show ?thesis by simp
    qed
    have "kmem h' (q + i) = kmem h (p + i)" if i: "i < s" for i
    proof -
      have "unat i < unat s" using i by (simp add: word_less_nat_alt)
      then have "payload (q, s) (q + i)" "payload (p, s) (p + i)"
        using offset_payload [of q s "q + i"] offset_payload [of p s "p + i"] live_bounds [OF m(2) live1]
          live_bounds [OF m(2), of q t] t(2) st by auto
      moreover from this have "payload (q, t) (q + i)" using st by (simp add: payload_def)
      moreover have "(q, t) \<in> live_blocks cs1 - {(p, s)}" using t(2) qs by simp
      ultimately have "kmem h' (q + i) = kmem h2 (q + i)" "kmem h1 (p + i) = kmem h (p + i)" "payload (q, s) (q + i)"
        using f(4) m(3) assms(2) unfolding contents_kept_def by blast+
      then show ?thesis using cp [of "q + i"] by simp
    qed
    moreover have "krealloc p sz h = Some (q, h')" using r nq f(1) by simp
    moreover have "live_blocks cs' = insert (q, t) (live_blocks cs - {(p, s)})" using f(3) t(2) qs by auto
    ultimately show ?thesis
      using f(2) other nq False t(1,4)
      by (intro exI [of _ q] exI [of _ h'] exI [of _ cs']) (auto simp: contents_kept_def not_le word_le_nat_alt word_less_nat_alt)
  qed
qed

text \<open>
  \<^verbatim>\<open>krealloc\<close> of a live allocation to a non-zero size returns on every well-formed heap.  It keeps the block
  when it is large enough; otherwise it either fails and keeps everything as it was, or moves the allocation:
  the new block is at least as large as asked, holds a copy of all the old bytes, and replaces the old one among the live
  allocations.  The other allocations keep their contents.
\<close>

lemma krealloc_correct:
  assumes "heap_ok h cs" and "(p, s) \<in> live_blocks cs" and "sz \<noteq> 0" and "unat sz \<le> 0x2AFFFFF8"
  shows "\<exists>q h' cs'. krealloc p sz h = Some (q, h') \<and> heap_ok h' cs' \<and>
    contents_kept (live_blocks cs - {(p, s)}) h h' \<and>
    (q = p \<and> sz \<le> s \<and> h' = h \<or>
     q = 0 \<and> s < sz \<and> live_blocks cs' = live_blocks cs \<and> contents_kept (live_blocks cs) h h' \<or>
     q \<noteq> 0 \<and> s < sz \<and> q \<notin> fst ` live_blocks cs \<and> (\<exists>t \<ge> sz. live_blocks cs' = insert (q, t) (live_blocks cs - {(p, s)})) \<and>
       (\<forall>i. i < s \<longrightarrow> kmem h' (q + i) = kmem h (p + i)))"
  by (rule krealloc_spec [OF assms])

text \<open>
  \<^verbatim>\<open>kcalloc\<close> returns either NULL, with the live allocations unchanged, or a new block, disjoint from the live ones,
  whose first \<^verbatim>\<open>count * size\<close> bytes are all zero; no other allocation changes.
\<close>

lemma kcalloc_correct:
  assumes "heap_ok h cs" and "count * sz \<noteq> 0" and "unat count * unat sz \<le> 0x2AFFFFF8"
  shows "\<exists>p h' cs'. kcalloc count sz h = Some (p, h') \<and> heap_ok h' cs' \<and> contents_kept (live_blocks cs) h h' \<and>
    (p = 0 \<and> live_blocks cs' = live_blocks cs \<or>
     allocates (count * sz) cs p cs' \<and> (\<forall>i. i < count * sz \<longrightarrow> kmem h' (p + i) = 0))"
proof -
  have u: "unat (count * sz) = unat count * unat sz" using assms(3) by (simp add: unat_word_ariths)
  obtain p h1 cs1 where m: "kmalloc (count * sz) h = Some (p, h1)" "heap_ok h1 cs1" "contents_kept (live_blocks cs) h h1"
      "allocates (count * sz) cs p cs1 \<or> p = 0 \<and> live_blocks cs1 = live_blocks cs"
    using kmalloc_spec [OF assms(1,2)] u assms(3) by fastforce
  show ?thesis
  proof (cases "p = 0")
    case True
    then show ?thesis using m by (auto simp: kcalloc_def allocates_def)
  next
    case False
    then obtain t where t: "unat (count * sz) \<le> unat t" "live_blocks cs1 = insert (p, t) (live_blocks cs)"
        "disjoint_from (p, t) (live_blocks cs)" "allocates (count * sz) cs p cs1"
      using m(4) by (auto simp: allocates_def)
    have b: "unat p + unat t \<le> 2 ^ 32" using live_bounds [OF m(2), of p t] t(2) by simp
    define h2 where "h2 = h1\<lparr>kmem := memset p 0 (count * sz) (kmem h1)\<rparr>"
    have z: "kmem h2 x = (if unat (x - p) < unat (count * sz) then 0 else kmem h1 x)" for x
      by (simp add: h2_def memset_spec)
    have in_new: "payload (p, t) x" if "unat (x - p) < unat (count * sz)" for x
      using that t(1) offset_payload [OF b, of x] by simp
    have "heap_ok h2 cs1"
      unfolding h2_def using t(2) z in_new by (intro payload_write [OF m(2), of "(p, t)"]) (auto simp: h2_def split: if_splits)
    moreover have "contents_kept (live_blocks cs) h h2"
      using m(3) t(3) z in_new unfolding contents_kept_def disjoint_from_def by (metis (no_types, lifting))
    moreover have "kmem h2 (p + i) = 0" if "i < count * sz" for i
      using that z [of "p + i"] by (simp add: word_less_nat_alt)
    moreover have "kcalloc count sz h = Some (p, h2)" using m(1) False by (simp add: kcalloc_def h2_def)
    ultimately show ?thesis using t(4) by blast
  qed
qed

section \<open>Sizes that wrap around\<close>

text \<open>
  Rounding a request of more than \<open>2 ^ 32 - 8\<close> bytes up to a multiple of 8 wraps to 0, so \<^verbatim>\<open>kmalloc\<close>
  succeeds with a block of no bytes at all.
\<close>

lemma kmalloc_wraps:
  assumes "0xFFFFFFF8 < sz"
  shows "kmalloc sz h = kmalloc_attempt 2 0 h"
proof -
  have "unat sz \<in> {0xFFFFFFF9..0xFFFFFFFF}" using assms unat_lt2p [of sz] by (auto simp: word_less_nat_alt)
  then have "unat (sz + 7) = unat sz + 7 - 2 ^ 32" by (auto simp: unat_word_ariths mod_if)
  then have "unat (sz + 7) < 2 ^ 3" using unat_lt2p [of sz] by simp
  then have "unat ((sz + 7) AND NOT (mask 3)) = 0" by (simp add: u_simps)
  then have "ALIGN_UP sz 8 = 0" by (simp add: ALIGN_UP_def mask_eq_exp_minus_1 unat_eq_0)
  then show ?thesis using assms by (auto simp: kmalloc_def)
qed

text \<open>
  The bound check of \<^verbatim>\<open>grow\<close> is computed modulo \<open>2 ^ 32\<close>: a request of 1 GB passes it although the heap region has
  64 MB, and the loop then maps pages until the frames run out.
\<close>

lemma grow_bound_wraps:
  assumes "heap_end h = HEAP_BASE + 65536"
  shows "grow 0x40000000 h = grow_pages 0x40000 h"
proof -
  have "ALIGN_UP 0x40000000 PAGE_SIZE div PAGE_SIZE = 0x40000" by (simp add: ALIGN_UP_def PAGE_SIZE_def word_unat_eq_iff unat_div)
  then show ?thesis
    using assms by (simp add: grow_def HEAP_BASE_def HEAP_MAX_SIZE_def KERNEL_HEAP_BASE_def KERNEL_HEAP_MAX_def PAGE_SIZE_def
        word_less_nat_alt)
qed

section \<open>Inspection\<close>

lemma check_walk_ok:
  assumes "linked m p b cs l 0" and "placed lo cs (unat e)" and "0 < lo" and "unat e \<le> 2 ^ 32"
  shows "check_walk m e b = Some 0"
  using assms
proof (induction cs arbitrary: p b lo)
  case (Cons c cs)
  have b: "b = at c" "at c \<noteq> 0" "\<not> e \<le> at c" "hdr_of m p c"
    using Cons.prems placed_in [OF Cons.prems(2), of c] by (auto simp: word_le_nat_alt)
  have "check_walk m e (bnext (blk m b)) = Some 0"
    using Cons.prems by (intro Cons.IH [of "at c" _ "unat (at c) + 20 + unat (len c)"]) auto
  moreover have "bnext (blk m b) = 0 \<or> bprev (blk m (bnext (blk m b))) = b"
    using Cons.prems(1) b(1) by (cases cs) (auto simp: hdr_of_def)
  ultimately show ?case
    using b by (auto simp: check_walk.simps [of m e "at c"] hdr_of_def)
qed (simp add: check_walk.simps)

lemma stats_walk_ok:
  assumes "linked m p b cs l 0" and "placed lo cs hi" and "0 < lo"
  shows "stats_walk m b u f n = Some (u + sum_list (map len (filter (\<lambda>c. \<not> is_free c) cs)),
    f + sum_list (map len (filter is_free cs)), n + of_nat (length cs))"
  using assms
proof (induction cs arbitrary: p b lo u f n)
  case (Cons c cs)
  have b: "b = at c" "at c \<noteq> 0" "hdr_of m p c" using Cons.prems by auto
  have "stats_walk m (bnext (blk m b)) u' f' n' = Some (u' + sum_list (map len (filter (\<lambda>c. \<not> is_free c) cs)),
      f' + sum_list (map len (filter is_free cs)), n' + of_nat (length cs))" for u' f' n'
    using Cons.prems by (intro Cons.IH [of "at c" _ "unat (at c) + 20 + unat (len c)"]) auto
  then show ?case
    using b by (simp add: stats_walk.simps [of m "at c"] hdr_of_def add.assoc)
qed (simp add: stats_walk.simps)

text \<open>
  C39: on a well-formed heap the consistency check ends and finds nothing, and the statistics end with the number of blocks
  and the total payload of the used and of the free blocks.
\<close>

theorem kheap_inspection:
  assumes "heap_ok h cs"
  shows "kheap_check h = Some 0 \<and>
    kheap_stats h = Some (sum_list (map len (filter (\<lambda>c. \<not> is_free c) cs)), sum_list (map len (filter is_free cs)),
      heap_bytes h, of_nat (length cs))"
proof -
  obtain l where "linked (kmem h) 0 (first_block h) cs l 0" "placed 0xD0000000 cs (unat (heap_end h))"
      "unat (heap_end h) \<le> 2 ^ 32"
    using heap_okD [OF assms] by metis
  then show ?thesis
    using check_walk_ok [of "kmem h" 0 "first_block h" cs l _ "heap_end h"] stats_walk_ok [of "kmem h" 0 "first_block h" cs l]
    by (simp add: kheap_check_def kheap_stats_def)
qed

theorem kheap_inspection_witness:
  "heap_ok sample_heap [first_cell 65516] \<and> kheap_check sample_heap = Some 0"
  using kheap_inspection [OF sample_heap_ok] sample_heap_ok by simp

end
