(* ===== verification/VfsPath.thy ===== *)
theory VfsPath
  imports KString
begin

text \<open>
  Path handling of \<^verbatim>\<open>kernel/fs/vfs.c\<close>: \<^verbatim>\<open>vfs_abspath\<close>, which resolves a path against a working directory, purely on the
  text.  The local array \<^verbatim>\<open>stack\<close> with its length is the string it holds; it is always terminated.
\<close>

section \<open>Resolving paths\<close>

definition FS_NAME_MAX :: nat where "FS_NAME_MAX = 32"
definition FS_PATH_MAX :: nat where "FS_PATH_MAX = 192"
definition SLASH :: u8 where "SLASH = 47"
definition DOT :: u8 where "DOT = 46"

definition skip_slashes :: "cstr \<Rightarrow> cstr" where
  "skip_slashes p = dropWhile (\<lambda>c. c = SLASH) p"

definition first_seg :: "cstr \<Rightarrow> cstr" where
  "first_seg p = takeWhile (\<lambda>c. c \<noteq> 0 \<and> c \<noteq> SLASH) p"

lemma skip_head: "skip_slashes p = c # q \<Longrightarrow> c \<noteq> SLASH"
  by (induction p) (auto simp: skip_slashes_def split: if_splits)

lemma skip_first_shorter: "hd0 (skip_slashes p) \<noteq> 0 \<Longrightarrow> length (drop (length (first_seg (skip_slashes p))) (skip_slashes p)) < length p"
proof -
  assume a: "hd0 (skip_slashes p) \<noteq> 0"
  then obtain c q where c: "skip_slashes p = c # q" "c \<noteq> 0" by (auto simp: hd0_def split: list.splits)
  then have "c \<noteq> SLASH" using skip_head by blast
  then have "0 < length (first_seg (skip_slashes p))" using c by (simp add: first_seg_def)
  moreover have "length (skip_slashes p) \<le> length p" by (simp add: skip_slashes_def length_dropWhile_le)
  ultimately show ?thesis using c by (metis length_drop diff_less le_trans length_greater_0_conv list.discI not_le order_less_le_trans)
qed

definition pop_seg :: "cstr \<Rightarrow> cstr" where
  "pop_seg st = (case strrchr st SLASH of Some rest \<Rightarrow> take (length st - length rest) st | None \<Rightarrow> st)"

text \<open>The loop over the path; \<open>None\<close> when the result does not fit.\<close>

function abspath_loop :: "cstr \<Rightarrow> cstr \<Rightarrow> cstr option" where
  "abspath_loop st p =
     (let p1 = skip_slashes p
      in if hd0 p1 = 0 then Some st
         else
           let seg = first_seg p1; p2 = drop (length seg) p1
           in if seg = [DOT] then abspath_loop st p2
              else if seg = [DOT, DOT] then abspath_loop (pop_seg st) p2
              else if FS_PATH_MAX \<le> length st + 1 + length seg then None
              else abspath_loop (st @ SLASH # seg) p2)"
  by pat_completeness auto
termination
  by (relation "measure (\<lambda>(st, p). length p)") (use skip_first_shorter in auto)

declare abspath_loop.simps [simp del]

text \<open>The working directory is copied as it is, without one trailing slash; \<open>None\<close> when it does not fit.\<close>

definition abspath_start :: "cstr option \<Rightarrow> cstr \<Rightarrow> cstr option" where
  "abspath_start cwd0 path =
     (case cwd0 of
        Some cwd \<Rightarrow>
          if hd0 path \<noteq> SLASH \<and> hd0 cwd \<noteq> 0 then
            let st = take (strlen cwd) cwd
            in if FS_PATH_MAX \<le> length st then None
               else if 1 < length st \<and> last st = SLASH then Some (butlast st) else Some st
          else Some []
      | None \<Rightarrow> Some [])"

definition vfs_abspath :: "cstr option \<Rightarrow> cstr \<Rightarrow> u8 list \<Rightarrow> nat \<Rightarrow> int \<times> u8 list" where
  "vfs_abspath cwd path out sz =
     (if sz < 2 then (- 1, out)
      else
        (case abspath_start cwd path of
           None \<Rightarrow> (- 1, out)
         | Some st0 \<Rightarrow>
             (case abspath_loop st0 path of
                None \<Rightarrow> (- 1, out)
              | Some st \<Rightarrow>
                  let st1 = (if st = [] then [SLASH] else st);
                      (n, out1) = strlcpy out st1 sz
                  in if sz \<le> n then (- 1, out1) else (0, out1))))"

section \<open>Reference: lists of names\<close>

text \<open>The names of a path, and what one name does to a list of names.\<close>

function segs :: "cstr \<Rightarrow> cstr list" where
  "segs p =
     (let p1 = skip_slashes p
      in if hd0 p1 = 0 then [] else first_seg p1 # segs (drop (length (first_seg p1)) p1))"
  by pat_completeness auto
termination
  by (relation "measure length") (use skip_first_shorter in auto)

declare segs.simps [simp del]

definition seg_step :: "cstr \<Rightarrow> cstr list \<Rightarrow> cstr list" where
  "seg_step seg names = (if seg = [DOT] then names else if seg = [DOT, DOT] then butlast names else names @ [seg])"

definition resolve :: "cstr list \<Rightarrow> cstr list \<Rightarrow> cstr list" where
  "resolve names path = fold seg_step path names"

definition good_seg :: "cstr \<Rightarrow> bool" where
  "good_seg s \<longleftrightarrow> s \<noteq> [] \<and> 0 \<notin> set s \<and> SLASH \<notin> set s"

text \<open>The text of a list of names.\<close>

definition path_of :: "cstr list \<Rightarrow> cstr" where
  "path_of names = concat (map (\<lambda>s. SLASH # s) names)"

lemma path_of_simps [simp]: "path_of [] = []" "path_of (s # ss) = SLASH # s @ path_of ss" "path_of (a @ b) = path_of a @ path_of b"
  by (simp_all add: path_of_def)

lemma segs_good: "s \<in> set (segs p) \<Longrightarrow> good_seg s"
proof (induction p rule: segs.induct)
  case (1 p)
  show ?case
  proof (cases "hd0 (skip_slashes p) = 0")
    case True
    then show ?thesis using 1(2) by (simp add: segs.simps [of p])
  next
    case False
    then have "first_seg (skip_slashes p) \<noteq> []"
      using skip_head [of p] by (auto simp: first_seg_def hd0_def split: list.splits)
    then have "good_seg (first_seg (skip_slashes p))" by (auto simp: good_seg_def first_seg_def dest: set_takeWhileD)
    then show ?thesis using 1 False by (auto simp: segs.simps [of p] Let_def)
  qed
qed

lemma strrchr_last:
  assumes "SLASH \<notin> set s" and "0 \<notin> set (pre @ s)"
  shows "strrchr_loop (pre @ SLASH # s) SLASH h = Some (SLASH # s)"
proof -
  have nz: "SLASH \<noteq> 0" by (simp add: SLASH_def)
  have tail: "strrchr_loop s SLASH h = h" if "SLASH \<notin> set s" "0 \<notin> set s" for h
    using that by (induction s arbitrary: h) auto
  show ?thesis using assms tail nz by (induction pre arbitrary: h) auto
qed

lemma pop_path:
  assumes "\<forall>s \<in> set names. good_seg s" and "pre = [] \<or> pre = [SLASH] \<and> names \<noteq> []"
  shows "pop_seg (pre @ path_of names) = (if names = [] then pre else pre @ path_of (butlast names))"
proof (cases names rule: rev_cases)
  case Nil
  then show ?thesis using assms(2) by (auto simp: pop_seg_def strrchr_def)
next
  case (snoc ns s)
  have nz: "SLASH \<noteq> 0" by (simp add: SLASH_def)
  have g: "0 \<notin> set (path_of ns)" using assms(1) nz by (auto simp: snoc path_of_def good_seg_def)
  have "0 \<notin> set ((pre @ path_of ns) @ s)" "SLASH \<notin> set s" using g assms nz by (auto simp: snoc good_seg_def)
  from strrchr_last [OF this(2,1)] show ?thesis by (simp add: snoc pop_seg_def strrchr_def)
qed

text \<open>The names of the text are the names again, also behind one extra slash and in a terminated buffer.\<close>

lemma segs_path:
  assumes "\<forall>s \<in> set names. good_seg s" and "hd0 rest = 0"
  shows "segs (path_of names @ rest) = names" and "segs (SLASH # path_of names @ rest) = names"
proof -
  have nz: "SLASH \<noteq> 0" by (simp add: SLASH_def)
  have skip: "segs (SLASH # q) = segs q" for q by (simp add: segs.simps [of "SLASH # q"] segs.simps [of q] skip_slashes_def)
  have "segs (path_of names @ rest) = names"
    using assms
  proof (induction names)
    case Nil
    have "skip_slashes rest = rest" using Nil(2) nz by (cases rest) (auto simp: skip_slashes_def hd0_def)
    then show ?case using Nil(2) by (simp add: segs.simps [of rest])
  next
    case (Cons s ns)
    then have g: "s \<noteq> []" "0 \<notin> set s" "SLASH \<notin> set s" by (auto simp: good_seg_def)
    let ?q = "path_of ns @ rest"
    have e: "?q = [] \<or> hd ?q = 0 \<or> hd ?q = SLASH" using Cons.prems(2) by (cases ns; cases rest) (auto simp: hd0_def)
    have f: "first_seg (s @ ?q) = s"
    proof -
      have "takeWhile (\<lambda>c. c \<noteq> 0 \<and> c \<noteq> SLASH) (s @ ?q) = s @ takeWhile (\<lambda>c. c \<noteq> 0 \<and> c \<noteq> SLASH) ?q"
        using g by (intro takeWhile_append2) auto
      moreover have "takeWhile (\<lambda>c. c \<noteq> 0 \<and> c \<noteq> SLASH) ?q = []" using e by (cases ?q) auto
      ultimately show ?thesis by (simp add: first_seg_def)
    qed
    have k: "skip_slashes (s @ ?q) = s @ ?q" using g by (cases s) (auto simp: skip_slashes_def)
    have h: "hd0 (s @ ?q) \<noteq> 0" using g by (cases s) (auto simp: hd0_def)
    have "segs (s @ ?q) = s # segs ?q" using k h f by (simp add: segs.simps [of "s @ ?q"] Let_def)
    then show ?case using Cons skip by simp
  qed
  then show "segs (path_of names @ rest) = names" "segs (SLASH # path_of names @ rest) = names" using skip by simp_all
qed

text \<open>The loop computes \<open>resolve\<close>; the text may have one extra slash in front, as the root directory has.\<close>

definition slash_if :: "bool \<Rightarrow> cstr" where
  "slash_if b = (if b then [SLASH] else [])"

lemma pop_rep:
  assumes "\<forall>s \<in> set names. good_seg s"
  shows "\<exists>b'. pop_seg (slash_if b @ path_of names) = slash_if b' @ path_of (butlast names) \<and> (b' \<longrightarrow> b)"
proof (cases "names = []")
  case True
  have "pop_seg (slash_if b) = []" by (simp add: slash_if_def pop_seg_def strrchr_def SLASH_def)
  then show ?thesis using True by (intro exI [of _ False]) (simp add: slash_if_def)
next
  case False
  then show ?thesis using pop_path [OF assms, of "slash_if b"] by (intro exI [of _ b]) (simp add: slash_if_def)
qed

lemma pop_le: "length (pop_seg st) \<le> length st"
  by (simp add: pop_seg_def split: option.split)

lemma abspath_loop_spec:
  assumes "abspath_loop st p = Some st'" and "st = slash_if b @ path_of names" and "\<forall>s \<in> set names. good_seg s" and "length st < FS_PATH_MAX"
  shows "\<exists>b'. st' = slash_if b' @ path_of (resolve names (segs p)) \<and> (b' \<longrightarrow> b) \<and> length st' < FS_PATH_MAX \<and>
    (\<forall>s \<in> set (resolve names (segs p)). good_seg s)"
  using assms
proof (induction st p arbitrary: names b rule: abspath_loop.induct)
  case (1 st p)
  let ?p1 = "skip_slashes p" and ?seg = "first_seg (skip_slashes p)"
  let ?p2 = "drop (length ?seg) ?p1"
  show ?case
  proof (cases "hd0 ?p1 = 0")
    case True
    then have "st' = st" "segs p = []" using 1(4) by (simp_all add: abspath_loop.simps [of st p] segs.simps [of p])
    then show ?thesis using 1(5-) by (intro exI [of _ b]) (simp add: resolve_def)
  next
    case False
    have sg: "segs p = ?seg # segs ?p2" using False by (simp add: segs.simps [of p] Let_def)
    have good: "good_seg ?seg" using segs_good [of ?seg p] sg by simp
    have r: "resolve names (segs p) = resolve (seg_step ?seg names) (segs ?p2)" by (simp add: sg resolve_def)
    note e = 1(4) [unfolded abspath_loop.simps [of st p] Let_def]
    show ?thesis
    proof (cases "?seg = [DOT]")
      case True
      then show ?thesis using 1(1) [OF refl False refl refl True] e False 1(5-) r by (simp add: seg_step_def)
    next
      case d1: False
      show ?thesis
      proof (cases "?seg = [DOT, DOT]")
        case True
        obtain b' where b': "pop_seg st = slash_if b' @ path_of (butlast names)" "b' \<longrightarrow> b" using pop_rep [OF 1(6), of b] 1(5) by auto
        have "abspath_loop (pop_seg st) ?p2 = Some st'" using e False d1 True by simp
        moreover have "\<forall>s \<in> set (butlast names). good_seg s" using 1(6) by (auto dest: in_set_butlastD)
        moreover have "length (pop_seg st) < FS_PATH_MAX" using pop_le [of st] 1(7) by simp
        ultimately show ?thesis using 1(2) [OF refl False refl refl d1 True _ b'(1)] b'(2) r True by (auto simp: seg_step_def)
      next
        case d2: False
        have fit: "\<not> FS_PATH_MAX \<le> length st + 1 + length ?seg" using e False d1 d2 by (auto split: if_splits)
        have "abspath_loop (st @ SLASH # ?seg) ?p2 = Some st'" using e False d1 d2 fit by simp
        moreover have "st @ SLASH # ?seg = slash_if b @ path_of (names @ [?seg])" using 1(5) by simp
        moreover have "\<forall>s \<in> set (names @ [?seg]). good_seg s" using 1(6) good by simp
        moreover have "length (st @ SLASH # ?seg) < FS_PATH_MAX" using fit by simp
        ultimately show ?thesis using 1(3) [OF refl False refl refl d1 d2 fit] r d1 d2 by (simp add: seg_step_def)
      qed
    qed
  qed
qed

lemma abspath_loop_fits:
  assumes "length st + length p + (if hd0 p = SLASH \<or> hd0 p = 0 then 0 else 1) < FS_PATH_MAX"
  shows "abspath_loop st p \<noteq> None"
  using assms
proof (induction st p rule: abspath_loop.induct)
  case (1 st p)
  let ?p1 = "skip_slashes p" and ?seg = "first_seg (skip_slashes p)"
  let ?p2 = "drop (length ?seg) ?p1"
  show ?case
  proof (cases "hd0 ?p1 = 0")
    case True
    then show ?thesis by (simp add: abspath_loop.simps [of st p])
  next
    case False
    have le: "length ?p1 + 1 \<le> length p + (if hd0 p = SLASH \<or> hd0 p = 0 then 0 else 1)"
    proof (cases p)
      case (Cons c q)
      show ?thesis
      proof (cases "c = SLASH")
        case True
        then show ?thesis using length_dropWhile_le [of "\<lambda>c. c = SLASH" q] by (simp add: Cons skip_slashes_def hd0_def)
      next
        case c: False
        then have "skip_slashes p = p" by (simp add: skip_slashes_def Cons)
        then show ?thesis using c False by (simp add: Cons hd0_def)
      qed
    qed (use False in \<open>simp add: skip_slashes_def hd0_def\<close>)
    have sl: "length ?seg \<le> length ?p1" by (simp add: first_seg_def length_takeWhile_le)
    have h2: "hd0 ?p2 = SLASH \<or> hd0 ?p2 = 0"
    proof -
      have e: "?p2 = dropWhile (\<lambda>c. c \<noteq> 0 \<and> c \<noteq> SLASH) ?p1" by (simp add: first_seg_def dropWhile_eq_drop)
      have "hd0 (dropWhile (\<lambda>c. c \<noteq> 0 \<and> c \<noteq> SLASH) q) = SLASH \<or> hd0 (dropWhile (\<lambda>c. c \<noteq> 0 \<and> c \<noteq> SLASH) q) = 0" for q
        by (induction q) (auto simp: hd0_def)
      then show ?thesis unfolding e by blast
    qed
    have seg: "0 < length ?seg"
      using skip_head [of p] False by (cases ?p1) (auto simp: first_seg_def hd0_def)
    have s2: "length ?p2 = length ?p1 - length ?seg" by simp
    have fit: "\<not> FS_PATH_MAX \<le> length st + 1 + length ?seg" using le sl 1(4) by linarith
    have a: "length st + length ?p2 + (if hd0 ?p2 = SLASH \<or> hd0 ?p2 = 0 then 0 else 1) < FS_PATH_MAX"
      "length (pop_seg st) + length ?p2 + (if hd0 ?p2 = SLASH \<or> hd0 ?p2 = 0 then 0 else 1) < FS_PATH_MAX"
      "length (st @ SLASH # ?seg) + length ?p2 + (if hd0 ?p2 = SLASH \<or> hd0 ?p2 = 0 then 0 else 1) < FS_PATH_MAX"
      unfolding if_P [OF h2] s2 using pop_le [of st] le sl 1(4) by (linarith | simp)+
    consider (d1) "?seg = [DOT]" | (d2) "?seg \<noteq> [DOT]" "?seg = [DOT, DOT]" | (o) "?seg \<noteq> [DOT]" "?seg \<noteq> [DOT, DOT]" by blast
    then show ?thesis
    proof cases
      case d1
      then show ?thesis using 1(1) [OF refl False refl refl d1 a(1)] False by (simp add: abspath_loop.simps [of st p] Let_def)
    next
      case d2
      then show ?thesis using 1(2) [OF refl False refl refl d2 a(2)] False by (simp add: abspath_loop.simps [of st p] Let_def)
    next
      case o
      then show ?thesis using 1(3) [OF refl False refl refl o fit a(3)] False fit by (simp add: abspath_loop.simps [of st p] Let_def)
    qed
  qed
qed

section \<open>What the resolved path is\<close>

text \<open>The text a directory is named by: its names, or a single slash for the root.\<close>

definition dir_text :: "cstr list \<Rightarrow> cstr" where
  "dir_text names = (if names = [] then [SLASH] else path_of names)"

lemma good_no_zero: "\<forall>s \<in> set names. good_seg s \<Longrightarrow> 0 \<notin> set (path_of names)"
  by (auto simp: path_of_def good_seg_def SLASH_def)

lemma strlen_app: "0 \<notin> set s \<Longrightarrow> strlen (s @ 0 # z) = length s" "0 \<notin> set s \<Longrightarrow> strlen s = length s"
  by (induction s) auto

lemma path_of_last: "names \<noteq> [] \<Longrightarrow> \<forall>s \<in> set names. good_seg s \<Longrightarrow> last (path_of names) \<noteq> SLASH"
  by (cases names rule: rev_cases) (auto simp: good_seg_def dest: last_in_set)

lemma slash_start: "slash_if b @ path_of names = [] \<or> hd (slash_if b @ path_of names) = SLASH"
  by (cases names) (auto simp: slash_if_def)

text \<open>What the working directory contributes.\<close>

lemma abspath_start_dir:
  assumes "\<forall>s \<in> set names. good_seg s" and "length (dir_text names) < FS_PATH_MAX"
  shows "abspath_start (Some (dir_text names @ 0 # z)) path =
    Some (if hd0 path = SLASH then [] else slash_if (names = []) @ path_of names)"
proof -
  have z: "0 \<notin> set (dir_text names)" using good_no_zero [OF assms(1)] by (auto simp: dir_text_def SLASH_def)
  have ne: "dir_text names \<noteq> []" by (cases names) (auto simp: dir_text_def)
  then have h: "hd0 (dir_text names @ 0 # z) \<noteq> 0" using z by (cases "dir_text names") (auto simp: hd0_def)
  have l: "\<not> (1 < length (dir_text names) \<and> last (dir_text names) = SLASH)"
    using path_of_last [OF _ assms(1)] by (auto simp: dir_text_def)
  show ?thesis
    using h l assms(2) strlen_app(1) [OF z] by (auto simp: abspath_start_def Let_def dir_text_def slash_if_def)
qed

text \<open>Copying the result out.\<close>

lemma strlcpy_fits:
  assumes "0 \<notin> set s" and "length s < sz" and "length out = sz"
  shows "strlcpy out s sz = (length s, s @ 0 # drop (length s + 1) out)"
  using assms by (simp add: strlcpy_def strlen_app(2) put_bytes_def Let_def)

definition resolved :: "cstr list \<Rightarrow> cstr \<Rightarrow> cstr list" where
  "resolved names path = resolve (if hd0 path = SLASH then [] else names) (segs path)"

text \<open>The call, from the text it starts with.\<close>

lemma abspath_core:
  assumes st: "abspath_start cwd0 path = Some (slash_if b @ path_of ns)" and g: "\<forall>s \<in> set ns. good_seg s"
    and len: "length (slash_if b @ path_of ns) < FS_PATH_MAX" and out: "length out = FS_PATH_MAX"
    and call: "vfs_abspath cwd0 path out FS_PATH_MAX = (r, out')"
  shows "r = 0 \<and> segs out' = resolve ns (segs path) \<and> hd0 out' = SLASH \<and> strlen out' < FS_PATH_MAX \<and> length out' = FS_PATH_MAX \<and>
      (\<forall>s \<in> set (resolve ns (segs path)). good_seg s) \<and> (\<not> b \<longrightarrow> take (strlen out') out' = dir_text (resolve ns (segs path))) \<and>
      (\<exists>b'. take (strlen out') out' = (if resolve ns (segs path) = [] then [SLASH] else slash_if b' @ path_of (resolve ns (segs path))))
    \<or> r = - 1 \<and> out' = out \<and> FS_PATH_MAX \<le> length (slash_if b @ path_of ns) + length path + 1"
proof -
  define st where "st = slash_if b @ path_of ns"
  have st0: "abspath_start cwd0 path = Some st" using st by (simp add: st_def)
  have sz: "\<not> FS_PATH_MAX < 2" by (simp add: FS_PATH_MAX_def)
  show ?thesis
  proof (cases "abspath_loop st path")
    case None
    then have "\<not> length st + length path + (if hd0 path = SLASH \<or> hd0 path = 0 then 0 else 1) < FS_PATH_MAX"
      using abspath_loop_fits by blast
    then have "FS_PATH_MAX \<le> length st + length path + 1" by (simp split: if_splits)
    then show ?thesis using call None by (simp add: vfs_abspath_def st0 sz st_def)
  next
    case (Some st')
    obtain b' where b': "st' = slash_if b' @ path_of (resolve ns (segs path))" "b' \<longrightarrow> b" "length st' < FS_PATH_MAX"
        "\<forall>s \<in> set (resolve ns (segs path)). good_seg s"
      using abspath_loop_spec [OF Some st_def g] len by (auto simp: st_def)
    let ?ns = "resolve ns (segs path)"
    define t where "t = (if st' = [] then [SLASH] else st')"
    have z0: "0 \<notin> set t" using good_no_zero [OF b'(4)] by (auto simp: t_def b'(1) slash_if_def SLASH_def)
    have tl: "length t < FS_PATH_MAX" using b'(3) by (simp add: t_def FS_PATH_MAX_def)
    have ret: "r = 0" "out' = t @ 0 # drop (length t + 1) out"
      using call strlcpy_fits [OF z0 tl out] tl by (simp_all add: vfs_abspath_def st0 sz Some t_def [symmetric])
    have "t = slash_if b' @ path_of ?ns \<or> t = SLASH # path_of ?ns" using b'(1) by (auto simp: t_def)
    then have s: "segs out' = ?ns"
      using segs_path [OF b'(4), of "0 # drop (length t + 1) out"] ret(2) by (auto simp: slash_if_def hd0_def split: if_splits)
    have "hd t = SLASH" "t \<noteq> []" using slash_start [of b' ?ns] b'(1) by (auto simp: t_def)
    then have h: "hd0 out' = SLASH" using ret(2) by (cases t) (auto simp: hd0_def)
    have tk: "strlen out' = length t" "take (strlen out') out' = t" using ret(2) strlen_app(1) [OF z0] by simp_all
    have c: "t = dir_text ?ns" if "\<not> b"
      using b'(1,2) that by (cases ?ns) (auto simp: t_def dir_text_def slash_if_def)
    have "t = (if ?ns = [] then [SLASH] else slash_if b' @ path_of ?ns)"
      using b'(1) by (cases "?ns = []") (auto simp: t_def slash_if_def path_of_def)
    then have "\<exists>b'. t = (if ?ns = [] then [SLASH] else slash_if b' @ path_of ?ns)" by blast
    then show ?thesis unfolding tk(2) using ret s h tk(1) tl out c b'(4) by (simp only: simp_thms) simp
  qed
qed

text \<open>The text a call starts with: that of the working directory, or nothing.\<close>

lemma abspath_from:
  "\<forall>s \<in> set names. good_seg s \<Longrightarrow> length (dir_text names) < FS_PATH_MAX \<Longrightarrow> abspath_start (Some (dir_text names @ 0 # z)) path =
     Some (slash_if (hd0 path \<noteq> SLASH \<and> names = []) @ path_of (if hd0 path = SLASH then [] else names))"
  "abspath_start None path = Some (slash_if False @ path_of [])"
  by (simp add: abspath_start_dir slash_if_def) (simp add: abspath_start_def slash_if_def path_of_def)

text \<open>C20: \<^verbatim>\<open>vfs_abspath\<close> computes, on text, what walking the names does.  The working directory is the text of a list of names (as the
  kernel keeps it), the buffer has FS_PATH_MAX bytes.  When the call returns 0, the buffer holds a terminated absolute path whose names are the
  names reached from the working directory (or from the root, for an absolute path) by following the path's names, a dot staying and a double
  dot going up, never above the root.  The text is the canonical one, without empty names, unless a relative path is resolved against the root.
  It fails only by returning -1 and leaving the buffer alone, and never when directory and path together fit the buffer.\<close>

theorem abspath_resolves:
  assumes good: "\<forall>s \<in> set names. good_seg s" and len: "length (dir_text names) < FS_PATH_MAX" and out: "length out = FS_PATH_MAX"
    and call: "vfs_abspath (Some (dir_text names @ 0 # z)) path out FS_PATH_MAX = (r, out')"
  shows "r = 0 \<and> segs out' = resolved names path \<and> hd0 out' = SLASH \<and> strlen out' < FS_PATH_MAX \<and> length out' = FS_PATH_MAX \<and>
      (hd0 path = SLASH \<or> names \<noteq> [] \<longrightarrow> take (strlen out') out' = dir_text (resolved names path))
    \<or> r = - 1 \<and> out' = out \<and> FS_PATH_MAX \<le> length (dir_text names) + length path + 1"
proof -
  let ?b = "hd0 path \<noteq> SLASH \<and> names = []" and ?ns = "if hd0 path = SLASH then [] else names"
  have l: "length (slash_if ?b @ path_of ?ns) \<le> length (dir_text names)" by (simp add: slash_if_def dir_text_def)
  have g: "\<forall>s \<in> set ?ns. good_seg s" using good by simp
  show ?thesis
    using abspath_core [OF abspath_from(1) [OF good len] g le_less_trans [OF l len] out call] l by (auto simp: resolved_def)
qed

theorem abspath_resolves_witness:
  "vfs_abspath (Some (dir_text [[97]] @ [0])) [46, 46, 47, 98] (replicate FS_PATH_MAX 0) FS_PATH_MAX = (0, [47, 98, 0] @ replicate 189 0) \<and>
   segs ([47, 98, 0] @ replicate 189 0) = [[98]]"
proof -
  have r: "resolved [[97]] [46, 46, 47, 98] = [[98]]"
    by (simp add: resolved_def resolve_def seg_step_def segs.simps skip_slashes_def first_seg_def hd0_def SLASH_def DOT_def)
  have v: "vfs_abspath (Some (dir_text [[97]] @ [0])) [46, 46, 47, 98] (replicate FS_PATH_MAX 0) FS_PATH_MAX = (0, [47, 98, 0] @ replicate 189 0)"
    by (simp add: vfs_abspath_def abspath_start_def abspath_loop.simps skip_slashes_def first_seg_def hd0_def SLASH_def DOT_def dir_text_def
        FS_PATH_MAX_def pop_seg_def strrchr_def strlcpy_def put_bytes_def)
  show ?thesis
    using abspath_resolves [of "[[97]]" "replicate FS_PATH_MAX 0" "[]" "[46, 46, 47, 98]", OF _ _ _ v] v r
    by (simp add: good_seg_def SLASH_def dir_text_def FS_PATH_MAX_def)
qed

text \<open>The exception is real: a name resolved against the root keeps the root's slash, so the text starts with two.\<close>

lemma root_relative_unclean:
  "vfs_abspath (Some [47, 0]) [116] (replicate FS_PATH_MAX 0) FS_PATH_MAX = (0, [47, 47, 116, 0] @ replicate 188 0)"
  by (simp add: vfs_abspath_def abspath_start_def abspath_loop.simps skip_slashes_def first_seg_def hd0_def SLASH_def DOT_def
      FS_PATH_MAX_def strlcpy_def put_bytes_def)

end
