(* ===== verification/KState.thy ===== *)
theory KState
  imports Kheap VfsPath "HOL-Library.Monad_Syntax"
begin

text \<open>
  The state the scheduler and the process layer share: the thread control blocks of
  \<^verbatim>\<open>include/kernel/sched.h\<close>, the process table of \<^verbatim>\<open>include/kernel/proc.h\<close>, the clock of
  \<^verbatim>\<open>arch/x86/timer.c\<close>, the floating point areas of \<^verbatim>\<open>arch/x86/fpu.c\<close> and the kernel stack of the task
  state segment.  The heap, and through it the page tables and the frame allocator, is the component \<open>kh\<close>.

  A pointer to a thread is either the static boot thread or a heap block; the contents of a thread
  control block are kept apart from the bytes of its heap block.  Kernel stacks are heap
  memory, byte by byte.  Functions return an option: \<open>None\<close> is a call that never returns, because the kernel
  panics.
\<close>

unbundle bit_operations_syntax

datatype thread_state = THREAD_READY | THREAD_RUNNING | THREAD_SLEEPING | THREAD_BLOCKED | THREAD_ZOMBIE

datatype thread_ref = Boot_thread | Heap_thread u32

datatype fpu_ref = Boot_fpu | Heap_fpu u32

record thread =
  esp :: u32
  stack_base :: u32
  stack_size :: u32
  tid :: int
  tname :: cstr
  tstate :: thread_state
  wake_at_ms :: u64
  cpu_ticks :: u64
  exit_code :: int
  detached :: bool
  user :: bool
  proc :: "nat option"
  fpu_state :: "fpu_ref option"
  space :: "space_ref option"

datatype proc_state = PROC_FREE | PROC_RUNNING | PROC_ZOMBIE

text \<open>The address space of the process in slot \<open>i\<close> is the space \<open>Proc_space i\<close> of the paging model.\<close>

record process =
  pid :: int
  parent :: int
  pname :: cstr
  pstate :: proc_state
  pexit_code :: int
  main_tid :: int
  brk_start :: virt_addr
  brk :: virt_addr
  stack_top :: virt_addr
  cwd :: cstr
  started_ms :: u64
  user_pages :: u32
  cleaned :: bool

record launch =
  l_proc :: nat
  l_entry :: virt_addr
  l_stack :: virt_addr

record sys =
  kh :: kheap
  threads :: "thread_ref option list"
  tcb :: "thread_ref \<Rightarrow> thread"
  current :: "thread_ref option"
  next_tid :: int
  running :: bool
  need_resched :: bool
  slice_left :: int
  exit_history :: "(int \<times> int) list"
  exit_history_next :: nat
  ticks :: u64
  frequency :: u32
  sse_available :: bool
  clean_state :: "u8 list"
  fpu_regs :: "u8 list"
  fpu_area :: "fpu_ref \<Rightarrow> u8 list"
  tss_esp0 :: u32
  cpu_esp :: u32
  thread_trampoline :: u32
  table :: "process list"
  next_pid :: int
  pending :: "launch list"

abbreviation kvm_of :: "sys \<Rightarrow> vm" where
  "kvm_of s \<equiv> kvm (kh s)"

definition upd_vm :: "(vm \<Rightarrow> vm) \<Rightarrow> sys \<Rightarrow> sys" where
  "upd_vm f s = s\<lparr>kh := (kh s)\<lparr>kvm := f (kvm (kh s))\<rparr>\<rparr>"

definition upd_tcb :: "thread_ref \<Rightarrow> (thread \<Rightarrow> thread) \<Rightarrow> sys \<Rightarrow> sys" where
  "upd_tcb r f s = s\<lparr>tcb := (tcb s)(r := f (tcb s r))\<rparr>"

definition upd_proc :: "nat \<Rightarrow> (process \<Rightarrow> process) \<Rightarrow> sys \<Rightarrow> sys" where
  "upd_proc i f s = s\<lparr>table := (table s)[i := f (table s ! i)]\<rparr>"

definition THREAD_NAME_MAX :: nat where "THREAD_NAME_MAX = 24"
definition MAX_THREADS :: nat where "MAX_THREADS = 32"
definition PROC_NAME_MAX :: nat where "PROC_NAME_MAX = 32"
definition MAX_PROCESSES :: nat where "MAX_PROCESSES = 32"

text \<open>\<^verbatim>\<open>strlcpy\<close> into a zeroed array of \<open>n\<close> characters.\<close>

definition name_field :: "nat \<Rightarrow> cstr \<Rightarrow> cstr" where
  "name_field n src = snd (strlcpy (replicate n 0) src n)"

section \<open>Clock\<close>

definition timer_ticks :: "sys \<Rightarrow> u64" where
  "timer_ticks s = ticks s"

definition timer_hz :: "sys \<Rightarrow> u32" where
  "timer_hz s = frequency s"

definition timer_ms :: "sys \<Rightarrow> u64" where
  "timer_ms s = (ticks s * 1000) div ucast (frequency s)"

definition PIT_FREQ :: u32 where "PIT_FREQ = 1193182"

text \<open>The divisor written to the timer chip, low byte first, and the new state.\<close>

definition timer_init :: "u32 \<Rightarrow> sys \<Rightarrow> (u8 \<times> u8) \<times> sys" where
  "timer_init hz0 s =
     (let hz = (if hz0 = 0 then 100 else hz0);
          d0 = PIT_FREQ div hz;
          divisor = (if 0xFFFF < d0 then 0xFFFF else d0)
      in ((ucast (divisor AND 0xFF), ucast (drop_bit 8 divisor AND 0xFF)), s\<lparr>frequency := hz\<rparr>))"

text \<open>
  Before the scheduler runs, each \<^verbatim>\<open>hlt\<close> of the busy wait ends with a timer interrupt that only advances the
  clock.
\<close>

definition timer_busy_wait :: "u32 \<Rightarrow> sys \<Rightarrow> sys" where
  "timer_busy_wait ms s =
     (let target = ticks s + (ucast ms * ucast (frequency s)) div 1000 + 1
      in s\<lparr>ticks := max (ticks s) target\<rparr>)"

section \<open>Floating point areas and the kernel stack\<close>

definition fpu_new_state :: "fpu_ref \<Rightarrow> sys \<Rightarrow> sys" where
  "fpu_new_state a s = s\<lparr>fpu_area := (fpu_area s)(a := clean_state s)\<rparr>"

definition fpu_save :: "fpu_ref option \<Rightarrow> sys \<Rightarrow> sys" where
  "fpu_save a s =
     (case a of Some r \<Rightarrow> if sse_available s then s\<lparr>fpu_area := (fpu_area s)(r := fpu_regs s)\<rparr> else s | None \<Rightarrow> s)"

definition fpu_restore :: "fpu_ref option \<Rightarrow> sys \<Rightarrow> sys" where
  "fpu_restore a s =
     (case a of Some r \<Rightarrow> if sse_available s then s\<lparr>fpu_regs := fpu_area s r\<rparr> else s | None \<Rightarrow> s)"

definition tss_set_kernel_stack :: "u32 \<Rightarrow> sys \<Rightarrow> sys" where
  "tss_set_kernel_stack esp0 s = s\<lparr>tss_esp0 := esp0\<rparr>"

text \<open>
  The assembly routine of \<^verbatim>\<open>arch/x86/switch.S\<close>: five registers are pushed on the outgoing stack, the stack
  pointer is stored in the outgoing thread and loaded from the incoming one, and five registers and the return
  address are popped.
\<close>

definition context_switch :: "thread_ref \<Rightarrow> u32 \<Rightarrow> sys \<Rightarrow> sys" where
  "context_switch save new_esp s = (upd_tcb save (\<lambda>t. t\<lparr>esp := cpu_esp s - 20\<rparr>) s)\<lparr>cpu_esp := new_esp + 24\<rparr>"

end
