(* ===== verification/Sched.thy ===== *)
theory Sched
  imports KState
begin

text \<open>
  The round-robin scheduler, \<^verbatim>\<open>kernel/sched.c\<close>.  Each operation runs with interrupts masked, so it is one step of the
  state; a switch is complete when the next thread's stack is installed.  The waiting loop of
  \<^verbatim>\<open>thread_join\<close> is modelled by one round of it, which either ends or yields.
\<close>

unbundle bit_operations_syntax

definition STACK_SIZE :: u32 where "STACK_SIZE = 32 * 1024"
definition STACK_GUARD :: u32 where "STACK_GUARD = 0x5A11B0DE"
definition QUANTUM_TICKS :: int where "QUANTUM_TICKS = 5"
definition EXIT_HISTORY :: nat where "EXIT_HISTORY = 32"

text \<open>\<^verbatim>\<open>sizeof(struct thread)\<close> on i386.\<close>

definition sizeof_thread :: u32 where "sizeof_thread = 80"

section \<open>Exit codes\<close>

definition remember_exit :: "int \<Rightarrow> int \<Rightarrow> sys \<Rightarrow> sys" where
  "remember_exit t code s =
     s\<lparr>exit_history := (exit_history s)[exit_history_next s := (t, code)],
       exit_history_next := (exit_history_next s + 1) mod EXIT_HISTORY\<rparr>"

definition recall_exit :: "int \<Rightarrow> sys \<Rightarrow> int option" where
  "recall_exit t s = map_option snd (find (\<lambda>e. fst e = t) (take EXIT_HISTORY (exit_history s)))"

section \<open>Inspection\<close>

fun thread_state_name :: "thread_state \<Rightarrow> string" where
  "thread_state_name THREAD_READY = ''ready''"
| "thread_state_name THREAD_RUNNING = ''running''"
| "thread_state_name THREAD_SLEEPING = ''sleeping''"
| "thread_state_name THREAD_BLOCKED = ''blocked''"
| "thread_state_name THREAD_ZOMBIE = ''zombie''"

definition thread_current :: "sys \<Rightarrow> thread_ref option" where
  "thread_current s = current s"

definition sched_enabled :: "sys \<Rightarrow> bool" where
  "sched_enabled s = running s"

definition thread_count :: "sys \<Rightarrow> nat" where
  "thread_count s = length (filter (\<lambda>i. threads s ! i \<noteq> None) [0..<MAX_THREADS])"

definition sched_foreach :: "(thread \<Rightarrow> 'c \<Rightarrow> 'c) \<Rightarrow> sys \<Rightarrow> 'c \<Rightarrow> 'c" where
  "sched_foreach fn s ctx =
     fold (\<lambda>i c. case threads s ! i of Some r \<Rightarrow> fn (tcb s r) c | None \<Rightarrow> c) [0..<MAX_THREADS] ctx"

text \<open>The first thread of the table with a given id.\<close>

definition find_thread :: "int \<Rightarrow> sys \<Rightarrow> thread_ref option" where
  "find_thread t s =
     (case find (\<lambda>i. case threads s ! i of Some r \<Rightarrow> tid (tcb s r) = t | None \<Rightarrow> False) [0..<MAX_THREADS] of
        Some i \<Rightarrow> threads s ! i | None \<Rightarrow> None)"

definition thread_exists :: "int \<Rightarrow> sys \<Rightarrow> bool" where
  "thread_exists t s \<longleftrightarrow> find_thread t s \<noteq> None"

section \<open>Creation\<close>

definition zero_thread :: thread where
  "zero_thread = \<lparr>esp = 0, stack_base = 0, stack_size = 0, tid = 0, tname = replicate THREAD_NAME_MAX 0,
     tstate = THREAD_READY, wake_at_ms = 0, cpu_ticks = 0, exit_code = 0, detached = False, user = False, proc = None,
     fpu_state = None, space = None\<rparr>"

definition kernel_name :: cstr where "kernel_name = [107, 101, 114, 110, 101, 108]"

definition sched_init :: "sys \<Rightarrow> sys" where
  "sched_init s =
     (let t = zero_thread\<lparr>tid := 0, tstate := THREAD_RUNNING, space := Some Kernel_space, fpu_state := Some Boot_fpu,
                tname := name_field THREAD_NAME_MAX kernel_name\<rparr>
      in (fpu_new_state Boot_fpu s)\<lparr>tcb := (tcb s)(Boot_thread := t), threads := (threads s)[0 := Some Boot_thread],
           current := Some Boot_thread, running := True\<rparr>)"

definition free_slot :: "sys \<Rightarrow> nat option" where
  "free_slot s = find (\<lambda>i. threads s ! i = None) [0..<MAX_THREADS]"

text \<open>The six words on a new stack, and the stack pointer below them.\<close>

definition seed_stack :: "u32 \<Rightarrow> u32 \<Rightarrow> u32 \<Rightarrow> u32 \<Rightarrow> memory \<Rightarrow> memory" where
  "seed_stack tramp entry arg tos m =
     wr32 (tos - 24) 0x202 (wr32 (tos - 20) arg (wr32 (tos - 16) entry (wr32 (tos - 12) 0 (wr32 (tos - 8) 0
       (wr32 (tos - 4) tramp m)))))"

definition thread_create :: "cstr \<Rightarrow> u32 \<Rightarrow> u32 \<Rightarrow> sys \<Rightarrow> (int \<times> sys) option" where
  "thread_create name entry arg s =
     (case free_slot s of
        None \<Rightarrow> Some (- 1, s)
      | Some slot \<Rightarrow> do {
          (t, h1) \<leftarrow> kmalloc sizeof_thread (kh s);
          if t = 0 then Some (- 1, s\<lparr>kh := h1\<rparr>)
          else do {
            (stk, h2) \<leftarrow> kmalloc STACK_SIZE h1;
            if stk = 0 then do { h3 \<leftarrow> kfree t h2; Some (- 1, s\<lparr>kh := h3\<rparr>) }
            else do {
              (raw, h3) \<leftarrow> kmalloc (512 + 16) (h2\<lparr>kmem := wr32 stk STACK_GUARD (kmem h2)\<rparr>);
              if raw = 0 then do { h4 \<leftarrow> kfree stk h3; h5 \<leftarrow> kfree t h4; Some (- 1, s\<lparr>kh := h5\<rparr>) }
              else
                let fpu = Heap_fpu (ALIGN_UP raw 16);
                    tos = stk + STACK_SIZE;
                    th = zero_thread\<lparr>stack_base := stk, stack_size := STACK_SIZE, fpu_state := Some fpu,
                           tid := next_tid s, tstate := THREAD_READY, detached := True,
                           space := (case current s of Some c \<Rightarrow> space (tcb s c) | None \<Rightarrow> Some Kernel_space),
                           tname := name_field THREAD_NAME_MAX name, esp := tos - 24\<rparr>;
                    s1 = fpu_new_state fpu s
                in Some (next_tid s,
                     s1\<lparr>kh := h3\<lparr>kmem := seed_stack (thread_trampoline s) entry arg tos (kmem h3)\<rparr>,
                        tcb := (tcb s)(Heap_thread t := th), next_tid := next_tid s + 1,
                        threads := (threads s)[slot := Some (Heap_thread t)]\<rparr>)
            }
          }
        })"

section \<open>Switching\<close>

definition is_ready :: "sys \<Rightarrow> thread_ref option \<Rightarrow> bool" where
  "is_ready s r = (case r of Some t \<Rightarrow> tstate (tcb s t) = THREAD_READY | None \<Rightarrow> False)"

definition start_slot :: "sys \<Rightarrow> nat" where
  "start_slot s = (case find (\<lambda>i. threads s ! i = current s) [0..<MAX_THREADS] of Some i \<Rightarrow> i | None \<Rightarrow> 0)"

definition pick_next :: "sys \<Rightarrow> thread_ref option" where
  "pick_next s =
     (case find (\<lambda>step. is_ready s (threads s ! ((start_slot s + step) mod MAX_THREADS))) [1..<MAX_THREADS + 1] of
        Some step \<Rightarrow> threads s ! ((start_slot s + step) mod MAX_THREADS)
      | None \<Rightarrow>
          case current s of
            Some c \<Rightarrow> if tstate (tcb s c) = THREAD_RUNNING \<or> tstate (tcb s c) = THREAD_READY then Some c else threads s ! 0
          | None \<Rightarrow> None)"

definition switch_to :: "thread_ref option \<Rightarrow> sys \<Rightarrow> sys option" where
  "switch_to nx s =
     (case (current s, nx) of
        (Some prev, Some next_t) \<Rightarrow>
          if next_t = prev then
            Some (if tstate (tcb s prev) = THREAD_READY then upd_tcb prev (\<lambda>t. t\<lparr>tstate := THREAD_RUNNING\<rparr>) s else s)
          else
            let s1 = (if tstate (tcb s prev) = THREAD_RUNNING then upd_tcb prev (\<lambda>t. t\<lparr>tstate := THREAD_READY\<rparr>) s else s);
                s2 = (upd_tcb next_t (\<lambda>t. t\<lparr>tstate := THREAD_RUNNING\<rparr>) s1)\<lparr>current := Some next_t, slice_left := QUANTUM_TICKS\<rparr>;
                p = tcb s2 prev; n = tcb s2 next_t
            in if stack_base p \<noteq> 0 \<and> rd32 (kmem (kh s2)) (stack_base p) \<noteq> STACK_GUARD then None
               else let s3 = fpu_restore (fpu_state n) (fpu_save (fpu_state p) s2);
                        s4 = (case space n of
                                Some sp \<Rightarrow> if current_space (kvm_of s3) \<noteq> Some sp then upd_vm (vmm_space_switch sp) s3 else s3
                              | None \<Rightarrow> s3);
                        s5 = tss_set_kernel_stack (if stack_base n \<noteq> 0 then stack_base n + stack_size n else 0) s4
                    in Some (context_switch prev (esp n) s5)
      | _ \<Rightarrow> None)"

definition sched_yield :: "sys \<Rightarrow> sys option" where
  "sched_yield s =
     (if \<not> running s then Some s
      else let s1 = s\<lparr>need_resched := False\<rparr> in switch_to (pick_next s1) s1)"

definition wake :: "u64 \<Rightarrow> nat \<Rightarrow> sys \<Rightarrow> sys" where
  "wake now i s =
     (case threads s ! i of
        Some r \<Rightarrow> if tstate (tcb s r) = THREAD_SLEEPING \<and> wake_at_ms (tcb s r) \<le> now
                   then upd_tcb r (\<lambda>t. t\<lparr>tstate := THREAD_READY\<rparr>) s else s
      | None \<Rightarrow> s)"

definition sched_tick :: "sys \<Rightarrow> sys" where
  "sched_tick s =
     (case current s of
        Some c \<Rightarrow>
          if \<not> running s then s
          else let s1 = upd_tcb c (\<lambda>t. t\<lparr>cpu_ticks := cpu_ticks t + 1\<rparr>) s;
                   now = timer_ms s1;
                   s2 = fold (wake now) [0..<MAX_THREADS] s1
               in if slice_left s2 - 1 \<le> 0 then s2\<lparr>slice_left := QUANTUM_TICKS, need_resched := True\<rparr>
                  else s2\<lparr>slice_left := slice_left s2 - 1\<rparr>
      | None \<Rightarrow> s)"

definition timer_irq :: "sys \<Rightarrow> sys" where
  "timer_irq s = sched_tick (s\<lparr>ticks := ticks s + 1\<rparr>)"

definition sched_preempt :: "sys \<Rightarrow> sys option" where
  "sched_preempt s =
     (if \<not> running s \<or> \<not> need_resched s then Some s
      else let s1 = s\<lparr>need_resched := False\<rparr> in switch_to (pick_next s1) s1)"

definition thread_sleep_ms :: "u32 \<Rightarrow> sys \<Rightarrow> sys option" where
  "thread_sleep_ms ms s =
     (if \<not> running s then Some (timer_busy_wait ms s)
      else case current s of
        Some c \<Rightarrow>
          let s1 = upd_tcb c (\<lambda>t. t\<lparr>wake_at_ms := timer_ms s + ucast ms, tstate := THREAD_SLEEPING\<rparr>) s
          in switch_to (pick_next s1) s1
      | None \<Rightarrow> None)"

section \<open>Termination of threads\<close>

text \<open>The process of a dying main thread becomes a zombie.\<close>

definition finish_process :: "int \<Rightarrow> thread \<Rightarrow> sys \<Rightarrow> sys" where
  "finish_process code t s =
     (case proc t of
        Some i \<Rightarrow> if main_tid (table s ! i) = tid t \<and> pstate (table s ! i) = PROC_RUNNING
                   then upd_proc i (\<lambda>p. p\<lparr>pexit_code := code, pstate := PROC_ZOMBIE\<rparr>) s else s
      | None \<Rightarrow> s)"

definition thread_exit :: "int \<Rightarrow> sys \<Rightarrow> sys option" where
  "thread_exit code s =
     (case current s of
        Some c \<Rightarrow>
          let s1 = finish_process code (tcb s c) s;
              s2 = upd_tcb c (\<lambda>t. t\<lparr>exit_code := code, tstate := THREAD_ZOMBIE\<rparr>) s1;
              s3 = remember_exit (tid (tcb s c)) code s2
          in if pick_next s3 = Some c then None else switch_to (pick_next s3) s3
      | None \<Rightarrow> None)"

text \<open>One round of \<^verbatim>\<open>thread_join\<close>: the exit code, or nothing yet and the processor given away.\<close>

definition thread_join_round :: "int \<Rightarrow> sys \<Rightarrow> (int option \<times> sys) option" where
  "thread_join_round t s =
     (case find_thread t s of
        None \<Rightarrow> Some (Some (case recall_exit t s of Some code \<Rightarrow> code | None \<Rightarrow> 0), s)
      | Some r \<Rightarrow>
          if tstate (tcb s r) = THREAD_ZOMBIE
          then Some (Some (exit_code (tcb s r)), upd_tcb r (\<lambda>t. t\<lparr>detached := True\<rparr>) s)
          else do { s1 \<leftarrow> sched_yield (upd_tcb r (\<lambda>t. t\<lparr>detached := False\<rparr>) s); Some (None, s1) })"

definition killable :: "int \<Rightarrow> sys \<Rightarrow> nat \<Rightarrow> bool" where
  "killable t s i =
     (case threads s ! i of
        Some r \<Rightarrow> tid (tcb s r) = t \<and> tid (tcb s r) \<noteq> 0 \<and> tstate (tcb s r) \<noteq> THREAD_ZOMBIE
      | None \<Rightarrow> False)"

definition thread_kill :: "int \<Rightarrow> sys \<Rightarrow> (int \<times> sys) option" where
  "thread_kill t s =
     (case find (killable t s) [0..<MAX_THREADS] of
        Some i \<Rightarrow>
          let r = the (threads s ! i);
              s1 = remember_exit t (- 1) (upd_tcb r (\<lambda>x. x\<lparr>tstate := THREAD_ZOMBIE, exit_code := - 1\<rparr>) s)
          in (case current s1 of
                Some c \<Rightarrow> if tid (tcb s1 c) = t then map_option (Pair 0) (sched_yield s1) else Some (0, s1)
              | None \<Rightarrow> None)
      | None \<Rightarrow> Some (- 1, s))"

text \<open>One slot of the reaper's loop.\<close>

definition reap_slot :: "nat \<Rightarrow> sys \<Rightarrow> sys option" where
  "reap_slot i s =
     (case threads s ! i of
        Some r \<Rightarrow>
          if tstate (tcb s r) = THREAD_ZOMBIE \<and> current s \<noteq> Some r \<and> detached (tcb s r) then do {
            h1 \<leftarrow> kfree (stack_base (tcb s r)) (kh s);
            h2 \<leftarrow> (case r of Heap_thread p \<Rightarrow> kfree p h1 | Boot_thread \<Rightarrow> None);
            Some (s\<lparr>threads := (threads s)[i := None], kh := h2\<rparr>)
          } else Some s
      | None \<Rightarrow> Some s)"

fun reap_slots :: "nat list \<Rightarrow> sys \<Rightarrow> sys option" where
  "reap_slots [] s = Some s"
| "reap_slots (i # is) s = do { s1 \<leftarrow> reap_slot i s; reap_slots is s1 }"

definition sched_reap :: "sys \<Rightarrow> sys option" where
  "sched_reap s = reap_slots [1..<MAX_THREADS] s"

section \<open>The invariant\<close>

definition member :: "thread_ref \<Rightarrow> sys \<Rightarrow> bool" where
  "member r s \<longleftrightarrow> Some r \<in> set (threads s)"

text \<open>The table: the boot thread sits in slot 0, no thread occupies two slots, the current thread is in the table.\<close>

definition table_ok :: "sys \<Rightarrow> bool" where
  "table_ok s \<longleftrightarrow> running s \<and> length (threads s) = MAX_THREADS \<and> threads s ! 0 = Some Boot_thread \<and>
     (\<forall>i < MAX_THREADS. \<forall>j < MAX_THREADS. threads s ! i = threads s ! j \<longrightarrow> threads s ! i \<noteq> None \<longrightarrow> i = j) \<and>
     (\<exists>c. current s = Some c \<and> member c s) \<and>
     length (exit_history s) = EXIT_HISTORY \<and> exit_history_next s < EXIT_HISTORY"

text \<open>Thread ids: 0 for the boot thread, and each id given once.\<close>

definition tid_ok :: "sys \<Rightarrow> bool" where
  "tid_ok s \<longleftrightarrow> tid (tcb s Boot_thread) = 0 \<and> 0 < next_tid s \<and>
     (\<forall>r. member r s \<longrightarrow> r \<noteq> Boot_thread \<longrightarrow> 0 < tid (tcb s r) \<and> tid (tcb s r) < next_tid s) \<and>
     (\<forall>r q. member r s \<longrightarrow> member q s \<longrightarrow> tid (tcb s r) = tid (tcb s q) \<longrightarrow> r = q)"

text \<open>Only the current thread is marked running.\<close>

definition pre_run :: "sys \<Rightarrow> bool" where
  "pre_run s \<longleftrightarrow> (\<forall>r. member r s \<longrightarrow> tstate (tcb s r) = THREAD_RUNNING \<longrightarrow> current s = Some r) \<and>
     tstate (tcb s Boot_thread) \<in> {THREAD_READY, THREAD_RUNNING, THREAD_SLEEPING}"

text \<open>
  The current thread is running; the one exception is the boot thread, which keeps the processor while it sleeps
  if no other thread is ready.
\<close>

definition run_ok :: "sys \<Rightarrow> bool" where
  "run_ok s \<longleftrightarrow> pre_run s \<and> (\<exists>c. current s = Some c \<and> (tstate (tcb s c) = THREAD_RUNNING \<or> c = Boot_thread))"

text \<open>
  Memory: the control block and the stack of every heap thread are live allocations of a well-formed heap, the
  stack is large enough, and no two of these allocations are the same.
\<close>

definition owns :: "sys \<Rightarrow> (u32 \<times> u32) set \<Rightarrow> bool" where
  "owns s L \<longleftrightarrow>
     (\<forall>p. member (Heap_thread p) s \<longrightarrow> p \<in> fst ` L \<and>
        (\<exists>n \<ge> STACK_SIZE. (stack_base (tcb s (Heap_thread p)), n) \<in> L)) \<and>
     (\<forall>p q. member (Heap_thread p) s \<longrightarrow> member (Heap_thread q) s \<longrightarrow>
        p \<noteq> stack_base (tcb s (Heap_thread q)) \<and>
        (stack_base (tcb s (Heap_thread p)) = stack_base (tcb s (Heap_thread q)) \<longrightarrow> p = q))"

definition mem_ok :: "sys \<Rightarrow> bool" where
  "mem_ok s \<longleftrightarrow> stack_base (tcb s Boot_thread) = 0 \<and> (\<exists>cs. heap_ok (kh s) cs \<and> owns s (live_blocks cs))"

definition sched_inv :: "sys \<Rightarrow> bool" where
  "sched_inv s \<longleftrightarrow> table_ok s \<and> tid_ok s \<and> run_ok s \<and> mem_ok s"

text \<open>What scheduling leaves alone.\<close>

definition frame :: "sys \<Rightarrow> sys \<Rightarrow> bool" where
  "frame s s' \<longleftrightarrow> threads s' = threads s \<and> running s' = running s \<and> next_tid s' = next_tid s \<and>
     kmem (kh s') = kmem (kh s) \<and> first_block (kh s') = first_block (kh s) \<and> heap_end (kh s') = heap_end (kh s) \<and>
     length (exit_history s') = length (exit_history s) \<and> (exit_history_next s < EXIT_HISTORY \<longrightarrow> exit_history_next s' < EXIT_HISTORY) \<and>
     (\<forall>r. tid (tcb s' r) = tid (tcb s r) \<and> stack_base (tcb s' r) = stack_base (tcb s r))"

lemma frame_refl: "frame s s"
  by (simp add: frame_def)

lemma frame_trans: "frame s t \<Longrightarrow> frame t u \<Longrightarrow> frame s u"
  by (simp add: frame_def)

lemma frame_member: "frame s s' \<Longrightarrow> member r s' = member r s"
  by (simp add: frame_def member_def)

lemma frame_tid: "frame s s' \<Longrightarrow> tid_ok s' = tid_ok s"
  unfolding tid_ok_def by (simp add: frame_member) (simp add: frame_def)

lemma frame_mem: "frame s s' \<Longrightarrow> mem_ok s' = mem_ok s"
  unfolding mem_ok_def heap_ok_def owns_def by (simp add: frame_member) (simp add: frame_def)

lemma frame_table: "frame s s' \<Longrightarrow> table_ok s \<Longrightarrow> current s' = Some c \<Longrightarrow> member c s \<Longrightarrow> table_ok s'"
  unfolding table_ok_def by (simp add: frame_member) (simp add: frame_def)

lemma frame_upd_tcb:
  "(\<And>t. tid (f t) = tid t \<and> stack_base (f t) = stack_base t) \<Longrightarrow> frame s (upd_tcb r f s)"
  by (simp add: frame_def upd_tcb_def)

lemma frame_fields [simp]:
  "frame s (s\<lparr>current := c\<rparr>)" "frame s (s\<lparr>slice_left := l\<rparr>)" "frame s (s\<lparr>need_resched := b\<rparr>)"
  "frame s (s\<lparr>ticks := k\<rparr>)" "frame s (s\<lparr>cpu_esp := e\<rparr>)"
  by (simp_all add: frame_def)

lemma frame_ops:
  "frame s (fpu_save a s)" "frame s (fpu_restore a s)" "frame s (tss_set_kernel_stack e s)" "frame s (upd_vm g s)"
  "frame s (context_switch r e s)" "frame s (upd_proc i h s)" "frame s (remember_exit t code s)"
  by (auto simp: frame_def fpu_save_def fpu_restore_def tss_set_kernel_stack_def upd_vm_def context_switch_def upd_tcb_def
      upd_proc_def remember_exit_def EXIT_HISTORY_def split: option.split)

section \<open>Picking and switching\<close>

lemma find_someD: "find P xs = Some x \<Longrightarrow> P x \<and> x \<in> set xs"
  by (auto simp: find_Some_iff)

lemma state_ops [simp]:
  "tcb (fpu_save a s) = tcb s" "tcb (fpu_restore a s) = tcb s" "tcb (tss_set_kernel_stack e s) = tcb s" "tcb (upd_vm g s) = tcb s"
  "tstate (tcb (context_switch r e s) q) = tstate (tcb s q)"
  "current (fpu_save a s) = current s" "current (fpu_restore a s) = current s" "current (tss_set_kernel_stack e s) = current s"
  "current (upd_vm g s) = current s" "current (context_switch r e s) = current s" "current (upd_tcb r f s) = current s"
  "threads (upd_tcb r f s) = threads s" "tcb (upd_tcb r f s) = (tcb s)(r := f (tcb s r))"
  by (auto simp: fpu_save_def fpu_restore_def tss_set_kernel_stack_def upd_vm_def context_switch_def upd_tcb_def
      split: option.split)

lemma pick_next_cases:
  assumes "table_ok s" and "pick_next s = nx"
  obtains r where "nx = Some r" "member r s"
    "tstate (tcb s r) = THREAD_READY \<or> current s = Some r \<and> tstate (tcb s r) = THREAD_RUNNING \<or> r = Boot_thread"
proof -
  define ix where "ix step = (start_slot s + step) mod MAX_THREADS" for step
  have len: "length (threads s) = MAX_THREADS" "threads s ! 0 = Some Boot_thread" using assms(1) by (auto simp: table_ok_def)
  then have b: "member Boot_thread s" by (metis MAX_THREADS_def member_def nth_mem zero_less_numeral)
  obtain c where c: "current s = Some c" "member c s" using assms(1) by (auto simp: table_ok_def)
  show ?thesis
  proof (cases "find (\<lambda>step. is_ready s (threads s ! ix step)) [1..<MAX_THREADS + 1]")
    case (Some step)
    then have "nx = threads s ! ix step" using assms(2) by (simp add: pick_next_def ix_def del: upt_Suc)
    moreover have "is_ready s (threads s ! ix step)" using find_someD [OF Some] by simp
    moreover have "ix step < length (threads s)" by (simp add: ix_def len MAX_THREADS_def)
    ultimately show ?thesis using that by (auto simp: is_ready_def member_def split: option.splits) (metis nth_mem)
  next
    case None
    then have "nx = (if tstate (tcb s c) = THREAD_RUNNING \<or> tstate (tcb s c) = THREAD_READY then Some c else Some Boot_thread)"
      using assms(2) c len(2) by (auto simp: pick_next_def ix_def simp del: upt_Suc)
    then show ?thesis
      using that [of c] that [of Boot_thread] b c
      by (cases "tstate (tcb s c) = THREAD_RUNNING"; cases "tstate (tcb s c) = THREAD_READY") simp_all
  qed
qed

lemma switch_states:
  assumes "switch_to (Some r) s = Some s'" and "current s = Some c"
  shows "frame s s' \<and> current s' = Some r \<and>
    (\<forall>q. tstate (tcb s' q) =
      (if r = c then (if q = c \<and> tstate (tcb s c) = THREAD_READY then THREAD_RUNNING else tstate (tcb s q))
       else if q = r then THREAD_RUNNING
       else if q = c \<and> tstate (tcb s c) = THREAD_RUNNING then THREAD_READY else tstate (tcb s q)))"
proof (cases "r = c")
  case True
  then show ?thesis
    using assms by (auto simp: switch_to_def frame_upd_tcb frame_refl split: if_splits)
next
  case False
  define s1 where "s1 = (if tstate (tcb s c) = THREAD_RUNNING then upd_tcb c (\<lambda>t. t\<lparr>tstate := THREAD_READY\<rparr>) s else s)"
  define s2 where "s2 = (upd_tcb r (\<lambda>t. t\<lparr>tstate := THREAD_RUNNING\<rparr>) s1)\<lparr>current := Some r, slice_left := QUANTUM_TICKS\<rparr>"
  define s3 where "s3 = fpu_restore (fpu_state (tcb s2 r)) (fpu_save (fpu_state (tcb s2 c)) s2)"
  define s4 where "s4 = (case space (tcb s2 r) of Some sp \<Rightarrow>
      if current_space (kvm_of s3) \<noteq> Some sp then upd_vm (vmm_space_switch sp) s3 else s3 | None \<Rightarrow> s3)"
  define s5 where "s5 = tss_set_kernel_stack
      (if stack_base (tcb s2 r) \<noteq> 0 then stack_base (tcb s2 r) + stack_size (tcb s2 r) else 0) s4"
  have "switch_to (Some r) s = (if stack_base (tcb s2 c) \<noteq> 0 \<and> rd32 (kmem (kh s2)) (stack_base (tcb s2 c)) \<noteq> STACK_GUARD
      then None else Some (context_switch c (esp (tcb s2 r)) s5))"
    unfolding switch_to_def Let_def assms(2) option.case prod.case s1_def [symmetric] s2_def [symmetric] s3_def [symmetric]
      s4_def [symmetric] s5_def [symmetric] using False by simp
  then have s': "s' = context_switch c (esp (tcb s2 r)) s5" using assms(1) by (auto split: if_splits)
  have "frame s s1" by (auto simp: s1_def frame_upd_tcb frame_refl)
  moreover have "frame s1 s2" by (simp add: s2_def frame_def upd_tcb_def)
  moreover have "frame s2 s3" unfolding s3_def using frame_ops frame_trans by blast
  moreover have "frame s3 s4" unfolding s4_def by (auto simp: frame_ops frame_refl split: option.split)
  moreover have "frame s4 s'" unfolding s' s5_def using frame_ops frame_trans by blast
  ultimately have "frame s s'" using frame_trans by blast
  moreover have "tcb s3 = tcb s2" "current s3 = Some r" by (simp_all add: s3_def s2_def)
  then have "tcb s4 = tcb s2" "current s4 = Some r" by (auto simp: s4_def split: option.split)
  then have "tcb s5 = tcb s2" "current s5 = Some r" by (simp_all add: s5_def)
  ultimately show ?thesis using False by (auto simp: s' s2_def s1_def)
qed

text \<open>One scheduling decision re-establishes the invariant.\<close>

lemma switch_run:
  assumes "table_ok s" and "pre_run s" and "switch_to (pick_next s) s = Some s'"
  shows "frame s s' \<and> table_ok s' \<and> run_ok s' \<and> current s' = pick_next s"
proof -
  obtain c where c: "current s = Some c" "member c s" using assms(1) by (auto simp: table_ok_def)
  obtain r where r: "pick_next s = Some r" "member r s"
      "tstate (tcb s r) = THREAD_READY \<or> current s = Some r \<and> tstate (tcb s r) = THREAD_RUNNING \<or> r = Boot_thread"
    using pick_next_cases [OF assms(1) refl] .
  note st = switch_states [OF assms(3) [unfolded r(1)] c(1)]
  then have f: "frame s s'" "current s' = Some r" by auto
  have "table_ok s'" using frame_table [OF f(1) assms(1) f(2) r(2)] .
  moreover have "run_ok s'"
  proof (cases "r = c")
    case True
    then have "tstate (tcb s' q) = (if q = c \<and> tstate (tcb s c) = THREAD_READY then THREAD_RUNNING else tstate (tcb s q))" for q
      using st by simp
    then show ?thesis
      using assms(2) r(3) c(1) f(2) frame_member [OF f(1)] True by (auto simp: run_ok_def pre_run_def)
  next
    case False
    then have "tstate (tcb s' q) = (if q = r then THREAD_RUNNING
        else if q = c \<and> tstate (tcb s c) = THREAD_RUNNING then THREAD_READY else tstate (tcb s q))" for q
      using st by simp
    then show ?thesis
      using assms(2) c(1) f(2) frame_member [OF f(1)] by (auto simp: run_ok_def pre_run_def)
  qed
  ultimately show ?thesis using f r(1) by simp
qed

section \<open>Operations that only reschedule\<close>

lemma decide:
  assumes "sched_inv s" and "frame s t" and "current t = current s" and "pre_run t" and "switch_to (pick_next t) t = Some s'"
  shows "sched_inv s' \<and> frame s s'"
proof -
  obtain c where c: "current t = Some c" "member c s" using assms(1,3) by (auto simp: sched_inv_def table_ok_def)
  then have tt: "table_ok t" using assms(1,2) frame_table by (auto simp: sched_inv_def)
  have d: "frame t s'" "table_ok s'" "run_ok s'" using switch_run [OF tt assms(4,5)] by auto
  have f: "frame s s'" using frame_trans [OF assms(2) d(1)] .
  show ?thesis using d f assms(1) frame_tid [OF f] frame_mem [OF f] by (simp add: sched_inv_def)
qed

lemma pre_run_need [simp]: "pre_run (s\<lparr>need_resched := b\<rparr>) = pre_run s"
  by (simp add: pre_run_def member_def)

lemma sched_invD:
  assumes "sched_inv s"
  shows "table_ok s" "tid_ok s" "run_ok s" "mem_ok s" "pre_run s" "running s"
  using assms by (auto simp: sched_inv_def run_ok_def table_ok_def)

lemma yield_inv: "sched_inv s \<Longrightarrow> sched_yield s = Some s' \<Longrightarrow> sched_inv s'"
  using decide [of s "s\<lparr>need_resched := False\<rparr>" s'] sched_invD [of s] by (simp add: sched_yield_def Let_def)

lemma preempt_inv: "sched_inv s \<Longrightarrow> sched_preempt s = Some s' \<Longrightarrow> sched_inv s'"
  using decide [of s "s\<lparr>need_resched := False\<rparr>" s'] sched_invD [of s] by (simp add: sched_preempt_def Let_def split: if_splits)

lemma pre_run_upd:
  assumes "pre_run s" and "tstate (f (tcb s r)) \<noteq> THREAD_RUNNING"
    and "r = Boot_thread \<longrightarrow> tstate (f (tcb s r)) \<in> {THREAD_READY, THREAD_SLEEPING}"
  shows "pre_run (upd_tcb r f s)"
  using assms by (auto simp: pre_run_def member_def)

lemma sleep_inv: "sched_inv s \<Longrightarrow> thread_sleep_ms ms s = Some s' \<Longrightarrow> sched_inv s'"
proof -
  assume i: "sched_inv s" and e: "thread_sleep_ms ms s = Some s'"
  obtain c where c: "current s = Some c" using sched_invD(1) [OF i] by (auto simp: table_ok_def)
  let ?t = "upd_tcb c (\<lambda>t. t\<lparr>wake_at_ms := timer_ms s + ucast ms, tstate := THREAD_SLEEPING\<rparr>) s"
  have "switch_to (pick_next ?t) ?t = Some s'" using e c sched_invD(6) [OF i] by (simp add: thread_sleep_ms_def Let_def)
  moreover have "pre_run ?t" using sched_invD(5) [OF i] by (intro pre_run_upd) auto
  ultimately show ?thesis using decide [OF i, of ?t s'] by (simp add: frame_upd_tcb)
qed

lemma state_ops2 [simp]:
  "tcb (remember_exit t c s) = tcb s" "current (remember_exit t c s) = current s" "threads (remember_exit t c s) = threads s"
  "tcb (finish_process k th s) = tcb s" "current (finish_process k th s) = current s" "threads (finish_process k th s) = threads s"
  by (auto simp: remember_exit_def finish_process_def upd_proc_def split: option.split)

lemma frame_finish: "frame s (finish_process k t s)"
  by (auto simp: finish_process_def frame_ops frame_refl split: option.split)

lemma pre_run_cong: "threads t = threads s \<Longrightarrow> tcb t = tcb s \<Longrightarrow> current t = current s \<Longrightarrow> pre_run t = pre_run s"
  by (simp add: pre_run_def member_def)

lemma exit_inv:
  assumes "sched_inv s" and "thread_exit code s = Some s'" and "current s \<noteq> Some Boot_thread"
  shows "sched_inv s'"
proof -
  obtain c where c: "current s = Some c" using sched_invD(1) [OF assms(1)] by (auto simp: table_ok_def)
  define t1 where "t1 = finish_process code (tcb s c) s"
  define t2 where "t2 = upd_tcb c (\<lambda>t. t\<lparr>exit_code := code, tstate := THREAD_ZOMBIE\<rparr>) t1"
  define t3 where "t3 = remember_exit (tid (tcb s c)) code t2"
  have "switch_to (pick_next t3) t3 = Some s'"
    using assms(2) c by (auto simp: thread_exit_def Let_def t3_def t2_def t1_def split: if_splits)
  moreover have "frame s t3"
    unfolding t3_def t2_def t1_def
    by (rule frame_trans [OF frame_finish frame_trans [OF frame_upd_tcb frame_ops(7)]]) simp
  moreover have "pre_run t1" using pre_run_cong [of t1 s] sched_invD(5) [OF assms(1)] by (simp add: t1_def)
  then have "pre_run t2" unfolding t2_def using assms(3) c by (intro pre_run_upd) auto
  then have "pre_run t3" using pre_run_cong [of t3 t2] by (simp add: t3_def)
  moreover have "current t3 = current s" by (simp add: t3_def t2_def t1_def)
  ultimately show ?thesis using decide [OF assms(1)] by blast
qed

lemma find_threadD:
  assumes "find_thread t s = Some r" and "table_ok s"
  shows "member r s \<and> tid (tcb s r) = t"
proof -
  obtain i where i: "find (\<lambda>i. case threads s ! i of Some r \<Rightarrow> tid (tcb s r) = t | None \<Rightarrow> False) [0..<MAX_THREADS] = Some i"
      "threads s ! i = Some r"
    using assms(1) by (auto simp: find_thread_def split: option.splits)
  have "i < length (threads s)" using find_someD [OF i(1)] assms(2) by (simp add: table_ok_def)
  then show ?thesis using find_someD [OF i(1)] i(2) nth_mem [of i "threads s"] by (simp add: member_def)
qed

lemma inv_upd_same:
  assumes "sched_inv s" and "\<And>t. tid (f t) = tid t \<and> stack_base (f t) = stack_base t \<and> tstate (f t) = tstate t"
  shows "sched_inv (upd_tcb r f s)"
proof -
  have f: "frame s (upd_tcb r f s)" using assms(2) by (intro frame_upd_tcb) simp
  have "table_ok (upd_tcb r f s)"
    using sched_invD(1) [OF assms(1)] frame_table [OF f sched_invD(1) [OF assms(1)]] by (auto simp: table_ok_def)
  moreover have "run_ok (upd_tcb r f s)"
    using sched_invD(3) [OF assms(1)] assms(2) by (auto simp: run_ok_def pre_run_def member_def)
  ultimately show ?thesis using assms(1) frame_tid [OF f] frame_mem [OF f] by (simp add: sched_inv_def)
qed

lemma join_inv: "sched_inv s \<Longrightarrow> thread_join_round t s = Some (res, s') \<Longrightarrow> sched_inv s'"
  using yield_inv [of "upd_tcb r (\<lambda>t. t\<lparr>detached := False\<rparr>) s" s' for r]
  by (auto simp: thread_join_round_def inv_upd_same bind_eq_Some_conv split: option.splits if_splits)

lemma kill_inv:
  assumes "sched_inv s" and "thread_kill t s = Some (res, s')"
  shows "sched_inv s'"
proof (cases "find (killable t s) [0..<MAX_THREADS]")
  case None
  then show ?thesis using assms by (simp add: thread_kill_def)
next
  case (Some i)
  have i: "killable t s i" "i < MAX_THREADS" using find_someD [OF Some] by auto
  then obtain r where r: "threads s ! i = Some r" "tid (tcb s r) = t" "t \<noteq> 0" by (auto simp: killable_def split: option.splits)
  have nb: "r \<noteq> Boot_thread" using r sched_invD(2) [OF assms(1)] by (auto simp: tid_ok_def)
  have mr: "member r s" using i(2) r(1) sched_invD(1) [OF assms(1)] nth_mem [of i "threads s"] by (simp add: member_def table_ok_def)
  obtain c where c: "current s = Some c" "member c s" using sched_invD(1) [OF assms(1)] by (auto simp: table_ok_def)
  define s1 where "s1 = remember_exit t (- 1) (upd_tcb r (\<lambda>x. x\<lparr>tstate := THREAD_ZOMBIE, exit_code := - 1\<rparr>) s)"
  have f: "frame s s1" unfolding s1_def by (rule frame_trans [OF frame_upd_tcb frame_ops(7)]) simp
  have p: "pre_run s1"
    unfolding s1_def using pre_run_cong [of "remember_exit t (- 1) u" u for u] pre_run_upd sched_invD(5) [OF assms(1)] nb by simp
  have eq: "(if tid (tcb s1 c) = t then map_option (Pair 0) (sched_yield s1) else Some (0, s1)) = Some (res, s')"
  proof -
    have "current s1 = Some c" using c(1) by (simp add: s1_def)
    then show ?thesis
      using assms(2) unfolding thread_kill_def Some option.case r(1) option.sel Let_def s1_def [symmetric] by simp
  qed
  have tc: "tid (tcb s1 c) = t \<longleftrightarrow> c = r"
    using f r(2) c(2) mr sched_invD(2) [OF assms(1)] by (auto simp: frame_def tid_ok_def)
  show ?thesis
  proof (cases "c = r")
    case True
    define s2 where "s2 = s1\<lparr>need_resched := False\<rparr>"
    have "running s1" using f sched_invD(6) [OF assms(1)] by (simp add: frame_def)
    then have "switch_to (pick_next s2) s2 = Some s'"
      using eq tc True by (auto simp: sched_yield_def Let_def s2_def)
    moreover have "frame s s2" using frame_trans [OF f] by (simp add: s2_def)
    ultimately show ?thesis using decide [OF assms(1), of s2 s'] p by (simp add: s2_def s1_def)
  next
    case False
    have "table_ok s1" using frame_table [OF f sched_invD(1) [OF assms(1)], of c] c by (simp add: s1_def)
    moreover have "run_ok s1" using p sched_invD(3) [OF assms(1)] c(1) False by (auto simp: run_ok_def s1_def)
    ultimately show ?thesis
      using eq tc False assms(1) frame_tid [OF f] frame_mem [OF f] by (simp add: sched_inv_def)
  qed
qed

section \<open>The timer\<close>

definition due :: "u64 \<Rightarrow> thread \<Rightarrow> bool" where
  "due now t \<longleftrightarrow> tstate t = THREAD_SLEEPING \<and> wake_at_ms t \<le> now"

lemma wake_fold:
  "threads (fold (wake now) is s) = threads s \<and> current (fold (wake now) is s) = current s \<and>
   slice_left (fold (wake now) is s) = slice_left s \<and> need_resched (fold (wake now) is s) = need_resched s \<and> frame s (fold (wake now) is s) \<and>
   tcb (fold (wake now) is s) r =
     (if (\<exists>i \<in> set is. threads s ! i = Some r) \<and> due now (tcb s r) then (tcb s r)\<lparr>tstate := THREAD_READY\<rparr> else tcb s r)"
proof (induction "is" arbitrary: s)
  case (Cons i "is")
  have w: "threads (wake now i s) = threads s" "current (wake now i s) = current s" "slice_left (wake now i s) = slice_left s"
      "need_resched (wake now i s) = need_resched s" "frame s (wake now i s)"
      "tcb (wake now i s) r = (if threads s ! i = Some r \<and> due now (tcb s r) then (tcb s r)\<lparr>tstate := THREAD_READY\<rparr> else tcb s r)"
    by (auto simp: wake_def due_def frame_upd_tcb frame_refl split: option.split) (simp_all add: upd_tcb_def)
  show ?case
    using Cons.IH [of "wake now i s"] w frame_trans [OF w(5)] by (auto simp: due_def)
qed (simp add: frame_refl)

lemma slot_of_member: "table_ok s \<Longrightarrow> (\<exists>i \<in> set [0..<MAX_THREADS]. threads s ! i = Some r) = member r s"
  by (auto simp: table_ok_def member_def in_set_conv_nth)

lemma irq_spec:
  assumes "table_ok s" and "current s = Some c"
  defines "s' \<equiv> timer_irq s" and "now \<equiv> timer_ms (s\<lparr>ticks := ticks s + 1\<rparr>)"
  shows "(\<forall>r. tstate (tcb s' r) = (if member r s \<and> due now (tcb s r) then THREAD_READY else tstate (tcb s r)) \<and>
        cpu_ticks (tcb s' r) = (if r = c then cpu_ticks (tcb s r) + 1 else cpu_ticks (tcb s r))) \<and>
    (if slice_left s \<le> 1 then need_resched s' \<and> slice_left s' = QUANTUM_TICKS
     else need_resched s' = need_resched s \<and> slice_left s' = slice_left s - 1) \<and>
    threads s' = threads s \<and> current s' = current s \<and> frame s s'"
proof -
  define s0 where "s0 = s\<lparr>ticks := ticks s + 1\<rparr>"
  define s1 where "s1 = upd_tcb c (\<lambda>t. t\<lparr>cpu_ticks := cpu_ticks t + 1\<rparr>) s0"
  define s2 where "s2 = fold (wake now) [0..<MAX_THREADS] s1"
  have f1: "frame s s1" unfolding s1_def s0_def by (rule frame_trans [OF frame_fields(4) frame_upd_tcb]) simp
  have m: "(\<exists>i \<in> set [0..<MAX_THREADS]. threads s1 ! i = Some r) = member r s" for r
    using slot_of_member [OF assms(1)] by (simp add: s1_def s0_def)
  have w: "threads s2 = threads s" "current s2 = current s" "slice_left s2 = slice_left s" "need_resched s2 = need_resched s"
      "frame s1 s2"
      "tcb s2 r = (if member r s \<and> due now (tcb s1 r) then (tcb s1 r)\<lparr>tstate := THREAD_READY\<rparr> else tcb s1 r)" for r
    using wake_fold [of now "[0..<MAX_THREADS]" s1 r] m [of r] unfolding s2_def [symmetric]
    by (simp_all add: s1_def s0_def) (simp_all add: upd_tcb_def)
  have run: "running s0" using assms(1) by (simp add: table_ok_def s0_def)
  have now: "now = timer_ms s1" by (simp add: now_def s1_def s0_def timer_ms_def upd_tcb_def)
  have s': "s' = (if slice_left s2 - 1 \<le> 0 then s2\<lparr>slice_left := QUANTUM_TICKS, need_resched := True\<rparr>
      else s2\<lparr>slice_left := slice_left s2 - 1\<rparr>)"
  proof -
    have "current s0 = Some c" using assms(2) by (simp add: s0_def)
    then show ?thesis
      unfolding s'_def timer_irq_def s0_def [symmetric] sched_tick_def using run
      by (simp add: Let_def s2_def now s1_def)
  qed
  have "frame s2 s'" by (simp add: s' frame_def)
  then have "frame s s'" using f1 w(5) frame_trans by blast
  moreover have "tcb s' = tcb s2" by (simp add: s')
  moreover have "due now (tcb s1 r) = due now (tcb s r)" "tstate (tcb s1 r) = tstate (tcb s r)"
      "cpu_ticks (tcb s1 r) = (if r = c then cpu_ticks (tcb s r) + 1 else cpu_ticks (tcb s r))" for r
    by (simp_all add: s1_def s0_def due_def)
  ultimately show ?thesis using w by (auto simp: s')
qed

text \<open>
  a timer interrupt wakes exactly the sleeping threads whose time has come and changes the state of no
  other thread, charges the tick to the current thread, and asks for a reschedule exactly when the
  time slice of the current thread is used up, which then starts anew.
\<close>

lemma timer_irq_effect:
  assumes "table_ok s" and "current s = Some c"
  defines "s' \<equiv> timer_irq s" and "now \<equiv> timer_ms (s\<lparr>ticks := ticks s + 1\<rparr>)"
  shows "(\<forall>r. tstate (tcb s' r) = (if member r s \<and> due now (tcb s r) then THREAD_READY else tstate (tcb s r)) \<and>
        cpu_ticks (tcb s' r) = (if r = c then cpu_ticks (tcb s r) + 1 else cpu_ticks (tcb s r))) \<and>
    (if slice_left s \<le> 1 then need_resched s' \<and> slice_left s' = QUANTUM_TICKS
     else need_resched s' = need_resched s \<and> slice_left s' = slice_left s - 1) \<and>
    threads s' = threads s \<and> current s' = current s"
  using irq_spec [OF assms(1,2)] unfolding s'_def now_def by blast

lemma irq_inv: "sched_inv s \<Longrightarrow> sched_inv (timer_irq s)"
proof -
  assume i: "sched_inv s"
  obtain c where c: "current s = Some c" "member c s" using sched_invD(1) [OF i] by (auto simp: table_ok_def)
  note sp = irq_spec [OF sched_invD(1) [OF i] c(1)]
  have f: "frame s (timer_irq s)" using sp by blast
  have ts: "tstate (tcb (timer_irq s) r) = THREAD_READY \<and> tstate (tcb s r) = THREAD_SLEEPING \<or>
      tstate (tcb (timer_irq s) r) = tstate (tcb s r)" for r
    using sp by (auto simp: due_def)
  have cur: "current (timer_irq s) = current s" using sp by blast
  have "table_ok (timer_irq s)" using frame_table [OF f sched_invD(1) [OF i], of c] sp c by simp
  moreover have "run_ok (timer_irq s)"
    using sched_invD(3) [OF i] ts ts [of Boot_thread] ts [of c] cur frame_member [OF f]
    unfolding run_ok_def pre_run_def by (metis insertCI thread_state.distinct(1) thread_state.distinct(9) insertE singletonD thread_state.simps(8))
  ultimately show ?thesis using i frame_tid [OF f] frame_mem [OF f] by (simp add: sched_inv_def)
qed

section \<open>Reaping\<close>

lemma member_remove:
  assumes "table_ok s" and "i < MAX_THREADS" and "threads s ! i = Some r"
  shows "Some q \<in> set ((threads s)[i := None]) \<longleftrightarrow> member q s \<and> q \<noteq> r"
proof -
  have len: "length (threads s) = MAX_THREADS" using assms(1) by (simp add: table_ok_def)
  have u: "j = i" if "j < MAX_THREADS" "threads s ! j = Some r" for j
    using assms that unfolding table_ok_def by (metis option.distinct(1))
  show ?thesis
  proof
    assume "Some q \<in> set ((threads s)[i := None])"
    then obtain j where j: "j < MAX_THREADS" "(threads s)[i := None] ! j = Some q"
      using len by (auto simp: in_set_conv_nth)
    then have "j \<noteq> i" "threads s ! j = Some q" using len assms(2) by (auto simp: nth_list_update split: if_splits)
    then show "member q s \<and> q \<noteq> r" using u j(1) len by (auto simp: member_def in_set_conv_nth)
  next
    assume q: "member q s \<and> q \<noteq> r"
    then obtain j where "j < MAX_THREADS" "threads s ! j = Some q" using len by (auto simp: member_def in_set_conv_nth)
    moreover from this have "j \<noteq> i" using assms(3) q by auto
    ultimately show "Some q \<in> set ((threads s)[i := None])"
      using len by (metis in_set_conv_nth length_list_update nth_list_update_neq)
  qed
qed

text \<open>Releasing one dead thread: both frees succeed, and the rest of the table keeps its memory.\<close>

lemma reap_frees:
  assumes "mem_ok s" and "member (Heap_thread p) s"
  shows "\<exists>h1 h2 cs. kfree (stack_base (tcb s (Heap_thread p))) (kh s) = Some h1 \<and> kfree p h1 = Some h2 \<and> heap_ok h2 cs \<and>
    (\<forall>q. member (Heap_thread q) s \<longrightarrow> q \<noteq> p \<longrightarrow> q \<in> fst ` live_blocks cs \<and>
       (\<exists>n \<ge> STACK_SIZE. (stack_base (tcb s (Heap_thread q)), n) \<in> live_blocks cs))"
proof -
  let ?stk = "\<lambda>q. stack_base (tcb s (Heap_thread q))"
  obtain cs where cs: "heap_ok (kh s) cs" "owns s (live_blocks cs)" using assms(1) by (auto simp: mem_ok_def)
  obtain n where n: "(?stk p, n) \<in> live_blocks cs" using cs(2) assms(2) by (auto simp: owns_def)
  obtain k where k: "(p, k) \<in> live_blocks cs" using cs(2) assms(2) unfolding owns_def by force
  obtain h1 cs1 where f1: "kfree (?stk p) (kh s) = Some h1" "heap_ok h1 cs1" "live_blocks cs1 = live_blocks cs - {(?stk p, n)}"
    using kfree_spec [OF cs(1) n] by blast
  have "p \<noteq> ?stk p" using cs(2) assms(2) by (auto simp: owns_def)
  then have "(p, k) \<in> live_blocks cs1" using f1(3) k by auto
  then obtain h2 cs2 where f2: "kfree p h1 = Some h2" "heap_ok h2 cs2" "live_blocks cs2 = live_blocks cs1 - {(p, k)}"
    using kfree_spec [OF f1(2)] by blast
  have "q \<in> fst ` live_blocks cs2 \<and> (\<exists>n \<ge> STACK_SIZE. (?stk q, n) \<in> live_blocks cs2)"
    if q: "member (Heap_thread q) s" "q \<noteq> p" for q
  proof -
    have ne: "q \<noteq> ?stk p" "?stk q \<noteq> p" "?stk q \<noteq> ?stk p" using cs(2) assms(2) q unfolding owns_def by metis+
    obtain a b where "(q, a) \<in> live_blocks cs" "STACK_SIZE \<le> b" "(?stk q, b) \<in> live_blocks cs"
      using cs(2) q(1) unfolding owns_def by force
    then have "(q, a) \<in> live_blocks cs2" "(?stk q, b) \<in> live_blocks cs2" "STACK_SIZE \<le> b" using f1(3) f2(3) ne q(2) by auto
    then show ?thesis by force
  qed
  then show ?thesis using f1(1) f2(1,2) by blast
qed

lemma reap_slot_inv:
  assumes "sched_inv s" and "0 < i" and "i < MAX_THREADS"
  shows "\<exists>s'. reap_slot i s = Some s' \<and> sched_inv s' \<and> current s' = current s"
proof (cases "\<exists>r. threads s ! i = Some r \<and> tstate (tcb s r) = THREAD_ZOMBIE \<and> current s \<noteq> Some r \<and> detached (tcb s r)")
  case False
  then show ?thesis using assms(1) by (auto simp: reap_slot_def split: option.split)
next
  case True
  note inv = sched_invD [OF assms(1)]
  obtain r where r: "threads s ! i = Some r" "tstate (tcb s r) = THREAD_ZOMBIE" "current s \<noteq> Some r" "detached (tcb s r)"
    using True by blast
  have len: "length (threads s) = MAX_THREADS" using inv(1) by (simp add: table_ok_def)
  have mr: "member r s" using r(1) assms(3) nth_mem [of i "threads s"] len by (simp add: member_def)
  obtain p where p: "r = Heap_thread p" using inv(5) r(2) by (cases r) (auto simp: pre_run_def)
  obtain h1 h2 cs where f: "kfree (stack_base (tcb s r)) (kh s) = Some h1" "kfree p h1 = Some h2" "heap_ok h2 cs"
      "\<And>q. member (Heap_thread q) s \<Longrightarrow> q \<noteq> p \<Longrightarrow> q \<in> fst ` live_blocks cs \<and>
         (\<exists>n \<ge> STACK_SIZE. (stack_base (tcb s (Heap_thread q)), n) \<in> live_blocks cs)"
    using reap_frees [OF inv(4) mr [unfolded p]] p by blast
  define s' where "s' = s\<lparr>threads := (threads s)[i := None], kh := h2\<rparr>"
  have e: "reap_slot i s = Some s'" using r f(1,2) p by (simp add: reap_slot_def s'_def)
  have m: "member q s' \<longleftrightarrow> member q s \<and> q \<noteq> r" for q
    using member_remove [OF inv(1) assms(3) r(1)] by (simp add: s'_def member_def)
  have "table_ok s'"
    using inv(1) m r(3) assms(2,3) len
    by (auto simp: table_ok_def s'_def nth_list_update split: if_splits) 
  moreover have "tid_ok s'" using inv(2) m by (simp add: tid_ok_def s'_def)
  moreover have "run_ok s'" using inv(3) m by (auto simp: run_ok_def pre_run_def s'_def)
  moreover have "mem_ok s'"
  proof -
    obtain cs0 where "owns s (live_blocks cs0)" using inv(4) by (auto simp: mem_ok_def)
    then have "owns s' (live_blocks cs)" using f(4) m p unfolding owns_def by (simp add: s'_def)
    then show ?thesis using inv(4) f(3) by (auto simp: mem_ok_def s'_def)
  qed
  ultimately show ?thesis using e by (simp add: sched_inv_def s'_def)
qed

lemma reap_inv: "sched_inv s \<Longrightarrow> \<exists>s'. sched_reap s = Some s' \<and> sched_inv s' \<and> current s' = current s"
proof -
  have "\<exists>s'. reap_slots is s = Some s' \<and> sched_inv s' \<and> current s' = current s"
    if "sched_inv s" "\<forall>i \<in> set is. 0 < i \<and> i < MAX_THREADS" for "is"
    using that
  proof (induction "is" arbitrary: s)
    case (Cons i "is")
    then obtain s1 where s1: "reap_slot i s = Some s1" "sched_inv s1" "current s1 = current s"
      using reap_slot_inv [of s i] by auto
    then show ?case using Cons.IH [OF s1(2)] Cons.prems(2) by simp
  qed simp
  then show "sched_inv s \<Longrightarrow> ?thesis" by (simp add: sched_reap_def)
qed

section \<open>Creating\<close>

lemma kmalloc_small:
  assumes "heap_ok h cs" and "sz \<noteq> 0" and "unat sz \<le> 65536"
  obtains p h' cs' where "kmalloc sz h = Some (p, h')" "heap_ok h' cs'" "p = 0" "live_blocks cs' = live_blocks cs"
  | p h' cs' n where "kmalloc sz h = Some (p, h')" "heap_ok h' cs'" "p \<noteq> 0" "p \<notin> fst ` live_blocks cs" "sz \<le> n"
      "live_blocks cs' = insert (p, n) (live_blocks cs)"
  using kmalloc_spec [OF assms(1,2)] assms(3) unfolding allocates_def word_le_nat_alt by fastforce

lemma kfree_fresh:
  assumes "heap_ok h cs" and "live_blocks cs = insert (p, n) L" and "p \<notin> fst ` L"
  obtains h' cs' where "kfree p h = Some h'" "heap_ok h' cs'" "live_blocks cs' = L"
proof -
  obtain h' cs' where "kfree p h = Some h'" "heap_ok h' cs'" "live_blocks cs' = live_blocks cs - {(p, n)}"
    using kfree_spec [OF assms(1), of p n] assms(2) by blast
  moreover have "live_blocks cs - {(p, n)} = L" using assms(2,3) by force
  ultimately show ?thesis using that by simp
qed

lemma owns_mono: "owns s L \<Longrightarrow> L \<subseteq> M \<Longrightarrow> owns s M"
  unfolding owns_def by blast

lemma owns_heap [simp]: "owns (s\<lparr>kh := h\<rparr>) L = owns s L"
  by (simp add: owns_def member_def)

lemma inv_heap:
  assumes "sched_inv s" and "heap_ok h cs" and "owns s (live_blocks cs)"
  shows "sched_inv (s\<lparr>kh := h\<rparr>)"
  using assms by (auto simp: sched_inv_def table_ok_def tid_ok_def run_ok_def pre_run_def mem_ok_def member_def)

lemma wr32_in_payload:
  assumes "wr32 a v m x \<noteq> m x" and "unat (a - p) + 4 \<le> unat n" and "unat p + unat n \<le> 2 ^ 32"
  shows "payload (p, n) x"
proof -
  have "x - a = 0 \<or> x - a = 1 \<or> x - a = 2 \<or> x - a = 3" using assms(1) by (auto simp: wr32_at split: if_splits)
  then have k: "unat (x - a) < 4" by auto
  have "x - p = (a - p) + (x - a)" by simp
  then have "unat (x - p) \<le> unat (a - p) + unat (x - a)" using unat_plus_le [of "a - p" "x - a"] by simp
  then show ?thesis using k assms(2) offset_payload [OF assms(3), of x] by simp
qed

lemma seed_in_payload:
  assumes "seed_stack tr e arg (p + STACK_SIZE) m x \<noteq> m x" and "STACK_SIZE \<le> n" and "unat p + unat n \<le> 2 ^ 32"
  shows "payload (p, n) x"
proof -
  have n: "32768 \<le> unat n" using assms(2) by (simp add: STACK_SIZE_def word_le_nat_alt)
  have k: "unat (p + STACK_SIZE - k - p) + 4 \<le> unat n" if "k \<in> {4, 8, 12, 16, 20, 24}" for k
  proof -
    have "p + STACK_SIZE - k - p = 32768 - k" by (simp add: STACK_SIZE_def)
    then show ?thesis using that n by (auto simp: STACK_SIZE_def)
  qed
  show ?thesis
  proof (rule ccontr)
    assume "\<not> payload (p, n) x"
    then have "wr32 (p + STACK_SIZE - k) v m' x = m' x" if "k \<in> {4, 8, 12, 16, 20, 24}" for k v m'
      using wr32_in_payload [OF _ k [OF that] assms(3), of v m' x] by blast
    then show False using assms(1) by (simp add: seed_stack_def)
  qed
qed

lemma member_add:
  assumes "table_ok s" and "i < MAX_THREADS" and "threads s ! i = None"
  shows "Some q \<in> set ((threads s)[i := Some r]) \<longleftrightarrow> member q s \<or> q = r"
proof -
  have len: "i < length (threads s)" using assms(1,2) by (simp add: table_ok_def)
  have "member q s \<Longrightarrow> Some q \<in> set ((threads s)[i := Some r])"
    using assms(3) by (metis in_set_conv_nth length_list_update member_def nth_list_update_neq option.distinct(1))
  then show ?thesis using set_update_memI [OF len, of "Some r"] set_update_subset_insert [of "threads s" i "Some r"] by (auto simp: member_def)
qed

lemma add_thread_inv:
  assumes "sched_inv s" and "free_slot s = Some i" and "heap_ok h cs" and "owns s (live_blocks cs0)"
    and "live_blocks cs = insert (raw, c) (insert (stk, b) (insert (t, a) (live_blocks cs0)))"
    and "t \<notin> fst ` live_blocks cs0" "stk \<notin> fst ` live_blocks cs0" "t \<noteq> stk" "STACK_SIZE \<le> b"
    and "stack_base th = stk" "tid th = next_tid s" "tstate th = THREAD_READY"
    and "kh s' = h" "tcb s' = (tcb s)(Heap_thread t := th)" "next_tid s' = next_tid s + 1"
      "threads s' = (threads s)[i := Some (Heap_thread t)]" "current s' = current s" "running s' = running s"
      "exit_history s' = exit_history s" "exit_history_next s' = exit_history_next s"
  shows "sched_inv s'"
proof -
  note inv = sched_invD [OF assms(1)]
  have i: "i < MAX_THREADS" "threads s ! i = None" using find_someD [OF assms(2) [unfolded free_slot_def]] by auto
  have len: "length (threads s) = MAX_THREADS" "threads s ! 0 = Some Boot_thread" using inv(1) by (auto simp: table_ok_def)
  then have "i \<noteq> 0" using i(2) by (metis option.distinct(1))
  have m: "member q s' \<longleftrightarrow> member q s \<or> q = Heap_thread t" for q
    using member_add [OF inv(1) i] assms(16) by (simp add: member_def)
  have new: "\<not> member (Heap_thread t) s" using assms(4,6) by (auto simp: owns_def)
  have bt: "tcb s' Boot_thread = tcb s Boot_thread" using assms(14) by simp
  have old: "tcb s' q = tcb s q" if "member q s" for q using that new assms(14) by auto
  have nt: "tcb s' (Heap_thread t) = th" using assms(14) by simp
  have "table_ok s'"
    unfolding table_ok_def
  proof (intro conjI allI impI)
    fix j k
    assume "j < MAX_THREADS" "k < MAX_THREADS" "threads s' ! j = threads s' ! k" "threads s' ! j \<noteq> None"
    moreover have "threads s ! l \<noteq> Some (Heap_thread t)" if "l < MAX_THREADS" for l
      using new that len(1) unfolding member_def by (metis nth_mem)
    ultimately show "j = k"
      using inv(1) i len(1) unfolding table_ok_def assms(16) by (auto simp: nth_list_update split: if_splits)
  qed (use inv(1) m i \<open>i \<noteq> 0\<close> len assms(16-20) in \<open>auto simp: table_ok_def nth_list_update\<close>)
  moreover have "tid_ok s'"
    unfolding tid_ok_def
  proof (intro conjI allI impI)
    fix q r
    assume "member q s'" "member r s'" "tid (tcb s' q) = tid (tcb s' r)"
    moreover have "tid (tcb s q) < next_tid s" if "member q s" for q
      using inv(2) that by (cases q) (auto simp: tid_ok_def)
    ultimately show "q = r"
      using inv(2) m old nt assms(11) unfolding tid_ok_def by (metis less_irrefl)
  qed (use inv(2) m old nt bt assms(11,15) in \<open>auto simp: tid_ok_def\<close>)
  moreover have "run_ok s'"
  proof -
    obtain c where c: "current s = Some c" "member c s" using inv(1) by (auto simp: table_ok_def)
    show ?thesis
      using inv(3) m old nt bt c assms(12,17) unfolding run_ok_def pre_run_def by (metis thread_state.distinct(1) option.inject)
  qed
  moreover have "mem_ok s'"
  proof -
    let ?stk = "\<lambda>p. stack_base (tcb s' (Heap_thread p))"
    have o: "p \<in> fst ` live_blocks cs0" "\<exists>n \<ge> STACK_SIZE. (?stk p, n) \<in> live_blocks cs0" "p \<noteq> t" "p \<noteq> stk" "?stk p \<noteq> t" "?stk p \<noteq> stk"
      if p: "member (Heap_thread p) s" for p
    proof -
      show r: "p \<in> fst ` live_blocks cs0" "\<exists>n \<ge> STACK_SIZE. (?stk p, n) \<in> live_blocks cs0"
        using assms(4) p old [OF p] by (auto simp: owns_def)
      show "p \<noteq> t" "p \<noteq> stk" "?stk p \<noteq> t" "?stk p \<noteq> stk" using r assms(6,7) by force+
    qed
    have n: "?stk t = stk" using nt assms(10) by simp
    have d: "p \<noteq> ?stk q \<and> (?stk p = ?stk q \<longrightarrow> p = q)" if "member (Heap_thread p) s'" "member (Heap_thread q) s'" for p q
    proof -
      have "p \<noteq> ?stk q \<and> (?stk p = ?stk q \<longrightarrow> p = q)" if "member (Heap_thread p) s" "member (Heap_thread q) s"
        using assms(4) that old unfolding owns_def by simp
      then show ?thesis using that m o n assms(8) by (metis thread_ref.inject)
    qed
    moreover have "p \<in> fst ` live_blocks cs \<and> (\<exists>n \<ge> STACK_SIZE. (?stk p, n) \<in> live_blocks cs)" if "member (Heap_thread p) s'" for p
    proof (cases "p = t")
      case True
      then show ?thesis using n assms(5,9) by auto
    next
      case False
      then have "member (Heap_thread p) s" using that m by simp
      from o(1,2) [OF this] show ?thesis using assms(5) by auto
    qed
    ultimately have "owns s' (live_blocks cs)" unfolding owns_def by blast
    then show ?thesis using inv(4) assms(3,13) bt by (auto simp: mem_ok_def)
  qed
  ultimately show ?thesis by (simp add: sched_inv_def)
qed

lemma create_inv:
  assumes "sched_inv s" and "thread_create name entry arg s = Some (res, s')"
  shows "sched_inv s'"
proof (cases "free_slot s")
  case None
  then show ?thesis using assms by (simp add: thread_create_def)
next
  case (Some i)
  obtain cs0 where cs0: "heap_ok (kh s) cs0" "owns s (live_blocks cs0)"
    using sched_invD(4) [OF assms(1)] by (auto simp: mem_ok_def)
  have sz: "sizeof_thread \<noteq> 0" "unat sizeof_thread \<le> 65536" "STACK_SIZE \<noteq> 0" "unat STACK_SIZE \<le> 65536"
      "(512 + 16 :: u32) \<noteq> 0" "unat (512 + 16 :: u32) \<le> 65536"
    by (simp_all add: sizeof_thread_def STACK_SIZE_def)
  note e = assms(2) [unfolded thread_create_def Some option.case]
  show ?thesis
  proof (cases rule: kmalloc_small [OF cs0(1) sz(1,2)])
    case (1 t h1 cs1)
    then show ?thesis using e inv_heap [OF assms(1) 1(2)] cs0(2) by simp
  next
    case t: (2 t h1 cs1 a)
    show ?thesis
    proof (cases rule: kmalloc_small [OF t(2) sz(3,4)])
      case (1 stk h2 cs2)
      obtain h3 cs3 where f: "kfree t h2 = Some h3" "heap_ok h3 cs3" "live_blocks cs3 = live_blocks cs0"
        using kfree_fresh [OF 1(2) _ t(4)] 1(4) t(6) by metis
      then show ?thesis using e 1 t(1,3) inv_heap [OF assms(1) f(2)] cs0(2) by simp
    next
      case stk: (2 stk h2 cs2 b)
      define h2' where "h2' = h2\<lparr>kmem := wr32 stk STACK_GUARD (kmem h2)\<rparr>"
      have sb: "unat stk + unat b \<le> 2 ^ 32" using live_bounds [OF stk(2), of stk b] stk(6) by simp
      have "4 \<le> unat b" using stk(5) by (simp add: STACK_SIZE_def word_le_nat_alt)
      then have ok2: "heap_ok h2' cs2"
        unfolding h2'_def using payload_write [OF stk(2), of "(stk, b)"] stk(6) wr32_in_payload [OF _ _ sb] by simp
      have fresh: "t \<noteq> stk" "stk \<notin> fst ` live_blocks cs0" using stk(4) t(6) by auto
      show ?thesis
      proof (cases rule: kmalloc_small [OF ok2 sz(5,6)])
        case (1 raw h3 cs3)
        have l3: "live_blocks cs3 = insert (stk, b) (insert (t, a) (live_blocks cs0))" using 1(4) stk(6) t(6) by simp
        obtain h4 cs4 where f4: "kfree stk h3 = Some h4" "heap_ok h4 cs4" "live_blocks cs4 = insert (t, a) (live_blocks cs0)"
          using kfree_fresh [OF 1(2) l3] fresh by auto
        obtain h5 cs5 where f5: "kfree t h4 = Some h5" "heap_ok h5 cs5" "live_blocks cs5 = live_blocks cs0"
          using kfree_fresh [OF f4(2,3) t(4)] .
        show ?thesis
          using e 1(1,3) t(1,3) stk(1,3) f4(1) f5(1) inv_heap [OF assms(1) f5(2)] f5(3) cs0(2) by (simp add: h2'_def)
      next
        case raw: (2 raw h3 cs3 c)
        define th where "th = zero_thread\<lparr>stack_base := stk, stack_size := STACK_SIZE, fpu_state := Some (Heap_fpu (ALIGN_UP raw 16)),
            tid := next_tid s, tstate := THREAD_READY, detached := True,
            space := (case current s of Some c \<Rightarrow> space (tcb s c) | None \<Rightarrow> Some Kernel_space),
            tname := name_field THREAD_NAME_MAX name, esp := stk + STACK_SIZE - 24\<rparr>"
        define h4 where "h4 = h3\<lparr>kmem := seed_stack (thread_trampoline s) entry arg (stk + STACK_SIZE) (kmem h3)\<rparr>"
        have s': "s' = (fpu_new_state (Heap_fpu (ALIGN_UP raw 16)) s)\<lparr>kh := h4, tcb := (tcb s)(Heap_thread t := th),
            next_tid := next_tid s + 1, threads := (threads s)[i := Some (Heap_thread t)]\<rparr>"
          using e raw(1,3) t(1,3) stk(1,3) by (auto simp: h2'_def Let_def th_def h4_def)
        have l3: "live_blocks cs3 = insert (raw, c) (insert (stk, b) (insert (t, a) (live_blocks cs0)))"
          using raw(6) stk(6) t(6) by simp
        have "heap_ok h4 cs3"
          unfolding h4_def using payload_write [OF raw(2), of "(stk, b)"] l3 seed_in_payload [OF _ stk(5) sb] by simp
        then show ?thesis
          using add_thread_inv [OF assms(1) Some _ cs0(2) l3 t(4) fresh(2,1) stk(5), of h4 th s']
          by (simp add: s' th_def fpu_new_state_def)
      qed
    qed
  qed
qed

section \<open>Runs of the scheduler\<close>

text \<open>
  Everything that can happen to the scheduler between two instructions of a thread.  The boot thread is the
  idle loop of \<^verbatim>\<open>kmain\<close>: it reaps, and it never exits.  A thread may change the registers and its own stack.
\<close>

inductive sched_step :: "sys \<Rightarrow> sys \<Rightarrow> bool" where
  Tick: "sched_step s (timer_irq s)"
| Preempt: "sched_preempt s = Some s' \<Longrightarrow> sched_step s s'"
| Yield: "sched_yield s = Some s' \<Longrightarrow> sched_step s s'"
| Sleep: "thread_sleep_ms ms s = Some s' \<Longrightarrow> sched_step s s'"
| Exit: "current s \<noteq> Some Boot_thread \<Longrightarrow> thread_exit code s = Some s' \<Longrightarrow> sched_step s s'"
| Join: "thread_join_round t s = Some (res, s') \<Longrightarrow> sched_step s s'"
| Kill: "thread_kill t s = Some (r, s') \<Longrightarrow> sched_step s s'"
| Create: "thread_create name entry arg s = Some (r, s') \<Longrightarrow> sched_step s s'"
| Reap: "current s = Some Boot_thread \<Longrightarrow> sched_reap s = Some s' \<Longrightarrow> sched_step s s'"
| Work: "current s = Some (Heap_thread p) \<Longrightarrow>
    (\<And>x. m x \<noteq> kmem (kh s) x \<Longrightarrow> payload (stack_base (tcb s (Heap_thread p)), STACK_SIZE) x) \<Longrightarrow>
    sched_step s (s\<lparr>kh := (kh s)\<lparr>kmem := m\<rparr>, cpu_esp := e, fpu_regs := f\<rparr>)"

inductive_cases sched_stepE: "sched_step s s'"

inductive reachable :: "sys \<Rightarrow> sys \<Rightarrow> bool" for s0 where
  Start: "reachable s0 s0"
| Step: "reachable s0 s \<Longrightarrow> sched_step s s' \<Longrightarrow> reachable s0 s'"

lemma work_inv:
  assumes "sched_inv s" and "current s = Some (Heap_thread p)"
    and "\<And>x. m x \<noteq> kmem (kh s) x \<Longrightarrow> payload (stack_base (tcb s (Heap_thread p)), STACK_SIZE) x"
  shows "sched_inv (s\<lparr>kh := (kh s)\<lparr>kmem := m\<rparr>, cpu_esp := e, fpu_regs := f\<rparr>)"
proof -
  note inv = sched_invD [OF assms(1)]
  obtain cs where cs: "heap_ok (kh s) cs" "owns s (live_blocks cs)" using inv(4) by (auto simp: mem_ok_def)
  have "member (Heap_thread p) s" using inv(1) assms(2) by (auto simp: table_ok_def)
  then obtain n where n: "STACK_SIZE \<le> n" "(stack_base (tcb s (Heap_thread p)), n) \<in> live_blocks cs"
    using cs(2) by (auto simp: owns_def)
  have "heap_ok ((kh s)\<lparr>kmem := m\<rparr>) cs"
    using assms(3) n(1) by (intro payload_write [OF cs(1) n(2)]) (fastforce simp: payload_def word_le_nat_alt)
  then have "sched_inv (s\<lparr>kh := (kh s)\<lparr>kmem := m\<rparr>\<rparr>)" using inv_heap [OF assms(1)] cs(2) by blast
  then show ?thesis
    by (simp add: sched_inv_def table_ok_def tid_ok_def run_ok_def pre_run_def mem_ok_def owns_def member_def)
qed

lemma step_inv: "sched_step s s' \<Longrightarrow> sched_inv s \<Longrightarrow> sched_inv s'"
  by (induction rule: sched_step.induct)
    (auto intro: irq_inv preempt_inv yield_inv sleep_inv exit_inv join_inv kill_inv create_inv work_inv dest: reap_inv)

text \<open>The state \<^verbatim>\<open>kmain\<close> passes to \<^verbatim>\<open>sched_init\<close>: zeroed statics and a working heap.\<close>

definition before_sched :: "sys \<Rightarrow> bool" where
  "before_sched s \<longleftrightarrow> threads s = replicate MAX_THREADS None \<and> next_tid s = 1 \<and>
     exit_history s = replicate EXIT_HISTORY (0, 0) \<and> exit_history_next s = 0 \<and> (\<exists>cs. heap_ok (kh s) cs)"

lemma init_inv: "before_sched s \<Longrightarrow> sched_inv (sched_init s)"
proof -
  assume b: "before_sched s"
  have t: "threads (sched_init s) = Some Boot_thread # replicate 31 None"
    using b by (simp add: before_sched_def sched_init_def Let_def MAX_THREADS_def numeral_eq_Suc)
  then have m: "member r (sched_init s) \<longleftrightarrow> r = Boot_thread" for r by (auto simp: member_def)
  have "table_ok (sched_init s)"
    using b m t by (auto simp: table_ok_def before_sched_def sched_init_def Let_def fpu_new_state_def MAX_THREADS_def EXIT_HISTORY_def nth_Cons' split: if_splits)
  then show ?thesis
    using b m by (auto simp: sched_inv_def tid_ok_def run_ok_def pre_run_def mem_ok_def owns_def before_sched_def sched_init_def Let_def fpu_new_state_def zero_thread_def)
qed


definition boot_sys :: sys where
  "boot_sys = \<lparr>kh = sample_heap, threads = replicate MAX_THREADS None, tcb = (\<lambda>_. zero_thread), current = None, next_tid = 1,
     running = False, need_resched = False, slice_left = QUANTUM_TICKS, exit_history = replicate EXIT_HISTORY (0, 0),
     exit_history_next = 0, ticks = 0, frequency = 100, sse_available = True, clean_state = [], fpu_regs = [],
     fpu_area = (\<lambda>_. []), tss_esp0 = 0, cpu_esp = 0, thread_trampoline = 0, table = [], next_pid = 1, pending = []\<rparr>"

lemma boot_before: "before_sched boot_sys"
  using sample_heap_ok by (auto simp: before_sched_def boot_sys_def)


section \<open>Fairness\<close>

text \<open>How many slots a thread in slot \<open>j\<close> is ahead of the current one, from 1 to \<^verbatim>\<open>MAX_THREADS\<close>.\<close>

definition ahead :: "sys \<Rightarrow> nat \<Rightarrow> nat" where
  "ahead s j = (if j \<le> start_slot s then j + MAX_THREADS - start_slot s else j - start_slot s)"

lemma start_slot_less: "start_slot s < MAX_THREADS"
  by (auto simp: start_slot_def MAX_THREADS_def dest: find_someD split: option.split)

lemma start_slot_current:
  assumes "table_ok s" and "i < MAX_THREADS" and "threads s ! i = Some r" and "current s = Some r"
  shows "start_slot s = i"
proof -
  have "find (\<lambda>i. threads s ! i = current s) [0..<MAX_THREADS] \<noteq> None"
    using assms by (auto simp: find_None_iff)
  then obtain k where k: "find (\<lambda>i. threads s ! i = current s) [0..<MAX_THREADS] = Some k" by blast
  from find_someD [OF k] have "k = i" using assms unfolding table_ok_def by (metis atLeastLessThan_iff option.distinct(1) set_upt)
  then show ?thesis using k by (simp add: start_slot_def)
qed

lemma ahead_slot: "j < MAX_THREADS \<Longrightarrow> (start_slot s + ahead s j) mod MAX_THREADS = j \<and> 1 \<le> ahead s j \<and> ahead s j \<le> MAX_THREADS"
  using start_slot_less [of s] by (auto simp: ahead_def)

text \<open>The first ready thread from the current slot on is picked, so it is no further ahead than any ready one.\<close>

lemma pick_next_first:
  assumes "j < MAX_THREADS" and "is_ready s (threads s ! j)"
  shows "\<exists>k. 1 \<le> k \<and> k \<le> ahead s j \<and> pick_next s = threads s ! ((start_slot s + k) mod MAX_THREADS) \<and>
    is_ready s (threads s ! ((start_slot s + k) mod MAX_THREADS))"
proof -
  let ?P = "\<lambda>step. is_ready s (threads s ! ((start_slot s + step) mod MAX_THREADS))"
  have a: "?P (ahead s j)" "1 \<le> ahead s j" "ahead s j \<le> MAX_THREADS" using ahead_slot [OF assms(1), of s] assms(2) by auto
  then have "find ?P [1..<MAX_THREADS + 1] \<noteq> None" by (auto simp: find_None_iff)
  then obtain k where k: "find ?P [1..<MAX_THREADS + 1] = Some k" by blast
  then obtain i where i: "i < MAX_THREADS" "k = i + 1" "\<forall>l < i. \<not> ?P (l + 1)" "?P k"
    by (auto simp: find_Some_iff simp del: upt_Suc)
  have "k \<le> ahead s j"
  proof (rule ccontr)
    assume "\<not> k \<le> ahead s j"
    then have "ahead s j - 1 < i" using i(2) a(2) by simp
    then show False using i(3) a(1,2) by (metis Suc_eq_plus1 Suc_pred' le_eq_less_or_eq not_one_le_zero less_one not_gr_zero)
  qed
  then show ?thesis using k i(2,4) by (intro exI [of _ k]) (simp add: pick_next_def del: upt_Suc)
qed

text \<open>No thread has overrun its stack.\<close>

definition guards_ok :: "sys \<Rightarrow> bool" where
  "guards_ok s \<longleftrightarrow> (\<forall>r. member r s \<longrightarrow> stack_base (tcb s r) \<noteq> 0 \<longrightarrow> rd32 (kmem (kh s)) (stack_base (tcb s r)) = STACK_GUARD)"

lemma switch_returns:
  assumes "table_ok s" and "guards_ok s" and "pick_next s = Some r"
  shows "\<exists>s'. switch_to (Some r) s = Some s'"
proof -
  obtain c where c: "current s = Some c" "member c s" using assms(1) by (auto simp: table_ok_def)
  then have "stack_base (tcb s c) = 0 \<or> rd32 (kmem (kh s)) (stack_base (tcb s c)) = STACK_GUARD"
    using assms(2) by (auto simp: guards_ok_def)
  then show ?thesis using c(1) by (auto simp: switch_to_def Let_def upd_tcb_def)
qed

lemma ahead_closer:
  fixes a j k M :: nat
  assumes "a < M" and "j < M" and "1 \<le> k" and "k < (if j \<le> a then j + M - a else j - a)"
    and "a' = (if a + k < M then a + k else a + k - M)"
  shows "(if j \<le> a' then j + M - a' else j - a') < (if j \<le> a then j + M - a else j - a)"
  using assms by auto

lemma yield_progress:
  assumes "sched_inv s" and "guards_ok s" and "j < MAX_THREADS" and "threads s ! j = Some r"
    and "tstate (tcb s r) = THREAD_READY"
  shows "\<exists>s'. sched_yield s = Some s' \<and> sched_inv s' \<and> guards_ok s' \<and> threads s' = threads s \<and>
    (current s' = Some r \<or> tstate (tcb s' r) = THREAD_READY \<and> ahead s' j < ahead s j)"
proof -
  define s1 where "s1 = s\<lparr>need_resched := False\<rparr>"
  note inv = sched_invD [OF assms(1)]
  have f1: "frame s s1" "current s1 = current s" "tcb s1 = tcb s" by (simp_all add: s1_def)
  have t1: "table_ok s1" using frame_table [OF f1(1) inv(1)] inv(1) f1(2) by (auto simp: table_ok_def)
  have st: "start_slot s1 = start_slot s" "ahead s1 j = ahead s j"
    by (simp_all add: s1_def start_slot_def ahead_def)
  have g1: "guards_ok s1" using assms(2) by (simp add: guards_ok_def s1_def member_def)
  obtain k q where k: "1 \<le> k" "k \<le> ahead s j" "pick_next s1 = Some q" "threads s ! ((start_slot s + k) mod MAX_THREADS) = Some q"
      "tstate (tcb s q) = THREAD_READY"
    using pick_next_first [of j s1] assms(3-5) st f1
    by (auto simp: is_ready_def s1_def split: option.splits)
  obtain s' where s': "switch_to (Some q) s1 = Some s'" using switch_returns [OF t1 g1 k(3)] by blast
  have y: "sched_yield s = Some s'" using s' k(3) inv(6) by (simp add: sched_yield_def s1_def)
  have d: "sched_inv s'" "frame s s'"
    using decide [OF assms(1) f1(1,2), of s'] inv(5) s' k(3) by (simp_all add: s1_def)
  have w: "current s' = Some q" using switch_run [OF t1] inv(5) s' k(3) by (simp add: s1_def)
  have g: "guards_ok s'" using assms(2) d(2) frame_member [OF d(2)] by (simp add: guards_ok_def frame_def)
  have th: "threads s' = threads s" using d(2) by (simp add: frame_def)
  have "tstate (tcb s' r) = THREAD_READY \<and> ahead s' j < ahead s j" if "q \<noteq> r"
  proof -
    obtain c where c: "current s = Some c" using inv(1) by (auto simp: table_ok_def)
    have "tstate (tcb s' r) = THREAD_READY"
      using switch_states [OF s', of c] c f1(2,3) that assms(5) by (auto split: if_splits)
    moreover have "start_slot s' = (start_slot s + k) mod MAX_THREADS"
      using start_slot_current [OF sched_invD(1) [OF d(1)], of "(start_slot s + k) mod MAX_THREADS" q] k(4) th w
      by (simp add: MAX_THREADS_def)
    moreover have "k \<noteq> ahead s j" using ahead_slot [OF assms(3), of s] k(4) assms(4) that by auto
    moreover have "(start_slot s + k) mod MAX_THREADS =
        (if start_slot s + k < MAX_THREADS then start_slot s + k else start_slot s + k - MAX_THREADS)"
    proof -
      have "start_slot s + k < 2 * MAX_THREADS" using k(2) ahead_slot [OF assms(3), of s] start_slot_less [of s] by linarith
      then show ?thesis by (auto simp: le_mod_geq)
    qed
    ultimately have "tstate (tcb s' r) = THREAD_READY" "k < ahead s j"
        "start_slot s' = (if start_slot s + k < MAX_THREADS then start_slot s + k else start_slot s + k - MAX_THREADS)"
      using k(2) by simp_all
    then show ?thesis
      using ahead_closer [OF start_slot_less [of s] assms(3) k(1)] unfolding ahead_def by blast
  qed
  then show ?thesis using y d(1) g th w by blast
qed

fun yields :: "nat \<Rightarrow> sys \<Rightarrow> sys option" where
  "yields 0 s = Some s"
| "yields (Suc k) s = Option.bind (sched_yield s) (yields k)"

text \<open>
  C29: round robin is fair: from every consistent state in which no stack guard is damaged, a ready thread becomes the
  current one after at most \<^verbatim>\<open>MAX_THREADS\<close> scheduling decisions, whatever the other threads are.
\<close>

theorem ready_thread_runs:
  assumes "sched_inv s" and "guards_ok s" and "member r s" and "tstate (tcb s r) = THREAD_READY"
  shows "\<exists>k \<le> MAX_THREADS. \<exists>s'. yields k s = Some s' \<and> current s' = Some r"
proof -
  obtain j where j: "j < MAX_THREADS" "threads s ! j = Some r"
    using assms(3) sched_invD(1) [OF assms(1)] by (auto simp: member_def table_ok_def in_set_conv_nth)
  have "\<exists>k \<le> n. \<exists>s'. yields k t = Some s' \<and> current s' = Some r"
    if "sched_inv t" "guards_ok t" "threads t ! j = Some r" "tstate (tcb t r) = THREAD_READY" "ahead t j \<le> n" for t n
    using that
  proof (induction n arbitrary: t)
    case 0
    then show ?case using ahead_slot [OF j(1), of t] by simp
  next
    case (Suc n)
    obtain t' where t': "sched_yield t = Some t'" "sched_inv t'" "guards_ok t'" "threads t' = threads t"
        "current t' = Some r \<or> tstate (tcb t' r) = THREAD_READY \<and> ahead t' j < ahead t j"
      using yield_progress [OF Suc.prems(1,2) j(1) Suc.prems(3,4)] by blast
    show ?case
    proof (cases "current t' = Some r")
      case True
      then show ?thesis using t'(1) by (intro exI [of _ 1]) simp
    next
      case False
      then obtain k s' where "k \<le> n" "yields k t' = Some s'" "current s' = Some r"
        using Suc.IH [OF t'(2,3)] t'(4,5) Suc.prems(3,5) by auto
      then show ?thesis using t'(1) by (intro exI [of _ "Suc k"]) simp
    qed
  qed
  then show ?thesis using assms j ahead_slot [OF j(1), of s] by blast
qed

text \<open>A state with one thread besides the boot thread, which is running.\<close>

definition worker_heap :: kheap where
  "worker_heap = sample_heap\<lparr>kmem := wr32 (HEAP_BASE + 136) STACK_GUARD (set_free (HEAP_BASE + 116) 0
     (fresh_block HEAP_BASE (HEAP_BASE + 116) 40000 (set_free HEAP_BASE 0 (set_free HEAP_BASE 1 (set_prev HEAP_BASE 0
       (set_next HEAP_BASE 0 (set_size HEAP_BASE 96 (set_magic HEAP_BASE BLOCK_MAGIC (\<lambda>_. 0)))))))))\<rparr>"

definition worker_cells :: "cell list" where
  "worker_cells = [\<lparr>at = HEAP_BASE, len = 96, is_free = False\<rparr>, \<lparr>at = HEAP_BASE + 116, len = 40000, is_free = False\<rparr>]"

lemma worker_live: "live_blocks worker_cells = {(HEAP_BASE + 20, 96), (HEAP_BASE + 136, 40000)}"
  by (auto simp: worker_cells_def HEADER_SIZE_def add.assoc)

lemma base_unat: "unat (HEAP_BASE + 116) = 0xD0000074" "unat (HEAP_BASE + 136) = 0xD0000088" "unat (HEAP_BASE + 65536) = 0xD0010000"
  by (simp_all add: HEAP_BASE_def KERNEL_HEAP_BASE_def)

lemma worker_heap_ok: "heap_ok worker_heap worker_cells"
proof -
  define m1 where "m1 = set_free HEAP_BASE 0 (set_free HEAP_BASE 1 (set_prev HEAP_BASE 0
       (set_next HEAP_BASE 0 (set_size HEAP_BASE 96 (set_magic HEAP_BASE BLOCK_MAGIC (\<lambda>_. 0))))))"
  let ?c = "\<lparr>at = HEAP_BASE, len = 96, is_free = False\<rparr>"
  have l1: "linked m1 0 HEAP_BASE ([] @ [?c]) HEAP_BASE 0"
    by (simp add: m1_def hdr_of_def blk_set hdr_base)
  have p1: "placed 0xD0000000 ([] @ [?c]) 0xD0000074" by (simp add: heap_limit)
  have a: "hdr_at (HEAP_BASE + 116)" by (simp add: hdr_at_def base_unat)
  define m2 where "m2 = fresh_block HEAP_BASE (HEAP_BASE + 116) 40000 m1"
  have l2: "linked m2 0 HEAP_BASE ([?c] @ [\<lparr>at = HEAP_BASE + 116, len = 40000, is_free = True\<rparr>]) (HEAP_BASE + 116) 0"
    using linked_fresh(1) [OF l1 p1 _ a, of 40000] by (simp add: base_unat m2_def)
  have p2: "placed 0xD0000000 ([?c] @ [\<lparr>at = HEAP_BASE + 116, len = 40000, is_free = True\<rparr>]) 0xD0010000"
    by (simp add: heap_limit base_unat)
  define m3 where "m3 = set_free (HEAP_BASE + 116) 0 m2"
  have l3: "linked m3 0 HEAP_BASE worker_cells (HEAP_BASE + 116) 0" "placed 0xD0000000 worker_cells 0xD0010000"
    using linked_set_free [OF l2 p2, where v = 0] p2 by (simp_all add: m3_def worker_cells_def)
  have e: "heap_end sample_heap = HEAP_BASE + 65536" "first_block sample_heap = HEAP_BASE" by (simp_all add: sample_heap_def)
  have ok: "heap_ok (sample_heap\<lparr>kmem := m3\<rparr>) worker_cells"
    using l3 by (auto simp: heap_ok_def e heap_limit base_unat word_le_nat_alt worker_cells_def)
  have "payload (HEAP_BASE + 136, 40000) x" if "wr32 (HEAP_BASE + 136) STACK_GUARD m3 x \<noteq> m3 x" for x
    using wr32_in_payload [OF that] by (simp add: base_unat)
  then show ?thesis
    using payload_write [OF ok, of "(HEAP_BASE + 136, 40000)" "wr32 (HEAP_BASE + 136) STACK_GUARD m3"] worker_live
    by (simp add: worker_heap_def m3_def m2_def m1_def)
qed

definition worker_sys :: sys where
  "worker_sys = boot_sys\<lparr>kh := worker_heap, running := True, next_tid := 2, current := Some (Heap_thread (HEAP_BASE + 20)),
     threads := Some Boot_thread # Some (Heap_thread (HEAP_BASE + 20)) # replicate 30 None,
     tcb := (\<lambda>_. zero_thread)(Heap_thread (HEAP_BASE + 20) :=
       zero_thread\<lparr>tid := 1, tstate := THREAD_RUNNING, stack_base := HEAP_BASE + 136, stack_size := STACK_SIZE\<rparr>)\<rparr>"

lemma worker_member: "member r worker_sys \<longleftrightarrow> r = Boot_thread \<or> r = Heap_thread (HEAP_BASE + 20)"
  by (auto simp: member_def worker_sys_def)

lemma worker_inv: "sched_inv worker_sys"
proof -
  have "table_ok worker_sys"
    using worker_member
    by (auto simp: table_ok_def worker_sys_def boot_sys_def MAX_THREADS_def EXIT_HISTORY_def nth_Cons' split: if_splits)
  moreover have "tid_ok worker_sys" "run_ok worker_sys"
    using worker_member by (auto simp: tid_ok_def run_ok_def pre_run_def) (auto simp: worker_sys_def zero_thread_def)
  moreover have "owns worker_sys (live_blocks worker_cells)"
    using worker_member by (auto simp: owns_def worker_live worker_sys_def STACK_SIZE_def word_le_nat_alt HEAP_BASE_def KERNEL_HEAP_BASE_def)
  then have "mem_ok worker_sys" using worker_heap_ok by (auto simp: mem_ok_def worker_sys_def zero_thread_def)
  ultimately show ?thesis by (simp add: sched_inv_def)
qed

lemma worker_guard: "guards_ok worker_sys"
  using worker_member by (auto simp: guards_ok_def) (auto simp: worker_sys_def zero_thread_def worker_heap_def)

theorem ready_thread_runs_witness:
  "sched_inv worker_sys \<and> guards_ok worker_sys \<and> member Boot_thread worker_sys \<and>
   tstate (tcb worker_sys Boot_thread) = THREAD_READY \<and> current worker_sys \<noteq> Some Boot_thread \<and>
   (\<exists>k \<le> MAX_THREADS. \<exists>s'. yields k worker_sys = Some s' \<and> current s' = Some Boot_thread)"
proof -
  have m: "member Boot_thread worker_sys" "tstate (tcb worker_sys Boot_thread) = THREAD_READY" "current worker_sys \<noteq> Some Boot_thread"
    using worker_member by (auto simp: worker_sys_def zero_thread_def)
  then show ?thesis using ready_thread_runs [OF worker_inv worker_guard m(1,2)] worker_inv worker_guard by blast
qed

section \<open>Exit codes\<close>

lemma find_thread_unique:
  assumes "table_ok s" and "tid_ok s" and "member r s"
  shows "find_thread (tid (tcb s r)) s = Some r"
proof -
  let ?P = "\<lambda>i. case threads s ! i of Some q \<Rightarrow> tid (tcb s q) = tid (tcb s r) | None \<Rightarrow> False"
  obtain j where j: "j < MAX_THREADS" "threads s ! j = Some r"
    using assms(1,3) by (auto simp: member_def table_ok_def in_set_conv_nth)
  then have "find ?P [0..<MAX_THREADS] \<noteq> None" by (auto simp: find_None_iff)
  then obtain i where i: "find ?P [0..<MAX_THREADS] = Some i" by blast
  then obtain q where "threads s ! i = Some q" using find_someD [OF i] by (auto split: option.splits)
  then have "find_thread (tid (tcb s r)) s = Some q" using i by (simp add: find_thread_def)
  moreover from find_threadD [OF this assms(1)] have "q = r" using assms(2,3) by (auto simp: tid_ok_def)
  ultimately show ?thesis by simp
qed

lemma find_thread_none:
  assumes "\<And>r. member r s \<Longrightarrow> tid (tcb s r) \<noteq> t" and "table_ok s"
  shows "find_thread t s = None"
  using find_threadD [of t s] assms by (metis not_None_eq)

lemma keep_ops [simp]:
  "exit_code (tcb (context_switch r e s) q) = exit_code (tcb s q)"
  "exit_history (fpu_save a s) = exit_history s" "exit_history (fpu_restore a s) = exit_history s"
  "exit_history (tss_set_kernel_stack e s) = exit_history s" "exit_history (upd_vm g s) = exit_history s"
  "exit_history (context_switch r e s) = exit_history s" "exit_history (upd_tcb r f s) = exit_history s"
  "exit_history (finish_process k th s) = exit_history s"
  by (auto simp: fpu_save_def fpu_restore_def tss_set_kernel_stack_def upd_vm_def context_switch_def upd_tcb_def
      finish_process_def upd_proc_def split: option.split)

lemma switch_keeps:
  assumes "switch_to nx s = Some s'"
  shows "exit_code (tcb s' q) = exit_code (tcb s q) \<and> exit_history s' = exit_history s"
  using assms by (auto simp: switch_to_def Let_def split: option.splits if_splits)

lemma exit_state:
  assumes "sched_inv s" and "current s = Some c" and "c \<noteq> Boot_thread" and "thread_exit code s = Some s'"
  shows "tstate (tcb s' c) = THREAD_ZOMBIE \<and> exit_code (tcb s' c) = code \<and>
    tid (tcb s' c) = tid (tcb s c) \<and> member c s' \<and> (tid (tcb s c), code) \<in> set (exit_history s') \<and>
    set (exit_history s') \<subseteq> insert (tid (tcb s c), code) (set (exit_history s))"
proof -
  note inv = sched_invD [OF assms(1)]
  define t2 where "t2 = upd_tcb c (\<lambda>t. t\<lparr>exit_code := code, tstate := THREAD_ZOMBIE\<rparr>) (finish_process code (tcb s c) s)"
  define t3 where "t3 = remember_exit (tid (tcb s c)) code t2"
  have p: "pick_next t3 \<noteq> Some c" "switch_to (pick_next t3) t3 = Some s'"
    using assms(2,4) by (auto simp: thread_exit_def Let_def t3_def t2_def split: if_splits)
  have c3: "current t3 = Some c" using assms(2) by (simp add: t3_def t2_def)
  obtain r where r: "pick_next t3 = Some r" using p(2) by (cases "pick_next t3") (auto simp: switch_to_def split: option.splits)
  have z: "tstate (tcb t3 c) = THREAD_ZOMBIE" "exit_code (tcb t3 c) = code" by (simp_all add: t3_def t2_def)
  have f: "frame s t3" unfolding t3_def t2_def
    by (rule frame_trans [OF frame_finish frame_trans [OF frame_upd_tcb frame_ops(7)]]) simp
  have sw: "frame t3 s'" "tstate (tcb s' c) = THREAD_ZOMBIE"
    using switch_states [OF p(2) [unfolded r] c3] p(1) r z(1) by auto
  have "exit_code (tcb s' c) = code" "exit_history s' = exit_history t3" using switch_keeps [OF p(2)] z(2) by simp_all
  moreover have "tid (tcb s' c) = tid (tcb s c)" "member c s'"
    using frame_trans [OF f sw(1)] frame_member [OF frame_trans [OF f sw(1)]] inv(1) assms(2) by (auto simp: frame_def table_ok_def)
  moreover have "exit_history t3 = (exit_history s)[exit_history_next s := (tid (tcb s c), code)]"
  proof -
    have "exit_history t2 = exit_history s" by (simp add: t2_def)
    moreover have "exit_history_next t2 = exit_history_next s"
      by (auto simp: t2_def finish_process_def upd_tcb_def upd_proc_def split: option.split)
    ultimately show ?thesis by (simp add: t3_def remember_exit_def)
  qed
  moreover have "exit_history_next s < length (exit_history s)" using inv(1) by (simp add: table_ok_def)
  ultimately show ?thesis using sw(2) by (auto simp: set_update_memI dest: set_update_subset_insert [THEN subsetD])
qed

lemma exit_returns:
  assumes "sched_inv s" and "guards_ok s" and "current s = Some c" and "c \<noteq> Boot_thread"
  shows "\<exists>s'. thread_exit code s = Some s'"
proof -
  note inv = sched_invD [OF assms(1)]
  define t2 where "t2 = upd_tcb c (\<lambda>t. t\<lparr>exit_code := code, tstate := THREAD_ZOMBIE\<rparr>) (finish_process code (tcb s c) s)"
  define t3 where "t3 = remember_exit (tid (tcb s c)) code t2"
  have f: "frame s t3" unfolding t3_def t2_def
    by (rule frame_trans [OF frame_finish frame_trans [OF frame_upd_tcb frame_ops(7)]]) simp
  have c3: "current t3 = Some c" "tstate (tcb t3 c) = THREAD_ZOMBIE" using assms(3) by (simp_all add: t3_def t2_def)
  have "member c s" using inv(1) assms(3) by (auto simp: table_ok_def)
  then have tt: "table_ok t3" using frame_table [OF f inv(1) c3(1)] by simp
  obtain r where r: "pick_next t3 = Some r" "tstate (tcb t3 r) = THREAD_READY \<or> current t3 = Some r \<and>
      tstate (tcb t3 r) = THREAD_RUNNING \<or> r = Boot_thread"
    using pick_next_cases [OF tt refl] by metis
  then have "r \<noteq> c" using c3 assms(4) by auto
  moreover have "guards_ok t3" using assms(2) f frame_member [OF f] by (simp add: guards_ok_def frame_def)
  then obtain s' where "switch_to (Some r) t3 = Some s'" using switch_returns [OF tt _ r(1)] by blast
  ultimately show ?thesis using r(1) assms(3) by (simp add: thread_exit_def Let_def t3_def t2_def)
qed

lemma reap_slots_keep:
  "reap_slots is s = Some s' \<Longrightarrow> tcb s' = tcb s \<and> exit_history s' = exit_history s \<and> (\<forall>r. member r s' \<longrightarrow> member r s)"
proof (induction "is" arbitrary: s)
  case (Cons i "is")
  then obtain s1 where s1: "reap_slot i s = Some s1" "reap_slots is s1 = Some s'" by (auto simp: bind_eq_Some_conv)
  have "member r s1 \<Longrightarrow> member r s" for r
    using s1(1) by (auto simp: reap_slot_def member_def bind_eq_Some_conv split: option.splits if_splits
        dest!: set_update_subset_insert [THEN subsetD])
  moreover have "tcb s1 = tcb s" "exit_history s1 = exit_history s"
    using s1(1) by (auto simp: reap_slot_def bind_eq_Some_conv split: option.splits if_splits)
  ultimately show ?case using Cons.IH [OF s1(2)] by auto
qed simp

lemma recall_unique:
  assumes "(t, code) \<in> set hist" and "set hist \<subseteq> insert (t, code) old" and "\<And>e. e \<in> old \<Longrightarrow> fst e \<noteq> t"
  shows "find (\<lambda>e. fst e = t) hist = Some (t, code)"
proof -
  have "find (\<lambda>e. fst e = t) hist \<noteq> None" using assms(1) by (auto simp: find_None_iff)
  then obtain e where e: "find (\<lambda>e. fst e = t) hist = Some e" by blast
  have "e = (t, code)" using find_someD [OF e] assms(2,3) by blast
  then show ?thesis using e by simp
qed

text \<open>
  joining a thread that has exited returns exactly its exit code, before as well as after the reaper has freed the
  thread.
\<close>

lemma exit_code_joined:
  assumes "sched_inv s" and "current s = Some c" and "c \<noteq> Boot_thread" and "thread_exit code s = Some s1"
    and "\<forall>e \<in> set (exit_history s). fst e \<noteq> tid (tcb s c)" and "s2 = s1 \<or> sched_reap s1 = Some s2"
  shows "\<exists>s3. thread_join_round (tid (tcb s c)) s2 = Some (Some code, s3)"
proof -
  have e: "tstate (tcb s1 c) = THREAD_ZOMBIE" "exit_code (tcb s1 c) = code" "tid (tcb s1 c) = tid (tcb s c)" "member c s1"
      "(tid (tcb s c), code) \<in> set (exit_history s1)"
      "set (exit_history s1) \<subseteq> insert (tid (tcb s c), code) (set (exit_history s))"
    using exit_state [OF assms(1-4)] by auto
  have i1: "sched_inv s1" using exit_inv [OF assms(1,4)] assms(2,3) by simp
  have i2: "sched_inv s2" using assms(6) reap_inv [OF i1] i1 by auto
  have k: "tcb s2 = tcb s1" "exit_history s2 = exit_history s1" "\<And>r. member r s2 \<Longrightarrow> member r s1"
    using assms(6) reap_slots_keep [of _ s1 s2] by (auto simp: sched_reap_def)
  show ?thesis
  proof (cases "member c s2")
    case True
    then have "find_thread (tid (tcb s c)) s2 = Some c"
      using find_thread_unique [of s2 c] sched_invD(1,2) [OF i2] k(1) e(3) by simp
    then show ?thesis using e k(1) by (simp add: thread_join_round_def)
  next
    case False
    have "find_thread (tid (tcb s c)) s2 = None"
      using sched_invD(2) [OF i1] e(3,4) k(1,3) False
      by (intro find_thread_none [OF _ sched_invD(1) [OF i2]]) (metis tid_ok_def)
    moreover have "recall_exit (tid (tcb s c)) s2 = Some code"
      using recall_unique [OF e(5,6)] assms(5) k(2) sched_invD(1) [OF i2] by (simp add: recall_exit_def table_ok_def)
    ultimately show ?thesis by (simp add: thread_join_round_def)
  qed
qed

text \<open>
  The fallback of \<^verbatim>\<open>pick_next\<close> ignores the state of the boot thread: if it sleeps while no other thread is ready, it is
  not switched away and \<^verbatim>\<open>thread_sleep_ms\<close> returns at once, with the current thread still marked sleeping.
\<close>

lemma boot_sleep_returns:
  fixes ms :: u32
  defines "s \<equiv> sched_init boot_sys"
  shows "\<exists>s'. thread_sleep_ms ms s = Some s' \<and> current s' = Some Boot_thread \<and> ticks s' = ticks s \<and>
    tstate (tcb s' Boot_thread) = THREAD_SLEEPING"
proof -
  define t where "t = upd_tcb Boot_thread (\<lambda>t. t\<lparr>wake_at_ms := timer_ms s + ucast ms, tstate := THREAD_SLEEPING\<rparr>) s"
  have c: "current s = Some Boot_thread" "running s" by (simp_all add: s_def sched_init_def)
  have f: "frame s t" unfolding t_def by (rule frame_upd_tcb) simp
  have m: "member r s \<longleftrightarrow> r = Boot_thread" for r
    by (auto simp: s_def member_def sched_init_def boot_sys_def Let_def MAX_THREADS_def numeral_eq_Suc)
  have inv: "table_ok s" using sched_invD(1) [OF init_inv [OF boot_before]] by (simp add: s_def)
  have tt: "table_ok t" using frame_table [OF f inv] c m by (simp add: t_def)
  have "pick_next t = Some Boot_thread"
    using pick_next_cases [OF tt refl] m frame_member [OF f] by metis
  then have "thread_sleep_ms ms s = Some t"
    using c by (simp add: thread_sleep_ms_def Let_def switch_to_def flip: t_def) (simp add: t_def)
  then show ?thesis using c by (auto simp: t_def) (simp add: upd_tcb_def)
qed

end
