(* ===== verification/UserMem.thy ===== *)
theory UserMem
  imports Paging
begin

text \<open>
  Copying into an address space that is not the current one, through the identity map: the loop of
  \<^verbatim>\<open>write_to_space\<close> in \<^verbatim>\<open>kernel/elf.c\<close> and of \<^verbatim>\<open>build_stack\<close> in \<^verbatim>\<open>kernel/proc.c\<close>.  The lemmas say what the copy does to the bytes
  every process sees.
\<close>

unbundle bit_operations_syntax

function copy_pages :: "space_ref \<Rightarrow> virt_addr \<Rightarrow> u8 list \<Rightarrow> vm \<Rightarrow> int \<times> vm" where
  "copy_pages sp dst bs v =
     (if bs = [] then (0, v)
      else let pa = vmm_translate_in sp dst v;
               offset = dst AND (PAGE_SIZE - 1);
               chunk = min (unat (PAGE_SIZE - offset)) (length bs)
           in if pa = 0 then (- 1, v)
              else copy_pages sp (dst + of_nat chunk) (drop chunk bs)
                     (v\<lparr>mem := write_bytes pa (take chunk bs) (mem v)\<rparr>))"
  by pat_completeness auto
termination
proof (relation "measure (\<lambda>(sp, d, bs, v). length bs)", goal_cases)
  case (2 sp dst bs v pa offset chunk)
  have "unat offset < 4096" by (simp add: 2(3) page_offset unat_take_bit)
  then have "0 < unat (PAGE_SIZE - offset)" by (simp add: unat_sub word_le_nat_alt PAGE_SIZE_def)
  then show ?case using 2 by auto
qed simp

declare copy_pages.simps [simp del]

section \<open>User bytes\<close>

text \<open>Where the processor finds a user byte, and the byte.\<close>

definition user_addr :: "u32 \<Rightarrow> virt_addr \<Rightarrow> phys_addr" where
  "user_addr e a = tbl e OR (a AND 0xFFF)"

definition user_byte :: "vm \<Rightarrow> space_ref \<Rightarrow> virt_addr \<Rightarrow> u8 option" where
  "user_byte v sp a = map_option (\<lambda>e. mem v (user_addr e a)) (walk v sp a)"

lemma low_bits: "a AND 0xFFF = take_bit 12 a" for a :: u32
  by (simp add: take_bit_eq_mask mask_eq_exp_minus_1)

lemma user_addr_unat: "unat (user_addr e a) = unat (tbl e) + unat a mod 4096"
proof -
  have "tbl e OR take_bit 12 a = tbl e + take_bit 12 a"
    by (rule disjunctive_add [symmetric]) (auto simp: tbl_mask bit_simps)
  moreover have "unat (tbl e) + unat a mod 4096 < 2 ^ 32"
    using tbl_aligned [of e] unat_lt2p [of "tbl e"] by (auto simp: dvd_def)
  ultimately show ?thesis
    unfolding user_addr_def low_bits by (simp add: unat_plus_if_size word_size unat_take_bit)
qed

lemma user_addr_page: "drop_bit 12 (user_addr e a) = drop_bit 12 (tbl e)"
  using tbl_aligned [of e] by (auto simp: word_unat_eq_iff u_simps user_addr_unat dvd_def)

lemma write_bytes_at:
  assumes "length bs < 2 ^ 32"
  shows "write_bytes a bs m x = (if unat (x - a) < length bs then bs ! unat (x - a) else m x)"
  using assms
proof (induction bs arbitrary: a m)
  case (Cons b bs)
  define m' where "m' = m(a := b)"
  have w: "x - (a + 1) = x - a - 1" by simp
  have IH: "write_bytes a (b # bs) m x = (if unat (x - a - 1) < length bs then bs ! unat (x - a - 1) else m' x)"
    using Cons.IH [of "a + 1" m', unfolded w] Cons.prems by (simp flip: m'_def)
  show ?case
  proof (cases "x = a")
    case True
    then show ?thesis using IH Cons.prems by (simp add: m'_def unsigned_minus_1_eq_mask mask_eq_exp_minus_1)
  next
    case False
    then have "x - a \<noteq> 0" by simp
    then have "unat (x - a - 1) = unat (x - a) - 1" "0 < unat (x - a)" by (simp_all add: unat_minus_one unat_gt_0)
    then show ?thesis using IH False by (auto simp: m'_def nth_Cons')
  qed
qed simp

text \<open>A write confined to the frame of a user page changes no table and no other frame.\<close>

lemma data_write:
  assumes "vm_iso v" and "user_page a" and "walk v sp a = Some e"
    and "\<And>x. drop_bit 12 x \<noteq> drop_bit 12 (tbl e) \<Longrightarrow> m x = mem v x"
  defines "v' \<equiv> v\<lparr>mem := m\<rparr>"
  shows "vm_iso v'" "walk v' = walk v" "table_frames v' = table_frames v"
proof -
  note iso = vm_isoD [OF assms(1)]
  have e: "in_use v (tbl e)" "tbl e \<notin> table_frames v" using iso(2) [OF assms(2,3)] by auto
  have same: "rd32 m (entry_addr t i) = rd32 (mem v) (entry_addr t i)" if "t \<in> table_frames v" "i < 1024" for t i
  proof (rule rd32_cong)
    fix k :: nat
    assume "k < 4"
    have t: "4096 dvd unat t" using in_use_aligned [OF table_frames_in_use [OF iso(1) that(1)]] .
    then have "drop_bit 12 (entry_addr t i + of_nat k) = drop_bit 12 t"
      using aligned4_page [OF entry_page(1) [OF t that(2)] \<open>k < 4\<close>] entry_page(2) [OF t that(2)] by simp
    then show "m (entry_addr t i + of_nat k) = mem v (entry_addr t i + of_nat k)"
      using page_eq [OF t in_use_aligned [OF e(1)]] e(2) that(1) assms(4) by metis
  qed
  have lv: "live v' = live v" by (simp add: v'_def live_def fun_eq_iff)
  have pde: "pde v' sp1 i = pde v sp1 i" if "live v sp1" "i < 1024" for sp1 i
    using same [OF table_framesI(1) [OF that(1)] that(2)] by (simp add: pde_def v'_def)
  have use: "in_use v' = in_use v" "spaces v' = spaces v" "phys v' = phys v" by (simp_all add: v'_def in_use_def fun_eq_iff)
  show tf: "table_frames v' = table_frames v"
    using lv pde use by (intro table_frames_cong) auto
  have ok: "vm_ok v'"
    unfolding vm_ok_def lv use using vm_okD [OF iso(1)] pde by auto
  have m: "mem v' = m" by (simp add: v'_def)
  show wk: "walk v' = walk v"
  proof (intro ext)
    fix sp1 b
    show "walk v' sp1 b = walk v sp1 b"
    proof (cases "live v sp1 \<and> present (pde v sp1 (dir_index b))")
      case True
      then show ?thesis
        using same [OF table_framesI(2) [of v sp1 "dir_index b"] table_index_less] pde [of sp1 "dir_index b"]
        by (simp add: walk_def lv m)
    next
      case False
      then show ?thesis using pde [of sp1 "dir_index b"] by (auto simp: walk_def lv)
    qed
  qed
  show "vm_iso v'" unfolding vm_iso_def wk tf use using ok iso(2,3) by blast
qed


lemma same_page_offset:
  fixes x y n :: nat
  assumes "x mod 4096 + n \<le> 4096" and "x \<le> y" and "y < x + n"
  shows "y div 4096 = x div 4096" and "y mod 4096 = x mod 4096 + (y - x)"
proof -
  have "y = x div 4096 * 4096 + (x mod 4096 + (y - x))" "x mod 4096 + (y - x) < 4096" using assms by auto
  then show "y div 4096 = x div 4096" "y mod 4096 = x mod 4096 + (y - x)"
    by (metis div_mult_self3 div_less add.right_neutral zero_neq_numeral, metis mod_mult_self3 mod_less)
qed

lemma chunk_write:
  assumes iso: "vm_iso v" and a: "user_page a" and w: "walk v sp a = Some e"
    and fit: "unat a mod 4096 + length bs \<le> 4096"
  defines "v' \<equiv> v\<lparr>mem := write_bytes (user_addr e a) bs (mem v)\<rparr>"
  shows "vm_iso v'" "walk v' = walk v" "table_frames v' = table_frames v"
    and "user_page b \<Longrightarrow> user_byte v' sp1 b =
      (if sp1 = sp \<and> unat a \<le> unat b \<and> unat b < unat a + length bs then Some (bs ! (unat b - unat a))
       else user_byte v sp1 b)"
proof -
  let ?pa = "user_addr e a"
  have len: "length bs < 2 ^ 32" using fit by simp
  have pa: "unat ?pa = unat (tbl e) + unat a mod 4096" by (rule user_addr_unat)
  have hit: "unat ?pa \<le> unat x \<and> unat x < unat ?pa + length bs \<and> unat (x - ?pa) = unat x - unat ?pa"
    if "unat (x - ?pa) < length bs" for x
  proof -
    have x: "x = ?pa + (x - ?pa)" by simp
    have "unat ?pa + unat (x - ?pa) < 2 ^ 32"
      using that fit pa tbl_aligned [of e] unat_lt2p [of "tbl e"] by (auto simp: dvd_def)
    then have "unat (?pa + (x - ?pa)) = unat ?pa + unat (x - ?pa)" by (simp only: unat_plus_if_size word_size) simp
    then have "unat x = unat ?pa + unat (x - ?pa)" by simp
    then show ?thesis using that by simp
  qed
  have page: "drop_bit 12 x = drop_bit 12 (tbl e)" if "unat (x - ?pa) < length bs" for x
    using hit [OF that] fit pa tbl_aligned [of e] by (auto simp: word_unat_eq_iff u_simps dvd_def)
  have out: "write_bytes ?pa bs (mem v) x = mem v x" if "drop_bit 12 x \<noteq> drop_bit 12 (tbl e)" for x
    using page [of x] that by (auto simp: write_bytes_at [OF len])
  show dw: "vm_iso v'" "walk v' = walk v" "table_frames v' = table_frames v"
    unfolding v'_def by (rule data_write [OF iso a w], erule out)+
  show "user_byte v' sp1 b = (if sp1 = sp \<and> unat a \<le> unat b \<and> unat b < unat a + length bs
    then Some (bs ! (unat b - unat a)) else user_byte v sp1 b)" if b: "user_page b"
  proof (cases "walk v sp1 b")
    case None
    then have "\<not> (sp1 = sp \<and> unat a \<le> unat b \<and> unat b < unat a + length bs)"
      using walk_page [of b a v sp] w same_page_offset(1) [OF fit, of "unat b"] by auto
    then show ?thesis using None by (simp add: user_byte_def dw)
  next
    case (Some e1)
    let ?x = "user_addr e1 b"
    have lhs: "user_byte v' sp1 b = Some (if unat (?x - ?pa) < length bs then bs ! unat (?x - ?pa) else mem v ?x)"
      using Some by (simp add: user_byte_def dw) (simp add: v'_def write_bytes_at [OF len])
    have in_range: "unat (?x - ?pa) = unat b - unat a" "sp1 = sp" "unat a \<le> unat b" if h: "unat (?x - ?pa) < length bs"
    proof -
      have "tbl e1 = tbl e"
        using page [OF h] page_eq [of "tbl e1" "tbl e"] by (simp add: user_addr_page)
      then have s: "sp1 = sp" "unat b div 4096 = unat a div 4096" using vm_isoD(3) [OF iso b a Some w] by auto
      have "unat ?x = unat (tbl e) + unat b mod 4096" by (simp add: user_addr_unat \<open>tbl e1 = tbl e\<close>)
      then have "unat a mod 4096 \<le> unat b mod 4096" "unat (?x - ?pa) = unat b mod 4096 - unat a mod 4096"
        using hit [OF h] pa by auto
      then show "unat (?x - ?pa) = unat b - unat a" "sp1 = sp" "unat a \<le> unat b"
        using s div_mult_mod_eq [of "unat a" 4096] div_mult_mod_eq [of "unat b" 4096] by linarith+
    qed
    have at: "unat (?x - ?pa) = unat b - unat a"
      if r: "sp1 = sp" "unat a \<le> unat b" "unat b < unat a + length bs"
    proof -
      note o = same_page_offset [OF fit r(2,3)]
      then have "e1 = e" using walk_page [of b a v sp] w Some r(1) by simp
      then have "unat ?x = unat ?pa + (unat b - unat a)" using o(2) by (simp add: user_addr_unat)
      then show ?thesis by (simp add: unat_sub_if_size)
    qed
    show ?thesis
    proof (cases "sp1 = sp \<and> unat a \<le> unat b \<and> unat b < unat a + length bs")
      case True
      then show ?thesis unfolding lhs using at by (simp add: less_diff_conv2)
    next
      case False
      then have "\<not> unat (?x - ?pa) < length bs" using in_range by auto
      then show ?thesis unfolding lhs using False Some by (simp only: user_byte_def option.map if_False)
    qed
  qed
qed

text \<open>Copying into a mapped user range succeeds and changes exactly the bytes of that range.\<close>

lemma copy_pages_spec:
  assumes "vm_iso v" and "unat USER_MIN \<le> unat dst" and "unat dst + length bs \<le> unat USER_MAX"
    and "\<And>a. unat dst \<le> unat a \<Longrightarrow> unat a < unat dst + length bs \<Longrightarrow> walk v sp a \<noteq> None"
  shows "\<exists>m. copy_pages sp dst bs v = (0, v\<lparr>mem := m\<rparr>) \<and> vm_iso (v\<lparr>mem := m\<rparr>) \<and> walk (v\<lparr>mem := m\<rparr>) = walk v \<and>
    table_frames (v\<lparr>mem := m\<rparr>) = table_frames v \<and>
    (\<forall>sp1 a. user_page a \<longrightarrow> user_byte (v\<lparr>mem := m\<rparr>) sp1 a =
       (if sp1 = sp \<and> unat dst \<le> unat a \<and> unat a < unat dst + length bs then Some (bs ! (unat a - unat dst))
        else user_byte v sp1 a))"
  using assms
proof (induction "length bs" arbitrary: dst bs v rule: less_induct)
  case less
  show ?case
  proof (cases "bs = []")
    case True
    then show ?thesis using less.prems by (intro exI [of _ "mem v"]) (auto simp: copy_pages.simps)
  next
    case False
    define n where "n = min (4096 - unat dst mod 4096) (length bs)"
    have n: "0 < n" "unat dst mod 4096 + n \<le> 4096" "n \<le> length bs" "length (take n bs) = n"
      using False by (auto simp: n_def less_imp_le)
    obtain e where e: "walk v sp dst = Some e" using less.prems(4) [of dst] False by auto
    have up: "user_page dst"
      using less.prems(2,3) False by (cases bs) (auto simp: user_page_def word_le_nat_alt word_less_nat_alt)
    have tr: "vmm_translate_in sp dst v = user_addr e dst"
      using translate_walk [OF vm_isoD(1) [OF less.prems(1)]] e by (simp add: user_addr_def)
    have nz: "user_addr e dst \<noteq> 0"
      using vm_isoD(2) [OF less.prems(1) up e] user_addr_unat [of e dst]
      by (auto simp: in_use_def word_unat_eq_iff)
    define m1 where "m1 = write_bytes (user_addr e dst) (take n bs) (mem v)"
    define v1 where "v1 = v\<lparr>mem := m1\<rparr>"
    have fit: "unat dst mod 4096 + length (take n bs) \<le> 4096" using n by simp
    note cw = chunk_write [OF less.prems(1) up e fit, folded m1_def, folded v1_def, unfolded n(4)]
    have ch: "min (unat (PAGE_SIZE - (dst AND (PAGE_SIZE - 1)))) (length bs) = n"
    proof -
      have "unat (dst AND (PAGE_SIZE - 1)) = unat dst mod 4096" by (simp add: page_offset unat_take_bit)
      then show ?thesis by (simp add: n_def unat_sub word_le_nat_alt PAGE_SIZE_def less_imp_le)
    qed
    have step: "copy_pages sp dst bs v = copy_pages sp (dst + of_nat n) (drop n bs) v1"
      using False nz by (subst copy_pages.simps) (simp add: tr ch Let_def v1_def m1_def)
    have ud: "unat (dst + of_nat n) = unat dst + n"
      using less.prems(3) n(3) by (simp add: unat_plus_if_size word_size unat_of_nat USER_MAX_def)
    have "\<exists>m. copy_pages sp (dst + of_nat n) (drop n bs) v1 = (0, v1\<lparr>mem := m\<rparr>) \<and> vm_iso (v1\<lparr>mem := m\<rparr>) \<and>
      walk (v1\<lparr>mem := m\<rparr>) = walk v1 \<and> table_frames (v1\<lparr>mem := m\<rparr>) = table_frames v1 \<and>
      (\<forall>sp1 a. user_page a \<longrightarrow> user_byte (v1\<lparr>mem := m\<rparr>) sp1 a =
        (if sp1 = sp \<and> unat (dst + of_nat n) \<le> unat a \<and> unat a < unat (dst + of_nat n) + length (drop n bs)
         then Some (drop n bs ! (unat a - unat (dst + of_nat n))) else user_byte v1 sp1 a))"
      using less.prems n cw by (intro less.hyps) (auto simp: ud)
    then obtain m where m: "copy_pages sp (dst + of_nat n) (drop n bs) v1 = (0, v1\<lparr>mem := m\<rparr>)"
      "vm_iso (v1\<lparr>mem := m\<rparr>)" "walk (v1\<lparr>mem := m\<rparr>) = walk v1" "table_frames (v1\<lparr>mem := m\<rparr>) = table_frames v1"
      and b: "\<And>sp1 a. user_page a \<Longrightarrow> user_byte (v1\<lparr>mem := m\<rparr>) sp1 a =
        (if sp1 = sp \<and> unat dst + n \<le> unat a \<and> unat a < unat dst + length bs
         then Some (bs ! (unat a - unat dst)) else user_byte v1 sp1 a)"
      using n(3) unfolding ud by (auto simp: nth_drop)
    have eq: "v1\<lparr>mem := m\<rparr> = v\<lparr>mem := m\<rparr>" by (simp add: v1_def)
    show ?thesis
      using m b cw n(3) unfolding step eq by (intro exI [of _ m]) (auto simp: not_le)
  qed
qed

section \<open>Changes confined to the user half of one address space\<close>

definition only_changes :: "space_ref \<Rightarrow> vm \<Rightarrow> vm \<Rightarrow> bool" where
  "only_changes sp v v' \<longleftrightarrow> vm_iso v' \<and> spaces v' = spaces v \<and>
     (\<forall>sp1 a. sp1 \<noteq> sp \<or> \<not> user_page a \<longrightarrow> walk v' sp1 a = walk v sp1 a) \<and>
     (\<forall>sp1 a. sp1 \<noteq> sp \<longrightarrow> user_page a \<longrightarrow> user_byte v' sp1 a = user_byte v sp1 a)"

lemma only_changes_refl: "vm_iso v \<Longrightarrow> only_changes sp v v"
  by (simp add: only_changes_def)

lemma only_changes_trans: "only_changes sp v v1 \<Longrightarrow> only_changes sp v1 v2 \<Longrightarrow> only_changes sp v v2"
  unfolding only_changes_def by auto

lemma keeps_user_byte:
  assumes "vm_iso v" and "keeps_data v v'" and "user_page a" and "walk v' sp a = walk v sp a"
  shows "user_byte v' sp a = user_byte v sp a"
proof (cases "walk v sp a")
  case (Some e)
  have "mem v' (user_addr e a) = mem v (user_addr e a)"
    using vm_isoD(2) [OF assms(1,3) Some] assms(2) user_addr_page [of e a] unfolding keeps_data_def by blast
  then show ?thesis using Some assms(4) by (simp add: user_byte_def)
qed (simp add: user_byte_def assms(4))

lemma fresh_user_byte:
  assumes "walk v sp a = Some e" and "fresh_entry v fl e"
  shows "user_byte v sp a = Some 0"
  using assms user_addr_page [of e a] unfolding fresh_entry_def user_byte_def by simp

text \<open>\<^verbatim>\<open>vmm_alloc_range\<close> with user flags, in terms of the bytes of the user half.\<close>

lemma user_range_page:
  assumes "unat USER_MIN \<le> unat start" and "unat start + unat sz \<le> unat USER_MAX"
    and "unat start div 4096 \<le> unat a div 4096" "unat a div 4096 < (unat start + unat sz + 4095) div 4096"
  shows "user_page a"
proof -
  have s: "0x40000 \<le> unat start div 4096" and e: "(unat start + unat sz + 4095) div 4096 \<le> 0xD0000"
    using assms(1,2) by (auto simp: USER_MIN_def USER_MAX_def less_eq_div_iff_mult_less_eq)
  have "0x40000000 \<le> unat a" "unat a < 0xD0000000" using assms(3,4) s e by (linarith, linarith)
  then show ?thesis by (simp add: user_page_def USER_MIN_def USER_MAX_def word_le_nat_alt word_less_nat_alt)
qed

lemma alloc_range_user:
  assumes iso: "vm_iso v" and fl: "flags AND PTE_USER \<noteq> 0" and al: "vmm_alloc_range sp start sz flags v = (r, v')"
    and rg: "unat USER_MIN \<le> unat start" "unat start + unat sz \<le> unat USER_MAX"
  shows "only_changes sp v v'" and "r = 0 \<or> r = - 1"
    and "r = 0 \<Longrightarrow> unat start \<le> unat a \<Longrightarrow> unat a < unat start + unat sz \<Longrightarrow> walk v' sp a \<noteq> None"
    and "walk v sp a = Some e \<Longrightarrow> walk v' sp a = Some e"
    and "walk v sp a = Some e \<Longrightarrow> user_page a \<Longrightarrow> user_byte v' sp a = user_byte v sp a"
    and "walk v sp a = None \<Longrightarrow> walk v' sp a = Some e \<Longrightarrow>
      unat start div 4096 \<le> unat a div 4096 \<and> unat a div 4096 < (unat start + unat sz + 4095) div 4096 \<and>
      e AND 0xFFF = (flags AND 0xFFF) OR PTE_PRESENT \<and> user_byte v' sp a = Some 0"
proof -
  note s = alloc_range_spec [OF iso fl al]
  have kd: "keeps_data v v'" and r: "r = 0 \<or> r = - 1"
    and up: "\<And>sp1 a e. walk v sp1 a = Some e \<Longrightarrow> walk v' sp1 a = Some e"
    and down: "\<And>sp1 a e. walk v sp1 a = None \<Longrightarrow> walk v' sp1 a = Some e \<Longrightarrow> sp1 = sp \<and>
      unat start div 4096 \<le> unat a div 4096 \<and> unat a div 4096 < (unat start + unat sz + 4095) div 4096 \<and>
      fresh_entry v' flags e"
    using s by (elim conjE disjE; simp)+
  show "r = 0 \<or> r = - 1" by (rule r)
  show "walk v sp a = Some e \<Longrightarrow> walk v' sp a = Some e" by (rule up)
  show "walk v sp a = Some e \<Longrightarrow> user_page a \<Longrightarrow> user_byte v' sp a = user_byte v sp a"
    using keeps_user_byte [OF iso kd] up by simp
  show "r = 0 \<Longrightarrow> unat start \<le> unat a \<Longrightarrow> unat a < unat start + unat sz \<Longrightarrow> walk v' sp a \<noteq> None"
    using s by auto
  show "walk v sp a = None \<Longrightarrow> walk v' sp a = Some e \<Longrightarrow>
      unat start div 4096 \<le> unat a div 4096 \<and> unat a div 4096 < (unat start + unat sz + 4095) div 4096 \<and>
      e AND 0xFFF = (flags AND 0xFFF) OR PTE_PRESENT \<and> user_byte v' sp a = Some 0"
    using down [of sp a e] fresh_user_byte [of v' sp a e flags] by (auto simp: fresh_entry_def)
  have same: "walk v' sp1 b = walk v sp1 b" if "sp1 \<noteq> sp \<or> \<not> user_page b" for sp1 b
    using up [of sp1 b] down [of sp1 b] that user_range_page [OF rg, of b]
    by (cases "walk v sp1 b"; cases "walk v' sp1 b") auto
  show "only_changes sp v v'"
    unfolding only_changes_def using s same keeps_user_byte [OF iso kd] by blast
qed

lemma copy_pages_user:
  assumes "vm_iso v" and "unat USER_MIN \<le> unat dst" and "unat dst + length bs \<le> unat USER_MAX"
    and "\<forall>a. unat dst \<le> unat a \<and> unat a < unat dst + length bs \<longrightarrow> walk v sp a \<noteq> None"
    and "copy_pages sp dst bs v = (r, v')"
  shows "r = 0" "only_changes sp v v'" "walk v' = walk v" "phys v' = phys v"
    "user_page a \<Longrightarrow> user_byte v' sp a =
       (if unat dst \<le> unat a \<and> unat a < unat dst + length bs then Some (bs ! (unat a - unat dst))
        else user_byte v sp a)"
  using copy_pages_spec [OF assms(1-3), of sp] assms(4,5) by (auto simp: only_changes_def)

section \<open>Changes confined to the kernel half\<close>

text \<open>The user half of every space is mapped as before, to the same bytes.\<close>

definition kernel_only :: "vm \<Rightarrow> vm \<Rightarrow> bool" where
  "kernel_only v v' \<longleftrightarrow> vm_iso v' \<and> spaces v' = spaces v \<and>
     (\<forall>sp a. user_page a \<longrightarrow> walk v' sp a = walk v sp a \<and> user_byte v' sp a = user_byte v sp a)"

lemma kernel_only_refl: "vm_iso v \<Longrightarrow> kernel_only v v"
  by (simp add: kernel_only_def)

lemma kernel_only_trans: "kernel_only v v1 \<Longrightarrow> kernel_only v1 v2 \<Longrightarrow> kernel_only v v2"
  unfolding kernel_only_def by auto

lemma kernel_onlyI:
  assumes iso: "vm_iso v" and ok: "vm_ok v'" and sp: "spaces v' = spaces v" and kd: "keeps_data v v'"
    and wk: "\<And>sp a. user_page a \<Longrightarrow> walk v' sp a = walk v sp a"
    and use: "\<And>a. in_use v a \<Longrightarrow> in_use v' a"
    and tf: "\<And>a. in_use v a \<Longrightarrow> a \<in> table_frames v' \<Longrightarrow> a \<in> table_frames v"
  shows "kernel_only v v'"
proof -
  note d = vm_isoD [OF iso]
  have "vm_iso v'"
    unfolding vm_iso_def
  proof (intro conjI allI impI)
    show "vm_ok v'" by (rule ok)
  next
    fix s a e assume "user_page a" "walk v' s a = Some e"
    then show "in_use v' (tbl e)" "tbl e \<notin> table_frames v'" using d(2) [of a s e] wk use tf by auto
  next
    fix s a e s' a' e'
    assume a: "user_page a" "user_page a'" "walk v' s a = Some e" "walk v' s' a' = Some e'" "tbl e = tbl e'"
    then show "s = s'" "unat a div 4096 = unat a' div 4096" using d(3) [of a a' s e s' e'] wk by simp_all
  qed
  then show ?thesis using sp wk keeps_user_byte [OF iso kd] by (simp add: kernel_only_def)
qed

lemma mapped_pages_only: "vm_iso v \<Longrightarrow> kernel_only v (v\<lparr>mapped_pages := k\<rparr>)"
proof -
  assume "vm_iso v"
  then have "vm_iso (v\<lparr>mapped_pages := k\<rparr>)" unfolding vm_iso_def vm_counter .
  then show ?thesis by (simp add: kernel_only_def user_byte_def)
qed

text \<open>Mapping a kernel page.\<close>

lemma kernel_map:
  assumes iso: "vm_iso v" and k: "\<not> user_page virt" and m: "vmm_map_in Kernel_space virt pa flags v = (r, v')"
    and fl: "flags AND PTE_USER = 0"
  shows "kernel_only v v'" and "in_use v a \<Longrightarrow> in_use v' a" and "in_use v a \<Longrightarrow> a \<in> table_frames v' \<Longrightarrow> a \<in> table_frames v"
    and "r < 0 \<Longrightarrow> r = - 1 \<and> v' = v"
proof -
  note ok = vm_isoD(1) [OF iso]
  let ?P = "kernel_only v v' \<and> (\<forall>a. in_use v a \<longrightarrow> in_use v' a \<and> (a \<in> table_frames v' \<longrightarrow> a \<in> table_frames v)) \<and>
    (r < 0 \<longrightarrow> r = - 1 \<and> v' = v)"
  have ?P
  proof (cases "live v Kernel_space \<and> virt AND (PAGE_SIZE - 1) = 0 \<and> pa AND (PAGE_SIZE - 1) = 0")
    case False
    then have "r = - 1 \<and> v' = v" using m fl by (auto simp: vmm_map_in_def live_def split: if_splits)
    then show ?thesis using kernel_only_refl [OF iso] by simp
  next
    case True
    obtain t v1 where tf: "table_for Kernel_space virt True (flags AND PTE_USER) v = (t, v1)" by fastforce
    note c = table_for_create [OF ok conjunct1 [OF True] tf]
    show ?thesis
    proof (cases "t = 0")
      case True': True
      then have "r = - 1 \<and> v' = v"
        using m fl tf True c(6) by (auto simp: vmm_map_in_def live_def split: if_splits)
      then show ?thesis using kernel_only_refl [OF iso] by simp
    next
      case False
      have p: "present (pde v1 Kernel_space (dir_index virt))" "tbl (pde v1 Kernel_space (dir_index virt)) = t"
        using c(5) [OF False] by auto
      have lv: "live v1 Kernel_space" using True c(3) by (simp add: live_def)
      define e where "e = pa OR (flags AND 0xFFF) OR PTE_PRESENT"
      define v2 where "v2 = v1\<lparr>mem := wr32 (entry_addr t (table_index virt)) e (mem v1)\<rparr>"
      define n where "n = (if present (rd32 (mem v1) (entry_addr t (table_index virt))) then mapped_pages v1 else mapped_pages v1 + 1)"
      have "v2\<lparr>mapped_pages := n\<rparr> = (if present (rd32 (mem v1) (entry_addr t (table_index virt))) then v2
          else (v1\<lparr>mapped_pages := mapped_pages v1 + 1\<rparr>)\<lparr>mem := wr32 (entry_addr t (table_index virt)) e (mem v1)\<rparr>)"
        by (simp add: n_def v2_def)
      then have v': "r = 0 \<and> v' = v2\<lparr>mapped_pages := n\<rparr>"
        using m fl tf True False unfolding vmm_map_in_def live_def Let_def by (auto simp: e_def v2_def split: if_splits)
      note we = write_entry [OF c(1) lv p(1), where e = e, unfolded p(2), folded v2_def]
      have user: "walk v2 sp a = walk v sp a" if "user_page a" for sp a
      proof -
        have "unat a div 4096 \<noteq> unat virt div 4096"
        proof
          assume "unat a div 4096 = unat virt div 4096"
          then have "user_page virt" using that page_cell [of a virt] kernel_dir_index [of a] kernel_dir_index [of virt] by simp
          with k show False by simp
        qed
        then show ?thesis using we(3) [of sp a] c(2) by simp
      qed
      have t: "t \<in> table_frames v1" using table_framesI(2) [OF lv dir_index_less p(1)] p(2) by simp
      have kd: "keeps_data v v2"
        using keeps_trans [OF c(9) writes_keeps [OF c(1) writes_entry [OF c(1) t table_index_less]] c(7,8)]
        by (simp add: v2_def)
      have use: "in_use v2 a = in_use v1 a" for a by (simp add: v2_def in_use_def)
      have ko: "kernel_only v v2"
        using c(3,7,8) we(4) use by (intro kernel_onlyI [OF iso we(1) _ kd user]) (simp_all add: v2_def)
      then have "kernel_only v v'" using conjunct2 [OF v'] mapped_pages_only [of v2 n] kernel_only_trans by (simp add: kernel_only_def)
      moreover have "in_use v' = in_use v2" "table_frames v' = table_frames v2" using v' by auto
      ultimately show ?thesis using c(7,8) we(4) use v' by auto
    qed
  qed
  then show "kernel_only v v'" "in_use v a \<Longrightarrow> in_use v' a" "in_use v a \<Longrightarrow> a \<in> table_frames v' \<Longrightarrow> a \<in> table_frames v"
    "r < 0 \<Longrightarrow> r = - 1 \<and> v' = v" by blast+
qed

text \<open>Taking a frame from the allocator and giving one back that is neither a table nor a user page.\<close>

lemma take_frame:
  assumes iso: "vm_iso v" and al: "pmm_alloc_frame (phys v) = (f, p)"
  shows "kernel_only v (v\<lparr>phys := p\<rparr>)"
    and "f \<noteq> 0 \<Longrightarrow> in_use (v\<lparr>phys := p\<rparr>) f \<and> f \<notin> table_frames (v\<lparr>phys := p\<rparr>) \<and> \<not> in_use v f"
proof -
  note ok = vm_isoD(1) [OF iso]
  have "kernel_only v (v\<lparr>phys := p\<rparr>) \<and> (f \<noteq> 0 \<longrightarrow> in_use (v\<lparr>phys := p\<rparr>) f \<and> f \<notin> table_frames (v\<lparr>phys := p\<rparr>) \<and> \<not> in_use v f)"
  proof (cases "f = 0")
    case True
    then have "p = phys v" using no_frame [OF ok] al by simp
    then show ?thesis using True kernel_only_refl [OF iso] by simp
  next
    case False
    let ?w = "v\<lparr>phys := p\<rparr>"
    have a: "pmm_ready p" "f \<in> avail (phys v)" "avail p = avail (phys v) - {f}" "managed p = managed (phys v)"
      using fa.alloc_some [OF vm_okD(1) [OF ok] al False] by blast+
    have use: "in_use ?w x \<longleftrightarrow> in_use v x \<or> x = f" for x
      using fresh_frame(4) [OF ok al False, of x] by (simp add: in_use_def)
    have nu: "\<not> in_use v f" using a(2) by (simp add: in_use_def)
    note vf = vm_frame [OF ok, of ?w]
    have v: "vm_ok ?w" "walk ?w = walk v" using vf a(1) use by auto
    have tf: "table_frames ?w = table_frames v"
      by (rule table_frames_cong) (auto simp: live_def pde_def)
    have "kernel_only v ?w"
      by (rule kernel_onlyI [OF iso v(1)]) (use v(2) tf use in \<open>auto simp: keeps_data_def\<close>)
    moreover have "f \<notin> table_frames ?w" using tf nu table_frames_in_use [OF ok] by auto
    ultimately show ?thesis using use nu by blast
  qed
  then show "kernel_only v (v\<lparr>phys := p\<rparr>)"
    "f \<noteq> 0 \<Longrightarrow> in_use (v\<lparr>phys := p\<rparr>) f \<and> f \<notin> table_frames (v\<lparr>phys := p\<rparr>) \<and> \<not> in_use v f" by blast+
qed

lemma give_frame:
  assumes iso: "vm_iso v" and f: "f \<notin> table_frames v" "f \<noteq> 0" and u: "\<And>sp a e. user_page a \<Longrightarrow> walk v sp a = Some e \<Longrightarrow> tbl e \<noteq> f"
  shows "kernel_only v (v\<lparr>phys := pmm_free_frame f (phys v)\<rparr>)"
proof -
  let ?w = "v\<lparr>phys := pmm_free_frame f (phys v)\<rparr>"
  note d = vm_isoD [OF iso] and r = release_frame_ok [OF vm_isoD(1) [OF iso] f]
  have "vm_iso ?w"
    unfolding vm_iso_def r(2,3) release_in_use(1) [OF vm_okD(1) [OF d(1)] f(2)] using r(1) d(2,3) u by blast
  then show ?thesis by (simp add: kernel_only_def r(2) user_byte_def)
qed

section \<open>Creating and destroying address spaces\<close>

lemma share_outside:
  assumes "4096 dvd unat (pd (spaces v sp))" and "\<forall>i \<in> set is. i < 1024" and "drop_bit 12 x \<noteq> drop_bit 12 (pd (spaces v sp))"
  shows "mem (fold (share_entry sp) is v) x = mem v x \<and> spaces (fold (share_entry sp) is v) = spaces v"
  using assms
proof (induction "is" arbitrary: v)
  case (Cons i "is")
  have s: "spaces (share_entry sp i v) = spaces v" by (simp add: share_entry_def)
  have "mem (share_entry sp i v) x = mem v x"
    using Cons.prems by (simp add: share_entry_def entry_write_bytes)
  then show ?case using Cons.IH [of "share_entry sp i v"] Cons.prems s by simp
qed simp

lemma create_user:
  assumes iso: "vm_iso v" and dead: "\<not> live v sp" and lk: "live v Kernel_space" and cr: "vmm_space_create sp v = (r, v')"
  shows "r = 0 \<or> r = - 1" and "vm_iso v'" and "r \<noteq> 0 \<Longrightarrow> v' = v"
    and "r = 0 \<Longrightarrow> live v' s \<longleftrightarrow> live v s \<or> s = sp" and "r = 0 \<Longrightarrow> pd_phys (spaces v' sp) = pd (spaces v' sp)"
    and "s \<noteq> sp \<Longrightarrow> spaces v' s = spaces v s"
    and "s \<noteq> sp \<Longrightarrow> walk v' s = walk v s" and "s \<noteq> sp \<Longrightarrow> user_page a \<Longrightarrow> user_byte v' s a = user_byte v s a"
    and "r = 0 \<Longrightarrow> user_page a \<Longrightarrow> walk v' sp a = None"
proof -
  obtain f p where al: "pmm_alloc_frame (phys v) = (f, p)" by fastforce
  note ok = vm_isoD(1) [OF iso]
  have main: "(r = 0 \<and> (\<forall>s. live v' s \<longleftrightarrow> live v s \<or> s = sp) \<and> pd_phys (spaces v' sp) = pd (spaces v' sp) \<and>
      (\<forall>a. user_page a \<longrightarrow> walk v' sp a = None) \<or> r = - 1 \<and> v' = v) \<and> vm_iso v' \<and> (\<forall>s. s \<noteq> sp \<longrightarrow> spaces v' s = spaces v s \<and> walk v' s = walk v s \<and>
      (\<forall>a. user_page a \<longrightarrow> user_byte v' s a = user_byte v s a))"
  proof (cases "f = 0")
    case True
    then have "p = phys v" using no_frame [OF ok] al by simp
    then show ?thesis using cr al True iso by (auto simp: vmm_space_create_def)
  next
    case False
    note c = space_create_spec [OF iso dead lk al False cr]
    define v2 where "v2 = set_space sp f (v\<lparr>phys := p, mem := zero_page f (mem v)\<rparr>)"
    have v': "v' = fold (share_entry sp) (map of_nat [0..<1024]) v2" using cr al False by (simp add: vmm_space_create_def v2_def)
    have fr: "f \<in> avail (phys v)" using fa.alloc_some [OF vm_okD(1) [OF ok] al False] by blast
    then have nu: "\<not> in_use v f" by (simp add: in_use_def)
    have fal: "4096 dvd unat f" using fresh_frame(4) [OF ok al False, of f] in_use_aligned by blast
    have sp2: "spaces v2 = (spaces v)(sp := \<lparr>pd = f, pd_phys = f\<rparr>)" by (simp add: v2_def set_space_def)
    have ix: "\<forall>i \<in> set (map of_nat [0..<1024]). i < (1024 :: u32)" using all_indices by blast
    have out: "mem v' x = mem v x" if "drop_bit 12 x \<noteq> drop_bit 12 f" for x
      using share_outside [of v2 sp "map of_nat [0..<1024]" x] ix that fal unfolding v' [symmetric]
      by (simp add: sp2) (simp add: v2_def set_space_def zero_page_def)
    have "spaces (fold (share_entry sp) is v2) = spaces v2" for "is" v2 by (induction "is" arbitrary: v2) (simp_all add: share_entry_def)
    then have sps: "spaces v' = spaces v2" unfolding v' .
    have kd: "keeps_data v v'"
      unfolding keeps_data_def
    proof (intro allI impI)
      fix g x assume g: "in_use v g" "drop_bit 12 x = drop_bit 12 g"
      have "drop_bit 12 g \<noteq> drop_bit 12 f" using g(1) nu fal in_use_aligned [OF g(1)] page_eq by metis
      then show "mem v' x = mem v x" using out g(2) by simp
    qed
    have ub: "user_byte v' s a = user_byte v s a" if "s \<noteq> sp" "user_page a" for s a
      using keeps_user_byte [OF iso kd that(2)] c(4) [OF that(1)] by simp
    have "spaces v' s = (if s = sp then \<lparr>pd = f, pd_phys = f\<rparr> else spaces v s)" for s by (simp add: sps sp2)
    then show ?thesis using c ub by auto
  qed
  show "r = 0 \<or> r = - 1" "vm_iso v'" "r \<noteq> 0 \<Longrightarrow> v' = v" "r = 0 \<Longrightarrow> live v' s \<longleftrightarrow> live v s \<or> s = sp"
    "r = 0 \<Longrightarrow> pd_phys (spaces v' sp) = pd (spaces v' sp)" "s \<noteq> sp \<Longrightarrow> spaces v' s = spaces v s"
    "s \<noteq> sp \<Longrightarrow> walk v' s = walk v s" "s \<noteq> sp \<Longrightarrow> user_page a \<Longrightarrow> user_byte v' s a = user_byte v s a"
    "r = 0 \<Longrightarrow> user_page a \<Longrightarrow> walk v' sp a = None"
    using main by auto
qed

lemma release_outside:
  assumes "4096 dvd unat (pd (spaces v sp))" and "\<forall>i \<in> set is. i < 1024" and "drop_bit 12 x \<noteq> drop_bit 12 (pd (spaces v sp))"
  shows "mem (fold (release_pde sp) is v) x = mem v x"
proof -
  have pt: "mem (fold (release_pte t) js v) = mem v \<and> spaces (fold (release_pte t) js v) = spaces v" for t js v
    by (induction js arbitrary: v) (simp_all add: release_pte_def Let_def)
  show ?thesis using assms
  proof (induction "is" arbitrary: v)
    case (Cons i "is")
    have s: "spaces (release_pde sp i v) = spaces v" by (simp add: release_pde_def Let_def pt)
    have "mem (release_pde sp i v) x = mem v x" using Cons.prems by (simp add: release_pde_def Let_def pt entry_write_bytes)
    then show ?case using Cons.IH [of "release_pde sp i v"] Cons.prems s by simp
  qed simp
qed

lemma destroy_user:
  assumes iso: "vm_iso v" and lv: "live v sp" and nk: "sp \<noteq> Kernel_space" and ph: "pd_phys (spaces v sp) = pd (spaces v sp)"
    and v': "v' = vmm_space_destroy sp v"
  shows "vm_iso v'" and "live v' s \<longleftrightarrow> live v s \<and> s \<noteq> sp" and "s \<noteq> sp \<Longrightarrow> spaces v' s = spaces v s"
    and "s \<noteq> sp \<Longrightarrow> walk v' s = walk v s"
    and "s \<noteq> sp \<Longrightarrow> user_page a \<Longrightarrow> user_byte v' s a = user_byte v s a"
proof -
  note d = space_destroy_spec [OF iso lv nk ph, folded v']
  then show "vm_iso v'" "s \<noteq> sp \<Longrightarrow> walk v' s = walk v s" by blast+
  let ?is = "map of_nat [unat USER_PDE_START..<unat USER_PDE_END] :: u32 list"
  define w where "w = fold (release_pde sp) ?is v"
  have pt: "spaces (fold (release_pte t) js v) = spaces v" for t js v
    by (induction js arbitrary: v) (simp_all add: release_pte_def Let_def)
  have pd: "spaces (fold (release_pde sp) js v) = spaces v" for js v
    by (induction js arbitrary: v) (simp_all add: release_pde_def Let_def pt)
  have sps: "spaces v' = (spaces v)(sp := \<lparr>pd = 0, pd_phys = 0\<rparr>)" "mem v' = mem w"
    using lv nk pd by (simp_all add: v' vmm_space_destroy_def Let_def live_def set_space_def w_def)
  show "live v' s \<longleftrightarrow> live v s \<and> s \<noteq> sp" "s \<noteq> sp \<Longrightarrow> spaces v' s = spaces v s" by (auto simp: live_def sps)
  note ok = vm_isoD(1) [OF iso]
  have use: "in_use v (pd (spaces v sp))" using vm_okD(2) [OF ok lv] .
  have ix: "\<forall>i \<in> set ?is. i < 1024"
    using user_indices by (auto simp: kernel_dir_index)
  have "writes_tables v v'"
    unfolding writes_tables_def sps(2) w_def
    using release_outside [OF in_use_aligned [OF use] ix] table_framesI(1) [OF lv] by auto
  from writes_keeps [OF ok this] have "keeps_data v v'" .
  then show "s \<noteq> sp \<Longrightarrow> user_page a \<Longrightarrow> user_byte v' s a = user_byte v s a"
    using keeps_user_byte [OF iso] d by metis
qed

end
