(* ===== verification/ByteLists.thy ===== *)
theory ByteLists
  imports SifarPrelude
begin

text \<open>
  Byte buffers as lists, for the parts of the kernel that take structures out of them and put them back: little-endian numbers in a
  buffer, and the replacement of a range of a buffer (a \<^verbatim>\<open>memcpy\<close> into its middle).
\<close>

unbundle bit_operations_syntax

definition le16 :: "u8 list \<Rightarrow> nat \<Rightarrow> u16" where
  "le16 b i = ucast (b ! i) OR push_bit 8 (ucast (b ! (i + 1)))"

definition le32 :: "u8 list \<Rightarrow> nat \<Rightarrow> u32" where
  "le32 b i = ucast (b ! i) OR push_bit 8 (ucast (b ! (i + 1))) OR push_bit 16 (ucast (b ! (i + 2))) OR
     push_bit 24 (ucast (b ! (i + 3)))"

definition le_bytes :: "u32 \<Rightarrow> u8 list" where
  "le_bytes v = [ucast v, ucast (drop_bit 8 v), ucast (drop_bit 16 v), ucast (drop_bit 24 v)]"

definition words_of :: "nat \<Rightarrow> u8 list \<Rightarrow> u32 list" where
  "words_of n b = map (\<lambda>k. le32 b (4 * k)) [0..<n]"

definition bytes_of :: "u32 list \<Rightarrow> u8 list" where
  "bytes_of ws = concat (map le_bytes ws)"

definition put_at :: "nat \<Rightarrow> u8 list \<Rightarrow> u8 list \<Rightarrow> u8 list" where
  "put_at i xs b = take i b @ xs @ drop (i + length xs) b"

section \<open>Ranges\<close>

lemma length_put_at [simp]: "i + length xs \<le> length b \<Longrightarrow> length (put_at i xs b) = length b"
  by (simp add: put_at_def)

lemma nth_put_at:
  "i + length xs \<le> length b \<Longrightarrow> k < length b \<Longrightarrow> put_at i xs b ! k = (if i \<le> k \<and> k < i + length xs then xs ! (k - i) else b ! k)"
  by (auto simp: put_at_def nth_append min_def)

lemma put_at_all [simp]: "length xs = length b \<Longrightarrow> put_at 0 xs b = xs"
  by (simp add: put_at_def)

section \<open>Numbers\<close>

lemma length_le_bytes [simp]: "length (le_bytes v) = 4"
  by (simp add: le_bytes_def)

lemma le32_cong: "(\<And>k. k < 4 \<Longrightarrow> a ! (i + k) = b ! (j + k)) \<Longrightarrow> le32 a i = le32 b j"
proof -
  assume h: "\<And>k. k < 4 \<Longrightarrow> a ! (i + k) = b ! (j + k)"
  show ?thesis using h [of 0] h [of 1] h [of 2] h [of 3] by (simp add: le32_def)
qed

lemma le32_bytes [simp]: "le32 (le_bytes v) 0 = v"
proof -
  have "le_bytes v ! 0 = ucast v" "le_bytes v ! (0 + 1) = ucast (drop_bit 8 v)" "le_bytes v ! (0 + 2) = ucast (drop_bit 16 v)"
    "le_bytes v ! (0 + 3) = ucast (drop_bit 24 v)"
    by (simp_all add: le_bytes_def)
  then have "le32 (le_bytes v) 0 = ucast (ucast v :: u8) OR push_bit 8 (ucast (ucast (drop_bit 8 v) :: u8)) OR
      push_bit 16 (ucast (ucast (drop_bit 16 v) :: u8)) OR push_bit 24 (ucast (ucast (drop_bit 24 v) :: u8))"
    by (simp only: le32_def)
  also have "\<dots> = v"
    apply (intro bit_word_eqI)
    apply (auto simp: bit_simps)
    subgoal for n by (cases "24 \<le> n") auto
    done
  finally show ?thesis .
qed

lemma le32_zeros [simp]: "i + 4 \<le> n \<Longrightarrow> le32 (replicate n 0) i = 0"
  by (simp add: le32_def)

lemma le32_put_at:
  assumes "4 * j + 4 \<le> length b" and "4 * k + 4 \<le> length b"
  shows "le32 (put_at (4 * j) (le_bytes v) b) (4 * k) = (if k = j then v else le32 b (4 * k))"
proof (cases "k = j")
  case True
  have "le32 (put_at (4 * j) (le_bytes v) b) (4 * k) = le32 (le_bytes v) 0"
    using assms True by (intro le32_cong) (simp add: nth_put_at)
  then show ?thesis using True by simp
next
  case False
  have "le32 (put_at (4 * j) (le_bytes v) b) (4 * k) = le32 b (4 * k)"
    using assms False by (intro le32_cong) (simp add: nth_put_at; arith)
  then show ?thesis using False by simp
qed

lemma length_bytes_of [simp]: "length (bytes_of ws) = 4 * length ws"
  by (induction ws) (simp_all add: bytes_of_def)

lemma nth_bytes_of: "k < length ws \<Longrightarrow> j < 4 \<Longrightarrow> bytes_of ws ! (4 * k + j) = le_bytes (ws ! k) ! j"
proof (induction ws arbitrary: k)
  case (Cons v ws)
  then show ?case by (cases k) (auto simp: bytes_of_def nth_append)
qed simp

lemma words_bytes [simp]: "n = length ws \<Longrightarrow> words_of n (bytes_of ws) = ws"
proof (intro nth_equalityI)
  fix k
  assume n: "n = length ws" and "k < length (words_of n (bytes_of ws))"
  then have k: "k < length ws" by (simp add: words_of_def)
  have "le32 (bytes_of ws) (4 * k) = le32 (le_bytes (ws ! k)) 0" using k by (intro le32_cong) (simp add: nth_bytes_of)
  then show "words_of n (bytes_of ws) ! k = ws ! k" using k n by (simp add: words_of_def)
qed (simp add: words_of_def)

lemma words_of_cong: "(\<And>k. k < 4 * n \<Longrightarrow> a ! k = b ! k) \<Longrightarrow> words_of n a = words_of n b"
  by (auto simp: words_of_def intro!: le32_cong)

lemma length_words_of [simp]: "length (words_of n b) = n"
  by (simp add: words_of_def)

text \<open>The contents of a file after a write at an offset inside it or at its end.\<close>

definition overwrite :: "nat \<Rightarrow> u8 list \<Rightarrow> u8 list \<Rightarrow> u8 list" where
  "overwrite off dat old = take off old @ dat @ drop (off + length dat) old"

end
