(* ===== verification/Elf.thy ===== *)
theory Elf
  imports UserMem ByteLists
begin

text \<open>
  \<^verbatim>\<open>kernel/elf.c\<close>: the loader of static ELF32 executables.  The image is the list of its
  bytes, at most \<open>2 ^ 32 - 1\<close> of them, so that \<^verbatim>\<open>size\<close> is its length as a 32-bit number; every read of it is
  checked, and a read outside it is the result \<open>None\<close>.  The image pointer and the pointers for the
  results are never null.
\<close>

unbundle bit_operations_syntax

section \<open>Headers\<close>

record elf32_ehdr =
  eh_magic :: u32
  eh_class :: u8
  eh_data :: u8
  eh_version :: u8
  eh_abi :: u8
  eh_type :: u16
  eh_machine :: u16
  eh_elf_version :: u32
  eh_entry :: u32
  eh_phoff :: u32
  eh_shoff :: u32
  eh_flags :: u32
  eh_ehsize :: u16
  eh_phentsize :: u16
  eh_phnum :: u16
  eh_shentsize :: u16
  eh_shnum :: u16
  eh_shstrndx :: u16

record elf32_phdr =
  ph_type :: u32
  ph_offset :: u32
  ph_vaddr :: u32
  ph_paddr :: u32
  ph_filesz :: u32
  ph_memsz :: u32
  ph_flags :: u32
  ph_align :: u32

definition ELF_MAGIC :: u32 where "ELF_MAGIC = 0x464C457F"
definition PT_LOAD :: u32 where "PT_LOAD = 1"
definition PF_X :: u32 where "PF_X = 1"
definition PF_W :: u32 where "PF_W = 2"
definition EHDR_SIZE :: u32 where "EHDR_SIZE = 52"
definition PHDR_SIZE :: u32 where "PHDR_SIZE = 32"
definition MAX_PROGRAM_HEADERS :: u16 where "MAX_PROGRAM_HEADERS = 64"

text \<open>The bytes \<open>off..<off + n\<close> of the image.\<close>

definition image_bytes :: "u8 list \<Rightarrow> nat \<Rightarrow> nat \<Rightarrow> u8 list option" where
  "image_bytes img off n = (if off + n \<le> length img then Some (take n (drop off img)) else None)"

definition read_ehdr :: "u8 list \<Rightarrow> elf32_ehdr option" where
  "read_ehdr img = map_option (\<lambda>b.
     \<lparr>eh_magic = le32 b 0, eh_class = b ! 4, eh_data = b ! 5, eh_version = b ! 6, eh_abi = b ! 7,
      eh_type = le16 b 16, eh_machine = le16 b 18, eh_elf_version = le32 b 20, eh_entry = le32 b 24,
      eh_phoff = le32 b 28, eh_shoff = le32 b 32, eh_flags = le32 b 36, eh_ehsize = le16 b 40,
      eh_phentsize = le16 b 42, eh_phnum = le16 b 44, eh_shentsize = le16 b 46, eh_shnum = le16 b 48,
      eh_shstrndx = le16 b 50\<rparr>) (image_bytes img 0 52)"

text \<open>\<^verbatim>\<open>(const struct elf32_phdr *)(image + header->phoff + (size_t)i * header->phentsize)\<close>.\<close>

definition read_phdr :: "elf32_ehdr \<Rightarrow> u8 list \<Rightarrow> nat \<Rightarrow> elf32_phdr option" where
  "read_phdr header img i = map_option (\<lambda>b.
     \<lparr>ph_type = le32 b 0, ph_offset = le32 b 4, ph_vaddr = le32 b 8, ph_paddr = le32 b 12, ph_filesz = le32 b 16,
      ph_memsz = le32 b 20, ph_flags = le32 b 24, ph_align = le32 b 28\<rparr>)
     (image_bytes img (unat (eh_phoff header) + i * unat (eh_phentsize header)) 32)"

definition range_within :: "u32 \<Rightarrow> u32 \<Rightarrow> u32 \<Rightarrow> bool" where
  "range_within offset len avl \<longleftrightarrow> offset \<le> avl \<and> len \<le> avl - offset"

definition header_ok :: "elf32_ehdr \<Rightarrow> u32 \<Rightarrow> bool" where
  "header_ok header sz =
     (if eh_magic header \<noteq> ELF_MAGIC then False
      else if eh_class header \<noteq> 1 \<or> eh_data header \<noteq> 1 \<or> eh_version header \<noteq> 1 then False
      else if eh_type header \<noteq> 2 \<or> eh_machine header \<noteq> 3 \<or> eh_elf_version header \<noteq> 1 then False
      else if ucast (eh_ehsize header) \<noteq> EHDR_SIZE then False
      else if ucast (eh_phentsize header) \<noteq> PHDR_SIZE then False
      else if eh_phnum header = 0 \<or> MAX_PROGRAM_HEADERS < eh_phnum header then False
      else range_within (eh_phoff header) (ucast (eh_phnum header) * PHDR_SIZE) sz)"

definition elf_is_valid :: "u8 list \<Rightarrow> bool option" where
  "elf_is_valid img =
     (let sz = of_nat (length img) :: u32
      in if sz < EHDR_SIZE then Some False
         else map_option (\<lambda>header. header_ok header sz) (read_ehdr img))"

section \<open>Loading\<close>

definition write_to_space :: "space_ref \<Rightarrow> virt_addr \<Rightarrow> u8 list \<Rightarrow> vm \<Rightarrow> int \<times> vm" where
  "write_to_space sp dst src v = copy_pages sp dst src v"

definition loadable :: "elf32_phdr \<Rightarrow> bool" where
  "loadable p \<longleftrightarrow> \<not> (ph_type p \<noteq> PT_LOAD \<or> ph_memsz p = 0)"

fun overlap_loop :: "elf32_ehdr \<Rightarrow> u8 list \<Rightarrow> virt_addr \<Rightarrow> virt_addr \<Rightarrow> nat list \<Rightarrow> bool option" where
  "overlap_loop header img start en [] = Some False"
| "overlap_loop header img start en (j # js) =
     (case read_phdr header img j of
        None \<Rightarrow> None
      | Some other \<Rightarrow>
          if \<not> loadable other then overlap_loop header img start en js
          else
            let other_start = ALIGN_DOWN (ph_vaddr other) PAGE_SIZE;
                other_end = ALIGN_UP (ph_vaddr other + ph_memsz other) PAGE_SIZE
            in if start < other_end \<and> other_start < en then Some True
               else overlap_loop header img start en js)"

definition load_pages_overlap :: "elf32_ehdr \<Rightarrow> u8 list \<Rightarrow> nat \<Rightarrow> bool option" where
  "load_pages_overlap header img cur =
     (case read_phdr header img cur of
        None \<Rightarrow> None
      | Some segment \<Rightarrow>
          overlap_loop header img (ALIGN_DOWN (ph_vaddr segment) PAGE_SIZE)
            (ALIGN_UP (ph_vaddr segment + ph_memsz segment) PAGE_SIZE) [0..<cur])"

text \<open>The checks of one segment before anything is mapped, in the order of the code.\<close>

definition segment_ok :: "elf32_phdr \<Rightarrow> u32 \<Rightarrow> bool" where
  "segment_ok p sz =
     (if ph_memsz p < ph_filesz p \<or> \<not> range_within (ph_offset p) (ph_filesz p) sz then False
      else if ph_vaddr p < USER_MIN \<or> USER_MAX \<le> ph_vaddr p \<or> USER_MAX - ph_vaddr p < ph_memsz p then False
      else
        let en = ph_vaddr p + ph_memsz p
        in if en \<le> ph_vaddr p \<or> USER_MAX < en then False
           else if ph_flags p AND (PF_W OR PF_X) = PF_W OR PF_X then False
           else if ph_align p \<noteq> 0 \<and> ph_align p AND (ph_align p - 1) \<noteq> 0 then False
           else if 1 < ph_align p \<and> (ph_vaddr p - ph_offset p) AND (ph_align p - 1) \<noteq> 0 then False
           else True)"

text \<open>The local variables of \<^verbatim>\<open>elf_load\<close> and the state it changes.\<close>

record loading =
  ld_vm :: vm
  highest :: u32
  entry_executable :: bool
  load_segments :: int

definition segment_pte :: "elf32_phdr \<Rightarrow> u32" where
  "segment_pte p = PTE_PRESENT OR PTE_USER OR (if ph_flags p AND PF_W \<noteq> 0 then PTE_WRITE else 0)"

text \<open>One round of the loop; the number is negative where the code returns.\<close>

definition load_segment :: "elf32_ehdr \<Rightarrow> u8 list \<Rightarrow> space_ref \<Rightarrow> nat \<Rightarrow> loading \<Rightarrow> (int \<times> loading) option" where
  "load_segment header img sp i s =
     (case read_phdr header img i of
        None \<Rightarrow> None
      | Some p \<Rightarrow>
          if \<not> loadable p then Some (0, s)
          else
            let s1 = s\<lparr>load_segments := load_segments s + 1\<rparr>
            in if \<not> segment_ok p (of_nat (length img)) then Some (- 1, s1)
               else
                 (case load_pages_overlap header img i of
                    None \<Rightarrow> None
                  | Some True \<Rightarrow> Some (- 1, s1)
                  | Some False \<Rightarrow>
                      (case vmm_alloc_range sp (ph_vaddr p) (ph_memsz p) (segment_pte p) (ld_vm s1) of (r, v1) \<Rightarrow>
                         if r < 0 then Some (- 1, s1\<lparr>ld_vm := v1\<rparr>)
                         else
                           (case image_bytes img (unat (ph_offset p)) (unat (ph_filesz p)) of
                              None \<Rightarrow> None
                            | Some bs \<Rightarrow>
                                (case if ph_filesz p \<noteq> 0 then write_to_space sp (ph_vaddr p) bs v1 else (0, v1)
                                 of (r2, v2) \<Rightarrow>
                                   let en = ph_vaddr p + ph_memsz p
                                   in if r2 < 0 then Some (- 1, s1\<lparr>ld_vm := v2\<rparr>)
                                      else Some (0, s1\<lparr>ld_vm := v2,
                                        entry_executable :=
                                          (if ph_vaddr p \<le> eh_entry header \<and> eh_entry header < en \<and> ph_flags p AND PF_X \<noteq> 0
                                           then True else entry_executable s1),
                                        highest := (if highest s1 < en then en else highest s1)\<rparr>))))))"

fun load_loop :: "elf32_ehdr \<Rightarrow> u8 list \<Rightarrow> space_ref \<Rightarrow> nat list \<Rightarrow> loading \<Rightarrow> (int \<times> loading) option" where
  "load_loop header img sp [] s = Some (0, s)"
| "load_loop header img sp (i # is) s =
     (case load_segment header img sp i s of
        None \<Rightarrow> None
      | Some (r, s1) \<Rightarrow> if r < 0 then Some (r, s1) else load_loop header img sp is s1)"

text \<open>The result is the return value, \<^verbatim>\<open>*entry\<close> and \<^verbatim>\<open>*break_start\<close>; the latter are only set on success.\<close>

definition elf_load :: "space_ref \<Rightarrow> u8 list \<Rightarrow> vm \<Rightarrow> ((int \<times> virt_addr \<times> virt_addr) \<times> vm) option" where
  "elf_load sp img v =
     (case elf_is_valid img of
        None \<Rightarrow> None
      | Some False \<Rightarrow> Some ((- 1, 0, 0), v)
      | Some True \<Rightarrow>
          (case read_ehdr img of
             None \<Rightarrow> None
           | Some header \<Rightarrow>
               (case load_loop header img sp [0..<unat (eh_phnum header)]
                       \<lparr>ld_vm = v, highest = 0, entry_executable = False, load_segments = 0\<rparr> of
                  None \<Rightarrow> None
                | Some (r, s) \<Rightarrow>
                    if r < 0 then Some ((- 1, 0, 0), ld_vm s)
                    else if load_segments s = 0 \<or> highest s = 0 \<or> \<not> entry_executable s then Some ((- 1, 0, 0), ld_vm s)
                    else Some ((0, eh_entry header, ALIGN_UP (highest s) PAGE_SIZE), ld_vm s))))"

section \<open>Bounds\<close>

lemma range_within_iff: "range_within offset len avl \<longleftrightarrow> unat offset + unat len \<le> unat avl"
  by (cases "offset \<le> avl") (auto simp: range_within_def word_le_nat_alt unat_minus_simple)

lemma image_len: "length img < 2 ^ 32 \<Longrightarrow> unat (of_nat (length img) :: u32) = length img"
  by (simp add: unat_of_nat)

definition well_formed :: "elf32_ehdr \<Rightarrow> u8 list \<Rightarrow> bool" where
  "well_formed h img \<longleftrightarrow> length img < 2 ^ 32 \<and> read_ehdr img = Some h \<and> unat (eh_phentsize h) = 32 \<and>
     unat (eh_phoff h) + 32 * unat (eh_phnum h) \<le> length img"

lemma ucast16: "unat (ucast w :: u32) = unat w" for w :: u16
  using unat_lt2p [of w] by (intro unat_ucast_small) simp

lemma valid_total:
  assumes "length img < 2 ^ 32"
  shows "\<exists>b. elf_is_valid img = Some b \<and> (b \<longrightarrow> (\<exists>h. well_formed h img))"
proof (cases "length img < 52")
  case True
  then show ?thesis
    using image_len [OF assms] by (auto simp: elf_is_valid_def EHDR_SIZE_def word_less_nat_alt)
next
  case False
  then obtain h where h: "read_ehdr img = Some h" by (auto simp: read_ehdr_def image_bytes_def)
  have "well_formed h img" if ok: "header_ok h (of_nat (length img))"
  proof -
    have pe: "ucast (eh_phentsize h) = PHDR_SIZE" and pn: "eh_phnum h \<le> 64"
      and rw: "range_within (eh_phoff h) (ucast (eh_phnum h) * PHDR_SIZE) (of_nat (length img))"
      using ok by (auto simp: header_ok_def MAX_PROGRAM_HEADERS_def split: if_splits)
    have "unat (eh_phentsize h) = 32"
      using arg_cong [OF pe, of unat] by (simp add: ucast16 PHDR_SIZE_def)
    moreover have "unat (ucast (eh_phnum h) * PHDR_SIZE :: u32) = 32 * unat (eh_phnum h)"
      using pn by (simp add: ucast16 PHDR_SIZE_def unat_word_ariths word_le_nat_alt)
    ultimately show ?thesis
      using rw h assms image_len [OF assms] by (simp add: well_formed_def range_within_iff)
  qed
  moreover have "elf_is_valid img = Some (header_ok h (of_nat (length img)))"
    using False h image_len [OF assms] by (simp add: elf_is_valid_def EHDR_SIZE_def word_less_nat_alt)
  ultimately show ?thesis by blast
qed

lemma phdr_readable:
  assumes "well_formed h img" and "i < unat (eh_phnum h)"
  shows "\<exists>p. read_phdr h img i = Some p"
proof -
  have "unat (eh_phoff h) + i * 32 + 32 \<le> length img"
    using assms by (auto simp: well_formed_def)
  then show ?thesis using assms(1) by (simp add: read_phdr_def image_bytes_def well_formed_def)
qed

lemma segment_okD:
  assumes "segment_ok p (of_nat (length img))" and "length img < 2 ^ 32"
  shows "unat (ph_filesz p) \<le> unat (ph_memsz p)" "unat (ph_offset p) + unat (ph_filesz p) \<le> length img"
    and "unat USER_MIN \<le> unat (ph_vaddr p)" "unat (ph_vaddr p) + unat (ph_memsz p) \<le> unat USER_MAX"
    and "unat (ph_vaddr p + ph_memsz p) = unat (ph_vaddr p) + unat (ph_memsz p)"
    and "\<not> (ph_flags p AND PF_W \<noteq> 0 \<and> ph_flags p AND PF_X \<noteq> 0)"
proof -
  have c: "\<not> ph_memsz p < ph_filesz p" "range_within (ph_offset p) (ph_filesz p) (of_nat (length img))"
    "\<not> ph_vaddr p < USER_MIN" "\<not> USER_MAX \<le> ph_vaddr p" "\<not> USER_MAX - ph_vaddr p < ph_memsz p"
    "ph_flags p AND (PF_W OR PF_X) \<noteq> PF_W OR PF_X"
    using assms(1) by (auto simp: segment_ok_def Let_def split: if_splits)
  show "unat (ph_filesz p) \<le> unat (ph_memsz p)" "unat (ph_offset p) + unat (ph_filesz p) \<le> length img"
    using c(1,2) image_len [OF assms(2)] by (simp_all add: range_within_iff word_less_nat_alt)
  show "unat USER_MIN \<le> unat (ph_vaddr p)" using c(3) by (simp add: word_less_nat_alt)
  show le: "unat (ph_vaddr p) + unat (ph_memsz p) \<le> unat USER_MAX"
    using c(4,5) by (simp add: word_less_nat_alt word_le_nat_alt unat_minus_simple)
  then show "unat (ph_vaddr p + ph_memsz p) = unat (ph_vaddr p) + unat (ph_memsz p)"
    by (intro unat_plus_simple) (simp add: USER_MAX_def)
  show "\<not> (ph_flags p AND PF_W \<noteq> 0 \<and> ph_flags p AND PF_X \<noteq> 0)"
  proof
    assume a: "ph_flags p AND PF_W \<noteq> 0 \<and> ph_flags p AND PF_X \<noteq> 0"
    have w: "bit (ph_flags p) 1" using a and_exp_eq_0_iff_not_bit [of "ph_flags p" 1] by (simp add: PF_W_def)
    have x: "bit (ph_flags p) 0" using a and_exp_eq_0_iff_not_bit [of "ph_flags p" 0] by (simp add: PF_X_def)
    have b: "bit PF_W n \<longleftrightarrow> n = 1" "bit PF_X n \<longleftrightarrow> n = 0" for n
      using bit_push_bit_iff [of 1 "1 :: u32" n] by (auto simp: push_bit_of_1 bit_1_iff PF_W_def PF_X_def)
    have "ph_flags p AND PF_W = PF_W" "ph_flags p AND PF_X = PF_X"
      by (rule bit_word_eqI, simp only: bit_and_iff b, use w x in blast)+
    then have "ph_flags p AND (PF_W OR PF_X) = PF_W OR PF_X" by (simp only: bit.conj_disj_distrib)
    with c(6) show False by simp
  qed
qed

text \<open>The pages a segment touches.\<close>

definition seg_pages :: "elf32_phdr \<Rightarrow> nat set" where
  "seg_pages p = {unat (ph_vaddr p) div 4096..<(unat (ph_vaddr p) + unat (ph_memsz p) + 4095) div 4096}"

lemma overlap_total:
  assumes "well_formed h img" and "\<forall>j \<in> set js. j < unat (eh_phnum h)"
  shows "overlap_loop h img st en js \<noteq> None"
  using assms(2)
proof (induction js)
  case (Cons j js)
  then obtain p where "read_phdr h img j = Some p" using phdr_readable [OF assms(1)] by auto
  then show ?case using Cons by (auto simp: Let_def)
qed simp

lemma overlap_none:
  assumes "overlap_loop h img st en js = Some False" and "j \<in> set js" and "read_phdr h img j = Some q" and "loadable q"
  shows "\<not> (st < ALIGN_UP (ph_vaddr q + ph_memsz q) PAGE_SIZE \<and> ALIGN_DOWN (ph_vaddr q) PAGE_SIZE < en)"
  using assms by (induction js) (auto simp: Let_def split: option.splits if_splits)

lemma no_overlap_disjoint:
  assumes "length img < 2 ^ 32" "segment_ok p (of_nat (length img))" "segment_ok q (of_nat (length img))"
    and "\<not> (ALIGN_DOWN (ph_vaddr p) PAGE_SIZE < ALIGN_UP (ph_vaddr q + ph_memsz q) PAGE_SIZE \<and>
      ALIGN_DOWN (ph_vaddr q) PAGE_SIZE < ALIGN_UP (ph_vaddr p + ph_memsz p) PAGE_SIZE)"
  shows "seg_pages p \<inter> seg_pages q = {}"
proof -
  note pq = segment_okD [OF assms(2,1)] segment_okD [OF assms(3,1)]
  have u: "unat (ALIGN_UP (ph_vaddr p + ph_memsz p) PAGE_SIZE) = (unat (ph_vaddr p) + unat (ph_memsz p) + 4095) div 4096 * 4096"
    "unat (ALIGN_UP (ph_vaddr q + ph_memsz q) PAGE_SIZE) = (unat (ph_vaddr q) + unat (ph_memsz q) + 4095) div 4096 * 4096"
    using pq(4,5,10,11) by (simp_all add: align_up_page USER_MAX_def)
  show ?thesis
    using assms(4) unfolding word_less_nat_alt u align_down_page seg_pages_def by auto
qed

section \<open>One segment\<close>

text \<open>The byte the loader must put at an address of a segment.\<close>

definition seg_byte :: "u8 list \<Rightarrow> elf32_phdr \<Rightarrow> virt_addr \<Rightarrow> u8" where
  "seg_byte img p a =
     (let k = unat a - unat (ph_vaddr p) in if k < unat (ph_filesz p) then img ! (unat (ph_offset p) + k) else 0)"

definition in_segment :: "elf32_phdr \<Rightarrow> virt_addr \<Rightarrow> bool" where
  "in_segment p a \<longleftrightarrow> unat (ph_vaddr p) \<le> unat a \<and> unat a < unat (ph_vaddr p) + unat (ph_memsz p)"

lemma in_segment_page: "in_segment p a \<Longrightarrow> unat a div 4096 \<in> seg_pages p"
  by (auto simp: in_segment_def seg_pages_def div_le_mono)

lemma segment_pte_flags: "segment_pte p AND PTE_USER \<noteq> 0" "(segment_pte p AND 0xFFF) OR PTE_PRESENT = segment_pte p"
  by (simp_all add: segment_pte_def PTE_PRESENT_def PTE_USER_def PTE_WRITE_def)

lemma seg_user_page:
  assumes "segment_ok p (of_nat (length img))" and "length img < 2 ^ 32" and "unat a div 4096 \<in> seg_pages p"
  shows "user_page a"
  using user_range_page [OF segment_okD(3,4) [OF assms(1,2)]] assms(3) by (simp add: seg_pages_def)

text \<open>Mapping a segment and copying its file bytes: the part of the loop body after the checks.\<close>

lemma fill_segment:
  assumes iso: "vm_iso v" and len: "length img < 2 ^ 32" and ok: "segment_ok p (of_nat (length img))"
    and al: "vmm_alloc_range sp (ph_vaddr p) (ph_memsz p) (segment_pte p) v = (0, v1)"
    and cp: "copy_pages sp (ph_vaddr p) (take (unat (ph_filesz p)) (drop (unat (ph_offset p)) img)) v1 = (r, v')"
  shows "r = 0" and "only_changes sp v v'"
    and "walk v sp a = Some e \<Longrightarrow> walk v' sp a = Some e"
    and "in_segment p a \<Longrightarrow> walk v' sp a \<noteq> None"
    and "walk v sp a = Some e \<Longrightarrow> user_page a \<Longrightarrow> \<not> in_segment p a \<Longrightarrow> user_byte v' sp a = user_byte v sp a"
    and "walk v sp a = None \<Longrightarrow> walk v' sp a = Some e \<Longrightarrow> unat a div 4096 \<in> seg_pages p \<and>
      e AND 0xFFF = segment_pte p \<and> (in_segment p a \<longrightarrow> user_byte v' sp a = Some (seg_byte img p a))"
proof -
  note s = segment_okD [OF ok len]
  note ar = alloc_range_user [OF iso segment_pte_flags(1) al s(3,4)]
  let ?bs = "take (unat (ph_filesz p)) (drop (unat (ph_offset p)) img)"
  have lb: "length ?bs = unat (ph_filesz p)" using s(2) by simp
  have iso1: "vm_iso v1" using ar(1) by (simp add: only_changes_def)
  have le: "unat (ph_vaddr p) + length ?bs \<le> unat USER_MAX" using s(1,4) lb by simp
  have "\<forall>b. unat (ph_vaddr p) \<le> unat b \<and> unat b < unat (ph_vaddr p) + length ?bs \<longrightarrow> walk v1 sp b \<noteq> None"
    using ar(3) lb s(1) by simp
  note cu = copy_pages_user [OF iso1 s(3) le this cp, unfolded lb]
  show "r = 0" by (rule cu(1))
  show "only_changes sp v v'" by (rule only_changes_trans [OF ar(1) cu(2)])
  show "walk v sp a = Some e \<Longrightarrow> walk v' sp a = Some e" using ar(4) by (simp add: cu(3))
  show "in_segment p a \<Longrightarrow> walk v' sp a \<noteq> None" using ar(3) by (simp add: cu(3) in_segment_def)
  show "user_byte v' sp a = user_byte v sp a" if "walk v sp a = Some e" "user_page a" "\<not> in_segment p a"
    using ar(5) [OF that(1,2)] cu(5) [OF that(2)] that(3) s(1) by (auto simp: in_segment_def)
  show "unat a div 4096 \<in> seg_pages p \<and> e AND 0xFFF = segment_pte p \<and>
      (in_segment p a \<longrightarrow> user_byte v' sp a = Some (seg_byte img p a))"
    if "walk v sp a = None" "walk v' sp a = Some e"
  proof -
    have f: "unat a div 4096 \<in> seg_pages p" "e AND 0xFFF = segment_pte p" "user_byte v1 sp a = Some 0"
      using ar(6) [OF that(1)] that(2) by (auto simp: cu(3) seg_pages_def segment_pte_flags(2))
    have "user_byte v' sp a = Some (seg_byte img p a)" if "in_segment p a"
      using cu(5) [OF seg_user_page [OF ok len f(1)]] f(3) that s(2)
      by (auto simp: seg_byte_def Let_def in_segment_def less_diff_conv2 nth_drop)
    with f show ?thesis by blast
  qed
qed

text \<open>The outcomes of one round.\<close>

lemma load_segment_cases:
  assumes wf: "well_formed h img" and i: "i < unat (eh_phnum h)" and iso: "vm_iso (ld_vm s)"
  obtains (skip) p where "read_phdr h img i = Some p" "\<not> loadable p" "load_segment h img sp i s = Some (0, s)"
  | (err) s' where "load_segment h img sp i s = Some (- 1, s')" "only_changes sp (ld_vm s) (ld_vm s')"
  | (load) p v1 v' where "read_phdr h img i = Some p" "loadable p" "segment_ok p (of_nat (length img))"
      "overlap_loop h img (ALIGN_DOWN (ph_vaddr p) PAGE_SIZE) (ALIGN_UP (ph_vaddr p + ph_memsz p) PAGE_SIZE) [0..<i] = Some False"
      "vmm_alloc_range sp (ph_vaddr p) (ph_memsz p) (segment_pte p) (ld_vm s) = (0, v1)"
      "copy_pages sp (ph_vaddr p) (take (unat (ph_filesz p)) (drop (unat (ph_offset p)) img)) v1 = (0, v')"
      "load_segment h img sp i s = Some (0, s\<lparr>load_segments := load_segments s + 1, ld_vm := v',
         entry_executable := (if ph_vaddr p \<le> eh_entry h \<and> eh_entry h < ph_vaddr p + ph_memsz p \<and> ph_flags p AND PF_X \<noteq> 0
           then True else entry_executable s),
         highest := (if highest s < ph_vaddr p + ph_memsz p then ph_vaddr p + ph_memsz p else highest s)\<rparr>)"
proof -
  have len: "length img < 2 ^ 32" using wf by (simp add: well_formed_def)
  obtain p where p: "read_phdr h img i = Some p" using phdr_readable [OF wf i] by blast
  let ?s1 = "s\<lparr>load_segments := load_segments s + 1\<rparr>"
  obtain ov where ov: "load_pages_overlap h img i = Some ov"
    "overlap_loop h img (ALIGN_DOWN (ph_vaddr p) PAGE_SIZE) (ALIGN_UP (ph_vaddr p + ph_memsz p) PAGE_SIZE) [0..<i] = Some ov"
    using overlap_total [OF wf, of "[0..<i]"] i p by (fastforce simp: load_pages_overlap_def)
  obtain r1 v1 where al: "vmm_alloc_range sp (ph_vaddr p) (ph_memsz p) (segment_pte p) (ld_vm s) = (r1, v1)" by fastforce
  consider "\<not> loadable p" | "loadable p" "\<not> segment_ok p (of_nat (length img))"
    | "loadable p" "segment_ok p (of_nat (length img))" "ov" | "loadable p" "segment_ok p (of_nat (length img))" "\<not> ov"
    by blast
  then show thesis
  proof cases
    case 1
    then show thesis using skip p by (simp add: load_segment_def)
  next
    case 2
    show thesis
      by (rule err [of ?s1]) (use 2 p iso in \<open>simp_all add: load_segment_def Let_def only_changes_refl\<close>)
  next
    case 3
    show thesis
      by (rule err [of ?s1]) (use 3 p ov iso in \<open>simp_all add: load_segment_def Let_def only_changes_refl\<close>)
  next
    case 4
    note d = segment_okD [OF 4(2) len]
    note ar = alloc_range_user [OF iso segment_pte_flags(1) al d(3,4)]
    show thesis
    proof (cases "r1 < 0")
      case True
      show thesis
        by (rule err [of "?s1\<lparr>ld_vm := v1\<rparr>"]) (use 4 p ov True al ar(1) in \<open>simp_all add: load_segment_def Let_def\<close>)
    next
      case False
      then have r1: "r1 = 0" using ar(2) by auto
      let ?bs = "take (unat (ph_filesz p)) (drop (unat (ph_offset p)) img)"
      obtain r2 v' where cp: "copy_pages sp (ph_vaddr p) ?bs v1 = (r2, v')" by fastforce
      have r2: "r2 = 0" using fill_segment(1) [OF iso len 4(2) al [unfolded r1] cp] .
      have ib: "image_bytes img (unat (ph_offset p)) (unat (ph_filesz p)) = Some ?bs"
        using d(2) by (simp add: image_bytes_def)
      have w: "(if ph_filesz p \<noteq> 0 then write_to_space sp (ph_vaddr p) ?bs v1 else (0, v1)) = (0, v')"
        using cp r2 by (cases "ph_filesz p = 0") (simp_all add: write_to_space_def copy_pages.simps)
      show thesis
        by (rule load [OF p 4(1,2) _ al [unfolded r1] cp [unfolded r2]])
          (use 4 p ov al r1 ib w in \<open>simp_all add: load_segment_def Let_def split del: if_split cong: if_cong\<close>)
    qed
  qed
qed

section \<open>The whole image\<close>

text \<open>Segment \<open>i\<close> of the image, when it is one that is loaded.\<close>

definition load_seg :: "elf32_ehdr \<Rightarrow> u8 list \<Rightarrow> nat \<Rightarrow> elf32_phdr \<Rightarrow> bool" where
  "load_seg h img i p \<longleftrightarrow> read_phdr h img i = Some p \<and> loadable p"

text \<open>Every address of the segment is mapped with the segment's permissions and holds the right byte.\<close>

definition seg_loaded :: "u8 list \<Rightarrow> vm \<Rightarrow> space_ref \<Rightarrow> elf32_phdr \<Rightarrow> bool" where
  "seg_loaded img v sp p \<longleftrightarrow> (\<forall>a. in_segment p a \<longrightarrow> user_byte v sp a = Some (seg_byte img p a) \<and>
     (\<exists>e. walk v sp a = Some e \<and> e AND 0xFFF = segment_pte p))"

definition loaded_prefix :: "elf32_ehdr \<Rightarrow> u8 list \<Rightarrow> space_ref \<Rightarrow> vm \<Rightarrow> nat \<Rightarrow> loading \<Rightarrow> bool" where
  "loaded_prefix h img sp v0 n s \<longleftrightarrow> only_changes sp v0 (ld_vm s) \<and>
     (\<forall>i p. i < n \<and> load_seg h img i p \<longrightarrow> segment_ok p (of_nat (length img)) \<and>
        unat (ph_vaddr p) + unat (ph_memsz p) \<le> unat (highest s) \<and> seg_loaded img (ld_vm s) sp p) \<and>
     (\<forall>a. user_page a \<longrightarrow> walk (ld_vm s) sp a \<noteq> None \<longrightarrow> (\<exists>i<n. \<exists>p. load_seg h img i p \<and> unat a div 4096 \<in> seg_pages p)) \<and>
     unat (highest s) \<le> unat USER_MAX \<and>
     (entry_executable s \<longrightarrow> (\<exists>i<n. \<exists>p. load_seg h img i p \<and> in_segment p (eh_entry h) \<and> ph_flags p AND PF_X \<noteq> 0))"

lemma loaded_prefixD:
  assumes "loaded_prefix h img sp v0 n s"
  shows "only_changes sp v0 (ld_vm s)"
    and "i < n \<Longrightarrow> load_seg h img i p \<Longrightarrow> segment_ok p (of_nat (length img)) \<and>
        unat (ph_vaddr p) + unat (ph_memsz p) \<le> unat (highest s) \<and> seg_loaded img (ld_vm s) sp p"
    and "user_page a \<Longrightarrow> walk (ld_vm s) sp a \<noteq> None \<Longrightarrow> \<exists>i<n. \<exists>p. load_seg h img i p \<and> unat a div 4096 \<in> seg_pages p"
    and "unat (highest s) \<le> unat USER_MAX"
    and "entry_executable s \<Longrightarrow> \<exists>i<n. \<exists>p. load_seg h img i p \<and> in_segment p (eh_entry h) \<and> ph_flags p AND PF_X \<noteq> 0"
  using assms unfolding loaded_prefix_def by blast+

lemma load_step:
  assumes wf: "well_formed h img" and i: "i < unat (eh_phnum h)" and inv: "loaded_prefix h img sp v0 i s"
    and st: "load_segment h img sp i s = Some (r, s')"
  shows "only_changes sp v0 (ld_vm s')" and "r = 0 \<or> r = - 1" and "r = 0 \<Longrightarrow> loaded_prefix h img sp v0 (Suc i) s'"
proof -
  note d = loaded_prefixD [OF inv]
  have iso: "vm_iso (ld_vm s)" using d(1) by (simp add: only_changes_def)
  have len: "length img < 2 ^ 32" using wf by (simp add: well_formed_def)
  have "only_changes sp v0 (ld_vm s') \<and> (r = 0 \<or> r = - 1) \<and> (r = 0 \<longrightarrow> loaded_prefix h img sp v0 (Suc i) s')"
  proof (rule load_segment_cases [OF wf i iso, of sp])
    fix p assume p: "read_phdr h img i = Some p" "\<not> loadable p" "load_segment h img sp i s = Some (0, s)"
    have nl: "j < Suc i \<and> load_seg h img j q \<longleftrightarrow> j < i \<and> load_seg h img j q" for j q
      using p(1,2) by (auto simp: load_seg_def less_Suc_eq)
    have ex: "(\<exists>j<Suc i. \<exists>q. load_seg h img j q \<and> P q) \<longleftrightarrow> (\<exists>j<i. \<exists>q. load_seg h img j q \<and> P q)" for P
      using nl by blast
    have "loaded_prefix h img sp v0 (Suc i) s" using inv unfolding loaded_prefix_def nl ex .
    then show ?thesis using st p(3) d(1) by auto
  next
    fix s1 assume "load_segment h img sp i s = Some (- 1, s1)" "only_changes sp (ld_vm s) (ld_vm s1)"
    then show ?thesis using st d(1) only_changes_trans by auto
  next
    fix p v1 v'
    assume p: "read_phdr h img i = Some p" "loadable p" and ok: "segment_ok p (of_nat (length img))"
      and ov: "overlap_loop h img (ALIGN_DOWN (ph_vaddr p) PAGE_SIZE) (ALIGN_UP (ph_vaddr p + ph_memsz p) PAGE_SIZE) [0..<i] = Some False"
      and al: "vmm_alloc_range sp (ph_vaddr p) (ph_memsz p) (segment_pte p) (ld_vm s) = (0, v1)"
      and cp: "copy_pages sp (ph_vaddr p) (take (unat (ph_filesz p)) (drop (unat (ph_offset p)) img)) v1 = (0, v')"
      and ls: "load_segment h img sp i s = Some (0, s\<lparr>load_segments := load_segments s + 1, ld_vm := v',
         entry_executable := (if ph_vaddr p \<le> eh_entry h \<and> eh_entry h < ph_vaddr p + ph_memsz p \<and> ph_flags p AND PF_X \<noteq> 0
           then True else entry_executable s),
         highest := (if highest s < ph_vaddr p + ph_memsz p then ph_vaddr p + ph_memsz p else highest s)\<rparr>)"
    note f = fill_segment [OF iso len ok al cp] and so = segment_okD [OF ok len]
    have r: "r = 0" and s': "ld_vm s' = v'" "unat (highest s') = max (unat (highest s)) (unat (ph_vaddr p) + unat (ph_memsz p))"
      "entry_executable s' \<longleftrightarrow> in_segment p (eh_entry h) \<and> ph_flags p AND PF_X \<noteq> 0 \<or> entry_executable s"
      using ls st so(5) by (auto simp: in_segment_def word_less_nat_alt word_le_nat_alt)
    have disj: "seg_pages p \<inter> seg_pages q = {}" if q: "j < i" "load_seg h img j q" for j q
    proof -
      have "segment_ok q (of_nat (length img))" using d(2) [OF q] by simp
      moreover have "j \<in> set [0..<i]" using q(1) by simp
      ultimately show ?thesis
        using overlap_none [OF ov, of j q] q(2) by (intro no_overlap_disjoint [OF len ok]) (auto simp: load_seg_def)
    qed
    have free: "walk (ld_vm s) sp a = None" if "unat a div 4096 \<in> seg_pages p" for a
      using d(3) [OF seg_user_page [OF ok len that]] disj that by blast
    have new: "seg_loaded img v' sp p"
      using f(4,6) free in_segment_page unfolding seg_loaded_def by fastforce
    have old: "seg_loaded img v' sp q" if q: "j < i" "load_seg h img j q" for j q
      unfolding seg_loaded_def
    proof (intro allI impI)
      fix a assume a: "in_segment q a"
      obtain e where e: "user_byte (ld_vm s) sp a = Some (seg_byte img q a)" "walk (ld_vm s) sp a = Some e" "e AND 0xFFF = segment_pte q"
        using d(2) [OF q] a unfolding seg_loaded_def by blast
      have "\<not> in_segment p a" using disj [OF q] in_segment_page a by blast
      moreover have "user_page a" using seg_user_page [OF _ len in_segment_page [OF a]] d(2) [OF q] by blast
      ultimately show "user_byte v' sp a = Some (seg_byte img q a) \<and> (\<exists>e. walk v' sp a = Some e \<and> e AND 0xFFF = segment_pte q)"
        using e f(3,5) by auto
    qed
    have "loaded_prefix h img sp v0 (Suc i) s'"
      unfolding loaded_prefix_def s'
    proof (intro conjI allI impI)
      show "only_changes sp v0 v'" by (rule only_changes_trans [OF d(1) f(2)])
    next
      fix j q assume jq: "j < Suc i \<and> load_seg h img j q"
      then consider "j < i" | "q = p" using p by (auto simp: less_Suc_eq load_seg_def)
      then show "segment_ok q (of_nat (length img))" "seg_loaded img v' sp q"
        "unat (ph_vaddr q) + unat (ph_memsz q) \<le> max (unat (highest s)) (unat (ph_vaddr p) + unat (ph_memsz p))"
        using d(2) [of j q] old [of j q] new ok jq by (cases; auto)+
    next
      fix a assume a: "user_page a" "walk v' sp a \<noteq> None"
      have self: "load_seg h img i p" using p by (simp add: load_seg_def)
      show "\<exists>j<Suc i. \<exists>p. load_seg h img j p \<and> unat a div 4096 \<in> seg_pages p"
      proof (cases "walk (ld_vm s) sp a = None")
        case True
        then show ?thesis using f(6) [of a] a(2) self by blast
      next
        case False
        then show ?thesis using d(3) [OF a(1)] less_SucI by blast
      qed
    next
      show "max (unat (highest s)) (unat (ph_vaddr p) + unat (ph_memsz p)) \<le> unat USER_MAX" using d(4) so(4) by simp
    next
      assume "in_segment p (eh_entry h) \<and> ph_flags p AND PF_X \<noteq> 0 \<or> entry_executable s"
      then show "\<exists>j<Suc i. \<exists>p. load_seg h img j p \<and> in_segment p (eh_entry h) \<and> ph_flags p AND PF_X \<noteq> 0"
        using d(5) p less_SucI unfolding load_seg_def by blast
    qed
    then show ?thesis using r loaded_prefixD(1) by blast
  qed
  then show "only_changes sp v0 (ld_vm s')" "r = 0 \<or> r = - 1" "r = 0 \<Longrightarrow> loaded_prefix h img sp v0 (Suc i) s'" by blast+
qed

lemma load_loop_spec:
  assumes "well_formed h img" and "i \<le> unat (eh_phnum h)" and "loaded_prefix h img sp v0 i s"
  shows "\<exists>r s'. load_loop h img sp [i..<unat (eh_phnum h)] s = Some (r, s') \<and> only_changes sp v0 (ld_vm s') \<and>
    (r = - 1 \<or> r = 0 \<and> loaded_prefix h img sp v0 (unat (eh_phnum h)) s')"
  using assms
proof (induction "unat (eh_phnum h) - i" arbitrary: i s)
  case 0
  then show ?case using loaded_prefixD(1) by auto
next
  case (Suc k)
  then have i: "i < unat (eh_phnum h)" by simp
  have iso: "vm_iso (ld_vm s)" using loaded_prefixD(1) [OF Suc.prems(3)] by (simp add: only_changes_def)
  obtain r s1 where st: "load_segment h img sp i s = Some (r, s1)"
    by (rule load_segment_cases [OF Suc.prems(1) i iso, of sp]) auto
  note ls = load_step [OF Suc.prems(1) i Suc.prems(3) st]
  have list: "[i..<unat (eh_phnum h)] = i # [Suc i..<unat (eh_phnum h)]" using i by (simp add: upt_conv_Cons)
  show ?case
  proof (cases "r = 0")
    case True
    then show ?thesis using Suc.hyps(1) [of "Suc i" s1] Suc.hyps(2) Suc.prems(1) ls(3) i by (simp add: list st)
  next
    case False
    then show ?thesis using ls(1,2) by (simp add: list st)
  qed
qed

lemma loaded_start:
  assumes "vm_iso v" and "\<forall>a. user_page a \<longrightarrow> walk v sp a = None"
  shows "loaded_prefix h img sp v 0 \<lparr>ld_vm = v, highest = 0, entry_executable = False, load_segments = 0\<rparr>"
  using assms by (simp add: loaded_prefix_def only_changes_refl)

text \<open>What the loader promises when it succeeds.\<close>

definition image_loaded :: "u8 list \<Rightarrow> vm \<Rightarrow> space_ref \<Rightarrow> virt_addr \<Rightarrow> virt_addr \<Rightarrow> bool" where
  "image_loaded img v sp entry brk0 \<longleftrightarrow> (\<exists>h. read_ehdr img = Some h \<and> entry = eh_entry h \<and>
     (\<forall>i<unat (eh_phnum h). \<forall>p. load_seg h img i p \<longrightarrow> seg_loaded img v sp p \<and>
        unat USER_MIN \<le> unat (ph_vaddr p) \<and> unat (ph_vaddr p) + unat (ph_memsz p) \<le> unat USER_MAX \<and>
        \<not> (ph_flags p AND PF_W \<noteq> 0 \<and> ph_flags p AND PF_X \<noteq> 0)) \<and>
     (\<exists>i<unat (eh_phnum h). \<exists>p. load_seg h img i p \<and> in_segment p entry \<and> ph_flags p AND PF_X \<noteq> 0) \<and>
     (\<forall>a. user_page a \<longrightarrow> walk v sp a \<noteq> None \<longrightarrow> unat a < unat brk0) \<and>
     4096 dvd unat brk0 \<and> unat brk0 \<le> unat USER_MAX)"

lemma prefix_loaded:
  assumes wf: "well_formed h img" and inv: "loaded_prefix h img sp v0 (unat (eh_phnum h)) s" and "entry_executable s"
  shows "image_loaded img (ld_vm s) sp (eh_entry h) (ALIGN_UP (highest s) PAGE_SIZE)"
proof -
  note d = loaded_prefixD [OF inv]
  have len: "length img < 2 ^ 32" using wf by (simp add: well_formed_def)
  have up: "unat (ALIGN_UP (highest s) PAGE_SIZE) = (unat (highest s) + 4095) div 4096 * 4096"
    using d(4) by (intro align_up_page) (simp add: USER_MAX_def)
  have below: "unat a < unat (ALIGN_UP (highest s) PAGE_SIZE)" if a: "user_page a" "walk (ld_vm s) sp a \<noteq> None" for a
  proof -
    obtain i p where p: "i < unat (eh_phnum h)" "load_seg h img i p" "unat a div 4096 \<in> seg_pages p" using d(3) [OF a] by blast
    have "(unat (ph_vaddr p) + unat (ph_memsz p) + 4095) div 4096 \<le> (unat (highest s) + 4095) div 4096"
      using d(2) [OF p(1,2)] by (intro div_le_mono) simp
    then have "unat a div 4096 < (unat (highest s) + 4095) div 4096" using p(3) by (auto simp: seg_pages_def)
    then show ?thesis unfolding up by (simp add: div_less_iff_less_mult)
  qed
  have segs: "seg_loaded img (ld_vm s) sp p \<and> unat USER_MIN \<le> unat (ph_vaddr p) \<and>
      unat (ph_vaddr p) + unat (ph_memsz p) \<le> unat USER_MAX \<and> \<not> (ph_flags p AND PF_W \<noteq> 0 \<and> ph_flags p AND PF_X \<noteq> 0)"
    if "i < unat (eh_phnum h)" "load_seg h img i p" for i p
    using d(2) [OF that] segment_okD [OF _ len] by blast
  have "unat (ALIGN_UP (highest s) PAGE_SIZE) \<le> unat USER_MAX"
    using d(4) unfolding up by (simp add: USER_MAX_def)
  with below segs d(5) [OF assms(3)] wf show ?thesis
    unfolding image_loaded_def well_formed_def by (intro exI [of _ h]) (auto simp: up)
qed

lemma elf_load_spec:
  assumes "vm_iso v" and "length img < 2 ^ 32" and "\<forall>a. user_page a \<longrightarrow> walk v sp a = None"
  obtains r entry brk0 v' where "elf_load sp img v = Some ((r, entry, brk0), v')" "only_changes sp v v'"
    "r = - 1 \<or> r = 0 \<and> image_loaded img v' sp entry brk0"
proof -
  obtain b where b: "elf_is_valid img = Some b" "b \<longrightarrow> (\<exists>h. well_formed h img)" using valid_total [OF assms(2)] by blast
  show thesis
  proof (cases b)
    case False
    then show thesis using that [of "- 1" 0 0 v] b(1) only_changes_refl [OF assms(1)] by (simp add: elf_load_def)
  next
    case True
    then obtain h where wf: "well_formed h img" using b(2) by blast
    then have h: "read_ehdr img = Some h" by (simp add: well_formed_def)
    let ?s0 = "\<lparr>ld_vm = v, highest = 0, entry_executable = False, load_segments = 0\<rparr>"
    obtain r s where s: "load_loop h img sp [0..<unat (eh_phnum h)] ?s0 = Some (r, s)" "only_changes sp v (ld_vm s)"
      "r = - 1 \<or> r = 0 \<and> loaded_prefix h img sp v (unat (eh_phnum h)) s"
      using load_loop_spec [OF wf le0 loaded_start [OF assms(1,3)]] by blast
    show thesis
    proof (cases "r < 0 \<or> load_segments s = 0 \<or> highest s = 0 \<or> \<not> entry_executable s")
      case True
      then have "elf_load sp img v = Some ((- 1, 0, 0), ld_vm s)" using b(1) \<open>b\<close> h s(1) by (auto simp: elf_load_def)
      then show thesis using that s(2) by blast
    next
      case False
      then have "elf_load sp img v = Some ((0, eh_entry h, ALIGN_UP (highest s) PAGE_SIZE), ld_vm s)"
        using b(1) \<open>b\<close> h s(1) by (auto simp: elf_load_def)
      then show thesis using that s(2,3) prefix_loaded [OF wf] False by auto
    qed
  qed
qed

text \<open>
  C6: \<^verbatim>\<open>elf_load\<close> is safe on any byte string, hostile ones included, and loads what it accepts.  Started on an
  empty user half it never reads outside the image, keeps the page table invariant and changes no other
  address space and no kernel mapping.  When it returns 0, every load segment lies in the user half and
  asks not both for write and execute, each of its bytes is mapped with the segment's permissions and holds the
  byte of the file, or zero past the file part; the entry point is in an executable segment and no page is mapped
  at or above the program break.
\<close>

theorem elf_load_correct:
  assumes "vm_iso v" and "length img < 2 ^ 32" and "\<forall>a. user_page a \<longrightarrow> walk v sp a = None"
  shows "\<exists>r entry brk0 v'. elf_load sp img v = Some ((r, entry, brk0), v') \<and> only_changes sp v v' \<and>
    (r = - 1 \<or> r = 0 \<and> image_loaded img v' sp entry brk0)"
  using elf_load_spec [OF assms] by metis

text \<open>A program of one executable segment: four bytes of code and four zero bytes.\<close>

definition sample_elf :: "u8 list" where
  "sample_elf =
     [0x7F, 0x45, 0x4C, 0x46, 1, 1, 1, 0, 0, 0, 0, 0, 0, 0, 0, 0, 2, 0, 3, 0, 1, 0, 0, 0, 0, 0, 0, 0x40,
      52, 0, 0, 0, 0, 0, 0, 0, 0, 0, 0, 0, 52, 0, 32, 0, 1, 0, 0, 0, 0, 0, 0, 0,
      1, 0, 0, 0, 84, 0, 0, 0, 0, 0, 0, 0x40, 0, 0, 0, 0, 4, 0, 0, 0, 8, 0, 0, 0, 5, 0, 0, 0, 1, 0, 0, 0,
      0xEB, 0xFE, 0x90, 0x90]"

lemma sample_vm_empty: "walk sample_vm sp a = None"
proof -
  have "rd32 (\<lambda>_. 0) b = 0" for b by (simp add: rd32_def)
  then show ?thesis by (simp add: walk_def pde_def sample_vm_def)
qed

theorem elf_load_correct_witness:
  "elf_is_valid sample_elf = Some True \<and> (\<exists>r entry brk0 v'.
     elf_load (Proc_space 1) sample_elf sample_vm = Some ((r, entry, brk0), v') \<and> only_changes (Proc_space 1) sample_vm v')"
proof -
  have v: "elf_is_valid sample_elf = Some True" by code_simp
  have "length sample_elf < 2 ^ 32" by (simp add: sample_elf_def)
  with elf_load_correct [OF sample_vm_iso this, of "Proc_space 1"] sample_vm_empty v show ?thesis by blast
qed

end
