(* ===== verification/Gfx.thy ===== *)
theory Gfx
  imports SifarPrelude KString "HOL-Library.Monad_Syntax"
begin

text \<open>
  \<^verbatim>\<open>kernel/gfx/gfx.c\<close>: drawing into 32-bit surfaces.  The pixels of a surface are a list; every access
  is checked, and an access outside the list is the result \<open>None\<close>.  Coordinates are
  integers: the callers pass screen coordinates, far from the limits of the C type.  The back buffer, the
  framebuffer and the font are arguments of the functions that use them.  Not modelled: \<^verbatim>\<open>gfx_init\<close>
  (mapping of the framebuffer) and \<^verbatim>\<open>gfx_line\<close>.
\<close>

unbundle bit_operations_syntax

section \<open>Colours and surfaces\<close>

definition RGB :: "u32 \<Rightarrow> u32 \<Rightarrow> u32 \<Rightarrow> u32" where
  "RGB r g b = 0xFF000000 OR push_bit 16 r OR push_bit 8 g OR b"

definition RGBA :: "u32 \<Rightarrow> u32 \<Rightarrow> u32 \<Rightarrow> u32 \<Rightarrow> u32" where
  "RGBA r g b a = push_bit 24 a OR push_bit 16 r OR push_bit 8 g OR b"

definition COLOR_R :: "u32 \<Rightarrow> u32" where "COLOR_R c = drop_bit 16 c AND 0xFF"
definition COLOR_G :: "u32 \<Rightarrow> u32" where "COLOR_G c = drop_bit 8 c AND 0xFF"
definition COLOR_B :: "u32 \<Rightarrow> u32" where "COLOR_B c = c AND 0xFF"
definition COLOR_A :: "u32 \<Rightarrow> u32" where "COLOR_A c = drop_bit 24 c AND 0xFF"

definition GLYPH_W :: int where "GLYPH_W = 8"
definition GLYPH_H :: int where "GLYPH_H = 16"

record gfx_rect =
  r_x :: int
  r_y :: int
  r_w :: int
  r_h :: int

record gfx_surface =
  pixels :: "u32 list"
  s_width :: int
  s_height :: int
  stride :: int
  clip :: gfx_rect

definition gfx_clip_reset :: "gfx_surface \<Rightarrow> gfx_surface" where
  "gfx_clip_reset s = s\<lparr>clip := \<lparr>r_x = 0, r_y = 0, r_w = s_width s, r_h = s_height s\<rparr>\<rparr>"

definition gfx_surface_init :: "u32 list \<Rightarrow> int \<Rightarrow> int \<Rightarrow> int \<Rightarrow> gfx_surface" where
  "gfx_surface_init px w h st =
     gfx_clip_reset \<lparr>pixels = px, s_width = w, s_height = h, stride = st, clip = \<lparr>r_x = 0, r_y = 0, r_w = 0, r_h = 0\<rparr>\<rparr>"

text \<open>The statement \<^verbatim>\<open>if (x < 0) { w += x; x = 0; }\<close>, and the cut at the far side.\<close>

definition cut_low :: "int \<Rightarrow> int \<times> int \<Rightarrow> int \<times> int" where
  "cut_low lo = (\<lambda>(x, w). if x < lo then (lo, w - (lo - x)) else (x, w))"

definition cut_high :: "int \<Rightarrow> int \<times> int \<Rightarrow> int \<times> int" where
  "cut_high hi = (\<lambda>(x, w). if hi < x + w then (x, hi - x) else (x, w))"

definition gfx_clip_set :: "int \<Rightarrow> int \<Rightarrow> int \<Rightarrow> int \<Rightarrow> gfx_surface \<Rightarrow> gfx_surface" where
  "gfx_clip_set x y w h s =
     (case cut_high (s_width s) (cut_low 0 (x, w)) of (x1, w1) \<Rightarrow>
      case cut_high (s_height s) (cut_low 0 (y, h)) of (y1, h1) \<Rightarrow>
        s\<lparr>clip := \<lparr>r_x = x1, r_y = y1, r_w = (if w1 < 0 then 0 else w1), r_h = (if h1 < 0 then 0 else h1)\<rparr>\<rparr>)"

text \<open>The clamped rectangle, or \<open>None\<close> when nothing is left.\<close>

definition clamp_rect :: "gfx_surface \<Rightarrow> int \<Rightarrow> int \<Rightarrow> int \<Rightarrow> int \<Rightarrow> (int \<times> int \<times> int \<times> int) option" where
  "clamp_rect s x y w h =
     (let c = clip s in
      case cut_high (r_x c + r_w c) (cut_low (r_x c) (x, w)) of (x1, w1) \<Rightarrow>
      case cut_high (r_y c + r_h c) (cut_low (r_y c) (y, h)) of (y1, h1) \<Rightarrow>
        if 0 < w1 \<and> 0 < h1 then Some (x1, y1, w1, h1) else None)"

definition gfx_clip_intersect :: "gfx_surface \<Rightarrow> int \<Rightarrow> int \<Rightarrow> int \<Rightarrow> int \<Rightarrow> bool" where
  "gfx_clip_intersect s x y w h \<longleftrightarrow> clamp_rect s x y w h \<noteq> None"

section \<open>Accesses\<close>

definition get_px :: "u32 list \<Rightarrow> int \<Rightarrow> u32 option" where
  "get_px px i = (if 0 \<le> i \<and> i < int (length px) then Some (px ! nat i) else None)"

definition set_px :: "int \<Rightarrow> u32 \<Rightarrow> u32 list \<Rightarrow> u32 list option" where
  "set_px i c px = (if 0 \<le> i \<and> i < int (length px) then Some (px[nat i := c]) else None)"

text \<open>A loop over the pixels of a rectangle, row by row; the body replaces a pixel by a function of its position and value.\<close>

fun row_loop :: "(int \<Rightarrow> u32 \<Rightarrow> u32 option) \<Rightarrow> int \<Rightarrow> int list \<Rightarrow> u32 list \<Rightarrow> u32 list option" where
  "row_loop f base [] px = Some px"
| "row_loop f base (col # cols) px = do {
     old \<leftarrow> get_px px (base + col);
     new \<leftarrow> f col old;
     px1 \<leftarrow> set_px (base + col) new px;
     row_loop f base cols px1
   }"

fun rect_loop :: "(int \<Rightarrow> int \<Rightarrow> u32 \<Rightarrow> u32 option) \<Rightarrow> (int \<Rightarrow> int) \<Rightarrow> int \<Rightarrow> int list \<Rightarrow> u32 list \<Rightarrow> u32 list option" where
  "rect_loop f base w [] px = Some px"
| "rect_loop f base w (row # rows) px = do {
     px1 \<leftarrow> row_loop (f row) (base row) [0..w - 1] px;
     rect_loop f base w rows px1
   }"

section \<open>Primitives\<close>

definition gfx_clear :: "u32 \<Rightarrow> gfx_surface \<Rightarrow> gfx_surface option" where
  "gfx_clear color s = do {
     px \<leftarrow> rect_loop (\<lambda>_ _ _. Some color) (\<lambda>y. y * stride s) (s_width s) [0..s_height s - 1] (pixels s);
     Some (s\<lparr>pixels := px\<rparr>)
   }"

definition gfx_pixel :: "int \<Rightarrow> int \<Rightarrow> u32 \<Rightarrow> gfx_surface \<Rightarrow> gfx_surface option" where
  "gfx_pixel x y color s =
     (let c = clip s
      in if x < r_x c \<or> y < r_y c \<or> r_x c + r_w c \<le> x \<or> r_y c + r_h c \<le> y then Some s
         else do { px \<leftarrow> set_px (y * stride s + x) color (pixels s); Some (s\<lparr>pixels := px\<rparr>) })"

text \<open>A clamped rectangle of the surface is rewritten pixel by pixel.\<close>

definition paint_rect :: "(int \<Rightarrow> int \<Rightarrow> u32 \<Rightarrow> u32 option) \<Rightarrow> int \<Rightarrow> int \<Rightarrow> int \<Rightarrow> int \<Rightarrow> gfx_surface \<Rightarrow> gfx_surface option" where
  "paint_rect f x y w h s = do {
     px \<leftarrow> rect_loop f (\<lambda>row. (y + row) * stride s + x) w [0..h - 1] (pixels s);
     Some (s\<lparr>pixels := px\<rparr>)
   }"

definition gfx_fill_rect :: "int \<Rightarrow> int \<Rightarrow> int \<Rightarrow> int \<Rightarrow> u32 \<Rightarrow> gfx_surface \<Rightarrow> gfx_surface option" where
  "gfx_fill_rect x y w h color s =
     (case clamp_rect s x y w h of
        None \<Rightarrow> Some s
      | Some (x1, y1, w1, h1) \<Rightarrow> paint_rect (\<lambda>_ _ _. Some color) x1 y1 w1 h1 s)"

definition blend :: "u32 \<Rightarrow> u32 \<Rightarrow> u32 \<Rightarrow> u32" where
  "blend alpha color dst =
     RGB ((COLOR_R color * alpha + COLOR_R dst * (255 - alpha)) div 255)
       ((COLOR_G color * alpha + COLOR_G dst * (255 - alpha)) div 255)
       ((COLOR_B color * alpha + COLOR_B dst * (255 - alpha)) div 255)"

definition gfx_blend_rect :: "int \<Rightarrow> int \<Rightarrow> int \<Rightarrow> int \<Rightarrow> u32 \<Rightarrow> gfx_surface \<Rightarrow> gfx_surface option" where
  "gfx_blend_rect x y w h color s =
     (let alpha = COLOR_A color
      in if alpha = 255 then gfx_fill_rect x y w h color s
         else if alpha = 0 then Some s
         else
           (case clamp_rect s x y w h of
              None \<Rightarrow> Some s
            | Some (x1, y1, w1, h1) \<Rightarrow> paint_rect (\<lambda>_ _ dst. Some (blend alpha color dst)) x1 y1 w1 h1 s))"

definition gfx_hline :: "int \<Rightarrow> int \<Rightarrow> int \<Rightarrow> u32 \<Rightarrow> gfx_surface \<Rightarrow> gfx_surface option" where
  "gfx_hline x y w color s = gfx_fill_rect x y w 1 color s"

definition gfx_vline :: "int \<Rightarrow> int \<Rightarrow> int \<Rightarrow> u32 \<Rightarrow> gfx_surface \<Rightarrow> gfx_surface option" where
  "gfx_vline x y h color s = gfx_fill_rect x y 1 h color s"

definition gfx_frame_rect :: "int \<Rightarrow> int \<Rightarrow> int \<Rightarrow> int \<Rightarrow> u32 \<Rightarrow> gfx_surface \<Rightarrow> gfx_surface option" where
  "gfx_frame_rect x y w h color s =
     (if w \<le> 0 \<or> h \<le> 0 then Some s
      else do {
        s1 \<leftarrow> gfx_hline x y w color s;
        s2 \<leftarrow> gfx_hline x (y + h - 1) w color s1;
        s3 \<leftarrow> gfx_vline x y h color s2;
        gfx_vline (x + w - 1) y h color s3
      })"

text \<open>Running a list of drawing steps.\<close>

fun draw_all :: "(gfx_surface \<Rightarrow> gfx_surface option) list \<Rightarrow> gfx_surface \<Rightarrow> gfx_surface option" where
  "draw_all [] s = Some s"
| "draw_all (d # ds) s = do { s1 \<leftarrow> d s; draw_all ds s1 }"

text \<open>The inner loop of \<^verbatim>\<open>gfx_round_rect\<close>: the indentation of the corner on row \<open>dy\<close>; \<^verbatim>\<open>dx < radius\<close> bounds it.\<close>

function corner :: "int \<Rightarrow> int \<Rightarrow> int \<Rightarrow> int" where
  "corner radius dy dx =
     (if radius * radius < (radius - dy) * (radius - dy) + (radius - dx - 1) * (radius - dx - 1) \<and> dx < radius
      then corner radius dy (dx + 1) else dx)"
  by pat_completeness auto
termination by (relation "measure (\<lambda>(radius, dy, dx). nat (radius - dx))") auto

declare corner.simps [simp del]

definition gfx_round_rect :: "int \<Rightarrow> int \<Rightarrow> int \<Rightarrow> int \<Rightarrow> int \<Rightarrow> u32 \<Rightarrow> gfx_surface \<Rightarrow> gfx_surface option" where
  "gfx_round_rect x y w h radius0 color s =
     (let r1 = (if w < radius0 * 2 then w sdiv 2 else radius0);
          radius = (if h < r1 * 2 then h sdiv 2 else r1)
      in if radius \<le> 0 then gfx_fill_rect x y w h color s
         else draw_all
           ([gfx_fill_rect (x + radius) y (w - 2 * radius) h color,
             gfx_fill_rect x (y + radius) radius (h - 2 * radius) color,
             gfx_fill_rect (x + w - radius) (y + radius) radius (h - 2 * radius) color] @
            concat (map (\<lambda>dy. let dx = corner radius dy 0 in
              [gfx_hline (x + dx) (y + dy) (w - 2 * dx) color,
               gfx_hline (x + dx) (y + h - 1 - dy) (w - 2 * dx) color]) [0..radius - 1])) s)"

text \<open>The inner loop of \<^verbatim>\<open>gfx_circle\<close>, which counts up from 0.\<close>

function circle_span :: "int \<Rightarrow> int \<Rightarrow> int \<Rightarrow> int" where
  "circle_span radius dy span =
     (if (span + 1) * (span + 1) + dy * dy \<le> radius * radius \<and> 0 \<le> span then circle_span radius dy (span + 1) else span)"
  by pat_completeness auto
termination
proof (relation "measure (\<lambda>(radius, dy, span). nat (radius * radius - span))", goal_cases)
  case (2 radius dy span)
  define q where "q = (span + 1) * (span + 1)"
  have "span + 1 \<le> q" using 2 by (simp add: q_def mult_le_cancel_right1)
  moreover have "q + dy * dy \<le> radius * radius" using 2 by (simp add: q_def)
  moreover have "0 \<le> dy * dy" by simp
  ultimately have "span < radius * radius" by linarith
  then show ?case by simp
qed simp

declare circle_span.simps [simp del]

definition gfx_circle :: "int \<Rightarrow> int \<Rightarrow> int \<Rightarrow> u32 \<Rightarrow> gfx_surface \<Rightarrow> gfx_surface option" where
  "gfx_circle cx cy radius color s =
     draw_all (map (\<lambda>dy. let span = circle_span radius dy 0 in gfx_hline (cx - span) (cy + dy) (span * 2 + 1) color)
       [- radius..radius]) s"

definition mix :: "u32 \<Rightarrow> u32 \<Rightarrow> int \<Rightarrow> int \<Rightarrow> u32" where
  "mix a b h row =
     (a * word_of_int (h - 1 - row) + b * word_of_int row) div word_of_int (if h - 1 \<noteq> 0 then h - 1 else 1)"

definition gfx_gradient_v :: "int \<Rightarrow> int \<Rightarrow> int \<Rightarrow> int \<Rightarrow> u32 \<Rightarrow> u32 \<Rightarrow> gfx_surface \<Rightarrow> gfx_surface option" where
  "gfx_gradient_v x y w h tp bottom s =
     (if h \<le> 0 then Some s
      else draw_all (map (\<lambda>row. gfx_hline x (y + row) w
        (RGB (mix (COLOR_R tp) (COLOR_R bottom) h row) (mix (COLOR_G tp) (COLOR_G bottom) h row)
          (mix (COLOR_B tp) (COLOR_B bottom) h row))) [0..h - 1]) s)"

section \<open>Copying between surfaces\<close>

definition gfx_blit :: "int \<Rightarrow> int \<Rightarrow> gfx_surface \<Rightarrow> int \<Rightarrow> int \<Rightarrow> int \<Rightarrow> int \<Rightarrow> gfx_surface \<Rightarrow> gfx_surface option" where
  "gfx_blit dx dy src sx sy w h dst =
     (case clamp_rect dst dx dy w h of
        None \<Rightarrow> Some dst
      | Some (x1, y1, w1, h1) \<Rightarrow>
          let sx1 = sx + (x1 - dx); sy1 = sy + (y1 - dy)
          in draw_all (map (\<lambda>row dst. if sy1 + row < 0 \<or> s_height src \<le> sy1 + row then Some dst
               else paint_rect (\<lambda>_ col _. get_px (pixels src) ((sy1 + row) * stride src + sx1 + col)) x1 (y1 + row) w1 1 dst)
               [0..h1 - 1]) dst)"

definition gfx_blit_alpha :: "int \<Rightarrow> int \<Rightarrow> gfx_surface \<Rightarrow> int \<Rightarrow> int \<Rightarrow> int \<Rightarrow> int \<Rightarrow> gfx_surface \<Rightarrow> gfx_surface option" where
  "gfx_blit_alpha dx dy src sx sy w h dst =
     (case clamp_rect dst dx dy w h of
        None \<Rightarrow> Some dst
      | Some (x1, y1, w1, h1) \<Rightarrow>
          let sx1 = sx + (x1 - dx); sy1 = sy + (y1 - dy)
          in paint_rect (\<lambda>row col old. do {
               pixel \<leftarrow> get_px (pixels src) ((sy1 + row) * stride src + sx1 + col);
               Some (let alpha = COLOR_A pixel
                     in if alpha = 255 then pixel else if alpha \<noteq> 0 then blend alpha pixel old else old)
             }) x1 y1 w1 h1 dst)"

text \<open>Pushing the back buffer to the framebuffer, whose rows are \<open>fb_stride\<close> pixels long.\<close>

definition gfx_present_rect :: "bool \<Rightarrow> gfx_surface \<Rightarrow> int \<Rightarrow> int \<Rightarrow> int \<Rightarrow> int \<Rightarrow> int \<Rightarrow> int \<Rightarrow> int \<Rightarrow> u32 list \<Rightarrow> u32 list option" where
  "gfx_present_rect available back fb_width fb_height fb_stride x y w h fb =
     (if \<not> available then Some fb
      else case cut_high fb_width (cut_low 0 (x, w)) of (x1, w1) \<Rightarrow>
      case cut_high fb_height (cut_low 0 (y, h)) of (y1, h1) \<Rightarrow>
        if w1 \<le> 0 \<or> h1 \<le> 0 then Some fb
        else rect_loop (\<lambda>row col _. get_px (pixels back) ((y1 + row) * stride back + x1 + col))
               (\<lambda>row. (y1 + row) * fb_stride + x1) w1 [0..h1 - 1] fb)"

definition gfx_present :: "bool \<Rightarrow> gfx_surface \<Rightarrow> int \<Rightarrow> int \<Rightarrow> int \<Rightarrow> u32 list \<Rightarrow> u32 list option" where
  "gfx_present available back fb_width fb_height fb_stride fb =
     (if \<not> available then Some fb
      else if fb_stride = fb_width
      then row_loop (\<lambda>col _. get_px (pixels back) col) 0 [0..fb_width * fb_height - 1] fb
      else rect_loop (\<lambda>row col _. get_px (pixels back) (row * stride back + col)) (\<lambda>row. row * fb_stride) fb_width
             [0..fb_height - 1] fb)"

section \<open>Text\<close>

definition gfx_char :: "u8 list \<Rightarrow> int \<Rightarrow> int \<Rightarrow> u8 \<Rightarrow> u32 \<Rightarrow> int \<Rightarrow> gfx_surface \<Rightarrow> gfx_surface option" where
  "gfx_char font x y c color scale0 s =
     (let scale = (if scale0 < 1 then 1 else scale0)
      in draw_all (concat (map (\<lambda>row. map (\<lambda>col.
           let bits = font ! (unat c * 16 + nat row)
           in if bits AND drop_bit (nat col) 0x80 = 0 then Some
              else if scale = 1 then gfx_pixel (x + col) (y + row) color
              else gfx_fill_rect (x + col * scale) (y + row * scale) scale scale color) [0..GLYPH_W - 1]) [0..GLYPH_H - 1])) s)"

fun text_loop :: "u8 list \<Rightarrow> int \<Rightarrow> int \<Rightarrow> cstr \<Rightarrow> u32 \<Rightarrow> int \<Rightarrow> gfx_surface \<Rightarrow> gfx_surface option" where
  "text_loop font x y [] color scale s = Some s"
| "text_loop font x y (c # cs) color scale s =
     (if c = 0 then Some s
      else if c = 10 then text_loop font x (y + GLYPH_H * scale) cs color scale s
      else do { s1 \<leftarrow> gfx_char font x y c color scale s; text_loop font (x + GLYPH_W * scale) y cs color scale s1 })"

definition gfx_text :: "u8 list \<Rightarrow> int \<Rightarrow> int \<Rightarrow> cstr \<Rightarrow> u32 \<Rightarrow> int \<Rightarrow> gfx_surface \<Rightarrow> gfx_surface option" where
  "gfx_text font x y txt color scale s = text_loop font x y txt color (if scale < 1 then 1 else scale) s"

definition gfx_text_clipped :: "u8 list \<Rightarrow> int \<Rightarrow> int \<Rightarrow> cstr \<Rightarrow> u32 \<Rightarrow> int \<Rightarrow> int \<Rightarrow> gfx_surface \<Rightarrow> gfx_surface option" where
  "gfx_text_clipped font x y txt color scale max_width s =
     (let advance = GLYPH_W * (if scale < 1 then 1 else scale);
          room = max_width sdiv advance;
          len = int (strlen txt);
          dot = (\<lambda>i. gfx_char font (x + i * advance) y 46 color scale)
      in if len \<le> room then gfx_text font x y txt color scale s
         else if room \<le> 3 then draw_all (map dot [0..room - 1]) s
         else draw_all (map (\<lambda>i. gfx_char font (x + i * advance) y (txt ! nat i) color scale) [0..room - 3 - 1] @
                map dot [room - 3..room - 1]) s)"

definition gfx_text_width :: "cstr \<Rightarrow> int \<Rightarrow> int" where
  "gfx_text_width txt scale = int (strlen txt) * GLYPH_W * (if scale < 1 then 1 else scale)"

definition gfx_text_height :: "int \<Rightarrow> int" where
  "gfx_text_height scale = GLYPH_H * (if scale < 1 then 1 else scale)"

section \<open>Well-formed surfaces\<close>

definition in_clip :: "gfx_surface \<Rightarrow> int \<Rightarrow> int \<Rightarrow> bool" where
  "in_clip s X Y \<longleftrightarrow> r_x (clip s) \<le> X \<and> X < r_x (clip s) + r_w (clip s) \<and> r_y (clip s) \<le> Y \<and> Y < r_y (clip s) + r_h (clip s)"

definition in_rect :: "int \<Rightarrow> int \<Rightarrow> int \<Rightarrow> int \<Rightarrow> int \<Rightarrow> int \<Rightarrow> bool" where
  "in_rect x y w h X Y \<longleftrightarrow> x \<le> X \<and> X < x + w \<and> y \<le> Y \<and> Y < y + h"

text \<open>The rows are in memory, and every point of the clip rectangle is a point of the surface.\<close>

definition surf_ok :: "gfx_surface \<Rightarrow> bool" where
  "surf_ok s \<longleftrightarrow> 0 \<le> s_width s \<and> s_width s \<le> stride s \<and> 0 \<le> s_height s \<and> 0 < stride s \<and>
     s_height s * stride s \<le> int (length (pixels s)) \<and>
     (0 < r_w (clip s) \<longrightarrow> 0 < r_h (clip s) \<longrightarrow> 0 \<le> r_x (clip s) \<and> r_x (clip s) + r_w (clip s) \<le> s_width s \<and>
        0 \<le> r_y (clip s) \<and> r_y (clip s) + r_h (clip s) \<le> s_height s)"

definition same_shape :: "gfx_surface \<Rightarrow> gfx_surface \<Rightarrow> bool" where
  "same_shape s s' \<longleftrightarrow> s' = s\<lparr>pixels := pixels s'\<rparr> \<and> length (pixels s') = length (pixels s)"

lemma shape_fields:
  assumes "same_shape s s'"
  shows "s_width s' = s_width s" "s_height s' = s_height s" "stride s' = stride s" "clip s' = clip s"
    "length (pixels s') = length (pixels s)" "surf_ok s' = surf_ok s" "in_clip s' = in_clip s"
proof -
  have e: "s' = s\<lparr>pixels := pixels s'\<rparr>" and l: "length (pixels s') = length (pixels s)"
    using assms by (simp_all add: same_shape_def)
  show f: "s_width s' = s_width s" "s_height s' = s_height s" "stride s' = stride s" "clip s' = clip s"
    by (subst e, simp)+
  show "length (pixels s') = length (pixels s)" by (rule l)
  show "surf_ok s' = surf_ok s" "in_clip s' = in_clip s" by (simp_all add: surf_ok_def in_clip_def fun_eq_iff f l)
qed

lemma same_shape_refl: "same_shape s s"
  by (simp add: same_shape_def)

lemma same_shape_pixels: "length px = length (pixels s) \<Longrightarrow> same_shape s (s\<lparr>pixels := px\<rparr>)"
  by (simp add: same_shape_def)

text \<open>Clamping computes the intersection with the clip rectangle.\<close>

lemma clamp_none: "clamp_rect s x y w h = None \<Longrightarrow> \<not> (in_clip s X Y \<and> in_rect x y w h X Y)"
  by (auto simp: clamp_rect_def cut_low_def cut_high_def in_clip_def in_rect_def Let_def split: if_splits)

lemma clamp_some:
  assumes "clamp_rect s x y w h = Some (x1, y1, w1, h1)"
  shows "0 < w1" "0 < h1" "in_rect x1 y1 w1 h1 X Y \<longleftrightarrow> in_clip s X Y \<and> in_rect x y w h X Y"
  using assms by (auto simp: clamp_rect_def cut_low_def cut_high_def in_clip_def in_rect_def Let_def split: if_splits)

section \<open>Loops over pixels\<close>

lemma row_loop_spec:
  assumes "distinct cols"
    and "\<And>col. col \<in> set cols \<Longrightarrow> 0 \<le> base + col \<and> base + col < int (length px) \<and> f col (px ! nat (base + col)) \<noteq> None"
  shows "\<exists>px'. row_loop f base cols px = Some px' \<and> length px' = length px \<and>
    (\<forall>j < length px. px' ! j = (if int j - base \<in> set cols then the (f (int j - base) (px ! j)) else px ! j))"
  using assms
proof (induction cols arbitrary: px)
  case (Cons col cols)
  have c: "0 \<le> base + col" "base + col < int (length px)" using Cons.prems(2) [of col] by auto
  obtain new where new: "f col (px ! nat (base + col)) = Some new" using Cons.prems(2) [of col] by auto
  define px1 where "px1 = px[nat (base + col) := new]"
  have at: "px1 ! nat (base + k) = px ! nat (base + k)" if "k \<in> set cols" for k
  proof -
    have "k \<noteq> col" using Cons.prems(1) that by auto
    then have "nat (base + k) \<noteq> nat (base + col)" using Cons.prems(2) [of k] c that by auto
    then show ?thesis by (simp add: px1_def)
  qed
  have len: "length px1 = length px" by (simp add: px1_def)
  obtain px' where px': "row_loop f base cols px1 = Some px'" "length px' = length px1"
    "\<forall>j < length px1. px' ! j = (if int j - base \<in> set cols then the (f (int j - base) (px1 ! j)) else px1 ! j)"
    using Cons.IH [of px1] Cons.prems at len by auto
  have "row_loop f base (col # cols) px = Some px'"
    using c new px'(1) by (simp add: get_px_def set_px_def px1_def)
  moreover have "px' ! j = (if int j - base \<in> set (col # cols) then the (f (int j - base) (px ! j)) else px ! j)"
    if "j < length px" for j
  proof (cases "int j - base = col")
    case True
    then have "j = nat (base + col)" by auto
    moreover have "col \<notin> set cols" using Cons.prems(1) by simp
    ultimately show ?thesis using px'(3) that len True new by (simp add: px1_def)
  next
    case False
    then have "j \<noteq> nat (base + col)" using c by auto
    then show ?thesis using px'(3) that len False by (simp add: px1_def)
  qed
  ultimately show ?case using px'(2) len by auto
qed simp

text \<open>The coordinates of the pixel with index \<open>j\<close>.\<close>

definition px_x :: "int \<Rightarrow> nat \<Rightarrow> int" where "px_x st j = int j mod st"
definition px_y :: "int \<Rightarrow> nat \<Rightarrow> int" where "px_y st j = int j div st"

lemma row_index:
  assumes "0 \<le> x" and "x + w \<le> st" and "0 < st"
  shows "int j - (Y * st + x) \<in> set [0..w - 1] \<longleftrightarrow> px_y st j = Y \<and> x \<le> px_x st j \<and> px_x st j < x + w"
proof
  assume "int j - (Y * st + x) \<in> set [0..w - 1]"
  then have r: "0 \<le> int j - Y * st" "int j - Y * st < st" "x \<le> int j - Y * st" "int j - Y * st < x + w" using assms by auto
  have j: "int j = st * Y + (int j - Y * st)" by simp
  have "px_y st j = Y" "px_x st j = int j - Y * st"
    using int_div_pos_eq [OF j r(1,2)] int_mod_pos_eq [OF j r(1,2)] by (simp_all add: px_y_def px_x_def)
  then show "px_y st j = Y \<and> x \<le> px_x st j \<and> px_x st j < x + w" using r(3,4) by simp
next
  assume "px_y st j = Y \<and> x \<le> px_x st j \<and> px_x st j < x + w"
  moreover have "int j = px_y st j * st + px_x st j" by (simp add: px_y_def px_x_def)
  ultimately show "int j - (Y * st + x) \<in> set [0..w - 1]" by auto
qed

lemma rect_loop_spec:
  assumes "0 \<le> x" and "x + w \<le> st" and "0 < st" and "distinct rows"
    and "\<And>row. row \<in> set rows \<Longrightarrow> 0 \<le> y + row \<and> (y + row) * st + st \<le> int (length px)"
    and "\<And>row col j. row \<in> set rows \<Longrightarrow> 0 \<le> col \<Longrightarrow> col < w \<Longrightarrow> f row col (px ! j) \<noteq> None"
  shows "\<exists>px'. rect_loop f (\<lambda>row. (y + row) * st + x) w rows px = Some px' \<and> length px' = length px \<and>
    (\<forall>j < length px. px' ! j = (if px_y st j - y \<in> set rows \<and> x \<le> px_x st j \<and> px_x st j < x + w
       then the (f (px_y st j - y) (px_x st j - x) (px ! j)) else px ! j))"
proof -
  have "\<exists>px'. rect_loop f (\<lambda>row. (y + row) * st + x) w rs p = Some px' \<and> length px' = length px \<and>
    (\<forall>j < length px. px' ! j = (if px_y st j - y \<in> set rs \<and> x \<le> px_x st j \<and> px_x st j < x + w
       then the (f (px_y st j - y) (px_x st j - x) (p ! j)) else p ! j))"
    if "length p = length px" "distinct rs" "set rs \<subseteq> set rows"
      "\<And>row col j. row \<in> set rs \<Longrightarrow> 0 \<le> col \<Longrightarrow> col < w \<Longrightarrow> j < length px \<Longrightarrow> px_y st j = y + row \<Longrightarrow> f row col (p ! j) \<noteq> None" for rs p
    using that
  proof (induction rs arbitrary: p)
    case (Cons row rs)
    let ?b = "(y + row) * st + x"
    have r: "0 \<le> y + row" "(y + row) * st + st \<le> int (length px)" using assms(5) [of row] Cons.prems(3) by auto
    have ix: "0 \<le> ?b + col \<and> ?b + col < int (length p) \<and> f row col (p ! nat (?b + col)) \<noteq> None" if "col \<in> set [0..w - 1]" for col
    proof -
      have col: "0 \<le> col" "col < w" using that by auto
      have 0: "0 \<le> (y + row) * st" using r(1) assms(3) by simp
      have b: "0 \<le> ?b + col" "?b + col < int (length px)" using 0 col assms(1,2) r(2) by linarith+
      have "px_y st (nat (?b + col)) = y + row"
        using row_index [OF assms(1-3), of "nat (?b + col)" "y + row"] b(1) that by simp
      then show ?thesis using Cons.prems(4) [of row col "nat (?b + col)"] Cons.prems(1) col b by auto
    qed
    obtain p1 where p1: "row_loop (f row) ?b [0..w - 1] p = Some p1" "length p1 = length p"
      "\<And>j. j < length p \<Longrightarrow> p1 ! j = (if int j - ?b \<in> set [0..w - 1] then the (f row (int j - ?b) (p ! j)) else p ! j)"
      using row_loop_spec [of "[0..w - 1]" ?b p "f row"] ix by auto
    have p1': "p1 ! j = (if px_y st j = y + row \<and> x \<le> px_x st j \<and> px_x st j < x + w
        then the (f row (px_x st j - x) (p ! j)) else p ! j)" if "j < length p" for j
    proof -
      have "the (f row (int j - ?b) (p ! j)) = the (f row (px_x st j - x) (p ! j))" if "px_y st j = y + row"
      proof -
        have "int j - ?b = px_x st j - x" using that mult_div_mod_eq [of st "int j"] by (simp add: px_y_def px_x_def algebra_simps)
        then show ?thesis by (simp only:)
      qed
      then show ?thesis using p1(3) [OF that] row_index [OF assms(1-3), of j "y + row"] by simp
    qed
    obtain px' where px': "rect_loop f (\<lambda>row. (y + row) * st + x) w rs p1 = Some px'" "length px' = length px"
      "\<forall>j < length px. px' ! j = (if px_y st j - y \<in> set rs \<and> x \<le> px_x st j \<and> px_x st j < x + w
         then the (f (px_y st j - y) (px_x st j - x) (p1 ! j)) else p1 ! j)"
    proof -
      have "f r col (p1 ! j) \<noteq> None" if "r \<in> set rs" "0 \<le> col" "col < w" "j < length px" "px_y st j = y + r" for r col j
      proof -
        have "p1 ! j = p ! j" using p1' [of j] that Cons.prems(1,2) by auto
        then show ?thesis using Cons.prems(4) [of r col j] that by simp
      qed
      then show thesis using Cons.IH [of p1] Cons.prems(1-3) p1(2) that by auto
    qed
    have "px' ! j = (if px_y st j - y \<in> set (row # rs) \<and> x \<le> px_x st j \<and> px_x st j < x + w
         then the (f (px_y st j - y) (px_x st j - x) (p ! j)) else p ! j)" if j: "j < length px" for j
      using px'(3) j p1' [of j] Cons.prems(1,2) by (cases "px_y st j - y = row") auto
    then show ?case using p1(1) px'(1,2) by simp
  qed simp
  then show ?thesis using assms(4,6) by auto
qed

section \<open>Painting\<close>

lemma paint_rect_spec:
  assumes ok: "surf_ok s" and pos: "0 < w" "0 < h" and inside: "\<And>X Y. in_rect x y w h X Y \<Longrightarrow> in_clip s X Y"
    and total: "\<And>row col old. 0 \<le> row \<Longrightarrow> row < h \<Longrightarrow> 0 \<le> col \<Longrightarrow> col < w \<Longrightarrow> f row col old \<noteq> None"
  obtains s' where "paint_rect f x y w h s = Some s'" "same_shape s s'"
    "\<And>j. j < length (pixels s) \<Longrightarrow> pixels s' ! j =
      (if in_rect x y w h (px_x (stride s) j) (px_y (stride s) j)
       then the (f (px_y (stride s) j - y) (px_x (stride s) j - x) (pixels s ! j)) else pixels s ! j)"
proof -
  have lo: "in_clip s x y" and hi: "in_clip s (x + w - 1) (y + h - 1)" using inside pos by (simp_all add: in_rect_def)
  have "0 < r_w (clip s)" "0 < r_h (clip s)" using lo by (auto simp: in_clip_def)
  then have c: "0 \<le> r_x (clip s)" "r_x (clip s) + r_w (clip s) \<le> s_width s" "0 \<le> r_y (clip s)"
    "r_y (clip s) + r_h (clip s) \<le> s_height s" using ok by (auto simp: surf_ok_def)
  have g: "0 \<le> x" "x + w \<le> stride s" "0 < stride s" "0 \<le> y" "y + h \<le> s_height s"
    using lo hi c ok by (auto simp: in_clip_def surf_ok_def)
  have rows: "0 \<le> y + row \<and> (y + row) * stride s + stride s \<le> int (length (pixels s))" if "row \<in> set [0..h - 1]" for row
  proof -
    have "y + row + 1 \<le> s_height s" using that g(5) by auto
    then have "(y + row + 1) * stride s \<le> s_height s * stride s" using g(3) by (intro mult_right_mono) auto
    also have "\<dots> \<le> int (length (pixels s))" using ok by (simp add: surf_ok_def)
    finally show ?thesis using that g(4) by (auto simp: algebra_simps)
  qed
  obtain px where px: "rect_loop f (\<lambda>row. (y + row) * stride s + x) w [0..h - 1] (pixels s) = Some px"
    "length px = length (pixels s)"
    "\<forall>j < length (pixels s). px ! j = (if px_y (stride s) j - y \<in> set [0..h - 1] \<and> x \<le> px_x (stride s) j \<and> px_x (stride s) j < x + w
       then the (f (px_y (stride s) j - y) (px_x (stride s) j - x) (pixels s ! j)) else pixels s ! j)"
  proof -
    have "f row col (pixels s ! j) \<noteq> None" if "row \<in> set [0..h - 1]" "0 \<le> col" "col < w" for row col j
      using that total by simp
    from rect_loop_spec [where f = f and y = y, OF g(1-3) distinct_upto rows this] show thesis using that by blast
  qed
  show ?thesis
  proof (rule that [of "s\<lparr>pixels := px\<rparr>"])
    show "paint_rect f x y w h s = Some (s\<lparr>pixels := px\<rparr>)" by (simp add: paint_rect_def px(1))
    show "same_shape s (s\<lparr>pixels := px\<rparr>)" by (rule same_shape_pixels [OF px(2)])
  qed (use px(3) in \<open>auto simp: in_rect_def\<close>)
qed

definition at_px :: "(int \<Rightarrow> int \<Rightarrow> bool) \<Rightarrow> gfx_surface \<Rightarrow> nat \<Rightarrow> bool" where
  "at_px P s j \<longleftrightarrow> P (px_x (stride s) j) (px_y (stride s) j)"

lemma at_px_shape: "same_shape s s' \<Longrightarrow> at_px P s' = at_px P s"
  by (simp add: at_px_def fun_eq_iff shape_fields)

text \<open>Rewriting the visible part of a rectangle.\<close>

lemma paint_clamped:
  assumes ok: "surf_ok s" and total: "\<And>row col old. f row col old \<noteq> None"
  obtains s' where "(case clamp_rect s x y w h of None \<Rightarrow> Some s | Some (x1, y1, w1, h1) \<Rightarrow> paint_rect f x1 y1 w1 h1 s) = Some s'"
    "same_shape s s'" "\<And>j. j < length (pixels s) \<Longrightarrow> \<not> (at_px (in_clip s) s j \<and> at_px (in_rect x y w h) s j) \<Longrightarrow> pixels s' ! j = pixels s ! j"
    "\<And>j. j < length (pixels s) \<Longrightarrow> at_px (in_clip s) s j \<Longrightarrow> at_px (in_rect x y w h) s j \<Longrightarrow>
       \<exists>row col. pixels s' ! j = the (f row col (pixels s ! j))"
proof (cases "clamp_rect s x y w h")
  case None
  show thesis
    by (rule that [of s]) (use None clamp_none [OF None] in \<open>auto simp: same_shape_refl at_px_def\<close>)
next
  case (Some r)
  obtain x1 y1 w1 h1 where r: "clamp_rect s x y w h = Some (x1, y1, w1, h1)" using Some by (cases r) auto
  note c = clamp_some [OF r]
  obtain s' where s': "paint_rect f x1 y1 w1 h1 s = Some s'" "same_shape s s'"
    "\<And>j. j < length (pixels s) \<Longrightarrow> pixels s' ! j =
      (if in_rect x1 y1 w1 h1 (px_x (stride s) j) (px_y (stride s) j)
       then the (f (px_y (stride s) j - y1) (px_x (stride s) j - x1) (pixels s ! j)) else pixels s ! j)"
    using paint_rect_spec [OF ok c(1,2)] c(3) total by blast
  show thesis
    by (rule that [of s']) (use s' r c(3) in \<open>auto simp: at_px_def\<close>)
qed

lemma fill_rect_spec:
  assumes ok: "surf_ok s"
  obtains s' where "gfx_fill_rect x y w h color s = Some s'" "same_shape s s'"
    "\<And>j. j < length (pixels s) \<Longrightarrow> pixels s' ! j =
      (if at_px (in_clip s) s j \<and> at_px (in_rect x y w h) s j then color else pixels s ! j)"
proof -
  obtain s' where s': "gfx_fill_rect x y w h color s = Some s'" "same_shape s s'"
    "\<And>j. j < length (pixels s) \<Longrightarrow> \<not> (at_px (in_clip s) s j \<and> at_px (in_rect x y w h) s j) \<Longrightarrow> pixels s' ! j = pixels s ! j"
    "\<And>j. j < length (pixels s) \<Longrightarrow> at_px (in_clip s) s j \<Longrightarrow> at_px (in_rect x y w h) s j \<Longrightarrow> pixels s' ! j = color"
    by (rule paint_clamped [OF ok, of "\<lambda>_ _ _. Some color" x y w h, folded gfx_fill_rect_def]) auto
  then show thesis using that by simp
qed

section \<open>Drawing stays inside the clip rectangle\<close>

definition confined :: "gfx_surface \<Rightarrow> gfx_surface \<Rightarrow> bool" where
  "confined s s' \<longleftrightarrow> same_shape s s' \<and>
     (\<forall>j < length (pixels s). \<not> at_px (in_clip s) s j \<longrightarrow> pixels s' ! j = pixels s ! j)"

text \<open>A drawing operation that makes no access outside the pixels and changes nothing outside the clip rectangle.\<close>

definition safe :: "(gfx_surface \<Rightarrow> gfx_surface option) \<Rightarrow> bool" where
  "safe d \<longleftrightarrow> (\<forall>s. surf_ok s \<longrightarrow> (\<exists>s'. d s = Some s' \<and> confined s s'))"

named_theorems safe_intros

lemma confined_refl: "confined s s"
  by (simp add: confined_def same_shape_refl)

lemma confined_trans: "confined s s1 \<Longrightarrow> confined s1 s2 \<Longrightarrow> confined s s2"
proof -
  assume a: "confined s s1" "confined s1 s2"
  then have sh: "same_shape s s1" "same_shape s1 s2" by (simp_all add: confined_def)
  note f = shape_fields [OF sh(1)]
  have "pixels s2 ! j = pixels s ! j" if "j < length (pixels s)" "\<not> at_px (in_clip s) s j" for j
    using a that f by (simp add: confined_def at_px_def)
  moreover have "same_shape s s2"
  proof -
    have "s2 = (s\<lparr>pixels := pixels s1\<rparr>)\<lparr>pixels := pixels s2\<rparr>" using sh unfolding same_shape_def by metis
    then show ?thesis using sh by (simp add: same_shape_def)
  qed
  ultimately show ?thesis by (simp add: confined_def)
qed

lemma safe_skip [safe_intros]: "safe Some"
  by (simp add: safe_def confined_refl)

lemma safe_bind: "safe d \<Longrightarrow> safe e \<Longrightarrow> safe (\<lambda>s. d s \<bind> e)"
  unfolding safe_def by (metis bind.bind_lunit confined_def confined_trans shape_fields(6))

lemma safe_draw_all [safe_intros]: "(\<And>d. d \<in> set ds \<Longrightarrow> safe d) \<Longrightarrow> safe (draw_all ds)"
proof (induction ds)
  case (Cons d ds)
  then have "safe (\<lambda>s. d s \<bind> draw_all ds)" by (intro safe_bind) auto
  then show ?case by (simp add: fun_eq_iff safe_def)
qed (simp add: safe_def confined_refl)

lemma safe_if [safe_intros]: "(b \<Longrightarrow> safe d) \<Longrightarrow> (\<not> b \<Longrightarrow> safe e) \<Longrightarrow> safe (if b then d else e)"
  by simp

lemma safe_fill [safe_intros]: "safe (gfx_fill_rect x y w h color)"
  unfolding safe_def confined_def using fill_rect_spec by metis

lemma safe_lines [safe_intros]: "safe (gfx_hline x y w color)" "safe (gfx_vline x y h color)"
  using safe_fill by (simp_all add: safe_def gfx_hline_def gfx_vline_def)

lemma safe_pixel [safe_intros]: "safe (gfx_pixel x y color)"
  unfolding safe_def
proof (intro allI impI)
  fix s assume ok: "surf_ok s"
  show "\<exists>s'. gfx_pixel x y color s = Some s' \<and> confined s s'"
  proof (cases "in_clip s x y")
    case False
    then show ?thesis using confined_refl by (auto simp: gfx_pixel_def Let_def in_clip_def)
  next
    case True
    then have c: "0 \<le> x" "x < s_width s" "0 \<le> y" "y < s_height s" using ok by (auto simp: in_clip_def surf_ok_def)
    let ?i = "y * stride s + x"
    have st: "0 < stride s" "x < stride s" using ok c by (auto simp: surf_ok_def)
    have "(y + 1) * stride s \<le> s_height s * stride s" using c(4) st(1) by (intro mult_right_mono) auto
    then have i: "0 \<le> ?i" "?i < int (length (pixels s))" using ok c st by (auto simp: surf_ok_def algebra_simps)
    let ?s = "s\<lparr>pixels := (pixels s)[nat ?i := color]\<rparr>"
    have "gfx_pixel x y color s = Some ?s"
      using True i by (auto simp: gfx_pixel_def Let_def in_clip_def set_px_def)
    moreover have "at_px (in_clip s) s (nat ?i)"
    proof -
      have "int (nat ?i) = stride s * y + x" using i(1) by (simp add: mult.commute)
      then have "px_y (stride s) (nat ?i) = y" "px_x (stride s) (nat ?i) = x"
        unfolding px_y_def px_x_def using int_div_pos_eq int_mod_pos_eq c(1) st(2) by metis+
      then show ?thesis using True by (simp add: at_px_def)
    qed
    then have "confined s ?s" unfolding confined_def using same_shape_pixels [of "(pixels s)[nat ?i := color]" s]
      by simp (metis nth_list_update_neq)
    ultimately show ?thesis by blast
  qed
qed

lemma safe_blend [safe_intros]: "safe (gfx_blend_rect x y w h color)"
  unfolding safe_def
proof (intro allI impI)
  fix s assume ok: "surf_ok s"
  consider "COLOR_A color = 255" | "COLOR_A color = 0" | "COLOR_A color \<noteq> 255" "COLOR_A color \<noteq> 0" by blast
  then show "\<exists>s'. gfx_blend_rect x y w h color s = Some s' \<and> confined s s'"
  proof cases
    case 1
    then show ?thesis using safe_fill ok by (simp add: gfx_blend_rect_def safe_def)
  next
    case 2
    then show ?thesis using confined_refl by (simp add: gfx_blend_rect_def)
  next
    case 3
    let ?f = "\<lambda>_ _ dst. Some (blend (COLOR_A color) color dst)"
    have e: "gfx_blend_rect x y w h color s =
        (case clamp_rect s x y w h of None \<Rightarrow> Some s | Some (x1, y1, w1, h1) \<Rightarrow> paint_rect ?f x1 y1 w1 h1 s)"
      using 3 by (simp add: gfx_blend_rect_def)
    show ?thesis
      unfolding e by (rule paint_clamped [OF ok, of ?f x y w h]) (auto simp: confined_def)
  qed
qed

lemma safe_if_app [safe_intros]: "(b \<Longrightarrow> safe d) \<Longrightarrow> (\<not> b \<Longrightarrow> safe e) \<Longrightarrow> safe (\<lambda>s. if b then d s else e s)"
  by (cases b) simp_all

lemma safe_shapes [safe_intros]:
  "safe (gfx_frame_rect x y w h color)" "safe (gfx_round_rect x y w h radius color)" "safe (gfx_circle x y radius color)"
  "safe (gfx_gradient_v x y w h tp bottom)"
  unfolding gfx_frame_rect_def [abs_def] gfx_round_rect_def [abs_def] gfx_circle_def [abs_def] gfx_gradient_v_def [abs_def] Let_def
  by (intro safe_intros safe_bind; auto intro!: safe_intros)+

lemma safe_char [safe_intros]: "safe (gfx_char font x y c color scale)"
  unfolding gfx_char_def [abs_def] Let_def by (intro safe_intros) (auto intro!: safe_intros)

lemma safe_text_loop: "safe (text_loop font x y cs color scale)"
proof (induction cs arbitrary: x y)
  case (Cons c cs)
  have "text_loop font x y (c # cs) color scale = (\<lambda>s. if c = 0 then Some s else
      if c = 10 then text_loop font x (y + GLYPH_H * scale) cs color scale s
      else gfx_char font x y c color scale s \<bind> text_loop font (x + GLYPH_W * scale) y cs color scale)"
    by (simp add: fun_eq_iff)
  then show ?case using Cons by (simp only:) (intro safe_intros safe_bind)
qed (simp add: safe_def confined_refl)

lemma safe_text [safe_intros]: "safe (gfx_text font x y cs color scale)" "safe (gfx_text_clipped font x y cs color scale mw)"
proof -
  show t: "safe (gfx_text font x y cs color scale)" for x y cs
    unfolding gfx_text_def [abs_def] by (rule safe_text_loop)
  show "safe (gfx_text_clipped font x y cs color scale mw)"
    unfolding gfx_text_clipped_def [abs_def] Let_def by (intro safe_intros t) (auto intro!: safe_intros)
qed

lemma cut_eq: "cut_high hi (cut_low lo (x, w)) = (max x lo, min (x + w) hi - max x lo)"
  by (simp add: cut_high_def cut_low_def max_def min_def)

lemma clip_set_ok:
  assumes "surf_ok s"
  shows "in_clip (gfx_clip_set x y w h s) X Y \<longleftrightarrow> in_rect x y w h X Y \<and> 0 \<le> X \<and> X < s_width s \<and> 0 \<le> Y \<and> Y < s_height s"
    and "surf_ok (gfx_clip_set x y w h s)"
proof -
  show "in_clip (gfx_clip_set x y w h s) X Y \<longleftrightarrow> in_rect x y w h X Y \<and> 0 \<le> X \<and> X < s_width s \<and> 0 \<le> Y \<and> Y < s_height s"
    by (auto simp: gfx_clip_set_def cut_eq in_clip_def in_rect_def)
  show "surf_ok (gfx_clip_set x y w h s)"
    using assms by (simp add: surf_ok_def gfx_clip_set_def cut_eq)
qed

lemma surface_init_ok:
  assumes "0 \<le> w" "w \<le> st" "0 \<le> h" "0 < st" "h * st \<le> int (length px)"
  shows "surf_ok (gfx_surface_init px w h st)"
  using assms by (simp add: surf_ok_def gfx_surface_init_def gfx_clip_reset_def)

section \<open>Copying\<close>

lemma draw_rows:
  assumes "surf_ok s"
    and "\<And>row t. row \<in> set rows \<Longrightarrow> same_shape s t \<Longrightarrow> \<exists>t'. d row t = Some t' \<and> same_shape t t' \<and>
      (\<forall>j < length (pixels s). pixels t' ! j = (if P row j then g j else pixels t ! j))"
  shows "\<exists>s'. draw_all (map d rows) s = Some s' \<and> same_shape s s' \<and>
    (\<forall>j < length (pixels s). pixels s' ! j = (if \<exists>row \<in> set rows. P row j then g j else pixels s ! j))"
proof -
  have "\<exists>s'. draw_all (map d rs) t = Some s' \<and> same_shape s s' \<and>
      (\<forall>j < length (pixels s). pixels s' ! j = (if \<exists>row \<in> set rs. P row j then g j else pixels t ! j))"
    if "set rs \<subseteq> set rows" "same_shape s t" for rs t
    using that
  proof (induction rs arbitrary: t)
    case (Cons row rs)
    then obtain t' where t': "d row t = Some t'" "same_shape t t'"
      "\<forall>j < length (pixels s). pixels t' ! j = (if P row j then g j else pixels t ! j)"
      using assms(2) [of row t] by auto
    have sh: "same_shape s t'"
    proof -
      have "t' = (s\<lparr>pixels := pixels t\<rparr>)\<lparr>pixels := pixels t'\<rparr>" using Cons.prems(2) t'(2) unfolding same_shape_def by metis
      then show ?thesis using Cons.prems(2) t'(2) by (simp add: same_shape_def)
    qed
    show ?case using Cons.IH [OF _ sh] Cons.prems(1) t'(1,3) by auto
  qed simp
  then show ?thesis using same_shape_refl by blast
qed

definition blit_index :: "gfx_surface \<Rightarrow> int \<Rightarrow> int \<Rightarrow> int \<Rightarrow> int \<Rightarrow> int \<Rightarrow> int \<Rightarrow> int" where
  "blit_index src sx sy dx dy X Y = (sy + (Y - dy)) * stride src + sx + (X - dx)"

lemma blit_row:
  assumes ok: "surf_ok dst" and src: "0 < stride src" "s_height src * stride src \<le> int (length (pixels src))"
    and sx: "0 \<le> sx" "sx + w \<le> stride src"
    and r: "clamp_rect dst dx dy w h = Some (x1, y1, w1, h1)" and row: "0 \<le> row" "row < h1"
    and "0 \<le> sy + (y1 - dy) + row" "sy + (y1 - dy) + row < s_height src"
  shows "\<exists>t'. paint_rect (\<lambda>_ col _. get_px (pixels src) ((sy + (y1 - dy) + row) * stride src + (sx + (x1 - dx)) + col)) x1 (y1 + row) w1 1 dst = Some t' \<and>
    same_shape dst t' \<and> (\<forall>j < length (pixels dst). pixels t' ! j =
      (if at_px (in_rect x1 (y1 + row) w1 1) dst j
       then pixels src ! nat (blit_index src sx sy dx dy (px_x (stride dst) j) (px_y (stride dst) j)) else pixels dst ! j))"
proof -
  note c = clamp_some [OF r]
  let ?Y = "sy + (y1 - dy) + row" and ?sx = "sx + (x1 - dx)"
  have "in_rect x1 y1 w1 h1 x1 y1" "in_rect x1 y1 w1 h1 (x1 + w1 - 1) y1" using c(1,2) by (simp_all add: in_rect_def)
  then have xs: "dx \<le> x1" "x1 + w1 \<le> dx + w" unfolding c(3) by (auto simp: in_rect_def)
  have ix: "get_px (pixels src) (?Y * stride src + ?sx + col) = Some (pixels src ! nat (?Y * stride src + ?sx + col))"
    if "0 \<le> col" "col < w1" for col
  proof -
    have "(?Y + 1) * stride src \<le> s_height src * stride src" using assms(10) src(1) by (intro mult_right_mono) auto
    moreover have "?sx + col < stride src" "0 \<le> ?sx + col" using that xs sx by auto
    moreover have "0 \<le> ?Y * stride src" using assms(9) src(1) by simp
    ultimately have "0 \<le> ?Y * stride src + ?sx + col" "?Y * stride src + ?sx + col < int (length (pixels src))"
      using src(2) by (auto simp: algebra_simps)
    then show ?thesis by (simp add: get_px_def)
  qed
  have inside: "in_clip dst X Y" if "in_rect x1 (y1 + row) w1 1 X Y" for X Y
  proof -
    have "in_rect x1 y1 w1 h1 X Y" using that row by (auto simp: in_rect_def)
    then show ?thesis using c(3) by simp
  qed
  obtain t' where t': "paint_rect (\<lambda>_ col _. get_px (pixels src) (?Y * stride src + ?sx + col)) x1 (y1 + row) w1 1 dst = Some t'"
    "same_shape dst t'"
    "\<And>j. j < length (pixels dst) \<Longrightarrow> pixels t' ! j =
      (if in_rect x1 (y1 + row) w1 1 (px_x (stride dst) j) (px_y (stride dst) j)
       then the (get_px (pixels src) (?Y * stride src + ?sx + (px_x (stride dst) j - x1))) else pixels dst ! j)"
    by (rule paint_rect_spec [OF ok c(1), where h = 1 and x = x1 and y = "y1 + row" and
        f = "\<lambda>_ col _. get_px (pixels src) (?Y * stride src + ?sx + col)"]) (auto simp: inside ix)
  have "pixels t' ! j = (if at_px (in_rect x1 (y1 + row) w1 1) dst j
       then pixels src ! nat (blit_index src sx sy dx dy (px_x (stride dst) j) (px_y (stride dst) j)) else pixels dst ! j)"
    if j: "j < length (pixels dst)" for j
  proof (cases "at_px (in_rect x1 (y1 + row) w1 1) dst j")
    case True
    then have X: "0 \<le> px_x (stride dst) j - x1" "px_x (stride dst) j - x1 < w1" "px_y (stride dst) j = y1 + row"
      by (auto simp: at_px_def in_rect_def)
    have "?Y * stride src + ?sx + (px_x (stride dst) j - x1) = blit_index src sx sy dx dy (px_x (stride dst) j) (px_y (stride dst) j)"
      unfolding blit_index_def X(3) by (simp add: algebra_simps)
    then show ?thesis using t'(3) [OF j] ix [OF X(1,2)] True by (simp add: at_px_def)
  next
    case False
    then show ?thesis using t'(3) [OF j] by (simp add: at_px_def)
  qed
  then show ?thesis using t'(1,2) by blast
qed

lemma blit_spec:
  assumes ok: "surf_ok dst" and src: "0 < stride src" "s_height src * stride src \<le> int (length (pixels src))"
    and sx: "0 \<le> sx" "sx + w \<le> stride src"
  shows "\<exists>dst'. gfx_blit dx dy src sx sy w h dst = Some dst' \<and> same_shape dst dst' \<and>
    (\<forall>j < length (pixels dst). let X = px_x (stride dst) j; Y = px_y (stride dst) j in pixels dst' ! j =
       (if in_clip dst X Y \<and> in_rect dx dy w h X Y \<and> 0 \<le> sy + (Y - dy) \<and> sy + (Y - dy) < s_height src
        then pixels src ! nat (blit_index src sx sy dx dy X Y) else pixels dst ! j))"
proof (cases "clamp_rect dst dx dy w h")
  case None
  then show ?thesis
    unfolding gfx_blit_def None option.case Let_def using clamp_none [OF None]
    by (intro exI [of _ dst]) (auto simp: same_shape_refl)
next
  case (Some q)
  obtain x1 y1 w1 h1 where r: "clamp_rect dst dx dy w h = Some (x1, y1, w1, h1)" using Some by (cases q) auto
  let ?d = "\<lambda>row t. if sy + (y1 - dy) + row < 0 \<or> s_height src \<le> sy + (y1 - dy) + row then Some t
      else paint_rect (\<lambda>_ col _. get_px (pixels src) ((sy + (y1 - dy) + row) * stride src + (sx + (x1 - dx)) + col)) x1 (y1 + row) w1 1 t"
  let ?P = "\<lambda>row j. 0 \<le> sy + (y1 - dy) + row \<and> sy + (y1 - dy) + row < s_height src \<and> at_px (in_rect x1 (y1 + row) w1 1) dst j"
  let ?g = "\<lambda>j. pixels src ! nat (blit_index src sx sy dx dy (px_x (stride dst) j) (px_y (stride dst) j))"
  have step: "\<exists>t'. ?d row t = Some t' \<and> same_shape t t' \<and>
      (\<forall>j < length (pixels dst). pixels t' ! j = (if ?P row j then ?g j else pixels t ! j))"
    if "row \<in> set [0..h1 - 1]" "same_shape dst t" for row t
  proof (cases "sy + (y1 - dy) + row < 0 \<or> s_height src \<le> sy + (y1 - dy) + row")
    case True
    then show ?thesis by (auto simp: same_shape_refl)
  next
    case False
    note f = shape_fields [OF that(2)]
    have "clamp_rect t dx dy w h = Some (x1, y1, w1, h1)" using r by (simp add: clamp_rect_def f)
    from blit_row [OF _ src sx this, of row sy] False that f ok show ?thesis by (auto simp: at_px_def)
  qed
  obtain dst' where d': "draw_all (map ?d [0..h1 - 1]) dst = Some dst'" "same_shape dst dst'"
    "\<forall>j < length (pixels dst). pixels dst' ! j = (if \<exists>row \<in> set [0..h1 - 1]. ?P row j then ?g j else pixels dst ! j)"
    using draw_rows [OF ok, of "[0..h1 - 1]" ?d ?P ?g] step by blast
  have "(\<exists>row \<in> set [0..h1 - 1]. ?P row j) \<longleftrightarrow> in_clip dst (px_x (stride dst) j) (px_y (stride dst) j) \<and>
      in_rect dx dy w h (px_x (stride dst) j) (px_y (stride dst) j) \<and> 0 \<le> sy + (px_y (stride dst) j - dy) \<and>
      sy + (px_y (stride dst) j - dy) < s_height src" (is "?L \<longleftrightarrow> ?R") for j
  proof -
    have "?L \<longleftrightarrow> in_rect x1 y1 w1 h1 (px_x (stride dst) j) (px_y (stride dst) j) \<and> 0 \<le> sy + (px_y (stride dst) j - dy) \<and>
        sy + (px_y (stride dst) j - dy) < s_height src"
    proof
      assume ?L
      then show "in_rect x1 y1 w1 h1 (px_x (stride dst) j) (px_y (stride dst) j) \<and> 0 \<le> sy + (px_y (stride dst) j - dy) \<and>
        sy + (px_y (stride dst) j - dy) < s_height src" by (auto simp: at_px_def in_rect_def)
    next
      assume a: "in_rect x1 y1 w1 h1 (px_x (stride dst) j) (px_y (stride dst) j) \<and> 0 \<le> sy + (px_y (stride dst) j - dy) \<and>
        sy + (px_y (stride dst) j - dy) < s_height src"
      then show ?L by (intro bexI [of _ "px_y (stride dst) j - y1"]) (auto simp: at_px_def in_rect_def)
    qed
    then show ?thesis unfolding clamp_some(3) [OF r] by blast
  qed
  then show ?thesis
    using d' unfolding gfx_blit_def r option.case prod.case Let_def by auto
qed

section \<open>Properties\<close>


text \<open>
  \<^verbatim>\<open>gfx_blit\<close> copies exactly the visible part: a pixel of the destination inside the clip
  rectangle and the target rectangle gets the pixel at the corresponding position of the source when that row of the
  source exists, and every other pixel keeps its value.
\<close>

lemma gfx_blit_exact:
  assumes "surf_ok dst" and "0 < stride src" and "s_height src * stride src \<le> int (length (pixels src))"
    and "0 \<le> sx" and "sx + w \<le> stride src"
  shows "\<exists>dst'. gfx_blit dx dy src sx sy w h dst = Some dst' \<and> same_shape dst dst' \<and>
    (\<forall>j < length (pixels dst). let X = px_x (stride dst) j; Y = px_y (stride dst) j in pixels dst' ! j =
       (if in_clip dst X Y \<and> in_rect dx dy w h X Y \<and> 0 \<le> sy + (Y - dy) \<and> sy + (Y - dy) < s_height src
        then pixels src ! nat (blit_index src sx sy dx dy X Y) else pixels dst ! j))"
  by (rule blit_spec [OF assms])

text \<open>
  \<^verbatim>\<open>gfx_fill_rect\<close> paints exactly the points the rectangle and the clip rectangle have in common.
\<close>

lemma gfx_fill_rect_exact:
  assumes "surf_ok s"
  shows "\<exists>s'. gfx_fill_rect x y w h color s = Some s' \<and> same_shape s s' \<and>
    (\<forall>j < length (pixels s). let X = px_x (stride s) j; Y = px_y (stride s) j in
       pixels s' ! j = (if in_clip s X Y \<and> in_rect x y w h X Y then color else pixels s ! j))"
  using fill_rect_spec [OF assms, of x y w h color] unfolding at_px_def Let_def by metis

end
