(* ===== verification/Proc.thy ===== *)
theory Proc
  imports Sched Elf
begin

text \<open>
  \<^verbatim>\<open>kernel/proc.c\<close>: the process table, the break of a user heap, the first stack of a program, spawning, waiting,
  killing and reaping.  A pointer into the process table is the index of the slot; slot 0 is the kernel process, so
  \<^verbatim>\<open>proc == kernel_process\<close> is the test \<open>i = 0\<close>.  The copy of the kernel's address space in slot 0 is never used
  and is not represented.  String arguments are never null, and \<^verbatim>\<open>argv\<close> is the list of its
  pointers up to a null pointer.  The addresses of \<^verbatim>\<open>process_entry\<close> and of the array \<^verbatim>\<open>pending\<close> are fixed by the
  linker; they are the arguments \<open>pe\<close> and \<open>pend\<close>.
\<close>

unbundle bit_operations_syntax

definition USER_STACK_PAGES :: u32 where "USER_STACK_PAGES = 16"
definition ARG_AREA_MAX :: nat where "ARG_AREA_MAX = 1024"
definition MAX_USER_IMAGE_SIZE :: nat where "MAX_USER_IMAGE_SIZE = 4 * 1048576"
definition USER_STACK_TOP :: u32 where "USER_STACK_TOP = 0x40800000"

definition zero_process :: process where
  "zero_process = \<lparr>pid = 0, parent = 0, pname = replicate PROC_NAME_MAX 0, pstate = PROC_FREE, pexit_code = 0, main_tid = 0,
     brk_start = 0, brk = 0, stack_top = 0, cwd = replicate FS_PATH_MAX 0, started_ms = 0, user_pages = 0, cleaned = False\<rparr>"

section \<open>The table\<close>

definition proc_current :: "sys \<Rightarrow> nat" where
  "proc_current s =
     (case thread_current s of
        Some t \<Rightarrow> (case proc (tcb s t) of Some i \<Rightarrow> i | None \<Rightarrow> 0)
      | None \<Rightarrow> 0)"

definition proc_by_pid :: "int \<Rightarrow> sys \<Rightarrow> nat option" where
  "proc_by_pid p s = find (\<lambda>i. pstate (table s ! i) \<noteq> PROC_FREE \<and> pid (table s ! i) = p) [0..<MAX_PROCESSES]"

definition proc_count :: "sys \<Rightarrow> nat" where
  "proc_count s = length (filter (\<lambda>i. pstate (table s ! i) \<noteq> PROC_FREE) [0..<MAX_PROCESSES])"

definition proc_foreach :: "(process \<Rightarrow> 'c \<Rightarrow> 'c) \<Rightarrow> sys \<Rightarrow> 'c \<Rightarrow> 'c" where
  "proc_foreach fn s ctx =
     fold (\<lambda>i c. if pstate (table s ! i) \<noteq> PROC_FREE then fn (table s ! i) c else c) [0..<MAX_PROCESSES] ctx"

definition proc_init :: "sys \<Rightarrow> sys" where
  "proc_init s =
     s\<lparr>table := (replicate MAX_PROCESSES zero_process)[0 := zero_process\<lparr>pid := 0, parent := 0, pstate := PROC_RUNNING,
         pname := name_field PROC_NAME_MAX kernel_name, cwd := name_field FS_PATH_MAX [47]\<rparr>]\<rparr>"

definition allocate :: "sys \<Rightarrow> nat option \<times> sys" where
  "allocate s =
     (case find (\<lambda>i. pstate (table s ! i) = PROC_FREE) [1..<MAX_PROCESSES] of
        Some i \<Rightarrow> (Some i, s)
      | None \<Rightarrow>
          (case find (\<lambda>i. pstate (table s ! i) = PROC_ZOMBIE \<and> cleaned (table s ! i)) [1..<MAX_PROCESSES] of
             Some i \<Rightarrow> (Some i, upd_proc i (\<lambda>p. p\<lparr>pstate := PROC_FREE\<rparr>) s)
           | None \<Rightarrow> (None, s)))"

section \<open>User memory\<close>

definition proc_user_range_ok :: "virt_addr \<Rightarrow> u32 \<Rightarrow> sys \<Rightarrow> bool" where
  "proc_user_range_ok ptr n s =
     (let i = proc_current s in if i = 0 then False else vmm_access_ok_in (Proc_space i) ptr n False (kvm_of s))"

definition proc_user_write_ok :: "virt_addr \<Rightarrow> u32 \<Rightarrow> sys \<Rightarrow> bool" where
  "proc_user_write_ok ptr n s =
     (let i = proc_current s in if i = 0 then False else vmm_access_ok_in (Proc_space i) ptr n True (kvm_of s))"

text \<open>
  The loop copies into the buffer \<open>out\<close>; \<open>n\<close> is what is left of \<^verbatim>\<open>size - 1\<close>.  The kernel reads user memory through the
  page tables of the current process; a byte that is not mapped is \<open>None\<close>, a page fault in the kernel.
\<close>

fun copy_string_loop :: "nat \<Rightarrow> nat \<Rightarrow> virt_addr \<Rightarrow> u8 list \<Rightarrow> sys \<Rightarrow> (int \<times> u8 list) option" where
  "copy_string_loop 0 i ptr out s = Some (- 1, out[i := 0])"
| "copy_string_loop (Suc n) i ptr out s =
     (if \<not> proc_user_range_ok (ptr + of_nat i) 1 s then Some (- 1, out[0 := 0])
      else
        (case user_byte (kvm_of s) (Proc_space (proc_current s)) (ptr + of_nat i) of
           None \<Rightarrow> None
         | Some c \<Rightarrow> if c = 0 then Some (int i, out[i := c]) else copy_string_loop n (Suc i) ptr (out[i := c]) s))"

definition proc_copy_user_string :: "virt_addr \<Rightarrow> u8 list \<Rightarrow> nat \<Rightarrow> sys \<Rightarrow> (int \<times> u8 list) option" where
  "proc_copy_user_string ptr out sz s =
     (if ptr = 0 \<or> sz = 0 then Some (- 1, out) else copy_string_loop (sz - 1) 0 ptr out s)"

definition sbrk_flags :: u32 where
  "sbrk_flags = PTE_PRESENT OR PTE_WRITE OR PTE_USER"

definition proc_sbrk :: "int \<Rightarrow> sys \<Rightarrow> virt_addr \<times> sys" where
  "proc_sbrk increment s =
     (let i = proc_current s; p = table s ! i; previous = brk p
      in if i = 0 then (0, s)
         else if 0 < increment then
           let target64 = ucast (brk p) + ucast (word_of_int increment :: u32) :: u64;
               stack_floor = stack_top p - USER_STACK_PAGES * PAGE_SIZE
           in if ucast stack_floor \<le> target64 \<or> ucast USER_MAX < target64 then (0, s)
              else
                let target = ucast target64 :: u32
                in (case vmm_alloc_range (Proc_space i) (brk p) (word_of_int increment) sbrk_flags (kvm_of s) of (r, v) \<Rightarrow>
                      let s1 = upd_vm (\<lambda>_. v) s
                      in if r < 0 then (0, s1)
                         else (previous, upd_proc i (\<lambda>p. p\<lparr>brk := target,
                                 user_pages := user_pages p + (ALIGN_UP target PAGE_SIZE - ALIGN_UP previous PAGE_SIZE) div PAGE_SIZE\<rparr>) s1))
         else if increment < 0 then
           let available = brk p - brk_start p;
               shrink0 = word_of_int (- increment) :: u32;
               shrink = (if available < shrink0 then available else shrink0);
               nbrk = brk p - shrink;
               s1 = upd_proc i (\<lambda>p. p\<lparr>brk := nbrk\<rparr>) s;
               old_top = ALIGN_UP previous PAGE_SIZE;
               new_top = ALIGN_UP nbrk PAGE_SIZE
           in (previous,
               if new_top < old_top then
                 let pages = (old_top - new_top) div PAGE_SIZE
                 in upd_proc i (\<lambda>p. p\<lparr>user_pages := (if pages \<le> user_pages p then user_pages p - pages else 0)\<rparr>)
                      (upd_vm (vmm_free_range (Proc_space i) new_top (old_top - new_top)) s1)
               else s1)
         else (previous, s))"

section \<open>The first stack\<close>

definition zstr :: "cstr \<Rightarrow> u8 list" where
  "zstr a = take (strlen a) a @ [0]"

text \<open>The length check: the total length of the strings, or \<open>None\<close> when they do not fit.\<close>

fun args_len :: "nat \<Rightarrow> cstr option list \<Rightarrow> nat \<Rightarrow> nat option" where
  "args_len header_len [] strings_len = Some strings_len"
| "args_len header_len (a # as) strings_len =
     (case a of
        None \<Rightarrow> None
      | Some str \<Rightarrow>
          let n = strlen str + 1
          in if ARG_AREA_MAX - header_len - strings_len < n then None else args_len header_len as (strings_len + n))"

fun put_strings :: "virt_addr \<Rightarrow> nat \<Rightarrow> cstr option list \<Rightarrow> u8 list \<Rightarrow> u32 list \<times> u8 list" where
  "put_strings base off [] sc = ([], sc)"
| "put_strings base off (a # as) sc =
     (let bs = zstr (the a);
          (ps, sc1) = put_strings base (off + length bs) as (put_at off bs sc)
      in ((base + of_nat off) # ps, sc1))"

fun put_pointers :: "nat \<Rightarrow> u32 list \<Rightarrow> u8 list \<Rightarrow> u8 list" where
  "put_pointers off [] sc = sc"
| "put_pointers off (p # ps) sc = put_pointers (off + 4) ps (put_at off (le_bytes p) sc)"

text \<open>The entries \<open>0..<n\<close> of \<^verbatim>\<open>argv\<close>.\<close>

definition argv_prefix :: "nat \<Rightarrow> cstr list \<Rightarrow> cstr option list" where
  "argv_prefix n argv = map (\<lambda>i. if i < length argv then Some (argv ! i) else None) [0..<n]"

definition build_stack :: "nat \<Rightarrow> int \<Rightarrow> cstr list \<Rightarrow> sys \<Rightarrow> (int \<times> virt_addr) \<times> sys" where
  "build_stack i argc0 argv s =
     (if argc0 < 0 then ((- 1, 0), s)
      else
        let argc = nat (if 15 < argc0 then 15 else argc0);
            header_len = 4 + (argc + 1) * 4;
            as = argv_prefix argc argv;
            stop = stack_top (table s ! i)
        in if ARG_AREA_MAX < header_len then ((- 1, 0), s)
           else
             (case args_len header_len as 0 of
                None \<Rightarrow> ((- 1, 0), s)
              | Some strings_len \<Rightarrow>
                  let tot = ALIGN_UP (of_nat (header_len + strings_len)) 16
                  in if of_nat ARG_AREA_MAX < tot \<or> stop - USER_MIN < tot then ((- 1, 0), s)
                     else
                       let base = stop - tot
                       in if base < stop - USER_STACK_PAGES * PAGE_SIZE then ((- 1, 0), s)
                          else
                            let (ps, sc1) = put_strings base header_len as (replicate (unat tot) 0);
                                sc2 = put_at 0 (le_bytes (of_nat argc)) sc1;
                                sc3 = put_pointers 4 ps sc2;
                                sc4 = put_at (4 + argc * 4) (le_bytes 0) sc3
                            in (case copy_pages (Proc_space i) base sc4 (kvm_of s) of (r, v) \<Rightarrow>
                                  if r < 0 then ((- 1, 0), upd_vm (\<lambda>_. v) s) else ((0, base), upd_vm (\<lambda>_. v) s))))"

section \<open>Spawning\<close>

text \<open>
  The code a new thread runs before it enters user mode: the program counter and stack pointer handed to
  \<^verbatim>\<open>enter_usermode\<close>, and the state.
\<close>

definition process_entry :: "nat \<Rightarrow> sys \<Rightarrow> ((virt_addr \<times> virt_addr) \<times> sys) option" where
  "process_entry slot s =
     (case thread_current s of
        None \<Rightarrow> None
      | Some self \<Rightarrow>
          let l = pending s ! slot;
              s1 = upd_tcb self (\<lambda>t. t\<lparr>proc := Some (l_proc l), space := Some (Proc_space (l_proc l)), user := True\<rparr>) s;
              s2 = upd_vm (vmm_space_switch (Proc_space (l_proc l))) s1;
              s3 = tss_set_kernel_stack (stack_base (tcb s self) + stack_size (tcb s self)) s2
          in Some ((l_entry l, l_stack l), s3))"

text \<open>The error exits after the address space exists.\<close>

definition abandon :: "nat \<Rightarrow> sys \<Rightarrow> sys" where
  "abandon i s = upd_proc i (\<lambda>p. p\<lparr>pstate := PROC_FREE\<rparr>) (upd_vm (vmm_space_destroy (Proc_space i)) s)"

text \<open>\<^verbatim>\<open>memset(proc, 0, sizeof(*proc))\<close> and the assignments behind it; the memset also clears the embedded address space.\<close>

definition init_process :: "nat \<Rightarrow> cstr \<Rightarrow> nat \<Rightarrow> sys \<Rightarrow> sys" where
  "init_process i name par s =
     (upd_proc i (\<lambda>_. zero_process\<lparr>pid := next_pid s, parent := pid (table s ! par), pstate := PROC_RUNNING,
         started_ms := timer_ms s, stack_top := USER_STACK_TOP, pname := name_field PROC_NAME_MAX name,
         cwd := name_field FS_PATH_MAX (cwd (table s ! par))\<rparr>)
       (upd_vm (set_space (Proc_space i) 0) s))\<lparr>next_pid := next_pid s + 1\<rparr>"

definition start_thread :: "u32 \<Rightarrow> (nat \<Rightarrow> u32) \<Rightarrow> nat \<Rightarrow> virt_addr \<Rightarrow> virt_addr \<Rightarrow> sys \<Rightarrow> (int \<times> sys) option" where
  "start_thread pe pend i entry sp s =
     (let s1 = s\<lparr>pending := (pending s)[i := \<lparr>l_proc = i, l_entry = entry, l_stack = sp\<rparr>]\<rparr>
      in (case thread_create (pname (table s1 ! i)) pe (pend i) s1 of
            None \<Rightarrow> None
          | Some (tid0, s2) \<Rightarrow>
              if tid0 < 0 then Some (- 7, abandon i s2)
              else Some (pid (table s2 ! i), upd_proc i (\<lambda>p. p\<lparr>main_tid := tid0\<rparr>) s2)))"

text \<open>The part of \<^verbatim>\<open>proc_spawn_image\<close> after the slot is initialised: address space, image, stack and thread.\<close>

definition launch_program ::
  "u32 \<Rightarrow> (nat \<Rightarrow> u32) \<Rightarrow> nat \<Rightarrow> u8 list \<Rightarrow> int \<Rightarrow> cstr list \<Rightarrow> sys \<Rightarrow> (int \<times> sys) option" where
  "launch_program pe pend i img argc argv s1 =
     (let floor0 = stack_top (table s1 ! i) - USER_STACK_PAGES * PAGE_SIZE
      in (case vmm_space_create (Proc_space i) (kvm_of s1) of (r, v1) \<Rightarrow>
            if r < 0 then Some (- 3, upd_proc i (\<lambda>p. p\<lparr>pstate := PROC_FREE\<rparr>) (upd_vm (\<lambda>_. v1) s1))
            else
              (case elf_load (Proc_space i) img v1 of
                 None \<Rightarrow> None
               | Some ((r2, entry, brk0), v2) \<Rightarrow>
                   let s2 = upd_vm (\<lambda>_. v2) s1
                   in if r2 < 0 then Some (- 4, abandon i s2)
                      else
                        let s3 = upd_proc i (\<lambda>p. p\<lparr>brk_start := brk0, brk := brk0\<rparr>) s2
                        in if floor0 \<le> brk0 then Some (- 5, abandon i s3)
                           else
                             (case vmm_alloc_range (Proc_space i) floor0 (USER_STACK_PAGES * PAGE_SIZE) sbrk_flags (kvm_of s3) of (r3, v3) \<Rightarrow>
                                let s4 = upd_vm (\<lambda>_. v3) s3
                                in if r3 < 0 then Some (- 5, abandon i s4)
                                   else
                                     let s5 = upd_proc i (\<lambda>p. p\<lparr>user_pages := USER_STACK_PAGES\<rparr>) s4
                                     in (case build_stack i argc argv s5 of ((r4, sp), s6) \<Rightarrow>
                                           if r4 < 0 then Some (- 6, abandon i s6)
                                           else start_thread pe pend i entry sp s6)))))"

definition proc_spawn_image ::
  "u32 \<Rightarrow> (nat \<Rightarrow> u32) \<Rightarrow> cstr \<Rightarrow> u8 list \<Rightarrow> int \<Rightarrow> cstr list \<Rightarrow> sys \<Rightarrow> (int \<times> sys) option" where
  "proc_spawn_image pe pend name img argc argv s =
     (let par = proc_current s
      in if hd0 name = 0 \<or> img = [] \<or> MAX_USER_IMAGE_SIZE < length img then Some (- 1, s)
         else if argc < 0 then Some (- 1, s)
         else
           (case elf_is_valid img of
              None \<Rightarrow> None
            | Some False \<Rightarrow> Some (- 1, s)
            | Some True \<Rightarrow>
                (case allocate s of
                   (None, s0) \<Rightarrow> Some (- 2, s0)
                 | (Some i, s0) \<Rightarrow> launch_program pe pend i img argc argv (init_process i name par s0))))"

section \<open>Life cycle\<close>

definition proc_exit :: "int \<Rightarrow> sys \<Rightarrow> sys option" where
  "proc_exit code s =
     (let i = proc_current s
      in thread_exit code (if i \<noteq> 0 then upd_proc i (\<lambda>p. p\<lparr>pexit_code := code, pstate := PROC_ZOMBIE\<rparr>) s else s))"

text \<open>
  One slot of the reaper's loop.  The windows of the process belong to the window manager, whose state is \<open>w\<close> and
  whose \<^verbatim>\<open>wm_close_process_windows\<close> is the argument \<open>close\<close>.
\<close>

definition proc_reap_slot :: "(nat \<Rightarrow> sys \<Rightarrow> 'w \<Rightarrow> sys \<times> 'w) \<Rightarrow> nat \<Rightarrow> sys \<times> 'w \<Rightarrow> sys \<times> 'w" where
  "proc_reap_slot close i = (\<lambda>(s, w).
     (let p = table s ! i
      in if pstate p \<noteq> PROC_ZOMBIE \<or> cleaned p then (s, w)
         else if thread_exists (main_tid p) s then (s, w)
         else (case close i s w of (s1, w1) \<Rightarrow>
                 (upd_proc i (\<lambda>p. p\<lparr>cleaned := True, user_pages := 0\<rparr>) (upd_vm (vmm_space_destroy (Proc_space i)) s1), w1))))"

definition proc_reap :: "(nat \<Rightarrow> sys \<Rightarrow> 'w \<Rightarrow> sys \<times> 'w) \<Rightarrow> sys \<times> 'w \<Rightarrow> sys \<times> 'w" where
  "proc_reap close sw = fold (proc_reap_slot close) [1..<MAX_PROCESSES] sw"

text \<open>One round of the loops of \<^verbatim>\<open>proc_wait\<close>: \<open>None\<close> while it still waits, else the return value and the exit code.\<close>

definition proc_wait_start :: "int \<Rightarrow> sys \<Rightarrow> nat option" where
  "proc_wait_start p s = (case proc_by_pid p s of Some i \<Rightarrow> if i = 0 then None else Some i | None \<Rightarrow> None)"

definition proc_wait_round :: "nat \<Rightarrow> sys \<Rightarrow> ((int \<times> int) option \<times> sys) option" where
  "proc_wait_round i s =
     (let p = table s ! i
      in if pstate p = PROC_RUNNING \<or> \<not> cleaned p then map_option (Pair None) (sched_yield s)
         else Some (Some (0, pexit_code p), upd_proc i (\<lambda>p. p\<lparr>pstate := PROC_FREE\<rparr>) s))"

definition proc_try_wait :: "int \<Rightarrow> sys \<Rightarrow> (int \<times> int option) \<times> sys" where
  "proc_try_wait p0 s =
     (case proc_by_pid p0 s of
        None \<Rightarrow> ((- 1, None), s)
      | Some i \<Rightarrow>
          let p = table s ! i
          in if i = 0 then ((- 1, None), s)
             else if pstate p = PROC_RUNNING \<or> \<not> cleaned p then ((0, None), s)
             else ((1, Some (pexit_code p)), upd_proc i (\<lambda>p. p\<lparr>pstate := PROC_FREE\<rparr>) s))"

text \<open>
  When the call kills the thread it runs on, \<^verbatim>\<open>thread_kill\<close> gives the processor away for good and the statements
  after it are not reached; the result is then \<open>None\<close>.
\<close>

definition proc_kill :: "int \<Rightarrow> sys \<Rightarrow> (int option \<times> sys) option" where
  "proc_kill p0 s =
     (case proc_by_pid p0 s of
        None \<Rightarrow> Some (Some (- 1), s)
      | Some i \<Rightarrow>
          if i = 0 \<or> pstate (table s ! i) \<noteq> PROC_RUNNING then Some (Some (- 1), s)
          else
            (case thread_kill (main_tid (table s ! i)) s of
               None \<Rightarrow> None
             | Some (r, s1) \<Rightarrow>
                 if current s1 \<noteq> current s then Some (None, s1)
                 else Some (Some 0, upd_proc i (\<lambda>p. p\<lparr>pexit_code := - 1, pstate := PROC_ZOMBIE\<rparr>) s1)))"

section \<open>The layout of the first stack\<close>

text \<open>
  The layout crt0 expects: the argument count, the argument pointers, a null pointer, the strings the pointers
  point to, and zeros up to the length \<open>tot\<close>.
\<close>

fun arg_pointers :: "virt_addr \<Rightarrow> nat \<Rightarrow> cstr list \<Rightarrow> u32 list" where
  "arg_pointers base off [] = []"
| "arg_pointers base off (a # as) = (base + of_nat off) # arg_pointers base (off + length (zstr a)) as"

definition arg_strings :: "cstr list \<Rightarrow> u8 list" where
  "arg_strings strs = concat (map zstr strs)"

definition header_size :: "cstr list \<Rightarrow> nat" where
  "header_size strs = 4 + (length strs + 1) * 4"

definition stack_size_of :: "cstr list \<Rightarrow> nat" where
  "stack_size_of strs = (header_size strs + length (arg_strings strs) + 15) div 16 * 16"

definition stack_image :: "virt_addr \<Rightarrow> cstr list \<Rightarrow> u8 list" where
  "stack_image base strs =
     le_bytes (of_nat (length strs)) @ concat (map le_bytes (arg_pointers base (header_size strs) strs)) @ le_bytes 0 @
     arg_strings strs @ replicate (stack_size_of strs - header_size strs - length (arg_strings strs)) 0"

lemma strlen_le: "strlen a \<le> length a"
  by (induction a) auto

lemma zstr_len [simp]: "length (zstr a) = strlen a + 1"
  by (simp add: zstr_def strlen_le)

lemma arg_pointers_len [simp]: "length (arg_pointers base off strs) = length strs"
  by (induction strs arbitrary: off) auto

lemma put_at_split:
  assumes "length pre = off" and "length bs \<le> length mid"
  shows "put_at off bs (pre @ mid @ post) = (pre @ bs) @ drop (length bs) mid @ post"
  using assms by (simp add: put_at_def)

lemma splice_append:
  assumes "length pre = off" and "length mid = length bs"
  shows "put_at off bs (pre @ mid @ post) = pre @ bs @ post"
  using assms by (simp add: put_at_def)

lemma args_len_spec:
  assumes "args_len h as n = Some m" and "n \<le> ARG_AREA_MAX - h"
  shows "\<exists>strs. as = map Some strs \<and> m = n + length (arg_strings strs) \<and> m \<le> ARG_AREA_MAX - h"
  using assms
proof (induction h as n rule: args_len.induct)
  case (2 h a as n)
  then obtain str where a: "a = Some str" by (auto split: option.splits)
  have c: "\<not> ARG_AREA_MAX - h - n < strlen str + 1" and r: "args_len h as (n + (strlen str + 1)) = Some m"
    using 2 a by (auto simp: Let_def split: if_splits)
  then have le: "n + (strlen str + 1) \<le> ARG_AREA_MAX - h" using 2(3) by simp
  obtain strs where "as = map Some strs" "m = n + (strlen str + 1) + length (arg_strings strs)" "m \<le> ARG_AREA_MAX - h"
    using 2(1) [OF a refl c r le] by auto
  then show ?case using a by (intro exI [of _ "str # strs"]) (simp add: arg_strings_def)
qed (simp add: arg_strings_def)

lemma args_len_fits:
  assumes "n + length (arg_strings strs) \<le> ARG_AREA_MAX - h"
  shows "args_len h (map Some strs) n = Some (n + length (arg_strings strs))"
  using assms by (induction strs arbitrary: n) (auto simp: arg_strings_def Let_def)

lemma put_strings_spec:
  assumes "length pre = off" and "length mid = length (arg_strings strs)"
  shows "put_strings base off (map Some strs) (pre @ mid @ post) = (arg_pointers base off strs, pre @ arg_strings strs @ post)"
  using assms
proof (induction strs arbitrary: off pre mid)
  case (Cons a strs)
  let ?n = "length (zstr a)"
  have l: "?n \<le> length mid" "length (drop ?n mid) = length (arg_strings strs)"
    using Cons.prems by (simp_all add: arg_strings_def)
  have "put_strings base (off + ?n) (map Some strs) (put_at off (zstr a) (pre @ mid @ post)) =
      (arg_pointers base (off + ?n) strs, (pre @ zstr a) @ arg_strings strs @ post)"
    unfolding put_at_split [OF Cons.prems(1) l(1)] using Cons.prems(1) l(2) by (intro Cons.IH) simp_all
  then show ?case by (simp add: arg_strings_def Let_def)
qed (simp add: arg_strings_def)

lemma put_pointers_spec:
  assumes "length pre = off" and "length mid = 4 * length ps"
  shows "put_pointers off ps (pre @ mid @ post) = pre @ concat (map le_bytes ps) @ post"
  using assms
proof (induction ps arbitrary: off pre mid)
  case (Cons p ps)
  have l: "length (le_bytes p) \<le> length mid" "length (drop (length (le_bytes p)) mid) = 4 * length ps"
    using Cons.prems by simp_all
  have "put_pointers (off + 4) ps (put_at off (le_bytes p) (pre @ mid @ post)) =
      (pre @ le_bytes p) @ concat (map le_bytes ps) @ post"
    unfolding put_at_split [OF Cons.prems(1) l(1)] using Cons.prems(1) l(2) by (intro Cons.IH) simp_all
  then show ?case by simp
qed simp

lemma layout:
  assumes "stack_size_of strs = t"
  shows "(let (ps, sc1) = put_strings base (header_size strs) (map Some strs) (replicate t 0);
      sc2 = put_at 0 (le_bytes (of_nat (length strs))) sc1;
      sc3 = put_pointers 4 ps sc2
    in put_at (4 + length strs * 4) (le_bytes 0) sc3) = stack_image base strs"
proof -
  let ?h = "header_size strs" and ?a = "length (arg_strings strs)" and ?n = "length strs"
  define z where "z = t - ?h - ?a"
  have le: "?h + ?a \<le> t" using assms unfolding stack_size_of_def by linarith
  then have "replicate t (0::u8) = replicate ?h 0 @ replicate ?a 0 @ replicate z 0" by (simp add: z_def replicate_add [symmetric])
  then have s1: "put_strings base ?h (map Some strs) (replicate t 0) =
      (arg_pointers base ?h strs, replicate ?h 0 @ arg_strings strs @ replicate z 0)"
    using put_strings_spec [of "replicate ?h 0" ?h "replicate ?a 0" strs base "replicate z 0"] by simp
  have h: "replicate ?h (0::u8) = replicate 4 0 @ replicate (4 * ?n) 0 @ replicate 4 0"
    by (simp add: header_size_def replicate_add [symmetric])
  let ?w = "le_bytes (of_nat ?n)" and ?ps = "arg_pointers base ?h strs" and ?rest = "arg_strings strs @ replicate z 0"
  have s2: "put_at 0 ?w (replicate ?h 0 @ ?rest) = ?w @ replicate (4 * ?n) 0 @ replicate 4 0 @ ?rest"
    unfolding h using splice_append [of "[]" 0 "replicate 4 0" ?w "replicate (4 * ?n) 0 @ replicate 4 0 @ ?rest"] by simp
  have s3: "put_pointers 4 ?ps (?w @ replicate (4 * ?n) 0 @ replicate 4 0 @ ?rest) =
      ?w @ concat (map le_bytes ?ps) @ replicate 4 0 @ ?rest"
    by (rule put_pointers_spec) simp_all
  have "length (concat (map le_bytes ps)) = 4 * length ps" for ps by (induction ps) auto
  then have s4: "put_at (4 + ?n * 4) (le_bytes 0) (?w @ concat (map le_bytes ?ps) @ replicate 4 0 @ ?rest) =
      ?w @ concat (map le_bytes ?ps) @ le_bytes 0 @ ?rest"
    using splice_append [of "?w @ concat (map le_bytes ?ps)" "4 + ?n * 4" "replicate 4 0" "le_bytes 0" ?rest] by simp
  show ?thesis
    unfolding s1 prod.case Let_def s2 s3 s4 by (simp add: stack_image_def assms z_def)
qed

definition passed_args :: "int \<Rightarrow> cstr list \<Rightarrow> cstr list" where
  "passed_args argc argv = take (nat (min 15 argc)) argv"

definition args_fit :: "int \<Rightarrow> cstr list \<Rightarrow> bool" where
  "args_fit argc argv \<longleftrightarrow> 0 \<le> argc \<and> nat (min 15 argc) \<le> length argv \<and>
     header_size (passed_args argc argv) + length (arg_strings (passed_args argc argv)) \<le> ARG_AREA_MAX"

lemma argv_prefix_some: "n \<le> length argv \<Longrightarrow> argv_prefix n argv = map Some (take n argv)"
  by (rule nth_equalityI) (auto simp: argv_prefix_def)

lemma argv_prefix_eq:
  assumes "argv_prefix n argv = map Some strs"
  shows "n \<le> length argv \<and> strs = take n argv"
proof -
  have n: "n = length strs" using arg_cong [OF assms, of length] by (simp add: argv_prefix_def)
  have "i < length argv" if "i < n" for i
    using arg_cong [OF assms, of "\<lambda>l. l ! i"] that n by (auto simp: argv_prefix_def split: if_splits)
  then have le: "n \<le> length argv" by (meson not_less order_refl)
  have "map Some strs = map Some (take n argv)" using assms argv_prefix_some [OF le] by simp
  then show ?thesis using le by (simp add: inj_map_eq_map [OF inj_Some])
qed

lemma stack_size_word:
  assumes "header_size strs + length (arg_strings strs) \<le> ARG_AREA_MAX"
  shows "unat (ALIGN_UP (of_nat (header_size strs + length (arg_strings strs))) 16) = stack_size_of strs"
    and "stack_size_of strs \<le> 1024" and "0 < stack_size_of strs"
proof -
  let ?n = "header_size strs + length (arg_strings strs)"
  have n: "?n \<le> 1024" "8 \<le> ?n" using assms by (simp_all add: ARG_AREA_MAX_def header_size_def)
  then have u: "unat (of_nat ?n :: u32) = ?n" by (subst unat_of_nat) simp
  show "unat (ALIGN_UP (of_nat ?n) 16) = stack_size_of strs"
    using align_up_pow2 [of 4 "of_nat ?n"] n(1) unfolding u by (simp add: stack_size_of_def)
  have "(?n + 15) div 16 \<le> 64" "1 \<le> (?n + 15) div 16" using n by simp_all
  then show "stack_size_of strs \<le> 1024" "0 < stack_size_of strs" unfolding stack_size_of_def by linarith+
qed

lemma stack_image_len: "length (stack_image base strs) = stack_size_of strs"
proof -
  have c: "length (concat (map le_bytes ps)) = 4 * length ps" for ps by (induction ps) auto
  have "header_size strs + length (arg_strings strs) \<le> stack_size_of strs" unfolding stack_size_of_def by linarith
  then show ?thesis by (simp add: stack_image_def c header_size_def)
qed

lemma upd_vm_same [simp]: "upd_vm (\<lambda>_. kvm_of s) s = s" "kvm_of (upd_vm f s) = f (kvm_of s)"
  by (simp_all add: upd_vm_def)

lemma build_stack_refused:
  assumes "\<not> args_fit argc argv"
  shows "build_stack i argc argv s = ((- 1, 0), s)"
proof (cases "0 \<le> argc")
  case True
  define n where "n = nat (min 15 argc)"
  have mn: "nat (if 15 < argc then 15 else argc) = n" by (simp add: n_def min_def)
  have n: "n \<le> 15" unfolding n_def by simp
  then have h: "4 + (n + 1) * 4 \<le> ARG_AREA_MAX" by (simp add: ARG_AREA_MAX_def)
  have "args_len (4 + (n + 1) * 4) (argv_prefix n argv) 0 = None"
  proof (rule ccontr)
    assume "args_len (4 + (n + 1) * 4) (argv_prefix n argv) 0 \<noteq> None"
    then obtain m strs where "argv_prefix n argv = map Some strs" and m: "m = length (arg_strings strs)" "m \<le> ARG_AREA_MAX - (4 + (n + 1) * 4)"
      using args_len_spec [of "4 + (n + 1) * 4" "argv_prefix n argv" 0] by auto
    with argv_prefix_eq have "n \<le> length argv" "strs = take n argv" by blast+
    with m h True assms show False
      by (simp add: args_fit_def passed_args_def header_size_def flip: n_def)
  qed
  then show ?thesis using True h unfolding build_stack_def mn Let_def by simp
qed (simp add: build_stack_def)

lemma build_stack_spec:
  fixes i :: nat and s :: sys
  defines "stop \<equiv> stack_top (table s ! i)" and "v \<equiv> kvm_of s" and "sp \<equiv> Proc_space i"
  assumes iso: "vm_iso v" and rg: "unat USER_MIN + 0x10000 \<le> unat stop" "unat stop \<le> unat USER_MAX"
    and mapped: "\<forall>a. unat stop - ARG_AREA_MAX \<le> unat a \<and> unat a < unat stop \<longrightarrow> walk v sp a \<noteq> None"
    and fit: "args_fit argc argv"
  defines "strs \<equiv> passed_args argc argv"
  defines "base \<equiv> stop - of_nat (stack_size_of strs)"
  shows "\<exists>v'. build_stack i argc argv s = ((0, base), upd_vm (\<lambda>_. v') s) \<and> only_changes sp v v' \<and> walk v' = walk v \<and> phys v' = phys v \<and>
    unat base + stack_size_of strs = unat stop \<and> stack_size_of strs \<le> 1024 \<and>
    (\<forall>a. user_page a \<longrightarrow> user_byte v' sp a =
      (if unat base \<le> unat a \<and> unat a < unat stop then Some (stack_image base strs ! (unat a - unat base)) else user_byte v sp a))"
proof -
  define n where "n = nat (min 15 argc)"
  have argc: "0 \<le> argc" "n \<le> length argv" using fit by (simp_all add: args_fit_def n_def)
  have mn: "nat (if 15 < argc then 15 else argc) = n" by (simp add: n_def min_def)
  have strs: "strs = take n argv" "length strs = n" using argc(2) by (simp_all add: strs_def passed_args_def n_def)
  have pre: "argv_prefix n argv = map Some strs" using argv_prefix_some [OF argc(2)] strs(1) by simp
  have fit': "header_size strs + length (arg_strings strs) \<le> ARG_AREA_MAX" using fit by (simp add: args_fit_def strs_def)
  have h: "4 + (n + 1) * 4 = header_size strs" by (simp add: header_size_def strs(2))
  have al: "args_len (header_size strs) (map Some strs) 0 = Some (length (arg_strings strs))"
    using args_len_fits [of 0 strs "header_size strs"] fit' by simp
  define tot where "tot = ALIGN_UP (of_nat (header_size strs + length (arg_strings strs))) (16 :: u32)"
  note ss = stack_size_word [OF fit', folded tot_def]
  have tw: "of_nat (stack_size_of strs) = tot" unfolding ss(1) [symmetric] by simp
  have base: "base = stop - tot" by (simp add: base_def tw)
  have ub: "unat base + stack_size_of strs = unat stop"
    using ss rg(1) unfolding base by (subst unat_minus_simple) (simp_all add: word_le_nat_alt)
  have g1: "\<not> (of_nat ARG_AREA_MAX < tot \<or> stop - USER_MIN < tot)"
    using ss rg(1) by (simp add: word_less_nat_alt ARG_AREA_MAX_def unat_minus_simple word_le_nat_alt)
  have g2: "\<not> base < stop - USER_STACK_PAGES * PAGE_SIZE"
  proof -
    have "unat (stop - USER_STACK_PAGES * PAGE_SIZE) = unat stop - 0x10000"
      using rg(1) by (subst unat_minus_simple) (simp_all add: word_le_nat_alt USER_STACK_PAGES_def PAGE_SIZE_def)
    then show ?thesis using ub ss(2) by (simp add: word_less_nat_alt)
  qed
  have lay: "put_at (4 + n * 4) (le_bytes 0) (put_pointers 4 ps (put_at 0 (le_bytes (of_nat n)) sc1)) = stack_image base strs"
    if "put_strings base (header_size strs) (map Some strs) (replicate (unat tot) 0) = (ps, sc1)" for ps sc1
    using layout [of strs "unat tot" base] ss(1) that strs(2) by simp
  obtain r v' where cp: "copy_pages sp base (stack_image base strs) v = (r, v')" by fastforce
  note len = stack_image_len [of base strs]
  have lo: "unat USER_MIN \<le> unat base" "unat base + length (stack_image base strs) \<le> unat USER_MAX"
    using ub len ss(2) rg by simp_all
  have mp: "\<forall>a. unat base \<le> unat a \<and> unat a < unat base + length (stack_image base strs) \<longrightarrow> walk v sp a \<noteq> None"
    using mapped ub len ss(2) by (auto simp: ARG_AREA_MAX_def)
  note cu = copy_pages_user [OF iso lo mp cp]
  obtain ps sc1 where ps: "put_strings base (header_size strs) (map Some strs) (replicate (unat tot) 0) = (ps, sc1)" by fastforce
  have g0: "\<not> ARG_AREA_MAX < header_size strs" using fit' by simp
  have "build_stack i argc argv s = ((0, base), upd_vm (\<lambda>_. v') s)"
    unfolding build_stack_def mn Let_def h pre stop_def [symmetric] al option.case tot_def [symmetric] base [symmetric]
      sp_def [symmetric] v_def [symmetric] ps prod.case lay [OF ps] cp
    using argc(1) g0 g1 g2 cu(1) by simp
  then show ?thesis
    using cu ub ss(2) len by (intro exI [of _ v']) auto
qed

section \<open>The heap and the user half\<close>

definition heap_window :: "kheap \<Rightarrow> bool" where
  "heap_window h \<longleftrightarrow> 0xD0000000 \<le> unat (heap_end h) \<and> unat (heap_end h) \<le> 0xD4000000"

lemma heap_ok_window: "heap_ok h cs \<Longrightarrow> heap_window h"
  using placed_le [of "unat HEAP_BASE" cs "unat (heap_end h)"]
  by (simp add: heap_ok_def heap_window_def HEAP_BASE_def KERNEL_HEAP_BASE_def KERNEL_HEAP_MAX_def word_le_nat_alt)

lemma grow_pages_vm:
  assumes "vm_iso (kvm h)" and "0xD0000000 \<le> unat (heap_end h)" and "unat (heap_end h) + 4096 * k \<le> 0xD4000000"
  shows "kernel_only (kvm h) (kvm (snd (grow_pages k h))) \<and> 0xD0000000 \<le> unat (heap_end (snd (grow_pages k h))) \<and>
    unat (heap_end (snd (grow_pages k h))) \<le> unat (heap_end h) + 4096 * k"
  using assms
proof (induction k arbitrary: h)
  case 0
  then show ?case by (simp add: kernel_only_refl)
next
  case (Suc k)
  let ?v = "kvm h"
  obtain f p where al: "pmm_alloc_frame (phys ?v) = (f, p)" by fastforce
  note tk = take_frame [OF Suc.prems(1) al]
  show ?case
  proof (cases "f = 0")
    case True
    then show ?thesis using al tk(1) Suc.prems by simp
  next
    case False
    let ?v1 = "?v\<lparr>phys := p\<rparr>"
    have iso1: "vm_iso ?v1" using tk(1) by (simp add: kernel_only_def)
    have nu: "\<not> user_page (heap_end h)" using Suc.prems(2) by (simp add: user_page_def USER_MAX_def word_less_nat_alt)
    define fl where "fl = (PTE_PRESENT OR PTE_WRITE) AND NOT PTE_USER"
    have fl: "fl AND PTE_USER = 0" by (simp add: fl_def and.assoc)
    obtain r v2 where mp: "vmm_map_in Kernel_space (heap_end h) f fl ?v1 = (r, v2)" by fastforce
    then have vm: "vmm_map (heap_end h) f (PTE_PRESENT OR PTE_WRITE) ?v1 = (r, v2)" by (simp add: vmm_map_def fl_def)
    note km = kernel_map [OF iso1 nu mp fl]
    have k2: "kernel_only ?v v2" using kernel_only_trans [OF tk(1) km(1)] .
    show ?thesis
    proof (cases "r < 0")
      case True
      then have v2: "v2 = ?v1" using km(4) by simp
      have "kernel_only ?v1 (?v1\<lparr>phys := pmm_free_frame f (phys ?v1)\<rparr>)"
      proof (rule give_frame [OF iso1 _ False])
        show "f \<notin> table_frames ?v1" using tk(2) [OF False] by simp
        fix sp a e assume "user_page a" "walk ?v1 sp a = Some e"
        then have "walk ?v sp a = Some e" "user_page a" using tk(1) by (simp_all add: kernel_only_def)
        then show "tbl e \<noteq> f" using vm_isoD(2) [OF Suc.prems(1)] tk(2) [OF False] by blast
      qed
      then show ?thesis
        using True al False vm v2 kernel_only_trans [OF tk(1)] Suc.prems by simp
    next
      case r: False
      let ?h = "h\<lparr>kvm := v2, heap_end := heap_end h + PAGE_SIZE, heap_bytes := heap_bytes h + PAGE_SIZE\<rparr>"
      have e: "unat (heap_end h + PAGE_SIZE) = unat (heap_end h) + 4096"
        using Suc.prems(3) by (subst unat_plus_simple) (simp_all add: PAGE_SIZE_def)
      have "vm_iso v2" using k2 by (simp add: kernel_only_def)
      from Suc.IH [of ?h] this Suc.prems e kernel_only_trans [OF k2] show ?thesis
        using al False vm r by auto
    qed
  qed
qed

lemma grow_vm:
  assumes "vm_iso (kvm h)" and "heap_window h" and "unat bytes \<le> 0x100000" and "grow bytes h = (r, h')"
  shows "kernel_only (kvm h) (kvm h') \<and> heap_window h'"
proof -
  define pages where "pages = ALIGN_UP bytes PAGE_SIZE div PAGE_SIZE"
  have "unat (ALIGN_UP bytes PAGE_SIZE) = (unat bytes + 4095) div 4096 * 4096" using assms(3) by (intro align_up_page) simp
  then have pg: "unat pages = (unat bytes + 4095) div 4096" by (simp add: pages_def unat_div PAGE_SIZE_def)
  then have le: "unat pages \<le> 256" using assms(3) by simp
  then have up: "unat (pages * PAGE_SIZE) = 4096 * unat pages" by (simp add: PAGE_SIZE_def unat_word_ariths)
  have ue: "unat (heap_end h + pages * PAGE_SIZE) = unat (heap_end h) + 4096 * unat pages"
    using assms(2) le up by (subst unat_plus_simple) (simp_all add: heap_window_def)
  show ?thesis
  proof (cases "HEAP_BASE + HEAP_MAX_SIZE < heap_end h + pages * PAGE_SIZE")
    case True
    then show ?thesis using assms kernel_only_refl by (auto simp: grow_def Let_def simp flip: pages_def)
  next
    case False
    then have "unat (heap_end h) + 4096 * unat pages \<le> 0xD4000000"
      using ue by (simp add: HEAP_BASE_def HEAP_MAX_SIZE_def KERNEL_HEAP_BASE_def KERNEL_HEAP_MAX_def word_less_nat_alt)
    with grow_pages_vm [OF assms(1), of "unat pages"] assms(2,4) False show ?thesis
      by (auto simp: grow_def Let_def heap_window_def simp flip: pages_def)
  qed
qed

lemma extend_vm:
  assumes "vm_iso (kvm h)" and "heap_window h" and "unat sz \<le> 0x80000" and "extend_heap sz h = Some (r, h')"
  shows "kernel_only (kvm h) (kvm h') \<and> heap_window h'"
proof -
  define chunk where "chunk = ALIGN_UP (sz + HEADER_SIZE) 65536"
  obtain l where l: "last_block (kmem h) (first_block h) = Some l"
    using assms(4) by (auto simp: extend_heap_def Let_def split: option.splits)
  obtain r1 h1 where g: "grow chunk h = (r1, h1)" by fastforce
  have "unat (sz + HEADER_SIZE) = unat sz + 20" using assms(3) by (subst unat_plus_simple) (simp_all add: HEADER_SIZE_def)
  then have "unat chunk = (unat sz + 20 + 65535) div 65536 * 65536"
    using align_up_pow2 [of 16 "sz + HEADER_SIZE"] assms(3) by (simp add: chunk_def)
  moreover have "(unat sz + 20 + 65535) div 65536 \<le> 9" using assms(3) by simp
  ultimately have "unat chunk \<le> 0x100000" by linarith
  from grow_vm [OF assms(1,2) this g] show ?thesis
    using assms(4) l g by (auto simp: extend_heap_def Let_def heap_window_def simp flip: chunk_def split: if_splits)
qed

lemma kmalloc_vm:
  assumes "heap_window h" and "vm_iso (kvm h)" and "unat sz \<le> 65536" and "kmalloc sz h = Some (p, h')"
  shows "kernel_only (kvm h) (kvm h') \<and> heap_window h'"
proof (cases "sz = 0")
  case True
  then show ?thesis using assms kernel_only_refl by (simp add: kmalloc_def)
next
  case False
  have "unat (ALIGN_UP sz 8) = (unat sz + 7) div 8 * 8" using align_up_pow2 [of 3 sz] assms(3) by simp
  also have "\<dots> \<le> 0x80000" using assms(3) by linarith
  finally have small: "unat (ALIGN_UP sz 8) \<le> 0x80000" .
  have "kernel_only (kvm g) (kvm h') \<and> heap_window h'"
    if "kmalloc_attempt k (ALIGN_UP sz 8) g = Some (p, h')" "vm_iso (kvm g)" "heap_window g" for k g
    using that
  proof (induction k arbitrary: g)
    case 0
    then show ?case using kernel_only_refl by simp
  next
    case (Suc k)
    obtain b where b: "find_fit (kmem g) (ALIGN_UP sz 8) (first_block g) = Some b" using Suc.prems(1) by (auto split: option.splits)
    show ?case
    proof (cases "b = 0")
      case False
      then have "h' = g\<lparr>kmem := set_free b 0 (split b (ALIGN_UP sz 8) (kmem g))\<rparr>" using Suc.prems(1) b by simp
      then show ?thesis using Suc.prems kernel_only_refl by (simp add: heap_window_def)
    next
      case True
      then obtain r g1 where e: "extend_heap (ALIGN_UP sz 8) g = Some (r, g1)" using Suc.prems(1) b by (auto split: option.splits)
      note ev = extend_vm [OF Suc.prems(2,3) small e]
      show ?thesis
      proof (cases "r < 0")
        case True
        then have "h' = g1" using Suc.prems(1) b e \<open>b = 0\<close> by simp
        then show ?thesis using ev by simp
      next
        case False
        then have "kmalloc_attempt k (ALIGN_UP sz 8) g1 = Some (p, h')" using Suc.prems(1) b e True by simp
        moreover have "vm_iso (kvm g1)" using ev by (simp add: kernel_only_def)
        ultimately show ?thesis using Suc.IH [of g1] ev kernel_only_trans by blast
      qed
    qed
  qed
  then show ?thesis using assms False by (simp add: kmalloc_def)
qed

lemma kfree_vm: "kfree p h = Some h' \<Longrightarrow> kvm h' = kvm h \<and> heap_end h' = heap_end h"
  by (auto simp: kfree_def Let_def split: if_splits)

section \<open>The first stack is right\<close>

text \<open>
  C32: \<^verbatim>\<open>build_stack\<close> computes exactly the reference layout.  When the arguments are refused (a negative count, a missing
  argument, or more than 1024 bytes) nothing changes.  Otherwise, with the top 1024 bytes of the stack mapped, it succeeds
  whatever the strings are: the user memory between the returned stack pointer and the stack top holds
  the argument count, the pointers, a null pointer, the strings the pointers point to and zero padding, and no other byte
  of any process, no mapping and no frame changes.
\<close>

theorem build_stack_layout:
  assumes "vm_iso (kvm_of s)" and "unat USER_MIN + 0x10000 \<le> unat (stack_top (table s ! i))"
    and "unat (stack_top (table s ! i)) \<le> unat USER_MAX"
    and "\<forall>a. unat (stack_top (table s ! i)) - ARG_AREA_MAX \<le> unat a \<and> unat a < unat (stack_top (table s ! i)) \<longrightarrow>
      walk (kvm_of s) (Proc_space i) a \<noteq> None"
    and "strs = passed_args argc argv" and "base = stack_top (table s ! i) - of_nat (stack_size_of strs)"
  shows "if args_fit argc argv
    then \<exists>v'. build_stack i argc argv s = ((0, base), upd_vm (\<lambda>_. v') s) \<and> only_changes (Proc_space i) (kvm_of s) v' \<and>
      walk v' = walk (kvm_of s) \<and> phys v' = phys (kvm_of s) \<and>
      unat base + stack_size_of strs = unat (stack_top (table s ! i)) \<and> stack_size_of strs \<le> ARG_AREA_MAX \<and>
      (\<forall>a. user_page a \<longrightarrow> user_byte v' (Proc_space i) a =
        (if unat base \<le> unat a \<and> unat a < unat (stack_top (table s ! i)) then Some (stack_image base strs ! (unat a - unat base))
         else user_byte (kvm_of s) (Proc_space i) a))
    else build_stack i argc argv s = ((- 1, 0), s)"
  using build_stack_spec [OF assms(1-4), of argc argv] build_stack_refused [of argc argv i s]
  unfolding assms(5,6) by (simp add: ARG_AREA_MAX_def)

definition stack_vm :: vm where
  "stack_vm = snd (vmm_alloc_range (Proc_space 1) 0x407FF000 0x1000 7 sample_vm)"

definition stack_sys :: sys where
  "stack_sys = upd_vm (\<lambda>_. stack_vm) (boot_sys\<lparr>table := (replicate MAX_PROCESSES zero_process)[1 := zero_process\<lparr>stack_top := USER_STACK_TOP\<rparr>]\<rparr>)"

lemma stack_vm_mapped:
  "vm_iso stack_vm" "0x407FF000 \<le> unat a \<Longrightarrow> unat a < 0x40800000 \<Longrightarrow> walk stack_vm (Proc_space 1) a \<noteq> None"
proof -
  let ?r = "vmm_alloc_range (Proc_space 1) 0x407FF000 0x1000 7 sample_vm"
  have r: "fst ?r = 0" by code_simp
  have e: "?r = (0, stack_vm)" using r by (metis prod.collapse stack_vm_def)
  note a = alloc_range_user [OF sample_vm_iso _ e]
  show "vm_iso stack_vm" using a(1) by (simp add: only_changes_def PTE_USER_def USER_MIN_def USER_MAX_def)
  show "0x407FF000 \<le> unat a \<Longrightarrow> unat a < 0x40800000 \<Longrightarrow> walk stack_vm (Proc_space 1) a \<noteq> None"
    using a(3) by (simp add: PTE_USER_def USER_MIN_def USER_MAX_def)
qed

theorem build_stack_layout_witness:
  "\<exists>v'. build_stack 1 1 [[104, 105]] stack_sys = ((0, 0x407FFFF0), upd_vm (\<lambda>_. v') stack_sys) \<and>
     user_byte v' (Proc_space 1) 0x407FFFFC = Some 104"
proof -
  have t: "stack_top (table stack_sys ! 1) = 0x40800000"
    by (simp add: stack_sys_def upd_vm_def USER_STACK_TOP_def MAX_PROCESSES_def)
  have v: "kvm_of stack_sys = stack_vm" by (simp add: stack_sys_def)
  have f: "args_fit 1 [[104, 105]]" by code_simp
  have n: "stack_size_of (passed_args 1 [[104, 105]]) = 16" by code_simp
  have b: "stack_image 0x407FFFF0 (passed_args 1 [[104, 105]]) ! 12 = 104" by code_simp
  have u: "user_page 0x407FFFFC" by (simp add: user_page_def USER_MIN_def USER_MAX_def)
  have m: "\<forall>a. unat (stack_top (table stack_sys ! 1)) - ARG_AREA_MAX \<le> unat a \<and> unat a < unat (stack_top (table stack_sys ! 1)) \<longrightarrow>
      walk (kvm_of stack_sys) (Proc_space 1) a \<noteq> None"
    unfolding t v using stack_vm_mapped(2) by (auto simp: ARG_AREA_MAX_def)
  have base: "0x407FFFF0 = stack_top (table stack_sys ! 1) - of_nat (stack_size_of (passed_args 1 [[104, 105]]))" unfolding t n by simp
  have i: "vm_iso (kvm_of stack_sys)" "unat USER_MIN + 0x10000 \<le> unat (stack_top (table stack_sys ! 1))"
    "unat (stack_top (table stack_sys ! 1)) \<le> unat USER_MAX"
    unfolding t v using stack_vm_mapped(1) by (simp_all add: USER_MIN_def USER_MAX_def)
  obtain v' where "build_stack 1 1 [[104, 105]] stack_sys = ((0, 0x407FFFF0), upd_vm (\<lambda>_. v') stack_sys)"
    and y: "\<forall>a. user_page a \<longrightarrow> user_byte v' (Proc_space 1) a =
        (if unat (0x407FFFF0 :: u32) \<le> unat a \<and> unat a < unat (stack_top (table stack_sys ! 1))
         then Some (stack_image 0x407FFFF0 (passed_args 1 [[104, 105]]) ! (unat a - unat (0x407FFFF0 :: u32)))
         else user_byte (kvm_of stack_sys) (Proc_space 1) a)"
    using build_stack_layout [OF i m refl base] unfolding if_P [OF f] by blast
  moreover have "user_byte v' (Proc_space 1) 0x407FFFFC = Some 104" using y [rule_format, OF u] b unfolding t by simp
  ultimately show ?thesis by blast
qed

section \<open>Starting the thread of a process\<close>

lemma kmalloc_step:
  assumes "heap_ok h cs" and "vm_iso (kvm h)" and "sz \<noteq> 0" and "unat sz \<le> 65536"
  obtains p h' cs' where "kmalloc sz h = Some (p, h')" "heap_ok h' cs'" "kernel_only (kvm h) (kvm h')"
    "p = 0 \<and> live_blocks cs' = live_blocks cs \<or> p \<noteq> 0 \<and> p \<notin> fst ` live_blocks cs \<and> (\<exists>n \<ge> sz. live_blocks cs' = insert (p, n) (live_blocks cs))"
proof (cases rule: kmalloc_small [OF assms(1,3,4)])
  case (1 p h' cs')
  then show thesis using that kmalloc_vm [OF heap_ok_window [OF assms(1)] assms(2,4) 1(1)] by blast
next
  case (2 p h' cs' n)
  then show thesis using that kmalloc_vm [OF heap_ok_window [OF assms(1)] assms(2,4) 2(1)] by blast
qed

text \<open>
  \<^verbatim>\<open>thread_create\<close> always returns, touches no user memory and no process, and on success its thread is in the table.
\<close>

definition thread_made :: "sys \<Rightarrow> int \<Rightarrow> sys \<Rightarrow> bool" where
  "thread_made s r s' \<longleftrightarrow> kernel_only (kvm_of s) (kvm_of s') \<and> table s' = table s \<and> pending s' = pending s \<and> next_pid s' = next_pid s \<and>
     (r = - 1 \<and> threads s' = threads s \<and> tcb s' = tcb s \<or> r = next_tid s \<and> (\<exists>i t. i < MAX_THREADS \<and> threads s' ! i = Some t \<and> tid (tcb s' t) = r))"

lemma thread_made_fail: "kernel_only (kvm_of s) (kvm h) \<Longrightarrow> thread_made s (- 1) (s\<lparr>kh := h\<rparr>)"
  by (simp add: thread_made_def)

lemma thread_create_made:
  assumes "sched_inv s" and "vm_iso (kvm_of s)"
  shows "\<exists>r s'. thread_create name entry arg s = Some (r, s') \<and> thread_made s r s'"
proof (cases "free_slot s")
  case None
  then show ?thesis using kernel_only_refl [OF assms(2)] by (simp add: thread_create_def thread_made_def)
next
  case (Some i)
  have i: "i < MAX_THREADS" "i < length (threads s)"
    using Some sched_invD(1) [OF assms(1)] by (auto simp: free_slot_def find_Some_iff table_ok_def)
  have sz: "sizeof_thread \<noteq> 0" "unat sizeof_thread \<le> 65536" "STACK_SIZE \<noteq> 0" "unat STACK_SIZE \<le> 65536"
      "(512 + 16 :: u32) \<noteq> 0" "unat (512 + 16 :: u32) \<le> 65536"
    by (simp_all add: sizeof_thread_def STACK_SIZE_def)
  obtain cs0 where cs0: "heap_ok (kh s) cs0" using sched_invD(4) [OF assms(1)] by (auto simp: mem_ok_def)
  obtain t h1 cs1 where t: "kmalloc sizeof_thread (kh s) = Some (t, h1)" "heap_ok h1 cs1" "kernel_only (kvm_of s) (kvm h1)"
      "t = 0 \<or> t \<notin> fst ` live_blocks cs0 \<and> (\<exists>n \<ge> sizeof_thread. live_blocks cs1 = insert (t, n) (live_blocks cs0))"
    by (rule kmalloc_step [OF cs0 assms(2) sz(1,2)]) blast
  have iso1: "vm_iso (kvm h1)" using t(3) by (simp add: kernel_only_def)
  show ?thesis
  proof (cases "t = 0")
    case True
    then show ?thesis using t(1) thread_made_fail [OF t(3)] Some by (simp add: thread_create_def)
  next
    case tn: False
    then obtain n where l1: "live_blocks cs1 = insert (t, n) (live_blocks cs0)" "t \<notin> fst ` live_blocks cs0" using t(4) by blast
    obtain stk h2 cs2 where k: "kmalloc STACK_SIZE h1 = Some (stk, h2)" "heap_ok h2 cs2" "kernel_only (kvm h1) (kvm h2)"
      "stk = 0 \<and> live_blocks cs2 = live_blocks cs1 \<or> stk \<noteq> 0 \<and> stk \<notin> fst ` live_blocks cs1 \<and> (\<exists>m \<ge> STACK_SIZE. live_blocks cs2 = insert (stk, m) (live_blocks cs1))"
      by (rule kmalloc_step [OF t(2) iso1 sz(3,4)]) blast
    have ko2: "kernel_only (kvm_of s) (kvm h2)" using kernel_only_trans [OF t(3) k(3)] .
    then have iso2: "vm_iso (kvm h2)" by (simp add: kernel_only_def)
    show ?thesis
    proof (cases "stk = 0")
      case True
      then obtain h3 where f: "kfree t h2 = Some h3" using kfree_fresh [OF k(2) _ l1(2)] k(4) l1(1) by metis
      then show ?thesis using t(1) tn k(1) True Some thread_made_fail [of s h3] ko2 kfree_vm [OF f] by (simp add: thread_create_def)
    next
      case sn: False
      then obtain m where m: "STACK_SIZE \<le> m" "live_blocks cs2 = insert (stk, m) (live_blocks cs1)" "stk \<notin> fst ` live_blocks cs1"
        using k(4) by blast
      define h2' where "h2' = h2\<lparr>kmem := wr32 stk STACK_GUARD (kmem h2)\<rparr>"
      have sb: "unat stk + unat m \<le> 2 ^ 32" using live_bounds [OF k(2), of stk m] m(2) by simp
      have "4 \<le> unat m" using m(1) by (simp add: STACK_SIZE_def word_le_nat_alt)
      then have ok2: "heap_ok h2' cs2"
        unfolding h2'_def using payload_write [OF k(2), of "(stk, m)"] m(2) wr32_in_payload [OF _ _ sb] by simp
      have kv: "kvm h2' = kvm h2" by (simp add: h2'_def)
      obtain raw h3 cs3 where w: "kmalloc (512 + 16) h2' = Some (raw, h3)" "heap_ok h3 cs3" "kernel_only (kvm h2') (kvm h3)"
        "raw = 0 \<and> live_blocks cs3 = live_blocks cs2 \<or> raw \<noteq> 0"
        by (rule kmalloc_step [OF ok2 _ sz(5,6)]) (use iso2 kv in auto)
      have ko3: "kernel_only (kvm_of s) (kvm h3)" using kernel_only_trans [OF ko2] w(3) kv by simp
      show ?thesis
      proof (cases "raw = 0")
        case True
        then have l3: "live_blocks cs3 = insert (stk, m) (insert (t, n) (live_blocks cs0))" using w(4) m(2) l1(1) by simp
        obtain h4 cs4 where f4: "kfree stk h3 = Some h4" "heap_ok h4 cs4" "live_blocks cs4 = insert (t, n) (live_blocks cs0)"
          using kfree_fresh [OF w(2) l3] m(3) l1(1) by metis
        obtain h5 cs5 where f5: "kfree t h4 = Some h5" using kfree_fresh [OF f4(2,3) l1(2)] by metis
        then show ?thesis
          using t(1) tn k(1) sn w(1) True Some f4(1) thread_made_fail [of s h5] ko3 kfree_vm [OF f5] kfree_vm [OF f4(1)]
          by (simp add: thread_create_def h2'_def)
      next
        case False
        then show ?thesis
          using t(1) tn k(1) sn w(1) Some ko3 i
          by (auto simp: thread_create_def h2'_def Let_def thread_made_def fpu_new_state_def
              intro!: exI [of _ i] exI [of _ "Heap_thread t"])
      qed
    qed
  qed
qed

section \<open>Spawning a process\<close>

text \<open>A slot that \<^verbatim>\<open>allocate\<close> may hand out, and the state of the address spaces between operations.\<close>

definition reusable :: "process \<Rightarrow> bool" where
  "reusable p \<longleftrightarrow> pstate p = PROC_FREE \<or> pstate p = PROC_ZOMBIE \<and> cleaned p"

definition spaces_ok :: "sys \<Rightarrow> bool" where
  "spaces_ok s \<longleftrightarrow> vm_iso (kvm_of s) \<and> live (kvm_of s) Kernel_space \<and> length (table s) = MAX_PROCESSES \<and> length (pending s) = MAX_PROCESSES \<and>
     (\<forall>sp. pd_phys (spaces (kvm_of s) sp) = pd (spaces (kvm_of s) sp)) \<and>
     (\<forall>i. 0 < i \<longrightarrow> i < MAX_PROCESSES \<longrightarrow> reusable (table s ! i) \<longrightarrow> \<not> live (kvm_of s) (Proc_space i))"

lemma allocate_cases:
  assumes "length (table s) = MAX_PROCESSES"
  obtains "allocate s = (None, s)" "\<forall>i. 0 < i \<longrightarrow> i < MAX_PROCESSES \<longrightarrow> \<not> reusable (table s ! i)"
  | i q where "allocate s = (Some i, s\<lparr>table := (table s)[i := q]\<rparr>)" "0 < i" "i < MAX_PROCESSES" "reusable (table s ! i)" "pstate q = PROC_FREE"
proof (cases "find (\<lambda>i. pstate (table s ! i) = PROC_FREE) [1..<MAX_PROCESSES]")
  case (Some i)
  then have i: "pstate (table s ! i) = PROC_FREE" "0 < i" "i < MAX_PROCESSES" using find_someD [OF Some] by auto
  show thesis
    by (rule that(2) [of i "table s ! i"]) (use Some i in \<open>simp_all add: allocate_def reusable_def\<close>)
next
  case None
  note n1 = None
  show thesis
  proof (cases "find (\<lambda>i. pstate (table s ! i) = PROC_ZOMBIE \<and> cleaned (table s ! i)) [1..<MAX_PROCESSES]")
    case None
    show thesis
    proof (rule that(1))
      show "allocate s = (None, s)" unfolding allocate_def n1 None by simp
      show "\<forall>i. 0 < i \<longrightarrow> i < MAX_PROCESSES \<longrightarrow> \<not> reusable (table s ! i)"
        using n1 None by (auto simp: reusable_def find_None_iff)
    qed
  next
    case (Some i)
    then have i: "pstate (table s ! i) = PROC_ZOMBIE" "cleaned (table s ! i)" "0 < i" "i < MAX_PROCESSES" using find_someD [OF Some] by auto
    show thesis
      by (rule that(2) [of i "(table s ! i)\<lparr>pstate := PROC_FREE\<rparr>"])
        (use n1 Some i in \<open>simp_all add: allocate_def reusable_def upd_proc_def\<close>)
  qed
qed

text \<open>The scheduler does not see the process table or the page tables.\<close>

lemma sched_same:
  "sched_inv (s\<lparr>table := tb, next_pid := n, pending := ps, kh := (kh s)\<lparr>kvm := v\<rparr>\<rparr>) = sched_inv s"
  by (auto simp: sched_inv_def table_ok_def tid_ok_def run_ok_def pre_run_def mem_ok_def member_def owns_def heap_ok_def)

text \<open>Changes that leave the user memory of every other process alone.\<close>

definition kept_others :: "space_ref \<Rightarrow> vm \<Rightarrow> vm \<Rightarrow> bool" where
  "kept_others sp v v' \<longleftrightarrow> vm_iso v' \<and> spaces v' = spaces v \<and>
     (\<forall>s a. s \<noteq> sp \<longrightarrow> user_page a \<longrightarrow> walk v' s a = walk v s a \<and> user_byte v' s a = user_byte v s a)"

lemma kept_others_trans: "kept_others sp v v1 \<Longrightarrow> kept_others sp v1 v2 \<Longrightarrow> kept_others sp v v2"
  by (simp add: kept_others_def)

lemma only_kept: "only_changes sp v v' \<Longrightarrow> kept_others sp v v'"
  by (simp add: kept_others_def only_changes_def)

lemma kernel_kept: "kernel_only v v' \<Longrightarrow> kept_others sp v v'"
  by (simp add: kept_others_def kernel_only_def)

text \<open>A space that is created, filled and destroyed again leaves no trace in user memory.\<close>

lemma undo_space:
  assumes iso: "vm_iso v" and z: "spaces v sp = \<lparr>pd = 0, pd_phys = 0\<rparr>" and lk: "live v Kernel_space"
    and cr: "vmm_space_create sp v = (0, v1)" and k: "kept_others sp v1 v2"
  shows "kernel_only v (vmm_space_destroy sp v2)"
proof -
  have dead: "\<not> live v sp" using z by (simp add: live_def)
  note c = create_user [OF iso dead lk cr]
  have nk: "sp \<noteq> Kernel_space" using dead lk by auto
  have s2: "spaces v2 = spaces v1" "vm_iso v2" using k by (simp_all add: kept_others_def)
  have lv: "live v2 sp" "pd_phys (spaces v2 sp) = pd (spaces v2 sp)" using c(4) [of sp] c(5) s2 by (simp_all add: live_def)
  note d = destroy_user [OF s2(2) lv(1) nk lv(2) refl]
  have sps: "spaces (vmm_space_destroy sp v2) = spaces v"
  proof (rule ext)
    fix s
    have sp0: "spaces (vmm_space_destroy sp v2) sp = \<lparr>pd = 0, pd_phys = 0\<rparr>"
      using lv nk by (simp add: vmm_space_destroy_def Let_def live_def set_space_def)
    show "spaces (vmm_space_destroy sp v2) s = spaces v s"
      using d(3) [of s] c(6) [of s] s2(1) sp0 z by (cases "s = sp") simp_all
  qed
  have n: "walk (vmm_space_destroy sp v2) sp a = None" "walk v sp a = None" for a
    using d(2) [of sp] dead by (simp_all add: walk_def)
  have o: "walk (vmm_space_destroy sp v2) s a = walk v s a \<and> user_byte (vmm_space_destroy sp v2) s a = user_byte v s a"
    if "s \<noteq> sp" "user_page a" for s a
    using d(4,5) [of s] c(7,8) [of s] k that by (simp add: kept_others_def)
  show ?thesis
    using d(1) sps unfolding kernel_only_def
  proof (intro conjI allI impI)
    fix s a assume u: "user_page a"
    let ?w = "vmm_space_destroy sp v2"
    show "walk ?w s a = walk v s a" "user_byte ?w s a = user_byte v s a"
      using n o [OF _ u, of s] by (cases "s = sp"; simp add: user_byte_def)+
  qed
qed

lemma start_thread_cases:
  assumes "sched_inv s" and "vm_iso (kvm_of s)" and "length (pending s) = MAX_PROCESSES" and "i < MAX_PROCESSES"
    and "length (table s) = MAX_PROCESSES"
  obtains s2 where "start_thread pe pend i entry sp s = Some (- 7, abandon i s2)" "kernel_only (kvm_of s) (kvm_of s2)"
      "table s2 = table s" "sched_inv s2" "length (pending s2) = MAX_PROCESSES"
  | s' t where "start_thread pe pend i entry sp s = Some (pid (table s ! i), s')" "kernel_only (kvm_of s) (kvm_of s')"
      "table s' = (table s)[i := (table s ! i)\<lparr>main_tid := t\<rparr>]" "sched_inv s'" "thread_exists t s'"
      "pending s' = (pending s)[i := \<lparr>l_proc = i, l_entry = entry, l_stack = sp\<rparr>]"
proof -
  define s1 where "s1 = s\<lparr>pending := (pending s)[i := \<lparr>l_proc = i, l_entry = entry, l_stack = sp\<rparr>]\<rparr>"
  have i1: "sched_inv s1" using sched_same [where s = s and tb = "table s" and n = "next_pid s" and v = "kvm_of s"] assms(1) by (simp add: s1_def)
  have v1: "kvm_of s1 = kvm_of s" "table s1 = table s" by (simp_all add: s1_def)
  obtain r s2 where c: "thread_create (pname (table s1 ! i)) pe (pend i) s1 = Some (r, s2)" "thread_made s1 r s2"
    using thread_create_made [OF i1] assms(2) v1 by metis
  have i2: "sched_inv s2" using create_inv [OF i1 c(1)] .
  have m: "kernel_only (kvm_of s) (kvm_of s2)" "table s2 = table s" "pending s2 = pending s1"
    using c(2) v1 by (simp_all add: thread_made_def)
  have st: "start_thread pe pend i entry sp s =
      (if r < 0 then Some (- 7, abandon i s2) else Some (pid (table s2 ! i), upd_proc i (\<lambda>p. p\<lparr>main_tid := r\<rparr>) s2))"
    unfolding start_thread_def Let_def s1_def [symmetric] c(1) by simp
  show thesis
  proof (cases "r < 0")
    case True
    show thesis by (rule that(1) [of s2]) (use True st m i2 assms(3) in \<open>simp_all add: s1_def\<close>)
  next
    case False
    then obtain j t where j: "j < MAX_THREADS" "threads s2 ! j = Some t" "tid (tcb s2 t) = r" using c(2) by (auto simp: thread_made_def)
    have "find (\<lambda>k. case threads s2 ! k of Some q \<Rightarrow> tid (tcb s2 q) = r | None \<Rightarrow> False) [0..<MAX_THREADS] \<noteq> None"
      using j by (auto simp: find_None_iff intro!: exI [of _ j])
    then obtain k where k: "find (\<lambda>k. case threads s2 ! k of Some q \<Rightarrow> tid (tcb s2 q) = r | None \<Rightarrow> False) [0..<MAX_THREADS] = Some k" by blast
    then have "threads s2 ! k \<noteq> None" using find_someD [OF k] by (auto split: option.splits)
    then have ex: "thread_exists r s2" using k by (simp add: thread_exists_def find_thread_def)
    let ?s = "upd_proc i (\<lambda>p. p\<lparr>main_tid := r\<rparr>) s2"
    have "threads ?s = threads s2" "tcb ?s = tcb s2" by (simp_all add: upd_proc_def)
    then have "thread_exists r ?s" using ex unfolding thread_exists_def find_thread_def by presburger
    moreover have "sched_inv ?s"
      using sched_same [where s = s2 and n = "next_pid s2" and v = "kvm_of s2" and ps = "pending s2"] i2 by (simp add: upd_proc_def)
    ultimately show thesis
      by (intro that(2) [of ?s r]) (use False st m assms in \<open>simp_all add: upd_proc_def s1_def\<close>)
  qed
qed

definition STACK_FLOOR :: u32 where "STACK_FLOOR = 0x407F0000"

text \<open>
  What the first instruction of a program finds: every segment of the image, its entry point in an executable segment,
  the stack with the arguments, and nothing else mapped between the break and the stack.
\<close>

definition program_ready :: "u8 list \<Rightarrow> int \<Rightarrow> cstr list \<Rightarrow> vm \<Rightarrow> space_ref \<Rightarrow> virt_addr \<Rightarrow> virt_addr \<Rightarrow> virt_addr \<Rightarrow> bool" where
  "program_ready img argc argv v sp entry stk brk0 \<longleftrightarrow>
     (\<exists>h. read_ehdr img = Some h \<and> entry = eh_entry h \<and>
        (\<forall>k < unat (eh_phnum h). \<forall>p. load_seg h img k p \<longrightarrow> seg_loaded img v sp p \<and> \<not> (ph_flags p AND PF_W \<noteq> 0 \<and> ph_flags p AND PF_X \<noteq> 0)) \<and>
        (\<exists>k < unat (eh_phnum h). \<exists>p. load_seg h img k p \<and> in_segment p entry \<and> ph_flags p AND PF_X \<noteq> 0)) \<and>
     args_fit argc argv \<and> stk = USER_STACK_TOP - of_nat (stack_size_of (passed_args argc argv)) \<and>
     unat stk + stack_size_of (passed_args argc argv) = unat USER_STACK_TOP \<and>
     (\<forall>a. unat stk \<le> unat a \<longrightarrow> unat a < unat USER_STACK_TOP \<longrightarrow>
        user_byte v sp a = Some (stack_image stk (passed_args argc argv) ! (unat a - unat stk))) \<and>
     (\<forall>a. unat STACK_FLOOR \<le> unat a \<longrightarrow> unat a < unat USER_STACK_TOP \<longrightarrow> walk v sp a \<noteq> None) \<and>
     (\<forall>a. user_page a \<longrightarrow> walk v sp a \<noteq> None \<longrightarrow> unat a < unat brk0 \<or> unat STACK_FLOOR \<le> unat a \<and> unat a < unat USER_STACK_TOP) \<and>
     4096 dvd unat brk0 \<and> unat brk0 < unat STACK_FLOOR"

lemma user_pageI: "0x40000000 \<le> unat a \<Longrightarrow> unat a < 0xD0000000 \<Longrightarrow> user_page a"
  by (simp add: user_page_def USER_MIN_def USER_MAX_def word_le_nat_alt word_less_nat_alt)

lemma seg_user:
  assumes "in_segment p a" and "unat USER_MIN \<le> unat (ph_vaddr p)" "unat (ph_vaddr p) + unat (ph_memsz p) \<le> unat USER_MAX"
  shows "user_page a"
  using assms by (intro user_pageI) (auto simp: in_segment_def USER_MIN_def USER_MAX_def)

lemma seg_kept:
  assumes "seg_loaded img v sp p" and "unat USER_MIN \<le> unat (ph_vaddr p)" "unat (ph_vaddr p) + unat (ph_memsz p) \<le> unat USER_MAX"
    and "\<And>a e. user_page a \<Longrightarrow> walk v sp a = Some e \<Longrightarrow> walk v' sp a = Some e \<and> user_byte v' sp a = user_byte v sp a"
  shows "seg_loaded img v' sp p"
  unfolding seg_loaded_def
proof (intro allI impI)
  fix a assume a: "in_segment p a"
  then obtain e where e: "walk v sp a = Some e" "e AND 0xFFF = segment_pte p" "user_byte v sp a = Some (seg_byte img p a)"
    using assms(1) by (auto simp: seg_loaded_def)
  note k = assms(4) [OF seg_user [OF a assms(2,3)] e(1)]
  show "user_byte v' sp a = Some (seg_byte img p a) \<and> (\<exists>e. walk v' sp a = Some e \<and> e AND 0xFFF = segment_pte p)" using e k by auto
qed

lemma ready_kernel_only:
  assumes "program_ready img argc argv v sp entry stk brk0" and "kernel_only v v'"
    and "image_loaded img v0 sp entry brk0"
  shows "program_ready img argc argv v' sp entry stk brk0"
proof -
  have k: "walk v' sp a = walk v sp a \<and> user_byte v' sp a = user_byte v sp a" if "user_page a" for a
    using assms(2) that by (simp add: kernel_only_def)
  obtain h0 where h0: "read_ehdr img = Some h0" "\<forall>i<unat (eh_phnum h0). \<forall>p. load_seg h0 img i p \<longrightarrow>
      unat USER_MIN \<le> unat (ph_vaddr p) \<and> unat (ph_vaddr p) + unat (ph_memsz p) \<le> unat USER_MAX"
    using assms(3) unfolding image_loaded_def by blast
  note r = assms(1) [unfolded program_ready_def]
  have sz: "stack_size_of (passed_args argc argv) \<le> 1024" using stack_size_word(2) r by (simp add: args_fit_def)
  have up: "user_page a" if "unat STACK_FLOOR \<le> unat a" "unat a < unat USER_STACK_TOP" for a
    using that by (intro user_pageI) (simp_all add: STACK_FLOOR_def USER_STACK_TOP_def)
  have us: "user_page a" if "unat stk \<le> unat a" "unat a < unat USER_STACK_TOP" for a
    using that r sz by (intro up) (auto simp: STACK_FLOOR_def USER_STACK_TOP_def)
  have segs: "seg_loaded img v' sp p" if "i < unat (eh_phnum h0)" "load_seg h0 img i p" "seg_loaded img v sp p" for i p
    using h0(2) that k by (intro seg_kept [OF that(3)]) auto
  obtain h where h: "read_ehdr img = Some h" "entry = eh_entry h"
    "\<forall>k < unat (eh_phnum h). \<forall>p. load_seg h img k p \<longrightarrow> seg_loaded img v sp p \<and> \<not> (ph_flags p AND PF_W \<noteq> 0 \<and> ph_flags p AND PF_X \<noteq> 0)"
    "\<exists>k < unat (eh_phnum h). \<exists>p. load_seg h img k p \<and> in_segment p entry \<and> ph_flags p AND PF_X \<noteq> 0" using r by blast
  have hh: "h0 = h" using h(1) h0(1) by simp
  have 1: "\<exists>h. read_ehdr img = Some h \<and> entry = eh_entry h \<and>
        (\<forall>k < unat (eh_phnum h). \<forall>p. load_seg h img k p \<longrightarrow> seg_loaded img v' sp p \<and> \<not> (ph_flags p AND PF_W \<noteq> 0 \<and> ph_flags p AND PF_X \<noteq> 0)) \<and>
        (\<exists>k < unat (eh_phnum h). \<exists>p. load_seg h img k p \<and> in_segment p entry \<and> ph_flags p AND PF_X \<noteq> 0)"
    using h segs [unfolded hh] by blast
  show ?thesis unfolding program_ready_def using 1 r k up us by auto
qed

lemma fill_program:
  fixes i :: nat
  defines "sp \<equiv> Proc_space i"
  assumes im: "image_loaded img v2 sp entry brk0" and iso: "vm_iso v2" and lo: "brk0 < STACK_FLOOR"
    and al: "vmm_alloc_range sp STACK_FLOOR 0x10000 sbrk_flags v2 = (0, v3)"
    and st: "stack_top (table s ! i) = USER_STACK_TOP" and kv: "kvm_of s = v3" and fit: "args_fit argc argv"
  shows "\<exists>stk v4. build_stack i argc argv s = ((0, stk), upd_vm (\<lambda>_. v4) s) \<and> only_changes sp v2 v4 \<and>
    program_ready img argc argv v4 sp entry stk brk0"
proof -
  have fl: "sbrk_flags AND PTE_USER \<noteq> 0" by (simp add: sbrk_flags_def PTE_PRESENT_def PTE_WRITE_def PTE_USER_def)
  have rg: "unat USER_MIN \<le> unat STACK_FLOOR" "unat STACK_FLOOR + unat (0x10000 :: u32) \<le> unat USER_MAX"
    by (simp_all add: USER_MIN_def USER_MAX_def STACK_FLOOR_def)
  note a = alloc_range_user [OF iso fl al rg]
  define strs where "strs = passed_args argc argv"
  define stk where "stk = USER_STACK_TOP - of_nat (stack_size_of strs)"
  have iso3: "vm_iso v3" using a(1) by (simp add: only_changes_def)
  have m3: "walk v3 sp a \<noteq> None" if "unat STACK_FLOOR \<le> unat a" "unat a < unat USER_STACK_TOP" for a
    using a(3) [of a] that by (simp add: STACK_FLOOR_def USER_STACK_TOP_def)
  have "\<exists>v'. build_stack i argc argv s = ((0, stk), upd_vm (\<lambda>_. v') s) \<and> only_changes sp v3 v' \<and> walk v' = walk v3 \<and> phys v' = phys v3 \<and>
    unat stk + stack_size_of strs = unat USER_STACK_TOP \<and> stack_size_of strs \<le> 1024 \<and>
    (\<forall>a. user_page a \<longrightarrow> user_byte v' sp a =
      (if unat stk \<le> unat a \<and> unat a < unat USER_STACK_TOP then Some (stack_image stk strs ! (unat a - unat stk)) else user_byte v3 sp a))"
    unfolding stk_def strs_def sp_def kv [symmetric] st [symmetric]
    by (rule build_stack_spec)
      (use iso3 m3 fit in \<open>simp_all add: kv st sp_def USER_MIN_def USER_MAX_def USER_STACK_TOP_def STACK_FLOOR_def ARG_AREA_MAX_def\<close>)
  then obtain v4 where b: "build_stack i argc argv s = ((0, stk), upd_vm (\<lambda>_. v4) s)" "only_changes sp v3 v4" "walk v4 = walk v3"
    and sz: "unat stk + stack_size_of strs = unat USER_STACK_TOP" "stack_size_of strs \<le> 1024"
    and by4: "\<And>a. user_page a \<Longrightarrow> user_byte v4 sp a =
      (if unat stk \<le> unat a \<and> unat a < unat USER_STACK_TOP then Some (stack_image stk strs ! (unat a - unat stk)) else user_byte v3 sp a)"
    by blast
  obtain h where h: "read_ehdr img = Some h" "entry = eh_entry h"
    "\<forall>i<unat (eh_phnum h). \<forall>p. load_seg h img i p \<longrightarrow> seg_loaded img v2 sp p \<and>
        unat USER_MIN \<le> unat (ph_vaddr p) \<and> unat (ph_vaddr p) + unat (ph_memsz p) \<le> unat USER_MAX \<and>
        \<not> (ph_flags p AND PF_W \<noteq> 0 \<and> ph_flags p AND PF_X \<noteq> 0)"
    "\<exists>i<unat (eh_phnum h). \<exists>p. load_seg h img i p \<and> in_segment p entry \<and> ph_flags p AND PF_X \<noteq> 0"
    "\<forall>a. user_page a \<longrightarrow> walk v2 sp a \<noteq> None \<longrightarrow> unat a < unat brk0" "4096 dvd unat brk0"
    using im unfolding image_loaded_def by blast
  have lo': "unat brk0 < unat STACK_FLOOR" using lo by (simp add: word_less_nat_alt)
  have top: "unat STACK_FLOOR = 0x407F0000" "unat USER_STACK_TOP = 0x40800000" by (simp_all add: STACK_FLOOR_def USER_STACK_TOP_def)
  have keep: "walk v4 sp a = Some e \<and> user_byte v4 sp a = user_byte v2 sp a" if "user_page a" "walk v2 sp a = Some e" for a e
  proof -
    have "unat a < unat stk" using h(5) that lo' sz top by fastforce
    then show ?thesis using a(4,5) [OF that(2)] b(3) by4 [OF that(1)] that(1) by simp
  qed
  have segs: "seg_loaded img v4 sp p" if "k < unat (eh_phnum h)" "load_seg h img k p" for k p
    using h(3) that keep by (intro seg_kept [of img v2 sp p v4]) auto
  have only: "unat a < unat brk0 \<or> unat STACK_FLOOR \<le> unat a \<and> unat a < unat USER_STACK_TOP" if ua: "user_page a" and wa: "walk v4 sp a \<noteq> None" for a
  proof (cases "walk v2 sp a")
    case None
    then obtain e where "walk v3 sp a = Some e" using wa b(3) by auto
    from a(6) [OF None this] have "unat a div 4096 \<ge> 0x407F0" "unat a div 4096 < 0x40800" unfolding top(1) by simp_all
    then show ?thesis unfolding top by (simp add: div_less_iff_less_mult less_eq_div_iff_mult_less_eq)
  next
    case (Some e)
    then show ?thesis using h(5) ua by auto
  qed
  have us: "user_page a" if "unat stk \<le> unat a" "unat a < unat USER_STACK_TOP" for a
    using that sz top by (intro user_pageI) simp_all
  have "program_ready img argc argv v4 sp entry stk brk0"
    unfolding program_ready_def strs_def [symmetric]
    using h segs fit stk_def sz(1) by4 us only lo' m3 b(3) by (intro conjI exI [of _ h]) auto
  then show ?thesis using b(1) only_changes_trans [OF a(1) b(2)] by blast
qed

text \<open>The outcomes of launching: everything undone and the slot free, or a program ready to run.\<close>

definition launch_undone :: "nat \<Rightarrow> sys \<Rightarrow> sys \<Rightarrow> bool" where
  "launch_undone i s s' \<longleftrightarrow> kernel_only (kvm_of s) (kvm_of s') \<and> (\<exists>q. table s' = (table s)[i := q] \<and> pstate q = PROC_FREE) \<and>
     sched_inv s' \<and> length (pending s') = length (pending s)"

definition launched :: "nat \<Rightarrow> u8 list \<Rightarrow> int \<Rightarrow> cstr list \<Rightarrow> sys \<Rightarrow> sys \<Rightarrow> bool" where
  "launched i img argc argv s s' \<longleftrightarrow> (\<exists>v1 q. vmm_space_create (Proc_space i) (kvm_of s) = (0, v1) \<and> kept_others (Proc_space i) v1 (kvm_of s') \<and>
     table s' = (table s)[i := q] \<and> pstate q = pstate (table s ! i) \<and> pid q = pid (table s ! i) \<and> brk q = brk_start q \<and>
     l_proc (pending s' ! i) = i \<and>
     program_ready img argc argv (kvm_of s') (Proc_space i) (l_entry (pending s' ! i)) (l_stack (pending s' ! i)) (brk q) \<and>
     thread_exists (main_tid q) s' \<and> sched_inv s' \<and> length (pending s') = length (pending s))"

lemma sched_upd: "sched_inv (upd_vm f s) = sched_inv s" "sched_inv (upd_proc i g s) = sched_inv s"
  using sched_same [where s = s and n = "next_pid s" and ps = "pending s" and tb = "table s"]
    sched_same [where s = s and n = "next_pid s" and ps = "pending s" and v = "kvm_of s"]
  by (simp_all add: upd_vm_def upd_proc_def)

lemma abandon_undone:
  assumes "vm_iso (kvm_of s)" and "spaces (kvm_of s) (Proc_space i) = \<lparr>pd = 0, pd_phys = 0\<rparr>" and "live (kvm_of s) Kernel_space"
    and "vmm_space_create (Proc_space i) (kvm_of s) = (0, v1)" and "kept_others (Proc_space i) v1 (kvm_of s2)"
    and "table s2 = (table s)[i := q]" and "i < length (table s)" and "sched_inv s2" and "length (pending s2) = length (pending s)"
  shows "launch_undone i s (abandon i s2)"
proof -
  have "kernel_only (kvm_of s) (kvm_of (abandon i s2))"
    using undo_space [OF assms(1-5)] by (simp add: abandon_def upd_proc_def)
  moreover have "sched_inv (abandon i s2)"
    using assms(8) by (simp add: abandon_def sched_upd)
  moreover have "table (abandon i s2) = (table s)[i := q\<lparr>pstate := PROC_FREE\<rparr>]" "length (pending (abandon i s2)) = length (pending s)"
    using assms(6,7,9) by (simp_all add: abandon_def upd_proc_def upd_vm_def)
  ultimately show ?thesis by (auto simp: launch_undone_def)
qed

lemma upd_fields [simp]:
  "table (upd_vm f s) = table s" "pending (upd_vm f s) = pending s" "next_pid (upd_vm f s) = next_pid s"
  "kvm_of (upd_proc i g s) = kvm_of s" "pending (upd_proc i g s) = pending s" "table (upd_proc i g s) = (table s)[i := g (table s ! i)]"
  by (simp_all add: upd_vm_def upd_proc_def)

lemma launch_spec:
  fixes i :: nat and s :: sys
  defines "sp \<equiv> Proc_space i"
  assumes inv: "sched_inv s" and iso: "vm_iso (kvm_of s)" and z: "spaces (kvm_of s) sp = \<lparr>pd = 0, pd_phys = 0\<rparr>"
    and lk: "live (kvm_of s) Kernel_space" and len: "length img < 2 ^ 32" and i: "i < MAX_PROCESSES"
    and tl: "length (table s) = MAX_PROCESSES" and pl: "length (pending s) = MAX_PROCESSES" and st: "stack_top (table s ! i) = USER_STACK_TOP"
  shows "\<exists>r s'. launch_program pe pend i img argc argv s = Some (r, s') \<and>
    (r < 0 \<and> launch_undone i s s' \<or> r = pid (table s ! i) \<and> launched i img argc argv s s')"
proof -
  have fl: "USER_STACK_TOP - 0x10000 = STACK_FLOOR" "USER_STACK_PAGES * PAGE_SIZE = 0x10000"
    by (simp_all add: USER_STACK_TOP_def USER_STACK_PAGES_def PAGE_SIZE_def STACK_FLOOR_def)
  have dead: "\<not> live (kvm_of s) sp" using z by (simp add: live_def)
  obtain r v1 where cr: "vmm_space_create sp (kvm_of s) = (r, v1)" by fastforce
  note c = create_user [OF iso dead lk cr]
  have it: "i < length (table s)" using tl i by simp
  note lp = launch_program_def [of pe pend i img argc argv s, unfolded st fl Let_def sp_def [symmetric] cr prod.case]
  show ?thesis
  proof (cases "r = 0")
    case False
    then have "launch_undone i s (upd_proc i (\<lambda>p. p\<lparr>pstate := PROC_FREE\<rparr>) (upd_vm (\<lambda>_. v1) s))"
      using c(3) kernel_only_refl [OF iso] inv by (auto simp: launch_undone_def sched_upd)
    then show ?thesis using lp False c(1) by auto
  next
    case r: True
    note cr0 = cr [unfolded r sp_def]
    note undone = abandon_undone [OF iso z [unfolded sp_def] lk cr0 _ _ it, folded sp_def]
    have "\<forall>a. user_page a \<longrightarrow> walk v1 sp a = None" using c(9) r by simp
    from elf_load_spec [OF c(2) len this] obtain r2 entry brk0 v2 where e: "elf_load sp img v1 = Some ((r2, entry, brk0), v2)"
      "only_changes sp v1 v2" "r2 = - 1 \<or> r2 = 0 \<and> image_loaded img v2 sp entry brk0" by metis
    define s3 where "s3 = upd_proc i (\<lambda>p. p\<lparr>brk_start := brk0, brk := brk0\<rparr>) (upd_vm (\<lambda>_. v2) s)"
    have s3: "kvm_of s3 = v2" "sched_inv s3" "pending s3 = pending s" "table s3 = (table s)[i := (table s ! i)\<lparr>brk_start := brk0, brk := brk0\<rparr>]"
      using inv by (simp_all add: s3_def sched_upd)
    note lp2 = lp [unfolded r e option.case prod.case Let_def s3_def [symmetric] s3(1)]
    have k2: "kept_others sp v1 v2" using only_kept [OF e(2)] .
    show ?thesis
    proof (cases "r2 = 0 \<and> brk0 < STACK_FLOOR")
      case False
      have "launch_undone i s (abandon i (upd_vm (\<lambda>_. v2) s))" "launch_undone i s (abandon i s3)"
        using undone [of "upd_vm (\<lambda>_. v2) s" "table s ! i"] undone [of s3 "(table s ! i)\<lparr>brk_start := brk0, brk := brk0\<rparr>"] k2 s3 inv
        by (simp_all add: sched_upd)
      then show ?thesis using lp2 False e(3) by (auto simp: not_less)
    next
      case True
      then have im: "image_loaded img v2 sp entry brk0" and lo: "brk0 < STACK_FLOOR" using e(3) by auto
      have iso2: "vm_iso v2" using e(2) by (simp add: only_changes_def)
      obtain r3 v3 where al: "vmm_alloc_range sp STACK_FLOOR 0x10000 sbrk_flags v2 = (r3, v3)" by fastforce
      have "only_changes sp v2 v3" "r3 = 0 \<or> r3 = - 1"
        using alloc_range_user(1,2) [OF iso2 _ al]
        by (simp_all add: sbrk_flags_def PTE_PRESENT_def PTE_WRITE_def PTE_USER_def USER_MIN_def USER_MAX_def STACK_FLOOR_def)
      then have k3: "kept_others sp v1 v3" and r3: "r3 = 0 \<or> r3 = - 1" using kept_others_trans [OF k2 only_kept] by auto
      define s5 where "s5 = upd_proc i (\<lambda>p. p\<lparr>user_pages := USER_STACK_PAGES\<rparr>) (upd_vm (\<lambda>_. v3) s3)"
      have s5: "kvm_of s5 = v3" "sched_inv s5" "pending s5 = pending s"
        "table s5 = (table s)[i := (table s ! i)\<lparr>brk_start := brk0, brk := brk0, user_pages := USER_STACK_PAGES\<rparr>]"
        using s3 it by (simp_all add: s5_def sched_upd)
      have nlo: "\<not> STACK_FLOOR \<le> brk0" using lo by (simp add: not_le)
      have lp3: "launch_program pe pend i img argc argv s =
          (if r3 < 0 then Some (- 5, abandon i (upd_vm (\<lambda>_. v3) s3))
           else case build_stack i argc argv s5 of ((r4, stk), s6) \<Rightarrow> if r4 < 0 then Some (- 6, abandon i s6) else start_thread pe pend i entry stk s6)"
        unfolding lp2 al prod.case s5_def [symmetric] using True nlo by simp
      show ?thesis
      proof (cases "r3 = 0 \<and> args_fit argc argv")
        case False
        have "launch_undone i s (abandon i (upd_vm (\<lambda>_. v3) s3))" "launch_undone i s (abandon i s5)"
          using undone [of "upd_vm (\<lambda>_. v3) s3" "(table s ! i)\<lparr>brk_start := brk0, brk := brk0\<rparr>"]
            undone [of s5 "(table s ! i)\<lparr>brk_start := brk0, brk := brk0, user_pages := USER_STACK_PAGES\<rparr>"] k3 s3 s5
          by (simp_all add: sched_upd)
        then show ?thesis using lp3 False r3 build_stack_refused [of argc argv i s5] by auto
      next
        case r3: True
        have st5: "stack_top (table s5 ! i) = USER_STACK_TOP" using st s5(4) it by simp
        obtain stk v4 where b: "build_stack i argc argv s5 = ((0, stk), upd_vm (\<lambda>_. v4) s5)" "only_changes sp v2 v4"
          "program_ready img argc argv v4 sp entry stk brk0"
          using fill_program [of img v2 i entry brk0 v3 s5 argc argv, folded sp_def, OF im iso2 lo] al r3 st5 s5(1) by auto
        define s6 where "s6 = upd_vm (\<lambda>_. v4) s5"
        have s6: "kvm_of s6 = v4" "sched_inv s6" "pending s6 = pending s" "table s6 = table s5" using s5 by (simp_all add: s6_def sched_upd)
        have k4: "kept_others sp v1 v4" using kept_others_trans [OF k2 only_kept [OF b(2)]] .
        have iso4: "vm_iso (kvm_of s6)" using b(2) s6(1) by (simp add: only_changes_def)
        have ln: "length (pending s6) = MAX_PROCESSES" "length (table s6) = MAX_PROCESSES" using s6 s5 tl pl by simp_all
        have lp4: "launch_program pe pend i img argc argv s = start_thread pe pend i entry stk s6" using lp3 r3 b(1) by (simp add: s6_def)
        show ?thesis
        proof (cases rule: start_thread_cases [OF s6(2) iso4 ln(1) i ln(2), of pe pend entry stk])
          case (1 s8)
          have "launch_undone i s (abandon i s8)"
            using undone [of s8 "table s5 ! i"] kept_others_trans [OF k4 kernel_kept] 1 s6 s5 pl it by simp
          then show ?thesis using lp4 1(1) by auto
        next
          case (2 s' t)
          have "kept_others sp v1 (kvm_of s')" using kept_others_trans [OF k4 kernel_kept] 2(2) s6(1) by simp
          moreover have "program_ready img argc argv (kvm_of s') sp entry stk brk0" using ready_kernel_only [OF b(3) _ im] 2(2) s6(1) by simp
          ultimately have "launched i img argc argv s s'"
            using cr0 2 s6 s5 it i pl unfolding launched_def sp_def by auto
          moreover have "pid (table s6 ! i) = pid (table s ! i)" using s6(4) s5(4) it by simp
          ultimately show ?thesis using lp4 2(1) by auto
        qed
      qed
    qed
  qed
qed

lemma spaces_okD:
  assumes "spaces_ok s"
  shows "vm_iso (kvm_of s)" "live (kvm_of s) Kernel_space" "length (table s) = MAX_PROCESSES" "length (pending s) = MAX_PROCESSES"
    "pd_phys (spaces (kvm_of s) sp) = pd (spaces (kvm_of s) sp)"
    "0 < i \<Longrightarrow> i < MAX_PROCESSES \<Longrightarrow> reusable (table s ! i) \<Longrightarrow> \<not> live (kvm_of s) (Proc_space i)"
  using assms unfolding spaces_ok_def by blast+

lemma dead_slot:
  assumes "spaces_ok s" and "0 < i" "i < MAX_PROCESSES" "reusable (table s ! i)"
  shows "spaces (kvm_of s) (Proc_space i) = \<lparr>pd = 0, pd_phys = 0\<rparr>"
proof -
  have "pd (spaces (kvm_of s) (Proc_space i)) = 0" "pd_phys (spaces (kvm_of s) (Proc_space i)) = 0"
    using spaces_okD(5,6) [OF assms(1)] assms(2-4) by (simp_all add: live_def)
  then show ?thesis by (cases "spaces (kvm_of s) (Proc_space i)") simp
qed

lemma init_process_state:
  assumes "spaces_ok s" and "0 < i" "i < MAX_PROCESSES" "reusable (table s ! i)"
    and "s0 = s\<lparr>table := (table s)[i := q]\<rparr>" and "s1 = init_process i name par s0"
  obtains p where "table s1 = (table s)[i := p]" "pstate p = PROC_RUNNING" "pid p = next_pid s" "stack_top p = USER_STACK_TOP"
    "kvm_of s1 = kvm_of s" "sched_inv s1 = sched_inv s" "pending s1 = pending s"
proof -
  have sv: "set_space (Proc_space i) 0 (kvm_of s) = kvm_of s"
    using dead_slot [OF assms(1-4)] by (simp add: set_space_def fun_upd_idem)
  let ?p = "zero_process\<lparr>pid := next_pid s, parent := pid (table s0 ! par), pstate := PROC_RUNNING,
         started_ms := timer_ms s0, stack_top := USER_STACK_TOP, pname := name_field PROC_NAME_MAX name,
         cwd := name_field FS_PATH_MAX (cwd (table s0 ! par))\<rparr>"
  have e: "s1 = s\<lparr>table := (table s)[i := ?p], next_pid := next_pid s + 1\<rparr>"
    using sv unfolding assms(6) init_process_def upd_vm_def upd_proc_def by (simp add: assms(5))
  show thesis
  proof (rule that [of ?p])
    show "sched_inv s1 = sched_inv s" using sched_same [where s = s and ps = "pending s" and v = "kvm_of s"] by (simp add: e)
  qed (simp_all add: e)
qed

lemma undone_ok:
  assumes ok: "spaces_ok s" and "0 < i" "i < MAX_PROCESSES" "reusable (table s ! i)" and "launch_undone i s1 s'"
    and s1: "table s1 = (table s)[i := p]" "kvm_of s1 = kvm_of s" "pending s1 = pending s"
  shows "spaces_ok s' \<and> kernel_only (kvm_of s) (kvm_of s') \<and> sched_inv s' \<and>
    (\<forall>j < MAX_PROCESSES. \<not> reusable (table s ! j) \<longrightarrow> table s' ! j = table s ! j)"
proof -
  obtain q where k: "kernel_only (kvm_of s) (kvm_of s')" "table s' = (table s)[i := q]" "pstate q = PROC_FREE" "sched_inv s'"
    "length (pending s') = length (pending s)"
    using assms(5) s1 by (auto simp: launch_undone_def)
  have l: "live (kvm_of s') sp = live (kvm_of s) sp" "spaces (kvm_of s') = spaces (kvm_of s)" for sp
    using k(1) by (simp_all add: kernel_only_def live_def)
  have r: "reusable (table s' ! j) \<longrightarrow> reusable (table s ! j)" if "j < MAX_PROCESSES" for j
    using that k(2) assms(3,4) spaces_okD(3) [OF ok] by (cases "j = i") simp_all
  have "\<forall>j < MAX_PROCESSES. \<not> reusable (table s ! j) \<longrightarrow> table s' ! j = table s ! j"
    using k(2) assms(4) by (metis nth_list_update_neq)
  then show ?thesis
    using k r l spaces_okD [OF ok] unfolding spaces_ok_def kernel_only_def by auto
qed

lemma launched_ok:
  assumes ok: "spaces_ok s" and i: "0 < i" "i < MAX_PROCESSES" "reusable (table s ! i)" and la: "launched i img argc argv s1 s'"
    and s1: "table s1 = (table s)[i := p]" "kvm_of s1 = kvm_of s" "pending s1 = pending s" "pstate p = PROC_RUNNING"
  shows "spaces_ok s'" and "sp \<noteq> Proc_space i \<Longrightarrow> user_page a \<Longrightarrow> walk (kvm_of s') sp a = walk (kvm_of s) sp a \<and> user_byte (kvm_of s') sp a = user_byte (kvm_of s) sp a"
    and "table s' = (table s)[i := table s' ! i]" and "pstate (table s' ! i) = PROC_RUNNING" and "pid (table s' ! i) = pid p" and "sched_inv s'"
    and "l_proc (pending s' ! i) = i" and "thread_exists (main_tid (table s' ! i)) s'" and "brk (table s' ! i) = brk_start (table s' ! i)"
    and "program_ready img argc argv (kvm_of s') (Proc_space i) (l_entry (pending s' ! i)) (l_stack (pending s' ! i)) (brk (table s' ! i))"
proof -
  note d = spaces_okD [OF ok]
  obtain v1 q where l: "vmm_space_create (Proc_space i) (kvm_of s) = (0, v1)" "kept_others (Proc_space i) v1 (kvm_of s')"
     "table s' = (table s1)[i := q]" "pstate q = pstate (table s1 ! i)" "pid q = pid (table s1 ! i)" "brk q = brk_start q" "l_proc (pending s' ! i) = i"
     "program_ready img argc argv (kvm_of s') (Proc_space i) (l_entry (pending s' ! i)) (l_stack (pending s' ! i)) (brk q)"
     "thread_exists (main_tid q) s'" "sched_inv s'" "length (pending s') = length (pending s)"
    using la s1(2,3) unfolding launched_def by auto
  have it: "i < length (table s)" using d(3) i(2) by simp
  have tq: "table s' ! i = q" "table s' = (table s)[i := q]" using l(3) s1(1) it by simp_all
  have tp: "table s1 ! i = p" using s1(1) it by simp
  note c = create_user [OF d(1) d(6) [OF i] d(2) l(1)]
  have k: "vm_iso (kvm_of s')" "spaces (kvm_of s') = spaces v1" using l(2) by (simp_all add: kept_others_def)
  show "sp \<noteq> Proc_space i \<Longrightarrow> user_page a \<Longrightarrow> walk (kvm_of s') sp a = walk (kvm_of s) sp a \<and> user_byte (kvm_of s') sp a = user_byte (kvm_of s) sp a"
    using l(2) c(7,8) [of sp] by (simp add: kept_others_def)
  have lv: "live (kvm_of s') sp \<longleftrightarrow> live (kvm_of s) sp \<or> sp = Proc_space i" for sp using c(4) [of sp] k(2) by (simp add: live_def)
  have ph: "pd_phys (spaces (kvm_of s') sp) = pd (spaces (kvm_of s') sp)" for sp
    using c(5) c(6) [of sp] d(5) [of sp] k(2) by (cases "sp = Proc_space i") simp_all
  show "pstate (table s' ! i) = PROC_RUNNING" using tq tp l(4) s1(4) by simp
  then have nr: "\<not> reusable (table s' ! i)" by (simp add: reusable_def)
  show "spaces_ok s'"
    unfolding spaces_ok_def
  proof (intro conjI allI impI)
    fix j assume j: "0 < j" "j < MAX_PROCESSES" "reusable (table s' ! j)"
    then have "j \<noteq> i" using nr by auto
    then show "\<not> live (kvm_of s') (Proc_space j)" using j d(6) [of j] lv tq(2) by simp
  qed (use k(1) lv ph d l(11) tq in auto)
  show "table s' = (table s)[i := table s' ! i]" "pid (table s' ! i) = pid p" "sched_inv s'" "l_proc (pending s' ! i) = i"
    "thread_exists (main_tid (table s' ! i)) s'" "brk (table s' ! i) = brk_start (table s' ! i)"
    "program_ready img argc argv (kvm_of s') (Proc_space i) (l_entry (pending s' ! i)) (l_stack (pending s' ! i)) (brk (table s' ! i))"
    using tq tp l by simp_all
qed


definition spawn_sys :: sys where
  "spawn_sys = (sched_init boot_sys)\<lparr>table := (replicate MAX_PROCESSES zero_process)[1 := zero_process\<lparr>pstate := PROC_RUNNING\<rparr>], next_pid := 2,
     pending := replicate MAX_PROCESSES \<lparr>l_proc = 0, l_entry = 0, l_stack = 0\<rparr>, kh := (kh (sched_init boot_sys))\<lparr>kvm := sample_vm\<rparr>\<rparr>"

lemma spawn_sys_ok: "sched_inv spawn_sys" "spaces_ok spawn_sys"
proof -
  show "sched_inv spawn_sys" unfolding spawn_sys_def sched_same by (rule init_inv [OF boot_before])
  have "reusable ((replicate MAX_PROCESSES zero_process)[1 := zero_process\<lparr>pstate := PROC_RUNNING\<rparr>] ! i) \<longrightarrow> i \<noteq> 1" for i
    by (auto simp: reusable_def MAX_PROCESSES_def)
  then show "spaces_ok spawn_sys"
    using sample_vm_iso unfolding spaces_ok_def
    by (auto simp: spawn_sys_def live_def) (auto simp: sample_vm_def split: if_splits)
qed


section \<open>The user heap\<close>

lemma free_range_user:
  assumes "vm_iso v" and "live v sp" and "sz \<noteq> 0" and "unat USER_MIN \<le> unat start" and "unat start + unat sz \<le> unat USER_MAX"
    and v': "v' = vmm_free_range sp start sz v"
  shows "kept_others sp v v'"
    and "walk v' sp a = (if unat start div 4096 \<le> unat a div 4096 \<and> unat a div 4096 < (unat start + unat sz + 4095) div 4096 then None else walk v sp a)"
    and "user_page a \<Longrightarrow> walk v' sp a \<noteq> None \<Longrightarrow> user_byte v' sp a = user_byte v sp a"
proof -
  note f = free_range_spec [OF assms(1-5), folded v']
  have kd: "keeps_data v v'" using writes_keeps [OF vm_isoD(1) [OF assms(1)]] f by blast
  have w: "walk v' s b = (if s = sp \<and> unat start div 4096 \<le> unat b div 4096 \<and> unat b div 4096 < (unat start + unat sz + 4095) div 4096 then None else walk v s b)" for s b
    using f by blast
  have ub: "user_byte v' s b = user_byte v s b" if "user_page b" "walk v' s b = walk v s b" for s b
    using keeps_user_byte [OF assms(1) kd that] .
  show "kept_others sp v v'" using f ub w by (simp add: kept_others_def)
  show "walk v' sp a = (if unat start div 4096 \<le> unat a div 4096 \<and> unat a div 4096 < (unat start + unat sz + 4095) div 4096 then None else walk v sp a)"
    using w [of sp a] by simp
  show "user_page a \<Longrightarrow> walk v' sp a \<noteq> None \<Longrightarrow> user_byte v' sp a = user_byte v sp a"
    using ub [of a sp] w [of sp a] by (auto split: if_splits)
qed

text \<open>
  The heap of a process lies between its start and the stack, and every byte below the break is mapped.
\<close>

definition user_heap :: "sys \<Rightarrow> nat \<Rightarrow> bool" where
  "user_heap s i \<longleftrightarrow> (let p = table s ! i in
     unat USER_MIN \<le> unat (brk_start p) \<and> unat (brk_start p) \<le> unat (brk p) \<and> unat (brk p) + 0x10000 < unat (stack_top p) \<and>
     unat (stack_top p) \<le> unat USER_MAX \<and>
     (\<forall>a. unat (brk_start p) \<le> unat a \<longrightarrow> unat a < unat (brk p) \<longrightarrow> walk (kvm_of s) (Proc_space i) a \<noteq> None))"

definition page_top :: "virt_addr \<Rightarrow> nat" where
  "page_top a = (unat a + 4095) div 4096 * 4096"

text \<open>What a successful call with the given increment does to the break and to user memory.\<close>

definition sbrk_done :: "int \<Rightarrow> nat \<Rightarrow> sys \<Rightarrow> sys \<Rightarrow> bool" where
  "sbrk_done inc i s s' \<longleftrightarrow> (let p = table s ! i; p' = table s' ! i; v = kvm_of s; v' = kvm_of s' in
     brk_start p' = brk_start p \<and> stack_top p' = stack_top p \<and>
     int (unat (brk p')) = (if 0 < inc then int (unat (brk p)) + inc else max (int (unat (brk_start p))) (int (unat (brk p)) + inc)) \<and>
     (\<forall>a. user_page a \<longrightarrow> walk v (Proc_space i) a \<noteq> None \<longrightarrow> unat a < page_top (brk p') \<or> page_top (brk p) \<le> unat a \<longrightarrow>
        walk v' (Proc_space i) a = walk v (Proc_space i) a \<and> user_byte v' (Proc_space i) a = user_byte v (Proc_space i) a) \<and>
     (\<forall>a. user_page a \<longrightarrow> page_top (brk p') \<le> unat a \<longrightarrow> unat a < page_top (brk p) \<longrightarrow> walk v' (Proc_space i) a = None) \<and>
     (\<forall>a. user_page a \<longrightarrow> walk v (Proc_space i) a = None \<longrightarrow> walk v' (Proc_space i) a \<noteq> None \<longrightarrow>
        unat a < page_top (brk p') \<and> user_byte v' (Proc_space i) a = Some 0))"

lemma unat_of_int32: "0 \<le> k \<Longrightarrow> k < 2 ^ 32 \<Longrightarrow> unat (word_of_int k :: u32) = nat k"
  by (simp add: unat_eq_nat_uint uint_word_of_int)

lemma page_top_word: "unat a + 4095 < 2 ^ 32 \<Longrightarrow> unat (ALIGN_UP a PAGE_SIZE) = page_top a"
  unfolding page_top_def by (rule align_up_page) simp

lemma sbrk_grow:
  fixes i :: nat and s :: sys
  defines "p \<equiv> table s ! i" and "sp \<equiv> Proc_space i"
  assumes cur: "proc_current s = i" "i \<noteq> 0" "i < length (table s)" and iso: "vm_iso (kvm_of s)" and heap: "user_heap s i"
    and inc: "0 < inc" "inc < 2 ^ 31" and e: "proc_sbrk inc s = (r, s')"
  shows "kept_others sp (kvm_of s) (kvm_of s') \<and> (r = 0 \<and> table s' = table s \<and> walk (kvm_of s') = walk (kvm_of s) \<or>
    r = brk p \<and> user_heap s' i \<and> sbrk_done inc i s s')"
proof -
  have h: "unat USER_MIN \<le> unat (brk_start p)" "unat (brk_start p) \<le> unat (brk p)" "unat (brk p) + 0x10000 < unat (stack_top p)" "unat (stack_top p) \<le> unat USER_MAX"
    "\<And>a. unat (brk_start p) \<le> unat a \<Longrightarrow> unat a < unat (brk p) \<Longrightarrow> walk (kvm_of s) sp a \<noteq> None"
    using heap unfolding user_heap_def Let_def p_def sp_def by blast+
  define n where "n = (word_of_int inc :: u32)"
  have n: "unat n = nat inc" unfolding n_def by (rule unat_of_int32) (use inc in simp_all)
  define t where "t = ucast (brk p) + (ucast n :: u64)"
  have ut: "unat t = unat (brk p) + unat n"
    unfolding t_def using unat_lt2p [of "brk p"] unat_lt2p [of n] by (subst unat_plus_simple) (simp_all add: unat_ucast_u32_u64)
  have um: "unat USER_MAX = 0xD0000000" "unat USER_MIN = 0x40000000" by (simp_all add: USER_MAX_def USER_MIN_def)
  have fl: "unat (stack_top p - USER_STACK_PAGES * PAGE_SIZE) = unat (stack_top p) - 0x10000"
    using h(3) by (subst unat_minus_simple) (simp_all add: USER_STACK_PAGES_def PAGE_SIZE_def word_le_nat_alt)
  let ?floor = "stack_top p - USER_STACK_PAGES * PAGE_SIZE"
  show ?thesis
  proof (cases "ucast ?floor \<le> t \<or> ucast USER_MAX < t")
    case True
    then have "r = 0 \<and> s' = s" using e cur(2) inc unfolding proc_sbrk_def Let_def cur(1) p_def [symmetric] n_def [symmetric] t_def [symmetric] by simp
    then show ?thesis using iso by (simp add: kept_others_def)
  next
    case False
    then have small: "unat (brk p) + unat n < unat (stack_top p) - 0x10000"
      using fl ut by (simp add: word_le_nat_alt not_le unat_ucast_u32_u64)
    have un: "unat (ucast t :: u32) = unat (brk p) + unat n" using ut small h(4) um by (simp add: unat_ucast_small)
    obtain q v where al: "vmm_alloc_range sp (brk p) n sbrk_flags (kvm_of s) = (q, v)" by fastforce
    have flg: "sbrk_flags AND PTE_USER \<noteq> 0" by (simp add: sbrk_flags_def PTE_PRESENT_def PTE_WRITE_def PTE_USER_def)
    have rg: "unat USER_MIN \<le> unat (brk p)" "unat (brk p) + unat n \<le> unat USER_MAX" using h small by simp_all
    note a = alloc_range_user [OF iso flg al rg]
    have ko: "kept_others sp (kvm_of s) v" using only_kept [OF a(1)] .
    have e2: "proc_sbrk inc s = (if q < 0 then (0, upd_vm (\<lambda>_. v) s) else (brk p, upd_proc i (\<lambda>p1. p1\<lparr>brk := ucast t,
                                 user_pages := user_pages p1 + (ALIGN_UP (ucast t) PAGE_SIZE - ALIGN_UP (brk p) PAGE_SIZE) div PAGE_SIZE\<rparr>) (upd_vm (\<lambda>_. v) s)))"
      using cur inc False al unfolding proc_sbrk_def Let_def cur(1) p_def [symmetric] n_def [symmetric] t_def [symmetric] sp_def [symmetric] by simp
    show ?thesis
    proof (cases "q < 0")
      case True
      have "walk v = walk (kvm_of s)" using alloc_range_spec [OF iso flg al] True by auto
      then show ?thesis using e e2 True ko by auto
    next
      case False
      then have q: "q = 0" using a(2) by auto
      have s': "r = brk p" "kvm_of s' = v" "brk (table s' ! i) = ucast t" "brk_start (table s' ! i) = brk_start p" "stack_top (table s' ! i) = stack_top p"
        using e e2 False cur(3) by (auto simp: p_def)
      have mp: "walk v sp b \<noteq> None" if "unat (brk_start p) \<le> unat b" "unat b < unat (brk p) + unat n" for b
        using a(3) [OF q, of b] a(4) [of b] h(5) [of b] that by (cases "unat b < unat (brk p)") auto
      have old: "walk v sp b = walk (kvm_of s) sp b \<and> user_byte v sp b = user_byte (kvm_of s) sp b" if "user_page b" "walk (kvm_of s) sp b \<noteq> None" for b
        using a(4,5) [of b] that by auto
      have new: "unat b < page_top (ucast t) \<and> user_byte v sp b = Some 0" if "walk (kvm_of s) sp b = None" "walk v sp b \<noteq> None" for b
      proof -
        obtain en where en: "walk v sp b = Some en" using \<open>walk v sp b \<noteq> None\<close> by blast
        note w = a(6) [OF \<open>walk (kvm_of s) sp b = None\<close> en]
        then have "unat b div 4096 < (unat (brk p) + unat n + 4095) div 4096" by blast
        then have "unat b < (unat (brk p) + unat n + 4095) div 4096 * 4096" by (simp add: div_less_iff_less_mult)
        then show ?thesis using w by (simp add: page_top_def un)
      qed
      have nv: "page_top (brk p) \<le> page_top (ucast t)" unfolding page_top_def un by (intro mult_right_mono div_le_mono) simp_all
      have "user_heap s' i" unfolding user_heap_def Let_def s' un using h mp small by (simp add: sp_def)
      moreover have "sbrk_done inc i s s'"
        unfolding sbrk_done_def Let_def s' un p_def [symmetric] sp_def [symmetric] using inc n old new nv by auto
      ultimately show ?thesis using s' ko by simp
    qed
  qed
qed


lemma shrunk_value:
  "x = (if a < n then b else t - n) \<Longrightarrow> a = t - b \<Longrightarrow> n = nat (- inc) \<Longrightarrow> inc \<le> 0 \<Longrightarrow> b \<le> t \<Longrightarrow> int x = max (int b) (int t + inc)"
  for x a n b t :: nat
  by (auto simp: max_def)

lemma sbrk_shrink:
  fixes i :: nat and s :: sys
  defines "p \<equiv> table s ! i" and "sp \<equiv> Proc_space i"
  assumes cur: "proc_current s = i" "i \<noteq> 0" "i < length (table s)" and iso: "vm_iso (kvm_of s)" and lv: "live (kvm_of s) sp" and heap: "user_heap s i"
    and inc: "inc \<le> 0" "- (2 ^ 31) \<le> inc" and e: "proc_sbrk inc s = (r, s')"
  shows "kept_others sp (kvm_of s) (kvm_of s') \<and> r = brk p \<and> user_heap s' i \<and> sbrk_done inc i s s'"
proof -
  have h: "unat USER_MIN \<le> unat (brk_start p)" "unat (brk_start p) \<le> unat (brk p)" "unat (brk p) + 0x10000 < unat (stack_top p)" "unat (stack_top p) \<le> unat USER_MAX"
    "\<And>a. unat (brk_start p) \<le> unat a \<Longrightarrow> unat a < unat (brk p) \<Longrightarrow> walk (kvm_of s) sp a \<noteq> None"
    using heap unfolding user_heap_def Let_def p_def sp_def by blast+
  have um: "unat USER_MAX = 0xD0000000" "unat USER_MIN = 0x40000000" by (simp_all add: USER_MAX_def USER_MIN_def)
  define av sh where "av = brk p - brk_start p" and "sh = (word_of_int (- inc) :: u32)"
  have av: "unat av = unat (brk p) - unat (brk_start p)" unfolding av_def using h(2) by (subst unat_minus_simple) (simp_all add: word_le_nat_alt)
  have sh: "unat sh = nat (- inc)" unfolding sh_def by (rule unat_of_int32) (use inc in simp_all)
  define nb where "nb = brk p - (if av < sh then av else sh)"
  have nb: "unat nb = (if unat av < unat sh then unat (brk_start p) else unat (brk p) - unat sh)" "unat nb \<le> unat (brk p)" "unat (brk_start p) \<le> unat nb"
  proof -
    define d where "d = (if av < sh then av else sh)"
    have d: "unat d = (if unat av < unat sh then unat av else unat sh)" by (simp add: d_def word_less_nat_alt)
    then have "unat d \<le> unat (brk p) - unat (brk_start p)" using av by (simp split: if_splits)
    moreover from this have "unat nb = unat (brk p) - unat d" unfolding nb_def d_def [symmetric] by (subst unat_minus_simple) (simp_all add: word_le_nat_alt)
    ultimately show "unat nb = (if unat av < unat sh then unat (brk_start p) else unat (brk p) - unat sh)" "unat nb \<le> unat (brk p)" "unat (brk_start p) \<le> unat nb"
      using d av h(2) by (auto split: if_splits)
  qed
  define ot nt where "ot = ALIGN_UP (brk p) PAGE_SIZE" and "nt = ALIGN_UP nb PAGE_SIZE"
  have ot: "unat ot = page_top (brk p)" "unat nt = page_top nb"
    unfolding ot_def nt_def using h nb um by (intro page_top_word; simp)+
  have le: "page_top nb \<le> page_top (brk p)" unfolding page_top_def using nb(2) by (intro mult_right_mono div_le_mono) simp_all
  have val: "int (unat nb) = max (int (unat (brk_start p))) (int (unat (brk p)) + inc)"
    by (rule shrunk_value [OF nb(1) av sh inc(1) h(2)])
  have fin: "kept_others sp (kvm_of s) (kvm_of s') \<and> r = brk p \<and> user_heap s' i \<and> sbrk_done inc i s s'"
    if s': "r = brk p" "kvm_of s' = v" "brk (table s' ! i) = nb" "brk_start (table s' ! i) = brk_start p" "stack_top (table s' ! i) = stack_top p"
      and v: "kept_others sp (kvm_of s) v"
        "\<And>a. walk v sp a = (if page_top nb \<le> unat a \<and> unat a < page_top (brk p) then None else walk (kvm_of s) sp a)"
        "\<And>a. user_page a \<Longrightarrow> walk v sp a \<noteq> None \<Longrightarrow> user_byte v sp a = user_byte (kvm_of s) sp a" for v
  proof -
    have below: "unat a < page_top nb" if "unat a < unat nb" for a :: u32 using that unfolding page_top_def by linarith
    have "walk v sp a \<noteq> None" if "unat (brk_start p) \<le> unat a" "unat a < unat nb" for a
      using v(2) [of a] below [OF that(2)] h(5) [OF that(1)] that(2) nb(2) by auto
    then have "user_heap s' i" unfolding user_heap_def Let_def s' using h nb by (simp add: sp_def)
    moreover have "sbrk_done inc i s s'"
      unfolding sbrk_done_def Let_def s' p_def [symmetric] sp_def [symmetric] val using inc(1) v(2,3) by auto
    ultimately show ?thesis using s' v(1) by simp
  qed
  have pg: "unat a div 4096 < k \<longleftrightarrow> unat a < k * 4096" "k \<le> unat a div 4096 \<longleftrightarrow> k * 4096 \<le> unat a" for a :: u32 and k
    by (auto simp: div_less_iff_less_mult less_eq_div_iff_mult_less_eq)
  show ?thesis
  proof (cases "inc = 0")
    case True
    then have "r = brk p" "s' = s" using e cur(2) unfolding proc_sbrk_def Let_def cur(1) p_def [symmetric] by auto
    moreover have "nb = brk p" using nb True sh by (auto simp: word_unat_eq_iff)
    ultimately show ?thesis using iso by (intro fin [of "kvm_of s"]) (auto simp: kept_others_def p_def)
  next
    case neg: False
    define s1 where "s1 = upd_proc i (\<lambda>p. p\<lparr>brk := nb\<rparr>) s"
    define pages where "pages = (ot - nt) div PAGE_SIZE"
    have e2: "(r, s') = (brk p, if nt < ot then upd_proc i (\<lambda>p. p\<lparr>user_pages := (if pages \<le> user_pages p then user_pages p - pages else 0)\<rparr>)
        (upd_vm (vmm_free_range sp nt (ot - nt)) s1) else s1)"
      using e cur(2) inc neg unfolding proc_sbrk_def Let_def cur(1) p_def [symmetric] av_def [symmetric] sh_def [symmetric] nb_def [symmetric]
        ot_def [symmetric] nt_def [symmetric] pages_def [symmetric] s1_def [symmetric] sp_def [symmetric] by simp
    show ?thesis
    proof (cases "nt < ot")
      case False
      then have eq: "page_top nb = page_top (brk p)" using ot le by (simp add: word_less_nat_alt)
      show ?thesis by (rule fin [of "kvm_of s"]) (use e2 False iso cur(3) eq in \<open>auto simp: kept_others_def s1_def p_def\<close>)
    next
      case True
      have d: "unat (ot - nt) = page_top (brk p) - page_top nb" using True ot by (subst unat_minus_simple) (simp_all add: word_less_nat_alt word_le_nat_alt)
      have nz: "ot - nt \<noteq> 0" using True by auto
      have hi: "page_top (brk p) \<le> 0xD0000000" using h(3,4) um unfolding page_top_def by linarith
      have lo: "0x40000000 \<le> page_top nb" using nb(3) h(1) um unfolding page_top_def by linarith
      have k: "page_top nb = page_top nb div 4096 * 4096" "page_top (brk p) = page_top (brk p) div 4096 * 4096" by (simp_all add: page_top_def)
      have k2: "(page_top (brk p) + 4095) div 4096 = page_top (brk p) div 4096" by (simp add: page_top_def)
      have rg: "unat USER_MIN \<le> unat nt" "unat nt + unat (ot - nt) \<le> unat USER_MAX" unfolding d ot um using hi lo le by simp_all
      note f = free_range_user [OF iso lv nz rg refl]
      have sum: "page_top nb + unat (ot - nt) = page_top (brk p)" unfolding d using le by simp
      show ?thesis
      proof (rule fin [of "vmm_free_range sp nt (ot - nt) (kvm_of s)"])
        show "walk (vmm_free_range sp nt (ot - nt) (kvm_of s)) sp a = (if page_top nb \<le> unat a \<and> unat a < page_top (brk p) then None else walk (kvm_of s) sp a)" for a
          unfolding f(2) sum k2 ot(2) pg using k by simp
      qed (use e2 True f(1,3) cur(3) in \<open>auto simp: s1_def p_def\<close>)
    qed
  qed
qed

text \<open>
  C33: \<^verbatim>\<open>proc_sbrk\<close> keeps the user heap between its start and the stack for every 32-bit increment.  When it fails (it
  returns 0, only for a positive increment) neither the break nor any mapping changes.  Otherwise it returns the old break; the new break is the old
  one plus the increment, but never below the start of the heap; the bytes below it are kept, new pages read as zero and
  pages above it are given back; the user memory of no other process changes.
\<close>

theorem proc_sbrk_correct:
  assumes "proc_current s = i" and "i \<noteq> 0" and "i < length (table s)" and "vm_iso (kvm_of s)" and "live (kvm_of s) (Proc_space i)"
    and "user_heap s i" and "- (2 ^ 31) \<le> inc" and "inc < 2 ^ 31" and "proc_sbrk inc s = (r, s')"
  shows "kept_others (Proc_space i) (kvm_of s) (kvm_of s') \<and>
    (if r = 0 then 0 < inc \<and> table s' = table s \<and> walk (kvm_of s') = walk (kvm_of s)
     else r = brk (table s ! i) \<and> user_heap s' i \<and> sbrk_done inc i s s')"
proof -
  have "brk (table s ! i) \<noteq> 0" using assms(6) by (auto simp: user_heap_def Let_def USER_MIN_def)
  then show ?thesis
    using sbrk_grow [OF assms(1-4,6) _ assms(8,9)] sbrk_shrink [OF assms(1-6) _ assms(7,9)] by (cases "0 < inc") auto
qed

definition sbrk_sys :: sys where
  "sbrk_sys = (upd_tcb Boot_thread (\<lambda>t. t\<lparr>proc := Some 1\<rparr>) spawn_sys)\<lparr>table := (replicate MAX_PROCESSES zero_process)
     [1 := zero_process\<lparr>pstate := PROC_RUNNING, brk_start := 0x40010000, brk := 0x40010000, stack_top := USER_STACK_TOP\<rparr>]\<rparr>"

theorem proc_sbrk_correct_witness:
  "vm_iso (kvm_of sbrk_sys) \<and> user_heap sbrk_sys 1 \<and> kept_others (Proc_space 1) (kvm_of sbrk_sys) (kvm_of (snd (proc_sbrk 4096 sbrk_sys)))"
proof -
  have c: "proc_current sbrk_sys = 1"
    by (simp add: proc_current_def thread_current_def sbrk_sys_def spawn_sys_def sched_init_def upd_tcb_def)
  have v: "kvm_of sbrk_sys = sample_vm" by (simp add: sbrk_sys_def spawn_sys_def upd_tcb_def)
  have l: "1 < length (table sbrk_sys)" "live (kvm_of sbrk_sys) (Proc_space 1)"
    unfolding v by (simp_all add: sbrk_sys_def live_def sample_vm_def MAX_PROCESSES_def)
  have u: "user_heap sbrk_sys 1"
    by (simp add: user_heap_def sbrk_sys_def MAX_PROCESSES_def USER_MIN_def USER_MAX_def USER_STACK_TOP_def)
  have i: "vm_iso (kvm_of sbrk_sys)" unfolding v by (rule sample_vm_iso)
  show ?thesis
    using proc_sbrk_correct [OF c _ l(1) i l(2) u _ _ surjective_pairing, of 4096] i u by simp
qed

text \<open>
  A process that kills itself is never marked finished: \<^verbatim>\<open>proc_kill\<close> first kills the thread it runs on, which gives the
  processor away for good, so the two assignments behind the call are not reached and the slot stays running.
\<close>

lemma table_ops [simp]:
  "table (fpu_save a s) = table s" "table (fpu_restore a s) = table s" "table (tss_set_kernel_stack e s) = table s"
  "table (context_switch r e s) = table s" "table (upd_tcb r f s) = table s" "table (remember_exit t c s) = table s"
  by (auto simp: fpu_save_def fpu_restore_def tss_set_kernel_stack_def context_switch_def upd_tcb_def remember_exit_def
      split: option.split)

lemma switch_table: "switch_to nx s = Some s' \<Longrightarrow> table s' = table s"
  unfolding switch_to_def Let_def by (auto split: option.splits if_splits)

lemma yield_table: "sched_yield s = Some s' \<Longrightarrow> table s' = table s"
  unfolding sched_yield_def Let_def using switch_table by (fastforce split: if_splits option.splits)

lemma self_kill_not_marked:
  assumes "proc_by_pid p s = Some i" and "i \<noteq> 0" and "pstate (table s ! i) = PROC_RUNNING"
    and "thread_kill (main_tid (table s ! i)) s = Some (r, s1)" and "current s1 \<noteq> current s"
  shows "proc_kill p s = Some (None, s1) \<and> pstate (table s1 ! i) = PROC_RUNNING"
proof -
  have "table s1 = table s"
    using assms(4) yield_table by (fastforce simp: thread_kill_def Let_def split: option.splits if_splits)
  then show ?thesis using assms by (simp add: proc_kill_def)
qed

end
