(* ===== verification/Wm.thy ===== *)
theory Wm
  imports UserMem Gfx Input
begin

text \<open>
  \<^verbatim>\<open>kernel/gui/wm.c\<close>: the window server.  Windows are slots of an array; a window pointer is the index of its slot
  and the owner of a window is the slot of its process.  The array \<^verbatim>\<open>z_order\<close> with its counter
  is a list, and so is the list of damaged rectangles.  Window ids are never 0 until the counter wraps around.
  Operations that allocate or map pixel buffers also change the address spaces, so the state is a pair.
  The screen size (\<^verbatim>\<open>gfx_width\<close>, \<^verbatim>\<open>gfx_height\<close>) is part of the state.  \<^verbatim>\<open>wm_start\<close> and the endless loop of the
  compositor thread are not modelled; one round of that loop is \<open>compositor_round\<close>.
\<close>

unbundle bit_operations_syntax

section \<open>State\<close>

record gui_event =
  ge_type :: u32
  ge_window :: u32
  ge_x :: int
  ge_y :: int
  ge_buttons :: u32
  ge_button :: int
  ge_wheel :: int
  ge_key :: u32
  ge_width :: u32
  ge_height :: u32

definition zero_event :: gui_event where
  "zero_event = \<lparr>ge_type = 0, ge_window = 0, ge_x = 0, ge_y = 0, ge_buttons = 0, ge_button = 0, ge_wheel = 0, ge_key = 0,
     ge_width = 0, ge_height = 0\<rparr>"

record window =
  w_id :: u32
  used :: bool
  owner :: nat
  title :: cstr
  wx :: int
  wy :: int
  wwidth :: int
  wheight :: int
  wflags :: u32
  wstate :: u32
  buffer_phys :: u32
  buffer_pages :: u32
  user_address :: u32
  events :: "gui_event list"
  event_head :: u32
  event_tail :: u32

record wm =
  windows :: "window list"
  z_order :: "u32 list"
  next_id :: u32
  initialised :: bool
  focus_id :: u32
  dirty :: "gfx_rect list"
  dirty_all :: bool
  drag_id :: u32
  drag_offset_x :: int
  drag_offset_y :: int
  resize_id :: u32
  resize_start_w :: int
  resize_start_h :: int
  resize_start_x :: int
  resize_start_y :: int
  wm_cursor_x :: int
  wm_cursor_y :: int
  last_cursor_x :: int
  last_cursor_y :: int
  cascade :: int
  screen_w :: int
  screen_h :: int

definition MAX_WINDOWS :: nat where "MAX_WINDOWS = 32"
definition MAX_DIRTY :: nat where "MAX_DIRTY = 24"
definition WINDOW_VA_BASE :: u32 where "WINDOW_VA_BASE = 0x60000000"
definition WINDOW_VA_STEP :: u32 where "WINDOW_VA_STEP = 0x00400000"
definition CURSOR_W :: int where "CURSOR_W = 12"
definition CURSOR_H :: int where "CURSOR_H = 19"
definition WM_TITLE_HEIGHT :: int where "WM_TITLE_HEIGHT = 26"
definition WM_BORDER :: int where "WM_BORDER = 1"
definition WM_EVENT_QUEUE :: u32 where "WM_EVENT_QUEUE = 32"
definition GUI_MAX_TITLE :: nat where "GUI_MAX_TITLE = 48"

definition GUI_NODECOR :: u32 where "GUI_NODECOR = 1"
definition GUI_BOTTOM :: u32 where "GUI_BOTTOM = 2"
definition GUI_TOP :: u32 where "GUI_TOP = 4"
definition GUI_FIXED :: u32 where "GUI_FIXED = 8"
definition GUI_NOTASKBAR :: u32 where "GUI_NOTASKBAR = 16"
definition GUI_STATE_NORMAL :: u32 where "GUI_STATE_NORMAL = 0"
definition GUI_STATE_MINIMIZED :: u32 where "GUI_STATE_MINIMIZED = 1"

definition GUI_EVENT_MOUSE_MOVE :: u32 where "GUI_EVENT_MOUSE_MOVE = 1"
definition GUI_EVENT_MOUSE_DOWN :: u32 where "GUI_EVENT_MOUSE_DOWN = 2"
definition GUI_EVENT_MOUSE_UP :: u32 where "GUI_EVENT_MOUSE_UP = 3"
definition GUI_EVENT_WHEEL :: u32 where "GUI_EVENT_WHEEL = 4"
definition GUI_EVENT_KEY :: u32 where "GUI_EVENT_KEY = 5"
definition GUI_EVENT_CLOSE :: u32 where "GUI_EVENT_CLOSE = 6"
definition GUI_EVENT_RESIZE :: u32 where "GUI_EVENT_RESIZE = 7"
definition GUI_EVENT_FOCUS :: u32 where "GUI_EVENT_FOCUS = 8"
definition GUI_EVENT_BLUR :: u32 where "GUI_EVENT_BLUR = 9"

definition zero_window :: window where
  "zero_window = \<lparr>w_id = 0, used = False, owner = 0, title = replicate GUI_MAX_TITLE 0, wx = 0, wy = 0, wwidth = 0, wheight = 0,
     wflags = 0, wstate = 0, buffer_phys = 0, buffer_pages = 0, user_address = 0,
     events = replicate 32 zero_event, event_head = 0, event_tail = 0\<rparr>"

abbreviation win :: "wm \<Rightarrow> nat \<Rightarrow> window" where
  "win g i \<equiv> windows g ! i"

definition upd_win :: "nat \<Rightarrow> (window \<Rightarrow> window) \<Rightarrow> wm \<Rightarrow> wm" where
  "upd_win i f g = g\<lparr>windows := (windows g)[i := f (windows g ! i)]\<rparr>"

definition find_window :: "u32 \<Rightarrow> wm \<Rightarrow> nat option" where
  "find_window id0 g = find (\<lambda>i. used (win g i) \<and> w_id (win g i) = id0) [0..<MAX_WINDOWS]"

section \<open>Geometry and damage\<close>

definition decorated :: "window \<Rightarrow> bool" where
  "decorated w \<longleftrightarrow> wflags w AND GUI_NODECOR = 0"

definition frame_rect :: "window \<Rightarrow> gfx_rect" where
  "frame_rect w =
     (if decorated w
      then \<lparr>r_x = wx w - WM_BORDER, r_y = wy w - WM_TITLE_HEIGHT, r_w = wwidth w + WM_BORDER * 2,
            r_h = wheight w + WM_TITLE_HEIGHT + WM_BORDER\<rparr>
      else \<lparr>r_x = wx w, r_y = wy w, r_w = wwidth w, r_h = wheight w\<rparr>)"

text \<open>Rectangles closer than 16 pixels are merged.\<close>

definition near :: "int \<Rightarrow> int \<Rightarrow> int \<Rightarrow> int \<Rightarrow> gfx_rect \<Rightarrow> bool" where
  "near x y w h r \<longleftrightarrow> x < r_x r + r_w r + 16 \<and> r_x r < x + w + 16 \<and> y < r_y r + r_h r + 16 \<and> r_y r < y + h + 16"

definition merge_rect :: "int \<Rightarrow> int \<Rightarrow> int \<Rightarrow> int \<Rightarrow> gfx_rect \<Rightarrow> gfx_rect" where
  "merge_rect x y w h r =
     (let nx = min (r_x r) x; ny = min (r_y r) y
      in \<lparr>r_x = nx, r_y = ny, r_w = max (r_x r + r_w r) (x + w) - nx, r_h = max (r_y r + r_h r) (y + h) - ny\<rparr>)"

definition wm_damage_rect :: "int \<Rightarrow> int \<Rightarrow> int \<Rightarrow> int \<Rightarrow> wm \<Rightarrow> wm" where
  "wm_damage_rect x y w h g =
     (if w \<le> 0 \<or> h \<le> 0 \<or> dirty_all g then g
      else if length (dirty g) = MAX_DIRTY then g\<lparr>dirty_all := True\<rparr>
      else
        (case find (\<lambda>i. near x y w h (dirty g ! i)) [0..<length (dirty g)] of
           Some i \<Rightarrow> g\<lparr>dirty := (dirty g)[i := merge_rect x y w h (dirty g ! i)]\<rparr>
         | None \<Rightarrow> g\<lparr>dirty := dirty g @ [\<lparr>r_x = x, r_y = y, r_w = w, r_h = h\<rparr>]\<rparr>))"

definition damage_window :: "window \<Rightarrow> wm \<Rightarrow> wm" where
  "damage_window w g =
     (let r = frame_rect w in wm_damage_rect (r_x r - 4) (r_y r - 4) (r_w r + 8) (r_h r + 8) g)"

section \<open>Stacking order\<close>

definition z_remove :: "u32 \<Rightarrow> wm \<Rightarrow> wm" where
  "z_remove id0 g = g\<lparr>z_order := filter (\<lambda>z. z \<noteq> id0) (z_order g)\<rparr>"

definition is_top :: "wm \<Rightarrow> u32 \<Rightarrow> bool" where
  "is_top g id0 = (case find_window id0 g of Some i \<Rightarrow> wflags (win g i) AND GUI_TOP \<noteq> 0 | None \<Rightarrow> False)"

definition z_position :: "u32 \<Rightarrow> wm \<Rightarrow> nat" where
  "z_position flags g =
     (if flags AND GUI_BOTTOM \<noteq> 0 then 0
      else if flags AND GUI_TOP = 0 then
        (case find (\<lambda>i. is_top g (z_order g ! i)) [0..<length (z_order g)] of Some i \<Rightarrow> i | None \<Rightarrow> length (z_order g))
      else length (z_order g))"

definition z_insert :: "u32 \<Rightarrow> u32 \<Rightarrow> wm \<Rightarrow> wm" where
  "z_insert id0 flags g =
     (let p = z_position flags g in g\<lparr>z_order := take p (z_order g) @ [id0] @ drop p (z_order g)\<rparr>)"

definition raise_window :: "nat \<Rightarrow> wm \<Rightarrow> wm" where
  "raise_window i g = damage_window (win g i) (z_insert (w_id (win g i)) (wflags (win g i)) (z_remove (w_id (win g i)) g))"

section \<open>Events\<close>

definition queue_event :: "gui_event \<Rightarrow> window \<Rightarrow> window" where
  "queue_event event w =
     (let nxt = (event_head w + 1) mod WM_EVENT_QUEUE
      in if nxt = event_tail w then w
         else w\<lparr>events := (events w)[unat (event_head w) := event\<lparr>ge_window := w_id w\<rparr>], event_head := nxt\<rparr>)"

definition send_simple :: "u32 \<Rightarrow> window \<Rightarrow> window" where
  "send_simple type0 w =
     queue_event (zero_event\<lparr>ge_type := type0, ge_width := word_of_int (wwidth w), ge_height := word_of_int (wheight w)\<rparr>) w"

text \<open>An event for the window with a given id, with its damage, when there is such a window.\<close>

definition notify :: "u32 \<Rightarrow> u32 \<Rightarrow> wm \<Rightarrow> wm" where
  "notify type0 id0 g =
     (case find_window id0 g of Some i \<Rightarrow> damage_window (win g i) (upd_win i (send_simple type0) g) | None \<Rightarrow> g)"

definition set_focus :: "u32 \<Rightarrow> wm \<Rightarrow> wm" where
  "set_focus id0 g =
     (if focus_id g = id0 then g
      else notify GUI_EVENT_FOCUS id0 ((notify GUI_EVENT_BLUR (focus_id g) g)\<lparr>focus_id := id0\<rparr>))"

section \<open>Buffers\<close>

definition buffer_flags :: u32 where
  "buffer_flags = PTE_PRESENT OR PTE_WRITE OR PTE_USER"

text \<open>The mapping loop: pages \<open>i, i + 1, \<dots>\<close> of the buffer.\<close>

fun map_pages :: "space_ref \<Rightarrow> virt_addr \<Rightarrow> phys_addr \<Rightarrow> nat list \<Rightarrow> vm \<Rightarrow> int \<times> vm" where
  "map_pages sp ua pa [] v = (0, v)"
| "map_pages sp ua pa (i # is) v =
     (case vmm_map_in sp (ua + of_nat i * PAGE_SIZE) (pa + of_nat i * PAGE_SIZE) buffer_flags v of (r, v1) \<Rightarrow>
        if r < 0 then (- 1, v1) else map_pages sp ua pa is v1)"

definition unmap_pages :: "space_ref \<Rightarrow> virt_addr \<Rightarrow> nat list \<Rightarrow> vm \<Rightarrow> vm" where
  "unmap_pages sp ua is v = fold (\<lambda>i. vmm_unmap_in sp (ua + of_nat i * PAGE_SIZE)) is v"

definition buffer_page_count :: "int \<Rightarrow> int \<Rightarrow> u32" where
  "buffer_page_count width height =
     (let bytes = word_of_int width * word_of_int height * 4 :: u32 in (bytes + PAGE_SIZE - 1) div PAGE_SIZE)"

definition allocate_buffer :: "nat \<Rightarrow> int \<Rightarrow> int \<Rightarrow> wm \<times> vm \<Rightarrow> int \<times> wm \<times> vm" where
  "allocate_buffer i width height = (\<lambda>(g, v).
     (let pages = buffer_page_count width height
      in case pmm_alloc_frames pages (phys v) of (pa, p) \<Rightarrow>
           if pa = 0 then (- 1, g, v\<lparr>phys := p\<rparr>)
           else
             let v1 = v\<lparr>phys := p, mem := memset pa 0 (pages * PAGE_SIZE) (mem v)\<rparr>
             in case map_pages (Proc_space (owner (win g i))) (user_address (win g i)) pa [0..<unat pages] v1 of (r, v2) \<Rightarrow>
                  if r < 0 then (- 1, g, v2\<lparr>phys := pmm_free_contiguous pa pages (phys v2)\<rparr>)
                  else (0, upd_win i (\<lambda>w. w\<lparr>buffer_phys := pa, buffer_pages := pages, wwidth := width, wheight := height\<rparr>) g, v2)))"

definition release_buffer :: "nat \<Rightarrow> wm \<times> vm \<Rightarrow> wm \<times> vm" where
  "release_buffer i = (\<lambda>(g, v).
     (let w = win g i
      in if buffer_phys w = 0 then (g, v)
         else
           let v1 = unmap_pages (Proc_space (owner w)) (user_address w) [0..<unat (buffer_pages w)] v
           in (upd_win i (\<lambda>w. w\<lparr>buffer_phys := 0, buffer_pages := 0\<rparr>) g,
               v1\<lparr>phys := pmm_free_contiguous (buffer_phys w) (buffer_pages w) (phys v1)\<rparr>)))"

section \<open>Painting\<close>

definition cursor_shape :: "nat list list" where
  "cursor_shape =
     [[2,0,0,0,0,0,0,0,0,0,0,0], [2,2,0,0,0,0,0,0,0,0,0,0], [2,1,2,0,0,0,0,0,0,0,0,0], [2,1,1,2,0,0,0,0,0,0,0,0],
      [2,1,1,1,2,0,0,0,0,0,0,0], [2,1,1,1,1,2,0,0,0,0,0,0], [2,1,1,1,1,1,2,0,0,0,0,0], [2,1,1,1,1,1,1,2,0,0,0,0],
      [2,1,1,1,1,1,1,1,2,0,0,0], [2,1,1,1,1,1,1,1,1,2,0,0], [2,1,1,1,1,1,1,1,1,1,2,0], [2,1,1,1,1,1,2,2,2,2,2,2],
      [2,1,1,2,1,1,2,0,0,0,0,0], [2,1,2,0,2,1,1,2,0,0,0,0], [2,2,0,0,2,1,1,2,0,0,0,0], [2,0,0,0,0,2,1,1,2,0,0,0],
      [0,0,0,0,0,2,1,1,2,0,0,0], [0,0,0,0,0,0,2,2,2,0,0,0], [0,0,0,0,0,0,0,0,0,0,0,0]]"

definition draw_cursor :: "int \<Rightarrow> int \<Rightarrow> gfx_surface \<Rightarrow> gfx_surface option" where
  "draw_cursor x y s =
     draw_all (concat (map (\<lambda>row. map (\<lambda>col.
       let pixel = cursor_shape ! nat row ! nat col
       in if pixel = 1 then gfx_pixel (x + col) (y + row) (RGB 0xFF 0xFF 0xFF)
          else if pixel = 2 then gfx_pixel (x + col) (y + row) (RGB 0x10 0x12 0x18)
          else Some) [0..CURSOR_W - 1]) [0..CURSOR_H - 1])) s"

definition draw_decorations :: "u8 list \<Rightarrow> window \<Rightarrow> bool \<Rightarrow> gfx_surface \<Rightarrow> gfx_surface option" where
  "draw_decorations font w active s =
     (let title_color = (if active then RGB 0x2C 0x5C 0xA8 else RGB 0x3A 0x42 0x50);
          frame = frame_rect w;
          button_y = r_y frame + 6
      in draw_all
        ([gfx_blend_rect (r_x frame + 4) (r_y frame + r_h frame) (r_w frame) 4 (RGBA 0 0 0 90),
          gfx_blend_rect (r_x frame + r_w frame) (r_y frame + 4) 4 (r_h frame) (RGBA 0 0 0 90),
          gfx_fill_rect (r_x frame) (r_y frame) (r_w frame) WM_TITLE_HEIGHT title_color,
          gfx_hline (r_x frame) (r_y frame) (r_w frame) (if active then RGB 0x4E 0x8A 0xD8 else RGB 0x50 0x58 0x66),
          gfx_frame_rect (r_x frame) (r_y frame) (r_w frame) (r_h frame) (RGB 0x14 0x1A 0x24),
          gfx_text_clipped font (r_x frame + 8) (r_y frame + 5) (title w)
            (if active then RGB 0xF0 0xF4 0xF8 else RGB 0xB0 0xB8 0xC4) 1 (r_w frame - 80),
          gfx_fill_rect (r_x frame + r_w frame - 44) button_y 14 14 (RGB 0xC8 0xA8 0x40),
          gfx_hline (r_x frame + r_w frame - 41) (button_y + 10) 8 (RGB 0x20 0x20 0x20),
          gfx_fill_rect (r_x frame + r_w frame - 24) button_y 14 14 (RGB 0xC8 0x50 0x48)] @
         concat (map (\<lambda>i.
           [gfx_pixel (r_x frame + r_w frame - 21 + i) (button_y + 3 + i) (RGB 0x20 0x20 0x20),
            gfx_pixel (r_x frame + r_w frame - 21 + i) (button_y + 10 - i) (RGB 0x20 0x20 0x20)]) [0..7])) s)"

text \<open>The kernel's view of the pixels of a window, through the identity map.\<close>

definition window_surface :: "memory \<Rightarrow> window \<Rightarrow> gfx_surface" where
  "window_surface m w =
     gfx_surface_init (map (\<lambda>k. rd32 m (buffer_phys w + 4 * of_nat k)) [0..<nat (wwidth w * wheight w)]) (wwidth w) (wheight w) (wwidth w)"

definition outside :: "int \<Rightarrow> int \<Rightarrow> int \<Rightarrow> int \<Rightarrow> gfx_rect \<Rightarrow> bool" where
  "outside rx ry rw rh f \<longleftrightarrow> rx + rw \<le> r_x f \<or> ry + rh \<le> r_y f \<or> r_x f + r_w f \<le> rx \<or> r_y f + r_h f \<le> ry"

definition draw_window :: "u8 list \<Rightarrow> memory \<Rightarrow> wm \<Rightarrow> int \<Rightarrow> int \<Rightarrow> int \<Rightarrow> int \<Rightarrow> u32 \<Rightarrow> gfx_surface \<Rightarrow> gfx_surface option" where
  "draw_window font m g rx ry rw rh id0 s =
     (case find_window id0 g of
        None \<Rightarrow> Some s
      | Some i \<Rightarrow>
          let w = win g i
          in if wstate w = GUI_STATE_MINIMIZED then Some s
             else if outside rx ry rw rh (frame_rect w) then Some s
             else draw_all
               [if decorated w then draw_decorations font w (w_id w = focus_id g) else Some,
                gfx_blit (wx w) (wy w) (window_surface m w) 0 0 (wwidth w) (wheight w)] s)"

text \<open>The back buffer \<open>s\<close> and the framebuffer \<open>fb\<close>, whose rows are \<open>fb_stride\<close> pixels long.\<close>

definition compose_rect ::
  "u8 list \<Rightarrow> memory \<Rightarrow> int \<Rightarrow> int \<Rightarrow> int \<Rightarrow> int \<Rightarrow> int \<Rightarrow> wm \<Rightarrow> gfx_surface \<times> u32 list \<Rightarrow> (gfx_surface \<times> u32 list) option" where
  "compose_rect font m fb_stride rx0 ry0 rw0 rh0 g = (\<lambda>(s, fb).
     (case cut_high (screen_w g) (cut_low 0 (rx0, rw0)) of (rx, rw) \<Rightarrow>
      case cut_high (screen_h g) (cut_low 0 (ry0, rh0)) of (ry, rh) \<Rightarrow>
        if rw \<le> 0 \<or> rh \<le> 0 then Some (s, fb)
        else do {
          s1 \<leftarrow> draw_all
            ([gfx_gradient_v rx ry rw rh (RGB 0x10 0x18 0x28) (RGB 0x24 0x33 0x52)] @
             map (draw_window font m g rx ry rw rh) (z_order g) @
             [draw_cursor (wm_cursor_x g) (wm_cursor_y g)]) (gfx_clip_set rx ry rw rh s);
          fb1 \<leftarrow> gfx_present_rect True (gfx_clip_reset s1) (screen_w g) (screen_h g) fb_stride rx ry rw rh fb;
          Some (gfx_clip_reset s1, fb1)
        }))"

fun compose_list ::
  "u8 list \<Rightarrow> memory \<Rightarrow> int \<Rightarrow> gfx_rect list \<Rightarrow> wm \<Rightarrow> gfx_surface \<times> u32 list \<Rightarrow> (gfx_surface \<times> u32 list) option" where
  "compose_list font m fb_stride [] g sf = Some sf"
| "compose_list font m fb_stride (r # rs) g sf = do {
     sf1 \<leftarrow> compose_rect font m fb_stride (r_x r) (r_y r) (r_w r) (r_h r) g sf;
     compose_list font m fb_stride rs g sf1
   }"

definition compose :: "u8 list \<Rightarrow> memory \<Rightarrow> int \<Rightarrow> wm \<Rightarrow> gfx_surface \<times> u32 list \<Rightarrow> (wm \<times> gfx_surface \<times> u32 list) option" where
  "compose font m fb_stride g sf =
     map_option (Pair (g\<lparr>dirty := [], dirty_all := False\<rparr>))
       (if dirty_all g then compose_rect font m fb_stride 0 0 (screen_w g) (screen_h g) g sf
        else compose_list font m fb_stride (dirty g) g sf)"

section \<open>Pointer and keyboard\<close>

definition hit :: "int \<Rightarrow> int \<Rightarrow> window \<Rightarrow> bool" where
  "hit x y w \<longleftrightarrow> wstate w \<noteq> GUI_STATE_MINIMIZED \<and>
     (let f = frame_rect w in \<not> (x < r_x f \<or> y < r_y f \<or> r_x f + r_w f \<le> x \<or> r_y f + r_h f \<le> y))"

text \<open>The search from the front of the stacking order; \<open>zs\<close> is the order reversed.\<close>

fun window_at_loop :: "int \<Rightarrow> int \<Rightarrow> u32 list \<Rightarrow> wm \<Rightarrow> (nat \<times> bool) option" where
  "window_at_loop x y [] g = None"
| "window_at_loop x y (z # zs) g =
     (case find_window z g of
        Some i \<Rightarrow> if hit x y (win g i) then Some (i, decorated (win g i) \<and> y < wy (win g i)) else window_at_loop x y zs g
      | None \<Rightarrow> window_at_loop x y zs g)"

definition window_at :: "int \<Rightarrow> int \<Rightarrow> wm \<Rightarrow> (nat \<times> bool) option" where
  "window_at x y g = window_at_loop x y (rev (z_order g)) g"

definition deliver_mouse :: "u32 \<Rightarrow> int \<Rightarrow> int \<Rightarrow> u32 \<Rightarrow> int \<Rightarrow> int \<Rightarrow> window \<Rightarrow> window" where
  "deliver_mouse type0 x y buttons button wheel w =
     queue_event (zero_event\<lparr>ge_type := type0, ge_x := x - wx w, ge_y := y - wy w, ge_buttons := buttons, ge_button := button,
       ge_wheel := wheel\<rparr>) w"

definition wm_minimize :: "u32 \<Rightarrow> wm \<Rightarrow> int \<times> wm" where
  "wm_minimize id0 g =
     (case find_window id0 g of
        None \<Rightarrow> (- 1, g)
      | Some i \<Rightarrow>
          let g1 = damage_window (win g i) g;
              st = (if wstate (win g i) = GUI_STATE_MINIMIZED then GUI_STATE_NORMAL else GUI_STATE_MINIMIZED);
              g2 = upd_win i (\<lambda>w. w\<lparr>wstate := st\<rparr>) g1;
              g3 = (if st = GUI_STATE_MINIMIZED \<and> focus_id g2 = id0 then g2\<lparr>focus_id := 0\<rparr> else g2)
          in (0, g3\<lparr>dirty_all := True\<rparr>))"

definition handle_mouse_down :: "int \<Rightarrow> int \<Rightarrow> int \<Rightarrow> wm \<Rightarrow> wm" where
  "handle_mouse_down x y button g =
     (case window_at x y g of
        None \<Rightarrow> set_focus 0 g
      | Some (i, hit_title) \<Rightarrow>
          let g1 = (if wflags (win g i) AND GUI_BOTTOM = 0 then raise_window i (set_focus (w_id (win g i)) g) else g);
              w = win g1 i; f = frame_rect w
          in if hit_title \<and> button = sint MOUSE_LEFT then
               if r_x f + r_w f - 24 \<le> x \<and> x < r_x f + r_w f - 8 then upd_win i (send_simple GUI_EVENT_CLOSE) g1
               else if r_x f + r_w f - 44 \<le> x \<and> x < r_x f + r_w f - 28 then snd (wm_minimize (w_id w) g1)
               else g1\<lparr>drag_id := w_id w, drag_offset_x := x - wx w, drag_offset_y := y - wy w\<rparr>
             else if wflags w AND (GUI_FIXED OR GUI_NODECOR) = 0 \<and> wx w + wwidth w - 12 \<le> x \<and> wy w + wheight w - 12 \<le> y then
               g1\<lparr>resize_id := w_id w, resize_start_x := x, resize_start_y := y, resize_start_w := wwidth w, resize_start_h := wheight w\<rparr>
             else upd_win i (deliver_mouse GUI_EVENT_MOUSE_DOWN x y (word_of_int button) button 0) g1)"

definition handle_mouse_up :: "int \<Rightarrow> int \<Rightarrow> int \<Rightarrow> wm \<Rightarrow> wm" where
  "handle_mouse_up x y button g =
     (if drag_id g \<noteq> 0 then g\<lparr>drag_id := 0\<rparr>
      else if resize_id g \<noteq> 0 then
        (case find_window (resize_id g) g of
           Some i \<Rightarrow> upd_win i (send_simple GUI_EVENT_RESIZE) (g\<lparr>resize_id := 0\<rparr>)
         | None \<Rightarrow> g\<lparr>resize_id := 0\<rparr>)
      else
        (case window_at x y g of
           Some (i, _) \<Rightarrow> upd_win i (deliver_mouse GUI_EVENT_MOUSE_UP x y 0 button 0) g
         | None \<Rightarrow> g))"

definition wm_resize_window :: "nat \<Rightarrow> u32 \<Rightarrow> int \<Rightarrow> int \<Rightarrow> wm \<times> vm \<Rightarrow> int \<times> wm \<times> vm" where
  "wm_resize_window own id0 width height = (\<lambda>(g, v).
     (case find_window id0 g of
        None \<Rightarrow> (- 1, g, v)
      | Some i \<Rightarrow>
          let w = win g i
          in if owner w \<noteq> own then (- 1, g, v)
             else if width \<le> 0 \<or> height \<le> 0 \<or> screen_w g < width \<or> screen_h g < height then (- 1, g, v)
             else if width = wwidth w \<and> height = wheight w then (0, g, v)
             else
               let g1 = damage_window w g;
                   v1 = unmap_pages (Proc_space (owner w)) (user_address w) [0..<unat (buffer_pages w)] v;
                   g2 = upd_win i (\<lambda>w. w\<lparr>buffer_phys := 0\<rparr>) g1
               in (case allocate_buffer i width height (g2, v1) of (r, g3, v3) \<Rightarrow>
                     if r < 0 then
                       (- 1, upd_win i (\<lambda>w1. w1\<lparr>buffer_phys := buffer_phys w, buffer_pages := buffer_pages w, wwidth := wwidth w,
                                wheight := wheight w\<rparr>) g3,
                        fold (\<lambda>k v. snd (vmm_map_in (Proc_space (owner w)) (user_address w + of_nat k * PAGE_SIZE)
                                (buffer_phys w + of_nat k * PAGE_SIZE) buffer_flags v)) [0..<unat (buffer_pages w)] v3)
                     else
                       let g4 = upd_win i (send_simple GUI_EVENT_RESIZE) g3
                       in (0, damage_window (win g4 i) g4,
                           v3\<lparr>phys := pmm_free_contiguous (buffer_phys w) (buffer_pages w) (phys v3)\<rparr>))))"

definition handle_mouse_move :: "int \<Rightarrow> int \<Rightarrow> u32 \<Rightarrow> wm \<times> vm \<Rightarrow> wm \<times> vm" where
  "handle_mouse_move x y buttons = (\<lambda>(g, v).
     (if drag_id g \<noteq> 0 then
        (case find_window (drag_id g) g of
           Some i \<Rightarrow>
             let g1 = damage_window (win g i) g;
                 ny = y - drag_offset_y g;
                 g2 = upd_win i (\<lambda>w. w\<lparr>wx := x - drag_offset_x g, wy := (if ny < WM_TITLE_HEIGHT then WM_TITLE_HEIGHT else ny)\<rparr>) g1
             in (damage_window (win g2 i) g2, v)
         | None \<Rightarrow> (g, v))
      else if resize_id g \<noteq> 0 then
        (case find_window (resize_id g) g of
           Some i \<Rightarrow>
             let w0 = resize_start_w g + (x - resize_start_x g); h0 = resize_start_h g + (y - resize_start_y g);
                 width = (if w0 < 160 then 160 else w0); height = (if h0 < 100 then 100 else h0)
             in if width \<noteq> wwidth (win g i) \<or> height \<noteq> wheight (win g i)
                then snd (wm_resize_window (owner (win g i)) (w_id (win g i)) width height (g, v)) else (g, v)
         | None \<Rightarrow> (g, v))
      else
        (case window_at x y g of
           Some (i, _) \<Rightarrow> (upd_win i (deliver_mouse GUI_EVENT_MOUSE_MOVE x y buttons 0 0) g, v)
         | None \<Rightarrow> (g, v))))"

text \<open>The body of the loop of \<^verbatim>\<open>handle_input\<close>, and the loop over at most \<open>n\<close> events.\<close>

definition handle_event :: "input_event \<Rightarrow> wm \<times> vm \<Rightarrow> wm \<times> vm" where
  "handle_event e = (\<lambda>(g, v).
     (let g1 = g\<lparr>wm_cursor_x := ie_x e, wm_cursor_y := ie_y e\<rparr>
      in case ie_kind e of
           INPUT_MOUSE_MOVE \<Rightarrow> handle_mouse_move (ie_x e) (ie_y e) (ie_buttons e) (g1, v)
         | INPUT_MOUSE_DOWN \<Rightarrow> (handle_mouse_down (ie_x e) (ie_y e) (ie_button e) g1, v)
         | INPUT_MOUSE_UP \<Rightarrow> (handle_mouse_up (ie_x e) (ie_y e) (ie_button e) g1, v)
         | INPUT_MOUSE_WHEEL \<Rightarrow>
             (case window_at (ie_x e) (ie_y e) g of
                Some (i, _) \<Rightarrow> (upd_win i (deliver_mouse GUI_EVENT_WHEEL (ie_x e) (ie_y e) 0 0 (ie_wheel e)) g, v)
              | None \<Rightarrow> (g, v))
         | INPUT_KEY \<Rightarrow>
             (case find_window (focus_id g) g of
                Some i \<Rightarrow> (upd_win i (queue_event (zero_event\<lparr>ge_type := GUI_EVENT_KEY, ge_key := ie_key e\<rparr>)) g, v)
              | None \<Rightarrow> (g, v))
         | INPUT_NONE \<Rightarrow> (g, v)))"

fun handle_input :: "nat \<Rightarrow> mouse \<Rightarrow> wm \<times> vm \<Rightarrow> mouse \<times> wm \<times> vm" where
  "handle_input 0 m gv = (m, gv)"
| "handle_input (Suc n) m gv =
     (case input_poll m of
        (None, m1) \<Rightarrow> (m1, gv)
      | (Some e, m1) \<Rightarrow> handle_input n m1 (handle_event e gv))"

section \<open>Interface for the system calls\<close>

text \<open>The cascade position of a new window, and the next cascade counter.\<close>

definition place_window :: "int \<Rightarrow> int \<Rightarrow> u32 \<Rightarrow> wm \<Rightarrow> (int \<times> int) \<times> int" where
  "place_window width height flags g =
     (if flags AND GUI_BOTTOM \<noteq> 0 then ((0, 0), cascade g)
      else if flags AND GUI_TOP \<noteq> 0 then ((0, screen_h g - height), cascade g)
      else
        let x = 60 + (cascade g smod 6) * 28; y = 60 + (cascade g smod 6) * 24
        in ((if screen_w g < x + width then 20 else x,
             if screen_h g - 40 < y + height then WM_TITLE_HEIGHT + 8 else y), cascade g + 1))"

definition default_title :: cstr where "default_title = [87, 105, 110, 100, 111, 119]"

definition new_window :: "nat \<Rightarrow> nat \<Rightarrow> cstr option \<Rightarrow> u32 \<Rightarrow> int \<times> int \<Rightarrow> u32 \<Rightarrow> window" where
  "new_window slot own title0 flags xy id0 =
     zero_window\<lparr>used := True, w_id := id0, owner := own, wflags := flags, wstate := GUI_STATE_NORMAL,
       user_address := WINDOW_VA_BASE + of_nat slot * WINDOW_VA_STEP,
       title := snd (strlcpy (replicate GUI_MAX_TITLE 0) (case title0 of Some t \<Rightarrow> t | None \<Rightarrow> default_title) GUI_MAX_TITLE),
       wx := fst xy, wy := snd xy\<rparr>"

definition wm_create_window :: "nat \<Rightarrow> int \<Rightarrow> int \<Rightarrow> cstr option \<Rightarrow> u32 \<Rightarrow> wm \<times> vm \<Rightarrow> int \<times> wm \<times> vm" where
  "wm_create_window own width height title0 flags = (\<lambda>(g, v).
     (if \<not> initialised g \<or> width \<le> 0 \<or> height \<le> 0 then (- 1, g, v)
      else if screen_w g < width \<or> screen_h g < height then (- 1, g, v)
      else
        (case find (\<lambda>i. \<not> used (win g i)) [0..<MAX_WINDOWS] of
           None \<Rightarrow> (- 2, g, v)
         | Some slot \<Rightarrow>
             (case place_window width height flags g of (xy, cas) \<Rightarrow>
                let id0 = next_id g;
                    g1 = (upd_win slot (\<lambda>_. new_window slot own title0 flags xy id0) g)\<lparr>next_id := next_id g + 1, cascade := cas\<rparr>
                in (case allocate_buffer slot width height (g1, v) of (r, g2, v2) \<Rightarrow>
                      if r < 0 then (- 3, upd_win slot (\<lambda>w. w\<lparr>used := False\<rparr>) g2, v2)
                      else
                        let g3 = z_insert id0 flags g2;
                            g4 = (if flags AND (GUI_BOTTOM OR GUI_TOP) = 0 then set_focus id0 g3 else g3)
                        in (sint id0, damage_window (win g4 slot) g4, v2))))))"

text \<open>The new focus after the focused window is gone: the frontmost ordinary window.\<close>

fun refocus :: "u32 list \<Rightarrow> wm \<Rightarrow> wm" where
  "refocus [] g = g"
| "refocus (z # zs) g =
     (case find_window z g of
        Some i \<Rightarrow> if wflags (win g i) AND (GUI_BOTTOM OR GUI_TOP) = 0 then set_focus (w_id (win g i)) g else refocus zs g
      | None \<Rightarrow> refocus zs g)"

text \<open>A null owner is \<open>None\<close>.\<close>

definition wm_destroy_window :: "nat option \<Rightarrow> u32 \<Rightarrow> wm \<times> vm \<Rightarrow> int \<times> wm \<times> vm" where
  "wm_destroy_window own id0 = (\<lambda>(g, v).
     (case find_window id0 g of
        None \<Rightarrow> (- 1, g, v)
      | Some i \<Rightarrow>
          if own \<noteq> None \<and> own \<noteq> Some (owner (win g i)) then (- 1, g, v)
          else
            (case release_buffer i (damage_window (win g i) g, v) of (g1, v1) \<Rightarrow>
               let g2 = upd_win i (\<lambda>w. w\<lparr>used := False\<rparr>) (z_remove id0 g1)
               in (0, if focus_id g2 = id0 then refocus (rev (z_order g2)) (g2\<lparr>focus_id := 0\<rparr>) else g2, v1))))"

definition close_slot :: "nat \<Rightarrow> nat \<Rightarrow> wm \<times> vm \<Rightarrow> wm \<times> vm" where
  "close_slot own i = (\<lambda>(g, v).
     (if used (win g i) \<and> owner (win g i) = own then snd (wm_destroy_window (Some own) (w_id (win g i)) (g, v)) else (g, v)))"

definition wm_close_process_windows :: "nat \<Rightarrow> wm \<times> vm \<Rightarrow> wm \<times> vm" where
  "wm_close_process_windows own gv = fold (close_slot own) [0..<MAX_WINDOWS] gv"

record gui_window_info =
  wi_id :: u32
  wi_width :: u32
  wi_height :: u32
  wi_stride :: u32
  wi_buffer :: u32
  wi_flags :: u32
  wi_x :: int
  wi_y :: int

text \<open>The window of an owner, the test at the start of most calls.\<close>

definition find_owned :: "nat \<Rightarrow> u32 \<Rightarrow> wm \<Rightarrow> nat option" where
  "find_owned own id0 g =
     (case find_window id0 g of Some i \<Rightarrow> if owner (win g i) \<noteq> own then None else Some i | None \<Rightarrow> None)"

definition wm_window_info :: "nat \<Rightarrow> u32 \<Rightarrow> wm \<Rightarrow> int \<times> gui_window_info option" where
  "wm_window_info own id0 g =
     (case find_owned own id0 g of
        None \<Rightarrow> (- 1, None)
      | Some i \<Rightarrow>
          let w = win g i
          in (0, Some \<lparr>wi_id = w_id w, wi_width = word_of_int (wwidth w), wi_height = word_of_int (wheight w),
                wi_stride = word_of_int (wwidth w), wi_buffer = user_address w, wi_flags = wflags w, wi_x = wx w, wi_y = wy w\<rparr>))"

definition wm_invalidate :: "nat \<Rightarrow> u32 \<Rightarrow> int \<Rightarrow> int \<Rightarrow> int \<Rightarrow> int \<Rightarrow> wm \<Rightarrow> int \<times> wm" where
  "wm_invalidate own id0 x y w0 h g =
     (case find_owned own id0 g of
        None \<Rightarrow> (- 1, g)
      | Some i \<Rightarrow>
          let w = win g i
          in if wstate w = GUI_STATE_MINIMIZED then (0, g)
             else if w0 \<le> 0 \<or> h \<le> 0 then (0, wm_damage_rect (wx w) (wy w) (wwidth w) (wheight w) g)
             else (0, wm_damage_rect (wx w + x) (wy w + y) w0 h g))"

definition pop_event :: "window \<Rightarrow> gui_event option \<times> window" where
  "pop_event w =
     (if event_tail w = event_head w then (None, w)
      else (Some (events w ! unat (event_tail w)), w\<lparr>event_tail := (event_tail w + 1) mod WM_EVENT_QUEUE\<rparr>))"

definition wm_poll_event :: "nat \<Rightarrow> u32 \<Rightarrow> wm \<Rightarrow> int \<times> gui_event option \<times> wm" where
  "wm_poll_event own id0 g =
     (case find_owned own id0 g of
        None \<Rightarrow> (- 1, None, g)
      | Some i \<Rightarrow>
          (case pop_event (win g i) of
             (None, _) \<Rightarrow> (0, None, g)
           | (Some e, w1) \<Rightarrow> (1, Some e, upd_win i (\<lambda>_. w1) g)))"

definition wm_set_title :: "nat \<Rightarrow> u32 \<Rightarrow> cstr \<Rightarrow> wm \<Rightarrow> int \<times> wm" where
  "wm_set_title own id0 t g =
     (case find_owned own id0 g of
        None \<Rightarrow> (- 1, g)
      | Some i \<Rightarrow>
          let g1 = upd_win i (\<lambda>w. w\<lparr>title := snd (strlcpy (title w) t GUI_MAX_TITLE)\<rparr>) g in (0, damage_window (win g1 i) g1))"

definition wm_move_window :: "nat \<Rightarrow> u32 \<Rightarrow> int \<Rightarrow> int \<Rightarrow> wm \<Rightarrow> int \<times> wm" where
  "wm_move_window own id0 x y g =
     (case find_owned own id0 g of
        None \<Rightarrow> (- 1, g)
      | Some i \<Rightarrow>
          let g1 = upd_win i (\<lambda>w. w\<lparr>wx := x, wy := y\<rparr>) (damage_window (win g i) g) in (0, damage_window (win g1 i) g1))"

record gui_window_desc =
  wd_id :: u32
  wd_pid :: int
  wd_flags :: u32
  wd_state :: u32
  wd_focused :: bool
  wd_title :: cstr

text \<open>\<open>pid_of\<close> reads the process id of a slot of the process table.\<close>

fun list_loop :: "(nat \<Rightarrow> int) \<Rightarrow> nat \<Rightarrow> u32 list \<Rightarrow> wm \<Rightarrow> gui_window_desc list" where
  "list_loop pid_of room [] g = []"
| "list_loop pid_of room (z # zs) g =
     (if room = 0 then []
      else
        (case find_window z g of
           None \<Rightarrow> list_loop pid_of room zs g
         | Some i \<Rightarrow>
             let w = win g i
             in if wflags w AND GUI_NOTASKBAR \<noteq> 0 then list_loop pid_of room zs g
                else \<lparr>wd_id = w_id w, wd_pid = pid_of (owner w), wd_flags = wflags w, wd_state = wstate w,
                       wd_focused = (w_id w = focus_id g),
                       wd_title = snd (strlcpy (replicate GUI_MAX_TITLE 0) (title w) GUI_MAX_TITLE)\<rparr> #
                     list_loop pid_of (room - 1) zs g))"

definition wm_list_windows :: "(nat \<Rightarrow> int) \<Rightarrow> int \<Rightarrow> wm \<Rightarrow> int \<times> gui_window_desc list" where
  "wm_list_windows pid_of mx g = (let l = list_loop pid_of (nat mx) (z_order g) g in (int (length l), l))"

definition wm_activate :: "u32 \<Rightarrow> wm \<Rightarrow> int \<times> wm" where
  "wm_activate id0 g =
     (case find_window id0 g of
        None \<Rightarrow> (- 1, g)
      | Some i \<Rightarrow>
          let g1 = (if wstate (win g i) = GUI_STATE_MINIMIZED then upd_win i (\<lambda>w. w\<lparr>wstate := GUI_STATE_NORMAL\<rparr>) g else g)
          in (0, set_focus id0 (raise_window i g1)))"

definition wm_set_flags :: "nat \<Rightarrow> u32 \<Rightarrow> u32 \<Rightarrow> wm \<Rightarrow> int \<times> wm" where
  "wm_set_flags own id0 flags g =
     (case find_owned own id0 g of
        None \<Rightarrow> (- 1, g)
      | Some i \<Rightarrow>
          (0, (z_insert id0 flags (z_remove id0 (upd_win i (\<lambda>w. w\<lparr>wflags := flags\<rparr>) g)))\<lparr>dirty_all := True\<rparr>))"

section \<open>Start and the compositor\<close>

definition wm_running :: "wm \<Rightarrow> bool" where
  "wm_running g = initialised g"

definition wm_init :: "bool \<Rightarrow> wm \<Rightarrow> int \<times> wm" where
  "wm_init available g =
     (if \<not> available then (- 1, g)
      else
        (0, g\<lparr>windows := replicate MAX_WINDOWS zero_window, z_order := [],
              wm_cursor_x := screen_w g sdiv 2, last_cursor_x := screen_w g sdiv 2,
              wm_cursor_y := screen_h g sdiv 2, last_cursor_y := screen_h g sdiv 2,
              initialised := True, dirty_all := True\<rparr>))"

definition cursor_damage :: "wm \<Rightarrow> wm" where
  "cursor_damage g =
     (if wm_cursor_x g \<noteq> last_cursor_x g \<or> wm_cursor_y g \<noteq> last_cursor_y g then
        (wm_damage_rect (wm_cursor_x g) (wm_cursor_y g) (CURSOR_W + 1) (CURSOR_H + 1)
          (wm_damage_rect (last_cursor_x g) (last_cursor_y g) (CURSOR_W + 1) (CURSOR_H + 1) g))
          \<lparr>last_cursor_x := wm_cursor_x g, last_cursor_y := wm_cursor_y g\<rparr>
      else g)"

text \<open>One round of \<^verbatim>\<open>compositor_thread\<close> up to its sleep; 128 polls empty the input queue.\<close>

definition compositor_round ::
  "u8 list \<Rightarrow> int \<Rightarrow> mouse \<Rightarrow> wm \<times> vm \<Rightarrow> gfx_surface \<times> u32 list \<Rightarrow> (mouse \<times> (wm \<times> vm) \<times> gfx_surface \<times> u32 list) option" where
  "compositor_round font fb_stride m gv sf =
     (case handle_input 128 m gv of (m1, g1, v1) \<Rightarrow>
        let g2 = cursor_damage g1
        in if dirty g2 \<noteq> [] \<or> dirty_all g2
           then map_option (\<lambda>(g3, sf1). (m1, (g3, v1), sf1)) (compose font (mem v1) fb_stride g2 sf)
           else Some (m1, (g2, v1), sf))"

section \<open>Damage\<close>

definition in_gfx_rect :: "gfx_rect \<Rightarrow> int \<Rightarrow> int \<Rightarrow> bool" where
  "in_gfx_rect r X Y \<longleftrightarrow> in_rect (r_x r) (r_y r) (r_w r) (r_h r) X Y"

text \<open>The next frame repaints the point.\<close>

definition will_repaint :: "wm \<Rightarrow> int \<Rightarrow> int \<Rightarrow> bool" where
  "will_repaint g X Y \<longleftrightarrow> dirty_all g \<or> (\<exists>r \<in> set (dirty g). in_gfx_rect r X Y)"

lemma merge_covers: "in_gfx_rect r X Y \<or> in_rect x y w h X Y \<Longrightarrow> in_gfx_rect (merge_rect x y w h r) X Y"
  by (auto simp: in_gfx_rect_def in_rect_def merge_rect_def Let_def)

lemma damage_covers:
  assumes "in_rect x y w h X Y \<or> will_repaint g X Y"
  shows "will_repaint (wm_damage_rect x y w h g) X Y"
proof (cases "w \<le> 0 \<or> h \<le> 0 \<or> dirty_all g \<or> length (dirty g) = MAX_DIRTY")
  case True
  then show ?thesis using assms by (auto simp: wm_damage_rect_def will_repaint_def in_rect_def)
next
  case False
  show ?thesis
  proof (cases "find (\<lambda>i. near x y w h (dirty g ! i)) [0..<length (dirty g)]")
    case None
    then show ?thesis using assms False by (auto simp: wm_damage_rect_def will_repaint_def in_gfx_rect_def in_rect_def)
  next
    case (Some i)
    then have i: "i < length (dirty g)" by (auto simp: find_Some_iff)
    let ?d = "(dirty g)[i := merge_rect x y w h (dirty g ! i)]"
    have e: "wm_damage_rect x y w h g = g\<lparr>dirty := ?d\<rparr>" using False Some by (simp add: wm_damage_rect_def)
    have m: "merge_rect x y w h (dirty g ! i) \<in> set ?d" using i by (simp add: set_update_memI)
    consider "in_rect x y w h X Y" | r where "r \<in> set (dirty g)" "in_gfx_rect r X Y"
      using assms False by (auto simp: will_repaint_def)
    then show ?thesis
    proof cases
      case 1
      then show ?thesis using m merge_covers unfolding e will_repaint_def by fastforce
    next
      case 2
      then obtain j where j: "j < length (dirty g)" "r = dirty g ! j" by (auto simp: in_set_conv_nth)
      show ?thesis
      proof (cases "j = i")
        case True
        then show ?thesis using m merge_covers j 2(2) unfolding e will_repaint_def by fastforce
      next
        case False
        then have "r \<in> set ?d" using j by (metis in_set_conv_nth length_list_update nth_list_update_neq)
        then show ?thesis using 2(2) by (auto simp: e will_repaint_def)
      qed
    qed
  qed
qed

lemma damage_fields [simp]:
  "windows (wm_damage_rect x y w h g) = windows g" "z_order (wm_damage_rect x y w h g) = z_order g"
  "focus_id (wm_damage_rect x y w h g) = focus_id g" "Wm.next_id (wm_damage_rect x y w h g) = Wm.next_id g"
  "windows (damage_window w1 g) = windows g" "z_order (damage_window w1 g) = z_order g"
  "focus_id (damage_window w1 g) = focus_id g" "Wm.next_id (damage_window w1 g) = Wm.next_id g"
  "screen_w (wm_damage_rect x y w h g) = screen_w g" "screen_h (wm_damage_rect x y w h g) = screen_h g"
  "screen_w (damage_window w1 g) = screen_w g" "screen_h (damage_window w1 g) = screen_h g"
  by (auto simp: wm_damage_rect_def damage_window_def Let_def split: option.split)

lemma damage_bounded: "length (dirty g) \<le> MAX_DIRTY \<Longrightarrow> length (dirty (wm_damage_rect x y w h g)) \<le> MAX_DIRTY"
  by (auto simp: wm_damage_rect_def split: option.split)

text \<open>
  damage is never lost.  After \<^verbatim>\<open>wm_damage_rect\<close> the next frame repaints every point of the rectangle and every
  point that was already waiting, whether the rectangle was appended, merged or the list overflowed; the list
  stays within its array.
\<close>

lemma wm_damage_kept:
  assumes "in_rect x y w h X Y \<or> will_repaint g X Y" and "length (dirty g) \<le> MAX_DIRTY"
  shows "will_repaint (wm_damage_rect x y w h g) X Y \<and> length (dirty (wm_damage_rect x y w h g)) \<le> MAX_DIRTY"
  using damage_covers [OF assms(1)] damage_bounded [OF assms(2)] by blast

definition empty_wm :: wm where
  "empty_wm = \<lparr>windows = replicate MAX_WINDOWS zero_window, z_order = [], next_id = 1, initialised = True, focus_id = 0, dirty = [],
     dirty_all = False, drag_id = 0, drag_offset_x = 0, drag_offset_y = 0, resize_id = 0, resize_start_w = 0, resize_start_h = 0,
     resize_start_x = 0, resize_start_y = 0, wm_cursor_x = 512, wm_cursor_y = 384, last_cursor_x = 512, last_cursor_y = 384,
     cascade = 0, screen_w = 1024, screen_h = 768\<rparr>"

section \<open>Hit testing\<close>

lemma window_at_loop_spec:
  "window_at_loop x y zs g = Some (i, t) \<Longrightarrow>
     \<exists>pre z post. zs = pre @ z # post \<and> find_window z g = Some i \<and> hit x y (win g i) \<and> t = (decorated (win g i) \<and> y < wy (win g i)) \<and>
       (\<forall>z' \<in> set pre. \<forall>j. find_window z' g = Some j \<longrightarrow> \<not> hit x y (win g j))"
  "window_at_loop x y zs g = None \<Longrightarrow> \<forall>z \<in> set zs. \<forall>j. find_window z g = Some j \<longrightarrow> \<not> hit x y (win g j)"
proof (induction zs)
  case (Cons z zs)
  {
    case 1
    show ?case
    proof (cases "\<exists>j. find_window z g = Some j \<and> hit x y (win g j)")
      case True
      then show ?thesis using 1 by (intro exI [of _ "[]"]) auto
    next
      case False
      then have "window_at_loop x y zs g = Some (i, t)" using 1 by (auto split: option.splits)
      from Cons(1) [OF this] obtain pre z' post where p: "zs = pre @ z' # post" "find_window z' g = Some i" "hit x y (win g i)"
        "t = (decorated (win g i) \<and> y < wy (win g i))" "\<forall>z' \<in> set pre. \<forall>j. find_window z' g = Some j \<longrightarrow> \<not> hit x y (win g j)" by blast
      then show ?thesis using False by (intro exI [of _ "z # pre"]) auto
    qed
  next
    case 2
    then show ?case using Cons(2) by (auto split: option.splits if_splits)
  }
qed simp_all

text \<open>The pointer hits the frontmost window there.\<close>

lemma window_at_front:
  "case window_at x y g of
     Some (i, t) \<Rightarrow> \<exists>pre z post. z_order g = pre @ z # post \<and> find_window z g = Some i \<and> hit x y (win g i) \<and>
       (\<forall>z' \<in> set post. \<forall>j. find_window z' g = Some j \<longrightarrow> \<not> hit x y (win g j))
   | None \<Rightarrow> \<forall>z \<in> set (z_order g). \<forall>j. find_window z g = Some j \<longrightarrow> \<not> hit x y (win g j)"
proof (cases "window_at x y g")
  case None
  then show ?thesis using window_at_loop_spec(2) [of x y "rev (z_order g)" g] by (simp add: window_at_def)
next
  case (Some it)
  obtain i t where it: "it = (i, t)" by fastforce
  obtain pre z post where "rev (z_order g) = pre @ z # post" "find_window z g = Some i" "hit x y (win g i)"
    "\<forall>z' \<in> set pre. \<forall>j. find_window z' g = Some j \<longrightarrow> \<not> hit x y (win g j)"
    using window_at_loop_spec(1) [of x y "rev (z_order g)" g i t] Some it unfolding window_at_def by blast
  moreover from this have "z_order g = rev post @ z # rev pre" by (metis append.assoc append_Cons append_Nil rev.simps(2) rev_append rev_rev_ident)
  ultimately show ?thesis
    unfolding Some it option.case prod.case by (intro exI [of _ "rev post"] exI [of _ z] exI [of _ "rev pre"]) simp
qed

section \<open>Event queues\<close>

definition put_event :: "gui_event \<Rightarrow> window \<Rightarrow> window" where
  "put_event event w =
     (let nxt = (event_head w + 1) mod 32
      in if nxt = event_tail w then w
         else w\<lparr>events := (events w)[unat (event_head w) := event], event_head := nxt\<rparr>)"

lemma queue_event_put: "queue_event event w = put_event (event\<lparr>ge_window := w_id w\<rparr>) w"
  by (simp add: queue_event_def put_event_def WM_EVENT_QUEUE_def)

interpretation wq: ring_buffer events event_head event_tail 32 put_event pop_event
  by unfold_locales (auto simp: put_event_def pop_event_def WM_EVENT_QUEUE_def Let_def)

lemma queue_event_ok: "wq.ok w \<Longrightarrow> wq.ok (queue_event e w)"
  unfolding queue_event_put by (rule wq.inv_push)

lemma queue_event_fields [simp]:
  "w_id (queue_event e w) = w_id w" "used (queue_event e w) = used w" "owner (queue_event e w) = owner w"
  "user_address (queue_event e w) = user_address w" "buffer_phys (queue_event e w) = buffer_phys w"
  "buffer_pages (queue_event e w) = buffer_pages w" "wflags (queue_event e w) = wflags w"
  "wwidth (queue_event e w) = wwidth w" "wheight (queue_event e w) = wheight w"
  by (simp_all add: queue_event_def Let_def)

section \<open>The invariant\<close>

definition ids :: "wm \<Rightarrow> u32 set" where
  "ids g = {w_id (win g i) | i. i < MAX_WINDOWS \<and> used (win g i)}"

definition wm_inv :: "wm \<Rightarrow> bool" where
  "wm_inv g \<longleftrightarrow> length (windows g) = MAX_WINDOWS \<and> length (dirty g) \<le> MAX_DIRTY \<and>
     (\<forall>i < MAX_WINDOWS. wq.ok (win g i)) \<and>
     (\<forall>i < MAX_WINDOWS. \<forall>j < MAX_WINDOWS. used (win g i) \<longrightarrow> used (win g j) \<longrightarrow> w_id (win g i) = w_id (win g j) \<longrightarrow> i = j) \<and>
     (\<forall>z \<in> ids g. 0 < z \<and> z < Wm.next_id g) \<and>
     distinct (z_order g) \<and> set (z_order g) = ids g \<and> (focus_id g = 0 \<or> focus_id g \<in> ids g) \<and> 0 < Wm.next_id g"

lemma wm_invD:
  assumes "wm_inv g"
  shows "length (windows g) = MAX_WINDOWS" "length (dirty g) \<le> MAX_DIRTY" "i < MAX_WINDOWS \<Longrightarrow> wq.ok (win g i)"
    "i < MAX_WINDOWS \<Longrightarrow> j < MAX_WINDOWS \<Longrightarrow> used (win g i) \<Longrightarrow> used (win g j) \<Longrightarrow> w_id (win g i) = w_id (win g j) \<Longrightarrow> i = j"
    "z \<in> ids g \<Longrightarrow> 0 < z \<and> z < Wm.next_id g" "distinct (z_order g)" "set (z_order g) = ids g" "focus_id g = 0 \<or> focus_id g \<in> ids g"
    "0 < Wm.next_id g"
  using assms unfolding wm_inv_def by blast+

lemma find_windowD: "find_window id0 g = Some i \<Longrightarrow> i < MAX_WINDOWS \<and> used (win g i) \<and> w_id (win g i) = id0 \<and> id0 \<in> ids g"
  by (auto simp: find_window_def find_Some_iff ids_def)

lemma find_window_none: "find_window id0 g = None \<longleftrightarrow> id0 \<notin> ids g"
  by (auto simp: find_window_def find_None_iff ids_def)

text \<open>The stacking order is never longer than its array.\<close>

lemma z_order_fits:
  assumes "wm_inv g"
  shows "length (z_order g) \<le> MAX_WINDOWS"
proof -
  have "ids g \<subseteq> (\<lambda>i. w_id (win g i)) ` {..<MAX_WINDOWS}" by (auto simp: ids_def)
  then have "card (ids g) \<le> MAX_WINDOWS" using card_mono [OF finite_imageI [OF finite_lessThan]] card_image_le [OF finite_lessThan, of "\<lambda>i. w_id (win g i)" MAX_WINDOWS]
    by (metis card_lessThan order_trans)
  then show ?thesis using wm_invD(6,7) [OF assms] by (metis distinct_card)
qed

lemma upd_win_nth: "length (windows g) = MAX_WINDOWS \<Longrightarrow> j < MAX_WINDOWS \<Longrightarrow> i < MAX_WINDOWS \<Longrightarrow>
    win (upd_win i f g) j = (if j = i then f (win g i) else win g j)"
  by (simp add: upd_win_def)

lemma upd_win_fields [simp]:
  "z_order (upd_win i f g) = z_order g" "focus_id (upd_win i f g) = focus_id g" "Wm.next_id (upd_win i f g) = Wm.next_id g"
  "dirty (upd_win i f g) = dirty g" "length (windows (upd_win i f g)) = length (windows g)"
  "screen_w (upd_win i f g) = screen_w g" "screen_h (upd_win i f g) = screen_h g" "dirty_all (upd_win i f g) = dirty_all g"
  by (simp_all add: upd_win_def)

text \<open>Changes that keep ids and slots.\<close>

definition keeps_ids :: "(window \<Rightarrow> window) \<Rightarrow> bool" where
  "keeps_ids f \<longleftrightarrow> (\<forall>w. w_id (f w) = w_id w \<and> used (f w) = used w \<and> (wq.ok w \<longrightarrow> wq.ok (f w)))"

lemma ids_cong:
  "(\<And>i. i < MAX_WINDOWS \<Longrightarrow> used (win g' i) = used (win g i) \<and> w_id (win g' i) = w_id (win g i)) \<Longrightarrow> ids g' = ids g"
  unfolding ids_def by (intro Collect_cong) metis

lemma upd_inv:
  assumes "wm_inv g" and "keeps_ids f" and "i < MAX_WINDOWS"
  shows "wm_inv (upd_win i f g)" and "ids (upd_win i f g) = ids g"
proof -
  note d = wm_invD [OF assms(1)]
  have n: "win (upd_win i f g) j = (if j = i then f (win g i) else win g j)" if "j < MAX_WINDOWS" for j
    using upd_win_nth [OF d(1) that assms(3)] .
  show i: "ids (upd_win i f g) = ids g" using assms(2) n by (intro ids_cong) (auto simp: keeps_ids_def)
  have k: "used (win (upd_win i f g) j) = used (win g j)" "w_id (win (upd_win i f g) j) = w_id (win g j)" "wq.ok (win (upd_win i f g) j)"
    if "j < MAX_WINDOWS" for j
    using n [OF that] assms(2) d(3) [OF that] that by (auto simp: keeps_ids_def)
  show "wm_inv (upd_win i f g)"
    unfolding wm_inv_def i using d k by auto
qed

lemma queue_keeps: "keeps_ids (queue_event e)" "keeps_ids (send_simple t)" "keeps_ids (deliver_mouse t x y b n wh)"
  by (simp_all add: keeps_ids_def send_simple_def deliver_mouse_def queue_event_ok)

lemma field_keeps: "(\<And>w. w_id (f w) = w_id w \<and> used (f w) = used w \<and> events (f w) = events w \<and> event_head (f w) = event_head w \<and>
    event_tail (f w) = event_tail w) \<Longrightarrow> keeps_ids f"
  by (simp add: keeps_ids_def wq.ok_def)

text \<open>Changes of the other fields.\<close>

lemma wm_inv_cong:
  assumes "wm_inv g" and "windows g' = windows g" "z_order g' = z_order g" "focus_id g' = focus_id g \<or> focus_id g' = 0"
    "Wm.next_id g' = Wm.next_id g" "length (dirty g') \<le> MAX_DIRTY"
  shows "wm_inv g'" and "ids g' = ids g"
proof -
  show i: "ids g' = ids g" by (simp add: ids_def assms(2))
  show "wm_inv g'" using assms(1) unfolding wm_inv_def i assms(2,3,5) using assms(4,6) by auto
qed

lemma damage_inv:
  assumes "wm_inv g"
  shows "wm_inv (wm_damage_rect x y w h g)" "wm_inv (damage_window w1 g)" "ids (wm_damage_rect x y w h g) = ids g"
    "ids (damage_window w1 g) = ids g"
proof -
  have b: "length (dirty (wm_damage_rect x y w h g)) \<le> MAX_DIRTY" for x y w h using damage_bounded wm_invD(2) [OF assms] .
  then show "wm_inv (wm_damage_rect x y w h g)" "wm_inv (damage_window w1 g)" "ids (wm_damage_rect x y w h g) = ids g"
    "ids (damage_window w1 g) = ids g"
    using wm_inv_cong [OF assms, of "wm_damage_rect x y w h g"] wm_inv_cong [OF assms, of "damage_window w1 g"]
    by (simp_all add: damage_window_def Let_def)
qed

lemma find_window_cong: "windows g' = windows g \<Longrightarrow> find_window z g' = find_window z g"
  by (simp add: find_window_def)

lemma z_restack:
  assumes "wm_inv g" and "z \<in> ids g"
  shows "wm_inv (z_insert z fl (z_remove z g))" and "ids (z_insert z fl (z_remove z g)) = ids g"
proof -
  let ?g = "z_insert z fl (z_remove z g)"
  have i: "ids ?g = ids g" by (simp add: ids_def z_insert_def z_remove_def Let_def)
  define zs where "zs = filter (\<lambda>x. x \<noteq> z) (z_order g)"
  define p where "p = z_position fl (z_remove z g)"
  have zo: "z_order ?g = take p zs @ [z] @ drop p zs" by (simp add: z_insert_def z_remove_def Let_def p_def zs_def)
  have d: "distinct zs" "z \<notin> set zs" "set zs = ids g - {z}" using wm_invD(6,7) [OF assms(1)] by (auto simp: zs_def)
  have s: "set (take p zs) \<union> set (drop p zs) = set zs" by (metis append_take_drop_id set_append)
  have "distinct (take p zs @ drop p zs)" using d(1) by simp
  then have "distinct (z_order ?g)" "set (z_order ?g) = ids g"
    using d s assms(2) by (auto simp: zo set_take_subset set_drop_subset dest: in_set_takeD in_set_dropD simp del: append_take_drop_id)
  then show "wm_inv ?g" "ids ?g = ids g"
    using wm_invD [OF assms(1)] i unfolding wm_inv_def i by (auto simp: z_insert_def z_remove_def Let_def)
qed

lemma focus_change:
  assumes "wm_inv g" and "z = 0 \<or> z \<in> ids g"
  shows "wm_inv (g\<lparr>focus_id := z\<rparr>)" "ids (g\<lparr>focus_id := z\<rparr>) = ids g"
proof -
  show i: "ids (g\<lparr>focus_id := z\<rparr>) = ids g" by (simp add: ids_def)
  show "wm_inv (g\<lparr>focus_id := z\<rparr>)" using assms unfolding wm_inv_def i by simp
qed

lemma notify_inv:
  assumes "wm_inv g"
  shows "wm_inv (notify t z g)" "ids (notify t z g) = ids g"
proof -
  have "wm_inv (notify t z g) \<and> ids (notify t z g) = ids g"
  proof (cases "find_window z g")
    case None
    then show ?thesis using assms by (simp add: notify_def)
  next
    case (Some i)
    then have i: "i < MAX_WINDOWS" using find_windowD by blast
    note u = upd_inv [OF assms queue_keeps(2) [of t] i]
    show ?thesis using Some damage_inv(2,4) [OF u(1)] u(2) by (simp add: notify_def)
  qed
  then show "wm_inv (notify t z g)" "ids (notify t z g) = ids g" by blast+
qed

lemma set_focus_inv:
  assumes "wm_inv g" and "z = 0 \<or> z \<in> ids g"
  shows "wm_inv (set_focus z g)" "ids (set_focus z g) = ids g"
proof -
  let ?a = "notify GUI_EVENT_BLUR (focus_id g) g"
  have a: "wm_inv ?a" "ids ?a = ids g" using notify_inv [OF assms(1)] by auto
  have b: "wm_inv (?a\<lparr>focus_id := z\<rparr>)" "ids (?a\<lparr>focus_id := z\<rparr>) = ids g"
    using focus_change [OF a(1), of z] assms(2) a(2) by auto
  show "wm_inv (set_focus z g)" "ids (set_focus z g) = ids g"
    using assms(1) notify_inv [OF b(1), of GUI_EVENT_FOCUS z] b(2) by (simp_all add: set_focus_def)
qed

lemma raise_inv:
  assumes "wm_inv g" and "i < MAX_WINDOWS" and "used (win g i)"
  shows "wm_inv (raise_window i g)" "ids (raise_window i g) = ids g"
proof -
  have "w_id (win g i) \<in> ids g" using assms(2,3) by (auto simp: ids_def)
  from z_restack [OF assms(1) this, of "wflags (win g i)"] show "wm_inv (raise_window i g)" "ids (raise_window i g) = ids g"
    using damage_inv(2,4) by (simp_all add: raise_window_def)
qed

lemma minimize_inv:
  assumes "wm_inv g"
  shows "wm_inv (snd (wm_minimize z g))" "ids (snd (wm_minimize z g)) = ids g"
proof -
  have "wm_inv (snd (wm_minimize z g)) \<and> ids (snd (wm_minimize z g)) = ids g"
  proof (cases "find_window z g")
    case None
    then show ?thesis using assms by (simp add: wm_minimize_def)
  next
    case (Some i)
    then have i: "i < MAX_WINDOWS" using find_windowD by blast
    define st where "st = (if wstate (win g i) = GUI_STATE_MINIMIZED then GUI_STATE_NORMAL else GUI_STATE_MINIMIZED)"
    define g2 where "g2 = upd_win i (\<lambda>w. w\<lparr>wstate := st\<rparr>) (damage_window (win g i) g)"
    define g3 where "g3 = (if st = GUI_STATE_MINIMIZED \<and> focus_id g2 = z then g2\<lparr>focus_id := 0\<rparr> else g2)"
    have g2: "wm_inv g2" "ids g2 = ids g"
      using upd_inv [OF damage_inv(2) [OF assms] _ i, of "\<lambda>w. w\<lparr>wstate := st\<rparr>"] damage_inv(4) [OF assms]
      by (simp_all add: g2_def field_keeps)
    have e: "snd (wm_minimize z g) = g3\<lparr>dirty_all := True\<rparr>"
      by (simp add: wm_minimize_def Some Let_def g3_def g2_def st_def)
    have "wm_inv (g3\<lparr>dirty_all := True\<rparr>)" "ids (g3\<lparr>dirty_all := True\<rparr>) = ids g2"
      by (rule wm_inv_cong [OF g2(1)]; use wm_invD(2) [OF g2(1)] in \<open>simp add: g3_def\<close>)+
    then show ?thesis using e g2(2) by simp
  qed
  then show "wm_inv (snd (wm_minimize z g))" "ids (snd (wm_minimize z g)) = ids g" by blast+
qed

lemma window_at_used:
  assumes "window_at x y g = Some (i, t)"
  shows "i < MAX_WINDOWS \<and> used (win g i) \<and> w_id (win g i) \<in> ids g"
proof -
  obtain z where "find_window z g = Some i" using window_at_front [where x = x and y = y and g = g] assms by auto
  then show ?thesis using find_windowD [of z g i] by auto
qed

lemma mouse_down_inv:
  assumes "wm_inv g"
  shows "wm_inv (handle_mouse_down x y b g) \<and> ids (handle_mouse_down x y b g) = ids g"
proof (cases "window_at x y g")
  case None
  then show ?thesis using set_focus_inv [OF assms, of 0] by (simp add: handle_mouse_down_def)
next
  case (Some it)
  obtain i t where it: "it = (i, t)" by fastforce
  have w: "i < MAX_WINDOWS" "used (win g i)" "w_id (win g i) \<in> ids g" using window_at_used Some it by blast+
  define g1 where "g1 = (if wflags (win g i) AND GUI_BOTTOM = 0 then raise_window i (set_focus (w_id (win g i)) g) else g)"
  note f = set_focus_inv [OF assms, of "w_id (win g i)"]
  have fi: "wm_inv (set_focus (w_id (win g i)) g)" "ids (set_focus (w_id (win g i)) g) = ids g" using f w(3) by auto
  have uf: "used (win (set_focus (w_id (win g i)) g) i)"
  proof -
    have u: "used (win (notify t z h) i) = used (win h i)" if "wm_inv h" for t z h
    proof (cases "find_window z h")
      case (Some j)
      then have "j < MAX_WINDOWS" using find_windowD by blast
      then show ?thesis
        using Some upd_win_nth [OF wm_invD(1) [OF that] w(1), of j "send_simple t"] by (auto simp: notify_def send_simple_def)
    qed (simp add: notify_def)
    have "wm_inv ((notify GUI_EVENT_BLUR (focus_id g) g)\<lparr>focus_id := w_id (win g i)\<rparr>)"
      using focus_change(1) [OF notify_inv(1) [OF assms]] notify_inv(2) [OF assms] w(3) by metis
    then show ?thesis using u [OF assms] u w(2) by (simp add: set_focus_def)
  qed
  have g1: "wm_inv g1" "ids g1 = ids g"
    using raise_inv [OF fi(1) w(1) uf] fi(2) assms by (simp_all add: g1_def)
  have up: "wm_inv (upd_win i h g1) \<and> ids (upd_win i h g1) = ids g" if "keeps_ids h" for h
    using upd_inv [OF g1(1) that w(1)] g1(2) by simp
  have mn: "wm_inv (snd (wm_minimize z g1)) \<and> ids (snd (wm_minimize z g1)) = ids g" for z
    using minimize_inv [OF g1(1), of z] g1(2) by simp
  have fld: "wm_inv (g1\<lparr>drag_id := a, drag_offset_x := b, drag_offset_y := c\<rparr>) \<and> ids (g1\<lparr>drag_id := a, drag_offset_x := b, drag_offset_y := c\<rparr>) = ids g"
    "wm_inv (g1\<lparr>resize_id := a, resize_start_x := b, resize_start_y := c, resize_start_w := d, resize_start_h := e\<rparr>) \<and>
      ids (g1\<lparr>resize_id := a, resize_start_x := b, resize_start_y := c, resize_start_w := d, resize_start_h := e\<rparr>) = ids g" for a b c d e
    using wm_inv_cong [OF g1(1), of "g1\<lparr>drag_id := a, drag_offset_x := b, drag_offset_y := c\<rparr>"]
      wm_inv_cong [OF g1(1), of "g1\<lparr>resize_id := a, resize_start_x := b, resize_start_y := c, resize_start_w := d, resize_start_h := e\<rparr>"]
      wm_invD(2) [OF g1(1)] g1(2) by simp_all
  show ?thesis
    unfolding handle_mouse_down_def Some it option.case prod.case Let_def g1_def [symmetric]
    using up [OF queue_keeps(2)] up [OF queue_keeps(3)] mn fld by simp
qed

lemma mouse_up_inv:
  assumes "wm_inv g"
  shows "wm_inv (handle_mouse_up x y b g) \<and> ids (handle_mouse_up x y b g) = ids g"
proof -
  have fld: "wm_inv (g\<lparr>drag_id := a\<rparr>) \<and> ids (g\<lparr>drag_id := a\<rparr>) = ids g" "wm_inv (g\<lparr>resize_id := a\<rparr>)" "ids (g\<lparr>resize_id := a\<rparr>) = ids g" for a
    using wm_inv_cong [OF assms, of "g\<lparr>drag_id := a\<rparr>"] wm_inv_cong [OF assms, of "g\<lparr>resize_id := a\<rparr>"] wm_invD(2) [OF assms] by simp_all
  have rs: "wm_inv (upd_win i (send_simple t) (g\<lparr>resize_id := 0\<rparr>)) \<and> ids (upd_win i (send_simple t) (g\<lparr>resize_id := 0\<rparr>)) = ids g"
    if "find_window z g = Some i" for z i t
    using upd_inv [OF fld(2) queue_keeps(2)] find_windowD [OF that] fld(3) by simp
  have dm: "wm_inv (upd_win i (deliver_mouse t x y n m k) g) \<and> ids (upd_win i (deliver_mouse t x y n m k) g) = ids g"
    if "window_at x y g = Some (i, l)" for i l t n m k
    using upd_inv [OF assms queue_keeps(3)] window_at_used [OF that] by simp
  show ?thesis
    using assms fld(1) rs dm fld(2,3) by (auto simp: handle_mouse_up_def split: option.split)
qed

lemma upd_upd: "i < length (windows g) \<Longrightarrow> upd_win i f (upd_win i h g) = upd_win i (f \<circ> h) g"
  by (simp add: upd_win_def)

lemma keeps_comp: "keeps_ids f \<Longrightarrow> keeps_ids h \<Longrightarrow> keeps_ids (f \<circ> h)"
  by (simp add: keeps_ids_def)

text \<open>\<open>allocate_buffer\<close> changes only the fields of the buffer of its window, and nothing when it fails.\<close>

lemma allocate_buffer_wm:
  assumes "allocate_buffer i w h (g, v) = (r, g2, v2)"
  obtains "r < 0" and "g2 = g" | f where "r = 0" and "keeps_ids f" and "g2 = upd_win i f g"
proof -
  obtain pa p where a: "pmm_alloc_frames (buffer_page_count w h) (phys v) = (pa, p)" by fastforce
  define f where "f = (\<lambda>x :: window. x\<lparr>buffer_phys := pa, buffer_pages := buffer_page_count w h, wwidth := w, wheight := h\<rparr>)"
  have "keeps_ids f" unfolding f_def by (rule field_keeps) simp
  moreover have "r < 0 \<and> g2 = g \<or> r = 0 \<and> g2 = upd_win i f g"
    using assms a by (auto simp: allocate_buffer_def Let_def f_def split: if_splits prod.splits)
  ultimately show ?thesis using that by blast
qed

lemma allocate_buffer_inv:
  assumes "wm_inv g" and "i < MAX_WINDOWS" and "allocate_buffer i w h (g, v) = (r, g2, v2)"
  shows "wm_inv g2 \<and> ids g2 = ids g"
  using assms(3) by (rule allocate_buffer_wm) (use upd_inv [OF assms(1) _ assms(2)] assms(1) in auto)

lemma release_buffer_inv:
  assumes "wm_inv g" and "i < MAX_WINDOWS" and "release_buffer i (g, v) = (g2, v2)"
  shows "wm_inv g2" and "ids g2 = ids g" and "used (win g2 i) = used (win g i)"
proof -
  define f where "f = (\<lambda>x :: window. x\<lparr>buffer_phys := 0, buffer_pages := 0\<rparr>)"
  have f: "keeps_ids f" unfolding f_def by (rule field_keeps) simp
  have "g2 = g \<or> g2 = upd_win i f g"
    using assms(3) by (auto simp: release_buffer_def Let_def f_def split: if_splits)
  then show "wm_inv g2" "ids g2 = ids g" "used (win g2 i) = used (win g i)"
    using upd_inv [OF assms(1) f assms(2)] assms(1) upd_win_nth [OF wm_invD(1) [OF assms(1)] assms(2) assms(2)] f
    by (auto simp: keeps_ids_def)
qed

lemma resize_inv:
  assumes "wm_inv g"
  shows "wm_inv (fst (snd (wm_resize_window own z w h (g, v)))) \<and> ids (fst (snd (wm_resize_window own z w h (g, v)))) = ids g"
proof (cases "find_window z g")
  case None
  then show ?thesis using assms by (simp add: wm_resize_window_def)
next
  case (Some i)
  then have i: "i < MAX_WINDOWS" using find_windowD by blast
  define g2 where "g2 = upd_win i (\<lambda>w. w\<lparr>buffer_phys := 0\<rparr>) (damage_window (win g i) g)"
  define v1 where "v1 = unmap_pages (Proc_space (owner (win g i))) (user_address (win g i)) [0..<unat (buffer_pages (win g i))] v"
  obtain r g3 v3 where a: "allocate_buffer i w h (g2, v1) = (r, g3, v3)" by (metis prod_cases3)
  have "wm_inv g2" "ids g2 = ids g"
    using upd_inv [OF damage_inv(2) [OF assms] _ i, of "\<lambda>w. w\<lparr>buffer_phys := 0\<rparr>"] damage_inv(4) [OF assms]
    by (simp_all add: g2_def field_keeps)
  then have g3: "wm_inv g3" "ids g3 = ids g" using allocate_buffer_inv [OF _ i a] by auto
  have u: "wm_inv (upd_win i f g3) \<and> ids (upd_win i f g3) = ids g" if "keeps_ids f" for f
    using upd_inv [OF g3(1) that i] g3(2) by simp
  have r: "keeps_ids (\<lambda>w1. w1\<lparr>buffer_phys := a, buffer_pages := b, wwidth := c, wheight := d\<rparr>)" for a b c d by (rule field_keeps) simp
  have d: "wm_inv (damage_window w1 (upd_win i (send_simple t) g3)) \<and> ids (damage_window w1 (upd_win i (send_simple t) g3)) = ids g" for w1 t
    using u [OF queue_keeps(2)] damage_inv(2,4) by metis
  show ?thesis
    using assms u [OF r] d
    unfolding wm_resize_window_def prod.case Some option.case Let_def v1_def [symmetric] g2_def [symmetric] a
    by simp
qed

lemma mouse_move_inv:
  assumes "wm_inv g"
  shows "wm_inv (fst (handle_mouse_move x y b (g, v))) \<and> ids (fst (handle_mouse_move x y b (g, v))) = ids g"
proof -
  have dr: "wm_inv (damage_window w2 (upd_win i (\<lambda>w. w\<lparr>wx := c, wy := d\<rparr>) (damage_window w1 g))) \<and>
      ids (damage_window w2 (upd_win i (\<lambda>w. w\<lparr>wx := c, wy := d\<rparr>) (damage_window w1 g))) = ids g" if "i < MAX_WINDOWS" for i w1 w2 c d
  proof -
    have k: "keeps_ids (\<lambda>w. w\<lparr>wx := c, wy := d\<rparr>)" by (rule field_keeps) simp
    note u = upd_inv [OF damage_inv(2) [OF assms] k that]
    show ?thesis using damage_inv(2,4) [OF u(1)] u(2) damage_inv(4) [OF assms] by metis
  qed
  have dm: "wm_inv (upd_win i (deliver_mouse t x y n m k) g) \<and> ids (upd_win i (deliver_mouse t x y n m k) g) = ids g"
    if "window_at x y g = Some (i, l)" for i l t n m k
    using upd_inv [OF assms queue_keeps(3)] window_at_used [OF that] by simp
  have rs: "wm_inv (fst (snd (wm_resize_window own z w h (g, v)))) \<and> ids (fst (snd (wm_resize_window own z w h (g, v)))) = ids g" for own z w h
    using resize_inv [OF assms] .
  show ?thesis
    using assms dr [of "the (find_window (drag_id g) g)"] dm rs find_windowD
    by (auto simp: handle_mouse_move_def Let_def split: option.split)
qed

section \<open>Creating and destroying windows\<close>

lemma slot_replaced:
  assumes "length (windows g) = MAX_WINDOWS" and "i < MAX_WINDOWS"
  shows "ids (upd_win i (\<lambda>_. w) g) = {w_id (win g j) | j. j < MAX_WINDOWS \<and> used (win g j) \<and> j \<noteq> i} \<union> (if used w then {w_id w} else {})"
proof -
  have n: "win (upd_win i (\<lambda>_. w) g) j = (if j = i then w else win g j)" if "j < MAX_WINDOWS" for j
    using upd_win_nth [OF assms(1) that assms(2)] .
  show ?thesis unfolding ids_def using n assms(2) by (auto; metis)
qed

lemma free_slot_ids: "\<not> used (win g i) \<Longrightarrow> {w_id (win g j) | j. j < MAX_WINDOWS \<and> used (win g j) \<and> j \<noteq> i} = ids g"
  by (auto simp: ids_def)

lemma insert_distinct: "distinct xs \<Longrightarrow> x \<notin> set xs \<Longrightarrow> distinct (take p xs @ [x] @ drop p xs)"
  using set_take_disj_set_drop_if_distinct [of xs p p] by (auto dest: in_set_takeD in_set_dropD)

lemma insert_set: "set (take p xs @ [x] @ drop p xs) = insert x (set xs)"
  by (metis append_take_drop_id set_append Un_insert_right append_Cons append_Nil list.simps(15))

text \<open>A fresh window in a free slot; the id counter must not wrap around to 0.\<close>

lemma fresh_slot:
  assumes "wm_inv g" and "i < MAX_WINDOWS" and "\<not> used (win g i)" and "w_id w = Wm.next_id g" and "wq.ok w" and "Wm.next_id g + 1 \<noteq> 0"
    and "g1 = (upd_win i (\<lambda>_. w) g)\<lparr>next_id := Wm.next_id g + 1, cascade := c\<rparr>"
  shows "used w \<Longrightarrow> wm_inv (z_insert (w_id w) fl g1) \<and> ids (z_insert (w_id w) fl g1) = insert (w_id w) (ids g)"
    and "\<not> used w \<Longrightarrow> wm_inv g1 \<and> ids g1 = ids g"
proof -
  note d = wm_invD [OF assms(1)]
  have n: "win g1 j = (if j = i then w else win g j)" if "j < MAX_WINDOWS" for j
    using upd_win_nth [OF d(1) that assms(2)] assms(7) by simp
  have new: "Wm.next_id g \<notin> ids g" using d(5) by blast
  have up: "Wm.next_id g < Wm.next_id g + 1" using assms(6) inc_less_eq_triv_imp [of "Wm.next_id g"] by (auto simp: not_le [symmetric])
  have gi: "ids g1 = ids g \<union> (if used w then {w_id w} else {})"
    using slot_replaced [OF d(1) assms(2), of w] free_slot_ids [OF assms(3)] by (simp add: assms(7) ids_def)
  have b: "0 < z \<and> z < Wm.next_id g1" if "z \<in> ids g \<or> z = Wm.next_id g" for z
    using that d(5) [of z] d(9) up assms(7) by auto
  have inj: "j = k" if "j < MAX_WINDOWS" "k < MAX_WINDOWS" "used (win g1 j)" "used (win g1 k)" "w_id (win g1 j) = w_id (win g1 k)" for j k
  proof -
    have "w_id (win g m) \<noteq> Wm.next_id g" if "m < MAX_WINDOWS" "used (win g m)" for m using new that by (auto simp: ids_def)
    note old = this
    show ?thesis
    proof (cases "j = i"; cases "k = i")
      assume c: "j = i" "k \<noteq> i"
      then have "win g1 j = w" "win g1 k = win g k" using n [OF that(1)] n [OF that(2)] by simp_all
      then show "j = k" using that(4,5) old [OF that(2)] assms(4) by metis
    next
      assume c: "j \<noteq> i" "k = i"
      then have "win g1 k = w" "win g1 j = win g j" using n [OF that(1)] n [OF that(2)] by simp_all
      then show "j = k" using that(3,5) old [OF that(1)] assms(4) by metis
    next
      assume c: "j \<noteq> i" "k \<noteq> i"
      then have "win g1 k = win g k" "win g1 j = win g j" using n [OF that(1)] n [OF that(2)] by simp_all
      then show "j = k" using that(3-5) d(4) [OF that(1,2)] by metis
    qed simp
  qed
  have f: "length (windows g1) = MAX_WINDOWS" "length (dirty g1) \<le> MAX_DIRTY" "z_order g1 = z_order g" "focus_id g1 = focus_id g"
    using d(1,2) assms(7) by simp_all
  have q: "\<forall>j < MAX_WINDOWS. wq.ok (win g1 j)" using n d(3) assms(5) by simp
  have nz: "0 < Wm.next_id g1" using up assms(7) by (auto intro: order_le_less_trans)
  {
    assume "\<not> used w"
    then show "wm_inv g1 \<and> ids g1 = ids g" using gi f q inj b d(6-8) nz unfolding wm_inv_def by auto
  next
    assume u: "used w"
    let ?g = "z_insert (w_id w) fl g1"
    obtain p where z: "z_order ?g = take p (z_order g) @ [Wm.next_id g] @ drop p (z_order g)" using f(3) assms(4) by (auto simp: z_insert_def Let_def)
    have s: "set (z_order ?g) = insert (Wm.next_id g) (ids g)" "distinct (z_order ?g)"
      unfolding z insert_set using d(7) insert_distinct [OF d(6)] new by auto
    have i: "ids ?g = ids g1" "windows ?g = windows g1" "dirty ?g = dirty g1" "focus_id ?g = focus_id g1" "Wm.next_id ?g = Wm.next_id g1"
      by (simp_all add: ids_def z_insert_def Let_def)
    show "wm_inv ?g \<and> ids ?g = insert (w_id w) (ids g)"
      unfolding wm_inv_def i using s gi u f(1,2,4) q inj b d(8) nz assms(4) by auto
  }
qed

lemma new_window_fields [simp]:
  "used (new_window slot own t fl xy z)" "w_id (new_window slot own t fl xy z) = z" "owner (new_window slot own t fl xy z) = own"
  by (simp_all add: new_window_def zero_window_def)

lemma new_window_ok: "wq.ok (new_window slot own t fl xy z)"
  by (simp add: wq.ok_def ring_ok_def new_window_def zero_window_def)

lemma wm_create_inv:
  assumes "wm_inv g" and "Wm.next_id g + 1 \<noteq> 0"
  shows "wm_inv (fst (snd (wm_create_window own w h t fl (g, v))))"
proof (cases "\<not> initialised g \<or> w \<le> 0 \<or> h \<le> 0 \<or> screen_w g < w \<or> screen_h g < h \<or> find (\<lambda>i. \<not> used (win g i)) [0..<MAX_WINDOWS] = None")
  case True
  then show ?thesis using assms(1) by (auto simp: wm_create_window_def)
next
  case False
  then obtain i where f: "find (\<lambda>i. \<not> used (win g i)) [0..<MAX_WINDOWS] = Some i" by blast
  then have i: "i < MAX_WINDOWS" "\<not> used (win g i)" by (auto simp: find_Some_iff)
  obtain xy c where p: "place_window w h fl g = (xy, c)" by fastforce
  define nw where "nw = new_window i own t fl xy (Wm.next_id g)"
  define g1 where "g1 = (upd_win i (\<lambda>_. nw) g)\<lparr>next_id := Wm.next_id g + 1, cascade := c\<rparr>"
  obtain r g2 v2 where a: "allocate_buffer i w h (g1, v) = (r, g2, v2)" by (metis prod_cases3)
  have e: "fst (snd (wm_create_window own w h t fl (g, v))) =
      (if r < 0 then upd_win i (\<lambda>w. w\<lparr>used := False\<rparr>) g2
       else let g3 = z_insert (Wm.next_id g) fl g2;
                g4 = (if fl AND (GUI_BOTTOM OR GUI_TOP) = 0 then set_focus (Wm.next_id g) g3 else g3)
            in damage_window (win g4 i) g4)"
    using False by (simp add: wm_create_window_def f p nw_def [symmetric] g1_def [symmetric] a Let_def)
  have l: "i < length (windows g)" using wm_invD(1) [OF assms(1)] i(1) by simp
  have m: "upd_win i h g1 = (upd_win i (\<lambda>_. h nw) g)\<lparr>next_id := Wm.next_id g + 1, cascade := c\<rparr>" for h
    using l by (simp add: g1_def upd_win_def)
  have ok: "wq.ok nw" "w_id nw = Wm.next_id g" "used nw" by (simp_all add: nw_def new_window_ok)
  from a show ?thesis
  proof (rule allocate_buffer_wm)
    assume r: "r < 0" "g2 = g1"
    have "wq.ok (nw\<lparr>used := False\<rparr>)" using ok(1) by (simp add: wq.ok_def)
    from fresh_slot(2) [OF assms(1) i _ this assms(2) m [of "\<lambda>w. w\<lparr>used := False\<rparr>"]] show ?thesis
      unfolding e using r ok(2) by simp
  next
    fix k
    assume r: "r = 0" "keeps_ids k" "g2 = upd_win i k g1"
    then have k: "wq.ok (k nw)" "w_id (k nw) = Wm.next_id g" "used (k nw)" using ok by (auto simp: keeps_ids_def)
    define g3 where "g3 = z_insert (Wm.next_id g) fl g2"
    have g3: "wm_inv g3" "ids g3 = insert (Wm.next_id g) (ids g)"
      using fresh_slot(1) [OF assms(1) i k(2,1) assms(2) m [of k] k(3), of fl] r(3) unfolding g3_def k(2) by blast+
    then have "wm_inv (if fl AND (GUI_BOTTOM OR GUI_TOP) = 0 then set_focus (Wm.next_id g) g3 else g3)"
      using set_focus_inv(1) [OF g3(1)] by auto
    then show ?thesis unfolding e using r(1) damage_inv(2) by (simp add: Let_def g3_def [symmetric])
  qed
qed

text \<open>Destroying a window; the focus may still name it.\<close>

lemma gone_slot:
  assumes "wm_inv g" and "i < MAX_WINDOWS" and "used (win g i)" and "z = w_id (win g i)"
    and "g1 = upd_win i (\<lambda>w. w\<lparr>used := False\<rparr>) (z_remove z g)"
  shows "ids g1 = ids g - {z}" and "focus_id g \<noteq> z \<Longrightarrow> wm_inv g1" and "wm_inv (g1\<lparr>focus_id := 0\<rparr>)"
proof -
  note d = wm_invD [OF assms(1)]
  have l: "length (windows (z_remove z g)) = MAX_WINDOWS" "windows (z_remove z g) = windows g" using d(1) by (simp_all add: z_remove_def)
  have n: "win g1 j = (if j = i then (win g i)\<lparr>used := False\<rparr> else win g j)" if "j < MAX_WINDOWS" for j
    using upd_win_nth [OF l(1) that assms(2)] assms(5) l(2) by simp
  have u: "used (win g1 j) \<longleftrightarrow> used (win g j) \<and> j \<noteq> i" "w_id (win g1 j) = w_id (win g j)" "wq.ok (win g1 j)" if "j < MAX_WINDOWS" for j
    using n [OF that] d(3) [OF that] by (auto simp: wq.ok_def)
  have ne: "w_id (win g j) \<noteq> z" if "j < MAX_WINDOWS" "used (win g j)" "j \<noteq> i" for j
    using d(4) [OF that(1) assms(2) that(2) assms(3)] that(3) assms(4) by blast
  show gi: "ids g1 = ids g - {z}"
  proof (intro set_eqI iffI)
    fix x assume "x \<in> ids g1"
    then obtain j where "j < MAX_WINDOWS" "used (win g1 j)" "x = w_id (win g1 j)" by (auto simp: ids_def)
    then show "x \<in> ids g - {z}" using u ne by (auto simp: ids_def)
  next
    fix x assume "x \<in> ids g - {z}"
    then obtain j where "j < MAX_WINDOWS" "used (win g j)" "x = w_id (win g j)" "x \<noteq> z" by (auto simp: ids_def)
    then have "j < MAX_WINDOWS \<and> used (win g1 j) \<and> w_id (win g1 j) = x" using u assms(4) by auto
    then show "x \<in> ids g1" unfolding ids_def by blast
  qed
  have f: "length (windows g1) = MAX_WINDOWS" "dirty g1 = dirty g" "z_order g1 = filter (\<lambda>x. x \<noteq> z) (z_order g)"
    "focus_id g1 = focus_id g" "Wm.next_id g1 = Wm.next_id g"
    using d(1) by (simp_all add: assms(5) z_remove_def)
  have inj: "\<forall>j < MAX_WINDOWS. \<forall>k < MAX_WINDOWS. used (win g1 j) \<longrightarrow> used (win g1 k) \<longrightarrow> w_id (win g1 j) = w_id (win g1 k) \<longrightarrow> j = k"
    using u d(4) by metis
  have zo: "distinct (z_order g1)" "set (z_order g1) = ids g - {z}" using d(6,7) f(3) by auto
  have idz: "\<forall>x \<in> ids g - {z}. 0 < x \<and> x < Wm.next_id g" using d(5) by blast
  show "wm_inv g1" if "focus_id g \<noteq> z"
    unfolding wm_inv_def gi using f inj zo idz u(3) d(2,8,9) that by auto
  have i0: "ids (g1\<lparr>focus_id := 0\<rparr>) = ids g - {z}" using gi by (simp add: ids_def)
  show "wm_inv (g1\<lparr>focus_id := 0\<rparr>)"
    unfolding wm_inv_def i0 using f inj zo idz u(3) d(2,9) by simp
qed

lemma refocus_inv: "wm_inv g \<Longrightarrow> wm_inv (refocus zs g) \<and> ids (refocus zs g) = ids g"
proof (induction zs)
  case (Cons z zs)
  show ?case
  proof (cases "find_window z g")
    case (Some i)
    then have "w_id (win g i) \<in> ids g" using find_windowD by blast
    then show ?thesis using Cons Some set_focus_inv [OF Cons.prems, of "w_id (win g i)"] by simp
  qed (use Cons in simp)
qed simp

lemma destroy_inv:
  assumes "wm_inv g"
  shows "wm_inv (fst (snd (wm_destroy_window own z (g, v))))"
proof (cases "find_window z g")
  case None
  then show ?thesis using assms by (simp add: wm_destroy_window_def)
next
  case (Some i)
  have i: "i < MAX_WINDOWS" "used (win g i)" "w_id (win g i) = z" using find_windowD [OF Some] by auto
  obtain g1 v1 where r: "release_buffer i (damage_window (win g i) g, v) = (g1, v1)" by fastforce
  note g1 = release_buffer_inv [OF damage_inv(2) [OF assms] i(1) r]
  have id1: "w_id (win g1 i) = z"
    using r i wm_invD(1) [OF assms] by (auto simp: release_buffer_def Let_def upd_win_def split: if_splits)
  define g2 where "g2 = upd_win i (\<lambda>w. w\<lparr>used := False\<rparr>) (z_remove z g1)"
  have u1: "used (win g1 i)" using g1(3) i(2) by simp
  have "wm_inv (if focus_id g2 = z then refocus (rev (z_order g2)) (g2\<lparr>focus_id := 0\<rparr>) else g2)"
    using gone_slot(2,3) [OF g1(1) i(1) u1 id1 [symmetric] g2_def] refocus_inv
    by (simp add: g2_def z_remove_def)
  then show ?thesis
    unfolding wm_destroy_window_def prod.case Some option.case r Let_def g2_def [symmetric] using assms by simp
qed

lemma close_inv: "wm_inv g \<Longrightarrow> wm_inv (fst (wm_close_process_windows own (g, v)))"
proof -
  have "wm_inv (fst (fold (close_slot own) is gv))" if "wm_inv (fst gv)" for "is" gv
    using that
  proof (induction "is" arbitrary: gv)
    case (Cons i "is")
    obtain g v where gv: "gv = (g, v)" by fastforce
    have "wm_inv (fst (close_slot own i gv))" using Cons.prems destroy_inv gv by (auto simp: close_slot_def)
    then show ?case using Cons.IH by simp
  qed simp
  then show "wm_inv g \<Longrightarrow> wm_inv (fst (wm_close_process_windows own (g, v)))" by (simp add: wm_close_process_windows_def)
qed

section \<open>The other calls\<close>

lemma find_ownedD: "find_owned own z g = Some i \<Longrightarrow> i < MAX_WINDOWS \<and> used (win g i) \<and> w_id (win g i) = z \<and> owner (win g i) = own \<and> z \<in> ids g"
  using find_windowD by (fastforce simp: find_owned_def split: option.splits if_splits)

lemma damaged_upd_inv:
  assumes "wm_inv g" and "keeps_ids f" and "i < MAX_WINDOWS"
  shows "wm_inv (damage_window w (upd_win i f g))"
  using damage_inv(2) upd_inv(1) [OF assms] by blast

lemma calls_inv:
  assumes "wm_inv g"
  shows "wm_inv (snd (wm_invalidate own z x y w h g))" "wm_inv (snd (snd (wm_poll_event own z g)))"
    "wm_inv (snd (wm_set_title own z t g))" "wm_inv (snd (wm_move_window own z x y g))"
    "wm_inv (snd (wm_activate z g))" "wm_inv (snd (wm_set_flags own z fl g))"
proof -
  have f: "keeps_ids (\<lambda>w. w\<lparr>title := snd (strlcpy (title w) t GUI_MAX_TITLE)\<rparr>)" "keeps_ids (\<lambda>w. w\<lparr>wx := x, wy := y\<rparr>)"
    "keeps_ids (\<lambda>w. w\<lparr>wflags := fl\<rparr>)" "keeps_ids (\<lambda>w. w\<lparr>wstate := st\<rparr>)" for st
    by (rule field_keeps; simp)+
  show "wm_inv (snd (wm_invalidate own z x y w h g))"
    using assms damage_inv(1) by (auto simp: wm_invalidate_def Let_def split: option.split)
  show "wm_inv (snd (wm_set_title own z t g))"
    using assms damaged_upd_inv [OF assms f(1)] find_ownedD by (auto simp: wm_set_title_def Let_def split: option.split)
  show "wm_inv (snd (wm_move_window own z x y g))"
    using assms damaged_upd_inv [OF damage_inv(2) [OF assms] f(2)] find_ownedD
    by (auto simp: wm_move_window_def Let_def split: option.split)
  show "wm_inv (snd (wm_set_flags own z fl g))"
  proof (cases "find_owned own z g")
    case (Some i)
    then have i: "i < MAX_WINDOWS" "z \<in> ids g" using find_ownedD by blast+
    note u = upd_inv [OF assms f(3) i(1)]
    have zu: "z \<in> ids (upd_win i (\<lambda>w. w\<lparr>wflags := fl\<rparr>) g)" using u(2) i(2) by simp
    note r = z_restack(1) [OF u(1) zu, of fl]
    show ?thesis unfolding wm_set_flags_def Some option.case snd_conv
      by (rule wm_inv_cong(1) [OF r]) (use wm_invD(2) [OF r] in simp_all)
  qed (use assms in \<open>simp add: wm_set_flags_def\<close>)
  show "wm_inv (snd (snd (wm_poll_event own z g)))"
  proof (cases "find_owned own z g")
    case (Some i)
    then have i: "i < MAX_WINDOWS" using find_ownedD by blast
    have k: "keeps_ids (\<lambda>w. snd (pop_event w))"
      by (auto simp: keeps_ids_def pop_event_def wq.ok_def ring_ok_def WM_EVENT_QUEUE_def unat_mod)
    have "upd_win i (\<lambda>_. snd (pop_event (win g i))) g = upd_win i (\<lambda>w. snd (pop_event w)) g" by (simp add: upd_win_def)
    then show ?thesis using upd_inv(1) [OF assms k i] assms Some by (auto simp: wm_poll_event_def split: prod.split option.split)
  qed (use assms in \<open>simp add: wm_poll_event_def\<close>)
  show "wm_inv (snd (wm_activate z g))"
  proof (cases "find_window z g")
    case (Some i)
    have i: "i < MAX_WINDOWS" "used (win g i)" "z \<in> ids g" using find_windowD [OF Some] by auto
    define g1 where "g1 = (if wstate (win g i) = GUI_STATE_MINIMIZED then upd_win i (\<lambda>w. w\<lparr>wstate := GUI_STATE_NORMAL\<rparr>) g else g)"
    have g1: "wm_inv g1" "ids g1 = ids g" using upd_inv [OF assms f(4) i(1)] assms by (simp_all add: g1_def)
    have "used (win g1 i)" using i wm_invD(1) [OF assms] by (simp add: g1_def upd_win_def)
    note r = raise_inv [OF g1(1) i(1) this]
    then show ?thesis using set_focus_inv(1) [OF r(1), of z] r(2) g1(2) i(3) by (simp add: wm_activate_def Some Let_def flip: g1_def)
  qed (use assms in \<open>simp add: wm_activate_def\<close>)
qed

section \<open>Closing the windows of a process\<close>

text \<open>What a process relies on in a slot: whether it is used, its id and owner and its buffer.\<close>

definition slot_view :: "window \<Rightarrow> bool \<times> u32 \<times> nat \<times> u32 \<times> u32 \<times> u32" where
  "slot_view w = (used w, w_id w, owner w, user_address w, buffer_phys w, buffer_pages w)"

definition views :: "wm \<Rightarrow> (bool \<times> u32 \<times> nat \<times> u32 \<times> u32 \<times> u32) list" where
  "views g = map slot_view (windows g)"

lemma views_upd: "(\<And>w. slot_view (f w) = slot_view w) \<Longrightarrow> views (upd_win i f g) = views g"
  by (cases "i < length (windows g)") (simp_all add: views_def upd_win_def map_update list_update_same_conv list_update_beyond)

lemma views_simps [simp]: "views (damage_window w g) = views g" "views (g\<lparr>focus_id := z\<rparr>) = views g" "views (z_remove z g) = views g"
  by (simp_all add: views_def z_remove_def)

lemma slot_view_send [simp]: "slot_view (send_simple t w) = slot_view w"
  by (simp add: slot_view_def send_simple_def)

lemma views_focus [simp]: "views (notify t z g) = views g" "views (set_focus z g) = views g"
  by (auto simp: notify_def set_focus_def views_upd split: option.split)

lemma views_refocus [simp]: "views (refocus zs g) = views g"
  by (induction zs) (auto split: option.split)

definition closed_window :: "window \<Rightarrow> window" where
  "closed_window w = (if buffer_phys w = 0 then w else w\<lparr>buffer_phys := 0, buffer_pages := 0\<rparr>)\<lparr>used := False\<rparr>"

lemma destroy_views:
  assumes "wm_inv g" and "find_window z g = Some i" and "own = None \<or> own = Some (owner (win g i))"
  shows "views (fst (snd (wm_destroy_window own z (g, v)))) = (views g)[i := slot_view (closed_window (win g i))]"
proof -
  have i: "i < length (windows g)" using find_windowD [OF assms(2)] wm_invD(1) [OF assms(1)] by simp
  obtain g1 v1 where r: "release_buffer i (damage_window (win g i) g, v) = (g1, v1)" by fastforce
  define g2 where "g2 = upd_win i (\<lambda>w. w\<lparr>used := False\<rparr>) (z_remove z g1)"
  have w: "(win g1 i)\<lparr>used := False\<rparr> = closed_window (win g i)" "\<forall>j. j \<noteq> i \<longrightarrow> win g1 j = win g j" "length (windows g1) = length (windows g)"
    using r i by (auto simp: release_buffer_def Let_def upd_win_def closed_window_def split: if_splits)
  have "views g2 = (views g)[i := slot_view (closed_window (win g i))]"
    using i w by (intro nth_equalityI) (auto simp: views_def g2_def upd_win_def z_remove_def nth_list_update)
  then show ?thesis
    using assms(3) unfolding wm_destroy_window_def prod.case assms(2) option.case r Let_def g2_def [symmetric] by auto
qed

lemma view_nth: "i < length (windows g) \<Longrightarrow> views g ! i = slot_view (win g i)" "length (views g) = length (windows g)"
  by (simp_all add: views_def)

lemma find_own_id:
  assumes "wm_inv g" and "i < MAX_WINDOWS" and "used (win g i)"
  shows "find_window (w_id (win g i)) g = Some i"
proof -
  have "w_id (win g i) \<in> ids g" using assms(2,3) by (auto simp: ids_def)
  then obtain j where j: "find_window (w_id (win g i)) g = Some j" using find_window_none by fastforce
  then show ?thesis using find_windowD [OF j] wm_invD(4) [OF assms(1) _ assms(2) _ assms(3)] by simp
qed

lemma close_slot_views:
  assumes "wm_inv g" and "i < MAX_WINDOWS" and "j < MAX_WINDOWS" and "close_slot own i (g, v) = (g', v')"
  shows "wm_inv g' \<and> (if j = i \<and> used (win g i) \<and> owner (win g i) = own then \<not> used (win g' j) else slot_view (win g' j) = slot_view (win g j))"
proof -
  have inv: "wm_inv g'" using destroy_inv [OF assms(1)] assms by (auto simp: close_slot_def split: if_splits) (metis fst_conv snd_conv)
  have n: "views g ! j = slot_view (win g j)" "views g' ! j = slot_view (win g' j)" "j < length (views g)"
    using wm_invD(1) assms(1,3) inv by (simp_all add: view_nth)
  show ?thesis
  proof (cases "used (win g i) \<and> owner (win g i) = own")
    case True
    have e: "g' = fst (snd (wm_destroy_window (Some own) (w_id (win g i)) (g, v)))" using assms(4) True by (simp add: close_slot_def)
    have ve: "views g' = (views g)[i := slot_view (closed_window (win g i))]"
      unfolding e by (rule destroy_views [OF assms(1) find_own_id [OF assms(1,2)]]) (use True in simp_all)
    have "slot_view (win g' j) = (if j = i then slot_view (closed_window (win g i)) else slot_view (win g j))"
      unfolding n(2) [symmetric] ve using n(1,3) by (simp add: nth_list_update)
    then show ?thesis using inv True by (auto simp: slot_view_def closed_window_def split: if_splits)
  next
    case False
    then have "g' = g" using assms(4) by (auto simp: close_slot_def)
    then show ?thesis using assms(1) False by auto
  qed
qed

lemma close_slots:
  assumes "wm_inv g" and "\<forall>i \<in> set is. i < MAX_WINDOWS" and "j < MAX_WINDOWS" and "distinct is"
  shows "fold (close_slot own) is (g, v) = (g', v') \<Longrightarrow> wm_inv g' \<and>
    (if j \<in> set is \<and> used (win g j) \<and> owner (win g j) = own then \<not> used (win g' j) else slot_view (win g' j) = slot_view (win g j))"
  using assms
proof (induction "is" arbitrary: g v)
  case (Cons i "is")
  obtain g1 v1 where s: "close_slot own i (g, v) = (g1, v1)" by fastforce
  have c: "wm_inv g1 \<and> (if j = i \<and> used (win g i) \<and> owner (win g i) = own then \<not> used (win g1 j) else slot_view (win g1 j) = slot_view (win g j))"
    by (rule close_slot_views [OF Cons.prems(2) _ Cons.prems(4) s]) (use Cons.prems(3) in simp)
  have r: "wm_inv g' \<and> (if j \<in> set is \<and> used (win g1 j) \<and> owner (win g1 j) = own then \<not> used (win g' j) else slot_view (win g' j) = slot_view (win g1 j))"
    using Cons.IH [of g1 v1] Cons.prems s c by simp
  show ?case
  proof (cases "j = i")
    case True
    then have "j \<notin> set is" using Cons.prems(5) by simp
    then show ?thesis using r c True by (auto simp: slot_view_def)
  next
    case False
    then have "slot_view (win g1 j) = slot_view (win g j)" using c by simp
    then show ?thesis using r False by (auto simp: slot_view_def split: if_splits)
  qed
qed simp

lemma close_spec:
  assumes "wm_inv g" and "j < MAX_WINDOWS" and "wm_close_process_windows own (g, v) = (g', v')"
  shows "if used (win g j) \<and> owner (win g j) = own then \<not> used (win g' j) else slot_view (win g' j) = slot_view (win g j)"
  using close_slots [of g "[0..<MAX_WINDOWS]" j own v g' v'] assms by (simp add: wm_close_process_windows_def)

text \<open>
  when a process is reaped, \<^verbatim>\<open>wm_close_process_windows\<close> destroys every window it owns and no other: no slot still names
  the dead process as its owner, and every window of another process keeps its id, its owner and its pixel buffer.
\<close>

lemma process_windows_closed:
  assumes "wm_inv g" and "wm_close_process_windows own (g, v) = (g', v')"
  shows "wm_inv g' \<and> (\<forall>i < MAX_WINDOWS. (used (win g' i) \<longrightarrow> owner (win g' i) \<noteq> own) \<and>
    (used (win g i) \<longrightarrow> owner (win g i) \<noteq> own \<longrightarrow> slot_view (win g' i) = slot_view (win g i)))"
proof (intro conjI allI impI)
  show "wm_inv g'" using close_inv [OF assms(1), of own v] assms(2) by simp
  fix i
  assume i: "i < MAX_WINDOWS"
  note c = close_spec [OF assms(1) i assms(2)]
  show "owner (win g' i) \<noteq> own" if "used (win g' i)" using c that by (auto simp: slot_view_def split: if_splits)
  show "slot_view (win g' i) = slot_view (win g i)" if "used (win g i)" "owner (win g i) \<noteq> own" using c that by simp
qed

definition two_windows :: wm where
  "two_windows = empty_wm\<lparr>windows := (replicate MAX_WINDOWS zero_window)[0 := zero_window\<lparr>used := True, w_id := 1, owner := 1\<rparr>, 1 := zero_window\<lparr>used := True, w_id := 2, owner := 2\<rparr>],
     z_order := [1, 2], next_id := 3, focus_id := 2\<rparr>"

lemma two_windows_inv: "wm_inv two_windows"
proof -
  have n: "win two_windows i = (if i = 0 then zero_window\<lparr>used := True, w_id := 1, owner := 1\<rparr>
      else if i = 1 then zero_window\<lparr>used := True, w_id := 2, owner := 2\<rparr> else zero_window)" if "i < MAX_WINDOWS" for i
    using that by (auto simp: two_windows_def nth_list_update)
  have z: "\<not> used zero_window" "wq.ok zero_window" by (simp_all add: zero_window_def wq.ok_def ring_ok_def)
  have i: "ids two_windows = {1, 2}"
  proof (intro set_eqI iffI)
    fix x assume "x \<in> ids two_windows"
    then show "x \<in> {1, 2}" using n z by (auto simp: ids_def split: if_splits)
  next
    fix x :: u32 assume "x \<in> {1, 2}"
    moreover have "(0 :: nat) < MAX_WINDOWS" "(1 :: nat) < MAX_WINDOWS" by (simp_all add: MAX_WINDOWS_def)
    ultimately show "x \<in> ids two_windows" using n [of 0] n [of 1] unfolding ids_def
      by (auto intro: exI [of _ "0 :: nat"] exI [of _ "1 :: nat"])
  qed
  show ?thesis
    unfolding wm_inv_def i using n z
    by (auto simp: wq.ok_def ring_ok_def) (auto simp: two_windows_def empty_wm_def)
qed

section \<open>Every run of the server\<close>

lemma cursor_inv:
  assumes "wm_inv g"
  shows "wm_inv (g\<lparr>wm_cursor_x := x, wm_cursor_y := y\<rparr>)" "wm_inv (cursor_damage g)"
proof -
  show "wm_inv (g\<lparr>wm_cursor_x := x, wm_cursor_y := y\<rparr>)"
    using wm_inv_cong(1) [OF assms, of "g\<lparr>wm_cursor_x := x, wm_cursor_y := y\<rparr>"] wm_invD(2) [OF assms] by simp
  have d: "wm_inv (wm_damage_rect a b c e (wm_damage_rect k l m n g))" for a b c e k l m n
    using damage_inv(1) damage_inv(1) [OF assms] by blast
  have "wm_inv (h\<lparr>last_cursor_x := a, last_cursor_y := b\<rparr>)" if "wm_inv h" for h a b
    using wm_inv_cong(1) [OF that, of "h\<lparr>last_cursor_x := a, last_cursor_y := b\<rparr>"] wm_invD(2) [OF that] by simp
  then show "wm_inv (cursor_damage g)" using assms d by (simp add: cursor_damage_def)
qed

lemma handle_event_inv:
  assumes "wm_inv g"
  shows "wm_inv (fst (handle_event e (g, v)))"
proof -
  note c = cursor_inv(1) [OF assms, where x = "ie_x e" and y = "ie_y e"]
  have u: "wm_inv (upd_win i f g)" if "keeps_ids f" "i < MAX_WINDOWS" for f i using upd_inv(1) [OF assms that] .
  show ?thesis
  proof (cases "ie_kind e")
    case INPUT_MOUSE_WHEEL
    then show ?thesis using assms u [OF queue_keeps(3)] window_at_used
      by (auto simp: handle_event_def Let_def split: option.split)
  next
    case INPUT_KEY
    then show ?thesis using assms u [OF queue_keeps(1)] find_windowD
      by (auto simp: handle_event_def Let_def split: option.split)
  qed (use assms mouse_move_inv [OF c] mouse_down_inv [OF c] mouse_up_inv [OF c] in \<open>auto simp: handle_event_def Let_def\<close>)
qed

lemma handle_input_inv: "wm_inv (fst gv) \<Longrightarrow> wm_inv (fst (snd (handle_input n m gv)))"
proof (induction n m gv rule: handle_input.induct)
  case (2 n m gv)
  obtain g v where gv: "gv = (g, v)" by fastforce
  show ?case
  proof (cases "fst (input_poll m)")
    case None
    then show ?thesis using 2 by (auto split: prod.split)
  next
    case (Some e)
    then obtain m1 where p: "input_poll m = (Some e, m1)" by (metis prod.collapse)
    then show ?thesis using 2(1) [OF p [symmetric] refl] handle_event_inv [of g e v] 2(2) gv by simp
  qed
qed simp

lemma round_inv:
  assumes "wm_inv g" and "compositor_round font st m (g, v) sf = Some (m', (g', v'), sf')"
  shows "wm_inv g'"
proof -
  obtain m1 g1 v1 where h: "handle_input 128 m (g, v) = (m1, g1, v1)" by (metis prod_cases3)
  have "wm_inv g1" using handle_input_inv [of "(g, v)" 128 m] assms(1) h by simp
  then have c: "wm_inv (cursor_damage g1)" by (rule cursor_inv(2))
  have "wm_inv ((cursor_damage g1)\<lparr>dirty := [], dirty_all := False\<rparr>)" by (rule wm_inv_cong(1) [OF c]) simp_all
  then show ?thesis using assms(2) h c by (auto simp: compositor_round_def Let_def compose_def split: if_splits)
qed

text \<open>
  The calls of the process with slot \<open>own\<close> and the rounds of the compositor thread.  A window may be created while the
  counter of ids has not wrapped around to 0.
\<close>

inductive wm_step :: "wm \<times> vm \<Rightarrow> wm \<times> vm \<Rightarrow> bool" where
  Create: "Wm.next_id g + 1 \<noteq> 0 \<Longrightarrow> wm_step (g, v) (snd (wm_create_window own w h t fl (g, v)))"
| Destroy: "wm_step (g, v) (snd (wm_destroy_window (Some own) z (g, v)))"
| Invalidate: "wm_step (g, v) (snd (wm_invalidate own z x y w h g), v)"
| Poll: "wm_step (g, v) (snd (snd (wm_poll_event own z g)), v)"
| Title: "wm_step (g, v) (snd (wm_set_title own z t' g), v)"
| Move: "wm_step (g, v) (snd (wm_move_window own z x y g), v)"
| Resize: "wm_step (g, v) (snd (wm_resize_window own z w h (g, v)))"
| Activate: "wm_step (g, v) (snd (wm_activate z g), v)"
| Minimize: "wm_step (g, v) (snd (wm_minimize z g), v)"
| Flags: "wm_step (g, v) (snd (wm_set_flags own z fl g), v)"
| Reap: "wm_step (g, v) (wm_close_process_windows own (g, v))"
| Round: "compositor_round font st m (g, v) sf = Some (m', gv', sf') \<Longrightarrow> wm_step (g, v) gv'"
| Memory: "wm_step (g, v) (g, v')"

inductive wm_reach :: "wm \<times> vm \<Rightarrow> wm \<times> vm \<Rightarrow> bool" for gv0 where
  Start: "wm_reach gv0 gv0"
| Step: "wm_reach gv0 gv \<Longrightarrow> wm_step gv gv' \<Longrightarrow> wm_reach gv0 gv'"

lemma wm_step_inv:
  assumes "wm_step gv gv'" and "wm_inv (fst gv)"
  shows "wm_inv (fst gv')"
  using assms
proof cases
  case (Round font st m g v sf m' sf')
  then show ?thesis using round_inv [of g font st m v sf m' "fst gv'" "snd gv'" sf'] assms(2) by simp
qed (use assms(2) wm_create_inv destroy_inv calls_inv resize_inv minimize_inv close_inv in auto)

definition boot_wm :: "int \<Rightarrow> int \<Rightarrow> wm" where
  "boot_wm sw sh = empty_wm\<lparr>initialised := False, wm_cursor_x := 0, wm_cursor_y := 0, last_cursor_x := 0, last_cursor_y := 0,
     screen_w := sw, screen_h := sh\<rparr>"

lemma wm_init_inv: "wm_inv (snd (wm_init True (boot_wm sw sh)))"
proof -
  have n: "\<not> used zero_window" "wq.ok zero_window" by (simp_all add: zero_window_def wq.ok_def ring_ok_def)
  have w: "windows (snd (wm_init True (boot_wm sw sh))) = replicate MAX_WINDOWS zero_window" by (simp add: wm_init_def)
  then have i: "ids (snd (wm_init True (boot_wm sw sh))) = {}" using n by (auto simp: ids_def)
  show ?thesis unfolding wm_inv_def i w using n by (simp add: wm_init_def boot_wm_def empty_wm_def)
qed



end
