(* ===== verification/Ata.thy ===== *)
theory Ata
  imports KString
begin

text \<open>
  The disk driver \<^verbatim>\<open>kernel/dev/ata.c\<close>: polled transfers of whole sectors.  The drive itself is a parameter of the state: the bytes of its
  medium, the values the status register shows on its successive reads, and the identification words.  The medium is
  addressed by byte; a sector has 512 of them.  The lemmas show what a transfer of a few sectors does
  when no wait of the driver fails.
\<close>

unbundle bit_operations_syntax

section \<open>Drive and driver\<close>

definition SECTOR_SIZE :: nat where "SECTOR_SIZE = 512"
definition STATUS_ERR :: u8 where "STATUS_ERR = 0x01"
definition STATUS_DRQ :: u8 where "STATUS_DRQ = 0x08"
definition STATUS_DF :: u8 where "STATUS_DF = 0x20"
definition STATUS_READY :: u8 where "STATUS_READY = 0x40"
definition STATUS_BUSY :: u8 where "STATUS_BUSY = 0x80"

record drive =
  present :: bool
  model :: cstr
  sectors :: u32
  medium :: "nat \<Rightarrow> u8"
  status :: "nat \<Rightarrow> u8"
  status_reads :: nat
  identify :: "u16 list"
  reg_drive :: u8
  reg_count :: u8
  reg_low :: u8
  reg_mid :: u8
  reg_high :: u8

text \<open>\<^verbatim>\<open>inb(ATA_STATUS)\<close>\<close>

definition inb_status :: "drive \<Rightarrow> u8 \<times> drive" where
  "inb_status d = (status d (status_reads d), d\<lparr>status_reads := Suc (status_reads d)\<rparr>)"

fun wait_ready_loop :: "nat \<Rightarrow> drive \<Rightarrow> int \<times> drive" where
  "wait_ready_loop 0 d = (- 1, d)"
| "wait_ready_loop (Suc k) d =
     (case inb_status d of (st, d1) \<Rightarrow>
        if st AND STATUS_BUSY \<noteq> 0 then wait_ready_loop k d1
        else if st AND (STATUS_ERR OR STATUS_DF) \<noteq> 0 then (- 1, d1)
        else if st AND STATUS_DRQ \<noteq> 0 then (0, d1)
        else if st AND STATUS_READY \<noteq> 0 then (0, d1)
        else wait_ready_loop k d1)"

definition wait_ready :: "drive \<Rightarrow> int \<times> drive" where
  "wait_ready d = wait_ready_loop 4000000 d"

fun wait_drq_loop :: "nat \<Rightarrow> drive \<Rightarrow> int \<times> drive" where
  "wait_drq_loop 0 d = (- 1, d)"
| "wait_drq_loop (Suc k) d =
     (case inb_status d of (st, d1) \<Rightarrow>
        if st AND (STATUS_ERR OR STATUS_DF) \<noteq> 0 then (- 1, d1)
        else if st AND STATUS_BUSY = 0 \<and> st AND STATUS_DRQ \<noteq> 0 then (0, d1)
        else wait_drq_loop k d1)"

definition wait_drq :: "drive \<Rightarrow> int \<times> drive" where
  "wait_drq d = wait_drq_loop 4000000 d"

definition select_lba :: "u32 \<Rightarrow> u8 \<Rightarrow> drive \<Rightarrow> drive" where
  "select_lba lba cnt d =
     d\<lparr>reg_drive := ucast (0xE0 OR (drop_bit 24 lba AND 0x0F)), reg_count := cnt, reg_low := ucast (lba AND 0xFF),
       reg_mid := ucast (drop_bit 8 lba AND 0xFF), reg_high := ucast (drop_bit 16 lba AND 0xFF)\<rparr>"

text \<open>The sector a command starts at, as the drive reads it from its registers.\<close>

definition lba28 :: "drive \<Rightarrow> nat" where
  "lba28 d = unat (reg_drive d AND 0x0F) * 2 ^ 24 + unat (reg_high d) * 2 ^ 16 + unat (reg_mid d) * 2 ^ 8 + unat (reg_low d)"

definition medium_bytes :: "drive \<Rightarrow> nat \<Rightarrow> nat \<Rightarrow> u8 list" where
  "medium_bytes d a n = map (\<lambda>i. medium d (a + i)) [0..<n]"

definition store_bytes :: "nat \<Rightarrow> u8 list \<Rightarrow> drive \<Rightarrow> drive" where
  "store_bytes a bs d = d\<lparr>medium := (\<lambda>i. if a \<le> i \<and> i < a + length bs then bs ! (i - a) else medium d i)\<rparr>"

text \<open>The sectors of one command; the bytes are what has been stored in the buffer when the loop ends.\<close>

fun read_sectors :: "nat \<Rightarrow> nat \<Rightarrow> drive \<Rightarrow> (int \<times> u8 list) \<times> drive" where
  "read_sectors 0 a d = ((0, []), d)"
| "read_sectors (Suc k) a d =
     (case wait_drq d of (r, d1) \<Rightarrow>
        if r < 0 then ((- 1, []), d1)
        else case read_sectors k (a + SECTOR_SIZE) d1 of ((r2, bs), d2) \<Rightarrow> ((r2, medium_bytes d1 a SECTOR_SIZE @ bs), d2))"

fun write_sectors :: "nat \<Rightarrow> nat \<Rightarrow> u8 list \<Rightarrow> drive \<Rightarrow> int \<times> drive" where
  "write_sectors 0 a bs d = (0, d)"
| "write_sectors (Suc k) a bs d =
     (case wait_drq d of (r, d1) \<Rightarrow>
        if r < 0 then (- 1, d1)
        else write_sectors k (a + SECTOR_SIZE) (drop SECTOR_SIZE bs) (store_bytes a (take SECTOR_SIZE bs) d1))"

function ata_read_loop :: "u32 \<Rightarrow> nat \<Rightarrow> drive \<Rightarrow> (int \<times> u8 list) \<times> drive" where
  "ata_read_loop lba cnt d =
     (if cnt = 0 then ((0, []), d)
      else
        let chunk = (if 255 < cnt then 255 else cnt)
        in case wait_ready d of (r, d1) \<Rightarrow>
             if r < 0 then ((- 1, []), d1)
             else
               let d2 = select_lba lba (of_nat chunk) d1
               in case read_sectors chunk (lba28 d2 * SECTOR_SIZE) d2 of ((r3, bs), d3) \<Rightarrow>
                    if r3 < 0 then ((- 1, bs), d3)
                    else case ata_read_loop (lba + of_nat chunk) (cnt - chunk) d3 of ((r4, bs4), d4) \<Rightarrow> ((r4, bs @ bs4), d4))"
  by pat_completeness auto
termination
  by (relation "measure (\<lambda>(lba, cnt, d). cnt)") auto

declare ata_read_loop.simps [simp del]

definition ata_read_sectors :: "u32 \<Rightarrow> u32 \<Rightarrow> drive \<Rightarrow> (int \<times> u8 list) \<times> drive" where
  "ata_read_sectors lba cnt d = (if \<not> present d \<or> cnt = 0 then ((- 1, []), d) else ata_read_loop lba (unat cnt) d)"

function ata_write_loop :: "u32 \<Rightarrow> nat \<Rightarrow> u8 list \<Rightarrow> drive \<Rightarrow> int \<times> drive" where
  "ata_write_loop lba cnt bs d =
     (if cnt = 0 then (0, d)
      else
        let chunk = (if 255 < cnt then 255 else cnt)
        in case wait_ready d of (r, d1) \<Rightarrow>
             if r < 0 then (- 1, d1)
             else
               let d2 = select_lba lba (of_nat chunk) d1
               in case write_sectors chunk (lba28 d2 * SECTOR_SIZE) bs d2 of (r3, d3) \<Rightarrow>
                    if r3 < 0 then (- 1, d3)
                    else case wait_ready d3 of (r4, d4) \<Rightarrow>
                      if r4 < 0 then (- 1, d4)
                      else case wait_ready d4 of (r5, d5) \<Rightarrow>
                        if r5 < 0 then (- 1, d5)
                        else ata_write_loop (lba + of_nat chunk) (cnt - chunk) (drop (chunk * SECTOR_SIZE) bs) d5)"
  by pat_completeness auto
termination
  by (relation "measure (\<lambda>(lba, cnt, bs, d). cnt)") auto

declare ata_write_loop.simps [simp del]

definition ata_write_sectors :: "u32 \<Rightarrow> u32 \<Rightarrow> u8 list \<Rightarrow> drive \<Rightarrow> int \<times> drive" where
  "ata_write_sectors lba cnt bs d = (if \<not> present d \<or> cnt = 0 then (- 1, d) else ata_write_loop lba (unat cnt) bs d)"

definition ata_model :: "drive \<Rightarrow> cstr" where
  "ata_model d = (if present d then model d else [110, 111, 110, 101])"

text \<open>The model string is stored with the bytes of each word swapped; trailing blanks and zeros are cleared.\<close>

definition swapped_model :: "u16 list \<Rightarrow> u8 list" where
  "swapped_model ws = concat (map (\<lambda>i. [ucast (drop_bit 8 (ws ! (27 + i))), ucast (ws ! (27 + i) AND 0xFF)]) [0..<20])"

definition trim_model :: "u8 list \<Rightarrow> u8 list" where
  "trim_model cs =
     (let kept = rev (dropWhile (\<lambda>c. c = 32 \<or> c = 0) (rev cs))
      in kept @ replicate (length cs - length kept) 0 @ [0])"

definition ata_init :: "drive \<Rightarrow> int \<times> drive" where
  "ata_init d0 =
     (let d = d0\<lparr>reg_drive := 0xA0, reg_count := 0, reg_low := 0, reg_mid := 0, reg_high := 0\<rparr>
      in case inb_status d of (st, d1) \<Rightarrow>
           if st = 0 then (- 1, d1)
           else case wait_drq d1 of (r, d2) \<Rightarrow>
             if r < 0 then (- 1, d2)
             else (0, d2\<lparr>model := trim_model (swapped_model (identify d2)),
                         sectors := push_bit 16 (ucast (identify d2 ! 61)) OR ucast (identify d2 ! 60), present := True\<rparr>))"

section \<open>Transfers without errors\<close>

text \<open>
  A drive that answers: it is there, never shows an error, and from every moment on it shows within the driver's patience that it is not
  busy and ready to move data.
\<close>

definition answers :: "drive \<Rightarrow> bool" where
  "answers d \<longleftrightarrow> present d \<and> (\<forall>k \<ge> status_reads d. status d k AND (STATUS_ERR OR STATUS_DF) = 0 \<and>
     (\<exists>j < 4000000. status d (k + j) AND STATUS_BUSY = 0 \<and> status d (k + j) AND STATUS_DRQ \<noteq> 0))"

lemma wait_ready_loop_ok:
  assumes "\<forall>k \<ge> status_reads d. status d k AND (STATUS_ERR OR STATUS_DF) = 0"
    and "\<exists>j < n. status d (status_reads d + j) AND STATUS_BUSY = 0 \<and> status d (status_reads d + j) AND STATUS_DRQ \<noteq> 0"
  shows "\<exists>k \<ge> status_reads d. wait_ready_loop n d = (0, d\<lparr>status_reads := k\<rparr>)"
  using assms
proof (induction n arbitrary: d)
  case (Suc n)
  let ?d1 = "d\<lparr>status_reads := Suc (status_reads d)\<rparr>" and ?st = "status d (status_reads d)"
  have ne: "?st AND (STATUS_ERR OR STATUS_DF) = 0" using Suc.prems(1) by blast
  show ?case
  proof (cases "?st AND STATUS_BUSY = 0 \<and> (?st AND STATUS_DRQ \<noteq> 0 \<or> ?st AND STATUS_READY \<noteq> 0)")
    case True
    then show ?thesis using ne by (intro exI [of _ "Suc (status_reads d)"]) (simp add: inb_status_def)
  next
    case False
    obtain j where j: "j < Suc n" "status d (status_reads d + j) AND STATUS_BUSY = 0" "status d (status_reads d + j) AND STATUS_DRQ \<noteq> 0"
      using Suc.prems(2) by blast
    then have "j \<noteq> 0" using False by (cases j) auto
    then have "\<exists>i < n. status ?d1 (status_reads ?d1 + i) AND STATUS_BUSY = 0 \<and> status ?d1 (status_reads ?d1 + i) AND STATUS_DRQ \<noteq> 0"
      using j by (intro exI [of _ "j - 1"]) simp
    then obtain k where "Suc (status_reads d) \<le> k" "wait_ready_loop n ?d1 = (0, ?d1\<lparr>status_reads := k\<rparr>)"
      using Suc.IH [of ?d1] Suc.prems(1) by auto
    then show ?thesis using ne False by (intro exI [of _ k]) (auto simp: inb_status_def)
  qed
qed simp

lemma wait_drq_loop_ok:
  assumes "\<forall>k \<ge> status_reads d. status d k AND (STATUS_ERR OR STATUS_DF) = 0"
    and "\<exists>j < n. status d (status_reads d + j) AND STATUS_BUSY = 0 \<and> status d (status_reads d + j) AND STATUS_DRQ \<noteq> 0"
  shows "\<exists>k \<ge> status_reads d. wait_drq_loop n d = (0, d\<lparr>status_reads := k\<rparr>)"
  using assms
proof (induction n arbitrary: d)
  case (Suc n)
  let ?d1 = "d\<lparr>status_reads := Suc (status_reads d)\<rparr>" and ?st = "status d (status_reads d)"
  have ne: "?st AND (STATUS_ERR OR STATUS_DF) = 0" using Suc.prems(1) by blast
  show ?case
  proof (cases "?st AND STATUS_BUSY = 0 \<and> ?st AND STATUS_DRQ \<noteq> 0")
    case True
    then show ?thesis using ne by (intro exI [of _ "Suc (status_reads d)"]) (simp add: inb_status_def)
  next
    case False
    obtain j where j: "j < Suc n" "status d (status_reads d + j) AND STATUS_BUSY = 0" "status d (status_reads d + j) AND STATUS_DRQ \<noteq> 0"
      using Suc.prems(2) by blast
    then have "j \<noteq> 0" using False by (cases j) auto
    then have "\<exists>i < n. status ?d1 (status_reads ?d1 + i) AND STATUS_BUSY = 0 \<and> status ?d1 (status_reads ?d1 + i) AND STATUS_DRQ \<noteq> 0"
      using j by (intro exI [of _ "j - 1"]) simp
    then obtain k where "Suc (status_reads d) \<le> k" "wait_drq_loop n ?d1 = (0, ?d1\<lparr>status_reads := k\<rparr>)"
      using Suc.IH [of ?d1] Suc.prems(1) by auto
    then show ?thesis using ne False by (intro exI [of _ k]) (auto simp: inb_status_def)
  qed
qed simp

text \<open>What a wait does to a drive that answers: nothing the rest of the driver sees.\<close>

lemma answers_later: "answers d \<Longrightarrow> status_reads d \<le> k \<Longrightarrow> answers (d\<lparr>status_reads := k\<rparr>)"
  by (simp add: answers_def)

lemma answers_wait:
  assumes "answers d"
  shows "\<exists>d'. wait_ready d = (0, d') \<and> answers d' \<and> medium d' = medium d" and "\<exists>d'. wait_drq d = (0, d') \<and> answers d' \<and> medium d' = medium d"
proof -
  have a: "\<forall>k \<ge> status_reads d. status d k AND (STATUS_ERR OR STATUS_DF) = 0"
    "\<exists>j < 4000000. status d (status_reads d + j) AND STATUS_BUSY = 0 \<and> status d (status_reads d + j) AND STATUS_DRQ \<noteq> 0"
    using assms by (auto simp: answers_def)
  obtain k where "status_reads d \<le> k" "wait_ready d = (0, d\<lparr>status_reads := k\<rparr>)"
    using wait_ready_loop_ok [OF a] by (auto simp: wait_ready_def)
  then show "\<exists>d'. wait_ready d = (0, d') \<and> answers d' \<and> medium d' = medium d" using answers_later [OF assms] by auto
  obtain k where "status_reads d \<le> k" "wait_drq d = (0, d\<lparr>status_reads := k\<rparr>)"
    using wait_drq_loop_ok [OF a] by (auto simp: wait_drq_def)
  then show "\<exists>d'. wait_drq d = (0, d') \<and> answers d' \<and> medium d' = medium d" using answers_later [OF assms] by auto
qed

lemma select_answers [simp]: "answers (select_lba lba c d) = answers d" "medium (select_lba lba c d) = medium d"
  by (simp_all add: select_lba_def answers_def)

lemma store_answers [simp]: "answers (store_bytes a bs d) = answers d"
  by (simp add: store_bytes_def answers_def)

lemma lba28_select: "unat lba < 2 ^ 28 \<Longrightarrow> lba28 (select_lba lba c d) = unat lba"
proof -
  assume a: "unat lba < 2 ^ 28"
  have b: "unat (ucast (x AND 0xFF) :: u8) = unat x mod 256" for x :: u32
  proof -
    have "x AND 0xFF = x AND mask 8" by (simp add: mask_eq_exp_minus_1)
    then have "unat (x AND 0xFF) = unat x mod 256" using unat_and_mask [of x 8] by simp
    then show ?thesis by (subst unat_ucast_small) simp_all
  qed
  have t: "unat (ucast (0xE0 OR (drop_bit 24 lba AND 0x0F)) AND 0x0F :: u8) = unat lba div 2 ^ 24"
  proof -
    have "(ucast (0xE0 OR (drop_bit 24 lba AND 0x0F)) AND 0x0F :: u8) = ucast (drop_bit 24 lba AND mask 4)"
      by (intro bit_word_eqI) (auto simp: bit_simps mask_eq_exp_minus_1 numeral_eq_Suc bit_Suc less_Suc_eq simp flip: mask_eq_exp_minus_1)
    then show ?thesis using a by (simp add: unat_ucast_small unat_and_mask unat_drop_bit)
  qed
  have d: "x = x div 16777216 * 16777216 + x div 65536 mod 256 * 65536 + x div 256 mod 256 * 256 + x mod 256" for x :: nat
  proof -
    have "x div 256 div 256 = x div 65536" "x div 65536 div 256 = x div 16777216" by (simp_all flip: div_mult2_eq)
    moreover have "x = x div 256 * 256 + x mod 256" "x div 256 = x div 256 div 256 * 256 + x div 256 mod 256"
      "x div 65536 = x div 65536 div 256 * 256 + x div 65536 mod 256" by simp_all
    ultimately show ?thesis by linarith
  qed
  show ?thesis using d [of "unat lba"] by (simp add: lba28_def select_lba_def b t unat_drop_bit)
qed

lemma read_sectors_ok:
  assumes "answers d"
  shows "\<exists>d'. read_sectors k a d = ((0, medium_bytes d a (k * SECTOR_SIZE)), d') \<and> answers d' \<and> medium d' = medium d"
  using assms
proof (induction k arbitrary: a d)
  case 0
  then show ?case by (simp add: medium_bytes_def)
next
  case (Suc k)
  obtain d1 where d1: "wait_drq d = (0, d1)" "answers d1" "medium d1 = medium d" using answers_wait(2) [OF Suc.prems] by blast
  obtain d2 where d2: "read_sectors k (a + SECTOR_SIZE) d1 = ((0, medium_bytes d1 (a + SECTOR_SIZE) (k * SECTOR_SIZE)), d2)" "answers d2"
      "medium d2 = medium d1"
    using Suc.IH [OF d1(2)] by blast
  have "medium_bytes d1 a SECTOR_SIZE @ medium_bytes d1 (a + SECTOR_SIZE) (k * SECTOR_SIZE) = medium_bytes d a (Suc k * SECTOR_SIZE)"
    by (rule nth_equalityI) (auto simp: medium_bytes_def d1(3) nth_append)
  then show ?case using d1 d2 by (intro exI [of _ d2]) simp
qed

lemma write_sectors_ok:
  assumes "answers d" and "length bs = k * SECTOR_SIZE"
  shows "\<exists>d'. write_sectors k a bs d = (0, d') \<and> answers d' \<and> medium d' = medium (store_bytes a bs d)"
  using assms
proof (induction k arbitrary: a bs d)
  case 0
  then show ?case by (auto simp: store_bytes_def fun_eq_iff)
next
  case (Suc k)
  obtain d1 where d1: "wait_drq d = (0, d1)" "answers d1" "medium d1 = medium d" using answers_wait(2) [OF Suc.prems(1)] by blast
  let ?d2 = "store_bytes a (take SECTOR_SIZE bs) d1"
  obtain d3 where d3: "write_sectors k (a + SECTOR_SIZE) (drop SECTOR_SIZE bs) ?d2 = (0, d3)" "answers d3"
      "medium d3 = medium (store_bytes (a + SECTOR_SIZE) (drop SECTOR_SIZE bs) ?d2)"
    using Suc.IH [of ?d2 "drop SECTOR_SIZE bs" "a + SECTOR_SIZE"] d1(2) Suc.prems(2) by auto
  have "medium (store_bytes (a + SECTOR_SIZE) (drop SECTOR_SIZE bs) ?d2) = medium (store_bytes a bs d)"
    using Suc.prems(2) by (intro HOL.ext) (auto simp: store_bytes_def d1(3) SECTOR_SIZE_def)
  then show ?case using d1 d3 by (intro exI [of _ d3]) simp
qed

text \<open>A transfer of at most 255 sectors is one command.\<close>

lemma ata_read_ok:
  assumes "answers d" and "0 < unat cnt" and "unat cnt \<le> 255" and "unat lba < 2 ^ 28"
  shows "\<exists>d'. ata_read_sectors lba cnt d = ((0, medium_bytes d (unat lba * SECTOR_SIZE) (unat cnt * SECTOR_SIZE)), d') \<and>
    answers d' \<and> medium d' = medium d"
proof -
  obtain d1 where d1: "wait_ready d = (0, d1)" "answers d1" "medium d1 = medium d" using answers_wait(1) [OF assms(1)] by blast
  let ?d2 = "select_lba lba (of_nat (unat cnt)) d1"
  obtain d3 where d3: "read_sectors (unat cnt) (unat lba * SECTOR_SIZE) ?d2 = ((0, medium_bytes ?d2 (unat lba * SECTOR_SIZE) (unat cnt * SECTOR_SIZE)), d3)"
      "answers d3" "medium d3 = medium ?d2"
    using read_sectors_ok [of ?d2 "unat cnt" "unat lba * SECTOR_SIZE"] d1(2) by auto
  have m: "medium_bytes (select_lba lba c d1) = medium_bytes d" for c by (intro HOL.ext) (simp add: medium_bytes_def d1(3))
  have "ata_read_loop lba (unat cnt) d = ((0, medium_bytes d (unat lba * SECTOR_SIZE) (unat cnt * SECTOR_SIZE)), d3)"
    using assms(2,3) d1 d3 by (simp add: ata_read_loop.simps Let_def lba28_select [OF assms(4)] m)
  then show ?thesis using assms(1,2) d3 d1 by (intro exI [of _ d3]) (auto simp: ata_read_sectors_def answers_def)
qed

lemma ata_write_ok:
  assumes "answers d" and "0 < unat cnt" and "unat cnt \<le> 255" and "unat lba < 2 ^ 28" and "length bs = unat cnt * SECTOR_SIZE"
  shows "\<exists>d'. ata_write_sectors lba cnt bs d = (0, d') \<and> answers d' \<and> medium d' = medium (store_bytes (unat lba * SECTOR_SIZE) bs d)"
proof -
  obtain d1 where d1: "wait_ready d = (0, d1)" "answers d1" "medium d1 = medium d" using answers_wait(1) [OF assms(1)] by blast
  let ?d2 = "select_lba lba (of_nat (unat cnt)) d1"
  obtain d3 where d3: "write_sectors (unat cnt) (unat lba * SECTOR_SIZE) bs ?d2 = (0, d3)" "answers d3"
      "medium d3 = medium (store_bytes (unat lba * SECTOR_SIZE) bs ?d2)"
    using write_sectors_ok [of ?d2 bs "unat cnt" "unat lba * SECTOR_SIZE"] d1(2) assms(5) by auto
  obtain d4 where d4: "wait_ready d3 = (0, d4)" "answers d4" "medium d4 = medium d3" using answers_wait(1) [OF d3(2)] by blast
  obtain d5 where d5: "wait_ready d4 = (0, d5)" "answers d5" "medium d5 = medium d4" using answers_wait(1) [OF d4(2)] by blast
  have "ata_write_loop lba (unat cnt) bs d = (0, d5)"
    using assms(2,3) d1 d3 d4 d5 by (simp add: ata_write_loop.simps Let_def lba28_select [OF assms(4)])
  moreover have "medium (store_bytes (unat lba * SECTOR_SIZE) bs ?d2) = medium (store_bytes (unat lba * SECTOR_SIZE) bs d)"
    by (intro HOL.ext) (auto simp: store_bytes_def d1(3))
  ultimately show ?thesis using assms(1,2) d3 d4 d5 by (intro exI [of _ d5]) (auto simp: ata_write_sectors_def answers_def)
qed

section \<open>Transfers on any drive\<close>

text \<open>What the driver does whatever the status register shows, a fault in the middle of a transfer included.\<close>

lemma wait_result:
  "fst (wait_ready d) = 0 \<or> fst (wait_ready d) = - 1" "medium (snd (wait_ready d)) = medium d"
  "fst (wait_drq d) = 0 \<or> fst (wait_drq d) = - 1" "medium (snd (wait_drq d)) = medium d"
proof -
  have a: "(fst (wait_ready_loop k d) = 0 \<or> fst (wait_ready_loop k d) = - 1) \<and> medium (snd (wait_ready_loop k d)) = medium d" for k
    by (induction k arbitrary: d) (auto simp: inb_status_def)
  have b: "(fst (wait_drq_loop k d) = 0 \<or> fst (wait_drq_loop k d) = - 1) \<and> medium (snd (wait_drq_loop k d)) = medium d" for k
    by (induction k arbitrary: d) (auto simp: inb_status_def)
  show "fst (wait_ready d) = 0 \<or> fst (wait_ready d) = - 1" "medium (snd (wait_ready d)) = medium d"
    "fst (wait_drq d) = 0 \<or> fst (wait_drq d) = - 1" "medium (snd (wait_drq d)) = medium d"
    unfolding wait_ready_def wait_drq_def using a b by blast+
qed

text \<open>The first \<open>k\<close> of \<open>n\<close> sectors have been moved, all of them when the result is 0.\<close>

definition moved :: "nat \<Rightarrow> nat \<Rightarrow> int \<Rightarrow> bool" where
  "moved k n r \<longleftrightarrow> k \<le> n \<and> (r = 0 \<and> k = n \<or> r = - 1)"

lemma medium_bytes_add: "medium_bytes d a (m + n) = medium_bytes d a m @ medium_bytes d (a + m) n"
  by (rule nth_equalityI) (auto simp: medium_bytes_def nth_append)

lemma medium_bytes_cong: "medium d' = medium d \<Longrightarrow> medium_bytes d' = medium_bytes d"
  by (intro HOL.ext) (simp add: medium_bytes_def)

lemma read_sectors_any:
  "\<exists>k r d'. read_sectors n a d = ((r, medium_bytes d a (k * SECTOR_SIZE)), d') \<and> moved k n r \<and> medium d' = medium d"
proof (induction n arbitrary: a d)
  case 0
  then show ?case by (simp add: medium_bytes_def moved_def)
next
  case (Suc n)
  obtain r1 d1 where w: "wait_drq d = (r1, d1)" "r1 = 0 \<or> r1 = - 1" "medium d1 = medium d" using wait_result(3,4) [of d] by (metis prod.collapse)
  note m = medium_bytes_cong [OF w(3)]
  obtain k r d2 where r: "read_sectors n (a + SECTOR_SIZE) d1 = ((r, medium_bytes d1 (a + SECTOR_SIZE) (k * SECTOR_SIZE)), d2)" "moved k n r"
      "medium d2 = medium d1" using Suc.IH by blast
  show ?case
  proof (cases "r1 = 0")
    case True
    have "read_sectors (Suc n) a d = ((r, medium_bytes d a (Suc k * SECTOR_SIZE)), d2)"
      using w(1) r(1) True m by (simp add: medium_bytes_add)
    moreover have "moved (Suc k) (Suc n) r" using r(2) by (auto simp: moved_def)
    ultimately show ?thesis using r(3) w(3) by metis
  next
    case False
    then have "read_sectors (Suc n) a d = ((- 1, medium_bytes d a (0 * SECTOR_SIZE)), d1)" using w by (simp add: medium_bytes_def)
    then show ?thesis using w(3) by (metis moved_def zero_le)
  qed
qed

text \<open>A call after which the first \<open>k\<close> sectors of \<open>bs\<close> are on the medium.\<close>

definition stored :: "nat \<Rightarrow> u8 list \<Rightarrow> nat \<Rightarrow> drive \<Rightarrow> drive \<Rightarrow> bool" where
  "stored a bs k d d' \<longleftrightarrow> medium d' = medium (store_bytes a (take (k * SECTOR_SIZE) bs) d)"

lemma stored_0: "medium d' = medium d \<Longrightarrow> stored a bs 0 d d'"
  by (auto simp: stored_def store_bytes_def fun_eq_iff)

lemma stored_add:
  assumes "stored a bs m d d1" and "stored (a + m * SECTOR_SIZE) (drop (m * SECTOR_SIZE) bs) k d1 d2" and "(m + k) * SECTOR_SIZE \<le> length bs"
  shows "stored a bs (m + k) d d2"
proof -
  have l: "min (length bs) (m * SECTOR_SIZE) = m * SECTOR_SIZE" "min (length bs) ((m + k) * SECTOR_SIZE) = (m + k) * SECTOR_SIZE"
    "min (length bs - m * SECTOR_SIZE) (k * SECTOR_SIZE) = k * SECTOR_SIZE" using assms(3) by (simp_all add: algebra_simps)
  have "medium d2 i = medium (store_bytes a (take ((m + k) * SECTOR_SIZE) bs) d) i" for i
    using assms(1,2) by (auto simp: stored_def store_bytes_def l algebra_simps)
  then show ?thesis by (auto simp: stored_def)
qed

lemma write_sectors_any:
  assumes "n * SECTOR_SIZE \<le> length bs"
  shows "\<exists>k r d'. write_sectors n a bs d = (r, d') \<and> moved k n r \<and> stored a bs k d d'"
  using assms
proof (induction n arbitrary: a bs d)
  case 0
  then show ?case using stored_0 [of d d a bs] by (auto simp: moved_def)
next
  case (Suc n)
  obtain r1 d1 where w: "wait_drq d = (r1, d1)" "r1 = 0 \<or> r1 = - 1" "medium d1 = medium d" using wait_result(3,4) [of d] by (metis prod.collapse)
  let ?d1 = "store_bytes a (take SECTOR_SIZE bs) d1"
  obtain k r d2 where r: "write_sectors n (a + SECTOR_SIZE) (drop SECTOR_SIZE bs) ?d1 = (r, d2)" "moved k n r"
      "stored (a + SECTOR_SIZE) (drop SECTOR_SIZE bs) k ?d1 d2"
    using Suc.IH [of "drop SECTOR_SIZE bs" "a + SECTOR_SIZE" ?d1] Suc.prems by (fastforce simp: le_diff_conv2)
  show ?case
  proof (cases "r1 = 0")
    case True
    have "stored a bs 1 d ?d1" using w(3) by (simp add: stored_def store_bytes_def cong: if_cong)
    moreover have "k \<le> n" using r(2) by (simp add: moved_def)
    moreover have "k * SECTOR_SIZE \<le> n * SECTOR_SIZE" using \<open>k \<le> n\<close> by simp
    then have "(1 + k) * SECTOR_SIZE \<le> length bs" using Suc.prems by (simp only: mult_Suc plus_1_eq_Suc)
    ultimately have "stored a bs (1 + k) d d2" using r(3) by (intro stored_add) simp_all
    moreover have "moved (1 + k) (Suc n) r" using r(2) by (auto simp: moved_def)
    ultimately show ?thesis using w(1) r(1) True by auto
  next
    case False
    then show ?thesis using w stored_0 [OF w(3)] by (auto simp: moved_def)
  qed
qed

lemma next_lba: "chunk \<le> cnt \<Longrightarrow> unat lba + cnt \<le> 2 ^ 28 \<Longrightarrow> unat (lba + of_nat chunk) = unat lba + chunk" for lba :: u32
  by (subst unat_plus_simple) (simp_all add: unsigned_of_nat take_bit_eq_mod)

lemma ata_read_step:
  assumes "0 < cnt" and "wait_ready d = (0, d1)" and "chunk = (if 255 < cnt then 255 else cnt)" and "unat lba + cnt \<le> 2 ^ 28"
    and "read_sectors chunk (unat lba * SECTOR_SIZE) (select_lba lba (of_nat chunk) d1) = ((r, bs), d3)"
  shows "ata_read_loop lba cnt d = (if r < 0 then ((- 1, bs), d3)
    else case ata_read_loop (lba + of_nat chunk) (cnt - chunk) d3 of ((r4, bs4), d4) \<Rightarrow> ((r4, bs @ bs4), d4))"
proof -
  have "lba28 (select_lba lba (of_nat chunk) d1) = unat lba" using assms(1,4) by (intro lba28_select) linarith
  then show ?thesis
    using assms(1,2,5) unfolding ata_read_loop.simps [of lba cnt d] Let_def assms(3) [symmetric] by simp
qed

lemma ata_read_loop_any:
  assumes "unat lba + cnt \<le> 2 ^ 28"
  shows "\<exists>k r d'. ata_read_loop lba cnt d = ((r, medium_bytes d (unat lba * SECTOR_SIZE) (k * SECTOR_SIZE)), d') \<and> moved k cnt r \<and> medium d' = medium d"
  using assms
proof (induction cnt arbitrary: lba d rule: less_induct)
  case (less cnt)
  obtain r1 d1 where w: "wait_ready d = (r1, d1)" "r1 = 0 \<or> r1 = - 1" "medium d1 = medium d" using wait_result(1,2) [of d] by (metis prod.collapse)
  define chunk where "chunk = (if 255 < cnt then 255 else cnt)"
  let ?d2 = "select_lba lba (of_nat chunk) d1" and ?a = "unat lba * SECTOR_SIZE"
  show ?case
  proof (cases "cnt = 0 \<or> r1 = - 1")
    case True
    then have "(\<exists>r. ata_read_loop lba cnt d = ((r, []), if cnt = 0 then d else d1) \<and> moved 0 cnt r)"
      using w(1) by (auto simp: ata_read_loop.simps [of lba cnt d] Let_def moved_def)
    then show ?thesis using w(3) by (fastforce simp: medium_bytes_def)
  next
    case False
    then have r1: "wait_ready d = (0, d1)" and c: "0 < cnt" "chunk \<le> cnt" "0 < chunk" using w by (auto simp: chunk_def)
    obtain k r d3 where r: "read_sectors chunk ?a ?d2 = ((r, medium_bytes ?d2 ?a (k * SECTOR_SIZE)), d3)" "moved k chunk r" "medium d3 = medium ?d2"
      using read_sectors_any by blast
    have d: "medium ?d2 = medium d" "medium d3 = medium d" using r(3) w(3) by simp_all
    note m = medium_bytes_cong [OF d(1)] medium_bytes_cong [OF d(2)] d(2)
    note st = ata_read_step [OF c(1) r1 chunk_def less.prems r(1), unfolded m(1)]
    show ?thesis
    proof (cases "r = 0")
      case False
      then have "r = - 1" "moved k cnt r" using r(2) c by (auto simp: moved_def)
      then show ?thesis using st m(3) by (intro exI [of _ k] exI [of _ r] exI [of _ d3]) simp
    next
      case True
      then have k: "k = chunk" using r(2) by (auto simp: moved_def)
      have n: "unat (lba + of_nat chunk) = unat lba + chunk" using next_lba c less.prems by blast
      obtain k2 r2 d4 where r2: "ata_read_loop (lba + of_nat chunk) (cnt - chunk) d3 =
          ((r2, medium_bytes d3 (unat (lba + of_nat chunk) * SECTOR_SIZE) (k2 * SECTOR_SIZE)), d4)" "moved k2 (cnt - chunk) r2" "medium d4 = medium d3"
        using less.IH [of "cnt - chunk" "lba + of_nat chunk" d3] n c less.prems by auto
      have "ata_read_loop lba cnt d = ((r2, medium_bytes d ?a ((chunk + k2) * SECTOR_SIZE)), d4)"
        using st True k r2(1) n m(2) by (simp add: medium_bytes_add add_mult_distrib)
      moreover have "moved (chunk + k2) cnt r2" using r2(2) c by (auto simp: moved_def)
      ultimately show ?thesis using r2(3) m(3) by metis
    qed
  qed
qed

lemma ata_write_step:
  assumes "0 < cnt" and "wait_ready d = (0, d1)" and "chunk = (if 255 < cnt then 255 else cnt)" and "unat lba + cnt \<le> 2 ^ 28"
    and "write_sectors chunk (unat lba * SECTOR_SIZE) bs (select_lba lba (of_nat chunk) d1) = (r, d3)"
  shows "ata_write_loop lba cnt bs d = (if r < 0 then (- 1, d3)
    else case wait_ready d3 of (r4, d4) \<Rightarrow> if r4 < 0 then (- 1, d4)
      else case wait_ready d4 of (r5, d5) \<Rightarrow> if r5 < 0 then (- 1, d5)
        else ata_write_loop (lba + of_nat chunk) (cnt - chunk) (drop (chunk * SECTOR_SIZE) bs) d5)"
proof -
  have "lba28 (select_lba lba (of_nat chunk) d1) = unat lba" using assms(1,4) by (intro lba28_select) linarith
  then show ?thesis
    using assms(1,2,5) unfolding ata_write_loop.simps [of lba cnt bs d] Let_def assms(3) [symmetric] by simp
qed

lemma ata_write_loop_any:
  assumes "unat lba + cnt \<le> 2 ^ 28" and "length bs = cnt * SECTOR_SIZE"
  shows "\<exists>k r d'. ata_write_loop lba cnt bs d = (r, d') \<and> moved k cnt r \<and> stored (unat lba * SECTOR_SIZE) bs k d d'"
  using assms
proof (induction cnt arbitrary: lba d bs rule: less_induct)
  case (less cnt)
  obtain r1 d1 where w: "wait_ready d = (r1, d1)" "r1 = 0 \<or> r1 = - 1" "medium d1 = medium d" using wait_result(1,2) [of d] by (metis prod.collapse)
  define chunk where "chunk = (if 255 < cnt then 255 else cnt)"
  let ?d2 = "select_lba lba (of_nat chunk) d1" and ?a = "unat lba * SECTOR_SIZE"
  show ?case
  proof (cases "cnt = 0 \<or> r1 = - 1")
    case True
    then have "\<exists>r. ata_write_loop lba cnt bs d = (r, if cnt = 0 then d else d1) \<and> moved 0 cnt r"
      using w(1) by (auto simp: ata_write_loop.simps [of lba cnt bs d] Let_def moved_def)
    moreover have "stored ?a bs 0 d (if cnt = 0 then d else d1)" using w(3) by (intro stored_0) simp
    ultimately show ?thesis by blast
  next
    case False
    then have r1: "wait_ready d = (0, d1)" and c: "0 < cnt" "chunk \<le> cnt" "0 < chunk" using w by (auto simp: chunk_def)
    have "chunk * SECTOR_SIZE \<le> length bs" using c(2) less.prems(2) by simp
    then obtain k r d3 where r: "write_sectors chunk ?a bs ?d2 = (r, d3)" "moved k chunk r" "stored ?a bs k ?d2 d3"
      using write_sectors_any by blast
    have s3: "stored ?a bs k d d3" using r(3) w(3) by (simp add: stored_def store_bytes_def cong: if_cong)
    note st = ata_write_step [OF c(1) r1 chunk_def less.prems(1) r(1)]
    obtain r4 d4 where w4: "wait_ready d3 = (r4, d4)" "r4 = 0 \<or> r4 = - 1" "medium d4 = medium d3" using wait_result(1,2) [of d3] by (metis prod.collapse)
    obtain r5 d5 where w5: "wait_ready d4 = (r5, d5)" "r5 = 0 \<or> r5 = - 1" "medium d5 = medium d4" using wait_result(1,2) [of d4] by (metis prod.collapse)
    have s5: "stored ?a bs k d d4" "stored ?a bs k d d5" using s3 w4(3) w5(3) by (simp_all add: stored_def)
    have mk: "moved k cnt (- 1)" using r(2) c by (auto simp: moved_def)
    show ?thesis
    proof (cases "r = 0 \<and> r4 = 0 \<and> r5 = 0")
      case False
      then have "ata_write_loop lba cnt bs d = (- 1, d3) \<or> ata_write_loop lba cnt bs d = (- 1, d4) \<or> ata_write_loop lba cnt bs d = (- 1, d5)"
        using st w4(1,2) w5(1,2) r(2) by (auto simp: moved_def)
      then show ?thesis using mk s3 s5 by blast
    next
      case True
      then have k: "k = chunk" using r(2) by (auto simp: moved_def)
      have n: "unat (lba + of_nat chunk) = unat lba + chunk" using next_lba c less.prems(1) by blast
      have pre: "cnt - chunk < cnt" "unat (lba + of_nat chunk) + (cnt - chunk) \<le> 2 ^ 28" "length (drop (chunk * SECTOR_SIZE) bs) = (cnt - chunk) * SECTOR_SIZE"
        using n c less.prems by (simp_all add: diff_mult_distrib)
      obtain k2 r2 d6 where r2: "ata_write_loop (lba + of_nat chunk) (cnt - chunk) (drop (chunk * SECTOR_SIZE) bs) d5 = (r2, d6)" "moved k2 (cnt - chunk) r2"
          "stored (unat (lba + of_nat chunk) * SECTOR_SIZE) (drop (chunk * SECTOR_SIZE) bs) k2 d5 d6"
        using less.IH [OF pre, of d5] by blast
      have "chunk + k2 \<le> cnt" using r2(2) c(2) by (auto simp: moved_def)
      then have "(chunk + k2) * SECTOR_SIZE \<le> length bs" unfolding less.prems(2) by (rule mult_le_mono1)
      then have "stored ?a bs (chunk + k2) d d6" using stored_add [OF s5(2) [unfolded k]] r2(3) n by (simp add: add_mult_distrib)
      moreover have "ata_write_loop lba cnt bs d = (r2, d6)" using st True w4(1) w5(1) r2(1) by simp
      moreover have "moved (chunk + k2) cnt r2" using r2(2) c by (auto simp: moved_def)
      ultimately show ?thesis by blast
    qed
  qed
qed

lemma ata_transfer_any:
  assumes "unat lba + unat cnt \<le> 2 ^ 28" and "length bs = unat cnt * SECTOR_SIZE"
  shows "\<exists>k r d'. ata_read_sectors lba cnt d = ((r, medium_bytes d (unat lba * SECTOR_SIZE) (k * SECTOR_SIZE)), d') \<and> medium d' = medium d \<and>
      k \<le> unat cnt \<and> (r = 0 \<and> k = unat cnt \<or> r = - 1)"
    and "\<exists>k r d'. ata_write_sectors lba cnt bs d = (r, d') \<and> medium d' = medium (store_bytes (unat lba * SECTOR_SIZE) (take (k * SECTOR_SIZE) bs) d) \<and>
      k \<le> unat cnt \<and> (r = 0 \<and> k = unat cnt \<or> r = - 1)"
proof -
  show "\<exists>k r d'. ata_read_sectors lba cnt d = ((r, medium_bytes d (unat lba * SECTOR_SIZE) (k * SECTOR_SIZE)), d') \<and> medium d' = medium d \<and>
      k \<le> unat cnt \<and> (r = 0 \<and> k = unat cnt \<or> r = - 1)"
    using ata_read_loop_any [OF assms(1), of d] by (cases "\<not> present d \<or> cnt = 0") (auto simp: ata_read_sectors_def moved_def medium_bytes_def)
  show "\<exists>k r d'. ata_write_sectors lba cnt bs d = (r, d') \<and> medium d' = medium (store_bytes (unat lba * SECTOR_SIZE) (take (k * SECTOR_SIZE) bs) d) \<and>
      k \<le> unat cnt \<and> (r = 0 \<and> k = unat cnt \<or> r = - 1)"
  proof (cases "\<not> present d \<or> cnt = 0")
    case True
    then show ?thesis using stored_0 [of d d "unat lba * SECTOR_SIZE" bs]
      by (intro exI [of _ 0] exI [of _ "- 1"] exI [of _ d]) (auto simp: ata_write_sectors_def stored_def)
  next
    case False
    then show ?thesis using ata_write_loop_any [OF assms, of d] unfolding ata_write_sectors_def moved_def stored_def by (simp, blast)
  qed
qed

text \<open>
  C19: a transfer on any drive, faults included, of any number of sectors the 28 bit address reaches.  A read never changes the medium; it reports success only
  when the buffer holds all the sectors asked for, and otherwise -1 with a prefix of whole sectors of the right bytes in the buffer.  A write reports success only when
  all its sectors are on the medium; otherwise a prefix of them is, and no other byte of the medium has changed.
\<close>

theorem ata_transfer_correct:
  assumes "unat lba + unat cnt \<le> 2 ^ 28" and "length bs = unat cnt * SECTOR_SIZE"
  shows "(\<exists>k r d'. ata_read_sectors lba cnt d = ((r, medium_bytes d (unat lba * SECTOR_SIZE) (k * SECTOR_SIZE)), d') \<and> medium d' = medium d \<and>
      k \<le> unat cnt \<and> (r = 0 \<and> k = unat cnt \<or> r = - 1)) \<and>
    (\<exists>k r d'. ata_write_sectors lba cnt bs d = (r, d') \<and> medium d' = medium (store_bytes (unat lba * SECTOR_SIZE) (take (k * SECTOR_SIZE) bs) d) \<and>
      k \<le> unat cnt \<and> (r = 0 \<and> k = unat cnt \<or> r = - 1))"
  using ata_transfer_any [OF assms] by blast

text \<open>A drive that answers every poll with the error bit.\<close>

definition failing_drive :: drive where
  "failing_drive = \<lparr>present = True, model = [], sectors = 64, medium = (\<lambda>_. 0), status = (\<lambda>_. 1), status_reads = 0, identify = [],
     reg_drive = 0, reg_count = 0, reg_low = 0, reg_mid = 0, reg_high = 0\<rparr>"

lemma failing_ready: "wait_ready failing_drive = (- 1, failing_drive\<lparr>status_reads := 1\<rparr>)"
proof -
  have "0 < n \<Longrightarrow> wait_ready_loop n failing_drive = (- 1, failing_drive\<lparr>status_reads := 1\<rparr>)" for n
    by (cases n) (simp_all add: inb_status_def failing_drive_def STATUS_BUSY_def STATUS_ERR_def STATUS_DF_def)
  then show ?thesis by (simp add: wait_ready_def)
qed

theorem ata_transfer_correct_witness:
  "\<exists>k d'. ata_write_sectors 5 1 (replicate 512 7) failing_drive = (- 1, d') \<and>
     medium d' = medium (store_bytes (5 * SECTOR_SIZE) (take (k * SECTOR_SIZE) (replicate 512 7)) failing_drive) \<and> k \<le> 1"
proof -
  have "fst (ata_write_sectors 5 1 (replicate 512 7) failing_drive) = - 1"
    by (simp add: ata_write_sectors_def ata_write_loop.simps failing_ready failing_drive_def [THEN arg_cong [of _ _ present], simplified])
  moreover have "unat (5 :: u32) + unat (1 :: u32) \<le> 2 ^ 28" "length (replicate 512 (7 :: u8)) = unat (1 :: u32) * SECTOR_SIZE"
    by (simp_all add: SECTOR_SIZE_def)
  from ata_transfer_correct [OF this, of failing_drive, THEN conjunct2] obtain k r d' where
    "ata_write_sectors 5 1 (replicate 512 7) failing_drive = (r, d')" "k \<le> 1"
    "medium d' = medium (store_bytes (5 * SECTOR_SIZE) (take (k * SECTOR_SIZE) (replicate 512 7)) failing_drive)" by auto
  ultimately show ?thesis by (intro exI [of _ k] exI [of _ d']) simp
qed

end
