(* ===== verification/Sfs.thy ===== *)
theory Sfs
  imports KState Ata ByteLists
begin

text \<open>
  The native file system \<^verbatim>\<open>kernel/fs/sfs.c\<close>, from the block device up to files and directories: superblock and bitmap, the inode table,
  the mapping of file blocks to disk blocks, reading, writing and truncating a file, and directory entries.  The file
  static variables are the record \<open>sfs\<close>; the kernel heap and the clock are in its component \<open>ker\<close>, the disk is the
  component \<open>drive\<close>.

  The scratch buffers are the addresses the pool holds and their busy marks; the bytes a call keeps in the buffer it has taken
  are values of the call.  Functions return an option: \<open>None\<close> is a call that never returns (a panic of the heap) one that reads the bitmap
  beyond its end, or one that looks at bytes of a directory entry it could not read.
\<close>

unbundle bit_operations_syntax

section \<open>Layout on disk\<close>

definition SFS_MAGIC :: u32 where "SFS_MAGIC = 0x53465321"
definition SFS_VERSION :: u32 where "SFS_VERSION = 1"
definition SFS_BLOCK :: nat where "SFS_BLOCK = 4096"
definition SFS_INODE_SIZE :: nat where "SFS_INODE_SIZE = 128"
definition SFS_INODES_PER_BLOCK :: nat where "SFS_INODES_PER_BLOCK = 32"
definition SFS_DIRECT :: nat where "SFS_DIRECT = 12"
definition SFS_POINTERS :: nat where "SFS_POINTERS = 1024"
definition SFS_NAME_MAX :: nat where "SFS_NAME_MAX = 56"
definition SFS_DIRENT_SIZE :: nat where "SFS_DIRENT_SIZE = 64"
definition SFS_TYPE_FREE :: u32 where "SFS_TYPE_FREE = 0"
definition SFS_TYPE_FILE :: u32 where "SFS_TYPE_FILE = 1"
definition SFS_TYPE_DIR :: u32 where "SFS_TYPE_DIR = 2"
definition SFS_FLAG_READONLY :: u32 where "SFS_FLAG_READONLY = 1"
definition SECTORS_PER_BLOCK :: u32 where "SECTORS_PER_BLOCK = 8"
definition SCRATCH_COUNT :: nat where "SCRATCH_COUNT = 4"

record sfs_super =
  sb_magic :: u32
  sb_version :: u32
  block_size :: u32
  total_blocks :: u32
  bitmap_start :: u32
  bitmap_blocks :: u32
  inode_start :: u32
  inode_blocks :: u32
  inode_count :: u32
  root_inode :: u32
  free_blocks :: u32
  label :: "u8 list"

record sfs_inode =
  itype :: u32
  isize :: u32
  links :: u32
  created :: u32
  modified :: u32
  iflags :: u32
  direct :: "u32 list"
  indirect :: u32
  reserved :: "u32 list"

record sfs_dirent =
  d_inode :: u32
  name_len :: u32
  d_name :: "u8 list"

definition super_bytes :: "sfs_super \<Rightarrow> u8 list" where
  "super_bytes sb =
     bytes_of [sb_magic sb, sb_version sb, block_size sb, total_blocks sb, bitmap_start sb, bitmap_blocks sb, inode_start sb,
       inode_blocks sb, inode_count sb, root_inode sb, free_blocks sb] @ label sb"

definition super_of :: "u8 list \<Rightarrow> sfs_super" where
  "super_of b =
     \<lparr>sb_magic = le32 b 0, sb_version = le32 b 4, block_size = le32 b 8, total_blocks = le32 b 12, bitmap_start = le32 b 16,
      bitmap_blocks = le32 b 20, inode_start = le32 b 24, inode_blocks = le32 b 28, inode_count = le32 b 32, root_inode = le32 b 36,
      free_blocks = le32 b 40, label = take 32 (drop 44 b)\<rparr>"

definition inode_words :: "sfs_inode \<Rightarrow> u32 list" where
  "inode_words ino = [itype ino, isize ino, links ino, created ino, modified ino, iflags ino] @ direct ino @ [indirect ino] @ reserved ino"

definition inode_of_words :: "u32 list \<Rightarrow> sfs_inode" where
  "inode_of_words ws =
     \<lparr>itype = ws ! 0, isize = ws ! 1, links = ws ! 2, created = ws ! 3, modified = ws ! 4, iflags = ws ! 5,
      direct = take SFS_DIRECT (drop 6 ws), indirect = ws ! 18, reserved = take 13 (drop 19 ws)\<rparr>"

definition inode_of :: "u8 list \<Rightarrow> sfs_inode" where
  "inode_of b = inode_of_words (words_of 32 b)"

definition inode_bytes :: "sfs_inode \<Rightarrow> u8 list" where
  "inode_bytes ino = bytes_of (inode_words ino)"

definition dirent_bytes :: "sfs_dirent \<Rightarrow> u8 list" where
  "dirent_bytes e = bytes_of [d_inode e, name_len e] @ d_name e"

definition dirent_of :: "u8 list \<Rightarrow> sfs_dirent" where
  "dirent_of b = \<lparr>d_inode = le32 b 0, name_len = le32 b 4, d_name = take SFS_NAME_MAX (drop 8 b)\<rparr>"

section \<open>State, device and scratch buffers\<close>

record sfs =
  ker :: sys
  drive :: drive
  partition_lba :: u32
  super :: sfs_super
  bitmap :: "u8 list"
  mounted :: bool
  inodes_used :: u32
  scratch_pool :: "u32 list"
  scratch_busy :: "bool list"

definition read_block :: "u32 \<Rightarrow> sfs \<Rightarrow> (int \<times> u8 list) \<times> sfs" where
  "read_block b s =
     (case ata_read_sectors (partition_lba s + b * SECTORS_PER_BLOCK) SECTORS_PER_BLOCK (drive s) of (r, d) \<Rightarrow> (r, s\<lparr>drive := d\<rparr>))"

definition write_block :: "u32 \<Rightarrow> u8 list \<Rightarrow> sfs \<Rightarrow> int \<times> sfs" where
  "write_block b bs s =
     (case ata_write_sectors (partition_lba s + b * SECTORS_PER_BLOCK) SECTORS_PER_BLOCK bs (drive s) of (r, d) \<Rightarrow> (r, s\<lparr>drive := d\<rparr>))"

definition sfs_kmalloc :: "u32 \<Rightarrow> sfs \<Rightarrow> (u32 \<times> sfs) option" where
  "sfs_kmalloc n s = do { (p, h) \<leftarrow> kmalloc n (kh (ker s)); Some (p, s\<lparr>ker := (ker s)\<lparr>kh := h\<rparr>\<rparr>) }"

definition sfs_kfree :: "u32 \<Rightarrow> sfs \<Rightarrow> sfs option" where
  "sfs_kfree p s = do { h \<leftarrow> kfree p (kh (ker s)); Some (s\<lparr>ker := (ker s)\<lparr>kh := h\<rparr>\<rparr>) }"

definition scratch_take :: "sfs \<Rightarrow> (u32 \<times> sfs) option" where
  "scratch_take s =
     (case List.find (\<lambda>i. \<not> scratch_busy s ! i \<and> scratch_pool s ! i \<noteq> 0) [0..<SCRATCH_COUNT] of
        Some i \<Rightarrow> Some (scratch_pool s ! i, s\<lparr>scratch_busy := (scratch_busy s)[i := True]\<rparr>)
      | None \<Rightarrow> sfs_kmalloc (of_nat SFS_BLOCK) s)"

definition scratch_give :: "u32 \<Rightarrow> sfs \<Rightarrow> sfs option" where
  "scratch_give p s =
     (case List.find (\<lambda>i. scratch_pool s ! i = p) [0..<SCRATCH_COUNT] of
        Some i \<Rightarrow> Some (s\<lparr>scratch_busy := (scratch_busy s)[i := False]\<rparr>)
      | None \<Rightarrow> sfs_kfree p s)"

text \<open>Every function takes one buffer, gives up with \<open>fail\<close> when there is none, and gives it back on each of its exits.\<close>

definition with_scratch :: "'a \<Rightarrow> (sfs \<Rightarrow> ('a \<times> sfs) option) \<Rightarrow> sfs \<Rightarrow> ('a \<times> sfs) option" where
  "with_scratch fail body s =
     do { (p, s1) \<leftarrow> scratch_take s;
          if p = 0 then Some (fail, s1)
          else do { (r, s2) \<leftarrow> body s1; s3 \<leftarrow> scratch_give p s2; Some (r, s3) } }"

definition zero_block :: "u8 list" where
  "zero_block = replicate SFS_BLOCK 0"

definition write_super :: "sfs \<Rightarrow> (int \<times> sfs) option" where
  "write_super s = with_scratch (- 1) (\<lambda>s1. Some (write_block 0 (put_at 0 (super_bytes (super s1)) zero_block) s1)) s"

section \<open>Allocating\<close>

definition bitmap_test :: "u32 \<Rightarrow> sfs \<Rightarrow> bool option" where
  "bitmap_test b s =
     (if unat b div 8 < length (bitmap s) then Some (bit (bitmap s ! (unat b div 8)) (unat b mod 8)) else None)"

definition bitmap_flush :: "u32 \<Rightarrow> sfs \<Rightarrow> sfs" where
  "bitmap_flush b s =
     (let index = unat b div (SFS_BLOCK * 8)
      in snd (write_block (bitmap_start (super s) + of_nat index) (take SFS_BLOCK (drop (index * SFS_BLOCK) (bitmap s))) s))"

definition mark_bit :: "u32 \<Rightarrow> u8 list \<Rightarrow> u8 list" where
  "mark_bit b bm = bm[unat b div 8 := bm ! (unat b div 8) OR push_bit (unat b mod 8) 1]"

definition clear_bit :: "u32 \<Rightarrow> u8 list \<Rightarrow> u8 list" where
  "clear_bit b bm = bm[unat b div 8 := bm ! (unat b div 8) AND NOT (push_bit (unat b mod 8) 1)]"

fun first_free :: "u32 list \<Rightarrow> sfs \<Rightarrow> u32 option option" where
  "first_free [] s = Some None"
| "first_free (b # bs) s = do { t \<leftarrow> bitmap_test b s; if t then first_free bs s else Some (Some b) }"

definition all_blocks :: "sfs \<Rightarrow> u32 list" where
  "all_blocks s = map of_nat [0..<unat (total_blocks (super s))]"

definition alloc_block :: "sfs \<Rightarrow> (u32 \<times> sfs) option" where
  "alloc_block s =
     do { f \<leftarrow> first_free (all_blocks s) s;
          case f of
            None \<Rightarrow> Some (0, s)
          | Some b \<Rightarrow>
              do { let s1 = bitmap_flush b (s\<lparr>bitmap := mark_bit b (bitmap s)\<rparr>);
                   let sb = super s1;
                   let s2 = s1\<lparr>super := sb\<lparr>free_blocks := if free_blocks sb \<noteq> 0 then free_blocks sb - 1 else free_blocks sb\<rparr>\<rparr>;
                   (_, s3) \<leftarrow> write_super s2;
                   (_, s4) \<leftarrow> with_scratch 0 (\<lambda>s. Some (write_block b zero_block s)) s3;
                   Some (b, s4) } }"

definition free_block :: "u32 \<Rightarrow> sfs \<Rightarrow> sfs option" where
  "free_block b s =
     (if b = 0 \<or> total_blocks (super s) \<le> b then Some s
      else
        do { t \<leftarrow> bitmap_test b s;
             if \<not> t then Some s
             else
               do { let s1 = bitmap_flush b (s\<lparr>bitmap := clear_bit b (bitmap s)\<rparr>);
                    let s2 = s1\<lparr>super := (super s1)\<lparr>free_blocks := free_blocks (super s1) + 1\<rparr>\<rparr>;
                    (_, s3) \<leftarrow> write_super s2;
                    Some s3 } })"

section \<open>Inodes\<close>

definition inode_block :: "u32 \<Rightarrow> sfs \<Rightarrow> u32" where
  "inode_block number s = inode_start (super s) + (number - 1) div of_nat SFS_INODES_PER_BLOCK"

definition inode_offset :: "u32 \<Rightarrow> nat" where
  "inode_offset number = unat (number - 1) mod SFS_INODES_PER_BLOCK * SFS_INODE_SIZE"

text \<open>\<open>None\<close> in the result is the return value -1.\<close>

definition inode_read :: "u32 \<Rightarrow> sfs \<Rightarrow> (sfs_inode option \<times> sfs) option" where
  "inode_read number s =
     (if number < 1 \<or> inode_count (super s) < number then Some (None, s)
      else with_scratch None
        (\<lambda>s1. case read_block (inode_block number s1) s1 of ((r, bs), s2) \<Rightarrow>
           Some (if r < 0 then None else Some (inode_of (take SFS_INODE_SIZE (drop (inode_offset number) bs))), s2)) s)"

definition inode_write :: "u32 \<Rightarrow> sfs_inode \<Rightarrow> sfs \<Rightarrow> (int \<times> sfs) option" where
  "inode_write number ino s =
     (if number < 1 \<or> inode_count (super s) < number then Some (- 1, s)
      else with_scratch (- 1)
        (\<lambda>s1. case read_block (inode_block number s1) s1 of ((r, bs), s2) \<Rightarrow>
           if r < 0 then Some (- 1, s2)
           else Some (write_block (inode_block number s2) (put_at (inode_offset number) (inode_bytes ino) bs) s2)) s)"

text \<open>\<^verbatim>\<open>(uint32_t)(timer_ms() / 1000)\<close>\<close>

definition now_seconds :: "sfs \<Rightarrow> u32" where
  "now_seconds s = ucast (timer_ms (ker s) div 1000)"

definition zero_inode :: sfs_inode where
  "zero_inode = \<lparr>itype = 0, isize = 0, links = 0, created = 0, modified = 0, iflags = 0, direct = replicate SFS_DIRECT 0, indirect = 0,
     reserved = replicate 13 0\<rparr>"

fun alloc_inode_loop :: "u32 list \<Rightarrow> u32 \<Rightarrow> sfs \<Rightarrow> (u32 \<times> sfs) option" where
  "alloc_inode_loop [] ty s = Some (0, s)"
| "alloc_inode_loop (number # ns) ty s =
     do { (i, s1) \<leftarrow> inode_read number s;
          case i of
            None \<Rightarrow> Some (0, s1)
          | Some ino \<Rightarrow>
              if itype ino \<noteq> SFS_TYPE_FREE then alloc_inode_loop ns ty s1
              else
                do { (r, s2) \<leftarrow> inode_write number
                       (zero_inode\<lparr>itype := ty, links := 1, created := now_seconds s1, modified := now_seconds s1\<rparr>) s1;
                     if r < 0 then Some (0, s2) else Some (number, s2\<lparr>inodes_used := inodes_used s2 + 1\<rparr>) } }"

definition alloc_inode :: "u32 \<Rightarrow> sfs \<Rightarrow> (u32 \<times> sfs) option" where
  "alloc_inode ty s = alloc_inode_loop (map of_nat [1..<unat (inode_count (super s)) + 1]) ty s"

section \<open>Blocks of a file\<close>

text \<open>
  \<^verbatim>\<open>block_for\<close> with the inode it may change and the flag \<^verbatim>\<open>*changed\<close>.  The part on the indirect block is a definition of its own.
\<close>

definition entry_for :: "u32 \<Rightarrow> nat \<Rightarrow> bool \<Rightarrow> sfs \<Rightarrow> (u32 \<times> sfs) option" where
  "entry_for tb index alloc s =
     with_scratch 0
       (\<lambda>s1. case read_block tb s1 of ((r, tab), s2) \<Rightarrow>
          if r < 0 then Some (0, s2)
          else if le32 tab (4 * index) = 0 \<and> alloc then
            do { (b, s3) \<leftarrow> alloc_block s2;
                 if b \<noteq> 0 then Some (b, snd (write_block tb (put_at (4 * index) (le_bytes b) tab) s3)) else Some (0, s3) }
          else Some (le32 tab (4 * index), s2)) s"

definition block_for :: "sfs_inode \<Rightarrow> nat \<Rightarrow> bool \<Rightarrow> bool \<Rightarrow> sfs \<Rightarrow> ((u32 \<times> sfs_inode \<times> bool) \<times> sfs) option" where
  "block_for ino index alloc changed s =
     (if index < SFS_DIRECT then
        if direct ino ! index = 0 \<and> alloc then
          do { (b, s1) \<leftarrow> alloc_block s; Some ((b, ino\<lparr>direct := (direct ino)[index := b]\<rparr>, True), s1) }
        else Some ((direct ino ! index, ino, changed), s)
      else
        let slot = index - SFS_DIRECT
        in if SFS_POINTERS \<le> slot then Some ((0, ino, changed), s)
           else if indirect ino = 0 then
             if \<not> alloc then Some ((0, ino, changed), s)
             else
               do { (t, s1) \<leftarrow> alloc_block s;
                    if t = 0 then Some ((0, ino\<lparr>indirect := t\<rparr>, changed), s1)
                    else do { (b, s2) \<leftarrow> entry_for t slot alloc s1; Some ((b, ino\<lparr>indirect := t\<rparr>, True), s2) } }
           else do { (b, s1) \<leftarrow> entry_for (indirect ino) slot alloc s; Some ((b, ino, changed), s1) })"

text \<open>The loop of \<^verbatim>\<open>sfs_file_read\<close>; the bytes are those stored in the caller's buffer.\<close>

function read_loop :: "sfs_inode \<Rightarrow> u32 \<Rightarrow> nat \<Rightarrow> nat \<Rightarrow> u8 list \<Rightarrow> sfs \<Rightarrow> (u8 list \<times> sfs) option" where
  "read_loop ino offset n copied acc s =
     (if copied < n then
        let pos = unat (offset + of_nat copied); within = pos mod SFS_BLOCK;
            chunk = min (SFS_BLOCK - within) (n - copied)
        in case block_for ino (pos div SFS_BLOCK) False False s of
             None \<Rightarrow> None
           | Some ((b, _, _), s1) \<Rightarrow>
               if b \<noteq> 0 then
                 case read_block b s1 of ((r, bs), s2) \<Rightarrow>
                   if r < 0 then Some (acc, s2)
                   else read_loop ino offset n (copied + chunk) (acc @ take chunk (drop within bs)) s2
               else read_loop ino offset n (copied + chunk) (acc @ replicate chunk 0) s1
      else Some (acc, s))"
  by pat_completeness auto
termination
  by (relation "measure (\<lambda>(ino, offset, n, copied, acc, s). n - copied)") (auto simp: SFS_BLOCK_def)

declare read_loop.simps [simp del]

definition sfs_file_read :: "u32 \<Rightarrow> u32 \<Rightarrow> u32 \<Rightarrow> sfs \<Rightarrow> ((int \<times> u8 list) \<times> sfs) option" where
  "sfs_file_read number offset length0 s =
     do { (i, s1) \<leftarrow> inode_read number s;
          case i of
            None \<Rightarrow> Some ((- 1, []), s1)
          | Some ino \<Rightarrow>
              if isize ino \<le> offset then Some ((0, []), s1)
              else
                let n = (if isize ino < offset + length0 then isize ino - offset else length0)
                in with_scratch (- 1, [])
                     (\<lambda>s2. do { (bs, s3) \<leftarrow> read_loop ino offset (unat n) 0 [] s2; Some ((int (length bs), bs), s3) }) s1 }"

text \<open>The loop of \<^verbatim>\<open>sfs_file_write\<close>: how much has been written, the inode and the flag.\<close>

function write_loop :: "sfs_inode \<Rightarrow> bool \<Rightarrow> u32 \<Rightarrow> u8 list \<Rightarrow> nat \<Rightarrow> sfs \<Rightarrow> ((nat \<times> sfs_inode \<times> bool) \<times> sfs) option" where
  "write_loop ino changed offset dat written s =
     (if written < length dat then
        let pos = unat (offset + of_nat written); within = pos mod SFS_BLOCK;
            chunk = min (SFS_BLOCK - within) (length dat - written)
        in case block_for ino (pos div SFS_BLOCK) True changed s of
             None \<Rightarrow> None
           | Some ((b, ino1, changed1), s1) \<Rightarrow>
               if b = 0 then Some ((written, ino1, changed1), s1)
               else
                 case (if chunk \<noteq> SFS_BLOCK then read_block b s1 else ((0, zero_block), s1)) of ((r, bs), s2) \<Rightarrow>
                   if r < 0 then Some ((written, ino1, changed1), s2)
                   else
                     case write_block b (put_at within (take chunk (drop written dat)) bs) s2 of (r3, s3) \<Rightarrow>
                       if r3 < 0 then Some ((written, ino1, changed1), s3)
                       else write_loop ino1 changed1 offset dat (written + chunk) s3
      else Some ((written, ino, changed), s))"
  by pat_completeness auto
termination
  by (relation "measure (\<lambda>(ino, changed, offset, dat, written, s). length dat - written)") (auto simp: SFS_BLOCK_def)

declare write_loop.simps [simp del]

definition sfs_file_write :: "u32 \<Rightarrow> u32 \<Rightarrow> u8 list \<Rightarrow> sfs \<Rightarrow> (int \<times> sfs) option" where
  "sfs_file_write number offset dat s =
     do { (i, s1) \<leftarrow> inode_read number s;
          case i of
            None \<Rightarrow> Some (- 1, s1)
          | Some ino \<Rightarrow>
              with_scratch (- 1)
                (\<lambda>s2. do { ((written, ino1, changed1), s3) \<leftarrow> write_loop ino False offset dat 0 s2;
                           let grown = isize ino1 < offset + of_nat written;
                           let ino2 = (if grown then ino1\<lparr>isize := offset + of_nat written\<rparr> else ino1);
                           let ino3 = ino2\<lparr>modified := now_seconds s3\<rparr>;
                           s4 \<leftarrow> (if changed1 \<or> grown \<or> 0 < written then map_option snd (inode_write number ino3 s3) else Some s3);
                           Some (int written, s4) }) s1 }"

section \<open>Truncating\<close>

text \<open>One index of the loop of \<^verbatim>\<open>release_blocks\<close> behind the direct blocks; the result says whether the loop goes on.\<close>

definition release_slot :: "u32 \<Rightarrow> nat \<Rightarrow> sfs \<Rightarrow> (bool \<times> sfs) option" where
  "release_slot tb slot s =
     with_scratch False
       (\<lambda>s1. if SFS_POINTERS \<le> slot then Some (False, s1)
             else case read_block tb s1 of ((r, tab), s2) \<Rightarrow>
               if r < 0 then Some (False, s2)
               else do { s3 \<leftarrow> free_block (le32 tab (4 * slot)) s2;
                         Some (True, snd (write_block tb (put_at (4 * slot) (le_bytes 0) tab) s3)) }) s"

fun release_loop :: "nat list \<Rightarrow> sfs_inode \<Rightarrow> sfs \<Rightarrow> (sfs_inode \<times> sfs) option" where
  "release_loop [] ino s = Some (ino, s)"
| "release_loop (index # is) ino s =
     (if index < SFS_DIRECT then
        do { s1 \<leftarrow> free_block (direct ino ! index) s; release_loop is (ino\<lparr>direct := (direct ino)[index := 0]\<rparr>) s1 }
      else if indirect ino \<noteq> 0 then
        do { (go, s1) \<leftarrow> release_slot (indirect ino) (index - SFS_DIRECT) s;
             if go then release_loop is ino s1 else Some (ino, s1) }
      else release_loop is ino s)"

definition blocks_of_size :: "u32 \<Rightarrow> u32" where
  "blocks_of_size sz = (sz + of_nat SFS_BLOCK - 1) div of_nat SFS_BLOCK"

definition release_blocks :: "sfs_inode \<Rightarrow> u32 \<Rightarrow> sfs \<Rightarrow> (sfs_inode \<times> sfs) option" where
  "release_blocks ino from_index s =
     do { (ino1, s1) \<leftarrow> release_loop [unat from_index..<unat (blocks_of_size (isize ino))] ino s;
          if from_index = 0 \<and> indirect ino1 \<noteq> 0
          then do { s2 \<leftarrow> free_block (indirect ino1) s1; Some (ino1\<lparr>indirect := 0\<rparr>, s2) }
          else Some (ino1, s1) }"

definition sfs_file_truncate_inode :: "u32 \<Rightarrow> u32 \<Rightarrow> sfs \<Rightarrow> (int \<times> sfs) option" where
  "sfs_file_truncate_inode number n s =
     do { (i, s1) \<leftarrow> inode_read number s;
          case i of
            None \<Rightarrow> Some (- 1, s1)
          | Some ino \<Rightarrow>
              do { (ino1, s2) \<leftarrow> (if n < isize ino then release_blocks ino (blocks_of_size n) s1 else Some (ino, s1));
                   inode_write number (ino1\<lparr>isize := n, modified := now_seconds s2\<rparr>) s2 } }"

section \<open>Directories\<close>

definition new_dirent :: "cstr \<Rightarrow> u32 \<Rightarrow> sfs_dirent" where
  "new_dirent name child = \<lparr>d_inode = child, name_len = of_nat (strlen name), d_name = name_field SFS_NAME_MAX name\<rparr>"

text \<open>The offsets \<^verbatim>\<open>for (offset = 0; offset < inode.size; offset += SFS_DIRENT_SIZE)\<close> visits.\<close>

definition dirent_offsets :: "u32 \<Rightarrow> u32 list" where
  "dirent_offsets sz = map (\<lambda>k. of_nat (k * SFS_DIRENT_SIZE)) [0..<(unat sz + SFS_DIRENT_SIZE - 1) div SFS_DIRENT_SIZE]"

text \<open>The first hole, if the loop comes to one; a short read ends it.\<close>

fun find_hole :: "u32 \<Rightarrow> u32 list \<Rightarrow> sfs \<Rightarrow> (u32 option \<times> sfs) option" where
  "find_hole dir [] s = Some (None, s)"
| "find_hole dir (offset # os) s =
     do { ((r, bs), s1) \<leftarrow> sfs_file_read dir offset (of_nat SFS_DIRENT_SIZE) s;
          if r \<le> 0 then Some (None, s1)
          else if length bs < 4 then None
          else if le32 bs 0 = 0 then Some (Some offset, s1)
          else find_hole dir os s1 }"

definition dir_add :: "u32 \<Rightarrow> cstr \<Rightarrow> u32 \<Rightarrow> sfs \<Rightarrow> (int \<times> sfs) option" where
  "dir_add dir name child s =
     (if SFS_NAME_MAX \<le> strlen name then Some (- 1, s)
      else
        do { (i, s1) \<leftarrow> inode_read dir s;
             case i of
               None \<Rightarrow> Some (- 1, s1)
             | Some ino \<Rightarrow>
                 do { (hole, s2) \<leftarrow> find_hole dir (dirent_offsets (isize ino)) s1;
                      let offset = (case hole of Some off \<Rightarrow> off | None \<Rightarrow> isize ino);
                      (w, s3) \<leftarrow> sfs_file_write dir offset (dirent_bytes (new_dirent name child)) s2;
                      Some (if 0 < w then 0 else - 1, s3) } })"

fun dir_remove_loop :: "u32 \<Rightarrow> cstr \<Rightarrow> u32 list \<Rightarrow> sfs \<Rightarrow> (int \<times> sfs) option" where
  "dir_remove_loop dir name [] s = Some (- 1, s)"
| "dir_remove_loop dir name (offset # os) s =
     do { ((r, bs), s1) \<leftarrow> sfs_file_read dir offset (of_nat SFS_DIRENT_SIZE) s;
          if r \<le> 0 then Some (- 1, s1)
          else if length bs < SFS_DIRENT_SIZE then None
          else if d_inode (dirent_of bs) = 0 then dir_remove_loop dir name os s1
          else if strcmp (d_name (dirent_of bs)) name = 0 then
            do { (w, s2) \<leftarrow> sfs_file_write dir offset (replicate SFS_DIRENT_SIZE 0) s1; Some (0, s2) }
          else dir_remove_loop dir name os s1 }"

definition dir_remove :: "u32 \<Rightarrow> cstr \<Rightarrow> sfs \<Rightarrow> (int \<times> sfs) option" where
  "dir_remove dir name s =
     do { (i, s1) \<leftarrow> inode_read dir s;
          case i of
            None \<Rightarrow> Some (- 1, s1)
          | Some ino \<Rightarrow> dir_remove_loop dir name (dirent_offsets (isize ino)) s1 }"

section \<open>Queries\<close>

definition sfs_mounted :: "sfs \<Rightarrow> bool" where
  "sfs_mounted s = mounted s"

definition sfs_label :: "sfs \<Rightarrow> cstr" where
  "sfs_label s = (if mounted s then label (super s) else [])"

definition sfs_stats :: "sfs \<Rightarrow> u64 \<times> u64 \<times> u32" where
  "sfs_stats s =
     (if mounted s then ucast (total_blocks (super s)) * of_nat SFS_BLOCK else 0,
      if mounted s then ucast (free_blocks (super s)) * of_nat SFS_BLOCK else 0, inodes_used s)"

end
