(* ===== verification/CNames.thy ===== *)
theory CNames
  imports KString
begin

text \<open>
  Comparing strings: the bytes of a C string before its terminator, and what \<^verbatim>\<open>strcmp\<close> and \<^verbatim>\<open>strncmp\<close> say about them.  The
  file systems look names up with these functions.
\<close>

unbundle bit_operations_syntax

definition text_of :: "cstr \<Rightarrow> u8 list" where
  "text_of s = takeWhile (\<lambda>c. c \<noteq> 0) s"

lemma text_of_simps [simp]: "text_of [] = []" "text_of (c # s) = (if c = 0 then [] else c # text_of s)" "text_of (text_of s) = text_of s"
  by (simp_all add: text_of_def)

lemma text_of_nz: "0 \<notin> set s \<Longrightarrow> text_of s = s" "0 \<notin> set s \<Longrightarrow> text_of (s @ 0 # r) = s" "0 \<notin> set (text_of s)"
  by (auto simp: text_of_def takeWhile_append dest: set_takeWhileD)

lemma strlen_text: "strlen s = length (text_of s)"
  by (induction s) auto

lemma take_strlen: "take (strlen s) s = text_of s"
  by (induction s) auto

lemma hd0_simps [simp]: "hd0 [] = 0" "hd0 (c # s) = c"
  by (simp_all add: hd0_def)

lemma uint_same: "uint a = uint b \<longleftrightarrow> a = b" for a b :: u8
  by (simp add: word_uint_eq_iff)

lemma strcmp_eq_0: "strcmp a b = 0 \<longleftrightarrow> text_of a = text_of b"
proof (induction a b rule: strcmp.induct)
  case (1 b)
  then show ?case by (cases b) (auto simp: uint_0_iff uint_same)
next
  case (2 c a b)
  then show ?case by (cases b) (auto simp: uint_0_iff uint_same)
qed

lemma strcmp_less: "strcmp a b < 0 \<longleftrightarrow> (text_of a, text_of b) \<in> lexord {(x, y). x < y}"
proof (induction a b rule: strcmp.induct)
  case (1 b)
  then show ?case by (cases b) (auto simp: word_less_def uint_0_iff intro: le_neq_trans)
next
  case (2 c a b)
  then show ?case by (cases b) (auto simp: word_less_def uint_0_iff intro: le_neq_trans)
qed

lemma strncmp_full: "length n = k \<Longrightarrow> 0 \<notin> set n \<Longrightarrow> strlen c = k \<Longrightarrow> strncmp c (n @ r) k = 0 \<longleftrightarrow> text_of c = n"
proof (induction k arbitrary: c n)
  case (Suc k)
  obtain x n' where n: "n = x # n'" using Suc.prems(1) by (cases n) auto
  obtain y c' where c: "c = y # c'" "y \<noteq> 0" using Suc.prems(3) by (cases c) (auto split: if_splits)
  show ?case using Suc n c by (auto simp: uint_same)
qed (simp add: strlen_text)

lemma text_name_field: "strlen s < n \<Longrightarrow> text_of (put_bytes (take (strlen s) s @ [0]) (replicate n 0)) = text_of s"
  using text_of_nz(2) [OF text_of_nz(3)] by (simp add: put_bytes_def take_strlen)

end
