(* ===== verification/VfsNode.thy ===== *)
theory VfsNode
  imports Sfs CNames
begin

text \<open>
  The node tree of \<^verbatim>\<open>kernel/fs/vfs.c\<close>: nodes on the kernel heap, the lists of children, and the functions that walk the tree.  The operations
  that go through the table of a file system are in theory \<open>Vfs\<close>.
\<close>

unbundle bit_operations_syntax

section \<open>Nodes\<close>

definition FS_FILE :: u8 where "FS_FILE = 1"
definition FS_DIR :: u8 where "FS_DIR = 2"

text \<open>The two tables of operations, \<^verbatim>\<open>ramfs_ops()\<close> and \<^verbatim>\<open>sfs_ops()\<close>.\<close>

datatype fs_ops = Ramfs_ops | Sfs_ops

record fs_node =
  nname :: cstr
  ntype :: u8
  readonly :: u8
  nsize :: u32
  backend :: u32
  nops :: "fs_ops option"
  nparent :: u32
  first_child :: u32
  next_sibling :: u32
  created_ms :: u64
  modified_ms :: u64

record ramfs_data =
  rbytes :: u32
  capacity :: u32

text \<open>
  The state of the file layer: the disk file system with the kernel state below it, the nodes and the descriptors of RAM files by
  their address on the kernel heap, and the static variables of \<^verbatim>\<open>vfs.c\<close>.
\<close>

record fs =
  disk :: sfs
  nodes :: "u32 \<Rightarrow> fs_node"
  ram :: "u32 \<Rightarrow> ramfs_data"
  vroot :: u32
  node_count :: u32

definition heap_of :: "fs \<Rightarrow> kheap" where
  "heap_of v = kh (ker (disk v))"

definition set_heap :: "kheap \<Rightarrow> fs \<Rightarrow> fs" where
  "set_heap h v = v\<lparr>disk := (disk v)\<lparr>ker := (ker (disk v))\<lparr>kh := h\<rparr>\<rparr>\<rparr>"

definition fs_kcalloc :: "u32 \<Rightarrow> u32 \<Rightarrow> fs \<Rightarrow> (u32 \<times> fs) option" where
  "fs_kcalloc n sz v = do { (p, h) \<leftarrow> kcalloc n sz (heap_of v); Some (p, set_heap h v) }"

definition fs_krealloc :: "u32 \<Rightarrow> u32 \<Rightarrow> fs \<Rightarrow> (u32 \<times> fs) option" where
  "fs_krealloc p sz v = do { (q, h) \<leftarrow> krealloc p sz (heap_of v); Some (q, set_heap h v) }"

definition fs_kfree :: "u32 \<Rightarrow> fs \<Rightarrow> fs option" where
  "fs_kfree p v = do { h \<leftarrow> kfree p (heap_of v); Some (set_heap h v) }"

definition upd_node :: "u32 \<Rightarrow> (fs_node \<Rightarrow> fs_node) \<Rightarrow> fs \<Rightarrow> fs" where
  "upd_node p f v = v\<lparr>nodes := (nodes v)(p := f (nodes v p))\<rparr>"

text \<open>\<^verbatim>\<open>sizeof(struct fs_node)\<close> on the 32-bit target.\<close>

definition FS_NODE_SIZE :: u32 where "FS_NODE_SIZE = 76"

definition zero_node :: fs_node where
  "zero_node = \<lparr>nname = replicate FS_NAME_MAX 0, ntype = 0, readonly = 0, nsize = 0, backend = 0, nops = None, nparent = 0, first_child = 0,
     next_sibling = 0, created_ms = 0, modified_ms = 0\<rparr>"

definition node_alloc :: "cstr \<Rightarrow> u8 \<Rightarrow> fs_ops option \<Rightarrow> fs \<Rightarrow> (u32 \<times> fs) option" where
  "node_alloc name ty ops v =
     do { (p, v1) \<leftarrow> fs_kcalloc 1 FS_NODE_SIZE v;
          if p = 0 then Some (0, v1)
          else
            let now = timer_ms (ker (disk v1));
                nd = zero_node\<lparr>nname := name_field FS_NAME_MAX name, ntype := ty,
                  nops := Some (case ops of Some o1 \<Rightarrow> o1 | None \<Rightarrow> Ramfs_ops), created_ms := now, modified_ms := now\<rparr>
            in Some (p, v1\<lparr>nodes := (nodes v1)(p := nd), node_count := node_count v1 + 1\<rparr>) }"

definition vfs_node_new :: "cstr \<Rightarrow> u8 \<Rightarrow> fs_ops option \<Rightarrow> u32 \<Rightarrow> u32 \<Rightarrow> fs \<Rightarrow> (u32 \<times> fs) option" where
  "vfs_node_new name ty ops back sz v =
     do { (p, v1) \<leftarrow> node_alloc name ty ops v;
          if p = 0 then Some (0, v1) else Some (p, upd_node p (\<lambda>n. n\<lparr>backend := back, nsize := sz\<rparr>) v1) }"

section \<open>The tree\<close>

text \<open>
  Children of a directory are a list linked through \<^verbatim>\<open>next_sibling\<close>.  The loops along it are partial functions: on a cyclic list they would not
  end.  The pointers to pointers the code walks with are the two kinds of place a pointer to a node is stored in.
\<close>

partial_function (option) find_sibling :: "(u32 \<Rightarrow> fs_node) \<Rightarrow> u32 \<Rightarrow> cstr \<Rightarrow> nat \<Rightarrow> u32 option" where
  "find_sibling ns c name n =
     (if c = 0 then Some 0
      else if strlen (nname (ns c)) = n \<and> strncmp (nname (ns c)) name n = 0 then Some c
      else find_sibling ns (next_sibling (ns c)) name n)"

definition find_child :: "(u32 \<Rightarrow> fs_node) \<Rightarrow> u32 \<Rightarrow> cstr \<Rightarrow> nat \<Rightarrow> u32 option" where
  "find_child ns dir name n =
     (if dir = 0 \<or> ntype (ns dir) \<noteq> FS_DIR then Some 0 else find_sibling ns (first_child (ns dir)) name n)"

datatype slot = First_child u32 | Next_sibling u32

fun slot_get :: "(u32 \<Rightarrow> fs_node) \<Rightarrow> slot \<Rightarrow> u32" where
  "slot_get ns (First_child d) = first_child (ns d)"
| "slot_get ns (Next_sibling c) = next_sibling (ns c)"

fun slot_set :: "slot \<Rightarrow> u32 \<Rightarrow> (u32 \<Rightarrow> fs_node) \<Rightarrow> u32 \<Rightarrow> fs_node" where
  "slot_set (First_child d) p ns = ns(d := (ns d)\<lparr>first_child := p\<rparr>)"
| "slot_set (Next_sibling c) p ns = ns(c := (ns c)\<lparr>next_sibling := p\<rparr>)"

partial_function (option) link_slot :: "(u32 \<Rightarrow> fs_node) \<Rightarrow> slot \<Rightarrow> cstr \<Rightarrow> slot option" where
  "link_slot ns sl name =
     (let c = slot_get ns sl
      in if c \<noteq> 0 \<and> strcmp (nname (ns c)) name < 0 then link_slot ns (Next_sibling c) name else Some sl)"

definition link_child :: "u32 \<Rightarrow> u32 \<Rightarrow> (u32 \<Rightarrow> fs_node) \<Rightarrow> (u32 \<Rightarrow> fs_node) option" where
  "link_child dir child ns =
     do { sl \<leftarrow> link_slot ns (First_child dir) (nname (ns child));
          let ns1 = ns(child := (ns child)\<lparr>next_sibling := slot_get ns sl\<rparr>);
          let ns2 = slot_set sl child ns1;
          Some (ns2(child := (ns2 child)\<lparr>nparent := dir\<rparr>)) }"

partial_function (option) unlink_slot :: "(u32 \<Rightarrow> fs_node) \<Rightarrow> slot \<Rightarrow> u32 \<Rightarrow> slot option option" where
  "unlink_slot ns sl child =
     (let c = slot_get ns sl
      in if c = 0 then Some None else if c = child then Some (Some sl) else unlink_slot ns (Next_sibling c) child)"

definition unlink_child :: "u32 \<Rightarrow> u32 \<Rightarrow> (u32 \<Rightarrow> fs_node) \<Rightarrow> (u32 \<Rightarrow> fs_node) option" where
  "unlink_child dir child ns =
     do { r \<leftarrow> unlink_slot ns (First_child dir) child;
          case r of
            None \<Rightarrow> Some ns
          | Some sl \<Rightarrow>
              let ns1 = slot_set sl (next_sibling (ns child)) ns
              in Some (ns1(child := (ns1 child)\<lparr>next_sibling := 0, nparent := 0\<rparr>)) }"

definition vfs_attach :: "u32 \<Rightarrow> u32 \<Rightarrow> fs \<Rightarrow> fs option" where
  "vfs_attach par child v = do { ns \<leftarrow> link_child par child (nodes v); Some (v\<lparr>nodes := ns\<rparr>) }"

definition vfs_set_root :: "u32 \<Rightarrow> fs \<Rightarrow> fs" where
  "vfs_set_root p v = upd_node p (\<lambda>n. n\<lparr>nparent := 0\<rparr>) (v\<lparr>vroot := p\<rparr>)"

definition vfs_root :: "fs \<Rightarrow> u32" where
  "vfs_root v = vroot v"

definition vfs_node_count :: "fs \<Rightarrow> u32" where
  "vfs_node_count v = node_count v"

partial_function (option) sum_siblings :: "(u32 \<Rightarrow> fs_node) \<Rightarrow> u32 \<Rightarrow> u64 option" where
  "sum_siblings ns c =
     (if c = 0 then Some 0
      else do { below \<leftarrow> sum_siblings ns (first_child (ns c));
                rest \<leftarrow> sum_siblings ns (next_sibling (ns c));
                Some (ucast (nsize (ns c)) + below + rest) })"

definition sum_bytes :: "(u32 \<Rightarrow> fs_node) \<Rightarrow> u32 \<Rightarrow> u64 option" where
  "sum_bytes ns p = do { below \<leftarrow> sum_siblings ns (first_child (ns p)); Some (ucast (nsize (ns p)) + below) }"

definition vfs_bytes_used :: "fs \<Rightarrow> u64 option" where
  "vfs_bytes_used v = (if vroot v \<noteq> 0 then sum_bytes (nodes v) (vroot v) else Some 0)"

section \<open>Paths and nodes\<close>

text \<open>The loop of \<^verbatim>\<open>vfs_lookup\<close> over the absolute path.\<close>

function lookup_loop :: "(u32 \<Rightarrow> fs_node) \<Rightarrow> u32 \<Rightarrow> cstr \<Rightarrow> u32 option" where
  "lookup_loop ns node p =
     (let p1 = skip_slashes p
      in if hd0 p1 = 0 then Some node
         else
           let n = length (first_seg p1)
           in case find_child ns node p1 n of
                None \<Rightarrow> None
              | Some c \<Rightarrow> if c = 0 then Some 0 else lookup_loop ns c (drop n p1))"
  by pat_completeness auto
termination
  by (relation "measure (\<lambda>(ns, node, p). length p)") (use skip_first_shorter in auto)

declare lookup_loop.simps [simp del]

definition vfs_lookup :: "cstr option \<Rightarrow> cstr \<Rightarrow> fs \<Rightarrow> u32 option" where
  "vfs_lookup cwd0 path v =
     (case vfs_abspath cwd0 path (replicate FS_PATH_MAX 0) FS_PATH_MAX of (r, absolute) \<Rightarrow>
        if r < 0 then Some 0 else lookup_loop (nodes v) (vroot v) absolute)"

text \<open>\<^verbatim>\<open>vfs_path_of\<close>: at most 32 ancestors are collected, the names then written from the top down.\<close>

fun path_chain :: "nat \<Rightarrow> (u32 \<Rightarrow> fs_node) \<Rightarrow> u32 \<Rightarrow> u32 list" where
  "path_chain 0 ns p = []"
| "path_chain (Suc k) ns p = (if p \<noteq> 0 \<and> nparent (ns p) \<noteq> 0 then p # path_chain k ns (nparent (ns p)) else [])"

fun path_text :: "cstr list \<Rightarrow> nat \<Rightarrow> cstr \<Rightarrow> int \<times> cstr" where
  "path_text [] sz st = (0, st)"
| "path_text (name # names) sz st =
     (if sz \<le> length st + 1 + strlen name then (- 1, st)
      else path_text names sz (st @ SLASH # take (strlen name) name))"

definition vfs_path_of :: "u32 \<Rightarrow> u8 list \<Rightarrow> nat \<Rightarrow> fs \<Rightarrow> int \<times> u8 list" where
  "vfs_path_of node out sz v =
     (if node = 0 \<or> sz = 0 then (- 1, out)
      else case path_chain 32 (nodes v) node of
        [] \<Rightarrow> (0, snd (strlcpy out [SLASH] sz))
      | chain \<Rightarrow> (case path_text (map (\<lambda>p. nname (nodes v p)) (rev chain)) sz [] of (r, st) \<Rightarrow> (r, put_bytes (st @ [0]) out)))"

end
