(* ===== verification/Ramfs.thy ===== *)
theory Ramfs
  imports VfsNode
begin

text \<open>
  The RAM file system \<^verbatim>\<open>kernel/fs/ramfs.c\<close>: the bytes of a file live in a block of the kernel heap that doubles when the file outgrows it.
  The bytes are those of the heap's memory; the descriptor \<^verbatim>\<open>struct ramfs_data\<close> is a record by its address.
\<close>

unbundle bit_operations_syntax

section \<open>Operations\<close>

definition RAMFS_MAX_FILE :: u32 where "RAMFS_MAX_FILE = 0x400000"

definition ramfs_create :: "u32 \<Rightarrow> fs \<Rightarrow> (int \<times> fs) option" where
  "ramfs_create p v =
     (if ntype (nodes v p) \<noteq> FS_FILE then Some (0, upd_node p (\<lambda>n. n\<lparr>backend := 0\<rparr>) v)
      else
        do { (d, v1) \<leftarrow> fs_kcalloc 1 8 v;
             if d = 0 then Some (- 1, v1)
             else Some (0, upd_node p (\<lambda>n. n\<lparr>backend := d\<rparr>) (v1\<lparr>ram := (ram v1)(d := \<lparr>rbytes = 0, capacity = 0\<rparr>)\<rparr>)) })"

definition ramfs_destroy :: "u32 \<Rightarrow> fs \<Rightarrow> fs option" where
  "ramfs_destroy p v =
     (let d = backend (nodes v p)
      in if d = 0 then Some v
         else
           do { v1 \<leftarrow> fs_kfree (rbytes (ram v d)) v;
                v2 \<leftarrow> fs_kfree d v1;
                Some (upd_node p (\<lambda>n. n\<lparr>backend := 0\<rparr>) v2) })"

text \<open>\<^verbatim>\<open>while (capacity < needed) capacity *= 2;\<close>\<close>

partial_function (option) double_to :: "u32 \<Rightarrow> u32 \<Rightarrow> u32 option" where
  "double_to needed c = (if c < needed then double_to needed (c * 2) else Some c)"

definition ensure_capacity :: "u32 \<Rightarrow> u32 \<Rightarrow> fs \<Rightarrow> (int \<times> fs) option" where
  "ensure_capacity d needed v =
     (let r = ram v d
      in if needed \<le> capacity r then Some (0, v)
         else if RAMFS_MAX_FILE < needed then Some (- 1, v)
         else
           do { c \<leftarrow> double_to needed (if capacity r \<noteq> 0 then capacity r else 64);
                (b, v1) \<leftarrow> fs_krealloc (rbytes r) c v;
                if b = 0 then Some (- 1, v1)
                else
                  let h = heap_of v1;
                      v2 = set_heap (h\<lparr>kmem := memset (b + capacity r) 0 (c - capacity r) (kmem h)\<rparr>) v1
                  in Some (0, v2\<lparr>ram := (ram v2)(d := \<lparr>rbytes = b, capacity = c\<rparr>)\<rparr>) })"

text \<open>Bytes of the caller's buffer copied into and out of the memory of the heap.\<close>

definition load_mem :: "memory \<Rightarrow> u32 \<Rightarrow> u32 \<Rightarrow> u8 list" where
  "load_mem m a n = map (\<lambda>i. m (a + of_nat i)) [0..<unat n]"

fun store_mem :: "u32 \<Rightarrow> u8 list \<Rightarrow> memory \<Rightarrow> memory" where
  "store_mem a [] m = m"
| "store_mem a (b # bs) m = store_mem (a + 1) bs (m(a := b))"

definition ramfs_read :: "u32 \<Rightarrow> u32 \<Rightarrow> u32 \<Rightarrow> fs \<Rightarrow> int \<times> u8 list" where
  "ramfs_read p offset n v =
     (let nd = nodes v p; d = backend nd
      in if d = 0 \<or> nsize nd \<le> offset then (0, [])
         else
           let n1 = (if nsize nd < offset + n then nsize nd - offset else n)
           in (sint n1, load_mem (kmem (heap_of v)) (rbytes (ram v d) + offset) n1))"

definition ramfs_write :: "u32 \<Rightarrow> u32 \<Rightarrow> u8 list \<Rightarrow> fs \<Rightarrow> (int \<times> fs) option" where
  "ramfs_write p offset dat v =
     (let d = backend (nodes v p); n = of_nat (length dat)
      in if d = 0 then Some (- 1, v)
         else
           do { (r, v1) \<leftarrow> ensure_capacity d (offset + n) v;
                if r < 0 then Some (- 1, v1)
                else
                  let h = heap_of v1;
                      v2 = set_heap (h\<lparr>kmem := store_mem (rbytes (ram v1 d) + offset) dat (kmem h)\<rparr>) v1
                  in Some (sint n, if nsize (nodes v2 p) < offset + n then upd_node p (\<lambda>nd. nd\<lparr>nsize := offset + n\<rparr>) v2 else v2) })"

definition ramfs_truncate :: "u32 \<Rightarrow> u32 \<Rightarrow> fs \<Rightarrow> (int \<times> fs) option" where
  "ramfs_truncate p n v =
     (let d = backend (nodes v p); old = nsize (nodes v p)
      in if d = 0 then Some (- 1, v)
         else
           do { (r, v1) \<leftarrow> (if old < n then ensure_capacity d n v else Some (0, v));
                if r < 0 then Some (- 1, v1)
                else
                  let h = heap_of v1;
                      v2 = (if old < n then set_heap (h\<lparr>kmem := memset (rbytes (ram v1 d) + old) 0 (n - old) (kmem h)\<rparr>) v1 else v1)
                  in Some (0, upd_node p (\<lambda>nd. nd\<lparr>nsize := n\<rparr>) v2) })"

section \<open>Buffers\<close>

lemma heap_fs [simp]: "heap_of (set_heap h v) = h" "ram (set_heap h v) = ram v" "nodes (set_heap h v) = nodes v"
  "heap_of (upd_node p f v) = heap_of v" "ram (upd_node p f v) = ram v" "nodes (upd_node p f v) = (nodes v)(p := f (nodes v p))"
  "heap_of (v\<lparr>ram := R\<rparr>) = heap_of v"
  by (simp_all add: heap_of_def set_heap_def upd_node_def)

text \<open>
  A descriptor whose buffer is a live block of the heap, at least as large as its capacity: no buffer yet, or a power of two between 64 bytes and the largest file.
\<close>

definition ram_ok :: "cell list \<Rightarrow> ramfs_data \<Rightarrow> bool" where
  "ram_ok cs r \<longleftrightarrow> (if capacity r = 0 then rbytes r = 0 else \<exists>s. capacity r \<le> s \<and> (rbytes r, s) \<in> live_blocks cs) \<and>
     (capacity r = 0 \<or> (\<exists>k \<le> 16. unat (capacity r) = 64 * 2 ^ k))"

definition own :: "cell list \<Rightarrow> ramfs_data \<Rightarrow> (u32 \<times> u32) set" where
  "own cs r = {b \<in> live_blocks cs. fst b = rbytes r}"

lemma live_unique: "heap_ok h cs \<Longrightarrow> (p, s) \<in> live_blocks cs \<Longrightarrow> (p, t) \<in> live_blocks cs \<Longrightarrow> s = t"
  using live_header by metis

lemma live_apart:
  assumes "heap_ok h cs" and "a \<in> live_blocks cs" and "b \<in> live_blocks cs" and "a \<noteq> b" and "payload a x"
  shows "\<not> payload b x"
proof -
  obtain l where l: "placed 0xD0000000 cs (unat (heap_end h))" "unat (heap_end h) < 2 ^ 32" using heap_okD [OF assms(1)] by metis
  obtain c where c: "c \<in> set cs" "\<not> is_free c" "a = (at c + HEADER_SIZE, len c)" using assms(2) by (auto simp: live_blocks_def)
  obtain xs ys where s: "cs = xs @ c # ys" using c(1) by (auto simp: in_set_conv_decomp)
  have "b \<in> live_blocks xs \<union> live_blocks ys" using assms(3,4) c unfolding s by auto
  then show ?thesis using live_disjoint [OF l [unfolded s]] assms(5) c(3) by (auto simp: disjoint_from_def)
qed

lemma own_simps: "heap_ok h cs \<Longrightarrow> (rbytes r, s) \<in> live_blocks cs \<Longrightarrow> own cs r = {(rbytes r, s)}"
  "heap_ok h cs \<Longrightarrow> rbytes r = 0 \<Longrightarrow> own cs r = {}"
proof -
  show "heap_ok h cs \<Longrightarrow> (rbytes r, s) \<in> live_blocks cs \<Longrightarrow> own cs r = {(rbytes r, s)}"
    using live_unique by (fastforce simp: own_def)
  show "heap_ok h cs \<Longrightarrow> rbytes r = 0 \<Longrightarrow> own cs r = {}" using live_header by (fastforce simp: own_def)
qed

lemma double_to_ok:
  assumes "unat c = 64 * 2 ^ k" and "k \<le> 16" and "unat needed \<le> 2 ^ 22"
  shows "\<exists>j \<le> 16. \<exists>c'. double_to needed c = Some c' \<and> unat c' = 64 * 2 ^ j \<and> needed \<le> c' \<and> c \<le> c'"
  using assms
proof (induction "16 - k" arbitrary: c k)
  case 0
  then have "unat c = 2 ^ 22" by simp
  then have "\<not> c < needed" using 0 by (simp add: word_less_nat_alt)
  then show ?case using 0 by (subst double_to.simps) (auto simp: not_less)
next
  case (Suc n)
  show ?case
  proof (cases "c < needed")
    case True
    have k: "k < 16" "n = 16 - (k + 1)" using Suc by auto
    have "64 * 2 ^ k \<le> (64 :: nat) * 2 ^ 15" using k by (intro mult_le_mono power_increasing) simp_all
    then have u: "unat (c * 2) = 64 * 2 ^ (k + 1)" using Suc.prems(1) by (simp add: unat_word_ariths)
    obtain j c' where "j \<le> 16" "double_to needed (c * 2) = Some c'" "unat c' = 64 * 2 ^ j" "needed \<le> c'" "c * 2 \<le> c'"
      using Suc.hyps(1) [OF k(2) u] k(1) Suc.prems(3) by auto
    moreover have "c \<le> c * 2" using u Suc.prems(1) by (simp add: word_le_nat_alt)
    ultimately show ?thesis using True by (subst double_to.simps) (auto intro: order_trans)
  next
    case False
    then show ?thesis using Suc.prems by (subst double_to.simps) (auto simp: not_less)
  qed
qed

lemma resize_ok:
  assumes h: "heap_ok h cs" and r: "ram_ok cs r" and c: "capacity r < c" "unat c \<le> 2 ^ 22"
  shows "\<exists>b h' cs'. krealloc (rbytes r) c h = Some (b, h') \<and> heap_ok h' cs' \<and> contents_kept (live_blocks cs - own cs r) h h' \<and>
    (b = 0 \<and> live_blocks cs' = live_blocks cs \<and> contents_kept (live_blocks cs) h h' \<or>
     b \<noteq> 0 \<and> (\<exists>t \<ge> c. live_blocks cs' = insert (b, t) (live_blocks cs - own cs r) \<and> b \<notin> fst ` (live_blocks cs - own cs r)) \<and>
       (\<forall>i < capacity r. kmem h' (b + i) = kmem h (rbytes r + i)))"
proof -
  have c0: "c \<noteq> 0" "unat c \<le> 0x2AFFFFF8" using c by auto
  show ?thesis
  proof (cases "capacity r = 0")
    case True
    then have b0: "rbytes r = 0" using r by (simp add: ram_ok_def)
    note o = own_simps(2) [OF h b0]
    obtain b h' cs' where k: "kmalloc c h = Some (b, h')" "heap_ok h' cs'" "contents_kept (live_blocks cs) h h'"
        "allocates c cs b cs' \<or> b = 0 \<and> live_blocks cs' = live_blocks cs" using kmalloc_spec [OF h c0] by blast
    have "krealloc (rbytes r) c h = Some (b, h')" using k(1) b0 by (simp add: krealloc_def)
    then show ?thesis using k(2-4) True unfolding o by (auto simp: allocates_def word_le_nat_alt)
  next
    case False
    then obtain s where s: "capacity r \<le> s" "(rbytes r, s) \<in> live_blocks cs" using r by (auto simp: ram_ok_def)
    note o = own_simps(1) [OF h s(2)]
    have nf: "rbytes r \<notin> fst ` (live_blocks cs - {(rbytes r, s)})" using live_unique [OF h] s(2) by fastforce
    from krealloc_spec [OF h s(2) c0] obtain b h' cs' where k: "krealloc (rbytes r) c h = Some (b, h')" "heap_ok h' cs'"
        "contents_kept (live_blocks cs - {(rbytes r, s)}) h h'"
        "b = rbytes r \<and> c \<le> s \<and> h' = h \<or> b = 0 \<and> live_blocks cs' = live_blocks cs \<and> contents_kept (live_blocks cs) h h' \<or>
         b \<noteq> 0 \<and> s < c \<and> b \<notin> fst ` live_blocks cs \<and> (\<exists>t \<ge> c. live_blocks cs' = insert (b, t) (live_blocks cs - {(rbytes r, s)})) \<and> (\<forall>i < s. kmem h' (b + i) = kmem h (rbytes r + i))"
      by blast
    from k(4) show ?thesis
    proof (elim disjE conjE)
      assume a: "b = rbytes r" "c \<le> s" "h' = h"
      then have "live_blocks cs = insert (b, s) (live_blocks cs - {(rbytes r, s)})" "b \<noteq> 0" using s(2) live_header [OF h s(2)] by auto
      then show ?thesis using k(1,3) h a nf unfolding o by (intro exI [of _ b] exI [of _ h] exI [of _ cs]) auto
    next
      assume "b = 0" "live_blocks cs' = live_blocks cs" "contents_kept (live_blocks cs) h h'"
      then show ?thesis using k(1-3) unfolding o by blast
    next
      assume a: "b \<noteq> 0" "s < c" "\<exists>t \<ge> c. live_blocks cs' = insert (b, t) (live_blocks cs - {(rbytes r, s)})" "\<forall>i < s. kmem h' (b + i) = kmem h (rbytes r + i)"
        "b \<notin> fst ` live_blocks cs"
      then obtain t where t: "c \<le> t" "live_blocks cs' = insert (b, t) (live_blocks cs - {(rbytes r, s)})" by blast
      have "b \<notin> fst ` (live_blocks cs - {(rbytes r, s)})" using a(5) by auto
      then show ?thesis using k(1-3) a(1,4) t s(1) unfolding o by (intro exI [of _ b] exI [of _ h'] exI [of _ cs']) auto
    qed
  qed
qed

text \<open>
  The operations on one file change only the descriptor and the buffer of that file: every other block of the heap stays live with its contents.
\<close>

definition buf_frame :: "u32 \<Rightarrow> fs \<Rightarrow> cell list \<Rightarrow> fs \<Rightarrow> cell list \<Rightarrow> bool" where
  "buf_frame d v cs v' cs' \<longleftrightarrow> heap_ok (heap_of v') cs' \<and> ram_ok cs' (ram v' d) \<and> (\<forall>e. e \<noteq> d \<longrightarrow> ram v' e = ram v e) \<and>
     live_blocks cs' - own cs' (ram v' d) = live_blocks cs - own cs (ram v d) \<and>
     contents_kept (live_blocks cs - own cs (ram v d)) (heap_of v) (heap_of v')"

definition rbyte :: "fs \<Rightarrow> u32 \<Rightarrow> nat \<Rightarrow> u8" where
  "rbyte v d i = kmem (heap_of v) (rbytes (ram v d) + of_nat i)"

lemma buf_write:
  assumes h: "heap_ok (heap_of v) cs" and r: "ram_ok cs (ram v d)"
    and m: "\<And>x. m x \<noteq> kmem (heap_of v) x \<Longrightarrow> unat (x - rbytes (ram v d)) < unat (capacity (ram v d))"
  shows "buf_frame d v cs (set_heap ((heap_of v)\<lparr>kmem := m\<rparr>) v) cs"
proof (cases "capacity (ram v d) = 0")
  case True
  then have "m = kmem (heap_of v)" using m by (intro HOL.ext) (metis not_less0 unat_0)
  then show ?thesis using h r by (simp add: buf_frame_def contents_kept_def)
next
  case False
  then obtain s where s: "capacity (ram v d) \<le> s" "(rbytes (ram v d), s) \<in> live_blocks cs" using r by (auto simp: ram_ok_def)
  have b: "unat (rbytes (ram v d)) + unat s \<le> 2 ^ 32" using live_bounds [OF h s(2)] by simp
  have p: "payload (rbytes (ram v d), s) x" if "m x \<noteq> kmem (heap_of v) x" for x
    using m [OF that] s(1) offset_payload [OF b, of x] by (simp add: word_le_nat_alt)
  have "heap_ok ((heap_of v)\<lparr>kmem := m\<rparr>) cs" using payload_write [OF h s(2)] p by blast
  moreover have "contents_kept (live_blocks cs - own cs (ram v d)) (heap_of v) ((heap_of v)\<lparr>kmem := m\<rparr>)"
    unfolding contents_kept_def own_simps(1) [OF h s(2)]
  proof (intro allI impI)
    fix a x
    assume a: "a \<in> live_blocks cs - {(rbytes (ram v d), s)}" "payload a x"
    then show "kmem ((heap_of v)\<lparr>kmem := m\<rparr>) x = kmem (heap_of v) x" using p live_apart [OF h s(2), of a x] by auto
  qed
  ultimately show ?thesis using r by (simp add: buf_frame_def)
qed

lemma buf_frame_refl: "heap_ok (heap_of v) cs \<Longrightarrow> ram_ok cs (ram v d) \<Longrightarrow> buf_frame d v cs v cs"
  by (simp add: buf_frame_def contents_kept_def)

lemma buf_frame_trans:
  assumes "buf_frame d v cs v1 cs1" and "buf_frame d v1 cs1 v2 cs2"
  shows "buf_frame d v cs v2 cs2"
proof -
  have k: "contents_kept (live_blocks cs - own cs (ram v d)) (heap_of v) (heap_of v1)"
    "contents_kept (live_blocks cs - own cs (ram v d)) (heap_of v1) (heap_of v2)" using assms by (auto simp: buf_frame_def)
  have "contents_kept (live_blocks cs - own cs (ram v d)) (heap_of v) (heap_of v2)"
    unfolding contents_kept_def
  proof (intro allI impI)
    fix a x
    assume a: "a \<in> live_blocks cs - own cs (ram v d)" "payload a x"
    then have "kmem (heap_of v2) x = kmem (heap_of v1) x" "kmem (heap_of v1) x = kmem (heap_of v) x" using k unfolding contents_kept_def by blast+
    then show "kmem (heap_of v2) x = kmem (heap_of v) x" by simp
  qed
  then show ?thesis using assms by (auto simp: buf_frame_def)
qed

lemma offset_in:
  fixes lo :: u32
  assumes "i < 2 ^ 32" and "unat lo + n \<le> 2 ^ 32"
  shows "unat (of_nat i - lo) < n \<longleftrightarrow> unat lo \<le> i \<and> i < unat lo + n"
proof -
  have un: "unat (of_nat i :: u32) = i" using assms(1) by (simp add: unsigned_of_nat take_bit_eq_mod)
  show ?thesis
  proof (cases "unat lo \<le> i")
    case True
    then have "unat (of_nat i - lo) = i - unat lo" using un by (simp add: unat_sub word_le_nat_alt)
    then show ?thesis using True by auto
  next
    case False
    then have "unat (of_nat i - lo) = 2 ^ 32 + i - unat lo" using un unat_lt2p [of lo] by (simp add: unat_word_ariths unat_sub_if_size word_size)
    then show ?thesis using False assms(2) by simp
  qed
qed

text \<open>Clearing and storing a range of the buffer.\<close>

lemma in_range:
  fixes lo c :: u32
  assumes "unat (x - (b + lo)) < n" and "unat lo + n \<le> unat c"
  shows "unat (x - b) < unat c"
proof -
  have l: "unat (x - (b + lo)) + unat lo < unat c" using assms by simp
  then have "unat ((x - (b + lo)) + lo) = unat (x - (b + lo)) + unat lo" using order_less_trans [OF l unat_lt2p] by (intro unat_add_lem [THEN iffD1]) simp
  then show ?thesis using l by simp
qed

lemma clear_range:
  assumes h: "heap_ok (heap_of v) cs" and r: "ram_ok cs (ram v d)" and lo: "lo \<le> hi" "hi \<le> capacity (ram v d)"
    and v': "v' = set_heap ((heap_of v)\<lparr>kmem := memset (rbytes (ram v d) + lo) 0 (hi - lo) (kmem (heap_of v))\<rparr>) v"
  shows "buf_frame d v cs v' cs" and "i < unat (capacity (ram v d)) \<Longrightarrow> rbyte v' d i = (if unat lo \<le> i \<and> i < unat hi then 0 else rbyte v d i)"
proof -
  have u: "unat (hi - lo) = unat hi - unat lo" "unat lo \<le> unat hi" "unat hi \<le> unat (capacity (ram v d))"
    using lo by (simp_all add: unat_sub word_le_nat_alt)
  show "buf_frame d v cs v' cs"
    unfolding v' using u in_range [of _ "rbytes (ram v d)" lo "unat (hi - lo)" "capacity (ram v d)"]
    by (intro buf_write [OF h r]) (auto simp: memset_spec split: if_splits)
  assume i: "i < unat (capacity (ram v d))"
  then have "i < 2 ^ 32" "unat lo + unat (hi - lo) \<le> 2 ^ 32" using u unat_lt2p [of "capacity (ram v d)"] by simp_all
  note offset_in [OF this]
  then show "rbyte v' d i = (if unat lo \<le> i \<and> i < unat hi then 0 else rbyte v d i)" using u by (simp add: rbyte_def v' memset_spec)
qed

lemma store_mem_spec: "length bs < 2 ^ 32 \<Longrightarrow> store_mem a bs m x = (if unat (x - a) < length bs then bs ! unat (x - a) else m x)"
proof (induction bs arbitrary: a m)
  case (Cons b bs)
  show ?case
  proof (cases "x = a")
    case True
    have "unat (- 1 :: u32) = 2 ^ 32 - 1" by (simp add: unsigned_minus_1_eq_mask mask_eq_exp_minus_1)
    then have "unat (a - (a + 1)) = 2 ^ 32 - 1" by simp
    then show ?thesis using Cons True by simp
  next
    case False
    have "unat (x - a) \<noteq> 0" using False by (simp add: unat_eq_0)
    moreover have "unat (x - (a + 1)) = unat (x - a) - 1"
    proof -
      have "x - (a + 1) = (x - a) - 1" by simp
      then show ?thesis using False by (simp only:) (simp add: unat_minus_one)
    qed
    ultimately show ?thesis using Cons False by (simp add: nth_Cons') linarith
  qed
qed simp

lemma store_range:
  assumes h: "heap_ok (heap_of v) cs" and r: "ram_ok cs (ram v d)" and lo: "unat lo + length bs \<le> unat (capacity (ram v d))"
    and v': "v' = set_heap ((heap_of v)\<lparr>kmem := store_mem (rbytes (ram v d) + lo) bs (kmem (heap_of v))\<rparr>) v"
  shows "buf_frame d v cs v' cs"
    and "i < unat (capacity (ram v d)) \<Longrightarrow> rbyte v' d i = (if unat lo \<le> i \<and> i < unat lo + length bs then bs ! (i - unat lo) else rbyte v d i)"
proof -
  have l: "length bs < 2 ^ 32" using lo unat_lt2p [of "capacity (ram v d)"] by simp
  show "buf_frame d v cs v' cs"
    unfolding v' using lo in_range [of _ "rbytes (ram v d)" lo "length bs" "capacity (ram v d)"]
    by (intro buf_write [OF h r]) (auto simp: store_mem_spec [OF l] split: if_splits)
  assume i: "i < unat (capacity (ram v d))"
  then have i2: "i < 2 ^ 32" "unat lo + length bs \<le> 2 ^ 32" using lo unat_lt2p [of "capacity (ram v d)"] by simp_all
  have "unat (of_nat i - lo) = i - unat lo" if "unat lo \<le> i"
    using that i2(1) by (simp add: unat_sub word_le_nat_alt unsigned_of_nat take_bit_eq_mod)
  then show "rbyte v' d i = (if unat lo \<le> i \<and> i < unat lo + length bs then bs ! (i - unat lo) else rbyte v d i)"
    using offset_in [OF i2] by (auto simp: rbyte_def v' store_mem_spec [OF l])
qed

lemma ensure_ok:
  assumes h: "heap_ok (heap_of v) cs" and r: "ram_ok cs (ram v d)"
  shows "\<exists>e v' cs'. ensure_capacity d needed v = Some (e, v') \<and> nodes v' = nodes v \<and> buf_frame d v cs v' cs' \<and>
    (\<forall>i < unat (capacity (ram v d)). rbyte v' d i = rbyte v d i) \<and>
    (e = - 1 \<and> ram v' d = ram v d \<or>
     e = 0 \<and> needed \<le> capacity (ram v' d) \<and> capacity (ram v d) \<le> capacity (ram v' d) \<and>
       (\<forall>i < unat (capacity (ram v' d)). unat (capacity (ram v d)) \<le> i \<longrightarrow> rbyte v' d i = 0))"
proof -
  let ?r = "ram v d"
  consider (fits) "needed \<le> capacity ?r" | (big) "\<not> needed \<le> capacity ?r" "RAMFS_MAX_FILE < needed"
    | (grow) "capacity ?r < needed" "needed \<le> RAMFS_MAX_FILE" by fastforce
  then show ?thesis
  proof cases
    case fits
    then show ?thesis using buf_frame_refl [OF h r] by (intro exI [of _ 0] exI [of _ v] exI [of _ cs]) (simp add: ensure_capacity_def)
  next
    case big
    then show ?thesis using buf_frame_refl [OF h r] by (intro exI [of _ "- 1"] exI [of _ v] exI [of _ cs]) (simp add: ensure_capacity_def)
  next
    case grow
    have n: "unat needed \<le> 2 ^ 22" using grow(2) by (simp add: RAMFS_MAX_FILE_def word_le_nat_alt)
    let ?c0 = "if capacity ?r \<noteq> 0 then capacity ?r else 64"
    obtain k where k: "k \<le> 16" "unat ?c0 = 64 * 2 ^ k" using r by (cases "capacity ?r = 0") (auto simp: ram_ok_def)
    obtain j c where c: "j \<le> 16" "double_to needed ?c0 = Some c" "unat c = 64 * 2 ^ j" "needed \<le> c" "?c0 \<le> c"
      using double_to_ok [OF k(2,1) n] by blast
    have "64 * 2 ^ j \<le> (64 :: nat) * 2 ^ 16" using c(1) by (intro mult_le_mono power_increasing) simp_all
    then have cm: "unat c \<le> 2 ^ 22" "capacity ?r < c" using c grow(1) by auto
    obtain b h' cs' where b: "krealloc (rbytes ?r) c (heap_of v) = Some (b, h')" "heap_ok h' cs'" "contents_kept (live_blocks cs - own cs ?r) (heap_of v) h'"
        "b = 0 \<and> live_blocks cs' = live_blocks cs \<and> contents_kept (live_blocks cs) (heap_of v) h' \<or>
         b \<noteq> 0 \<and> (\<exists>t \<ge> c. live_blocks cs' = insert (b, t) (live_blocks cs - own cs ?r) \<and> b \<notin> fst ` (live_blocks cs - own cs ?r)) \<and>
           (\<forall>i < capacity ?r. kmem h' (b + i) = kmem (heap_of v) (rbytes ?r + i))"
      using resize_ok [OF h r cm(2,1)] by blast
    let ?v1 = "set_heap h' v"
    have idx: "of_nat i < capacity ?r" if "i < unat (capacity ?r)" for i
      using that order_less_trans [OF that unat_lt2p [of "capacity ?r"]] by (simp add: word_less_nat_alt unsigned_of_nat take_bit_eq_mod)
    show ?thesis
    proof (cases "b = 0")
      case True
      have run: "ensure_capacity d needed v = Some (- 1, ?v1)" using grow c(2) b(1) True by (simp add: ensure_capacity_def fs_krealloc_def Let_def)
      have l: "live_blocks cs' = live_blocks cs" "contents_kept (live_blocks cs) (heap_of v) h'" using b(4) True by auto
      have r': "ram_ok cs' ?r" "own cs' ?r = own cs ?r" using r l(1) by (simp_all add: ram_ok_def own_def)
      have "rbyte ?v1 d i = rbyte v d i" if i: "i < unat (capacity ?r)" for i
      proof -
        have "capacity ?r \<noteq> 0" using i by auto
        then obtain s where s: "capacity ?r \<le> s" "(rbytes ?r, s) \<in> live_blocks cs" using r by (auto simp: ram_ok_def)
        have "payload (rbytes ?r, s) (rbytes ?r + of_nat i)"
          using offset_payload [of "rbytes ?r" s "rbytes ?r + of_nat i"] live_bounds [OF h s(2)] idx [OF i] s(1) by (simp add: word_less_nat_alt word_le_nat_alt)
        then show ?thesis using l(2) s(2) unfolding contents_kept_def by (simp add: rbyte_def)
      qed
      then show ?thesis using run b(2) l r' r by (intro exI [of _ "- 1"] exI [of _ ?v1] exI [of _ cs']) (auto simp: buf_frame_def contents_kept_def)
    next
      case False
      then obtain t where t: "c \<le> t" "live_blocks cs' = insert (b, t) (live_blocks cs - own cs ?r)" "b \<notin> fst ` (live_blocks cs - own cs ?r)"
          "\<And>i. i < capacity ?r \<Longrightarrow> kmem h' (b + i) = kmem (heap_of v) (rbytes ?r + i)" using b(4) by auto
      let ?r' = "\<lparr>rbytes = b, capacity = c\<rparr>"
      define v2 where "v2 = ?v1\<lparr>ram := (ram v)(d := ?r')\<rparr>"
      define v3 where "v3 = set_heap ((heap_of v2)\<lparr>kmem := memset (rbytes (ram v2 d) + capacity ?r) 0 (c - capacity ?r) (kmem (heap_of v2))\<rparr>) v2"
      have v2: "heap_of v2 = h'" "ram v2 d = ?r'" "nodes v2 = nodes v" by (simp_all add: v2_def)
      have r2: "ram_ok cs' ?r'" using t(1,2) c(1,3) cm by (auto simp: ram_ok_def)
      have "own cs' ?r' = {(b, t)}" using own_simps(1) [OF b(2), of ?r' t] t(2) by simp
      moreover have "(b, t) \<notin> live_blocks cs - own cs ?r" using t(3) by force
      ultimately have f2: "buf_frame d v cs v2 cs'" using b(2,3) r2 t(2) by (auto simp: buf_frame_def v2_def)
      have pre: "heap_ok (heap_of v2) cs'" "ram_ok cs' (ram v2 d)" "capacity ?r \<le> c" "c \<le> capacity (ram v2 d)" using b(2) v2 r2 cm(2) by simp_all
      note f3 = clear_range [OF pre v3_def]
      have "rbyte v2 d i = rbyte v d i" if "i < unat (capacity ?r)" for i using t(4) [OF idx [OF that]] by (simp add: rbyte_def v2)
      then have "rbyte v3 d i = (if i < unat (capacity ?r) then rbyte v d i else 0)" if "i < unat c" for i using f3(2) [of i] that v2(2) by simp
      moreover have "ensure_capacity d needed v = Some (0, v3)"
        using grow c(2) b(1) False by (simp add: ensure_capacity_def fs_krealloc_def Let_def v3_def v2_def not_less not_le) (simp add: set_heap_def heap_of_def)
      moreover have "nodes v3 = nodes v" "ram v3 d = ?r'" by (simp_all add: v3_def v2)
      moreover have "unat (capacity ?r) \<le> unat c" using cm(2) by (simp add: word_less_nat_alt)
      ultimately show ?thesis using buf_frame_trans [OF f2 f3(1)] c(4) cm(2)
        by (intro exI [of _ 0] exI [of _ v3] exI [of _ cs']) simp
    qed
  qed
qed

end
