(* ===== verification/SfsOps.thy ===== *)
theory SfsOps
  imports VfsNode
begin

text \<open>
  The rest of \<^verbatim>\<open>kernel/fs/sfs.c\<close>: the operations on nodes that the virtual file system calls, and mounting, which builds the tree of nodes from the
  directories on the disk.
\<close>

unbundle bit_operations_syntax

section \<open>Operations on nodes\<close>

text \<open>A call into the disk file system.\<close>

definition on_disk :: "(sfs \<Rightarrow> ('a \<times> sfs) option) \<Rightarrow> fs \<Rightarrow> ('a \<times> fs) option" where
  "on_disk f v = do { (r, d) \<leftarrow> f (disk v); Some (r, v\<lparr>disk := d\<rparr>) }"

definition INODE_OF :: "u32 \<Rightarrow> fs \<Rightarrow> u32" where
  "INODE_OF p v = backend (nodes v p)"

definition op_read :: "u32 \<Rightarrow> u32 \<Rightarrow> u32 \<Rightarrow> fs \<Rightarrow> ((int \<times> u8 list) \<times> fs) option" where
  "op_read p offset n v = on_disk (sfs_file_read (INODE_OF p v) offset n) v"

definition op_write :: "u32 \<Rightarrow> u32 \<Rightarrow> u8 list \<Rightarrow> fs \<Rightarrow> (int \<times> fs) option" where
  "op_write p offset dat v =
     do { (w, v1) \<leftarrow> on_disk (sfs_file_write (INODE_OF p v) offset dat) v;
          if 0 < w \<and> nsize (nodes v1 p) < offset + of_int w
          then Some (w, upd_node p (\<lambda>nd. nd\<lparr>nsize := offset + of_int w\<rparr>) v1)
          else Some (w, v1) }"

definition op_truncate :: "u32 \<Rightarrow> u32 \<Rightarrow> fs \<Rightarrow> (int \<times> fs) option" where
  "op_truncate p n v =
     do { (r, v1) \<leftarrow> on_disk (sfs_file_truncate_inode (INODE_OF p v) n) v;
          Some (r, if r = 0 then upd_node p (\<lambda>nd. nd\<lparr>nsize := n\<rparr>) v1 else v1) }"

definition op_create :: "u32 \<Rightarrow> fs \<Rightarrow> (int \<times> fs) option" where
  "op_create p v =
     (let ty = (if ntype (nodes v p) = FS_DIR then SFS_TYPE_DIR else SFS_TYPE_FILE); par = nparent (nodes v p)
      in if \<not> mounted (disk v) \<or> par = 0 then Some (- 1, v)
         else
           do { (number, v1) \<leftarrow> on_disk (alloc_inode ty) v;
                if number = 0 then Some (- 1, v1)
                else
                  do { (r, v2) \<leftarrow> on_disk (dir_add (INODE_OF par v1) (nname (nodes v1 p)) number) v1;
                       if r < 0 then Some (- 1, v2)
                       else Some (0, upd_node p (\<lambda>nd. nd\<lparr>backend := number, nsize := 0\<rparr>) v2) } })"

text \<open>The part of \<^verbatim>\<open>op_destroy\<close> that gives up the inode.\<close>

definition drop_inode :: "u32 \<Rightarrow> sfs \<Rightarrow> (unit \<times> sfs) option" where
  "drop_inode number s =
     do { (i, s1) \<leftarrow> inode_read number s;
          case i of
            None \<Rightarrow> Some ((), s1)
          | Some ino \<Rightarrow>
              do { (_, s2) \<leftarrow> release_blocks ino 0 s1;
                   (_, s3) \<leftarrow> inode_write number zero_inode s2;
                   Some ((), if inodes_used s3 \<noteq> 0 then s3\<lparr>inodes_used := inodes_used s3 - 1\<rparr> else s3) } }"

definition op_destroy :: "u32 \<Rightarrow> fs \<Rightarrow> fs option" where
  "op_destroy p v =
     (let number = INODE_OF p v; par = nparent (nodes v p)
      in if \<not> mounted (disk v) \<or> number = 0 then Some v
         else
           do { (_, v1) \<leftarrow> (if par \<noteq> 0 then on_disk (dir_remove (INODE_OF par v) (nname (nodes v p))) v else Some (0, v));
                (_, v2) \<leftarrow> on_disk (drop_inode number) v1;
                Some (upd_node p (\<lambda>nd. nd\<lparr>backend := 0\<rparr>) v2) })"

section \<open>Mounting\<close>

text \<open>
  \<^verbatim>\<open>build_tree\<close> with the levels that are left, 17 minus the depth, and its loop over the offsets of the directory.  An entry of which only a part could be
  read would be used with bytes that were never written: no result.
\<close>

function build_tree :: "nat \<Rightarrow> u32 \<Rightarrow> u32 \<Rightarrow> fs \<Rightarrow> fs option"
  and build_entries :: "nat \<Rightarrow> u32 \<Rightarrow> u32 \<Rightarrow> u32 list \<Rightarrow> fs \<Rightarrow> fs option" where
  "build_tree 0 par dir v = Some v"
| "build_tree (Suc k) par dir v =
     do { (i, v1) \<leftarrow> on_disk (inode_read dir) v;
          case i of None \<Rightarrow> Some v1 | Some ino \<Rightarrow> build_entries k par dir (dirent_offsets (isize ino)) v1 }"
| "build_entries k par dir [] v = Some v"
| "build_entries k par dir (offset # os) v =
     do { ((r, bs), v1) \<leftarrow> on_disk (sfs_file_read dir offset (of_nat SFS_DIRENT_SIZE)) v;
          if r \<le> 0 then Some v1
          else if length bs < SFS_DIRENT_SIZE then None
          else
            let e = dirent_of bs
            in if d_inode e = 0 \<or> hd0 (d_name e) = 0 then build_entries k par dir os v1
               else
                 do { (i, v2) \<leftarrow> on_disk (inode_read (d_inode e)) v1;
                      case i of
                        None \<Rightarrow> build_entries k par dir os v2
                      | Some child \<Rightarrow>
                          do { (p, v3) \<leftarrow> vfs_node_new (d_name e) (if itype child = SFS_TYPE_DIR then FS_DIR else FS_FILE) (Some Sfs_ops)
                                 (d_inode e) (isize child) v2;
                               if p = 0 then build_entries k par dir os v3
                               else
                                 do { v4 \<leftarrow> vfs_attach par p
                                        (upd_node p (\<lambda>nd. nd\<lparr>readonly := (if iflags child AND SFS_FLAG_READONLY \<noteq> 0 then 1 else 0)\<rparr>) v3);
                                      let v5 = v4\<lparr>disk := (disk v4)\<lparr>inodes_used := inodes_used (disk v4) + 1\<rparr>\<rparr>;
                                      v6 \<leftarrow> (if itype child = SFS_TYPE_DIR then build_tree k p (d_inode e) v5 else Some v5);
                                      build_entries k par dir os v6 } } } }"
  by pat_completeness auto
termination
  by (relation "measures [\<lambda>x. (case x of Inl (k, _) \<Rightarrow> 2 * k | Inr (k, _) \<Rightarrow> 2 * k + 1),
      \<lambda>x. (case x of Inl _ \<Rightarrow> 0 | Inr (_, _, _, os, _) \<Rightarrow> length os)]") auto

text \<open>The four buffers; the loop leaves the function at the first failure.\<close>

fun scratch_init :: "nat list \<Rightarrow> sfs \<Rightarrow> (bool \<times> sfs) option" where
  "scratch_init [] s = Some (True, s)"
| "scratch_init (i # is) s =
     do { (p, s1) \<leftarrow> sfs_kmalloc (of_nat SFS_BLOCK) s;
          let s2 = s1\<lparr>scratch_pool := (scratch_pool s1)[i := p], scratch_busy := (scratch_busy s1)[i := False]\<rparr>;
          if p = 0 then Some (False, s2) else scratch_init is s2 }"

fun load_bitmap :: "nat list \<Rightarrow> u8 list \<Rightarrow> sfs \<Rightarrow> (bool \<times> u8 list) \<times> sfs" where
  "load_bitmap [] acc s = ((True, acc), s)"
| "load_bitmap (i # is) acc s =
     (case read_block (bitmap_start (super s) + of_nat i) s of ((r, bs), s1) \<Rightarrow>
        if r < 0 then ((False, []), s1) else load_bitmap is (acc @ bs) s1)"

text \<open>\<^verbatim>\<open>sfs_mount\<close> up to the point where the volume is mounted; a null device is \<open>None\<close>.  With more than a million bitmap blocks the size of
  the buffer wraps and the loads would run past it: no result.\<close>

definition mount_volume :: "drive option \<Rightarrow> u32 \<Rightarrow> sfs \<Rightarrow> (int \<times> sfs) option" where
  "mount_volume dev start_lba s0 =
     (let s = (case dev of Some d \<Rightarrow> s0\<lparr>drive := d, partition_lba := start_lba\<rparr> | None \<Rightarrow> s0\<lparr>partition_lba := start_lba\<rparr>)
      in do { (good, s1) \<leftarrow> scratch_init [0..<SCRATCH_COUNT] s;
              if \<not> good then Some (- 1, s1)
              else
                do { ((r, bs), s2) \<leftarrow> with_scratch (- 1, []) (\<lambda>s. if dev = None then Some ((- 1, []), s) else Some (read_block 0 s)) s1;
                     if r < 0 then Some (- 1, s2)
                     else
                       let s3 = s2\<lparr>super := super_of bs\<rparr>; sb = super s3
                       in if sb_magic sb \<noteq> SFS_MAGIC then Some (- 2, s3)
                          else if block_size sb \<noteq> of_nat SFS_BLOCK \<or> sb_version sb \<noteq> SFS_VERSION then Some (- 3, s3)
                          else
                            do { (p, s4) \<leftarrow> sfs_kmalloc (bitmap_blocks sb * of_nat SFS_BLOCK) s3;
                                 if p = 0 then Some (- 4, s4)
                                 else if 2 ^ 20 < unat (bitmap_blocks sb) then None
                                 else
                                   (case load_bitmap [0..<unat (bitmap_blocks sb)] [] s4 of ((loaded, bm), s5) \<Rightarrow>
                                      if \<not> loaded then do { s6 \<leftarrow> sfs_kfree p s5; Some (- 5, s6\<lparr>bitmap := []\<rparr>) }
                                      else Some (0, s5\<lparr>bitmap := bm, mounted := True, inodes_used := 1\<rparr>)) } } })"

definition sfs_mount :: "drive option \<Rightarrow> u32 \<Rightarrow> fs \<Rightarrow> (int \<times> fs) option" where
  "sfs_mount dev start_lba v =
     do { (r, v1) \<leftarrow> on_disk (mount_volume dev start_lba) v;
          if r < 0 then Some (r, v1)
          else
            do { (p, v2) \<leftarrow> vfs_node_new [] FS_DIR (Some Sfs_ops) (root_inode (super (disk v1))) 0 v1;
                 if p = 0 then Some (- 6, v2)
                 else do { v3 \<leftarrow> build_tree 17 p (root_inode (super (disk v2))) (vfs_set_root p v2); Some (0, v3) } } }"

end
