(* ===== verification/Vfs.thy ===== *)
theory Vfs
  imports Ramfs SfsOps
begin

text \<open>
  The operations of \<^verbatim>\<open>kernel/fs/vfs.c\<close> that go through the operation table of a node: creating, removing, reading, writing and truncating.
\<close>

unbundle bit_operations_syntax

section \<open>Dispatch\<close>

text \<open>The calls through \<^verbatim>\<open>node->ops\<close>.\<close>

fun ops_read :: "fs_ops \<Rightarrow> u32 \<Rightarrow> u32 \<Rightarrow> u32 \<Rightarrow> fs \<Rightarrow> ((int \<times> u8 list) \<times> fs) option" where
  "ops_read Ramfs_ops p offset n v = Some (ramfs_read p offset n v, v)"
| "ops_read Sfs_ops p offset n v = op_read p offset n v"

fun ops_write :: "fs_ops \<Rightarrow> u32 \<Rightarrow> u32 \<Rightarrow> u8 list \<Rightarrow> fs \<Rightarrow> (int \<times> fs) option" where
  "ops_write Ramfs_ops = ramfs_write"
| "ops_write Sfs_ops = op_write"

fun ops_truncate :: "fs_ops \<Rightarrow> u32 \<Rightarrow> u32 \<Rightarrow> fs \<Rightarrow> (int \<times> fs) option" where
  "ops_truncate Ramfs_ops = ramfs_truncate"
| "ops_truncate Sfs_ops = op_truncate"

fun ops_create :: "fs_ops \<Rightarrow> u32 \<Rightarrow> fs \<Rightarrow> (int \<times> fs) option" where
  "ops_create Ramfs_ops = ramfs_create"
| "ops_create Sfs_ops = op_create"

fun ops_destroy :: "fs_ops \<Rightarrow> u32 \<Rightarrow> fs \<Rightarrow> fs option" where
  "ops_destroy Ramfs_ops = ramfs_destroy"
| "ops_destroy Sfs_ops = op_destroy"

section \<open>Creating and removing\<close>

text \<open>An absolute path cut at its last slash: the path of the parent and the name.\<close>

definition cut_path :: "cstr \<Rightarrow> (cstr \<times> cstr) option" where
  "cut_path absolute = map_option (\<lambda>rest. (take (length absolute - length rest) absolute, tl rest)) (strrchr absolute SLASH)"

text \<open>The end of \<^verbatim>\<open>vfs_create\<close>: a new node in the directory \<open>par\<close>, undone when the file system refuses it.\<close>

definition create_in :: "u32 \<Rightarrow> cstr \<Rightarrow> u8 \<Rightarrow> fs \<Rightarrow> (u32 \<times> fs) option" where
  "create_in par name ty v =
     do { (p, v1) \<leftarrow> node_alloc name ty (nops (nodes v par)) v;
          if p = 0 then Some (0, v1)
          else
            do { ns \<leftarrow> link_child par p (nodes v1);
                 let v2 = v1\<lparr>nodes := ns\<rparr>;
                 o1 \<leftarrow> nops (nodes v2 p);
                 (r, v3) \<leftarrow> ops_create o1 p v2;
                 if r < 0 then
                   do { ns3 \<leftarrow> unlink_child par p (nodes v3);
                        v4 \<leftarrow> fs_kfree p (v3\<lparr>nodes := ns3\<rparr>);
                        Some (0, v4\<lparr>node_count := node_count v4 - 1\<rparr>) }
                 else Some (p, v3) } }"

definition vfs_create :: "cstr option \<Rightarrow> cstr \<Rightarrow> u8 \<Rightarrow> fs \<Rightarrow> (u32 \<times> fs) option" where
  "vfs_create cwd0 path ty v =
     (case vfs_abspath cwd0 path (replicate FS_PATH_MAX 0) FS_PATH_MAX of (r, absolute) \<Rightarrow>
        if r < 0 then Some (0, v)
        else if strcmp absolute [SLASH] = 0 then Some (0, v)
        else
          do { (above, name) \<leftarrow> cut_path absolute;
               par \<leftarrow> vfs_lookup None (if hd0 above \<noteq> 0 then above else [SLASH]) v;
               if par = 0 \<or> ntype (nodes v par) \<noteq> FS_DIR then Some (0, v)
               else
                 do { old \<leftarrow> find_child (nodes v) par name (strlen name);
                      if old \<noteq> 0 then Some (0, v)
                      else if FS_NAME_MAX \<le> strlen name then Some (0, v)
                      else create_in par name ty v } })"

text \<open>The end of \<^verbatim>\<open>destroy_tree\<close>, when the children are gone.\<close>

definition destroy_node :: "u32 \<Rightarrow> fs \<Rightarrow> fs option" where
  "destroy_node p v =
     do { v1 \<leftarrow> (case nops (nodes v p) of Some o1 \<Rightarrow> ops_destroy o1 p v | None \<Rightarrow> Some v);
          v2 \<leftarrow> (if nparent (nodes v1 p) \<noteq> 0
                 then do { ns \<leftarrow> unlink_child (nparent (nodes v1 p)) p (nodes v1); Some (v1\<lparr>nodes := ns\<rparr>) }
                 else Some v1);
          v3 \<leftarrow> fs_kfree p v2;
          Some (v3\<lparr>node_count := node_count v3 - 1\<rparr>) }"

text \<open>\<^verbatim>\<open>destroy_tree\<close> of a node and of all its following siblings, the loop inside \<^verbatim>\<open>destroy_tree\<close>.\<close>

partial_function (option) destroy_siblings :: "u32 \<Rightarrow> fs \<Rightarrow> fs option" where
  "destroy_siblings c v =
     (if c = 0 then Some v
      else do { v1 \<leftarrow> destroy_siblings (first_child (nodes v c)) v;
                v2 \<leftarrow> destroy_node c v1;
                destroy_siblings (next_sibling (nodes v c)) v2 })"

definition destroy_tree :: "u32 \<Rightarrow> fs \<Rightarrow> fs option" where
  "destroy_tree p v = do { v1 \<leftarrow> destroy_siblings (first_child (nodes v p)) v; destroy_node p v1 }"

definition vfs_unlink :: "cstr option \<Rightarrow> cstr \<Rightarrow> fs \<Rightarrow> (int \<times> fs) option" where
  "vfs_unlink cwd0 path v =
     do { p \<leftarrow> vfs_lookup cwd0 path v;
          if p = 0 \<or> p = vroot v then Some (- 1, v)
          else if readonly (nodes v p) \<noteq> 0 then Some (- 2, v)
          else do { v1 \<leftarrow> destroy_tree p v; Some (0, v1) } }"

section \<open>Reading and writing\<close>

definition vfs_read :: "u32 \<Rightarrow> u32 \<Rightarrow> u32 \<Rightarrow> fs \<Rightarrow> ((int \<times> u8 list) \<times> fs) option" where
  "vfs_read p offset n v =
     (if p = 0 \<or> ntype (nodes v p) \<noteq> FS_FILE then Some ((- 1, []), v)
      else case nops (nodes v p) of None \<Rightarrow> Some ((- 1, []), v) | Some o1 \<Rightarrow> ops_read o1 p offset n v)"

definition vfs_write :: "u32 \<Rightarrow> u32 \<Rightarrow> u8 list \<Rightarrow> fs \<Rightarrow> (int \<times> fs) option" where
  "vfs_write p offset dat v =
     (if p = 0 \<or> ntype (nodes v p) \<noteq> FS_FILE then Some (- 1, v)
      else case nops (nodes v p) of
        None \<Rightarrow> Some (- 1, v)
      | Some o1 \<Rightarrow>
          if readonly (nodes v p) \<noteq> 0 then Some (- 2, v)
          else
            do { (w, v1) \<leftarrow> ops_write o1 p offset dat v;
                 Some (w, if 0 < w then upd_node p (\<lambda>nd. nd\<lparr>modified_ms := timer_ms (ker (disk v1))\<rparr>) v1 else v1) })"

definition vfs_truncate :: "u32 \<Rightarrow> u32 \<Rightarrow> fs \<Rightarrow> (int \<times> fs) option" where
  "vfs_truncate p n v =
     (if p = 0 \<or> ntype (nodes v p) \<noteq> FS_FILE then Some (- 1, v)
      else case nops (nodes v p) of
        None \<Rightarrow> Some (- 1, v)
      | Some o1 \<Rightarrow> if readonly (nodes v p) \<noteq> 0 then Some (- 2, v) else ops_truncate o1 p n v)"

text \<open>The node of a path, created when it is not there.\<close>

definition lookup_or_create :: "cstr \<Rightarrow> fs \<Rightarrow> (u32 \<times> fs) option" where
  "lookup_or_create path v = do { p \<leftarrow> vfs_lookup None path v; if p = 0 then vfs_create None path FS_FILE v else Some (p, v) }"

definition vfs_write_file :: "cstr \<Rightarrow> u8 list \<Rightarrow> fs \<Rightarrow> (int \<times> fs) option" where
  "vfs_write_file path dat v =
     do { (p, v1) \<leftarrow> lookup_or_create path v;
          if p = 0 then Some (- 1, v1)
          else
            do { (r, v2) \<leftarrow> vfs_truncate p 0 v1;
                 if r < 0 then Some (- 1, v2)
                 else do { (w, v3) \<leftarrow> vfs_write p 0 dat v2; Some (if w = int (length dat) then 0 else - 1, v3) } } }"

definition vfs_append_file :: "cstr \<Rightarrow> u8 list \<Rightarrow> fs \<Rightarrow> (int \<times> fs) option" where
  "vfs_append_file path dat v =
     do { (p, v1) \<leftarrow> lookup_or_create path v;
          if p = 0 then Some (- 1, v1)
          else do { (w, v2) \<leftarrow> vfs_write p (nsize (nodes v1 p)) dat v1; Some (if w = int (length dat) then 0 else - 1, v2) } }"

definition vfs_read_file :: "cstr \<Rightarrow> u32 \<Rightarrow> fs \<Rightarrow> ((int \<times> u8 list) \<times> fs) option" where
  "vfs_read_file path n v =
     do { p \<leftarrow> vfs_lookup None path v; if p = 0 then Some ((- 1, []), v) else vfs_read p 0 n v }"

text \<open>\<open>None\<close> when there is no memory for the root: the kernel panics.\<close>

definition vfs_init :: "fs \<Rightarrow> fs option" where
  "vfs_init v =
     do { (p, v1) \<leftarrow> node_alloc [] FS_DIR (Some Ramfs_ops) v;
          let v2 = v1\<lparr>vroot := p\<rparr>;
          if p = 0 then None
          else do { (_, v3) \<leftarrow> ramfs_create p v2; Some (upd_node p (\<lambda>nd. nd\<lparr>nparent := 0\<rparr>) v3) } }"

end
