(* ===== verification/VfsTree.thy ===== *)
theory VfsTree
  imports Vfs
begin

text \<open>
  The tree of nodes as a tree: lists of children sorted by name, linking and unlinking a child, and looking a path up.
\<close>

unbundle bit_operations_syntax

section \<open>Lists of children\<close>

text \<open>The nodes \<open>ps\<close> are linked from \<open>c\<close> through \<^verbatim>\<open>next_sibling\<close>.\<close>

fun chain :: "(u32 \<Rightarrow> fs_node) \<Rightarrow> u32 \<Rightarrow> u32 list \<Rightarrow> bool" where
  "chain ns c [] \<longleftrightarrow> c = 0"
| "chain ns c (p # ps) \<longleftrightarrow> c = p \<and> p \<noteq> 0 \<and> chain ns (next_sibling (ns p)) ps"

abbreviation name_of :: "(u32 \<Rightarrow> fs_node) \<Rightarrow> u32 \<Rightarrow> u8 list" where
  "name_of ns p \<equiv> text_of (nname (ns p))"

lemma chain_cong: "(\<And>p. p \<in> set ps \<Longrightarrow> next_sibling (ns' p) = next_sibling (ns p)) \<Longrightarrow> chain ns' c ps = chain ns c ps"
  by (induction ps arbitrary: c) auto

lemma chain_nonzero: "chain ns c ps \<Longrightarrow> 0 \<notin> set ps"
  by (induction ps arbitrary: c) auto

lemma find_sibling_ok:
  assumes "chain ns c ps" and "0 \<notin> set name" and "name \<noteq> []"
  shows "find_sibling ns c (name @ rest) (length name) = Some (case List.find (\<lambda>p. name_of ns p = name) ps of Some p \<Rightarrow> p | None \<Rightarrow> 0)"
  using assms(1)
proof (induction ps arbitrary: c)
  case Nil
  then show ?case by (subst find_sibling.simps) simp
next
  case (Cons p ps)
  have "strlen (nname (ns p)) = length name \<and> strncmp (nname (ns p)) (name @ rest) (length name) = 0 \<longleftrightarrow> name_of ns p = name"
    using strncmp_full [OF refl assms(2), of "nname (ns p)" rest] by (auto simp: strlen_text)
  then show ?case using Cons by (subst find_sibling.simps) simp
qed

text \<open>Where a name belongs: behind all siblings with a smaller one.\<close>

definition smaller :: "u8 list \<Rightarrow> u8 list \<Rightarrow> bool" where
  "smaller a b \<longleftrightarrow> (a, b) \<in> lexord {(x, y). x < y}"

lemma smaller_props: "smaller a b \<Longrightarrow> smaller b c \<Longrightarrow> smaller a c" "\<not> smaller a a" "smaller a b \<or> a = b \<or> smaller b a"
proof -
  have t: "trans {(x, y). x < (y :: u8)}" by (auto intro: transI)
  show "smaller a b \<Longrightarrow> smaller b c \<Longrightarrow> smaller a c" unfolding smaller_def by (rule lexord_trans [OF _ _ t])
  show "\<not> smaller a a" unfolding smaller_def by (rule lexord_irreflexive) simp
  show "smaller a b \<or> a = b \<or> smaller b a" unfolding smaller_def by (rule lexord_linear) auto
qed

definition by_name :: "(u32 \<Rightarrow> fs_node) \<Rightarrow> u32 list \<Rightarrow> bool" where
  "by_name ns ps \<longleftrightarrow> sorted_wrt (\<lambda>p q. smaller (name_of ns p) (name_of ns q)) ps"

fun last_slot :: "u32 list \<Rightarrow> slot \<Rightarrow> slot" where
  "last_slot [] sl = sl"
| "last_slot (p # ps) sl = last_slot ps (Next_sibling p)"

lemma link_slot_ok:
  assumes "chain ns (slot_get ns sl) ps" and "qs = takeWhile (\<lambda>p. smaller (name_of ns p) (text_of name)) ps"
  shows "link_slot ns sl name = Some (last_slot qs sl) \<and> slot_get ns (last_slot qs sl) = (case drop (length qs) ps of [] \<Rightarrow> 0 | p # _ \<Rightarrow> p)"
  using assms
proof (induction ps arbitrary: sl qs)
  case Nil
  then show ?case by (subst link_slot.simps) simp
next
  case (Cons p ps)
  then have p: "slot_get ns sl = p" "p \<noteq> 0" "chain ns (slot_get ns (Next_sibling p)) ps" by simp_all
  show ?case
  proof (cases "smaller (name_of ns p) (text_of name)")
    case True
    then have "strcmp (nname (ns p)) name < 0" by (simp add: strcmp_less smaller_def)
    then show ?thesis using True Cons.IH [OF p(3) refl] p(1,2) Cons.prems(2) by (subst link_slot.simps) simp
  next
    case False
    then have "\<not> strcmp (nname (ns p)) name < 0" by (simp add: strcmp_less smaller_def)
    then show ?thesis using False p(1,2) Cons.prems(2) by (subst link_slot.simps) simp
  qed
qed

lemma unlink_slot_ok:
  assumes "chain ns (slot_get ns sl) ps"
  shows "child \<in> set ps \<Longrightarrow> unlink_slot ns sl child = Some (Some (last_slot (takeWhile (\<lambda>p. p \<noteq> child) ps) sl))"
    and "child \<notin> set ps \<Longrightarrow> unlink_slot ns sl child = Some None"
  using assms
proof (induction ps arbitrary: sl)
  case Nil
  { case 1 then show ?case by simp }
  { case 2 then show ?case by (subst unlink_slot.simps) simp }
next
  case (Cons p ps)
  have n: "chain ns (slot_get ns (Next_sibling p)) ps" if "chain ns (slot_get ns sl) (p # ps)" for sl using that by simp
  { case 1 then show ?case using Cons.IH(1) [of "Next_sibling p"] by (cases "p = child") (subst unlink_slot.simps, auto)+ }
  { case 2 then show ?case using Cons.IH(2) [of "Next_sibling p"] by (subst unlink_slot.simps) auto }
qed

text \<open>Storing a pointer into the place behind \<open>qs\<close> replaces the rest of the list.\<close>

lemma last_slot_next: "last_slot qs (Next_sibling q) = Next_sibling (last (q # qs))"
  by (induction qs arbitrary: q) auto

lemma chain_splice:
  assumes "chain ns (slot_get ns sl) (qs @ rs)" and "distinct qs" and "\<And>p. sl = Next_sibling p \<Longrightarrow> p \<notin> set qs"
    and "chain (slot_set (last_slot qs sl) x ns) x rs'"
  shows "chain (slot_set (last_slot qs sl) x ns) (slot_get (slot_set (last_slot qs sl) x ns) sl) (qs @ rs')"
  using assms
proof (induction qs arbitrary: sl)
  case Nil
  then show ?case by (cases sl) simp_all
next
  case (Cons q qs)
  let ?ns = "slot_set (last_slot (q # qs) sl) x ns"
  have "chain ?ns (slot_get ?ns (Next_sibling q)) (qs @ rs')" using Cons.IH [of "Next_sibling q"] Cons.prems by simp
  moreover have "slot_get ?ns sl = slot_get ns sl"
  proof -
    have "last (q # qs) \<in> set (q # qs)" by (rule last_in_set) simp
    then show ?thesis using Cons.prems(3) by (cases sl) (auto simp: last_slot_next)
  qed
  ultimately show ?case using Cons.prems(1) by simp
qed

text \<open>A node without its links; operations on the tree only change links.\<close>

definition bare :: "fs_node \<Rightarrow> fs_node" where
  "bare n = n\<lparr>nparent := 0, first_child := 0, next_sibling := 0\<rparr>"

lemma bareD: "bare a = bare b \<Longrightarrow> nname a = nname b \<and> ntype a = ntype b \<and> readonly a = readonly b \<and> nsize a = nsize b \<and> backend a = backend b \<and>
    nops a = nops b \<and> created_ms a = created_ms b \<and> modified_ms a = modified_ms b"
  by (cases a; cases b) (simp add: bare_def)

lemma bare_upd [simp]: "bare (n\<lparr>nparent := x\<rparr>) = bare n" "bare (n\<lparr>first_child := x\<rparr>) = bare n" "bare (n\<lparr>next_sibling := x\<rparr>) = bare n"
  by (simp_all add: bare_def)

definition relinked :: "(u32 \<Rightarrow> fs_node) \<Rightarrow> (u32 \<Rightarrow> fs_node) \<Rightarrow> u32 \<Rightarrow> u32 \<Rightarrow> u32 list \<Rightarrow> bool" where
  "relinked ns ns' d child ps \<longleftrightarrow> (\<forall>p. bare (ns' p) = bare (ns p)) \<and> (\<forall>p. p \<noteq> child \<longrightarrow> nparent (ns' p) = nparent (ns p)) \<and>
     (\<forall>p. p \<noteq> d \<longrightarrow> first_child (ns' p) = first_child (ns p)) \<and> (\<forall>p. p \<noteq> child \<and> p \<notin> set ps \<longrightarrow> next_sibling (ns' p) = next_sibling (ns p))"

lemma slot_set_links:
  assumes "last_slot qs (First_child d) = sl"
  shows "bare (slot_set sl x ns p) = bare (ns p)" "nparent (slot_set sl x ns p) = nparent (ns p)"
    "p \<noteq> d \<Longrightarrow> first_child (slot_set sl x ns p) = first_child (ns p)" "p \<notin> set qs \<Longrightarrow> next_sibling (slot_set sl x ns p) = next_sibling (ns p)"
    "qs \<noteq> [] \<Longrightarrow> first_child (slot_set sl x ns p) = first_child (ns p)"
proof -
  have sl: "sl = (if qs = [] then First_child d else Next_sibling (last qs))"
    using assms by (cases qs) (auto simp: last_slot_next)
  show "bare (slot_set sl x ns p) = bare (ns p)" "nparent (slot_set sl x ns p) = nparent (ns p)"
    "p \<noteq> d \<Longrightarrow> first_child (slot_set sl x ns p) = first_child (ns p)" "p \<notin> set qs \<Longrightarrow> next_sibling (slot_set sl x ns p) = next_sibling (ns p)"
    "qs \<noteq> [] \<Longrightarrow> first_child (slot_set sl x ns p) = first_child (ns p)"
    unfolding sl by auto
qed

lemma takeWhile_sorted:
  assumes "sorted_wrt R ps" and "\<And>p q. p \<in> set ps \<Longrightarrow> q \<in> set ps \<Longrightarrow> R p q \<Longrightarrow> P q \<Longrightarrow> P p"
  shows "p \<in> set (dropWhile P ps) \<Longrightarrow> \<not> P p"
  using assms
proof (induction ps)
  case (Cons q ps)
  then show ?case by (cases "P q") auto
qed simp

lemma link_child_ok:
  assumes ch: "chain ns (first_child (ns d)) ps" and ds: "distinct ps" and st: "by_name ns ps" and c: "child \<notin> set ps" "child \<noteq> 0" "child \<noteq> d"
    and new: "name_of ns child \<notin> name_of ns ` set ps"
    and qs: "qs = takeWhile (\<lambda>p. smaller (name_of ns p) (name_of ns child)) ps" and rs: "rs = dropWhile (\<lambda>p. smaller (name_of ns p) (name_of ns child)) ps"
  shows "\<exists>ns'. link_child d child ns = Some ns' \<and> chain ns' (first_child (ns' d)) (qs @ child # rs) \<and> by_name ns' (qs @ child # rs) \<and>
    nparent (ns' child) = d \<and> relinked ns ns' d child ps"
proof -
  let ?sl = "last_slot qs (First_child d)"
  have ps: "ps = qs @ rs" "set ps = set qs \<union> set rs" using qs rs by (simp_all add: takeWhile_dropWhile_id flip: set_append)
  have l: "link_slot ns (First_child d) (nname (ns child)) = Some ?sl" "slot_get ns ?sl = (case rs of [] \<Rightarrow> 0 | p # _ \<Rightarrow> p)"
    using link_slot_ok [of ns "First_child d" ps qs "nname (ns child)"] ch qs rs by (simp_all add: dropWhile_eq_drop)
  define ns1 where "ns1 = ns(child := (ns child)\<lparr>next_sibling := slot_get ns ?sl\<rparr>)"
  define ns2 where "ns2 = slot_set ?sl child ns1"
  define ns3 where "ns3 = ns2(child := (ns2 child)\<lparr>nparent := d\<rparr>)"
  note sl = slot_set_links [where qs = qs and d = d and x = child and ns = ns1, OF refl, folded ns2_def]
  have tail: "chain ns (slot_get ns ?sl) rs"
  proof -
    have "chain ns (slot_get ns sl) (qs @ rs) \<Longrightarrow> chain ns (slot_get ns (last_slot qs sl)) rs" for sl
      by (induction qs arbitrary: sl) auto
    then show ?thesis using ch ps(1) by (metis slot_get.simps(1))
  qed
  have "chain ns1 (first_child (ns1 d)) (qs @ rs)" using ch ps c by (subst chain_cong [of _ _ ns]) (auto simp: ns1_def)
  moreover have "chain ns2 child (child # rs)"
  proof -
    have "next_sibling (ns2 p) = next_sibling (ns p)" if "p \<in> set rs" for p
    proof -
      have "p \<notin> set qs" "p \<noteq> child" using that ds ps c(1) by auto
      then show ?thesis using sl(4) [of p] by (simp add: ns1_def)
    qed
    then have "chain ns2 (slot_get ns ?sl) rs" using tail chain_cong [of rs ns2 ns] by simp
    moreover have "next_sibling (ns2 child) = slot_get ns ?sl" using sl(4) [of child] c ps by (simp add: ns1_def)
    ultimately show ?thesis using c(2) by simp
  qed
  ultimately have "chain ns2 (first_child (ns2 d)) (qs @ child # rs)"
    using chain_splice [of ns1 "First_child d" qs rs child "child # rs"] ds ps unfolding ns2_def by simp
  then have "chain ns3 (first_child (ns3 d)) (qs @ child # rs)" using c(3) by (subst chain_cong [of _ _ ns2]) (auto simp: ns3_def)
  moreover have b: "bare (ns3 p) = bare (ns p)" for p using sl(1) [of p] by (cases "p = child") (simp_all add: ns3_def ns1_def)
  moreover have "by_name ns3 (qs @ child # rs)"
  proof -
    have nm: "nname (ns3 p) = nname (ns p)" for p using bareD [OF b [of p]] by blast
    have before: "smaller (name_of ns p) (name_of ns child)" if "p \<in> set qs" for p using that qs by (auto dest: set_takeWhileD)
    have "\<not> smaller (name_of ns p) (name_of ns child)" if "p \<in> set rs" for p
      using takeWhile_sorted [OF st [unfolded by_name_def], of "\<lambda>p. smaller (name_of ns p) (name_of ns child)" p] smaller_props(1) that rs by blast
    then have after: "smaller (name_of ns child) (name_of ns p)" if "p \<in> set rs" for p using that smaller_props(3) new ps(2) by (metis UnCI imageI)
    show ?thesis using st before after smaller_props(1) unfolding by_name_def nm ps(1) by (auto simp: sorted_wrt_append)
  qed
  moreover have "link_child d child ns = Some ns3" using l(1) by (simp add: link_child_def Let_def ns1_def ns2_def ns3_def)
  moreover have "relinked ns ns3 d child ps"
    unfolding relinked_def using b sl c ps(2) by (auto simp: ns3_def) (auto simp: ns1_def)
  ultimately show ?thesis by (intro exI [of _ ns3]) (simp add: ns3_def)
qed

lemma unlink_child_ok:
  assumes ch: "chain ns (first_child (ns d)) ps" and ds: "distinct ps" and st: "by_name ns ps" and c: "child \<in> set ps" "d \<notin> set ps"
  shows "\<exists>ns'. unlink_child d child ns = Some ns' \<and> chain ns' (first_child (ns' d)) (remove1 child ps) \<and> by_name ns' (remove1 child ps) \<and>
    nparent (ns' child) = 0 \<and> relinked ns ns' d child ps"
proof -
  define qs where "qs = takeWhile (\<lambda>p. p \<noteq> child) ps"
  obtain rs where ps: "ps = qs @ child # rs"
  proof -
    have "dropWhile (\<lambda>p. p \<noteq> child) ps \<noteq> []" using c(1) by (simp add: dropWhile_eq_Nil_conv)
    then have "dropWhile (\<lambda>p. p \<noteq> child) ps = child # tl (dropWhile (\<lambda>p. p \<noteq> child) ps)" using hd_dropWhile by (metis (mono_tags, lifting) list.collapse)
    then show ?thesis using that takeWhile_dropWhile_id [of "\<lambda>p. p \<noteq> child" ps] unfolding qs_def by metis
  qed
  have nq: "child \<notin> set qs" "child \<notin> set rs" "distinct qs" "set qs \<inter> set rs = {}" using ds ps by auto
  then have rm: "remove1 child ps = qs @ rs" using ps by (simp add: remove1_append)
  let ?sl = "last_slot qs (First_child d)" and ?x = "next_sibling (ns child)"
  define ns1 where "ns1 = slot_set ?sl ?x ns"
  define ns2 where "ns2 = ns1(child := (ns1 child)\<lparr>next_sibling := 0, nparent := 0\<rparr>)"
  note sl = slot_set_links [where qs = qs and d = d and x = ?x and ns = ns, OF refl, folded ns1_def]
  have u: "unlink_slot ns (First_child d) child = Some (Some ?sl)"
    using unlink_slot_ok(1) [of ns "First_child d" ps child] ch c(1) by (simp add: qs_def)
  have "chain ns ?x rs"
  proof -
    have "chain ns a (qs @ child # rs) \<Longrightarrow> chain ns (next_sibling (ns child)) rs" for a by (induction qs arbitrary: a) auto
    then show ?thesis using ch ps by blast
  qed
  then have "chain ns1 ?x rs" using sl(4) nq by (subst chain_cong [of _ _ ns]) auto
  then have "chain ns1 (first_child (ns1 d)) (qs @ rs)"
    using chain_splice [of ns "First_child d" qs "child # rs" ?x rs] ch ps nq unfolding ns1_def by simp
  then have "chain ns2 (first_child (ns2 d)) (remove1 child ps)" using nq c rm by (subst chain_cong [of _ _ ns1]) (auto simp: ns2_def)
  moreover have b: "bare (ns2 p) = bare (ns p)" for p using sl(1) [of p] by (cases "p = child") (simp_all add: ns2_def)
  moreover have "by_name ns2 (remove1 child ps)"
  proof -
    have nm: "nname (ns2 p) = nname (ns p)" for p using bareD [OF b [of p]] by blast
    show ?thesis using st [unfolded by_name_def ps] unfolding by_name_def nm rm by (auto simp: sorted_wrt_append)
  qed
  moreover have "unlink_child d child ns = Some ns2" using u by (simp add: unlink_child_def Let_def ns1_def ns2_def)
  moreover have "relinked ns ns2 d child ps"
    unfolding relinked_def using b sl ps c by (auto simp: ns2_def)
  ultimately show ?thesis by (intro exI [of _ ns2]) (simp add: ns2_def)
qed

section \<open>The tree\<close>

text \<open>
  The nodes \<open>S\<close> form a tree under the root, with the children \<open>K d\<close> of each node in the order of their names: links, parents and names agree, only
  directories have children, and the depth grows along the links, so that no walk along them goes on for ever.
\<close>

definition good_name :: "u8 list \<Rightarrow> bool" where
  "good_name n \<longleftrightarrow> good_seg n \<and> length n < FS_NAME_MAX"

definition tree_ok :: "(u32 \<Rightarrow> fs_node) \<Rightarrow> u32 \<Rightarrow> u32 set \<Rightarrow> (u32 \<Rightarrow> u32 list) \<Rightarrow> bool" where
  "tree_ok ns rt S K \<longleftrightarrow> rt \<in> S \<and> ntype (ns rt) = FS_DIR \<and> nparent (ns rt) = 0 \<and> 0 \<notin> S \<and> finite S \<and>
     (\<forall>d \<in> S. chain ns (first_child (ns d)) (K d) \<and> distinct (K d) \<and> by_name ns (K d) \<and> set (K d) \<subseteq> S \<and> (ntype (ns d) \<noteq> FS_DIR \<longrightarrow> K d = [])) \<and>
     (\<forall>d \<in> S. \<forall>c \<in> set (K d). nparent (ns c) = d \<and> c \<noteq> rt \<and> good_name (name_of ns c)) \<and>
     (\<forall>c \<in> S. c \<noteq> rt \<longrightarrow> nparent (ns c) \<in> S \<and> c \<in> set (K (nparent (ns c)))) \<and>
     (\<exists>dep :: u32 \<Rightarrow> nat. \<forall>d \<in> S. \<forall>c \<in> set (K d). dep c = Suc (dep d))"

lemma tree_okD:
  assumes "tree_ok ns rt S K"
  shows "rt \<in> S" "ntype (ns rt) = FS_DIR" "nparent (ns rt) = 0" "0 \<notin> S" "d \<in> S \<Longrightarrow> chain ns (first_child (ns d)) (K d)" "d \<in> S \<Longrightarrow> distinct (K d)"
    "d \<in> S \<Longrightarrow> by_name ns (K d)" "d \<in> S \<Longrightarrow> set (K d) \<subseteq> S" "d \<in> S \<Longrightarrow> ntype (ns d) \<noteq> FS_DIR \<Longrightarrow> K d = []"
    "d \<in> S \<Longrightarrow> c \<in> set (K d) \<Longrightarrow> nparent (ns c) = d" "d \<in> S \<Longrightarrow> c \<in> set (K d) \<Longrightarrow> good_name (name_of ns c)"
    "c \<in> S \<Longrightarrow> c \<noteq> rt \<Longrightarrow> nparent (ns c) \<in> S \<and> c \<in> set (K (nparent (ns c)))" "d \<in> S \<Longrightarrow> d \<notin> set (K d)" "d \<in> S \<Longrightarrow> c \<in> set (K d) \<Longrightarrow> c \<noteq> rt"
    "d \<in> S \<Longrightarrow> e \<in> S \<Longrightarrow> c \<in> set (K d) \<Longrightarrow> c \<in> set (K e) \<Longrightarrow> d = e"
proof -
  show "rt \<in> S" "ntype (ns rt) = FS_DIR" "nparent (ns rt) = 0" "0 \<notin> S" using assms unfolding tree_ok_def by blast+
  show "d \<in> S \<Longrightarrow> chain ns (first_child (ns d)) (K d)" "d \<in> S \<Longrightarrow> distinct (K d)" "d \<in> S \<Longrightarrow> by_name ns (K d)" "d \<in> S \<Longrightarrow> set (K d) \<subseteq> S"
    "d \<in> S \<Longrightarrow> ntype (ns d) \<noteq> FS_DIR \<Longrightarrow> K d = []" using assms unfolding tree_ok_def by blast+
  show p: "d \<in> S \<Longrightarrow> c \<in> set (K d) \<Longrightarrow> nparent (ns c) = d" for c d using assms unfolding tree_ok_def by blast
  show "d \<in> S \<Longrightarrow> c \<in> set (K d) \<Longrightarrow> good_name (name_of ns c)" "d \<in> S \<Longrightarrow> c \<in> set (K d) \<Longrightarrow> c \<noteq> rt" using assms unfolding tree_ok_def by blast+
  show "c \<in> S \<Longrightarrow> c \<noteq> rt \<Longrightarrow> nparent (ns c) \<in> S \<and> c \<in> set (K (nparent (ns c)))" using assms unfolding tree_ok_def by blast
  show "d \<in> S \<Longrightarrow> e \<in> S \<Longrightarrow> c \<in> set (K d) \<Longrightarrow> c \<in> set (K e) \<Longrightarrow> d = e" using p by blast
  obtain dep :: "u32 \<Rightarrow> nat" where "\<forall>d \<in> S. \<forall>c \<in> set (K d). dep c = Suc (dep d)" using assms unfolding tree_ok_def by blast
  then show "d \<in> S \<Longrightarrow> d \<notin> set (K d)" by (metis n_not_Suc_n)
qed

text \<open>What following a list of names from a node leads to; 0 when a name is not there.\<close>

fun follow :: "(u32 \<Rightarrow> fs_node) \<Rightarrow> (u32 \<Rightarrow> u32 list) \<Rightarrow> u32 \<Rightarrow> u8 list list \<Rightarrow> u32" where
  "follow ns K p [] = p"
| "follow ns K p (n # names) = (case List.find (\<lambda>c. name_of ns c = n) (K p) of None \<Rightarrow> 0 | Some c \<Rightarrow> follow ns K c names)"

lemma first_seg_split: "hd0 (skip_slashes p) \<noteq> 0 \<Longrightarrow> good_seg (first_seg (skip_slashes p)) \<and>
    skip_slashes p = first_seg (skip_slashes p) @ drop (length (first_seg (skip_slashes p))) (skip_slashes p)"
proof -
  assume a: "hd0 (skip_slashes p) \<noteq> 0"
  then obtain c q where c: "skip_slashes p = c # q" "c \<noteq> 0" by (auto simp: hd0_def split: list.splits)
  then have "c \<noteq> SLASH" using skip_head by blast
  then have "first_seg (skip_slashes p) \<noteq> []" using c by (simp add: first_seg_def)
  moreover have "0 \<notin> set (first_seg x)" "SLASH \<notin> set (first_seg x)" for x by (auto simp: first_seg_def dest: set_takeWhileD)
  moreover have "x = first_seg x @ drop (length (first_seg x)) x" for x by (simp add: first_seg_def flip: dropWhile_eq_drop)
  ultimately show ?thesis by (simp add: good_seg_def)
qed

lemma find_child_ok:
  assumes t: "tree_ok ns rt S K" and d: "d \<in> S" and n: "good_seg n"
  shows "find_child ns d (n @ rest) (length n) = Some (case List.find (\<lambda>c. name_of ns c = n) (K d) of Some c \<Rightarrow> c | None \<Rightarrow> 0)"
proof -
  have "d \<noteq> 0" using d tree_okD(4) [OF t] by blast
  moreover have "n \<noteq> []" "0 \<notin> set n" using n by (simp_all add: good_seg_def)
  ultimately show ?thesis
    using find_sibling_ok [OF tree_okD(5) [OF t d], of n rest] tree_okD(9) [OF t d] by (simp add: find_child_def)
qed

lemma lookup_loop_ok:
  assumes t: "tree_ok ns rt S K" and "d \<in> S"
  shows "lookup_loop ns d p = Some (follow ns K d (segs p))"
  using assms(2)
proof (induction p arbitrary: d rule: segs.induct)
  case (1 p)
  let ?p1 = "skip_slashes p" and ?n = "first_seg (skip_slashes p)"
  show ?case
  proof (cases "hd0 ?p1 = 0")
    case True
    then show ?thesis by (simp add: lookup_loop.simps segs.simps)
  next
    case False
    note sp = first_seg_split [OF False]
    have s: "segs p = ?n # segs (drop (length ?n) ?p1)" using False by (subst segs.simps) (simp add: Let_def)
    have f: "find_child ns d ?p1 (length ?n) = Some (case List.find (\<lambda>c. name_of ns c = ?n) (K d) of Some c \<Rightarrow> c | None \<Rightarrow> 0)"
      using find_child_ok [OF t 1(2), of ?n "drop (length ?n) ?p1"] sp by simp
    show ?thesis
    proof (cases "List.find (\<lambda>c. name_of ns c = ?n) (K d)")
      case None
      then show ?thesis using f False by (simp add: lookup_loop.simps [of ns d p] Let_def s)
    next
      case (Some c)
      then have "c \<in> set (K d)" by (auto simp: find_Some_iff)
      then have c: "c \<in> S" "c \<noteq> 0" using tree_okD(4,8) [OF t] 1(2) by auto
      have "lookup_loop ns c (drop (length ?n) ?p1) = Some (follow ns K c (segs (drop (length ?n) ?p1)))"
        using 1(1) [OF refl False c(1)] by simp
      then show ?thesis using Some f False c(2) by (simp add: lookup_loop.simps [of ns d p] Let_def s)
    qed
  qed
qed

section \<open>Changing the tree\<close>

lemma follow_in:
  assumes t: "tree_ok ns rt S K"
  shows "p \<in> S \<Longrightarrow> follow ns K p names = 0 \<or> follow ns K p names \<in> S"
proof (induction names arbitrary: p)
  case (Cons n names)
  show ?case
  proof (cases "List.find (\<lambda>c. name_of ns c = n) (K p)")
    case (Some c)
    then have "c \<in> set (K p)" by (auto simp: find_Some_iff)
    then have "c \<in> S" using tree_okD(8) [OF t Cons.prems] by blast
    then show ?thesis using Cons.IH Some by simp
  qed simp
qed simp

lemma follow_append:
  assumes t: "tree_ok ns rt S K"
  shows "p \<in> S \<Longrightarrow> follow ns K p (a @ b) = (if follow ns K p a = 0 then 0 else follow ns K (follow ns K p a) b)"
proof (induction a arbitrary: p)
  case Nil
  then show ?case using tree_okD(4) [OF t] by auto
next
  case (Cons n a)
  show ?case
  proof (cases "List.find (\<lambda>c. name_of ns c = n) (K p)")
    case (Some c)
    then have "c \<in> set (K p)" by (auto simp: find_Some_iff)
    then have "c \<in> S" using tree_okD(8) [OF t Cons.prems] by blast
    then show ?thesis using Cons.IH Some by simp
  qed simp
qed

lemma follow_snoc:
  assumes t: "tree_ok ns rt S K" and f: "follow ns K rt (a @ [n]) = c" "c \<noteq> 0"
  shows "follow ns K rt a \<in> S \<and> c \<in> set (K (follow ns K rt a)) \<and> name_of ns c = n"
proof -
  have r: "follow ns K rt a \<noteq> 0" "follow ns K (follow ns K rt a) [n] = c"
    using f follow_append [OF t tree_okD(1) [OF t], of a "[n]"] by (auto split: if_splits)
  then have S: "follow ns K rt a \<in> S" using follow_in [OF t tree_okD(1) [OF t], of a] by blast
  obtain x where x: "List.find (\<lambda>c. name_of ns c = n) (K (follow ns K rt a)) = Some x" using r(2) f(2) by (cases "List.find (\<lambda>c. name_of ns c = n) (K (follow ns K rt a))") auto
  then have "x = c" using r(2) by simp
  then show ?thesis using x S by (auto simp: find_Some_iff)
qed

text \<open>Every node has one path.\<close>

lemma follow_unique:
  assumes t: "tree_ok ns rt S K"
  shows "follow ns K rt a = q \<Longrightarrow> follow ns K rt b = q \<Longrightarrow> q \<noteq> 0 \<Longrightarrow> a = b"
proof (induction a arbitrary: b q rule: rev_induct)
  case Nil
  show ?case
  proof (cases b rule: rev_cases)
    case (snoc b' n)
    then have "q \<in> set (K (follow ns K rt b'))" "follow ns K rt b' \<in> S" using follow_snoc [OF t _ Nil(3), of b' n] Nil(2) by auto
    then show ?thesis using tree_okD(14) [OF t] Nil(1) by fastforce
  qed simp
next
  case (snoc n a)
  note q = follow_snoc [OF t snoc.prems(1,3)]
  show ?case
  proof (cases b rule: rev_cases)
    case Nil
    then have "q = rt" using snoc.prems(2) by simp
    then show ?thesis using q tree_okD(14) [OF t] by blast
  next
    case b: (snoc b' m)
    note r = follow_snoc [OF t snoc.prems(2) [unfolded b] snoc.prems(3)]
    have e: "follow ns K rt a = follow ns K rt b'" using tree_okD(15) [OF t, of "follow ns K rt a" "follow ns K rt b'" q] q r by blast
    have "follow ns K rt a \<noteq> 0" using q tree_okD(4) [OF t] by auto
    then have "a = b'" using snoc.IH [OF refl e [symmetric]] by blast
    then show ?thesis using q r b by simp
  qed
qed

text \<open>Adding a leaf.\<close>

lemma find_insert:
  assumes "distinct (map (name_of ns) (qs @ c # rs))"
  shows "List.find (\<lambda>x. name_of ns x = n) (qs @ c # rs) = (if n = name_of ns c then Some c else List.find (\<lambda>x. name_of ns x = n) (qs @ rs))"
  using assms
proof (induction qs)
  case (Cons q qs)
  then show ?case by auto
qed auto

lemma by_name_distinct: "by_name ns ps \<Longrightarrow> distinct (map (name_of ns) ps)"
proof (induction ps)
  case (Cons p ps)
  then have "\<forall>q \<in> set ps. smaller (name_of ns p) (name_of ns q)" "by_name ns ps" by (simp_all add: by_name_def)
  then show ?case using Cons.IH smaller_props(2) by (fastforce simp: image_iff)
qed simp

lemma tree_insert:
  assumes t: "tree_ok ns rt S K" and d: "d \<in> S" "ntype (ns d) = FS_DIR" and c: "c \<notin> S" "c \<noteq> 0"
    and nd: "first_child nd = 0" "good_name (text_of (nname nd))" and new: "text_of (nname nd) \<notin> name_of ns ` set (K d)"
  shows "\<exists>ns' K'. link_child d c (ns(c := nd)) = Some ns' \<and> tree_ok ns' rt (insert c S) K' \<and> relinked (ns(c := nd)) ns' d c (K d) \<and>
    K' c = [] \<and> (\<forall>e. e \<noteq> c \<and> e \<noteq> d \<longrightarrow> K' e = K e) \<and> (\<exists>qs rs. K d = qs @ rs \<and> K' d = qs @ c # rs) \<and> by_name ns' (K' d)"
proof -
  let ?ns = "ns(c := nd)"
  have cd: "c \<noteq> d" "c \<notin> set (K d)" using c d tree_okD(8) [OF t] by auto
  have nm: "name_of ?ns p = name_of ns p" if "p \<in> S" for p using that c(1) by auto
  have kS: "set (K d) \<subseteq> S" using tree_okD(8) [OF t d(1)] .
  have ch: "chain ?ns (first_child (?ns d)) (K d)" using tree_okD(5) [OF t d(1)] cd by (subst chain_cong [of _ _ ns]) auto
  have bn: "by_name ?ns (K d)"
    using tree_okD(7) [OF t d(1)] nm kS sorted_wrt_mono_rel [of "K d" "\<lambda>p q. smaller (name_of ns p) (name_of ns q)" "\<lambda>p q. smaller (name_of ?ns p) (name_of ?ns q)"]
    unfolding by_name_def by (metis (no_types, lifting) subsetD)
  have new': "name_of ?ns c \<notin> name_of ?ns ` set (K d)" using new nm kS cd(2) by (auto simp: image_iff)
  define qs where "qs = takeWhile (\<lambda>p. smaller (name_of ?ns p) (name_of ?ns c)) (K d)"
  define rs where "rs = dropWhile (\<lambda>p. smaller (name_of ?ns p) (name_of ?ns c)) (K d)"
  have K: "K d = qs @ rs" by (simp add: qs_def rs_def)
  obtain ns' where l: "link_child d c ?ns = Some ns'" "chain ns' (first_child (ns' d)) (qs @ c # rs)" "by_name ns' (qs @ c # rs)" "nparent (ns' c) = d"
      "relinked ?ns ns' d c (K d)"
    using link_child_ok [OF ch tree_okD(6) [OF t d(1)] bn cd(2) c(2) cd(1) new' qs_def rs_def] by blast
  define K' where "K' = K(d := qs @ c # rs, c := [])"
  have K': "K' c = []" "K' d = qs @ c # rs" "\<And>e. e \<noteq> c \<Longrightarrow> e \<noteq> d \<Longrightarrow> K' e = K e" "set (K' d) = insert c (set (K d))" using cd K by (auto simp: K'_def)
  have old: "bare (ns' p) = bare (ns p)" if "p \<in> S" for p using l(5) that c(1) by (auto simp: relinked_def)
  have name: "nname (ns' p) = nname (ns p)" "ntype (ns' p) = ntype (ns p)" if "p \<in> S" for p using bareD [OF old [OF that]] by simp_all
  have par: "nparent (ns' p) = nparent (ns p)" if "p \<in> S" for p using l(5) that c(1) by (auto simp: relinked_def)
  have nc: "nname (ns' c) = nname nd" using l(5) bareD [of "ns' c" nd] by (simp add: relinked_def)
  have fc: "first_child (ns' c) = 0" using l(5) nd(1) cd(1) by (auto simp: relinked_def)
  have chain': "chain ns' (first_child (ns' e)) (K e)" if e: "e \<in> S" "e \<noteq> d" for e
  proof -
    have "p \<notin> set (K d)" if "p \<in> set (K e)" for p using that e d(1) tree_okD(15) [OF t] by blast
    moreover have "p \<noteq> c" if "p \<in> set (K e)" for p using that tree_okD(8) [OF t e(1)] c(1) by blast
    ultimately have "next_sibling (ns' p) = next_sibling (ns p)" if "p \<in> set (K e)" for p using l(5) that by (auto simp: relinked_def)
    moreover have "first_child (ns' e) = first_child (ns e)" using l(5) e c(1) by (auto simp: relinked_def)
    ultimately show ?thesis using tree_okD(5) [OF t e(1)] by (subst chain_cong [of _ _ ns]) auto
  qed
  have named': "by_name ns' (K e)" if e: "e \<in> S" for e
    using tree_okD(7) [OF t e] tree_okD(8) [OF t e] name(1) sorted_wrt_mono_rel [of "K e" "\<lambda>p q. smaller (name_of ns p) (name_of ns q)" "\<lambda>p q. smaller (name_of ns' p) (name_of ns' q)"]
    unfolding by_name_def by (metis (no_types, lifting) subsetD)
  obtain dep :: "u32 \<Rightarrow> nat" where dep: "\<forall>d \<in> S. \<forall>c \<in> set (K d). dep c = Suc (dep d)" using t unfolding tree_ok_def by blast
  have "tree_ok ns' rt (insert c S) K'"
    unfolding tree_ok_def
  proof (intro conjI)
    show "rt \<in> insert c S" "ntype (ns' rt) = FS_DIR" "nparent (ns' rt) = 0" "0 \<notin> insert c S" "finite (insert c S)"
      using t name(2) par c(2) unfolding tree_ok_def by auto
    show "\<forall>e \<in> insert c S. chain ns' (first_child (ns' e)) (K' e) \<and> distinct (K' e) \<and> by_name ns' (K' e) \<and> set (K' e) \<subseteq> insert c S \<and>
        (ntype (ns' e) \<noteq> FS_DIR \<longrightarrow> K' e = [])"
    proof
      fix e
      assume e: "e \<in> insert c S"
      consider "e = c" | "e = d" | "e \<in> S" "e \<noteq> c" "e \<noteq> d" using e by blast
      then show "chain ns' (first_child (ns' e)) (K' e) \<and> distinct (K' e) \<and> by_name ns' (K' e) \<and> set (K' e) \<subseteq> insert c S \<and> (ntype (ns' e) \<noteq> FS_DIR \<longrightarrow> K' e = [])"
      proof cases
        case 1
        then show ?thesis using K'(1) fc by (simp add: by_name_def)
      next
        case 2
        have "distinct (K' d)" using tree_okD(6) [OF t d(1)] cd(2) K K'(2) by auto
        then show ?thesis using 2 l(2,3) K'(2,4) kS name(2) [OF d(1)] d(2) by auto
      next
        case 3
        then show ?thesis using K'(3) chain' named' tree_okD(6,8,9) [OF t 3(1)] name(2) by auto
      qed
    qed
    show "\<forall>e \<in> insert c S. \<forall>x \<in> set (K' e). nparent (ns' x) = e \<and> x \<noteq> rt \<and> good_name (name_of ns' x)"
    proof (intro ballI)
      fix e x
      assume e: "e \<in> insert c S" and x: "x \<in> set (K' e)"
      show "nparent (ns' x) = e \<and> x \<noteq> rt \<and> good_name (name_of ns' x)"
      proof (cases "x = c")
        case True
        then have "e = d" using e x K' c(1) tree_okD(8) [OF t] by (metis empty_iff insertE list.set(1) subsetD)
        then show ?thesis using True l(4) c(1) tree_okD(1) [OF t] nc nd(2) by auto
      next
        case False
        then have x': "x \<in> set (K e)" "e \<in> S" using e x K' d(1) by (metis empty_iff insertE list.set(1))+
        then have "x \<in> S" using tree_okD(8) [OF t] by blast
        then show ?thesis using par name(1) x' tree_okD(10,11,14) [OF t x'(2,1)] by simp
      qed
    qed
    show "\<forall>x \<in> insert c S. x \<noteq> rt \<longrightarrow> nparent (ns' x) \<in> insert c S \<and> x \<in> set (K' (nparent (ns' x)))"
    proof (intro ballI impI)
      fix x
      assume x: "x \<in> insert c S" "x \<noteq> rt"
      show "nparent (ns' x) \<in> insert c S \<and> x \<in> set (K' (nparent (ns' x)))"
      proof (cases "x = c")
        case True
        then show ?thesis using l(4) d(1) K'(4) by simp
      next
        case False
        then have "x \<in> S" using x by blast
        then have p: "nparent (ns x) \<in> S" "x \<in> set (K (nparent (ns x)))" using tree_okD(12) [OF t] x(2) by blast+
        then have "x \<in> set (K' (nparent (ns x)))" using K'(3,4) c(1) by (cases "nparent (ns x) = d") (auto, metis)
        then show ?thesis using par [OF \<open>x \<in> S\<close>] p(1) by simp
      qed
    qed
    have "(dep(c := Suc (dep d))) x = Suc ((dep(c := Suc (dep d))) e)" if e: "e \<in> insert c S" and x: "x \<in> set (K' e)" for e x
    proof -
      have "e \<noteq> c" using x K'(1) by auto
      then have eS: "e \<in> S" using e by blast
      show ?thesis
      proof (cases "x = c")
        case True
        then have "e = d" using x K' eS c(1) tree_okD(8) [OF t] by (metis \<open>e \<noteq> c\<close> subsetD)
        then show ?thesis using True cd(1) by simp
      next
        case False
        then have "x \<in> set (K e)" using x K' \<open>e \<noteq> c\<close> by (metis insertE)
        then show ?thesis using dep eS False \<open>e \<noteq> c\<close> by simp
      qed
    qed
    then show "\<exists>dep :: u32 \<Rightarrow> nat. \<forall>e \<in> insert c S. \<forall>x \<in> set (K' e). dep x = Suc (dep e)" by blast
  qed
  then show ?thesis using l K K'(1-3) by (intro exI [of _ ns'] exI [of _ K']) auto
qed


lemma follow_insert:
  assumes t: "tree_ok ns rt S K" and t': "tree_ok ns' rt (insert c S) K'" and d: "d \<in> S" and c: "c \<notin> S"
    and K: "K' c = []" "\<And>e. e \<noteq> c \<Longrightarrow> e \<noteq> d \<Longrightarrow> K' e = K e" "K d = qs @ rs" "K' d = qs @ c # rs"
    and nm: "\<And>p. p \<in> S \<Longrightarrow> name_of ns' p = name_of ns p" and new: "name_of ns' c \<notin> name_of ns ` set (K d)"
  shows "follow ns' K' rt names = (if \<exists>up. names = up @ [name_of ns' c] \<and> follow ns K rt up = d then c else follow ns K rt names)"
proof (induction names rule: rev_induct)
  case Nil
  then show ?case by simp
next
  case (snoc m a)
  let ?n = "name_of ns' c"
  note r = tree_okD(1) [OF t]
  have z: "0 \<notin> S" "d \<noteq> 0" "c \<noteq> 0" using tree_okD(4) [OF t] tree_okD(4) [OF t'] d by auto
  have f: "follow ns K rt (a @ [m]) = (if follow ns K rt a = 0 then 0 else follow ns K (follow ns K rt a) [m])"
    "follow ns' K' rt (a @ [m]) = (if follow ns' K' rt a = 0 then 0 else follow ns' K' (follow ns' K' rt a) [m])"
    using follow_append [OF t r] follow_append [OF t' tree_okD(1) [OF t']] by blast+
  have none: "List.find (\<lambda>x. name_of ns x = ?n) (K d) = None" using new by (auto simp: find_None_iff image_iff)
  have cond: "(\<exists>up. a @ [m] = up @ [?n] \<and> follow ns K rt up = d) \<longleftrightarrow> m = ?n \<and> follow ns K rt a = d" by auto
  have S: "follow ns K rt a = 0 \<or> follow ns K rt a \<in> S" using follow_in [OF t r] .
  show ?case
  proof (cases "\<exists>up. a = up @ [?n] \<and> follow ns K rt up = d")
    case True
    then obtain up where up: "a = up @ [?n]" "follow ns K rt up = d" by blast
    then have "follow ns K rt a = 0" using follow_append [OF t r, of up "[?n]"] z(2) none by simp
    moreover have "follow ns' K' rt a = c" using snoc True by auto
    ultimately show ?thesis unfolding cond f using K(1) z by simp
  next
    case False
    then have e: "follow ns' K' rt a = follow ns K rt a" using snoc by auto
    consider "follow ns K rt a = 0" | "follow ns K rt a = d" | "follow ns K rt a \<in> S" "follow ns K rt a \<noteq> d" using S by blast
    then show ?thesis
    proof cases
      case 1
      then show ?thesis unfolding cond f e using z by simp
    next
      case 2
      have "distinct (map (name_of ns') (qs @ c # rs))" using by_name_distinct tree_okD(7) [OF t', of d] d K(4) by (metis insertCI)
      note fi = find_insert [OF this, of m]
      have "List.find (\<lambda>x. name_of ns' x = m) (qs @ rs) = List.find (\<lambda>x. name_of ns x = m) (K d)"
        unfolding K(3) [symmetric] using nm tree_okD(8) [OF t d] by (intro find_cong) auto
      then show ?thesis unfolding cond f e using 2 z K(4) fi by (simp split: option.split)
    next
      case 3
      have "List.find (\<lambda>x. name_of ns' x = m) (K (follow ns K rt a)) = List.find (\<lambda>x. name_of ns x = m) (K (follow ns K rt a))"
        using nm tree_okD(8) [OF t 3(1)] by (intro find_cong) auto
      moreover have "K' (follow ns K rt a) = K (follow ns K rt a)" using K(2) 3 c by metis
      ultimately show ?thesis unfolding cond f e using 3 by (simp split: option.split)
    qed
  qed
qed

text \<open>Taking a leaf out.\<close>

lemma tree_remove:
  assumes t: "tree_ok ns rt S K" and c: "c \<in> S" "c \<noteq> rt" "K c = []" and d: "d = nparent (ns c)"
  shows "\<exists>ns'. unlink_child d c ns = Some ns' \<and> tree_ok ns' rt (S - {c}) (K(d := remove1 c (K d))) \<and> relinked ns ns' d c (K d)"
proof -
  have dS: "d \<in> S" "c \<in> set (K d)" using tree_okD(12) [OF t c(1,2)] d by auto
  have cd: "c \<noteq> d" using tree_okD(13) [OF t] dS by blast
  obtain ns' where u: "unlink_child d c ns = Some ns'" "chain ns' (first_child (ns' d)) (remove1 c (K d))" "by_name ns' (remove1 c (K d))"
      "relinked ns ns' d c (K d)"
    using unlink_child_ok [OF tree_okD(5,6,7) [OF t dS(1)] dS(2) tree_okD(13) [OF t dS(1)]] by blast
  let ?K = "K(d := remove1 c (K d))"
  have rm: "set (remove1 c (K d)) = set (K d) - {c}" "distinct (remove1 c (K d))" using tree_okD(6) [OF t dS(1)] by (simp_all add: set_remove1_eq)
  have name: "nname (ns' p) = nname (ns p)" "ntype (ns' p) = ntype (ns p)" for p using u(4) bareD [of "ns' p" "ns p"] by (simp_all add: relinked_def)
  have par: "nparent (ns' p) = nparent (ns p)" if "p \<noteq> c" for p using u(4) that by (simp add: relinked_def)
  have sub: "set (?K e) \<subseteq> set (K e) - {c}" if "e \<in> S" for e using rm(1) tree_okD(15) [OF t that dS(1)] dS(2) by auto
  have chain': "chain ns' (first_child (ns' e)) (K e)" if e: "e \<in> S" "e \<noteq> d" for e
  proof -
    have "next_sibling (ns' p) = next_sibling (ns p)" if "p \<in> set (K e)" for p
    proof -
      have "p \<notin> set (K d)" using tree_okD(15) [OF t e(1) dS(1) that] e(2) by blast
      then show ?thesis using u(4) dS(2) by (metis relinked_def)
    qed
    moreover have "first_child (ns' e) = first_child (ns e)" using u(4) e by (simp add: relinked_def)
    ultimately show ?thesis using tree_okD(5) [OF t e(1)] by (subst chain_cong [of _ _ ns]) auto
  qed
  have named': "by_name ns' (K e)" if "e \<in> S" for e using tree_okD(7) [OF t that] by (simp add: by_name_def name)
  obtain dep :: "u32 \<Rightarrow> nat" where dep: "\<forall>d \<in> S. \<forall>c \<in> set (K d). dep c = Suc (dep d)" using t unfolding tree_ok_def by blast
  have "tree_ok ns' rt (S - {c}) ?K"
    unfolding tree_ok_def
  proof (intro conjI)
    show "rt \<in> S - {c}" "ntype (ns' rt) = FS_DIR" "nparent (ns' rt) = 0" "0 \<notin> S - {c}" "finite (S - {c})"
      using t name(2) par [of rt] c(2) unfolding tree_ok_def by auto
    show "\<forall>e \<in> S - {c}. chain ns' (first_child (ns' e)) (?K e) \<and> distinct (?K e) \<and> by_name ns' (?K e) \<and> set (?K e) \<subseteq> S - {c} \<and>
        (ntype (ns' e) \<noteq> FS_DIR \<longrightarrow> ?K e = [])"
    proof (intro ballI conjI impI)
      fix e
      assume e: "e \<in> S - {c}"
      show "chain ns' (first_child (ns' e)) (?K e)" "distinct (?K e)" "by_name ns' (?K e)"
        using e u(2,3) rm(2) chain' named' tree_okD(6) [OF t] by auto
      show "set (?K e) \<subseteq> S - {c}" using sub [of e] tree_okD(8) [OF t, of e] e by blast
      assume "ntype (ns' e) \<noteq> FS_DIR"
      then have "K e = []" using tree_okD(9) [OF t] e name(2) by simp
      then show "?K e = []" by auto
    qed
    show "\<forall>e \<in> S - {c}. \<forall>x \<in> set (?K e). nparent (ns' x) = e \<and> x \<noteq> rt \<and> good_name (name_of ns' x)"
    proof (intro ballI)
      fix e x
      assume e: "e \<in> S - {c}" "x \<in> set (?K e)"
      then have "x \<in> set (K e)" "x \<noteq> c" "e \<in> S" using sub by blast+
      then show "nparent (ns' x) = e \<and> x \<noteq> rt \<and> good_name (name_of ns' x)" using par name(1) tree_okD(10,11,14) [OF t] by simp
    qed
    show "\<forall>x \<in> S - {c}. x \<noteq> rt \<longrightarrow> nparent (ns' x) \<in> S - {c} \<and> x \<in> set (?K (nparent (ns' x)))"
    proof (intro ballI impI)
      fix x
      assume x: "x \<in> S - {c}" "x \<noteq> rt"
      then have p: "nparent (ns x) \<in> S" "x \<in> set (K (nparent (ns x)))" "nparent (ns' x) = nparent (ns x)" using tree_okD(12) [OF t] par by auto
      then have "nparent (ns x) \<noteq> c" using c(3) by auto
      then show "nparent (ns' x) \<in> S - {c} \<and> x \<in> set (?K (nparent (ns' x)))" using p x rm(1) by auto
    qed
    show "\<exists>dep :: u32 \<Rightarrow> nat. \<forall>e \<in> S - {c}. \<forall>x \<in> set (?K e). dep x = Suc (dep e)" using dep sub by (intro exI [of _ dep]) blast
  qed
  then show ?thesis using u by blast
qed


end
