(* ===== verification/SfsDisk.thy ===== *)
theory SfsDisk
  imports Sfs
begin

text \<open>
  Facts about the lower layers of the file system: blocks, scratch buffers, the bitmap and the inode table, when the drive answers.
\<close>

unbundle bit_operations_syntax

section \<open>Blocks\<close>

text \<open>The contents of block \<open>b\<close> of the partition.\<close>

definition dblk :: "sfs \<Rightarrow> nat \<Rightarrow> u8 list" where
  "dblk s b = medium_bytes (drive s) ((unat (partition_lba s) + 8 * b) * SECTOR_SIZE) SFS_BLOCK"

lemma length_dblk [simp]: "length (dblk s b) = SFS_BLOCK"
  by (simp add: dblk_def medium_bytes_def)

text \<open>
  The buffer pool with at least \<open>k\<close> free buffers, and the layout the superblock describes: bitmap, inode table and data one after the
  other on a partition the driver can address.
\<close>

definition pool_free :: "nat \<Rightarrow> sfs \<Rightarrow> bool" where
  "pool_free k s \<longleftrightarrow> length (scratch_pool s) = SCRATCH_COUNT \<and> length (scratch_busy s) = SCRATCH_COUNT \<and> distinct (scratch_pool s) \<and>
     0 \<notin> set (scratch_pool s) \<and> k \<le> length (filter Not (scratch_busy s))"

definition data_start :: "sfs \<Rightarrow> nat" where
  "data_start s = unat (inode_start (super s)) + unat (inode_blocks (super s))"

definition layout :: "sfs \<Rightarrow> bool" where
  "layout s \<longleftrightarrow> unat (partition_lba s) + 8 * unat (total_blocks (super s)) \<le> 2 ^ 28 \<and>
     length (bitmap s) = SFS_BLOCK * unat (bitmap_blocks (super s)) \<and> unat (total_blocks (super s)) \<le> 8 * length (bitmap s) \<and>
     1 \<le> unat (bitmap_start (super s)) \<and>
     unat (bitmap_start (super s)) + unat (bitmap_blocks (super s)) \<le> unat (inode_start (super s)) \<and>
     data_start s \<le> unat (total_blocks (super s)) \<and>
     unat (inode_count (super s)) \<le> SFS_INODES_PER_BLOCK * unat (inode_blocks (super s)) \<and> length (label (super s)) = 32"

definition env :: "nat \<Rightarrow> sfs \<Rightarrow> bool" where
  "env k s \<longleftrightarrow> answers (drive s) \<and> pool_free k s \<and> layout s"

text \<open>What no operation on the disk changes, apart from the contents of the disk, the bitmap and the count of free blocks.\<close>

definition disk_frame :: "sfs \<Rightarrow> sfs \<Rightarrow> bool" where
  "disk_frame s s' \<longleftrightarrow> answers (drive s') \<and> partition_lba s' = partition_lba s \<and> ker s' = ker s \<and> mounted s' = mounted s \<and>
     inodes_used s' = inodes_used s \<and> scratch_pool s' = scratch_pool s \<and> scratch_busy s' = scratch_busy s \<and>
     super s' = (super s)\<lparr>free_blocks := free_blocks (super s')\<rparr> \<and> length (bitmap s') = length (bitmap s)"

lemma disk_frame_super:
  assumes "disk_frame s s'"
  shows "total_blocks (super s') = total_blocks (super s)" "bitmap_start (super s') = bitmap_start (super s)"
    "bitmap_blocks (super s') = bitmap_blocks (super s)" "inode_start (super s') = inode_start (super s)"
    "inode_blocks (super s') = inode_blocks (super s)" "inode_count (super s') = inode_count (super s)" "label (super s') = label (super s)"
    "data_start s' = data_start s"
proof -
  have "super s' = (super s)\<lparr>free_blocks := free_blocks (super s')\<rparr>" using assms by (simp add: disk_frame_def)
  then obtain f where f: "super s' = (super s)\<lparr>free_blocks := f\<rparr>" by blast
  show "total_blocks (super s') = total_blocks (super s)" "bitmap_start (super s') = bitmap_start (super s)"
    "bitmap_blocks (super s') = bitmap_blocks (super s)" "inode_start (super s') = inode_start (super s)"
    "inode_blocks (super s') = inode_blocks (super s)" "inode_count (super s') = inode_count (super s)" "label (super s') = label (super s)"
    "data_start s' = data_start s"
    unfolding data_start_def f by simp_all
qed

lemma disk_frame_refl: "answers (drive s) \<Longrightarrow> disk_frame s s"
  by (simp add: disk_frame_def)

lemma disk_frame_trans: "disk_frame s s1 \<Longrightarrow> disk_frame s1 s2 \<Longrightarrow> disk_frame s s2"
  unfolding disk_frame_def by (metis sfs_super.update_convs(11) sfs_super.surjective)

lemma disk_frame_env: "env k s \<Longrightarrow> disk_frame s s' \<Longrightarrow> env k s'"
  using disk_frame_super [of s s'] by (auto simp: env_def layout_def pool_free_def disk_frame_def)

lemma env_mono: "env k s \<Longrightarrow> j \<le> k \<Longrightarrow> env j s"
  by (auto simp: env_def pool_free_def)


lemma find_upt: "List.find P [0..<n] = Some i \<Longrightarrow> i < n \<and> P i"
  by (auto simp: find_Some_iff)

lemma free_count:
  assumes "i < length b" and "\<not> b ! i"
  shows "Suc (length (filter Not (b[i := True]))) = length (filter Not b)"
proof -
  have "b = take i b @ b ! i # drop (Suc i) b" by (rule id_take_nth_drop [OF assms(1)])
  moreover have "b[i := True] = take i b @ True # drop (Suc i) b" using assms by (simp add: upd_conv_take_nth_drop)
  moreover have "filter Not (take i b @ b ! i # drop (Suc i) b) = filter Not (take i b) @ False # filter Not (drop (Suc i) b)"
    using assms(2) by simp
  ultimately show ?thesis by (metis append.simps(2) filter.simps(2) filter_append length_Cons length_append add_Suc_right)
qed

lemma scratch_taken:
  assumes "env (Suc k) s"
  shows "\<exists>p b. scratch_take s = Some (p, s\<lparr>scratch_busy := b\<rparr>) \<and> p \<noteq> 0 \<and> env k (s\<lparr>scratch_busy := b\<rparr>) \<and>
    (\<forall>s2. scratch_pool s2 = scratch_pool s \<and> scratch_busy s2 = b \<longrightarrow> scratch_give p s2 = Some (s2\<lparr>scratch_busy := scratch_busy s\<rparr>))"
proof -
  let ?P = "\<lambda>i. \<not> scratch_busy s ! i \<and> scratch_pool s ! i \<noteq> 0"
  have pf: "length (scratch_pool s) = SCRATCH_COUNT" "length (scratch_busy s) = SCRATCH_COUNT" "distinct (scratch_pool s)"
    "0 \<notin> set (scratch_pool s)" "Suc k \<le> length (filter Not (scratch_busy s))"
    using assms by (auto simp: env_def pool_free_def)
  have "filter Not (scratch_busy s) \<noteq> []" using pf(5) by auto
  then obtain j where "j < SCRATCH_COUNT" "\<not> scratch_busy s ! j" using pf(2) by (auto simp: filter_empty_conv in_set_conv_nth)
  then have "\<exists>j < SCRATCH_COUNT. ?P j" using pf(1,4) by (metis nth_mem)
  then obtain i where f: "List.find ?P [0..<SCRATCH_COUNT] = Some i" by (cases "List.find ?P [0..<SCRATCH_COUNT]") (auto simp: find_None_iff)
  have i: "i < SCRATCH_COUNT" "\<not> scratch_busy s ! i" "scratch_pool s ! i \<noteq> 0" using find_upt [OF f] by simp_all
  have g: "scratch_give (scratch_pool s ! i) s2 = Some (s2\<lparr>scratch_busy := scratch_busy s\<rparr>)"
    if "scratch_pool s2 = scratch_pool s" "scratch_busy s2 = (scratch_busy s)[i := True]" for s2
  proof -
    have "\<exists>j. List.find (\<lambda>j. scratch_pool s ! j = scratch_pool s ! i) [0..<SCRATCH_COUNT] = Some j"
      using i(1) by (cases "List.find (\<lambda>j. scratch_pool s ! j = scratch_pool s ! i) [0..<SCRATCH_COUNT]") (auto simp: find_None_iff)
    then obtain j where j: "List.find (\<lambda>j. scratch_pool s ! j = scratch_pool s ! i) [0..<SCRATCH_COUNT] = Some j" ..
    then have "j = i" using find_upt [OF j] pf(1,3) i(1) by (metis nth_eq_iff_index_eq)
    moreover have "(scratch_busy s)[i := False] = scratch_busy s" using i(2) pf(2) i(1) by (simp add: list_update_same_conv)
    ultimately show ?thesis using j that by (simp add: scratch_give_def)
  qed
  have "env k (s\<lparr>scratch_busy := (scratch_busy s)[i := True]\<rparr>)"
    using assms free_count [of i "scratch_busy s"] i pf by (auto simp: env_def pool_free_def layout_def data_start_def)
  then show ?thesis
    using f i(3) g by (intro exI [of _ "scratch_pool s ! i"] exI [of _ "(scratch_busy s)[i := True]"]) (simp add: scratch_take_def)
qed

text \<open>With a free buffer, a call with a buffer is the call of its body; the buffer is free again afterwards.\<close>

lemma with_scratch_ok:
  assumes e: "env (Suc k) s"
    and body: "\<And>b. env k (s\<lparr>scratch_busy := b\<rparr>) \<Longrightarrow>
      \<exists>r s2. body (s\<lparr>scratch_busy := b\<rparr>) = Some (r, s2) \<and> disk_frame (s\<lparr>scratch_busy := b\<rparr>) s2 \<and> Q r (s2\<lparr>scratch_busy := scratch_busy s\<rparr>)"
  shows "\<exists>r s'. with_scratch fail body s = Some (r, s') \<and> disk_frame s s' \<and> Q r s'"
proof -
  obtain p b where t: "scratch_take s = Some (p, s\<lparr>scratch_busy := b\<rparr>)" "p \<noteq> 0" "env k (s\<lparr>scratch_busy := b\<rparr>)"
      "\<And>s2. scratch_pool s2 = scratch_pool s \<Longrightarrow> scratch_busy s2 = b \<Longrightarrow> scratch_give p s2 = Some (s2\<lparr>scratch_busy := scratch_busy s\<rparr>)"
    using scratch_taken [OF e] by blast
  obtain r s2 where b: "body (s\<lparr>scratch_busy := b\<rparr>) = Some (r, s2)" "disk_frame (s\<lparr>scratch_busy := b\<rparr>) s2" "Q r (s2\<lparr>scratch_busy := scratch_busy s\<rparr>)"
    using body [OF t(3)] by blast
  have "scratch_give p s2 = Some (s2\<lparr>scratch_busy := scratch_busy s\<rparr>)" using b(2) by (intro t(4)) (simp_all add: disk_frame_def)
  moreover have "disk_frame s (s2\<lparr>scratch_busy := scratch_busy s\<rparr>)" using b(2) by (simp add: disk_frame_def)
  ultimately show ?thesis using t b by (intro exI [of _ r] exI [of _ "s2\<lparr>scratch_busy := scratch_busy s\<rparr>"]) (simp add: with_scratch_def)
qed

text \<open>Reading and writing a block of the partition.\<close>

lemma block_lba:
  assumes "env k s" and "unat b < unat (total_blocks (super s))"
  shows "unat (partition_lba s + b * SECTORS_PER_BLOCK) = unat (partition_lba s) + 8 * unat b" and "unat (partition_lba s) + 8 * unat b < 2 ^ 28"
proof -
  have l: "unat (partition_lba s) + 8 * unat (total_blocks (super s)) \<le> 2 ^ 28" using assms(1) by (simp add: env_def layout_def)
  then show c: "unat (partition_lba s) + 8 * unat b < 2 ^ 28" using assms(2) by simp
  then have "unat (b * SECTORS_PER_BLOCK) = 8 * unat b" by (subst unat_word_ariths) (simp add: SECTORS_PER_BLOCK_def)
  then show "unat (partition_lba s + b * SECTORS_PER_BLOCK) = unat (partition_lba s) + 8 * unat b"
    using c by (subst unat_plus_simple) simp_all
qed

lemma read_block_ok:
  assumes "env k s" and "unat b < unat (total_blocks (super s))"
  shows "\<exists>s'. read_block b s = ((0, dblk s (unat b)), s') \<and> disk_frame s s' \<and> dblk s' = dblk s \<and> bitmap s' = bitmap s \<and> super s' = super s"
proof -
  let ?l = "partition_lba s + b * SECTORS_PER_BLOCK"
  have a: "answers (drive s)" using assms(1) by (simp add: env_def)
  have "\<exists>d'. ata_read_sectors ?l SECTORS_PER_BLOCK (drive s) =
      ((0, medium_bytes (drive s) (unat ?l * SECTOR_SIZE) (unat SECTORS_PER_BLOCK * SECTOR_SIZE)), d') \<and> answers d' \<and> medium d' = medium (drive s)"
    using block_lba [OF assms] by (intro ata_read_ok [OF a]) (simp_all add: SECTORS_PER_BLOCK_def)
  then obtain d where d: "ata_read_sectors ?l SECTORS_PER_BLOCK (drive s) = ((0, dblk s (unat b)), d)" "answers d" "medium d = medium (drive s)"
    using block_lba [OF assms] by (auto simp: dblk_def SECTORS_PER_BLOCK_def SECTOR_SIZE_def SFS_BLOCK_def)
  have "dblk (s\<lparr>drive := d\<rparr>) = dblk s" using d(3) by (intro HOL.ext) (simp add: dblk_def medium_bytes_def)
  then show ?thesis using d by (intro exI [of _ "s\<lparr>drive := d\<rparr>"]) (simp add: read_block_def disk_frame_def)
qed

lemma write_block_ok:
  assumes "env k s" and "unat b < unat (total_blocks (super s))" and "length bs = SFS_BLOCK"
  shows "\<exists>s'. write_block b bs s = (0, s') \<and> disk_frame s s' \<and> dblk s' = (dblk s)(unat b := bs) \<and> bitmap s' = bitmap s \<and> super s' = super s"
proof -
  let ?l = "partition_lba s + b * SECTORS_PER_BLOCK"
  have a: "answers (drive s)" using assms(1) by (simp add: env_def)
  have "\<exists>d'. ata_write_sectors ?l SECTORS_PER_BLOCK bs (drive s) = (0, d') \<and> answers d' \<and>
      medium d' = medium (store_bytes (unat ?l * SECTOR_SIZE) bs (drive s))"
    using block_lba [OF assms(1,2)] assms(3)
    by (intro ata_write_ok [OF a]) (simp_all add: SECTORS_PER_BLOCK_def SECTOR_SIZE_def SFS_BLOCK_def)
  then obtain d where d: "ata_write_sectors ?l SECTORS_PER_BLOCK bs (drive s) = (0, d)" "answers d"
      "medium d = medium (store_bytes ((unat (partition_lba s) + 8 * unat b) * SECTOR_SIZE) bs (drive s))"
    using block_lba [OF assms(1,2)] by auto
  have "dblk (s\<lparr>drive := d\<rparr>) c = ((dblk s)(unat b := bs)) c" for c
  proof (cases "c = unat b")
    case True
    then show ?thesis using assms(3)
      by (intro nth_equalityI) (auto simp: dblk_def medium_bytes_def d(3) store_bytes_def)
  next
    case False
    then have "c + 1 \<le> unat b \<or> unat b + 1 \<le> c" by arith
    then show ?thesis using False assms(3)
      by (intro nth_equalityI) (auto simp: dblk_def medium_bytes_def d(3) store_bytes_def SFS_BLOCK_def SECTOR_SIZE_def)
  qed
  then have "dblk (s\<lparr>drive := d\<rparr>) = (dblk s)(unat b := bs)" by blast
  then show ?thesis using d by (intro exI [of _ "s\<lparr>drive := d\<rparr>"]) (simp add: write_block_def disk_frame_def)
qed

section \<open>Bitmap\<close>

definition bm_test :: "u32 \<Rightarrow> u8 list \<Rightarrow> bool" where
  "bm_test b bm = bit (bm ! (unat b div 8)) (unat b mod 8)"

definition bm_ok :: "u32 \<Rightarrow> u8 list \<Rightarrow> bool" where
  "bm_ok b bm \<longleftrightarrow> unat b div 8 < length bm"

lemma bm_index: "unat i div 8 = unat j div 8 \<Longrightarrow> unat i mod 8 = unat j mod 8 \<Longrightarrow> i = j" for i j :: u32
  by (metis div_mult_mod_eq word_unat_eq_iff)

lemma bit_byte: "m < 8 \<Longrightarrow> n < 8 \<Longrightarrow> bit (x OR push_bit m 1) n \<longleftrightarrow> n = m \<or> bit x n"
  "m < 8 \<Longrightarrow> n < 8 \<Longrightarrow> bit (x AND NOT (push_bit m 1)) n \<longleftrightarrow> n \<noteq> m \<and> bit x n" for x :: u8
  by (auto simp: bit_simps)

text \<open>The bitmap of the disk is an allocation bitmap in the sense of the interface the frame allocator uses.\<close>

interpretation dbits: bit_vector bm_test mark_bit clear_bit bm_ok
proof
  fix i j :: u32 and b :: "u8 list"
  show "bm_test j (mark_bit i b) \<longleftrightarrow> j = i \<or> bm_test j b" if "bm_ok i b"
    using that bm_index [of j i] bit_byte(1) [of "unat i mod 8" "unat j mod 8"]
    by (cases "unat j div 8 = unat i div 8") (auto simp: bm_test_def mark_bit_def bm_ok_def)
  show "bm_test j (clear_bit i b) \<longleftrightarrow> j \<noteq> i \<and> bm_test j b" if "bm_ok i b"
    using that bm_index [of j i] bit_byte(2) [of "unat i mod 8" "unat j mod 8"]
    by (cases "unat j div 8 = unat i div 8") (auto simp: bm_test_def clear_bit_def bm_ok_def)
qed (simp_all add: bm_ok_def mark_bit_def clear_bit_def)

lemma length_mark [simp]: "length (mark_bit b bm) = length bm" "length (clear_bit b bm) = length bm"
  by (simp_all add: mark_bit_def clear_bit_def)

lemma first_free_ok: "\<forall>b \<in> set bs. bm_ok b (bitmap s) \<Longrightarrow> first_free bs s = Some (List.find (\<lambda>b. \<not> bm_test b (bitmap s)) bs)"
  by (induction bs) (auto simp: bitmap_test_def bm_test_def bm_ok_def)

lemma in_all_blocks: "b \<in> set (all_blocks s) \<longleftrightarrow> b < total_blocks (super s)"
proof
  assume "b < total_blocks (super s)"
  then have "unat b < unat (total_blocks (super s))" by (simp add: word_less_nat_alt)
  then have "of_nat (unat b) \<in> set (all_blocks s)" unfolding all_blocks_def set_map by (intro imageI) simp
  then show "b \<in> set (all_blocks s)" by simp
next
  assume "b \<in> set (all_blocks s)"
  then obtain k where "k < unat (total_blocks (super s))" "b = of_nat k" by (auto simp: all_blocks_def)
  then show "b < total_blocks (super s)"
    using unat_lt2p [of "total_blocks (super s)"] by (simp add: word_less_nat_alt unsigned_of_nat take_bit_eq_mod)
qed

lemma block_ok: "env k s \<Longrightarrow> b < total_blocks (super s) \<Longrightarrow> bm_ok b (bitmap s)"
  by (auto simp: env_def layout_def bm_ok_def word_less_nat_alt)

lemma first_free_all: "env k s \<Longrightarrow> first_free (all_blocks s) s = Some (List.find (\<lambda>b. \<not> bm_test b (bitmap s)) (all_blocks s))"
  using block_ok by (intro first_free_ok) (auto simp: in_all_blocks)

section \<open>What is stored in the first blocks\<close>

definition super_image :: "sfs \<Rightarrow> u8 list" where
  "super_image s = put_at 0 (super_bytes (super s)) zero_block"

definition bitmap_image :: "sfs \<Rightarrow> nat \<Rightarrow> u8 list" where
  "bitmap_image s i = take SFS_BLOCK (drop (i * SFS_BLOCK) (bitmap s))"

text \<open>The superblock and the bitmap on the disk are those in memory.\<close>

definition persistent :: "sfs \<Rightarrow> bool" where
  "persistent s \<longleftrightarrow> dblk s 0 = super_image s \<and>
     (\<forall>i < unat (bitmap_blocks (super s)). dblk s (unat (bitmap_start (super s)) + i) = bitmap_image s i)"

lemma envD:
  assumes "env k s"
  shows "answers (drive s)" "length (bitmap s) = SFS_BLOCK * unat (bitmap_blocks (super s))" "unat (total_blocks (super s)) \<le> 8 * length (bitmap s)"
    "1 \<le> unat (bitmap_start (super s))" "unat (bitmap_start (super s)) + unat (bitmap_blocks (super s)) \<le> unat (inode_start (super s))"
    "unat (inode_start (super s)) \<le> data_start s" "data_start s \<le> unat (total_blocks (super s))"
    "unat (inode_count (super s)) \<le> SFS_INODES_PER_BLOCK * unat (inode_blocks (super s))" "length (label (super s)) = 32"
  using assms by (auto simp: env_def layout_def data_start_def)

lemma length_super_image: "length (label (super s)) = 32 \<Longrightarrow> length (super_image s) = SFS_BLOCK"
  by (simp add: super_image_def super_bytes_def zero_block_def SFS_BLOCK_def)

lemma flush_ok:
  assumes "env k s" and "b < total_blocks (super s)"
  shows "\<exists>s'. bitmap_flush b s = s' \<and> disk_frame s s' \<and> bitmap s' = bitmap s \<and> super s' = super s \<and>
    dblk s' = (dblk s)(unat (bitmap_start (super s)) + unat b div (SFS_BLOCK * 8) := bitmap_image s (unat b div (SFS_BLOCK * 8)))"
proof -
  let ?i = "unat b div (SFS_BLOCK * 8)"
  note e = envD [OF assms(1)]
  have i: "?i < unat (bitmap_blocks (super s))"
    using e(2,3) assms(2) by (simp add: word_less_nat_alt SFS_BLOCK_def less_mult_imp_div_less algebra_simps)
  have n: "unat (of_nat ?i :: u32) = ?i" using unat_lt2p [of b] by (simp add: unsigned_of_nat take_bit_eq_mod SFS_BLOCK_def)
  have u: "unat (bitmap_start (super s) + of_nat ?i) = unat (bitmap_start (super s)) + ?i"
    using i e(5) unat_lt2p [of "inode_start (super s)"] by (subst unat_plus_simple) (simp_all add: n)
  have "length (bitmap_image s ?i) = SFS_BLOCK"
  proof -
    have "(?i + 1) * SFS_BLOCK \<le> length (bitmap s)" using i e(2) by (metis Suc_eq_plus1 Suc_leI mult.commute mult_le_mono1)
    then show ?thesis by (simp add: bitmap_image_def)
  qed
  then show ?thesis
    using write_block_ok [OF assms(1), of "bitmap_start (super s) + of_nat ?i" "bitmap_image s ?i"] i e(5,6,7)
    unfolding u by (auto simp: bitmap_flush_def Let_def bitmap_image_def)
qed

lemma write_super_ok:
  assumes "env 1 s"
  shows "\<exists>s'. write_super s = Some (0, s') \<and> disk_frame s s' \<and> bitmap s' = bitmap s \<and> super s' = super s \<and> dblk s' = (dblk s)(0 := super_image s)"
proof -
  note e = envD [OF assms]
  have d: "dblk (s2\<lparr>scratch_busy := b\<rparr>) = dblk s2" for s2 b by (intro HOL.ext) (simp add: dblk_def)
  have "\<exists>r s2. Some (write_block 0 (super_image s1) s1) = Some (r, s2) \<and> disk_frame s1 s2 \<and> r = 0 \<and> bitmap s2 = bitmap s1 \<and> super s2 = super s1 \<and>
      dblk s2 = (dblk s1)(0 := super_image s1)" if "env 0 s1" for s1
  proof -
    have "unat (0 :: u32) < unat (total_blocks (super s1))" using envD(4-7) [OF that] by simp
    from write_block_ok [OF that this length_super_image [OF envD(9) [OF that]]] show ?thesis by auto
  qed
  then have "\<exists>r s'. with_scratch (- 1) (\<lambda>s1. Some (write_block 0 (super_image s1) s1)) s = Some (r, s') \<and> disk_frame s s' \<and>
      (r = 0 \<and> bitmap s' = bitmap s \<and> super s' = super s \<and> dblk s' = (dblk s)(0 := super_image s))"
    using assms by (intro with_scratch_ok [where k = 0]) (fastforce simp: d super_image_def)+
  then show ?thesis unfolding write_super_def super_image_def by blast
qed


lemma dblk_busy [simp]: "dblk (s\<lparr>scratch_busy := b\<rparr>) = dblk s" "dblk (s\<lparr>bitmap := bm\<rparr>) = dblk s" "dblk (s\<lparr>super := sb\<rparr>) = dblk s"
  by (intro HOL.ext; simp add: dblk_def)+

lemma image_update:
  assumes "i \<noteq> j div n"
  shows "take n (drop (i * n) (xs[j := x])) = take n (drop (i * n) xs)"
proof (rule nth_equalityI)
  fix k
  assume k: "k < length (take n (drop (i * n) (xs[j := x])))"
  then have "i * n + k \<noteq> j" using assms by (metis add.commute add_0 div_less div_mult_self1 length_take min_less_iff_conj mult.commute mult_0_right nat_less_le not_less_zero)
  moreover have "i * n \<le> length xs" using k by (cases "i * n \<le> length xs") auto
  ultimately show "take n (drop (i * n) (xs[j := x])) ! k = take n (drop (i * n) xs) ! k" using k by (simp add: nth_list_update_neq)
qed simp

text \<open>A change of one bit, the block of the bitmap it is in, the count of free blocks and the superblock: the common part of allocating and freeing.\<close>

lemma change_bit:
  assumes e: "env 1 s" and p: "persistent s" and b: "b < total_blocks (super s)" and bm: "bm = (bitmap s)[unat b div 8 := v]"
  defines "s1 \<equiv> bitmap_flush b (s\<lparr>bitmap := bm\<rparr>)"
  shows "\<exists>s'. write_super (s1\<lparr>super := (super s1)\<lparr>free_blocks := f\<rparr>\<rparr>) = Some (0, s') \<and> disk_frame s s' \<and> persistent s' \<and> bitmap s' = bm \<and>
    super s1 = super s \<and> super s' = (super s)\<lparr>free_blocks := f\<rparr> \<and> (\<forall>d \<ge> unat (inode_start (super s)). dblk s' d = dblk s d)"
proof -
  let ?s0 = "s\<lparr>bitmap := bm\<rparr>" and ?i = "unat b div (SFS_BLOCK * 8)"
  have e0: "env 1 ?s0" using e by (simp add: env_def pool_free_def layout_def bm data_start_def)
  have b0: "b < total_blocks (super ?s0)" using b by simp
  have s1: "disk_frame ?s0 s1" "bitmap s1 = bm" "super s1 = super s"
      "dblk s1 = (dblk s)(unat (bitmap_start (super s)) + ?i := bitmap_image ?s0 ?i)"
    using flush_ok [OF e0 b0] by (simp_all add: s1_def)
  let ?s2 = "s1\<lparr>super := (super s1)\<lparr>free_blocks := f\<rparr>\<rparr>"
  have e2: "env 1 ?s2" using disk_frame_env [OF e0 s1(1)] by (simp add: env_def pool_free_def layout_def data_start_def)
  obtain s' where s': "write_super ?s2 = Some (0, s')" "disk_frame ?s2 s'" "bitmap s' = bm" "super s' = (super s)\<lparr>free_blocks := f\<rparr>"
      "dblk s' = (dblk s1)(0 := super_image ?s2)"
    using write_super_ok [OF e2] s1(2,3) by auto
  have fr: "disk_frame s s'" using s1(1) s'(2,3,4) by (simp add: disk_frame_def bm)
  note ed = envD [OF e]
  have si: "super_image s' = super_image ?s2" using s'(4) s1(3) by (simp add: super_image_def)
  have bi: "dblk s' (unat (bitmap_start (super s)) + i) = bitmap_image s' i" if "i < unat (bitmap_blocks (super s))" for i
  proof (cases "i = ?i")
    case True
    then show ?thesis using s'(3,5) s1(4) ed(4) by (simp add: bitmap_image_def)
  next
    case False
    have "unat b div 8 div SFS_BLOCK = ?i" by (simp add: mult.commute flip: div_mult2_eq)
    then have "bitmap_image s' i = bitmap_image s i" using False s'(3) by (simp add: bitmap_image_def bm image_update)
    then show ?thesis using False p that s'(5) s1(4) ed(4) by (simp add: persistent_def)
  qed
  have "persistent s'" using bi si s'(4,5) by (simp add: persistent_def)
  moreover have "dblk s' d = dblk s d" if "unat (inode_start (super s)) \<le> d" for d
  proof -
    have "?i < unat (bitmap_blocks (super s))"
      using ed(2,3) b by (simp add: word_less_nat_alt SFS_BLOCK_def less_mult_imp_div_less algebra_simps)
    then show ?thesis using that ed(4,5) s'(5) s1(4) by simp
  qed
  ultimately show ?thesis using fr s'(1,3,4) s1(3) by blast
qed

definition meta_used :: "sfs \<Rightarrow> bool" where
  "meta_used s \<longleftrightarrow> (\<forall>b. unat b < data_start s \<longrightarrow> bm_test b (bitmap s))"

definition full :: "sfs \<Rightarrow> bool" where
  "full s \<longleftrightarrow> (\<forall>b < total_blocks (super s). bm_test b (bitmap s))"

lemma alloc_full: "env k s \<Longrightarrow> full s \<Longrightarrow> alloc_block s = Some (0, s)"
proof -
  assume "env k s" "full s"
  moreover from this have "List.find (\<lambda>b. \<not> bm_test b (bitmap s)) (all_blocks s) = None"
    by (auto simp: find_None_iff in_all_blocks full_def)
  ultimately show ?thesis using first_free_all [of k s] by (simp add: alloc_block_def)
qed

text \<open>A block outside the metadata: persistence and the rest of the disk are not concerned by a write to it.\<close>

lemma persistent_data:
  assumes "env k s" and "persistent s" and "disk_frame s s'" and "bitmap s' = bitmap s" and "super s' = super s"
    and "\<And>d. d < unat (inode_start (super s)) \<Longrightarrow> dblk s' d = dblk s d"
  shows "persistent s'"
  using assms(2,4-) envD(4,5) [OF assms(1)] by (simp add: persistent_def super_image_def bitmap_image_def)

lemma alloc_new:
  assumes e: "env 1 s" and p: "persistent s" and m: "meta_used s" and nf: "\<not> full s"
  shows "\<exists>b s'. alloc_block s = Some (b, s') \<and> disk_frame s s' \<and> persistent s' \<and> b < total_blocks (super s) \<and> \<not> bm_test b (bitmap s) \<and>
    data_start s \<le> unat b \<and> bitmap s' = mark_bit b (bitmap s) \<and>
    free_blocks (super s') = (if free_blocks (super s) \<noteq> 0 then free_blocks (super s) - 1 else 0) \<and>
    (\<forall>d \<ge> unat (inode_start (super s)). dblk s' d = (if d = unat b then zero_block else dblk s d))"
proof -
  obtain b where f: "List.find (\<lambda>b. \<not> bm_test b (bitmap s)) (all_blocks s) = Some b"
    using nf by (cases "List.find (\<lambda>b. \<not> bm_test b (bitmap s)) (all_blocks s)") (auto simp: find_None_iff in_all_blocks full_def)
  have b: "b < total_blocks (super s)" "\<not> bm_test b (bitmap s)" using f by (auto simp: find_Some_iff in_all_blocks [symmetric])
  have ds: "data_start s \<le> unat b" using m b(2) by (meson meta_used_def not_le)
  let ?s1 = "bitmap_flush b (s\<lparr>bitmap := mark_bit b (bitmap s)\<rparr>)"
  let ?f = "if free_blocks (super ?s1) \<noteq> 0 then free_blocks (super ?s1) - 1 else free_blocks (super ?s1)"
  obtain s3 where s3: "write_super (?s1\<lparr>super := (super ?s1)\<lparr>free_blocks := ?f\<rparr>\<rparr>) = Some (0, s3)" "disk_frame s s3" "persistent s3"
      "bitmap s3 = mark_bit b (bitmap s)" "super ?s1 = super s" "super s3 = (super s)\<lparr>free_blocks := ?f\<rparr>"
      "\<forall>d \<ge> unat (inode_start (super s)). dblk s3 d = dblk s d"
    using change_bit [OF e p b(1) mark_bit_def, of ?f] by blast
  have e3: "env (Suc 0) s3" using disk_frame_env [OF e s3(2)] by simp
  have b3: "unat b < unat (total_blocks (super s3))" using b(1) s3(6) by (simp add: word_less_nat_alt)
  have z: "length zero_block = SFS_BLOCK" by (simp add: zero_block_def)
  have "\<exists>r s4. with_scratch 0 (\<lambda>s. Some (write_block b zero_block s)) s3 = Some (r, s4) \<and> disk_frame s3 s4 \<and>
      (bitmap s4 = bitmap s3 \<and> super s4 = super s3 \<and> dblk s4 = (dblk s3)(unat b := zero_block))"
  proof (rule with_scratch_ok [OF e3])
    fix c
    assume c: "env 0 (s3\<lparr>scratch_busy := c\<rparr>)"
    from write_block_ok [OF c _ z, of b] b3
    show "\<exists>r s2. Some (write_block b zero_block (s3\<lparr>scratch_busy := c\<rparr>)) = Some (r, s2) \<and> disk_frame (s3\<lparr>scratch_busy := c\<rparr>) s2 \<and>
       bitmap (s2\<lparr>scratch_busy := scratch_busy s3\<rparr>) = bitmap s3 \<and> super (s2\<lparr>scratch_busy := scratch_busy s3\<rparr>) = super s3 \<and>
       dblk (s2\<lparr>scratch_busy := scratch_busy s3\<rparr>) = (dblk s3)(unat b := zero_block)"
      by auto
  qed
  then obtain r s4 where s4: "with_scratch 0 (\<lambda>s. Some (write_block b zero_block s)) s3 = Some (r, s4)" "disk_frame s3 s4" "bitmap s4 = bitmap s3"
      "super s4 = super s3" "dblk s4 = (dblk s3)(unat b := zero_block)" by blast
  have p4: "persistent s4"
    using persistent_data [OF e3 s3(3) s4(2-4)] s4(5) ds disk_frame_super(8) [OF s3(2)] envD(6) [OF e3] by auto
  have "alloc_block s = Some (b, s4)"
    using first_free_all [OF e] f s3(1) s4(1) by (simp add: alloc_block_def Let_def split: if_splits)
  then show ?thesis
    using disk_frame_trans [OF s3(2) s4(2)] p4 b ds s3(4-7) s4(3-5) by (intro exI [of _ b] exI [of _ s4]) auto
qed


text \<open>Freeing does nothing for a block that is not allocated; else it clears the bit and counts.\<close>

lemma free_used:
  assumes e: "env 1 s" and p: "persistent s" and b: "b < total_blocks (super s)" "b \<noteq> 0" "bm_test b (bitmap s)"
  shows "\<exists>s'. free_block b s = Some s' \<and> disk_frame s s' \<and> persistent s' \<and> bitmap s' = clear_bit b (bitmap s) \<and>
    free_blocks (super s') = free_blocks (super s) + 1 \<and> (\<forall>d \<ge> unat (inode_start (super s)). dblk s' d = dblk s d)"
proof -
  let ?s1 = "bitmap_flush b (s\<lparr>bitmap := clear_bit b (bitmap s)\<rparr>)"
  obtain s3 where s3: "write_super (?s1\<lparr>super := (super ?s1)\<lparr>free_blocks := free_blocks (super ?s1) + 1\<rparr>\<rparr>) = Some (0, s3)" "disk_frame s s3"
      "persistent s3" "bitmap s3 = clear_bit b (bitmap s)" "super ?s1 = super s"
      "super s3 = (super s)\<lparr>free_blocks := free_blocks (super ?s1) + 1\<rparr>" "\<forall>d \<ge> unat (inode_start (super s)). dblk s3 d = dblk s d"
    using change_bit [OF e p b(1) clear_bit_def, of "free_blocks (super ?s1) + 1"] by blast
  have "bitmap_test b s = Some True" using block_ok [OF e b(1)] b(3) by (simp add: bitmap_test_def bm_test_def bm_ok_def)
  then have "free_block b s = Some s3" using b(1,2) s3(1) by (simp add: free_block_def Let_def)
  then show ?thesis using s3 by auto
qed

lemma free_zero: "free_block 0 s = Some s"
  by (simp add: free_block_def)

section \<open>Inode table\<close>

definition inode_at :: "sfs \<Rightarrow> nat \<Rightarrow> sfs_inode" where
  "inode_at s n = inode_of (take SFS_INODE_SIZE (drop ((n - 1) mod SFS_INODES_PER_BLOCK * SFS_INODE_SIZE)
     (dblk s (unat (inode_start (super s)) + (n - 1) div SFS_INODES_PER_BLOCK))))"

definition inode_ok :: "sfs_inode \<Rightarrow> bool" where
  "inode_ok ino \<longleftrightarrow> length (direct ino) = SFS_DIRECT \<and> length (reserved ino) = 13"

lemma inode_of_ok: "inode_ok (inode_of b)"
  by (simp add: inode_ok_def inode_of_def inode_of_words_def SFS_DIRECT_def)

lemma inode_at_ok [simp]: "inode_ok (inode_at s n)"
  by (simp add: inode_at_def inode_of_ok)

lemma inode_length: "inode_ok ino \<Longrightarrow> length (inode_words ino) = 32" "inode_ok ino \<Longrightarrow> length (inode_bytes ino) = SFS_INODE_SIZE"
  by (simp_all add: inode_words_def inode_bytes_def inode_ok_def SFS_DIRECT_def SFS_INODE_SIZE_def)

text \<open>An inode written is the inode read.\<close>

lemma inode_roundtrip:
  assumes "inode_ok ino"
  shows "inode_of (inode_bytes ino) = ino"
proof -
  have l: "length (direct ino) = 12" "length (reserved ino) = 13" using assms by (simp_all add: inode_ok_def SFS_DIRECT_def)
  have "inode_of_words (inode_words ino) = ino"
    using l by (cases ino) (simp add: inode_of_words_def inode_words_def SFS_DIRECT_def nth_append)
  then show ?thesis using inode_length(1) [OF assms] by (simp add: inode_of_def inode_bytes_def)
qed

lemma inode_place:
  assumes "env k s" and "1 \<le> n" and "n \<le> inode_count (super s)"
  shows "unat (inode_block n s) = unat (inode_start (super s)) + (unat n - 1) div SFS_INODES_PER_BLOCK"
    and "unat (inode_block n s) < data_start s" and "inode_offset n = (unat n - 1) mod SFS_INODES_PER_BLOCK * SFS_INODE_SIZE"
proof -
  note e = envD [OF assms(1)]
  have u: "unat (n - 1) = unat n - 1" using assms(2) by (simp add: unat_minus_simple)
  have d: "unat ((n - 1) div of_nat SFS_INODES_PER_BLOCK) = (unat n - 1) div SFS_INODES_PER_BLOCK"
    by (simp add: unat_div u SFS_INODES_PER_BLOCK_def)
  have n: "0 < unat n" "unat n \<le> unat (inode_count (super s))" using assms(2,3) by (simp_all add: word_le_nat_alt)
  then have i: "(unat n - 1) div SFS_INODES_PER_BLOCK < unat (inode_blocks (super s))"
    using e(8) by (simp add: SFS_INODES_PER_BLOCK_def less_mult_imp_div_less)
  show b: "unat (inode_block n s) = unat (inode_start (super s)) + (unat n - 1) div SFS_INODES_PER_BLOCK"
    using i e(7) unat_lt2p [of "total_blocks (super s)"]
    unfolding inode_block_def by (subst unat_plus_simple) (simp_all add: d data_start_def)
  show "unat (inode_block n s) < data_start s" unfolding b using i by (simp add: data_start_def)
  show "inode_offset n = (unat n - 1) mod SFS_INODES_PER_BLOCK * SFS_INODE_SIZE" by (simp add: inode_offset_def u)
qed

lemma inode_read_ok:
  assumes "env 1 s" and "1 \<le> n" and "n \<le> inode_count (super s)"
  shows "\<exists>s'. inode_read n s = Some (Some (inode_at s (unat n)), s') \<and> disk_frame s s' \<and> dblk s' = dblk s \<and> bitmap s' = bitmap s \<and> super s' = super s"
proof -
  let ?body = "\<lambda>s1. case read_block (inode_block n s1) s1 of ((r, bs), s2) \<Rightarrow>
    Some (if r < 0 then None else Some (inode_of (take SFS_INODE_SIZE (drop (inode_offset n) bs))), s2)"
  note pl = inode_place [OF assms]
  have "\<exists>r s'. with_scratch None ?body s = Some (r, s') \<and> disk_frame s s' \<and>
      (r = Some (inode_at s (unat n)) \<and> dblk s' = dblk s \<and> bitmap s' = bitmap s \<and> super s' = super s)"
  proof (rule with_scratch_ok)
    show "env (Suc 0) s" using assms(1) by simp
    fix c
    assume c: "env 0 (s\<lparr>scratch_busy := c\<rparr>)"
    have ib: "inode_block n (s\<lparr>scratch_busy := c\<rparr>) = inode_block n s" by (simp add: inode_block_def)
    have "unat (inode_block n s) < unat (total_blocks (super (s\<lparr>scratch_busy := c\<rparr>)))" using pl(2) envD(7) [OF assms(1)] by simp
    from read_block_ok [OF c this] obtain s2 where s2: "read_block (inode_block n s) (s\<lparr>scratch_busy := c\<rparr>) = ((0, dblk s (unat (inode_block n s))), s2)"
        "disk_frame (s\<lparr>scratch_busy := c\<rparr>) s2" "dblk s2 = dblk s" "bitmap s2 = bitmap s" "super s2 = super s" by auto
    then show "\<exists>r s2. ?body (s\<lparr>scratch_busy := c\<rparr>) = Some (r, s2) \<and> disk_frame (s\<lparr>scratch_busy := c\<rparr>) s2 \<and>
        (r = Some (inode_at s (unat n)) \<and> dblk (s2\<lparr>scratch_busy := scratch_busy s\<rparr>) = dblk s \<and>
         bitmap (s2\<lparr>scratch_busy := scratch_busy s\<rparr>) = bitmap s \<and> super (s2\<lparr>scratch_busy := scratch_busy s\<rparr>) = super s)"
      by (intro exI [of _ "Some (inode_at s (unat n))"] exI [of _ s2]) (simp add: ib pl(1,3) inode_at_def)
  qed
  moreover have "\<not> (n < 1 \<or> inode_count (super s) < n)" using assms(2,3) by (meson not_le)
  then have "inode_read n s = with_scratch None ?body s" unfolding inode_read_def by (rule if_not_P)
  ultimately show ?thesis by auto
qed

lemma inode_at_put:
  assumes ino: "inode_ok ino" and n: "1 \<le> n" "1 \<le> m" and sup: "super s' = super s"
    and put: "dblk s' = (dblk s)(unat (inode_start (super s)) + (n - 1) div SFS_INODES_PER_BLOCK :=
      put_at ((n - 1) mod SFS_INODES_PER_BLOCK * SFS_INODE_SIZE) (inode_bytes ino)
        (dblk s (unat (inode_start (super s)) + (n - 1) div SFS_INODES_PER_BLOCK)))"
  shows "inode_at s' m = (if m = n then ino else inode_at s m)"
proof -
  let ?off = "\<lambda>m. (m - 1) mod SFS_INODES_PER_BLOCK * SFS_INODE_SIZE"
  have off: "?off m + SFS_INODE_SIZE \<le> SFS_BLOCK" for m :: nat
    using mod_less_divisor [of 32 "m - 1"] by (simp add: SFS_INODES_PER_BLOCK_def SFS_INODE_SIZE_def SFS_BLOCK_def)
  let ?bn = "dblk s (unat (inode_start (super s)) + (n - 1) div SFS_INODES_PER_BLOCK)"
  have lp: "length (put_at (?off n) (inode_bytes ino) ?bn) = SFS_BLOCK" using off inode_length(2) [OF ino] by simp
  show ?thesis
  proof (cases "(m - 1) div SFS_INODES_PER_BLOCK = (n - 1) div SFS_INODES_PER_BLOCK")
    case False
    then show ?thesis using put sup by (auto simp: inode_at_def)
  next
    case True
    have mn: "m = n \<longleftrightarrow> (m - 1) mod SFS_INODES_PER_BLOCK = (n - 1) mod SFS_INODES_PER_BLOCK"
    proof
      assume "(m - 1) mod SFS_INODES_PER_BLOCK = (n - 1) mod SFS_INODES_PER_BLOCK"
      then have "m - 1 = n - 1" using True by (metis div_mult_mod_eq)
      then show "m = n" using n by simp
    qed simp
    have e: "take SFS_INODE_SIZE (drop (?off m) (put_at (?off n) (inode_bytes ino) ?bn)) =
        (if m = n then inode_bytes ino else take SFS_INODE_SIZE (drop (?off m) ?bn))"
    proof (rule nth_equalityI)
      fix k
      assume "k < length (take SFS_INODE_SIZE (drop (?off m) (put_at (?off n) (inode_bytes ino) ?bn)))"
      then have k: "k < SFS_INODE_SIZE" by simp
      show "take SFS_INODE_SIZE (drop (?off m) (put_at (?off n) (inode_bytes ino) ?bn)) ! k =
          (if m = n then inode_bytes ino else take SFS_INODE_SIZE (drop (?off m) ?bn)) ! k"
      proof (cases "m = n")
        case True
        then show ?thesis using k off [of n] lp inode_length(2) [OF ino] by (simp add: nth_put_at)
      next
        case False
        then have "?off m + SFS_INODE_SIZE \<le> ?off n \<or> ?off n + SFS_INODE_SIZE \<le> ?off m" using mn by (simp add: SFS_INODE_SIZE_def) arith
        then show ?thesis using False k off [of n] off [of m] lp inode_length(2) [OF ino] by (auto simp: nth_put_at)
      qed
    qed (use off [of m] lp inode_length(2) [OF ino] in auto)
    show ?thesis using e put sup True inode_roundtrip [OF ino] by (simp add: inode_at_def)
  qed
qed

lemma inode_write_ok:
  assumes "env 1 s" and "1 \<le> n" and "n \<le> inode_count (super s)" and "inode_ok ino"
  shows "\<exists>s'. inode_write n ino s = Some (0, s') \<and> disk_frame s s' \<and> bitmap s' = bitmap s \<and> super s' = super s \<and>
    (\<forall>m \<ge> 1. inode_at s' m = (if m = unat n then ino else inode_at s m)) \<and>
    (\<forall>d. d < unat (inode_start (super s)) \<or> data_start s \<le> d \<longrightarrow> dblk s' d = dblk s d)"
proof -
  let ?body = "\<lambda>s1. case read_block (inode_block n s1) s1 of ((r, bs), s2) \<Rightarrow>
    if r < 0 then Some (- 1, s2) else Some (write_block (inode_block n s2) (put_at (inode_offset n) (inode_bytes ino) bs) s2)"
  note pl = inode_place [OF assms(1-3)]
  let ?b = "unat (inode_block n s)"
  have "\<exists>r s'. with_scratch (- 1) ?body s = Some (r, s') \<and> disk_frame s s' \<and>
      (r = 0 \<and> dblk s' = (dblk s)(?b := put_at (inode_offset n) (inode_bytes ino) (dblk s ?b)) \<and> bitmap s' = bitmap s \<and> super s' = super s)"
  proof (rule with_scratch_ok)
    show "env (Suc 0) s" using assms(1) by simp
    fix c
    assume c: "env 0 (s\<lparr>scratch_busy := c\<rparr>)"
    have ib: "inode_block n (s\<lparr>scratch_busy := c\<rparr>) = inode_block n s" by (simp add: inode_block_def)
    have t: "?b < unat (total_blocks (super (s\<lparr>scratch_busy := c\<rparr>)))" using pl(2) envD(7) [OF assms(1)] by simp
    from read_block_ok [OF c t] obtain s2 where s2: "read_block (inode_block n s) (s\<lparr>scratch_busy := c\<rparr>) = ((0, dblk s ?b), s2)"
        "disk_frame (s\<lparr>scratch_busy := c\<rparr>) s2" "dblk s2 = dblk s" "bitmap s2 = bitmap s" "super s2 = super s" by auto
    have l: "length (put_at (inode_offset n) (inode_bytes ino) (dblk s ?b)) = SFS_BLOCK"
      using mod_less_divisor [of 32 "unat n - 1"] inode_length(2) [OF assms(4)]
      by (simp add: pl(3) SFS_INODES_PER_BLOCK_def SFS_INODE_SIZE_def SFS_BLOCK_def)
    have t2: "?b < unat (total_blocks (super s2))" using t s2(5) by simp
    from write_block_ok [OF disk_frame_env [OF c s2(2)] t2 l] obtain s3 where s3:
        "write_block (inode_block n s) (put_at (inode_offset n) (inode_bytes ino) (dblk s ?b)) s2 = (0, s3)" "disk_frame s2 s3"
        "dblk s3 = (dblk s2)(?b := put_at (inode_offset n) (inode_bytes ino) (dblk s ?b))" "bitmap s3 = bitmap s2" "super s3 = super s2" by auto
    have ib2: "inode_block n s2 = inode_block n s" using s2(5) by (simp add: inode_block_def)
    have "?body (s\<lparr>scratch_busy := c\<rparr>) = Some (0, s3)" using s2(1) s3(1) by (simp add: ib ib2)
    then show "\<exists>r s2. ?body (s\<lparr>scratch_busy := c\<rparr>) = Some (r, s2) \<and> disk_frame (s\<lparr>scratch_busy := c\<rparr>) s2 \<and>
        (r = 0 \<and> dblk (s2\<lparr>scratch_busy := scratch_busy s\<rparr>) = (dblk s)(?b := put_at (inode_offset n) (inode_bytes ino) (dblk s ?b)) \<and>
         bitmap (s2\<lparr>scratch_busy := scratch_busy s\<rparr>) = bitmap s \<and> super (s2\<lparr>scratch_busy := scratch_busy s\<rparr>) = super s)"
      using disk_frame_trans [OF s2(2) s3(2)] s2(3-5) s3(3-5) by (intro exI [of _ 0] exI [of _ s3]) simp
  qed
  then obtain s' where s': "with_scratch (- 1) ?body s = Some (0, s')" "disk_frame s s'"
      "dblk s' = (dblk s)(?b := put_at (inode_offset n) (inode_bytes ino) (dblk s ?b))" "bitmap s' = bitmap s" "super s' = super s" by blast
  have "\<not> (n < 1 \<or> inode_count (super s) < n)" using assms(2,3) by (meson not_le)
  then have w: "inode_write n ino s = Some (0, s')" unfolding inode_write_def s'(1) [symmetric] by (rule if_not_P)
  have n1: "1 \<le> unat n" using assms(2) by (simp add: word_le_nat_alt)
  have at: "inode_at s' m = (if m = unat n then ino else inode_at s m)" if "1 \<le> m" for m
    using inode_at_put [OF assms(4) n1 that s'(5)] s'(3) unfolding pl(1,3) by blast
  have "dblk s' d = dblk s d" if "d < unat (inode_start (super s)) \<or> data_start s \<le> d" for d
    using that pl(1,2) s'(3) by auto
  then show ?thesis using w s' at by blast
qed

end
