(* ===== verification/SfsFile.thy ===== *)
theory SfsFile
  imports SfsDisk
begin

text \<open>
  Files of the native file system.  The bytes of a file are a function of its inode and the disk; the invariant says that no block belongs to two
  places.  Reading returns those bytes, writing and truncating change them as they should, and every operation keeps the invariant and
  all other files.
\<close>

unbundle bit_operations_syntax

section \<open>Pointers and bytes of files\<close>

text \<open>
  The block pointers of inode \<open>n\<close>, for a table of inodes \<open>I\<close> and the contents of blocks \<open>B\<close>: twelve direct ones, the
  indirect block, and the entries of that block.  Block \<open>j\<close> of the file is pointer \<open>slot_of j\<close>.
\<close>

definition SLOTS :: nat where "SLOTS = SFS_DIRECT + 1 + SFS_POINTERS"
definition FILE_BLOCKS :: nat where "FILE_BLOCKS = SFS_DIRECT + SFS_POINTERS"

definition ptr :: "(nat \<Rightarrow> sfs_inode) \<Rightarrow> (nat \<Rightarrow> u8 list) \<Rightarrow> nat \<Rightarrow> nat \<Rightarrow> u32" where
  "ptr I B n i =
     (if i < SFS_DIRECT then direct (I n) ! i
      else if i = SFS_DIRECT then indirect (I n)
      else if indirect (I n) = 0 then 0
      else le32 (B (unat (indirect (I n)))) (4 * (i - SFS_DIRECT - 1)))"

definition slot_of :: "nat \<Rightarrow> nat" where
  "slot_of j = (if j < SFS_DIRECT then j else j + 1)"

definition fbyte :: "(nat \<Rightarrow> sfs_inode) \<Rightarrow> (nat \<Rightarrow> u8 list) \<Rightarrow> nat \<Rightarrow> nat \<Rightarrow> u8" where
  "fbyte I B n k =
     (let p = ptr I B n (slot_of (k div SFS_BLOCK))
      in if FILE_BLOCKS \<le> k div SFS_BLOCK \<or> p = 0 then 0 else B (unat p) ! (k mod SFS_BLOCK))"

text \<open>Every pointer leads to a block satisfying \<open>U\<close>, and no two lead to the same.\<close>

definition well :: "(nat \<Rightarrow> sfs_inode) \<Rightarrow> (nat \<Rightarrow> u8 list) \<Rightarrow> (u32 \<Rightarrow> bool) \<Rightarrow> nat \<Rightarrow> bool" where
  "well I B U N \<longleftrightarrow> (\<forall>n \<in> {1..N}. inode_ok (I n)) \<and> (\<forall>n \<in> {1..N}. \<forall>i < SLOTS. ptr I B n i \<noteq> 0 \<longrightarrow> U (ptr I B n i)) \<and>
     (\<forall>n \<in> {1..N}. \<forall>m \<in> {1..N}. \<forall>i < SLOTS. \<forall>j < SLOTS. ptr I B n i \<noteq> 0 \<and> ptr I B n i = ptr I B m j \<longrightarrow> n = m \<and> i = j)"

lemma slot_of_props: "slot_of j \<noteq> SFS_DIRECT" "j < FILE_BLOCKS \<Longrightarrow> slot_of j < SLOTS" "slot_of i = slot_of j \<longleftrightarrow> i = j"
proof -
  show "slot_of j \<noteq> SFS_DIRECT" by (cases "j < SFS_DIRECT") (simp_all add: slot_of_def)
  show "j < FILE_BLOCKS \<Longrightarrow> slot_of j < SLOTS" by (cases "j < SFS_DIRECT") (simp_all add: slot_of_def FILE_BLOCKS_def SLOTS_def)
  have "slot_of i \<noteq> slot_of j" if "i < j" for i j
    using that by (cases "j < SFS_DIRECT"; cases "i < SFS_DIRECT") (simp_all add: slot_of_def)
  then show "slot_of i = slot_of j \<longleftrightarrow> i = j" by (metis nat_neq_iff)
qed

lemma well_used: "well I B U N \<Longrightarrow> 1 \<le> n \<Longrightarrow> n \<le> N \<Longrightarrow> i < SLOTS \<Longrightarrow> ptr I B n i \<noteq> 0 \<Longrightarrow> U (ptr I B n i)"
  unfolding well_def by (meson atLeastAtMost_iff)

lemma well_inj:
  "well I B U N \<Longrightarrow> 1 \<le> n \<Longrightarrow> n \<le> N \<Longrightarrow> 1 \<le> m \<Longrightarrow> m \<le> N \<Longrightarrow> i < SLOTS \<Longrightarrow> j < SLOTS \<Longrightarrow> ptr I B n i \<noteq> 0 \<Longrightarrow> ptr I B n i = ptr I B m j \<Longrightarrow>
    n = m \<and> i = j"
  unfolding well_def by (meson atLeastAtMost_iff)

lemma well_ptr:
  assumes w: "well I B U N" and same: "\<And>m i. 1 \<le> m \<Longrightarrow> m \<le> N \<Longrightarrow> ptr I B' m i = ptr I B m i"
  shows "well I B' U N"
  unfolding well_def
proof (intro conjI ballI allI impI)
  fix n i
  assume "n \<in> {1..N}" "i < SLOTS" "ptr I B' n i \<noteq> 0"
  then show "U (ptr I B' n i)" using well_used [OF w, of n i] same [of n i] by (metis atLeastAtMost_iff)
next
  fix n m i j
  assume "n \<in> {1..N}" "m \<in> {1..N}" "i < SLOTS" "j < SLOTS" "ptr I B' n i \<noteq> 0 \<and> ptr I B' n i = ptr I B' m j"
  then have "n = m \<and> i = j" using well_inj [OF w, of n m i j] same [of n i] same [of m j] by (metis atLeastAtMost_iff)
  then show "n = m" "i = j" by blast+
qed (use w in \<open>unfold well_def, blast\<close>)

text \<open>A new pointer to a block nothing points to.\<close>

lemma well_add:
  assumes w: "well I B U N" and ok: "\<And>n. 1 \<le> n \<Longrightarrow> n \<le> N \<Longrightarrow> inode_ok (I' n)"
    and p: "\<And>n i. 1 \<le> n \<Longrightarrow> n \<le> N \<Longrightarrow> i < SLOTS \<Longrightarrow> ptr I' B' n i = (if n = n0 \<and> i = i0 then b else ptr I B n i)"
    and fresh: "\<And>n i. 1 \<le> n \<Longrightarrow> n \<le> N \<Longrightarrow> i < SLOTS \<Longrightarrow> ptr I B n i \<noteq> b" and u: "\<And>x. U x \<Longrightarrow> U' x" "U' b"
  shows "well I' B' U' N"
  unfolding well_def
proof (intro conjI ballI allI impI)
  fix n i
  assume n: "n \<in> {1..N}" and i: "i < SLOTS" "ptr I' B' n i \<noteq> 0"
  show "U' (ptr I' B' n i)" using n i p [of n i] u well_used [OF w, of n i] by (auto split: if_splits)
next
  fix n m i j
  assume n: "n \<in> {1..N}" "m \<in> {1..N}" and i: "i < SLOTS" "j < SLOTS" and e: "ptr I' B' n i \<noteq> 0 \<and> ptr I' B' n i = ptr I' B' m j"
  have pn: "ptr I' B' n i = (if n = n0 \<and> i = i0 then b else ptr I B n i)" "ptr I' B' m j = (if m = n0 \<and> j = i0 then b else ptr I B m j)"
    using n i p by auto
  have "ptr I B n i \<noteq> b" "ptr I B m j \<noteq> b" using fresh n i by auto
  then have "n = m \<and> i = j" using e well_inj [OF w, of n m i j] n i unfolding pn by (auto split: if_splits)
  then show "n = m" "i = j" by blast+
qed (use ok in auto)

lemma fbyte_add:
  assumes p: "\<And>i. i < SLOTS \<Longrightarrow> ptr I' B' n i = (if n = n0 \<and> i = i0 then b else ptr I B n i)" and z: "ptr I B n0 i0 = 0" "B' (unat b) = zero_block"
    and same: "\<And>i. i < SLOTS \<Longrightarrow> i \<noteq> SFS_DIRECT \<Longrightarrow> ptr I B n i \<noteq> 0 \<Longrightarrow> B' (unat (ptr I B n i)) = B (unat (ptr I B n i))"
  shows "fbyte I' B' n k = fbyte I B n k"
proof (cases "FILE_BLOCKS \<le> k div SFS_BLOCK")
  case False
  then have s: "slot_of (k div SFS_BLOCK) < SLOTS" "slot_of (k div SFS_BLOCK) \<noteq> SFS_DIRECT" using slot_of_props by simp_all
  have "zero_block ! (k mod SFS_BLOCK) = 0" by (simp add: zero_block_def SFS_BLOCK_def)
  then show ?thesis using p [OF s(1)] z same [OF s] by (auto simp: fbyte_def Let_def split: if_splits)
qed (simp add: fbyte_def)

lemma ptr_cong:
  assumes "indirect (I n) \<noteq> 0 \<Longrightarrow> B' (unat (indirect (I n))) = B (unat (indirect (I n)))"
  shows "ptr I B' n i = ptr I B n i"
  using assms by (auto simp: ptr_def)

lemma ptr_indirect: "ptr I B n SFS_DIRECT = indirect (I n)"
  by (simp add: ptr_def)

text \<open>New contents of a data block.\<close>

lemma write_data_pure:
  assumes w: "well I B U N" and n: "1 \<le> n" "n \<le> N" and j: "j < FILE_BLOCKS" and p: "p = ptr I B n (slot_of j)" "p \<noteq> 0"
    and B': "\<And>x. U x \<Longrightarrow> B' (unat x) = (if x = p then bs else B (unat x))"
  shows "1 \<le> m \<Longrightarrow> m \<le> N \<Longrightarrow> ptr I B' m i = ptr I B m i" and "well I B' U N"
    and "1 \<le> m \<Longrightarrow> m \<le> N \<Longrightarrow> fbyte I B' m k = (if m = n \<and> k div SFS_BLOCK = j then bs ! (k mod SFS_BLOCK) else fbyte I B m k)"
proof -
  have sd: "SFS_DIRECT < SLOTS" by (simp add: SLOTS_def)
  have same: "ptr I B' m i = ptr I B m i" if "1 \<le> m" "m \<le> N" for m i
  proof (rule ptr_cong)
    assume nz: "indirect (I m) \<noteq> 0"
    have "indirect (I m) \<noteq> p"
      using well_inj [OF w that n sd slot_of_props(2) [OF j]] nz slot_of_props(1) [of j] by (auto simp: p(1) ptr_indirect)
    then show "B' (unat (indirect (I m))) = B (unat (indirect (I m)))"
      using B' well_used [OF w that sd] nz by (simp add: ptr_indirect)
  qed
  then show "1 \<le> m \<Longrightarrow> m \<le> N \<Longrightarrow> ptr I B' m i = ptr I B m i" by blast
  show "well I B' U N" using w same by (rule well_ptr)
  show "fbyte I B' m k = (if m = n \<and> k div SFS_BLOCK = j then bs ! (k mod SFS_BLOCK) else fbyte I B m k)" if m: "1 \<le> m" "m \<le> N"
  proof (cases "FILE_BLOCKS \<le> k div SFS_BLOCK \<or> ptr I B m (slot_of (k div SFS_BLOCK)) = 0")
    case True
    then have "\<not> (m = n \<and> k div SFS_BLOCK = j)" using j p by auto
    then show ?thesis using True same [OF m] by (auto simp: fbyte_def)
  next
    case False
    let ?q = "ptr I B m (slot_of (k div SFS_BLOCK))"
    have s: "slot_of (k div SFS_BLOCK) < SLOTS" using False slot_of_props(2) by simp
    have "?q = p \<longleftrightarrow> m = n \<and> k div SFS_BLOCK = j"
      using well_inj [OF w m n s slot_of_props(2) [OF j]] False p(1) slot_of_props(3) by auto
    then show ?thesis using False same [OF m] B' [OF well_used [OF w m s]] by (auto simp: fbyte_def Let_def)
  qed
qed

section \<open>The file system invariant\<close>

definition data_used :: "sfs \<Rightarrow> u32 \<Rightarrow> bool" where
  "data_used s b \<longleftrightarrow> data_start s \<le> unat b \<and> b < total_blocks (super s) \<and> bm_test b (bitmap s)"

definition counted_free :: "sfs \<Rightarrow> bool" where
  "counted_free s \<longleftrightarrow> unat (free_blocks (super s)) = card {b. b < total_blocks (super s) \<and> \<not> bm_test b (bitmap s)}"

definition disk_ok :: "sfs \<Rightarrow> (nat \<Rightarrow> sfs_inode) \<Rightarrow> bool" where
  "disk_ok s I \<longleftrightarrow> persistent s \<and> meta_used s \<and> counted_free s \<and> well I (dblk s) (data_used s) (unat (inode_count (super s)))"

text \<open>A block that has just been allocated: marked, empty, and not in any file.\<close>

definition fresh :: "sfs \<Rightarrow> (nat \<Rightarrow> sfs_inode) \<Rightarrow> u32 \<Rightarrow> bool" where
  "fresh s I b \<longleftrightarrow> b \<noteq> 0 \<and> data_used s b \<and> dblk s (unat b) = zero_block \<and>
     (\<forall>n \<in> {1..unat (inode_count (super s))}. \<forall>i < SLOTS. ptr I (dblk s) n i \<noteq> b)"

definition same_files :: "sfs \<Rightarrow> (nat \<Rightarrow> sfs_inode) \<Rightarrow> sfs \<Rightarrow> (nat \<Rightarrow> sfs_inode) \<Rightarrow> bool" where
  "same_files s I s' I' \<longleftrightarrow> (\<forall>n \<in> {1..unat (inode_count (super s))}. \<forall>k. fbyte I' (dblk s') n k = fbyte I (dblk s) n k)"

definition same_table :: "sfs \<Rightarrow> sfs \<Rightarrow> bool" where
  "same_table s s' \<longleftrightarrow> (\<forall>n \<in> {1..unat (inode_count (super s))}. inode_at s' n = inode_at s n)"


lemma inode_at_cong:
  assumes e: "env k s" and f: "disk_frame s s'" and d: "\<And>d. unat (inode_start (super s)) \<le> d \<Longrightarrow> d < data_start s \<Longrightarrow> dblk s' d = dblk s d"
  shows "same_table s s'"
  unfolding same_table_def
proof (intro ballI)
  fix n
  assume "n \<in> {1..unat (inode_count (super s))}"
  then have "(n - 1) div SFS_INODES_PER_BLOCK < unat (inode_blocks (super s))"
    using envD(8) [OF e] by (intro less_mult_imp_div_less) (simp add: algebra_simps, arith)
  then show "inode_at s' n = inode_at s n" using d disk_frame_super(4) [OF f] by (simp add: inode_at_def data_start_def)
qed

lemma well_mono: "well I B U N \<Longrightarrow> (\<And>b. U b \<Longrightarrow> U' b) \<Longrightarrow> well I B U' N"
  unfolding well_def by (elim conjE, intro conjI) blast+

text \<open>Blocks no pointer leads to may change.\<close>

lemma files_unused:
  assumes w: "well I B U N" and B': "\<And>x. U x \<Longrightarrow> B' (unat x) = B (unat x)"
  shows "1 \<le> n \<Longrightarrow> n \<le> N \<Longrightarrow> ptr I B' n i = ptr I B n i" and "well I B' U N" and "1 \<le> n \<Longrightarrow> n \<le> N \<Longrightarrow> fbyte I B' n k = fbyte I B n k"
proof -
  have same: "ptr I B' m i = ptr I B m i" if "1 \<le> m" "m \<le> N" for m i
    using well_used [OF w that, of SFS_DIRECT] B' by (intro ptr_cong) (simp add: ptr_indirect SLOTS_def)
  then show "1 \<le> n \<Longrightarrow> n \<le> N \<Longrightarrow> ptr I B' n i = ptr I B n i" by blast
  show "well I B' U N" using w same by (rule well_ptr)
  show "1 \<le> n \<Longrightarrow> n \<le> N \<Longrightarrow> fbyte I B' n k = fbyte I B n k"
    using same [of n] B' [OF well_used [OF w, of n "slot_of (k div SFS_BLOCK)"]] slot_of_props(2) [of "k div SFS_BLOCK"]
    by (auto simp: fbyte_def Let_def not_le)
qed

lemma finite_blocks: "finite {b :: u32. P b}"
  by simp

lemma alloc_ok:
  assumes e: "env 1 s" and ok: "disk_ok s I"
  shows "\<exists>b s'. alloc_block s = Some (b, s') \<and> disk_frame s s' \<and> disk_ok s' I \<and> same_files s I s' I \<and> same_table s s' \<and>
    (\<forall>x. data_used s x \<longrightarrow> data_used s' x \<and> dblk s' (unat x) = dblk s (unat x)) \<and> (if b = 0 then full s \<and> full s' else fresh s' I b)"
proof (cases "full s")
  case True
  then show ?thesis using alloc_full [OF e] ok disk_frame_refl envD(1) [OF e] by (simp add: same_files_def same_table_def)
next
  case False
  have p: "persistent s" and m: "meta_used s" and c: "counted_free s" and w: "well I (dblk s) (data_used s) (unat (inode_count (super s)))"
    using ok by (simp_all add: disk_ok_def)
  obtain b s' where a: "alloc_block s = Some (b, s')" "disk_frame s s'" "persistent s'" "b < total_blocks (super s)" "\<not> bm_test b (bitmap s)"
      "data_start s \<le> unat b" "bitmap s' = mark_bit b (bitmap s)"
      "free_blocks (super s') = (if free_blocks (super s) \<noteq> 0 then free_blocks (super s) - 1 else 0)"
      "\<forall>d \<ge> unat (inode_start (super s)). dblk s' d = (if d = unat b then zero_block else dblk s d)"
    using alloc_new [OF e p m False] by blast
  have fs: "total_blocks (super s') = total_blocks (super s)" "inode_count (super s') = inode_count (super s)" "data_start s' = data_start s"
    using disk_frame_super [OF a(2)] by simp_all
  have t: "bm_test x (bitmap s') \<longleftrightarrow> x = b \<or> bm_test x (bitmap s)" for x
    using dbits.tst_st [of b "bitmap s" x] block_ok [OF e a(4)] a(7) by simp
  have du: "data_used s' x \<longleftrightarrow> x = b \<or> data_used s x" for x using a(4,6) by (auto simp: data_used_def fs t)
  have nb: "\<not> data_used s b" using a(5) by (simp add: data_used_def)
  have keep: "dblk s' (unat x) = dblk s (unat x)" if "data_used s x" for x
  proof -
    have "x \<noteq> b" using nb that by blast
    then have "unat x \<noteq> unat b" by (simp add: word_unat_eq_iff)
    moreover have "unat (inode_start (super s)) \<le> unat x" using that envD(6) [OF e] by (simp add: data_used_def)
    ultimately show ?thesis using a(9) by auto
  qed
  note fu = files_unused [OF w keep]
  have c': "counted_free s'"
  proof -
    let ?F = "{x. x < total_blocks (super s) \<and> \<not> bm_test x (bitmap s)}"
    have F: "{x. x < total_blocks (super s') \<and> \<not> bm_test x (bitmap s')} = ?F - {b}" using fs t by auto
    have "b \<in> ?F" using a(4,5) by simp
    then have "card (?F - {b}) = card ?F - 1" "0 < card ?F" using finite_blocks by (auto simp: card_gt_0_iff)
    moreover have "unat (free_blocks (super s)) = card ?F" using c by (simp add: counted_free_def)
    moreover have "free_blocks (super s) \<noteq> 0" using calculation(2,3) by (metis less_irrefl unat_0)
    moreover have "unat (free_blocks (super s) - 1) = unat (free_blocks (super s)) - 1"
      using \<open>free_blocks (super s) \<noteq> 0\<close> by (simp add: unat_minus_one)
    ultimately show ?thesis using a(8) F by (simp add: counted_free_def)
  qed
  have w': "well I (dblk s') (data_used s') (unat (inode_count (super s')))"
    unfolding fs by (rule well_mono [OF fu(2)]) (use du in blast)+
  have "fresh s' I b"
  proof -
    have "b \<noteq> 0"
    proof
      assume "b = 0"
      then have "data_start s = 0" using a(6) by simp
      then show False using envD(4,5,6) [OF e] by simp
    qed
    moreover have "ptr I (dblk s') n i \<noteq> b" if "n \<in> {1..unat (inode_count (super s))}" "i < SLOTS" for n i
      using that fu(1) [of n i] well_used [OF w, of n i] nb \<open>b \<noteq> 0\<close> by auto
    moreover have "dblk s' (unat b) = zero_block" using a(6,9) envD(6) [OF e] by simp
    ultimately show ?thesis using du by (simp add: fresh_def fs)
  qed
  moreover have "same_table s s'" using inode_at_cong [OF e a(2)] a(6,9) by auto
  moreover have "meta_used s'" using m by (simp add: meta_used_def fs t)
  moreover have "same_files s I s' I" using fu(3) by (simp add: same_files_def)
  ultimately show ?thesis using a(1-3) c' w' du keep by (auto simp: disk_ok_def fresh_def)
qed


section \<open>Finding and allocating the blocks of a file\<close>

lemma disk_ok_cong:
  assumes "dblk s' = dblk s" and "bitmap s' = bitmap s" and "super s' = super s"
  shows "data_start s' = data_start s" "data_used s' = data_used s" "inode_at s' = inode_at s" "disk_ok s' = disk_ok s" "fresh s' = fresh s"
    "full s' = full s" "same_files s' = same_files s" "same_files s0 I s' = same_files s0 I s" "same_table s' = same_table s"
    "same_table s0 s' = same_table s0 s"
proof -
  show d: "data_start s' = data_start s" using assms by (simp add: data_start_def)
  show u: "data_used s' = data_used s" using assms d by (simp add: fun_eq_iff data_used_def)
  show i: "inode_at s' = inode_at s" using assms by (simp add: fun_eq_iff inode_at_def)
  show "disk_ok s' = disk_ok s"
    using assms d u
    by (intro HOL.ext) (simp add: disk_ok_def persistent_def meta_used_def counted_free_def super_image_def bitmap_image_def)
  show "fresh s' = fresh s" using assms u by (intro HOL.ext) (simp add: fresh_def)
  show "full s' = full s" using assms by (simp add: full_def)
  show "same_files s' = same_files s" "same_files s0 I s' = same_files s0 I s" using assms by (intro HOL.ext; simp add: same_files_def)+
  show "same_table s' = same_table s" using assms i by (intro HOL.ext) (simp add: same_table_def)
  show "same_table s0 s' = same_table s0 s" using i by (simp add: same_table_def)
qed

lemmas busy_simps [simp] = disk_ok_cong [of "s\<lparr>scratch_busy := c\<rparr>" s for s c, simplified]

lemma same_files_trans:
  "same_files s I s1 I1 \<Longrightarrow> same_files s1 I1 s2 I2 \<Longrightarrow> inode_count (super s1) = inode_count (super s) \<Longrightarrow> same_files s I s2 I2"
  by (simp add: same_files_def)

lemma same_table_trans: "same_table s s1 \<Longrightarrow> same_table s1 s2 \<Longrightarrow> inode_count (super s1) = inode_count (super s) \<Longrightarrow> same_table s s2"
  by (simp add: same_table_def)

lemma same_refl [simp]: "same_files s I s I" "same_table s s"
  by (simp_all add: same_files_def same_table_def)

text \<open>Nothing that files consist of has changed.\<close>

definition unchanged :: "sfs \<Rightarrow> sfs \<Rightarrow> bool" where
  "unchanged s s' \<longleftrightarrow> disk_frame s s' \<and> dblk s' = dblk s \<and> bitmap s' = bitmap s \<and> super s' = super s"

lemma unchangedD:
  assumes "unchanged s s'"
  shows "disk_frame s s'" "dblk s' = dblk s" "bitmap s' = bitmap s" "super s' = super s" "disk_ok s' = disk_ok s" "same_files s I s' I" "same_table s s'"
    "inode_at s' = inode_at s" "data_used s' = data_used s" "full s' = full s"
proof -
  show "disk_frame s s'" and e: "dblk s' = dblk s" "bitmap s' = bitmap s" "super s' = super s" using assms by (simp_all add: unchanged_def)
  note c = disk_ok_cong [OF e]
  show "disk_ok s' = disk_ok s" "same_files s I s' I" "same_table s s'" "inode_at s' = inode_at s" "data_used s' = data_used s" "full s' = full s"
    using c(2-4,6) c(8) [of s I] c(10) [of s] same_refl by simp_all
qed

lemma unchanged_trans: "unchanged s s1 \<Longrightarrow> unchanged s1 s2 \<Longrightarrow> unchanged s s2"
  using disk_frame_trans by (auto simp: unchanged_def)

lemma data_block: "env k s \<Longrightarrow> data_used s b \<Longrightarrow> unat b < unat (total_blocks (super s))"
  by (simp add: data_used_def word_less_nat_alt)

lemma slot_count: "slot < SFS_POINTERS \<Longrightarrow> SFS_DIRECT + 1 + slot < SLOTS" "slot < SFS_POINTERS \<Longrightarrow> 4 * slot + 4 \<le> SFS_BLOCK"
  by (simp_all add: SLOTS_def SFS_POINTERS_def SFS_BLOCK_def)

lemma entry_for_read:
  assumes e: "env 1 s" and ok: "disk_ok s I" and n: "1 \<le> n" "n \<le> unat (inode_count (super s))" and t: "indirect (I n) \<noteq> 0"
  shows "\<exists>s'. entry_for (indirect (I n)) slot False s = Some (le32 (dblk s (unat (indirect (I n)))) (4 * slot), s') \<and> unchanged s s'"
proof -
  let ?t = "indirect (I n)"
  have u: "data_used s ?t"
    using ok well_used [of I "dblk s" "data_used s" "unat (inode_count (super s))" n SFS_DIRECT] n t
    by (auto simp: disk_ok_def ptr_indirect SLOTS_def)
  let ?body = "\<lambda>s1. case read_block ?t s1 of ((r, tab), s2) \<Rightarrow>
          if r < 0 then Some (0, s2)
          else if le32 tab (4 * slot) = 0 \<and> False then
            do { (b, s3) \<leftarrow> alloc_block s2;
                 if b \<noteq> 0 then Some (b, snd (write_block ?t (put_at (4 * slot) (le_bytes b) tab) s3)) else Some (0, s3) }
          else Some (le32 tab (4 * slot), s2)"
  have "\<exists>r s'. with_scratch 0 ?body s = Some (r, s') \<and> disk_frame s s' \<and> (r = le32 (dblk s (unat ?t)) (4 * slot) \<and> unchanged s s')"
  proof (rule with_scratch_ok)
    show "env (Suc 0) s" using e by simp
    fix c
    assume c: "env 0 (s\<lparr>scratch_busy := c\<rparr>)"
    obtain s2 where s2: "read_block ?t (s\<lparr>scratch_busy := c\<rparr>) = ((0, dblk s (unat ?t)), s2)" "disk_frame (s\<lparr>scratch_busy := c\<rparr>) s2" "dblk s2 = dblk s"
        "bitmap s2 = bitmap s" "super s2 = super s"
      using read_block_ok [OF c, of ?t] data_block [OF e u] by auto
    have "unchanged s (s2\<lparr>scratch_busy := scratch_busy s\<rparr>)" using s2 by (simp add: unchanged_def disk_frame_def)
    then show "\<exists>r s2. ?body (s\<lparr>scratch_busy := c\<rparr>) = Some (r, s2) \<and> disk_frame (s\<lparr>scratch_busy := c\<rparr>) s2 \<and>
        r = le32 (dblk s (unat ?t)) (4 * slot) \<and> unchanged s (s2\<lparr>scratch_busy := scratch_busy s\<rparr>)"
      using s2 by (intro exI [of _ "le32 (dblk s (unat ?t)) (4 * slot)"] exI [of _ s2]) simp
  qed
  then show ?thesis unfolding entry_for_def by blast
qed

lemma block_for_read:
  assumes e: "env 1 s" and ok: "disk_ok s I" and n: "1 \<le> n" "n \<le> unat (inode_count (super s))"
  shows "\<exists>s'. block_for (I n) index False ch s =
      Some ((if index < FILE_BLOCKS then ptr I (dblk s) n (slot_of index) else 0, I n, ch), s') \<and> unchanged s s'"
proof -
  have r: "unchanged s s" using disk_frame_refl envD(1) [OF e] by (simp add: unchanged_def)
  consider (d) "index < SFS_DIRECT" | (big) "SFS_DIRECT \<le> index" "FILE_BLOCKS \<le> index"
    | (none) "SFS_DIRECT \<le> index" "index < FILE_BLOCKS" "indirect (I n) = 0"
    | (tab) "SFS_DIRECT \<le> index" "index < FILE_BLOCKS" "indirect (I n) \<noteq> 0" by linarith
  then show ?thesis
  proof cases
    case d
    then show ?thesis using r by (intro exI [of _ s]) (simp add: block_for_def ptr_def slot_of_def FILE_BLOCKS_def)
  next
    case big
    then show ?thesis using r by (intro exI [of _ s]) (simp add: block_for_def Let_def FILE_BLOCKS_def le_diff_conv2 add.commute)
  next
    case none
    then show ?thesis using r by (intro exI [of _ s]) (simp add: block_for_def Let_def ptr_def slot_of_def)
  next
    case tab
    obtain s' where s': "entry_for (indirect (I n)) (index - SFS_DIRECT) False s =
        Some (le32 (dblk s (unat (indirect (I n)))) (4 * (index - SFS_DIRECT)), s')" "unchanged s s'"
      using entry_for_read [OF e ok n tab(3)] by blast
    have "\<not> SFS_POINTERS \<le> index - SFS_DIRECT" using tab(1,2) by (simp add: FILE_BLOCKS_def)
    then show ?thesis using s' tab by (intro exI [of _ s']) (simp add: block_for_def Let_def ptr_def slot_of_def)
  qed
qed


lemma disk_okD:
  assumes "disk_ok s I"
  shows "persistent s" "meta_used s" "counted_free s" "well I (dblk s) (data_used s) (unat (inode_count (super s)))"
    "1 \<le> n \<Longrightarrow> n \<le> unat (inode_count (super s)) \<Longrightarrow> inode_ok (I n)"
proof -
  show "persistent s" "meta_used s" "counted_free s" and w: "well I (dblk s) (data_used s) (unat (inode_count (super s)))"
    using assms by (simp_all add: disk_ok_def)
  show "1 \<le> n \<Longrightarrow> n \<le> unat (inode_count (super s)) \<Longrightarrow> inode_ok (I n)" using w unfolding well_def by (meson atLeastAtMost_iff)
qed

text \<open>The three ways a new block becomes part of a file.  None of them changes what the files contain.\<close>

lemma attach:
  assumes ok: "disk_ok s I" and f: "fresh s I b" and I': "\<And>n. 1 \<le> n \<Longrightarrow> n \<le> unat (inode_count (super s)) \<Longrightarrow> inode_ok (I' n)"
    and p: "\<And>n i. 1 \<le> n \<Longrightarrow> n \<le> unat (inode_count (super s)) \<Longrightarrow> i < SLOTS \<Longrightarrow>
      ptr I' (dblk s) n i = (if n = n0 \<and> i = i0 then b else ptr I (dblk s) n i)"
    and z: "ptr I (dblk s) n0 i0 = 0"
  shows "disk_ok s I'" and "same_files s I s I'"
proof -
  have fr: "ptr I (dblk s) n i \<noteq> b" if "1 \<le> n" "n \<le> unat (inode_count (super s))" "i < SLOTS" for n i
    using f that by (simp add: fresh_def)
  have "data_used s b" "dblk s (unat b) = zero_block" using f by (simp_all add: fresh_def)
  then show "disk_ok s I'" using ok well_add [OF disk_okD(4) [OF ok] I' p fr] by (simp add: disk_ok_def)
  show "same_files s I s I'"
    unfolding same_files_def using fbyte_add [of I' "dblk s" _ n0 i0 b I "dblk s"] p z \<open>dblk s (unat b) = zero_block\<close> by simp
qed

lemma attach_direct:
  assumes ok: "disk_ok s I" and f: "fresh s I b" and n: "1 \<le> n" "n \<le> unat (inode_count (super s))" and i: "i < SFS_DIRECT" "direct (I n) ! i = 0"
  defines "I' \<equiv> I(n := (I n)\<lparr>direct := (direct (I n))[i := b]\<rparr>)"
  shows "disk_ok s I'" and "same_files s I s I'" and "ptr I' (dblk s) n i = b"
proof -
  have l: "length (direct (I n)) = SFS_DIRECT" using disk_okD(5) [OF ok n] by (simp add: inode_ok_def)
  have "inode_ok (I' m)" if "1 \<le> m" "m \<le> unat (inode_count (super s))" for m
    using disk_okD(5) [OF ok that] by (auto simp: I'_def inode_ok_def)
  moreover have p: "ptr I' (dblk s) m j = (if m = n \<and> j = i then b else ptr I (dblk s) m j)" for m j
    using i l by (auto simp: I'_def ptr_def)
  moreover have "ptr I (dblk s) n i = 0" using i by (simp add: ptr_def)
  ultimately show "disk_ok s I'" "same_files s I s I'" using attach [OF ok f, of I' n i] by blast+
  show "ptr I' (dblk s) n i = b" using p by simp
qed

lemma attach_indirect:
  assumes ok: "disk_ok s I" and f: "fresh s I b" and n: "1 \<le> n" "n \<le> unat (inode_count (super s))" and i: "indirect (I n) = 0"
  defines "I' \<equiv> I(n := (I n)\<lparr>indirect := b\<rparr>)"
  shows "disk_ok s I'" and "same_files s I s I'"
proof -
  have "inode_ok (I' m)" if "1 \<le> m" "m \<le> unat (inode_count (super s))" for m
    using disk_okD(5) [OF ok that] by (auto simp: I'_def inode_ok_def)
  moreover have "ptr I' (dblk s) m j = (if m = n \<and> j = SFS_DIRECT then b else ptr I (dblk s) m j)" if "j < SLOTS" for m j
  proof (cases "m = n \<and> SFS_DIRECT < j")
    case True
    have "4 * (j - SFS_DIRECT - 1) + 4 \<le> SFS_BLOCK" using that True by (simp add: SLOTS_def SFS_POINTERS_def SFS_BLOCK_def)
    then have "le32 (dblk s (unat b)) (4 * (j - SFS_DIRECT - 1)) = 0" using f by (simp add: fresh_def zero_block_def)
    then show ?thesis using True i by (simp add: I'_def ptr_def)
  next
    case False
    then show ?thesis by (auto simp: I'_def ptr_def)
  qed
  moreover have "ptr I (dblk s) n SFS_DIRECT = 0" using i by (simp add: ptr_def)
  ultimately show "disk_ok s I'" "same_files s I s I'" using attach [OF ok f, of I' n SFS_DIRECT] by blast+
qed

lemma attach_entry:
  assumes e: "env k s" and ok: "disk_ok s I" and f: "fresh s I b" and n: "1 \<le> n" "n \<le> unat (inode_count (super s))"
    and t: "indirect (I n) \<noteq> 0" and slot: "slot < SFS_POINTERS" "le32 (dblk s (unat (indirect (I n)))) (4 * slot) = 0"
    and fr: "disk_frame s s'" "bitmap s' = bitmap s" "super s' = super s"
    and d: "dblk s' = (dblk s)(unat (indirect (I n)) := put_at (4 * slot) (le_bytes b) (dblk s (unat (indirect (I n)))))"
  shows "disk_ok s' I" and "same_files s I s' I" and "same_table s s'" and "ptr I (dblk s') n (SFS_DIRECT + 1 + slot) = b"
proof -
  let ?t = "indirect (I n)" and ?N = "unat (inode_count (super s))"
  note w = disk_okD(4) [OF ok]
  have sd: "SFS_DIRECT < SLOTS" by (simp add: SLOTS_def)
  have tu: "data_used s ?t" using well_used [OF w n sd] t by (simp add: ptr_indirect)
  have bt: "b \<noteq> ?t" using f n sd by (auto simp: fresh_def ptr_indirect dest!: bspec [of _ _ n] spec [of _ SFS_DIRECT])
  then have ub: "unat b \<noteq> unat ?t" by (simp add: word_unat_eq_iff)
  have p: "ptr I (dblk s') m i = (if m = n \<and> i = SFS_DIRECT + 1 + slot then b else ptr I (dblk s) m i)" if m: "1 \<le> m" "m \<le> ?N" and i: "i < SLOTS" for m i
  proof (cases "m = n \<and> SFS_DIRECT < i")
    case True
    then have "i = SFS_DIRECT + 1 + (i - SFS_DIRECT - 1)" by simp
    then obtain j where j: "i = SFS_DIRECT + 1 + j" by blast
    then have jp: "4 * j + 4 \<le> SFS_BLOCK" using i by (simp add: SLOTS_def SFS_POINTERS_def SFS_BLOCK_def)
    then show ?thesis using True t j d le32_put_at [of slot "dblk s (unat ?t)" j b] slot_count(2) [OF slot(1)] by (auto simp: ptr_def)
  next
    case False
    have "indirect (I m) \<noteq> ?t" if "m \<noteq> n" "indirect (I m) \<noteq> 0"
      using well_inj [OF w m n sd sd] that by (auto simp: ptr_indirect)
    then have "unat (indirect (I m)) \<noteq> unat ?t" if "m \<noteq> n" "indirect (I m) \<noteq> 0" using that by (simp add: word_unat_eq_iff)
    then show ?thesis using False d by (auto simp: ptr_def)
  qed
  have z: "ptr I (dblk s) n (SFS_DIRECT + 1 + slot) = 0" using slot(2) t by (simp add: ptr_def)
  have fb: "ptr I (dblk s) m i \<noteq> b" if "1 \<le> m" "m \<le> ?N" "i < SLOTS" for m i using f that by (simp add: fresh_def)
  have du: "data_used s' = data_used s" using fr disk_frame_super [OF fr(1)] by (simp add: fun_eq_iff data_used_def)
  have ub': "data_used s b" "dblk s (unat b) = zero_block" using f by (simp_all add: fresh_def)
  have w': "well I (dblk s') (data_used s) ?N"
    using well_add [OF w disk_okD(5) [OF ok] p fb] ub'(1) by blast
  have lo: "dblk s' x = dblk s x" if "x < data_start s" for x using d tu that by (auto simp: data_used_def)
  have "persistent s'" using persistent_data [OF e disk_okD(1) [OF ok] fr] lo envD(6) [OF e] by simp
  then show "disk_ok s' I"
    using w' disk_okD(2,3) [OF ok] fr disk_frame_super(8) [OF fr(1)] du by (simp add: disk_ok_def meta_used_def counted_free_def)
  show "same_table s s'" using inode_at_cong [OF e fr(1)] lo by simp
  show "ptr I (dblk s') n (SFS_DIRECT + 1 + slot) = b" using p [OF n slot_count(1) [OF slot(1)]] by simp
  show "same_files s I s' I"
    unfolding same_files_def
  proof (intro ballI allI)
    fix m k
    assume "m \<in> {1..?N}"
    then have m: "1 \<le> m" "m \<le> ?N" by simp_all
    show "fbyte I (dblk s') m k = fbyte I (dblk s) m k"
    proof (rule fbyte_add [where b = b, OF p [OF m] z])
      show "dblk s' (unat b) = zero_block" using d ub ub'(2) by simp
      fix i
      assume i: "i < SLOTS" "i \<noteq> SFS_DIRECT" "ptr I (dblk s) m i \<noteq> 0"
      have "ptr I (dblk s) m i \<noteq> ?t" using well_inj [OF w m n i(1) sd] i(2,3) by (auto simp: ptr_indirect)
      then have "unat (ptr I (dblk s) m i) \<noteq> unat ?t" by (simp add: word_unat_eq_iff)
      then show "dblk s' (unat (ptr I (dblk s) m i)) = dblk s (unat (ptr I (dblk s) m i))" using d by simp
    qed
  qed
qed


text \<open>A step that may allocate, but leaves the contents of all files and the inodes on disk alone.\<close>

definition grown :: "sfs \<Rightarrow> (nat \<Rightarrow> sfs_inode) \<Rightarrow> sfs \<Rightarrow> (nat \<Rightarrow> sfs_inode) \<Rightarrow> bool" where
  "grown s I s' I' \<longleftrightarrow> disk_frame s s' \<and> disk_ok s' I' \<and> same_files s I s' I' \<and> same_table s s'"

lemma grown_trans: "grown s I s1 I1 \<Longrightarrow> grown s1 I1 s2 I2 \<Longrightarrow> grown s I s2 I2"
  unfolding grown_def using disk_frame_trans same_files_trans same_table_trans disk_frame_super(6) by blast

lemma grown_unchanged: "unchanged s s' \<Longrightarrow> disk_ok s I \<Longrightarrow> grown s I s' I"
  using unchangedD by (simp add: grown_def)

lemma entry_for_alloc:
  assumes e: "env 2 s" and ok: "disk_ok s I" and n: "1 \<le> n" "n \<le> unat (inode_count (super s))" and t: "indirect (I n) \<noteq> 0" and slot: "slot < SFS_POINTERS"
  shows "\<exists>b s'. entry_for (indirect (I n)) slot True s = Some (b, s') \<and> grown s I s' I \<and> b = ptr I (dblk s') n (SFS_DIRECT + 1 + slot) \<and>
    (b = 0 \<longrightarrow> full s')"
proof -
  let ?t = "indirect (I n)"
  let ?body = "\<lambda>s1. case read_block ?t s1 of ((r, tab), s2) \<Rightarrow>
          if r < 0 then Some (0, s2)
          else if le32 tab (4 * slot) = 0 \<and> True then
            do { (b, s3) \<leftarrow> alloc_block s2;
                 if b \<noteq> 0 then Some (b, snd (write_block ?t (put_at (4 * slot) (le_bytes b) tab) s3)) else Some (0, s3) }
          else Some (le32 tab (4 * slot), s2)"
  let ?Q = "\<lambda>b s'. grown s I s' I \<and> b = ptr I (dblk s') n (SFS_DIRECT + 1 + slot) \<and> (b = 0 \<longrightarrow> full s')"
  have "\<exists>r s'. with_scratch 0 ?body s = Some (r, s') \<and> disk_frame s s' \<and> ?Q r s'"
  proof (rule with_scratch_ok)
    show "env (Suc 1) s" using e by (simp add: numeral_2_eq_2)
    fix c
    let ?s1 = "s\<lparr>scratch_busy := c\<rparr>"
    assume c: "env 1 ?s1"
    have ok1: "disk_ok ?s1 I" using ok by simp
    have n1: "n \<le> unat (inode_count (super ?s1))" using n by simp
    have u: "data_used ?s1 ?t"
      using well_used [OF disk_okD(4) [OF ok1] n(1) n1, of SFS_DIRECT] t by (simp add: ptr_indirect SLOTS_def)
    obtain s2 where s2: "read_block ?t ?s1 = ((0, dblk ?s1 (unat ?t)), s2)" "unchanged ?s1 s2"
      using read_block_ok [OF c data_block [OF c u]] by (auto simp: unchanged_def)
    have ret: "grown s I (s'\<lparr>scratch_busy := scratch_busy s\<rparr>) I" if "grown ?s1 I s' I" for s'
      using that by (simp add: grown_def) (simp add: disk_frame_def)
    note u2 = unchangedD [OF s2(2)]
    have g2: "grown ?s1 I s2 I" using grown_unchanged [OF s2(2) ok1] .
    show "\<exists>r s2. ?body ?s1 = Some (r, s2) \<and> disk_frame ?s1 s2 \<and> ?Q r (s2\<lparr>scratch_busy := scratch_busy s\<rparr>)"
    proof (cases "le32 (dblk ?s1 (unat ?t)) (4 * slot) = 0")
      case False
      then have "?body ?s1 = Some (le32 (dblk ?s1 (unat ?t)) (4 * slot), s2)" using s2(1) by simp
      moreover have "ptr I (dblk s2) n (SFS_DIRECT + 1 + slot) = le32 (dblk ?s1 (unat ?t)) (4 * slot)" using t u2(2) by (simp add: ptr_def)
      ultimately show ?thesis using False ret [OF g2] u2(1) by auto
    next
      case True
      have e2: "env 1 s2" and ok2: "disk_ok s2 I" using disk_frame_env [OF c u2(1)] ok1 u2(5) by simp_all
      obtain b s3 where s3: "alloc_block s2 = Some (b, s3)" "disk_frame s2 s3" "disk_ok s3 I" "same_files s2 I s3 I" "same_table s2 s3"
          "\<forall>x. data_used s2 x \<longrightarrow> data_used s3 x \<and> dblk s3 (unat x) = dblk s2 (unat x)" "if b = 0 then full s2 \<and> full s3 else fresh s3 I b"
        using alloc_ok [OF e2 ok2] by blast
      have g3: "grown ?s1 I s3 I" using grown_trans [OF g2] s3 by (simp add: grown_def)
      have ut3: "data_used s3 ?t" "dblk s3 (unat ?t) = dblk ?s1 (unat ?t)" using s3(6) u u2(2,9) by auto
      have e3: "env 1 s3" using disk_frame_env [OF e2 s3(2)] .
      show ?thesis
      proof (cases "b = 0")
        case b0: True
        have "?body ?s1 = Some (0, s3)" using s2(1) True s3(1) b0 by simp
        moreover have "ptr I (dblk s3) n (SFS_DIRECT + 1 + slot) = 0" using True ut3(2) t by (simp add: ptr_def)
        moreover have "full s3" using s3(7) b0 by simp
        ultimately show ?thesis using ret [OF g3] g3 by (auto simp: grown_def)
      next
        case b0: False
        have fr: "fresh s3 I b" using s3(7) b0 by simp
        let ?tab = "put_at (4 * slot) (le_bytes b) (dblk ?s1 (unat ?t))"
        have "length ?tab = SFS_BLOCK" using slot_count(2) [OF slot] by simp
        then obtain s4 where s4: "write_block ?t ?tab s3 = (0, s4)" "disk_frame s3 s4" "dblk s4 = (dblk s3)(unat ?t := ?tab)" "bitmap s4 = bitmap s3"
            "super s4 = super s3"
          using write_block_ok [OF e3 data_block [OF e3 ut3(1)]] by blast
        have n3: "n \<le> unat (inode_count (super s3))" using n(2) g3 disk_frame_super(6) by (fastforce simp: grown_def)
        have "le32 (dblk s3 (unat ?t)) (4 * slot) = 0" using True ut3(2) by simp
        note a = attach_entry [OF e3 s3(3) fr n(1) n3 t slot this s4(2,4,5)]
        have a': "disk_ok s4 I" "same_files s3 I s4 I" "same_table s3 s4" "ptr I (dblk s4) n (SFS_DIRECT + 1 + slot) = b"
          using a s4(3) ut3(2) by simp_all
        then have g4: "grown ?s1 I s4 I" using grown_trans [OF g3] s4(2) by (simp add: grown_def)
        have "?body ?s1 = Some (b, s4)" using s2(1) True s3(1) b0 s4(1) by simp
        then show ?thesis using ret [OF g4] g4 a'(4) b0 by (auto simp: grown_def)
      qed
    qed
  qed
  then show ?thesis unfolding entry_for_def by blast
qed

lemma block_for_alloc:
  assumes e: "env 2 s" and ok: "disk_ok s I" and n: "1 \<le> n" "n \<le> unat (inode_count (super s))"
  shows "\<exists>b ino' ch' s'. block_for (I n) index True ch s = Some ((b, ino', ch'), s') \<and> grown s I s' (I(n := ino')) \<and>
    ino' = (I n)\<lparr>direct := direct ino', indirect := indirect ino'\<rparr> \<and> (ch \<longrightarrow> ch') \<and> (ch' \<or> ino' = I n) \<and>
    b = (if index < FILE_BLOCKS then ptr (I(n := ino')) (dblk s') n (slot_of index) else 0) \<and> (b = 0 \<longrightarrow> full s' \<or> FILE_BLOCKS \<le> index) \<and>
    (b = 0 \<and> index < SFS_DIRECT \<longrightarrow> full s)"
    (is "\<exists>b ino' ch' s'. ?P b ino' ch' s'")
proof -
  have e1: "env 1 s" using env_mono [OF e] by simp
  have r: "grown s I s I" using ok disk_frame_refl envD(1) [OF e] by (simp add: grown_def)
  consider (old) "index < SFS_DIRECT" "direct (I n) ! index \<noteq> 0" | (new) "index < SFS_DIRECT" "direct (I n) ! index = 0"
    | (big) "SFS_DIRECT \<le> index" "FILE_BLOCKS \<le> index" | (first) "SFS_DIRECT \<le> index" "index < FILE_BLOCKS" "indirect (I n) = 0"
    | (tab) "SFS_DIRECT \<le> index" "index < FILE_BLOCKS" "indirect (I n) \<noteq> 0" by linarith
  then show ?thesis
  proof cases
    case old
    then have "?P (direct (I n) ! index) (I n) ch s" using r by (simp add: block_for_def ptr_def slot_of_def FILE_BLOCKS_def)
    then show ?thesis by blast
  next
    case big
    then have "?P 0 (I n) ch s" using r by (simp add: block_for_def Let_def FILE_BLOCKS_def le_diff_conv2 add.commute)
    then show ?thesis by blast
  next
    case new
    obtain b s1 where s1: "alloc_block s = Some (b, s1)" "disk_frame s s1" "disk_ok s1 I" "same_files s I s1 I" "same_table s s1"
        "if b = 0 then full s \<and> full s1 else fresh s1 I b"
      using alloc_ok [OF e1 ok] by blast
    let ?ino = "(I n)\<lparr>direct := (direct (I n))[index := b]\<rparr>"
    have g1: "grown s I s1 I" using s1 by (simp add: grown_def)
    have n1: "n \<le> unat (inode_count (super s1))" using n(2) disk_frame_super(6) [OF s1(2)] by simp
    have sl: "slot_of index = index" "index < FILE_BLOCKS" using new by (simp_all add: slot_of_def FILE_BLOCKS_def)
    show ?thesis
    proof (cases "b = 0")
      case True
      have "?ino = I n" using True new by (simp add: list_update_same_conv inode_ok_def disk_okD(5) [OF ok n, unfolded inode_ok_def])
      moreover have "ptr I (dblk s1) n index = 0" using new by (simp add: ptr_def)
      ultimately have "?P b ?ino True s1" using new s1(1,6) True g1 sl by (simp add: block_for_def)
      then show ?thesis by blast
    next
      case False
      then have "fresh s1 I b" using s1(6) by simp
      from attach_direct [OF s1(3) this n(1) n1 new] have "grown s1 I s1 (I(n := ?ino))" "ptr (I(n := ?ino)) (dblk s1) n index = b"
        using disk_frame_refl s1(2) by (auto simp: grown_def disk_frame_def)
      then have "?P b ?ino True s1" using new s1(1) False sl grown_trans [OF g1] by (simp add: block_for_def)
      then show ?thesis by blast
    qed
  next
    case first
    obtain t s1 where s1: "alloc_block s = Some (t, s1)" "disk_frame s s1" "disk_ok s1 I" "same_files s I s1 I" "same_table s s1"
        "if t = 0 then full s \<and> full s1 else fresh s1 I t"
      using alloc_ok [OF e1 ok] by blast
    let ?ino = "(I n)\<lparr>indirect := t\<rparr>" and ?slot = "index - SFS_DIRECT"
    have sl: "\<not> SFS_POINTERS \<le> ?slot" "slot_of index = SFS_DIRECT + 1 + ?slot" using first by (simp_all add: FILE_BLOCKS_def slot_of_def)
    have g1: "grown s I s1 I" using s1 by (simp add: grown_def)
    have n1: "n \<le> unat (inode_count (super s1))" using n(2) disk_frame_super(6) [OF s1(2)] by simp
    show ?thesis
    proof (cases "t = 0")
      case True
      have i: "?ino = I n" using True first(3) by simp
      have z: "ptr I (dblk s1) n (slot_of index) = 0" using first by (simp add: ptr_def sl(2))
      have "?P 0 ?ino ch s1" using first s1(1,6) True g1 sl z unfolding i by (simp add: block_for_def Let_def)
      then show ?thesis by blast
    next
      case False
      then have "fresh s1 I t" using s1(6) by simp
      note a = attach_indirect [OF s1(3) this n(1) n1 first(3)]
      define J where "J = I(n := ?ino)"
      have g: "grown s1 I s1 J" using a disk_frame_refl s1(2) by (auto simp: grown_def disk_frame_def J_def)
      have ok1: "disk_ok s1 J" and Jn: "J n = ?ino" using g by (simp_all add: grown_def J_def)
      have "indirect (J n) \<noteq> 0" using False Jn by simp
      moreover have "?slot < SFS_POINTERS" using sl(1) by simp
      ultimately obtain b s2 where s2: "entry_for (indirect (J n)) ?slot True s1 = Some (b, s2)" "grown s1 J s2 J"
          "b = ptr J (dblk s2) n (SFS_DIRECT + 1 + ?slot)" "b = 0 \<longrightarrow> full s2"
        using entry_for_alloc [OF disk_frame_env [OF e s1(2)] ok1 n(1) n1] by blast
      have "grown s I s2 J" using grown_trans [OF g1 grown_trans [OF g s2(2)]] .
      moreover have "block_for (I n) index True ch s = Some ((b, ?ino, True), s2)"
        using first s1(1) False sl(1) s2(1) Jn by (simp add: block_for_def Let_def)
      ultimately have "?P b ?ino True s2" using first sl s2(3,4) by (simp add: J_def [symmetric])
      then show ?thesis by blast
    qed
  next
    case tab
    let ?slot = "index - SFS_DIRECT"
    have sl: "\<not> SFS_POINTERS \<le> ?slot" "slot_of index = SFS_DIRECT + 1 + ?slot" using tab by (simp_all add: FILE_BLOCKS_def slot_of_def)
    have "?slot < SFS_POINTERS" using sl(1) by simp
    from entry_for_alloc [OF e ok n tab(3) this] obtain b s2 where s2: "entry_for (indirect (I n)) ?slot True s = Some (b, s2)"
        "grown s I s2 I" "b = ptr I (dblk s2) n (SFS_DIRECT + 1 + ?slot)" "b = 0 \<longrightarrow> full s2" by blast
    then have "?P b (I n) ch s2" using tab sl by (simp add: block_for_def Let_def)
    then show ?thesis by blast
  qed
qed

section \<open>Reading\<close>

lemma pos_split:
  fixes pos chunk :: nat
  assumes "chunk \<le> SFS_BLOCK - pos mod SFS_BLOCK" and "k < chunk"
  shows "(pos + k) div SFS_BLOCK = pos div SFS_BLOCK" and "(pos + k) mod SFS_BLOCK = pos mod SFS_BLOCK + k"
proof -
  have lt: "pos mod SFS_BLOCK + k < SFS_BLOCK" using assms by linarith
  then have k: "k < SFS_BLOCK" by simp
  show "(pos + k) div SFS_BLOCK = pos div SFS_BLOCK" using lt k by (simp add: div_add1_eq [of pos k])
  show "(pos + k) mod SFS_BLOCK = pos mod SFS_BLOCK + k" using lt k by (simp add: mod_add_eq [symmetric, of pos k])
qed

text \<open>The bytes of a file inside one of its blocks.\<close>

lemma fbyte_chunk:
  assumes "chunk \<le> SFS_BLOCK - pos mod SFS_BLOCK" and "length (B (unat b)) = SFS_BLOCK"
    and "b = (if pos div SFS_BLOCK < FILE_BLOCKS then ptr I B n (slot_of (pos div SFS_BLOCK)) else 0)"
  shows "map (fbyte I B n) [pos..<pos + chunk] = (if b \<noteq> 0 then take chunk (drop (pos mod SFS_BLOCK) (B (unat b))) else replicate chunk 0)"
proof (rule nth_equalityI)
  have le: "pos mod SFS_BLOCK + chunk \<le> SFS_BLOCK" using assms(1) mod_less_divisor [of SFS_BLOCK pos] by (simp add: SFS_BLOCK_def)
  then show "length (map (fbyte I B n) [pos..<pos + chunk]) =
      length (if b \<noteq> 0 then take chunk (drop (pos mod SFS_BLOCK) (B (unat b))) else replicate chunk 0)" using assms(2) by simp
  fix k
  assume "k < length (map (fbyte I B n) [pos..<pos + chunk])"
  then have k: "k < chunk" by simp
  note d = pos_split [OF assms(1) k]
  show "map (fbyte I B n) [pos..<pos + chunk] ! k = (if b \<noteq> 0 then take chunk (drop (pos mod SFS_BLOCK) (B (unat b))) else replicate chunk 0) ! k"
    using k assms(2,3) le by (auto simp: fbyte_def d Let_def)
qed

lemma read_loop_ok:
  assumes "env 1 s" and "disk_ok s I" and "1 \<le> m" "m \<le> unat (inode_count (super s))" and "unat off + n < 2 ^ 32" and "copied \<le> n"
  shows "\<exists>s'. read_loop (I m) off n copied acc s = Some (acc @ map (fbyte I (dblk s) m) [unat off + copied..<unat off + n], s') \<and> unchanged s s'"
  using assms
proof (induction "n - copied" arbitrary: copied acc s rule: less_induct)
  case less
  show ?case
  proof (cases "copied < n")
    case False
    then have "read_loop (I m) off n copied acc s = Some (acc, s)" by (subst read_loop.simps) simp
    then show ?thesis using False less.prems(6) disk_frame_refl envD(1) [OF less.prems(1)] by (intro exI [of _ s]) (simp add: unchanged_def)
  next
    case True
    let ?pos = "unat (off + of_nat copied)" and ?p = "unat off + copied"
    have pos: "?pos = ?p"
      using True less.prems(5) by (subst unat_plus_simple) (simp_all add: unsigned_of_nat take_bit_eq_mod)
    define chunk where "chunk = min (SFS_BLOCK - ?p mod SFS_BLOCK) (n - copied)"
    have c: "chunk \<le> SFS_BLOCK - ?p mod SFS_BLOCK" "0 < chunk" "copied + chunk \<le> n"
      using True mod_less_divisor [of SFS_BLOCK ?p] by (auto simp: chunk_def SFS_BLOCK_def)
    let ?b = "if ?p div SFS_BLOCK < FILE_BLOCKS then ptr I (dblk s) m (slot_of (?p div SFS_BLOCK)) else 0"
    obtain s1 where s1: "block_for (I m) (?p div SFS_BLOCK) False False s = Some ((?b, I m, False), s1)" "unchanged s s1"
      using block_for_read [OF less.prems(1-4)] by blast
    note u1 = unchangedD [OF s1(2)]
    have e1: "env 1 s1" "disk_ok s1 I" "m \<le> unat (inode_count (super s1))"
      using disk_frame_env [OF less.prems(1) u1(1)] less.prems(2,4) u1(4,5) by simp_all
    have up: "[unat off + copied..<unat off + n] = [?p..<?p + chunk] @ [unat off + (copied + chunk)..<unat off + n]"
      using c(3) upt_add_eq_append [of ?p "?p + chunk" "n - copied - chunk"] by (simp add: algebra_simps)
    note ch = fbyte_chunk [where B = "dblk s" and I = I and n = m, OF c(1) length_dblk refl]
    have m2: "n - (copied + chunk) < n - copied" using c by simp
    show ?thesis
    proof (cases "?b = 0")
      case True
      obtain s' where s': "read_loop (I m) off n (copied + chunk) (acc @ replicate chunk 0) s1 =
          Some ((acc @ replicate chunk 0) @ map (fbyte I (dblk s1) m) [unat off + (copied + chunk)..<unat off + n], s')" "unchanged s1 s'"
        using less.hyps [OF m2 e1(1,2) less.prems(3) e1(3) less.prems(5) c(3)] by blast
      have "read_loop (I m) off n copied acc s = read_loop (I m) off n (copied + chunk) (acc @ replicate chunk 0) s1"
        using \<open>copied < n\<close> s1(1) True by (subst read_loop.simps) (simp only: Let_def pos chunk_def, simp)
      then show ?thesis using s' ch True u1(2) unchanged_trans [OF s1(2)] up by (intro exI [of _ s']) simp
    next
      case False
      have "data_used s ?b" using well_used [OF disk_okD(4) [OF less.prems(2)] less.prems(3,4)] slot_of_props(2) False by (auto split: if_splits)
      then obtain s2 where s2: "read_block ?b s1 = ((0, dblk s1 (unat ?b)), s2)" "unchanged s1 s2"
        using read_block_ok [OF e1(1), of ?b] data_block [OF e1(1), of ?b] u1(9) by (auto simp: unchanged_def)
      note u2 = unchangedD [OF s2(2)]
      let ?acc = "acc @ take chunk (drop (?p mod SFS_BLOCK) (dblk s1 (unat ?b)))"
      have e2: "env 1 s2" "disk_ok s2 I" "m \<le> unat (inode_count (super s2))" using disk_frame_env [OF e1(1) u2(1)] e1(2,3) u2(4,5) by simp_all
      obtain s' where s': "read_loop (I m) off n (copied + chunk) ?acc s2 =
          Some (?acc @ map (fbyte I (dblk s2) m) [unat off + (copied + chunk)..<unat off + n], s')" "unchanged s2 s'"
        using less.hyps [OF m2 e2(1,2) less.prems(3) e2(3) less.prems(5) c(3)] by blast
      have "read_loop (I m) off n copied acc s = read_loop (I m) off n (copied + chunk) ?acc s2"
        using \<open>copied < n\<close> s1(1) False s2(1) by (subst read_loop.simps) (simp only: Let_def pos chunk_def, simp)
      then show ?thesis
        using s' ch False u1(2) u2(2) unchanged_trans [OF s1(2) unchanged_trans [OF s2(2)]] up by (intro exI [of _ s']) simp
    qed
  qed
qed


text \<open>Size and bytes of file \<open>n\<close>, and the invariant between operations.\<close>

definition fsize :: "sfs \<Rightarrow> nat \<Rightarrow> nat" where
  "fsize s n = unat (isize (inode_at s n))"

definition fdata :: "sfs \<Rightarrow> nat \<Rightarrow> nat \<Rightarrow> u8" where
  "fdata s = fbyte (inode_at s) (dblk s)"

definition contents :: "sfs \<Rightarrow> nat \<Rightarrow> u8 list" where
  "contents s n = map (fdata s n) [0..<fsize s n]"

definition sfs_ok :: "sfs \<Rightarrow> bool" where
  "sfs_ok s \<longleftrightarrow> env SCRATCH_COUNT s \<and> disk_ok s (inode_at s)"

definition is_inode :: "sfs \<Rightarrow> u32 \<Rightarrow> bool" where
  "is_inode s n \<longleftrightarrow> 1 \<le> n \<and> n \<le> inode_count (super s)"

lemma is_inode_nat: "is_inode s n \<Longrightarrow> 1 \<le> unat n \<and> unat n \<le> unat (inode_count (super s))"
  by (auto simp: is_inode_def word_le_nat_alt)

lemma sfs_okD: "sfs_ok s \<Longrightarrow> k \<le> SCRATCH_COUNT \<Longrightarrow> env k s" "sfs_ok s \<Longrightarrow> disk_ok s (inode_at s)"
  using env_mono by (auto simp: sfs_ok_def)

lemma unchanged_ok: "unchanged s s' \<Longrightarrow> sfs_ok s \<Longrightarrow> sfs_ok s'"
  using unchangedD(5,8) disk_frame_env by (auto simp: sfs_ok_def unchanged_def)

lemma unchanged_view: "unchanged s s' \<Longrightarrow> fsize s' = fsize s \<and> fdata s' = fdata s \<and> contents s' = contents s \<and> is_inode s' = is_inode s"
proof -
  assume "unchanged s s'"
  note u = unchangedD [OF this]
  have a: "fsize s' = fsize s" "fdata s' = fdata s" by (intro HOL.ext; simp add: fsize_def fdata_def u)+
  then have "contents s' = contents s" "is_inode s' = is_inode s" by (intro HOL.ext; simp add: contents_def is_inode_def u)+
  then show ?thesis using a by blast
qed

lemma read_ok:
  assumes ok: "sfs_ok s" and n: "is_inode s n" and fits: "unat off + unat cnt < 2 ^ 32"
    and that: "bs = take (unat cnt) (drop (unat off) (contents s (unat n)))"
  shows "\<exists>s'. sfs_file_read n off cnt s = Some ((int (length bs), bs), s') \<and> unchanged s s'"
proof -
  have e: "env 1 s" "env (Suc 1) s" using sfs_okD(1) [OF ok] by (simp_all add: SCRATCH_COUNT_def)
  note d = sfs_okD(2) [OF ok]
  note n' = is_inode_nat [OF n]
  let ?I = "inode_at s" and ?m = "unat n"
  let ?ino = "?I ?m"
  obtain s1 where s1: "inode_read n s = Some (Some ?ino, s1)" "unchanged s s1"
    using inode_read_ok [OF e(1)] n by (auto simp: is_inode_def unchanged_def)
  note u1 = unchangedD [OF s1(2)]
  show ?thesis
  proof (cases "isize ?ino \<le> off")
    case True
    then have "fsize s ?m \<le> unat off" by (simp add: fsize_def word_le_nat_alt)
    then have "bs = []" using that by (simp add: contents_def)
    then show ?thesis using s1 True by (intro exI [of _ s1]) (simp add: sfs_file_read_def)
  next
    case False
    then have lt: "unat off < fsize s ?m" by (simp add: fsize_def word_le_nat_alt)
    have sum: "unat (off + cnt) = unat off + unat cnt" using fits by (simp add: unat_plus_simple)
    define l where "l = (if isize ?ino < off + cnt then isize ?ino - off else cnt)"
    have l: "unat l = min (unat cnt) (fsize s ?m - unat off)"
    proof (cases "isize ?ino < off + cnt")
      case True
      then have "fsize s ?m < unat off + unat cnt" by (simp add: fsize_def word_less_nat_alt sum)
      moreover have "unat l = fsize s ?m - unat off" using True lt by (simp add: l_def fsize_def unat_minus_simple word_le_nat_alt)
      ultimately show ?thesis using lt by simp
    next
      case False
      then have "unat off + unat cnt \<le> fsize s ?m" by (simp add: fsize_def word_less_nat_alt sum)
      then show ?thesis using False by (simp add: l_def)
    qed
    have bs: "bs = map (fdata s ?m) [unat off..<unat off + unat l]"
      using lt unfolding that l contents_def by (intro nth_equalityI) auto
    let ?body = "\<lambda>s2. do { (bs, s3) \<leftarrow> read_loop ?ino off (unat l) 0 [] s2; Some ((int (length bs), bs), s3) }"
    have e1: "env (Suc 1) s1" using disk_frame_env [OF e(2) u1(1)] .
    have "\<exists>r s'. with_scratch (- 1, []) ?body s1 = Some (r, s') \<and> disk_frame s1 s' \<and> (r = (int (length bs), bs) \<and> unchanged s1 s')"
    proof (rule with_scratch_ok [OF e1])
      fix c
      let ?s2 = "s1\<lparr>scratch_busy := c\<rparr>"
      assume c: "env 1 ?s2"
      have d2: "disk_ok ?s2 ?I" "?m \<le> unat (inode_count (super ?s2))" "dblk ?s2 = dblk s" using d u1 n' by simp_all
      have "unat off + unat l < 2 ^ 32" using l fits by simp
      with read_loop_ok [OF c d2(1) _ d2(2), of off "unat l" 0 "[]"] n' obtain s3 where s3: "read_loop ?ino off (unat l) 0 [] ?s2 = Some (bs, s3)" "unchanged ?s2 s3"
        unfolding bs fdata_def d2(3) by auto
      then have "unchanged s1 (s3\<lparr>scratch_busy := scratch_busy s1\<rparr>)" by (simp add: unchanged_def disk_frame_def)
      then show "\<exists>r s2. ?body ?s2 = Some (r, s2) \<and> disk_frame ?s2 s2 \<and> (r = (int (length bs), bs) \<and> unchanged s1 (s2\<lparr>scratch_busy := scratch_busy s1\<rparr>))"
        using s3 by (auto simp: unchanged_def)
    qed
    then obtain s' where s': "with_scratch (- 1, []) ?body s1 = Some ((int (length bs), bs), s')" "unchanged s1 s'" by blast
    then show ?thesis
      using s1 False unchanged_trans [OF s1(2) s'(2)] by (intro exI [of _ s']) (simp add: sfs_file_read_def Let_def l_def [symmetric])
  qed
qed

section \<open>Writing\<close>

lemma write_data:
  assumes e: "env k s" and ok: "disk_ok s I" and m: "1 \<le> m" "m \<le> unat (inode_count (super s))" and j: "j < FILE_BLOCKS"
    and p: "p = ptr I (dblk s) m (slot_of j)" "p \<noteq> 0" and fr: "disk_frame s s'" "bitmap s' = bitmap s" "super s' = super s"
    and d: "dblk s' = (dblk s)(unat p := bs)"
  shows "disk_ok s' I" and "same_table s s'"
    and "\<And>q k. 1 \<le> q \<Longrightarrow> q \<le> unat (inode_count (super s)) \<Longrightarrow>
      fbyte I (dblk s') q k = (if q = m \<and> k div SFS_BLOCK = j then bs ! (k mod SFS_BLOCK) else fbyte I (dblk s) q k)"
proof -
  note w = disk_okD(4) [OF ok]
  have B': "dblk s' (unat x) = (if x = p then bs else dblk s (unat x))" for x using d by (simp add: word_unat_eq_iff)
  note pure = write_data_pure [OF w m j p B']
  have pu: "data_used s p" using well_used [OF w m slot_of_props(2) [OF j]] p by simp
  have lo: "dblk s' x = dblk s x" if "x < data_start s" for x using d pu that by (auto simp: data_used_def)
  have "persistent s'" using persistent_data [OF e disk_okD(1) [OF ok] fr] lo envD(6) [OF e] by simp
  moreover have "data_used s' = data_used s" "data_start s' = data_start s"
    using fr disk_frame_super [OF fr(1)] by (simp_all add: fun_eq_iff data_used_def)
  ultimately show "disk_ok s' I"
    using pure(2) disk_okD(2,3) [OF ok] fr by (simp add: disk_ok_def meta_used_def counted_free_def)
  show "same_table s s'" using inode_at_cong [OF e fr(1)] lo by simp
  show "fbyte I (dblk s') q k = (if q = m \<and> k div SFS_BLOCK = j then bs ! (k mod SFS_BLOCK) else fbyte I (dblk s) q k)"
    if "1 \<le> q" "q \<le> unat (inode_count (super s))" for q k
    using pure(3) [OF that] .
qed

text \<open>The bytes of the block after a chunk has been copied into it.\<close>

lemma chunk_bytes:
  assumes c: "chunk \<le> SFS_BLOCK - pos mod SFS_BLOCK" and l: "w + chunk \<le> length dat" "length bs = SFS_BLOCK" and k: "k div SFS_BLOCK = pos div SFS_BLOCK"
  shows "put_at (pos mod SFS_BLOCK) (take chunk (drop w dat)) bs ! (k mod SFS_BLOCK) =
    (if pos \<le> k \<and> k < pos + chunk then dat ! (k - pos + w) else bs ! (k mod SFS_BLOCK))"
proof -
  have lt: "k mod SFS_BLOCK < SFS_BLOCK" "pos mod SFS_BLOCK < SFS_BLOCK" by (simp_all add: SFS_BLOCK_def)
  then have le: "pos mod SFS_BLOCK + chunk \<le> SFS_BLOCK" using c by simp
  have iff: "pos mod SFS_BLOCK \<le> k mod SFS_BLOCK \<longleftrightarrow> pos \<le> k" "k mod SFS_BLOCK < pos mod SFS_BLOCK + chunk \<longleftrightarrow> k < pos + chunk"
    "pos \<le> k \<Longrightarrow> k mod SFS_BLOCK - pos mod SFS_BLOCK = k - pos"
  proof -
    define q where "q = pos div SFS_BLOCK * SFS_BLOCK"
    have "q = k div SFS_BLOCK * SFS_BLOCK" using k by (simp add: q_def)
    then have e: "k = q + k mod SFS_BLOCK" "pos = q + pos mod SFS_BLOCK" by (simp, simp add: q_def)
    show "pos mod SFS_BLOCK \<le> k mod SFS_BLOCK \<longleftrightarrow> pos \<le> k" using e by linarith
    show "k mod SFS_BLOCK < pos mod SFS_BLOCK + chunk \<longleftrightarrow> k < pos + chunk" using e by linarith
    show "k mod SFS_BLOCK - pos mod SFS_BLOCK = k - pos" if "pos \<le> k" using e that by linarith
  qed
  show ?thesis
    using lt le l iff by (auto simp: nth_put_at add.commute)
qed


lemma inode_ptrs:
  "b = a\<lparr>direct := x, indirect := y\<rparr> \<Longrightarrow> c = b\<lparr>direct := u, indirect := v\<rparr> \<Longrightarrow> c = a\<lparr>direct := u, indirect := v\<rparr>" for a b c :: sfs_inode
  by simp

lemma write_loop_ok:
  assumes "env 2 s" and "disk_ok s I" and "1 \<le> m" "m \<le> unat (inode_count (super s))" and "unat off + length dat < 2 ^ 32" and "w \<le> length dat"
  shows "\<exists>w' ino' ch' s'. write_loop (I m) ch off dat w s = Some ((w', ino', ch'), s') \<and> w \<le> w' \<and> w' \<le> length dat \<and> disk_frame s s' \<and>
    disk_ok s' (I(m := ino')) \<and> same_table s s' \<and> ino' = (I m)\<lparr>direct := direct ino', indirect := indirect ino'\<rparr> \<and>
    (ch \<longrightarrow> ch') \<and> (ch' \<or> ino' = I m) \<and>
    (\<forall>q k. 1 \<le> q \<and> q \<le> unat (inode_count (super s)) \<longrightarrow> fbyte (I(m := ino')) (dblk s') q k =
      (if q = m \<and> unat off + w \<le> k \<and> k < unat off + w' then dat ! (k - unat off) else fbyte I (dblk s) q k)) \<and>
    (w' < length dat \<longrightarrow> full s' \<or> FILE_BLOCKS * SFS_BLOCK < unat off + length dat) \<and>
    (w' = w \<or> w' = length dat \<or> SFS_BLOCK dvd unat off + w') \<and>
    (w' = w \<and> w < length dat \<longrightarrow> (\<forall>k. k div SFS_BLOCK = (unat off + w) div SFS_BLOCK \<longrightarrow> fbyte I (dblk s) m k = 0)) \<and>
    (w' = w \<and> w < length dat \<and> (unat off + w) div SFS_BLOCK < SFS_DIRECT \<longrightarrow> full s)"
  using assms
proof (induction "length dat - w" arbitrary: w ch I s rule: less_induct)
  case less
  note pre = less.prems
  let ?P = "\<lambda>w ch I s w' ino' ch' s'. w \<le> w' \<and> w' \<le> length dat \<and> disk_frame s s' \<and>
    disk_ok s' (I(m := ino')) \<and> same_table s s' \<and> ino' = (I m)\<lparr>direct := direct ino', indirect := indirect ino'\<rparr> \<and>
    (ch \<longrightarrow> ch') \<and> (ch' \<or> ino' = I m) \<and>
    (\<forall>q k. 1 \<le> q \<and> q \<le> unat (inode_count (super s)) \<longrightarrow> fbyte (I(m := ino')) (dblk s') q k =
      (if q = m \<and> unat off + w \<le> k \<and> k < unat off + w' then dat ! (k - unat off) else fbyte I (dblk s) q k)) \<and>
    (w' < length dat \<longrightarrow> full s' \<or> FILE_BLOCKS * SFS_BLOCK < unat off + length dat) \<and>
    (w' = w \<or> w' = length dat \<or> SFS_BLOCK dvd unat off + w') \<and>
    (w' = w \<and> w < length dat \<longrightarrow> (\<forall>k. k div SFS_BLOCK = (unat off + w) div SFS_BLOCK \<longrightarrow> fbyte I (dblk s) m k = 0)) \<and>
    (w' = w \<and> w < length dat \<and> (unat off + w) div SFS_BLOCK < SFS_DIRECT \<longrightarrow> full s)"
  show ?case
  proof (cases "w < length dat")
    case False
    then have "write_loop (I m) ch off dat w s = Some ((w, I m, ch), s)" by (subst write_loop.simps) simp
    moreover have "?P w ch I s w (I m) ch s" using False pre(2,6) disk_frame_refl envD(1) [OF pre(1)] by auto
    ultimately show ?thesis by blast
  next
    case True
    let ?pos = "unat (off + of_nat w)" and ?p = "unat off + w"
    let ?j = "?p div SFS_BLOCK"
    have pos: "?pos = ?p" using True pre(5) by (subst unat_plus_simple) (simp_all add: unsigned_of_nat take_bit_eq_mod)
    define chunk where "chunk = min (SFS_BLOCK - ?p mod SFS_BLOCK) (length dat - w)"
    have c: "chunk \<le> SFS_BLOCK - ?p mod SFS_BLOCK" "0 < chunk" "w + chunk \<le> length dat"
      using True mod_less_divisor [of SFS_BLOCK ?p] by (auto simp: chunk_def SFS_BLOCK_def)
    obtain b ino1 ch1 s1 where s1: "block_for (I m) ?j True ch s = Some ((b, ino1, ch1), s1)" "grown s I s1 (I(m := ino1))"
        "ino1 = (I m)\<lparr>direct := direct ino1, indirect := indirect ino1\<rparr>" "ch \<longrightarrow> ch1" "ch1 \<or> ino1 = I m"
        "b = (if ?j < FILE_BLOCKS then ptr (I(m := ino1)) (dblk s1) m (slot_of ?j) else 0)" "b = 0 \<longrightarrow> full s1 \<or> FILE_BLOCKS \<le> ?j" "b = 0 \<and> ?j < SFS_DIRECT \<longrightarrow> full s"
      using block_for_alloc [OF pre(1-4), of ?j ch] by blast
    define I1 where "I1 = I(m := ino1)"
    have I1: "I1 m = ino1" "I(m := x) = I1(m := x)" for x by (simp_all add: I1_def)
    have g: "disk_frame s s1" "disk_ok s1 I1" "same_table s s1" and sf: "same_files s I s1 I1" using s1(2) by (simp_all add: grown_def I1_def)
    have e1: "env 2 s1" using disk_frame_env [OF pre(1) g(1)] .
    have N1: "inode_count (super s1) = inode_count (super s)" using disk_frame_super(6) [OF g(1)] .
    have f1: "fbyte I1 (dblk s1) q k = fbyte I (dblk s) q k" if "1 \<le> q" "q \<le> unat (inode_count (super s))" for q k
      using sf that by (simp add: same_files_def)
    show ?thesis
    proof (cases "b = 0")
      case True
      then have "write_loop (I m) ch off dat w s = Some ((w, ino1, ch1), s1)"
        using \<open>w < length dat\<close> s1(1) by (subst write_loop.simps) (simp only: Let_def pos, simp)
      moreover have "?P w ch I s w ino1 ch1 s1"
      proof -
        have "FILE_BLOCKS * SFS_BLOCK < unat off + length dat" if "FILE_BLOCKS \<le> ?j"
        proof -
          have "FILE_BLOCKS * SFS_BLOCK \<le> ?j * SFS_BLOCK" using that by simp
          also have "\<dots> \<le> ?p" by simp
          also have "\<dots> < unat off + length dat" using \<open>w < length dat\<close> by simp
          finally show ?thesis .
        qed
        moreover have "fbyte I (dblk s) m k = 0" if "k div SFS_BLOCK = ?j" for k
          using f1 [OF pre(3,4), of k] s1(6) True that by (auto simp: fbyte_def I1_def [symmetric] split: if_splits)
        ultimately show ?thesis using pre(6) g s1(3-5,7,8) f1 True by (auto simp: I1_def [symmetric])
      qed
      ultimately show ?thesis by blast
    next
      case b0: False
      then have j: "?j < FILE_BLOCKS" and bp: "b = ptr I1 (dblk s1) m (slot_of ?j)" using s1(6) by (auto simp: I1_def split: if_splits)
      have bu: "data_used s1 b"
        using well_used [OF disk_okD(4) [OF g(2)] pre(3) _ slot_of_props(2) [OF j]] bp b0 pre(4) N1 by simp
      obtain bs s2 where s2: "(if chunk \<noteq> SFS_BLOCK then read_block b s1 else ((0, zero_block), s1)) = ((0, bs), s2)" "unchanged s1 s2"
          "length bs = SFS_BLOCK" "chunk \<noteq> SFS_BLOCK \<longrightarrow> bs = dblk s1 (unat b)"
      proof (cases "chunk = SFS_BLOCK")
        case True
        have "unchanged s1 s1" using disk_frame_refl envD(1) [OF e1] by (simp add: unchanged_def)
        then show ?thesis using True by (intro that [of zero_block s1]) (simp_all add: zero_block_def)
      next
        case False
        then show ?thesis using read_block_ok [OF e1 data_block [OF e1 bu]] that by (auto simp: unchanged_def)
      qed
      note u2 = unchangedD [OF s2(2)]
      let ?new = "put_at (?p mod SFS_BLOCK) (take chunk (drop w dat)) bs"
      have e2: "env 2 s2" using disk_frame_env [OF e1 u2(1)] .
      have "length ?new = SFS_BLOCK" using c s2(3) mod_less_divisor [of SFS_BLOCK ?p] by (simp add: SFS_BLOCK_def)
      then obtain s3 where s3: "write_block b ?new s2 = (0, s3)" "disk_frame s2 s3" "dblk s3 = (dblk s2)(unat b := ?new)" "bitmap s3 = bitmap s2"
          "super s3 = super s2"
        using write_block_ok [OF e2, of b ?new] data_block [OF e2, of b] bu u2(9) by auto
      have ok2: "disk_ok s2 I1" "m \<le> unat (inode_count (super s2))" "b = ptr I1 (dblk s2) m (slot_of ?j)" using g(2) u2 bp pre(4) N1 by simp_all
      note wd = write_data [OF e2 ok2(1) pre(3) ok2(2) j ok2(3) b0 s3(2,4,5,3)]
      have e3: "env 2 s3" using disk_frame_env [OF e2 s3(2)] .
      have f13: "disk_frame s s3" "same_table s s3" and N3: "inode_count (super s3) = inode_count (super s)"
        using disk_frame_trans [OF g(1) disk_frame_trans [OF u2(1) s3(2)]] same_table_trans [OF g(3) same_table_trans [OF u2(7) wd(2)]] u2(4) N1 s3(5) by simp_all
      have f3: "fbyte I1 (dblk s3) q k = (if q = m \<and> ?p \<le> k \<and> k < ?p + chunk then dat ! (k - unat off) else fbyte I (dblk s) q k)"
        if q: "1 \<le> q" "q \<le> unat (inode_count (super s))" for q k
      proof (cases "q = m \<and> k div SFS_BLOCK = ?j")
        case True
        have old: "bs ! (k mod SFS_BLOCK) = fbyte I (dblk s) q k" if "\<not> (?p \<le> k \<and> k < ?p + chunk)"
        proof -
          have "chunk \<noteq> SFS_BLOCK"
          proof
            assume full: "chunk = SFS_BLOCK"
            then have "?p mod SFS_BLOCK = 0" using c(1) mod_less_divisor [of SFS_BLOCK ?p] by (simp add: SFS_BLOCK_def)
            then have "?p = ?j * SFS_BLOCK" using div_mult_mod_eq [of ?p SFS_BLOCK] by simp
            moreover have "k = ?j * SFS_BLOCK + k mod SFS_BLOCK" using True div_mult_mod_eq [of k SFS_BLOCK] by simp
            moreover have "k mod SFS_BLOCK < SFS_BLOCK" by (simp add: SFS_BLOCK_def)
            ultimately show False using that full by linarith
          qed
          then have "bs = dblk s1 (unat b)" using s2(4) by blast
          then have "bs ! (k mod SFS_BLOCK) = fbyte I1 (dblk s1) m k" using True j b0 bp by (simp add: fbyte_def)
          then show ?thesis using f1 q True by simp
        qed
        have "fbyte I1 (dblk s3) q k = ?new ! (k mod SFS_BLOCK)" using wd(3) [of q k] q True u2(4) N1 by simp
        then show ?thesis using chunk_bytes [OF c(1,3) s2(3), of k] True old by (auto simp: add.commute)
      next
        case False
        have "k div SFS_BLOCK = ?j" if "?p \<le> k" "k < ?p + chunk" using pos_split(1) [OF c(1), of "k - ?p"] that by simp
        with False have "\<not> (q = m \<and> ?p \<le> k \<and> k < ?p + chunk)" by blast
        then show ?thesis using wd(3) [of q k] q False u2(2,4) N1 f1 [OF q] by (simp only: if_False)
      qed
      have step: "write_loop (I m) ch off dat w s = write_loop (I1 m) ch1 off dat (w + chunk) s3"
        using \<open>w < length dat\<close> s1(1) b0 s2(1) s3(1) by (subst write_loop.simps) (simp only: Let_def pos chunk_def I1, simp)
      have m2: "length dat - (w + chunk) < length dat - w" using c by simp
      have m3: "m \<le> unat (inode_count (super s3))" using pre(4) N3 by simp
      obtain w' ino' ch' s' where r: "write_loop (I1 m) ch1 off dat (w + chunk) s3 = Some ((w', ino', ch'), s')" "?P (w + chunk) ch1 I1 s3 w' ino' ch' s'"
        using less.hyps [OF m2 e3 wd(1) pre(3) m3 pre(5) c(3), of ch1] by blast
      have le: "w + chunk \<le> w'" "w' \<le> length dat" and fr: "disk_frame s3 s'" and ok': "disk_ok s' (I1(m := ino'))" and tb: "same_table s3 s'"
        and ino': "ino' = (I1 m)\<lparr>direct := direct ino', indirect := indirect ino'\<rparr>" and ch': "ch1 \<longrightarrow> ch'" "ch' \<or> ino' = I1 m"
        and fb: "\<And>q k. 1 \<le> q \<Longrightarrow> q \<le> unat (inode_count (super s3)) \<Longrightarrow> fbyte (I1(m := ino')) (dblk s') q k =
          (if q = m \<and> unat off + (w + chunk) \<le> k \<and> k < unat off + w' then dat ! (k - unat off) else fbyte I1 (dblk s3) q k)"
        and fl: "w' < length dat \<longrightarrow> full s' \<or> FILE_BLOCKS * SFS_BLOCK < unat off + length dat"
        and bd: "w' = w + chunk \<or> w' = length dat \<or> SFS_BLOCK dvd unat off + w'"
        using r(2) by blast+
      have "?P w ch I s w' ino' ch' s'"
      proof (intro conjI)
        show "ino' = (I m)\<lparr>direct := direct ino', indirect := indirect ino'\<rparr>"
          using inode_ptrs [OF s1(3) ino' [unfolded I1(1)]] .
        show "\<forall>q k. 1 \<le> q \<and> q \<le> unat (inode_count (super s)) \<longrightarrow> fbyte (I(m := ino')) (dblk s') q k =
          (if q = m \<and> unat off + w \<le> k \<and> k < unat off + w' then dat ! (k - unat off) else fbyte I (dblk s) q k)"
        proof (intro allI impI)
          fix q k
          assume q: "1 \<le> q \<and> q \<le> unat (inode_count (super s))"
          then show "fbyte (I(m := ino')) (dblk s') q k =
              (if q = m \<and> unat off + w \<le> k \<and> k < unat off + w' then dat ! (k - unat off) else fbyte I (dblk s) q k)"
            using fb [of q k] f3 [of q k] N3 le(1) by (auto simp: I1(2))
        qed
        show "disk_frame s s'" using disk_frame_trans [OF f13(1) fr] .
        show "same_table s s'" using same_table_trans [OF f13(2) tb N3] .
        show "disk_ok s' (I(m := ino'))" using ok' by (simp add: I1(2))
        show "ch' \<or> ino' = I m" using ch' s1(5) I1(1) by auto
        show "ch \<longrightarrow> ch'" using ch' s1(4) by blast
        show "w \<le> w'" using le c(2) by simp
        show "w' = w \<and> w < length dat \<longrightarrow> (\<forall>k. k div SFS_BLOCK = ?j \<longrightarrow> fbyte I (dblk s) m k = 0)" using le(1) c(2) by simp
        show "w' = w \<and> w < length dat \<and> ?j < SFS_DIRECT \<longrightarrow> full s" using le(1) c(2) by simp
        have "chunk = length dat - w \<or> SFS_BLOCK dvd ?p + chunk"
        proof (cases "chunk = length dat - w")
          case False
          then have "chunk = SFS_BLOCK - ?p mod SFS_BLOCK" by (auto simp: chunk_def)
          moreover have "?p mod SFS_BLOCK \<le> SFS_BLOCK" "?p = ?p div SFS_BLOCK * SFS_BLOCK + ?p mod SFS_BLOCK"
            using mod_less_divisor [of SFS_BLOCK ?p] by (simp_all add: SFS_BLOCK_def)
          ultimately have "?p + chunk = ?p div SFS_BLOCK * SFS_BLOCK + SFS_BLOCK" by linarith
          then have "?p + chunk = (?p div SFS_BLOCK + 1) * SFS_BLOCK" by simp
          then show ?thesis by (metis dvd_triv_right)
        qed blast
        then show "w' = w \<or> w' = length dat \<or> SFS_BLOCK dvd unat off + w'" using bd c(3) by (auto simp: add.assoc)
      qed (use le fl in blast)+
      then show ?thesis unfolding step r(1) by blast
    qed
  qed
qed


text \<open>Only the pointers of the inodes matter for the blocks.\<close>

lemma pointers_cong:
  assumes "\<And>q. 1 \<le> q \<Longrightarrow> q \<le> unat (inode_count (super s)) \<Longrightarrow> direct (I' q) = direct (I q) \<and> indirect (I' q) = indirect (I q) \<and> inode_ok (I' q)"
  shows "1 \<le> q \<Longrightarrow> q \<le> unat (inode_count (super s)) \<Longrightarrow> fbyte I' B q k = fbyte I B q k" and "disk_ok s I \<Longrightarrow> disk_ok s I'"
proof -
  have p: "ptr I' B q i = ptr I B q i" if "1 \<le> q" "q \<le> unat (inode_count (super s))" for q i B using assms [OF that] by (simp add: ptr_def)
  then show "1 \<le> q \<Longrightarrow> q \<le> unat (inode_count (super s)) \<Longrightarrow> fbyte I' B q k = fbyte I B q k" by (simp add: fbyte_def)
  assume ok: "disk_ok s I"
  note w = disk_okD(4) [OF ok]
  have "well I' (dblk s) (data_used s) (unat (inode_count (super s)))"
    unfolding well_def
  proof (intro conjI ballI allI impI)
    fix n i
    assume "n \<in> {1..unat (inode_count (super s))}" "i < SLOTS" "ptr I' (dblk s) n i \<noteq> 0"
    then show "data_used s (ptr I' (dblk s) n i)" using well_used [OF w, of n i] p [of n "dblk s" i] by (metis atLeastAtMost_iff)
  next
    fix n m i j
    assume "n \<in> {1..unat (inode_count (super s))}" "m \<in> {1..unat (inode_count (super s))}" "i < SLOTS" "j < SLOTS"
      "ptr I' (dblk s) n i \<noteq> 0 \<and> ptr I' (dblk s) n i = ptr I' (dblk s) m j"
    then have "n = m \<and> i = j" using well_inj [OF w, of n m i j] p [of n "dblk s" i] p [of m "dblk s" j] by (metis atLeastAtMost_iff)
    then show "n = m" "i = j" by blast+
  qed (use assms in auto)
  then show "disk_ok s I'" using ok by (simp add: disk_ok_def)
qed

text \<open>Writing the inode of a file back makes the table in memory and the one on disk agree.\<close>

lemma store_inode:
  assumes e: "env 1 s" and ok: "disk_ok s I" and n: "is_inode s n" and I: "\<And>q. 1 \<le> q \<Longrightarrow> q \<le> unat (inode_count (super s)) \<Longrightarrow> q \<noteq> unat n \<Longrightarrow> I q = inode_at s q"
    and ino: "direct ino = direct (I (unat n))" "indirect ino = indirect (I (unat n))" "inode_ok ino"
  shows "\<exists>s'. inode_write n ino s = Some (0, s') \<and> disk_frame s s' \<and> disk_ok s' (inode_at s') \<and> full s' = full s \<and>
    (\<forall>q. 1 \<le> q \<longrightarrow> inode_at s' q = (if q = unat n then ino else inode_at s q)) \<and>
    (\<forall>q k. 1 \<le> q \<and> q \<le> unat (inode_count (super s)) \<longrightarrow> fdata s' q k = fbyte I (dblk s) q k)"
proof -
  let ?N = "unat (inode_count (super s))"
  obtain s' where s': "inode_write n ino s = Some (0, s')" "disk_frame s s'" "bitmap s' = bitmap s" "super s' = super s"
      "\<forall>q \<ge> 1. inode_at s' q = (if q = unat n then ino else inode_at s q)"
      "\<forall>d. d < unat (inode_start (super s)) \<or> data_start s \<le> d \<longrightarrow> dblk s' d = dblk s d"
    using inode_write_ok [OF e _ _ ino(3), of n] n by (auto simp: is_inode_def)
  have dd: "data_start s' = data_start s" "data_used s' = data_used s" using s'(3,4) by (simp_all add: fun_eq_iff data_used_def data_start_def)
  have keep: "dblk s' (unat x) = dblk s (unat x)" if "data_used s x" for x using s'(6) that by (simp add: data_used_def)
  note fu = files_unused [OF disk_okD(4) [OF ok] keep]
  have "persistent s'" using persistent_data [OF e disk_okD(1) [OF ok] s'(2-4)] s'(6) by simp
  then have ok1: "disk_ok s' I" using fu(2) disk_okD(2,3) [OF ok] s'(3,4) dd by (simp add: disk_ok_def meta_used_def counted_free_def)
  have c: "direct (inode_at s' q) = direct (I q) \<and> indirect (inode_at s' q) = indirect (I q) \<and> inode_ok (inode_at s' q)"
    if "1 \<le> q" "q \<le> unat (inode_count (super s'))" for q
    using that s'(4,5) I ino by auto
  have "disk_ok s' (inode_at s')" using pointers_cong(2) [OF c ok1] .
  moreover have "fdata s' q k = fbyte I (dblk s) q k" if q: "1 \<le> q" "q \<le> ?N" for q k
    using pointers_cong(1) [where s = s' and q = q and B = "dblk s'" and k = k, OF c] fu(3) [OF _ q, of k] q s'(4) by (simp add: fdata_def)
  moreover have "full s' = full s" using s'(3,4) by (simp add: full_def)
  ultimately show ?thesis using s' by blast
qed

text \<open>All files but \<open>n\<close> are what they were.\<close>

definition others_kept :: "u32 \<Rightarrow> sfs \<Rightarrow> sfs \<Rightarrow> bool" where
  "others_kept n s s' \<longleftrightarrow> (\<forall>q. 1 \<le> q \<and> q \<le> unat (inode_count (super s)) \<and> q \<noteq> unat n \<longrightarrow> inode_at s' q = inode_at s q \<and> fdata s' q = fdata s q)"

lemma write_ok:
  assumes ok: "sfs_ok s" and n: "is_inode s n" and fits: "unat off + length dat < 2 ^ 32"
  shows "\<exists>w s'. sfs_file_write n off dat s = Some (int w, s') \<and> w \<le> length dat \<and> disk_frame s s' \<and> sfs_ok s' \<and> others_kept n s s' \<and>
    (w < length dat \<longrightarrow> full s' \<or> FILE_BLOCKS * SFS_BLOCK < unat off + length dat) \<and> (w = 0 \<or> w = length dat \<or> SFS_BLOCK dvd unat off + w) \<and>
    (w = 0 \<and> dat \<noteq> [] \<longrightarrow> (\<forall>k. k div SFS_BLOCK = unat off div SFS_BLOCK \<longrightarrow> fdata s (unat n) k = 0)) \<and>
    (w = 0 \<and> dat \<noteq> [] \<and> unat off div SFS_BLOCK < SFS_DIRECT \<longrightarrow> full s) \<and>
    (\<forall>k. fdata s' (unat n) k = (if unat off \<le> k \<and> k < unat off + w then dat ! (k - unat off) else fdata s (unat n) k)) \<and>
    fsize s' (unat n) = max (fsize s (unat n)) (unat off + w) \<and>
    itype (inode_at s' (unat n)) = itype (inode_at s (unat n)) \<and> iflags (inode_at s' (unat n)) = iflags (inode_at s (unat n))"
    (is "\<exists>w s'. _ \<and> ?P w s'")
proof -
  have e: "env 1 s" "env (Suc 2) s" using sfs_okD(1) [OF ok] by (simp_all add: SCRATCH_COUNT_def)
  note d = sfs_okD(2) [OF ok]
  note n' = is_inode_nat [OF n]
  let ?I = "inode_at s" and ?m = "unat n" and ?N = "unat (inode_count (super s))"
  let ?ino = "?I ?m"
  obtain s1 where s1: "inode_read n s = Some (Some ?ino, s1)" "unchanged s s1"
    using inode_read_ok [OF e(1)] n by (auto simp: is_inode_def unchanged_def)
  note u1 = unchangedD [OF s1(2)]
  let ?body = "\<lambda>s2. do { ((written, ino1, changed1), s3) \<leftarrow> write_loop ?ino False off dat 0 s2;
                           let grown = isize ino1 < off + of_nat written;
                           let ino2 = (if grown then ino1\<lparr>isize := off + of_nat written\<rparr> else ino1);
                           let ino3 = ino2\<lparr>modified := now_seconds s3\<rparr>;
                           s4 \<leftarrow> (if changed1 \<or> grown \<or> 0 < written then map_option snd (inode_write n ino3 s3) else Some s3);
                           Some (int written, s4) }"
  have "\<exists>r s'. with_scratch (- 1) ?body s1 = Some (r, s') \<and> disk_frame s1 s' \<and> (\<exists>w. r = int w \<and> ?P w s')"
  proof (rule with_scratch_ok [OF disk_frame_env [OF e(2) u1(1)]])
    fix c
    let ?s2 = "s1\<lparr>scratch_busy := c\<rparr>"
    assume c: "env 2 ?s2"
    have d2: "disk_ok ?s2 ?I" "?m \<le> unat (inode_count (super ?s2))" using d u1 n' by simp_all
    obtain w ino' ch' s3 where r: "write_loop ?ino False off dat 0 ?s2 = Some ((w, ino', ch'), s3)" and w: "w \<le> length dat" and fr: "disk_frame ?s2 s3"
        and ok3: "disk_ok s3 (?I(?m := ino'))" and tb: "same_table ?s2 s3" and ino': "ino' = ?ino\<lparr>direct := direct ino', indirect := indirect ino'\<rparr>"
        and ch': "ch' \<or> ino' = ?ino" and fb: "\<And>q k. 1 \<le> q \<Longrightarrow> q \<le> unat (inode_count (super ?s2)) \<Longrightarrow> fbyte (?I(?m := ino')) (dblk s3) q k =
          (if q = ?m \<and> unat off + 0 \<le> k \<and> k < unat off + w then dat ! (k - unat off) else fbyte ?I (dblk ?s2) q k)"
        and fl: "w < length dat \<longrightarrow> full s3 \<or> FILE_BLOCKS * SFS_BLOCK < unat off + length dat" "w = 0 \<or> w = length dat \<or> SFS_BLOCK dvd unat off + w"
        and hole: "w = 0 \<and> 0 < length dat \<longrightarrow> (\<forall>k. k div SFS_BLOCK = (unat off + 0) div SFS_BLOCK \<longrightarrow> fbyte ?I (dblk ?s2) ?m k = 0)"
        and st: "w = 0 \<and> 0 < length dat \<and> (unat off + 0) div SFS_BLOCK < SFS_DIRECT \<longrightarrow> full ?s2"
      using write_loop_ok [OF c d2(1) _ d2(2) fits, of 0 False] n' by blast
    have hole': "w = 0 \<and> dat \<noteq> [] \<longrightarrow> (\<forall>k. k div SFS_BLOCK = unat off div SFS_BLOCK \<longrightarrow> fdata s ?m k = 0)" using hole u1(2) by (simp add: fdata_def)
    have st': "w = 0 \<and> dat \<noteq> [] \<and> unat off div SFS_BLOCK < SFS_DIRECT \<longrightarrow> full s" using st u1(10) by simp
    define grown where "grown = (isize ino' < off + of_nat w)"
    define ino3 where "ino3 = (if grown then ino'\<lparr>isize := off + of_nat w\<rparr> else ino')\<lparr>modified := now_seconds s3\<rparr>"
    have N3: "inode_count (super s3) = inode_count (super s)" using disk_frame_super(6) [OF fr] u1(4) by simp
    have tb': "inode_at s3 q = ?I q" if "1 \<le> q" "q \<le> ?N" for q using tb that u1(4,8) by (simp add: same_table_def)
    have fb': "fbyte (?I(?m := ino')) (dblk s3) q k = (if q = ?m \<and> unat off \<le> k \<and> k < unat off + w then dat ! (k - unat off) else fdata s q k)"
      if "1 \<le> q" "q \<le> ?N" for q k using fb that u1(2,4) by (simp add: fdata_def)
    have e3: "env 2 s3" using disk_frame_env [OF c fr] .
    have isz: "isize ino' = isize ?ino" "itype ino' = itype ?ino" "iflags ino' = iflags ?ino" by (subst ino', simp)+
    have sum: "unat (off + of_nat w) = unat off + w"
      using fits w by (subst unat_plus_simple) (simp_all add: unsigned_of_nat take_bit_eq_mod)
    have ret: "?P w (s'\<lparr>scratch_busy := scratch_busy s1\<rparr>)"
      if fr': "disk_frame s3 s'" and ok': "disk_ok s' (inode_at s')" and fl': "full s' = full s3"
        and f: "\<And>q k. 1 \<le> q \<Longrightarrow> q \<le> ?N \<Longrightarrow> fdata s' q k = fbyte (?I(?m := ino')) (dblk s3) q k"
        and i: "\<And>q. 1 \<le> q \<Longrightarrow> q \<le> ?N \<Longrightarrow> q \<noteq> ?m \<Longrightarrow> inode_at s' q = ?I q"
        and im: "fsize s' ?m = max (fsize s ?m) (unat off + w)" "itype (inode_at s' ?m) = itype ?ino" "iflags (inode_at s' ?m) = iflags ?ino" for s'
    proof -
      let ?s' = "s'\<lparr>scratch_busy := scratch_busy s1\<rparr>"
      have "disk_frame s1 ?s'" using disk_frame_trans [OF fr fr'] by (simp add: disk_frame_def)
      then have f1: "disk_frame s ?s'" using disk_frame_trans [OF u1(1)] by blast
      have v: "fsize ?s' = fsize s'" "fdata ?s' = fdata s'" by (intro HOL.ext; simp add: fsize_def fdata_def)+
      have "sfs_ok ?s'" using disk_frame_env [OF _ f1] ok ok' by (simp add: sfs_ok_def)
      moreover have "others_kept n s ?s'" using i f fb' by (simp add: others_kept_def fun_eq_iff v)
      ultimately show ?thesis using w f1 fl fl' f fb' im n' hole' st' unfolding v by simp
    qed
    show "\<exists>r s2. ?body ?s2 = Some (r, s2) \<and> disk_frame ?s2 s2 \<and> (\<exists>w. r = int w \<and> ?P w (s2\<lparr>scratch_busy := scratch_busy s1\<rparr>))"
    proof (cases "ch' \<or> grown \<or> 0 < w")
      case False
      then have same: "ino' = ?ino" "w = 0" using ch' by auto
      have "\<not> isize ino' < off" using False same(2) by (auto simp: grown_def)
      then have "?body ?s2 = Some (int w, s3)" using r False same(2) by (simp add: Let_def)
      moreover have "?P w (s3\<lparr>scratch_busy := scratch_busy s1\<rparr>)"
      proof (rule ret)
        show "disk_ok s3 (inode_at s3)"
          using pointers_cong(2) [OF _ ok3, of "inode_at s3"] tb' same N3 by simp
        show "fdata s3 q k = fbyte (?I(?m := ino')) (dblk s3) q k" if "1 \<le> q" "q \<le> ?N" for q k
          unfolding fdata_def using pointers_cong(1) [of s "inode_at s3" "?I(?m := ino')" q "dblk s3" k] tb' that same by simp
        have "\<not> fsize s ?m < unat off + w" using False isz sum by (simp add: grown_def fsize_def word_less_nat_alt)
        then show "fsize s3 ?m = max (fsize s ?m) (unat off + w)" using tb' n' by (simp add: fsize_def)
      qed (use disk_frame_refl envD(1) [OF e3] tb' n' in auto)
      ultimately show ?thesis using fr by blast
    next
      case True
      have i3: "is_inode s3 n" using n N3 by (simp add: is_inode_def)
      have e3': "env 1 s3" using env_mono [OF e3] by simp
      have "inode_ok ino'" using disk_okD(5) [OF ok3, of ?m] n' N3 by simp
      then have "inode_ok ino3" by (simp add: ino3_def inode_ok_def)
      moreover have "direct ino3 = direct ((?I(?m := ino')) ?m)" "indirect ino3 = indirect ((?I(?m := ino')) ?m)" by (simp_all add: ino3_def)
      ultimately obtain s4 where s4: "inode_write n ino3 s3 = Some (0, s4)" "disk_frame s3 s4" "disk_ok s4 (inode_at s4)" "full s4 = full s3"
          "\<forall>q. 1 \<le> q \<longrightarrow> inode_at s4 q = (if q = ?m then ino3 else inode_at s3 q)"
          "\<forall>q k. 1 \<le> q \<and> q \<le> unat (inode_count (super s3)) \<longrightarrow> fdata s4 q k = fbyte (?I(?m := ino')) (dblk s3) q k"
        using store_inode [OF e3' ok3 i3, of ino3] tb' N3 by auto
      have "?body ?s2 = Some (int w, s4)" using r True s4(1) by (simp add: Let_def grown_def [symmetric] ino3_def [symmetric])
      moreover have "?P w (s4\<lparr>scratch_busy := scratch_busy s1\<rparr>)"
      proof (rule ret)
        have g: "grown \<longleftrightarrow> fsize s ?m < unat off + w" using isz sum by (simp add: grown_def fsize_def word_less_nat_alt)
        show "fsize s4 ?m = max (fsize s ?m) (unat off + w)"
          using s4(5) n' g isz sum by (simp add: fsize_def ino3_def)
      qed (use s4 n' N3 tb' isz in \<open>auto simp: ino3_def\<close>)
      ultimately show ?thesis using disk_frame_trans [OF fr s4(2)] by blast
    qed
  qed
  then obtain w s' where "with_scratch (- 1) ?body s1 = Some (int w, s')" "?P w s'" by blast
  moreover from this(1) have "sfs_file_write n off dat s = Some (int w, s')" using s1(1) by (simp add: sfs_file_write_def)
  ultimately show ?thesis by blast
qed

end
