(* ===== verification/SfsTrunc.thy ===== *)
theory SfsTrunc
  imports SfsFile
begin

text \<open>
  Truncating a file: the blocks behind the new end are given back, pointer by pointer, and no other file is concerned.
\<close>

unbundle bit_operations_syntax

section \<open>Truncating\<close>

text \<open>Pointers that are taken away.\<close>

lemma well_remove:
  assumes w: "well I B U N" and ok: "\<And>n. 1 \<le> n \<Longrightarrow> n \<le> N \<Longrightarrow> inode_ok (I' n)"
    and p: "\<And>n i. 1 \<le> n \<Longrightarrow> n \<le> N \<Longrightarrow> i < SLOTS \<Longrightarrow> ptr I' B' n i = ptr I B n i \<and> U' (ptr I B n i) \<or> ptr I' B' n i = 0"
  shows "well I' B' (\<lambda>x. U x \<and> U' x) N"
  unfolding well_def
proof (intro conjI ballI allI impI)
  fix n i
  assume n: "n \<in> {1..N}" and i: "i < SLOTS" "ptr I' B' n i \<noteq> 0"
  then have "ptr I' B' n i = ptr I B n i" "U' (ptr I B n i)" using p [of n i] by auto
  then show "U (ptr I' B' n i)" "U' (ptr I' B' n i)" using well_used [OF w, of n i] n i by auto
next
  fix n m i j
  assume n: "n \<in> {1..N}" "m \<in> {1..N}" and i: "i < SLOTS" "j < SLOTS" and e: "ptr I' B' n i \<noteq> 0 \<and> ptr I' B' n i = ptr I' B' m j"
  then have "ptr I' B' n i = ptr I B n i" "ptr I' B' m j = ptr I B m j" using p [of n i] p [of m j] by auto
  then have "n = m \<and> i = j" using e well_inj [OF w, of n m i j] n i by (metis atLeastAtMost_iff)
  then show "n = m" "i = j" by blast+
qed (use ok in auto)

lemma fbyte_remove:
  assumes "\<And>i. i < SLOTS \<Longrightarrow> i \<noteq> SFS_DIRECT \<Longrightarrow> ptr I' B' n i = (if R i then 0 else ptr I B n i)"
    and "\<And>i. i < SLOTS \<Longrightarrow> i \<noteq> SFS_DIRECT \<Longrightarrow> ptr I B n i \<noteq> 0 \<Longrightarrow> \<not> R i \<Longrightarrow> B' (unat (ptr I B n i)) = B (unat (ptr I B n i))"
  shows "fbyte I' B' n k = (if R (slot_of (k div SFS_BLOCK)) then 0 else fbyte I B n k)"
proof (cases "FILE_BLOCKS \<le> k div SFS_BLOCK")
  case False
  then have s: "slot_of (k div SFS_BLOCK) < SLOTS" "slot_of (k div SFS_BLOCK) \<noteq> SFS_DIRECT" using slot_of_props by simp_all
  show ?thesis using assms(1) [OF s] assms(2) [OF s] by (auto simp: fbyte_def Let_def)
qed (simp add: fbyte_def)

text \<open>Freeing a block a pointer leads to: afterwards everything is in order but that pointer.\<close>

lemma free_ok:
  assumes e: "env 1 s" and ok: "disk_ok s I" and b: "b \<noteq> 0 \<longrightarrow> data_used s b"
  shows "\<exists>s'. free_block b s = Some s' \<and> disk_frame s s' \<and> persistent s' \<and> meta_used s' \<and> counted_free s' \<and> same_table s s' \<and>
    (\<forall>x. data_used s' x \<longleftrightarrow> data_used s x \<and> (b = 0 \<or> x \<noteq> b)) \<and> (\<forall>x. data_used s x \<longrightarrow> dblk s' (unat x) = dblk s (unat x))"
proof (cases "b = 0")
  case True
  then show ?thesis using free_zero [of s] disk_okD(1-3) [OF ok] disk_frame_refl envD(1) [OF e] by simp
next
  case False
  then have du: "data_start s \<le> unat b" "b < total_blocks (super s)" "bm_test b (bitmap s)" using b by (auto simp: data_used_def)
  obtain s' where s': "free_block b s = Some s'" "disk_frame s s'" "persistent s'" "bitmap s' = clear_bit b (bitmap s)"
      "free_blocks (super s') = free_blocks (super s) + 1" "\<forall>d \<ge> unat (inode_start (super s)). dblk s' d = dblk s d"
    using free_used [OF e disk_okD(1) [OF ok] du(2) False du(3)] by blast
  have fs: "total_blocks (super s') = total_blocks (super s)" "data_start s' = data_start s" using disk_frame_super [OF s'(2)] by simp_all
  have t: "bm_test x (bitmap s') \<longleftrightarrow> x \<noteq> b \<and> bm_test x (bitmap s)" for x
    using dbits.tst_cl [of b "bitmap s" x] block_ok [OF e du(2)] s'(4) by simp
  have "counted_free s'"
  proof -
    let ?F = "{x. x < total_blocks (super s) \<and> \<not> bm_test x (bitmap s)}"
    have F: "{x. x < total_blocks (super s') \<and> \<not> bm_test x (bitmap s')} = insert b ?F" using fs t du(2) by auto
    have "insert b ?F \<subseteq> set (all_blocks s)" using du(2) by (auto simp: in_all_blocks)
    then have "card (insert b ?F) \<le> card (set (all_blocks s))" by (intro card_mono) simp_all
    also have "\<dots> \<le> unat (total_blocks (super s))" using card_length [of "all_blocks s"] by (simp add: all_blocks_def)
    finally have le: "card (insert b ?F) < 2 ^ 32" using unat_lt2p [of "total_blocks (super s)"] by simp
    have "card (insert b ?F) = Suc (card ?F)" using du(3) by simp
    moreover have c: "unat (free_blocks (super s)) = card ?F" using disk_okD(3) [OF ok] by (simp add: counted_free_def)
    ultimately have "unat (free_blocks (super s')) = card (insert b ?F)" using le s'(5) by (simp add: unat_plus_one)
    then show ?thesis using F by (simp add: counted_free_def)
  qed
  moreover have "meta_used s'"
    unfolding meta_used_def
  proof (intro allI impI)
    fix x :: u32
    assume x: "unat x < data_start s'"
    then have "x \<noteq> b" using du(1) fs(2) by auto
    then show "bm_test x (bitmap s')" using x disk_okD(2) [OF ok] fs(2) by (simp add: meta_used_def t)
  qed
  moreover have "same_table s s'" using inode_at_cong [OF e s'(2)] s'(6) by simp
  moreover have "data_used s' x \<longleftrightarrow> data_used s x \<and> (b = 0 \<or> x \<noteq> b)" for x using False t fs by (auto simp: data_used_def)
  moreover have "dblk s' (unat x) = dblk s (unat x)" if "data_used s x" for x using that s'(6) envD(6) [OF e] by (simp add: data_used_def)
  ultimately show ?thesis using s'(1-3) by blast
qed

text \<open>A step that takes blocks \<open>J\<close> of file \<open>m\<close> away and keeps all other bytes.\<close>

definition released :: "sfs \<Rightarrow> (nat \<Rightarrow> sfs_inode) \<Rightarrow> nat \<Rightarrow> (nat \<Rightarrow> bool) \<Rightarrow> sfs \<Rightarrow> (nat \<Rightarrow> sfs_inode) \<Rightarrow> bool" where
  "released s I m J s' I' \<longleftrightarrow> disk_frame s s' \<and> disk_ok s' I' \<and> same_table s s' \<and>
     (\<forall>q k. 1 \<le> q \<and> q \<le> unat (inode_count (super s)) \<longrightarrow>
        fbyte I' (dblk s') q k = (if q = m \<and> J (k div SFS_BLOCK) then 0 else fbyte I (dblk s) q k))"

lemma released_refl: "env k s \<Longrightarrow> disk_ok s I \<Longrightarrow> (\<And>j. J j \<Longrightarrow> FILE_BLOCKS \<le> j) \<Longrightarrow> released s I m J s I"
  using disk_frame_refl envD(1) by (auto simp: released_def fbyte_def)

lemma released_trans:
  assumes "released s I m J s1 I1" and "released s1 I1 m K s2 I2" and "\<And>j. L j \<longleftrightarrow> J j \<or> K j"
  shows "released s I m L s2 I2"
  using assms disk_frame_trans [of s s1 s2] same_table_trans [of s s1 s2] disk_frame_super(6) [of s s1] by (auto simp: released_def)

lemma release_direct:
  assumes e: "env 1 s" and ok: "disk_ok s I" and m: "1 \<le> m" "m \<le> unat (inode_count (super s))" and i: "i < SFS_DIRECT"
  defines "I' \<equiv> I(m := (I m)\<lparr>direct := (direct (I m))[i := 0]\<rparr>)"
  shows "\<exists>s'. free_block (direct (I m) ! i) s = Some s' \<and> released s I m (\<lambda>j. j = i) s' I'"
proof -
  let ?b = "direct (I m) ! i" and ?N = "unat (inode_count (super s))"
  note w = disk_okD(4) [OF ok]
  have pb: "ptr I (dblk s) m i = ?b" and iS: "i < SLOTS" using i by (simp_all add: ptr_def SLOTS_def)
  have l: "length (direct (I m)) = SFS_DIRECT" using disk_okD(5) [OF ok m] by (simp add: inode_ok_def)
  have "?b \<noteq> 0 \<longrightarrow> data_used s ?b" using well_used [OF w m iS] pb by auto
  then obtain s' where s': "free_block ?b s = Some s'" "disk_frame s s'" "persistent s'" "meta_used s'" "counted_free s'" "same_table s s'"
      "\<forall>x. data_used s' x \<longleftrightarrow> data_used s x \<and> (?b = 0 \<or> x \<noteq> ?b)" "\<forall>x. data_used s x \<longrightarrow> dblk s' (unat x) = dblk s (unat x)"
    using free_ok [OF e ok] by blast
  have keep: "\<And>x. data_used s x \<Longrightarrow> dblk s' (unat x) = dblk s (unat x)" using s'(8) by blast
  have N: "inode_count (super s') = inode_count (super s)" using disk_frame_super(6) [OF s'(2)] .
  have p': "ptr I' (dblk s') q j = (if q = m \<and> j = i then 0 else ptr I (dblk s) q j)" if q: "1 \<le> q" "q \<le> ?N" for q j
  proof -
    have "ptr I' (dblk s') q j = (if q = m \<and> j = i then 0 else ptr I (dblk s') q j)" using i l by (auto simp: I'_def ptr_def)
    then show ?thesis using files_unused(1) [OF w keep q] by simp
  qed
  have "well I' (dblk s') (\<lambda>x. data_used s x \<and> (?b = 0 \<or> x \<noteq> ?b)) ?N"
  proof (rule well_remove [OF w])
    show "inode_ok (I' q)" if "1 \<le> q" "q \<le> ?N" for q using disk_okD(5) [OF ok that] by (auto simp: I'_def inode_ok_def)
    fix q j
    assume q: "1 \<le> q" "q \<le> ?N" "j < SLOTS"
    show "ptr I' (dblk s') q j = ptr I (dblk s) q j \<and> (?b = 0 \<or> ptr I (dblk s) q j \<noteq> ?b) \<or> ptr I' (dblk s') q j = 0"
      using p' [OF q(1,2)] well_inj [OF w q(1,2) m q(3) iS] pb by auto
  qed
  moreover have "data_used s' = (\<lambda>x. data_used s x \<and> (?b = 0 \<or> x \<noteq> ?b))" using s'(7) by (intro HOL.ext) blast
  ultimately have "disk_ok s' I'" using s'(3-5) N by (simp add: disk_ok_def)
  moreover have "fbyte I' (dblk s') q k = (if q = m \<and> k div SFS_BLOCK = i then 0 else fbyte I (dblk s) q k)" if q: "1 \<le> q" "q \<le> ?N" for q k
  proof -
    have "fbyte I' (dblk s') q k = (if q = m \<and> slot_of (k div SFS_BLOCK) = i then 0 else fbyte I (dblk s) q k)"
      using p' [OF q] well_used [OF w q] keep by (intro fbyte_remove [where R = "\<lambda>j. q = m \<and> j = i"]) auto
    moreover have "slot_of j = i \<longleftrightarrow> j = i" for j using i by (auto simp: slot_of_def)
    ultimately show ?thesis by simp
  qed
  ultimately show ?thesis using s'(1,2,6) by (auto simp: released_def)
qed


text \<open>An entry of an indirect block is a pointer of one file only.\<close>

lemma ptr_table:
  assumes w: "well I B U N" and m: "1 \<le> m" "m \<le> N" and t: "indirect (I m) \<noteq> 0" and slot: "slot < SFS_POINTERS"
    and B': "\<And>x. U x \<Longrightarrow> B' (unat x) = (if x = indirect (I m) then put_at (4 * slot) (le_bytes v) (B (unat (indirect (I m)))) else B (unat x))"
    and l: "length (B (unat (indirect (I m)))) = SFS_BLOCK" and q: "1 \<le> q" "q \<le> N" and i: "i < SLOTS"
  shows "ptr I B' q i = (if q = m \<and> i = SFS_DIRECT + 1 + slot then v else ptr I B q i)"
proof -
  let ?t = "indirect (I m)"
  have sd: "SFS_DIRECT < SLOTS" by (simp add: SLOTS_def)
  have ut: "U ?t" using well_used [OF w m sd] t by (simp add: ptr_indirect)
  show ?thesis
  proof (cases "q = m \<and> SFS_DIRECT < i")
    case True
    then have "i = SFS_DIRECT + 1 + (i - SFS_DIRECT - 1)" by simp
    then obtain j where j: "i = SFS_DIRECT + 1 + j" by blast
    then have jp: "4 * j + 4 \<le> SFS_BLOCK" using i by (simp add: SLOTS_def SFS_POINTERS_def SFS_BLOCK_def)
    then show ?thesis using True t j B' [OF ut] le32_put_at [of slot "B (unat ?t)" j v] slot_count(2) [OF slot] l by (auto simp: ptr_def)
  next
    case False
    have "B' (unat (indirect (I q))) = B (unat (indirect (I q)))" if "q \<noteq> m" "indirect (I q) \<noteq> 0"
    proof -
      have "indirect (I q) \<noteq> ?t" using well_inj [OF w q m sd sd] that by (auto simp: ptr_indirect)
      then show ?thesis using B' well_used [OF w q sd] that(2) by (simp add: ptr_indirect)
    qed
    then show ?thesis using False by (auto simp: ptr_def)
  qed
qed

lemma release_slot_big: "env 1 s \<Longrightarrow> SFS_POINTERS \<le> slot \<Longrightarrow> \<exists>s'. release_slot tb slot s = Some (False, s') \<and> unchanged s s'"
proof -
  assume e: "env 1 s" and big: "SFS_POINTERS \<le> slot"
  have "\<exists>r s'. release_slot tb slot s = Some (r, s') \<and> disk_frame s s' \<and> (r = False \<and> unchanged s s')"
    unfolding release_slot_def
  proof (rule with_scratch_ok)
    show "env (Suc 0) s" using e by simp
    fix c
    assume "env 0 (s\<lparr>scratch_busy := c\<rparr>)"
    then show "\<exists>r s2. (if SFS_POINTERS \<le> slot then Some (False, s\<lparr>scratch_busy := c\<rparr>)
        else case read_block tb (s\<lparr>scratch_busy := c\<rparr>) of ((r, tab), s2) \<Rightarrow>
          if r < 0 then Some (False, s2)
          else do { s3 \<leftarrow> free_block (le32 tab (4 * slot)) s2;
                    Some (True, snd (write_block tb (put_at (4 * slot) (le_bytes 0) tab) s3)) }) = Some (r, s2) \<and>
        disk_frame (s\<lparr>scratch_busy := c\<rparr>) s2 \<and> (r = False \<and> unchanged s (s2\<lparr>scratch_busy := scratch_busy s\<rparr>))"
      using big by (auto simp: unchanged_def disk_frame_def env_def)
  qed
  then show ?thesis by blast
qed

lemma release_slot_ok:
  assumes e: "env 2 s" and ok: "disk_ok s I" and m: "1 \<le> m" "m \<le> unat (inode_count (super s))" and t: "indirect (I m) \<noteq> 0" and slot: "slot < SFS_POINTERS"
  shows "\<exists>s'. release_slot (indirect (I m)) slot s = Some (True, s') \<and> released s I m (\<lambda>j. j = SFS_DIRECT + slot) s' I"
proof -
  let ?t = "indirect (I m)" and ?N = "unat (inode_count (super s))" and ?i = "SFS_DIRECT + 1 + slot"
  note w = disk_okD(4) [OF ok]
  have sd: "SFS_DIRECT < SLOTS" by (simp add: SLOTS_def)
  note si = slot_count(1) [OF slot]
  have tu: "data_used s ?t" using well_used [OF w m sd] t by (simp add: ptr_indirect)
  let ?b = "le32 (dblk s (unat ?t)) (4 * slot)"
  have pb: "ptr I (dblk s) m ?i = ?b" using t by (simp add: ptr_def)
  have bu: "?b \<noteq> 0 \<longrightarrow> data_used s ?b" using well_used [OF w m si] pb by auto
  have tb: "?t \<noteq> ?b" if "?b \<noteq> 0" using well_inj [OF w m m si sd] pb that t by (auto simp: ptr_indirect)
  let ?new = "put_at (4 * slot) (le_bytes 0) (dblk s (unat ?t))"
  let ?body = "\<lambda>s1. if SFS_POINTERS \<le> slot then Some (False, s1)
             else case read_block ?t s1 of ((r, tab), s2) \<Rightarrow>
               if r < 0 then Some (False, s2)
               else do { s3 \<leftarrow> free_block (le32 tab (4 * slot)) s2;
                         Some (True, snd (write_block ?t (put_at (4 * slot) (le_bytes 0) tab) s3)) }"
  let ?J = "\<lambda>j. j = SFS_DIRECT + slot"
  have "\<exists>r s'. with_scratch False ?body s = Some (r, s') \<and> disk_frame s s' \<and> (r = True \<and> released s I m ?J s' I)"
  proof (rule with_scratch_ok)
    show "env (Suc 1) s" using e by (simp add: numeral_2_eq_2)
    fix c
    let ?s1 = "s\<lparr>scratch_busy := c\<rparr>"
    assume c: "env 1 ?s1"
    obtain s2 where s2: "read_block ?t ?s1 = ((0, dblk s (unat ?t)), s2)" "unchanged ?s1 s2"
      using read_block_ok [OF c, of ?t] data_block [OF c, of ?t] tu by (auto simp: unchanged_def)
    note u2 = unchangedD [OF s2(2)]
    have e2: "env 1 s2" and ok2: "disk_ok s2 I" and bu2: "?b \<noteq> 0 \<longrightarrow> data_used s2 ?b" using disk_frame_env [OF c u2(1)] ok u2(5,9) bu by simp_all
    obtain s3 where s3: "free_block ?b s2 = Some s3" "disk_frame s2 s3" "persistent s3" "meta_used s3" "counted_free s3" "same_table s2 s3"
        "\<forall>x. data_used s3 x \<longleftrightarrow> data_used s2 x \<and> (?b = 0 \<or> x \<noteq> ?b)" "\<forall>x. data_used s2 x \<longrightarrow> dblk s3 (unat x) = dblk s2 (unat x)"
      using free_ok [OF e2 ok2 bu2] by blast
    have e3: "env 1 s3" using disk_frame_env [OF e2 s3(2)] .
    have tu3: "data_used s3 ?t" using s3(7) tu tb u2(9) by auto
    have "length ?new = SFS_BLOCK" using slot_count(2) [OF slot] by simp
    then obtain s4 where s4: "write_block ?t ?new s3 = (0, s4)" "disk_frame s3 s4" "dblk s4 = (dblk s3)(unat ?t := ?new)" "bitmap s4 = bitmap s3" "super s4 = super s3"
      using write_block_ok [OF e3 data_block [OF e3 tu3]] by blast
    have fr: "disk_frame ?s1 s4" using disk_frame_trans [OF u2(1) disk_frame_trans [OF s3(2) s4(2)]] .
    have N4: "inode_count (super s4) = inode_count (super s)" using disk_frame_super(6) [OF fr] by simp
    have du4: "data_used s4 = (\<lambda>x. data_used s x \<and> (?b = 0 \<or> x \<noteq> ?b))"
    proof -
      have "data_used s4 = data_used s3" using s4(4,5) by (simp add: fun_eq_iff data_used_def data_start_def)
      then show ?thesis using s3(7) u2(9) by (intro HOL.ext) simp
    qed
    have B4: "dblk s4 (unat x) = (if x = ?t then ?new else dblk s (unat x))" if "data_used s x" for x
      using that s4(3) s3(8) u2(2,9) by (auto simp: word_unat_eq_iff)
    note p4 = ptr_table [OF w m t slot B4 length_dblk]
    have "well I (dblk s4) (\<lambda>x. data_used s x \<and> (?b = 0 \<or> x \<noteq> ?b)) ?N"
    proof (rule well_remove [OF w disk_okD(5) [OF ok]])
      fix q j
      assume q: "1 \<le> q" "q \<le> ?N" "j < SLOTS"
      show "ptr I (dblk s4) q j = ptr I (dblk s) q j \<and> (?b = 0 \<or> ptr I (dblk s) q j \<noteq> ?b) \<or> ptr I (dblk s4) q j = 0"
        using p4 [OF _ q] well_inj [OF w q(1,2) m q(3) si] pb by auto
    qed
    moreover have lo: "dblk s4 d = dblk s3 d" if "d < data_start s3" for d using s4(3) tu3 that by (auto simp: data_used_def)
    have "persistent s4" using persistent_data [OF e3 s3(3) s4(2,4,5)] lo envD(6) [OF e3] by simp
    moreover have "same_table ?s1 s4"
      using same_table_trans [OF u2(7) same_table_trans [OF s3(6) inode_at_cong [OF e3 s4(2) lo]]] disk_frame_super(6) [OF s3(2)] u2(4) by simp
    moreover have "meta_used s4" "counted_free s4" using s3(4,5) s4(4,5) by (simp_all add: meta_used_def counted_free_def data_start_def)
    ultimately have ok4: "disk_ok s4 I" "same_table s s4" using du4 N4 by (simp_all add: disk_ok_def)
    have fb: "fbyte I (dblk s4) q k = (if q = m \<and> k div SFS_BLOCK = SFS_DIRECT + slot then 0 else fbyte I (dblk s) q k)" if q: "1 \<le> q" "q \<le> ?N" for q k
    proof -
      have "fbyte I (dblk s4) q k = (if q = m \<and> slot_of (k div SFS_BLOCK) = ?i then 0 else fbyte I (dblk s) q k)"
      proof (rule fbyte_remove [where R = "\<lambda>j. q = m \<and> j = ?i"])
        fix j
        assume j: "j < SLOTS" "j \<noteq> SFS_DIRECT"
        show "ptr I (dblk s4) q j = (if q = m \<and> j = ?i then 0 else ptr I (dblk s) q j)" using p4 [OF _ q j(1)] by simp
        assume nz: "ptr I (dblk s) q j \<noteq> 0"
        then have "ptr I (dblk s) q j \<noteq> ?t" using well_inj [OF w q m j(1) sd] j(2) by (auto simp: ptr_indirect)
        then show "dblk s4 (unat (ptr I (dblk s) q j)) = dblk s (unat (ptr I (dblk s) q j))" using B4 well_used [OF w q j(1) nz] by simp
      qed
      moreover have "slot_of j = ?i \<longleftrightarrow> j = SFS_DIRECT + slot" for j using slot_of_props(3) [of j "SFS_DIRECT + slot"] by (simp add: slot_of_def)
      ultimately show ?thesis by simp
    qed
    have "disk_frame s (s4\<lparr>scratch_busy := scratch_busy s\<rparr>)" using fr by (simp add: disk_frame_def)
    then have "released s I m ?J (s4\<lparr>scratch_busy := scratch_busy s\<rparr>) I" using ok4 fb by (simp add: released_def)
    moreover have "?body ?s1 = Some (True, s4)" using slot s2(1) s3(1) s4(1) by simp
    ultimately show "\<exists>r s2. ?body ?s1 = Some (r, s2) \<and> disk_frame ?s1 s2 \<and> (r = True \<and> released s I m ?J (s2\<lparr>scratch_busy := scratch_busy s\<rparr>) I)"
      using fr by blast
  qed
  then show ?thesis unfolding release_slot_def by blast
qed


lemma released_unchanged: "unchanged s s' \<Longrightarrow> disk_ok s I \<Longrightarrow> (\<And>j. J j \<Longrightarrow> FILE_BLOCKS \<le> j) \<Longrightarrow> released s I m J s' I"
  using unchangedD(1,2,5,7) [of s s'] by (auto simp: released_def fbyte_def)

lemma released_hole:
  assumes "env k s" and "disk_ok s I" and "indirect (I m) = 0" and "\<And>j. J j \<Longrightarrow> SFS_DIRECT \<le> j"
  shows "released s I m J s I"
proof -
  have "fbyte I (dblk s) m k = 0" if "J (k div SFS_BLOCK)" for k
    using assms(3) assms(4) [OF that] by (simp add: fbyte_def ptr_def slot_of_def)
  then show ?thesis using assms(1,2) disk_frame_refl envD(1) [OF assms(1)] by (auto simp: released_def)
qed

lemma released_env: "released s I m J s' I' \<Longrightarrow> env k s \<Longrightarrow> env k s' \<and> disk_ok s' I' \<and> inode_count (super s') = inode_count (super s)"
  using disk_frame_env disk_frame_super(6) by (auto simp: released_def)

lemma release_loop_ok:
  assumes "env 2 s" and "disk_ok s I" and "1 \<le> m" "m \<le> unat (inode_count (super s))"
  shows "\<exists>ino' s'. release_loop [a..<b] (I m) s = Some (ino', s') \<and> ino' = (I m)\<lparr>direct := direct ino'\<rparr> \<and>
    released s I m (\<lambda>j. a \<le> j \<and> j < b) s' (I(m := ino'))"
  using assms
proof (induction "b - a" arbitrary: a I s)
  case 0
  then have "[a..<b] = []" by simp
  moreover have "released s I m (\<lambda>j. a \<le> j \<and> j < b) s I" using 0 by (intro released_refl [of 2]) auto
  ultimately show ?case by (intro exI [of _ "I m"] exI [of _ s]) (simp only: release_loop.simps fun_upd_triv, simp)
next
  case (Suc x)
  then have u: "[a..<b] = a # [Suc a..<b]" and x: "x = b - Suc a" by (simp_all add: upt_rec)
  have e1: "env 1 s" using env_mono [OF Suc.prems(1)] by simp
  note m = Suc.prems(3,4)
  have L: "(a \<le> j \<and> j < b) \<longleftrightarrow> j = a \<or> (Suc a \<le> j \<and> j < b)" for j using Suc.hyps(2) by auto
  have step: "\<exists>ino' s'. release_loop [a..<b] (I m) s = Some (ino', s') \<and> ino' = (I m)\<lparr>direct := direct ino'\<rparr> \<and>
      released s I m (\<lambda>j. a \<le> j \<and> j < b) s' (I(m := ino'))"
    if r: "released s I m (\<lambda>j. j = a) s1 I1" and l: "release_loop [a..<b] (I m) s = release_loop [Suc a..<b] (I1 m) s1"
      and i: "I1 m = (I m)\<lparr>direct := direct (I1 m)\<rparr>" and I1: "\<And>x. I(m := x) = I1(m := x)" for s1 I1
  proof -
    note e = released_env [OF r Suc.prems(1)]
    obtain ino' s' where IH: "release_loop [Suc a..<b] (I1 m) s1 = Some (ino', s')" "ino' = (I1 m)\<lparr>direct := direct ino'\<rparr>"
        "released s1 I1 m (\<lambda>j. Suc a \<le> j \<and> j < b) s' (I1(m := ino'))"
      using Suc.hyps(1) [OF x, of s1 I1] e m by auto
    have "ino' = (I m)\<lparr>direct := direct ino'\<rparr>" using IH(2) i by (metis sfs_inode.update_convs(7) sfs_inode.surjective)
    then show ?thesis using released_trans [OF r IH(3), of "\<lambda>j. a \<le> j \<and> j < b"] L IH(1) l I1 by auto
  qed
  consider (d) "a < SFS_DIRECT" | (hole) "SFS_DIRECT \<le> a" "indirect (I m) = 0" | (tab) "SFS_DIRECT \<le> a" "indirect (I m) \<noteq> 0" "a < FILE_BLOCKS"
    | (stop) "SFS_DIRECT \<le> a" "indirect (I m) \<noteq> 0" "FILE_BLOCKS \<le> a" by linarith
  then show ?case
  proof cases
    case d
    from release_direct [OF e1 Suc.prems(2) m d] obtain s1 where "free_block (direct (I m) ! a) s = Some s1"
        "released s I m (\<lambda>j. j = a) s1 (I(m := (I m)\<lparr>direct := (direct (I m))[a := 0]\<rparr>))" by blast
    then show ?thesis using d u by (intro step [of s1 "I(m := (I m)\<lparr>direct := (direct (I m))[a := 0]\<rparr>)"]) simp_all
  next
    case hole
    have "released s I m (\<lambda>j. j = a) s I" using hole by (intro released_hole [OF Suc.prems(1,2)]) simp_all
    then show ?thesis using hole u by (intro step [of s I]) simp_all
  next
    case tab
    have slot: "a - SFS_DIRECT < SFS_POINTERS" "SFS_DIRECT + (a - SFS_DIRECT) = a" using tab by (simp_all add: FILE_BLOCKS_def)
    from release_slot_ok [OF Suc.prems(1,2) m tab(2) slot(1)] obtain s1 where "release_slot (indirect (I m)) (a - SFS_DIRECT) s = Some (True, s1)"
        "released s I m (\<lambda>j. j = a) s1 I" unfolding slot(2) by blast
    then show ?thesis using tab u by (intro step [of s1 I]) simp_all
  next
    case stop
    then have "SFS_POINTERS \<le> a - SFS_DIRECT" by (simp add: FILE_BLOCKS_def)
    from release_slot_big [OF e1 this] obtain s1 where s1: "release_slot (indirect (I m)) (a - SFS_DIRECT) s = Some (False, s1)" "unchanged s s1" by blast
    have "released s I m (\<lambda>j. a \<le> j \<and> j < b) s1 I" using stop(3) by (intro released_unchanged [OF s1(2) Suc.prems(2)]) simp
    then show ?thesis using stop u s1(1) by (intro exI [of _ "I m"] exI [of _ s1]) simp
  qed
qed

lemma release_indirect:
  assumes e: "env 1 s" and ok: "disk_ok s I" and m: "1 \<le> m" "m \<le> unat (inode_count (super s))" and t: "indirect (I m) \<noteq> 0"
  defines "I' \<equiv> I(m := (I m)\<lparr>indirect := 0\<rparr>)"
  shows "\<exists>s'. free_block (indirect (I m)) s = Some s' \<and> released s I m (\<lambda>j. SFS_DIRECT \<le> j) s' I'"
proof -
  let ?t = "indirect (I m)" and ?N = "unat (inode_count (super s))"
  note w = disk_okD(4) [OF ok]
  have sd: "SFS_DIRECT < SLOTS" by (simp add: SLOTS_def)
  have "?t \<noteq> 0 \<longrightarrow> data_used s ?t" using well_used [OF w m sd] by (simp add: ptr_indirect)
  then obtain s' where s': "free_block ?t s = Some s'" "disk_frame s s'" "persistent s'" "meta_used s'" "counted_free s'" "same_table s s'"
      "\<forall>x. data_used s' x \<longleftrightarrow> data_used s x \<and> (?t = 0 \<or> x \<noteq> ?t)" "\<forall>x. data_used s x \<longrightarrow> dblk s' (unat x) = dblk s (unat x)"
    using free_ok [OF e ok] by blast
  have keep: "\<And>x. data_used s x \<Longrightarrow> dblk s' (unat x) = dblk s (unat x)" using s'(8) by blast
  have p': "ptr I' (dblk s') q j = (if q = m \<and> SFS_DIRECT \<le> j then 0 else ptr I (dblk s) q j)" if q: "1 \<le> q" "q \<le> ?N" for q j
  proof -
    have "ptr I' (dblk s') q j = (if q = m \<and> SFS_DIRECT \<le> j then 0 else ptr I (dblk s') q j)" by (auto simp: I'_def ptr_def)
    then show ?thesis using files_unused(1) [OF w keep q] by simp
  qed
  have "well I' (dblk s') (\<lambda>x. data_used s x \<and> x \<noteq> ?t) ?N"
  proof (rule well_remove [OF w])
    show "inode_ok (I' q)" if "1 \<le> q" "q \<le> ?N" for q using disk_okD(5) [OF ok that] by (auto simp: I'_def inode_ok_def)
    fix q j
    assume q: "1 \<le> q" "q \<le> ?N" "j < SLOTS"
    show "ptr I' (dblk s') q j = ptr I (dblk s) q j \<and> ptr I (dblk s) q j \<noteq> ?t \<or> ptr I' (dblk s') q j = 0"
      using p' [OF q(1,2)] well_inj [OF w q(1,2) m q(3) sd] t by (auto simp: ptr_indirect)
  qed
  moreover have "data_used s' = (\<lambda>x. data_used s x \<and> x \<noteq> ?t)" using s'(7) t by (intro HOL.ext) blast
  ultimately have "disk_ok s' I'" using s'(3-5) disk_frame_super(6) [OF s'(2)] by (simp add: disk_ok_def)
  moreover have "fbyte I' (dblk s') q k = (if q = m \<and> SFS_DIRECT \<le> k div SFS_BLOCK then 0 else fbyte I (dblk s) q k)" if q: "1 \<le> q" "q \<le> ?N" for q k
  proof -
    have "fbyte I' (dblk s') q k = (if q = m \<and> SFS_DIRECT \<le> slot_of (k div SFS_BLOCK) then 0 else fbyte I (dblk s) q k)"
      using p' [OF q] well_used [OF w q] keep by (intro fbyte_remove [where R = "\<lambda>j. q = m \<and> SFS_DIRECT \<le> j"]) auto
    moreover have "SFS_DIRECT \<le> slot_of j \<longleftrightarrow> SFS_DIRECT \<le> j" for j by (auto simp: slot_of_def)
    ultimately show ?thesis by simp
  qed
  ultimately show ?thesis using s'(1,2,6) by (auto simp: released_def)
qed

lemma release_blocks_ok:
  assumes e: "env 2 s" and ok: "disk_ok s I" and m: "1 \<le> m" "m \<le> unat (inode_count (super s))"
  shows "\<exists>ino' s'. release_blocks (I m) f s = Some (ino', s') \<and> ino' = (I m)\<lparr>direct := direct ino', indirect := indirect ino'\<rparr> \<and>
    released s I m (\<lambda>j. unat f \<le> j \<and> j < unat (blocks_of_size (isize (I m))) \<or> f = 0 \<and> SFS_DIRECT \<le> j) s' (I(m := ino'))"
proof -
  let ?b = "unat (blocks_of_size (isize (I m)))"
  obtain ino1 s1 where l: "release_loop [unat f..<?b] (I m) s = Some (ino1, s1)" "ino1 = (I m)\<lparr>direct := direct ino1\<rparr>"
      "released s I m (\<lambda>j. unat f \<le> j \<and> j < ?b) s1 (I(m := ino1))"
    using release_loop_ok [OF assms] by blast
  note e1 = released_env [OF l(3) e]
  have m1: "m \<le> unat (inode_count (super s1))" using m e1 by simp
  have e11: "env 1 s1" using e1 env_mono [of 2 s1 1] by simp
  show ?thesis
  proof (cases "f = 0 \<and> indirect ino1 \<noteq> 0")
    case True
    let ?J = "I(m := ino1)"
    have t: "indirect (?J m) \<noteq> 0" using True by simp
    obtain s2 where s2: "free_block (indirect ino1) s1 = Some s2" "released s1 ?J m (\<lambda>j. SFS_DIRECT \<le> j) s2 (I(m := ino1\<lparr>indirect := 0\<rparr>))"
      using release_indirect [OF e11 conjunct1 [OF conjunct2 [OF e1]] m(1) m1 t] unfolding fun_upd_same fun_upd_upd by blast
    have "release_blocks (I m) f s = Some (ino1\<lparr>indirect := 0\<rparr>, s2)" using l(1) True s2(1) by (simp add: release_blocks_def)
    moreover have "ino1\<lparr>indirect := 0\<rparr> = (I m)\<lparr>direct := direct (ino1\<lparr>indirect := 0\<rparr>), indirect := indirect (ino1\<lparr>indirect := 0\<rparr>)\<rparr>"
      by (subst l(2)) simp
    moreover have "released s I m (\<lambda>j. unat f \<le> j \<and> j < ?b \<or> f = 0 \<and> SFS_DIRECT \<le> j) s2 (I(m := ino1\<lparr>indirect := 0\<rparr>))"
      using released_trans [OF l(3) s2(2)] True by auto
    ultimately show ?thesis by blast
  next
    case False
    have "release_blocks (I m) f s = Some (ino1, s1)" using l(1) False by (auto simp: release_blocks_def)
    moreover have "ino1 = (I m)\<lparr>direct := direct ino1, indirect := indirect ino1\<rparr>" by (subst l(2), subst (2) l(2)) simp
    moreover have "released s1 (I(m := ino1)) m (\<lambda>j. f = 0 \<and> SFS_DIRECT \<le> j) s1 (I(m := ino1))"
    proof (cases "f = 0")
      case True
      then show ?thesis using False e1 by (intro released_hole [of 2]) auto
    next
      case False
      then show ?thesis using e1 by (intro released_refl [of 2]) auto
    qed
    then have "released s I m (\<lambda>j. unat f \<le> j \<and> j < ?b \<or> f = 0 \<and> SFS_DIRECT \<le> j) s1 (I(m := ino1))"
      using released_trans [OF l(3)] by auto
    ultimately show ?thesis by blast
  qed
qed

lemma blocks_nat: "unat sz + SFS_BLOCK \<le> 2 ^ 32 \<Longrightarrow> unat (blocks_of_size sz) = (unat sz + (SFS_BLOCK - 1)) div SFS_BLOCK"
proof -
  assume a: "unat sz + SFS_BLOCK \<le> 2 ^ 32"
  have "(of_nat SFS_BLOCK :: u32) = 4096" by (simp add: SFS_BLOCK_def)
  then have b: "blocks_of_size sz = (sz + 4095) div 4096" by (simp add: blocks_of_size_def add.commute)
  have "unat (sz + 4095) = unat sz + 4095" using a by (subst unat_plus_simple) (simp_all add: SFS_BLOCK_def)
  then show ?thesis unfolding b by (simp add: unat_div SFS_BLOCK_def)
qed

text \<open>Which blocks of a file truncating to \<open>sz\<close> bytes takes away.\<close>

definition cut :: "nat \<Rightarrow> nat \<Rightarrow> nat \<Rightarrow> bool" where
  "cut sz old j \<longleftrightarrow> sz < old \<and> ((sz + (SFS_BLOCK - 1)) div SFS_BLOCK \<le> j \<and> j < (old + (SFS_BLOCK - 1)) div SFS_BLOCK \<or> sz = 0 \<and> SFS_DIRECT \<le> j)"

lemma truncate_ok:
  assumes ok: "sfs_ok s" and n: "is_inode s n" and big: "fsize s (unat n) + SFS_BLOCK \<le> 2 ^ 32"
  shows "\<exists>s'. sfs_file_truncate_inode n sz s = Some (0, s') \<and> disk_frame s s' \<and> sfs_ok s' \<and> others_kept n s s' \<and> fsize s' (unat n) = unat sz \<and>
    (\<forall>k. fdata s' (unat n) k = (if cut (unat sz) (fsize s (unat n)) (k div SFS_BLOCK) then 0 else fdata s (unat n) k)) \<and>
    itype (inode_at s' (unat n)) = itype (inode_at s (unat n)) \<and> iflags (inode_at s' (unat n)) = iflags (inode_at s (unat n))"
proof -
  have e: "env 1 s" "env 2 s" using sfs_okD(1) [OF ok] by (simp_all add: SCRATCH_COUNT_def)
  note d = sfs_okD(2) [OF ok]
  note n' = is_inode_nat [OF n]
  let ?I = "inode_at s" and ?m = "unat n" and ?N = "unat (inode_count (super s))"
  let ?ino = "?I ?m" and ?J = "cut (unat sz) (fsize s (unat n))"
  obtain s1 where s1: "inode_read n s = Some (Some ?ino, s1)" "unchanged s s1"
    using inode_read_ok [OF e(1)] n by (auto simp: is_inode_def unchanged_def)
  note u1 = unchangedD [OF s1(2)]
  have e1: "env 2 s1" "disk_ok s1 ?I" "?m \<le> unat (inode_count (super s1))" using disk_frame_env [OF e(2) u1(1)] d n' u1(4,5) by simp_all
  have "\<exists>ino' s2. (if sz < isize ?ino then release_blocks ?ino (blocks_of_size sz) s1 else Some (?ino, s1)) = Some (ino', s2) \<and>
      ino' = ?ino\<lparr>direct := direct ino', indirect := indirect ino'\<rparr> \<and> released s1 ?I ?m ?J s2 (?I(?m := ino'))"
  proof (cases "sz < isize ?ino")
    case True
    then have lt: "unat sz < fsize s ?m" by (simp add: fsize_def word_less_nat_alt)
    have b: "unat (blocks_of_size sz) = (unat sz + (SFS_BLOCK - 1)) div SFS_BLOCK" "unat (blocks_of_size (isize ?ino)) = (fsize s ?m + (SFS_BLOCK - 1)) div SFS_BLOCK"
      using big lt by (simp_all add: blocks_nat fsize_def)
    have z: "blocks_of_size sz = 0 \<longleftrightarrow> unat sz = 0"
    proof -
      have "blocks_of_size sz = 0 \<longleftrightarrow> unat (blocks_of_size sz) = 0" by (simp add: unat_eq_0)
      also have "\<dots> \<longleftrightarrow> unat sz + 4095 < 4096" unfolding b(1) by (simp add: SFS_BLOCK_def div_eq_0_iff)
      finally show ?thesis by simp
    qed
    have J: "?J = (\<lambda>j. unat (blocks_of_size sz) \<le> j \<and> j < unat (blocks_of_size (isize ?ino)) \<or> blocks_of_size sz = 0 \<and> SFS_DIRECT \<le> j)"
      unfolding b z cut_def using lt by simp
    show ?thesis unfolding J using True release_blocks_ok [OF e1(1,2) _ e1(3), of "blocks_of_size sz"] n' by simp
  next
    case False
    then have "\<not> unat sz < fsize s ?m" by (simp add: fsize_def word_less_nat_alt)
    then show ?thesis using False e1 released_refl [OF e1(1,2), of ?J ?m] by (auto simp: cut_def)
  qed
  then obtain ino' s2 where r: "(if sz < isize ?ino then release_blocks ?ino (blocks_of_size sz) s1 else Some (?ino, s1)) = Some (ino', s2)"
      "ino' = ?ino\<lparr>direct := direct ino', indirect := indirect ino'\<rparr>" "released s1 ?I ?m ?J s2 (?I(?m := ino'))" by blast
  note e2 = released_env [OF r(3) e1(1)]
  have N2: "inode_count (super s2) = inode_count (super s)" using e2 u1(4) by simp
  let ?ino3 = "ino'\<lparr>isize := sz, modified := now_seconds s2\<rparr>"
  have tb: "?I q = inode_at s2 q" if "1 \<le> q" "q \<le> ?N" for q using r(3) that u1(4,8) by (simp add: released_def same_table_def)
  have "inode_ok ino'" using disk_okD(5) [of s2 "?I(?m := ino')" ?m] e2 n' N2 by simp
  then have "inode_ok ?ino3" by (simp add: inode_ok_def)
  moreover have "env 1 s2" "is_inode s2 n" using e2 env_mono [of 2 s2 1] n N2 by (simp_all add: is_inode_def)
  ultimately obtain s4 where s4: "inode_write n ?ino3 s2 = Some (0, s4)" "disk_frame s2 s4" "disk_ok s4 (inode_at s4)"
      "\<forall>q. 1 \<le> q \<longrightarrow> inode_at s4 q = (if q = ?m then ?ino3 else inode_at s2 q)"
      "\<forall>q k. 1 \<le> q \<and> q \<le> ?N \<longrightarrow> fdata s4 q k = fbyte (?I(?m := ino')) (dblk s2) q k"
    using store_inode [of s2 "?I(?m := ino')" n ?ino3] e2 tb N2 by auto
  have fr: "disk_frame s s4" using disk_frame_trans [OF u1(1) disk_frame_trans [OF _ s4(2)]] r(3) by (simp add: released_def)
  have f: "fdata s4 q k = (if q = ?m \<and> ?J (k div SFS_BLOCK) then 0 else fdata s q k)" if "1 \<le> q" "q \<le> ?N" for q k
    using s4(5) r(3) that u1(2,4) by (simp add: released_def fdata_def)
  have "sfs_file_truncate_inode n sz s = Some (0, s4)" using s1(1) r(1) s4(1) by (simp add: sfs_file_truncate_inode_def)
  moreover have "sfs_ok s4" using disk_frame_env [OF _ fr] ok s4(3) by (simp add: sfs_ok_def)
  moreover have "others_kept n s s4" using s4(4) tb f by (simp add: others_kept_def fun_eq_iff)
  moreover have "fsize s4 ?m = unat sz" "itype (inode_at s4 ?m) = itype ?ino" "iflags (inode_at s4 ?m) = iflags ?ino"
    using s4(4) n' by (simp_all add: fsize_def) (subst r(2), simp)+
  ultimately show ?thesis using fr f n' by simp
qed

end
