(* ===== verification/SfsDir.thy ===== *)
theory SfsDir
  imports SfsTrunc
begin

text \<open>
  Directories of the native file system: a directory is the list of its 64 byte entries.  Adding an entry fills the first hole or appends,
  removing one clears it, and nothing else changes.
\<close>

unbundle bit_operations_syntax

lemma u32_of_nat: "x < 2 ^ 32 \<Longrightarrow> unat (of_nat x :: u32) = x"
  by (simp add: unsigned_of_nat take_bit_eq_mod)

section \<open>Contents as lists\<close>

lemma length_contents [simp]: "length (contents s n) = fsize s n"
  by (simp add: contents_def)

text \<open>A write inside or at the end of a file, on its contents.\<close>

lemma contents_write:
  assumes "\<And>k. fdata s' n k = (if off \<le> k \<and> k < off + w then dat ! (k - off) else fdata s n k)"
    and "fsize s' n = max (fsize s n) (off + w)" and "off \<le> fsize s n" and "w \<le> length dat"
  shows "contents s' n = overwrite off (take w dat) (contents s n)"
proof (rule nth_equalityI)
  show "length (contents s' n) = length (overwrite off (take w dat) (contents s n))" using assms(2-4) by (simp add: overwrite_def)
  fix k
  assume k: "k < length (contents s' n)"
  then show "contents s' n ! k = overwrite off (take w dat) (contents s n) ! k"
    using assms by (auto simp: contents_def overwrite_def nth_append min_def)
qed

lemma overwrite_nil [simp]: "overwrite off [] old = old"
  by (simp add: overwrite_def)

section \<open>Directory entries\<close>

definition dir_ok :: "sfs \<Rightarrow> u32 \<Rightarrow> bool" where
  "dir_ok s d \<longleftrightarrow> is_inode s d \<and> SFS_DIRENT_SIZE dvd fsize s (unat d) \<and> fsize s (unat d) + SFS_DIRENT_SIZE < 2 ^ 32"

definition entry_at :: "sfs \<Rightarrow> u32 \<Rightarrow> nat \<Rightarrow> u8 list" where
  "entry_at s d i = take SFS_DIRENT_SIZE (drop (i * SFS_DIRENT_SIZE) (contents s (unat d)))"

definition entries :: "sfs \<Rightarrow> u32 \<Rightarrow> u8 list list" where
  "entries s d = map (entry_at s d) [0..<fsize s (unat d) div SFS_DIRENT_SIZE]"

lemma dir_index:
  assumes "dir_ok s d" and "i < fsize s (unat d) div SFS_DIRENT_SIZE"
  shows "(i + 1) * SFS_DIRENT_SIZE \<le> fsize s (unat d)" and "length (entry_at s d i) = SFS_DIRENT_SIZE"
    and "unat (of_nat (i * SFS_DIRENT_SIZE) :: u32) = i * SFS_DIRENT_SIZE"
proof -
  have "i + 1 \<le> fsize s (unat d) div SFS_DIRENT_SIZE" using assms(2) by simp
  then have "(i + 1) * SFS_DIRENT_SIZE \<le> fsize s (unat d) div SFS_DIRENT_SIZE * SFS_DIRENT_SIZE" by (rule mult_le_mono1)
  then show a: "(i + 1) * SFS_DIRENT_SIZE \<le> fsize s (unat d)" using assms(1) by (simp add: dir_ok_def)
  then show "length (entry_at s d i) = SFS_DIRENT_SIZE" by (simp add: entry_at_def)
  have "i * SFS_DIRENT_SIZE < 2 ^ 32" using a assms(1) by (simp add: dir_ok_def)
  then show "unat (of_nat (i * SFS_DIRENT_SIZE) :: u32) = i * SFS_DIRENT_SIZE" by (rule u32_of_nat)
qed

lemma read_entry:
  assumes ok: "sfs_ok s" and d: "dir_ok s d" and i: "i < fsize s (unat d) div SFS_DIRENT_SIZE"
  shows "\<exists>s'. sfs_file_read d (of_nat (i * SFS_DIRENT_SIZE)) (of_nat SFS_DIRENT_SIZE) s = Some ((int SFS_DIRENT_SIZE, entry_at s d i), s') \<and> unchanged s s'"
proof -
  note x = dir_index [OF d i]
  have c: "unat (of_nat SFS_DIRENT_SIZE :: u32) = SFS_DIRENT_SIZE" by (simp add: SFS_DIRENT_SIZE_def)
  have f: "unat (of_nat (i * SFS_DIRENT_SIZE) :: u32) + unat (of_nat SFS_DIRENT_SIZE :: u32) < 2 ^ 32"
    using x(1) d unfolding x(3) c by (simp add: dir_ok_def)
  have di: "is_inode s d" using d by (simp add: dir_ok_def)
  have e: "entry_at s d i = take (unat (of_nat SFS_DIRENT_SIZE :: u32)) (drop (unat (of_nat (i * SFS_DIRENT_SIZE) :: u32)) (contents s (unat d)))"
    unfolding c x(3) entry_at_def by simp
  show ?thesis using read_ok [OF ok di f e] x(2) by simp
qed

lemma unchanged_dir: "unchanged s s' \<Longrightarrow> dir_ok s' d = dir_ok s d \<and> entry_at s' d = entry_at s d \<and> entries s' d = entries s d"
  using unchanged_view [of s s'] by (simp add: dir_ok_def entry_at_def [abs_def] entries_def)

lemma offsets_nat:
  assumes "dir_ok s d"
  shows "dirent_offsets (isize (inode_at s (unat d))) = map (\<lambda>k. of_nat (k * SFS_DIRENT_SIZE)) [0..<fsize s (unat d) div SFS_DIRENT_SIZE]"
proof -
  obtain c where "fsize s (unat d) = SFS_DIRENT_SIZE * c" using assms by (auto simp: dir_ok_def)
  then have "(fsize s (unat d) + SFS_DIRENT_SIZE - 1) div SFS_DIRENT_SIZE = fsize s (unat d) div SFS_DIRENT_SIZE" by (simp add: SFS_DIRENT_SIZE_def)
  then show ?thesis by (simp add: dirent_offsets_def fsize_def)
qed

lemma find_hole_ok:
  assumes "sfs_ok s" and "dir_ok s d" and "\<forall>i \<in> set is. i < fsize s (unat d) div SFS_DIRENT_SIZE"
  shows "\<exists>s'. find_hole d (map (\<lambda>k. of_nat (k * SFS_DIRENT_SIZE)) is) s =
    Some (map_option (\<lambda>k. of_nat (k * SFS_DIRENT_SIZE)) (List.find (\<lambda>i. le32 (entry_at s d i) 0 = 0) is), s') \<and> unchanged s s'"
  using assms
proof (induction "is" arbitrary: s)
  case Nil
  then show ?case using disk_frame_refl envD(1) [OF sfs_okD(1) [OF Nil(1)]] by (auto simp: unchanged_def)
next
  case (Cons i xs)
  have i: "i < fsize s (unat d) div SFS_DIRENT_SIZE" using Cons.prems(3) by simp
  obtain s1 where s1: "sfs_file_read d (of_nat (i * SFS_DIRENT_SIZE)) (of_nat SFS_DIRENT_SIZE) s = Some ((int SFS_DIRENT_SIZE, entry_at s d i), s1)"
      "unchanged s s1" using read_entry [OF Cons.prems(1,2) i] by blast
  have l: "length (entry_at s d i) = SFS_DIRENT_SIZE" "4 \<le> SFS_DIRENT_SIZE" using dir_index(2) [OF Cons.prems(2) i] by (simp_all add: SFS_DIRENT_SIZE_def)
  note v = unchanged_dir [OF s1(2)] unchanged_view [OF s1(2)]
  show ?case
  proof (cases "le32 (entry_at s d i) 0 = 0")
    case True
    then show ?thesis using s1 l by (intro exI [of _ s1]) simp
  next
    case False
    obtain s2 where "find_hole d (map (\<lambda>k. of_nat (k * SFS_DIRENT_SIZE)) xs) s1 =
        Some (map_option (\<lambda>k. of_nat (k * SFS_DIRENT_SIZE)) (List.find (\<lambda>i. le32 (entry_at s1 d i) 0 = 0) xs), s2)" "unchanged s1 s2"
      using Cons.IH [of s1] unchanged_ok [OF s1(2) Cons.prems(1)] v Cons.prems by auto
    then show ?thesis using False s1 l v unchanged_trans [OF s1(2)] by (intro exI [of _ s2]) simp
  qed
qed


text \<open>Writing a whole entry, over an old one or behind the last.\<close>

lemma entries_nth: "i < length (entries s d) \<Longrightarrow> entries s d ! i = entry_at s d i" "length (entries s d) = fsize s (unat d) div SFS_DIRENT_SIZE"
  by (simp_all add: entries_def)

lemma entries_write:
  assumes d: "dir_ok s d" and i: "i \<le> length (entries s d)" and e: "length e = SFS_DIRENT_SIZE"
    and c: "contents s' (unat d) = overwrite (i * SFS_DIRENT_SIZE) e (contents s (unat d))"
  shows "entries s' d = (if i < length (entries s d) then (entries s d)[i := e] else entries s d @ [e])"
proof -
  let ?S = SFS_DIRENT_SIZE and ?c = "contents s (unat d)" and ?n = "length (entries s d)"
  have S: "0 < ?S" by (simp add: SFS_DIRENT_SIZE_def)
  have fn: "length ?c = ?n * ?S" using d by (simp add: entries_nth(2) dir_ok_def)
  have il: "i * ?S \<le> length ?c" using i fn by simp
  have f': "fsize s' (unat d) = max (?n * ?S) ((i + 1) * ?S)"
    using arg_cong [OF c, of length] il e fn by (auto simp: overwrite_def max_def)
  then have n': "length (entries s' d) = max ?n (i + 1)"
  proof -
    have "max (?n * ?S) ((i + 1) * ?S) = max ?n (i + 1) * ?S" by (simp only: nat_mult_max_left)
    then show ?thesis using S f' by (simp only: entries_nth(2)) simp
  qed
  have at: "entry_at s' d j = (if j = i then e else entry_at s d j)" if "j < max ?n (i + 1)" for j
  proof -
    consider "j = i" | "j < i" | "i < j" by linarith
    then show ?thesis
    proof cases
      case 1
      then show ?thesis using il e by (simp add: entry_at_def c overwrite_def)
    next
      case 2
      then have "(j + 1) * ?S \<le> i * ?S" by (intro mult_le_mono1) simp
      then have "take ?S (drop (j * ?S) (overwrite (i * ?S) e ?c)) = take ?S (drop (j * ?S) (take (i * ?S) ?c))"
        using il by (simp add: overwrite_def)
      also have "\<dots> = take ?S (drop (j * ?S) ?c)" using \<open>(j + 1) * ?S \<le> i * ?S\<close> by (simp add: drop_take min_def)
      finally show ?thesis using 2 by (simp add: entry_at_def c)
    next
      case 3
      then have "(i + 1) * ?S \<le> j * ?S" by (intro mult_le_mono1) simp
      then show ?thesis using 3 il e by (simp add: entry_at_def c overwrite_def drop_append add.commute)
    qed
  qed
  show ?thesis
  proof (rule nth_equalityI)
    show "length (entries s' d) = length (if i < ?n then (entries s d)[i := e] else entries s d @ [e])" using n' i by auto
    fix j
    assume "j < length (entries s' d)"
    then have j: "j < max ?n (i + 1)" using n' by simp
    then have "entries s' d ! j = (if j = i then e else entry_at s d j)" using at n' by (simp add: entries_nth(1))
    then show "entries s' d ! j = (if i < ?n then (entries s d)[i := e] else entries s d @ [e]) ! j"
      using j i by (cases "i < ?n") (auto simp: entries_nth(1) nth_append nth_list_update max_def split: if_splits)
  qed
qed

lemma write_dirent:
  assumes ok: "sfs_ok s" and d: "dir_ok s d" and i: "i \<le> length (entries s d)" and e: "length e = SFS_DIRENT_SIZE"
  shows "\<exists>w s'. sfs_file_write d (of_nat (i * SFS_DIRENT_SIZE)) e s = Some (int w, s') \<and> disk_frame s s' \<and> sfs_ok s' \<and> others_kept d s s' \<and>
    itype (inode_at s' (unat d)) = itype (inode_at s (unat d)) \<and>
    (w = SFS_DIRENT_SIZE \<and> entries s' d = (if i < length (entries s d) then (entries s d)[i := e] else entries s d @ [e])
     \<or> w = 0 \<and> contents s' (unat d) = contents s (unat d) \<and> (full s' \<or> FILE_BLOCKS * SFS_BLOCK < (i + 1) * SFS_DIRENT_SIZE) \<and>
       (i < length (entries s d) \<longrightarrow> le32 (entry_at s d i) 0 = 0))"
proof -
  let ?S = SFS_DIRENT_SIZE
  have di: "is_inode s d" and fl: "fsize s (unat d) + ?S < 2 ^ 32" and dv: "?S dvd fsize s (unat d)" using d by (simp_all add: dir_ok_def)
  have il: "i * ?S \<le> fsize s (unat d)" using i dv by (simp add: entries_nth(2)) (metis dvd_div_mult_self mult_le_mono1)
  have u: "unat (of_nat (i * ?S) :: u32) = i * ?S" using il fl by (intro u32_of_nat) simp
  have fits: "unat (of_nat (i * ?S) :: u32) + length e < 2 ^ 32" unfolding u e using il fl by simp
  obtain w s' where r: "sfs_file_write d (of_nat (i * ?S)) e s = Some (int w, s')" "w \<le> length e" "disk_frame s s'" "sfs_ok s'" "others_kept d s s'"
      "w < length e \<longrightarrow> full s' \<or> FILE_BLOCKS * SFS_BLOCK < i * ?S + length e" "w = 0 \<or> w = length e \<or> SFS_BLOCK dvd i * ?S + w"
      "w = 0 \<and> e \<noteq> [] \<longrightarrow> (\<forall>k. k div SFS_BLOCK = i * ?S div SFS_BLOCK \<longrightarrow> fdata s (unat d) k = 0)"
      "\<And>k. fdata s' (unat d) k = (if i * ?S \<le> k \<and> k < i * ?S + w then e ! (k - i * ?S) else fdata s (unat d) k)"
      "fsize s' (unat d) = max (fsize s (unat d)) (i * ?S + w)" "itype (inode_at s' (unat d)) = itype (inode_at s (unat d))"
    using write_ok [OF ok di fits] unfolding u by blast
  have c: "contents s' (unat d) = overwrite (i * ?S) (take w e) (contents s (unat d))"
    using contents_write [OF r(9,10) il r(2)] .
  have "w = 0 \<or> w = ?S"
  proof (rule ccontr)
    assume a: "\<not> (w = 0 \<or> w = ?S)"
    then have "SFS_BLOCK dvd i * ?S + w" using r(7) e by simp
    moreover have "?S dvd SFS_BLOCK" by (simp add: SFS_DIRENT_SIZE_def SFS_BLOCK_def)
    ultimately have "?S dvd i * ?S + w" by (rule dvd_trans [rotated])
    then have "?S dvd w" by (simp add: dvd_add_right_iff)
    then show False using a r(2) e by (auto dest: dvd_imp_le)
  qed
  then show ?thesis
  proof
    assume w0: "w = 0"
    have "le32 (entry_at s d i) 0 = 0" if lt: "i < length (entries s d)"
    proof -
      have le: "(i + 1) * ?S \<le> fsize s (unat d)" using dir_index(1) [OF d] lt by (simp add: entries_nth(2))
      have "entry_at s d i ! (0 + k) = replicate 4 0 ! (0 + k)" if "k < 4" for k
      proof -
        have k: "k < ?S" using that by (simp add: SFS_DIRENT_SIZE_def)
        have "(i * ?S + k) div SFS_BLOCK = i * ?S div SFS_BLOCK" using k by (simp add: SFS_DIRENT_SIZE_def SFS_BLOCK_def)
        then have "fdata s (unat d) (i * ?S + k) = 0" using r(8) w0 e k by auto
        then show ?thesis using le k that by (simp add: entry_at_def contents_def)
      qed
      then have "le32 (entry_at s d i) 0 = le32 (replicate 4 0) 0" by (rule le32_cong)
      then show ?thesis by simp
    qed
    moreover note w0
    moreover have "0 < ?S" by (simp add: SFS_DIRENT_SIZE_def)
    ultimately show ?thesis using r c e by (intro exI [of _ w] exI [of _ s']) (simp add: add.commute)
  next
    assume "w = ?S"
    then show ?thesis using r c e entries_write [OF d i e, of s'] by (intro exI [of _ w] exI [of _ s']) simp
  qed
qed


section \<open>Adding and removing\<close>

lemma entries_contents: "contents s' (unat d) = contents s (unat d) \<Longrightarrow> entries s' d = entries s d"
  by (simp add: entries_def entry_at_def [abs_def]) (metis length_contents)

definition hole_of :: "u8 list list \<Rightarrow> nat option" where
  "hole_of es = List.find (\<lambda>i. le32 (es ! i) 0 = 0) [0..<length es]"

text \<open>The entry of a name: the first one in use that carries it.\<close>

definition name_at :: "cstr \<Rightarrow> u8 list list \<Rightarrow> nat option" where
  "name_at name es = List.find (\<lambda>i. le32 (es ! i) 0 \<noteq> 0 \<and> strcmp (d_name (dirent_of (es ! i))) name = 0) [0..<length es]"

definition add_entry :: "u8 list \<Rightarrow> u8 list list \<Rightarrow> u8 list list" where
  "add_entry e es = (case hole_of es of Some i \<Rightarrow> es[i := e] | None \<Rightarrow> es @ [e])"

lemma length_name_field: "0 < n \<Longrightarrow> length (name_field n name) = n"
  by (auto simp: name_field_def strlcpy_def put_bytes_def Let_def)

lemma new_dirent_bytes: "length (dirent_bytes (new_dirent name child)) = SFS_DIRENT_SIZE"
  by (simp add: dirent_bytes_def new_dirent_def length_name_field SFS_NAME_MAX_def SFS_DIRENT_SIZE_def)

lemma find_cong: "(\<And>x. x \<in> set xs \<Longrightarrow> P x = Q x) \<Longrightarrow> List.find P xs = List.find Q xs"
  by (induction xs) auto

lemma dir_read_inode:
  assumes "sfs_ok s" and "dir_ok s d"
  shows "\<exists>s'. inode_read d s = Some (Some (inode_at s (unat d)), s') \<and> unchanged s s'"
  using inode_read_ok [OF sfs_okD(1) [OF assms(1), of 1], of d] assms(2) by (auto simp: SCRATCH_COUNT_def dir_ok_def is_inode_def unchanged_def)

lemma dir_add_ok:
  assumes ok: "sfs_ok s" and d: "dir_ok s d" and name: "strlen name < SFS_NAME_MAX"
  shows "\<exists>r s'. dir_add d name child s = Some (r, s') \<and> disk_frame s s' \<and> sfs_ok s' \<and> others_kept d s s' \<and>
    itype (inode_at s' (unat d)) = itype (inode_at s (unat d)) \<and>
    (r = 0 \<and> entries s' d = add_entry (dirent_bytes (new_dirent name child)) (entries s d)
     \<or> r = - 1 \<and> entries s' d = entries s d \<and> (full s' \<or> FILE_BLOCKS * SFS_BLOCK < fsize s (unat d) + SFS_DIRENT_SIZE))"
proof -
  let ?e = "dirent_bytes (new_dirent name child)" and ?n = "length (entries s d)" and ?S = SFS_DIRENT_SIZE
  obtain s1 where s1: "inode_read d s = Some (Some (inode_at s (unat d)), s1)" "unchanged s s1" using dir_read_inode [OF ok d] by blast
  note v1 = unchanged_dir [OF s1(2), of d] unchanged_view [OF s1(2)]
  note ok1 = unchanged_ok [OF s1(2) ok]
  have h: "List.find (\<lambda>i. le32 (entry_at s d i) 0 = 0) [0..<?n] = hole_of (entries s d)"
    unfolding hole_of_def by (rule find_cong) (simp add: entries_nth(1))
  obtain s2 where s2: "find_hole d (dirent_offsets (isize (inode_at s (unat d)))) s1 =
      Some (map_option (\<lambda>k. of_nat (k * ?S)) (hole_of (entries s d)), s2)" "unchanged s1 s2"
    using find_hole_ok [OF ok1, of d "[0..<?n]"] d v1 h offsets_nat [OF d] by (auto simp: entries_nth(2))
  have u2: "unchanged s s2" using unchanged_trans [OF s1(2) s2(2)] .
  note v2 = unchanged_dir [OF u2, of d]
  note ok2 = unchanged_ok [OF u2 ok]
  define i where "i = (case hole_of (entries s d) of Some i \<Rightarrow> i | None \<Rightarrow> ?n)"
  have i: "i \<le> ?n" "hole_of (entries s d) \<noteq> None \<Longrightarrow> i < ?n" "hole_of (entries s d) = None \<Longrightarrow> i = ?n"
    by (cases "hole_of (entries s d)"; auto simp: i_def hole_of_def dest: find_upt)+
  have "isize (inode_at s (unat d)) = of_nat (?n * ?S)"
    using d by (simp add: entries_nth(2) dir_ok_def fsize_def)
  then have off: "(case map_option (\<lambda>k. of_nat (k * ?S)) (hole_of (entries s d)) of Some off \<Rightarrow> off | None \<Rightarrow> isize (inode_at s (unat d))) = of_nat (i * ?S)"
    by (simp add: i_def split: option.split)
  have d2: "dir_ok s2 d" and i2: "i \<le> length (entries s2 d)" using d v2 i(1) by simp_all
  obtain w s' where w: "sfs_file_write d (of_nat (i * ?S)) ?e s2 = Some (int w, s')" "disk_frame s2 s'" "sfs_ok s'" "others_kept d s2 s'"
      "itype (inode_at s' (unat d)) = itype (inode_at s2 (unat d))"
      "w = ?S \<and> entries s' d = (if i < length (entries s2 d) then (entries s2 d)[i := ?e] else entries s2 d @ [?e])
       \<or> w = 0 \<and> contents s' (unat d) = contents s2 (unat d) \<and> (full s' \<or> FILE_BLOCKS * SFS_BLOCK < (i + 1) * ?S)"
    using write_dirent [OF ok2 d2 i2 new_dirent_bytes] by blast
  have add: "add_entry ?e (entries s d) = (if i < ?n then (entries s d)[i := ?e] else entries s d @ [?e])"
    using i by (auto simp: add_entry_def i_def split: option.splits)
  have r: "dir_add d name child s = Some (if 0 < w then 0 else - 1, s')"
    using name s1(1) s2(1) off w(1) by (simp add: dir_add_def Let_def)
  have fr: "disk_frame s s'" using disk_frame_trans [OF unchangedD(1) [OF u2] w(2)] .
  have k: "others_kept d s s'" "itype (inode_at s' (unat d)) = itype (inode_at s (unat d))"
    using w(4,5) unchangedD(4,8) [OF u2] unchanged_view [OF u2] by (simp_all add: others_kept_def)
  have le: "(i + 1) * ?S \<le> fsize s (unat d) + ?S" using i(1) d by (simp add: entries_nth(2) dir_ok_def) (metis dvd_div_mult_self mult_le_mono1)
  have S: "0 < ?S" by (simp add: SFS_DIRENT_SIZE_def)
  show ?thesis
  proof (cases "w = 0")
    case True
    then have "entries s' d = entries s d" "full s' \<or> FILE_BLOCKS * SFS_BLOCK < fsize s (unat d) + ?S"
      using w(6) S entries_contents [of s' d s2] v2 le by auto
    then show ?thesis using r fr w(3) k True by auto
  next
    case False
    then have "entries s' d = add_entry ?e (entries s d)" using w(6) add v2 by auto
    then show ?thesis using r fr w(3) k False by auto
  qed
qed

lemma dir_remove_loop_ok:
  assumes "sfs_ok s" and "dir_ok s d" and "\<forall>i \<in> set is. i < length (entries s d)"
  shows "\<exists>r s'. dir_remove_loop d name (map (\<lambda>k. of_nat (k * SFS_DIRENT_SIZE)) is) s = Some (r, s') \<and> disk_frame s s' \<and> sfs_ok s' \<and>
    others_kept d s s' \<and> itype (inode_at s' (unat d)) = itype (inode_at s (unat d)) \<and>
    (case List.find (\<lambda>i. le32 (entry_at s d i) 0 \<noteq> 0 \<and> strcmp (d_name (dirent_of (entry_at s d i))) name = 0) is of
       Some i \<Rightarrow> r = 0 \<and> entries s' d = (entries s d)[i := replicate SFS_DIRENT_SIZE 0]
     | None \<Rightarrow> r = - 1 \<and> unchanged s s')"
  using assms
proof (induction "is" arbitrary: s)
  case Nil
  have "unchanged s s" using disk_frame_refl envD(1) [OF sfs_okD(1) [OF Nil(1), of 0]] by (simp add: unchanged_def)
  then show ?case using Nil unchangedD(1) by (auto simp: others_kept_def)
next
  case (Cons i xs)
  let ?S = SFS_DIRENT_SIZE
  have i: "i < length (entries s d)" using Cons.prems(3) by simp
  obtain s1 where s1: "sfs_file_read d (of_nat (i * ?S)) (of_nat ?S) s = Some ((int ?S, entry_at s d i), s1)"
      "unchanged s s1" using read_entry [OF Cons.prems(1,2)] i by (auto simp: entries_nth(2))
  have l: "length (entry_at s d i) = ?S" "0 < ?S" using dir_index(2) [OF Cons.prems(2)] i by (simp_all add: entries_nth(2) SFS_DIRENT_SIZE_def)
  note v = unchanged_dir [OF s1(2), of d] unchanged_view [OF s1(2)]
  note u = unchangedD [OF s1(2)]
  note ok1 = unchanged_ok [OF s1(2) Cons.prems(1)]
  have di: "d_inode (dirent_of (entry_at s d i)) = le32 (entry_at s d i) 0" by (simp add: dirent_of_def)
  have d1: "dir_ok s1 d" "i \<le> length (entries s1 d)" using Cons.prems(2) v i by simp_all
  let ?P = "\<lambda>i. le32 (entry_at s d i) 0 \<noteq> 0 \<and> strcmp (d_name (dirent_of (entry_at s d i))) name = 0"
  have ok': "others_kept d s s2" if "others_kept d s1 s2" for s2 using that u(4,8) v by (simp add: others_kept_def)
  show ?case
  proof (cases "?P i")
    case True
    obtain w s2 where w: "sfs_file_write d (of_nat (i * ?S)) (replicate ?S 0) s1 = Some (int w, s2)" "disk_frame s1 s2" "sfs_ok s2" "others_kept d s1 s2"
        "itype (inode_at s2 (unat d)) = itype (inode_at s1 (unat d))"
        "w = ?S \<and> entries s2 d = (if i < length (entries s1 d) then (entries s1 d)[i := replicate ?S 0] else entries s1 d @ [replicate ?S 0])
         \<or> w = 0 \<and> (i < length (entries s1 d) \<longrightarrow> le32 (entry_at s1 d i) 0 = 0)"
      using write_dirent [OF ok1 d1, of "replicate ?S 0"] by auto
    have "entries s2 d = (entries s d)[i := replicate ?S 0]" using w(6) True v i by auto
    moreover have "dir_remove_loop d name (map (\<lambda>k. of_nat (k * ?S)) (i # xs)) s = Some (0, s2)" using s1(1) l True w(1) di by simp
    moreover have "disk_frame s s2" using disk_frame_trans [OF u(1) w(2)] .
    ultimately show ?thesis using True w(3-5) ok' u(8) by (intro exI [of _ 0] exI [of _ s2]) simp
  next
    case False
    have v1: "entries s1 d = entries s d" "entry_at s1 d = entry_at s d" using v by simp_all
    have all: "\<forall>j \<in> set xs. j < length (entries s1 d)" using Cons.prems(3) v1 by simp
    obtain r s2 where IH: "dir_remove_loop d name (map (\<lambda>k. of_nat (k * ?S)) xs) s1 = Some (r, s2)" "disk_frame s1 s2" "sfs_ok s2" "others_kept d s1 s2"
        "itype (inode_at s2 (unat d)) = itype (inode_at s1 (unat d))"
        "case List.find ?P xs of Some i \<Rightarrow> r = 0 \<and> entries s2 d = (entries s d)[i := replicate ?S 0] | None \<Rightarrow> r = - 1 \<and> unchanged s1 s2"
      using Cons.IH [OF ok1 d1(1) all, unfolded v1] by blast
    have "dir_remove_loop d name (map (\<lambda>k. of_nat (k * ?S)) (i # xs)) s = Some (r, s2)" using s1(1) l False IH(1) di by auto
    moreover have "disk_frame s s2" using disk_frame_trans [OF u(1) IH(2)] .
    ultimately show ?thesis
      using False IH(3-6) ok' u(8) unchanged_trans [OF s1(2)] by (intro exI [of _ r] exI [of _ s2]) (auto split: option.splits)
  qed
qed

lemma dir_remove_ok:
  assumes ok: "sfs_ok s" and d: "dir_ok s d"
  shows "\<exists>r s'. dir_remove d name s = Some (r, s') \<and> disk_frame s s' \<and> sfs_ok s' \<and> others_kept d s s' \<and>
    itype (inode_at s' (unat d)) = itype (inode_at s (unat d)) \<and>
    (case name_at name (entries s d) of
       Some i \<Rightarrow> r = 0 \<and> entries s' d = (entries s d)[i := replicate SFS_DIRENT_SIZE 0]
     | None \<Rightarrow> r = - 1 \<and> unchanged s s')"
proof -
  obtain s1 where s1: "inode_read d s = Some (Some (inode_at s (unat d)), s1)" "unchanged s s1" using dir_read_inode [OF ok d] by blast
  note v = unchanged_dir [OF s1(2), of d] unchanged_view [OF s1(2)]
  note u = unchangedD [OF s1(2)]
  have h: "List.find (\<lambda>i. le32 (entry_at s d i) 0 \<noteq> 0 \<and> strcmp (d_name (dirent_of (entry_at s d i))) name = 0) [0..<length (entries s d)] =
      name_at name (entries s d)"
    unfolding name_at_def by (rule find_cong) (simp add: entries_nth(1))
  have v1: "entries s1 d = entries s d" "entry_at s1 d = entry_at s d" and d1: "dir_ok s1 d" using v d by simp_all
  have all: "\<forall>i \<in> set [0..<length (entries s d)]. i < length (entries s1 d)" using v1 by simp
  have offs: "map (\<lambda>k. of_nat (k * SFS_DIRENT_SIZE)) [0..<length (entries s d)] = dirent_offsets (isize (inode_at s (unat d)))"
    by (simp only: entries_nth(2) offsets_nat [OF d])
  obtain r s' where r: "dir_remove_loop d name (dirent_offsets (isize (inode_at s (unat d)))) s1 = Some (r, s')" "disk_frame s1 s'" "sfs_ok s'"
      "others_kept d s1 s'" "itype (inode_at s' (unat d)) = itype (inode_at s1 (unat d))"
      "case name_at name (entries s d) of Some i \<Rightarrow> r = 0 \<and> entries s' d = (entries s d)[i := replicate SFS_DIRENT_SIZE 0] | None \<Rightarrow> r = - 1 \<and> unchanged s1 s'"
    using dir_remove_loop_ok [OF unchanged_ok [OF s1(2) ok] d1 all, where name = name, unfolded v1 h offs] by blast
  have "dir_remove d name s = Some (r, s')" using s1(1) r(1) by (simp add: dir_remove_def)
  moreover have "others_kept d s s'" using r(4) u(4,8) v by (simp add: others_kept_def)
  ultimately show ?thesis
    using r(2,3,5,6) disk_frame_trans [OF u(1)] u(8) unchanged_trans [OF s1(2)] by (intro exI [of _ r] exI [of _ s']) (auto split: option.splits)
qed

section \<open>Inodes that are created and deleted\<close>

lemma zero_inode_props: "inode_ok zero_inode" "i < SFS_DIRECT \<Longrightarrow> direct zero_inode ! i = 0" "indirect zero_inode = 0"
  by (simp_all add: zero_inode_def inode_ok_def)

text \<open>An inode without pointers is an empty file whatever was there before.\<close>

lemma clear_pointers:
  assumes ok: "disk_ok s I" and ino: "direct ino = replicate SFS_DIRECT 0" "indirect ino = 0" "inode_ok ino"
  shows "disk_ok s (I(n := ino))" and "fbyte (I(n := ino)) (dblk s) q k = (if q = n then 0 else fbyte I (dblk s) q k)"
proof -
  have p: "ptr (I(n := ino)) (dblk s) q i = (if q = n then 0 else ptr I (dblk s) q i)" for q i
    using ino by (auto simp: ptr_def)
  have "well (I(n := ino)) (dblk s) (\<lambda>x. data_used s x \<and> True) (unat (inode_count (super s)))"
    using disk_okD(5) [OF ok] ino(3) p by (intro well_remove [OF disk_okD(4) [OF ok]]) auto
  then show "disk_ok s (I(n := ino))" using ok by (simp add: disk_ok_def)
  show "fbyte (I(n := ino)) (dblk s) q k = (if q = n then 0 else fbyte I (dblk s) q k)" using p by (auto simp: fbyte_def)
qed

lemma used_count_simps [simp]: "disk_ok (s\<lparr>inodes_used := c\<rparr>) = disk_ok s" "inode_at (s\<lparr>inodes_used := c\<rparr>) = inode_at s"
  "dblk (s\<lparr>inodes_used := c\<rparr>) = dblk s" "full (s\<lparr>inodes_used := c\<rparr>) = full s"
proof -
  show d: "dblk (s\<lparr>inodes_used := c\<rparr>) = dblk s" by (intro HOL.ext) (simp add: dblk_def)
  have "bitmap (s\<lparr>inodes_used := c\<rparr>) = bitmap s" "super (s\<lparr>inodes_used := c\<rparr>) = super s" by simp_all
  from disk_ok_cong [OF d this] show "disk_ok (s\<lparr>inodes_used := c\<rparr>) = disk_ok s" "inode_at (s\<lparr>inodes_used := c\<rparr>) = inode_at s"
    "full (s\<lparr>inodes_used := c\<rparr>) = full s" by blast+
qed

lemma used_count_ok: "sfs_ok (s\<lparr>inodes_used := c\<rparr>) = sfs_ok s"
  by (simp add: sfs_ok_def env_def pool_free_def layout_def data_start_def)

text \<open>The inode table after inode \<open>n\<close> has become \<open>ino\<close>, an inode without blocks.\<close>

definition made_empty :: "u32 \<Rightarrow> sfs_inode \<Rightarrow> sfs \<Rightarrow> sfs \<Rightarrow> bool" where
  "made_empty n ino s s' \<longleftrightarrow> sfs_ok s' \<and> others_kept n s s' \<and> inode_at s' (unat n) = ino \<and> (\<forall>k. fdata s' (unat n) k = 0)"

lemma write_empty_inode:
  assumes ok: "sfs_ok s" and n: "is_inode s n" and ino: "direct ino = replicate SFS_DIRECT 0" "indirect ino = 0" "inode_ok ino"
  shows "\<exists>s'. inode_write n ino s = Some (0, s') \<and> disk_frame s s' \<and> made_empty n ino s s'"
proof -
  let ?I = "(inode_at s)(unat n := ino)"
  have e: "env 1 s" using sfs_okD(1) [OF ok] by (simp add: SCRATCH_COUNT_def)
  note c = clear_pointers [OF sfs_okD(2) [OF ok] ino, of "unat n"]
  note n' = is_inode_nat [OF n]
  obtain s' where s': "inode_write n ino s = Some (0, s')" "disk_frame s s'" "disk_ok s' (inode_at s')"
      "\<forall>q. 1 \<le> q \<longrightarrow> inode_at s' q = (if q = unat n then ino else inode_at s q)"
      "\<forall>q k. 1 \<le> q \<and> q \<le> unat (inode_count (super s)) \<longrightarrow> fdata s' q k = fbyte ?I (dblk s) q k"
    using store_inode [OF e c(1) n, of ino] ino by auto
  have "sfs_ok s'" using disk_frame_env [OF _ s'(2)] ok s'(3) by (simp add: sfs_ok_def)
  moreover have "others_kept n s s'" using s'(4,5) c(2) by (simp add: others_kept_def fun_eq_iff fdata_def)
  ultimately show ?thesis using s' c(2) n' by (auto simp: made_empty_def)
qed

lemma alloc_loop_ok:
  assumes "sfs_ok s" and "\<forall>q \<in> set ns. is_inode s q"
  shows "\<exists>s'. (case List.find (\<lambda>q. itype (inode_at s (unat q)) = SFS_TYPE_FREE) ns of
      None \<Rightarrow> alloc_inode_loop ns ty s = Some (0, s') \<and> unchanged s s'
    | Some q \<Rightarrow> alloc_inode_loop ns ty s = Some (q, s') \<and> inodes_used s' = inodes_used s + 1 \<and> disk_frame s (s'\<lparr>inodes_used := inodes_used s\<rparr>) \<and>
        made_empty q (zero_inode\<lparr>itype := ty, links := 1, created := now_seconds s, modified := now_seconds s\<rparr>) s s')"
  using assms
proof (induction ns arbitrary: s)
  case Nil
  then show ?case using disk_frame_refl envD(1) [OF sfs_okD(1) [OF Nil(1), of 0]] by (auto simp: unchanged_def)
next
  case (Cons q ns)
  have q: "is_inode s q" using Cons.prems(2) by simp
  obtain s1 where s1: "inode_read q s = Some (Some (inode_at s (unat q)), s1)" "unchanged s s1"
    using inode_read_ok [OF sfs_okD(1) [OF Cons.prems(1), of 1], of q] q by (auto simp: SCRATCH_COUNT_def is_inode_def unchanged_def)
  note u = unchangedD [OF s1(2)] and v = unchanged_view [OF s1(2)]
  note ok1 = unchanged_ok [OF s1(2) Cons.prems(1)]
  have now: "now_seconds s1 = now_seconds s" using u(1) by (simp add: now_seconds_def disk_frame_def)
  show ?case
  proof (cases "itype (inode_at s (unat q)) = SFS_TYPE_FREE")
    case True
    let ?ino = "zero_inode\<lparr>itype := ty, links := 1, created := now_seconds s, modified := now_seconds s\<rparr>"
    have "is_inode s1 q" using q v by simp
    moreover have "direct ?ino = replicate SFS_DIRECT 0" "indirect ?ino = 0" "inode_ok ?ino" by (simp_all add: zero_inode_def inode_ok_def)
    ultimately obtain s2 where s2: "inode_write q ?ino s1 = Some (0, s2)" "disk_frame s1 s2" "made_empty q ?ino s1 s2"
      using write_empty_inode [OF ok1] by blast
    let ?s3 = "s2\<lparr>inodes_used := inodes_used s2 + 1\<rparr>"
    have iu: "inodes_used s2 = inodes_used s" using s2(2) u(1) by (simp add: disk_frame_def)
    have r: "alloc_inode_loop (q # ns) ty s = Some (q, ?s3)" using s1(1) True s2(1) now by simp
    have "disk_frame s (?s3\<lparr>inodes_used := inodes_used s\<rparr>)" using disk_frame_trans [OF u(1) s2(2)] iu by (simp add: disk_frame_def)
    moreover have "made_empty q ?ino s ?s3"
      using s2(3) u(4,8) v by (auto simp: made_empty_def others_kept_def used_count_ok fdata_def [abs_def])
    ultimately show ?thesis using True r iu by (intro exI [of _ ?s3]) simp
  next
    case False
    have all: "\<forall>q \<in> set ns. is_inode s1 q" using Cons.prems(2) v by simp
    obtain s2 where s2: "case List.find (\<lambda>q. itype (inode_at s (unat q)) = SFS_TYPE_FREE) ns of
        None \<Rightarrow> alloc_inode_loop ns ty s1 = Some (0, s2) \<and> unchanged s1 s2
      | Some q \<Rightarrow> alloc_inode_loop ns ty s1 = Some (q, s2) \<and> inodes_used s2 = inodes_used s1 + 1 \<and> disk_frame s1 (s2\<lparr>inodes_used := inodes_used s1\<rparr>) \<and>
          made_empty q (zero_inode\<lparr>itype := ty, links := 1, created := now_seconds s, modified := now_seconds s\<rparr>) s1 s2"
      using Cons.IH [OF ok1 all, unfolded u(8) now] by blast
    have step: "alloc_inode_loop (q # ns) ty s = alloc_inode_loop ns ty s1" using s1(1) False by simp
    have iu: "inodes_used s1 = inodes_used s" using u(1) by (simp add: disk_frame_def)
    have me: "made_empty x ino s s2" if "made_empty x ino s1 s2" for x ino using that u(4,8) v by (simp add: made_empty_def others_kept_def)
    show ?thesis
    proof (cases "List.find (\<lambda>q. itype (inode_at s (unat q)) = SFS_TYPE_FREE) ns")
      case None
      then show ?thesis using s2 False step unchanged_trans [OF s1(2)] by (intro exI [of _ s2]) simp
    next
      case (Some x)
      then show ?thesis using s2 False step me iu disk_frame_trans [OF u(1)] by (intro exI [of _ s2]) simp
    qed
  qed
qed

end
