(* ===== verification/SfsSpec.thy ===== *)
theory SfsSpec
  imports SfsDir CNames Sched
begin

text \<open>
  What the file system promises: each operation on the contents of files and the entries of directories, from every consistent volume,
  and a small volume on which the hypotheses hold.
\<close>

unbundle bit_operations_syntax

section \<open>A small volume\<close>

text \<open>Eight blocks: superblock, bitmap, inode table with an empty root directory and an empty file, and five free blocks.\<close>

definition sample_super :: sfs_super where
  "sample_super = \<lparr>sb_magic = SFS_MAGIC, sb_version = SFS_VERSION, block_size = 4096, total_blocks = 8, bitmap_start = 1, bitmap_blocks = 1,
     inode_start = 2, inode_blocks = 1, inode_count = 2, root_inode = 1, free_blocks = 5, label = replicate 32 0\<rparr>"

definition sample_byte :: "nat \<Rightarrow> u8" where
  "sample_byte a = (if a < 76 then super_bytes sample_super ! a else if a = 4096 then 7 else if a = 8192 then 2 else if a = 8320 then 1 else 0)"

definition sample_drive :: drive where
  "sample_drive = \<lparr>present = True, model = [], sectors = 64, medium = sample_byte, status = (\<lambda>_. 0x48), status_reads = 0, identify = [],
     reg_drive = 0, reg_count = 0, reg_low = 0, reg_mid = 0, reg_high = 0\<rparr>"

definition sample_sfs :: sfs where
  "sample_sfs = \<lparr>ker = boot_sys, drive = sample_drive, partition_lba = 0, super = sample_super, bitmap = 7 # replicate 4095 0, mounted = True,
     inodes_used = 2, scratch_pool = [1, 2, 3, 4], scratch_busy = replicate 4 False\<rparr>"

lemma sample_length: "length (super_bytes sample_super) = 76"
  by code_simp

lemma sample_dblk: "i < 4096 \<Longrightarrow> dblk sample_sfs b ! i = sample_byte (4096 * b + i)"
  by (simp add: dblk_def medium_bytes_def sample_sfs_def sample_drive_def SECTOR_SIZE_def SFS_BLOCK_def algebra_simps)

lemma sample_env: "env SCRATCH_COUNT sample_sfs"
proof -
  have "answers sample_drive" by (auto simp: answers_def sample_drive_def STATUS_ERR_def STATUS_DF_def STATUS_BUSY_def STATUS_DRQ_def intro: exI [of _ 0])
  moreover have "pool_free 4 sample_sfs" by (simp add: pool_free_def sample_sfs_def SCRATCH_COUNT_def)
  moreover have "layout sample_sfs"
    by (simp add: layout_def data_start_def sample_sfs_def sample_super_def SFS_BLOCK_def SFS_INODES_PER_BLOCK_def)
  ultimately show ?thesis by (simp add: env_def SCRATCH_COUNT_def sample_sfs_def)
qed

lemma sample_inodes: "inode_at sample_sfs 1 = zero_inode\<lparr>itype := 2\<rparr>" "inode_at sample_sfs 2 = zero_inode\<lparr>itype := 1\<rparr>"
proof -
  have i: "inode_of (2 # replicate 127 0) = zero_inode\<lparr>itype := 2\<rparr>" "inode_of (1 # replicate 127 0) = zero_inode\<lparr>itype := 1\<rparr>"
    by code_simp+
  have a: "take 128 (drop 0 (dblk sample_sfs 2)) = 2 # replicate 127 0"
    by (rule nth_equalityI) (auto simp: SFS_BLOCK_def sample_dblk sample_byte_def nth_Cons')
  have b: "take 128 (drop 128 (dblk sample_sfs 2)) = 1 # replicate 127 0"
    by (rule nth_equalityI) (auto simp: SFS_BLOCK_def sample_dblk sample_byte_def nth_Cons')
  show "inode_at sample_sfs 1 = zero_inode\<lparr>itype := 2\<rparr>" "inode_at sample_sfs 2 = zero_inode\<lparr>itype := 1\<rparr>"
    using a b i by (simp_all add: inode_at_def SFS_INODE_SIZE_def SFS_INODES_PER_BLOCK_def sample_sfs_def sample_super_def)
qed

lemma sample_bits: "bm_test b (7 # replicate 4095 0) \<longleftrightarrow> unat b < 3" if "unat b < 8"
proof -
  have "bit (7 :: u8) k \<longleftrightarrow> k < 3" if "k < 8" for k
    using that by (auto simp: numeral_eq_Suc less_Suc_eq bit_Suc)
  then show ?thesis using that by (simp add: bm_test_def)
qed

lemma sample_disk: "disk_ok sample_sfs (inode_at sample_sfs)"
proof -
  have s: "super sample_sfs = sample_super" "bitmap sample_sfs = 7 # replicate 4095 0" by (simp_all add: sample_sfs_def)
  have k: "total_blocks sample_super = 8" "inode_count sample_super = 2" "bitmap_blocks sample_super = 1" "bitmap_start sample_super = 1"
    "inode_start sample_super = 2" "inode_blocks sample_super = 1" "free_blocks sample_super = 5" by (simp_all add: sample_super_def)
  have "dblk sample_sfs 0 = super_image sample_sfs"
    by (rule nth_equalityI) (auto simp: super_image_def s put_at_def sample_length zero_block_def SFS_BLOCK_def sample_dblk sample_byte_def nth_append)
  moreover have "dblk sample_sfs 1 = bitmap_image sample_sfs 0"
    by (rule nth_equalityI) (auto simp: bitmap_image_def s SFS_BLOCK_def sample_dblk sample_byte_def nth_Cons')
  ultimately have p: "persistent sample_sfs" by (simp add: persistent_def s k)
  have m: "meta_used sample_sfs" using sample_bits by (auto simp: meta_used_def data_start_def s k)
  have "{b :: u32. b < 8 \<and> \<not> bm_test b (7 # replicate 4095 0)} = {3, 4, 5, 6, 7}"
  proof (intro set_eqI)
    fix b :: u32
    have "b \<in> {3, 4, 5, 6, 7} \<longleftrightarrow> unat b \<in> {3, 4, 5, 6, 7}" by (auto simp: word_unat_eq_iff)
    then show "b \<in> {b. b < 8 \<and> \<not> bm_test b (7 # replicate 4095 0)} \<longleftrightarrow> b \<in> {3, 4, 5, 6, 7}"
      using sample_bits [of b] by (auto simp: word_less_nat_alt)
  qed
  then have c: "counted_free sample_sfs" by (simp add: counted_free_def s k)
  have "ptr (inode_at sample_sfs) (dblk sample_sfs) n i = 0" if "n \<in> {1..2}" for n i
  proof -
    have "n = 1 \<or> n = 2" using that by auto
    then show ?thesis using sample_inodes by (auto simp: ptr_def zero_inode_def)
  qed
  then have "well (inode_at sample_sfs) (dblk sample_sfs) (data_used sample_sfs) 2" by (auto simp: well_def)
  then show ?thesis using p m c by (simp add: disk_ok_def s k)
qed

lemma sample_ok: "sfs_ok sample_sfs" "is_inode sample_sfs 1" "is_inode sample_sfs 2" "dir_ok sample_sfs 1" "contents sample_sfs 1 = []" "contents sample_sfs 2 = []"
proof -
  have c: "inode_count (super sample_sfs) = 2" by (simp add: sample_sfs_def sample_super_def)
  show "sfs_ok sample_sfs" using sample_env sample_disk by (simp add: sfs_ok_def)
  show i: "is_inode sample_sfs 1" "is_inode sample_sfs 2" by (simp_all add: is_inode_def c)
  have z: "isize zero_inode = 0" by (simp add: zero_inode_def)
  show "contents sample_sfs 1 = []" "contents sample_sfs 2 = []" using sample_inodes z by (simp_all add: contents_def fsize_def)
  show "dir_ok sample_sfs 1" using i sample_inodes z by (simp add: dir_ok_def fsize_def SFS_DIRENT_SIZE_def)
qed

section \<open>Files\<close>

lemma sample_not_full: "\<not> full sample_sfs"
proof -
  have "\<not> bm_test 3 (bitmap sample_sfs)" using sample_bits [of 3] by (simp add: sample_sfs_def)
  moreover have "(3 :: u32) < total_blocks (super sample_sfs)" by (simp add: sample_sfs_def sample_super_def)
  ultimately show ?thesis by (auto simp: full_def)
qed

lemma sample_write: "\<exists>s1. sfs_file_write 2 0 [104, 105] sample_sfs = Some (int (length ([104, 105] :: u8 list)), s1)"
proof -
  have f: "unat (0 :: u32) + length ([104, 105] :: u8 list) < 2 ^ 32" by simp
  obtain w s' where w: "sfs_file_write 2 0 [104, 105] sample_sfs = Some (int w, s')" "w \<le> 2" "w = 0 \<or> w = 2 \<or> SFS_BLOCK dvd w" "w \<noteq> 0"
    using write_ok [OF sample_ok(1,3) f] sample_not_full by (auto simp: SFS_DIRECT_def)
  have "w = 2" using w(2,3,4) by (auto simp: SFS_BLOCK_def dest: dvd_imp_le)
  then show ?thesis using w(1) by auto
qed

text \<open>
  C11: a write that starts inside or at the end of a file replaces the bytes it covers by the first bytes of the data and keeps all others,
  of this and of every other file; the volume stays consistent.  It is cut short only when the volume is full or the file would grow
  beyond what an inode can describe, and then at the end of a block; a write to the first twelve blocks stores something unless the volume was full
  before.
\<close>

theorem sfs_write_correct:
  assumes "sfs_ok s" and "is_inode s n" and "unat off \<le> length (contents s (unat n))" and "unat off + length dat < 2 ^ 32"
  shows "\<exists>w s'. sfs_file_write n off dat s = Some (int w, s') \<and> w \<le> length dat \<and> sfs_ok s' \<and> others_kept n s s' \<and>
    contents s' (unat n) = overwrite (unat off) (take w dat) (contents s (unat n)) \<and>
    (w < length dat \<longrightarrow> full s' \<or> FILE_BLOCKS * SFS_BLOCK < unat off + length dat) \<and>
    (w = 0 \<or> w = length dat \<or> SFS_BLOCK dvd unat off + w) \<and>
    (w = 0 \<and> dat \<noteq> [] \<and> unat off div SFS_BLOCK < SFS_DIRECT \<longrightarrow> full s)"
proof -
  obtain w s' where w: "sfs_file_write n off dat s = Some (int w, s')" "w \<le> length dat" "sfs_ok s'" "others_kept n s s'"
      "w < length dat \<longrightarrow> full s' \<or> FILE_BLOCKS * SFS_BLOCK < unat off + length dat" "w = 0 \<or> w = length dat \<or> SFS_BLOCK dvd unat off + w"
      "\<forall>k. fdata s' (unat n) k = (if unat off \<le> k \<and> k < unat off + w then dat ! (k - unat off) else fdata s (unat n) k)"
      "fsize s' (unat n) = max (fsize s (unat n)) (unat off + w)" "w = 0 \<and> dat \<noteq> [] \<and> unat off div SFS_BLOCK < SFS_DIRECT \<longrightarrow> full s"
    using write_ok [OF assms(1,2,4)] by blast
  have "contents s' (unat n) = overwrite (unat off) (take w dat) (contents s (unat n))"
    using contents_write [of s' "unat n" "unat off" w dat s] w(2,7,8) assms(3) by simp
  then show ?thesis using w by blast
qed

theorem sfs_write_correct_witness:
  "\<exists>s'. sfs_file_write 2 0 [104, 105] sample_sfs = Some (2, s') \<and> sfs_ok s' \<and> contents s' 2 = [104, 105]"
proof -
  have f: "unat (0 :: u32) + length ([104, 105] :: u8 list) < 2 ^ 32" by simp
  obtain w s' where w: "sfs_file_write 2 0 [104, 105] sample_sfs = Some (int w, s')" "w \<le> 2" "sfs_ok s'" "w = 0 \<or> w = 2 \<or> SFS_BLOCK dvd w" "w \<noteq> 0"
      "contents s' 2 = overwrite 0 (take w [104, 105]) []"
    using sfs_write_correct [OF sample_ok(1,3) _ f] sample_ok(6) sample_not_full by (auto simp: SFS_DIRECT_def)
  have "w = 2" using w(2,4,5) by (auto simp: SFS_BLOCK_def dest: dvd_imp_le)
  then show ?thesis using w by (auto simp: overwrite_def)
qed

text \<open>
  C12: reading a range of a file returns the bytes of its contents in that range, fewer when the file ends before, and changes neither the volume nor
  its bookkeeping.
\<close>

theorem sfs_read_correct:
  assumes "sfs_ok s" and "is_inode s n" and "unat off + unat cnt < 2 ^ 32"
  shows "\<exists>bs s'. sfs_file_read n off cnt s = Some ((int (length bs), bs), s') \<and> bs = take (unat cnt) (drop (unat off) (contents s (unat n))) \<and>
    sfs_ok s' \<and> unchanged s s'"
  using read_ok [OF assms refl] unchanged_ok [OF _ assms(1)] by blast

theorem sfs_read_correct_witness:
  "\<exists>s'. sfs_file_read 2 5 7 sample_sfs = Some ((0, []), s') \<and> sfs_ok s'"
  using sfs_read_correct [OF sample_ok(1,3), of 5 7] sample_ok(6) by auto

text \<open>C13: what a complete write has stored, a read of the same range returns, wherever in the file the range lies.\<close>

theorem sfs_write_read:
  assumes "sfs_ok s" and "is_inode s n" and "unat off + length dat < 2 ^ 32" and "sfs_file_write n off dat s = Some (int (length dat), s1)"
  shows "\<exists>s2. sfs_file_read n off (of_nat (length dat)) s1 = Some ((int (length dat), dat), s2)"
proof -
  have w: "disk_frame s s1" "sfs_ok s1"
      "\<forall>k. fdata s1 (unat n) k = (if unat off \<le> k \<and> k < unat off + length dat then dat ! (k - unat off) else fdata s (unat n) k)"
      "fsize s1 (unat n) = max (fsize s (unat n)) (unat off + length dat)"
    using write_ok [OF assms(1-3)] assms(4) by auto
  have i: "is_inode s1 n" using assms(2) disk_frame_super(6) [OF w(1)] by (simp add: is_inode_def)
  have c: "unat (of_nat (length dat) :: u32) = length dat" using assms(3) by (simp add: unsigned_of_nat take_bit_eq_mod)
  have "dat = take (length dat) (drop (unat off) (contents s1 (unat n)))"
    by (rule nth_equalityI) (auto simp: contents_def w(3,4))
  then show ?thesis using read_ok [OF w(2) i, of off "of_nat (length dat)" dat] assms(3) c by auto
qed

theorem sfs_write_read_witness:
  "\<exists>s1 s2. sfs_file_write 2 0 [104, 105] sample_sfs = Some (2, s1) \<and> sfs_file_read 2 0 2 s1 = Some ((2, [104, 105]), s2)"
proof -
  obtain s1 where s1: "sfs_file_write 2 0 [104, 105] sample_sfs = Some (int (length ([104, 105] :: u8 list)), s1)" using sample_write by blast
  show ?thesis using sfs_write_read [OF sample_ok(1,3) _ s1] s1 by auto
qed



section \<open>Directories\<close>

text \<open>The inode a directory has under a name: that of the first entry in use which carries it.\<close>

definition entry_is :: "cstr \<Rightarrow> u8 list \<Rightarrow> bool" where
  "entry_is name e \<longleftrightarrow> le32 e 0 \<noteq> 0 \<and> text_of (d_name (dirent_of e)) = text_of name"

definition dir_lookup :: "cstr \<Rightarrow> u8 list list \<Rightarrow> u32 option" where
  "dir_lookup name es = map_option (\<lambda>e. le32 e 0) (List.find (entry_is name) es)"

definition unique_names :: "u8 list list \<Rightarrow> bool" where
  "unique_names es \<longleftrightarrow> (\<forall>i j name. i < length es \<and> j < length es \<and> entry_is name (es ! i) \<and> entry_is name (es ! j) \<longrightarrow> i = j)"

lemma find_update: "i < length xs \<Longrightarrow> \<not> P (xs ! i) \<Longrightarrow> \<not> P e \<Longrightarrow> List.find P (xs[i := e]) = List.find P xs"
  "i < length xs \<Longrightarrow> List.find P xs = None \<Longrightarrow> P e \<Longrightarrow> List.find P (xs[i := e]) = Some e"
  "List.find P (xs @ [e]) = (case List.find P xs of Some x \<Rightarrow> Some x | None \<Rightarrow> if P e then Some e else None)"
proof -
  show "i < length xs \<Longrightarrow> \<not> P (xs ! i) \<Longrightarrow> \<not> P e \<Longrightarrow> List.find P (xs[i := e]) = List.find P xs"
    by (induction xs arbitrary: i) (auto split: nat.splits simp: nth_Cons')
  show "i < length xs \<Longrightarrow> List.find P xs = None \<Longrightarrow> P e \<Longrightarrow> List.find P (xs[i := e]) = Some e"
    by (induction xs arbitrary: i) (auto split: nat.splits if_splits)
  show "List.find P (xs @ [e]) = (case List.find P xs of Some x \<Rightarrow> Some x | None \<Rightarrow> if P e then Some e else None)"
    by (induction xs) auto
qed

lemma name_at_is: "name_at name es = List.find (\<lambda>i. entry_is name (es ! i)) [0..<length es]"
  by (simp add: name_at_def entry_is_def strcmp_eq_0)

lemma find_index: "List.find (\<lambda>i. P (es ! i)) [0..<length es] = Some i \<Longrightarrow> i < length es \<and> P (es ! i)"
  "List.find (\<lambda>i. P (es ! i)) [0..<length es] = None \<Longrightarrow> List.find P es = None"
proof -
  show "List.find (\<lambda>i. P (es ! i)) [0..<length es] = Some i \<Longrightarrow> i < length es \<and> P (es ! i)" by (auto simp: find_Some_iff)
  show "List.find (\<lambda>i. P (es ! i)) [0..<length es] = None \<Longrightarrow> List.find P es = None"
    by (auto simp: find_None_iff in_set_conv_nth)
qed

lemma new_entry: "le32 (dirent_bytes (new_dirent name child)) 0 = child"
  "strlen name < SFS_NAME_MAX \<Longrightarrow> text_of (d_name (dirent_of (dirent_bytes (new_dirent name child)))) = text_of name"
proof -
  have l: "length (name_field SFS_NAME_MAX name) = SFS_NAME_MAX" by (simp add: length_name_field SFS_NAME_MAX_def)
  have b: "bytes_of [child, x] = le_bytes child @ le_bytes x" for x by (simp add: bytes_of_def)
  show "le32 (dirent_bytes (new_dirent name child)) 0 = child"
    using le32_cong [of "dirent_bytes (new_dirent name child)" 0 "le_bytes child" 0] by (simp add: dirent_bytes_def new_dirent_def b nth_append)
  have "d_name (dirent_of (dirent_bytes (new_dirent name child))) = name_field SFS_NAME_MAX name"
    using l by (simp add: dirent_of_def dirent_bytes_def new_dirent_def b)
  then show "strlen name < SFS_NAME_MAX \<Longrightarrow> text_of (d_name (dirent_of (dirent_bytes (new_dirent name child)))) = text_of name"
    using text_name_field [of name SFS_NAME_MAX] by (simp add: name_field_def strlcpy_def Let_def)
qed

lemma hole_index: "hole_of es = Some i \<Longrightarrow> i < length es \<and> le32 (es ! i) 0 = 0"
  by (auto simp: hole_of_def find_Some_iff)

lemma lookup_add:
  assumes "strlen name < SFS_NAME_MAX" and "child \<noteq> 0"
  shows "text_of x \<noteq> text_of name \<Longrightarrow> dir_lookup x (add_entry (dirent_bytes (new_dirent name child)) es) = dir_lookup x es"
    and "dir_lookup name es = None \<Longrightarrow> dir_lookup name (add_entry (dirent_bytes (new_dirent name child)) es) = Some child"
proof -
  let ?e = "dirent_bytes (new_dirent name child)"
  have e: "entry_is x ?e \<longleftrightarrow> text_of x = text_of name" for x using new_entry assms by (auto simp: entry_is_def)
  have h: "\<not> entry_is x (es ! i)" "i < length es" if "hole_of es = Some i" for x i using hole_index [OF that] by (simp_all add: entry_is_def)
  show "dir_lookup x (add_entry ?e es) = dir_lookup x es" if "text_of x \<noteq> text_of name"
    using h e that by (cases "hole_of es") (auto simp: dir_lookup_def add_entry_def find_update(1,3) split: option.splits)
  show "dir_lookup name (add_entry ?e es) = Some child" if "dir_lookup name es = None"
    using h e that new_entry(1)
    by (cases "hole_of es") (auto simp: dir_lookup_def add_entry_def find_update(2,3) split: option.splits)
qed

text \<open>
  C15: entering a name in a directory leaves the volume and every other file intact.  When it succeeds, the directory has the new inode under the
  name, unless the name was there before, and every other name leads where it did; it fails only when the volume is full or the directory cannot grow,
  and then changes no entry.
\<close>

theorem dir_add_correct:
  assumes "sfs_ok s" and "dir_ok s d" and "strlen name < SFS_NAME_MAX" and "child \<noteq> 0"
  shows "\<exists>r s'. dir_add d name child s = Some (r, s') \<and> sfs_ok s' \<and> others_kept d s s' \<and>
    (r = 0 \<and> (\<forall>x. text_of x \<noteq> text_of name \<longrightarrow> dir_lookup x (entries s' d) = dir_lookup x (entries s d)) \<and>
       (dir_lookup name (entries s d) = None \<longrightarrow> dir_lookup name (entries s' d) = Some child)
     \<or> r = - 1 \<and> entries s' d = entries s d \<and> (full s' \<or> FILE_BLOCKS * SFS_BLOCK < fsize s (unat d) + SFS_DIRENT_SIZE))"
proof -
  obtain r s' where r: "dir_add d name child s = Some (r, s')" "sfs_ok s'" "others_kept d s s'"
      "r = 0 \<and> entries s' d = add_entry (dirent_bytes (new_dirent name child)) (entries s d)
       \<or> r = - 1 \<and> entries s' d = entries s d \<and> (full s' \<or> FILE_BLOCKS * SFS_BLOCK < fsize s (unat d) + SFS_DIRENT_SIZE)"
    using dir_add_ok [OF assms(1-3), of child] by blast
  from r(4) show ?thesis
  proof (elim disjE conjE)
    assume a: "r = 0" "entries s' d = add_entry (dirent_bytes (new_dirent name child)) (entries s d)"
    note l = lookup_add [OF assms(3,4), where es = "entries s d", folded a(2)]
    show ?thesis using r(1-3) a(1) l by (intro exI [of _ r] exI [of _ s'] conjI disjI1 allI impI) simp_all
  qed (use r(1-3) in blast)+
qed

theorem dir_add_correct_witness:
  "\<exists>r s'. dir_add 1 [97, 0] 2 sample_sfs = Some (r, s') \<and> sfs_ok s' \<and> (r = 0 \<and> dir_lookup [97, 0] (entries s' 1) = Some 2 \<or> r = - 1 \<and> entries s' 1 = entries sample_sfs 1)"
proof -
  have n: "strlen [97, 0] < SFS_NAME_MAX" "(2 :: u32) \<noteq> 0" by (simp_all add: SFS_NAME_MAX_def)
  have "dir_lookup [97, 0] (entries sample_sfs 1) = None" using sample_ok(5) by (simp add: dir_lookup_def entries_def contents_def)
  then show ?thesis using dir_add_correct [OF sample_ok(1,4) n] by blast
qed

text \<open>
  C18: removing a name from a directory fails exactly when no entry in use carries it, and then nothing changes; otherwise the entry is cleared, every other
  name leads where it did, and if names are unique the name is gone.  All other files are kept.
\<close>

theorem dir_remove_correct:
  assumes "sfs_ok s" and "dir_ok s d"
  shows "\<exists>r s'. dir_remove d name s = Some (r, s') \<and> sfs_ok s' \<and> others_kept d s s' \<and>
    (if dir_lookup name (entries s d) = None then r = - 1 \<and> unchanged s s'
     else r = 0 \<and> (\<forall>x. text_of x \<noteq> text_of name \<longrightarrow> dir_lookup x (entries s' d) = dir_lookup x (entries s d)) \<and>
       (unique_names (entries s d) \<longrightarrow> dir_lookup name (entries s' d) = None))"
proof -
  obtain r s' where r: "dir_remove d name s = Some (r, s')" "sfs_ok s'" "others_kept d s s'"
      "case name_at name (entries s d) of Some i \<Rightarrow> r = 0 \<and> entries s' d = (entries s d)[i := replicate SFS_DIRENT_SIZE 0] | None \<Rightarrow> r = - 1 \<and> unchanged s s'"
    using dir_remove_ok [OF assms, of name] by blast
  have z: "\<not> entry_is x (replicate SFS_DIRENT_SIZE 0)" for x by (simp add: entry_is_def SFS_DIRENT_SIZE_def)
  have "if dir_lookup name (entries s d) = None then r = - 1 \<and> unchanged s s'
     else r = 0 \<and> (\<forall>x. text_of x \<noteq> text_of name \<longrightarrow> dir_lookup x (entries s' d) = dir_lookup x (entries s d)) \<and>
       (unique_names (entries s d) \<longrightarrow> dir_lookup name (entries s' d) = None)"
  proof (cases "name_at name (entries s d)")
    case None
    then show ?thesis using r(4) find_index(2) [OF None [unfolded name_at_is]] by (simp add: dir_lookup_def)
  next
    case (Some i)
    have i: "i < length (entries s d)" "entry_is name (entries s d ! i)" using find_index(1) [OF Some [unfolded name_at_is]] by blast+
    have e: "r = 0" "entries s' d = (entries s d)[i := replicate SFS_DIRENT_SIZE 0]" using r(4) Some by simp_all
    have "dir_lookup name (entries s d) \<noteq> None" using i by (auto simp: dir_lookup_def find_None_iff in_set_conv_nth)
    moreover have "dir_lookup x (entries s' d) = dir_lookup x (entries s d)" if "text_of x \<noteq> text_of name" for x
    proof -
      have "\<not> entry_is x (entries s d ! i)" using i(2) that by (simp add: entry_is_def)
      then show ?thesis using find_update(1) [OF i(1), where P = "entry_is x" and e = "replicate SFS_DIRENT_SIZE 0"] z e(2) by (simp add: dir_lookup_def)
    qed
    moreover have "dir_lookup name (entries s' d) = None" if "unique_names (entries s d)"
      using that i z e(2) by (auto simp: dir_lookup_def find_None_iff in_set_conv_nth nth_list_update unique_names_def)
    ultimately show ?thesis using e(1) by simp
  qed
  then show ?thesis using r(1-3) by blast
qed

theorem dir_remove_correct_witness:
  "\<exists>s'. dir_remove 1 [97, 0] sample_sfs = Some (- 1, s') \<and> sfs_ok s'"
proof -
  have "dir_lookup [97, 0] (entries sample_sfs 1) = None" using sample_ok(5) by (simp add: dir_lookup_def entries_def contents_def)
  then show ?thesis using dir_remove_correct [OF sample_ok(1,4), of "[97, 0]"] by auto
qed

end
