(* ===== verification/RamfsSpec.thy ===== *)
theory RamfsSpec
  imports Ramfs SfsSpec
begin

text \<open>
  What the RAM file system promises: reading, writing and truncating on the contents of files, on every well-formed heap, with all other files kept.
\<close>

unbundle bit_operations_syntax

section \<open>Files\<close>

lemma sint_small32: "unat w < 2 ^ 31 \<Longrightarrow> sint w = int (unat w)" for w :: u32
proof -
  assume a: "unat w < 2 ^ 31"
  have "int (unat w) < int (2 ^ 31)" using a by (simp only: of_nat_less_iff)
  then have "uint w < 2 ^ 31" by simp
  then show ?thesis using int_word_sint [of "uint w", where 'a = 32] uint_ge_0 [of w] by (simp add: mod_pos_pos_trivial flip: wi_hom_syms)
qed

text \<open>A file of the RAM file system and its contents.\<close>

definition ram_file :: "cell list \<Rightarrow> fs \<Rightarrow> u32 \<Rightarrow> bool" where
  "ram_file cs v p \<longleftrightarrow> heap_ok (heap_of v) cs \<and> backend (nodes v p) \<noteq> 0 \<and> ram_ok cs (ram v (backend (nodes v p))) \<and>
     nsize (nodes v p) \<le> capacity (ram v (backend (nodes v p)))"

definition ram_contents :: "fs \<Rightarrow> u32 \<Rightarrow> u8 list" where
  "ram_contents v p = map (rbyte v (backend (nodes v p))) [0..<unat (nsize (nodes v p))]"

text \<open>What an operation on the file of \<open>p\<close> leaves alone: every other node, and the contents of every other file, whose buffer is another block.\<close>

definition other_files_kept :: "u32 \<Rightarrow> cell list \<Rightarrow> fs \<Rightarrow> fs \<Rightarrow> bool" where
  "other_files_kept p cs v v' \<longleftrightarrow> (\<forall>q. q \<noteq> p \<longrightarrow> nodes v' q = nodes v q) \<and>
     (\<forall>q. ram_file cs v q \<and> backend (nodes v q) \<noteq> backend (nodes v p) \<and>
        (capacity (ram v (backend (nodes v q))) = 0 \<or> rbytes (ram v (backend (nodes v q))) \<noteq> rbytes (ram v (backend (nodes v p)))) \<longrightarrow>
        ram_contents v' q = ram_contents v q)"

lemma frame_other:
  assumes f: "buf_frame (backend (nodes v p)) v cs v' cs'" and n: "\<And>q. q \<noteq> p \<Longrightarrow> nodes v' q = nodes v q"
  shows "other_files_kept p cs v v'"
  unfolding other_files_kept_def
proof (rule conjI; intro allI impI; (elim conjE)?)
  fix q
  let ?d = "backend (nodes v p)" and ?e = "backend (nodes v q)"
  assume q: "ram_file cs v q" "?e \<noteq> ?d" and b: "capacity (ram v ?e) = 0 \<or> rbytes (ram v ?e) \<noteq> rbytes (ram v ?d)"
  have nq: "nodes v' q = nodes v q" using n q(2) by (cases "q = p") auto
  have re: "ram v' ?e = ram v ?e" using f q(2) by (simp add: buf_frame_def)
  have "rbyte v' ?e i = rbyte v ?e i" if i: "i < unat (nsize (nodes v q))" for i
  proof -
    have h: "heap_ok (heap_of v) cs" and ic: "i < unat (capacity (ram v ?e))" using q(1) i by (auto simp: ram_file_def word_le_nat_alt)
    then have "capacity (ram v ?e) \<noteq> 0" by auto
    then obtain s where s: "capacity (ram v ?e) \<le> s" "(rbytes (ram v ?e), s) \<in> live_blocks cs" using q(1) by (auto simp: ram_file_def ram_ok_def)
    have ne: "rbytes (ram v ?e) \<noteq> rbytes (ram v ?d)" using b ic by auto
    have "i < 2 ^ 32" using ic unat_lt2p [of "capacity (ram v ?e)"] by simp
    then have "unat (of_nat i :: u32) < unat s" using ic s(1) by (simp add: word_le_nat_alt unsigned_of_nat take_bit_eq_mod)
    then have "payload (rbytes (ram v ?e), s) (rbytes (ram v ?e) + of_nat i)"
      using offset_payload [of "rbytes (ram v ?e)" s "rbytes (ram v ?e) + of_nat i"] live_bounds [OF h s(2)] by simp
    moreover have "(rbytes (ram v ?e), s) \<in> live_blocks cs - own cs (ram v ?d)" using s(2) ne by (simp add: own_def)
    ultimately show ?thesis using f unfolding buf_frame_def contents_kept_def rbyte_def re by blast
  qed
  then show "ram_contents v' q = ram_contents v q" by (simp add: ram_contents_def nq)
qed (use n in simp)

text \<open>
  C34: a write to a RAM file that starts inside the file or at its end replaces exactly the bytes it covers, growing the buffer as needed, and returns their number;
  otherwise it returns -1 and the contents are what they were.  In both cases heap and descriptor stay well formed and every other file is kept.
\<close>

theorem ramfs_write_correct:
  assumes "ram_file cs v p" and "unat off \<le> length (ram_contents v p)" and "unat off + length dat < 2 ^ 32" and "length dat < 2 ^ 31"
  shows "\<exists>r v' cs'. ramfs_write p off dat v = Some (r, v') \<and> ram_file cs' v' p \<and> other_files_kept p cs v v' \<and>
    (r = int (length dat) \<and> ram_contents v' p = overwrite (unat off) dat (ram_contents v p) \<or> r = - 1 \<and> ram_contents v' p = ram_contents v p)"
proof -
  let ?d = "backend (nodes v p)" and ?n = "of_nat (length dat) :: u32"
  have h: "heap_ok (heap_of v) cs" and d: "?d \<noteq> 0" and r: "ram_ok cs (ram v ?d)" and sz: "nsize (nodes v p) \<le> capacity (ram v ?d)"
    using assms(1) by (simp_all add: ram_file_def)
  have un: "unat ?n = length dat" using assms(4) by (simp add: unsigned_of_nat take_bit_eq_mod)
  have sum: "unat (off + ?n) = unat off + length dat" using assms(3) un by (subst unat_plus_simple) simp_all
  have sn: "sint ?n = int (length dat)" using assms(4) by (subst sint_small32) (simp_all add: un)
  obtain e v1 cs1 where e: "ensure_capacity ?d (off + ?n) v = Some (e, v1)" "nodes v1 = nodes v" "buf_frame ?d v cs v1 cs1"
      "\<And>i. i < unat (capacity (ram v ?d)) \<Longrightarrow> rbyte v1 ?d i = rbyte v ?d i"
      "e = - 1 \<and> ram v1 ?d = ram v ?d \<or> e = 0 \<and> off + ?n \<le> capacity (ram v1 ?d) \<and> capacity (ram v ?d) \<le> capacity (ram v1 ?d)"
    using ensure_ok [OF h r, of "off + ?n"] by blast
  have h1: "heap_ok (heap_of v1) cs1" "ram_ok cs1 (ram v1 ?d)" using e(3) by (simp_all add: buf_frame_def)
  have old: "rbyte v1 ?d i = rbyte v ?d i" if "i < unat (nsize (nodes v p))" for i using e(4) that sz by (simp add: word_le_nat_alt)
  from e(5) show ?thesis
  proof (elim disjE conjE)
    assume a: "e = - 1" "ram v1 ?d = ram v ?d"
    have "ramfs_write p off dat v = Some (- 1, v1)" using d e(1) a(1) by (simp add: ramfs_write_def)
    moreover have "ram_file cs1 v1 p" using h1 e(2) d a(2) sz by (simp add: ram_file_def)
    moreover have "ram_contents v1 p = ram_contents v p" using old e(2) by (simp add: ram_contents_def)
    ultimately show ?thesis using frame_other [OF e(3)] e(2) by auto
  next
    assume a: "e = 0" "off + ?n \<le> capacity (ram v1 ?d)" "capacity (ram v ?d) \<le> capacity (ram v1 ?d)"
    define v2 where "v2 = set_heap ((heap_of v1)\<lparr>kmem := store_mem (rbytes (ram v1 ?d) + off) dat (kmem (heap_of v1))\<rparr>) v1"
    define v' where "v' = (if nsize (nodes v2 p) < off + ?n then upd_node p (\<lambda>nd. nd\<lparr>nsize := off + ?n\<rparr>) v2 else v2)"
    have fit: "unat off + length dat \<le> unat (capacity (ram v1 ?d))" using a(2) sum by (simp add: word_le_nat_alt)
    note s = store_range [OF h1 fit v2_def]
    have run: "ramfs_write p off dat v = Some (int (length dat), v')"
      using d e(1) a(1) sn by (simp add: ramfs_write_def Let_def v2_def v'_def)
    have n2: "nodes v2 = nodes v" by (simp add: v2_def e(2))
    have v': "heap_of v' = heap_of v2" "ram v' = ram v2" "\<And>q. q \<noteq> p \<Longrightarrow> nodes v' q = nodes v q" "backend (nodes v' p) = ?d"
      "nsize (nodes v' p) = (if nsize (nodes v p) < off + ?n then off + ?n else nsize (nodes v p))"
      by (simp_all add: v'_def n2)
    have f: "buf_frame ?d v cs v' cs1" using buf_frame_trans [OF e(3) s(1)] by (simp add: buf_frame_def v')
    have c2: "ram v2 = ram v1" by (simp add: v2_def)
    have len: "unat (nsize (nodes v' p)) = max (unat (nsize (nodes v p))) (unat off + length dat)"
      unfolding v'(5) using sum by (auto simp: word_less_nat_alt)
    have "nsize (nodes v' p) \<le> capacity (ram v1 ?d)" using a(2,3) sz by (auto simp: v'(5) intro: order_trans)
    then have "ram_file cs1 v' p" using f d by (simp add: ram_file_def buf_frame_def v' c2)
    moreover have "ram_contents v' p = overwrite (unat off) dat (ram_contents v p)"
    proof (rule nth_equalityI)
      show "length (ram_contents v' p) = length (overwrite (unat off) dat (ram_contents v p))"
        using len assms(2) by (simp add: ram_contents_def overwrite_def)
      fix i
      assume "i < length (ram_contents v' p)"
      then have i: "i < max (unat (nsize (nodes v p))) (unat off + length dat)" using len by (simp add: ram_contents_def)
      moreover have ic: "i < unat (capacity (ram v1 ?d))" using i fit sz a(3) by (auto simp: word_le_nat_alt)
      ultimately have "ram_contents v' p ! i = (if unat off \<le> i \<and> i < unat off + length dat then dat ! (i - unat off) else rbyte v1 ?d i)"
        using len s(2) [OF ic] by (simp add: ram_contents_def rbyte_def v')
      then show "ram_contents v' p ! i = overwrite (unat off) dat (ram_contents v p) ! i"
        using i old assms(2) by (auto simp: overwrite_def ram_contents_def nth_append min_def)
    qed
    ultimately show ?thesis using run frame_other [OF f v'(3)] by blast
  qed
qed

text \<open>
  reading a RAM file returns the bytes of its contents in the range asked for, fewer at the end of the file.
\<close>

lemma ramfs_read_correct:
  assumes "ram_file cs v p" and "unat off + unat n < 2 ^ 32"
  shows "ramfs_read p off n v = (let bs = take (unat n) (drop (unat off) (ram_contents v p)) in (int (length bs), bs))"
proof -
  let ?d = "backend (nodes v p)" and ?s = "nsize (nodes v p)"
  have "unat (capacity (ram v ?d)) \<le> 2 ^ 22"
  proof (cases "capacity (ram v ?d) = 0")
    case False
    then obtain k where "k \<le> 16" "unat (capacity (ram v ?d)) = 64 * 2 ^ k" using assms(1) by (auto simp: ram_file_def ram_ok_def)
    moreover have "64 * 2 ^ k \<le> (64 :: nat) * 2 ^ 16" using calculation(1) by (intro mult_le_mono power_increasing) simp_all
    ultimately show ?thesis by simp
  qed simp
  then have small: "unat ?s < 2 ^ 31" using assms(1) by (simp add: ram_file_def word_le_nat_alt)
  show ?thesis
  proof (cases "?s \<le> off")
    case True
    then have "length (ram_contents v p) \<le> unat off" by (simp add: ram_contents_def word_le_nat_alt)
    then show ?thesis using True by (simp add: ramfs_read_def)
  next
    case False
    define n1 where "n1 = (if ?s < off + n then ?s - off else n)"
    have lt: "unat off < unat ?s" using False by (simp add: word_le_nat_alt)
    have sum: "unat (off + n) = unat off + unat n" using assms(2) by (subst unat_plus_simple) simp_all
    have n1: "unat n1 = min (unat n) (unat ?s - unat off)"
      using lt sum by (auto simp: n1_def word_less_nat_alt unat_sub word_le_nat_alt)
    have "load_mem (kmem (heap_of v)) (rbytes (ram v ?d) + off) n1 = take (unat n) (drop (unat off) (ram_contents v p))"
    proof (rule nth_equalityI)
      fix i
      assume "i < length (load_mem (kmem (heap_of v)) (rbytes (ram v ?d) + off) n1)"
      then have i: "i < unat n1" "i < unat n" "unat off + i < unat ?s" using n1 by (auto simp: load_mem_def)
      then show "load_mem (kmem (heap_of v)) (rbytes (ram v ?d) + off) n1 ! i = take (unat n) (drop (unat off) (ram_contents v p)) ! i"
        by (simp add: load_mem_def ram_contents_def rbyte_def add.assoc)
    qed (simp add: load_mem_def ram_contents_def n1)
    moreover have "sint n1 = int (unat n1)" using n1 small by (intro sint_small32) simp
    moreover have "length (take (unat n) (drop (unat off) (ram_contents v p))) = unat n1" using n1 by (simp add: ram_contents_def min_def)
    ultimately show ?thesis
      using False assms(1) by (simp add: ramfs_read_def Let_def n1_def [symmetric] ram_file_def)
  qed
qed

text \<open>
  Truncating a RAM file to a smaller size keeps the bytes below it; extending it appends zeros, or fails and leaves the contents as they were.  Every other file is kept.
\<close>

lemma ramfs_truncate_correct:
  assumes "ram_file cs v p"
  shows "\<exists>r v' cs'. ramfs_truncate p n v = Some (r, v') \<and> ram_file cs' v' p \<and> other_files_kept p cs v v' \<and>
    (r = 0 \<and> ram_contents v' p = take (unat n) (ram_contents v p) @ replicate (unat n - length (ram_contents v p)) 0 \<or>
     r = - 1 \<and> length (ram_contents v p) < unat n \<and> ram_contents v' p = ram_contents v p)"
proof -
  let ?d = "backend (nodes v p)" and ?s = "nsize (nodes v p)"
  have h: "heap_ok (heap_of v) cs" and d: "?d \<noteq> 0" and r: "ram_ok cs (ram v ?d)" and sz: "?s \<le> capacity (ram v ?d)"
    using assms by (simp_all add: ram_file_def)
  have l: "length (ram_contents v p) = unat ?s" by (simp add: ram_contents_def)
  show ?thesis
  proof (cases "?s < n")
    case False
    let ?v = "upd_node p (\<lambda>nd. nd\<lparr>nsize := n\<rparr>) v"
    have f: "buf_frame ?d v cs ?v cs" using h r by (simp add: buf_frame_def contents_kept_def)
    have "ramfs_truncate p n v = Some (0, ?v)" using d False by (simp add: ramfs_truncate_def)
    moreover have "ram_file cs ?v p" using h r d sz False by (auto simp: ram_file_def not_less intro: order_trans)
    moreover have "other_files_kept p cs v ?v" using frame_other [OF f] by simp
    moreover have "ram_contents ?v p = take (unat n) (ram_contents v p) @ replicate (unat n - length (ram_contents v p)) 0"
      using False by (intro nth_equalityI) (auto simp: ram_contents_def rbyte_def not_less word_le_nat_alt)
    ultimately show ?thesis by blast
  next
    case True
    obtain e v1 cs1 where e: "ensure_capacity ?d n v = Some (e, v1)" "nodes v1 = nodes v" "buf_frame ?d v cs v1 cs1"
        "\<And>i. i < unat (capacity (ram v ?d)) \<Longrightarrow> rbyte v1 ?d i = rbyte v ?d i"
        "e = - 1 \<and> ram v1 ?d = ram v ?d \<or> e = 0 \<and> n \<le> capacity (ram v1 ?d) \<and> capacity (ram v ?d) \<le> capacity (ram v1 ?d)"
      using ensure_ok [OF h r, of n] by blast
    have h1: "heap_ok (heap_of v1) cs1" "ram_ok cs1 (ram v1 ?d)" using e(3) by (simp_all add: buf_frame_def)
    have old: "rbyte v1 ?d i = rbyte v ?d i" if "i < unat ?s" for i using e(4) that sz by (simp add: word_le_nat_alt)
    have un: "unat ?s < unat n" using True by (simp add: word_less_nat_alt)
    from e(5) show ?thesis
    proof (elim disjE conjE)
      assume a: "e = - 1" "ram v1 ?d = ram v ?d"
      have "ramfs_truncate p n v = Some (- 1, v1)" using d e(1) a(1) True by (simp add: ramfs_truncate_def)
      moreover have "ram_file cs1 v1 p" using h1 e(2) d a(2) sz by (simp add: ram_file_def)
      moreover have "ram_contents v1 p = ram_contents v p" using old e(2) by (simp add: ram_contents_def)
      ultimately show ?thesis using frame_other [OF e(3)] e(2) un l by auto
    next
      assume a: "e = 0" "n \<le> capacity (ram v1 ?d)" "capacity (ram v ?d) \<le> capacity (ram v1 ?d)"
      define v2 where "v2 = set_heap ((heap_of v1)\<lparr>kmem := memset (rbytes (ram v1 ?d) + ?s) 0 (n - ?s) (kmem (heap_of v1))\<rparr>) v1"
      let ?v = "upd_node p (\<lambda>nd. nd\<lparr>nsize := n\<rparr>) v2"
      note s = clear_range [OF h1 less_imp_le [OF True] a(2) v2_def]
      have n2: "nodes v2 = nodes v" "ram v2 = ram v1" by (simp_all add: v2_def e(2))
      have f: "buf_frame ?d v cs ?v cs1" using buf_frame_trans [OF e(3) s(1)] by (simp add: buf_frame_def)
      have "ramfs_truncate p n v = Some (0, ?v)" using d e(1) a(1) True by (simp add: ramfs_truncate_def Let_def v2_def)
      moreover have "ram_file cs1 ?v p" using f d a(2) n2 by (simp add: ram_file_def buf_frame_def)
      moreover have "other_files_kept p cs v ?v" using frame_other [OF f] n2 by simp
      moreover have "ram_contents ?v p = take (unat n) (ram_contents v p) @ replicate (unat n - length (ram_contents v p)) 0"
      proof (rule nth_equalityI)
        show "length (ram_contents ?v p) = length (take (unat n) (ram_contents v p) @ replicate (unat n - length (ram_contents v p)) 0)"
          using un by (simp add: ram_contents_def)
        fix i
        assume "i < length (ram_contents ?v p)"
        then have i: "i < unat n" by (simp add: ram_contents_def)
        then have ic: "i < unat (capacity (ram v1 ?d))" using a(2) by (simp add: word_le_nat_alt)
        have "ram_contents ?v p ! i = rbyte v2 ?d i" using i by (simp add: ram_contents_def n2 rbyte_def)
        then show "ram_contents ?v p ! i = (take (unat n) (ram_contents v p) @ replicate (unat n - length (ram_contents v p)) 0) ! i"
          using s(2) [OF ic] i un old [of i] by (simp add: nth_append ram_contents_def)
      qed
      ultimately show ?thesis by blast
    qed
  qed
qed

section \<open>A small file\<close>

definition sample_fs :: fs where
  "sample_fs = \<lparr>disk = sample_sfs, nodes = (\<lambda>_. zero_node)(64 := zero_node\<lparr>ntype := FS_FILE, backend := 32, nops := Some Ramfs_ops\<rparr>),
     ram = (\<lambda>_. \<lparr>rbytes = 0, capacity = 0\<rparr>), vroot = 0, node_count = 1\<rparr>"

lemma sample_file: "ram_file [first_cell 65516] sample_fs 64" "ram_contents sample_fs 64 = []"
  using sample_heap_ok
  by (simp_all add: ram_file_def ram_ok_def ram_contents_def sample_fs_def sample_sfs_def heap_of_def boot_sys_def zero_node_def)

theorem ramfs_write_correct_witness:
  "\<exists>r v' cs'. ramfs_write 64 0 [104, 105] sample_fs = Some (r, v') \<and> ram_file cs' v' 64 \<and>
     (r = 2 \<and> ram_contents v' 64 = [104, 105] \<or> r = - 1 \<and> ram_contents v' 64 = [])"
proof -
  have "unat (0 :: u32) \<le> length (ram_contents sample_fs 64)" "unat (0 :: u32) + length ([104, 105] :: u8 list) < 2 ^ 32"
    "length ([104, 105] :: u8 list) < 2 ^ 31" by simp_all
  from ramfs_write_correct [OF sample_file(1) this] show ?thesis by (auto simp: sample_file(2) overwrite_def)
qed

end
