(* ===== verification/VfsSpec.thy ===== *)
theory VfsSpec
  imports VfsTree RamfsSpec
begin

text \<open>
  What the virtual file system promises: looking a path up follows its names through the tree, and creating a node makes exactly its path lead somewhere new.
\<close>

unbundle bit_operations_syntax

section \<open>Looking paths up\<close>

text \<open>A working directory as the kernel keeps it: none, or the text of a list of names; names that \<^verbatim>\<open>vfs_abspath\<close> produces are never dots.\<close>

definition plain :: "cstr \<Rightarrow> bool" where
  "plain s \<longleftrightarrow> good_seg s \<and> s \<noteq> [DOT] \<and> s \<noteq> [DOT, DOT]"

definition is_cwd :: "cstr option \<Rightarrow> cstr list \<Rightarrow> bool" where
  "is_cwd cwd0 names \<longleftrightarrow> (\<forall>s \<in> set names. plain s) \<and> length (dir_text names) < FS_PATH_MAX \<and>
     (cwd0 = None \<and> names = [] \<or> (\<exists>z. cwd0 = Some (dir_text names @ 0 # z)))"

lemma resolve_plain: "\<forall>s \<in> set names. plain s \<Longrightarrow> \<forall>s \<in> set path. good_seg s \<Longrightarrow> s \<in> set (resolve names path) \<Longrightarrow> plain s"
proof (induction path arbitrary: names)
  case (Cons x path)
  have "\<forall>s \<in> set (seg_step x names). plain s" using Cons.prems(1,2) by (auto simp: seg_step_def plain_def dest: in_set_butlastD)
  then show ?case using Cons by (simp add: resolve_def)
qed (simp add: resolve_def)

lemma resolve_self: "\<forall>s \<in> set path. plain s \<Longrightarrow> resolve names path = names @ path"
  by (induction path arbitrary: names) (auto simp: resolve_def seg_step_def plain_def)

lemma abspath_of:
  assumes c: "is_cwd cwd0 names" and call: "vfs_abspath cwd0 path (replicate FS_PATH_MAX 0) FS_PATH_MAX = (r, out')"
  shows "r = 0 \<and> segs out' = resolved names path \<and> (\<forall>s \<in> set (resolved names path). plain s) \<and> strlen out' < length out' \<and> length out' = FS_PATH_MAX \<and>
      (\<exists>b. take (strlen out') out' = (if resolved names path = [] then [SLASH] else slash_if b @ path_of (resolved names path)))
    \<or> r = - 1 \<and> FS_PATH_MAX \<le> length (dir_text names) + length path + 1"
proof -
  let ?ns = "if hd0 path = SLASH then [] else names"
  have g: "\<forall>s \<in> set names. good_seg s" and l: "length (dir_text names) < FS_PATH_MAX" using c by (auto simp: is_cwd_def plain_def)
  obtain b where st: "abspath_start cwd0 path = Some (slash_if b @ path_of ?ns)" and le: "length (slash_if b @ path_of ?ns) \<le> length (dir_text names)"
  proof (cases "cwd0 = None")
    case True
    then have "names = []" using c by (simp add: is_cwd_def)
    then show ?thesis using that [of False] True abspath_from(2) [of path] by (simp add: slash_if_def)
  next
    case False
    then obtain z where z: "cwd0 = Some (dir_text names @ 0 # z)" using c by (auto simp: is_cwd_def)
    show ?thesis using that [of "hd0 path \<noteq> SLASH \<and> names = []"] abspath_from(1) [OF g l] unfolding z by (simp add: slash_if_def dir_text_def)
  qed
  have g': "\<forall>s \<in> set ?ns. good_seg s" using g by simp
  have pl: "plain s" if "s \<in> set (resolve ?ns (segs path))" for s
  proof -
    have "\<forall>s \<in> set ?ns. plain s" using c by (auto simp: is_cwd_def)
    then show ?thesis using resolve_plain [of ?ns "segs path" s] segs_good that by blast
  qed
  have len: "length (replicate FS_PATH_MAX (0 :: u8)) = FS_PATH_MAX" by simp
  from abspath_core [OF st g' le_less_trans [OF le l] len call] pl le show ?thesis
    unfolding resolved_def by (elim disjE conjE) auto
qed

text \<open>
  C16: looking a path up in a well-formed tree always returns, and returns the node that following the names of the path leads to, from the working directory or from the
  root, or NULL when a name is missing on the way.  The one other answer, NULL for a path that is too long, needs directory and path together longer than the buffer.
\<close>

theorem vfs_lookup_correct:
  assumes "tree_ok (nodes v) (vroot v) S K" and "is_cwd cwd0 names"
  shows "vfs_lookup cwd0 path v = Some (follow (nodes v) K (vroot v) (resolved names path)) \<or>
    vfs_lookup cwd0 path v = Some 0 \<and> FS_PATH_MAX \<le> length (dir_text names) + length path + 1"
proof -
  obtain r out' where call: "vfs_abspath cwd0 path (replicate FS_PATH_MAX 0) FS_PATH_MAX = (r, out')" by (metis surj_pair)
  have "lookup_loop (nodes v) (vroot v) out' = Some (follow (nodes v) K (vroot v) (segs out'))"
    using lookup_loop_ok [OF assms(1) tree_okD(1) [OF assms(1)]] .
  then show ?thesis using abspath_of [OF assms(2) call] call by (auto simp: vfs_lookup_def)
qed

section \<open>Creating nodes\<close>

text \<open>Only links, names and types of nodes matter for the tree.\<close>

lemma tree_ok_cong:
  assumes same: "\<And>p. nname (ns' p) = nname (ns p) \<and> ntype (ns' p) = ntype (ns p) \<and> nparent (ns' p) = nparent (ns p) \<and>
      first_child (ns' p) = first_child (ns p) \<and> next_sibling (ns' p) = next_sibling (ns p)"
    and K: "\<And>d. d \<in> S \<Longrightarrow> K' d = K d" and t: "tree_ok ns rt S K"
  shows "tree_ok ns' rt S K'"
proof -
  have c: "chain ns' c ps = chain ns c ps" for c ps using same by (intro chain_cong) simp
  have b: "by_name ns' ps = by_name ns ps" for ps using same by (simp add: by_name_def)
  have f: "finite S" using t unfolding tree_ok_def by blast
  obtain dep :: "u32 \<Rightarrow> nat" where "\<forall>d \<in> S. \<forall>c \<in> set (K d). dep c = Suc (dep d)" using t unfolding tree_ok_def by blast
  then have "\<forall>d \<in> S. \<forall>c \<in> set (K' d). dep c = Suc (dep d)" using K by simp
  moreover have "chain ns' (first_child (ns' d)) (K' d) \<and> distinct (K' d) \<and> by_name ns' (K' d) \<and> set (K' d) \<subseteq> S \<and> (ntype (ns' d) \<noteq> FS_DIR \<longrightarrow> K' d = [])"
    if "d \<in> S" for d using same c b K [OF that] tree_okD(5-9) [OF t that] by simp
  moreover have "nparent (ns' x) = d \<and> x \<noteq> rt \<and> good_name (name_of ns' x)" if "d \<in> S" "x \<in> set (K' d)" for d x
    using that same K [OF that(1)] tree_okD(10,11,14) [OF t that(1)] by simp
  moreover have "nparent (ns' x) \<in> S \<and> x \<in> set (K' (nparent (ns' x)))" if "x \<in> S" "x \<noteq> rt" for x
    using same K tree_okD(12) [OF t that] by simp
  moreover have "ntype (ns' rt) = FS_DIR" "nparent (ns' rt) = 0" using same tree_okD(2,3) [OF t] by simp_all
  ultimately show ?thesis unfolding tree_ok_def using f tree_okD(1,4) [OF t] by (intro conjI ballI impI exI [of _ dep]) blast+
qed

lemma follow_cong:
  assumes t: "tree_ok ns rt S K" and "\<And>p. p \<in> S \<Longrightarrow> name_of ns' p = name_of ns p" and "\<And>d. d \<in> S \<Longrightarrow> K' d = K d"
  shows "p \<in> S \<Longrightarrow> follow ns' K' p names = follow ns K p names"
proof (induction names arbitrary: p)
  case (Cons n names)
  have "List.find (\<lambda>c. name_of ns' c = n) (K p) = List.find (\<lambda>c. name_of ns c = n) (K p)"
    using assms(2) tree_okD(8) [OF t Cons.prems] by (intro find_cong) auto
  moreover have "c \<in> S" if "List.find (\<lambda>c. name_of ns c = n) (K p) = Some c" for c
    using that tree_okD(8) [OF t Cons.prems] by (auto simp: find_Some_iff)
  ultimately show ?case using Cons assms(3) by (auto split: option.split)
qed simp

text \<open>The tree, with every node a live block of the heap.\<close>

definition fs_inv :: "fs \<Rightarrow> cell list \<Rightarrow> u32 set \<Rightarrow> (u32 \<Rightarrow> u32 list) \<Rightarrow> bool" where
  "fs_inv v cs S K \<longleftrightarrow> tree_ok (nodes v) (vroot v) S K \<and> heap_ok (heap_of v) cs \<and> S \<subseteq> fst ` live_blocks cs"

text \<open>Directories of the disk file system have a directory on a consistent volume.\<close>

definition dirs_ok :: "fs \<Rightarrow> u32 set \<Rightarrow> bool" where
  "dirs_ok v S \<longleftrightarrow> (\<forall>d \<in> S. nops (nodes v d) \<noteq> None) \<and> (mounted (disk v) \<longrightarrow> sfs_ok (disk v) \<and>
     (\<forall>d \<in> S. nops (nodes v d) = Some Sfs_ops \<and> ntype (nodes v d) = FS_DIR \<longrightarrow> dir_ok (disk v) (backend (nodes v d))))"

lemma heap_change [simp]: "disk (set_heap h v) = (disk v)\<lparr>ker := (ker (disk v))\<lparr>kh := h\<rparr>\<rparr>" "vroot (set_heap h v) = vroot v"
  by (simp_all add: set_heap_def)

lemma ker_change [simp]: "sfs_ok (s\<lparr>ker := k\<rparr>) = sfs_ok s" "dir_ok (s\<lparr>ker := k\<rparr>) = dir_ok s"
proof -
  have d: "dblk (s\<lparr>ker := k\<rparr>) = dblk s" by (intro HOL.ext) (simp add: dblk_def)
  have "bitmap (s\<lparr>ker := k\<rparr>) = bitmap s" "super (s\<lparr>ker := k\<rparr>) = super s" by simp_all
  note c = disk_ok_cong [OF d this]
  show "sfs_ok (s\<lparr>ker := k\<rparr>) = sfs_ok s" using c by (simp add: sfs_ok_def env_def pool_free_def layout_def data_start_def)
  show "dir_ok (s\<lparr>ker := k\<rparr>) = dir_ok s" using c by (intro HOL.ext) (simp add: dir_ok_def is_inode_def fsize_def)
qed

lemma node_alloc_ok:
  assumes h: "heap_ok (heap_of v) cs"
  shows "\<exists>p v1 cs1 h1 ms. node_alloc name ty ops v = Some (p, v1) \<and> heap_ok (heap_of v1) cs1 \<and> vroot v1 = vroot v \<and>
    disk v1 = (disk v)\<lparr>ker := (ker (disk v))\<lparr>kh := h1\<rparr>\<rparr> \<and> live_blocks cs \<subseteq> live_blocks cs1 \<and>
    (p = 0 \<and> nodes v1 = nodes v \<or>
     p \<noteq> 0 \<and> p \<notin> fst ` live_blocks cs \<and> p \<in> fst ` live_blocks cs1 \<and>
       nodes v1 = (nodes v)(p := zero_node\<lparr>nname := name_field FS_NAME_MAX name, ntype := ty,
         nops := Some (case ops of Some o1 \<Rightarrow> o1 | None \<Rightarrow> Ramfs_ops), created_ms := ms, modified_ms := ms\<rparr>))"
proof -
  have "(1 :: u32) * FS_NODE_SIZE \<noteq> 0" "unat (1 :: u32) * unat FS_NODE_SIZE \<le> 0x2AFFFFF8" by (simp_all add: FS_NODE_SIZE_def)
  from kcalloc_correct [OF h this] obtain p h1 cs1 where k: "kcalloc 1 FS_NODE_SIZE (heap_of v) = Some (p, h1)" "heap_ok h1 cs1"
      "p = 0 \<and> live_blocks cs1 = live_blocks cs \<or> allocates (1 * FS_NODE_SIZE) cs p cs1" by blast
  show ?thesis
  proof (cases "p = 0")
    case True
    then have "node_alloc name ty ops v = Some (0, set_heap h1 v)" using k(1) by (simp add: node_alloc_def fs_kcalloc_def)
    then show ?thesis using k(2,3) True by (intro exI [of _ 0] exI [of _ "set_heap h1 v"] exI [of _ cs1] exI [of _ h1]) (auto simp: allocates_def)
  next
    case False
    then have a: "p \<notin> fst ` live_blocks cs" "p \<in> fst ` live_blocks cs1" "live_blocks cs \<subseteq> live_blocks cs1" using k(3) by (auto simp: allocates_def image_iff)
    let ?ms = "timer_ms (ker (disk (set_heap h1 v)))"
    let ?nd = "zero_node\<lparr>nname := name_field FS_NAME_MAX name, ntype := ty,
         nops := Some (case ops of Some o1 \<Rightarrow> o1 | None \<Rightarrow> Ramfs_ops), created_ms := ?ms, modified_ms := ?ms\<rparr>"
    let ?v = "(set_heap h1 v)\<lparr>nodes := (nodes (set_heap h1 v))(p := ?nd), node_count := node_count (set_heap h1 v) + 1\<rparr>"
    have "node_alloc name ty ops v = Some (p, ?v)" using k(1) False by (simp add: node_alloc_def fs_kcalloc_def Let_def)
    moreover have "heap_of ?v = h1" by (simp add: heap_of_def)
    ultimately show ?thesis using k(2) a False by (intro exI [of _ p] exI [of _ ?v] exI [of _ cs1] exI [of _ h1] exI [of _ ?ms]) simp
  qed
qed

lemma alloc_inode_ok:
  assumes ok: "sfs_ok s"
  shows "\<exists>q s'. alloc_inode ty s = Some (q, s') \<and> sfs_ok s' \<and> ker s' = ker s \<and> (\<forall>d. dir_ok s d \<longrightarrow> dir_ok s' d)"
proof -
  let ?ns = "map of_nat [1..<unat (inode_count (super s)) + 1] :: u32 list"
  have "is_inode s (of_nat k)" if "1 \<le> k" "k \<le> unat (inode_count (super s))" for k
  proof -
    have "k < 2 ^ 32" using that unat_lt2p [of "inode_count (super s)"] by simp
    then have "unat (of_nat k :: u32) = k" by (simp add: unsigned_of_nat take_bit_eq_mod)
    then show ?thesis using that by (simp add: is_inode_def word_le_nat_alt)
  qed
  then have "\<forall>q \<in> set ?ns. is_inode s q" by auto
  from alloc_loop_ok [OF ok this, of ty] obtain s' where a: "case List.find (\<lambda>q. itype (inode_at s (unat q)) = SFS_TYPE_FREE) ?ns of
      None \<Rightarrow> alloc_inode_loop ?ns ty s = Some (0, s') \<and> unchanged s s'
    | Some q \<Rightarrow> alloc_inode_loop ?ns ty s = Some (q, s') \<and> inodes_used s' = inodes_used s + 1 \<and> disk_frame s (s'\<lparr>inodes_used := inodes_used s\<rparr>) \<and>
        made_empty q (zero_inode\<lparr>itype := ty, links := 1, created := now_seconds s, modified := now_seconds s\<rparr>) s s'" by blast
  show ?thesis
  proof (cases "List.find (\<lambda>q. itype (inode_at s (unat q)) = SFS_TYPE_FREE) ?ns")
    case None
    then have u: "alloc_inode ty s = Some (0, s')" "unchanged s s'" using a by (simp_all add: alloc_inode_def)
    have "dir_ok s' d = dir_ok s d" for d using unchanged_dir [OF u(2), of d] by simp
    then show ?thesis using u unchanged_ok [OF u(2) ok] unchangedD(1) [OF u(2)] by (auto simp: disk_frame_def)
  next
    case (Some q)
    then have u: "alloc_inode ty s = Some (q, s')" "disk_frame s (s'\<lparr>inodes_used := inodes_used s\<rparr>)"
      "made_empty q (zero_inode\<lparr>itype := ty, links := 1, created := now_seconds s, modified := now_seconds s\<rparr>) s s'"
      using a by (simp_all add: alloc_inode_def)
    have c: "inode_count (super s') = inode_count (super s)" using disk_frame_super(6) [OF u(2)] by simp
    have "dir_ok s' d" if d: "dir_ok s d" for d
    proof (cases "d = q")
      case True
      have "fsize s' (unat q) = 0" using u(3) by (simp add: made_empty_def fsize_def zero_inode_def)
      then show ?thesis using d True c by (simp add: dir_ok_def is_inode_def SFS_DIRENT_SIZE_def)
    next
      case False
      have i: "is_inode s d" using d by (simp add: dir_ok_def)
      moreover have "unat d \<noteq> unat q" using False by (simp add: word_unat_eq_iff)
      ultimately have "inode_at s' (unat d) = inode_at s (unat d)" using u(3) is_inode_nat [OF i] by (simp add: made_empty_def others_kept_def)
      then show ?thesis using d c by (simp add: dir_ok_def is_inode_def fsize_def)
    qed
    moreover have "ker s' = ker s" using u(2) by (simp add: disk_frame_def)
    moreover have "sfs_ok s'" using u(3) by (simp add: made_empty_def)
    ultimately show ?thesis using u(1) by blast
  qed
qed

text \<open>The \<^verbatim>\<open>create\<close> of either file system gives the node its storage and touches no other node.\<close>

definition only_storage :: "u32 \<Rightarrow> fs \<Rightarrow> fs \<Rightarrow> bool" where
  "only_storage p v v' \<longleftrightarrow> vroot v' = vroot v \<and> (\<exists>b sz. nodes v' = (nodes v)(p := (nodes v p)\<lparr>backend := b, nsize := sz\<rparr>))"

lemma only_storage_nodes:
  "only_storage p v v' \<Longrightarrow> nname (nodes v' q) = nname (nodes v q) \<and> ntype (nodes v' q) = ntype (nodes v q) \<and> nparent (nodes v' q) = nparent (nodes v q) \<and>
     first_child (nodes v' q) = first_child (nodes v q) \<and> next_sibling (nodes v' q) = next_sibling (nodes v q) \<and> nops (nodes v' q) = nops (nodes v q)"
  by (auto simp: only_storage_def)

lemma only_storageI: "vroot v' = vroot v \<Longrightarrow> nodes v' = (nodes v)(p := (nodes v p)\<lparr>backend := backend (nodes v' p), nsize := nsize (nodes v' p)\<rparr>) \<Longrightarrow> only_storage p v v'"
  unfolding only_storage_def by blast

lemma only_storage_disk: "only_storage p v (v\<lparr>disk := d\<rparr>)" "only_storage p v (upd_node p (\<lambda>n. n\<lparr>backend := b\<rparr>) (v\<lparr>disk := d\<rparr>))"
  "only_storage p v (upd_node p (\<lambda>n. n\<lparr>backend := b, nsize := sz\<rparr>) (v\<lparr>disk := d\<rparr>))"
  by (rule only_storageI; simp add: upd_node_def)+

lemma op_create_ok:
  assumes d: "mounted (disk v) \<Longrightarrow> sfs_ok (disk v) \<and> dir_ok (disk v) (backend (nodes v (nparent (nodes v p))))"
    and n: "strlen (nname (nodes v p)) < FS_NAME_MAX" and np: "nparent (nodes v p) \<noteq> p"
  shows "\<exists>r v'. op_create p v = Some (r, v') \<and> (r = 0 \<or> r = - 1) \<and> only_storage p v v' \<and> heap_of v' = heap_of v"
proof (cases "mounted (disk v) \<and> nparent (nodes v p) \<noteq> 0")
  case False
  then have "op_create p v = Some (- 1, v)" by (auto simp: op_create_def)
  then show ?thesis using only_storage_disk(1) [of p v "disk v"] by simp
next
  case True
  let ?ty = "if ntype (nodes v p) = FS_DIR then SFS_TYPE_DIR else SFS_TYPE_FILE" and ?par = "nparent (nodes v p)"
  have ok: "sfs_ok (disk v)" and dir: "dir_ok (disk v) (backend (nodes v ?par))" using d True by auto
  obtain q s1 where a: "alloc_inode ?ty (disk v) = Some (q, s1)" "sfs_ok s1" "ker s1 = ker (disk v)" "dir_ok s1 (backend (nodes v ?par))"
    using alloc_inode_ok [OF ok, of ?ty] dir by blast
  let ?v1 = "v\<lparr>disk := s1\<rparr>"
  have h1: "heap_of (v\<lparr>disk := s\<rparr>) = heap_of v" if "ker s = ker (disk v)" for s using that by (simp add: heap_of_def)
  show ?thesis
  proof (cases "q = 0")
    case True
    then have "op_create p v = Some (- 1, ?v1)" using a(1) \<open>mounted (disk v) \<and> ?par \<noteq> 0\<close> by (simp add: op_create_def on_disk_def Let_def)
    then show ?thesis using h1 [OF a(3)] only_storage_disk(1) by blast
  next
    case False
    have n': "strlen (nname (nodes v p)) < SFS_NAME_MAX" using n by (simp add: FS_NAME_MAX_def SFS_NAME_MAX_def)
    obtain r s2 where r: "dir_add (backend (nodes v ?par)) (nname (nodes v p)) q s1 = Some (r, s2)" "disk_frame s1 s2" "r = 0 \<or> r = - 1"
      using dir_add_ok [OF a(2,4) n', of q] by blast
    have k: "ker s2 = ker (disk v)" using r(2) a(3) by (simp add: disk_frame_def)
    let ?v2 = "v\<lparr>disk := s2\<rparr>"
    have "op_create p v = (if r < 0 then Some (- 1, ?v2) else Some (0, upd_node p (\<lambda>nd. nd\<lparr>backend := q, nsize := 0\<rparr>) ?v2))"
      using a(1) r(1) False \<open>mounted (disk v) \<and> ?par \<noteq> 0\<close> by (simp add: op_create_def on_disk_def Let_def INODE_OF_def)
    then show ?thesis using r(3) h1 [OF k] only_storage_disk(1,3) by (auto simp del: upd_node_def)
  qed
qed

lemma ramfs_create_ok:
  assumes h: "heap_ok (heap_of v) cs"
  shows "\<exists>r v' cs'. ramfs_create p v = Some (r, v') \<and> (r = 0 \<or> r = - 1) \<and> only_storage p v v' \<and> heap_ok (heap_of v') cs' \<and> live_blocks cs \<subseteq> live_blocks cs'"
proof (cases "ntype (nodes v p) = FS_FILE")
  case False
  then have "ramfs_create p v = Some (0, upd_node p (\<lambda>n. n\<lparr>backend := 0\<rparr>) v)" by (simp add: ramfs_create_def)
  moreover have "only_storage p v (upd_node p (\<lambda>n. n\<lparr>backend := 0\<rparr>) v)" using only_storage_disk(2) [of p v 0 "disk v"] by simp
  ultimately show ?thesis using h by (intro exI [of _ 0] exI [of _ "upd_node p (\<lambda>n. n\<lparr>backend := 0\<rparr>) v"] exI [of _ cs]) simp
next
  case True
  obtain d h1 cs1 where k: "kcalloc 1 8 (heap_of v) = Some (d, h1)" "heap_ok h1 cs1" "d = 0 \<and> live_blocks cs1 = live_blocks cs \<or> allocates 8 cs d cs1"
    using kcalloc_correct [OF h, of 1 8] by auto
  have sub: "live_blocks cs \<subseteq> live_blocks cs1" using k(3) by (auto simp: allocates_def)
  let ?v1 = "set_heap h1 v"
  let ?v2 = "upd_node p (\<lambda>n. n\<lparr>backend := d\<rparr>) (?v1\<lparr>ram := (ram ?v1)(d := \<lparr>rbytes = 0, capacity = 0\<rparr>)\<rparr>)"
  have "ramfs_create p v = (if d = 0 then Some (- 1, ?v1) else Some (0, ?v2))"
    using True k(1) by (simp add: ramfs_create_def fs_kcalloc_def)
  moreover have "only_storage p v ?v1" using only_storage_disk(1) [of p v] by (simp add: set_heap_def)
  moreover have "only_storage p v ?v2" using only_storage_disk(2) [of p v] by (simp add: only_storage_def upd_node_def set_heap_def)
  ultimately show ?thesis using k(2) sub by (cases "d = 0") (auto simp del: heap_change)
qed

lemma ops_create_ok:
  assumes h: "heap_ok (heap_of v) cs" and n: "strlen (nname (nodes v p)) < FS_NAME_MAX" and np: "nparent (nodes v p) \<noteq> p"
    and d: "o1 = Sfs_ops \<Longrightarrow> mounted (disk v) \<Longrightarrow> sfs_ok (disk v) \<and> dir_ok (disk v) (backend (nodes v (nparent (nodes v p))))"
  shows "\<exists>r v' cs'. ops_create o1 p v = Some (r, v') \<and> (r = 0 \<or> r = - 1) \<and> only_storage p v v' \<and> heap_ok (heap_of v') cs' \<and> live_blocks cs \<subseteq> live_blocks cs'"
proof (cases o1)
  case Ramfs_ops
  then show ?thesis using ramfs_create_ok [OF h] by simp
next
  case Sfs_ops
  then obtain r v' where "op_create p v = Some (r, v')" "r = 0 \<or> r = - 1" "only_storage p v v'" "heap_of v' = heap_of v"
    using op_create_ok [OF d n np] by blast
  then show ?thesis using Sfs_ops h by (intro exI [of _ r] exI [of _ v'] exI [of _ cs]) simp
qed


text \<open>Cutting an absolute path into the path of the parent and the name.\<close>

lemma strrchr_term:
  assumes "SLASH \<notin> set s" and "0 \<notin> set (pre @ s)"
  shows "strrchr_loop (pre @ SLASH # s @ 0 # rest) SLASH h = Some (SLASH # s @ 0 # rest)"
proof -
  have a: "SLASH \<notin> set s \<Longrightarrow> 0 \<notin> set s \<Longrightarrow> strrchr_loop (s @ 0 # rest) SLASH h = h" for s h by (induction s) auto
  have z: "SLASH \<noteq> 0" by (simp add: SLASH_def)
  show ?thesis using assms by (induction pre arbitrary: h) (use a z in auto)
qed

lemma terminated: "strlen a < length a \<Longrightarrow> a = take (strlen a) a @ 0 # drop (strlen a + 1) a"
  by (induction a) (auto split: if_splits)

lemma cut_path_ok:
  assumes "strlen a < length a" and "take (strlen a) a = slash_if b @ path_of ns" and "ns \<noteq> []" and g: "\<forall>s \<in> set ns. good_seg s"
  shows "\<exists>rest. cut_path a = Some (slash_if b @ path_of (butlast ns), last ns @ 0 # rest)"
proof -
  let ?rest = "drop (strlen a + 1) a" and ?pre = "slash_if b @ path_of (butlast ns)" and ?s = "last ns"
  have "path_of ns = path_of (butlast ns) @ SLASH # ?s" using assms(3) by (cases ns rule: rev_cases) auto
  then have a: "a = ?pre @ SLASH # ?s @ 0 # ?rest" using terminated [OF assms(1)] assms(2) by simp
  have gb: "\<forall>s \<in> set (butlast ns). good_seg s" using g by (auto dest: in_set_butlastD)
  have s: "SLASH \<notin> set ?s" "0 \<notin> set ?s" using g assms(3) by (auto simp: good_seg_def)
  moreover have "0 \<notin> set ?pre" using good_no_zero [OF gb] by (auto simp: slash_if_def SLASH_def)
  ultimately have "strrchr a SLASH = Some (SLASH # ?s @ 0 # ?rest)" using strrchr_term [of ?s ?pre ?rest None] a by (simp add: strrchr_def)
  then have "cut_path a = Some (take (length a - length (SLASH # ?s @ 0 # ?rest)) a, ?s @ 0 # ?rest)" by (simp add: cut_path_def)
  moreover have "take (length a - length (SLASH # ?s @ 0 # ?rest)) a = ?pre"
    using arg_cong [OF a, of length] by (subst a) simp
  ultimately show ?thesis by auto
qed

lemma lookup_parent:
  assumes t: "tree_ok (nodes v) (vroot v) S K" and p: "\<forall>s \<in> set ns. plain s" and l: "length (slash_if b @ path_of ns) < FS_PATH_MAX" and "ns \<noteq> []"
  shows "vfs_lookup None (if hd0 (slash_if b @ path_of (butlast ns)) \<noteq> 0 then slash_if b @ path_of (butlast ns) else [SLASH]) v =
    Some (follow (nodes v) K (vroot v) (butlast ns))"
proof -
  let ?a = "slash_if b @ path_of (butlast ns)"
  define path where "path = (if hd0 ?a \<noteq> 0 then ?a else [SLASH])"
  have gb: "\<forall>s \<in> set (butlast ns). good_seg s" and pb: "\<forall>s \<in> set (butlast ns). plain s" using p by (auto simp: plain_def dest: in_set_butlastD)
  have "path_of ns = path_of (butlast ns) @ SLASH # last ns" "last ns \<noteq> []" using assms(4) p by (cases ns rule: rev_cases; auto simp: plain_def good_seg_def)+
  then have la: "length ?a + 2 < FS_PATH_MAX" using l by (cases "last ns") auto
  have nz: "hd0 ?a \<noteq> 0 \<or> butlast ns = [] \<and> \<not> b" by (cases "butlast ns") (auto simp: slash_if_def hd0_def SLASH_def)
  have segs: "segs path = butlast ns"
  proof (cases "hd0 ?a = 0")
    case True
    then show ?thesis using nz segs_path(2) [of "[]" "[]"] by (simp add: path_def)
  next
    case False
    then show ?thesis using segs_path [OF gb, of "[]"] by (cases b) (simp_all add: path_def slash_if_def)
  qed
  have lp: "length path + 2 < FS_PATH_MAX" using la by (simp add: path_def FS_PATH_MAX_def)
  have "is_cwd None []" by (simp add: is_cwd_def dir_text_def FS_PATH_MAX_def)
  moreover obtain r out where call: "vfs_abspath None path (replicate FS_PATH_MAX 0) FS_PATH_MAX = (r, out)" by (metis surj_pair)
  ultimately have r: "r = 0" "segs out = resolved [] path" using abspath_of [of None "[]" path r out] lp by (auto simp: dir_text_def)
  have "resolved [] path = butlast ns" using resolve_self [OF pb, of "[]"] segs by (simp add: resolved_def)
  then have "vfs_lookup None path v = Some (follow (nodes v) K (vroot v) (butlast ns))"
    using call r lookup_loop_ok [OF t tree_okD(1) [OF t], of out] by (simp add: vfs_lookup_def)
  then show ?thesis by (simp add: path_def)
qed

text \<open>What creating a node in a directory comes to.\<close>

definition created_in :: "u32 \<Rightarrow> u8 list \<Rightarrow> u8 \<Rightarrow> fs \<Rightarrow> u32 set \<Rightarrow> (u32 \<Rightarrow> u32 list) \<Rightarrow> u32 \<Rightarrow> fs \<Rightarrow> bool" where
  "created_in d n ty v S K p v' \<longleftrightarrow>
     (p = 0 \<and> (\<exists>cs'. fs_inv v' cs' S K) \<and> (\<forall>x. follow (nodes v') K (vroot v') x = follow (nodes v) K (vroot v) x) \<or>
      p \<noteq> 0 \<and> p \<notin> S \<and> (\<exists>cs' K'. fs_inv v' cs' (insert p S) K' \<and> ntype (nodes v' p) = ty \<and> K' p = [] \<and>
        (\<forall>x. follow (nodes v') K' (vroot v') x = (if \<exists>up. x = up @ [n] \<and> follow (nodes v) K (vroot v) up = d then p else follow (nodes v) K (vroot v) x))))"

lemma name_stored: "0 \<notin> set n \<Longrightarrow> length n < FS_NAME_MAX \<Longrightarrow> text_of (name_field FS_NAME_MAX (n @ 0 # rest)) = n"
  using text_name_field [of "n @ 0 # rest" FS_NAME_MAX] strlen_app(1) [of n rest] text_of_nz(2) [of n rest]
  by (simp add: name_field_def strlcpy_def Let_def)

lemma create_in_ok:
  assumes inv: "fs_inv v cs S K" and dirs: "dirs_ok v S" and d: "d \<in> S" "ntype (nodes v d) = FS_DIR" and n: "good_name n"
    and new: "n \<notin> name_of (nodes v) ` set (K d)"
  shows "\<exists>p v'. create_in d (n @ 0 # rest) ty v = Some (p, v') \<and> created_in d n ty v S K p v'"
proof -
  have t: "tree_ok (nodes v) (vroot v) S K" and h: "heap_ok (heap_of v) cs" and live: "S \<subseteq> fst ` live_blocks cs" using inv by (simp_all add: fs_inv_def)
  have n0: "0 \<notin> set n" "length n < FS_NAME_MAX" using n by (simp_all add: good_name_def good_seg_def)
  obtain o1 where o1: "nops (nodes v d) = Some o1" using dirs d(1) by (auto simp: dirs_ok_def)
  obtain p v1 cs1 h1 ms where a: "node_alloc (n @ 0 # rest) ty (nops (nodes v d)) v = Some (p, v1)" "heap_ok (heap_of v1) cs1" "vroot v1 = vroot v"
      "disk v1 = (disk v)\<lparr>ker := (ker (disk v))\<lparr>kh := h1\<rparr>\<rparr>" "live_blocks cs \<subseteq> live_blocks cs1"
      "p = 0 \<and> nodes v1 = nodes v \<or> p \<noteq> 0 \<and> p \<notin> fst ` live_blocks cs \<and> p \<in> fst ` live_blocks cs1 \<and>
       nodes v1 = (nodes v)(p := zero_node\<lparr>nname := name_field FS_NAME_MAX (n @ 0 # rest), ntype := ty,
         nops := Some (case nops (nodes v d) of Some o1 \<Rightarrow> o1 | None \<Rightarrow> Ramfs_ops), created_ms := ms, modified_ms := ms\<rparr>)"
    using node_alloc_ok [OF h, of "n @ 0 # rest" ty "nops (nodes v d)"] by blast
  show ?thesis
  proof (cases "p = 0")
    case True
    have v1: "nodes v1 = nodes v" using True a(6) by auto
    have "create_in d (n @ 0 # rest) ty v = Some (0, v1)" using a(1) True by (simp add: create_in_def)
    moreover have "fs_inv v1 cs1 S K" using t a(2,3) v1 subset_trans [OF live image_mono [OF a(5)]] by (simp add: fs_inv_def)
    ultimately show ?thesis using v1 a(3) by (auto simp: created_in_def)
  next
    case False
    define nd where "nd = zero_node\<lparr>nname := name_field FS_NAME_MAX (n @ 0 # rest), ntype := ty, nops := Some o1, created_ms := ms, modified_ms := ms\<rparr>"
    have v1: "p \<notin> fst ` live_blocks cs" "p \<in> fst ` live_blocks cs1" "nodes v1 = (nodes v)(p := nd)" using False a(6) o1 by (auto simp: nd_def)
    have pS: "p \<notin> S" "p \<noteq> d" using v1(1) live d(1) by auto
    have nd: "first_child nd = 0" "text_of (nname nd) = n" "nops nd = Some o1" "ntype nd = ty" using name_stored [OF n0] by (simp_all add: nd_def zero_node_def)
    obtain ns2 K2 qs rs where l: "link_child d p ((nodes v)(p := nd)) = Some ns2" "tree_ok ns2 (vroot v) (insert p S) K2"
        "relinked ((nodes v)(p := nd)) ns2 d p (K d)" "K2 p = []" "\<And>e. e \<noteq> p \<Longrightarrow> e \<noteq> d \<Longrightarrow> K2 e = K e" "K d = qs @ rs" "K2 d = qs @ p # rs"
      using tree_insert [OF t d pS(1) False nd(1)] n new nd(2) by auto
    let ?v2 = "v1\<lparr>nodes := ns2\<rparr>"
    have b2: "bare (ns2 p) = bare nd" "\<And>q. q \<noteq> p \<Longrightarrow> bare (ns2 q) = bare (nodes v q)" using l(3) by (auto simp: relinked_def split: if_splits)
    have p2: "nops (ns2 p) = Some o1" "nname (ns2 p) = nname nd" "ntype (ns2 p) = ty" using bareD [OF b2(1)] nd by simp_all
    have nm2: "nname (ns2 q) = nname (nodes v q)" if "q \<noteq> p" for q using bareD [OF b2(2) [OF that]] by simp
    have par: "nparent (ns2 p) = d" using tree_okD(10) [OF l(2), of d p] d(1) l(7) by simp
    have fol: "follow ns2 K2 (vroot v) x = (if \<exists>up. x = up @ [n] \<and> follow (nodes v) K (vroot v) up = d then p else follow (nodes v) K (vroot v) x)" for x
    proof -
      have "name_of ns2 q = name_of (nodes v) q" if "q \<in> S" for q using nm2 [of q] that pS by (cases "q = p") auto
      then show ?thesis using follow_insert [OF t l(2) d(1) pS(1) l(4,5,6,7), of x] new p2(2) nd(2) by simp
    qed
    have pre: "heap_ok (heap_of ?v2) cs1" "strlen (nname (nodes ?v2 p)) < FS_NAME_MAX" "nparent (nodes ?v2 p) \<noteq> p"
      using a(2) p2(2) nd(2) n0(2) par pS(2) by (simp_all add: heap_of_def strlen_text)
    have "sfs_ok (disk ?v2) \<and> dir_ok (disk ?v2) (backend (nodes ?v2 (nparent (nodes ?v2 p))))" if "o1 = Sfs_ops" "mounted (disk ?v2)"
      using dirs d o1 that a(4) par bareD [OF b2(2), of d] pS(2) by (simp add: dirs_ok_def)
    from ops_create_ok [OF pre this] obtain r v3 cs3 where c: "ops_create o1 p ?v2 = Some (r, v3)" "r = 0 \<or> r = - 1" "only_storage p ?v2 v3"
        "heap_ok (heap_of v3) cs3" "live_blocks cs1 \<subseteq> live_blocks cs3" by blast
    note st = only_storage_nodes [OF c(3)]
    have t3: "tree_ok (nodes v3) (vroot v) (insert p S) K2" using tree_ok_cong [OF _ _ l(2), of "nodes v3" K2] st by simp
    have r3: "vroot v3 = vroot v" using c(3) a(3) by (simp add: only_storage_def)
    have live3: "insert p S \<subseteq> fst ` live_blocks cs3" using live v1(2) a(5) c(5) by blast
    have run: "create_in d (n @ 0 # rest) ty v = (if r < 0 then
        do { ns3 \<leftarrow> unlink_child d p (nodes v3); v4 \<leftarrow> fs_kfree p (v3\<lparr>nodes := ns3\<rparr>); Some (0, v4\<lparr>node_count := node_count v4 - 1\<rparr>) } else Some (p, v3))"
      using a(1) False v1(3) l(1) p2(1) c(1) by (simp add: create_in_def Let_def)
    show ?thesis
    proof (cases "r = 0")
      case True
      have "follow (nodes v3) K2 (vroot v) x = follow ns2 K2 (vroot v) x" for x using follow_cong [OF l(2), of "nodes v3" K2] st tree_okD(1) [OF l(2)] by simp
      then have "created_in d n ty v S K p v3"
        unfolding created_in_def using False pS(1) t3 c(4) live3 r3 fol l(4) st [of p] p2(3) by (intro disjI2 conjI exI [of _ cs3] exI [of _ K2]) (simp_all add: fs_inv_def)
      then show ?thesis using run True by simp
    next
      case r: False
      have rt: "p \<noteq> vroot v" using tree_okD(1) [OF t] pS(1) by auto
      have par3: "d = nparent (nodes v3 p)" using st [of p] par by simp
      obtain ns4 where u: "unlink_child d p (nodes v3) = Some ns4" "tree_ok ns4 (vroot v) (insert p S - {p}) (K2(d := remove1 p (K2 d)))"
          "relinked (nodes v3) ns4 d p (K2 d)"
        using tree_remove [OF t3 insertI1 rt l(4) par3] by blast
      have K4: "(K2(d := remove1 p (K2 d))) e = K e" if "e \<in> S" for e
      proof (cases "e = d")
        case True
        have "p \<notin> set (K d)" using tree_okD(8) [OF t d(1)] pS(1) by blast
        then show ?thesis using True l(6,7) by (simp add: remove1_append)
      next
        case False
        moreover have "e \<noteq> p" using that pS(1) by blast
        ultimately show ?thesis using l(5) by simp
      qed
      have t4: "tree_ok ns4 (vroot v) S K" using tree_ok_cong [OF _ _ u(2), of ns4 K] K4 pS(1) by simp
      obtain s where s: "(p, s) \<in> live_blocks cs3" using live3 by auto
      obtain h5 cs5 where f: "kfree p (heap_of v3) = Some h5" "heap_ok h5 cs5" "live_blocks cs5 = live_blocks cs3 - {(p, s)}" using kfree_spec [OF c(4) s] by blast
      let ?v5 = "(set_heap h5 (v3\<lparr>nodes := ns4\<rparr>))\<lparr>node_count := node_count (set_heap h5 (v3\<lparr>nodes := ns4\<rparr>)) - 1\<rparr>"
      have "create_in d (n @ 0 # rest) ty v = Some (0, ?v5)"
        using run r c(2) u(1) f(1) by (simp add: fs_kfree_def heap_of_def)
      moreover have "S \<subseteq> fst ` live_blocks cs5" using live3 pS(1) f(3) by force
      moreover have "follow ns4 K (vroot v) x = follow (nodes v) K (vroot v) x" for x
      proof -
        have "name_of ns4 q = name_of (nodes v) q" if "q \<in> S" for q
          using u(3) bareD [of "ns4 q" "nodes v3 q"] st [of q] nm2 [of q] that pS(1) by (cases "q = p") (auto simp: relinked_def)
        then show ?thesis using follow_cong [OF t] tree_okD(1) [OF t] by blast
      qed
      moreover have "heap_of ?v5 = h5" "vroot ?v5 = vroot v" "nodes ?v5 = ns4" using r3 by (simp_all add: heap_of_def)
      ultimately show ?thesis using t4 f(2) by (intro exI [of _ 0] exI [of _ ?v5]) (auto simp: created_in_def fs_inv_def)
    qed
  qed
qed

text \<open>
  C17: creating a node on a path, in a well-formed tree, on a well-formed heap and, for directories on the disk, a consistent volume, always returns.  Either it returns NULL and every
  path leads where it did, or it returns a new node of the type asked for, without children: exactly the path asked for, which led nowhere before,
  now leads to it, looking that path up finds it, and every other path leads where it did.  The tree stays sorted and well formed, and every node is a live block of the heap.
\<close>

theorem vfs_create_correct:
  assumes inv: "fs_inv v cs S K" and dirs: "dirs_ok v S" and cwd: "is_cwd cwd0 names"
  shows "\<exists>p v' cs' S' K'. vfs_create cwd0 path ty v = Some (p, v') \<and> fs_inv v' cs' S' K' \<and>
    (p = 0 \<and> S' = S \<and> (\<forall>x. follow (nodes v') K' (vroot v') x = follow (nodes v) K (vroot v) x) \<or>
     p \<noteq> 0 \<and> p \<notin> S \<and> S' = insert p S \<and> ntype (nodes v' p) = ty \<and> K' p = [] \<and> vfs_lookup cwd0 path v' = Some p \<and>
       follow (nodes v) K (vroot v) (resolved names path) = 0 \<and>
       (\<forall>x. follow (nodes v') K' (vroot v') x = (if x = resolved names path then p else follow (nodes v) K (vroot v) x)))"
    (is "\<exists>p v' cs' S' K'. ?call p v' \<and> ?post p v' cs' S' K'")
proof -
  let ?ns = "resolved names path" and ?rt = "vroot v"
  have t: "tree_ok (nodes v) ?rt S K" using inv by (simp add: fs_inv_def)
  have none: "\<exists>p v' cs' S' K'. ?call p v' \<and> ?post p v' cs' S' K'" if "vfs_create cwd0 path ty v = Some (0, v)"
    using that inv by (intro exI [of _ 0] exI [of _ v] exI [of _ cs] exI [of _ S] exI [of _ K]) simp
  obtain r a where call: "vfs_abspath cwd0 path (replicate FS_PATH_MAX 0) FS_PATH_MAX = (r, a)" by (metis surj_pair)
  show ?thesis
  proof (cases "r = 0 \<and> ?ns \<noteq> []")
    case False
    have "r < 0 \<or> strcmp a [SLASH] = 0"
      using abspath_of [OF cwd call] False take_strlen [of a] by (auto simp: strcmp_eq_0 SLASH_def)
    then show ?thesis using call by (intro none) (auto simp: vfs_create_def)
  next
    case True
    obtain b where a: "segs a = ?ns" "\<forall>s \<in> set ?ns. plain s" "strlen a < length a" "length a = FS_PATH_MAX" "take (strlen a) a = slash_if b @ path_of ?ns"
      using abspath_of [OF cwd call] True by auto
    have g: "\<forall>s \<in> set ?ns. good_seg s" using a(2) by (simp add: plain_def)
    obtain rest where cut: "cut_path a = Some (slash_if b @ path_of (butlast ?ns), last ?ns @ 0 # rest)" using cut_path_ok [OF a(3,5) _ g] True by blast
    define d where "d = follow (nodes v) K ?rt (butlast ?ns)"
    define n where "n = last ?ns"
    have n: "good_seg n" "0 \<notin> set n" "?ns = butlast ?ns @ [n]" using g True by (auto simp: n_def good_seg_def)
    have sl: "strlen (n @ 0 # rest) = length n" using strlen_app(1) [OF n(2)] .
    have "length (slash_if b @ path_of ?ns) < FS_PATH_MAX" using arg_cong [OF a(5), of length] a(3,4) by simp
    note par = lookup_parent [OF t a(2) this conjunct2 [OF True], folded d_def]
    have "text_of a \<noteq> [SLASH]" using a(5) take_strlen [of a] path_of_simps(2) g True by (cases ?ns; cases b) (auto simp: slash_if_def good_seg_def)
    then have st: "strcmp a [SLASH] \<noteq> 0" by (simp add: strcmp_eq_0 SLASH_def)
    have run: "vfs_create cwd0 path ty v = (if d = 0 \<or> ntype (nodes v d) \<noteq> FS_DIR then Some (0, v)
        else do { old \<leftarrow> find_child (nodes v) d (n @ 0 # rest) (length n);
                  if old \<noteq> 0 then Some (0, v) else if FS_NAME_MAX \<le> length n then Some (0, v) else create_in d (n @ 0 # rest) ty v })"
      using call True st cut [folded n_def] par sl by (simp add: vfs_create_def)
    show ?thesis
    proof (cases "d = 0 \<or> ntype (nodes v d) \<noteq> FS_DIR")
      case True
      then show ?thesis using run by (intro none) simp
    next
      case d: False
      then have dS: "d \<in> S" using follow_in [OF t tree_okD(1) [OF t], of "butlast ?ns"] by (simp add: d_def)
      note fc = find_child_ok [OF t dS n(1), of "0 # rest"]
      show ?thesis
      proof (cases "List.find (\<lambda>c. name_of (nodes v) c = n) (K d) = None \<and> length n < FS_NAME_MAX")
        case False
        have "c \<noteq> 0" if "List.find (\<lambda>c. name_of (nodes v) c = n) (K d) = Some c" for c
        proof -
          have "c \<in> set (K d)" using that by (auto simp: find_Some_iff)
          then show ?thesis using tree_okD(4) [OF t] tree_okD(8) [OF t dS] by blast
        qed
        then show ?thesis using run d fc False by (intro none) (auto split: option.splits)
      next
        case new: True
        have gn: "good_name n" "n \<notin> name_of (nodes v) ` set (K d)" using new n(1) by (auto simp: good_name_def find_None_iff)
        obtain p v' where c: "create_in d (n @ 0 # rest) ty v = Some (p, v')" "created_in d n ty v S K p v'"
          using create_in_ok [OF inv dirs dS _ gn] d by blast
        have call': "?call p v'" using run d fc new c(1) by simp
        have old: "follow (nodes v) K ?rt ?ns = 0"
          using follow_append [OF t tree_okD(1) [OF t], of "butlast ?ns" "[n]"] n(3) new d by (simp add: d_def [symmetric])
        have "(\<exists>up. x = up @ [n] \<and> follow (nodes v) K ?rt up = d) \<longleftrightarrow> x = ?ns" for x
          using follow_unique [OF t, of _ d "butlast ?ns"] n(3) d by (metis d_def)
        note path = this
        show ?thesis
        proof (cases "p = 0")
          case True
          then show ?thesis using c(2) call' unfolding created_in_def by blast
        next
          case False
          then obtain cs' K' where k: "p \<notin> S" "fs_inv v' cs' (insert p S) K'" "ntype (nodes v' p) = ty" "K' p = []"
              "\<And>x. follow (nodes v') K' (vroot v') x = (if x = ?ns then p else follow (nodes v) K ?rt x)"
            using c(2) unfolding created_in_def path by blast
          have t': "tree_ok (nodes v') (vroot v') (insert p S) K'" using k(2) by (simp add: fs_inv_def)
          have "vfs_lookup cwd0 path v' = Some p"
            using call True \<open>r = 0 \<and> ?ns \<noteq> []\<close> lookup_loop_ok [OF t' tree_okD(1) [OF t'], of a] a(1) k(5) by (simp add: vfs_lookup_def)
          then show ?thesis using call' k old False
            by (intro exI [of _ p] exI [of _ v'] exI [of _ cs'] exI [of _ "insert p S"] exI [of _ K']) simp
        qed
      qed
    qed
  qed
qed

text \<open>A tree with nothing but the root, in the one block of a small heap.\<close>

definition root_fs :: fs where
  "root_fs = \<lparr>disk = sample_sfs\<lparr>ker := boot_sys\<lparr>kh := used_heap\<rparr>, mounted := False\<rparr>,
     nodes = (\<lambda>_. zero_node)(HEAP_BASE + HEADER_SIZE := zero_node\<lparr>ntype := FS_DIR, nops := Some Ramfs_ops\<rparr>),
     ram = (\<lambda>_. \<lparr>rbytes = 0, capacity = 0\<rparr>), vroot = HEAP_BASE + HEADER_SIZE, node_count = 1\<rparr>"

lemma root_fs_inv: "fs_inv root_fs [used_cell] {HEAP_BASE + HEADER_SIZE} (\<lambda>_. [])" "dirs_ok root_fs {HEAP_BASE + HEADER_SIZE}"
proof -
  have nz: "HEAP_BASE + HEADER_SIZE \<noteq> 0" by (simp add: HEAP_BASE_def KERNEL_HEAP_BASE_def HEADER_SIZE_def)
  have "heap_of root_fs = used_heap" by (simp add: root_fs_def heap_of_def)
  moreover have "tree_ok (nodes root_fs) (vroot root_fs) {HEAP_BASE + HEADER_SIZE} (\<lambda>_. [])"
    using nz unfolding tree_ok_def by (auto simp: root_fs_def zero_node_def by_name_def)
  ultimately show "fs_inv root_fs [used_cell] {HEAP_BASE + HEADER_SIZE} (\<lambda>_. [])"
    using used_heap_ok used_live by (auto simp: fs_inv_def image_iff intro: bexI [of _ "(HEAP_BASE + HEADER_SIZE, 65516)"])
  show "dirs_ok root_fs {HEAP_BASE + HEADER_SIZE}" by (simp add: dirs_ok_def root_fs_def)
qed

theorem vfs_create_correct_witness:
  "\<exists>p v' cs' S' K'. vfs_create None [47, 97, 0] FS_FILE root_fs = Some (p, v') \<and> fs_inv v' cs' S' K' \<and>
     (p = 0 \<and> S' = {HEAP_BASE + HEADER_SIZE} \<or> vfs_lookup None [47, 97, 0] v' = Some p)"
proof -
  have "is_cwd None []" by (simp add: is_cwd_def dir_text_def FS_PATH_MAX_def)
  from vfs_create_correct [OF root_fs_inv this, of "[47, 97, 0]" FS_FILE] show ?thesis by blast
qed

theorem vfs_lookup_correct_witness:
  "vfs_lookup None [47, 0] root_fs = Some (HEAP_BASE + HEADER_SIZE)"
proof -
  have t: "tree_ok (nodes root_fs) (vroot root_fs) {HEAP_BASE + HEADER_SIZE} (\<lambda>_. [])" using root_fs_inv(1) by (simp add: fs_inv_def)
  have c: "is_cwd None []" by (simp add: is_cwd_def dir_text_def FS_PATH_MAX_def)
  have "resolved [] [47, 0] = []" by (simp add: resolved_def resolve_def segs.simps skip_slashes_def SLASH_def)
  then show ?thesis using vfs_lookup_correct [OF t c, of "[47, 0]"] by (simp add: dir_text_def FS_PATH_MAX_def root_fs_def)
qed

end
