(* ===== verification/Console.thy ===== *)
theory Console
  imports Gfx Input
begin

text \<open>
  The consoles: the serial line (\<^verbatim>\<open>dev/serial.c\<close>), the VGA text screen (\<^verbatim>\<open>dev/vga.c\<close>), the framebuffer console (\<^verbatim>\<open>dev/fbcon.c\<close>) and the
  multiplexer with the kernel log (\<^verbatim>\<open>dev/console.c\<close>).  The serial chip is a parameter of the state: the values its status and data registers show on their
  successive reads; what is written to its ports is recorded in order.  The lemmas show that no write leaves the memory of a screen, what a character does to the
  text screen, and that the log returns the last bytes written.
\<close>

unbundle bit_operations_syntax

section \<open>Serial line\<close>

definition REG_DATA :: nat where "REG_DATA = 0"
definition REG_IER :: nat where "REG_IER = 1"
definition REG_FCR :: nat where "REG_FCR = 2"
definition REG_LCR :: nat where "REG_LCR = 3"
definition REG_MCR :: nat where "REG_MCR = 4"
definition LSR_TX_EMPTY :: u8 where "LSR_TX_EMPTY = 0x20"
definition LSR_RX_READY :: u8 where "LSR_RX_READY = 0x01"

record uart =
  u_present :: bool
  lsr :: "nat \<Rightarrow> u8"
  lsr_reads :: nat
  rx :: "nat \<Rightarrow> u8"
  rx_reads :: nat
  outs :: "(nat \<times> u8) list"

definition inb_lsr :: "uart \<Rightarrow> u8 \<times> uart" where
  "inb_lsr u = (lsr u (lsr_reads u), u\<lparr>lsr_reads := Suc (lsr_reads u)\<rparr>)"

definition inb_data :: "uart \<Rightarrow> u8 \<times> uart" where
  "inb_data u = (rx u (rx_reads u), u\<lparr>rx_reads := Suc (rx_reads u)\<rparr>)"

definition outb_com :: "nat \<Rightarrow> u8 \<Rightarrow> uart \<Rightarrow> uart" where
  "outb_com r b u = u\<lparr>outs := outs u @ [(r, b)]\<rparr>"

definition serial_init :: "uart \<Rightarrow> uart" where
  "serial_init u0 =
     (let u1 = fold (\<lambda>(r, b). outb_com r b)
            [(REG_IER, 0x00), (REG_LCR, 0x80), (0, 0x01), (1, 0x00), (REG_LCR, 0x03), (REG_FCR, 0xC7), (REG_MCR, 0x0B),
             (REG_MCR, 0x1E), (REG_DATA, 0xAE)] u0
      in case inb_data u1 of (b, u2) \<Rightarrow> outb_com REG_MCR 0x0B (u2\<lparr>u_present := (b = 0xAE)\<rparr>))"

fun wait_tx_loop :: "nat \<Rightarrow> uart \<Rightarrow> uart" where
  "wait_tx_loop spin u =
     (case inb_lsr u of (st, u1) \<Rightarrow>
        if st AND LSR_TX_EMPTY \<noteq> 0 then u1
        else case spin of 0 \<Rightarrow> u1 | Suc k \<Rightarrow> wait_tx_loop k u1)"

declare wait_tx_loop.simps [simp del]

definition wait_tx :: "uart \<Rightarrow> uart" where
  "wait_tx u = wait_tx_loop 100000 u"

definition serial_putc :: "u8 \<Rightarrow> uart \<Rightarrow> uart" where
  "serial_putc c u =
     (if \<not> u_present u then u
      else
        let u1 = (if c = 10 then outb_com REG_DATA 13 (wait_tx u) else u)
        in outb_com REG_DATA c (wait_tx u1))"

definition serial_write :: "u8 list \<Rightarrow> uart \<Rightarrow> uart" where
  "serial_write cs u = fold serial_putc cs u"

definition serial_poll :: "uart \<Rightarrow> int \<times> uart" where
  "serial_poll u =
     (if \<not> u_present u then (- 1, u)
      else case inb_lsr u of (st, u1) \<Rightarrow>
        if st AND LSR_RX_READY = 0 then (- 1, u1)
        else case inb_data u1 of (b, u2) \<Rightarrow> (uint b, u2))"

section \<open>VGA text screen\<close>

definition VGA_COLS :: int where "VGA_COLS = 80"
definition VGA_ROWS :: int where "VGA_ROWS = 25"
definition TEXT_ROWS :: int where "TEXT_ROWS = 24"
definition STATUS_ROW :: int where "STATUS_ROW = 24"

record vga =
  vmem :: "u16 list"
  vcolor :: u8
  vrow :: int
  vcol :: int
  crtc :: "u8 \<Rightarrow> u8"

text \<open>
  \<^verbatim>\<open>char\<close> is signed on this machine, so that the conversion to 16 bits extends the sign.
\<close>

definition vga_cell :: "u8 \<Rightarrow> u8 \<Rightarrow> u16" where
  "vga_cell c attr = scast c OR push_bit 8 (ucast attr)"

definition set_cell :: "int \<Rightarrow> u16 \<Rightarrow> u16 list \<Rightarrow> u16 list option" where
  "set_cell i x m = (if 0 \<le> i \<and> i < int (length m) then Some (m[nat i := x]) else None)"

definition move_hw_cursor :: "vga \<Rightarrow> vga" where
  "move_hw_cursor v =
     (let pos = word_of_int (vrow v * VGA_COLS + vcol v) :: u16
      in v\<lparr>crtc := (crtc v)(0x0F := ucast (pos AND 0xFF), 0x0E := ucast (drop_bit 8 pos AND 0xFF))\<rparr>)"

fun fill_cells :: "int list \<Rightarrow> u16 \<Rightarrow> u16 list \<Rightarrow> u16 list option" where
  "fill_cells [] x m = Some m"
| "fill_cells (i # is) x m = do { m1 \<leftarrow> set_cell i x m; fill_cells is x m1 }"

fun copy_up :: "int list \<Rightarrow> u16 list \<Rightarrow> u16 list option" where
  "copy_up [] m = Some m"
| "copy_up (i # is) m =
     (if i < int (length m) then do { m1 \<leftarrow> set_cell (i - VGA_COLS) (m ! nat i) m; copy_up is m1 } else None)"

text \<open>The rows and columns of the loops are consecutive cells.\<close>

definition vga_scroll :: "vga \<Rightarrow> vga option" where
  "vga_scroll v =
     (if vrow v < TEXT_ROWS then Some v
      else do {
        m1 \<leftarrow> copy_up [VGA_COLS..TEXT_ROWS * VGA_COLS - 1] (vmem v);
        m2 \<leftarrow> fill_cells [(TEXT_ROWS - 1) * VGA_COLS..TEXT_ROWS * VGA_COLS - 1] (vga_cell 32 (vcolor v)) m1;
        Some (v\<lparr>vmem := m2, vrow := TEXT_ROWS - 1\<rparr>)
      })"

definition vga_set_color :: "u8 \<Rightarrow> u8 \<Rightarrow> vga \<Rightarrow> vga" where
  "vga_set_color fg bg v = v\<lparr>vcolor := push_bit 4 bg OR (fg AND 0x0F)\<rparr>"

definition vga_clear :: "vga \<Rightarrow> vga option" where
  "vga_clear v = do {
     m \<leftarrow> fill_cells [0..TEXT_ROWS * VGA_COLS - 1] (vga_cell 32 (vcolor v)) (vmem v);
     Some (move_hw_cursor (v\<lparr>vmem := m, vrow := 0, vcol := 0\<rparr>))
   }"

definition vga_finish :: "vga \<Rightarrow> vga option" where
  "vga_finish v0 =
     (let v = (if VGA_COLS \<le> vcol v0 then v0\<lparr>vcol := 0, vrow := vrow v0 + 1\<rparr> else v0)
      in do { v1 \<leftarrow> vga_scroll v; Some (move_hw_cursor v1) })"

definition vga_putc :: "u8 \<Rightarrow> vga \<Rightarrow> vga option" where
  "vga_putc c v =
     (if c = 10 then vga_finish (v\<lparr>vcol := 0, vrow := vrow v + 1\<rparr>)
      else if c = 13 then vga_finish (v\<lparr>vcol := 0\<rparr>)
      else if c = 8 then
        vga_finish (if 0 < vcol v then v\<lparr>vcol := vcol v - 1\<rparr>
                    else if 0 < vrow v then v\<lparr>vrow := vrow v - 1, vcol := VGA_COLS - 1\<rparr> else v)
      else if c = 9 then vga_finish (v\<lparr>vcol := (vcol v + 8) AND NOT 7\<rparr>)
      else if c < 0x20 then Some v
      else do {
        m \<leftarrow> set_cell (vrow v * VGA_COLS + vcol v) (vga_cell c (vcolor v)) (vmem v);
        vga_finish (v\<lparr>vmem := m, vcol := vcol v + 1\<rparr>)
      })"

fun vga_write :: "u8 list \<Rightarrow> vga \<Rightarrow> vga option" where
  "vga_write [] v = Some v"
| "vga_write (c # cs) v = do { v1 \<leftarrow> vga_putc c v; vga_write cs v1 }"

definition vga_get_cursor :: "vga \<Rightarrow> int \<times> int" where
  "vga_get_cursor v = (vrow v, vcol v)"

fun status_cells :: "int \<Rightarrow> cstr \<Rightarrow> u8 \<Rightarrow> u16 list \<Rightarrow> u16 list option" where
  "status_cells i [] attr m = fill_cells [STATUS_ROW * VGA_COLS + i..STATUS_ROW * VGA_COLS + VGA_COLS - 1] (vga_cell 32 attr) m"
| "status_cells i (c # cs) attr m =
     (if c = 0 \<or> VGA_COLS \<le> i
      then fill_cells [STATUS_ROW * VGA_COLS + i..STATUS_ROW * VGA_COLS + VGA_COLS - 1] (vga_cell 32 attr) m
      else do { m1 \<leftarrow> set_cell (STATUS_ROW * VGA_COLS + i) (vga_cell c attr) m; status_cells (i + 1) cs attr m1 })"

definition vga_status :: "cstr \<Rightarrow> vga \<Rightarrow> vga option" where
  "vga_status txt v = do { m \<leftarrow> status_cells 0 txt 0x1F (vmem v); Some (v\<lparr>vmem := m\<rparr>) }"

definition vga_init :: "vga \<Rightarrow> vga option" where
  "vga_init v = do {
     v1 \<leftarrow> vga_clear (v\<lparr>crtc := (crtc v)(0x0A := 0x0E, 0x0B := 0x0F), vrow := 0, vcol := 0\<rparr>);
     vga_status [32, 83, 105, 102, 97, 114, 79, 83, 32, 0] v1
   }"

section \<open>Framebuffer console\<close>

definition MARGIN :: int where "MARGIN = 8"

record fbcon =
  f_cols :: int
  f_rows :: int
  f_row :: int
  f_col :: int
  f_ready :: bool
  f_fg :: u32
  f_bg :: u32
  dirty_x0 :: int
  dirty_y0 :: int
  dirty_x1 :: int
  dirty_y1 :: int
  screen :: gfx_surface
  f_available :: bool
  fb :: "u32 list"
  fb_width :: int
  fb_height :: int
  fb_stride :: int
  rom_font :: "u8 list"

definition dirty_add :: "int \<Rightarrow> int \<Rightarrow> int \<Rightarrow> int \<Rightarrow> fbcon \<Rightarrow> fbcon" where
  "dirty_add x y w h f =
     (if dirty_x1 f \<le> dirty_x0 f \<or> dirty_y1 f \<le> dirty_y0 f
      then f\<lparr>dirty_x0 := x, dirty_y0 := y, dirty_x1 := x + w, dirty_y1 := y + h\<rparr>
      else f\<lparr>dirty_x0 := (if x < dirty_x0 f then x else dirty_x0 f), dirty_y0 := (if y < dirty_y0 f then y else dirty_y0 f),
             dirty_x1 := (if dirty_x1 f < x + w then x + w else dirty_x1 f), dirty_y1 := (if dirty_y1 f < y + h then y + h else dirty_y1 f)\<rparr>)"

definition fbcon_flush :: "fbcon \<Rightarrow> fbcon option" where
  "fbcon_flush f = do {
     fb1 \<leftarrow> (if dirty_x0 f < dirty_x1 f \<and> dirty_y0 f < dirty_y1 f
       then gfx_present_rect (f_available f) (screen f) (fb_width f) (fb_height f) (fb_stride f) (dirty_x0 f) (dirty_y0 f)
              (dirty_x1 f - dirty_x0 f) (dirty_y1 f - dirty_y0 f) (fb f)
       else Some (fb f));
     Some (f\<lparr>fb := fb1, dirty_x0 := 0, dirty_y0 := 0, dirty_x1 := 0, dirty_y1 := 0\<rparr>)
   }"

definition fbcon_init :: "fbcon \<Rightarrow> (int \<times> fbcon) option" where
  "fbcon_init f =
     (if \<not> f_available f then Some (- 1, f)
      else do {
        s \<leftarrow> gfx_clear (f_bg f) (screen f);
        fb1 \<leftarrow> gfx_present (f_available f) s (fb_width f) (fb_height f) (fb_stride f) (fb f);
        Some (0, f\<lparr>f_cols := (s_width (screen f) - MARGIN * 2) sdiv GLYPH_W, f_rows := (s_height (screen f) - MARGIN * 2) sdiv GLYPH_H,
          f_row := 0, f_col := 0, screen := s, fb := fb1, f_ready := True\<rparr>)
      })"

definition fbcon_disable :: "fbcon \<Rightarrow> fbcon" where
  "fbcon_disable f = f\<lparr>f_ready := False\<rparr>"

definition fbcon_set_colors :: "u32 \<Rightarrow> u32 \<Rightarrow> fbcon \<Rightarrow> fbcon" where
  "fbcon_set_colors foreground background f = f\<lparr>f_fg := foreground, f_bg := background\<rparr>"

text \<open>One \<^verbatim>\<open>memcpy\<close> per row; source and destination are different rows.\<close>

fun scroll_rows :: "int \<Rightarrow> int \<Rightarrow> int \<Rightarrow> int list \<Rightarrow> u32 list \<Rightarrow> u32 list option" where
  "scroll_rows st w line [] px = Some px"
| "scroll_rows st w line (y # ys) px = do {
     px1 \<leftarrow> row_loop (\<lambda>col _. get_px px ((MARGIN + y + line) * st + col)) ((MARGIN + y) * st) [0..w - 1] px;
     scroll_rows st w line ys px1
   }"

definition fbcon_scroll :: "fbcon \<Rightarrow> fbcon option" where
  "fbcon_scroll f =
     (let s = screen f; line = GLYPH_H; height = f_rows f * GLYPH_H
      in do {
        px \<leftarrow> scroll_rows (stride s) (s_width s) line [0..height - line - 1] (pixels s);
        s1 \<leftarrow> gfx_fill_rect 0 (MARGIN + height - line) (s_width s) line (f_bg f) (s\<lparr>pixels := px\<rparr>);
        Some (dirty_add 0 MARGIN (s_width s) height (f\<lparr>screen := s1, f_row := f_rows f - 1\<rparr>))
      })"

partial_function (option) scroll_while :: "fbcon \<Rightarrow> fbcon option" where
  "scroll_while f = (if f_rows f \<le> f_row f then do { f1 \<leftarrow> fbcon_scroll f; scroll_while f1 } else Some f)"

definition fbcon_finish :: "u8 \<Rightarrow> fbcon \<Rightarrow> fbcon option" where
  "fbcon_finish c f0 =
     (let f = (if f_cols f0 \<le> f_col f0 then f0\<lparr>f_col := 0, f_row := f_row f0 + 1\<rparr> else f0)
      in do { f1 \<leftarrow> scroll_while f; if c = 10 then fbcon_flush f1 else Some f1 })"

definition fbcon_putc :: "u8 \<Rightarrow> fbcon \<Rightarrow> fbcon option" where
  "fbcon_putc c f =
     (if \<not> f_ready f then Some f
      else if c = 10 then fbcon_finish c (f\<lparr>f_col := 0, f_row := f_row f + 1\<rparr>)
      else if c = 13 then fbcon_finish c (f\<lparr>f_col := 0\<rparr>)
      else if c = 9 then fbcon_finish c (f\<lparr>f_col := (f_col f + 8) AND NOT 7\<rparr>)
      else if c = 8 then fbcon_finish c (if 0 < f_col f then f\<lparr>f_col := f_col f - 1\<rparr> else f)
      else if c < 0x20 then Some f
      else
        let x = MARGIN + f_col f * GLYPH_W; y = MARGIN + f_row f * GLYPH_H
        in do {
          s1 \<leftarrow> gfx_fill_rect x y GLYPH_W GLYPH_H (f_bg f) (screen f);
          s2 \<leftarrow> gfx_char (rom_font f) x y c (f_fg f) 1 s1;
          fbcon_finish c ((dirty_add x y GLYPH_W GLYPH_H (f\<lparr>screen := s2\<rparr>))\<lparr>f_col := f_col f + 1\<rparr>)
        })"

section \<open>Console\<close>

definition KLOG_SIZE :: u32 where "KLOG_SIZE = 65536"

record console =
  klog :: "nat \<Rightarrow> u8"
  klog_head :: u32
  have_serial :: bool
  have_vga_text :: bool
  screen_enabled :: bool
  keyboard_enabled :: bool
  com1 :: uart
  text_screen :: vga
  fbc :: fbcon

definition klog_putc :: "u8 \<Rightarrow> console \<Rightarrow> console" where
  "klog_putc c k = k\<lparr>klog := (klog k)(unat (klog_head k mod KLOG_SIZE) := c), klog_head := klog_head k + 1\<rparr>"

definition console_log_read :: "u32 \<Rightarrow> console \<Rightarrow> u8 list" where
  "console_log_read sz k =
     (let available = (if klog_head k < KLOG_SIZE then klog_head k else KLOG_SIZE);
          start = (if klog_head k < KLOG_SIZE then 0 else klog_head k mod KLOG_SIZE);
          count = (if available < sz then available else sz);
          skip = available - count
      in map (\<lambda>i. klog k (unat ((start + skip + of_nat i) mod KLOG_SIZE))) [0..<unat count])"

definition console_init :: "bool \<Rightarrow> console \<Rightarrow> console option" where
  "console_init text_mode k =
     (let k1 = k\<lparr>com1 := serial_init (com1 k), have_serial := True, have_vga_text := text_mode\<rparr>
      in if text_mode then do { v \<leftarrow> vga_init (text_screen k1); Some (k1\<lparr>text_screen := v\<rparr>) } else Some k1)"

fun replay :: "u8 list \<Rightarrow> fbcon \<Rightarrow> fbcon option" where
  "replay [] f = Some f"
| "replay (c # cs) f = do { f1 \<leftarrow> fbcon_putc c f; replay cs f1 }"

definition console_attach_screen :: "console \<Rightarrow> console option" where
  "console_attach_screen k =
     (let available = (if klog_head k < KLOG_SIZE then klog_head k else KLOG_SIZE);
          start = (if klog_head k < KLOG_SIZE then 0 else klog_head k mod KLOG_SIZE)
      in do {
        f \<leftarrow> replay (map (\<lambda>i. klog k (unat ((start + of_nat i) mod KLOG_SIZE))) [0..<unat available]) (fbc k);
        Some (k\<lparr>fbc := f\<rparr>)
      })"

definition console_set_screen_output :: "bool \<Rightarrow> console \<Rightarrow> console" where
  "console_set_screen_output enabled k =
     (let k1 = k\<lparr>screen_enabled := enabled\<rparr> in if \<not> enabled then k1\<lparr>fbc := fbcon_disable (fbc k1)\<rparr> else k1)"

definition console_set_keyboard_input :: "bool \<Rightarrow> console \<Rightarrow> console" where
  "console_set_keyboard_input enabled k = k\<lparr>keyboard_enabled := enabled\<rparr>"

definition console_putc :: "u8 \<Rightarrow> console \<Rightarrow> console option" where
  "console_putc c k0 =
     (let k1 = klog_putc c k0;
          k = (if have_serial k1 then k1\<lparr>com1 := serial_putc c (com1 k1)\<rparr> else k1)
      in if \<not> screen_enabled k then Some k
         else if have_vga_text k then do { v \<leftarrow> vga_putc c (text_screen k); Some (k\<lparr>text_screen := v\<rparr>) }
         else if f_ready (fbc k) then do { f \<leftarrow> fbcon_putc c (fbc k); Some (k\<lparr>fbc := f\<rparr>) }
         else Some k)"

fun console_write :: "u8 list \<Rightarrow> console \<Rightarrow> console option" where
  "console_write [] k = Some k"
| "console_write (c # cs) k = do { k1 \<leftarrow> console_putc c k; console_write cs k1 }"

definition console_clear :: "console \<Rightarrow> console option" where
  "console_clear k = do {
     k1 \<leftarrow> (if have_vga_text k then do { v \<leftarrow> vga_clear (text_screen k); Some (k\<lparr>text_screen := v\<rparr>) } else Some k);
     Some (if have_serial k1 then k1\<lparr>com1 := serial_write [27, 91, 50, 74, 27, 91, 72] (com1 k1)\<rparr> else k1)
   }"

text \<open>At most \<open>n\<close> polls, until one finds a byte.\<close>

fun poll_until :: "nat \<Rightarrow> uart \<Rightarrow> int \<times> uart" where
  "poll_until 0 u = (- 1, u)"
| "poll_until (Suc n) u = (case serial_poll u of (c, u1) \<Rightarrow> if c < 0 then poll_until n u1 else (c, u1))"

definition decode_serial_escape :: "uart \<Rightarrow> int \<times> uart" where
  "decode_serial_escape u =
     (case poll_until 200000 u of (c1, u1) \<Rightarrow>
        if c1 \<noteq> 91 then (27, u1)
        else case poll_until 200000 u1 of (c2, u2) \<Rightarrow>
          if c2 = 65 then (0x100, u2)
          else if c2 = 66 then (0x101, u2)
          else if c2 = 67 then (0x103, u2)
          else if c2 = 68 then (0x102, u2)
          else if c2 = 72 then (0x104, u2)
          else if c2 = 70 then (0x105, u2)
          else if c2 = 51 then (case poll_until 200000 u2 of (c3, u3) \<Rightarrow> (0x106, u3))
          else (27, u2))"

definition console_trygetc :: "console \<Rightarrow> ps2 \<Rightarrow> int \<times> console \<times> ps2" where
  "console_trygetc k p =
     (case (if keyboard_enabled k then keyboard_trygetc p else (- 1, p)) of (c, p1) \<Rightarrow>
        if 0 \<le> c then (c, k, p1)
        else case serial_poll (com1 k) of (d, u) \<Rightarrow>
          let k1 = k\<lparr>com1 := u\<rparr>
          in if d < 0 then (- 1, k1, p1)
             else if d = 27 then (case decode_serial_escape u of (e, u2) \<Rightarrow> (e, k1\<lparr>com1 := u2\<rparr>, p1))
             else if d = 127 then (8, k1, p1)
             else if d = 13 then (10, k1, p1)
             else (d, k1, p1))"

text \<open>One round of \<^verbatim>\<open>console_getc\<close>; \<open>None\<close> is a round that yields the processor and tries again.\<close>

definition console_getc_round :: "console \<Rightarrow> ps2 \<Rightarrow> int option \<times> console \<times> ps2" where
  "console_getc_round k p = (case console_trygetc k p of (c, k1, p1) \<Rightarrow> (if 0 \<le> c then Some c else None, k1, p1))"

section \<open>The text screen\<close>

definition vga_ok :: "vga \<Rightarrow> bool" where
  "vga_ok v \<longleftrightarrow> length (vmem v) = 2000 \<and> 0 \<le> vrow v \<and> vrow v < TEXT_ROWS \<and> 0 \<le> vcol v \<and> vcol v < VGA_COLS"

definition status_line :: "vga \<Rightarrow> u16 list" where
  "status_line v = drop 1920 (vmem v)"

lemmas vga_sizes = VGA_COLS_def VGA_ROWS_def TEXT_ROWS_def STATUS_ROW_def

lemma fill_cells_ok:
  assumes "\<And>i. i \<in> set is \<Longrightarrow> 0 \<le> i \<and> i < int (length m)"
  shows "\<exists>m'. fill_cells is x m = Some m' \<and> length m' = length m \<and> (\<forall>j. m' ! j = (if int j \<in> set is then x else m ! j))"
  using assms
proof (induction "is" arbitrary: m)
  case (Cons i "is")
  have i: "0 \<le> i" "i < int (length m)" using Cons.prems by auto
  obtain m' where m': "fill_cells is x (m[nat i := x]) = Some m'" "length m' = length m"
    "\<And>j. m' ! j = (if int j \<in> set is then x else (m[nat i := x]) ! j)"
    using Cons.IH [of "m[nat i := x]"] Cons.prems by auto
  have "m' ! j = (if int j \<in> set (i # is) then x else m ! j)" for j
    using m'(3) [of j] i by (auto simp: nth_list_update)
  then show ?case using m' i by (auto simp: set_cell_def)
qed simp

lemma fill_range_ok:
  assumes "0 \<le> a" and "b \<le> int (length m)"
  shows "\<exists>m'. fill_cells [a..b - 1] x m = Some m' \<and> length m' = length m \<and> (\<forall>j. m' ! j = (if a \<le> int j \<and> int j < b then x else m ! j))"
  using fill_cells_ok [of "[a..b - 1]" m x] assms by auto

lemma copy_up_ok:
  assumes "a \<le> b" and "int (length m) \<ge> b" and "VGA_COLS \<le> a"
  shows "\<exists>m'. copy_up [a..b - 1] m = Some m' \<and> length m' = length m \<and>
    (\<forall>j. m' ! j = (if a - VGA_COLS \<le> int j \<and> int j < b - VGA_COLS then m ! (j + nat VGA_COLS) else m ! j))"
  using assms
proof (induction "nat (b - a)" arbitrary: a m)
  case (Suc n)
  then have lt: "a < b" by simp
  have a: "0 \<le> a - VGA_COLS" "a - VGA_COLS < int (length m)" "a < int (length m)" using Suc.prems lt by (auto simp: VGA_COLS_def)
  let ?m = "m[nat (a - VGA_COLS) := m ! nat a]"
  obtain m' where m': "copy_up [a + 1..b - 1] ?m = Some m'" "length m' = length m"
    "\<And>j. m' ! j = (if a + 1 - VGA_COLS \<le> int j \<and> int j < b - VGA_COLS then ?m ! (j + nat VGA_COLS) else ?m ! j)"
  proof -
    have "n = nat (b - (a + 1))" using Suc.hyps(2) by linarith
    then show thesis using Suc.hyps(1) [of "a + 1" ?m] Suc.prems lt that by auto
  qed
  have "m' ! j = (if a - VGA_COLS \<le> int j \<and> int j < b - VGA_COLS then m ! (j + nat VGA_COLS) else m ! j)" for j
  proof (cases "int j = a - VGA_COLS")
    case True
    then have "nat a = j + 80" "nat (a - VGA_COLS) = j" "j < length m" using a by (auto simp: VGA_COLS_def)
    then show ?thesis using m'(3) [of j] True lt by (simp add: VGA_COLS_def)
  next
    case False
    then have "?m ! j = m ! j" "a + 1 - VGA_COLS \<le> int j \<Longrightarrow> ?m ! (j + nat VGA_COLS) = m ! (j + nat VGA_COLS)"
      using a by (auto simp: VGA_COLS_def nth_list_update)
    then show ?thesis using m'(3) [of j] False by auto
  qed
  moreover have "[a..b - 1] = a # [a + 1..b - 1]" using lt by (simp add: upto_rec1)
  ultimately show ?case using m'(1,2) a by (auto simp: set_cell_def)
qed simp

text \<open>Scrolling moves every text row up by one, blanks the last one and leaves the status row alone.\<close>

lemma vga_scroll_ok:
  assumes "length (vmem v) = 2000" and "vrow v = TEXT_ROWS"
  shows "\<exists>v'. vga_scroll v = Some v' \<and> v' = v\<lparr>vmem := vmem v', vrow := TEXT_ROWS - 1\<rparr> \<and> length (vmem v') = 2000 \<and>
    (\<forall>j. vmem v' ! j = (if j < 1840 then vmem v ! (j + 80) else if j < 1920 then vga_cell 32 (vcolor v) else vmem v ! j))"
proof -
  obtain m1 where m1: "copy_up [VGA_COLS..TEXT_ROWS * VGA_COLS - 1] (vmem v) = Some m1" "length m1 = 2000"
    "\<And>j. m1 ! j = (if VGA_COLS - VGA_COLS \<le> int j \<and> int j < TEXT_ROWS * VGA_COLS - VGA_COLS then vmem v ! (j + nat VGA_COLS) else vmem v ! j)"
    using copy_up_ok [of VGA_COLS "TEXT_ROWS * VGA_COLS" "vmem v"] assms by (auto simp: vga_sizes)
  obtain m2 where m2: "fill_cells [(TEXT_ROWS - 1) * VGA_COLS..TEXT_ROWS * VGA_COLS - 1] (vga_cell 32 (vcolor v)) m1 = Some m2" "length m2 = 2000"
    "\<And>j. m2 ! j = (if (TEXT_ROWS - 1) * VGA_COLS \<le> int j \<and> int j < TEXT_ROWS * VGA_COLS then vga_cell 32 (vcolor v) else m1 ! j)"
  proof -
    have "0 \<le> (TEXT_ROWS - 1) * VGA_COLS" "TEXT_ROWS * VGA_COLS \<le> int (length m1)" using m1(2) by (simp_all add: vga_sizes)
    from fill_range_ok [OF this, of "vga_cell 32 (vcolor v)"] show thesis using that m1(2) by auto
  qed
  have "m2 ! j = (if j < 1840 then vmem v ! (j + 80) else if j < 1920 then vga_cell 32 (vcolor v) else vmem v ! j)" for j
    using m2(3) [of j] m1(3) [of j] by (simp add: vga_sizes)
  moreover have "vga_scroll v = Some (v\<lparr>vmem := m2, vrow := TEXT_ROWS - 1\<rparr>)" using m1(1) m2(1) assms by (simp add: vga_scroll_def)
  ultimately show ?thesis using m2(2) by auto
qed

definition cell_at :: "vga \<Rightarrow> int \<Rightarrow> int \<Rightarrow> u16" where
  "cell_at v r k = vmem v ! nat (r * VGA_COLS + k)"

text \<open>The cursor on a page with one more row: where the next character goes, before any scrolling.\<close>

definition wrap_col :: "int \<times> int \<Rightarrow> int \<times> int" where
  "wrap_col = (\<lambda>(r, k). if k = 80 then (r + 1, 0) else (r, k))"

definition advance :: "u8 \<Rightarrow> int \<times> int \<Rightarrow> int \<times> int" where
  "advance c = (\<lambda>(r, k).
     if c = 10 then (r + 1, 0)
     else if c = 13 then (r, 0)
     else if c = 8 then (if 0 < k then (r, k - 1) else if 0 < r then (r - 1, 79) else (r, k))
     else if c = 9 then wrap_col (r, k div 8 * 8 + 8)
     else if c < 0x20 then (r, k)
     else wrap_col (r, k + 1))"

lemma tab_stop: "(k + 8) AND NOT 7 = k div 8 * 8 + 8" for k :: int
proof -
  have "(k + 8) AND NOT 7 = (k + 8) AND NOT (mask 3)" by (simp add: mask_eq_exp_minus_1)
  also have "\<dots> = push_bit 3 (drop_bit 3 (k + 8))"
    by (rule bit_eqI) (auto simp: bit_simps)
  also have "\<dots> = (k + 8) div 8 * 8" by (simp add: push_bit_eq_mult drop_bit_eq_div)
  also have "\<dots> = k div 8 * 8 + 8" by (simp add: div_add_self2 distrib_right)
  finally show ?thesis .
qed

lemma hw_cursor_fields [simp]:
  "vmem (move_hw_cursor v) = vmem v" "vrow (move_hw_cursor v) = vrow v" "vcol (move_hw_cursor v) = vcol v" "vcolor (move_hw_cursor v) = vcolor v"
  by (simp_all add: move_hw_cursor_def Let_def)

text \<open>What is written at the cursor, then the move, then at most one scroll.\<close>

definition vga_put_spec :: "u16 list \<Rightarrow> int \<times> int \<Rightarrow> vga \<Rightarrow> vga \<Rightarrow> bool" where
  "vga_put_spec m rk v v' \<longleftrightarrow> (let up = (if fst rk = TEXT_ROWS then 1 else 0) in
     vga_ok v' \<and> vcolor v' = vcolor v \<and> status_line v' = drop 1920 m \<and> vrow v' = fst rk - up \<and> vcol v' = snd rk \<and>
     (\<forall>r k. 0 \<le> r \<longrightarrow> r < TEXT_ROWS \<longrightarrow> 0 \<le> k \<longrightarrow> k < VGA_COLS \<longrightarrow>
        cell_at v' r k = (if r + up = TEXT_ROWS then vga_cell 32 (vcolor v) else m ! nat ((r + up) * VGA_COLS + k))))"

lemma drop_eqI: "length a = length b \<Longrightarrow> (\<And>j. n \<le> j \<Longrightarrow> a ! j = b ! j) \<Longrightarrow> drop n a = drop n b"
  by (intro nth_equalityI) auto

lemma vga_finish_ok:
  assumes m: "length (vmem v) = 2000" and rk: "wrap_col (vrow v, vcol v) = (r, k)" "0 \<le> r" "r \<le> TEXT_ROWS" "0 \<le> k" "k < VGA_COLS"
    "vcol v \<le> VGA_COLS"
  shows "\<exists>v'. vga_finish v = Some v' \<and> vga_put_spec (vmem v) (r, k) v v'"
proof -
  let ?v = "if VGA_COLS \<le> vcol v then v\<lparr>vcol := 0, vrow := vrow v + 1\<rparr> else v"
  have pos: "vrow ?v = r" "vcol ?v = k" "vmem ?v = vmem v" "vcolor ?v = vcolor v" using rk by (auto simp: wrap_col_def VGA_COLS_def split: if_splits)
  show ?thesis
  proof (cases "r = TEXT_ROWS")
    case True
    obtain v1 where v1: "vga_scroll ?v = Some v1" "v1 = ?v\<lparr>vmem := vmem v1, vrow := TEXT_ROWS - 1\<rparr>" "length (vmem v1) = 2000"
      "\<And>j. vmem v1 ! j = (if j < 1840 then vmem v ! (j + 80) else if j < 1920 then vga_cell 32 (vcolor v) else vmem v ! j)"
      using vga_scroll_ok [of ?v] pos m True by auto
    have f: "vrow v1 = TEXT_ROWS - 1" "vcol v1 = k" "vcolor v1 = vcolor v" using arg_cong [OF v1(2), of vrow] arg_cong [OF v1(2), of vcol] arg_cong [OF v1(2), of vcolor] pos by simp_all
    have c: "cell_at (move_hw_cursor v1) r' k' = (if r' + 1 = TEXT_ROWS then vga_cell 32 (vcolor v) else vmem v ! nat ((r' + 1) * VGA_COLS + k'))"
      if "0 \<le> r'" "r' < TEXT_ROWS" "0 \<le> k'" "k' < VGA_COLS" for r' k'
    proof -
      have "nat ((r' + 1) * VGA_COLS + k') = nat (r' * VGA_COLS + k') + 80" using that by (simp add: VGA_COLS_def nat_add_distrib algebra_simps)
      moreover have "nat (r' * VGA_COLS + k') < 1840 \<longleftrightarrow> r' + 1 \<noteq> TEXT_ROWS" "nat (r' * VGA_COLS + k') < 1920"
        using that by (auto simp: vga_sizes)
      ultimately show ?thesis by (simp add: cell_at_def v1(4))
    qed
    have "vga_put_spec (vmem v) (r, k) v (move_hw_cursor v1)"
      unfolding vga_put_spec_def Let_def using True f v1(3) rk c
      by (auto simp: vga_ok_def status_line_def TEXT_ROWS_def v1(4) m intro!: drop_eqI)
    then show ?thesis using v1(1) by (simp add: vga_finish_def Let_def)
  next
    case False
    then have "vga_scroll ?v = Some ?v" using rk pos by (simp add: vga_scroll_def)
    moreover have "vga_put_spec (vmem v) (r, k) v (move_hw_cursor ?v)"
      using False rk pos m by (auto simp: vga_put_spec_def vga_ok_def status_line_def cell_at_def Let_def)
    ultimately show ?thesis by (auto simp: vga_finish_def Let_def)
  qed
qed

lemma vga_putc_step:
  fixes c :: u8
  assumes "vga_ok v"
  defines "m \<equiv> (if 0x20 \<le> c then (vmem v)[nat (vrow v * VGA_COLS + vcol v) := vga_cell c (vcolor v)] else vmem v)"
  shows "\<exists>v'. vga_putc c v = Some v' \<and> vga_put_spec m (advance c (vrow v, vcol v)) v v'"
proof -
  have v: "length (vmem v) = 2000" "0 \<le> vrow v" "vrow v < 24" "0 \<le> vcol v" "vcol v < 80" using assms(1) by (auto simp: vga_ok_def vga_sizes)
  have small: "\<not> (0x20 :: u8) \<le> 10" "\<not> (0x20 :: u8) \<le> 13" "\<not> (0x20 :: u8) \<le> 8" "\<not> (0x20 :: u8) \<le> 9" by simp_all
  have tab: "0 \<le> vcol v div 8 * 8 + 8" "vcol v div 8 * 8 + 8 \<le> 80" using v(4,5) by presburger+
  have fin: "\<exists>v'. vga_finish w = Some v' \<and> vga_put_spec (vmem w) (wrap_col (vrow w, vcol w)) v v'"
    if "length (vmem w) = 2000" "0 \<le> vrow w" "vrow w \<le> 24" "0 \<le> vcol w" "vcol w \<le> 80" "vrow w < 24 \<or> vcol w < 80" "vcolor w = vcolor v" for w
  proof -
    obtain r k where rk: "wrap_col (vrow w, vcol w) = (r, k)" by (cases "wrap_col (vrow w, vcol w)")
    then have "0 \<le> r" "r \<le> TEXT_ROWS" "0 \<le> k" "k < VGA_COLS" using that by (auto simp: wrap_col_def vga_sizes split: if_splits)
    then show ?thesis using vga_finish_ok [OF that(1) rk] that(5,7) rk by (auto simp: VGA_COLS_def vga_put_spec_def)
  qed
  consider (nl) "c = 10" | (cr) "c = 13" | (bs) "c = 8" | (tab) "c = 9" | (ctl) "c < 0x20" "c \<noteq> 10" "c \<noteq> 13" "c \<noteq> 8" "c \<noteq> 9"
    | (print) "0x20 \<le> c" by (meson linorder_not_less)
  then show ?thesis
  proof cases
    case nl
    then show ?thesis using fin [of "v\<lparr>vcol := 0, vrow := vrow v + 1\<rparr>"] v by (simp add: vga_putc_def m_def advance_def wrap_col_def)
  next
    case cr
    then show ?thesis using fin [of "v\<lparr>vcol := 0\<rparr>"] v by (simp add: vga_putc_def m_def advance_def wrap_col_def)
  next
    case bs
    then show ?thesis using fin [of "v\<lparr>vcol := vcol v - 1\<rparr>"] fin [of "v\<lparr>vrow := vrow v - 1, vcol := VGA_COLS - 1\<rparr>"] fin [of v] v
      by (auto simp: vga_putc_def m_def advance_def wrap_col_def VGA_COLS_def)
  next
    case tab
    then show ?thesis using fin [of "v\<lparr>vcol := vcol v div 8 * 8 + 8\<rparr>"] v \<open>vcol v div 8 * 8 + 8 \<le> 80\<close> \<open>0 \<le> vcol v div 8 * 8 + 8\<close>
      by (simp add: vga_putc_def m_def advance_def tab_stop [simplified])
  next
    case ctl
    then have "m = vmem v" "advance c (vrow v, vcol v) = (vrow v, vcol v)" "vga_putc c v = Some v" by (auto simp: m_def advance_def vga_putc_def)
    then show ?thesis using assms(1) v by (simp add: vga_put_spec_def cell_at_def status_line_def TEXT_ROWS_def)
  next
    case print
    then have ne: "c \<noteq> 10" "c \<noteq> 13" "c \<noteq> 8" "c \<noteq> 9" "\<not> c < 0x20" by auto
    let ?i = "vrow v * VGA_COLS + vcol v"
    have "0 \<le> ?i" "?i < 2000" using v by (simp_all add: VGA_COLS_def)
    then show ?thesis
      using fin [of "v\<lparr>vmem := m, vcol := vcol v + 1\<rparr>"] v ne print
      by (simp add: vga_putc_def m_def advance_def set_cell_def)
  qed
qed

text \<open>
  C36: One character on the text screen, for every character and every screen whose cursor is inside the text area.  The write stays inside the
  memory of the screen and the status row is untouched.  The cursor moves as a terminal moves it (newline, return, a backspace that does not erase and
  goes back over a line end, tab stops every eight columns, wrapping at column 80).  A printable character is stored
  at the old cursor with the current colour; every other cell keeps its value, except that when the cursor has left the last
  row the text moves up one row and the new last row is blank.
\<close>

theorem vga_putc_correct:
  assumes "vga_ok v"
  shows "\<exists>v'. vga_putc c v = Some v' \<and> vga_ok v' \<and> status_line v' = status_line v \<and> vcolor v' = vcolor v \<and>
    (let (r, k) = advance c (vrow v, vcol v); up = (if r = TEXT_ROWS then 1 else 0) in vrow v' = r - up \<and> vcol v' = k \<and>
      (\<forall>i j. 0 \<le> i \<longrightarrow> i < TEXT_ROWS \<longrightarrow> 0 \<le> j \<longrightarrow> j < VGA_COLS \<longrightarrow>
         cell_at v' i j =
           (if i + up = TEXT_ROWS then vga_cell 32 (vcolor v)
            else if 0x20 \<le> c \<and> i + up = vrow v \<and> j = vcol v then vga_cell c (vcolor v)
            else cell_at v (i + up) j)))"
proof -
  let ?m = "if 0x20 \<le> c then (vmem v)[nat (vrow v * VGA_COLS + vcol v) := vga_cell c (vcolor v)] else vmem v"
  obtain r k where rk: "advance c (vrow v, vcol v) = (r, k)" by (cases "advance c (vrow v, vcol v)")
  obtain v' where v': "vga_putc c v = Some v'" "vga_put_spec ?m (r, k) v v'" using vga_putc_step [OF assms, of c] rk by auto
  have v: "length (vmem v) = 2000" "0 \<le> vrow v" "vrow v < 24" "0 \<le> vcol v" "vcol v < 80" using assms by (auto simp: vga_ok_def vga_sizes)
  have cell: "?m ! nat (i * VGA_COLS + j) = (if 0x20 \<le> c \<and> i = vrow v \<and> j = vcol v then vga_cell c (vcolor v) else cell_at v i j)"
    if "0 \<le> i" "i < TEXT_ROWS" "0 \<le> j" "j < VGA_COLS" for i j
  proof -
    have "nat (vrow v * VGA_COLS + vcol v) = nat (i * VGA_COLS + j) \<longleftrightarrow> i = vrow v \<and> j = vcol v"
    proof
      assume "nat (vrow v * VGA_COLS + vcol v) = nat (i * VGA_COLS + j)"
      then have "vrow v * 80 + vcol v = i * 80 + j" using v that by (simp add: VGA_COLS_def nat_eq_iff)
      moreover from this have "vrow v = i"
        using v(4,5) that(3,4) arg_cong [of "vrow v * 80 + vcol v" "i * 80 + j" "\<lambda>x. x div 80"] by (simp add: VGA_COLS_def div_pos_pos_trivial)
      ultimately show "i = vrow v \<and> j = vcol v" by simp
    qed simp
    then show ?thesis using v that by (auto simp: cell_at_def vga_sizes nth_list_update)
  qed
  have st: "drop 1920 ?m = status_line v" using v by (auto simp: status_line_def VGA_COLS_def nat_less_iff)
  show ?thesis
    using v' st cell by (auto simp: vga_put_spec_def rk Let_def TEXT_ROWS_def)
qed

definition blank_vga :: vga where
  "blank_vga = \<lparr>vmem = replicate 2000 0, vcolor = 7, vrow = 23, vcol = 79, crtc = (\<lambda>_. 0)\<rparr>"

theorem vga_putc_correct_witness:
  "\<exists>v'. vga_putc 65 blank_vga = Some v' \<and> cell_at v' 22 79 = 0x0741 \<and> cell_at v' 23 0 = 0x0720 \<and> vcol v' = 0"
proof -
  have ok: "vga_ok blank_vga" by (simp add: vga_ok_def blank_vga_def vga_sizes)
  have adv: "advance 65 (vrow blank_vga, vcol blank_vga) = (24, 0)" by (simp add: advance_def wrap_col_def blank_vga_def)
  have cells: "vga_cell 65 7 = 0x0741" "vga_cell 32 7 = 0x0720" by (simp_all add: vga_cell_def push_bit_eq_mult)
  from vga_putc_correct [OF ok, of 65] obtain v' where "vga_putc 65 blank_vga = Some v'" "vcol v' = 0"
    "\<And>i j. 0 \<le> i \<Longrightarrow> i < 24 \<Longrightarrow> 0 \<le> j \<Longrightarrow> j < 80 \<Longrightarrow> cell_at v' i j =
       (if i + 1 = 24 then 0x0720 else if i + 1 = 23 \<and> j = 79 then 0x0741 else cell_at blank_vga (i + 1) j)"
    unfolding adv by (auto simp: TEXT_ROWS_def VGA_COLS_def Let_def cells, auto simp: blank_vga_def cells)
  then show ?thesis by (intro exI [of _ v']) simp
qed

text \<open>A character above 127 loses its colour: the sign bits cover the attribute byte.\<close>

lemma vga_cell_high: "vga_cell 0xE9 0x07 = 0xFFE9" "vga_cell 0x69 0x07 = 0x0769"
  by (simp_all add: vga_cell_def push_bit_eq_mult)

section \<open>The framebuffer console\<close>

definition fb_ok :: "fbcon \<Rightarrow> bool" where
  "fb_ok f \<longleftrightarrow> surf_ok (screen f) \<and> (0 < f_rows f \<longrightarrow> (f_rows f + 1) * GLYPH_H \<le> s_height (screen f)) \<and>
     (f_available f \<longrightarrow> fb_width f \<le> s_width (screen f) \<and> fb_height f \<le> s_height (screen f) \<and> 0 < fb_stride f \<and> fb_width f \<le> fb_stride f \<and>
        fb_height f * fb_stride f \<le> int (length (fb f)))"

lemma scroll_rows_ok:
  assumes "0 \<le> w" "w \<le> st" "0 \<le> line"
    and "\<And>y. y \<in> set ys \<Longrightarrow> 0 \<le> MARGIN + y \<and> (MARGIN + y + line + 1) * st \<le> int (length px)"
  shows "\<exists>px'. scroll_rows st w line ys px = Some px' \<and> length px' = length px"
  using assms(4)
proof (induction ys arbitrary: px)
  case (Cons y ys)
  have y: "0 \<le> MARGIN + y" "(MARGIN + y + line + 1) * st \<le> int (length px)" using Cons.prems by auto
  have ix: "0 \<le> (MARGIN + y) * st + col \<and> (MARGIN + y) * st + col < int (length px) \<and> get_px px ((MARGIN + y + line) * st + col) \<noteq> None"
    if "col \<in> set [0..w - 1]" for col
  proof -
    have "0 \<le> line * st" "0 \<le> (MARGIN + y) * st" "0 \<le> col" "col < st" using that y(1) assms(1-3) by auto
    then show ?thesis using y(2) by (simp add: get_px_def algebra_simps)
  qed
  obtain p1 where "row_loop (\<lambda>col _. get_px px ((MARGIN + y + line) * st + col)) ((MARGIN + y) * st) [0..w - 1] px = Some p1" "length p1 = length px"
    using row_loop_spec [of "[0..w - 1]" "(MARGIN + y) * st" px "\<lambda>col _. get_px px ((MARGIN + y + line) * st + col)"] ix by auto
  moreover from this(2) have "\<exists>px'. scroll_rows st w line ys p1 = Some px' \<and> length px' = length p1" using Cons.prems by (intro Cons.IH) simp
  ultimately show ?case by auto
qed simp

lemma fbcon_scroll_ok:
  assumes "fb_ok f"
  shows "\<exists>f'. fbcon_scroll f = Some f' \<and> fb_ok f' \<and> f_row f' < f_rows f' \<and> f_ready f' = f_ready f"
proof -
  let ?s = "screen f"
  note s = assms [unfolded fb_ok_def]
  have rows: "0 \<le> MARGIN + y \<and> (MARGIN + y + GLYPH_H + 1) * stride ?s \<le> int (length (pixels ?s))"
    if "y \<in> set [0..f_rows f * GLYPH_H - GLYPH_H - 1]" for y
  proof -
    have "MARGIN + y + GLYPH_H + 1 \<le> s_height ?s" using that s by (auto simp: MARGIN_def GLYPH_H_def)
    then have "(MARGIN + y + GLYPH_H + 1) * stride ?s \<le> s_height ?s * stride ?s" using s by (intro mult_right_mono) (auto simp: surf_ok_def)
    moreover have "s_height ?s * stride ?s \<le> int (length (pixels ?s))" using s by (simp add: surf_ok_def)
    ultimately show ?thesis using that by (simp add: MARGIN_def)
  qed
  obtain px where px: "scroll_rows (stride ?s) (s_width ?s) GLYPH_H [0..f_rows f * GLYPH_H - GLYPH_H - 1] (pixels ?s) = Some px" "length px = length (pixels ?s)"
  proof -
    have "0 \<le> s_width ?s" "s_width ?s \<le> stride ?s" "0 \<le> GLYPH_H" using s by (auto simp: surf_ok_def GLYPH_H_def)
    from scroll_rows_ok [OF this rows] show thesis using that by blast
  qed
  have ok: "surf_ok (?s\<lparr>pixels := px\<rparr>)" using s px(2) by (simp add: surf_ok_def)
  obtain s1 where s1: "gfx_fill_rect 0 (MARGIN + f_rows f * GLYPH_H - GLYPH_H) (s_width ?s) GLYPH_H (f_bg f) (?s\<lparr>pixels := px\<rparr>) = Some s1"
    "same_shape (?s\<lparr>pixels := px\<rparr>) s1"
    using fill_rect_spec [OF ok] by metis
  have "surf_ok s1" "s_width s1 = s_width ?s" "s_height s1 = s_height ?s" using shape_fields [OF s1(2)] ok by auto
  then show ?thesis using s px(1) s1(1) by (simp add: fbcon_scroll_def Let_def dirty_add_def fb_ok_def)
qed

lemma scroll_while_ok:
  assumes "fb_ok f"
  shows "\<exists>f'. scroll_while f = Some f' \<and> fb_ok f' \<and> f_ready f' = f_ready f"
proof (cases "f_rows f \<le> f_row f")
  case True
  obtain f1 where f1: "fbcon_scroll f = Some f1" "fb_ok f1" "f_row f1 < f_rows f1" "f_ready f1 = f_ready f" using fbcon_scroll_ok [OF assms] by blast
  have "scroll_while f1 = Some f1" using f1(3) by (subst scroll_while.simps) simp
  then have "scroll_while f = Some f1" using True f1(1) by (subst scroll_while.simps) simp
  then show ?thesis using f1 by blast
next
  case False
  then have "scroll_while f = Some f" by (subst scroll_while.simps) simp
  then show ?thesis using assms by blast
qed

lemma row_end:
  fixes Y H X st n :: int
  assumes "Y < H" "X < st" "0 \<le> st" "H * st \<le> n"
  shows "Y * st + X < n"
proof -
  have "(Y + 1) * st \<le> H * st" using assms by (intro mult_right_mono) auto
  then show ?thesis using assms by (simp add: distrib_right)
qed

lemma present_rect_ok:
  assumes bk: "surf_ok back" and fit: "fw \<le> s_width back" "fh \<le> s_height back" "fw \<le> fs" "0 < fs" "fh * fs \<le> int (length fb0)"
  shows "\<exists>fb1. gfx_present_rect av back fw fh fs x y w h fb0 = Some fb1 \<and> length fb1 = length fb0"
proof -
  define x1 w1 y1 h1 where d: "x1 = max x 0" "w1 = min (x + w) fw - max x 0" "y1 = max y 0" "h1 = min (y + h) fh - max y 0"
  show ?thesis
  proof (cases "av \<and> 0 < w1 \<and> 0 < h1")
    case True
    have g: "0 \<le> x1" "x1 + w1 \<le> fs" "0 \<le> y1" "y1 + h1 \<le> fh" "x1 + w1 \<le> stride back" "0 \<le> stride back"
      "s_height back * stride back \<le> int (length (pixels back))"
      using d fit bk by (auto simp: surf_ok_def)
    have rows: "0 \<le> y1 + row \<and> (y1 + row) * fs + fs \<le> int (length fb0)" if "row \<in> set [0..h1 - 1]" for row
    proof -
      have "(y1 + row + 1) * fs \<le> fh * fs" using that g(4) fit(4) by (intro mult_right_mono) auto
      then show ?thesis using that g(3) fit(5) by (auto simp: algebra_simps)
    qed
    have "get_px (pixels back) ((y1 + row) * stride back + x1 + col) \<noteq> None" if "row \<in> set [0..h1 - 1]" "0 \<le> col" "col < w1" for row col
    proof -
      have "(y1 + row) * stride back + (x1 + col) < int (length (pixels back))"
        using that g fit(2) by (intro row_end [of _ "s_height back"]) auto
      then show ?thesis using that g by (simp add: get_px_def add.assoc)
    qed
    then obtain px' where "rect_loop (\<lambda>row col _. get_px (pixels back) ((y1 + row) * stride back + x1 + col))
        (\<lambda>row. (y1 + row) * fs + x1) w1 [0..h1 - 1] fb0 = Some px'" "length px' = length fb0"
      using rect_loop_spec [where f = "\<lambda>row col _. get_px (pixels back) ((y1 + row) * stride back + x1 + col)" and y = y1 and px = fb0,
          OF g(1,2) fit(4) distinct_upto [of 0 "h1 - 1"] rows] by blast
    then show ?thesis using True by (simp add: gfx_present_rect_def cut_eq d)
  next
    case False
    then show ?thesis by (auto simp: gfx_present_rect_def cut_eq d)
  qed
qed

lemma fbcon_flush_ok:
  assumes "fb_ok f"
  shows "\<exists>f'. fbcon_flush f = Some f' \<and> fb_ok f' \<and> f_ready f' = f_ready f"
proof -
  note f = assms [unfolded fb_ok_def]
  have "\<exists>fb1. gfx_present_rect (f_available f) (screen f) (fb_width f) (fb_height f) (fb_stride f) x y w h (fb f) = Some fb1 \<and> length fb1 = length (fb f)" for x y w h
  proof (cases "f_available f")
    case True
    then show ?thesis using present_rect_ok [of "screen f" "fb_width f" "fb_height f" "fb_stride f" "fb f"] f by simp
  qed (simp add: gfx_present_rect_def)
  then obtain fb1 where "(if dirty_x0 f < dirty_x1 f \<and> dirty_y0 f < dirty_y1 f
       then gfx_present_rect (f_available f) (screen f) (fb_width f) (fb_height f) (fb_stride f) (dirty_x0 f) (dirty_y0 f)
              (dirty_x1 f - dirty_x0 f) (dirty_y1 f - dirty_y0 f) (fb f)
       else Some (fb f)) = Some fb1" "length fb1 = length (fb f)"
    by (cases "dirty_x0 f < dirty_x1 f \<and> dirty_y0 f < dirty_y1 f") (simp_all, blast)
  then show ?thesis using f by (simp add: fbcon_flush_def fb_ok_def)
qed

lemma fb_ok_same_screen: "screen f' = screen f \<Longrightarrow> f_rows f' = f_rows f \<Longrightarrow> f_available f' = f_available f \<Longrightarrow> fb f' = fb f \<Longrightarrow>
    fb_width f' = fb_width f \<Longrightarrow> fb_height f' = fb_height f \<Longrightarrow> fb_stride f' = fb_stride f \<Longrightarrow> fb_ok f' = fb_ok f"
  by (simp add: fb_ok_def)

lemma fb_ok_draw:
  assumes "fb_ok f" and "safe d"
  shows "\<exists>s. d (screen f) = Some s \<and> fb_ok (f\<lparr>screen := s\<rparr>)"
proof -
  obtain s where s: "d (screen f) = Some s" "same_shape (screen f) s" using assms by (auto simp: fb_ok_def safe_def confined_def)
  then show ?thesis using assms(1) shape_fields [OF s(2)] by (auto simp: fb_ok_def)
qed

lemma fbcon_finish_ok:
  assumes "fb_ok f"
  shows "\<exists>f'. fbcon_finish c f = Some f' \<and> fb_ok f' \<and> f_ready f' = f_ready f"
proof -
  let ?f = "if f_cols f \<le> f_col f then f\<lparr>f_col := 0, f_row := f_row f + 1\<rparr> else f"
  have "fb_ok ?f" using assms by (auto simp: fb_ok_def)
  moreover have "f_ready ?f = f_ready f" by simp
  ultimately obtain f1 where "scroll_while ?f = Some f1" "fb_ok f1" "f_ready f1 = f_ready f" using scroll_while_ok by metis
  then show ?thesis using fbcon_flush_ok [of f1] by (auto simp: fbcon_finish_def Let_def)
qed

lemma fbcon_putc_ok:
  assumes ok: "fb_ok f"
  shows "\<exists>f'. fbcon_putc c f = Some f' \<and> fb_ok f' \<and> f_ready f' = f_ready f"
proof -
  have fin: "\<exists>f'. fbcon_finish c g = Some f' \<and> fb_ok f' \<and> f_ready f'" if "fb_ok g" "f_ready g" for c g
    using fbcon_finish_ok [OF that(1)] that(2) by auto
  let ?x = "MARGIN + f_col f * GLYPH_W" and ?y = "MARGIN + f_row f * GLYPH_H"
  obtain s1 where s1: "gfx_fill_rect ?x ?y GLYPH_W GLYPH_H (f_bg f) (screen f) = Some s1" "fb_ok (f\<lparr>screen := s1\<rparr>)"
    using fb_ok_draw [OF ok safe_fill] by blast
  obtain s2 where s2: "gfx_char (rom_font f) ?x ?y c (f_fg f) 1 s1 = Some s2" "fb_ok (f\<lparr>screen := s2\<rparr>)"
    using fb_ok_draw [OF s1(2) safe_char [of "rom_font f" ?x ?y c "f_fg f" 1]] by auto
  have "fb_ok ((dirty_add ?x ?y GLYPH_W GLYPH_H (f\<lparr>screen := s2\<rparr>))\<lparr>f_col := f_col f + 1\<rparr>)"
    using s2(2) by (simp add: dirty_add_def fb_ok_def)
  moreover have "fb_ok (f\<lparr>f_col := a, f_row := b\<rparr>)" "fb_ok (f\<lparr>f_col := a\<rparr>)" for a b using ok by (simp_all add: fb_ok_def)
  moreover have "f_ready (dirty_add x y w h g) = f_ready g" for x y w h g by (simp add: dirty_add_def)
  ultimately show ?thesis
    using ok s1(1) s2(1) by (auto simp: fbcon_putc_def Let_def intro!: fin)
qed

section \<open>The kernel log\<close>

definition cons_ok :: "console \<Rightarrow> bool" where
  "cons_ok k \<longleftrightarrow> (have_vga_text k \<longrightarrow> vga_ok (text_screen k)) \<and> fb_ok (fbc k)"

text \<open>The ring holds the last 65536 of the bytes written.\<close>

definition logged :: "console \<Rightarrow> u8 list \<Rightarrow> bool" where
  "logged k hist \<longleftrightarrow> length hist < 2 ^ 32 \<and> klog_head k = of_nat (length hist) \<and>
     (\<forall>i < length hist. length hist \<le> i + 65536 \<longrightarrow> klog k (i mod 65536) = hist ! i)"

lemma mod_same_near:
  fixes i j :: nat
  assumes "i < j" and "j < i + 65536"
  shows "i mod 65536 \<noteq> j mod 65536"
proof
  assume "i mod 65536 = j mod 65536"
  then have "65536 dvd j - i" using assms mod_eq_dvd_iff_nat [of i j 65536] by simp
  then show False using assms by (auto dest: dvd_imp_le)
qed

lemma klog_putc_logged:
  assumes "logged k hist" and "length hist + 1 < 2 ^ 32"
  shows "logged (klog_putc c k) (hist @ [c])"
proof -
  have h: "unat (klog_head k mod KLOG_SIZE) = length hist mod 65536"
    using assms by (simp add: logged_def KLOG_SIZE_def unat_mod unat_of_nat)
  have old: "((klog k)(length hist mod 65536 := c)) (i mod 65536) = hist ! i" if "i < length hist" "Suc (length hist) \<le> i + 65536" for i
    using assms that mod_same_near [of i "length hist"] by (auto simp: logged_def)
  have k: "klog (klog_putc c k) = (klog k)(length hist mod 65536 := c)" "klog_head (klog_putc c k) = of_nat (length (hist @ [c]))"
    using assms(1) by (simp_all add: klog_putc_def h, simp add: logged_def)
  have "klog (klog_putc c k) (i mod 65536) = (hist @ [c]) ! i" if "i < length (hist @ [c])" "length (hist @ [c]) \<le> i + 65536" for i
    using old [of i] that unfolding k by (cases "i = length hist") (auto simp: nth_append)
  then show ?thesis using assms(2) unfolding logged_def k(2) by simp
qed

lemma log_read_logged:
  assumes "logged k hist"
  shows "console_log_read n k = drop (length hist - min (unat n) 65536) hist"
proof -
  let ?L = "length hist"
  have L: "?L < 2 ^ 32" "unat (klog_head k) = ?L" using assms by (auto simp: logged_def unat_of_nat)
  define av where "av = min ?L 65536"
  have hd: "klog_head k < KLOG_SIZE \<longleftrightarrow> ?L < 65536" by (simp add: word_less_nat_alt L(2) KLOG_SIZE_def)
  define A :: u32 where "A = (if klog_head k < KLOG_SIZE then klog_head k else KLOG_SIZE)"
  define S :: u32 where "S = (if klog_head k < KLOG_SIZE then 0 else klog_head k mod KLOG_SIZE)"
  define C where "C = (if A < n then A else n)"
  have A: "unat A = av" using hd L(2) by (auto simp: A_def av_def KLOG_SIZE_def)
  have S: "unat S = (if ?L < 65536 then 0 else ?L mod 65536)" using hd L(2) by (auto simp: S_def unat_mod KLOG_SIZE_def)
  have C: "unat C = min av (unat n)" by (simp add: C_def word_less_nat_alt A min_def)
  have CA: "C \<le> A" by (auto simp: C_def)
  have sub: "unat (A - C) = av - unat C" using CA by (simp add: unat_sub A)
  have idx: "unat ((S + (A - C) + of_nat i) mod KLOG_SIZE) = (?L - unat C + i) mod 65536" if "i < unat C" for i
  proof -
    have le: "unat S < 65536" "av \<le> 65536" "i < 65536" using that C S by (auto simp: av_def)
    have "unat (S + (A - C) + of_nat i) = unat S + (av - unat C) + i"
    proof -
      have "unat S + (av - unat C) + i < 4294967296" using le by linarith
      then show ?thesis by (simp add: unat_plus_if_size word_size sub unat_of_nat)
    qed
    then have "unat ((S + (A - C) + of_nat i) mod KLOG_SIZE) = (unat S + (av - unat C) + i) mod 65536" by (simp add: unat_mod KLOG_SIZE_def)
    also have "\<dots> = (?L - unat C + i) mod 65536"
    proof (cases "?L < 65536")
      case False
      have "unat C \<le> 65536" "av = 65536" using C False by (auto simp: av_def)
      then have "(unat S + (av - unat C) + i) mod 65536 = (?L mod 65536 + ((65536 - unat C) + i)) mod 65536" using S False by (simp only: add.assoc if_False)
      then have "(unat S + (av - unat C) + i) mod 65536 = (?L + (65536 - unat C) + i) mod 65536" by (simp only: mod_add_left_eq add.assoc)
      also have "\<dots> = (?L - unat C + i + 65536) mod 65536" using \<open>unat C \<le> 65536\<close> False by (simp add: algebra_simps)
      finally show ?thesis by simp
    qed (simp add: S av_def)
    finally show ?thesis .
  qed
  have len: "unat C = length (drop (?L - min (unat n) 65536) hist)" by (auto simp: C av_def)
  have CL: "?L - (?L - min (unat n) 65536) = unat C" by (auto simp: C av_def)
  have off: "?L - unat C = ?L - min (unat n) 65536" by (auto simp: C av_def)
  have "console_log_read n k = map (\<lambda>i. klog k (unat ((S + (A - C) + of_nat i) mod KLOG_SIZE))) [0..<unat C]"
    by (simp add: console_log_read_def Let_def A_def S_def C_def)
  also have "\<dots> = drop (?L - min (unat n) 65536) hist"
  proof (rule nth_equalityI)
    fix i
    assume "i < length (map (\<lambda>i. klog k (unat ((S + (A - C) + of_nat i) mod KLOG_SIZE))) [0..<unat C])"
    then have i: "i < unat C" by simp
    then have "?L - unat C + i < ?L" "?L \<le> ?L - unat C + i + 65536" using C by (auto simp: av_def)
    then have "klog k ((?L - unat C + i) mod 65536) = hist ! (?L - unat C + i)" using assms by (simp add: logged_def)
    then show "map (\<lambda>i. klog k (unat ((S + (A - C) + of_nat i) mod KLOG_SIZE))) [0..<unat C] ! i = drop (?L - min (unat n) 65536) hist ! i"
      using i idx [OF i] by (simp add: off)
  qed (simp add: len)
  finally show ?thesis .
qed

lemma console_putc_ok:
  assumes "cons_ok k" and "logged k hist" and "length hist + 1 < 2 ^ 32"
  shows "\<exists>k'. console_putc c k = Some k' \<and> cons_ok k' \<and> logged k' (hist @ [c])"
proof -
  let ?k = "(if have_serial (klog_putc c k) then (klog_putc c k)\<lparr>com1 := serial_putc c (com1 (klog_putc c k))\<rparr> else klog_putc c k)"
  have lg: "logged ?k (hist @ [c])" using klog_putc_logged [OF assms(2,3), of c] by (simp add: logged_def)
  have f: "text_screen ?k = text_screen k" "fbc ?k = fbc k" "have_vga_text ?k = have_vga_text k" by (simp_all add: klog_putc_def)
  show ?thesis
  proof (cases "screen_enabled ?k")
    case True
    have lg': "logged (?k\<lparr>text_screen := v\<rparr>) (hist @ [c])" "logged (?k\<lparr>fbc := g\<rparr>) (hist @ [c])" for v g using lg by (simp_all add: logged_def)
    consider (vga) "have_vga_text ?k" | (fb) "\<not> have_vga_text ?k" "f_ready (fbc ?k)" | (none) "\<not> have_vga_text ?k" "\<not> f_ready (fbc ?k)" by blast
    then show ?thesis
    proof cases
      case vga
      then have "vga_ok (text_screen ?k)" using assms(1) f by (simp add: cons_ok_def)
      from vga_putc_step [OF this, of c] obtain v' where "vga_putc c (text_screen ?k) = Some v'" "vga_ok v'"
        by (auto simp: vga_put_spec_def Let_def)
      then show ?thesis using True vga lg'(1) assms(1) f unfolding console_putc_def Let_def
        by (intro exI [of _ "?k\<lparr>text_screen := v'\<rparr>"]) (simp add: cons_ok_def)
    next
      case fb
      obtain g where "fbcon_putc c (fbc ?k) = Some g" "fb_ok g" using fbcon_putc_ok [of "fbc ?k" c] assms(1) f by (auto simp: cons_ok_def)
      then show ?thesis using True fb lg'(2) f unfolding console_putc_def Let_def
        by (intro exI [of _ "?k\<lparr>fbc := g\<rparr>"]) (simp add: cons_ok_def)
    next
      case none
      then show ?thesis using True lg f assms(1) unfolding console_putc_def Let_def by (intro exI [of _ ?k]) (simp add: cons_ok_def)
    qed
  next
    case False
    then show ?thesis using lg f assms(1) unfolding console_putc_def Let_def by (intro exI [of _ ?k]) (simp add: cons_ok_def)
  qed
qed

lemma console_write_ok:
  assumes "cons_ok k" and "logged k hist" and "length hist + length cs < 2 ^ 32"
  shows "\<exists>k'. console_write cs k = Some k' \<and> cons_ok k' \<and> logged k' (hist @ cs)"
  using assms
proof (induction cs arbitrary: k hist)
  case (Cons c cs)
  obtain k1 where "console_putc c k = Some k1" "cons_ok k1" "logged k1 (hist @ [c])" using console_putc_ok [OF Cons.prems(1,2), of c] Cons.prems(3) by auto
  then show ?case using Cons.IH [of k1 "hist @ [c]"] Cons.prems(3) by simp
qed simp

definition boot_console :: console where
  "boot_console =
     \<lparr>klog = (\<lambda>_. 0), klog_head = 0, have_serial = False, have_vga_text = False, screen_enabled = True, keyboard_enabled = True,
      com1 = \<lparr>u_present = False, lsr = (\<lambda>_. 0), lsr_reads = 0, rx = (\<lambda>_. 0), rx_reads = 0, outs = []\<rparr>,
      text_screen = \<lparr>vmem = replicate 2000 0, vcolor = 7, vrow = 0, vcol = 0, crtc = (\<lambda>_. 0)\<rparr>,
      fbc = \<lparr>f_cols = 0, f_rows = 0, f_row = 0, f_col = 0, f_ready = False, f_fg = RGB 0xC8 0xD3 0xE0, f_bg = RGB 0x0B 0x0E 0x14,
        dirty_x0 = 0, dirty_y0 = 0, dirty_x1 = 0, dirty_y1 = 0, screen = \<lparr>pixels = [], s_width = 0, s_height = 0, stride = 1, clip = \<lparr>r_x = 0, r_y = 0, r_w = 0, r_h = 0\<rparr>\<rparr>,
        f_available = False, fb = [], fb_width = 0, fb_height = 0, fb_stride = 0, rom_font = []\<rparr>\<rparr>"

lemma boot_console_ok: "cons_ok boot_console" "logged boot_console []"
  by (simp_all add: cons_ok_def fb_ok_def surf_ok_def boot_console_def logged_def)

text \<open>
  C35: Console output and the kernel log.  Writing any bytes to a console whose devices are well formed succeeds with every device write in
  bounds, whichever of the serial line, the text screen and the framebuffer is attached, and leaves it well formed.  After it,
  reading the log returns exactly the last bytes ever written, as many as were asked for, up to the 65536 the ring holds, for a
  console that has seen fewer than 4294967296 bytes.
\<close>

theorem console_log_correct:
  assumes "cons_ok k" and "logged k hist" and "length hist + length cs < 2 ^ 32"
  shows "\<exists>k'. console_write cs k = Some k' \<and> cons_ok k' \<and> logged k' (hist @ cs) \<and>
    (\<forall>n. console_log_read n k' = drop (length (hist @ cs) - min (unat n) 65536) (hist @ cs))"
  using console_write_ok [OF assms] log_read_logged by blast

theorem console_log_correct_witness:
  "\<exists>k'. console_write [72, 105, 33] boot_console = Some k' \<and> console_log_read 2 k' = [105, 33]"
proof -
  obtain k' where "console_write [72, 105, 33] boot_console = Some k'"
    "console_log_read 2 k' = drop (length ([] @ [72, 105, 33 :: u8]) - min (unat (2 :: u32)) 65536) ([] @ [72, 105, 33])"
    using console_log_correct [OF boot_console_ok, of "[72, 105, 33]"] by auto
  then show ?thesis by simp
qed

text \<open>Once the counter of written bytes wraps around, the log reads as empty although the ring is full.\<close>

lemma log_lost_on_wrap:
  assumes "klog_head k = 0xFFFFFFFF"
  shows "console_log_read n (klog_putc c k) = []"
proof -
  have "klog_head (klog_putc c k) = 0" using assms by (simp add: klog_putc_def)
  then show ?thesis by (auto simp: console_log_read_def KLOG_SIZE_def Let_def word_greater_zero_iff)
qed
end
