(* ===== verification/Rtc.thy ===== *)
theory Rtc
  imports KString "HOL-Library.Monad_Syntax"
begin

text \<open>
  The clock driver \<^verbatim>\<open>kernel/dev/rtc.c\<close>.  The chip is a parameter of the state: what its registers show on successive reads.  The theorem shows that a tick in the
  middle of reading never produces a mixed time, whatever the encoding of the chip.
\<close>

unbundle bit_operations_syntax

section \<open>Driver\<close>

record rtc_time =
  second :: u8
  minute :: u8
  hour :: u8
  day :: u8
  month :: u8
  year :: u8
  full_year :: u16

record cmos =
  show_reg :: "nat \<Rightarrow> u8 \<Rightarrow> u8"
  cmos_reads :: nat

definition cmos_read :: "u8 \<Rightarrow> cmos \<Rightarrow> u8 \<times> cmos" where
  "cmos_read reg c = (show_reg c (cmos_reads c) reg, c\<lparr>cmos_reads := Suc (cmos_reads c)\<rparr>)"

definition update_in_progress :: "cmos \<Rightarrow> bool \<times> cmos" where
  "update_in_progress c = (case cmos_read 0x0A c of (a, c1) \<Rightarrow> (a AND 0x80 \<noteq> 0, c1))"

definition from_bcd :: "u8 \<Rightarrow> u8" where
  "from_bcd value = (value AND 0x0F) + drop_bit 4 value * 10"

fun guarded_wait :: "nat \<Rightarrow> cmos \<Rightarrow> cmos" where
  "guarded_wait guard c =
     (case update_in_progress c of (busy, c1) \<Rightarrow>
        if busy then (case guard of 0 \<Rightarrow> c1 | Suc g \<Rightarrow> guarded_wait g c1) else c1)"

declare guarded_wait.simps [simp del]

partial_function (option) update_wait :: "cmos \<Rightarrow> cmos option" where
  "update_wait c = (case update_in_progress c of (busy, c1) \<Rightarrow> if busy then update_wait c1 else Some c1)"

text \<open>The six registers of one pass, in the order they are read.\<close>

definition read_pass :: "cmos \<Rightarrow> rtc_time \<times> cmos" where
  "read_pass c0 =
     (case cmos_read 0x00 c0 of (s, c1) \<Rightarrow> case cmos_read 0x02 c1 of (m, c2) \<Rightarrow> case cmos_read 0x04 c2 of (h, c3) \<Rightarrow>
      case cmos_read 0x07 c3 of (d, c4) \<Rightarrow> case cmos_read 0x08 c4 of (mo, c5) \<Rightarrow> case cmos_read 0x09 c5 of (y, c6) \<Rightarrow>
        (\<lparr>second = s, minute = m, hour = h, day = d, month = mo, year = y, full_year = 0\<rparr>, c6))"

fun reread :: "nat \<Rightarrow> rtc_time \<Rightarrow> cmos \<Rightarrow> (rtc_time \<times> cmos) option" where
  "reread 0 first c = Some (first, c)"
| "reread (Suc n) first c = do {
     c1 \<leftarrow> update_wait c;
     let (again, c2) = read_pass c1;
     if again = first then Some (first, c2) else reread n again c2
   }"

definition decode_time :: "u8 \<Rightarrow> rtc_time \<Rightarrow> rtc_time" where
  "decode_time status_b first =
     (let t = (if status_b AND 0x04 = 0 then
                 let pm = hour first AND 0x80;
                     t0 = first\<lparr>second := from_bcd (second first), minute := from_bcd (minute first), hour := from_bcd (hour first AND 0x7F),
                            day := from_bcd (day first), month := from_bcd (month first), year := from_bcd (year first)\<rparr>
                 in if pm \<noteq> 0 then t0\<lparr>hour := hour t0 mod 12 + 12\<rparr> else t0
               else first);
          t2 = (if status_b AND 0x02 = 0 \<and> hour t AND 0x80 \<noteq> 0 then t\<lparr>hour := (hour t AND 0x7F) mod 12 + 12\<rparr> else t)
      in t2\<lparr>full_year := 2000 + ucast (year t2)\<rparr>)"

definition rtc_read :: "cmos \<Rightarrow> (rtc_time \<times> cmos) option" where
  "rtc_read c = do {
     let (first, c1) = read_pass (guarded_wait 1000000 c);
     (t, c2) \<leftarrow> reread 8 first c1;
     let (status_b, c3) = cmos_read 0x0B c2;
     Some (decode_time status_b t, c3)
   }"

section \<open>Encodings\<close>

definition to_bcd :: "nat \<Rightarrow> u8" where
  "to_bcd n = of_nat (n div 10 * 16 + n mod 10)"

text \<open>A moment of the civil calendar, and how the chip shows it: as BCD or binary numbers, with a clock of 24 or 12 hours.\<close>

record civil =
  c_second :: nat
  c_minute :: nat
  c_hour :: nat
  c_day :: nat
  c_month :: nat
  c_year :: nat

definition civil_ok :: "civil \<Rightarrow> bool" where
  "civil_ok t \<longleftrightarrow> c_second t < 60 \<and> c_minute t < 60 \<and> c_hour t < 24 \<and> c_day t < 32 \<and> c_month t < 13 \<and> c_year t < 100"

definition chip_num :: "u8 \<Rightarrow> nat \<Rightarrow> u8" where
  "chip_num b n = (if b AND 0x04 = 0 then to_bcd n else of_nat n)"

definition chip_hour :: "u8 \<Rightarrow> nat \<Rightarrow> u8" where
  "chip_hour b h =
     (if b AND 0x02 \<noteq> 0 then chip_num b h
      else chip_num b (if h mod 12 = 0 then 12 else h mod 12) OR (if 12 \<le> h then 0x80 else 0))"

definition chip_time :: "u8 \<Rightarrow> civil \<Rightarrow> rtc_time" where
  "chip_time b t =
     \<lparr>second = chip_num b (c_second t), minute = chip_num b (c_minute t), hour = chip_hour b (c_hour t), day = chip_num b (c_day t),
      month = chip_num b (c_month t), year = chip_num b (c_year t), full_year = 0\<rparr>"

definition chip_reg :: "u8 \<Rightarrow> civil \<Rightarrow> u8 \<Rightarrow> u8" where
  "chip_reg b t reg =
     (let p = chip_time b t
      in if reg = 0x00 then second p else if reg = 0x02 then minute p else if reg = 0x04 then hour p
         else if reg = 0x07 then day p else if reg = 0x08 then month p else if reg = 0x09 then year p else b)"

lemma from_to_bcd: "n < 100 \<Longrightarrow> from_bcd (to_bcd n) = of_nat n"
proof -
  have "\<forall>n \<in> set [0..<100]. from_bcd (to_bcd n) = of_nat n" by code_simp
  then show "n < 100 \<Longrightarrow> from_bcd (to_bcd n) = of_nat n" by simp
qed

text \<open>
  The time the caller sees.  The hour after midnight reads 12 on a clock of twelve hours.
\<close>

definition shown_time :: "u8 \<Rightarrow> civil \<Rightarrow> rtc_time" where
  "shown_time b t =
     \<lparr>second = of_nat (c_second t), minute = of_nat (c_minute t), hour = of_nat (if b AND 0x02 = 0 \<and> c_hour t = 0 then 12 else c_hour t),
      day = of_nat (c_day t), month = of_nat (c_month t), year = of_nat (c_year t), full_year = of_nat (2000 + c_year t)\<rparr>"

definition hour_of :: "bool \<Rightarrow> bool \<Rightarrow> u8 \<Rightarrow> u8" where
  "hour_of bcd twelve h =
     (let h1 = (if bcd then let g = from_bcd (h AND 0x7F) in if h AND 0x80 \<noteq> 0 then g mod 12 + 12 else g else h)
      in if twelve \<and> h1 AND 0x80 \<noteq> 0 then (h1 AND 0x7F) mod 12 + 12 else h1)"

definition shown_hour :: "bool \<Rightarrow> bool \<Rightarrow> nat \<Rightarrow> u8" where
  "shown_hour bcd twelve h =
     (let num = (if bcd then to_bcd else of_nat)
      in if \<not> twelve then num h else num (if h mod 12 = 0 then 12 else h mod 12) OR (if 12 \<le> h then 0x80 else 0))"

lemma hours:
  assumes "h < 24"
  shows "hour_of bcd twelve (shown_hour bcd twelve h) = of_nat (if twelve \<and> h = 0 then 12 else h)"
proof -
  have "\<forall>bcd \<in> set [True, False]. \<forall>twelve \<in> set [True, False]. \<forall>h \<in> set [0..<24].
      hour_of bcd twelve (shown_hour bcd twelve h) = of_nat (if twelve \<and> h = 0 then 12 else h)" by code_simp
  then show ?thesis using assms by (cases bcd; cases twelve) auto
qed

lemma decode_chip:
  assumes "civil_ok t"
  shows "decode_time b (chip_time b t) = shown_time b t"
proof -
  have t: "c_second t < 100" "c_minute t < 100" "c_day t < 100" "c_month t < 100" "c_year t < 100" "c_hour t < 24"
    using assms by (auto simp: civil_ok_def)
  have h: "hour (decode_time b (chip_time b t)) = hour_of (b AND 0x04 = 0) (b AND 0x02 = 0) (shown_hour (b AND 0x04 = 0) (b AND 0x02 = 0) (c_hour t))"
    by (simp add: decode_time_def chip_time_def chip_hour_def chip_num_def hour_of_def shown_hour_def Let_def)
  have y: "ucast (of_nat (c_year t) :: u8) = (of_nat (c_year t) :: u16)" using t(5) by (simp add: word_unat_eq_iff unat_of_nat unsigned_ucast_eq take_bit_eq_mod)
  have "decode_time b (chip_time b t) = (shown_time b t)\<lparr>hour := hour (decode_time b (chip_time b t))\<rparr>"
    using t(1-5) y by (simp add: decode_time_def chip_time_def chip_num_def shown_time_def from_to_bcd Let_def)
  then show ?thesis unfolding h hours [OF t(6)] by (simp add: shown_time_def)
qed

section \<open>A clock that ticks while it is read\<close>

text \<open>
  The chip shows one moment before some read and another from then on, in an encoding that does not change, and its update flag does not
  stay set for ever.
\<close>

definition ticks_once :: "u8 \<Rightarrow> civil \<Rightarrow> civil \<Rightarrow> nat \<Rightarrow> cmos \<Rightarrow> bool" where
  "ticks_once b t0 t1 N c \<longleftrightarrow>
     (\<forall>n reg. reg \<noteq> 0x0A \<longrightarrow> show_reg c n reg = chip_reg b (if n < N then t0 else t1) reg) \<and>
     (\<forall>n \<ge> cmos_reads c. \<exists>m \<ge> n. show_reg c m 0x0A AND 0x80 = 0)"

lemma guarded_wait_reads: "\<exists>k \<ge> cmos_reads c. guarded_wait g c = c\<lparr>cmos_reads := k\<rparr>"
proof (induction g arbitrary: c)
  case 0
  show ?case by (subst guarded_wait.simps) (auto simp: update_in_progress_def cmos_read_def intro: exI [of _ "Suc (cmos_reads c)"])
next
  case (Suc g)
  let ?c = "c\<lparr>cmos_reads := Suc (cmos_reads c)\<rparr>"
  obtain k where "Suc (cmos_reads c) \<le> k" "guarded_wait g ?c = ?c\<lparr>cmos_reads := k\<rparr>" using Suc.IH [of ?c] by auto
  then show ?case
    by (subst guarded_wait.simps) (auto simp: update_in_progress_def cmos_read_def intro: exI [of _ k] exI [of _ "Suc (cmos_reads c)"])
qed

lemma update_wait_ends:
  assumes "m \<ge> cmos_reads c" and "show_reg c m 0x0A AND 0x80 = 0"
  shows "\<exists>k \<ge> cmos_reads c. update_wait c = Some (c\<lparr>cmos_reads := k\<rparr>)"
  using assms
proof (induction "m - cmos_reads c" arbitrary: c)
  case 0
  then show ?case by (subst update_wait.simps) (auto simp: update_in_progress_def cmos_read_def intro: exI [of _ "Suc (cmos_reads c)"])
next
  case (Suc j)
  let ?c = "c\<lparr>cmos_reads := Suc (cmos_reads c)\<rparr>"
  have "j = m - cmos_reads ?c" "cmos_reads ?c \<le> m" using Suc.hyps(2) Suc.prems(1) by auto
  then obtain k where "Suc (cmos_reads c) \<le> k" "update_wait ?c = Some (?c\<lparr>cmos_reads := k\<rparr>)" using Suc.hyps(1) [of ?c] Suc.prems(2) by auto
  then show ?case
    by (subst update_wait.simps) (auto simp: update_in_progress_def cmos_read_def intro: exI [of _ k] exI [of _ "Suc (cmos_reads c)"])
qed

lemma read_pass_shows:
  assumes "ticks_once b t0 t1 N c"
  shows "\<exists>p. read_pass c = (p, c\<lparr>cmos_reads := cmos_reads c + 6\<rparr>) \<and>
    (cmos_reads c + 6 \<le> N \<longrightarrow> p = chip_time b t0) \<and> (N \<le> cmos_reads c \<longrightarrow> p = chip_time b t1)"
proof -
  have r: "show_reg c n 0 = second (chip_time b (if n < N then t0 else t1))" "show_reg c n 2 = minute (chip_time b (if n < N then t0 else t1))"
    "show_reg c n 4 = hour (chip_time b (if n < N then t0 else t1))" "show_reg c n 7 = day (chip_time b (if n < N then t0 else t1))"
    "show_reg c n 8 = month (chip_time b (if n < N then t0 else t1))" "show_reg c n 9 = year (chip_time b (if n < N then t0 else t1))" for n
    using assms by (simp_all add: ticks_once_def chip_reg_def Let_def)
  have f: "full_year (chip_time b t) = 0" for t by (simp add: chip_time_def)
  show ?thesis by (auto simp: read_pass_def cmos_read_def r f)
qed

lemma ticks_later: "ticks_once b t0 t1 N c \<Longrightarrow> cmos_reads c \<le> k \<Longrightarrow> ticks_once b t0 t1 N (c\<lparr>cmos_reads := k\<rparr>)"
  by (simp add: ticks_once_def)

lemma next_pass:
  assumes "ticks_once b t0 t1 N c"
  shows "\<exists>k q. cmos_reads c \<le> k \<and> (do { c1 \<leftarrow> update_wait c; Some (read_pass c1) }) = Some (q, c\<lparr>cmos_reads := k + 6\<rparr>) \<and>
    (k + 6 \<le> N \<longrightarrow> q = chip_time b t0) \<and> (N \<le> k \<longrightarrow> q = chip_time b t1)"
proof -
  obtain m where "cmos_reads c \<le> m" "show_reg c m 0x0A AND 0x80 = 0" using assms unfolding ticks_once_def by blast
  from update_wait_ends [OF this] obtain k where k: "cmos_reads c \<le> k" "update_wait c = Some (c\<lparr>cmos_reads := k\<rparr>)" by blast
  show ?thesis using read_pass_shows [OF ticks_later [OF assms k(1)]] k by auto
qed

lemma reread_step:
  assumes "(do { c1 \<leftarrow> update_wait c; Some (read_pass c1) }) = Some (q, c2)"
  shows "reread (Suc n) p c = (if q = p then Some (p, c2) else reread n q c2)"
  using assms by (auto simp: bind_eq_Some_conv)

text \<open>After the tick every pass is whole, so one more attempt is enough.\<close>

lemma reread_after:
  assumes "ticks_once b t0 t1 N c" and "N \<le> cmos_reads c" and "p = chip_time b t0 \<or> p = chip_time b t1 \<or> 0 < n"
  shows "\<exists>q k. reread n p c = Some (q, c\<lparr>cmos_reads := k\<rparr>) \<and> cmos_reads c \<le> k \<and> (q = chip_time b t0 \<or> q = chip_time b t1)"
  using assms
proof (induction n arbitrary: p c)
  case 0
  then show ?case by (intro exI [of _ p] exI [of _ "cmos_reads c"]) auto
next
  case (Suc n)
  obtain k q where k: "cmos_reads c \<le> k" "(do { c1 \<leftarrow> update_wait c; Some (read_pass c1) }) = Some (q, c\<lparr>cmos_reads := k + 6\<rparr>)"
    "N \<le> k \<longrightarrow> q = chip_time b t1" using next_pass [OF Suc.prems(1)] by blast
  have q: "q = chip_time b t1" using k Suc.prems(2) by simp
  obtain q' k' where "reread n q (c\<lparr>cmos_reads := k + 6\<rparr>) = Some (q', c\<lparr>cmos_reads := k'\<rparr>)" "k + 6 \<le> k'" "q' = chip_time b t0 \<or> q' = chip_time b t1"
    using Suc.IH [of "c\<lparr>cmos_reads := k + 6\<rparr>" q] ticks_later [OF Suc.prems(1), of "k + 6"] Suc.prems(2) k(1) q by auto
  then show ?case using q k(1) unfolding reread_step [OF k(2)]
    by (cases "q = p") (auto intro: exI [of _ "k + 6"] exI [of _ k'])
qed

lemma reread_before:
  assumes tick: "ticks_once b t0 t1 N c"
  shows "\<exists>q k. reread (Suc (Suc n)) (chip_time b t0) c = Some (q, c\<lparr>cmos_reads := k\<rparr>) \<and> cmos_reads c \<le> k \<and> (q = chip_time b t0 \<or> q = chip_time b t1)"
proof -
  obtain k q where k: "cmos_reads c \<le> k" "(do { c1 \<leftarrow> update_wait c; Some (read_pass c1) }) = Some (q, c\<lparr>cmos_reads := k + 6\<rparr>)"
    "k + 6 \<le> N \<longrightarrow> q = chip_time b t0" using next_pass [OF tick] by blast
  show ?thesis
  proof (cases "q = chip_time b t0")
    case True
    then show ?thesis using k(1) unfolding reread_step [OF k(2)] by auto
  next
    case False
    then have "N \<le> k + 6" using k(3) by simp
    then obtain q' k' where "reread (Suc n) q (c\<lparr>cmos_reads := k + 6\<rparr>) = Some (q', c\<lparr>cmos_reads := k'\<rparr>)" "k + 6 \<le> k'"
        "q' = chip_time b t0 \<or> q' = chip_time b t1"
      using reread_after [OF ticks_later [OF tick], of "k + 6" q "Suc n"] k(1) by auto
    moreover from this(2) have "cmos_reads c \<le> k'" using k(1) by simp
    ultimately show ?thesis using False unfolding reread_step [OF k(2)] by (intro exI [of _ q'] exI [of _ k']) simp
  qed
qed

lemma rtc_read_spec:
  assumes tick: "ticks_once b t0 t1 N c" and civil: "civil_ok t0" "civil_ok t1"
  shows "\<exists>t c'. rtc_read c = Some (t, c') \<and> (t = shown_time b t0 \<or> t = shown_time b t1)"
proof -
  obtain k where k: "cmos_reads c \<le> k" "guarded_wait 1000000 c = c\<lparr>cmos_reads := k\<rparr>" using guarded_wait_reads by blast
  obtain p where p: "read_pass (c\<lparr>cmos_reads := k\<rparr>) = (p, c\<lparr>cmos_reads := k + 6\<rparr>)" "k + 6 \<le> N \<longrightarrow> p = chip_time b t0"
    using read_pass_shows [OF ticks_later [OF tick k(1)]] by auto
  have t6: "ticks_once b t0 t1 N (c\<lparr>cmos_reads := k + 6\<rparr>)" using ticks_later [OF tick] k(1) by simp
  obtain q j where q: "reread 8 p (c\<lparr>cmos_reads := k + 6\<rparr>) = Some (q, c\<lparr>cmos_reads := j\<rparr>)" "q = chip_time b t0 \<or> q = chip_time b t1"
  proof (cases "N \<le> k + 6")
    case True
    then show thesis using reread_after [OF t6, of p 8] that by auto
  next
    case False
    then show thesis using reread_before [OF t6, of 6] p(2) that by (auto simp: numeral_eq_Suc)
  qed
  have "show_reg c j 0x0B = b" using tick by (simp add: ticks_once_def chip_reg_def Let_def)
  then have "rtc_read c = Some (decode_time b q, c\<lparr>cmos_reads := Suc j\<rparr>)"
    using k(2) p(1) q(1) by (simp add: rtc_read_def cmos_read_def)
  then show ?thesis using q(2) decode_chip civil by auto
qed


definition noon_clock :: cmos where
  "noon_clock = \<lparr>show_reg = (\<lambda>n reg. if reg = 0x0A then 0 else chip_reg 0 (if n < 3
      then \<lparr>c_second = 59, c_minute = 59, c_hour = 12, c_day = 31, c_month = 12, c_year = 25\<rparr>
      else \<lparr>c_second = 0, c_minute = 0, c_hour = 13, c_day = 31, c_month = 12, c_year = 25\<rparr>) reg), cmos_reads = 0\<rparr>"


text \<open>The hour after midnight, on a chip that keeps BCD numbers and a clock of twelve hours.\<close>

lemma midnight_reads_noon:
  "hour (decode_time 0 (chip_time 0 \<lparr>c_second = 0, c_minute = 30, c_hour = 0, c_day = 1, c_month = 1, c_year = 26\<rparr>)) = 12"
  by (subst decode_chip) (simp_all add: civil_ok_def shown_time_def)
end
