(* ===== verification/Syscall.thy ===== *)
theory Syscall
  imports VfsSpec Wm Console Rtc Proc Kprintf
begin

text \<open>
  The system calls (\<^verbatim>\<open>kernel/syscall.c\<close>): the state of the whole kernel, access to the memory of the calling process, and every handler with the
  dispatch.  What the calls rely on outside the state is an argument of the dispatch: the keys \<^verbatim>\<open>console_getc\<close> returns, the instruction \<^verbatim>\<open>cpuid\<close>
  and the addresses \<^verbatim>\<open>proc_spawn\<close> gives to the new thread.
\<close>

unbundle bit_operations_syntax

section \<open>The kernel as a system call sees it\<close>

record kernel =
  files :: fs
  desk :: wm
  cons :: console
  clock :: cmos

abbreviation sys_of :: "kernel \<Rightarrow> sys" where
  "sys_of k \<equiv> ker (disk (files k))"

definition upd_sys :: "(sys \<Rightarrow> sys) \<Rightarrow> kernel \<Rightarrow> kernel" where
  "upd_sys f k = k\<lparr>files := (files k)\<lparr>disk := (disk (files k))\<lparr>ker := f (sys_of k)\<rparr>\<rparr>\<rparr>"

abbreviation caller :: "kernel \<Rightarrow> nat" where
  "caller k \<equiv> proc_current (sys_of k)"

abbreviation caller_cwd :: "kernel \<Rightarrow> cstr option" where
  "caller_cwd k \<equiv> Some (cwd (table (sys_of k) ! caller k))"

abbreviation user_vm :: "kernel \<Rightarrow> vm" where
  "user_vm k \<equiv> kvm_of (sys_of k)"

text \<open>
  The kernel reads and writes user memory through the page tables of the calling process; \<open>None\<close> is a page fault in the kernel, which
  stops the machine.
\<close>

definition user_load :: "virt_addr \<Rightarrow> u32 \<Rightarrow> kernel \<Rightarrow> u8 list option" where
  "user_load a n k = those (map (\<lambda>i. user_byte (user_vm k) (Proc_space (caller k)) (a + of_nat i)) [0..<unat n])"

fun store_user :: "space_ref \<Rightarrow> virt_addr \<Rightarrow> u8 list \<Rightarrow> vm \<Rightarrow> vm option" where
  "store_user sp a [] v = Some v"
| "store_user sp a (b # bs) v =
     (case walk v sp a of
        None \<Rightarrow> None
      | Some e \<Rightarrow> store_user sp (a + 1) bs (v\<lparr>mem := write_bytes (user_addr e a) [b] (mem v)\<rparr>))"

definition user_store :: "virt_addr \<Rightarrow> u8 list \<Rightarrow> kernel \<Rightarrow> kernel option" where
  "user_store a bs k = do { v \<leftarrow> store_user (Proc_space (caller k)) a bs (user_vm k); Some (upd_sys (upd_vm (\<lambda>_. v)) k) }"

text \<open>\<^verbatim>\<open>strlcpy\<close> into a field of \<open>n\<close> bytes: the bytes it writes.\<close>

definition strlcpy_bytes :: "cstr \<Rightarrow> nat \<Rightarrow> u8 list" where
  "strlcpy_bytes src n = take (if n \<le> strlen src then n - 1 else strlen src) src @ [0]"

text \<open>A user string in a kernel buffer of \<open>n\<close> bytes; the old contents of the buffer are never read.\<close>

definition user_string :: "virt_addr \<Rightarrow> nat \<Rightarrow> kernel \<Rightarrow> (int \<times> cstr) option" where
  "user_string p n k = proc_copy_user_string p (replicate n 0) n (sys_of k)"

definition USER_STRUCT :: "virt_addr \<Rightarrow> u32 \<Rightarrow> kernel \<Rightarrow> bool" where
  "USER_STRUCT p n k = proc_user_write_ok p n (sys_of k)"

section \<open>Console and files\<close>

definition sys_write :: "u32 \<Rightarrow> u32 \<Rightarrow> u32 \<Rightarrow> kernel \<Rightarrow> (int \<times> kernel) option" where
  "sys_write fd buf ln k =
     (if fd \<noteq> 1 \<and> fd \<noteq> 2 then Some (- 1, k)
      else if \<not> proc_user_range_ok buf ln (sys_of k) then Some (- 1, k)
      else do { bs \<leftarrow> user_load buf ln k; c \<leftarrow> console_write bs (cons k); Some (sint ln, k\<lparr>cons := c\<rparr>) })"

text \<open>
  The loop of \<^verbatim>\<open>sys_read\<close>; \<open>keys\<close> are the values the successive calls of \<^verbatim>\<open>console_getc\<close> return.  The first component is \<open>None\<close> while the call
  still waits for a key.
\<close>

fun sys_read_loop :: "int list \<Rightarrow> nat \<Rightarrow> u32 \<Rightarrow> u32 \<Rightarrow> kernel \<Rightarrow> (int option \<times> kernel) option" where
  "sys_read_loop [] i buf ln k = Some (if i < unat ln then None else Some (int i), k)"
| "sys_read_loop (c0 # keys) i buf ln k =
     (if \<not> i < unat ln then Some (Some (int i), k)
      else if c0 < 0 \<or> 0xFF < c0 then sys_read_loop keys i buf ln k
      else
        let c = (if c0 = 13 then 10 else c0)
        in do {
          con \<leftarrow> console_putc (word_of_int c) (cons k);
          k1 \<leftarrow> user_store (buf + of_nat i) [word_of_int c] (k\<lparr>cons := con\<rparr>);
          if c = 10 then Some (Some (int (Suc i)), k1) else sys_read_loop keys (Suc i) buf ln k1
        })"

definition sys_read :: "int list \<Rightarrow> u32 \<Rightarrow> u32 \<Rightarrow> u32 \<Rightarrow> kernel \<Rightarrow> (int option \<times> kernel) option" where
  "sys_read keys fd buf ln k =
     (if fd \<noteq> 0 \<or> \<not> proc_user_write_ok buf ln (sys_of k) then Some (Some (- 1), k) else sys_read_loop keys 0 buf ln k)"

text \<open>\<^verbatim>\<open>vfs_abspath\<close> into a buffer on the stack.\<close>

definition absolute_path :: "cstr option \<Rightarrow> cstr \<Rightarrow> int \<times> cstr" where
  "absolute_path cwd0 path = vfs_abspath cwd0 path (replicate FS_PATH_MAX 0) FS_PATH_MAX"

text \<open>The common part of \<^verbatim>\<open>sys_fs_write\<close> and \<^verbatim>\<open>sys_fs_append\<close>; the file layer changes no user memory, so the bytes can be loaded first.\<close>

definition sys_fs_put :: "(cstr \<Rightarrow> u8 list \<Rightarrow> fs \<Rightarrow> (int \<times> fs) option) \<Rightarrow> u32 \<Rightarrow> u32 \<Rightarrow> u32 \<Rightarrow> kernel \<Rightarrow> (int \<times> kernel) option" where
  "sys_fs_put op path_ptr buf ln k = do {
     (r, path) \<leftarrow> user_string path_ptr FS_PATH_MAX k;
     if r < 0 then Some (- 1, k)
     else if \<not> proc_user_range_ok buf ln (sys_of k) then Some (- 1, k)
     else case absolute_path (caller_cwd k) path of (r2, absolute) \<Rightarrow>
       if r2 < 0 then Some (- 1, k)
       else do {
         bs \<leftarrow> user_load buf ln k;
         (w, v) \<leftarrow> op absolute bs (files k);
         Some (if w = 0 then sint ln else - 1, k\<lparr>files := v\<rparr>)
       }
   }"

definition sys_fs_write :: "u32 \<Rightarrow> u32 \<Rightarrow> u32 \<Rightarrow> kernel \<Rightarrow> (int \<times> kernel) option" where
  "sys_fs_write = sys_fs_put vfs_write_file"

definition sys_fs_append :: "u32 \<Rightarrow> u32 \<Rightarrow> u32 \<Rightarrow> kernel \<Rightarrow> (int \<times> kernel) option" where
  "sys_fs_append = sys_fs_put vfs_append_file"

definition sys_fs_read :: "u32 \<Rightarrow> u32 \<Rightarrow> u32 \<Rightarrow> kernel \<Rightarrow> (int \<times> kernel) option" where
  "sys_fs_read path_ptr buf ln k = do {
     (r, path) \<leftarrow> user_string path_ptr FS_PATH_MAX k;
     if r < 0 then Some (- 1, k)
     else if \<not> proc_user_write_ok buf ln (sys_of k) then Some (- 1, k)
     else case absolute_path (caller_cwd k) path of (r2, absolute) \<Rightarrow>
       if r2 < 0 then Some (- 1, k)
       else do {
         ((n, bs), v) \<leftarrow> vfs_read_file absolute ln (files k);
         k1 \<leftarrow> user_store buf bs (k\<lparr>files := v\<rparr>);
         Some (n, k1)
       }
   }"

section \<open>Starting a program from a file\<close>

definition fs_kmalloc :: "u32 \<Rightarrow> fs \<Rightarrow> (u32 \<times> fs) option" where
  "fs_kmalloc sz v = do { (p, h) \<leftarrow> kmalloc sz (heap_of v); Some (p, set_heap h v) }"

definition set_ker :: "sys \<Rightarrow> fs \<Rightarrow> fs" where
  "set_ker s v = v\<lparr>disk := (disk v)\<lparr>ker := s\<rparr>\<rparr>"

definition proc_spawn :: "u32 \<Rightarrow> (nat \<Rightarrow> u32) \<Rightarrow> cstr \<Rightarrow> int \<Rightarrow> cstr list \<Rightarrow> fs \<Rightarrow> (int \<times> fs) option" where
  "proc_spawn pe pend path argc argv v =
     (if hd0 path = 0 then Some (- 1, v)
      else do {
        node \<leftarrow> vfs_lookup (Some (cwd (table (ker (disk v)) ! proc_current (ker (disk v))))) path v;
        let nd = nodes v node;
        if node = 0 \<or> ntype nd \<noteq> FS_FILE \<or> nsize nd = 0 \<or> MAX_USER_IMAGE_SIZE < unat (nsize nd) then Some (- 1, v)
        else do {
          (image, v1) \<leftarrow> fs_kmalloc (nsize nd) v;
          if image = 0 then Some (- 2, v1)
          else do {
            ((r, bs), v2) \<leftarrow> vfs_read node 0 (nsize nd) v1;
            let v3 = set_heap ((heap_of v2)\<lparr>kmem := store_mem image bs (kmem (heap_of v2))\<rparr>) v2;
            if r \<le> 0 \<or> r \<noteq> uint (nsize nd) then do { v4 \<leftarrow> fs_kfree image v3; Some (- 3, v4) }
            else do {
              let name = (case strrchr path SLASH of Some rest \<Rightarrow> tl rest | None \<Rightarrow> path);
              (res, s) \<leftarrow> proc_spawn_image pe pend name bs argc argv (ker (disk v3));
              v4 \<leftarrow> fs_kfree image (set_ker s v3);
              Some (res, v4)
            }
          }
        }
      })"

text \<open>The argument strings; \<open>None\<close> inside is the error return of the call.\<close>

fun user_args :: "nat list \<Rightarrow> u32 \<Rightarrow> kernel \<Rightarrow> cstr list option option" where
  "user_args [] argv_ptr k = Some (Some [])"
| "user_args (i # is) argv_ptr k =
     (let slot = argv_ptr + 4 * of_nat i
      in if \<not> proc_user_range_ok slot 4 (sys_of k) then Some None
         else do {
           bs \<leftarrow> user_load slot 4 k;
           (r, s) \<leftarrow> user_string (le32 bs 0) 64 k;
           if r < 0 then Some None
           else do { rest \<leftarrow> user_args is argv_ptr k; Some (map_option (Cons s) rest) }
         })"

definition sys_spawn :: "u32 \<Rightarrow> (nat \<Rightarrow> u32) \<Rightarrow> u32 \<Rightarrow> u32 \<Rightarrow> u32 \<Rightarrow> kernel \<Rightarrow> (int \<times> kernel) option" where
  "sys_spawn pe pend path_ptr argv_ptr argc0 k = do {
     (r, path) \<leftarrow> user_string path_ptr FS_PATH_MAX k;
     if r < 0 then Some (- 1, k)
     else do {
       let argc = (if 8 < argc0 then 8 else argc0);
       args \<leftarrow> user_args [0..<unat argc] argv_ptr k;
       case args of
         None \<Rightarrow> Some (- 1, k)
       | Some argv \<Rightarrow> do { (res, v) \<leftarrow> proc_spawn pe pend path (uint argc) argv (files k); Some (res, k\<lparr>files := v\<rparr>) }
     }
   }"

section \<open>Directories and paths\<close>

definition SYS_NAME_MAX :: nat where "SYS_NAME_MAX = 32"
definition SIZEOF_DIRENT :: u32 where "SIZEOF_DIRENT = 40"

text \<open>The walk over the children; the structure at \<open>out\<close> is stored field by field.\<close>

fun opendir_loop :: "nat \<Rightarrow> u32 \<Rightarrow> u32 \<Rightarrow> kernel \<Rightarrow> (int \<times> kernel) option" where
  "opendir_loop 0 child out k = Some (0, k)"
| "opendir_loop (Suc n) child out k =
     (if child = 0 then Some (0, k)
      else
        let nd = nodes (files k) child
        in do {
          k1 \<leftarrow> user_store out (le_bytes (ucast (ntype nd))) k;
          k2 \<leftarrow> user_store (out + 4) (le_bytes (nsize nd)) k1;
          k3 \<leftarrow> user_store (out + 8) (strlcpy_bytes (nname nd) SYS_NAME_MAX) k2;
          (count, k4) \<leftarrow> opendir_loop n (next_sibling nd) (out + SIZEOF_DIRENT) k3;
          Some (1 + count, k4)
        })"

definition sys_opendir :: "u32 \<Rightarrow> u32 \<Rightarrow> u32 \<Rightarrow> kernel \<Rightarrow> (int \<times> kernel) option" where
  "sys_opendir path_ptr out_ptr mx k = do {
     (r, path) \<leftarrow> user_string path_ptr FS_PATH_MAX k;
     if r < 0 then Some (- 1, k)
     else if 0xFFFFFFFF div SIZEOF_DIRENT < mx then Some (- 1, k)
     else if \<not> proc_user_write_ok out_ptr (mx * SIZEOF_DIRENT) (sys_of k) then Some (- 1, k)
     else do {
       node \<leftarrow> vfs_lookup (caller_cwd k) path (files k);
       if node = 0 \<or> ntype (nodes (files k) node) \<noteq> FS_DIR then Some (- 1, k)
       else opendir_loop (unat mx) (first_child (nodes (files k) node)) out_ptr k
     }
   }"

definition sys_stat :: "u32 \<Rightarrow> u32 \<Rightarrow> kernel \<Rightarrow> (int \<times> kernel) option" where
  "sys_stat path_ptr out_ptr k =
     (if \<not> USER_STRUCT out_ptr 12 k then Some (- 1, k)
      else do {
        (r, path) \<leftarrow> user_string path_ptr FS_PATH_MAX k;
        if r < 0 then Some (- 1, k)
        else do {
          node \<leftarrow> vfs_lookup (caller_cwd k) path (files k);
          if node = 0 then Some (- 1, k)
          else
            let nd = nodes (files k) node
            in do { k1 \<leftarrow> user_store out_ptr (bytes_of [ucast (ntype nd), nsize nd, ucast (readonly nd)]) k; Some (0, k1) }
        }
      })"

definition SYS_UNLINK :: u32 where "SYS_UNLINK = 22"
definition SYS_MKDIR :: u32 where "SYS_MKDIR = 23"
definition SYS_CHDIR :: u32 where "SYS_CHDIR = 25"

definition sys_path_op :: "u32 \<Rightarrow> u32 \<Rightarrow> kernel \<Rightarrow> (int \<times> kernel) option" where
  "sys_path_op path_ptr operation k = do {
     (r, path) \<leftarrow> user_string path_ptr FS_PATH_MAX k;
     if r < 0 then Some (- 1, k)
     else if operation = SYS_UNLINK then
       do { (r2, v) \<leftarrow> vfs_unlink (caller_cwd k) path (files k); Some (if r2 = 0 then 0 else - 1, k\<lparr>files := v\<rparr>) }
     else if operation = SYS_MKDIR then
       do { (p, v) \<leftarrow> vfs_create (caller_cwd k) path FS_DIR (files k); Some (if p \<noteq> 0 then 0 else - 1, k\<lparr>files := v\<rparr>) }
     else if operation = SYS_CHDIR then
       (case absolute_path (caller_cwd k) path of (r2, absolute) \<Rightarrow>
          if r2 < 0 then Some (- 1, k)
          else do {
            node \<leftarrow> vfs_lookup None absolute (files k);
            if node = 0 \<or> ntype (nodes (files k) node) \<noteq> FS_DIR then Some (- 1, k)
            else Some (0, upd_sys (upd_proc (caller k) (\<lambda>p. p\<lparr>cwd := snd (strlcpy (cwd p) absolute FS_PATH_MAX)\<rparr>)) k)
          })
     else Some (- 1, k)
   }"

definition sys_getcwd :: "u32 \<Rightarrow> u32 \<Rightarrow> kernel \<Rightarrow> (int \<times> kernel) option" where
  "sys_getcwd buf ln k =
     (if ln = 0 \<or> \<not> proc_user_write_ok buf ln (sys_of k) then Some (- 1, k)
      else do { k1 \<leftarrow> user_store buf (strlcpy_bytes (the (caller_cwd k)) (unat ln)) k; Some (0, k1) })"

section \<open>Windows\<close>

definition set_desk :: "wm \<times> vm \<Rightarrow> kernel \<Rightarrow> kernel" where
  "set_desk gv k = upd_sys (upd_vm (\<lambda>_. snd gv)) (k\<lparr>desk := fst gv\<rparr>)"

definition sys_gui_create :: "u32 \<Rightarrow> u32 \<Rightarrow> u32 \<Rightarrow> kernel \<Rightarrow> (int \<times> kernel) option" where
  "sys_gui_create width0 height title_ptr k =
     (let flags = drop_bit 16 width0; width = width0 AND 0xFFFF
      in do {
        (r, t) \<leftarrow> user_string title_ptr GUI_MAX_TITLE k;
        case wm_create_window (caller k) (sint width) (sint height) (Some (if r < 0 then default_title @ [0] else t)) flags (desk k, user_vm k) of
          (w, gv) \<Rightarrow> Some (w, set_desk gv k)
      })"

definition info_bytes :: "gui_window_info \<Rightarrow> u8 list" where
  "info_bytes i = bytes_of [wi_id i, wi_width i, wi_height i, wi_stride i, wi_buffer i, wi_flags i, word_of_int (wi_x i), word_of_int (wi_y i)]"

definition event_bytes :: "gui_event \<Rightarrow> u8 list" where
  "event_bytes e =
     bytes_of [ge_type e, ge_window e, word_of_int (ge_x e), word_of_int (ge_y e), ge_buttons e, word_of_int (ge_button e),
       word_of_int (ge_wheel e), ge_key e, ge_width e, ge_height e]"

definition sys_gui_info :: "u32 \<Rightarrow> u32 \<Rightarrow> kernel \<Rightarrow> (int \<times> kernel) option" where
  "sys_gui_info id0 out_ptr k =
     (if \<not> USER_STRUCT out_ptr 32 k then Some (- 1, k)
      else case wm_window_info (caller k) id0 (desk k) of
        (r, None) \<Rightarrow> Some (r, k)
      | (r, Some i) \<Rightarrow> do { k1 \<leftarrow> user_store out_ptr (info_bytes i) k; Some (r, k1) })"

text \<open>\<^verbatim>\<open>wm_poll_event\<close> with its result stored in the memory of the caller.\<close>

definition poll_into :: "u32 \<Rightarrow> u32 \<Rightarrow> kernel \<Rightarrow> (int \<times> kernel) option" where
  "poll_into id0 out_ptr k =
     (case wm_poll_event (caller k) id0 (desk k) of
        (r, None, g) \<Rightarrow> Some (r, k\<lparr>desk := g\<rparr>)
      | (r, Some e, g) \<Rightarrow> do { k1 \<leftarrow> user_store out_ptr (event_bytes e) (k\<lparr>desk := g\<rparr>); Some (r, k1) })"

definition sys_gui_poll :: "u32 \<Rightarrow> u32 \<Rightarrow> kernel \<Rightarrow> (int \<times> kernel) option" where
  "sys_gui_poll id0 out_ptr k = (if \<not> USER_STRUCT out_ptr 40 k then Some (- 1, k) else poll_into id0 out_ptr k)"

text \<open>
  \<^verbatim>\<open>sys_gui_wait\<close>: the check at its start, and a round of its loop.  \<open>None\<close> is a round that ends in the sleep.
\<close>

definition gui_wait_round :: "u32 \<Rightarrow> u32 \<Rightarrow> u32 \<Rightarrow> u64 \<Rightarrow> kernel \<Rightarrow> (int option \<times> kernel) option" where
  "gui_wait_round id0 out_ptr timeout_ms deadline k = do {
     (r, k1) \<leftarrow> poll_into id0 out_ptr k;
     if r \<noteq> 0 then Some (Some r, k1)
     else if timeout_ms \<noteq> 0 \<and> deadline \<le> timer_ms (sys_of k1) then Some (Some 0, k1)
     else do { s \<leftarrow> thread_sleep_ms 8 (sys_of k1); Some (None, upd_sys (\<lambda>_. s) k1) }
   }"

definition sys_gui_wait :: "u32 \<Rightarrow> u32 \<Rightarrow> u32 \<Rightarrow> kernel \<Rightarrow> (int option \<times> kernel) option" where
  "sys_gui_wait id0 out_ptr timeout_ms k =
     (let deadline = timer_ms (sys_of k) + ucast timeout_ms
      in if \<not> USER_STRUCT out_ptr 40 k then Some (Some (- 1), k) else gui_wait_round id0 out_ptr timeout_ms deadline k)"

fun store_descs :: "u32 \<Rightarrow> gui_window_desc list \<Rightarrow> kernel \<Rightarrow> kernel option" where
  "store_descs out [] k = Some k"
| "store_descs out (d # ds) k = do {
     k1 \<leftarrow> user_store out (bytes_of [wd_id d, word_of_int (wd_pid d), wd_flags d, wd_state d, if wd_focused d then 1 else 0]) k;
     k2 \<leftarrow> user_store (out + 20) (strlcpy_bytes (wd_title d) GUI_MAX_TITLE) k1;
     store_descs (out + 68) ds k2
   }"

definition sys_gui_list :: "u32 \<Rightarrow> u32 \<Rightarrow> kernel \<Rightarrow> (int \<times> kernel) option" where
  "sys_gui_list out_ptr mx0 k =
     (let mx = (if 32 < mx0 then 32 else mx0)
      in if 0xFFFFFFFF div 68 < mx then Some (- 1, k)
         else if \<not> proc_user_write_ok out_ptr (mx * 68) (sys_of k) then Some (- 1, k)
         else case wm_list_windows (\<lambda>i. pid (table (sys_of k) ! i)) (sint mx) (desk k) of
           (r, ds) \<Rightarrow> do { k1 \<leftarrow> store_descs out_ptr ds k; Some (r, k1) })"

definition sys_gui_screen :: "u32 \<Rightarrow> kernel \<Rightarrow> (int \<times> kernel) option" where
  "sys_gui_screen out_ptr k =
     (if \<not> USER_STRUCT out_ptr 8 k then Some (- 1, k)
      else do { k1 \<leftarrow> user_store out_ptr (bytes_of [word_of_int (screen_w (desk k)), word_of_int (screen_h (desk k))]) k; Some (0, k1) })"

section \<open>System information\<close>

text \<open>
  The instruction \<^verbatim>\<open>cpuid\<close> is the parameter \<open>cpuid\<close>: for a leaf, the registers eax, ebx, ecx and edx.
\<close>

type_synonym cpuid = "u32 \<Rightarrow> u32 \<times> u32 \<times> u32 \<times> u32"

definition cpu_vendor :: "cpuid \<Rightarrow> cstr" where
  "cpu_vendor cpuid = (case cpuid 0 of (a, b, c, d) \<Rightarrow> bytes_of [b, d, c] @ [0])"

definition cpu_brand :: "cpuid \<Rightarrow> cstr" where
  "cpu_brand cpuid =
     (case cpuid 0x80000000 of (top_leaf, b, c, d) \<Rightarrow>
        if 0x80000004 \<le> top_leaf
        then concat (map (\<lambda>leaf. case cpuid leaf of (a, b, c, d) \<Rightarrow> bytes_of [a, b, c, d]) [0x80000002, 0x80000003, 0x80000004]) @ [0]
        else [117, 110, 107, 110, 111, 119, 110, 0])"

definition cpu_identify :: "cpuid \<Rightarrow> cstr \<times> cstr" where
  "cpu_identify cpuid = (cpu_vendor cpuid, cpu_brand cpuid)"

definition SIFAROS_VERSION :: cstr where "SIFAROS_VERSION = [48, 46, 50, 46, 48, 0]"

definition sys_sysinfo :: "cpuid \<Rightarrow> u32 \<Rightarrow> kernel \<Rightarrow> (int \<times> kernel) option" where
  "sys_sysinfo cpuid out_ptr k =
     (if \<not> USER_STRUCT out_ptr 120 k then Some (- 1, k)
      else do {
        (heap_used, _, heap_total, _) \<leftarrow> kheap_stats (kh (sys_of k));
        let (disk_total, disk_free, _) = sfs_stats (disk (files k));
        let (vendor, brand) = cpu_identify cpuid;
        let frames_kb = (\<lambda>n :: u32. ucast ((ucast n * 4096 :: u64) div 1024) :: u32);
        k1 \<leftarrow> user_store out_ptr (bytes_of
          [ucast (timer_ms (sys_of k)), frames_kb (pmm_total_frames (phys (user_vm k))), frames_kb (pmm_used_frames (phys (user_vm k))),
           heap_used div 1024, heap_total div 1024, of_nat (proc_count (sys_of k)), of_nat (thread_count (sys_of k)),
           word_of_int (screen_w (desk k)), word_of_int (screen_h (desk k)), ucast (disk_total div 1024), ucast (disk_free div 1024)]) k;
        k2 \<leftarrow> user_store (out_ptr + 44) (strlcpy_bytes (if hd0 brand \<noteq> 0 then brand else vendor) 52) k1;
        k3 \<leftarrow> user_store (out_ptr + 96) (strlcpy_bytes SIFAROS_VERSION 24) k2;
        Some (0, k3)
      })"

fun state_number :: "proc_state \<Rightarrow> u32" where
  "state_number PROC_FREE = 0"
| "state_number PROC_RUNNING = 1"
| "state_number PROC_ZOMBIE = 2"

definition collect_process :: "u32 \<Rightarrow> nat \<Rightarrow> process \<Rightarrow> (nat \<times> kernel) option \<Rightarrow> (nat \<times> kernel) option" where
  "collect_process out mx p st = do {
     (count, k) \<leftarrow> st;
     if mx \<le> count then st
     else do {
       let at = out + 52 * of_nat count;
       k1 \<leftarrow> user_store at (bytes_of [word_of_int (pid p), word_of_int (parent p), state_number (pstate p), (user_pages p * PAGE_SIZE) div 1024, 0]) k;
       k2 \<leftarrow> user_store (at + 20) (strlcpy_bytes (pname p) SYS_NAME_MAX) k1;
       Some (Suc count, k2)
     }
   }"

definition sys_proclist :: "u32 \<Rightarrow> u32 \<Rightarrow> kernel \<Rightarrow> (int \<times> kernel) option" where
  "sys_proclist out_ptr mx0 k =
     (let mx = (if of_nat MAX_PROCESSES < mx0 then of_nat MAX_PROCESSES else mx0)
      in if 0xFFFFFFFF div 52 < mx then Some (- 1, k)
         else if \<not> proc_user_write_ok out_ptr (mx * 52) (sys_of k) then Some (- 1, k)
         else do {
           (count, k1) \<leftarrow> proc_foreach (collect_process out_ptr (unat mx)) (sys_of k) (Some (0, k));
           Some (int count, k1)
         })"

definition sys_time :: "u32 \<Rightarrow> kernel \<Rightarrow> (int \<times> kernel) option" where
  "sys_time out_ptr k =
     (if \<not> USER_STRUCT out_ptr 24 k then Some (- 1, k)
      else do {
        (t, c) \<leftarrow> rtc_read (clock k);
        k1 \<leftarrow> user_store out_ptr (bytes_of [ucast (full_year t), ucast (month t), ucast (day t), ucast (hour t), ucast (minute t), ucast (second t)])
               (k\<lparr>clock := c\<rparr>);
        Some (0, k1)
      })"

definition sys_log :: "u32 \<Rightarrow> u32 \<Rightarrow> kernel \<Rightarrow> (int \<times> kernel) option" where
  "sys_log buf ln k =
     (if \<not> proc_user_write_ok buf ln (sys_of k) then Some (- 1, k)
      else
        let bs = console_log_read ln (cons k)
        in do { k1 \<leftarrow> user_store buf bs k; Some (int (length bs), k1) })"

definition sys_font :: "u32 \<Rightarrow> u32 \<Rightarrow> kernel \<Rightarrow> (int \<times> kernel) option" where
  "sys_font out ln0 k =
     (let ln = (if 4096 < ln0 then 4096 else ln0)
      in if \<not> proc_user_write_ok out ln (sys_of k) then Some (- 1, k)
         else do { k1 \<leftarrow> user_store out (take (unat ln) (rom_font (fbc (cons k)))) k; Some (sint ln, k1) })"

section \<open>Dispatch\<close>

text \<open>
  How a call ends: it returns; it has given the processor away and returns the value when its thread runs again; it waits, and its loop goes on when
  its thread runs again; its thread has ended; the machine is switched off.
\<close>

datatype outcome = Returns int kernel | Later int kernel | Again kernel | Gone kernel | Stopped

record environment =
  e_keys :: "int list"
  e_cpuid :: cpuid
  e_entry :: u32
  e_pending :: "nat \<Rightarrow> u32"

definition returns :: "(int \<times> kernel) option \<Rightarrow> outcome option" where
  "returns = map_option (\<lambda>(r, k). Returns r k)"

definition waits :: "(int option \<times> kernel) option \<Rightarrow> outcome option" where
  "waits = map_option (\<lambda>(r, k). case r of Some x \<Rightarrow> Returns x k | None \<Rightarrow> Again k)"

definition on_desk :: "int \<times> wm \<Rightarrow> kernel \<Rightarrow> outcome option" where
  "on_desk rg k = Some (Returns (fst rg) (k\<lparr>desk := snd rg\<rparr>))"

definition on_desk_vm :: "int \<times> wm \<times> vm \<Rightarrow> kernel \<Rightarrow> outcome option" where
  "on_desk_vm rg k = Some (Returns (fst rg) (set_desk (snd rg) k))"

definition later :: "(sys \<Rightarrow> sys option) \<Rightarrow> kernel \<Rightarrow> outcome option" where
  "later f k = map_option (\<lambda>s. Later 0 (upd_sys (\<lambda>_. s) k)) (f (sys_of k))"

definition sys_wait :: "u32 \<Rightarrow> u32 \<Rightarrow> kernel \<Rightarrow> outcome option" where
  "sys_wait p nonblocking k =
     (if nonblocking \<noteq> 0 then
        (case proc_try_wait (sint p) (sys_of k) of ((finished, code), s) \<Rightarrow>
           Some (Returns (if finished = 1 then the code else if finished = 0 then - 1000 else - 1) (upd_sys (\<lambda>_. s) k)))
      else case proc_wait_start (sint p) (sys_of k) of
        None \<Rightarrow> Some (Returns (- 1) k)
      | Some i \<Rightarrow> map_option (\<lambda>(r, s). case r of None \<Rightarrow> Again (upd_sys (\<lambda>_. s) k) | Some (_, code) \<Rightarrow> Returns code (upd_sys (\<lambda>_. s) k))
          (proc_wait_round i (sys_of k)))"

definition sys_gui_title :: "u32 \<Rightarrow> u32 \<Rightarrow> kernel \<Rightarrow> outcome option" where
  "sys_gui_title id0 title_ptr k = do {
     (r, t) \<leftarrow> user_string title_ptr GUI_MAX_TITLE k;
     if r < 0 then Some (Returns (- 1) k) else on_desk (wm_set_title (caller k) id0 t (desk k)) k
   }"

definition unknown_call :: "u32 \<Rightarrow> kernel \<Rightarrow> outcome option" where
  "unknown_call number k = do {
     c \<leftarrow> console_write (snd (kprintf (ascii ''syscall: unknown call %u from pid %d'' @ [10])
            [Num number, Num (word_of_int (pid (table (sys_of k) ! caller k)))])) (cons k);
     Some (Returns (- 1) (k\<lparr>cons := c\<rparr>))
   }"

definition syscall_handler :: "environment \<Rightarrow> u32 \<Rightarrow> u32 \<Rightarrow> u32 \<Rightarrow> u32 \<Rightarrow> kernel \<Rightarrow> outcome option" where
  "syscall_handler ev number arg1 arg2 arg3 k =
     (if number = 0 then map_option (\<lambda>s. Gone (upd_sys (\<lambda>_. s) k)) (proc_exit (sint arg1) (sys_of k))
      else if number = 1 then returns (sys_write arg1 arg2 arg3 k)
      else if number = 2 then waits (sys_read (e_keys ev) arg1 arg2 arg3 k)
      else if number = 3 then later sched_yield k
      else if number = 4 then later (thread_sleep_ms arg1) k
      else if number = 5 then Some (Returns (pid (table (sys_of k) ! caller k)) k)
      else if number = 6 then Some (Returns (sint (ucast (timer_ms (sys_of k)) :: u32)) k)
      else if number = 7 then returns (sys_fs_write arg1 arg2 arg3 k)
      else if number = 8 then returns (sys_fs_read arg1 arg2 arg3 k)
      else if number = 9 then map_option (\<lambda>c. Returns 0 (k\<lparr>cons := c\<rparr>)) (console_putc (ucast arg1) (cons k))
      else if number = 10 then (case proc_sbrk (sint arg1) (sys_of k) of (a, s) \<Rightarrow> Some (Returns (sint a) (upd_sys (\<lambda>_. s) k)))
      else if number = 11 then returns (sys_spawn (e_entry ev) (e_pending ev) arg1 arg2 arg3 k)
      else if number = 12 then sys_wait arg1 arg2 k
      else if number = 20 then returns (sys_opendir arg1 arg2 arg3 k)
      else if number = 21 then returns (sys_stat arg1 arg2 k)
      else if number = SYS_UNLINK \<or> number = SYS_MKDIR \<or> number = SYS_CHDIR then returns (sys_path_op arg1 number k)
      else if number = 24 then returns (sys_fs_append arg1 arg2 arg3 k)
      else if number = 26 then returns (sys_getcwd arg1 arg2 k)
      else if number = 30 then returns (sys_gui_create arg1 arg2 arg3 k)
      else if number = 31 then returns (sys_gui_info arg1 arg2 k)
      else if number = 32 then
        on_desk (wm_invalidate (caller k) arg1 (sint (ucast arg2 :: u16)) (sint (ucast (drop_bit 16 arg2) :: u16))
          (uint (arg3 AND 0xFFFF)) (uint (drop_bit 16 arg3)) (desk k)) k
      else if number = 33 then returns (sys_gui_poll arg1 arg2 k)
      else if number = 34 then waits (sys_gui_wait arg1 arg2 arg3 k)
      else if number = 35 then on_desk_vm (wm_destroy_window (Some (caller k)) arg1 (desk k, user_vm k)) k
      else if number = 36 then sys_gui_title arg1 arg2 k
      else if number = 37 then on_desk (wm_move_window (caller k) arg1 (sint arg2) (sint arg3) (desk k)) k
      else if number = 38 then on_desk_vm (wm_resize_window (caller k) arg1 (sint arg2) (sint arg3) (desk k, user_vm k)) k
      else if number = 39 then returns (sys_gui_list arg1 arg2 k)
      else if number = 40 then on_desk (wm_activate arg1 (desk k)) k
      else if number = 41 then on_desk (wm_minimize arg1 (desk k)) k
      else if number = 42 then returns (sys_gui_screen arg1 k)
      else if number = 43 then on_desk (wm_set_flags (caller k) arg1 arg2 (desk k)) k
      else if number = 50 then returns (sys_sysinfo (e_cpuid ev) arg1 k)
      else if number = 51 then returns (sys_proclist arg1 arg2 k)
      else if number = 52 then
        map_option (\<lambda>(r, s). case r of Some x \<Rightarrow> Returns x (upd_sys (\<lambda>_. s) k) | None \<Rightarrow> Gone (upd_sys (\<lambda>_. s) k)) (proc_kill (sint arg1) (sys_of k))
      else if number = 53 then returns (sys_log arg1 arg2 k)
      else if number = 54 then returns (sys_time arg1 k)
      else if number = 55 \<or> number = 56 then Some Stopped
      else if number = 57 then returns (sys_font arg1 arg2 k)
      else unknown_call number k)"
end
