(* ===== verification/SyscallSpec.thy ===== *)
theory SyscallSpec
  imports Syscall
begin

text \<open>
  What the system calls promise to the rest of the system: user memory is touched only through checked pointers.  Calls that answer a question write only
  into the range they were given, bad pointers are refused without any effect, and strings are copied from user memory without a fault.
\<close>

unbundle bit_operations_syntax

section \<open>User memory\<close>

text \<open>Bytes of the caller's memory that the kernel can read and write: they are in the user half and mapped.\<close>

definition mapped :: "virt_addr \<Rightarrow> nat \<Rightarrow> kernel \<Rightarrow> bool" where
  "mapped a n k \<longleftrightarrow> (\<forall>i < n. user_page (a + of_nat i) \<and> walk (user_vm k) (Proc_space (caller k)) (a + of_nat i) \<noteq> None \<and>
     unat (a + of_nat i) = unat a + i)"

lemma access_mapped:
  assumes "vmm_access_ok_in (Proc_space (caller k)) a n wr (user_vm k)"
  shows "mapped a (unat n) k"
proof (cases "n = 0")
  case False
  have r: "unat USER_MIN \<le> unat a" "unat a + unat n \<le> unat USER_MAX"
    "\<And>b. unat a \<le> unat b \<Longrightarrow> unat b < unat a + unat n \<Longrightarrow> may_access (user_vm k) (Proc_space (caller k)) wr b"
    using assms False unfolding access_ok_iff by auto
  have "user_page b \<and> walk (user_vm k) (Proc_space (caller k)) b \<noteq> None \<and> unat b = unat a + i" if "i < unat n" "b = a + of_nat i" for i b
  proof -
    have lt: "unat a + i < unat USER_MAX" using r(2) that by linarith
    have "i < 2 ^ 32" using that(1) unat_lt2p [of n] by simp
    moreover have "unat a + i < 2 ^ 32" using lt unat_lt2p [of USER_MAX] by simp
    ultimately have b: "unat b = unat a + i" unfolding that(2) by (simp add: unat_plus_if_size word_size unat_of_nat)
    then have "may_access (user_vm k) (Proc_space (caller k)) wr b" using r(3) [of b] that by simp
    then show ?thesis using b r(1) lt by (auto simp: may_access_def user_page_def word_le_nat_alt word_less_nat_alt split: option.splits)
  qed
  then show ?thesis by (simp add: mapped_def)
qed (simp add: mapped_def)

lemma range_mapped: "proc_user_range_ok a n (sys_of k) \<Longrightarrow> mapped a (unat n) k"
  by (auto simp: proc_user_range_ok_def Let_def intro: access_mapped split: if_splits)

lemma write_mapped: "proc_user_write_ok a n (sys_of k) \<Longrightarrow> mapped a (unat n) k"
  by (auto simp: proc_user_write_ok_def Let_def intro: access_mapped split: if_splits)

lemma mapped_sub:
  assumes "mapped a n k" and "j + m \<le> n"
  shows "mapped (a + of_nat j) m k"
  unfolding mapped_def
proof (intro allI impI)
  fix i
  assume i: "i < m"
  have e: "a + of_nat j + of_nat i = a + of_nat (j + i)" by simp
  have "j < n" "j + i < n" using assms(2) i by auto
  then show "user_page (a + of_nat j + of_nat i) \<and> walk (user_vm k) (Proc_space (caller k)) (a + of_nat j + of_nat i) \<noteq> None \<and>
      unat (a + of_nat j + of_nat i) = unat (a + of_nat j) + i"
    using assms(1) unfolding mapped_def e by (auto dest!: spec [of _ j] spec [of _ "j + i"])
qed

lemma those_some: "(\<And>x. x \<in> set xs \<Longrightarrow> x \<noteq> None) \<Longrightarrow> those xs = Some (map the xs)"
proof (induction xs)
  case (Cons x xs)
  then obtain y where "x = Some y" by fastforce
  then show ?case using Cons by simp
qed simp

lemma user_load_mapped:
  assumes "mapped a (unat n) k"
  shows "user_load a n k = Some (map (\<lambda>i. the (user_byte (user_vm k) (Proc_space (caller k)) (a + of_nat i))) [0..<unat n])"
  unfolding user_load_def using assms by (subst those_some) (auto simp: mapped_def user_byte_def)

text \<open>Only bytes of the caller's memory from \<open>a\<close> on have changed, at most \<open>n\<close> of them; page tables, files and console are as before.\<close>

definition wrote :: "virt_addr \<Rightarrow> nat \<Rightarrow> kernel \<Rightarrow> kernel \<Rightarrow> bool" where
  "wrote a n k k' \<longleftrightarrow> (\<exists>m. files k' = files (upd_sys (upd_vm (\<lambda>v. v\<lparr>mem := m\<rparr>)) k)) \<and> cons k' = cons k \<and>
     vm_iso (user_vm k') \<and> walk (user_vm k') = walk (user_vm k) \<and>
     (\<forall>sp b. user_page b \<longrightarrow> \<not> (sp = Proc_space (caller k) \<and> unat a \<le> unat b \<and> unat b < unat a + n) \<longrightarrow>
        user_byte (user_vm k') sp b = user_byte (user_vm k) sp b)"

lemma sys_of_upd [simp]: "sys_of (upd_sys f k) = f (sys_of k)" "desk (upd_sys f k) = desk k" "cons (upd_sys f k) = cons k" "clock (upd_sys f k) = clock k"
  by (simp_all add: upd_sys_def)

lemma caller_upd_vm [simp]: "proc_current (upd_vm f s) = proc_current s"
  by (auto simp: proc_current_def thread_current_def upd_vm_def split: option.split)

lemma sys_of_fields [simp]: "sys_of (k\<lparr>desk := g\<rparr>) = sys_of k" "sys_of (k\<lparr>clock := c\<rparr>) = sys_of k" "sys_of (k\<lparr>cons := d\<rparr>) = sys_of k"
  by simp_all

lemma wrote_caller: "wrote a n k k' \<Longrightarrow> caller k' = caller k"
  by (auto simp: wrote_def upd_sys_def)

lemma wrote_mapped: "wrote a n k k' \<Longrightarrow> mapped b m k' = mapped b m k"
  using wrote_caller [of a n k k'] by (simp add: mapped_def wrote_def)

lemma wrote_iso: "wrote a n k k' \<Longrightarrow> vm_iso (user_vm k')"
  by (simp add: wrote_def)

lemma wrote_refl: "vm_iso (user_vm k) \<Longrightarrow> files k' = files k \<Longrightarrow> cons k' = cons k \<Longrightarrow> wrote a n k k'"
  by (auto simp: wrote_def upd_sys_def upd_vm_def intro: exI [of _ "mem (user_vm k)"])

lemma wrote_trans:
  assumes "wrote a n k k1" and "wrote a n k1 k2"
  shows "wrote a n k k2"
proof -
  have c: "caller k1 = caller k" using wrote_caller [OF assms(1)] .
  obtain m1 m2 where m: "files k1 = files (upd_sys (upd_vm (\<lambda>v. v\<lparr>mem := m1\<rparr>)) k)" "files k2 = files (upd_sys (upd_vm (\<lambda>v. v\<lparr>mem := m2\<rparr>)) k1)"
    using assms by (auto simp: wrote_def)
  then have "files k2 = files (upd_sys (upd_vm (\<lambda>v. v\<lparr>mem := m2\<rparr>)) k)" by (simp add: upd_sys_def upd_vm_def)
  then show ?thesis using assms c unfolding wrote_def by auto
qed

lemma wrote_less:
  assumes "wrote b m k k'" and "b = a + of_nat j" and "j + m \<le> n" and "mapped a n k"
  shows "wrote a n k k'"
proof (cases "m = 0")
  case True
  then show ?thesis using assms(1) by (auto simp: wrote_def)
next
  case False
  then have "unat b = unat a + j" using assms(2-4) by (auto simp: mapped_def)
  then show ?thesis using assms(1,3) by (auto simp: wrote_def)
qed

lemma store_user_ok:
  assumes "vm_iso v" and "\<And>i. i < length bs \<Longrightarrow> user_page (a + of_nat i) \<and> walk v sp (a + of_nat i) \<noteq> None \<and> unat (a + of_nat i) = unat a + i"
  shows "\<exists>m. store_user sp a bs v = Some (v\<lparr>mem := m\<rparr>) \<and> vm_iso (v\<lparr>mem := m\<rparr>) \<and> walk (v\<lparr>mem := m\<rparr>) = walk v \<and>
    (\<forall>sp1 b. user_page b \<longrightarrow> user_byte (v\<lparr>mem := m\<rparr>) sp1 b =
       (if sp1 = sp \<and> unat a \<le> unat b \<and> unat b < unat a + length bs then Some (bs ! (unat b - unat a)) else user_byte v sp1 b))"
  using assms
proof (induction bs arbitrary: a v)
  case Nil
  show ?case using Nil.prems(1) by (intro exI [of _ "mem v"]) auto
next
  case (Cons x bs)
  have a: "user_page a" "walk v sp a \<noteq> None" using Cons.prems(2) [of 0] by auto
  then obtain e where e: "walk v sp a = Some e" by auto
  have fit: "unat a mod 4096 + length [x] \<le> 4096" by simp
  let ?v = "v\<lparr>mem := write_bytes (user_addr e a) [x] (mem v)\<rparr>"
  note cw = chunk_write [OF Cons.prems(1) a(1) e fit]
  have nx: "user_page (a + 1 + of_nat i) \<and> walk ?v sp (a + 1 + of_nat i) \<noteq> None \<and> unat (a + 1 + of_nat i) = unat (a + 1) + i \<and> unat (a + 1) = unat a + 1"
    if "i < length bs" for i
  proof -
    have "bs \<noteq> []" using that by auto
    then show ?thesis using Cons.prems(2) [of "Suc i"] Cons.prems(2) [of 1] that unfolding cw(2) by (auto simp: add_ac)
  qed
  obtain m where m: "store_user sp (a + 1) bs ?v = Some (?v\<lparr>mem := m\<rparr>)" "vm_iso (?v\<lparr>mem := m\<rparr>)" "walk (?v\<lparr>mem := m\<rparr>) = walk ?v"
    "\<And>sp1 b. user_page b \<Longrightarrow> user_byte (?v\<lparr>mem := m\<rparr>) sp1 b =
       (if sp1 = sp \<and> unat (a + 1) \<le> unat b \<and> unat b < unat (a + 1) + length bs then Some (bs ! (unat b - unat (a + 1))) else user_byte ?v sp1 b)"
    using Cons.IH [OF cw(1), of "a + 1"] nx by blast
  have "user_byte (v\<lparr>mem := m\<rparr>) sp1 b =
      (if sp1 = sp \<and> unat a \<le> unat b \<and> unat b < unat a + length (x # bs) then Some ((x # bs) ! (unat b - unat a)) else user_byte v sp1 b)"
    if b: "user_page b" for sp1 b
  proof (cases "bs = []")
    case True
    then show ?thesis using m(4) [OF b, of sp1] cw(4) [OF b, of sp1] by (auto split: if_splits)
  next
    case False
    then have "unat (a + 1) = unat a + 1" using nx [of 0] by simp
    then show ?thesis using m(4) [OF b, of sp1] cw(4) [OF b, of sp1] by (auto simp: nth_Cons' split: if_splits)
  qed
  then show ?case using m e cw(2) by (intro exI [of _ m]) simp
qed

lemma user_store_ok:
  assumes iso: "vm_iso (user_vm k)" and m: "mapped a (length bs) k"
  shows "\<exists>k'. user_store a bs k = Some k' \<and> wrote a (length bs) k k' \<and> desk k' = desk k \<and> clock k' = clock k \<and>
    (\<forall>i < length bs. user_byte (user_vm k') (Proc_space (caller k)) (a + of_nat i) = Some (bs ! i))"
proof -
  obtain mm where mm: "store_user (Proc_space (caller k)) a bs (user_vm k) = Some ((user_vm k)\<lparr>mem := mm\<rparr>)" "vm_iso ((user_vm k)\<lparr>mem := mm\<rparr>)"
    "walk ((user_vm k)\<lparr>mem := mm\<rparr>) = walk (user_vm k)"
    "\<And>sp1 b. user_page b \<Longrightarrow> user_byte ((user_vm k)\<lparr>mem := mm\<rparr>) sp1 b =
       (if sp1 = Proc_space (caller k) \<and> unat a \<le> unat b \<and> unat b < unat a + length bs then Some (bs ! (unat b - unat a)) else user_byte (user_vm k) sp1 b)"
    using store_user_ok [OF iso, of bs a "Proc_space (caller k)"] m unfolding mapped_def by blast
  let ?k = "upd_sys (upd_vm (\<lambda>_. (user_vm k)\<lparr>mem := mm\<rparr>)) k"
  have vm: "user_vm ?k = (user_vm k)\<lparr>mem := mm\<rparr>" by (simp add: upd_vm_def)
  have f: "files ?k = files (upd_sys (upd_vm (\<lambda>v. v\<lparr>mem := mm\<rparr>)) k)" by (simp add: upd_sys_def upd_vm_def)
  have "wrote a (length bs) k ?k" unfolding wrote_def vm using f mm(2-4) by auto
  moreover have "user_byte (user_vm ?k) (Proc_space (caller k)) (a + of_nat i) = Some (bs ! i)" if "i < length bs" for i
    using mm(4) [of "a + of_nat i"] m that unfolding vm mapped_def by auto
  ultimately show ?thesis using mm(1) by (simp add: user_store_def)
qed

lemma store_within:
  assumes "vm_iso (user_vm k)" and "wrote a n k k1" and "mapped a n k" and "b = a + of_nat j" and "j + length bs \<le> n"
  shows "\<exists>k2. user_store b bs k1 = Some k2 \<and> wrote a n k k2 \<and> desk k2 = desk k1 \<and> clock k2 = clock k1"
proof -
  have m1: "mapped a n k1" using wrote_mapped [OF assms(2)] assms(3) by simp
  have "mapped b (length bs) k1" unfolding assms(4) by (rule mapped_sub [OF m1 assms(5)])
  then obtain k2 where k2: "user_store b bs k1 = Some k2" "wrote b (length bs) k1 k2" "desk k2 = desk k1" "clock k2 = clock k1"
    using user_store_ok [OF wrote_iso [OF assms(2)]] by blast
  then show ?thesis using wrote_trans [OF assms(2) wrote_less [OF k2(2) assms(4,5) m1]] by blast
qed

lemma strlcpy_bytes_length: "0 < n \<Longrightarrow> length (strlcpy_bytes s n) \<le> n"
  by (auto simp: strlcpy_bytes_def)

lemma copy_string_some: "\<exists>r o'. copy_string_loop n i p out (sys_of k) = Some (r, o')"
proof (induction n arbitrary: i out)
  case (Suc n)
  show ?case
  proof (cases "proc_user_range_ok (p + of_nat i) 1 (sys_of k)")
    case True
    then have "user_byte (user_vm k) (Proc_space (caller k)) (p + of_nat i) \<noteq> None"
      using range_mapped [OF True] by (auto simp: mapped_def user_byte_def)
    then show ?thesis using True Suc.IH by auto
  qed simp
qed simp

lemma user_string_some: "\<exists>r s. user_string p n k = Some (r, s)"
  using copy_string_some [of "n - 1" 0 p "replicate n 0" k] by (auto simp: user_string_def proc_copy_user_string_def)

lemma lookup_some:
  assumes "tree_ok (nodes v) (vroot v) S K"
  shows "\<exists>p. vfs_lookup c path v = Some p"
  using lookup_loop_ok [OF assms tree_okD(1) [OF assms]] by (auto simp: vfs_lookup_def split: prod.split)

text \<open>A kernel whose parts are well formed.\<close>

definition kernel_ok :: "kernel \<Rightarrow> bool" where
  "kernel_ok k \<longleftrightarrow> vm_iso (user_vm k) \<and> (\<exists>cs. heap_ok (kh (sys_of k)) cs) \<and> (\<exists>S K. tree_ok (nodes (files k)) (vroot (files k)) S K) \<and>
     (\<exists>b t0 t1 N. ticks_once b t0 t1 N (clock k) \<and> civil_ok t0 \<and> civil_ok t1)"

lemma wrote_nodes: "wrote a n k k' \<Longrightarrow> nodes (files k') = nodes (files k)"
  by (auto simp: wrote_def upd_sys_def)

lemma opendir_loop_ok:
  assumes iso: "vm_iso (user_vm k)" and m: "mapped a n k" and k1: "wrote a n k k1" and out: "out = a + of_nat j" "j + cnt * 40 \<le> n"
  shows "\<exists>r k2. opendir_loop cnt child out k1 = Some (r, k2) \<and> wrote a n k k2"
  using k1 out
proof (induction cnt arbitrary: child out j k1)
  case (Suc cnt)
  show ?case
  proof (cases "child = 0")
    case False
    let ?nd = "nodes (files k1) child"
    obtain k2 where k2: "user_store out (le_bytes (ucast (ntype ?nd))) k1 = Some k2" "wrote a n k k2"
      using store_within [OF iso Suc.prems(1) m Suc.prems(2), of "le_bytes (ucast (ntype ?nd))"] Suc.prems(3) by (auto simp: le_bytes_def)
    have o4: "out + 4 = a + of_nat (j + 4)" "out + 8 = a + of_nat (j + 8)" "out + SIZEOF_DIRENT = a + of_nat (j + 40)" using Suc.prems(2) by (simp_all add: SIZEOF_DIRENT_def)
    obtain k3 where k3: "user_store (out + 4) (le_bytes (nsize ?nd)) k2 = Some k3" "wrote a n k k3"
      using store_within [OF iso k2(2) m o4(1), of "le_bytes (nsize ?nd)"] Suc.prems(3) by (auto simp: le_bytes_def)
    have "j + 8 + length (strlcpy_bytes (nname ?nd) SYS_NAME_MAX) \<le> n"
      using strlcpy_bytes_length [of SYS_NAME_MAX "nname ?nd"] Suc.prems(3) by (simp add: SYS_NAME_MAX_def)
    then obtain k4 where k4: "user_store (out + 8) (strlcpy_bytes (nname ?nd) SYS_NAME_MAX) k3 = Some k4" "wrote a n k k4"
      using store_within [OF iso k3(2) m o4(2)] by blast
    obtain r k5 where "opendir_loop cnt (next_sibling ?nd) (out + SIZEOF_DIRENT) k4 = Some (r, k5)" "wrote a n k k5"
      using Suc.IH [OF k4(2) o4(3), of "next_sibling ?nd"] Suc.prems(3) by auto
    then show ?thesis using False k2(1) k3(1) k4(1) by (simp add: Let_def)
  qed (use Suc.prems in simp)
qed simp

lemma store_descs_ok:
  assumes iso: "vm_iso (user_vm k)" and m: "mapped a n k" and k1: "wrote a n k k1" and out: "out = a + of_nat j" "j + length ds * 68 \<le> n"
  shows "\<exists>k2. store_descs out ds k1 = Some k2 \<and> wrote a n k k2"
  using k1 out
proof (induction ds arbitrary: out j k1)
  case (Cons d ds)
  let ?w = "bytes_of [wd_id d, word_of_int (wd_pid d), wd_flags d, wd_state d, if wd_focused d then 1 else 0]"
  have o4: "out + 20 = a + of_nat (j + 20)" "out + 68 = a + of_nat (j + 68)" using Cons.prems(2) by simp_all
  obtain k2 where k2: "user_store out ?w k1 = Some k2" "wrote a n k k2"
    using store_within [OF iso Cons.prems(1) m Cons.prems(2), of ?w] Cons.prems(3) by (auto simp: bytes_of_def le_bytes_def)
  have "j + 20 + length (strlcpy_bytes (wd_title d) GUI_MAX_TITLE) \<le> n"
    using strlcpy_bytes_length [of GUI_MAX_TITLE "wd_title d"] Cons.prems(3) by (simp add: GUI_MAX_TITLE_def)
  then obtain k3 where k3: "user_store (out + 20) (strlcpy_bytes (wd_title d) GUI_MAX_TITLE) k2 = Some k3" "wrote a n k k3"
    using store_within [OF iso k2(2) m o4(1)] by blast
  show ?case using Cons.IH [OF k3(2) o4(2)] Cons.prems(3) k2(1) k3(1) by auto
qed simp

lemma list_loop_length: "length (list_loop f room zs g) \<le> room"
proof (induction zs arbitrary: room)
  case (Cons z zs)
  show ?case using Cons [of room] Cons [of "room - 1"] by (cases room) (auto simp: Let_def split: option.split)
qed simp

lemma collect_ok:
  assumes iso: "vm_iso (user_vm k)" and m: "mapped a n k" and st: "st = Some (c, k1)" "wrote a n k k1" "c \<le> mx" and fit: "mx * 52 \<le> n"
  shows "\<exists>c' k2. collect_process a mx p st = Some (c', k2) \<and> wrote a n k k2 \<and> c' \<le> mx"
proof (cases "mx \<le> c")
  case True
  then show ?thesis using st by (simp add: collect_process_def)
next
  case False
  let ?w = "bytes_of [word_of_int (pid p), word_of_int (parent p), state_number (pstate p), (user_pages p * PAGE_SIZE) div 1024, 0]"
  have at: "a + 52 * of_nat c = a + of_nat (52 * c)" "a + 52 * of_nat c + 20 = a + of_nat (52 * c + 20)" "52 * c + 52 \<le> n" using False fit by auto
  obtain k2 where k2: "user_store (a + 52 * of_nat c) ?w k1 = Some k2" "wrote a n k k2"
    using store_within [OF iso st(2) m at(1), of ?w] at(3) by (auto simp: bytes_of_def le_bytes_def)
  have "52 * c + 20 + length (strlcpy_bytes (pname p) SYS_NAME_MAX) \<le> n"
    using strlcpy_bytes_length [of SYS_NAME_MAX "pname p"] at(3) by (simp add: SYS_NAME_MAX_def)
  then obtain k3 where "user_store (a + 52 * of_nat c + 20) (strlcpy_bytes (pname p) SYS_NAME_MAX) k2 = Some k3" "wrote a n k k3"
    using store_within [OF iso k2(2) m at(2)] by blast
  then show ?thesis using False st(1) k2(1) by (simp add: collect_process_def Let_def)
qed

lemma foreach_ok:
  assumes iso: "vm_iso (user_vm k)" and m: "mapped a n k" and fit: "mx * 52 \<le> n"
    and st: "st = Some (c, k1)" "wrote a n k k1" "c \<le> mx"
  shows "\<exists>c' k2. fold (\<lambda>i c. if pstate (table s ! i) \<noteq> PROC_FREE then collect_process a mx (table s ! i) c else c) is st = Some (c', k2) \<and> wrote a n k k2"
  using st
proof (induction "is" arbitrary: st c k1)
  case (Cons i "is")
  show ?case
  proof (cases "pstate (table s ! i) = PROC_FREE")
    case True
    then show ?thesis using Cons.IH [OF Cons.prems] by simp
  next
    case False
    obtain c' k2 where "collect_process a mx (table s ! i) st = Some (c', k2)" "wrote a n k k2" "c' \<le> mx"
      using collect_ok [OF iso m Cons.prems fit] by blast
    from Cons.IH [OF this] show ?thesis using False by simp
  qed
qed simp

section \<open>Queries write only where they were told to\<close>

definition confined_call :: "virt_addr \<Rightarrow> u32 \<Rightarrow> kernel \<Rightarrow> (int \<times> kernel) option \<Rightarrow> bool" where
  "confined_call a n k res \<longleftrightarrow> (\<exists>r k'. res = Some (r, k') \<and> wrote a (unat n) k k' \<and> (\<not> proc_user_write_ok a n (sys_of k) \<longrightarrow> r = - 1 \<and> k' = k))"

lemma confined_refused: "vm_iso (user_vm k) \<Longrightarrow> confined_call a n k (Some (- 1, k))"
  by (simp add: confined_call_def wrote_refl)

lemma confined_done: "proc_user_write_ok a n (sys_of k) \<Longrightarrow> wrote a (unat n) k k' \<Longrightarrow> confined_call a n k (Some (r, k'))"
  by (simp add: confined_call_def)

text \<open>One structure stored at the start of the range.\<close>

lemma confined_store:
  assumes "vm_iso (user_vm k)" and "proc_user_write_ok a n (sys_of k)" and "files k0 = files k" "cons k0 = cons k" and "length bs \<le> unat n"
  shows "confined_call a n k (do { k1 \<leftarrow> user_store a bs k0; Some (r, k1) })"
proof -
  obtain k1 where "user_store a bs k0 = Some k1" "wrote a (unat n) k k1"
    using store_within [OF assms(1) wrote_refl [OF assms(1,3,4)] write_mapped [OF assms(2)], of a 0 bs] assms(5) by auto
  then show ?thesis using confined_done [OF assms(2)] by simp
qed

lemma confined_unless:
  assumes "vm_iso (user_vm k)" and "proc_user_write_ok a n (sys_of k) \<Longrightarrow> confined_call a n k res"
  shows "confined_call a n k (if \<not> proc_user_write_ok a n (sys_of k) then Some (- 1, k) else res)"
  using assms confined_refused by auto

lemma getcwd_confined: "vm_iso (user_vm k) \<Longrightarrow> confined_call buf n k (sys_getcwd buf n k)"
  using strlcpy_bytes_length [of "unat n" "the (caller_cwd k)"]
  by (auto simp: sys_getcwd_def unat_gt_0 confined_refused intro!: confined_store)

lemma gui_info_confined: "vm_iso (user_vm k) \<Longrightarrow> confined_call out 32 k (sys_gui_info id0 out k)"
  unfolding sys_gui_info_def USER_STRUCT_def
  by (intro confined_unless)
    (auto simp: wm_window_info_def Let_def info_bytes_def confined_done wrote_refl intro!: confined_store split: option.split)

lemma gui_poll_confined: "vm_iso (user_vm k) \<Longrightarrow> confined_call out 40 k (sys_gui_poll id0 out k)"
  unfolding sys_gui_poll_def USER_STRUCT_def
  by (intro confined_unless)
    (auto simp: poll_into_def event_bytes_def confined_done wrote_refl intro!: confined_store split: prod.split option.split)

lemma gui_screen_confined: "vm_iso (user_vm k) \<Longrightarrow> confined_call out 8 k (sys_gui_screen out k)"
  unfolding sys_gui_screen_def USER_STRUCT_def by (intro confined_unless) (auto intro!: confined_store)

lemma log_read_length: "length (console_log_read n c) \<le> unat n"
  by (auto simp: console_log_read_def Let_def word_le_nat_alt word_less_nat_alt)

lemma log_confined: "vm_iso (user_vm k) \<Longrightarrow> confined_call buf n k (sys_log buf n k)"
  unfolding sys_log_def Let_def by (intro confined_unless) (auto simp: log_read_length intro!: confined_store)

lemma font_confined: "vm_iso (user_vm k) \<Longrightarrow> confined_call out (min n 4096) k (sys_font out n k)"
proof -
  have "(if 4096 < n then 4096 else n) = min n 4096" for n :: u32 by auto
  then show "vm_iso (user_vm k) \<Longrightarrow> ?thesis" unfolding sys_font_def Let_def by (simp only:) (auto intro!: confined_refused confined_store)
qed

lemma time_confined:
  assumes "vm_iso (user_vm k)" and "rtc_read (clock k) = Some (t, c)"
  shows "confined_call out 24 k (sys_time out k)"
  using assms unfolding sys_time_def USER_STRUCT_def by (intro confined_unless) (auto intro!: confined_store)

lemma gui_list_confined:
  assumes iso: "vm_iso (user_vm k)"
  shows "confined_call out (min n 32 * 68) k (sys_gui_list out n k)"
proof -
  have m: "(if 32 < n then 32 else n) = min n 32" by auto
  have le: "unat (min n 32) \<le> 32" by (simp add: min_def word_le_nat_alt)
  then have u: "unat (min n 32 * 68) = unat (min n 32) * 68" by (subst unat_mult_lem [THEN iffD1]) auto
  have s: "nat (sint (min n 32)) = unat (min n 32)" using le by (subst sint_small32) auto
  have ok: "confined_call out (min n 32 * 68) k (do { k1 \<leftarrow> store_descs out ds k; Some (r, k1) })"
    if w: "proc_user_write_ok out (min n 32 * 68) (sys_of k)" and l: "length ds \<le> unat (min n 32)" for ds r
  proof -
    obtain k1 where "store_descs out ds k = Some k1" "wrote out (unat (min n 32 * 68)) k k1"
      using store_descs_ok [OF iso write_mapped [OF w] wrote_refl [OF iso], of k out 0 ds] l u by auto
    then show ?thesis using confined_done [OF w] by simp
  qed
  show ?thesis
    unfolding sys_gui_list_def m Let_def using ok list_loop_length
    by (auto simp: wm_list_windows_def Let_def s confined_refused [OF iso] intro!: ok)
qed

lemma proclist_confined:
  assumes iso: "vm_iso (user_vm k)"
  shows "confined_call out (min n 32 * 52) k (sys_proclist out n k)"
proof -
  have m: "(if of_nat MAX_PROCESSES < n then of_nat MAX_PROCESSES else n) = min n 32" by (auto simp: MAX_PROCESSES_def)
  have le: "unat (min n 32) \<le> 32" by (simp add: min_def word_le_nat_alt)
  then have u: "unat (min n 32 * 52) = unat (min n 32) * 52" by (subst unat_mult_lem [THEN iffD1]) auto
  have ok: "confined_call out (min n 32 * 52) k
      (do { (count, k1) \<leftarrow> proc_foreach (collect_process out (unat (min n 32))) (sys_of k) (Some (0, k)); Some (int count, k1) })"
    if w: "proc_user_write_ok out (min n 32 * 52) (sys_of k)"
  proof -
    obtain c k1 where "proc_foreach (collect_process out (unat (min n 32))) (sys_of k) (Some (0, k)) = Some (c, k1)"
        "wrote out (unat (min n 32 * 52)) k k1"
      using foreach_ok [OF iso write_mapped [OF w], of "unat (min n 32)" "Some (0, k)" 0 k "sys_of k" "[0..<MAX_PROCESSES]"] wrote_refl [OF iso, of k] u
      by (auto simp: proc_foreach_def)
    then show ?thesis using confined_done [OF w] by simp
  qed
  show ?thesis unfolding sys_proclist_def m Let_def using ok confined_refused [OF iso] by simp
qed

lemma sysinfo_confined:
  assumes iso: "vm_iso (user_vm k)" and heap: "kheap_stats (kh (sys_of k)) = Some st"
  shows "confined_call out 120 k (sys_sysinfo cpuid out k)"
proof -
  obtain u f t b where st: "st = (u, f, t, b)" by (cases st)
  have ok: "confined_call out 120 k (do {
        k1 \<leftarrow> user_store out (bytes_of ws) k;
        k2 \<leftarrow> user_store (out + 44) (strlcpy_bytes s1 52) k1;
        k3 \<leftarrow> user_store (out + 96) (strlcpy_bytes s2 24) k2;
        Some (0, k3) })"
    if w: "proc_user_write_ok out 120 (sys_of k)" and l: "length ws = 11" for ws s1 s2
  proof -
    note m = write_mapped [OF w, simplified]
    obtain k1 where k1: "user_store out (bytes_of ws) k = Some k1" "wrote out 120 k k1"
      using store_within [OF iso wrote_refl [OF iso] m, of k out 0 "bytes_of ws"] l by auto
    obtain k2 where k2: "user_store (out + 44) (strlcpy_bytes s1 52) k1 = Some k2" "wrote out 120 k k2"
      using store_within [OF iso k1(2) m, of "out + 44" 44 "strlcpy_bytes s1 52"] strlcpy_bytes_length [of 52 s1] by auto
    obtain k3 where k3: "user_store (out + 96) (strlcpy_bytes s2 24) k2 = Some k3" "wrote out 120 k k3"
      using store_within [OF iso k2(2) m, of "out + 96" 96 "strlcpy_bytes s2 24"] strlcpy_bytes_length [of 24 s2] by auto
    show ?thesis using confined_done [OF w] k1(1) k2(1) k3 by simp
  qed
  show ?thesis
    unfolding sys_sysinfo_def USER_STRUCT_def heap st
    by (rule confined_unless [OF iso]) (simp add: sfs_stats_def cpu_identify_def Let_def ok)
qed

lemma stat_confined:
  assumes iso: "vm_iso (user_vm k)" and tree: "tree_ok (nodes (files k)) (vroot (files k)) S K"
  shows "confined_call out 12 k (sys_stat path out k)"
proof -
  obtain r s where us: "user_string path FS_PATH_MAX k = Some (r, s)" using user_string_some by blast
  obtain p where p: "vfs_lookup (caller_cwd k) s (files k) = Some p" using lookup_some [OF tree] by blast
  show ?thesis unfolding sys_stat_def USER_STRUCT_def us
    by (rule confined_unless [OF iso]) (auto simp: p Let_def intro!: confined_refused [OF iso] confined_store [OF iso])
qed

lemma opendir_confined:
  assumes iso: "vm_iso (user_vm k)" and tree: "tree_ok (nodes (files k)) (vroot (files k)) S K"
  shows "confined_call out (mx * 40) k (sys_opendir path out mx k)"
proof -
  obtain r s where us: "user_string path FS_PATH_MAX k = Some (r, s)" using user_string_some by blast
  obtain p where p: "vfs_lookup (caller_cwd k) s (files k) = Some p" using lookup_some [OF tree] by blast
  have ok: "confined_call out (mx * 40) k (opendir_loop (unat mx) c out k)"
    if w: "proc_user_write_ok out (mx * 40) (sys_of k)" and le: "\<not> 0xFFFFFFFF div 40 < mx" for c
  proof -
    have "unat mx \<le> 107374182" using le by (simp add: word_less_nat_alt not_less)
    then have u: "unat (mx * 40) = unat mx * 40" by (subst unat_mult_lem [THEN iffD1]) auto
    then obtain r k2 where "opendir_loop (unat mx) c out k = Some (r, k2)" "wrote out (unat (mx * 40)) k k2"
      using opendir_loop_ok [OF iso write_mapped [OF w] wrote_refl [OF iso], of k out 0 "unat mx" c] by auto
    then show ?thesis using confined_done [OF w] by simp
  qed
  show ?thesis unfolding sys_opendir_def us SIZEOF_DIRENT_def
    using ok by (auto simp: p intro: confined_refused [OF iso])
qed

lemma heap_stats_some:
  assumes "heap_ok h cs"
  shows "\<exists>st. kheap_stats h = Some st"
proof -
  obtain l where "linked (kmem h) 0 (first_block h) cs l 0" "placed 0xD0000000 cs (unat (heap_end h))" using heap_okD [OF assms] by metis
  then show ?thesis using stats_walk_ok [of "kmem h" 0 "first_block h" cs l] by (simp add: kheap_stats_def)
qed

text \<open>The output range of a query: where its pointer argument points, and the size of what it may store there.\<close>

definition out_range :: "u32 \<Rightarrow> u32 \<Rightarrow> u32 \<Rightarrow> u32 \<Rightarrow> u32 \<times> u32" where
  "out_range number arg1 arg2 arg3 =
     (if number = 20 then (arg2, arg3 * 40) else if number = 21 then (arg2, 12) else if number = 26 then (arg1, arg2)
      else if number = 31 then (arg2, 32) else if number = 33 then (arg2, 40) else if number = 39 then (arg1, min arg2 32 * 68)
      else if number = 42 then (arg1, 8) else if number = 50 then (arg1, 120) else if number = 51 then (arg1, min arg2 32 * 52)
      else if number = 53 then (arg1, arg2) else if number = 54 then (arg1, 24) else (arg1, min arg2 4096))"

definition sample_kernel :: kernel where
  "sample_kernel =
     \<lparr>files = root_fs\<lparr>disk := (disk root_fs)\<lparr>ker := sbrk_sys\<lparr>kh := used_heap\<lparr>kvm := stack_vm\<rparr>\<rparr>\<rparr>\<rparr>,
      desk = empty_wm, cons = boot_console, clock = noon_clock\<rparr>"

definition user_env :: environment where
  "user_env = \<lparr>e_keys = [], e_cpuid = (\<lambda>_. (0, 0, 0, 0)), e_entry = 0, e_pending = (\<lambda>_. 0)\<rparr>"

lemma sample_caller: "caller sample_kernel = 1" "user_vm sample_kernel = stack_vm"
  by (simp_all add: sample_kernel_def proc_current_def thread_current_def sbrk_sys_def spawn_sys_def sched_init_def upd_tcb_def)

lemma sample_access: "vmm_access_ok_in (Proc_space 1) 0x407FF000 16 True stack_vm"
  by code_simp

lemma sample_write_ok: "proc_user_write_ok 0x407FF000 16 (sys_of sample_kernel)"
  using sample_access by (simp add: proc_user_write_ok_def sample_caller)

lemma sample_kernel_ok: "kernel_ok sample_kernel"
  unfolding kernel_ok_def
proof (intro conjI)
  show "vm_iso (user_vm sample_kernel)" unfolding sample_caller by (rule stack_vm_mapped(1))
  show "\<exists>cs. heap_ok (kh (sys_of sample_kernel)) cs" using used_heap_ok by (auto simp: sample_kernel_def heap_ok_def intro!: exI [of _ "[used_cell]"])
  show "\<exists>S K. tree_ok (nodes (files sample_kernel)) (vroot (files sample_kernel)) S K"
    using root_fs_inv(1) by (auto simp: sample_kernel_def fs_inv_def)
  have "ticks_once 0 \<lparr>c_second = 59, c_minute = 59, c_hour = 12, c_day = 31, c_month = 12, c_year = 25\<rparr>
      \<lparr>c_second = 0, c_minute = 0, c_hour = 13, c_day = 31, c_month = 12, c_year = 25\<rparr> 3 (clock sample_kernel)"
    by (auto simp: ticks_once_def noon_clock_def sample_kernel_def)
  then show "\<exists>b t0 t1 N. ticks_once b t0 t1 N (clock sample_kernel) \<and> civil_ok t0 \<and> civil_ok t1"
    by (auto simp: civil_ok_def intro!: exI)
qed



section \<open>Bad pointers\<close>

text \<open>The memory a call is given to read (\<open>False\<close>) or to write (\<open>True\<close>).\<close>

definition pointer_range :: "u32 \<Rightarrow> u32 \<Rightarrow> u32 \<Rightarrow> u32 \<Rightarrow> bool \<times> u32 \<times> u32" where
  "pointer_range number arg1 arg2 arg3 =
     (if number = 1 \<or> number = 7 \<or> number = 24 then (False, arg2, arg3)
      else if number = 2 \<or> number = 8 then (True, arg2, arg3)
      else if number = 34 then (True, arg2, 40)
      else (True, out_range number arg1 arg2 arg3))"

text \<open>
  C8: Every call that takes a buffer, for every argument and every state of the kernel: when the calling process may not read, or for an output may not
  write, every byte of the buffer (it reaches into the kernel, wraps around, is not mapped or is read only), or the caller is not a user process, the call returns -1 and leaves the whole
  kernel as it was.
\<close>

theorem syscall_bad_pointer:
  assumes call: "number \<in> {1, 2, 7, 8, 20, 21, 24, 26, 31, 33, 34, 39, 42, 50, 51, 53, 54, 57}"
    and range: "pointer_range number arg1 arg2 arg3 = (wr, a, n)"
    and bad: "caller k = 0 \<or> \<not> vmm_access_ok_in (Proc_space (caller k)) a n wr (user_vm k)"
  shows "syscall_handler ev number arg1 arg2 arg3 k = Some (Returns (- 1) k)"
proof -
  have no: "\<not> (if wr then proc_user_write_ok a n (sys_of k) else proc_user_range_ok a n (sys_of k))"
    using bad by (auto simp: proc_user_write_ok_def proc_user_range_ok_def Let_def)
  obtain r s where us: "user_string arg1 FS_PATH_MAX k = Some (r, s)" using user_string_some by blast
  have mins: "(if 32 < arg2 then 32 else arg2) = min arg2 32" "(if of_nat MAX_PROCESSES < arg2 then of_nat MAX_PROCESSES else arg2) = min arg2 32"
    "(if 4096 < arg2 then 4096 else arg2) = min arg2 4096" by (auto simp: MAX_PROCESSES_def)
  note defs = sys_write_def sys_read_def sys_fs_write_def sys_fs_append_def sys_fs_put_def sys_fs_read_def sys_opendir_def sys_stat_def sys_getcwd_def
    sys_gui_info_def sys_gui_poll_def sys_gui_wait_def sys_gui_list_def sys_gui_screen_def sys_sysinfo_def sys_proclist_def sys_log_def sys_time_def sys_font_def
    USER_STRUCT_def SIZEOF_DIRENT_def
  from call range no show ?thesis
    by (elim insertE emptyE; hypsubst)
      (simp add: syscall_handler_def pointer_range_def out_range_def SYS_UNLINK_def SYS_MKDIR_def SYS_CHDIR_def defs us mins Let_def returns_def waits_def
        split: if_splits)+
qed

theorem syscall_bad_pointer_witness:
  "syscall_handler user_env 26 0x1000 16 0 sample_kernel = Some (Returns (- 1) sample_kernel)"
proof -
  have "pointer_range 26 0x1000 16 0 = (True, 0x1000, 16)" by (simp add: pointer_range_def out_range_def)
  moreover have "\<not> vmm_access_ok_in (Proc_space (caller sample_kernel)) 0x1000 16 True (user_vm sample_kernel)"
    unfolding access_ok_iff by (simp add: USER_MIN_def USER_MAX_def)
  ultimately show ?thesis by (intro syscall_bad_pointer) auto
qed

section \<open>User strings\<close>

abbreviation byte_at :: "kernel \<Rightarrow> virt_addr \<Rightarrow> nat \<Rightarrow> u8 option" where
  "byte_at k p i \<equiv> user_byte (user_vm k) (Proc_space (caller k)) (p + of_nat i)"

text \<open>There is a string of length \<open>l\<close> at \<open>p + i\<close> that the caller can read, with its terminator.\<close>

definition text_at :: "kernel \<Rightarrow> virt_addr \<Rightarrow> nat \<Rightarrow> nat \<Rightarrow> bool" where
  "text_at k p i l \<longleftrightarrow> (\<forall>j \<ge> i. j \<le> l \<longrightarrow> proc_user_range_ok (p + of_nat j) 1 (sys_of k)) \<and> i \<le> l \<and> byte_at k p l = Some 0 \<and>
     (\<forall>j \<ge> i. j < l \<longrightarrow> byte_at k p j \<noteq> Some 0)"

lemma text_at_unique: "text_at k p i l \<Longrightarrow> text_at k p i m \<Longrightarrow> l = m"
  unfolding text_at_def by (metis linorder_neqE_nat)

lemma text_at_step: "proc_user_range_ok (p + of_nat i) 1 (sys_of k) \<Longrightarrow> byte_at k p i \<noteq> Some 0 \<Longrightarrow> text_at k p i l \<longleftrightarrow> text_at k p (Suc i) l"
proof -
  assume a: "proc_user_range_ok (p + of_nat i) 1 (sys_of k)" "byte_at k p i \<noteq> Some 0"
  have ge: "i \<le> j \<longleftrightarrow> j = i \<or> Suc i \<le> j" for j by auto
  show "text_at k p i l \<longleftrightarrow> text_at k p (Suc i) l" using a unfolding text_at_def ge by auto
qed

lemma range_byte: "proc_user_range_ok (p + of_nat i) 1 (sys_of k) \<Longrightarrow> \<exists>c. byte_at k p i = Some c"
  using range_mapped [of "p + of_nat i" 1 k] by (auto simp: mapped_def user_byte_def)

lemma copy_loop_spec:
  assumes "i + n < length out"
  shows "\<exists>r s. copy_string_loop n i p out (sys_of k) = Some (r, s) \<and> length s = length out \<and>
    (\<forall>l. text_at k p i l \<longrightarrow> l < i + n \<longrightarrow> r = int l \<and> (\<forall>j \<ge> i. j \<le> l \<longrightarrow> byte_at k p j = Some (s ! j)) \<and> (\<forall>j < i. s ! j = out ! j)) \<and>
    ((\<forall>l < i + n. \<not> text_at k p i l) \<longrightarrow> r = - 1)"
  using assms
proof (induction n arbitrary: i out)
  case 0
  then show ?case by (auto simp: text_at_def)
next
  case (Suc n)
  show ?case
  proof (cases "proc_user_range_ok (p + of_nat i) 1 (sys_of k)")
    case False
    then have "\<not> text_at k p i l" for l by (auto simp: text_at_def)
    then show ?thesis using False by simp
  next
    case True
    obtain c where c: "byte_at k p i = Some c" using range_byte [OF True] by blast
    show ?thesis
    proof (cases "c = 0")
      case c0: True
      have t: "text_at k p i l \<longleftrightarrow> l = i" for l using text_at_unique [of k p i l i] True c c0 by (auto simp: text_at_def)
      show ?thesis using True c c0 Suc.prems by (simp add: t)
    next
      case False
      have t: "text_at k p i l \<longleftrightarrow> text_at k p (Suc i) l" for l using text_at_step [OF True] c False by simp
      obtain r s where rs: "copy_string_loop n (Suc i) p (out[i := c]) (sys_of k) = Some (r, s)" "length s = length out"
        "\<And>l. text_at k p (Suc i) l \<Longrightarrow> l < Suc i + n \<Longrightarrow> r = int l \<and> (\<forall>j \<ge> Suc i. j \<le> l \<longrightarrow> byte_at k p j = Some (s ! j)) \<and> (\<forall>j < Suc i. s ! j = out[i := c] ! j)"
        "(\<forall>l < Suc i + n. \<not> text_at k p (Suc i) l) \<Longrightarrow> r = - 1"
        using Suc.IH [of "Suc i" "out[i := c]"] Suc.prems by auto
      have "r = int l \<and> (\<forall>j \<ge> i. j \<le> l \<longrightarrow> byte_at k p j = Some (s ! j)) \<and> (\<forall>j < i. s ! j = out ! j)" if "text_at k p (Suc i) l" "l < i + Suc n" for l
      proof -
        have l: "r = int l" "\<And>j. Suc i \<le> j \<Longrightarrow> j \<le> l \<Longrightarrow> byte_at k p j = Some (s ! j)" "\<And>j. j < Suc i \<Longrightarrow> s ! j = out[i := c] ! j"
          using rs(3) [OF that(1)] that(2) by auto
        have "byte_at k p i = Some (s ! i)" using l(3) [of i] c Suc.prems by simp
        then have "byte_at k p j = Some (s ! j)" if "i \<le> j" "j \<le> l" for j using l(2) [of j] that by (cases "j = i") auto
        then show ?thesis using l(1,3) by simp
      qed
      then show ?thesis using True c False rs(1,2,4) by (simp add: t)
    qed
  qed
qed

end
