(* ===== verification/Spec2Isabelle.thy ===== *)
theory Spec2Isabelle
  imports Div64 Sentinel Input Kprintf Sched Elf Gfx Proc Wm VfsSpec Console Rtc SyscallSpec
begin

text \<open>
  SifarOS is a 32-bit x86 kernel in C with a small graphical user land.  This library models its core,
  \<^verbatim>\<open>src/kernel\<close>, as HOL functions and proves what makes each part correct.

  \<^bold>\<open>How the program is put together.\<close>  The frame allocator (\<^verbatim>\<open>mm/pmm.c\<close>) hands out physical pages.  Paging
  (\<^verbatim>\<open>mm/paging.c\<close>) builds page tables from them, one address space per process with a shared kernel half.  The kernel heap
  (\<^verbatim>\<open>mm/kheap.c\<close>) maps frames into a window of the kernel half and hands out blocks; the scheduler (\<^verbatim>\<open>sched.c\<close>) keeps its
  threads and stacks there.  The ELF loader (\<^verbatim>\<open>elf.c\<close>) fills a fresh address space from a file image, and the
  process layer (\<^verbatim>\<open>proc.c\<close>) joins loader, stack, thread and table slot.  The PS/2 drivers feed a queue of input events
  that the window server (\<^verbatim>\<open>gui/wm.c\<close>) routes to windows; their pixels live in frames mapped into the owner's address
  space and are composed with the drawing routines of \<^verbatim>\<open>gfx/gfx.c\<close>.  The virtual file system (\<^verbatim>\<open>fs/vfs.c\<close>) keeps a tree of
  nodes on the kernel heap and dispatches to two file systems: one in heap buffers (\<^verbatim>\<open>fs/ramfs.c\<close>) and one on the disk
  (\<^verbatim>\<open>fs/sfs.c\<close>), with bitmap, inode table, indirect blocks and directories, over the polled driver \<^verbatim>\<open>dev/ata.c\<close>.  Programs reach all of this through the
  system calls (\<^verbatim>\<open>syscall.c\<close>), which check every pointer against the page tables of the caller.

  \<^bold>\<open>Theories.\<close>
  \<^item> \<open>SifarPrelude\<close>: word arithmetic, alignment macros and page constants of \<^verbatim>\<open>types.h\<close> and \<^verbatim>\<open>mm.h\<close>; the collection \<open>u_simps\<close>.
  \<^item> \<open>RingBuffers\<close>: the locales \<open>bounded_fifo\<close>, \<open>ring_buffer\<close> and \<open>overwriting_log\<close>, interpreted for the
    keyboard ring, the input queue, the window event queues and the security log.
  \<^item> \<open>Bitmaps\<close>, \<open>Pmm\<close>: the bitmap and the frame allocator.  \<open>PhysMem\<close>: byte addressed memory and little endian words.
    \<open>Paging\<close>: page tables stored in that memory; \<open>walk\<close> is what the processor's page walk computes, \<open>vm_ok\<close> the
    well-formedness of all tables and \<open>vm_iso\<close> adds that no user frame is mapped twice.
  \<^item> \<open>KString\<close>, \<open>Kprintf\<close>, \<open>Div64\<close>: the support library.
  \<^item> \<open>Kheap\<close>: headers stored byte by byte in the heap's memory; \<open>heap_ok h cs\<close> relates the memory to a list of blocks.
  \<^item> \<open>KState\<close>, \<open>Sched\<close>: thread table, switching, sleeping, exit, join, kill and reaping, with the timer interrupt;
    \<open>sched_step\<close> is the step relation of the running kernel.
  \<^item> \<open>UserMem\<close>, \<open>Elf\<close>: user memory seen through the page tables, and the loader.  \<open>Proc\<close>: the process layer.
  \<^item> \<open>ByteLists\<close>, \<open>CNames\<close>: little endian fields in byte lists, and comparing C strings.  \<open>Ata\<close>: the disk driver; the drive is a parameter,
    the bytes of its medium and the stream of values its status register shows.
  \<^item> \<open>Sfs\<close>: the disk file system on blocks, inodes and directory entries.  \<open>SfsDisk\<close>: blocks, superblock and bitmap on a drive that
    answers, and allocation; \<open>SfsFile\<close>: \<open>sfs_ok\<close>, the consistency of a volume (no block in two places, bitmap, free count and
    superblock exact on disk), with reading and writing; \<open>SfsTrunc\<close>: releasing blocks; \<open>SfsDir\<close>: directory entries and creating
    inodes; \<open>SfsSpec\<close>: the properties on file contents and names, and a sample volume.
  \<^item> \<open>VfsPath\<close>: path resolution on text.  \<open>VfsNode\<close>: nodes, children and lookup.  \<open>Ramfs\<close>: the RAM file system, \<open>RamfsSpec\<close>
    its properties.  \<open>SfsOps\<close>: the disk file system's operations on nodes, and mounting.  \<open>Vfs\<close>: creating, removing, reading and
    writing through the operation tables.  \<open>VfsTree\<close>: \<open>tree_ok\<close>, the nodes as a tree with sorted children, and how linking and
    unlinking change it; \<open>VfsSpec\<close>: looking up and creating.
  \<^item> \<open>Sentinel\<close>, \<open>Input\<close>, \<open>Gfx\<close>, \<open>Wm\<close>: security log, PS/2 keyboard and mouse, drawing, window server.
  \<^item> \<open>Console\<close>: serial line, text screen, framebuffer console and kernel log.  \<open>Rtc\<close>: the clock.  The registers of both
    chips are parameters: what they show on successive reads.
  \<^item> \<open>Syscall\<close>: the state of the whole kernel and every system call of \<^verbatim>\<open>syscall.c\<close> with the dispatch; user memory is accessed through the
    page tables of the caller.  \<open>SyscallSpec\<close>: their properties.

  \<^bold>\<open>Conventions.\<close>  C structs are records, enums datatypes, \<^verbatim>\<open>uint32_t\<close> is a 32-bit word with its wrap-around and
  \<^verbatim>\<open>int\<close> an unbounded integer where the code never relies on wrapping.  Static variables of a file are the fields of its
  state record, and every function takes and returns that state.  A C pointer into a table is the index of the slot.
  A panic, a fault of the kernel and a read outside an array are the value \<open>None\<close>; the error codes of the source are kept.
  Interrupts are masked around the modelled critical sections, so each operation is one step; waiting loops are
  modelled round by round.

  \<^bold>\<open>Bounds and fuel.\<close>  No loop of the model has an artificial bound on its results.  The walks over the heap's block list
  are partial functions whose termination is proved on well-formed heaps.  \<open>handle_input\<close> polls at most 128 times in a
  round, which is enough because the input queue holds at most 127 events.  The walks along sibling pointers are partial functions too, and return on
  every well-formed tree.  \<open>build_tree\<close> counts down from 17 the levels the code counts up to 16; the waits of the disk driver
  poll four million times, as the code does.

  \<^bold>\<open>What is shown.\<close>  The frame allocator returns exactly free frames and its counters are exact; a range of user memory
  passes the kernel's check exactly when user mode may access it; address spaces stay isolated under mapping, range
  allocation with rollback, creation and destruction; heap blocks never overlap and live contents are kept; the scheduler
  keeps its tables consistent in every run and runs every ready thread; the loader is safe on hostile images and loads
  accepted ones exactly; the first stack of a process has the layout the C runtime expects; drawing stays inside the
  clip rectangle; stacking order, focus, damage list and event queues of the window server stay consistent.  On a consistent volume, reading, writing and
  truncating a file of the disk file system and adding and removing a directory entry do to file contents and names exactly what they
  should, keep every other file and keep the volume consistent on the disk itself; the same for files in RAM and the heap below them.
  A transfer on a failing drive moves a prefix of its sectors and nothing else.  Looking a path up follows its names through the tree, and
  creating a node makes exactly that path lead somewhere new.  Console output stays inside the memory of every attached screen and the log returns the last bytes
  written; a clock that ticks while it is read is never seen half updated.  System calls refuse every buffer their caller may not access without any effect, copy strings from user
  memory without a fault, and the calls that answer a question write nothing but their own output range.

  \<^bold>\<open>Not modelled.\<close>  The interrupt controller and other code that only does port input and output, descriptor
  table encodings, the boot sector, the shell, the self tests, and the user library and applications.
\<close>

end
